(* ===== verification/Prelude.thy ===== *)
theory Prelude
  imports Main "HOL-Library.Word" "HOL-Library.Sublist"
begin

text \<open>
  What every component shares: the names of the machine integers, the outcome of a C
  function that may fail (\<open>cres\<close>), size_t addition, big-endian and little-endian byte
  strings, and the collections \<open>cres_simps\<close> and \<open>byte_simps\<close>.
\<close>

unbundle bit_operations_syntax

named_theorems cres_simps
named_theorems byte_simps

section \<open>Machine integers and byte strings\<close>

type_synonym u8 = "8 word"
type_synonym u16 = "16 word"
type_synonym u32 = "32 word"
type_synonym u64 = "64 word"
type_synonym bytes = "u8 list"

text \<open>
  The platforms of the pods are 64-bit: \<open>size_t\<close> is a natural number below \<open>2 ^ 64\<close> and its
  addition wraps.
\<close>

abbreviation size_max :: nat where
  "size_max \<equiv> 2 ^ 64"

definition size_add :: "nat \<Rightarrow> nat \<Rightarrow> nat" where
  "size_add a b = (a + b) mod size_max"

lemma size_add_exact [simp]: "a + b < size_max \<Longrightarrow> size_add a b = a + b"
  by (simp add: size_add_def)

lemma size_add_overflow: "a < size_max \<Longrightarrow> b < size_max \<Longrightarrow> size_add a b < a \<longleftrightarrow> size_max \<le> a + b"
  by (auto simp add: size_add_def mod_if le_mod_geq)

section \<open>The outcome of a fallible C function\<close>

text \<open>
  A C function that returns 1 or 0 and works on an object through a pointer is a function
  from the object's state to the written out-parameter (\<open>None\<close> for the return value 0) and
  the state it leaves behind. The state after a failure is kept, because several functions
  of the program consume part of their input before they fail.
\<close>

type_synonym ('a, 's) cres = "'a option \<times> 's"

definition cbind :: "('a, 's) cres \<Rightarrow> ('a \<Rightarrow> 's \<Rightarrow> ('b, 's) cres) \<Rightarrow> ('b, 's) cres" where
  "cbind m f = (case m of (None, s) \<Rightarrow> (None, s) | (Some v, s) \<Rightarrow> f v s)"

lemma cbind_None [simp, cres_simps]: "cbind (None, s) f = (None, s)"
  by (simp add: cbind_def)

lemma cbind_Some [simp, cres_simps]: "cbind (Some v, s) f = f v s"
  by (simp add: cbind_def)

lemma cbind_eq_Some [cres_simps]:
  "cbind m f = (Some b, s') \<longleftrightarrow> (\<exists>v s. m = (Some v, s) \<and> f v s = (Some b, s'))"
  by (auto simp: cbind_def split: prod.splits option.splits)

lemma cbind_eq_None:
  "cbind m f = (None, s') \<longleftrightarrow>
     m = (None, s') \<or> (\<exists>v s. m = (Some v, s) \<and> f v s = (None, s'))"
  by (auto simp: cbind_def split: prod.splits option.splits)

lemma cbind_split:
  "P (cbind m f) \<longleftrightarrow>
     (\<forall>s. m = (None, s) \<longrightarrow> P (None, s)) \<and> (\<forall>v s. m = (Some v, s) \<longrightarrow> P (f v s))"
  by (cases m; cases "fst m") auto

lemma cbind_cong [fundef_cong]:
  assumes "m = m'" and "\<And>v s. m' = (Some v, s) \<Longrightarrow> f v s = g v s"
  shows "cbind m f = cbind m' g"
  using assms by (auto simp: cbind_def split: prod.splits option.splits)

section \<open>Big-endian and little-endian numbers\<close>

text \<open>The loop \<open>result <<= 8; result |= data[i]\<close> over a byte string.\<close>

definition be_step :: "u64 \<Rightarrow> u8 \<Rightarrow> u64" where
  "be_step result b = push_bit 8 result OR ucast b"

definition be_word :: "bytes \<Rightarrow> u64" where
  "be_word bs = foldl be_step 0 bs"

text \<open>The same number, read mathematically.\<close>

definition be_nat :: "bytes \<Rightarrow> nat" where
  "be_nat bs = foldl (\<lambda>n b. 256 * n + unat b) 0 bs"

lemma be_nat_Nil [simp, byte_simps]: "be_nat [] = 0"
  by (simp add: be_nat_def)

lemma be_nat_snoc [simp, byte_simps]: "be_nat (bs @ [b]) = 256 * be_nat bs + unat b"
  by (simp add: be_nat_def)

lemma be_word_Nil [simp, byte_simps]: "be_word [] = 0"
  by (simp add: be_word_def)

lemma be_word_snoc [byte_simps]: "be_word (bs @ [b]) = be_step (be_word bs) b"
  by (simp add: be_word_def)

lemma unat_ucast_widen [simp]:
  "LENGTH('a) \<le> LENGTH('b) \<Longrightarrow> unat (ucast (x :: 'a::len word) :: 'b::len word) = unat x"
  by (simp add: unsigned_ucast_eq take_bit_nat_eq_self_iff)
    (rule order_less_le_trans [OF unsigned_less], simp)

lemma unat_u8_less [simp]: "unat (b :: u8) < 256"
  using unsigned_less [of b] by simp

lemma be_nat_bound: "be_nat bs < 256 ^ length bs"
proof (induction bs rule: rev_induct)
  case Nil
  then show ?case by simp
next
  case (snoc b bs)
  have "256 * be_nat bs + unat b < 256 * be_nat bs + 256"
    by simp
  also have "\<dots> = 256 * (be_nat bs + 1)" by simp
  also have "\<dots> \<le> 256 * 256 ^ length bs"
    using snoc by (intro mult_le_mono2) simp
  finally show ?case by simp
qed

text \<open>The bytes of a number, most significant first.\<close>

fun be_bytes :: "nat \<Rightarrow> nat \<Rightarrow> bytes" where
  "be_bytes 0 n = []"
| "be_bytes (Suc k) n = be_bytes k (n div 256) @ [of_nat n]"

lemma length_be_bytes [simp, byte_simps]: "length (be_bytes k n) = k"
  by (induction k arbitrary: n) auto

lemma be_nat_be_bytes [byte_simps]: "be_nat (be_bytes k n) = n mod 256 ^ k"
proof (induction k arbitrary: n)
  case 0
  then show ?case by simp
next
  case (Suc k)
  have "be_nat (be_bytes (Suc k) n) = 256 * (n div 256 mod 256 ^ k) + n mod 256"
    by (simp add: Suc unat_of_nat)
  also have "\<dots> = n mod (256 * 256 ^ k)"
    by (simp add: mod_mult2_eq)
  finally show ?case by simp
qed

lemma be_bytes_be_nat: "be_bytes (length bs) (be_nat bs) = bs"
proof (induction bs rule: rev_induct)
  case Nil
  then show ?case by simp
next
  case (snoc b bs)
  have "(256 * be_nat bs + unat b) div 256 = be_nat bs"
    by simp
  moreover have "(of_nat (256 * be_nat bs + unat b) :: u8) = b"
    by (simp only: word_unat_eq_iff unat_of_nat) simp
  ultimately show ?case
    using snoc by simp
qed

lemma be_bytes_inj:
  assumes "be_nat bs = be_nat cs" and "length bs = length cs"
  shows "bs = cs"
  using assms be_bytes_be_nat by metis

text \<open>The accumulating loop computes the number as long as it fits in 64 bits.\<close>

lemma unat_be_step: "unat (be_step r b) = (256 * unat r + unat b) mod 2 ^ 64"
proof -
  have "push_bit 8 r AND ucast b = (0 :: u64)"
    by (rule bit_word_eqI) (auto simp: bit_simps dest: bit_imp_le_length)
  then have "be_step r b = push_bit 8 r + ucast b"
    by (simp add: be_step_def disjunctive_add_eq_or)
  also have "push_bit 8 r = 256 * r"
    by (simp add: push_bit_eq_mult)
  finally show ?thesis
    by (simp add: unat_word_ariths mod_simps)
qed

lemma unat_be_word: "length bs \<le> 8 \<Longrightarrow> unat (be_word bs) = be_nat bs"
proof (induction bs rule: rev_induct)
  case Nil
  then show ?case by simp
next
  case (snoc b bs)
  then have *: "unat (be_word bs) = be_nat bs" by simp
  have "be_nat (bs @ [b]) < 256 ^ length (bs @ [b])"
    by (rule be_nat_bound)
  also have "\<dots> \<le> 256 ^ 8"
    using snoc.prems by (intro power_increasing) auto
  finally show ?case
    by (simp add: be_word_snoc unat_be_step *)
qed

section \<open>Seven-bit groups\<close>

text \<open>
  Varints, tag numbers and OID components use the top bit of a byte as a continuation flag
  and the other seven as a digit.
\<close>

lemma and_0x80_eq_0_iff [byte_simps]: "b AND 0x80 = 0 \<longleftrightarrow> unat b < 128" for b :: u8
proof -
  have "b AND 0x80 = 0 \<longleftrightarrow> \<not> bit b 7"
    using and_exp_eq_0_iff_not_bit [of b 7] by simp
  also have "\<dots> \<longleftrightarrow> even (unat b div 2 ^ 7)"
    using bit_iff_odd [of "unat b" 7] by (simp add: bit_unsigned_iff)
  also have "\<dots> \<longleftrightarrow> unat b < 128"
  proof
    assume "even (unat b div 2 ^ 7)"
    moreover have "unat b div 2 ^ 7 < 2"
      by (rule less_mult_imp_div_less) simp
    ultimately have "unat b div 2 ^ 7 = 0"
      by (metis less_2_cases odd_one One_nat_def)
    then show "unat b < 128" by simp
  qed simp
  finally show ?thesis .
qed

lemma u8_mod_128: "128 \<le> unat b \<Longrightarrow> unat b mod 128 = unat b - 128" for b :: u8
  by (simp add: le_mod_geq less_diff_conv2)

lemma and_0x7f_mask: "x AND 0x7f = take_bit 7 x" for x :: "'a::len word"
  by (simp add: take_bit_eq_mask mask_eq_exp_minus_1)

lemma unat_and_0x7f [byte_simps]: "unat (x AND 0x7f) = unat x mod 128" for x :: "'a::len word"
  unfolding and_0x7f_mask by (simp only: unsigned_take_bit_eq) (simp add: take_bit_eq_mod)

lemma unat_septet_step:
  assumes "unat v < 2 ^ 57"
  shows "unat (push_bit 7 v OR (ucast (b :: u8) AND 0x7f) :: u64) = 128 * unat v + unat b mod 128"
proof -
  have "push_bit 7 v AND (ucast b AND 0x7f) = (0 :: u64)"
    by (rule bit_word_eqI) (auto simp: bit_simps and_0x7f_mask)
  then have "push_bit 7 v OR (ucast b AND 0x7f) = push_bit 7 v + (ucast b AND 0x7f :: u64)"
    by (simp add: disjunctive_add_eq_or)
  then have "unat (push_bit 7 v OR (ucast b AND 0x7f) :: u64) = (128 * unat v + unat b mod 128) mod 2 ^ 64"
    by (simp add: push_bit_eq_mult unat_word_ariths byte_simps mod_simps mult.commute)
  also have "\<dots> = 128 * unat v + unat b mod 128"
  proof (rule mod_less)
    have "unat b mod 128 < 128" by simp
    with assms show "128 * unat v + unat b mod 128 < 2 ^ 64" by simp
  qed
  finally show ?thesis .
qed

lemma drop_bit_eq_0_iff_unat: "drop_bit n v = 0 \<longleftrightarrow> unat v < 2 ^ n" for v :: "'a::len word"
proof -
  have "drop_bit n v = 0 \<longleftrightarrow> unat (drop_bit n v) = 0"
    by (simp add: unat_eq_0)
  also have "\<dots> \<longleftrightarrow> unat v < 2 ^ n"
    by (simp only: unat_drop_bit_eq) (simp add: drop_bit_eq_div div_eq_0_iff)
  finally show ?thesis .
qed

section \<open>Fields of a word\<close>

lemma mod_interval: "q * k \<le> m \<Longrightarrow> m < Suc q * k \<Longrightarrow> m mod k = m - q * k" for m k q :: nat
  by (metis div_nat_eqI minus_div_mult_eq_mod mult.commute)

lemma unat_and_mask: "unat (x AND mask k) = unat x mod 2 ^ k" for x :: "'a::len word"
  unfolding take_bit_eq_mask [symmetric] by (simp only: unsigned_take_bit_eq) (simp add: take_bit_eq_mod)

lemma bit_lt_power: "unat x < 2 ^ k \<Longrightarrow> bit x n \<Longrightarrow> n < k" for x :: "'a::len word"
proof (rule ccontr)
  assume x: "unat x < 2 ^ k" and b: "bit x n" and "\<not> n < k"
  then have "(2 :: nat) ^ k \<le> 2 ^ n" by (intro power_increasing) simp_all
  with x have "unat x < 2 ^ n" by (rule order_less_le_trans)
  then have "unat x div 2 ^ n = 0" by (rule div_less)
  moreover have "odd (unat x div 2 ^ n)"
    using b bit_iff_odd [of "unat x" n] by (simp add: bit_unsigned_iff)
  ultimately show False by simp
qed

lemma unat_push_or:
  fixes x v :: "'a::len word"
  assumes "unat x < 2 ^ k" and "unat v * 2 ^ k + unat x < 2 ^ LENGTH('a)"
  shows "unat (push_bit k v OR x) = unat v * 2 ^ k + unat x"
proof -
  have "push_bit k v AND x = 0"
    by (intro bit_word_eqI) (auto simp: bit_simps dest: bit_lt_power [OF assms(1)] leD)
  then have "push_bit k v OR x = push_bit k v + x"
    by (simp add: disjunctive_add_eq_or)
  also have "push_bit k v + x = of_nat (unat v * 2 ^ k + unat x)"
    by (simp add: push_bit_eq_mult)
  finally show ?thesis
    using assms(2) by (simp only: unat_of_nat mod_less)
qed

lemma and_not_mask: "x AND NOT (mask k) = push_bit k (drop_bit k x)" for x :: "'a::len word"
  by (rule bit_word_eqI) (auto simp: bit_simps)

lemma unat_and_not_mask: "unat (x AND NOT (mask k)) = unat x - unat x mod 2 ^ k" for x :: "'a::len word"
proof -
  have "unat (push_bit k y) = unat y * 2 ^ k mod 2 ^ LENGTH('a)" for y :: "'a word"
    by (simp only: unsigned_push_bit_eq) (simp add: push_bit_eq_mult take_bit_eq_mod)
  moreover have "unat (drop_bit k x) = unat x div 2 ^ k"
    by (simp only: unat_drop_bit_eq) (simp only: drop_bit_eq_div)
  ultimately have "unat (push_bit k (drop_bit k x)) = (unat x div 2 ^ k * 2 ^ k) mod 2 ^ LENGTH('a)"
    by simp
  also have "\<dots> = unat x div 2 ^ k * 2 ^ k"
    by (rule mod_less) (rule order_le_less_trans [OF _ unsigned_less [of x]], simp)
  finally show ?thesis
    by (simp only: and_not_mask minus_mod_eq_div_mult)
qed

section \<open>Memory\<close>

text \<open>\<open>memcpy\<close> of \<open>src\<close> into \<open>dst\<close> from index \<open>i\<close> on.\<close>

definition copy_at :: "bytes \<Rightarrow> nat \<Rightarrow> bytes \<Rightarrow> bytes" where
  "copy_at dst i src = take i dst @ src @ drop (i + length src) dst"

lemma length_copy_at: "i + length src \<le> length dst \<Longrightarrow> length (copy_at dst i src) = length dst"
  by (simp add: copy_at_def)

lemma take_copy_at: "i \<le> length dst \<Longrightarrow> take (i + length src) (copy_at dst i src) = take i dst @ src"
  by (simp add: copy_at_def min_def)

end
