(* ===== verification/Mem.thy ===== *)
theory Mem
  imports Prelude
begin

text \<open>
  The helpers of \<^verbatim>\<open>crypto/mem.c\<close> that the parsers and builders call: comparison, duplication
  and character classes. A C string is the list of its bytes up to (without) the NUL
  terminator. The system allocator is code outside the repository: it is the parameter
  \<open>malloc_ok\<close>, which says of a requested size whether the request succeeds.
\<close>

section \<open>Constant-time comparison and hashing\<close>

text \<open>The loop \<open>x |= a[i] ^ b[i]\<close>; the result is 0 exactly for equal inputs.\<close>

fun memcmp_loop :: "u8 \<Rightarrow> bytes \<Rightarrow> bytes \<Rightarrow> nat \<Rightarrow> u8" where
  "memcmp_loop x a b 0 = x"
| "memcmp_loop x a b (Suc n) = memcmp_loop (x OR (hd a XOR hd b)) (tl a) (tl b) n"

definition CRYPTO_memcmp :: "bytes \<Rightarrow> bytes \<Rightarrow> nat \<Rightarrow> u8" where
  "CRYPTO_memcmp in_a in_b len = memcmp_loop 0 in_a in_b len"

definition OPENSSL_hash32 :: "bytes \<Rightarrow> u32" where
  "OPENSSL_hash32 ptr = foldl (\<lambda>h b. (h XOR ucast b) * 16777619) 2166136261 ptr"

definition OPENSSL_strhash :: "bytes \<Rightarrow> u32" where
  "OPENSSL_strhash s = OPENSSL_hash32 s"

section \<open>Strings and duplication\<close>

definition OPENSSL_memchr :: "bytes \<Rightarrow> u8 \<Rightarrow> nat option" where
  "OPENSSL_memchr s c = (if c \<in> set s then Some (length (takeWhile (\<lambda>b. b \<noteq> c) s)) else None)"

fun OPENSSL_strnlen :: "bytes \<Rightarrow> nat \<Rightarrow> nat" where
  "OPENSSL_strnlen s 0 = 0"
| "OPENSSL_strnlen s (Suc len) = (if hd s = 0 then 0 else Suc (OPENSSL_strnlen (tl s) len))"

definition OPENSSL_memdup :: "(nat \<Rightarrow> bool) \<Rightarrow> bytes \<Rightarrow> bytes option" where
  "OPENSSL_memdup malloc_ok data =
     (if length data = 0 then None
      else if \<not> malloc_ok (length data) then None
      else Some data)"

text \<open>The result is the new block: the copied characters and the terminator.\<close>

definition OPENSSL_strndup :: "(nat \<Rightarrow> bool) \<Rightarrow> bytes \<Rightarrow> nat \<Rightarrow> bytes option" where
  "OPENSSL_strndup malloc_ok str len =
     (let len = OPENSSL_strnlen str len;
          alloc_size = size_add len 1
      in if alloc_size < len then None
         else if \<not> malloc_ok alloc_size then None
         else Some (take len str @ [0]))"

text \<open>
  \<open>strlcpy\<close> returns the length of the source and writes at most \<open>dst_size\<close> bytes: the loop
  copies while more than one byte of room is left, then the terminator is stored if there
  is any room at all. The written prefix of the destination is the second component.
\<close>

fun strlcpy_loop :: "nat \<Rightarrow> bytes \<Rightarrow> nat \<Rightarrow> bytes \<Rightarrow> nat \<times> bytes \<times> nat \<times> bytes" where
  "strlcpy_loop l dst dst_size [] = (l, dst, dst_size, [])"
| "strlcpy_loop l dst dst_size (c # src) =
     (if 1 < dst_size then strlcpy_loop (Suc l) (dst @ [c]) (dst_size - 1) src
      else (l, dst, dst_size, c # src))"

definition OPENSSL_strlcpy :: "bytes \<Rightarrow> nat \<Rightarrow> nat \<times> bytes" where
  "OPENSSL_strlcpy src dst_size =
     (case strlcpy_loop 0 [] dst_size src of (l, dst, dst_size, src) \<Rightarrow>
        (l + length src, if dst_size \<noteq> 0 then dst @ [0] else dst))"

text \<open>
  \<open>strlcat\<close> walks to the terminator of \<open>dst\<close>, at most \<open>dst_size\<close> bytes, and copies there. \<open>dst\<close> is the
  whole block; the result is the length tried and the block afterwards.
\<close>

fun strlcat_loop :: "nat \<Rightarrow> bytes \<Rightarrow> nat \<Rightarrow> nat \<times> nat" where
  "strlcat_loop l (c # dst) (Suc dst_size) =
     (if c \<noteq> 0 then strlcat_loop (Suc l) dst dst_size else (l, Suc dst_size))"
| "strlcat_loop l dst dst_size = (l, dst_size)"

definition OPENSSL_strlcat :: "bytes \<Rightarrow> bytes \<Rightarrow> nat \<Rightarrow> nat \<times> bytes" where
  "OPENSSL_strlcat dst src dst_size =
     (case strlcat_loop 0 dst dst_size of (l, dst_size) \<Rightarrow>
        (case OPENSSL_strlcpy src dst_size of (n, written) \<Rightarrow> (l + n, copy_at dst l written)))"

section \<open>Character classes\<close>

definition OPENSSL_isalpha :: "int \<Rightarrow> bool" where
  "OPENSSL_isalpha c \<longleftrightarrow> (0x61 \<le> c \<and> c \<le> 0x7a) \<or> (0x41 \<le> c \<and> c \<le> 0x5a)"

definition OPENSSL_isdigit :: "int \<Rightarrow> bool" where
  "OPENSSL_isdigit c \<longleftrightarrow> 0x30 \<le> c \<and> c \<le> 0x39"

definition OPENSSL_isxdigit :: "int \<Rightarrow> bool" where
  "OPENSSL_isxdigit c \<longleftrightarrow>
     OPENSSL_isdigit c \<or> (0x61 \<le> c \<and> c \<le> 0x66) \<or> (0x41 \<le> c \<and> c \<le> 0x46)"

definition OPENSSL_fromxdigit :: "int \<Rightarrow> u8 option" where
  "OPENSSL_fromxdigit c =
     (if OPENSSL_isdigit c then Some (of_int (c - 0x30))
      else if 0x61 \<le> c \<and> c \<le> 0x66 then Some (of_int (c - 0x61 + 10))
      else if 0x41 \<le> c \<and> c \<le> 0x46 then Some (of_int (c - 0x41 + 10))
      else None)"

definition OPENSSL_isalnum :: "int \<Rightarrow> bool" where
  "OPENSSL_isalnum c \<longleftrightarrow> OPENSSL_isalpha c \<or> OPENSSL_isdigit c"

definition OPENSSL_tolower :: "int \<Rightarrow> int" where
  "OPENSSL_tolower c = (if 0x41 \<le> c \<and> c \<le> 0x5a then c + (0x61 - 0x41) else c)"

definition OPENSSL_isspace :: "int \<Rightarrow> bool" where
  "OPENSSL_isspace c \<longleftrightarrow> c = 0x09 \<or> c = 0x0a \<or> c = 0x0b \<or> c = 0x0c \<or> c = 0x0d \<or> c = 0x20"

text \<open>
  \<open>char\<close> is signed on the iOS targets, so a byte is read with \<open>sint\<close>. Reading past the end
  of the list is reading the terminator.
\<close>

fun OPENSSL_strcasecmp :: "bytes \<Rightarrow> bytes \<Rightarrow> int" where
  "OPENSSL_strcasecmp a b =
     (let aa = OPENSSL_tolower (case a of [] \<Rightarrow> 0 | c # _ \<Rightarrow> sint c);
          bb = OPENSSL_tolower (case b of [] \<Rightarrow> 0 | c # _ \<Rightarrow> sint c)
      in if aa < bb then - 1
         else if bb < aa then 1
         else case a of [] \<Rightarrow> 0 | c # a' \<Rightarrow> (if aa = 0 then 0 else OPENSSL_strcasecmp a' (tl b)))"

declare OPENSSL_strcasecmp.simps [simp del]

section \<open>Lemmas\<close>

lemma or_xor_eq_0_iff: "x OR (p XOR q) = 0 \<longleftrightarrow> x = 0 \<and> p = q" for x p q :: "'a::len word"
  by (auto simp: bit_eq_iff bit_simps)

lemma memcmp_loop_zero:
  "n \<le> length a \<Longrightarrow> n \<le> length b \<Longrightarrow>
     memcmp_loop x a b n = 0 \<longleftrightarrow> x = 0 \<and> take n a = take n b"
proof (induction n arbitrary: x a b)
  case 0
  then show ?case by simp
next
  case (Suc n)
  then obtain p a' q b' where "a = p # a'" "b = q # b'"
    by (metis Suc_le_length_iff)
  with Suc show ?case
    by (auto simp: or_xor_eq_0_iff)
qed

lemma length_takeWhile_less: "x \<in> set xs \<Longrightarrow> \<not> P x \<Longrightarrow> length (takeWhile P xs) < length xs"
  by (induction xs) auto

lemma memchr_Some:
  assumes "OPENSSL_memchr s c = Some i"
  shows "i < length s \<and> s ! i = c \<and> c \<notin> set (take i s)"
proof -
  from assms have c: "c \<in> set s" and i: "i = length (takeWhile (\<lambda>b. b \<noteq> c) s)"
    by (auto simp: OPENSSL_memchr_def split: if_splits)
  from c have lt: "length (takeWhile (\<lambda>b. b \<noteq> c) s) < length s"
    by (rule length_takeWhile_less) simp
  then show ?thesis
    using nth_length_takeWhile [OF lt] by (auto simp: i takeWhile_eq_take [symmetric] dest: set_takeWhileD)
qed

lemma memchr_None: "OPENSSL_memchr s c = None \<longleftrightarrow> c \<notin> set s"
  by (simp add: OPENSSL_memchr_def)

lemma strnlen_le: "OPENSSL_strnlen s n \<le> n"
  by (induction s n rule: OPENSSL_strnlen.induct) auto

lemma strnlen_takeWhile: "OPENSSL_strnlen s (length s) = length (takeWhile (\<lambda>b. b \<noteq> 0) s)"
  by (induction s) auto

lemma strlcpy_loop_eq:
  "strlcpy_loop l dst n src =
     (let k = min (n - 1) (length src) in (l + k, dst @ take k src, n - k, drop k src))"
  by (induction l dst n src rule: strlcpy_loop.induct)
    (auto simp: Let_def min_def take_Cons' drop_Cons')

lemma OPENSSL_strlcpy_prefix:
  "snd (OPENSSL_strlcpy src n) = (if n = 0 then [] else take (n - 1) src @ [0])"
  by (cases n) (auto simp: OPENSSL_strlcpy_def strlcpy_loop_eq Let_def min_def)

section \<open>Properties\<close>

text \<open>
  \<open>CRYPTO_memcmp\<close> returns 0 exactly when the two buffers agree on their first \<open>n\<close> bytes:
  accumulating with \<open>|=\<close> never cancels a difference.
\<close>

theorem CRYPTO_memcmp_zero_iff:
  assumes "n \<le> length a" and "n \<le> length b"
  shows "CRYPTO_memcmp a b n = 0 \<longleftrightarrow> take n a = take n b"
  using assms by (simp add: CRYPTO_memcmp_def memcmp_loop_zero)

theorem CRYPTO_memcmp_zero_iff_witness:
  "CRYPTO_memcmp [1, 2, 3] [1, 2, 7] 2 = 0 \<and> CRYPTO_memcmp [1, 2, 3] [1, 2, 7] 3 \<noteq> 0"
  using CRYPTO_memcmp_zero_iff [of 2 "[1, 2, 3]" "[1, 2, 7]"] CRYPTO_memcmp_zero_iff [of 3 "[1, 2, 3]" "[1, 2, 7]"]
  by simp

text \<open>
  \<open>OPENSSL_strlcpy\<close> returns the length of the source, never writes more than \<open>dst_size\<close>
  bytes, and for a non-empty destination writes a prefix of the source and the terminator,
  the whole source when there is room.
\<close>

theorem OPENSSL_strlcpy_bounded:
  "fst (OPENSSL_strlcpy src n) = length src \<and> length (snd (OPENSSL_strlcpy src n)) \<le> n \<and>
   snd (OPENSSL_strlcpy src n) = (if n = 0 then [] else take (n - 1) src @ [0])"
  by (cases n) (auto simp: OPENSSL_strlcpy_def strlcpy_loop_eq Let_def min_def)

end
