(* ===== verification/Cbs.thy ===== *)
theory Cbs
  imports Mem
begin

text \<open>
  \<^verbatim>\<open>crypto/bytestring/cbs.c\<close>: the byte-string reader and the DER/BER element parser.

  A \<open>CBS\<close> is a pointer into an immutable buffer and a length; its value is the list of the
  bytes it still covers, and that list is its model: \<open>CBS_data\<close> is the list, \<open>CBS_len\<close> its
  length. A function that takes a \<open>CBS *\<close> returns the advanced list. Out-parameters are
  read by callers only after a successful return, so they are the \<open>Some\<close> of the result.
\<close>

section \<open>Reading bytes and numbers\<close>

type_synonym CBS = bytes

definition cbs_get :: "CBS \<Rightarrow> nat \<Rightarrow> (bytes, CBS) cres" where
  "cbs_get cbs n = (if length cbs < n then (None, cbs) else (Some (take n cbs), drop n cbs))"

definition CBS_skip :: "CBS \<Rightarrow> nat \<Rightarrow> (unit, CBS) cres" where
  "CBS_skip cbs n = cbind (cbs_get cbs n) (\<lambda>dummy cbs. (Some (), cbs))"

text \<open>The new value of \<open>*out_ptr\<close>: the null pointer for an empty \<open>cbs\<close>, else the copy.\<close>

definition CBS_stow :: "(nat \<Rightarrow> bool) \<Rightarrow> CBS \<Rightarrow> bytes option option" where
  "CBS_stow malloc_ok cbs =
     (if length cbs = 0 then Some None
      else case OPENSSL_memdup malloc_ok cbs of None \<Rightarrow> None | Some p \<Rightarrow> Some (Some p))"

definition CBS_strdup :: "(nat \<Rightarrow> bool) \<Rightarrow> CBS \<Rightarrow> bytes option" where
  "CBS_strdup malloc_ok cbs = OPENSSL_strndup malloc_ok cbs (length cbs)"

definition CBS_contains_zero_byte :: "CBS \<Rightarrow> bool" where
  "CBS_contains_zero_byte cbs \<longleftrightarrow> OPENSSL_memchr cbs 0 \<noteq> None"

definition CBS_mem_equal :: "CBS \<Rightarrow> bytes \<Rightarrow> bool" where
  "CBS_mem_equal cbs data =
     (if length data \<noteq> length cbs then False else CRYPTO_memcmp cbs data (length data) = 0)"

definition cbs_get_u :: "CBS \<Rightarrow> nat \<Rightarrow> (u64, CBS) cres" where
  "cbs_get_u cbs n = cbind (cbs_get cbs n) (\<lambda>data cbs. (Some (be_word data), cbs))"

definition CBS_get_u8 :: "CBS \<Rightarrow> (u8, CBS) cres" where
  "CBS_get_u8 cbs = cbind (cbs_get cbs 1) (\<lambda>v cbs. (Some (hd v), cbs))"

definition CBS_get_u16 :: "CBS \<Rightarrow> (u16, CBS) cres" where
  "CBS_get_u16 cbs = cbind (cbs_get_u cbs 2) (\<lambda>v cbs. (Some (ucast v), cbs))"

definition CRYPTO_bswap2 :: "u16 \<Rightarrow> u16" where
  "CRYPTO_bswap2 x = drop_bit 8 x OR push_bit 8 x"

definition CBS_get_u16le :: "CBS \<Rightarrow> (u16, CBS) cres" where
  "CBS_get_u16le cbs = cbind (CBS_get_u16 cbs) (\<lambda>v cbs. (Some (CRYPTO_bswap2 v), cbs))"

definition CBS_get_u24 :: "CBS \<Rightarrow> (u32, CBS) cres" where
  "CBS_get_u24 cbs = cbind (cbs_get_u cbs 3) (\<lambda>v cbs. (Some (ucast v), cbs))"

definition CBS_get_u32 :: "CBS \<Rightarrow> (u32, CBS) cres" where
  "CBS_get_u32 cbs = cbind (cbs_get_u cbs 4) (\<lambda>v cbs. (Some (ucast v), cbs))"

definition CRYPTO_bswap4 :: "u32 \<Rightarrow> u32" where
  "CRYPTO_bswap4 x =
     (let x = drop_bit 16 x OR push_bit 16 x
      in drop_bit 8 (x AND 0xff00ff00) OR push_bit 8 (x AND 0x00ff00ff))"

definition CBS_get_u32le :: "CBS \<Rightarrow> (u32, CBS) cres" where
  "CBS_get_u32le cbs = cbind (CBS_get_u32 cbs) (\<lambda>v cbs. (Some (CRYPTO_bswap4 v), cbs))"

definition CBS_get_u64 :: "CBS \<Rightarrow> (u64, CBS) cres" where
  "CBS_get_u64 cbs = cbs_get_u cbs 8"

definition CRYPTO_bswap8 :: "u64 \<Rightarrow> u64" where
  "CRYPTO_bswap8 x =
     ucast (CRYPTO_bswap4 (ucast (drop_bit 32 x))) OR push_bit 32 (ucast (CRYPTO_bswap4 (ucast x)))"

definition CBS_get_u64le :: "CBS \<Rightarrow> (u64, CBS) cres" where
  "CBS_get_u64le cbs = cbind (cbs_get_u cbs 8) (\<lambda>v cbs. (Some (CRYPTO_bswap8 v), cbs))"

definition CBS_get_last_u8 :: "CBS \<Rightarrow> (u8, CBS) cres" where
  "CBS_get_last_u8 cbs =
     (if length cbs = 0 then (None, cbs)
      else (Some (cbs ! (length cbs - 1)), take (length cbs - 1) cbs))"

definition CBS_get_bytes :: "CBS \<Rightarrow> nat \<Rightarrow> (CBS, CBS) cres" where
  "CBS_get_bytes cbs n = cbind (cbs_get cbs n) (\<lambda>v cbs. (Some v, cbs))"

definition CBS_copy_bytes :: "CBS \<Rightarrow> nat \<Rightarrow> (bytes, CBS) cres" where
  "CBS_copy_bytes cbs n = cbind (cbs_get cbs n) (\<lambda>v cbs. (Some v, cbs))"

text \<open>The length is consumed even when the contents turn out to be too short.\<close>

definition cbs_get_length_prefixed :: "CBS \<Rightarrow> nat \<Rightarrow> (CBS, CBS) cres" where
  "cbs_get_length_prefixed cbs len_len =
     cbind (cbs_get_u cbs len_len) (\<lambda>n cbs. CBS_get_bytes cbs (unat n))"

definition CBS_get_u8_length_prefixed :: "CBS \<Rightarrow> (CBS, CBS) cres" where
  "CBS_get_u8_length_prefixed cbs = cbs_get_length_prefixed cbs 1"

definition CBS_get_u16_length_prefixed :: "CBS \<Rightarrow> (CBS, CBS) cres" where
  "CBS_get_u16_length_prefixed cbs = cbs_get_length_prefixed cbs 2"

definition CBS_get_u24_length_prefixed :: "CBS \<Rightarrow> (CBS, CBS) cres" where
  "CBS_get_u24_length_prefixed cbs = cbs_get_length_prefixed cbs 3"

definition CBS_get_until_first :: "CBS \<Rightarrow> u8 \<Rightarrow> (CBS, CBS) cres" where
  "CBS_get_until_first cbs c =
     (case OPENSSL_memchr cbs c of
        None \<Rightarrow> (None, cbs)
      | Some split \<Rightarrow> CBS_get_bytes cbs split)"

text \<open>
  The decimal reader: digits are consumed one at a time, a digit after a leading zero or a
  value beyond \<open>UINT64_MAX\<close> is an error (raised after the digit was consumed).
\<close>

fun get_u64_decimal_loop :: "u64 \<Rightarrow> bool \<Rightarrow> CBS \<Rightarrow> (u64, CBS) cres" where
  "get_u64_decimal_loop v seen_digit [] = (if seen_digit then Some v else None, [])"
| "get_u64_decimal_loop v seen_digit (c # cbs) =
     (if \<not> OPENSSL_isdigit (uint c) then (if seen_digit then Some v else None, c # cbs)
      else if (v = 0 \<and> seen_digit) \<or>
              v > (- 1) div 10 \<or>
              v * 10 > (- 1) - (ucast c - 0x30)
      then (None, cbs)
      else get_u64_decimal_loop (v * 10 + (ucast c - 0x30)) True cbs)"

definition CBS_get_u64_decimal :: "CBS \<Rightarrow> (u64, CBS) cres" where
  "CBS_get_u64_decimal cbs = get_u64_decimal_loop 0 False cbs"

section \<open>Tags and element headers\<close>

type_synonym CBS_ASN1_TAG = u32

definition CBS_ASN1_TAG_SHIFT :: nat where
  "CBS_ASN1_TAG_SHIFT = 24"

definition CBS_ASN1_CONSTRUCTED :: CBS_ASN1_TAG where
  "CBS_ASN1_CONSTRUCTED = push_bit CBS_ASN1_TAG_SHIFT 0x20"

definition CBS_ASN1_TAG_NUMBER_MASK :: CBS_ASN1_TAG where
  "CBS_ASN1_TAG_NUMBER_MASK = push_bit (5 + CBS_ASN1_TAG_SHIFT) 1 - 1"

definition CBS_ASN1_BOOLEAN :: CBS_ASN1_TAG where "CBS_ASN1_BOOLEAN = 0x1"
definition CBS_ASN1_INTEGER :: CBS_ASN1_TAG where "CBS_ASN1_INTEGER = 0x2"
definition CBS_ASN1_BITSTRING :: CBS_ASN1_TAG where "CBS_ASN1_BITSTRING = 0x3"
definition CBS_ASN1_OCTETSTRING :: CBS_ASN1_TAG where "CBS_ASN1_OCTETSTRING = 0x4"

text \<open>The loop of \<open>parse_base128_integer\<close> with the accumulated value \<open>v\<close>.\<close>

fun parse_base128_loop :: "u64 \<Rightarrow> CBS \<Rightarrow> (u64, CBS) cres" where
  "parse_base128_loop v [] = (None, [])"
| "parse_base128_loop v (b # cbs) =
     (if drop_bit (64 - 7) v \<noteq> 0 then (None, cbs)
      else if v = 0 \<and> b = 0x80 then (None, cbs)
      else let v = push_bit 7 v OR (ucast b AND 0x7f)
           in if b AND 0x80 \<noteq> 0 then parse_base128_loop v cbs else (Some v, cbs))"

definition parse_base128_integer :: "CBS \<Rightarrow> (u64, CBS) cres" where
  "parse_base128_integer cbs = parse_base128_loop 0 cbs"

definition parse_asn1_tag :: "CBS \<Rightarrow> (CBS_ASN1_TAG, CBS) cres" where
  "parse_asn1_tag cbs =
     cbind (CBS_get_u8 cbs) (\<lambda>tag_byte cbs.
       let tag = push_bit CBS_ASN1_TAG_SHIFT (ucast tag_byte AND 0xe0);
           tag_number = ucast (tag_byte AND 0x1f)
       in cbind
            (if tag_number = 0x1f then
               cbind (parse_base128_integer cbs) (\<lambda>v cbs.
                 if v > ucast CBS_ASN1_TAG_NUMBER_MASK \<or> v < 0x1f then (None, cbs)
                 else (Some (ucast v), cbs))
             else (Some tag_number, cbs))
            (\<lambda>tag_number cbs.
              let tag = tag OR tag_number
              in if tag AND NOT CBS_ASN1_CONSTRUCTED = 0 then (None, cbs) else (Some tag, cbs)))"

text \<open>What \<open>cbs_get_any_asn1_element\<close> writes through its out-parameters.\<close>

record asn1_element =
  elem_out :: CBS
  elem_tag :: CBS_ASN1_TAG
  elem_header_len :: nat
  elem_ber_found :: bool
  elem_indefinite :: bool

text \<open>
  The header is parsed on the copy \<open>header\<close>, so that every failure leaves \<open>cbs\<close> as it was.
\<close>

definition cbs_get_any_asn1_element :: "bool \<Rightarrow> CBS \<Rightarrow> (asn1_element, CBS) cres" where
  "cbs_get_any_asn1_element ber_ok cbs =
     (case parse_asn1_tag cbs of
        (None, _) \<Rightarrow> (None, cbs)
      | (Some tag, header) \<Rightarrow>
     (case CBS_get_u8 header of
        (None, _) \<Rightarrow> (None, cbs)
      | (Some length_byte, header) \<Rightarrow>
     (let header_len = length cbs - length header in
      if length_byte AND 0x80 = 0 then
        let n = size_add (unat length_byte) header_len
        in cbind (CBS_get_bytes cbs n) (\<lambda>out cbs.
             (Some \<lparr>elem_out = out, elem_tag = tag, elem_header_len = header_len,
                    elem_ber_found = False, elem_indefinite = False\<rparr>, cbs))
      else
        let num_bytes = unat (length_byte AND 0x7f) in
        if ber_ok \<and> tag AND CBS_ASN1_CONSTRUCTED \<noteq> 0 \<and> num_bytes = 0 then
          cbind (CBS_get_bytes cbs header_len) (\<lambda>out cbs.
            (Some \<lparr>elem_out = out, elem_tag = tag, elem_header_len = header_len,
                   elem_ber_found = True, elem_indefinite = True\<rparr>, cbs))
        else if num_bytes = 0 \<or> num_bytes > 4 then (None, cbs)
        else case cbs_get_u header num_bytes of
          (None, _) \<Rightarrow> (None, cbs)
        | (Some len64, _) \<Rightarrow>
            let too_long = len64 < 128 \<or> drop_bit ((num_bytes - 1) * 8) len64 = 0;
                n = unat len64
            in if too_long \<and> \<not> ber_ok then (None, cbs)
               else if size_add (size_add n header_len) num_bytes < n then (None, cbs)
               else cbind (CBS_get_bytes cbs (size_add n (size_add header_len num_bytes)))
                 (\<lambda>out cbs.
                   (Some \<lparr>elem_out = out, elem_tag = tag,
                          elem_header_len = size_add header_len num_bytes,
                          elem_ber_found = too_long, elem_indefinite = False\<rparr>, cbs)))))"

definition CBS_get_any_asn1_element :: "CBS \<Rightarrow> (CBS \<times> CBS_ASN1_TAG \<times> nat, CBS) cres" where
  "CBS_get_any_asn1_element cbs =
     cbind (cbs_get_any_asn1_element False cbs) (\<lambda>e cbs.
       (Some (elem_out e, elem_tag e, elem_header_len e), cbs))"

definition CBS_get_any_asn1 :: "CBS \<Rightarrow> (CBS \<times> CBS_ASN1_TAG, CBS) cres" where
  "CBS_get_any_asn1 cbs =
     cbind (CBS_get_any_asn1_element cbs) (\<lambda>(out, tag, header_len) cbs.
       case CBS_skip out header_len of
         (None, out) \<Rightarrow> (None, cbs)
       | (Some _, out) \<Rightarrow> (Some (out, tag), cbs))"

definition CBS_get_any_ber_asn1_element :: "CBS \<Rightarrow> (asn1_element, CBS) cres" where
  "CBS_get_any_ber_asn1_element cbs = cbs_get_any_asn1_element True cbs"

text \<open>A tag that is not the requested one is an error, but the element has been consumed.\<close>

definition cbs_get_asn1 :: "CBS \<Rightarrow> CBS_ASN1_TAG \<Rightarrow> bool \<Rightarrow> (CBS, CBS) cres" where
  "cbs_get_asn1 cbs tag_value skip_header =
     cbind (CBS_get_any_asn1_element cbs) (\<lambda>(out, tag, header_len) cbs.
       if tag \<noteq> tag_value then (None, cbs)
       else if skip_header then
         (case CBS_skip out header_len of
            (None, out) \<Rightarrow> (None, cbs)
          | (Some _, out) \<Rightarrow> (Some out, cbs))
       else (Some out, cbs))"

definition CBS_get_asn1 :: "CBS \<Rightarrow> CBS_ASN1_TAG \<Rightarrow> (CBS, CBS) cres" where
  "CBS_get_asn1 cbs tag_value = cbs_get_asn1 cbs tag_value True"

definition CBS_get_asn1_element :: "CBS \<Rightarrow> CBS_ASN1_TAG \<Rightarrow> (CBS, CBS) cres" where
  "CBS_get_asn1_element cbs tag_value = cbs_get_asn1 cbs tag_value False"

definition CBS_peek_asn1_tag :: "CBS \<Rightarrow> CBS_ASN1_TAG \<Rightarrow> bool" where
  "CBS_peek_asn1_tag cbs tag_value \<longleftrightarrow> fst (parse_asn1_tag cbs) = Some tag_value"

section \<open>Primitive values\<close>

text \<open>\<open>Some\<close> of the sign for a valid INTEGER body, \<open>None\<close> for an invalid one.\<close>

definition CBS_is_valid_asn1_integer :: "CBS \<Rightarrow> bool option" where
  "CBS_is_valid_asn1_integer cbs =
     (case CBS_get_u8 cbs of
        (None, _) \<Rightarrow> None
      | (Some first_byte, copy) \<Rightarrow>
          let is_negative = (first_byte AND 0x80 \<noteq> 0)
          in case CBS_get_u8 copy of
               (None, _) \<Rightarrow> Some is_negative
             | (Some second_byte, copy) \<Rightarrow>
                 if (first_byte = 0x00 \<and> second_byte AND 0x80 = 0) \<or>
                    (first_byte = 0xff \<and> second_byte AND 0x80 \<noteq> 0)
                 then None
                 else Some is_negative)"

definition CBS_is_unsigned_asn1_integer :: "CBS \<Rightarrow> bool" where
  "CBS_is_unsigned_asn1_integer cbs \<longleftrightarrow> CBS_is_valid_asn1_integer cbs = Some False"

fun asn1_uint64_loop :: "u64 \<Rightarrow> bytes \<Rightarrow> u64 option" where
  "asn1_uint64_loop out [] = Some out"
| "asn1_uint64_loop out (b # data) =
     (if drop_bit 56 out \<noteq> 0 then None
      else asn1_uint64_loop (push_bit 8 out OR ucast b) data)"

definition CBS_get_asn1_uint64 :: "CBS \<Rightarrow> (u64, CBS) cres" where
  "CBS_get_asn1_uint64 cbs =
     cbind (CBS_get_asn1 cbs CBS_ASN1_INTEGER) (\<lambda>bytes cbs.
       if \<not> CBS_is_unsigned_asn1_integer bytes then (None, cbs)
       else (asn1_uint64_loop 0 bytes, cbs))"

text \<open>An \<open>int64_t\<close> is its 64-bit pattern; its value is \<open>sint\<close> of it.\<close>

definition CBS_get_asn1_int64 :: "CBS \<Rightarrow> (u64, CBS) cres" where
  "CBS_get_asn1_int64 cbs =
     cbind (CBS_get_asn1 cbs CBS_ASN1_INTEGER) (\<lambda>bytes cbs.
       case CBS_is_valid_asn1_integer bytes of
         None \<Rightarrow> (None, cbs)
       | Some is_negative \<Rightarrow>
           if length bytes > 8 then (None, cbs)
           else let sign_extend = replicate (8 - length bytes) (if is_negative then 0xff else 0) @ bytes
                in (Some (be_word sign_extend), cbs))"

definition CBS_get_asn1_bool :: "CBS \<Rightarrow> (bool, CBS) cres" where
  "CBS_get_asn1_bool cbs =
     cbind (CBS_get_asn1 cbs CBS_ASN1_BOOLEAN) (\<lambda>bytes cbs.
       if length bytes \<noteq> 1 then (None, cbs)
       else let value = hd bytes
            in if value \<noteq> 0 \<and> value \<noteq> 0xff then (None, cbs) else (Some (value \<noteq> 0), cbs))"

text \<open>\<open>Some (Some out)\<close> for \<open>*out_present = 1\<close>, \<open>Some None\<close> for \<open>*out_present = 0\<close>.\<close>

definition CBS_get_optional_asn1 :: "CBS \<Rightarrow> CBS_ASN1_TAG \<Rightarrow> (CBS option, CBS) cres" where
  "CBS_get_optional_asn1 cbs tag =
     (if CBS_peek_asn1_tag cbs tag
      then cbind (CBS_get_asn1 cbs tag) (\<lambda>out cbs. (Some (Some out), cbs))
      else (Some None, cbs))"

definition CBS_get_optional_asn1_octet_string ::
    "CBS \<Rightarrow> CBS_ASN1_TAG \<Rightarrow> (CBS \<times> bool, CBS) cres" where
  "CBS_get_optional_asn1_octet_string cbs tag =
     cbind (CBS_get_optional_asn1 cbs tag) (\<lambda>present cbs.
       case present of
         Some child \<Rightarrow>
           (case CBS_get_asn1 child CBS_ASN1_OCTETSTRING of
              (None, child) \<Rightarrow> (None, cbs)
            | (Some out, child) \<Rightarrow>
                if length child \<noteq> 0 then (None, cbs) else (Some (out, True), cbs))
       | None \<Rightarrow> (Some ([], False), cbs))"

definition CBS_get_optional_asn1_uint64 ::
    "CBS \<Rightarrow> CBS_ASN1_TAG \<Rightarrow> u64 \<Rightarrow> (u64, CBS) cres" where
  "CBS_get_optional_asn1_uint64 cbs tag default_value =
     cbind (CBS_get_optional_asn1 cbs tag) (\<lambda>present cbs.
       case present of
         Some child \<Rightarrow>
           (case CBS_get_asn1_uint64 child of
              (None, child) \<Rightarrow> (None, cbs)
            | (Some out, child) \<Rightarrow> if length child \<noteq> 0 then (None, cbs) else (Some out, cbs))
       | None \<Rightarrow> (Some default_value, cbs))"

definition CBS_get_optional_asn1_bool ::
    "CBS \<Rightarrow> CBS_ASN1_TAG \<Rightarrow> int \<Rightarrow> (int, CBS) cres" where
  "CBS_get_optional_asn1_bool cbs tag default_value =
     cbind (CBS_get_optional_asn1 cbs tag) (\<lambda>present cbs.
       case present of
         Some child \<Rightarrow>
           (case CBS_get_asn1 child CBS_ASN1_BOOLEAN of
              (None, child) \<Rightarrow> (None, cbs)
            | (Some child2, child) \<Rightarrow>
                if length child2 \<noteq> 1 \<or> length child \<noteq> 0 then (None, cbs)
                else let boolean = hd child2
                     in if boolean = 0 then (Some 0, cbs)
                        else if boolean = 0xff then (Some 1, cbs)
                        else (None, cbs))
       | None \<Rightarrow> (Some default_value, cbs))"

definition CBS_is_valid_asn1_bitstring :: "CBS \<Rightarrow> bool" where
  "CBS_is_valid_asn1_bitstring cbs =
     (case CBS_get_u8 cbs of
        (None, _) \<Rightarrow> False
      | (Some num_unused_bits, in') \<Rightarrow>
          if num_unused_bits > 7 then False
          else if num_unused_bits = 0 then True
          else case CBS_get_last_u8 in' of
                 (None, _) \<Rightarrow> False
               | (Some last', _) \<Rightarrow> last' AND (push_bit (unat num_unused_bits) 1 - 1) = 0)"

definition CBS_asn1_bitstring_has_bit :: "CBS \<Rightarrow> u32 \<Rightarrow> bool" where
  "CBS_asn1_bitstring_has_bit cbs bit_index =
     (if \<not> CBS_is_valid_asn1_bitstring cbs then False
      else let byte_num = drop_bit 3 bit_index + 1;
               bit_num = 7 - (bit_index AND 7)
           in unat byte_num < length cbs \<and>
              cbs ! unat byte_num AND push_bit (unat bit_num) 1 \<noteq> 0)"

fun valid_oid_loop :: "u8 \<Rightarrow> CBS \<Rightarrow> bool" where
  "valid_oid_loop prev [] \<longleftrightarrow> prev AND 0x80 = 0"
| "valid_oid_loop prev (v # copy) \<longleftrightarrow>
     (if prev AND 0x80 = 0 \<and> v = 0x80 then False else valid_oid_loop v copy)"

definition CBS_is_valid_asn1_oid :: "CBS \<Rightarrow> bool" where
  "CBS_is_valid_asn1_oid cbs = (if length cbs = 0 then False else valid_oid_loop 0 cbs)"

end
