(* ===== verification/Cbb.thy ===== *)
theory Cbb
  imports Cbs
begin

text \<open>
  \<^verbatim>\<open>crypto/bytestring/cbb.c\<close>: the byte-string builder.

  A top-level \<open>CBB\<close> owns a growing buffer; while a length-prefixed child is open its length
  is not known, so the child records where the prefix starts and \<open>CBB_flush\<close> fills it in
  later. Every \<open>CBB\<close> has at most one open child, so the \<open>child\<close> pointers that start at the
  top-level object form a chain: the model keeps that chain as the list \<open>children\<close>,
  outermost first, beside the buffer that all of them share, and a \<open>CBB *\<close> is its depth in
  the chain (0 is the top-level object). A depth beyond the chain is a child that has
  been flushed, whose \<open>base\<close> pointer is \<open>NULL\<close>.

  \<open>buf\<close> holds the \<open>len\<close> valid bytes of the allocation of \<open>cap\<close> bytes; \<open>alloc\<close> is the
  behaviour of the system allocator, which is code outside the repository: whether a
  (re)allocation of that many bytes succeeds.
\<close>

section \<open>The buffer\<close>

record cbb_buffer_st =
  buf :: bytes
  cap :: nat
  can_resize :: bool
  error :: bool
  alloc :: "nat \<Rightarrow> bool"

record cbb_child_st =
  offset :: nat
  pending_len_len :: nat
  pending_is_asn1 :: bool

record CBB =
  base :: cbb_buffer_st
  children :: "cbb_child_st list"

definition cbb_init :: "(nat \<Rightarrow> bool) \<Rightarrow> nat \<Rightarrow> bool \<Rightarrow> CBB" where
  "cbb_init alloc_ok capacity resize =
     \<lparr>base = \<lparr>buf = [], cap = capacity, can_resize = resize, error = False, alloc = alloc_ok\<rparr>,
      children = []\<rparr>"

definition CBB_init :: "(nat \<Rightarrow> bool) \<Rightarrow> nat \<Rightarrow> CBB option" where
  "CBB_init alloc_ok initial_capacity =
     (if initial_capacity > 0 \<and> \<not> alloc_ok initial_capacity then None
      else Some (cbb_init alloc_ok initial_capacity True))"

definition CBB_init_fixed :: "(nat \<Rightarrow> bool) \<Rightarrow> nat \<Rightarrow> CBB" where
  "CBB_init_fixed alloc_ok n = cbb_init alloc_ok n False"

definition cbb_buffer_reserve :: "cbb_buffer_st \<Rightarrow> nat \<Rightarrow> (unit, cbb_buffer_st) cres" where
  "cbb_buffer_reserve b n =
     (let newlen = size_add (length (buf b)) n in
      if newlen < length (buf b) then (None, b\<lparr>error := True\<rparr>)
      else if newlen > cap b then
        if \<not> can_resize b then (None, b\<lparr>error := True\<rparr>)
        else let newcap = cap b * 2 mod size_max;
                 newcap = (if newcap < cap b \<or> newcap < newlen then newlen else newcap)
             in if \<not> alloc b newcap then (None, b\<lparr>error := True\<rparr>)
                else (Some (), b\<lparr>cap := newcap\<rparr>)
      else (Some (), b))"

text \<open>
  \<open>cbb_buffer_add\<close> extends the buffer by bytes that its caller stores right away: they are
  the argument \<open>new\<close>.
\<close>

definition cbb_buffer_add :: "cbb_buffer_st \<Rightarrow> bytes \<Rightarrow> (unit, cbb_buffer_st) cres" where
  "cbb_buffer_add b new =
     cbind (cbb_buffer_reserve b (length new)) (\<lambda>_ b. (Some (), b\<lparr>buf := buf b @ new\<rparr>))"

definition cbb_on_error :: "CBB \<Rightarrow> nat \<Rightarrow> CBB" where
  "cbb_on_error c d = c\<lparr>base := (base c)\<lparr>error := True\<rparr>, children := take d (children c)\<rparr>"

section \<open>Flushing: writing the pending length prefixes\<close>

text \<open>\<open>memmove(buf + dst, buf + src, n)\<close> within one buffer.\<close>

definition OPENSSL_memmove :: "bytes \<Rightarrow> nat \<Rightarrow> nat \<Rightarrow> nat \<Rightarrow> bytes" where
  "OPENSSL_memmove b dst src n = take dst b @ take n (drop src b) @ drop (dst + n) b"

text \<open>The loop that stores the low \<open>k\<close> bytes of a length from the last byte to the first.\<close>

fun put_length :: "bytes \<Rightarrow> nat \<Rightarrow> nat \<Rightarrow> nat \<Rightarrow> bytes \<times> nat" where
  "put_length b off 0 n = (b, n)"
| "put_length b off (Suc i) n = put_length (b[off + i := of_nat n]) off i (n div 256)"

text \<open>The number of length octets of an ASN.1 element, its first octet and what is left.\<close>

definition asn1_length_form :: "nat \<Rightarrow> (nat \<times> u8 \<times> nat) option" where
  "asn1_length_form n =
     (if n > 0xfffffffe then None
      else if n > 0xffffff then Some (5, 0x80 OR 4, n)
      else if n > 0xffff then Some (4, 0x80 OR 3, n)
      else if n > 0xff then Some (3, 0x80 OR 2, n)
      else if n > 0x7f then Some (2, 0x80 OR 1, n)
      else Some (1, of_nat n, 0))"

definition flush_child :: "cbb_buffer_st \<Rightarrow> cbb_child_st \<Rightarrow> (unit, cbb_buffer_st) cres" where
  "flush_child b child =
     (let child_start = size_add (offset child) (pending_len_len child) in
      if child_start < offset child \<or> length (buf b) < child_start then (None, b)
      else
        let n = length (buf b) - child_start in
        if pending_is_asn1 child then
          (case asn1_length_form n of
             None \<Rightarrow> (None, b)
           | Some (len_len, initial_length_byte, n') \<Rightarrow>
               cbind
                 (if len_len \<noteq> 1 then
                    let extra_bytes = len_len - 1 in
                    cbind (cbb_buffer_add b (replicate extra_bytes 0)) (\<lambda>_ b.
                      (Some (), b\<lparr>buf := OPENSSL_memmove (buf b) (child_start + extra_bytes) child_start n'\<rparr>))
                  else (Some (), b))
                 (\<lambda>_ b.
                   case put_length ((buf b)[offset child := initial_length_byte])
                          (offset child + 1) (len_len - 1) n' of
                     (bs, n) \<Rightarrow> if n \<noteq> 0 then (None, b\<lparr>buf := bs\<rparr>) else (Some (), b\<lparr>buf := bs\<rparr>)))
        else
          case put_length (buf b) (offset child) (pending_len_len child) n of
            (bs, n) \<Rightarrow> if n \<noteq> 0 then (None, b\<lparr>buf := bs\<rparr>) else (Some (), b\<lparr>buf := bs\<rparr>))"

text \<open>
  The recursion of \<open>CBB_flush\<close> along the chain: the children of the child are flushed
  first, then its own prefix is written; every failure sets the error bit of the buffer.
\<close>

fun flush_chain :: "cbb_buffer_st \<Rightarrow> cbb_child_st list \<Rightarrow> (unit, cbb_buffer_st) cres" where
  "flush_chain b chain =
     (if error b then (None, b)
      else case chain of
        [] \<Rightarrow> (Some (), b)
      | child # rest \<Rightarrow>
          (case cbind (flush_chain b rest) (\<lambda>_ b. flush_child b child) of
             (None, b) \<Rightarrow> (None, b\<lparr>error := True\<rparr>)
           | (Some _, b) \<Rightarrow> (Some (), b)))"

declare flush_chain.simps [simp del]

definition CBB_flush :: "CBB \<Rightarrow> nat \<Rightarrow> (unit, CBB) cres" where
  "CBB_flush c d =
     (if d > length (children c) then (None, c)
      else if error (base c) then (None, c)
      else case flush_chain (base c) (drop d (children c)) of
             (r, b) \<Rightarrow> (r, c\<lparr>base := b, children := take d (children c)\<rparr>))"

section \<open>Reading back and finishing\<close>

text \<open>The start of the contents of the object at depth \<open>d\<close>.\<close>

definition cbb_start :: "CBB \<Rightarrow> nat \<Rightarrow> nat" where
  "cbb_start c d =
     (case d of 0 \<Rightarrow> 0 | Suc i \<Rightarrow> offset (children c ! i) + pending_len_len (children c ! i))"

definition CBB_data :: "CBB \<Rightarrow> nat \<Rightarrow> bytes" where
  "CBB_data c d = drop (cbb_start c d) (buf (base c))"

definition CBB_len :: "CBB \<Rightarrow> nat \<Rightarrow> nat" where
  "CBB_len c d = length (buf (base c)) - cbb_start c d"

text \<open>
  \<open>CBB_finish\<close> hands the buffer to the caller and empties the object, which is not used
  afterwards; \<open>outs\<close> says whether both out-pointers are given.
\<close>

definition CBB_finish :: "CBB \<Rightarrow> nat \<Rightarrow> bool \<Rightarrow> bytes option" where
  "CBB_finish c d outs =
     (if d > 0 then None
      else case CBB_flush c d of
             (None, _) \<Rightarrow> None
           | (Some _, c) \<Rightarrow>
               if can_resize (base c) \<and> \<not> outs then None else Some (buf (base c)))"

section \<open>Appending\<close>

definition cbb_add_child :: "CBB \<Rightarrow> nat \<Rightarrow> nat \<Rightarrow> bool \<Rightarrow> (unit, CBB) cres" where
  "cbb_add_child c d len_len is_asn1 =
     (case cbb_buffer_add (base c) (replicate len_len 0) of
        (None, b) \<Rightarrow> (None, c\<lparr>base := b\<rparr>)
      | (Some _, b) \<Rightarrow>
          (Some (), c\<lparr>base := b,
             children := take d (children c) @
               [\<lparr>offset = length (buf (base c)), pending_len_len = len_len,
                 pending_is_asn1 = is_asn1\<rparr>]\<rparr>))"

definition cbb_add_length_prefixed :: "CBB \<Rightarrow> nat \<Rightarrow> nat \<Rightarrow> (unit, CBB) cres" where
  "cbb_add_length_prefixed c d len_len =
     cbind (CBB_flush c d) (\<lambda>_ c. cbb_add_child c d len_len False)"

definition CBB_add_u8_length_prefixed :: "CBB \<Rightarrow> nat \<Rightarrow> (unit, CBB) cres" where
  "CBB_add_u8_length_prefixed c d = cbb_add_length_prefixed c d 1"

definition CBB_add_u16_length_prefixed :: "CBB \<Rightarrow> nat \<Rightarrow> (unit, CBB) cres" where
  "CBB_add_u16_length_prefixed c d = cbb_add_length_prefixed c d 2"

definition CBB_add_u24_length_prefixed :: "CBB \<Rightarrow> nat \<Rightarrow> (unit, CBB) cres" where
  "CBB_add_u24_length_prefixed c d = cbb_add_length_prefixed c d 3"

text \<open>The bytes that the caller stores into the new space are the argument \<open>new\<close>.\<close>

definition CBB_add_space :: "CBB \<Rightarrow> nat \<Rightarrow> bytes \<Rightarrow> (unit, CBB) cres" where
  "CBB_add_space c d new =
     cbind (CBB_flush c d) (\<lambda>_ c.
       case cbb_buffer_add (base c) new of (r, b) \<Rightarrow> (r, c\<lparr>base := b\<rparr>))"

definition CBB_add_bytes :: "CBB \<Rightarrow> nat \<Rightarrow> bytes \<Rightarrow> (unit, CBB) cres" where
  "CBB_add_bytes c d data = CBB_add_space c d data"

definition CBB_add_zeros :: "CBB \<Rightarrow> nat \<Rightarrow> nat \<Rightarrow> (unit, CBB) cres" where
  "CBB_add_zeros c d n = CBB_add_space c d (replicate n 0)"

definition CBB_reserve :: "CBB \<Rightarrow> nat \<Rightarrow> nat \<Rightarrow> (unit, CBB) cres" where
  "CBB_reserve c d n =
     cbind (CBB_flush c d) (\<lambda>_ c.
       case cbb_buffer_reserve (base c) n of (r, b) \<Rightarrow> (r, c\<lparr>base := b\<rparr>))"

text \<open>\<open>new\<close>: the bytes the caller wrote into the reserved space.\<close>

definition CBB_did_write :: "CBB \<Rightarrow> nat \<Rightarrow> bytes \<Rightarrow> (unit, CBB) cres" where
  "CBB_did_write c d new =
     (let n = length (buf (base c)); newlen = size_add n (length new)
      in if d < length (children c) \<or> newlen < n \<or> newlen > cap (base c) then (None, c)
         else (Some (), c\<lparr>base := (base c)\<lparr>buf := buf (base c) @ new\<rparr>\<rparr>))"

text \<open>The loop that stores a number; the second component is what did not fit.\<close>

fun store_be :: "nat \<Rightarrow> u64 \<Rightarrow> bytes \<times> u64" where
  "store_be 0 v = ([], v)"
| "store_be (Suc i) v = (case store_be i (drop_bit 8 v) of (bs, r) \<Rightarrow> (bs @ [ucast v], r))"

definition cbb_add_u :: "CBB \<Rightarrow> nat \<Rightarrow> u64 \<Rightarrow> nat \<Rightarrow> (unit, CBB) cres" where
  "cbb_add_u c d v len_len =
     (case store_be len_len v of (bs, rest) \<Rightarrow>
        cbind (CBB_add_space c d bs) (\<lambda>_ c.
          if rest \<noteq> 0 then (None, cbb_on_error c d) else (Some (), c)))"

definition CBB_add_u8 :: "CBB \<Rightarrow> nat \<Rightarrow> u8 \<Rightarrow> (unit, CBB) cres" where
  "CBB_add_u8 c d v = cbb_add_u c d (ucast v) 1"

definition CBB_add_u16 :: "CBB \<Rightarrow> nat \<Rightarrow> u16 \<Rightarrow> (unit, CBB) cres" where
  "CBB_add_u16 c d v = cbb_add_u c d (ucast v) 2"

definition CBB_add_u16le :: "CBB \<Rightarrow> nat \<Rightarrow> u16 \<Rightarrow> (unit, CBB) cres" where
  "CBB_add_u16le c d v = CBB_add_u16 c d (CRYPTO_bswap2 v)"

definition CBB_add_u24 :: "CBB \<Rightarrow> nat \<Rightarrow> u32 \<Rightarrow> (unit, CBB) cres" where
  "CBB_add_u24 c d v = cbb_add_u c d (ucast v) 3"

definition CBB_add_u32 :: "CBB \<Rightarrow> nat \<Rightarrow> u32 \<Rightarrow> (unit, CBB) cres" where
  "CBB_add_u32 c d v = cbb_add_u c d (ucast v) 4"

definition CBB_add_u32le :: "CBB \<Rightarrow> nat \<Rightarrow> u32 \<Rightarrow> (unit, CBB) cres" where
  "CBB_add_u32le c d v = CBB_add_u32 c d (CRYPTO_bswap4 v)"

definition CBB_add_u64 :: "CBB \<Rightarrow> nat \<Rightarrow> u64 \<Rightarrow> (unit, CBB) cres" where
  "CBB_add_u64 c d v = cbb_add_u c d v 8"

definition CBB_add_u64le :: "CBB \<Rightarrow> nat \<Rightarrow> u64 \<Rightarrow> (unit, CBB) cres" where
  "CBB_add_u64le c d v = CBB_add_u64 c d (CRYPTO_bswap8 v)"

definition CBB_discard_child :: "CBB \<Rightarrow> nat \<Rightarrow> CBB" where
  "CBB_discard_child c d =
     (if length (children c) \<le> d then c
      else c\<lparr>base := (base c)\<lparr>buf := take (offset (children c ! d)) (buf (base c))\<rparr>,
             children := take d (children c)\<rparr>)"

section \<open>ASN.1 values\<close>

function base128_len :: "u64 \<Rightarrow> nat" where
  "base128_len copy = (if copy > 0 then Suc (base128_len (drop_bit 7 copy)) else 0)"
  by pat_completeness auto
termination
proof (relation "measure unat")
  fix copy :: u64
  assume "copy > 0"
  then have "unat copy div 2 ^ 7 < unat copy"
    by (simp add: unat_gt_0)
  then show "(drop_bit 7 copy, copy) \<in> measure unat"
    by (simp only: in_measure unat_drop_bit_eq) (simp only: drop_bit_eq_div)
qed simp

declare base128_len.simps [simp del]

fun add_base128_loop :: "CBB \<Rightarrow> nat \<Rightarrow> u64 \<Rightarrow> nat \<Rightarrow> (unit, CBB) cres" where
  "add_base128_loop c d v 0 = (Some (), c)"
| "add_base128_loop c d v (Suc i) =
     (let byte = ucast (drop_bit (7 * i) v) AND 0x7f;
          byte = (if i \<noteq> 0 then byte OR 0x80 else byte)
      in cbind (CBB_add_u8 c d byte) (\<lambda>_ c. add_base128_loop c d v i))"

definition add_base128_integer :: "CBB \<Rightarrow> nat \<Rightarrow> u64 \<Rightarrow> (unit, CBB) cres" where
  "add_base128_integer c d v =
     (let len_len = base128_len v;
          len_len = (if len_len = 0 then 1 else len_len)
      in add_base128_loop c d v len_len)"

definition CBB_add_asn1 :: "CBB \<Rightarrow> nat \<Rightarrow> CBS_ASN1_TAG \<Rightarrow> (unit, CBB) cres" where
  "CBB_add_asn1 c d tag =
     cbind (CBB_flush c d) (\<lambda>_ c.
       let tag_bits = ucast (drop_bit CBS_ASN1_TAG_SHIFT tag) AND 0xe0;
           tag_number = tag AND CBS_ASN1_TAG_NUMBER_MASK
       in cbind
            (if tag_number \<ge> 0x1f then
               cbind (CBB_add_u8 c d (tag_bits OR 0x1f)) (\<lambda>_ c.
                 add_base128_integer c d (ucast tag_number))
             else CBB_add_u8 c d (tag_bits OR ucast tag_number))
            (\<lambda>_ c. cbb_add_child c d 1 True))"

text \<open>The \<open>err:\<close> label of the value writers.\<close>

definition or_error :: "nat \<Rightarrow> (unit, CBB) cres \<Rightarrow> (unit, CBB) cres" where
  "or_error d r = (case r of (None, c) \<Rightarrow> (None, cbb_on_error c d) | (Some _, c) \<Rightarrow> (Some (), c))"

fun add_uint64_loop :: "CBB \<Rightarrow> nat \<Rightarrow> bool \<Rightarrow> bytes \<Rightarrow> (bool, CBB) cres" where
  "add_uint64_loop c child started [] = (Some started, c)"
| "add_uint64_loop c child started (byte # bs) =
     (if \<not> started then
        if byte = 0 then add_uint64_loop c child started bs
        else cbind (if byte AND 0x80 \<noteq> 0 then CBB_add_u8 c child 0 else (Some (), c)) (\<lambda>_ c.
               cbind (CBB_add_u8 c child byte) (\<lambda>_ c. add_uint64_loop c child True bs))
      else cbind (CBB_add_u8 c child byte) (\<lambda>_ c. add_uint64_loop c child started bs))"

text \<open>
  The failures up to the last byte go to \<open>err:\<close>; the final \<open>return CBB_flush(cbb)\<close> does not.
\<close>

definition CBB_add_asn1_uint64_with_tag ::
    "CBB \<Rightarrow> nat \<Rightarrow> u64 \<Rightarrow> CBS_ASN1_TAG \<Rightarrow> (unit, CBB) cres" where
  "CBB_add_asn1_uint64_with_tag c d v tag =
     cbind
       (or_error d
         (cbind (CBB_add_asn1 c d tag) (\<lambda>_ c.
            let child = d + 1 in
            cbind (add_uint64_loop c child False (map (\<lambda>i. ucast (drop_bit (8 * (7 - i)) v)) [0..<8]))
              (\<lambda>started c. if \<not> started then CBB_add_u8 c child 0 else (Some (), c)))))
       (\<lambda>_ c. CBB_flush c d)"

definition CBB_add_asn1_uint64 :: "CBB \<Rightarrow> nat \<Rightarrow> u64 \<Rightarrow> (unit, CBB) cres" where
  "CBB_add_asn1_uint64 c d v = CBB_add_asn1_uint64_with_tag c d v CBS_ASN1_INTEGER"

text \<open>
  \<open>bytes\<close> holds the little-endian bytes of the value. \<open>start\<close> is lowered past redundant
  sign-extension bytes, and the bytes from \<open>start\<close> down to 0 are written.
\<close>

fun int64_start :: "bytes \<Rightarrow> nat \<Rightarrow> nat" where
  "int64_start bs 0 = 0"
| "int64_start bs (Suc s) =
     (if bs ! Suc s = 0xff \<and> bs ! s AND 0x80 \<noteq> 0 then int64_start bs s else Suc s)"

fun add_bytes_down :: "CBB \<Rightarrow> nat \<Rightarrow> bytes \<Rightarrow> nat \<Rightarrow> (unit, CBB) cres" where
  "add_bytes_down c child bs 0 = CBB_add_u8 c child (bs ! 0)"
| "add_bytes_down c child bs (Suc i) =
     cbind (CBB_add_u8 c child (bs ! Suc i)) (\<lambda>_ c. add_bytes_down c child bs i)"

definition CBB_add_asn1_int64_with_tag ::
    "CBB \<Rightarrow> nat \<Rightarrow> u64 \<Rightarrow> CBS_ASN1_TAG \<Rightarrow> (unit, CBB) cres" where
  "CBB_add_asn1_int64_with_tag c d v tag =
     (if 0 \<le> sint v then CBB_add_asn1_uint64_with_tag c d v tag
      else
        let bs = map (\<lambda>i. ucast (drop_bit (8 * i) v)) [0..<8]; start = int64_start bs 7
        in cbind
             (or_error d
               (cbind (CBB_add_asn1 c d tag) (\<lambda>_ c. add_bytes_down c (d + 1) bs start)))
             (\<lambda>_ c. CBB_flush c d))"

definition CBB_add_asn1_int64 :: "CBB \<Rightarrow> nat \<Rightarrow> u64 \<Rightarrow> (unit, CBB) cres" where
  "CBB_add_asn1_int64 c d v = CBB_add_asn1_int64_with_tag c d v CBS_ASN1_INTEGER"

definition CBB_add_asn1_octet_string :: "CBB \<Rightarrow> nat \<Rightarrow> bytes \<Rightarrow> (unit, CBB) cres" where
  "CBB_add_asn1_octet_string c d data =
     or_error d
       (cbind (CBB_add_asn1 c d CBS_ASN1_OCTETSTRING) (\<lambda>_ c.
          cbind (CBB_add_bytes c (d + 1) data) (\<lambda>_ c. CBB_flush c d)))"

definition CBB_add_asn1_bool :: "CBB \<Rightarrow> nat \<Rightarrow> int \<Rightarrow> (unit, CBB) cres" where
  "CBB_add_asn1_bool c d v =
     or_error d
       (cbind (CBB_add_asn1 c d CBS_ASN1_BOOLEAN) (\<lambda>_ c.
          cbind (CBB_add_u8 c (d + 1) (if v \<noteq> 0 then 0xff else 0)) (\<lambda>_ c. CBB_flush c d)))"

end
