(* ===== verification/Codec.thy ===== *)
theory Codec
  imports Prelude
begin

text \<open>
  The contracts between the wire formats and their clients. A \<open>reader\<close> advances through a
  byte string and its result depends on the bytes it consumes only; a \<open>decoder\<close> inverts an
  encoding; a \<open>codec\<close> accepts nothing but the encoding, so that the format is canonical.
  The clients are the loops that read a sequence of values until the input is exhausted:
  their lemmas are proved here once, from the laws.
\<close>

section \<open>Reading until the end\<close>

text \<open>
  The loop \<open>while (CBS_len(cbs) != 0) { if (!get(cbs, ...)) return 0; }\<close>. The first argument
  bounds the iterations; \<open>length cbs\<close> is enough for a reader that consumes something.
\<close>

fun read_all :: "nat \<Rightarrow> (bytes \<Rightarrow> ('a, bytes) cres) \<Rightarrow> bytes \<Rightarrow> 'a list option" where
  "read_all fuel get [] = Some []"
| "read_all 0 get (b # bs) = None"
| "read_all (Suc fuel) get (b # bs) =
     (case get (b # bs) of
        (None, _) \<Rightarrow> None
      | (Some v, rest) \<Rightarrow> map_option ((#) v) (read_all fuel get rest))"

section \<open>Readers\<close>

locale reader =
  fixes get :: "bytes \<Rightarrow> ('a, bytes) cres"
  assumes fail_suffix: "get c = (None, c') \<Longrightarrow> suffix c' c"
    and local: "get c = (Some v, c') \<Longrightarrow> \<exists>p. c = p @ c' \<and> (\<forall>d. get (p @ d) = (Some v, d))"
begin

lemma advances: "get c = (r, c') \<Longrightarrow> suffix c' c"
  by (cases r) (auto intro: suffixI dest: fail_suffix local)

lemma length_le: "get c = (r, c') \<Longrightarrow> length c' \<le> length c"
  by (rule suffix_length_le) (rule advances)

lemma extends: "get c = (Some v, c') \<Longrightarrow> get (c @ d) = (Some v, c' @ d)"
  using local [of c v c'] by auto

end

locale decoder = reader get for get :: "bytes \<Rightarrow> ('a, bytes) cres" +
  fixes put :: "'a \<Rightarrow> bytes" and ok :: "'a \<Rightarrow> bool"
  assumes get_put: "ok v \<Longrightarrow> get (put v @ d) = (Some v, d)"
begin

lemma get_put_Nil: "ok v \<Longrightarrow> get (put v) = (Some v, [])"
  using get_put [of v "[]"] by simp

text \<open>The encoding is prefix-free, hence injective, on the values it can represent.\<close>

lemma prefix_free:
  assumes "ok v" and "ok w" and "prefix (put v) (put w)"
  shows "v = w"
proof -
  from assms(3) obtain d where "put w = put v @ d"
    by (auto elim: prefixE)
  then show ?thesis
    using get_put [OF assms(1), of d] get_put_Nil [OF assms(2)] by simp
qed

lemma put_inj: "ok v \<Longrightarrow> ok w \<Longrightarrow> put v = put w \<Longrightarrow> v = w"
  by (rule prefix_free) auto

lemma read_all_put:
  assumes "\<And>v. v \<in> set vs \<Longrightarrow> ok v \<and> put v \<noteq> []" and "length vs \<le> fuel"
  shows "read_all fuel get (concat (map put vs)) = Some vs"
  using assms
proof (induction vs arbitrary: fuel)
  case Nil
  then show ?case by simp
next
  case (Cons v vs)
  then obtain fuel' where fuel: "fuel = Suc fuel'" and "length vs \<le> fuel'"
    by (cases fuel) auto
  with Cons have IH: "read_all fuel' get (concat (map put vs)) = Some vs"
    by simp
  from Cons.prems obtain b bs where "put v = b # bs" and "ok v"
    by (cases "put v") auto
  then show ?case
    using get_put [of v "concat (map put vs)"] by (simp add: fuel IH)
qed

end

locale codec =
  fixes get :: "bytes \<Rightarrow> ('a, bytes) cres" and put :: "'a \<Rightarrow> bytes" and ok :: "'a \<Rightarrow> bool"
  assumes codec_fail: "get c = (None, c') \<Longrightarrow> suffix c' c"
    and codec_put: "ok v \<Longrightarrow> get (put v @ d) = (Some v, d)"
    and codec_get: "get c = (Some v, c') \<Longrightarrow> ok v \<and> c = put v @ c'"

sublocale codec \<subseteq> decoder get put ok
  by unfold_locales (auto dest: codec_fail codec_get codec_put)

context codec
begin

lemma get_iff: "get c = (Some v, c') \<longleftrightarrow> ok v \<and> c = put v @ c'"
  using codec_get codec_put by blast

lemma read_all_canonical: "read_all fuel get c = Some vs \<Longrightarrow> c = concat (map put vs) \<and> list_all ok vs"
proof (induction fuel arbitrary: c vs)
  case 0
  then show ?case by (cases c) auto
next
  case (Suc fuel)
  show ?case
  proof (cases c)
    case Nil
    with Suc.prems show ?thesis by simp
  next
    case (Cons b bs)
    with Suc.prems obtain v rest vs' where get: "get c = (Some v, rest)"
      and rest: "read_all fuel get rest = Some vs'" and vs: "vs = v # vs'"
      by (auto split: prod.splits option.splits)
    from Suc.IH [OF rest] codec_get [OF get] show ?thesis
      by (simp add: vs)
  qed
qed

end

end
