(* ===== verification/Der.thy ===== *)
theory Der
  imports Cbs Codec
begin

text \<open>
  The DER encoding as an abstract specification (base-128 integers, tags, lengths,
  elements), and the proof that the parser of \<^verbatim>\<open>cbs.c\<close> accepts exactly these encodings.
\<close>

section \<open>Base-128 integers\<close>

text \<open>The digits above the last one carry the continuation bit.\<close>

fun base128_high :: "nat \<Rightarrow> bytes" where
  "base128_high n = (if n = 0 then [] else base128_high (n div 128) @ [0x80 + of_nat (n mod 128)])"

declare base128_high.simps [simp del]

definition base128 :: "nat \<Rightarrow> bytes" where
  "base128 n = base128_high (n div 128) @ [of_nat (n mod 128)]"

lemma base128_high_0 [simp]: "base128_high 0 = []"
  by (simp add: base128_high.simps)

lemma base128_high_pos: "0 < n \<Longrightarrow> base128_high n = base128_high (n div 128) @ [0x80 + of_nat (n mod 128)]"
  by (subst base128_high.simps) simp

lemma unat_high_digit: "d < 128 \<Longrightarrow> unat (0x80 + of_nat d :: u8) = 128 + d"
  by (simp add: unat_word_ariths unat_of_nat)

lemma unat_low_digit: "d < 128 \<Longrightarrow> unat (of_nat d :: u8) = d"
  by (simp add: unat_of_nat)

lemma parse_base128_step:
  assumes v: "unat v < 2 ^ 57" and min: "\<not> (v = 0 \<and> b = 0x80)"
  shows "parse_base128_loop v (b # d) =
    (let w = of_nat (128 * unat v + unat b mod 128)
     in if 128 \<le> unat b then parse_base128_loop w d else (Some w, d))"
proof -
  have "push_bit 7 v OR (ucast b AND 0x7f) = (of_nat (128 * unat v + unat b mod 128) :: u64)"
    by (simp only: unat_septet_step [OF v, symmetric] of_nat_unat) simp
  moreover have "drop_bit (64 - 7) v = 0"
    using v by (simp add: drop_bit_eq_0_iff_unat)
  moreover have "b AND 0x80 \<noteq> 0 \<longleftrightarrow> 128 \<le> unat b"
    by (simp add: and_0x80_eq_0_iff not_less)
  ultimately show ?thesis
    using min by (simp only: parse_base128_loop.simps Let_def if_not_P) simp
qed

lemma parse_base128_loop_high:
  "n < 2 ^ 64 \<Longrightarrow> parse_base128_loop 0 (base128_high n @ d) = parse_base128_loop (of_nat n) d"
proof (induction n arbitrary: d rule: base128_high.induct)
  case (1 n)
  show ?case
  proof (cases "n = 0")
    case True
    then show ?thesis by simp
  next
    case False
    define b :: u8 where "b = 0x80 + of_nat (n mod 128)"
    define v :: u64 where "v = of_nat (n div 128)"
    have b: "unat b = 128 + n mod 128"
      unfolding b_def by (rule unat_high_digit) simp
    have v: "unat v = n div 128"
      using "1.prems" by (simp add: v_def unat_of_nat)
    have v57: "unat v < 2 ^ 57"
      using "1.prems" v by (simp add: less_mult_imp_div_less)
    have min: "\<not> (v = 0 \<and> b = 0x80)"
    proof
      assume "v = 0 \<and> b = 0x80"
      then have "n div 128 = 0" and "n mod 128 = 0"
        using b v by auto
      with False show False
        using div_mult_mod_eq [of n 128] by linarith
    qed
    have "parse_base128_loop 0 (base128_high n @ d) = parse_base128_loop v (b # d)"
      using False "1.IH" [of "b # d"] "1.prems"
      by (simp add: base128_high_pos [of n] b_def [symmetric] v_def)
    also have "\<dots> = parse_base128_loop (of_nat n) d"
      by (simp only: parse_base128_step [OF v57 min] Let_def b v) simp
    finally show ?thesis .
  qed
qed

lemma parse_base128_encode:
  assumes "n < 2 ^ 64"
  shows "parse_base128_integer (base128 n @ d) = (Some (of_nat n), d)"
proof -
  define b :: u8 where "b = of_nat (n mod 128)"
  define v :: u64 where "v = of_nat (n div 128)"
  have b: "unat b = n mod 128" unfolding b_def by (rule unat_low_digit) simp
  have v: "unat v = n div 128"
    using assms by (simp add: v_def unat_of_nat)
  have v57: "unat v < 2 ^ 57"
    using assms v by (simp add: less_mult_imp_div_less)
  have small: "\<not> 128 \<le> unat b" by (simp add: b)
  then have min: "\<not> (v = 0 \<and> b = 0x80)" by auto
  have "parse_base128_integer (base128 n @ d) = parse_base128_loop v (b # d)"
    using assms parse_base128_loop_high [of "n div 128" "b # d"]
    by (simp add: parse_base128_integer_def base128_def b_def v_def)
  also have "\<dots> = (Some (of_nat n), d)"
    by (simp only: parse_base128_step [OF v57 min] Let_def small if_False) (simp add: b v)
  finally show ?thesis .
qed

lemma base128_high_step:
  assumes "unat w = 128 * m + unat b mod 128" and "0 < unat w" and "128 \<le> unat b"
  shows "base128_high (unat (w :: u64)) = base128_high m @ [b]"
proof -
  have "unat b = 128 + unat b mod 128"
    using assms(3) by (simp add: u8_mod_128)
  then have "0x80 + of_nat (unat b mod 128) = b"
    by (simp only: word_unat_eq_iff unat_high_digit mod_less_divisor zero_less_numeral)
  then show ?thesis
    using assms by (simp add: base128_high_pos)
qed

lemma parse_base128_loop_decode:
  "parse_base128_loop v c = (Some w, c') \<Longrightarrow>
     \<exists>bs. c = bs @ c' \<and> base128 (unat w) = base128_high (unat v) @ bs"
proof (induction c arbitrary: v)
  case Nil
  then show ?case by simp
next
  case (Cons b cs)
  from Cons.prems have v: "unat v < 2 ^ 57" and min: "\<not> (v = 0 \<and> b = 0x80)"
    by (auto simp: drop_bit_eq_0_iff_unat split: if_splits)
  define u :: u64 where "u = of_nat (128 * unat v + unat b mod 128)"
  have "128 * unat v + unat b mod 128 < 2 ^ 64"
    using v mod_less_divisor [of 128 "unat b"] by simp
  then have u: "unat u = 128 * unat v + unat b mod 128"
    unfolding u_def by (simp only: unat_of_nat) (simp add: take_bit_nat_eq_self)
  show ?case
  proof (cases "128 \<le> unat b")
    case True
    with Cons.prems have "parse_base128_loop u cs = (Some w, c')"
      by (simp only: parse_base128_step [OF v min] Let_def u_def [symmetric] if_True)
    then obtain bs where bs: "cs = bs @ c'" "base128 (unat w) = base128_high (unat u) @ bs"
      using Cons.IH by blast
    have "b \<noteq> 0x80 \<Longrightarrow> 0 < unat b mod 128"
    proof -
      assume "b \<noteq> 0x80"
      then have "unat b \<noteq> 128" by (simp add: word_unat_eq_iff)
      with True show ?thesis
        by (simp add: u8_mod_128)
    qed
    with min have "0 < unat u"
      by (cases "v = 0") (auto simp: u unat_gt_0)
    from bs base128_high_step [OF u this True] show ?thesis
      by simp
  next
    case False
    with Cons.prems have "u = w" and "cs = c'"
      by (auto simp only: parse_base128_step [OF v min] Let_def u_def [symmetric] if_False
          prod.inject option.inject)
    moreover have "base128 (unat u) = base128_high (unat v) @ [b]"
      using False by (simp add: base128_def u)
    ultimately show ?thesis by simp
  qed
qed

lemma parse_base128_decode:
  "parse_base128_integer c = (Some w, c') \<Longrightarrow> c = base128 (unat w) @ c'"
  using parse_base128_loop_decode [of 0 c w c'] by (simp add: parse_base128_integer_def)

lemma parse_base128_loop_suffix: "parse_base128_loop v c = (r, c') \<Longrightarrow> suffix c' c"
  by (induction v c rule: parse_base128_loop.induct)
    (auto simp: Let_def suffix_ConsI split: if_splits)

interpretation b128: codec parse_base128_integer "\<lambda>v. base128 (unat v)" "\<lambda>_. True"
proof unfold_locales
  show "parse_base128_integer (base128 (unat v) @ d) = (Some v, d)" for v :: u64 and d
    using parse_base128_encode [of "unat v" d] unsigned_less [of v] by simp
qed (auto simp: parse_base128_integer_def dest: parse_base128_loop_suffix parse_base128_decode
       [unfolded parse_base128_integer_def])

section \<open>Tags\<close>

text \<open>A tag keeps its class and constructed bits on top and its number in the low 29 bits.\<close>

definition der_tag :: "CBS_ASN1_TAG \<Rightarrow> bytes" where
  "der_tag t =
     (let bits = ucast (drop_bit 24 t) AND 0xe0;
          number = t AND mask 29
      in if 31 \<le> unat number then (bits OR 0x1f) # base128 (unat number)
         else [bits OR ucast number])"

definition valid_tag :: "CBS_ASN1_TAG \<Rightarrow> bool" where
  "valid_tag t \<longleftrightarrow> t AND NOT CBS_ASN1_CONSTRUCTED \<noteq> 0"

lemma mask_0xe0: "(0xe0 :: 'a::len word) = push_bit 5 (mask 3)"
  by (simp add: mask_eq_exp_minus_1 push_bit_eq_mult)

lemma mask_0x1f: "(0x1f :: 'a::len word) = mask 5"
  by (simp add: mask_eq_exp_minus_1)

lemma tag_number_mask: "CBS_ASN1_TAG_NUMBER_MASK = mask 29"
  by (simp add: CBS_ASN1_TAG_NUMBER_MASK_def CBS_ASN1_TAG_SHIFT_def mask_eq_exp_minus_1)

lemmas tag_bits = mask_0xe0 mask_0x1f tag_number_mask CBS_ASN1_TAG_SHIFT_def

lemma tag_join:
  "push_bit 24 (ucast ((ucast (drop_bit 24 t) AND 0xe0 :: u8) OR x) AND 0xe0) OR (t AND mask 29) = t"
  if "x AND 0xe0 = 0" for t :: u32 and x :: u8
proof (rule bit_word_eqI)
  fix n
  assume "n < LENGTH(32)"
  have small: "bit x k \<Longrightarrow> k < 5" for k
    using that bit_imp_le_length [of x k] by (auto simp: bit_eq_iff bit_simps mask_0xe0)
  show "bit (push_bit 24 (ucast ((ucast (drop_bit 24 t) AND 0xe0 :: u8) OR x) AND 0xe0) OR (t AND mask 29)) n \<longleftrightarrow> bit t n"
    using \<open>n < LENGTH(32)\<close> by (auto simp: bit_simps mask_0xe0 dest: small)
qed

lemma tag_byte_number: "(((ucast (drop_bit 24 t) AND 0xe0) OR x) AND 0x1f :: u8) = x AND 0x1f" for t :: u32
  by (rule bit_word_eqI) (auto simp: bit_simps tag_bits)

lemma unat_mask_less: "unat (t AND mask n) < 2 ^ n" for t :: "'a::len word"
  by (simp only: take_bit_eq_mask [symmetric] unsigned_take_bit_eq) (simp add: take_bit_eq_mod)

lemma ucast_number: "unat w < 32 \<Longrightarrow> ucast (ucast w AND 0x1f :: u8) = w" for w :: u32
  by (simp add: word_unat_eq_iff mask_0x1f unsigned_ucast_eq unsigned_take_bit_eq
      take_bit_nat_eq_self flip: take_bit_eq_mask)

lemma ucast_number_back: "ucast (ucast (b :: u8) :: u32) = b"
  by (rule bit_word_eqI) (auto simp: bit_simps)

lemma parse_der_tag:
  assumes "valid_tag t"
  shows "parse_asn1_tag (der_tag t @ d) = (Some t, d)"
proof -
  let ?bits = "ucast (drop_bit 24 t) AND 0xe0 :: u8" and ?number = "t AND mask 29"
  have number: "unat ?number < 2 ^ 29" by (rule unat_mask_less)
  have valid: "t AND NOT CBS_ASN1_CONSTRUCTED \<noteq> 0"
    using assms by (simp add: valid_tag_def)
  show ?thesis
  proof (cases "31 \<le> unat ?number")
    case True
    have tag: "push_bit 24 (ucast (?bits OR 0x1f) AND 0xe0) OR ?number = t"
      by (rule tag_join) simp
    have byte: "(?bits OR 0x1f) AND 0x1f = 0x1f"
      by (simp add: tag_byte_number)
    have cast: "unat (of_nat (unat ?number) :: u64) = unat ?number"
      using number by (simp add: take_bit_nat_eq_self unat_of_nat)
    have "parse_base128_integer (base128 (unat ?number) @ d) = (Some (of_nat (unat ?number)), d)"
      by (rule parse_base128_encode) (use number in simp)
    moreover have "\<not> of_nat (unat ?number) > (ucast CBS_ASN1_TAG_NUMBER_MASK :: u64)"
      using number by (simp only: word_less_nat_alt cast tag_number_mask not_less)
        (simp add: mask_eq_exp_minus_1)
    moreover have "\<not> of_nat (unat ?number) < (0x1f :: u64)"
      using True by (simp only: word_less_nat_alt cast) simp
    moreover have "ucast (of_nat (unat ?number) :: u64) = ?number"
      by (simp only: of_nat_unat) (rule bit_word_eqI, simp add: bit_simps)
    ultimately show ?thesis
      using True byte tag valid
      by (simp add: der_tag_def parse_asn1_tag_def CBS_get_u8_def cbs_get_def Let_def CBS_ASN1_TAG_SHIFT_def)
  next
    case False
    let ?x = "ucast ?number :: u8"
    have "unat ?number < 2 ^ 5"
      using False by simp
    then have take5: "take_bit 5 ?number = ?number"
      by (simp only: word_unat_eq_iff unsigned_take_bit_eq) (simp add: take_bit_nat_eq_self)
    have x0: "?x AND 0xe0 = 0"
      by (subst take5 [symmetric], rule bit_word_eqI) (auto simp: bit_simps mask_0xe0)
    have x: "ucast (?x AND 0x1f) = ?number"
      using False by (intro ucast_number) simp
    have tag: "push_bit 24 (ucast (?bits OR ?x) AND 0xe0) OR ?number = t"
      by (rule tag_join [OF x0])
    have byte: "ucast ((?bits OR ?x) AND 0x1f) = ?number"
      by (simp only: tag_byte_number x)
    have "?number \<noteq> 0x1f"
      using False by auto
    then show ?thesis
      using False byte tag valid
      by (simp add: der_tag_def parse_asn1_tag_def CBS_get_u8_def cbs_get_def Let_def CBS_ASN1_TAG_SHIFT_def)
  qed
qed

lemma tag_parts:
  fixes b :: u8 and n :: u32
  assumes "unat n < 2 ^ 29"
  defines "t \<equiv> push_bit 24 (ucast b AND 0xe0) OR n"
  shows "t AND mask 29 = n" and "ucast (drop_bit 24 t) AND 0xe0 = b AND 0xe0"
proof -
  have "take_bit 29 n = n"
    using assms(1) by (simp only: word_unat_eq_iff unsigned_take_bit_eq) (simp add: take_bit_nat_eq_self)
  then have small: "bit n k \<Longrightarrow> k < 29" for k
    by (metis bit_take_bit_iff)
  show "t AND mask 29 = n"
    by (rule bit_word_eqI) (auto simp: t_def bit_simps mask_0xe0 dest: small)
  show "ucast (drop_bit 24 t) AND 0xe0 = b AND 0xe0"
    by (rule bit_word_eqI) (auto simp: t_def bit_simps mask_0xe0 dest: small)
qed

lemma byte_split: "(b AND 0xe0) OR (b AND 0x1f) = b" for b :: u8
  by (rule bit_word_eqI) (auto simp: bit_simps tag_bits)

lemma parse_asn1_tag_Cons:
  "parse_asn1_tag (b # c) =
     cbind
       (if b AND 0x1f = 0x1f then
          cbind (parse_base128_integer c) (\<lambda>v c.
            if v > ucast CBS_ASN1_TAG_NUMBER_MASK \<or> v < 0x1f then (None, c) else (Some (ucast v), c))
        else (Some (ucast (b AND 0x1f)), c))
       (\<lambda>n c. let t = push_bit 24 (ucast b AND 0xe0) OR n
               in if \<not> valid_tag t then (None, c) else (Some t, c))"
proof -
  have get: "CBS_get_u8 (b # c) = (Some b, c)"
    by (simp add: CBS_get_u8_def cbs_get_def)
  have "ucast (b AND 0x1f) = (0x1f :: u32) \<longleftrightarrow> b AND 0x1f = 0x1f"
    by (simp add: word_unat_eq_iff)
  then show ?thesis
    unfolding parse_asn1_tag_def get cbind_Some Let_def valid_tag_def CBS_ASN1_TAG_SHIFT_def not_not
    by (simp only:)
qed

lemma parse_asn1_tag_decode:
  assumes "parse_asn1_tag c = (Some t, c')"
  shows "valid_tag t \<and> c = der_tag t @ c'"
proof (cases c)
  case Nil
  with assms show ?thesis
    by (simp add: parse_asn1_tag_def CBS_get_u8_def cbs_get_def)
next
  case (Cons b d)
  show ?thesis
  proof (cases "b AND 0x1f = 0x1f")
    case True
    with assms Cons obtain v where v: "parse_base128_integer d = (Some v, c')"
      and bound: "v \<le> ucast CBS_ASN1_TAG_NUMBER_MASK" "0x1f \<le> v"
      and t: "t = push_bit 24 (ucast b AND 0xe0) OR ucast v" and valid: "valid_tag t"
      by (auto simp: parse_asn1_tag_Cons cbind_eq_Some Let_def not_less split: if_splits)
    have n: "unat v < 2 ^ 29"
      using bound(1) by (simp add: word_le_nat_alt tag_number_mask mask_eq_exp_minus_1)
    then have cast: "unat (ucast v :: u32) = unat v"
      by (simp add: unsigned_ucast_eq take_bit_nat_eq_self)
    with n have n': "unat (ucast v :: u32) < 2 ^ 29" by simp
    have "31 \<le> unat v"
      using bound(2) by (simp add: word_le_nat_alt)
    then have "der_tag t = b # base128 (unat v)"
      using byte_split [of b] True
      by (simp only: der_tag_def t tag_parts [OF n'] cast Let_def) simp
    with parse_base128_decode [OF v] valid Cons show ?thesis by simp
  next
    case False
    with assms Cons have t: "t = push_bit 24 (ucast b AND 0xe0) OR ucast (b AND 0x1f)"
      and valid: "valid_tag t" and c': "c' = d"
      by (auto simp: parse_asn1_tag_Cons Let_def split: if_splits)
    have small: "unat (b AND 0x1f) < 32"
      using unat_mask_less [of b 5] by (simp add: mask_0x1f)
    moreover have "unat (b AND 0x1f) \<noteq> 31"
      using False by (simp add: word_unat_eq_iff)
    ultimately have "\<not> 31 \<le> unat (b AND 0x1f)" by simp
    moreover have n: "unat (ucast (b AND 0x1f) :: u32) < 2 ^ 29"
      using small by simp
    ultimately have "der_tag t = [b]"
      using byte_split [of b]
      by (simp only: der_tag_def t tag_parts [OF n] Let_def ucast_number_back) simp
    with valid Cons c' show ?thesis by simp
  qed
qed

lemma parse_asn1_tag_suffix: "parse_asn1_tag c = (r, c') \<Longrightarrow> suffix c' c"
proof (cases c)
  case Nil
  then show "parse_asn1_tag c = (r, c') \<Longrightarrow> suffix c' c"
    by (auto simp: parse_asn1_tag_def CBS_get_u8_def cbs_get_def)
next
  case (Cons b d)
  then show "parse_asn1_tag c = (r, c') \<Longrightarrow> suffix c' c"
    by (cases "parse_base128_integer d")
      (auto simp: parse_asn1_tag_Cons Let_def cbind_def suffix_ConsI
        split: if_splits option.splits dest!: b128.advances)
qed

interpretation tag: codec parse_asn1_tag der_tag valid_tag
  by unfold_locales (auto dest: parse_asn1_tag_suffix parse_asn1_tag_decode simp: parse_der_tag)

section \<open>Lengths\<close>

definition length_octets :: "nat \<Rightarrow> nat" where
  "length_octets n = (if n < 2 ^ 8 then 1 else if n < 2 ^ 16 then 2 else if n < 2 ^ 24 then 3 else 4)"

definition der_length :: "nat \<Rightarrow> bytes" where
  "der_length n =
     (if n < 128 then [of_nat n]
      else (0x80 + of_nat (length_octets n)) # be_bytes (length_octets n) n)"

definition der_header :: "CBS_ASN1_TAG \<Rightarrow> nat \<Rightarrow> bytes" where
  "der_header t n = der_tag t @ der_length n"

definition der_element :: "CBS_ASN1_TAG \<Rightarrow> bytes \<Rightarrow> bytes" where
  "der_element t contents = der_header t (length contents) @ contents"

lemma length_octets_le: "length_octets n \<le> 4"
  by (simp add: length_octets_def)

lemma length_octets_eq:
  assumes "1 \<le> k" and "k \<le> 4" and "256 ^ (k - 1) \<le> n" and "n < 256 ^ k"
  shows "length_octets n = k"
proof -
  from assms(1,2) consider "k = 1" | "k = 2" | "k = 3" | "k = 4" by linarith
  then show ?thesis
    using assms(3,4) by cases (simp_all add: length_octets_def)
qed

lemma length_octets_bounds:
  assumes "n < 2 ^ 32"
  shows "n < 256 ^ length_octets n" and "128 \<le> n \<Longrightarrow> 256 ^ (length_octets n - 1) \<le> n"
  using assms by (auto simp: length_octets_def)

lemma length_base128_high: "n < 128 ^ k \<Longrightarrow> length (base128_high n) \<le> k"
proof (induction k arbitrary: n)
  case 0
  then show ?case by simp
next
  case (Suc k)
  then have "n div 128 < 128 ^ k"
    by (simp add: less_mult_imp_div_less mult.commute)
  with Suc.IH show ?case
    by (cases "n = 0") (auto simp: base128_high_pos)
qed

lemma length_base128: "n < 128 ^ Suc k \<Longrightarrow> length (base128 n) \<le> Suc k"
  using length_base128_high [of "n div 128" k]
  by (simp add: base128_def less_mult_imp_div_less mult.commute)

lemma length_der_tag: "length (der_tag t) \<le> 6"
proof -
  have "unat (t AND mask 29) < 128 ^ Suc 4"
    using unat_mask_less [of t 29] by simp
  from length_base128 [OF this] show ?thesis
    by (simp add: der_tag_def Let_def)
qed

lemma der_tag_not_Nil [simp]: "der_tag t \<noteq> []"
  by (simp add: der_tag_def Let_def)

lemma length_der_length: "length (der_length n) \<le> 5"
  using length_octets_le [of n] by (simp add: der_length_def)

lemma der_element_not_Nil [simp]: "der_element t x \<noteq> []"
  by (simp add: der_element_def der_header_def)

section \<open>Elements\<close>

lemma cbs_get_append [simp]: "cbs_get (p @ d) (length p) = (Some p, d)"
  by (simp add: cbs_get_def)

lemma cbs_get_iff: "cbs_get c n = (Some p, d) \<longleftrightarrow> c = p @ d \<and> length p = n"
  by (auto simp: cbs_get_def)

lemma CBS_get_bytes_iff: "CBS_get_bytes c n = (Some p, d) \<longleftrightarrow> c = p @ d \<and> length p = n"
  by (auto simp: CBS_get_bytes_def cbind_eq_Some cbs_get_iff)

lemma CBS_get_bytes_take:
  "CBS_get_bytes c n = (Some p, d) \<longleftrightarrow> n \<le> length c \<and> p = take n c \<and> d = drop n c"
  by (auto simp: CBS_get_bytes_def cbind_eq_Some cbs_get_def)

lemma CBS_get_bytes_None: "CBS_get_bytes c n = (None, d) \<Longrightarrow> d = c"
  by (auto simp: CBS_get_bytes_def cbs_get_def split: if_splits)

lemma CBS_get_u8_Cons [simp]: "CBS_get_u8 (b # c) = (Some b, c)"
  by (simp add: CBS_get_u8_def cbs_get_def)

lemma CBS_get_u8_Nil [simp]: "CBS_get_u8 [] = (None, [])"
  by (simp add: CBS_get_u8_def cbs_get_def)

lemma CBS_skip_append [simp]: "CBS_skip (p @ d) (length p) = (Some (), d)"
  by (simp add: CBS_skip_def)

lemma cbs_get_u_iff:
  "cbs_get_u c n = (Some v, d) \<longleftrightarrow> (\<exists>p. c = p @ d \<and> length p = n \<and> v = be_word p)"
  by (auto simp: cbs_get_u_def cbind_eq_Some cbs_get_iff)

text \<open>Every failure of the element parser leaves its input where it was.\<close>

lemma any_asn1_element_fail:
  "cbs_get_any_asn1_element ber_ok c = (None, c') \<Longrightarrow> c' = c"
  by (auto simp: cbs_get_any_asn1_element_def Let_def cbind_eq_None
      split: prod.splits option.splits if_splits dest: CBS_get_bytes_None)

lemma der_length_short: "unat b < 128 \<Longrightarrow> der_length (unat b) = [b]"
  by (simp add: der_length_def word_unat_eq_iff)

lemma der_length_long:
  assumes k: "1 \<le> length bs" "length bs \<le> 4" and b: "128 \<le> unat b" "unat b mod 128 = length bs"
    and min: "128 \<le> be_nat bs" "256 ^ (length bs - 1) \<le> be_nat bs"
  shows "der_length (be_nat bs) = b # bs"
proof -
  have octets: "length_octets (be_nat bs) = length bs"
    using k min(2) be_nat_bound [of bs] by (rule length_octets_eq)
  have "(0x80 + of_nat (length bs) :: u8) = b"
    using b k by (simp only: word_unat_eq_iff unat_high_digit u8_mod_128)
  with octets min show ?thesis
    by (simp add: der_length_def be_bytes_be_nat)
qed

text \<open>
  The DER branch of the element parser, with the header spelled out: the parser succeeds
  exactly on \<open>der_element\<close> encodings with fewer than \<open>2 ^ 32\<close> bytes of contents.
\<close>

definition parsed_element :: "CBS_ASN1_TAG \<Rightarrow> bytes \<Rightarrow> asn1_element" where
  "parsed_element t contents =
     \<lparr>elem_out = der_element t contents, elem_tag = t,
      elem_header_len = length (der_header t (length contents)),
      elem_ber_found = False, elem_indefinite = False\<rparr>"

lemma size_add_header:
  assumes "n < 2 ^ 32" and "h \<le> 7" and "k \<le> 4"
  shows "size_add (size_add n h) k = n + h + k" and "size_add n (size_add h k) = n + h + k"
    and "size_add n h = n + h" and "size_add h k = h + k" and "size_add n (h + k) = n + (h + k)"
  using assms by simp_all

lemma any_asn1_element_decode:
  assumes "cbs_get_any_asn1_element False c = (Some e, c')"
  shows "\<exists>t contents. valid_tag t \<and> length contents < 2 ^ 32 \<and> e = parsed_element t contents
           \<and> c = der_element t contents @ c'"
proof -
  from assms obtain t header where tag: "parse_asn1_tag c = (Some t, header)"
    by (auto simp: cbs_get_any_asn1_element_def split: prod.splits option.splits)
  from tag.codec_get [OF tag] have t: "valid_tag t" and c: "c = der_tag t @ header" by simp_all
  from assms tag obtain b d where header: "header = b # d"
    by (cases header) (auto simp: cbs_get_any_asn1_element_def)
  let ?h = "length c - length d"
  have h: "?h = length (der_tag t) + 1" by (simp add: c header)
  have h7: "?h \<le> 7" using length_der_tag [of t] by (simp add: h)
  show ?thesis
  proof (cases "unat b < 128")
    case True
    then have sizes: "size_add (unat b) ?h = unat b + ?h"
      using size_add_header(3) [of "unat b" ?h 0] h7 by simp
    from True assms tag header have out: "CBS_get_bytes c (unat b + ?h) = (Some (elem_out e), c')"
      and e: "e = \<lparr>elem_out = elem_out e, elem_tag = t, elem_header_len = ?h,
                   elem_ber_found = False, elem_indefinite = False\<rparr>"
      by (auto simp: cbs_get_any_asn1_element_def Let_def and_0x80_eq_0_iff sizes cbind_eq_Some)
    define x where "x = take (unat b) d"
    have x: "elem_out e = der_tag t @ b # x" "length x = unat b" "d = x @ c'"
      using out by (auto simp: x_def CBS_get_bytes_take h) (simp_all add: c header)
    have el: "elem_out e = der_element t x"
      using True x by (simp add: der_element_def der_header_def der_length_short)
    have hl: "?h = length (der_header t (length x))"
      using True x(2) by (simp add: der_header_def der_length_short h)
    have "e = parsed_element t x"
      unfolding parsed_element_def el [symmetric] hl [symmetric] by (rule e)
    moreover have "c = der_element t x @ c'"
      using x by (simp add: c header el [symmetric])
    moreover have "length x < 2 ^ 32"
      using x(2) True by simp
    ultimately show ?thesis using t by blast
  next
    case False
    let ?k = "unat (b AND 0x7f)"
    have k: "?k = unat b mod 128" by (simp add: unat_and_0x7f)
    from False assms tag header obtain len64 rest where u: "cbs_get_u d ?k = (Some len64, rest)"
      and k14: "1 \<le> ?k" "?k \<le> 4"
      and min: "\<not> len64 < 128" "drop_bit ((?k - 1) * 8) len64 \<noteq> 0"
      and out: "CBS_get_bytes c (size_add (unat len64) (size_add ?h ?k)) = (Some (elem_out e), c')"
      and e: "e = \<lparr>elem_out = elem_out e, elem_tag = t, elem_header_len = size_add ?h ?k,
                   elem_ber_found = False, elem_indefinite = False\<rparr>"
      by (auto simp: cbs_get_any_asn1_element_def Let_def and_0x80_eq_0_iff cbind_eq_Some
          split: prod.splits option.splits if_splits)
    from u obtain bs where d: "d = bs @ rest" and bs: "length bs = ?k" and len64: "len64 = be_word bs"
      by (auto simp: cbs_get_u_iff)
    let ?n = "be_nat bs"
    have n: "unat len64 = ?n"
      using bs k14 by (simp add: len64 unat_be_word)
    have "?n < 256 ^ ?k" using be_nat_bound [of bs] by (simp add: bs)
    also have "\<dots> \<le> 256 ^ 4" using k14 by (intro power_increasing) simp_all
    finally have n32: "?n < 2 ^ 32" by simp
    have nmin: "128 \<le> ?n" "256 ^ (length bs - 1) \<le> ?n"
      using min by (simp_all add: word_less_nat_alt n drop_bit_eq_0_iff_unat bs power_mult not_less
          mult.commute)
    have len: "der_length ?n = b # bs"
      by (rule der_length_long) (use k14 bs False k nmin in simp_all)
    define x where "x = take ?n rest"
    have sizes: "size_add ?h ?k = ?h + ?k" "size_add ?n (?h + ?k) = ?n + (?h + ?k)"
      by (rule size_add_header [OF n32 h7 k14(2)])+
    have x: "elem_out e = der_tag t @ b # bs @ x" "length x = ?n" "rest = x @ c'"
      using out [unfolded n sizes] bs
      by (auto simp: x_def CBS_get_bytes_take h) (simp_all add: c header d)
    have el: "elem_out e = der_element t x"
      by (simp add: x der_element_def der_header_def len)
    have hl: "size_add ?h ?k = length (der_header t (length x))"
      unfolding sizes unfolding h by (simp add: der_header_def x(2) len bs)
    have "e = parsed_element t x"
      unfolding parsed_element_def el [symmetric] hl [symmetric] by (rule e)
    moreover have "c = der_element t x @ c'"
      using x by (simp add: c header d el [symmetric])
    moreover have "length x < 2 ^ 32"
      using x(2) n32 by simp
    ultimately show ?thesis using t by blast
  qed
qed

lemma any_asn1_element_encode:
  assumes t: "valid_tag t" and len: "length x < 2 ^ 32"
  shows "cbs_get_any_asn1_element ber_ok (der_element t x @ d) = (Some (parsed_element t x), d)"
proof -
  let ?n = "length x" and ?c = "der_element t x @ d"
  have tag: "parse_asn1_tag ?c = (Some t, der_length ?n @ x @ d)"
    using parse_der_tag [OF t, of "der_length ?n @ x @ d"] by (simp add: der_element_def der_header_def)
  show ?thesis
  proof (cases "?n < 128")
    case True
    let ?b = "of_nat ?n :: u8"
    have b: "unat ?b = ?n" using True by (simp add: unat_low_digit)
    have header: "der_length ?n = [?b]" using True by (simp add: der_length_def)
    have h: "length ?c - length (x @ d) = length (der_tag t) + 1"
      by (simp add: der_element_def der_header_def header)
    have out: "CBS_get_bytes ?c (?n + (length (der_tag t) + 1)) = (Some (der_element t x), d)"
      by (simp add: CBS_get_bytes_iff der_element_def der_header_def header)
    have sizes: "size_add ?n (length (der_tag t) + 1) = ?n + (length (der_tag t) + 1)"
      using size_add_header(3) [OF len, of "length (der_tag t) + 1" 0] length_der_tag [of t] by simp
    show ?thesis
      unfolding cbs_get_any_asn1_element_def tag
      by (simp add: header Let_def and_0x80_eq_0_iff b True h [simplified] sizes [simplified] out [simplified]
          parsed_element_def) (simp add: der_header_def header)
  next
    case False
    let ?k = "length_octets ?n" and ?b = "0x80 + of_nat (length_octets ?n) :: u8"
    let ?bs = "be_bytes ?k ?n"
    have k: "1 \<le> ?k" "?k \<le> 4" by (simp_all add: length_octets_def)
    have b: "unat ?b = 128 + ?k" using k by (simp add: unat_high_digit)
    then have kb: "unat (?b AND 0x7f) = ?k" using k by (simp add: unat_and_0x7f)
    have "be_nat ?bs = ?n"
      using length_octets_bounds(1) [OF len] by (simp add: be_nat_be_bytes)
    with k have v: "unat (be_word ?bs) = ?n" by (simp add: unat_be_word)
    have header: "der_length ?n = ?b # ?bs" using False by (simp add: der_length_def)
    let ?h = "length (der_tag t) + 1"
    have h: "length ?c - length (?bs @ x @ d) = ?h"
      by (simp add: der_element_def der_header_def header)
    have sizes: "size_add ?n (?h + ?k) = ?n + (?h + ?k)" "size_add ?h ?k = ?h + ?k"
        "size_add (size_add ?n ?h) ?k = ?n + (?h + ?k)"
      using size_add_header [OF len, of ?h ?k] length_der_tag [of t] k by simp_all
    have out: "CBS_get_bytes ?c (?n + (?h + ?k)) = (Some (der_element t x), d)"
      by (simp add: CBS_get_bytes_iff der_element_def der_header_def header)
    have u: "cbs_get_u (?bs @ x @ d) ?k = (Some (be_word ?bs), x @ d)"
      by (auto simp: cbs_get_u_iff)
    have min: "\<not> be_word ?bs < 128" "drop_bit ((?k - 1) * 8) (be_word ?bs) \<noteq> 0"
      using False length_octets_bounds(2) [OF len]
      by (simp_all add: word_less_nat_alt v drop_bit_eq_0_iff_unat power_mult mult.commute not_less)
    have "\<not> unat ?b < 128" "?k \<noteq> 0" "\<not> 4 < ?k" using b k by simp_all
    then show ?thesis
      unfolding cbs_get_any_asn1_element_def tag header append_Cons prod.case option.case
        CBS_get_u8_Cons Let_def and_0x80_eq_0_iff kb h u v sizes out cbind_Some
      using min by (simp add: parsed_element_def der_header_def header)
  qed
qed

section \<open>The element readers as codecs\<close>

lemma header_prefix: "der_element t x = der_header t (length x) @ x"
  by (simp add: der_element_def)

lemma CBS_get_any_asn1_element_iff:
  "CBS_get_any_asn1_element c = (Some (out, t, h), c') \<longleftrightarrow>
     (\<exists>x. valid_tag t \<and> length x < 2 ^ 32 \<and> out = der_element t x \<and>
          h = length (der_header t (length x)) \<and> c = der_element t x @ c')"
  (is "?l \<longleftrightarrow> ?r")
proof
  assume ?l
  then obtain e where "cbs_get_any_asn1_element False c = (Some e, c')"
    and "elem_out e = out" "elem_tag e = t" "elem_header_len e = h"
    by (auto simp: CBS_get_any_asn1_element_def cbind_eq_Some)
  then show ?r
    using any_asn1_element_decode [of c e c'] by (auto simp: parsed_element_def)
next
  assume ?r
  then show ?l
    using any_asn1_element_encode [of t _ False c']
    by (auto simp: CBS_get_any_asn1_element_def parsed_element_def)
qed

lemma CBS_get_any_asn1_element_fail: "CBS_get_any_asn1_element c = (None, c') \<Longrightarrow> c' = c"
  by (auto simp: CBS_get_any_asn1_element_def cbind_eq_None dest: any_asn1_element_fail)

lemma CBS_get_any_asn1_encode:
  assumes "valid_tag t" and "length x < 2 ^ 32"
  shows "CBS_get_any_asn1 (der_element t x @ c') = (Some (x, t), c')"
proof -
  have "CBS_get_any_asn1_element (der_element t x @ c') =
      (Some (der_element t x, t, length (der_header t (length x))), c')"
    using assms by (auto simp: CBS_get_any_asn1_element_iff)
  then show ?thesis
    by (simp add: CBS_get_any_asn1_def header_prefix)
qed

lemma CBS_get_any_asn1_cases:
  obtains (fail) "CBS_get_any_asn1_element c = (None, c)" "CBS_get_any_asn1 c = (None, c)"
  | (elem) t x c' where "valid_tag t" "length x < 2 ^ 32" "c = der_element t x @ c'"
      "CBS_get_any_asn1_element c = (Some (der_element t x, t, length (der_header t (length x))), c')"
      "CBS_get_any_asn1 c = (Some (x, t), c')"
proof (cases "CBS_get_any_asn1_element c")
  case (Pair r c')
  show ?thesis
  proof (cases r)
    case None
    with Pair CBS_get_any_asn1_element_fail [of c c'] show ?thesis
      by (intro fail) (simp_all add: CBS_get_any_asn1_def)
  next
    case (Some y)
    obtain out t h where "y = (out, t, h)" by (cases y) auto
    with Some Pair obtain x where "valid_tag t" "length x < 2 ^ 32" "c = der_element t x @ c'"
      and "y = (der_element t x, t, length (der_header t (length x)))"
      by (auto simp: CBS_get_any_asn1_element_iff)
    with Pair Some CBS_get_any_asn1_encode [of t x c'] show ?thesis
      by (intro elem) simp_all
  qed
qed

lemma CBS_get_any_asn1_iff:
  "CBS_get_any_asn1 c = (Some (x, t), c') \<longleftrightarrow>
     valid_tag t \<and> length x < 2 ^ 32 \<and> c = der_element t x @ c'"
proof
  show "CBS_get_any_asn1 c = (Some (x, t), c') \<Longrightarrow> valid_tag t \<and> length x < 2 ^ 32 \<and> c = der_element t x @ c'"
    by (cases c rule: CBS_get_any_asn1_cases) auto
qed (auto simp: CBS_get_any_asn1_encode)

lemma CBS_get_any_asn1_fail: "CBS_get_any_asn1 c = (None, c') \<Longrightarrow> c' = c"
  by (cases c rule: CBS_get_any_asn1_cases) auto

interpretation any_asn1: codec CBS_get_any_asn1 "\<lambda>(x, t). der_element t x"
    "\<lambda>(x, t). valid_tag t \<and> length x < 2 ^ 32"
  by unfold_locales (auto simp: CBS_get_any_asn1_iff dest: CBS_get_any_asn1_fail)

lemma CBS_get_asn1_any:
  "CBS_get_asn1 c t =
     cbind (CBS_get_any_asn1 c) (\<lambda>(x, t') c. if t' \<noteq> t then (None, c) else (Some x, c))"
  by (cases c rule: CBS_get_any_asn1_cases) (simp_all add: CBS_get_asn1_def cbs_get_asn1_def header_prefix)

lemma CBS_get_asn1_iff:
  "CBS_get_asn1 c t = (Some x, c') \<longleftrightarrow> valid_tag t \<and> length x < 2 ^ 32 \<and> c = der_element t x @ c'"
  by (fastforce simp: CBS_get_asn1_any cbind_eq_Some CBS_get_any_asn1_iff split: if_splits)

lemma CBS_get_asn1_fail: "CBS_get_asn1 c t = (None, c') \<Longrightarrow> suffix c' c"
  by (auto simp: CBS_get_asn1_any cbind_eq_None CBS_get_any_asn1_iff suffix_def
      dest: CBS_get_any_asn1_fail split: if_splits)

interpretation asn1: codec "\<lambda>c. CBS_get_asn1 c t" "der_element t" "\<lambda>x. valid_tag t \<and> length x < 2 ^ 32"
  for t
  by unfold_locales (auto simp: CBS_get_asn1_iff dest: CBS_get_asn1_fail)

section \<open>Properties\<close>

text \<open>
  C1: \<open>CBS_get_any_asn1\<close> accepts exactly the canonical DER encodings: it succeeds with
  contents \<open>x\<close> and tag \<open>t\<close> if and only if the input starts with the one DER encoding of that
  element, and leaves exactly the rest of the input.
\<close>

theorem CBS_get_any_asn1_canonical:
  "CBS_get_any_asn1 c = (Some (x, t), c') \<longleftrightarrow>
     valid_tag t \<and> length x < 2 ^ 32 \<and> c = der_element t x @ c'"
  using any_asn1.get_iff [of c "(x, t)" c'] by simp

text \<open>
  a loop that reads elements until the input is exhausted succeeds exactly on a
  concatenation of canonical encodings, and returns their list.
\<close>

theorem CBS_get_any_asn1_sequence:
  "read_all (length c) CBS_get_any_asn1 c = Some vs \<longleftrightarrow>
     c = concat (map (\<lambda>(x, t). der_element t x) vs) \<and>
     list_all (\<lambda>(x, t). valid_tag t \<and> length x < 2 ^ 32) vs"
proof
  assume "read_all (length c) CBS_get_any_asn1 c = Some vs"
  from any_asn1.read_all_canonical [OF this]
  show "c = concat (map (\<lambda>(x, t). der_element t x) vs) \<and> list_all (\<lambda>(x, t). valid_tag t \<and> length x < 2 ^ 32) vs" .
next
  assume c: "c = concat (map (\<lambda>(x, t). der_element t x) vs) \<and> list_all (\<lambda>(x, t). valid_tag t \<and> length x < 2 ^ 32) vs"
  have "length vs \<le> length (concat (map (\<lambda>(x, t). der_element t x) vs))"
  proof (induction vs)
    case (Cons v vs)
    obtain x t where v: "v = (x, t)" by (cases v)
    from Cons show ?case by (cases "der_element t x") (simp_all add: v)
  qed simp
  with c show "read_all (length c) CBS_get_any_asn1 c = Some vs"
    by (intro any_asn1.read_all_put [of vs "length c", folded c [THEN conjunct1]])
      (auto simp: list_all_iff)
qed

text \<open>
  a failing header parse consumes nothing: \<open>CBS_get_any_asn1_element\<close> works on a copy of
  the input and leaves the caller's \<open>CBS\<close> untouched on every error path.
\<close>

theorem CBS_get_any_asn1_element_transactional:
  assumes "fst (CBS_get_any_asn1_element c) = None"
  shows "CBS_get_any_asn1_element c = (None, c)"
  using assms CBS_get_any_asn1_element_fail [of c] by (cases "CBS_get_any_asn1_element c") simp

theorem CBS_get_any_asn1_element_transactional_witness:
  "CBS_get_any_asn1_element [0x30, 0x05, 0x01] = (None, [0x30, 0x05, 0x01])"
  by (rule CBS_get_any_asn1_element_transactional)
    (simp add: CBS_get_any_asn1_element_def cbs_get_any_asn1_element_def parse_asn1_tag_def Let_def
      CBS_ASN1_TAG_SHIFT_def CBS_ASN1_CONSTRUCTED_def CBS_get_bytes_def cbs_get_def)

text \<open>
  no DER encoding of an element is a proper prefix of another, so a parser never has to
  look past the end of an element to know where it ends.
\<close>

theorem der_element_prefix_free:
  assumes "CBS_get_any_asn1 c = (Some (x, t), [])" and "CBS_get_any_asn1 d = (Some (y, s), [])"
    and "prefix c d"
  shows "c = d \<and> x = y \<and> t = s"
  using assms any_asn1.prefix_free [of "(x, t)" "(y, s)"] by (auto simp: CBS_get_any_asn1_iff)

theorem der_element_prefix_free_witness:
  "CBS_get_any_asn1 [0x02, 0x01, 0x05] = (Some ([5], 2), []) \<and> [0x02, 0x01, 0x05 :: u8] = [0x02, 0x01, 0x05]"
proof -
  have "der_element 2 [5] = [0x02, 0x01, 0x05]" and "valid_tag 2"
    by (simp_all add: der_element_def der_header_def der_tag_def der_length_def valid_tag_def Let_def
        CBS_ASN1_CONSTRUCTED_def CBS_ASN1_TAG_SHIFT_def mask_eq_exp_minus_1)
  then have "CBS_get_any_asn1 [0x02, 0x01, 0x05] = (Some ([5], 2), [])"
    by (simp add: CBS_get_any_asn1_iff)
  with der_element_prefix_free [OF this this] show ?thesis by simp
qed

text \<open>
  the tag parser accepts exactly the canonical identifier octets: low numbers in one
  octet, numbers from 31 on in minimal base 128, the reserved tag 0 of the universal class
  refused.
\<close>

theorem parse_asn1_tag_canonical:
  "parse_asn1_tag c = (Some t, c') \<longleftrightarrow> valid_tag t \<and> c = der_tag t @ c'"
  by (rule tag.get_iff)

text \<open>
  the base-128 reader of tag numbers and OID components accepts exactly the minimal
  encoding of each 64-bit value.
\<close>

theorem parse_base128_integer_canonical:
  "parse_base128_integer c = (Some v, c') \<longleftrightarrow> c = base128 (unat v) @ c'"
  using b128.get_iff [of c v c'] by simp

text \<open>
  the fixed-width reader takes exactly \<open>n\<close> bytes, returns their big-endian value, and on
  short input fails without consuming anything.
\<close>

theorem cbs_get_u_big_endian:
  assumes "n \<le> 8"
  shows "cbs_get_u c n =
    (if length c < n then (None, c) else (Some (of_nat (be_nat (take n c))), drop n c))"
proof (cases "length c < n")
  case True
  then show ?thesis by (simp add: cbs_get_u_def cbs_get_def)
next
  case False
  have "length (take n c) \<le> 8" using assms by simp
  from unat_be_word [OF this, symmetric] have "be_word (take n c) = of_nat (be_nat (take n c))"
    by simp
  with False show ?thesis by (simp add: cbs_get_u_def cbs_get_def)
qed

theorem cbs_get_u_big_endian_witness:
  "cbs_get_u [0x01, 0x02, 0x03, 0x04] 3 = (Some 0x010203, [0x04])"
  using cbs_get_u_big_endian [of 3 "[0x01, 0x02, 0x03, 0x04]"] by (simp add: be_nat_def)

end
