(* ===== verification/CbbSpec.thy ===== *)
theory CbbSpec
  imports Cbb Der
begin

text \<open>
  What the builder promises. First memory safety: no operation writes beyond the
  allocation, and the pending prefixes stay inside the valid bytes. Then the sticky error
  bit. Then refinement: flushing renders the nested length prefixes of the abstract
  encodings of \<^theory_text>\<open>Der\<close>.
\<close>

section \<open>Memory safety\<close>

text \<open>
  The children lie in the valid bytes, one behind the prefix of the other; an ASN.1 child
  has one byte of prefix.
\<close>

fun chain_ok :: "nat \<Rightarrow> cbb_child_st list \<Rightarrow> nat \<Rightarrow> bool" where
  "chain_ok start [] n \<longleftrightarrow> start \<le> n"
| "chain_ok start (ch # chs) n \<longleftrightarrow>
     start \<le> offset ch \<and> (pending_is_asn1 ch \<longrightarrow> pending_len_len ch = 1) \<and>
     chain_ok (offset ch + pending_len_len ch) chs n"

definition buffer_inv :: "cbb_buffer_st \<Rightarrow> bool" where
  "buffer_inv b \<longleftrightarrow> length (buf b) \<le> cap b \<and> cap b < size_max"

definition cbb_inv :: "CBB \<Rightarrow> bool" where
  "cbb_inv c \<longleftrightarrow> buffer_inv (base c) \<and> (\<not> error (base c) \<longrightarrow> chain_ok 0 (children c) (length (buf (base c))))"

lemma chain_ok_le: "chain_ok s chs n \<Longrightarrow> s \<le> n"
  by (induction s chs n rule: chain_ok.induct) auto

lemma chain_ok_mono: "chain_ok s chs n \<Longrightarrow> n \<le> m \<Longrightarrow> chain_ok s chs m"
  by (induction s chs n rule: chain_ok.induct) auto

lemma chain_ok_append:
  "chain_ok s (xs @ ys) n \<longleftrightarrow>
     (case rev xs of [] \<Rightarrow> chain_ok s ys n
      | x # _ \<Rightarrow> chain_ok s xs (offset x + pending_len_len x) \<and> chain_ok (offset x + pending_len_len x) ys n)"
proof (induction xs arbitrary: s)
  case Nil
  then show ?case by simp
next
  case (Cons x xs)
  then show ?case
    by (cases xs rule: rev_cases) auto
qed

lemma chain_ok_take: "chain_ok s chs n \<Longrightarrow> chain_ok s (take d chs) n"
proof (induction s chs n arbitrary: d rule: chain_ok.induct)
  case (1 start n)
  then show ?case by simp
next
  case (2 start ch chs n)
  then show ?case
    by (cases d) (auto dest: chain_ok_le)
qed

lemma chain_ok_snoc:
  "chain_ok s chs n \<Longrightarrow> (asn1 \<longrightarrow> k = 1) \<Longrightarrow> n + k \<le> m \<Longrightarrow>
     chain_ok s (chs @ [\<lparr>offset = n, pending_len_len = k, pending_is_asn1 = asn1\<rparr>]) m"
  by (induction s chs n rule: chain_ok.induct) auto

lemma reserve_inv:
  assumes "cbb_buffer_reserve b n = (r, b')" and "buffer_inv b"
  shows "buffer_inv b' \<and> buf b' = buf b \<and> can_resize b' = can_resize b \<and> alloc b' = alloc b \<and>
    (can_resize b \<or> cap b' = cap b) \<and> (r \<noteq> None \<longrightarrow> error b' = error b \<and> (n < size_max \<longrightarrow> length (buf b) + n \<le> cap b')) \<and>
    (r = None \<longrightarrow> error b')"
proof -
  have lt: "size_add (length (buf b)) n < size_max" by (simp add: size_add_def)
  have ov: "n < size_max \<Longrightarrow> \<not> size_add (length (buf b)) n < length (buf b) \<Longrightarrow> size_add (length (buf b)) n = length (buf b) + n"
    using assms(2) size_add_overflow [of "length (buf b)" n] by (auto simp: buffer_inv_def)
  from assms lt ov show ?thesis
    by (auto simp: cbb_buffer_reserve_def buffer_inv_def Let_def not_less split: if_splits)
qed

lemma buffer_add_spec:
  assumes "cbb_buffer_add b new = (r, b')" and "buffer_inv b" and "length new < size_max"
  shows "buffer_inv b' \<and> can_resize b' = can_resize b \<and> alloc b' = alloc b \<and>
    (can_resize b \<or> cap b' = cap b) \<and> (r \<noteq> None \<longrightarrow> error b' = error b \<and> buf b' = buf b @ new) \<and>
    (r = None \<longrightarrow> error b' \<and> buf b' = buf b)"
  using assms reserve_inv [of b "length new"]
  by (auto simp: cbb_buffer_add_def cbind_def buffer_inv_def split: prod.splits option.splits)

section \<open>What flushing renders\<close>

fun render :: "bytes \<Rightarrow> cbb_child_st list \<Rightarrow> bytes option" where
  "render b [] = Some b"
| "render b (ch # chs) =
     (case render b chs of
        None \<Rightarrow> None
      | Some b' \<Rightarrow>
          let contents = drop (offset ch + pending_len_len ch) b'; before = take (offset ch) b'
          in if pending_is_asn1 ch
             then if length contents \<le> 0xfffffffe
                  then Some (before @ der_length (length contents) @ contents) else None
             else if length contents < 256 ^ pending_len_len ch
                  then Some (before @ be_bytes (pending_len_len ch) (length contents) @ contents)
                  else None)"

lemma put_length_eq:
  "off + k \<le> length b \<Longrightarrow>
     put_length b off k n = (take off b @ be_bytes k n @ drop (off + k) b, n div 256 ^ k)"
proof (induction k arbitrary: b n)
  case 0
  then show ?case by simp
next
  case (Suc k)
  then show ?case
    by (simp add: Cons_nth_drop_Suc [symmetric] div_mult2_eq)
qed

lemma asn1_length_form_Some:
  assumes "asn1_length_form n = Some (k, ib, n')"
  shows "1 \<le> k \<and> k \<le> 5 \<and> n \<le> 0xfffffffe \<and> ib # be_bytes (k - 1) n' = der_length n \<and> n' div 256 ^ (k - 1) = 0 \<and>
    (k \<noteq> 1 \<longrightarrow> n' = n)"
proof -
  have "k - 1 = (if n < 128 then 0 else length_octets n) \<and> n \<le> 0xfffffffe \<and> 1 \<le> k \<and> k \<le> 5"
    using assms by (auto simp: asn1_length_form_def length_octets_def split: if_splits)
  then show ?thesis
    using assms
    by (auto simp: asn1_length_form_def der_length_def length_octets_def split: if_splits)
qed

lemma asn1_length_form_None: "asn1_length_form n = None \<longleftrightarrow> 0xfffffffe < n"
  by (simp add: asn1_length_form_def)

definition child_ok :: "cbb_child_st \<Rightarrow> nat \<Rightarrow> bool" where
  "child_ok ch n \<longleftrightarrow>
     offset ch + pending_len_len ch \<le> n \<and> (pending_is_asn1 ch \<longrightarrow> pending_len_len ch = 1)"

lemma memmove_up:
  assumes "start \<le> length b" and "length ex = extra"
  shows "OPENSSL_memmove (b @ ex) (start + extra) start (length b - start) =
    take (start + extra) (b @ ex) @ drop start b"
  using assms by (simp add: OPENSSL_memmove_def)

lemma flush_asn1_bytes:
  assumes "off + 1 \<le> length b" and "length ex = extra" and "0 < extra"
  shows "put_length ((OPENSSL_memmove (b @ ex) (off + 1 + extra) (off + 1) (length b - (off + 1)))[off := ib])
      (off + 1) extra n = (take off b @ ib # be_bytes extra n @ drop (off + 1) b, n div 256 ^ extra)"
proof -
  let ?m = "take (off + 1 + extra) (b @ ex) @ drop (off + 1) b"
  have m: "OPENSSL_memmove (b @ ex) (off + 1 + extra) (off + 1) (length b - (off + 1)) = ?m"
    using assms by (intro memmove_up) simp_all
  have len: "length (take (off + 1 + extra) (b @ ex)) = off + 1 + extra"
    using assms by simp
  have "take (off + 1) (?m[off := ib]) = take off b @ [ib]"
    using assms by (simp add: take_Suc_conv_app_nth take_update_swap list_update_append)
  moreover have "drop (off + 1 + extra) (?m[off := ib]) = drop (off + 1) b"
    using len by (simp add: list_update_append)
  moreover have "off + 1 + extra \<le> length (?m[off := ib])"
    using len by simp
  ultimately show ?thesis
    by (simp only: m put_length_eq) simp
qed

text \<open>
  \<open>same_env\<close>: the parts of a buffer that no operation changes, and the capacity of a
  buffer the caller provided.
\<close>

definition same_env :: "cbb_buffer_st \<Rightarrow> cbb_buffer_st \<Rightarrow> bool" where
  "same_env b b' \<longleftrightarrow> can_resize b' = can_resize b \<and> alloc b' = alloc b \<and> (can_resize b \<or> cap b' = cap b)"

lemma same_env_refl [simp]: "same_env b b"
  by (simp add: same_env_def)

lemma same_env_trans: "same_env a b \<Longrightarrow> same_env b c \<Longrightarrow> same_env a c"
  by (auto simp: same_env_def)

lemma flush_child_asn1_eq:
  assumes inv: "buffer_inv b" and ok: "child_ok ch (length (buf b))" and asn1: "pending_is_asn1 ch"
  shows "flush_child b ch =
     (case asn1_length_form (length (buf b) - (offset ch + 1)) of
        None \<Rightarrow> (None, b)
      | Some (k, ib, n') \<Rightarrow>
          cbind
            (if k \<noteq> 1 then
               cbind (cbb_buffer_add b (replicate (k - 1) 0)) (\<lambda>_ b.
                 (Some (), b\<lparr>buf := OPENSSL_memmove (buf b) (offset ch + 1 + (k - 1)) (offset ch + 1) n'\<rparr>))
             else (Some (), b))
            (\<lambda>_ b.
              case put_length ((buf b)[offset ch := ib]) (offset ch + 1) (k - 1) n' of
                (bs, n) \<Rightarrow> if n \<noteq> 0 then (None, b\<lparr>buf := bs\<rparr>) else (Some (), b\<lparr>buf := bs\<rparr>)))"
proof -
  from ok asn1 have off: "offset ch + 1 \<le> length (buf b)" and pend: "pending_len_len ch = 1"
    by (simp_all add: child_ok_def)
  with inv have start: "size_add (offset ch) 1 = offset ch + 1"
    by (simp add: buffer_inv_def)
  have range: "(offset ch + 1 < offset ch \<or> length (buf b) < offset ch + 1) = False"
    using off by simp
  show ?thesis
    unfolding flush_child_def pend start Let_def by (simp only: range if_False asn1 if_True)
qed

lemma flush_asn1_spec:
  assumes f: "flush_child b ch = (r, b')" and inv: "buffer_inv b" and ok: "child_ok ch (length (buf b))"
    and asn1: "pending_is_asn1 ch"
  shows "buffer_inv b' \<and> same_env b b' \<and> (r \<noteq> None \<longrightarrow> error b' = error b \<and> render (buf b) [ch] = Some (buf b'))"
proof -
  let ?off = "offset ch" and ?n = "length (buf b) - (offset ch + 1)"
  from ok asn1 have off: "?off + 1 \<le> length (buf b)" and pend: "pending_len_len ch = 1"
    by (simp_all add: child_ok_def)
  note f = f [unfolded flush_child_asn1_eq [OF inv ok asn1]]
  show ?thesis
  proof (cases "asn1_length_form ?n")
    case None
    with f inv show ?thesis by simp
  next
    case (Some form)
    obtain k ib n' where form: "form = (k, ib, n')" by (cases form)
    note lf = asn1_length_form_Some [OF Some [unfolded form]]
    show ?thesis
    proof (cases "k = 1")
      case True
      with f Some form lf have b': "b' = b\<lparr>buf := (buf b)[?off := ib]\<rparr>" and "r = Some ()"
        by auto
      then have "buffer_inv b' \<and> same_env b b' \<and> error b' = error b"
        using inv by (simp add: buffer_inv_def same_env_def)
      moreover have "(buf b)[?off := ib] = take ?off (buf b) @ ib # drop (?off + 1) (buf b)"
        using off by (simp add: upd_conv_take_nth_drop)
      moreover have "der_length ?n = [ib]"
        using lf True by simp
      ultimately show ?thesis
        using asn1 pend lf b' by (simp add: Let_def)
    next
      case False
      let ?ex = "replicate (k - 1) (0 :: u8)"
      obtain r1 b1 where add: "cbb_buffer_add b ?ex = (r1, b1)"
        by (cases "cbb_buffer_add b ?ex") auto
      have spec: "buffer_inv b1 \<and> same_env b b1 \<and>
          (r1 \<noteq> None \<longrightarrow> error b1 = error b \<and> buf b1 = buf b @ ?ex) \<and> (r1 = None \<longrightarrow> error b1)"
      proof -
        from lf have "k \<le> 5" by simp
        then have "length ?ex < size_max" by simp
        from buffer_add_spec [OF add inv this] show ?thesis by (auto simp: same_env_def)
      qed
      show ?thesis
      proof (cases r1)
        case None
        with f Some form False add have "b' = b1" and "r = None"
          by auto
        with spec show ?thesis by simp
      next
        case (Some u)
        have bytes: "put_length ((OPENSSL_memmove (buf b @ ?ex) (?off + 1 + (k - 1)) (?off + 1) ?n)[?off := ib])
            (?off + 1) (k - 1) n' = (take ?off (buf b) @ ib # be_bytes (k - 1) n' @ drop (?off + 1) (buf b), 0)"
        proof -
          from lf False have k: "0 < k - 1" and "n' div 256 ^ (k - 1) = 0" by auto
          then show ?thesis
            using flush_asn1_bytes [OF off _ k, of ?ex ib n'] by simp
        qed
        have n': "n' = ?n" using lf False by simp
        from f \<open>asn1_length_form ?n = Some form\<close> form False add Some spec
        have b': "b' = b1\<lparr>buf := take ?off (buf b) @ ib # be_bytes (k - 1) n' @ drop (?off + 1) (buf b)\<rparr>"
          using bytes by (simp add: n')
        have "render (buf b) [ch] = Some (buf b')"
          using asn1 lf by (simp add: b' pend Let_def n')
        moreover have "length (buf b') = length (buf b1)"
          using off spec Some by (simp add: b')
        moreover have "cap b' = cap b1 \<and> can_resize b' = can_resize b1 \<and> alloc b' = alloc b1 \<and> error b' = error b1"
          by (simp add: b')
        ultimately show ?thesis
          using spec Some by (auto simp only: buffer_inv_def same_env_def)
      qed
    qed
  qed
qed

lemma flush_child_spec:
  assumes f: "flush_child b ch = (r, b')" and inv: "buffer_inv b" and ok: "child_ok ch (length (buf b))"
  shows "buffer_inv b' \<and> same_env b b' \<and> (r \<noteq> None \<longrightarrow> error b' = error b \<and> render (buf b) [ch] = Some (buf b'))"
proof (cases "pending_is_asn1 ch")
  case True
  with assms show ?thesis by (rule flush_asn1_spec)
next
  case False
  let ?s = "offset ch + pending_len_len ch"
  have s: "?s \<le> length (buf b)" using ok by (simp add: child_ok_def)
  with inv have start: "size_add (offset ch) (pending_len_len ch) = ?s"
    by (simp add: buffer_inv_def)
  have range: "(?s < offset ch \<or> length (buf b) < ?s) = False"
    using s by simp
  have "flush_child b ch =
     (case put_length (buf b) (offset ch) (pending_len_len ch) (length (buf b) - ?s) of
        (bs, n) \<Rightarrow> if n \<noteq> 0 then (None, b\<lparr>buf := bs\<rparr>) else (Some (), b\<lparr>buf := bs\<rparr>))"
    unfolding flush_child_def start Let_def by (simp only: range if_False False)
  with f have "b' = b\<lparr>buf := take (offset ch) (buf b) @ be_bytes (pending_len_len ch) (length (buf b) - ?s) @
                    drop ?s (buf b)\<rparr>"
    and "r \<noteq> None \<longrightarrow> length (buf b) - ?s < 256 ^ pending_len_len ch"
    by (auto simp: put_length_eq [OF s] div_eq_0_iff split: if_splits)
  with s inv False show ?thesis
    by (auto simp: buffer_inv_def same_env_def Let_def)
qed

lemma render_length: "chain_ok s chs (length b) \<Longrightarrow> render b chs = Some w \<Longrightarrow> length b \<le> length w"
  by (induction b chs arbitrary: s w rule: render.induct)
    (fastforce simp: Let_def der_length_def length_octets_def split: option.splits if_splits dest: chain_ok_le)+

lemma flush_chain_spec:
  "flush_chain b chs = (r, b') \<Longrightarrow> buffer_inv b \<Longrightarrow> chain_ok s chs (length (buf b)) \<Longrightarrow>
     buffer_inv b' \<and> same_env b b' \<and>
     (r \<noteq> None \<longrightarrow> \<not> error b \<and> \<not> error b' \<and> render (buf b) chs = Some (buf b')) \<and>
     (r = None \<longrightarrow> error b')"
proof (induction chs arbitrary: s r b')
  case Nil
  then show ?case by (auto simp: flush_chain.simps [of b "[]"] split: if_splits)
next
  case (Cons ch chs)
  show ?case
  proof (cases "error b")
    case True
    with Cons.prems show ?thesis by (simp add: flush_chain.simps [of b "ch # chs"])
  next
    case False
    obtain r1 b1 where rest: "flush_chain b chs = (r1, b1)" by (cases "flush_chain b chs") auto
    from Cons.prems have chain: "chain_ok (offset ch + pending_len_len ch) chs (length (buf b))"
      and asn1: "pending_is_asn1 ch \<longrightarrow> pending_len_len ch = 1" by simp_all
    note IH = Cons.IH [OF rest Cons.prems(2) chain]
    show ?thesis
    proof (cases r1)
      case None
      with Cons.prems rest False IH show ?thesis
        by (auto simp: flush_chain.simps [of b "ch # chs"] buffer_inv_def same_env_def)
    next
      case (Some u)
      obtain r2 b2 where child: "flush_child b1 ch = (r2, b2)" by (cases "flush_child b1 ch") auto
      have "length (buf b) \<le> length (buf b1)"
        using render_length [OF chain] IH Some by auto
      with chain asn1 have "child_ok ch (length (buf b1))"
        by (auto simp: child_ok_def dest: chain_ok_le)
      with IH Some child have spec: "buffer_inv b2 \<and> same_env b1 b2 \<and>
          (r2 \<noteq> None \<longrightarrow> error b2 = error b1 \<and> render (buf b1) [ch] = Some (buf b2))"
        by (intro flush_child_spec) auto
      have "r = r2 \<and> b' = (if r2 = None then b2\<lparr>error := True\<rparr> else b2)"
        using Cons.prems False rest Some child
        by (auto simp: flush_chain.simps [of b "ch # chs"] split: option.splits)
      with spec IH Some False show ?thesis
        by (auto simp: buffer_inv_def same_env_def)
    qed
  qed
qed

section \<open>Enough memory\<close>

text \<open>A growing buffer whose allocations succeed and that has not failed.\<close>

definition roomy :: "cbb_buffer_st \<Rightarrow> bool" where
  "roomy b \<longleftrightarrow> buffer_inv b \<and> can_resize b \<and> alloc b = (\<lambda>_. True) \<and> \<not> error b"

lemma reserve_total: "roomy b \<Longrightarrow> length (buf b) + n < size_max \<Longrightarrow> fst (cbb_buffer_reserve b n) = Some ()"
  by (simp add: cbb_buffer_reserve_def roomy_def Let_def)

lemma buffer_add_total:
  "roomy b \<Longrightarrow> length (buf b) + length new < size_max \<Longrightarrow> fst (cbb_buffer_add b new) = Some ()"
  using reserve_total [of b "length new"]
  by (auto simp: cbb_buffer_add_def cbind_def split: prod.splits option.splits)

lemma roomy_env: "roomy b \<Longrightarrow> same_env b b' \<Longrightarrow> buffer_inv b' \<Longrightarrow> \<not> error b' \<Longrightarrow> roomy b'"
  by (simp add: roomy_def same_env_def)

lemma length_der_length_octets: "length (der_length n) = (if n < 128 then 1 else 1 + length_octets n)"
  by (simp add: der_length_def)

lemma flush_child_total:
  assumes room: "roomy b" and ok: "child_ok ch (length (buf b))"
    and w: "render (buf b) [ch] = Some w" and len: "length w < size_max"
  shows "fst (flush_child b ch) = Some ()"
proof -
  let ?s = "offset ch + pending_len_len ch"
  let ?n = "length (buf b) - ?s"
  have s: "?s \<le> length (buf b)" using ok by (simp add: child_ok_def)
  with room have start: "size_add (offset ch) (pending_len_len ch) = ?s"
    by (simp add: roomy_def buffer_inv_def)
  have range: "(?s < offset ch \<or> length (buf b) < ?s) = False"
    using s by simp
  show ?thesis
  proof (cases "pending_is_asn1 ch")
    case False
    with w have "?n < 256 ^ pending_len_len ch"
      by (auto simp: Let_def split: if_splits)
    then show ?thesis
      unfolding flush_child_def start Let_def by (simp add: range False put_length_eq [OF s] not_less [THEN iffD2, OF s])
  next
    case True
    then have pend: "pending_len_len ch = 1" using ok by (simp add: child_ok_def)
    from w True have n: "?n \<le> 0xfffffffe" and w': "w = take (offset ch) (buf b) @ der_length ?n @ drop ?s (buf b)"
      by (auto simp: Let_def split: if_splits)
    then obtain k ib n' where form: "asn1_length_form ?n = Some (k, ib, n')"
      using asn1_length_form_None [of ?n] by (cases "asn1_length_form ?n") auto
    note lf = asn1_length_form_Some [OF form]
    from lf have k: "1 \<le> k" and k': "length (der_length ?n) = k"
      by (auto dest: arg_cong [of _ _ length])
    have "length (buf b) + (k - 1) = length w"
      using s k k' pend by (simp add: w')
    with len room have add: "fst (cbb_buffer_add b (replicate (k - 1) 0)) = Some ()"
      by (intro buffer_add_total) simp_all
    then obtain b1 where b1: "cbb_buffer_add b (replicate (k - 1) 0) = (Some (), b1)"
      by (cases "cbb_buffer_add b (replicate (k - 1) 0)") auto
    have "length (replicate (k - 1) (0 :: u8)) < size_max"
      using lf by auto
    with buffer_add_spec [OF b1] room have b1': "buf b1 = buf b @ replicate (k - 1) 0"
      by (simp add: roomy_def)
    have div0: "n' div 256 ^ (k - 1) = 0" and "n' = ?n \<or> k = 1"
      using lf by auto
    show ?thesis
    proof (cases "k = 1")
      case True
      with div0 have "n' = 0" by simp
      with True show ?thesis
        unfolding flush_child_def start Let_def using \<open>pending_is_asn1 ch\<close>
        by (simp add: range form not_less [THEN iffD2, OF s])
    next
      case False
      let ?ex = "replicate (k - 1) (0 :: u8)"
      have bytes: "snd (put_length ((OPENSSL_memmove (buf b @ ?ex) (offset ch + 1 + (k - 1)) (offset ch + 1)
            (length (buf b) - (offset ch + 1)))[offset ch := ib]) (offset ch + 1) (k - 1) n') = 0"
        using s pend False k div0 by (subst flush_asn1_bytes) simp_all
      from False \<open>n' = ?n \<or> k = 1\<close> have n': "n' = length (buf b) - (offset ch + 1)"
        by (simp add: pend)
      have "buffer_inv b" using room by (simp add: roomy_def)
      from flush_child_asn1_eq [OF this ok \<open>pending_is_asn1 ch\<close>]
      have "flush_child b ch =
        (case put_length ((OPENSSL_memmove (buf b @ ?ex) (offset ch + 1 + (k - 1)) (offset ch + 1)
            (length (buf b) - (offset ch + 1)))[offset ch := ib]) (offset ch + 1) (k - 1) n' of
           (bs, n) \<Rightarrow> if n \<noteq> 0 then (None, b1\<lparr>buf := bs\<rparr>) else (Some (), b1\<lparr>buf := bs\<rparr>))"
        using False form [unfolded pend] by (simp only: option.case prod.case b1 cbind_Some b1' n' cbb_buffer_st.simps if_True not_False_eq_True simp_thms) (simp split: prod.splits)
      then show ?thesis
        using bytes [unfolded n'] by (simp only: split_beta) (simp add: n')
    qed
  qed
qed

lemma render_cons: "render b (ch # chs) = Option.bind (render b chs) (\<lambda>b. render b [ch])"
  by (cases "render b chs") (simp_all only: render.simps option.case Option.bind.simps)

lemma flush_chain_total:
  "roomy b \<Longrightarrow> chain_ok s chs (length (buf b)) \<Longrightarrow> render (buf b) chs = Some w \<Longrightarrow>
     length w < size_max \<Longrightarrow> fst (flush_chain b chs) = Some ()"
proof (induction chs arbitrary: s w)
  case Nil
  then show ?case by (simp add: flush_chain.simps [of b "[]"] roomy_def)
next
  case (Cons ch chs)
  from Cons.prems have chain: "chain_ok (offset ch + pending_len_len ch) chs (length (buf b))"
    and asn1: "pending_is_asn1 ch \<longrightarrow> pending_len_len ch = 1" by simp_all
  from Cons.prems(3) obtain w1 where w1: "render (buf b) chs = Some w1" and w: "render w1 [ch] = Some w"
    by (auto simp only: render_cons [of "buf b" ch chs] bind_eq_Some_conv)
  have le: "length (buf b) \<le> length w1" by (rule render_length [OF chain w1])
  then have ok: "child_ok ch (length w1)"
    using chain asn1 by (auto simp: child_ok_def dest: chain_ok_le)
  have "chain_ok 0 [ch] (length w1)" using ok asn1 by (simp add: child_ok_def)
  from render_length [OF this w] Cons.prems(4) have "length w1 < size_max" by simp
  with Cons.IH [OF Cons.prems(1) chain w1] obtain b1 where rest: "flush_chain b chs = (Some (), b1)"
    by (cases "flush_chain b chs") auto
  have spec: "buffer_inv b1 \<and> same_env b b1 \<and> \<not> error b1 \<and> buf b1 = w1"
    using flush_chain_spec [OF rest _ chain] Cons.prems(1) w1 by (simp add: roomy_def)
  with Cons.prems(1) have "roomy b1" by (blast intro: roomy_env)
  with spec ok w Cons.prems(4) have "fst (flush_child b1 ch) = Some ()"
    by (intro flush_child_total) simp_all
  with Cons.prems(1) rest show ?case
    by (auto simp: flush_chain.simps [of b "ch # chs"] roomy_def split: prod.splits option.splits)
qed

section \<open>The contract of \<open>CBB_flush\<close>\<close>

text \<open>The buffer as it will be once everything below depth \<open>d\<close> has been flushed.\<close>

definition pending :: "CBB \<Rightarrow> nat \<Rightarrow> bytes option" where
  "pending c d = render (buf (base c)) (drop d (children c))"

lemma chain_ok_drop: "chain_ok s chs n \<Longrightarrow> \<exists>s'. chain_ok s' (drop d chs) n"
proof (induction s chs n arbitrary: d rule: chain_ok.induct)
  case (1 start n)
  then show ?case by auto
next
  case (2 start ch chs n)
  then show ?case by (cases d) auto
qed

lemma CBB_flush_fails:
  "error (base c) \<or> length (children c) < d \<Longrightarrow> CBB_flush c d = (None, c)"
  by (auto simp: CBB_flush_def)

lemma CBB_flush_eq:
  assumes "\<not> error (base c)" and "d \<le> length (children c)"
    and "flush_chain (base c) (drop d (children c)) = (r, b)"
  shows "CBB_flush c d = (r, c\<lparr>base := b, children := take d (children c)\<rparr>)"
  using assms by (simp add: CBB_flush_def)

lemma CBB_flush_spec:
  assumes f: "CBB_flush c d = (r, c')" and inv: "cbb_inv c"
  shows "cbb_inv c' \<and> same_env (base c) (base c') \<and>
    (r \<noteq> None \<longrightarrow> \<not> error (base c) \<and> \<not> error (base c') \<and> d \<le> length (children c) \<and>
       children c' = take d (children c) \<and> pending c d = Some (buf (base c'))) \<and>
    (error (base c) \<longrightarrow> r = None \<and> c' = c)"
proof (cases "error (base c) \<or> length (children c) < d")
  case True
  with CBB_flush_fails [OF True] f inv show ?thesis by auto
next
  case False
  obtain b where chain: "flush_chain (base c) (drop d (children c)) = (r, b)"
    and c': "c' = c\<lparr>base := b, children := take d (children c)\<rparr>"
    using f CBB_flush_eq [of c d] False by (cases "flush_chain (base c) (drop d (children c))") auto
  have ok: "chain_ok 0 (children c) (length (buf (base c)))" and binv: "buffer_inv (base c)"
    using inv False by (simp_all add: cbb_inv_def)
  obtain s' where drop_ok: "chain_ok s' (drop d (children c)) (length (buf (base c)))"
    using chain_ok_drop [OF ok] by blast
  note spec = flush_chain_spec [OF chain binv drop_ok]
  have "r \<noteq> None \<Longrightarrow> length (buf (base c)) \<le> length (buf b)"
    using spec render_length [OF drop_ok] by auto
  with ok have "r \<noteq> None \<Longrightarrow> chain_ok 0 (take d (children c)) (length (buf b))"
    by (auto intro: chain_ok_mono chain_ok_take)
  with spec False show ?thesis
    by (auto simp: c' cbb_inv_def pending_def)
qed

lemma CBB_flush_total:
  assumes inv: "cbb_inv c" and room: "roomy (base c)" and d: "d \<le> length (children c)"
    and w: "pending c d = Some w" and len: "length w < size_max"
  shows "fst (CBB_flush c d) = Some ()"
proof -
  have err: "\<not> error (base c)" using room by (simp add: roomy_def)
  with inv have "chain_ok 0 (children c) (length (buf (base c)))" by (simp add: cbb_inv_def)
  then obtain s' where "chain_ok s' (drop d (children c)) (length (buf (base c)))"
    using chain_ok_drop by blast
  from flush_chain_total [OF room this w [unfolded pending_def] len]
  show ?thesis
    using CBB_flush_eq [OF err d] by (cases "flush_chain (base c) (drop d (children c))") auto
qed

lemma pending_here [simp]: "pending c (length (children c)) = Some (buf (base c))"
  by (simp add: pending_def)

section \<open>Properties\<close>

text \<open>
  C2: a flush that succeeds has written every pending length prefix: the buffer is the
  rendering of the nested contents, the flushed children are closed, and the objects
  above depth \<open>d\<close> are untouched. With enough memory it always succeeds when every prefix can
  hold its length.
\<close>

theorem CBB_flush_renders:
  assumes "cbb_inv c" and "d \<le> length (children c)"
  shows "(case CBB_flush c d of
            (Some _, c') \<Rightarrow> render (buf (base c)) (drop d (children c)) = Some (buf (base c')) \<and>
                           children c' = take d (children c)
          | (None, c') \<Rightarrow>
              error (base c') \<and>
              (roomy (base c) \<longrightarrow>
                 (case render (buf (base c)) (drop d (children c)) of
                    None \<Rightarrow> True | Some w \<Rightarrow> size_max \<le> length w)))"
proof (cases "CBB_flush c d")
  case (Pair r c')
  show ?thesis
  proof (cases r)
    case (Some u)
    with CBB_flush_spec [OF Pair assms(1)] show ?thesis
      by (simp add: Pair pending_def)
  next
    case None
    have "error (base c')"
    proof (cases "error (base c)")
      case True
      with CBB_flush_spec [OF Pair assms(1)] show ?thesis by simp
    next
      case False
      obtain r1 b where fl: "flush_chain (base c) (drop d (children c)) = (r1, b)"
        by (cases "flush_chain (base c) (drop d (children c))")
      have c': "c' = c\<lparr>base := b, children := take d (children c)\<rparr>" and r1: "r1 = None"
        using CBB_flush_eq [OF False assms(2) fl] Pair None by simp_all
      have ok: "chain_ok 0 (children c) (length (buf (base c)))" and binv: "buffer_inv (base c)"
        using assms(1) False by (simp_all add: cbb_inv_def)
      obtain s' where "chain_ok s' (drop d (children c)) (length (buf (base c)))"
        using chain_ok_drop [OF ok] by blast
      from flush_chain_spec [OF fl binv this] r1 show ?thesis by (simp add: c')
    qed
    moreover have "size_max \<le> length w" if "roomy (base c)" and "pending c d = Some w" for w
      using CBB_flush_total [OF assms(1) that(1) assms(2) that(2)] Pair None by (fastforce simp: not_le)
    ultimately show ?thesis
      by (auto simp: Pair None pending_def split: option.splits)
  qed
qed

text \<open>A SEQUENCE that holds one INTEGER, both lengths still pending.\<close>

definition nested_example :: CBB where
  "nested_example =
     \<lparr>base = \<lparr>buf = [0x30, 0, 0x02, 0, 0x05], cap = 8, can_resize = True, error = False, alloc = (\<lambda>_. True)\<rparr>,
      children = [\<lparr>offset = 1, pending_len_len = 1, pending_is_asn1 = True\<rparr>,
                  \<lparr>offset = 3, pending_len_len = 1, pending_is_asn1 = True\<rparr>]\<rparr>"

theorem CBB_flush_renders_witness:
  "buf (base (snd (CBB_flush nested_example 0))) = [0x30, 0x03, 0x02, 0x01, 0x05]"
proof -
  have inv: "cbb_inv nested_example"
    by (simp add: nested_example_def cbb_inv_def buffer_inv_def)
  have "render (buf (base nested_example)) (drop 0 (children nested_example)) = Some [0x30, 0x03, 0x02, 0x01, 0x05]"
    by (simp add: nested_example_def der_length_def)
  moreover have "roomy (base nested_example)"
    using inv by (simp add: nested_example_def cbb_inv_def roomy_def)
  ultimately show ?thesis
    using CBB_flush_renders [OF inv, of 0] by (auto split: prod.splits option.splits)
qed

end
