(* ===== verification/Writer.thy ===== *)
theory Writer
  imports CbbSpec
begin

text \<open>
  The contract of the value writers of \<^verbatim>\<open>cbb.c\<close>. A \<open>writer\<close> appends a fixed byte string
  \<open>out\<close> to the object it is given, keeps the memory invariant on success and on failure,
  does nothing once the error bit is set, and succeeds when the allocator does and the
  value is representable (\<open>fits\<close>). Writers compose by sequencing and under a length prefix,
  as the C code composes them; the laws are proved here once and every writer of the
  builder is an interpretation.
\<close>

section \<open>The contract\<close>

locale writer =
  fixes op :: "CBB \<Rightarrow> nat \<Rightarrow> (unit, CBB) cres" and out :: bytes and fits :: bool
  assumes safe: "cbb_inv c \<Longrightarrow> length out < size_max \<Longrightarrow> op c d = (r, c') \<Longrightarrow>
      cbb_inv c' \<and> same_env (base c) (base c')"
    and locked: "error (base c) \<Longrightarrow> op c d = (r, c') \<Longrightarrow> r = None \<and> error (base c')"
    and writes: "cbb_inv c \<Longrightarrow> length out < size_max \<Longrightarrow> op c d = (Some u, c') \<Longrightarrow>
      d \<le> length (children c) \<and> children c' = take d (children c) \<and> \<not> error (base c') \<and>
      (\<exists>w. pending c d = Some w \<and> buf (base c') = w @ out)"
    and total: "cbb_inv c \<Longrightarrow> roomy (base c) \<Longrightarrow> d \<le> length (children c) \<Longrightarrow> pending c d = Some w \<Longrightarrow>
      length w + length out < size_max \<Longrightarrow> fits \<Longrightarrow> fst (op c d) = Some ()"
begin

text \<open>What a client relies on: under enough memory the bytes arrive, and the object is ready again.\<close>

lemma appends:
  assumes "cbb_inv c" and "roomy (base c)" and "d \<le> length (children c)" and "pending c d = Some w"
    and "length w + length out < size_max" and "fits"
  obtains c' where "op c d = (Some (), c')" and "cbb_inv c'" and "roomy (base c')"
    and "children c' = take d (children c)" and "buf (base c') = w @ out" and "pending c' d = Some (w @ out)"
proof -
  obtain c' where op: "op c d = (Some (), c')"
    using total [OF assms] by (cases "op c d") auto
  from assms(5) have len: "length out < size_max" by simp
  from safe [OF assms(1) len op] writes [OF assms(1) len op] assms(4)
  have inv: "cbb_inv c'" "same_env (base c) (base c')" and c': "children c' = take d (children c)"
    and err: "\<not> error (base c')" and b: "buf (base c') = w @ out"
    by simp_all
  have "roomy (base c')"
    using roomy_env [OF assms(2) inv(2) _ err] inv(1) by (simp add: cbb_inv_def)
  moreover have "pending c' d = Some (w @ out)"
    using assms(3) by (simp add: pending_def c' b)
  ultimately show thesis
    using op inv c' b that by blast
qed

text \<open>Once the error bit is set it stays set, and every later write fails.\<close>

lemma sticky: "error (base c) \<Longrightarrow> fst (op c d) = None \<and> error (base (snd (op c d)))"
  using locked [of c d] by (metis prod.collapse)

end

section \<open>Composition\<close>

lemma writer_cong:
  "writer op out fits \<Longrightarrow> op = op' \<Longrightarrow> out = out' \<Longrightarrow> (fits' \<Longrightarrow> fits) \<Longrightarrow> writer op' out' fits'"
  unfolding writer_def by blast

lemma pending_top:
  "children c' = take d (children c) \<Longrightarrow> d \<le> length (children c) \<Longrightarrow> pending c' d = Some (buf (base c'))"
  by (simp add: pending_def)

lemma writer_flush: "writer CBB_flush [] True"
proof
  fix c d r c'
  assume "error (base c)" and "CBB_flush c d = (r, c')"
  then show "r = None \<and> error (base c')" by (simp add: CBB_flush_fails)
next
  fix c d w
  assume "cbb_inv c" "roomy (base c)" "d \<le> length (children c)" "pending c d = Some w"
    "length w + length ([] :: bytes) < size_max"
  then show "fst (CBB_flush c d) = Some ()" by (intro CBB_flush_total) simp_all
qed (auto dest: CBB_flush_spec)

lemma writer_seq:
  assumes "writer op1 out1 fits1" and "writer op2 out2 fits2"
  shows "writer (\<lambda>c d. cbind (op1 c d) (\<lambda>_ c. op2 c d)) (out1 @ out2) (fits1 \<and> fits2)"
proof -
  note w1 = assms(1) and w2 = assms(2)
  show ?thesis
  proof
    fix c d r c'
    assume inv: "cbb_inv c" and len: "length (out1 @ out2) < size_max"
      and op: "cbind (op1 c d) (\<lambda>_ c. op2 c d) = (r, c')"
    obtain r1 c1 where op1: "op1 c d = (r1, c1)" by (cases "op1 c d")
    have "cbb_inv c1 \<and> same_env (base c) (base c1)"
      using writer.safe [OF w1 inv _ op1] len by simp
    then show "cbb_inv c' \<and> same_env (base c) (base c')"
      using op op1 writer.safe [OF w2, of c1 d r c'] len
      by (cases r1) (auto intro: same_env_trans)
  next
    fix c d r c'
    assume "error (base c)" and "cbind (op1 c d) (\<lambda>_ c. op2 c d) = (r, c')"
    then show "r = None \<and> error (base c')"
      using writer.locked [OF w1, of c d] by (auto simp: cbind_def split: prod.splits option.splits)
  next
    fix c d u c'
    assume inv: "cbb_inv c" and len: "length (out1 @ out2) < size_max"
      and op: "cbind (op1 c d) (\<lambda>_ c. op2 c d) = (Some u, c')"
    then obtain v c1 where op1: "op1 c d = (Some v, c1)" and op2: "op2 c1 d = (Some u, c')"
      by (auto simp: cbind_eq_Some)
    have inv1: "cbb_inv c1" using writer.safe [OF w1 inv _ op1] len by simp
    from writer.writes [OF w1 inv _ op1] len obtain w where w: "d \<le> length (children c)"
      "children c1 = take d (children c)" "pending c d = Some w" "buf (base c1) = w @ out1"
      by auto
    with writer.writes [OF w2 inv1 _ op2] len pending_top [OF w(2,1)]
    show "d \<le> length (children c) \<and> children c' = take d (children c) \<and> \<not> error (base c') \<and>
        (\<exists>w. pending c d = Some w \<and> buf (base c') = w @ out1 @ out2)"
      by auto
  next
    fix c d w
    assume hyps: "cbb_inv c" "roomy (base c)" "d \<le> length (children c)" "pending c d = Some w"
      and len: "length w + length (out1 @ out2) < size_max" and fits: "fits1 \<and> fits2"
    obtain c1 where c1: "op1 c d = (Some (), c1)" "cbb_inv c1" "roomy (base c1)"
      "children c1 = take d (children c)" "pending c1 d = Some (w @ out1)"
      using writer.appends [OF w1 hyps] len fits by auto
    have "fst (op2 c1 d) = Some ()"
      using c1 len fits hyps(3) by (intro writer.total [OF w2 c1(2,3) _ c1(5)]) simp_all
    with c1 show "fst (cbind (op1 c d) (\<lambda>_ c. op2 c d)) = Some ()" by simp
  qed
qed

lemma on_error_inv [simp]: "cbb_inv c \<Longrightarrow> cbb_inv (cbb_on_error c d)"
  by (simp add: cbb_inv_def cbb_on_error_def buffer_inv_def)

lemma on_error_env [simp]: "same_env b (base (cbb_on_error c d)) = same_env b (base c)"
  by (simp add: same_env_def cbb_on_error_def)

lemma on_error_error [simp]: "error (base (cbb_on_error c d))"
  by (simp add: cbb_on_error_def)

text \<open>The \<open>err:\<close> label changes nothing but the object left behind by a failure.\<close>

lemma writer_or_error_bind:
  assumes w: "writer (\<lambda>c d. cbind (m c d) (\<lambda>_. k d)) out fits"
  shows "writer (\<lambda>c d. cbind (or_error d (m c d)) (\<lambda>_. k d)) out fits"
proof -
  let ?op = "\<lambda>c d. cbind (m c d) (\<lambda>_. k d)" and ?op' = "\<lambda>c d. cbind (or_error d (m c d)) (\<lambda>_. k d)"
  have cases: "?op' c d = ?op c d \<or> (\<exists>c1. ?op c d = (None, c1) \<and> ?op' c d = (None, cbb_on_error c1 d))" for c d
    by (cases "m c d") (auto simp: or_error_def split: option.splits)
  show ?thesis
  proof
    fix c d r c'
    assume inv: "cbb_inv c" and len: "length out < size_max" and op: "?op' c d = (r, c')"
    obtain r1 c1 where o: "?op c d = (r1, c1)" by (cases "?op c d")
    with cases [of d c] op have "c' = c1 \<or> c' = cbb_on_error c1 d" by auto
    with writer.safe [OF w inv len o] show "cbb_inv c' \<and> same_env (base c) (base c')" by auto
  next
    fix c d r c'
    assume err: "error (base c)" and op: "?op' c d = (r, c')"
    obtain r1 c1 where o: "?op c d = (r1, c1)" by (cases "?op c d")
    with writer.locked [OF w err o] cases [of d c] op show "r = None \<and> error (base c')" by auto
  next
    fix c d u c'
    assume inv: "cbb_inv c" and len: "length out < size_max" and op: "?op' c d = (Some u, c')"
    with cases [of d c] have "?op c d = (Some u, c')" by auto
    from writer.writes [OF w inv len this] show "d \<le> length (children c) \<and> children c' = take d (children c) \<and>
        \<not> error (base c') \<and> (\<exists>w. pending c d = Some w \<and> buf (base c') = w @ out)"
      by auto
  next
    fix c d x
    assume "cbb_inv c" "roomy (base c)" "d \<le> length (children c)" "pending c d = Some x"
      "length x + length out < size_max" "fits"
    from writer.total [OF w this] cases [of d c] show "fst (?op' c d) = Some ()"
      by auto
  qed
qed

lemma writer_or_error:
  assumes "writer op out fits"
  shows "writer (\<lambda>c d. or_error d (op c d)) out fits"
proof -
  have "cbind m (\<lambda>u c. (Some (), c)) = m" for m :: "(unit, CBB) cres"
    by (cases m; cases "fst m") auto
  then show ?thesis
    using writer_or_error_bind [of op "\<lambda>d c. (Some (), c)" out fits] assms by simp
qed

lemma writer_add_space: "writer (\<lambda>c d. CBB_add_space c d new) new True"
proof -
  have step: "cbb_inv c1 \<Longrightarrow> length new < size_max \<Longrightarrow> cbb_buffer_add (base c1) new = (r, b) \<Longrightarrow>
      cbb_inv (c1\<lparr>base := b\<rparr>) \<and> same_env (base c1) b \<and>
      (r \<noteq> None \<longrightarrow> error b = error (base c1) \<and> buf b = buf (base c1) @ new)" for c1 r b
    using buffer_add_spec [of "base c1" new r b]
    by (cases r) (auto simp: cbb_inv_def same_env_def intro: chain_ok_mono)
  show ?thesis
  proof
    fix c d r c'
    assume inv: "cbb_inv c" and len: "length new < size_max" and op: "CBB_add_space c d new = (r, c')"
    obtain r1 c1 where fl: "CBB_flush c d = (r1, c1)" by (cases "CBB_flush c d")
    obtain r2 b where add: "cbb_buffer_add (base c1) new = (r2, b)" by (cases "cbb_buffer_add (base c1) new")
    from CBB_flush_spec [OF fl inv] have "cbb_inv c1 \<and> same_env (base c) (base c1)" by simp
    with step [OF _ len add] op show "cbb_inv c' \<and> same_env (base c) (base c')"
      by (cases r1) (auto simp: CBB_add_space_def fl add intro: same_env_trans)
  next
    fix c d r c'
    assume "error (base c)" and "CBB_add_space c d new = (r, c')"
    then show "r = None \<and> error (base c')" by (simp add: CBB_add_space_def CBB_flush_fails)
  next
    fix c d u c'
    assume inv: "cbb_inv c" and len: "length new < size_max" and op: "CBB_add_space c d new = (Some u, c')"
    then obtain v c1 where fl: "CBB_flush c d = (Some v, c1)"
      by (auto simp: CBB_add_space_def cbind_eq_Some)
    moreover obtain r2 b where add0: "cbb_buffer_add (base c1) new = (r2, b)" by (cases "cbb_buffer_add (base c1) new")
    ultimately have add: "cbb_buffer_add (base c1) new = (Some u, b)" and c': "c' = c1\<lparr>base := b\<rparr>"
      using op by (simp_all add: CBB_add_space_def)
    from CBB_flush_spec [OF fl inv] step [OF _ len add]
    show "d \<le> length (children c) \<and> children c' = take d (children c) \<and> \<not> error (base c') \<and>
        (\<exists>w. pending c d = Some w \<and> buf (base c') = w @ new)"
      by (auto simp: c')
  next
    fix c d w
    assume hyps: "cbb_inv c" "roomy (base c)" "d \<le> length (children c)" "pending c d = Some w"
      and len: "length w + length new < size_max"
    from writer.appends [OF writer_flush hyps] len
    obtain c1 where c1: "CBB_flush c d = (Some (), c1)" "roomy (base c1)" "buf (base c1) = w"
      by auto
    then have "fst (cbb_buffer_add (base c1) new) = Some ()"
      using len by (intro buffer_add_total) simp_all
    with c1 show "fst (CBB_add_space c d new) = Some ()"
      by (auto simp: CBB_add_space_def split: prod.splits)
  qed
qed

section \<open>Numbers\<close>

lemma store_be_eq: "store_be k v = (be_bytes k (unat v), drop_bit (8 * k) v)"
proof (induction k arbitrary: v)
  case 0
  then show ?case by simp
next
  case (Suc k)
  have "unat (drop_bit 8 v) = unat v div 256"
    by (simp only: unat_drop_bit_eq) (simp add: drop_bit_eq_div)
  moreover have "(ucast v :: u8) = of_nat (unat v)"
    by (simp add: word_unat_eq_iff unsigned_ucast_eq unat_of_nat take_bit_eq_mod)
  ultimately show ?case
    by (simp only: store_be.simps Suc be_bytes.simps prod.case drop_bit_drop_bit) (simp add: algebra_simps)
qed

lemma writer_add_u: "writer (\<lambda>c d. cbb_add_u c d v k) (be_bytes k (unat v)) (unat v < 2 ^ (8 * k))"
proof -
  let ?rest = "drop_bit (8 * k) v"
  have rest: "?rest = 0 \<longleftrightarrow> unat v < 2 ^ (8 * k)" by (rule drop_bit_eq_0_iff_unat)
  show ?thesis
  proof (cases "unat v < 2 ^ (8 * k)")
    case True
    with rest have "(\<lambda>c d. cbb_add_u c d v k) =
        (\<lambda>c d. cbind (CBB_add_space c d (be_bytes k (unat v))) (\<lambda>_ c. (Some (), c)))"
      by (simp add: cbb_add_u_def store_be_eq)
    also have "\<dots> = (\<lambda>c d. CBB_add_space c d (be_bytes k (unat v)))"
      by (intro ext) (auto simp: cbind_def split: prod.splits option.splits)
    finally show ?thesis
      using writer_add_space True by simp
  next
    case False
    then have rest: "?rest \<noteq> 0" using rest by simp
    have fails: "\<exists>r1 c1. CBB_add_space c d (be_bytes k (unat v)) = (r1, c1) \<and>
        cbb_add_u c d v k = (None, if r1 = None then c1 else cbb_on_error c1 d)" for c d
      using rest
      by (cases "CBB_add_space c d (be_bytes k (unat v))"; cases "fst (CBB_add_space c d (be_bytes k (unat v)))")
        (auto simp: cbb_add_u_def store_be_eq)
    show ?thesis
    proof
      fix c d r c'
      assume inv: "cbb_inv c" and len: "length (be_bytes k (unat v)) < size_max" and op: "cbb_add_u c d v k = (r, c')"
      from fails [of c d] obtain r1 c1 where add: "CBB_add_space c d (be_bytes k (unat v)) = (r1, c1)"
        and "cbb_add_u c d v k = (None, if r1 = None then c1 else cbb_on_error c1 d)" by blast
      with op have "c' = c1 \<or> c' = cbb_on_error c1 d" by (auto split: if_splits)
      with writer.safe [OF writer_add_space inv len add] show "cbb_inv c' \<and> same_env (base c) (base c')" by auto
    next
      fix c d r c'
      assume "error (base c)" and "cbb_add_u c d v k = (r, c')"
      with fails [of c d] writer.locked [OF writer_add_space this(1), of d "be_bytes k (unat v)"]
      show "r = None \<and> error (base c')"
        by (cases r) (auto simp: cbb_on_error_def split: if_splits)
    next
      fix c d u c'
      assume "cbb_add_u c d v k = (Some u, c')"
      with fails [of c d] show "d \<le> length (children c) \<and> children c' = take d (children c) \<and>
          \<not> error (base c') \<and> (\<exists>w. pending c d = Some w \<and> buf (base c') = w @ be_bytes k (unat v))"
        by auto
    qed (use False in simp)
  qed
qed

section \<open>Length prefixes\<close>

text \<open>What a flush makes of a child whose contents are \<open>n\<close> bytes long.\<close>

definition prefix_bytes :: "nat \<Rightarrow> bool \<Rightarrow> nat \<Rightarrow> bytes" where
  "prefix_bytes k asn1 n = (if asn1 then der_length n else be_bytes k n)"

definition prefix_fits :: "nat \<Rightarrow> bool \<Rightarrow> nat \<Rightarrow> bool" where
  "prefix_fits k asn1 n = (if asn1 then n \<le> 0xfffffffe else n < 256 ^ k)"

lemma render_child:
  assumes "length z = k"
  shows "render (w @ z @ x) [\<lparr>offset = length w, pending_len_len = k, pending_is_asn1 = asn1\<rparr>] =
    (if prefix_fits k asn1 (length x) then Some (w @ prefix_bytes k asn1 (length x) @ x) else None)"
  using assms by (simp add: prefix_fits_def prefix_bytes_def Let_def)

lemma length_prefix_bytes: "(asn1 \<longrightarrow> k = 1) \<Longrightarrow> k \<le> length (prefix_bytes k asn1 n)"
  by (simp add: prefix_bytes_def der_length_def)

lemma add_child_spec:
  assumes op: "cbb_add_child c (length (children c)) k asn1 = (r, c')" and inv: "cbb_inv c"
    and err: "\<not> error (base c)" and k: "asn1 \<longrightarrow> k = 1" "k < size_max"
  shows "cbb_inv c' \<and> same_env (base c) (base c') \<and> (r = None \<longrightarrow> error (base c')) \<and>
    (r \<noteq> None \<longrightarrow> \<not> error (base c') \<and> buf (base c') = buf (base c) @ replicate k 0 \<and>
       children c' = children c @ [\<lparr>offset = length (buf (base c)), pending_len_len = k, pending_is_asn1 = asn1\<rparr>])"
proof -
  obtain r1 b where add: "cbb_buffer_add (base c) (replicate k 0) = (r1, b)"
    by (cases "cbb_buffer_add (base c) (replicate k 0)")
  have binv: "buffer_inv (base c)" and chain: "chain_ok 0 (children c) (length (buf (base c)))"
    using inv err by (simp_all add: cbb_inv_def)
  have len: "length (replicate k (0 :: u8)) < size_max" using k(2) by simp
  have snoc: "chain_ok 0 (children c @ [\<lparr>offset = length (buf (base c)), pending_len_len = k, pending_is_asn1 = asn1\<rparr>])
      (length (buf (base c)) + k)"
    by (rule chain_ok_snoc [OF chain k(1)]) simp
  from buffer_add_spec [OF add binv len] op add err snoc show ?thesis
    by (cases r1) (simp_all add: cbb_add_child_def cbb_inv_def same_env_def, auto)
qed

text \<open>
  A header, an open child, the contents and the flush of the parent: the code's way to
  write a length-prefixed value.
\<close>

definition enclosed ::
    "(CBB \<Rightarrow> nat \<Rightarrow> (unit, CBB) cres) \<Rightarrow> nat \<Rightarrow> bool \<Rightarrow> (CBB \<Rightarrow> nat \<Rightarrow> (unit, CBB) cres) \<Rightarrow>
     CBB \<Rightarrow> nat \<Rightarrow> (unit, CBB) cres" where
  "enclosed hdr k asn1 body c d =
     cbind (hdr c d) (\<lambda>_ c. cbind (cbb_add_child c d k asn1) (\<lambda>_ c.
       cbind (body c (d + 1)) (\<lambda>_ c. CBB_flush c d)))"

lemma enclosed_steps:
  assumes hdr: "writer hdr pre f0" and body: "writer body x f1"
    and k: "asn1 \<longrightarrow> k = 1" and small: "k < 2 ^ 32"
    and inv: "cbb_inv c" and len: "length pre < size_max" "length x < size_max"
    and op: "enclosed hdr k asn1 body c d = (r, c')"
  shows "cbb_inv c' \<and> same_env (base c) (base c') \<and>
    (r \<noteq> None \<longrightarrow> d \<le> length (children c) \<and> children c' = take d (children c) \<and> \<not> error (base c') \<and>
      (\<exists>w. pending c d = Some w \<and> buf (base c') = w @ pre @ prefix_bytes k asn1 (length x) @ x))"
proof -
  obtain r1 c1 where h: "hdr c d = (r1, c1)" by (cases "hdr c d")
  note s1 = writer.safe [OF hdr inv len(1) h]
  show ?thesis
  proof (cases r1)
    case None
    with op h s1 show ?thesis by (simp add: enclosed_def)
  next
    case (Some u1)
    note h = h [unfolded Some]
    from writer.writes [OF hdr inv len(1) h] obtain w where d: "d \<le> length (children c)"
      and c1: "children c1 = take d (children c)" "\<not> error (base c1)" "buf (base c1) = w @ pre" and w: "pending c d = Some w"
      by auto
    then have dl: "length (children c1) = d" by simp
    obtain r2 c2 where a: "cbb_add_child c1 d k asn1 = (r2, c2)" by (cases "cbb_add_child c1 d k asn1")
    have k': "k < size_max" using small by simp
    note s2 = add_child_spec [OF a [folded dl] _ c1(2) k k']
    show ?thesis
    proof (cases r2)
      case None
      with op h a s1 s2 show ?thesis by (auto simp: enclosed_def intro: same_env_trans)
    next
      case (Some u2)
      let ?ch = "\<lparr>offset = length (w @ pre), pending_len_len = k, pending_is_asn1 = asn1\<rparr>"
      from s1 s2 Some have inv2: "cbb_inv c2" "same_env (base c) (base c2)"
        and c2: "buf (base c2) = (w @ pre) @ replicate k 0" "children c2 = take d (children c) @ [?ch]"
        by (auto simp: c1 intro: same_env_trans)
      obtain r3 c3 where b: "body c2 (d + 1) = (r3, c3)" by (cases "body c2 (d + 1)")
      note s3 = writer.safe [OF body inv2(1) len(2) b]
      have env3: "same_env (base c) (base c3)"
        using inv2(2) s3 by (auto intro: same_env_trans)
      show ?thesis
      proof (cases r3)
        case None
        with op h a Some b s3 env3 show ?thesis by (auto simp: enclosed_def)
      next
        case (Some u3)
        have "length (children c2) = d + 1" using c2 d by simp
        then have "pending c2 (d + 1) = Some (buf (base c2))" using pending_here [of c2] by simp
        with writer.writes [OF body inv2(1) len(2) b [unfolded Some]] c2 d
        have c3: "children c3 = take d (children c) @ [?ch]" "buf (base c3) = (w @ pre) @ replicate k 0 @ x"
          by auto
        from op h a b Some \<open>r2 = Some u2\<close> have fl: "CBB_flush c3 d = (r, c')"
          by (simp add: enclosed_def)
        have pend: "pending c3 d = (if prefix_fits k asn1 (length x)
            then Some ((w @ pre) @ prefix_bytes k asn1 (length x) @ x) else None)"
          using d by (simp only: pending_def c3 drop_append) (simp only: render_child length_replicate drop_all length_take min_absorb2 order_refl diff_self_eq_0 drop_0 append_Nil)
        from CBB_flush_spec [OF fl] s3 env3 d w pend c3 show ?thesis
          by (auto intro: same_env_trans split: if_splits)
      qed
    qed
  qed
qed

lemma enclosed_total:
  assumes hdr: "writer hdr pre f0" and body: "writer body x f1"
    and k: "asn1 \<longrightarrow> k = 1" and small: "k < 2 ^ 32"
    and hyps: "cbb_inv c" "roomy (base c)" "d \<le> length (children c)" "pending c d = Some w"
    and len: "length w + length (pre @ prefix_bytes k asn1 (length x) @ x) < size_max"
    and fits: "f0" "f1" "prefix_fits k asn1 (length x)"
  shows "fst (enclosed hdr k asn1 body c d) = Some ()"
proof -
  have kl: "k \<le> length (prefix_bytes k asn1 (length x))" by (rule length_prefix_bytes) (rule k)
  obtain c1 where h: "hdr c d = (Some (), c1)" and inv1: "cbb_inv c1" "roomy (base c1)"
    and c1: "children c1 = take d (children c)" "buf (base c1) = w @ pre"
    using writer.appends [OF hdr hyps] len fits by auto
  then have dl: "length (children c1) = d" using hyps(3) by simp
  obtain r2 c2 where a: "cbb_add_child c1 d k asn1 = (r2, c2)" by (cases "cbb_add_child c1 d k asn1")
  have "fst (cbb_buffer_add (base c1) (replicate k 0)) = Some ()"
    using len kl c1 inv1 by (intro buffer_add_total) simp_all
  with a have r2: "r2 = Some ()"
    by (auto simp: cbb_add_child_def split: prod.splits)
  have k': "k < size_max" using small by simp
  have err1: "\<not> error (base c1)" using inv1 by (simp add: roomy_def)
  let ?ch = "\<lparr>offset = length (w @ pre), pending_len_len = k, pending_is_asn1 = asn1\<rparr>"
  from add_child_spec [OF a [folded dl] inv1(1) err1 k k'] r2 have inv2: "cbb_inv c2"
    and env: "same_env (base c1) (base c2)" "\<not> error (base c2)"
    and c2: "buf (base c2) = (w @ pre) @ replicate k 0" "children c2 = take d (children c) @ [?ch]"
    by (simp_all add: c1)
  have room2: "roomy (base c2)"
    using roomy_env [OF inv1(2) env(1) _ env(2)] inv2 by (simp add: cbb_inv_def)
  have d2: "length (children c2) = d + 1" using c2 hyps(3) by simp
  then have p2: "pending c2 (d + 1) = Some (buf (base c2))" using pending_here [of c2] by simp
  have le2: "d + 1 \<le> length (children c2)" and len2: "length (buf (base c2)) + length x < size_max"
    using d2 len c2 kl by simp_all
  obtain c3 where b: "body c2 (d + 1) = (Some (), c3)" and inv3: "cbb_inv c3" "roomy (base c3)"
    and c3: "children c3 = take d (children c) @ [?ch]" "buf (base c3) = (w @ pre) @ replicate k 0 @ x"
    using writer.appends [OF body inv2 room2 le2 p2 len2 fits(2)] c2 hyps(3) by auto
  have pend: "pending c3 d = Some ((w @ pre) @ prefix_bytes k asn1 (length x) @ x)"
    using hyps(3) fits(3) by (simp only: pending_def c3 drop_append) (simp only: render_child length_replicate drop_all length_take min_absorb2 order_refl diff_self_eq_0 drop_0 append_Nil if_True)
  have "fst (CBB_flush c3 d) = Some ()"
    using len c3 hyps(3) by (intro CBB_flush_total [OF inv3 _ pend]) simp_all
  then show ?thesis by (simp add: enclosed_def h a r2 b [simplified])
qed

lemma writer_enclosed:
  assumes ws: "writer hdr pre f0" "writer body x f1" "asn1 \<longrightarrow> k = 1" "k < 2 ^ 32"
  shows "writer (enclosed hdr k asn1 body) (pre @ prefix_bytes k asn1 (length x) @ x)
     (f0 \<and> f1 \<and> prefix_fits k asn1 (length x))"
proof
  fix c d r c'
  assume "cbb_inv c" and len: "length (pre @ prefix_bytes k asn1 (length x) @ x) < size_max"
    and "enclosed hdr k asn1 body c d = (r, c')"
  from enclosed_steps [OF ws this(1) _ _ this(3)] len show "cbb_inv c' \<and> same_env (base c) (base c')" by simp
next
  fix c d r c'
  assume "error (base c)" and "enclosed hdr k asn1 body c d = (r, c')"
  then show "r = None \<and> error (base c')"
    using writer.locked [OF ws(1), of c d] by (auto simp: enclosed_def cbind_def split: prod.splits option.splits)
next
  fix c d u c'
  assume "cbb_inv c" and len: "length (pre @ prefix_bytes k asn1 (length x) @ x) < size_max"
    and "enclosed hdr k asn1 body c d = (Some u, c')"
  from enclosed_steps [OF ws this(1) _ _ this(3)] len
  show "d \<le> length (children c) \<and> children c' = take d (children c) \<and> \<not> error (base c') \<and>
      (\<exists>w. pending c d = Some w \<and> buf (base c') = w @ pre @ prefix_bytes k asn1 (length x) @ x)" by simp
qed (use enclosed_total [OF ws] in blast)

end
