(* ===== verification/CbbValues.thy ===== *)
theory CbbValues
  imports Writer
begin

text \<open>
  The value writers of \<^verbatim>\<open>cbb.c\<close> as interpretations of the contract \<open>writer\<close>: fixed-width
  numbers, base-128 integers, tags, length-prefixed and ASN.1 values, and what each of
  them appends.
\<close>

section \<open>Fixed-width numbers\<close>

lemma be_bytes_1: "n < 256 \<Longrightarrow> be_bytes (Suc 0) n = [of_nat n]"
  by simp

lemma writer_add_u8: "writer (\<lambda>c d. CBB_add_u8 c d v) [v] True"
  by (rule writer_cong [OF writer_add_u [of "ucast v" 1]]) (auto simp: CBB_add_u8_def intro: ext)

interpretation add_u8: writer "\<lambda>c d. CBB_add_u8 c d v" "[v]" True
  by (rule writer_add_u8)

interpretation add_u16: writer "\<lambda>c d. CBB_add_u16 c d v" "be_bytes 2 (unat v)" True
  using unsigned_less [of v]
  by (intro writer_cong [OF writer_add_u [of "ucast v" 2]]) (auto simp: CBB_add_u16_def intro: ext)

interpretation add_u24: writer "\<lambda>c d. CBB_add_u24 c d v" "be_bytes 3 (unat v)" "unat v < 2 ^ 24"
  by (intro writer_cong [OF writer_add_u [of "ucast v" 3]]) (auto simp: CBB_add_u24_def intro: ext)

interpretation add_u32: writer "\<lambda>c d. CBB_add_u32 c d v" "be_bytes 4 (unat v)" True
  using unsigned_less [of v]
  by (intro writer_cong [OF writer_add_u [of "ucast v" 4]]) (auto simp: CBB_add_u32_def intro: ext)

interpretation add_u64: writer "\<lambda>c d. CBB_add_u64 c d v" "be_bytes 8 (unat v)" True
  using unsigned_less [of v]
  by (intro writer_cong [OF writer_add_u [of "v" 8]]) (auto simp: CBB_add_u64_def intro: ext)

interpretation add_bytes: writer "\<lambda>c d. CBB_add_bytes c d data" data True
  using writer_add_space [of data] by (simp add: CBB_add_bytes_def)

interpretation add_zeros: writer "\<lambda>c d. CBB_add_zeros c d n" "replicate n 0" True
  using writer_add_space [of "replicate n 0"] by (simp add: CBB_add_zeros_def)

interpretation flush: writer CBB_flush "[]" True
  by (rule writer_flush)

section \<open>Base-128 integers and tags\<close>

fun loop_bytes :: "u64 \<Rightarrow> nat \<Rightarrow> bytes" where
  "loop_bytes v 0 = []"
| "loop_bytes v (Suc i) =
     (let byte = ucast (drop_bit (7 * i) v) AND 0x7f
      in (if i \<noteq> 0 then byte OR 0x80 else byte) # loop_bytes v i)"

lemma cbind_unit: "cbind m (\<lambda>u s. (Some (), s)) = m" for m :: "(unit, 's) cres"
  by (cases m; cases "fst m") auto

lemma cbind_assoc: "cbind (cbind m f) g = cbind m (\<lambda>v s. cbind (f v s) g)"
  by (auto simp: cbind_def split: prod.splits option.splits)

lemma writer_skip: "writer (\<lambda>c d. cbind (CBB_flush c d) (\<lambda>_ c. (Some (), c))) [] True"
  using writer_flush by (simp add: cbind_unit)

lemma add_base128_loop_writer: "0 < k \<Longrightarrow> writer (\<lambda>c d. add_base128_loop c d v k) (loop_bytes v k) True"
proof (induction k)
  case 0
  then show ?case by simp
next
  case (Suc i)
  let ?byte = "let byte = ucast (drop_bit (7 * i) v) AND 0x7f in if i \<noteq> 0 then byte OR 0x80 else byte"
  show ?case
  proof (cases "i = 0")
    case True
    then show ?thesis
      using writer_add_u8 [of ?byte] by (simp add: cbind_unit)
  next
    case False
    with Suc.IH writer_seq [OF writer_add_u8 [of ?byte], of "\<lambda>c d. add_base128_loop c d v i" "loop_bytes v i" True]
    show ?thesis by (simp add: Let_def)
  qed
qed

fun high_bytes :: "u64 \<Rightarrow> nat \<Rightarrow> bytes" where
  "high_bytes v 0 = []"
| "high_bytes v (Suc i) = ((ucast (drop_bit (7 * i) v) AND 0x7f) OR 0x80) # high_bytes v i"

lemma septet: "(ucast v AND 0x7f :: u8) = of_nat (unat v mod 128)" for v :: u64
proof -
  have "unat v mod 256 mod 128 = unat v mod 128"
    by (rule mod_mod_cancel) simp
  then show ?thesis
    by (simp add: word_unat_eq_iff byte_simps unsigned_ucast_eq unat_of_nat take_bit_eq_mod)
qed

lemma septet_flag: "(ucast v AND 0x7f) OR 0x80 = (0x80 + of_nat (unat v mod 128) :: u8)" for v :: u64
proof -
  have "(ucast v AND 0x7f) AND 0x80 = (0 :: u8)"
    by (simp add: and.assoc)
  then have "(ucast v AND 0x7f) OR 0x80 = (ucast v AND 0x7f) + (0x80 :: u8)"
    by (simp only: disjunctive_add_eq_or)
  then show ?thesis
    by (simp only: septet add.commute)
qed

lemma unat_drop_7: "unat (drop_bit 7 v) = unat v div 128" for v :: u64
  by (simp only: unat_drop_bit_eq) (simp add: drop_bit_eq_div)

lemma high_bytes_snoc:
  "high_bytes v (Suc i) = high_bytes (drop_bit 7 v) i @ [0x80 + of_nat (unat v mod 128)]"
proof (induction i)
  case 0
  then show ?case by (simp only: high_bytes.simps mult_0_right drop_bit_0 id_apply septet_flag append_Nil)
next
  case (Suc i)
  then show ?case
    by (simp only: high_bytes.simps drop_bit_drop_bit append_Cons) (simp add: algebra_simps)
qed

lemma loop_bytes_snoc: "loop_bytes v (Suc i) = high_bytes (drop_bit 7 v) i @ [of_nat (unat v mod 128)]"
proof (induction i)
  case 0
  then show ?case by (simp add: Let_def septet)
next
  case (Suc i)
  have "loop_bytes v (Suc (Suc i)) = ((ucast (drop_bit (7 * Suc i) v) AND 0x7f) OR 0x80) # loop_bytes v (Suc i)"
    by (simp add: Let_def)
  with Suc show ?case
    by (simp only: high_bytes.simps drop_bit_drop_bit append_Cons) (simp add: algebra_simps)
qed

lemma high_bytes_len: "high_bytes v (base128_len v) = base128_high (unat v)"
proof (induction v rule: base128_len.induct)
  case (1 v)
  show ?case
  proof (cases "v > 0")
    case True
    then have "0 < unat v" by (simp add: unat_gt_0 word_gt_0)
    with 1 [OF True] True show ?thesis
      by (simp only: base128_len.simps [of v] if_True high_bytes_snoc unat_drop_7 base128_high_pos)
  next
    case False
    then have "v = 0" by (simp add: word_gt_0)
    then show ?thesis by (simp add: base128_len.simps [of 0])
  qed
qed

lemma loop_bytes_len:
  "loop_bytes v (if base128_len v = 0 then 1 else base128_len v) = base128 (unat v)"
proof (cases "v > 0")
  case True
  then have "base128_len v = Suc (base128_len (drop_bit 7 v))"
    by (simp add: base128_len.simps [of v])
  then show ?thesis
    by (simp only: nat.simps if_False loop_bytes_snoc high_bytes_len unat_drop_7 base128_def)
next
  case False
  then have "v = 0" by (simp add: word_gt_0)
  then show ?thesis by (simp add: base128_len.simps [of 0] base128_def Let_def)
qed

interpretation add_base128: writer "\<lambda>c d. add_base128_integer c d v" "base128 (unat v)" True
  using add_base128_loop_writer [of "if base128_len v = 0 then 1 else base128_len v" v]
  by (simp only: add_base128_integer_def Let_def loop_bytes_len) simp

definition tag_writer :: "CBS_ASN1_TAG \<Rightarrow> CBB \<Rightarrow> nat \<Rightarrow> (unit, CBB) cres" where
  "tag_writer tag c d =
     (let tag_bits = ucast (drop_bit CBS_ASN1_TAG_SHIFT tag) AND 0xe0;
          tag_number = tag AND CBS_ASN1_TAG_NUMBER_MASK
      in if tag_number \<ge> 0x1f then
           cbind (CBB_add_u8 c d (tag_bits OR 0x1f)) (\<lambda>_ c.
             add_base128_integer c d (ucast tag_number))
         else CBB_add_u8 c d (tag_bits OR ucast tag_number))"

lemma writer_tag: "writer (tag_writer tag) (der_tag tag) True"
proof -
  let ?bits = "ucast (drop_bit 24 tag) AND 0xe0 :: u8" and ?number = "tag AND mask 29"
  have ge: "?number \<ge> 0x1f \<longleftrightarrow> 31 \<le> unat ?number"
    by (simp add: word_le_nat_alt)
  have wide: "unat (ucast ?number :: u64) = unat ?number" by simp
  show ?thesis
  proof (cases "31 \<le> unat ?number")
    case True
    with writer_seq [OF writer_add_u8 [of "?bits OR 0x1f"] add_base128.writer_axioms [of "ucast ?number"]]
    have "writer (\<lambda>c d. cbind (CBB_add_u8 c d (?bits OR 0x1f)) (\<lambda>_ c. add_base128_integer c d (ucast ?number)))
        (der_tag tag) True"
      by (simp only: der_tag_def Let_def if_True wide append_Cons append_Nil simp_thms)
    moreover have "tag_writer tag = (\<lambda>c d. cbind (CBB_add_u8 c d (?bits OR 0x1f)) (\<lambda>_ c. add_base128_integer c d (ucast ?number)))"
      using True by (intro ext) (simp only: tag_writer_def Let_def tag_number_mask CBS_ASN1_TAG_SHIFT_def ge if_True)
    ultimately show ?thesis by simp
  next
    case False
    then have "der_tag tag = [?bits OR ucast ?number]"
      by (simp only: der_tag_def Let_def if_False)
    moreover have "tag_writer tag = (\<lambda>c d. CBB_add_u8 c d (?bits OR ucast ?number))"
      using False by (intro ext) (simp only: tag_writer_def Let_def tag_number_mask CBS_ASN1_TAG_SHIFT_def ge if_False)
    ultimately show ?thesis using writer_add_u8 by simp
  qed
qed

section \<open>Values under a tag\<close>

lemma writer_asn1_header: "writer (\<lambda>c d. cbind (CBB_flush c d) (\<lambda>_ c. tag_writer tag c d)) (der_tag tag) True"
  using writer_seq [OF writer_flush writer_tag] by simp

lemma CBB_add_asn1_eq:
  "CBB_add_asn1 c d tag =
     cbind (cbind (CBB_flush c d) (\<lambda>_ c. tag_writer tag c d)) (\<lambda>_ c. cbb_add_child c d 1 True)"
  by (simp only: CBB_add_asn1_def tag_writer_def Let_def cbind_assoc)

text \<open>\<open>CBB_add_asn1\<close>, the contents, and a flush of the parent write a DER element.\<close>

lemma writer_asn1_value:
  assumes "writer body x fits"
  shows "writer (\<lambda>c d. cbind (CBB_add_asn1 c d tag) (\<lambda>_ c. cbind (body c (d + 1)) (\<lambda>_ c. CBB_flush c d)))
    (der_element tag x) (fits \<and> length x \<le> 0xfffffffe)"
proof -
  have "enclosed (\<lambda>c d. cbind (CBB_flush c d) (\<lambda>_ c. tag_writer tag c d)) 1 True body =
     (\<lambda>c d. cbind (CBB_add_asn1 c d tag) (\<lambda>_ c. cbind (body c (d + 1)) (\<lambda>_ c. CBB_flush c d)))"
    by (intro ext) (simp only: enclosed_def CBB_add_asn1_eq cbind_assoc)
  then show ?thesis
    using writer_enclosed [OF writer_asn1_header assms, of True 1 tag]
    by (simp add: prefix_bytes_def prefix_fits_def der_element_def der_header_def)
qed

interpretation octet_string: writer "\<lambda>c d. CBB_add_asn1_octet_string c d data"
    "der_element CBS_ASN1_OCTETSTRING data" "length data \<le> 0xfffffffe"
  using writer_or_error [OF writer_asn1_value [OF add_bytes.writer_axioms [of data], of CBS_ASN1_OCTETSTRING]]
  by (simp only: CBB_add_asn1_octet_string_def simp_thms)

interpretation add_bool: writer "\<lambda>c d. CBB_add_asn1_bool c d v"
    "der_element CBS_ASN1_BOOLEAN [if v \<noteq> 0 then 0xff else 0]" True
  using writer_or_error [OF writer_asn1_value [OF writer_add_u8, of CBS_ASN1_BOOLEAN]]
  by (simp add: CBB_add_asn1_bool_def)

text \<open>Length-prefixed values.\<close>

lemma writer_length_prefixed:
  assumes "writer body x fits" and "k < 2 ^ 32"
  shows "writer (\<lambda>c d. cbind (cbb_add_length_prefixed c d k) (\<lambda>_ c. cbind (body c (d + 1)) (\<lambda>_ c. CBB_flush c d)))
    (be_bytes k (length x) @ x) (fits \<and> length x < 256 ^ k)"
proof -
  have "enclosed CBB_flush k False body =
     (\<lambda>c d. cbind (cbb_add_length_prefixed c d k) (\<lambda>_ c. cbind (body c (d + 1)) (\<lambda>_ c. CBB_flush c d)))"
    by (intro ext) (simp only: enclosed_def cbb_add_length_prefixed_def cbind_assoc)
  then show ?thesis
    using writer_enclosed [OF writer_flush assms(1), of False k] assms(2)
    by (simp add: prefix_bytes_def prefix_fits_def)
qed

end
