(* ===== verification/DerInt.thy ===== *)
theory DerInt
  imports Der
begin

text \<open>
  The abstract DER encoding of INTEGER and BOOLEAN values, and the proof that the readers
  \<open>CBS_get_asn1_uint64\<close>, \<open>CBS_get_asn1_int64\<close> and \<open>CBS_get_asn1_bool\<close> accept exactly the
  canonical encoding of each value they return.
\<close>

section \<open>Two's complement octets\<close>

fun int_octets :: "int \<Rightarrow> bytes" where
  "int_octets i =
     (if - 128 \<le> i \<and> i < 128 then [of_int i] else int_octets (i div 256) @ [of_int (i mod 256)])"

declare int_octets.simps [simp del]

lemma int_octets_small: "- 128 \<le> i \<Longrightarrow> i < 128 \<Longrightarrow> int_octets i = [of_int i]"
  by (simp add: int_octets.simps)

lemma int_octets_big: "\<not> (- 128 \<le> i \<and> i < 128) \<Longrightarrow> int_octets i = int_octets (i div 256) @ [of_int (i mod 256)]"
  by (simp only: int_octets.simps [of i] if_False)

text \<open>The value of a byte string read as a two's complement number.\<close>

definition sval :: "bytes \<Rightarrow> int" where
  "sval bs = (case bs of [] \<Rightarrow> 0 | a # as \<Rightarrow> foldl (\<lambda>i b. 256 * i + uint b) (sint a) as)"

lemma sval_single [simp]: "sval [a] = sint a"
  by (simp add: sval_def)

lemma sval_snoc: "bs \<noteq> [] \<Longrightarrow> sval (bs @ [b]) = 256 * sval bs + uint b"
  by (cases bs) (simp_all add: sval_def)

lemma u8_bounds: "0 \<le> uint b" "uint b < 256" "- 128 \<le> sint b" "sint b < 128" for b :: u8
  using unsigned_less [of b, where ?'a = int] sint_ge [of b] sint_lt [of b] by simp_all

lemma top_bit_uint: "b AND 0x80 = 0 \<longleftrightarrow> uint b < 128" for b :: u8
proof -
  have "int (unat b) = uint b" by simp
  then show ?thesis unfolding and_0x80_eq_0_iff by linarith
qed

lemma sint_of_int_u8: "- 128 \<le> i \<Longrightarrow> i < 128 \<Longrightarrow> sint (of_int i :: u8) = i"
  by (simp add: sint_sbintrunc' signed_take_bit_int_eq_self)

lemma sint_u8: "sint b = (if b AND 0x80 = 0 then uint b else uint b - 256)" for b :: u8
proof -
  let ?i = "if uint b < 128 then uint b else uint b - 256"
  have "(of_int ?i :: u8) = of_int (uint b)"
    by simp
  then have "(of_int ?i :: u8) = b" by simp
  moreover have "sint (of_int ?i :: u8) = ?i"
  proof (cases "uint b < 128")
    case True
    then show ?thesis
      unfolding if_P [OF True] by (intro sint_of_int_u8) (use u8_bounds [of b] in linarith)+
  next
    case False
    then show ?thesis
      unfolding if_not_P [OF False] by (intro sint_of_int_u8) (use u8_bounds [of b] in linarith)+
  qed
  ultimately show ?thesis by (simp only: top_bit_uint)
qed

text \<open>A body is minimal when its first nine bits are not all equal.\<close>

fun minimal :: "bytes \<Rightarrow> bool" where
  "minimal [] \<longleftrightarrow> False"
| "minimal [a] \<longleftrightarrow> True"
| "minimal (a # b # bs) \<longleftrightarrow> \<not> (a = 0 \<and> b AND 0x80 = 0) \<and> \<not> (a = 0xff \<and> b AND 0x80 \<noteq> 0)"

lemma minimal_not_Nil: "minimal bs \<Longrightarrow> bs \<noteq> []"
  by auto

lemma minimal_snoc: "2 \<le> length bs \<Longrightarrow> minimal (bs @ [b]) \<longleftrightarrow> minimal bs"
  by (cases bs rule: minimal.cases) auto

lemma sint_eq_iff: "sint a = 0 \<longleftrightarrow> a = 0" "sint a = - 1 \<longleftrightarrow> a = 0xff" for a :: u8
proof -
  show "sint a = 0 \<longleftrightarrow> a = 0"
    using signed_word_eqI [of a 0] by auto
  have "sint (0xff :: u8) = - 1" by simp
  then show "sint a = - 1 \<longleftrightarrow> a = 0xff"
    using signed_word_eqI [of a "0xff"] by metis
qed

lemma two_octets:
  "(- 128 \<le> 256 * sint a + uint b \<and> 256 * sint a + uint b < 128) \<longleftrightarrow>
     (a = 0 \<and> b AND 0x80 = 0) \<or> (a = 0xff \<and> b AND 0x80 \<noteq> 0)" for a b :: u8
proof -
  show ?thesis
    unfolding top_bit_uint sint_eq_iff [of a, symmetric] using u8_bounds [of b] u8_bounds(3,4) [of a] by linarith
qed

lemma minimal_range: "minimal bs \<Longrightarrow> 2 \<le> length bs \<Longrightarrow> \<not> (- 128 \<le> sval bs \<and> sval bs < 128)"
proof (induction bs rule: rev_induct)
  case Nil
  then show ?case by simp
next
  case (snoc b bs)
  show ?case
  proof (cases "2 \<le> length bs")
    case True
    with snoc have "\<not> (- 128 \<le> sval bs \<and> sval bs < 128)"
      by (simp add: minimal_snoc)
    moreover have ne: "bs \<noteq> []" using True by auto
    ultimately show ?thesis
      using u8_bounds(1,2) [of b] unfolding sval_snoc [OF ne] by linarith
  next
    case False
    with snoc.prems obtain a where bs: "bs = [a]"
      by (cases bs; cases "tl bs") auto
    show ?thesis
      using two_octets [of a b] snoc.prems sval_snoc [of "[a]" b] by (auto simp: bs)
  qed
qed

lemma of_int_uint_mod: "(of_int ((256 * x + uint b) mod 256) :: u8) = b"
proof -
  have "(256 * x + uint b) mod 256 = uint b mod 256" by simp
  also have "\<dots> = uint b" using u8_bounds [of b] by (intro mod_pos_pos_trivial)
  finally show ?thesis by simp
qed

lemma int_octets_sval: "minimal bs \<Longrightarrow> int_octets (sval bs) = bs"
proof (induction bs rule: rev_induct)
  case Nil
  then show ?case by simp
next
  case (snoc b bs)
  show ?case
  proof (cases "bs = []")
    case True
    then show ?thesis
      using u8_bounds [of b] by (simp add: int_octets_small)
  next
    case False
    then have "2 \<le> length (bs @ [b])" by (cases bs) auto
    from minimal_range [OF snoc.prems this]
    have big: "\<not> (- 128 \<le> 256 * sval bs + uint b \<and> 256 * sval bs + uint b < 128)"
      by (simp only: sval_snoc [OF False] not_False_eq_True)
    have "(256 * sval bs + uint b) div 256 = sval bs"
      using u8_bounds [of b] by (intro int_div_pos_eq [of _ _ _ "uint b"]) simp_all
    moreover have "minimal bs"
    proof (cases "2 \<le> length bs")
      case True
      with snoc.prems show ?thesis by (simp only: minimal_snoc)
    next
      case short: False
      with False show ?thesis by (cases bs; cases "tl bs") auto
    qed
    ultimately show ?thesis
      using snoc.IH by (simp only: sval_snoc [OF False] int_octets_big [OF big] of_int_uint_mod)
  qed
qed

lemma int_octets_spec: "minimal (int_octets i) \<and> sval (int_octets i) = i"
proof (induction i rule: int_octets.induct)
  case (1 i)
  show ?case
  proof (cases "- 128 \<le> i \<and> i < 128")
    case True
    then have "sint (of_int i :: u8) = i"
      by (simp only: sint_of_int_u8)
    with True show ?thesis by (simp add: int_octets_small)
  next
    case False
    let ?bs = "int_octets (i div 256)" and ?b = "of_int (i mod 256) :: u8"
    from 1 [OF False] have IH: "minimal ?bs" "sval ?bs = i div 256" by simp_all
    have b: "uint ?b = i mod 256"
      by (simp add: uint_word_of_int)
    have ne: "?bs \<noteq> []" using IH minimal_not_Nil by auto
    have val: "sval (?bs @ [?b]) = i"
      by (simp only: sval_snoc [OF ne] IH b) simp
    have "minimal (?bs @ [?b])"
    proof (cases "2 \<le> length ?bs")
      case True
      then show ?thesis using IH by (simp only: minimal_snoc)
    next
      case short: False
      with ne obtain a where a: "?bs = [a]" by (cases ?bs; cases "tl ?bs") auto
      then have "256 * sint a + uint ?b = i"
        using val sval_snoc [of "[a]" ?b] by simp
      with False two_octets [of a ?b] show ?thesis
        by (auto simp: a)
    qed
    with val show ?thesis by (simp only: int_octets_big [OF False])
  qed
qed

lemmas minimal_int_octets = int_octets_spec [THEN conjunct1]
  and sval_int_octets = int_octets_spec [THEN conjunct2]

lemma int_octets_iff: "bs = int_octets i \<longleftrightarrow> minimal bs \<and> sval bs = i"
  using int_octets_sval minimal_int_octets sval_int_octets by metis

lemma length_int_octets:
  "- (2 ^ (8 * k + 7)) \<le> i \<Longrightarrow> i < 2 ^ (8 * k + 7) \<Longrightarrow> length (int_octets i) \<le> Suc k"
proof (induction k arbitrary: i)
  case 0
  then show ?case by (simp add: int_octets_small)
next
  case (Suc k)
  show ?case
  proof (cases "- 128 \<le> i \<and> i < 128")
    case True
    then show ?thesis by (simp add: int_octets_small)
  next
    case False
    have "2 ^ (8 * Suc k + 7) = (256 :: int) * 2 ^ (8 * k + 7)"
      by (simp add: power_add)
    with Suc.prems have "- (2 ^ (8 * k + 7)) \<le> i div 256" and "i div 256 < 2 ^ (8 * k + 7)"
      by linarith+
    from Suc.IH [OF this] show ?thesis
      by (simp add: int_octets_big [OF False])
  qed
qed

section \<open>The sign and the magnitude of a body\<close>

lemma be_nat_Cons: "be_nat (b # bs) = unat b * 256 ^ length bs + be_nat bs"
proof (induction bs rule: rev_induct)
  case Nil
  then show ?case by (simp add: be_nat_def)
next
  case (snoc x xs)
  have "be_nat (b # xs @ [x]) = 256 * be_nat (b # xs) + unat x"
    using be_nat_snoc [of "b # xs" x] by simp
  with snoc show ?case by (simp add: algebra_simps)
qed

lemma sval_Cons: "sval (a # bs) = sint a * 256 ^ length bs + int (be_nat bs)"
proof (induction bs rule: rev_induct)
  case Nil
  then show ?case by simp
next
  case (snoc x xs)
  have "sval (a # xs @ [x]) = 256 * sval (a # xs) + uint x"
    using sval_snoc [of "a # xs" x] by simp
  with snoc show ?case by (simp add: algebra_simps)
qed

lemma sval_nonneg: "a AND 0x80 = 0 \<Longrightarrow> sval (a # bs) = int (be_nat (a # bs))"
  by (simp only: sval_Cons be_nat_Cons sint_u8 if_True) simp

lemma sval_neg_bounds:
  assumes "a AND 0x80 \<noteq> 0"
  shows "sval (a # bs) = int (be_nat (a # bs)) - 256 ^ Suc (length bs)" and "sval (a # bs) < 0"
proof -
  show eq: "sval (a # bs) = int (be_nat (a # bs)) - 256 ^ Suc (length bs)"
    using assms by (simp only: sval_Cons be_nat_Cons sint_u8 if_False) (simp add: algebra_simps)
  have "int (be_nat (a # bs)) < int (256 ^ length (a # bs))"
    using be_nat_bound [of "a # bs"] by (simp only: of_nat_less_iff)
  then have "int (be_nat (a # bs)) < 256 ^ Suc (length bs)" by simp
  with eq show "sval (a # bs) < 0" by linarith
qed

lemma sval_sign: "sval (a # bs) < 0 \<longleftrightarrow> a AND 0x80 \<noteq> 0"
  using sval_nonneg [of a bs] sval_neg_bounds [of a bs] by fastforce

lemma sval_extend:
  assumes "s = (if sval (a # bs) < 0 then 0xff else 0)"
  shows "sval (replicate k s @ a # bs) = sval (a # bs)"
proof (induction k)
  case 0
  then show ?case by simp
next
  case (Suc k)
  obtain x xs where x: "replicate k s @ a # bs = x # xs" by (cases "replicate k s @ a # bs") auto
  have hd: "x AND 0x80 \<noteq> 0 \<longleftrightarrow> sval (a # bs) < 0"
    using Suc sval_sign [of x xs] by (simp add: x)
  have "sval (s # x # xs) = sval (x # xs)"
  proof (cases "sval (a # bs) < 0")
    case True
    with hd have "sval (x # xs) = int (be_nat (x # xs)) - 256 ^ length (x # xs)"
      using sval_neg_bounds(1) [of x xs] by simp
    then show ?thesis using True assms by (simp add: sval_Cons [of "0xff"])
  next
    case False
    with hd have "sval (x # xs) = int (be_nat (x # xs))"
      using sval_nonneg [of x xs] by simp
    then show ?thesis using False assms by (simp add: sval_Cons [of 0])
  qed
  with Suc show ?case by (simp add: x)
qed

lemma valid_integer_minimal:
  "CBS_is_valid_asn1_integer bs = (if minimal bs then Some (sval bs < 0) else None)"
  by (cases bs rule: minimal.cases) (auto simp: CBS_is_valid_asn1_integer_def Let_def sval_sign simp del: sval_single)

lemma unsigned_integer_minimal: "CBS_is_unsigned_asn1_integer bs \<longleftrightarrow> minimal bs \<and> 0 \<le> sval bs"
  by (auto simp: CBS_is_unsigned_asn1_integer_def valid_integer_minimal)

section \<open>Unsigned values\<close>

lemma asn1_uint64_loop_eq:
  "asn1_uint64_loop out bs =
     (if unat out * 256 ^ length bs + be_nat bs < 2 ^ 64
      then Some (of_nat (unat out * 256 ^ length bs + be_nat bs)) else None)"
proof (induction bs arbitrary: out)
  case Nil
  then show ?case using unsigned_less [of out] by simp
next
  case (Cons b bs)
  let ?n = "unat out * 256 ^ length (b # bs) + be_nat (b # bs)"
  show ?case
  proof (cases "drop_bit 56 out = 0")
    case False
    then have "2 ^ 56 \<le> unat out" by (simp only: drop_bit_eq_0_iff_unat not_less)
    then have "2 ^ 56 * 256 ^ 1 \<le> unat out * 256 ^ length (b # bs)"
      by (intro mult_le_mono power_increasing) simp_all
    with False show ?thesis by simp
  next
    case True
    then have "unat out < 2 ^ 56" by (simp only: drop_bit_eq_0_iff_unat)
    then have "256 * unat out + 256 \<le> 256 * 2 ^ 56" by simp
    also have "\<dots> = 2 ^ 64" by simp
    finally have "256 * unat out + unat b < 2 ^ 64"
      using unat_u8_less [of b] by linarith
    then have step: "unat (be_step out b) = 256 * unat out + unat b"
      by (simp add: unat_be_step)
    have "unat (be_step out b) * 256 ^ length bs + be_nat bs = ?n"
      by (simp only: step be_nat_Cons) (simp add: algebra_simps)
    with Cons.IH [of "be_step out b"] True show ?thesis
      by (simp only: asn1_uint64_loop.simps be_step_def [symmetric] simp_thms if_False)
  qed
qed

lemma uint64_body:
  assumes "minimal bs" and "0 \<le> sval bs"
  shows "asn1_uint64_loop 0 bs = Some v \<longleftrightarrow> bs = int_octets (uint v)"
proof -
  obtain a as where bs: "bs = a # as" using assms(1) by (cases bs) auto
  then have "sval bs = int (be_nat bs)"
    using assms(2) sval_sign [of a as] sval_nonneg [of a as] by auto
  moreover have "asn1_uint64_loop 0 bs = Some v \<longleftrightarrow> be_nat bs = unat v"
    using unsigned_less [of v] by (auto simp: asn1_uint64_loop_eq word_unat_eq_iff unat_of_nat)
  moreover have "int (be_nat bs) = uint v \<longleftrightarrow> be_nat bs = unat v"
    using of_nat_eq_iff [of "be_nat bs" "unat v", where ?'a = int] by simp
  ultimately show ?thesis
    using assms(1) by (simp only: int_octets_iff simp_thms)
qed

lemma valid_tag_INTEGER [simp]: "valid_tag CBS_ASN1_INTEGER"
  by (simp add: valid_tag_def CBS_ASN1_INTEGER_def CBS_ASN1_CONSTRUCTED_def CBS_ASN1_TAG_SHIFT_def)

lemma valid_tag_BOOLEAN [simp]: "valid_tag CBS_ASN1_BOOLEAN"
  by (simp add: valid_tag_def CBS_ASN1_BOOLEAN_def CBS_ASN1_CONSTRUCTED_def CBS_ASN1_TAG_SHIFT_def)

lemma valid_tag_OCTETSTRING [simp]: "valid_tag CBS_ASN1_OCTETSTRING"
  by (simp add: valid_tag_def CBS_ASN1_OCTETSTRING_def CBS_ASN1_CONSTRUCTED_def CBS_ASN1_TAG_SHIFT_def)

lemma length_int_octets_u64: "length (int_octets (uint v)) \<le> 9" for v :: u64
proof -
  have "- (2 ^ (8 * 8 + 7)) \<le> uint v"
    by (rule order_trans [OF _ unsigned_greater_eq]) simp
  moreover have "uint v < 2 ^ (8 * 8 + 7)"
    by (rule order_less_le_trans [OF unsigned_less]) simp
  ultimately show ?thesis
    using length_int_octets [of 8 "uint v"] by simp
qed

lemma length_int_octets_s64: "length (int_octets (sint v)) \<le> 8" for v :: u64
  using length_int_octets [of 7 "sint v"] sint_ge [of v] sint_lt [of v] by simp

lemma CBS_get_asn1_uint64_iff:
  "CBS_get_asn1_uint64 c = (Some v, d) \<longleftrightarrow> c = der_element CBS_ASN1_INTEGER (int_octets (uint v)) @ d"
proof
  assume "CBS_get_asn1_uint64 c = (Some v, d)"
  then obtain bs where "CBS_get_asn1 c CBS_ASN1_INTEGER = (Some bs, d)"
    and "CBS_is_unsigned_asn1_integer bs" and "asn1_uint64_loop 0 bs = Some v"
    by (auto simp: CBS_get_asn1_uint64_def cbind_eq_Some split: if_splits)
  then show "c = der_element CBS_ASN1_INTEGER (int_octets (uint v)) @ d"
    by (simp add: unsigned_integer_minimal uint64_body CBS_get_asn1_iff)
next
  let ?bs = "int_octets (uint v)"
  assume "c = der_element CBS_ASN1_INTEGER ?bs @ d"
  moreover have "length ?bs < 2 ^ 32" using length_int_octets_u64 [of v] by simp
  ultimately have "CBS_get_asn1 c CBS_ASN1_INTEGER = (Some ?bs, d)"
    by (simp add: CBS_get_asn1_iff)
  moreover have "CBS_is_unsigned_asn1_integer ?bs"
    by (simp add: unsigned_integer_minimal minimal_int_octets sval_int_octets)
  moreover have "asn1_uint64_loop 0 ?bs = Some v"
    using uint64_body [of ?bs v] by (simp add: minimal_int_octets sval_int_octets)
  ultimately show "CBS_get_asn1_uint64 c = (Some v, d)"
    by (simp add: CBS_get_asn1_uint64_def)
qed

lemma CBS_get_asn1_uint64_fail: "CBS_get_asn1_uint64 c = (None, d) \<Longrightarrow> suffix d c"
  using asn1.advances [of c CBS_ASN1_INTEGER]
  by (auto simp: CBS_get_asn1_uint64_def cbind_def split: prod.splits option.splits if_splits)

interpretation uint64: codec CBS_get_asn1_uint64
    "\<lambda>v. der_element CBS_ASN1_INTEGER (int_octets (uint v))" "\<lambda>_. True"
  by unfold_locales (simp_all add: CBS_get_asn1_uint64_iff CBS_get_asn1_uint64_fail)

section \<open>Signed values\<close>

lemma sint_u64: "sint w = (if uint w < 2 ^ 63 then uint w else uint w - 2 ^ 64)" for w :: u64
proof -
  have range: "- (2 ^ 63) \<le> i \<Longrightarrow> i < 2 ^ 63 \<Longrightarrow> sint (of_int i :: u64) = i" for i
    by (simp add: sint_sbintrunc' signed_take_bit_int_eq_self)
  have w: "(of_int (uint w - 2 ^ 64) :: u64) = w" by simp
  have lo: "- (2 ^ 63) \<le> uint w"
    by (rule order_trans [OF _ unsigned_greater_eq]) simp
  have "uint w < 2 ^ 64"
    using unsigned_less [of w, where ?'a = int] by simp
  then show ?thesis
    using range [OF lo] range [of "uint w - 2 ^ 64"] unfolding w by auto
qed

lemma sint_be_word:
  assumes "length bs = 8"
  shows "sint (be_word bs) = sval bs"
proof -
  obtain a as where bs: "bs = a # as" and as: "length as = 7" using assms by (cases bs) auto
  have w: "uint (be_word bs) = int (be_nat bs)"
    using unat_be_word [of bs] assms of_nat_unat [of "be_word bs", where ?'a = int] by simp
  have "sint (be_word bs) = (if uint (be_word bs) < 2 ^ 63 then uint (be_word bs) else uint (be_word bs) - 2 ^ 64)"
    by (rule sint_u64)
  moreover have "a AND 0x80 = 0 \<longleftrightarrow> be_nat bs < 2 ^ 63"
    using be_nat_bound [of as] by (auto simp: byte_simps bs be_nat_Cons as)
  ultimately show ?thesis
    using sval_nonneg [of a as] sval_neg_bounds(1) [of a as] w as by (auto simp: bs)
qed

lemma int64_body:
  assumes "minimal bs" and "length bs \<le> 8"
  shows "be_word (replicate (8 - length bs) (if sval bs < 0 then 0xff else 0) @ bs) = v \<longleftrightarrow>
    bs = int_octets (sint v)"
proof -
  obtain a as where bs: "bs = a # as" using assms(1) by (cases bs) auto
  let ?ext = "replicate (8 - length bs) (if sval bs < 0 then 0xff else 0) @ bs"
  have "sint (be_word ?ext) = sval bs"
    using sint_be_word [of ?ext] sval_extend [of _ a as "8 - length bs"] assms(2) by (simp add: bs)
  then have "be_word ?ext = v \<longleftrightarrow> sval bs = sint v"
    using signed_word_eqI [of "be_word ?ext" v] by auto
  then show ?thesis
    using assms(1) by (simp only: int_octets_iff simp_thms)
qed

lemma CBS_get_asn1_int64_iff:
  "CBS_get_asn1_int64 c = (Some v, d) \<longleftrightarrow> c = der_element CBS_ASN1_INTEGER (int_octets (sint v)) @ d"
proof
  assume "CBS_get_asn1_int64 c = (Some v, d)"
  then obtain bs where "CBS_get_asn1 c CBS_ASN1_INTEGER = (Some bs, d)" and "minimal bs" and "length bs \<le> 8"
    and "be_word (replicate (8 - length bs) (if sval bs < 0 then 0xff else 0) @ bs) = v"
    by (auto simp: CBS_get_asn1_int64_def cbind_eq_Some valid_integer_minimal Let_def simp del: sval_single split: if_splits)
  then show "c = der_element CBS_ASN1_INTEGER (int_octets (sint v)) @ d"
    by (simp add: int64_body CBS_get_asn1_iff del: sval_single)
next
  let ?bs = "int_octets (sint v)"
  assume "c = der_element CBS_ASN1_INTEGER ?bs @ d"
  moreover have len: "length ?bs \<le> 8" by (rule length_int_octets_s64)
  moreover have "length ?bs < 2 ^ 32" using len by simp
  ultimately have "CBS_get_asn1 c CBS_ASN1_INTEGER = (Some ?bs, d)"
    by (simp add: CBS_get_asn1_iff)
  then show "CBS_get_asn1_int64 c = (Some v, d)"
    using int64_body [OF minimal_int_octets len, of v] len
    by (simp add: CBS_get_asn1_int64_def valid_integer_minimal minimal_int_octets Let_def)
qed

lemma CBS_get_asn1_int64_fail: "CBS_get_asn1_int64 c = (None, d) \<Longrightarrow> suffix d c"
  using asn1.advances [of c CBS_ASN1_INTEGER]
  by (auto simp: CBS_get_asn1_int64_def cbind_def Let_def split: prod.splits option.splits if_splits)

interpretation int64: codec CBS_get_asn1_int64
    "\<lambda>v. der_element CBS_ASN1_INTEGER (int_octets (sint v))" "\<lambda>_. True"
  by unfold_locales (simp_all add: CBS_get_asn1_int64_iff CBS_get_asn1_int64_fail)

section \<open>Booleans\<close>

lemma CBS_get_asn1_bool_iff:
  "CBS_get_asn1_bool c = (Some v, d) \<longleftrightarrow> c = der_element CBS_ASN1_BOOLEAN [if v then 0xff else 0] @ d"
proof
  assume "CBS_get_asn1_bool c = (Some v, d)"
  then obtain bs where "CBS_get_asn1 c CBS_ASN1_BOOLEAN = (Some bs, d)" and "length bs = 1"
    and "hd bs = 0 \<or> hd bs = 0xff" and "v \<longleftrightarrow> hd bs \<noteq> 0"
    by (auto simp: CBS_get_asn1_bool_def cbind_eq_Some Let_def split: if_splits)
  then show "c = der_element CBS_ASN1_BOOLEAN [if v then 0xff else 0] @ d"
    by (cases bs) (auto simp: CBS_get_asn1_iff)
next
  assume "c = der_element CBS_ASN1_BOOLEAN [if v then 0xff else 0] @ d"
  then have "CBS_get_asn1 c CBS_ASN1_BOOLEAN = (Some [if v then 0xff else 0], d)"
    by (simp add: CBS_get_asn1_iff)
  then show "CBS_get_asn1_bool c = (Some v, d)"
    by (simp add: CBS_get_asn1_bool_def)
qed

lemma CBS_get_asn1_bool_fail: "CBS_get_asn1_bool c = (None, d) \<Longrightarrow> suffix d c"
  using asn1.advances [of c CBS_ASN1_BOOLEAN]
  by (auto simp: CBS_get_asn1_bool_def cbind_def Let_def split: prod.splits option.splits if_splits)

interpretation bool: codec CBS_get_asn1_bool
    "\<lambda>v. der_element CBS_ASN1_BOOLEAN [if v then 0xff else 0]" "\<lambda>_. True"
  by unfold_locales (simp_all add: CBS_get_asn1_bool_iff CBS_get_asn1_bool_fail)

section \<open>Properties\<close>

text \<open>
  \<open>CBS_get_asn1_uint64\<close> succeeds exactly on the minimal DER INTEGER of a number below
  2^64, and returns that number.
\<close>

theorem CBS_get_asn1_uint64_canonical:
  "CBS_get_asn1_uint64 c = (Some v, d) \<longleftrightarrow> c = der_element CBS_ASN1_INTEGER (int_octets (uint v)) @ d"
  using uint64.get_iff [of c v d] by simp

text \<open>
  \<open>CBS_get_asn1_int64\<close> succeeds exactly on the minimal two's complement DER INTEGER of
  a number in the range of \<open>int64_t\<close>, negative ones included, and returns that number.
\<close>

theorem CBS_get_asn1_int64_canonical:
  "CBS_get_asn1_int64 c = (Some v, d) \<longleftrightarrow> c = der_element CBS_ASN1_INTEGER (int_octets (sint v)) @ d"
  using int64.get_iff [of c v d] by simp

text \<open>
  \<open>CBS_get_asn1_bool\<close> accepts the two DER booleans and nothing else.
\<close>

theorem CBS_get_asn1_bool_canonical:
  "CBS_get_asn1_bool c = (Some v, d) \<longleftrightarrow> c = der_element CBS_ASN1_BOOLEAN [if v then 0xff else 0] @ d"
  using bool.get_iff [of c v d] by simp

end
