(* ===== verification/CbbInt.thy ===== *)
theory CbbInt
  imports CbbValues DerInt
begin

text \<open>
  The INTEGER writers of \<^verbatim>\<open>cbb.c\<close>: the loops that strip redundant sign bytes append
  exactly the minimal two's complement octets of the value.
\<close>

section \<open>Unsigned values\<close>

definition strip_zeros :: "bytes \<Rightarrow> bytes" where
  "strip_zeros bs =
     (case dropWhile (\<lambda>b. b = 0) bs of
        [] \<Rightarrow> [0]
      | b # r \<Rightarrow> if b AND 0x80 \<noteq> 0 then 0 # b # r else b # r)"

lemma strip_zeros_spec: "minimal (strip_zeros bs) \<and> sval (strip_zeros bs) = int (be_nat bs)"
proof (induction bs)
  case Nil
  then show ?case by (simp add: strip_zeros_def)
next
  case (Cons b bs)
  show ?case
  proof (cases "b = 0")
    case True
    with Cons show ?thesis by (simp add: strip_zeros_def be_nat_Cons)
  next
    case b: False
    show ?thesis
    proof (cases "b AND 0x80 = 0")
      case True
      then have "sval (b # bs) = int (be_nat (b # bs))" by (rule sval_nonneg)
      moreover have "minimal (b # bs)"
        using b True by (cases bs) auto
      ultimately show ?thesis using b True by (simp add: strip_zeros_def)
    next
      case False
      have "sval (0 # b # bs) = int (be_nat (0 # b # bs))" by (rule sval_nonneg) simp
      then show ?thesis using b False by (simp add: strip_zeros_def be_nat_Cons [of 0])
    qed
  qed
qed

lemma value_bytes: "map (\<lambda>i. ucast (drop_bit (8 * (7 - i)) v)) [0..<8] = be_bytes 8 (unat v)"
proof -
  have 1: "(ucast (drop_bit (8 * k) v) :: u8) = of_nat (unat v div 256 ^ k)" for k
  proof -
    have "unat (drop_bit (8 * k) v) = unat v div 256 ^ k"
      by (simp only: unat_drop_bit_eq) (simp add: drop_bit_eq_div power_mult)
    then show ?thesis
      by (simp add: word_unat_eq_iff unsigned_ucast_eq unat_of_nat take_bit_eq_mod)
  qed
  have 2: "be_bytes k n = map (\<lambda>i. of_nat (n div 256 ^ (k - 1 - i))) [0..<k]" for k n
  proof (induction k arbitrary: n)
    case 0
    then show ?case by simp
  next
    case (Suc k)
    have "map (\<lambda>i. of_nat (n div 256 div 256 ^ (k - 1 - i))) [0..<k] =
        map (\<lambda>i. of_nat (n div 256 ^ (Suc k - 1 - i)) :: u8) [0..<k]"
    proof (intro map_cong refl)
      fix i assume "i \<in> set [0..<k]"
      then have "Suc k - 1 - i = Suc (k - 1 - i)" by auto
      then show "(of_nat (n div 256 div 256 ^ (k - 1 - i)) :: u8) = of_nat (n div 256 ^ (Suc k - 1 - i))"
        by (simp only: power_Suc div_mult2_eq)
    qed
    then show ?case by (simp add: Suc)
  qed
  show ?thesis
    unfolding 1 by (simp add: 2)
qed

abbreviation uint64_body_op :: "bool \<Rightarrow> bytes \<Rightarrow> CBB \<Rightarrow> nat \<Rightarrow> (unit, CBB) cres" where
  "uint64_body_op started bs c d \<equiv>
     cbind (add_uint64_loop c d started bs)
       (\<lambda>started c. if \<not> started then CBB_add_u8 c d 0 else (Some (), c))"

lemma uint64_started_writer: "writer (\<lambda>c d. cbind (CBB_add_u8 c d b) (\<lambda>_ c. uint64_body_op True bs c d)) (b # bs) True"
proof (induction bs arbitrary: b)
  case Nil
  then show ?case using writer_add_u8 [of b] by (simp add: cbind_unit)
next
  case (Cons b' bs)
  have "(\<lambda>c d. cbind (CBB_add_u8 c d b) (\<lambda>_ c. uint64_body_op True (b' # bs) c d)) =
      (\<lambda>c d. cbind (CBB_add_u8 c d b) (\<lambda>_ c. cbind (CBB_add_u8 c d b') (\<lambda>_ c. uint64_body_op True bs c d)))"
    by (simp add: cbind_assoc)
  with writer_seq [OF writer_add_u8 [of b] Cons [of b']] show ?case by simp
qed

lemma uint64_body_writer: "writer (uint64_body_op False bs) (strip_zeros bs) True"
proof (induction bs)
  case Nil
  then show ?case using writer_add_u8 [of 0] by (simp add: strip_zeros_def)
next
  case (Cons b bs)
  show ?case
  proof (cases "b = 0")
    case True
    with Cons show ?thesis by (simp add: strip_zeros_def)
  next
    case b: False
    show ?thesis
    proof (cases "b AND 0x80 = 0")
      case True
      then have "uint64_body_op False (b # bs) = (\<lambda>c d. cbind (CBB_add_u8 c d b) (\<lambda>_ c. uint64_body_op True bs c d))"
        using b by (intro ext) (simp add: cbind_assoc)
      with uint64_started_writer [of b bs] b True show ?thesis by (simp add: strip_zeros_def)
    next
      case False
      then have "uint64_body_op False (b # bs) =
          (\<lambda>c d. cbind (CBB_add_u8 c d 0) (\<lambda>_ c. cbind (CBB_add_u8 c d b) (\<lambda>_ c. uint64_body_op True bs c d)))"
        using b by (intro ext) (simp add: cbind_assoc)
      with writer_seq [OF writer_add_u8 [of 0] uint64_started_writer [of b bs]] b False show ?thesis
        by (simp add: strip_zeros_def)
    qed
  qed
qed

lemma strip_value: "strip_zeros (be_bytes 8 (unat v)) = int_octets (uint v)" for v :: u64
proof -
  have "unat v mod 256 ^ 8 = unat v"
    using unsigned_less [of v] by (intro mod_less) simp
  then have "int (be_nat (be_bytes 8 (unat v))) = uint v"
    by (simp add: be_nat_be_bytes)
  then show ?thesis
    using strip_zeros_spec [of "be_bytes 8 (unat v)"] by (simp only: int_octets_iff simp_thms)
qed

text \<open>The value writers flush their parent after the label \<open>err:\<close> is out of reach.\<close>

lemma writer_asn1_late_flush:
  assumes "writer body x fits"
  shows "writer (\<lambda>c d. cbind (or_error d (cbind (CBB_add_asn1 c d tag) (\<lambda>_ c. body c (d + 1)))) (\<lambda>_ c. CBB_flush c d))
    (der_element tag x) (fits \<and> length x \<le> 0xfffffffe)"
  using writer_or_error_bind [of "\<lambda>c d. cbind (CBB_add_asn1 c d tag) (\<lambda>_ c. body c (d + 1))" "\<lambda>d c. CBB_flush c d"]
    writer_asn1_value [OF assms, of tag]
  by (simp add: cbind_assoc)

interpretation add_uint64_tag: writer "\<lambda>c d. CBB_add_asn1_uint64_with_tag c d v tag"
    "der_element tag (int_octets (uint v))" True
proof -
  have "length (int_octets (uint v)) \<le> 0xfffffffe"
    using length_int_octets_u64 [of v] by simp
  then have "writer (\<lambda>c d. cbind (or_error d (cbind (CBB_add_asn1 c d tag) (\<lambda>_ c. uint64_body_op False (be_bytes 8 (unat v)) c (d + 1))))
      (\<lambda>_ c. CBB_flush c d)) (der_element tag (int_octets (uint v))) True"
    using writer_asn1_late_flush [OF uint64_body_writer, of tag "be_bytes 8 (unat v)"] by (simp add: strip_value)
  then show "writer (\<lambda>c d. CBB_add_asn1_uint64_with_tag c d v tag) (der_element tag (int_octets (uint v))) True"
    by (simp only: CBB_add_asn1_uint64_with_tag_def Let_def value_bytes)
qed

interpretation add_uint64: writer "\<lambda>c d. CBB_add_asn1_uint64 c d v"
    "der_element CBS_ASN1_INTEGER (int_octets (uint v))" True
  using add_uint64_tag.writer_axioms by (simp add: CBB_add_asn1_uint64_def)

section \<open>Signed values\<close>

lemma rev_take_Suc: "i < length bs \<Longrightarrow> rev (take (Suc i) bs) = bs ! i # rev (take i bs)"
  by (simp add: take_Suc_conv_app_nth)

lemma bytes_down_writer:
  "i < length bs \<Longrightarrow> writer (\<lambda>c d. add_bytes_down c d bs i) (rev (take (Suc i) bs)) True"
proof (induction i)
  case 0
  then show ?case using writer_add_u8 [of "bs ! 0"] by (simp add: rev_take_Suc)
next
  case (Suc i)
  with writer_seq [OF writer_add_u8 [of "bs ! Suc i"], of "\<lambda>c d. add_bytes_down c d bs i"]
  show ?case by (simp add: rev_take_Suc)
qed

lemma int64_start_spec:
  "s < length bs \<Longrightarrow> sval (rev (take (Suc s) bs)) < 0 \<Longrightarrow>
     minimal (rev (take (Suc (int64_start bs s)) bs)) \<and>
     sval (rev (take (Suc (int64_start bs s)) bs)) = sval (rev (take (Suc s) bs)) \<and> int64_start bs s \<le> s"
proof (induction s)
  case 0
  then show ?case by (simp add: rev_take_Suc)
next
  case (Suc s)
  let ?a = "bs ! Suc s" and ?b = "bs ! s" and ?r = "rev (take s bs)"
  have list: "rev (take (Suc (Suc s)) bs) = ?a # ?b # ?r" "rev (take (Suc s) bs) = ?b # ?r"
    using Suc.prems(1) by (simp_all only: rev_take_Suc Suc_lessD)
  have top: "?a AND 0x80 \<noteq> 0"
    using Suc.prems(2) unfolding list sval_sign .
  show ?case
  proof (cases "?a = 0xff \<and> ?b AND 0x80 \<noteq> 0")
    case True
    then have "sval (?b # ?r) < 0" unfolding sval_sign by blast
    with sval_extend [of "0xff" ?b ?r 1] True have same: "sval (?a # ?b # ?r) = sval (?b # ?r)" by simp
    with Suc True show ?thesis by (simp add: list)
  next
    case False
    with top have "minimal (?a # ?b # ?r)" by auto
    moreover have "int64_start bs (Suc s) = Suc s" using False by auto
    ultimately show ?thesis by (simp only: list order_refl simp_thms)
  qed
qed

lemma rev_be_bytes: "rev (be_bytes 8 (unat v)) = map (\<lambda>i. ucast (drop_bit (8 * i) v)) [0..<8]"
  by (simp only: value_bytes [symmetric]) (simp add: upt_rec)

lemma sval_be_bytes: "sval (be_bytes 8 (unat v)) = sint v" for v :: u64
proof -
  have "unat (be_word (be_bytes 8 (unat v))) = unat v"
    using unsigned_less [of v, where ?'a = nat] by (simp add: unat_be_word be_nat_be_bytes)
  then have "be_word (be_bytes 8 (unat v)) = v" by (simp only: word_unat_eq_iff)
  with sint_be_word [of "be_bytes 8 (unat v)"] show ?thesis by simp
qed

interpretation add_int64_tag: writer "\<lambda>c d. CBB_add_asn1_int64_with_tag c d v tag"
    "der_element tag (int_octets (sint v))" True
proof (cases "0 \<le> sint v")
  case True
  then have "sint v = uint v"
    using sint_u64 [of v] unsigned_less [of v, where ?'a = int] by (simp split: if_splits)
  with add_uint64_tag.writer_axioms [of v tag] True
  show "writer (\<lambda>c d. CBB_add_asn1_int64_with_tag c d v tag) (der_element tag (int_octets (sint v))) True"
    by (simp only: CBB_add_asn1_int64_with_tag_def if_True)
next
  case False
  let ?bs = "map (\<lambda>i. ucast (drop_bit (8 * i) v)) [0..<8] :: bytes"
  have rev: "rev (take (Suc 7) ?bs) = be_bytes 8 (unat v)"
    by (simp add: rev_be_bytes [symmetric])
  with False have neg: "sval (rev (take (Suc 7) ?bs)) < 0" by (simp only: sval_be_bytes)
  have "7 < length ?bs" by simp
  note start = int64_start_spec [OF this neg]
  then have out: "rev (take (Suc (int64_start ?bs 7)) ?bs) = int_octets (sint v)"
    by (simp only: int_octets_iff rev sval_be_bytes)
  have "length (int_octets (sint v)) \<le> 0xfffffffe"
    using length_int_octets_s64 [of v] by simp
  moreover have "int64_start ?bs 7 < length ?bs"
    using start by simp
  ultimately have "writer (\<lambda>c d. cbind (or_error d (cbind (CBB_add_asn1 c d tag) (\<lambda>_ c. add_bytes_down c (d + 1) ?bs (int64_start ?bs 7))))
      (\<lambda>_ c. CBB_flush c d)) (der_element tag (int_octets (sint v))) True"
    using writer_asn1_late_flush [OF bytes_down_writer, of "int64_start ?bs 7" ?bs tag] by (simp only: out simp_thms)
  with False show "writer (\<lambda>c d. CBB_add_asn1_int64_with_tag c d v tag) (der_element tag (int_octets (sint v))) True"
    by (simp only: CBB_add_asn1_int64_with_tag_def Let_def if_False)
qed

interpretation add_int64: writer "\<lambda>c d. CBB_add_asn1_int64 c d v"
    "der_element CBS_ASN1_INTEGER (int_octets (sint v))" True
  using add_int64_tag.writer_axioms by (simp add: CBB_add_asn1_int64_def)

end
