(* ===== verification/CbbBuild.thy ===== *)
theory CbbBuild
  imports CbbInt
begin

text \<open>
  Building with \<^verbatim>\<open>cbb.c\<close>: the operations that keep the memory invariant of a builder, the caller's buffer and a set
  error bit, and the life of a builder from its initialisation to the bytes that it hands out.
\<close>

section \<open>Openers, reservations and discards\<close>

text \<open>An operation that keeps the invariant, the environment and a set error bit.\<close>

definition guarded :: "(CBB \<Rightarrow> nat \<Rightarrow> (unit, CBB) cres) \<Rightarrow> bool" where
  "guarded op \<longleftrightarrow>
     (\<forall>c d r c'. op c d = (r, c') \<longrightarrow>
        (cbb_inv c \<longrightarrow> cbb_inv c' \<and> same_env (base c) (base c')) \<and>
        (error (base c) \<longrightarrow> error (base c')))"

lemma guardedI:
  assumes "\<And>c d r c'. op c d = (r, c') \<Longrightarrow> cbb_inv c \<Longrightarrow> cbb_inv c' \<and> same_env (base c) (base c')"
    and "\<And>c d r c'. op c d = (r, c') \<Longrightarrow> error (base c) \<Longrightarrow> error (base c')"
  shows "guarded op"
  using assms unfolding guarded_def by blast

lemma writer_guarded: "writer op out fits \<Longrightarrow> length out < size_max \<Longrightarrow> guarded op"
  by (rule guardedI) (blast dest: writer.safe writer.locked)+

lemma opener_guarded:
  assumes w: "writer hdr pre fits" and len: "length pre < size_max" and k: "asn1 \<longrightarrow> k = 1" "k < size_max"
  shows "guarded (\<lambda>c d. cbind (hdr c d) (\<lambda>_ c. cbb_add_child c d k asn1))"
proof (rule guardedI)
  fix c d r c'
  assume op: "cbind (hdr c d) (\<lambda>_ c. cbb_add_child c d k asn1) = (r, c')" and inv: "cbb_inv c"
  obtain r1 c1 where h: "hdr c d = (r1, c1)" by (cases "hdr c d")
  show "cbb_inv c' \<and> same_env (base c) (base c')"
  proof (cases r1)
    case None
    with op h writer.safe [OF w inv len h] show ?thesis by auto
  next
    case (Some u)
    from writer.writes [OF w inv len h [unfolded Some]] have d: "length (children c1) = d" and err: "\<not> error (base c1)"
      by auto
    have "cbb_add_child c1 (length (children c1)) k asn1 = (r, c')"
      using op h Some d by simp
    from add_child_spec [OF this _ err k] writer.safe [OF w inv len h] show ?thesis
      by (auto intro: same_env_trans)
  qed
next
  fix c d r c'
  assume "cbind (hdr c d) (\<lambda>_ c. cbb_add_child c d k asn1) = (r, c')" and "error (base c)"
  then show "error (base c')"
    using writer.locked [OF w, of c d] by (cases "hdr c d") auto
qed

lemma guarded_add_asn1: "guarded (\<lambda>c d. CBB_add_asn1 c d tag)"
proof -
  have "length (der_tag tag) < size_max"
    using length_der_tag [of tag] by simp
  from opener_guarded [OF writer_asn1_header this, of True 1] show ?thesis
    by (simp add: CBB_add_asn1_eq)
qed

lemma guarded_length_prefixed: "k < size_max \<Longrightarrow> guarded (\<lambda>c d. cbb_add_length_prefixed c d k)"
  using opener_guarded [OF writer_flush, of False k] by (simp add: cbb_add_length_prefixed_def)

lemma guarded_reserve: "guarded (\<lambda>c d. CBB_reserve c d n)"
proof (rule guardedI)
  fix c d r c'
  assume op: "CBB_reserve c d n = (r, c')" and inv: "cbb_inv c"
  obtain r1 c1 where h: "CBB_flush c d = (r1, c1)" by (cases "CBB_flush c d")
  obtain r2 b where res: "cbb_buffer_reserve (base c1) n = (r2, b)" by (cases "cbb_buffer_reserve (base c1) n")
  have spec: "buffer_inv (base c1) \<Longrightarrow> buffer_inv b \<and> same_env (base c1) b \<and> buf b = buf (base c1) \<and>
      (r2 \<noteq> None \<longrightarrow> error b = error (base c1)) \<and> (r2 = None \<longrightarrow> error b)"
    using reserve_inv [OF res] by (auto simp: same_env_def)
  from CBB_flush_spec [OF h inv] spec op h res show "cbb_inv c' \<and> same_env (base c) (base c')"
    by (cases r1; cases r2) (auto simp: CBB_reserve_def cbb_inv_def intro: same_env_trans)
next
  fix c d r c'
  assume "CBB_reserve c d n = (r, c')" and "error (base c)"
  then show "error (base c')"
    using CBB_flush_fails [of c d] by (auto simp: CBB_reserve_def)
qed

lemma guarded_did_write: "length new < size_max \<Longrightarrow> guarded (\<lambda>c d. CBB_did_write c d new)"
proof (rule guardedI)
  fix c d r c'
  assume len: "length new < size_max" and op: "CBB_did_write c d new = (r, c')" and inv: "cbb_inv c"
  let ?n = "length (buf (base c))"
  have n: "?n < size_max" and cap: "cap (base c) < size_max"
    using inv by (simp_all add: cbb_inv_def buffer_inv_def)
  have "\<not> size_add ?n (length new) < ?n \<Longrightarrow> size_add ?n (length new) = ?n + length new"
    using size_add_overflow [OF n len] by (simp add: not_le)
  with op inv cap show "cbb_inv c' \<and> same_env (base c) (base c')"
    by (auto simp: CBB_did_write_def cbb_inv_def buffer_inv_def same_env_def Let_def intro: chain_ok_mono
        split: if_splits)
next
  fix c d r c'
  assume "CBB_did_write c d new = (r, c')" and "error (base c)"
  then show "error (base c')"
    by (auto simp: CBB_did_write_def Let_def split: if_splits)
qed

lemma chain_ok_cut:
  "chain_ok s chs n \<Longrightarrow> d < length chs \<Longrightarrow> offset (chs ! d) \<le> n \<and> chain_ok s (take d chs) (offset (chs ! d))"
proof (induction s chs n arbitrary: d rule: chain_ok.induct)
  case (1 start n)
  then show ?case by simp
next
  case (2 start ch chs n)
  then show ?case
    by (cases d) (auto dest: chain_ok_le)
qed

lemma discard_inv: "cbb_inv c \<Longrightarrow> cbb_inv (CBB_discard_child c d) \<and> same_env (base c) (base (CBB_discard_child c d))"
  using chain_ok_cut [of 0 "children c" "length (buf (base c))" d]
  by (auto simp: CBB_discard_child_def cbb_inv_def buffer_inv_def same_env_def min_def)

lemma guardedD:
  "guarded op \<Longrightarrow> op c d = (r, c') \<Longrightarrow>
     (cbb_inv c \<longrightarrow> cbb_inv c' \<and> same_env (base c) (base c')) \<and> (error (base c) \<longrightarrow> error (base c'))"
  unfolding guarded_def by blast

lemma length_der_small: "length x < 2 ^ 32 \<Longrightarrow> length (der_element t x) < size_max"
  using length_der_tag [of t] length_der_length [of "length x"] by (simp add: der_element_def der_header_def)

lemma length_int_small: "length (der_element t (int_octets (uint v))) < size_max"
    "length (der_element t (int_octets (sint v))) < size_max" for v :: u64
  by (rule length_der_small, rule order_le_less_trans [OF length_int_octets_u64], simp)
    (rule length_der_small, rule order_le_less_trans [OF length_int_octets_s64], simp)

lemma discard_error: "error (base c) \<Longrightarrow> error (base (CBB_discard_child c d))"
  by (simp add: CBB_discard_child_def)

section \<open>Build programs\<close>

text \<open>
  The life of a builder: initialise, run one writer on the top-level object, finish and
  take the bytes.
\<close>

definition build :: "CBB option \<Rightarrow> (CBB \<Rightarrow> nat \<Rightarrow> (unit, CBB) cres) \<Rightarrow> bytes option" where
  "build c op =
     (case c of
        None \<Rightarrow> None
      | Some c \<Rightarrow> (case op c 0 of (None, c) \<Rightarrow> None | (Some _, c) \<Rightarrow> CBB_finish c 0 True))"

lemma cbb_init_inv: "n < size_max \<Longrightarrow> cbb_inv (cbb_init a n resize)"
  by (simp add: cbb_inv_def buffer_inv_def cbb_init_def)

lemma CBB_init_inv: "CBB_init a n = Some c \<Longrightarrow> n < size_max \<Longrightarrow> cbb_inv c"
  by (auto simp: CBB_init_def cbb_init_inv split: if_splits)

text \<open>Whatever the allocator does, a build that succeeds produced the bytes of the writer.\<close>

lemma build_writer:
  assumes "writer op out fits" and "length out < size_max" and "n < size_max"
    and "build (Some (cbb_init a n resize)) op = Some w"
  shows "w = out"
proof -
  let ?c = "cbb_init a n resize"
  obtain u c1 where op: "op ?c 0 = (Some u, c1)" and fin: "CBB_finish c1 0 True = Some w"
    using assms(4) by (auto simp: build_def split: prod.splits option.splits)
  have inv: "cbb_inv ?c" by (rule cbb_init_inv) (rule assms)
  from writer.writes [OF assms(1) inv assms(2) op] have "buf (base c1) = out" and ch: "children c1 = []"
    by (auto simp: pending_def cbb_init_def)
  moreover obtain v c2 where fl: "CBB_flush c1 0 = (Some v, c2)" and "w = buf (base c2)"
    using fin by (auto simp: CBB_finish_def split: prod.splits option.splits if_splits)
  moreover have "cbb_inv c1" using writer.safe [OF assms(1) inv assms(2) op] by simp
  ultimately show ?thesis
    using CBB_flush_spec [OF fl] by (simp add: pending_def)
qed

text \<open>A growing builder whose allocations succeed produces them.\<close>

lemma build_total:
  assumes "writer op out fits" and "length out < size_max" and "n < size_max" and fits
  shows "build (CBB_init (\<lambda>_. True) n) op = Some out"
proof -
  let ?c = "cbb_init (\<lambda>_. True) n True"
  have inv: "cbb_inv ?c" by (rule cbb_init_inv) (rule assms)
  have room: "roomy (base ?c)" using inv by (simp add: roomy_def cbb_inv_def cbb_init_def)
  have pend: "pending ?c 0 = Some []" by (simp add: pending_def cbb_init_def)
  obtain c1 where op: "op ?c 0 = (Some (), c1)" "cbb_inv c1" "roomy (base c1)" and pend1: "pending c1 0 = Some out"
    using writer.appends [OF assms(1) inv room _ pend] assms(2,4) by auto
  have "fst (CBB_flush c1 0) = Some ()"
    by (rule CBB_flush_total [OF op(2,3) _ pend1 assms(2)]) simp
  then obtain c2 where fl: "CBB_flush c1 0 = (Some (), c2)" by (cases "CBB_flush c1 0") auto
  with CBB_flush_spec [OF fl op(2)] pend1 have "CBB_finish c1 0 True = Some out"
    by (simp add: CBB_finish_def)
  with op(1) show ?thesis by (simp add: build_def CBB_init_def)
qed

text \<open>A SEQUENCE of an integer and an octet string, written through nested children.\<close>

definition sequence_writer :: "u64 \<Rightarrow> bytes \<Rightarrow> CBS_ASN1_TAG \<Rightarrow> CBB \<Rightarrow> nat \<Rightarrow> (unit, CBB) cres" where
  "sequence_writer v data tag c d =
     cbind (CBB_add_asn1 c d tag) (\<lambda>_ c.
       cbind (cbind (CBB_add_asn1_int64 c (d + 1) v) (\<lambda>_ c. CBB_add_asn1_octet_string c (d + 1) data)) (\<lambda>_ c.
         CBB_flush c d))"

definition sequence_body :: "u64 \<Rightarrow> bytes \<Rightarrow> bytes" where
  "sequence_body v data =
     der_element CBS_ASN1_INTEGER (int_octets (sint v)) @ der_element CBS_ASN1_OCTETSTRING data"

lemma length_sequence_body: "length data < 2 ^ 31 \<Longrightarrow> length (sequence_body v data) \<le> 0xfffffffe"
  using length_int_octets_s64 [of v] length_der_tag [of CBS_ASN1_INTEGER] length_der_tag [of CBS_ASN1_OCTETSTRING]
    length_der_length [of "length (int_octets (sint v))"] length_der_length [of "length data"]
  by (simp add: sequence_body_def der_element_def der_header_def)

lemma writer_sequence:
  assumes "length data < 2 ^ 31"
  shows "writer (sequence_writer v data tag) (der_element tag (sequence_body v data)) True"
proof -
  have eq: "sequence_writer v data tag = (\<lambda>c d. cbind (CBB_add_asn1 c d tag) (\<lambda>_ c.
       cbind (cbind (CBB_add_asn1_int64 c (d + 1) v) (\<lambda>_ c. CBB_add_asn1_octet_string c (d + 1) data)) (\<lambda>_ c.
         CBB_flush c d)))"
    by (intro ext) (simp only: sequence_writer_def)
  have "writer (sequence_writer v data tag) (der_element tag (sequence_body v data))
      ((True \<and> length data \<le> 0xfffffffe) \<and> length (sequence_body v data) \<le> 0xfffffffe)"
    using writer_asn1_value [OF writer_seq [OF add_int64.writer_axioms octet_string.writer_axioms], of tag v data]
    by (simp only: eq sequence_body_def)
  then show ?thesis
    by (rule writer_cong) (use length_sequence_body [OF assms, of v] assms in simp_all)
qed

lemma length_sequence: "length data < 2 ^ 31 \<Longrightarrow> length (der_element tag (sequence_body v data)) < size_max"
  using length_sequence_body [of data v] by (intro length_der_small) simp

section \<open>Integers\<close>

text \<open>
  signed integers round trip: what the builder writes for an \<open>int64_t\<close>, under any tag
  the reader asks for, the reader returns, and it stops right behind it.
\<close>

theorem int64_roundtrip:
  assumes "n < size_max"
  shows "\<exists>w. build (CBB_init (\<lambda>_. True) n) (\<lambda>c d. CBB_add_asn1_int64 c d v) = Some w \<and>
    CBS_get_asn1_int64 (w @ rest) = (Some v, rest)"
proof -
  have "length (der_element CBS_ASN1_INTEGER (int_octets (sint v))) < size_max"
    by (rule length_int_small)
  from build_total [OF add_int64.writer_axioms this assms TrueI] show ?thesis
    using int64.get_put [of v rest] by simp
qed

theorem int64_roundtrip_witness:
  "\<exists>w. build (CBB_init (\<lambda>_. True) 0) (\<lambda>c d. CBB_add_asn1_int64 c d (- 129)) = Some w \<and>
    CBS_get_asn1_int64 (w @ [0xaa]) = (Some (- 129), [0xaa])"
  by (rule int64_roundtrip) simp

text \<open>
  unsigned integers round trip in the same way.
\<close>

theorem uint64_roundtrip:
  assumes "n < size_max"
  shows "\<exists>w. build (CBB_init (\<lambda>_. True) n) (\<lambda>c d. CBB_add_asn1_uint64 c d v) = Some w \<and>
    CBS_get_asn1_uint64 (w @ rest) = (Some v, rest)"
proof -
  have "length (der_element CBS_ASN1_INTEGER (int_octets (uint v))) < size_max"
    by (rule length_int_small)
  from build_total [OF add_uint64.writer_axioms this assms TrueI] show ?thesis
    using uint64.get_put [of v rest] by simp
qed

theorem uint64_roundtrip_witness:
  "\<exists>w. build (CBB_init (\<lambda>_. True) 0) (\<lambda>c d. CBB_add_asn1_uint64 c d 0x80) = Some w \<and>
    CBS_get_asn1_uint64 (w @ [0xaa]) = (Some 0x80, [0xaa])"
  by (rule uint64_roundtrip) simp

end
