(* ===== verification/Asn1String.thy ===== *)
theory Asn1String
  imports Der
begin

text \<open>
  \<open>crypto/asn1/asn1_lib.c\<close>: the \<open>ASN1_STRING\<close> object that all primitive types of the legacy ASN.1 module
  share, and the element headers \<open>ASN1_get_object\<close> and \<open>ASN1_put_object\<close>. The allocator is the
  parameter \<open>malloc\<close>: it refuses a size or returns a block of that size with some contents.
  The block behind \<open>data\<close> is kept whole, so that reuse and growth of it are visible.
\<close>

section \<open>Strings\<close>

definition V_ASN1_NEG :: int where "V_ASN1_NEG = 0x100"
definition V_ASN1_INTEGER :: int where "V_ASN1_INTEGER = 2"
definition V_ASN1_BIT_STRING :: int where "V_ASN1_BIT_STRING = 3"
definition V_ASN1_OCTET_STRING :: int where "V_ASN1_OCTET_STRING = 4"
definition V_ASN1_ENUMERATED :: int where "V_ASN1_ENUMERATED = 10"
definition V_ASN1_UTCTIME :: int where "V_ASN1_UTCTIME = 23"
definition V_ASN1_GENERALIZEDTIME :: int where "V_ASN1_GENERALIZEDTIME = 24"
definition V_ASN1_NEG_INTEGER :: int where "V_ASN1_NEG_INTEGER = V_ASN1_INTEGER OR V_ASN1_NEG"
definition V_ASN1_NEG_ENUMERATED :: int where "V_ASN1_NEG_ENUMERATED = V_ASN1_ENUMERATED OR V_ASN1_NEG"

lemmas asn1_types = V_ASN1_NEG_def V_ASN1_INTEGER_def V_ASN1_BIT_STRING_def V_ASN1_OCTET_STRING_def
  V_ASN1_ENUMERATED_def V_ASN1_UTCTIME_def V_ASN1_GENERALIZEDTIME_def V_ASN1_NEG_INTEGER_def V_ASN1_NEG_ENUMERATED_def

record ASN1_STRING =
  as_length :: nat
  as_type :: int
  as_data :: "bytes option"
  as_flags :: u64

type_synonym allocator = "nat \<Rightarrow> bytes option"

definition OPENSSL_realloc :: "allocator \<Rightarrow> bytes option \<Rightarrow> nat \<Rightarrow> bytes option" where
  "OPENSSL_realloc malloc orig new_size =
     (case orig of
        None \<Rightarrow> malloc new_size
      | Some old \<Rightarrow>
          (case malloc new_size of
             None \<Rightarrow> None
           | Some ret \<Rightarrow>
               let to_copy = (if length old < new_size then length old else new_size)
               in Some (copy_at ret 0 (take to_copy old))))"

definition ASN1_STRING_MAX :: nat where
  "ASN1_STRING_MAX = 64 * 1024 * 1024"

definition ASN1_STRING_type_new :: "int \<Rightarrow> ASN1_STRING" where
  "ASN1_STRING_type_new type = \<lparr>as_length = 0, as_type = type, as_data = None, as_flags = 0\<rparr>"

definition ASN1_STRING_new :: ASN1_STRING where
  "ASN1_STRING_new = ASN1_STRING_type_new V_ASN1_OCTET_STRING"

definition c_strlen :: "bytes \<Rightarrow> nat" where
  "c_strlen d = length (takeWhile (\<lambda>c. c \<noteq> 0) d)"

definition ASN1_STRING_set :: "allocator \<Rightarrow> ASN1_STRING \<Rightarrow> bytes option \<Rightarrow> int \<Rightarrow> (unit, ASN1_STRING) cres" where
  "ASN1_STRING_set malloc str data len_s =
     (case (if len_s < 0 then map_option c_strlen data else Some (nat len_s)) of
        None \<Rightarrow> (None, str)
      | Some n \<Rightarrow>
          if n > ASN1_STRING_MAX then (None, str)
          else
            (case (if as_length str \<le> n \<or> as_data str = None
                   then OPENSSL_realloc malloc (as_data str) (n + 1) else as_data str) of
               None \<Rightarrow> (None, str)
             | Some buf \<Rightarrow>
                 (Some (), str\<lparr>as_length := n,
                     as_data := Some (case data of None \<Rightarrow> buf | Some d \<Rightarrow> copy_at buf 0 (take n d @ [0]))\<rparr>)))"

definition ASN1_STRING_set0 :: "ASN1_STRING \<Rightarrow> bytes option \<Rightarrow> nat \<Rightarrow> ASN1_STRING" where
  "ASN1_STRING_set0 str data n = str\<lparr>as_data := data, as_length := n\<rparr>"

definition ASN1_STRING_copy :: "allocator \<Rightarrow> ASN1_STRING \<Rightarrow> ASN1_STRING option \<Rightarrow> (unit, ASN1_STRING) cres" where
  "ASN1_STRING_copy malloc dst str =
     (case str of
        None \<Rightarrow> (None, dst)
      | Some str \<Rightarrow>
          cbind (ASN1_STRING_set malloc dst (as_data str) (int (as_length str))) (\<lambda>_ dst.
            (Some (), dst\<lparr>as_type := as_type str, as_flags := as_flags str\<rparr>)))"

text \<open>\<open>new_ok\<close> says whether the allocation of the struct succeeds.\<close>

definition ASN1_STRING_dup :: "allocator \<Rightarrow> bool \<Rightarrow> ASN1_STRING option \<Rightarrow> ASN1_STRING option" where
  "ASN1_STRING_dup malloc new_ok str =
     (case str of
        None \<Rightarrow> None
      | Some str \<Rightarrow>
          if \<not> new_ok then None
          else case ASN1_STRING_copy malloc ASN1_STRING_new (Some str) of
                 (None, _) \<Rightarrow> None
               | (Some _, ret) \<Rightarrow> Some ret)"

section \<open>Bit strings and comparison\<close>

definition ASN1_STRING_FLAG_BITS_LEFT :: u64 where "ASN1_STRING_FLAG_BITS_LEFT = 0x08"

fun trim_zeros :: "bytes \<Rightarrow> nat \<Rightarrow> nat" where
  "trim_zeros d 0 = 0"
| "trim_zeros d (Suc n) = (if d ! n = 0 then trim_zeros d n else Suc n)"

fun padding_loop :: "u8 \<Rightarrow> nat \<Rightarrow> nat \<Rightarrow> nat" where
  "padding_loop b 0 padding_bits = padding_bits"
| "padding_loop b (Suc n) padding_bits =
     (if b AND push_bit padding_bits 1 \<noteq> 0 then padding_bits else padding_loop b n (padding_bits + 1))"

text \<open>The length and the padding bits; the loop of the second runs at most 7 times.\<close>

definition asn1_bit_string_length :: "ASN1_STRING \<Rightarrow> nat \<times> nat" where
  "asn1_bit_string_length str =
     (let n = as_length str
      in if as_flags str AND ASN1_STRING_FLAG_BITS_LEFT \<noteq> 0
         then (n, if n = 0 then 0 else unat (as_flags str AND 0x07))
         else
           let d = (case as_data str of None \<Rightarrow> [] | Some d \<Rightarrow> d);
               n = trim_zeros d n
           in (n, if n > 0 then padding_loop (d ! (n - 1)) 7 0 else 0))"

text \<open>\<open>memcmp\<close> of the C library; only the sign of its result is specified.\<close>

fun memcmp_sign :: "bytes \<Rightarrow> bytes \<Rightarrow> nat \<Rightarrow> int" where
  "memcmp_sign (a # as) (b # bs) (Suc n) =
     (if a < b then -1 else if a > b then 1 else memcmp_sign as bs n)"
| "memcmp_sign _ _ _ = 0"

definition ASN1_STRING_cmp :: "ASN1_STRING \<Rightarrow> ASN1_STRING \<Rightarrow> int" where
  "ASN1_STRING_cmp a b =
     (let (a_length, a_padding) =
            (if as_type a = V_ASN1_BIT_STRING then asn1_bit_string_length a else (as_length a, 0));
          (b_length, b_padding) =
            (if as_type b = V_ASN1_BIT_STRING then asn1_bit_string_length b else (as_length b, 0))
      in if a_length < b_length then -1
         else if a_length > b_length then 1
         else if a_padding > b_padding then -1
         else if a_padding < b_padding then 1
         else
           let ret = memcmp_sign (case as_data a of None \<Rightarrow> [] | Some d \<Rightarrow> d)
                       (case as_data b of None \<Rightarrow> [] | Some d \<Rightarrow> d) a_length
           in if ret \<noteq> 0 then ret
              else if as_type a < as_type b then -1
              else if as_type a > as_type b then 1
              else 0)"

section \<open>Element headers\<close>

definition V_ASN1_CONSTRUCTED :: int where "V_ASN1_CONSTRUCTED = 0x20"
definition V_ASN1_PRIMITIVE_TAG :: int where "V_ASN1_PRIMITIVE_TAG = 0x1f"
definition V_ASN1_PRIVATE :: int where "V_ASN1_PRIVATE = 0xc0"
definition V_ASN1_UNIVERSAL :: int where "V_ASN1_UNIVERSAL = 0"
definition V_ASN1_MAX_UNIVERSAL :: int where "V_ASN1_MAX_UNIVERSAL = 0xff"

lemmas asn1_header_consts = V_ASN1_CONSTRUCTED_def V_ASN1_PRIMITIVE_TAG_def V_ASN1_PRIVATE_def
  V_ASN1_UNIVERSAL_def V_ASN1_MAX_UNIVERSAL_def

definition CBS_ASN1_CLASS_MASK :: CBS_ASN1_TAG where
  "CBS_ASN1_CLASS_MASK = push_bit CBS_ASN1_TAG_SHIFT 0xc0"

text \<open>
  The result is \<open>None\<close> for \<open>0x80\<close>, otherwise the value returned, \<open>*out_len\<close>, \<open>*out_tag\<close>, \<open>*out_class\<close> and
  the input from the new \<open>*inp\<close> on.
\<close>

definition ASN1_get_object :: "bytes \<Rightarrow> int \<Rightarrow> (int \<times> nat \<times> int \<times> int \<times> bytes) option" where
  "ASN1_get_object inp in_len =
     (if in_len < 0 then None
      else case CBS_get_any_asn1 (take (nat in_len) inp) of
             (None, _) \<Rightarrow> None
           | (Some (body, tag), rest) \<Rightarrow>
               if length body > (2 ^ 31 - 1) div 2 then None
               else
                 let tag_class = uint (drop_bit CBS_ASN1_TAG_SHIFT (tag AND CBS_ASN1_CLASS_MASK));
                     constructed = uint (drop_bit CBS_ASN1_TAG_SHIFT (tag AND CBS_ASN1_CONSTRUCTED));
                     tag_number = uint (tag AND CBS_ASN1_TAG_NUMBER_MASK)
                 in if tag_class = V_ASN1_UNIVERSAL \<and> tag_number > V_ASN1_MAX_UNIVERSAL then None
                    else Some (constructed, length body, tag_number, tag_class,
                               drop (nat in_len - length rest - length body) inp))"

text \<open>The loops that count the digits of a number to the bases 128 and 256.\<close>

function septet_count :: "int \<Rightarrow> nat" where
  "septet_count t = (if t > 0 then Suc (septet_count (drop_bit 7 t)) else 0)"
  by pat_completeness auto
termination by (relation "measure nat") (simp_all add: drop_bit_eq_div nat_mono_iff)

function octet_count :: "int \<Rightarrow> nat" where
  "octet_count l = (if l > 0 then Suc (octet_count (drop_bit 8 l)) else 0)"
  by pat_completeness auto
termination by (relation "measure nat") (simp_all add: drop_bit_eq_div nat_mono_iff)

declare septet_count.simps [simp del] octet_count.simps [simp del]

text \<open>The loops that store these digits downwards, \<open>n\<close> the number of all septets.\<close>

fun put_septets :: "nat \<Rightarrow> nat \<Rightarrow> int \<Rightarrow> bytes" where
  "put_septets n 0 tag = []"
| "put_septets n (Suc i) tag =
     put_septets n i (drop_bit 7 tag) @
       [(if i \<noteq> n - 1 then of_int (tag AND 0x7f) OR 0x80 else of_int (tag AND 0x7f))]"

fun put_octets :: "nat \<Rightarrow> int \<Rightarrow> bytes" where
  "put_octets 0 l = []"
| "put_octets (Suc i) l = put_octets i (drop_bit 8 l) @ [of_int (l AND 0xff)]"

definition asn1_put_length :: "int \<Rightarrow> bytes" where
  "asn1_put_length l =
     (if l \<le> 127 then [of_int l]
      else let i = octet_count l in (of_nat i OR 0x80) # put_octets i l)"

text \<open>The bytes written at \<open>*pp\<close>, by whose number it moves.\<close>

definition ASN1_put_object :: "int \<Rightarrow> int \<Rightarrow> int \<Rightarrow> int \<Rightarrow> bytes" where
  "ASN1_put_object constructed l tag xclass =
     (let i = (if constructed \<noteq> 0 then V_ASN1_CONSTRUCTED else 0) OR (xclass AND V_ASN1_PRIVATE);
          identifier =
            (if tag < 31 then [of_int (i OR (tag AND V_ASN1_PRIMITIVE_TAG))]
             else of_int (i OR V_ASN1_PRIMITIVE_TAG) # put_septets (septet_count tag) (septet_count tag) tag)
      in identifier @ (if constructed = 2 then [0x80] else asn1_put_length l))"

definition ASN1_put_eoc :: bytes where
  "ASN1_put_eoc = [0, 0]"

definition ASN1_object_size :: "int \<Rightarrow> int \<Rightarrow> int \<Rightarrow> int" where
  "ASN1_object_size constructed l tag =
     (if l < 0 then -1
      else
        let ret = 1;
            ret = (if tag \<ge> 31 then ret + int (septet_count tag) else ret);
            ret = (if constructed = 2 then ret + 3
                   else if l > 127 then ret + 1 + int (octet_count l)
                   else ret + 1)
        in if ret \<ge> (2 ^ 31 - 1) - l then -1 else ret + l)"

section \<open>Headers are DER headers\<close>

lemma byte_flag: "d < 128 \<Longrightarrow> of_nat d OR 0x80 = (0x80 + of_nat d :: u8)"
proof -
  assume "d < 128"
  then have "(of_nat d :: u8) AND 0x80 = 0" by (simp add: and_0x80_eq_0_iff unat_of_nat)
  then show ?thesis by (simp only: disjunctive_add_eq_or add.commute)
qed

lemma and_septet: "0 \<le> t \<Longrightarrow> (of_int (t AND 0x7f) :: u8) = of_nat (nat t mod 128)" for t :: int
proof -
  assume "0 \<le> t"
  then have "t AND 0x7f = int (nat t mod 128)"
    using take_bit_eq_mask [of 7 t] by (simp add: mask_eq_exp_minus_1 take_bit_eq_mod zmod_int)
  then show ?thesis by simp
qed

lemma and_octet: "0 \<le> t \<Longrightarrow> (of_int (t AND 0xff) :: u8) = of_nat (nat t)" for t :: int
proof -
  assume "0 \<le> t"
  then have t: "t AND 0xff = int (nat t mod 256)"
    using take_bit_eq_mask [of 8 t] by (simp add: mask_eq_exp_minus_1 take_bit_eq_mod zmod_int)
  show ?thesis unfolding t by (simp add: word_unat_eq_iff unat_of_nat)
qed

lemma nat_drop: "nat (drop_bit n t) = nat t div 2 ^ n" for t :: int
  by (cases "0 \<le> t") (simp_all add: drop_bit_eq_div nat_div_distrib nat_power_eq div_nonpos_pos_le0)

lemma septet_count_pos: "0 < t \<Longrightarrow> septet_count t = Suc (septet_count (drop_bit 7 t))"
  by (subst septet_count.simps) simp

lemma octet_count_pos: "0 < t \<Longrightarrow> octet_count t = Suc (octet_count (drop_bit 8 t))"
  by (subst octet_count.simps) simp

lemma put_septets_high:
  "0 \<le> t \<Longrightarrow> septet_count t < n \<Longrightarrow> put_septets n (septet_count t) t = base128_high (nat t)"
proof (induction t rule: septet_count.induct)
  case (1 t)
  show ?case
  proof (cases "t > 0")
    case True
    have "n - 1 \<noteq> septet_count (drop_bit 7 t)" using 1(3) septet_count_pos [OF True] by simp
    then show ?thesis
      using 1 True
      by (simp add: septet_count_pos base128_high_pos and_septet byte_flag nat_drop)
  next
    case False
    with 1 show ?thesis by (simp add: septet_count.simps)
  qed
qed

lemma put_septets_base128: "0 < t \<Longrightarrow> put_septets (septet_count t) (septet_count t) t = base128 (nat t)"
  by (simp add: septet_count_pos put_septets_high base128_def and_septet nat_drop)

lemma septet_count_length: "0 \<le> t \<Longrightarrow> septet_count t = length (base128_high (nat t))"
proof (induction t rule: septet_count.induct)
  case (1 t)
  then show ?case
    by (cases "t > 0") (simp_all add: septet_count_pos base128_high_pos nat_drop septet_count.simps [of 0])
qed

lemma octet_count_le: "l < 256 ^ k \<Longrightarrow> octet_count l \<le> k"
proof (induction k arbitrary: l)
  case 0
  then show ?case by (simp add: octet_count.simps)
next
  case (Suc k)
  then have "drop_bit 8 l < 256 ^ k" by (simp add: drop_bit_eq_div)
  with Suc.IH show ?case by (cases "l > 0") (simp_all add: octet_count_pos octet_count.simps [of l])
qed

lemma octet_count_ge: "256 ^ k \<le> l \<Longrightarrow> k < octet_count l"
proof (induction k arbitrary: l)
  case 0
  then show ?case by (simp add: octet_count_pos)
next
  case (Suc k)
  have "(0 :: int) < 256 ^ Suc k" by (rule zero_less_power) simp
  then have "l > 0" using Suc.prems by linarith
  moreover have "256 ^ k \<le> drop_bit 8 l" using Suc.prems by (simp add: drop_bit_eq_div)
  ultimately show ?case using Suc.IH by (simp add: octet_count_pos)
qed

lemma put_octets_be: "0 \<le> l \<Longrightarrow> put_octets k l = be_bytes k (nat l)"
  by (induction k arbitrary: l) (simp_all add: and_octet nat_drop)

lemma put_length_der:
  assumes "0 \<le> l" "l < 2 ^ 32"
  shows "asn1_put_length l = der_length (nat l)"
proof (cases "l \<le> 127")
  case True
  then have "nat l < 128" by linarith
  then show ?thesis using True assms by (simp add: asn1_put_length_def der_length_def)
next
  case False
  define k where "k = length_octets (nat l)"
  have n: "nat l < 256 ^ k" "256 ^ (k - 1) \<le> nat l"
    using length_octets_bounds [of "nat l"] assms False by (simp_all add: k_def nat_less_iff)
  have k: "1 \<le> k" "k \<le> 4" using length_octets_le by (simp_all add: k_def length_octets_def)
  have "l < 256 ^ k" "256 ^ (k - 1) \<le> l"
    using n assms by (simp_all add: nat_less_iff le_nat_iff)
  then have "octet_count l = k"
    using octet_count_le [of l k] octet_count_ge [of "k - 1" l] k by simp
  then show ?thesis
    using False assms k byte_flag [of k] nat_less_iff [of l 128]
    by (simp add: asn1_put_length_def der_length_def k_def [symmetric] put_octets_be)
qed

text \<open>The tag of the parser for the class, the constructed bit and the number.\<close>

definition object_tag :: "int \<Rightarrow> int \<Rightarrow> int \<Rightarrow> CBS_ASN1_TAG" where
  "object_tag constructed xclass tag =
     push_bit 24 ((if constructed \<noteq> 0 then 0x20 else 0) OR of_int xclass) OR of_int tag"

lemma tag_pack:
  fixes k w m :: u32
  assumes "unat w < 2 ^ 29" "k AND 0x1f = 0" "unat k < 2 ^ 8"
  shows "(push_bit 24 k OR w) AND mask 29 = w"
    "ucast (drop_bit 24 (push_bit 24 k OR w)) AND 0xe0 = (ucast k :: u8)"
    "m AND 0x1f = 0 \<Longrightarrow> unat m < 2 ^ 8 \<Longrightarrow> drop_bit 24 ((push_bit 24 k OR w) AND push_bit 24 m) = k AND m"
proof -
  have high: "bit x n \<Longrightarrow> 5 \<le> n" if "x AND 0x1f = 0" for x :: u32 and n
    using that bit_imp_le_length [of x n] by (auto simp: bit_eq_iff bit_simps mask_0x1f not_less [symmetric])
  note low = bit_lt_power [OF assms(1)] bit_lt_power [OF assms(3)]
  show "(push_bit 24 k OR w) AND mask 29 = w"
    by (rule bit_word_eqI) (auto simp: bit_simps dest: low high [OF assms(2)])
  show "ucast (drop_bit 24 (push_bit 24 k OR w)) AND 0xe0 = (ucast k :: u8)"
    by (rule bit_word_eqI) (auto simp: bit_simps mask_0xe0 dest: low high [OF assms(2)])
  show "drop_bit 24 ((push_bit 24 k OR w) AND push_bit 24 m) = k AND m"
    if "m AND 0x1f = 0" "unat m < 2 ^ 8"
  proof (rule bit_word_eqI)
    fix n
    have "\<not> bit w (24 + n)" if "bit m n" using low(1) [of "24 + n"] high [OF \<open>m AND 0x1f = 0\<close> that] by auto
    then show "bit (drop_bit 24 ((push_bit 24 k OR w) AND push_bit 24 m)) n \<longleftrightarrow> bit (k AND m) n"
      using low(2) [of n] by (auto simp: bit_simps)
  qed
qed

definition class_ok :: "int \<Rightarrow> bool" where
  "class_ok xclass \<longleftrightarrow> xclass \<in> {0, 0x40, 0x80, 0xc0}"

lemma class_bits:
  fixes constructed xclass :: int
  assumes "class_ok xclass"
  defines "k \<equiv> (if constructed \<noteq> 0 then 0x20 else 0) OR of_int xclass :: u32"
  shows "k AND 0x1f = 0" "unat k < 2 ^ 8" "uint (k AND 0xc0) = xclass"
    "uint (k AND 0x20) = (if constructed \<noteq> 0 then 0x20 else 0)"
    "(ucast k :: u8) = of_int ((if constructed \<noteq> 0 then V_ASN1_CONSTRUCTED else 0) OR (xclass AND V_ASN1_PRIVATE))"
    "xclass \<noteq> 0 \<Longrightarrow> k AND NOT 0x20 \<noteq> 0"
  using assms(1) unfolding class_ok_def k_def
  by (auto simp: asn1_header_consts)

lemma unat_object_tag: "0 \<le> tag \<Longrightarrow> tag < 2 ^ 29 \<Longrightarrow> unat (of_int tag :: u32) = nat tag"
proof -
  assume t: "0 \<le> tag" "tag < 2 ^ 29"
  then have "nat tag < 2 ^ LENGTH(32)" by (simp add: nat_less_iff)
  then have "unat (of_nat (nat tag) :: u32) = nat tag" by (simp only: unat_of_nat mod_less)
  then show ?thesis using t by simp
qed

lemma of_int_or: "(of_int (a OR b) :: u8) = of_int a OR of_int b"
  by (rule bit_word_eqI) (simp add: bit_simps)

lemma put_object_der:
  assumes "constructed \<noteq> 2" "class_ok xclass" "0 \<le> tag" "tag < 2 ^ 29" "0 \<le> l" "l < 2 ^ 32"
  shows "ASN1_put_object constructed l tag xclass = der_header (object_tag constructed xclass tag) (nat l)"
proof -
  let ?k = "(if constructed \<noteq> 0 then 0x20 else 0) OR of_int xclass :: u32"
  note k = class_bits [OF assms(2), of constructed]
  have w: "unat (of_int tag :: u32) < 2 ^ 29" using unat_object_tag [OF assms(3,4)] assms(3,4) by (simp add: nat_less_iff)
  note pack = tag_pack(1,2) [OF w k(1,2)]
  have low: "ucast (of_int tag :: u32) = (of_int tag :: u8)"
    by (rule bit_word_eqI) (simp add: bit_simps)
  have "(tag AND V_ASN1_PRIMITIVE_TAG) = tag" if "tag < 31"
  proof -
    have "tag AND 0x1f = tag mod 32" using take_bit_eq_mask [of 5 tag] by (simp add: mask_eq_exp_minus_1 take_bit_eq_mod)
    then show ?thesis using that assms(3) by (simp add: asn1_header_consts)
  qed
  then have "der_tag (object_tag constructed xclass tag) =
      (if tag < 31 then [of_int (((if constructed \<noteq> 0 then V_ASN1_CONSTRUCTED else 0) OR (xclass AND V_ASN1_PRIVATE)) OR
           (tag AND V_ASN1_PRIMITIVE_TAG))]
       else of_int (((if constructed \<noteq> 0 then V_ASN1_CONSTRUCTED else 0) OR (xclass AND V_ASN1_PRIVATE)) OR
           V_ASN1_PRIMITIVE_TAG) # put_septets (septet_count tag) (septet_count tag) tag)"
    unfolding der_tag_def object_tag_def Let_def pack k(5) low unat_object_tag [OF assms(3,4)]
    using assms(3) put_septets_base128 [of tag]
    by (auto simp: of_int_or le_nat_iff V_ASN1_PRIMITIVE_TAG_def simp del: of_int_and_eq)
  then show ?thesis
    using assms(1) put_length_der [OF assms(5,6)] by (simp add: ASN1_put_object_def der_header_def Let_def)
qed

lemma object_tag_parts:
  fixes constructed xclass tag :: int
  assumes "class_ok xclass" "0 \<le> tag" "tag < 2 ^ 29"
  defines "t \<equiv> object_tag constructed xclass tag"
  shows "uint (drop_bit CBS_ASN1_TAG_SHIFT (t AND CBS_ASN1_CLASS_MASK)) = xclass"
    "uint (drop_bit CBS_ASN1_TAG_SHIFT (t AND CBS_ASN1_CONSTRUCTED)) = (if constructed \<noteq> 0 then 0x20 else 0)"
    "uint (t AND CBS_ASN1_TAG_NUMBER_MASK) = tag"
    "xclass \<noteq> 0 \<or> tag \<noteq> 0 \<Longrightarrow> valid_tag t"
proof -
  let ?k = "(if constructed \<noteq> 0 then 0x20 else 0) OR of_int xclass :: u32"
  note k = class_bits [OF assms(1), of constructed]
  have w: "unat (of_int tag :: u32) < 2 ^ 29" using unat_object_tag [OF assms(2,3)] assms(2,3) by (simp add: nat_less_iff)
  have t: "t = push_bit 24 ?k OR of_int tag" by (simp add: t_def object_tag_def)
  show c: "uint (drop_bit CBS_ASN1_TAG_SHIFT (t AND CBS_ASN1_CLASS_MASK)) = xclass"
    unfolding t CBS_ASN1_TAG_SHIFT_def CBS_ASN1_CLASS_MASK_def
    using tag_pack(3) [OF w k(1,2), of "0xc0"] k(3) by simp
  show "uint (drop_bit CBS_ASN1_TAG_SHIFT (t AND CBS_ASN1_CONSTRUCTED)) = (if constructed \<noteq> 0 then 0x20 else 0)"
    unfolding t CBS_ASN1_TAG_SHIFT_def CBS_ASN1_CONSTRUCTED_def
    using tag_pack(3) [OF w k(1,2), of "0x20"] k(4) by simp
  show n: "uint (t AND CBS_ASN1_TAG_NUMBER_MASK) = tag"
    unfolding t tag_number_mask tag_pack(1) [OF w k(1,2)]
    using unat_object_tag [OF assms(2,3)] assms(2) by (metis int_nat_eq uint_nat)
  show "valid_tag t" if "xclass \<noteq> 0 \<or> tag \<noteq> 0"
  proof (rule ccontr)
    assume "\<not> valid_tag t"
    then have z: "t AND NOT CBS_ASN1_CONSTRUCTED = 0" by (simp add: valid_tag_def)
    have sub: "CBS_ASN1_CLASS_MASK = NOT CBS_ASN1_CONSTRUCTED AND CBS_ASN1_CLASS_MASK"
      "CBS_ASN1_TAG_NUMBER_MASK = NOT CBS_ASN1_CONSTRUCTED AND CBS_ASN1_TAG_NUMBER_MASK"
      by (simp_all add: CBS_ASN1_CONSTRUCTED_def CBS_ASN1_CLASS_MASK_def CBS_ASN1_TAG_SHIFT_def CBS_ASN1_TAG_NUMBER_MASK_def)
    have "t AND CBS_ASN1_CLASS_MASK = 0" "t AND CBS_ASN1_TAG_NUMBER_MASK = 0"
      by (subst sub, simp only: and.assoc [symmetric] z, simp)+
    then show False using c n that by simp
  qed
qed

lemma size_header:
  assumes "constructed \<noteq> 2" "class_ok xclass" "0 \<le> tag" "tag < 2 ^ 29" "0 \<le> l" "l \<le> (2 ^ 31 - 1) div 2"
  shows "ASN1_object_size constructed l tag = int (length (ASN1_put_object constructed l tag xclass)) + l"
proof -
  have l: "asn1_put_length l = der_length (nat l)" using assms(5,6) by (intro put_length_der) simp_all
  have ident: "int (length (ASN1_put_object constructed l tag xclass)) =
      1 + (if tag \<ge> 31 then int (septet_count tag) else 0) + int (length (asn1_put_length l))"
  proof -
    have "length (put_septets n i t) = i" for n i t by (induction i arbitrary: t) simp_all
    then show ?thesis using assms(1) by (simp add: ASN1_put_object_def Let_def)
  qed
  have short: "length (asn1_put_length l) \<le> 5" unfolding l by (rule length_der_length)
  have count: "int (length (asn1_put_length l)) = (if l > 127 then 1 + int (octet_count l) else 1)"
  proof -
    have "length (put_octets n k) = n" for n k by (induction n arbitrary: k) simp_all
    then show ?thesis by (simp add: asn1_put_length_def Let_def)
  qed
  have "septet_count tag \<le> 5"
    using septet_count_length [of tag] length_base128_high [of "nat tag" 5] assms(3,4) by (simp add: nat_less_iff)
  then show ?thesis
    unfolding ident using count short assms(1,5,6) by (auto simp: ASN1_object_size_def Let_def)
qed

text \<open>
  \<open>ASN1_put_object\<close> and \<open>ASN1_get_object\<close> agree: a header written for a class, a tag number and a length is
  read back, with the contents behind it, and \<open>ASN1_object_size\<close> is exactly the size of header and contents.
\<close>

theorem asn1_object_roundtrip:
  assumes "constructed \<noteq> 2" "class_ok xclass" "0 \<le> tag" "tag < 2 ^ 29"
    "xclass \<noteq> 0 \<or> tag \<noteq> 0" "xclass = 0 \<longrightarrow> tag \<le> 0xff" "length body \<le> (2 ^ 31 - 1) div 2"
  defines "header \<equiv> ASN1_put_object constructed (int (length body)) tag xclass"
  shows "ASN1_get_object (header @ body @ rest) (int (length (header @ body @ rest))) =
      Some (if constructed \<noteq> 0 then 0x20 else 0, length body, tag, xclass, body @ rest) \<and>
    ASN1_object_size constructed (int (length body)) tag = int (length (header @ body))"
proof
  note parts = object_tag_parts [OF assms(2-4), of constructed]
  have l: "int (length body) < 2 ^ 32" "int (length body) \<le> (2 ^ 31 - 1) div 2" using assms(7) by simp_all
  have h: "header @ body = der_element (object_tag constructed xclass tag) body"
    using put_object_der [OF assms(1-4) _ l(1)] by (simp add: header_def der_element_def)
  have "CBS_get_any_asn1 (der_element (object_tag constructed xclass tag) body @ rest) =
      (Some (body, object_tag constructed xclass tag), rest)"
    using parts(4) [OF assms(5)] l(1) by (intro CBS_get_any_asn1_encode) simp_all
  then have get: "CBS_get_any_asn1 (header @ body @ rest) = (Some (body, object_tag constructed xclass tag), rest)"
    by (simp only: h [symmetric] append_assoc)
  show "ASN1_get_object (header @ body @ rest) (int (length (header @ body @ rest))) =
      Some (if constructed \<noteq> 0 then 0x20 else 0, length body, tag, xclass, body @ rest)"
    using parts(1-3) assms(6,7)
    by (simp add: ASN1_get_object_def Let_def get V_ASN1_UNIVERSAL_def V_ASN1_MAX_UNIVERSAL_def not_less)
  show "ASN1_object_size constructed (int (length body)) tag = int (length (header @ body))"
    using size_header [OF assms(1-4) _ l(2)] by (simp add: header_def)
qed

lemma asn1_object_roundtrip_witness:
  "let header = ASN1_put_object 1 3 1000 0x80 in
    ASN1_get_object (header @ [1, 2, 3] @ [9]) (int (length (header @ [1, 2, 3 :: u8] @ [9]))) =
      Some (0x20, 3, 1000, 0x80, [1, 2, 3, 9]) \<and>
    ASN1_object_size 1 3 1000 = int (length (header @ [1, 2, 3]))"
  using asn1_object_roundtrip [of 1 "0x80" 1000 "[1, 2, 3]" "[9]"] by (simp add: class_ok_def Let_def)

section \<open>Contents of strings\<close>

text \<open>The allocator returns blocks of the size it is asked for, and the length lies within the block.\<close>

definition alloc_ok :: "allocator \<Rightarrow> bool" where
  "alloc_ok malloc \<longleftrightarrow> (\<forall>n b. malloc n = Some b \<longrightarrow> length b = n)"

definition string_ok :: "ASN1_STRING \<Rightarrow> bool" where
  "string_ok s \<longleftrightarrow> (case as_data s of None \<Rightarrow> as_length s = 0 | Some b \<Rightarrow> as_length s \<le> length b)"

definition as_bytes :: "ASN1_STRING \<Rightarrow> bytes" where
  "as_bytes s = (case as_data s of None \<Rightarrow> [] | Some b \<Rightarrow> take (as_length s) b)"

lemma length_as_bytes: "string_ok s \<Longrightarrow> length (as_bytes s) = as_length s"
  by (auto simp: string_ok_def as_bytes_def split: option.splits)

lemma type_new_ok [simp]: "string_ok (ASN1_STRING_type_new ty)" "as_bytes (ASN1_STRING_type_new ty) = []"
  "string_ok ASN1_STRING_new" "as_bytes ASN1_STRING_new = []"
  by (simp_all add: string_ok_def as_bytes_def ASN1_STRING_type_new_def ASN1_STRING_new_def)

lemma string_ok_type [simp]:
  "string_ok (s\<lparr>as_type := ty\<rparr>) = string_ok s" "as_bytes (s\<lparr>as_type := ty\<rparr>) = as_bytes s"
  "string_ok (s\<lparr>as_flags := fl\<rparr>) = string_ok s" "as_bytes (s\<lparr>as_flags := fl\<rparr>) = as_bytes s"
  by (simp_all add: string_ok_def as_bytes_def split: option.split)

lemma realloc_length: "alloc_ok malloc \<Longrightarrow> OPENSSL_realloc malloc old n = Some b \<Longrightarrow> length b = n"
  by (auto simp: OPENSSL_realloc_def alloc_ok_def Let_def copy_at_def split: option.splits if_splits)

lemma take_copy_start: "length src \<le> length dst \<Longrightarrow> take (length src) (copy_at dst 0 src) = src"
  by (simp add: copy_at_def)

text \<open>A string is set to the bytes given, followed by a NUL, or stays as it was.\<close>

lemma string_set:
  assumes "alloc_ok malloc" "string_ok s" "n \<le> length d" "ASN1_STRING_set malloc s (Some d) (int n) = (r, s')"
  shows "if r = None then s' = s
    else string_ok s' \<and> as_bytes s' = take n d \<and> as_length s' = n \<and> as_type s' = as_type s \<and> as_flags s' = as_flags s \<and>
      n \<le> ASN1_STRING_MAX \<and> (\<exists>b. as_data s' = Some b \<and> n < length b \<and> b ! n = 0)"
proof (cases r)
  case None
  then show ?thesis using assms(4) by (auto simp: ASN1_STRING_set_def split: option.splits if_splits)
next
  case (Some u)
  then obtain buf where n: "n \<le> ASN1_STRING_MAX"
    and buf: "(if as_length s \<le> n \<or> as_data s = None then OPENSSL_realloc malloc (as_data s) (n + 1) else as_data s) = Some buf"
    and s': "s' = s\<lparr>as_length := n, as_data := Some (copy_at buf 0 (take n d @ [0]))\<rparr>"
    using assms(4) by (auto simp: ASN1_STRING_set_def split: option.splits if_splits)
  have len: "n + 1 \<le> length buf"
    using buf assms(1,2) realloc_length [OF assms(1)] by (auto simp: string_ok_def split: if_splits option.splits)
  have "length (copy_at buf 0 (take n d @ [0])) = length buf"
    using len assms(3) by (intro length_copy_at) simp
  moreover have "take n (copy_at buf 0 (take n d @ [0])) = take n d" "copy_at buf 0 (take n d @ [0]) ! n = 0"
    using assms(3) by (simp_all add: copy_at_def nth_append)
  ultimately show ?thesis
    using Some s' n len by (auto simp: string_ok_def as_bytes_def)
qed

lemma string_set_total:
  assumes "n \<le> ASN1_STRING_MAX" "malloc (n + 1) \<noteq> None"
  shows "\<exists>s'. ASN1_STRING_set malloc s (Some d) (int n) = (Some (), s')"
  using assms by (auto simp: ASN1_STRING_set_def OPENSSL_realloc_def Let_def split: option.splits)

end
