(* ===== verification/SetOf.thy ===== *)
theory SetOf
  imports CbbBuild Asn1String "HOL-Library.List_Lexorder" "HOL-Library.Multiset"
begin

text \<open>
  SET OF: \<open>CBB_flush_asn1_set_of\<close> of \<open>crypto/bytestring/cbb.c\<close>, which puts the elements of an object into the order
  that DER prescribes.
\<close>

section \<open>The code\<close>

definition compare_set_of_element :: "CBS \<Rightarrow> CBS \<Rightarrow> int" where
  "compare_set_of_element a b =
     (let a_len = length a; b_len = length b;
          min_len = (if a_len < b_len then a_len else b_len);
          ret = memcmp_sign a b min_len
      in if ret \<noteq> 0 then ret
         else if a_len = b_len then 0
         else if a_len < b_len then -1 else 1)"

text \<open>
  \<open>qsort\<close> of the C library, as an insertion sort. The order of elements that compare equal is not specified there;
  here such elements are equal.
\<close>

fun insert_element :: "('a \<Rightarrow> 'a \<Rightarrow> int) \<Rightarrow> 'a \<Rightarrow> 'a list \<Rightarrow> 'a list" where
  "insert_element cmp x [] = [x]"
| "insert_element cmp x (y # ys) = (if cmp x y \<le> 0 then x # y # ys else y # insert_element cmp x ys)"

definition qsort :: "('a \<Rightarrow> 'a \<Rightarrow> int) \<Rightarrow> 'a list \<Rightarrow> 'a list" where
  "qsort cmp xs = foldr (insert_element cmp) xs []"

text \<open>One element of the contents, without its tag and header length.\<close>

definition set_of_element :: "CBS \<Rightarrow> (CBS, CBS) cres" where
  "set_of_element cbs = cbind (CBS_get_any_asn1_element cbs) (\<lambda>(out, _, _) cbs. (Some out, cbs))"

text \<open>The first pass counts, the second, over the copy of the contents, keeps the elements.\<close>

definition count_children :: "CBS \<Rightarrow> nat option" where
  "count_children cbs = map_option length (read_all (length cbs) set_of_element cbs)"

fun get_children :: "nat \<Rightarrow> CBS \<Rightarrow> CBS list option" where
  "get_children 0 cbs = Some []"
| "get_children (Suc n) cbs =
     (case set_of_element cbs of
        (None, _) \<Rightarrow> None
      | (Some child, cbs) \<Rightarrow> map_option ((#) child) (get_children n cbs))"

text \<open>The elements are written back one behind the other from position \<open>pos\<close> on.\<close>

fun write_children :: "bytes \<Rightarrow> nat \<Rightarrow> CBS list \<Rightarrow> bytes" where
  "write_children out pos [] = out"
| "write_children out pos (child # rest) =
     write_children (copy_at out pos child) (pos + length child) rest"

text \<open>\<open>buf_ok\<close> and \<open>children_ok\<close> say whether the allocations of the copy and of the array succeed.\<close>

definition CBB_flush_asn1_set_of :: "bool \<Rightarrow> bool \<Rightarrow> CBB \<Rightarrow> nat \<Rightarrow> (unit, CBB) cres" where
  "CBB_flush_asn1_set_of buf_ok children_ok cbb d =
     cbind (CBB_flush cbb d) (\<lambda>_ cbb.
       case count_children (CBB_data cbb d) of
         None \<Rightarrow> (None, cbb)
       | Some num_children \<Rightarrow>
           if num_children < 2 then (Some (), cbb)
           else if \<not> buf_ok \<or> \<not> children_ok then (None, cbb)
           else case get_children num_children (CBB_data cbb d) of
                  None \<Rightarrow> (None, cbb)
                | Some es \<Rightarrow>
                    (Some (), cbb\<lparr>base := (base cbb)\<lparr>buf :=
                       write_children (buf (base cbb)) (cbb_start cbb d) (qsort compare_set_of_element es)\<rparr>\<rparr>))"

section \<open>The order\<close>

lemma compare_le: "compare_set_of_element a b \<le> 0 \<longleftrightarrow> a \<le> b"
proof (induction a arbitrary: b)
  case Nil
  then show ?case by (simp add: compare_set_of_element_def Let_def)
next
  case (Cons x a)
  show ?case
  proof (cases b)
    case Nil
    then show ?thesis by (simp add: compare_set_of_element_def Let_def)
  next
    case (Cons y b')
    have "compare_set_of_element (x # a) (y # b') =
        (if x < y then -1 else if x > y then 1 else compare_set_of_element a b')"
      by (auto simp: compare_set_of_element_def Let_def)
    then show ?thesis using Cons.IH [of b'] Cons by auto
  qed
qed

lemma insert_element_insort: "insert_element compare_set_of_element x xs = insort x xs"
  by (induction xs) (simp_all add: compare_le)

lemma qsort_sort: "qsort compare_set_of_element xs = sort xs"
  by (induction xs) (simp_all add: qsort_def insert_element_insort sort_key_def)

section \<open>The passes\<close>

definition is_element :: "bytes \<Rightarrow> bool" where
  "is_element e \<longleftrightarrow> (\<exists>t x. valid_tag t \<and> length x < 2 ^ 32 \<and> e = der_element t x)"

interpretation element: codec set_of_element "\<lambda>e. e" is_element
proof unfold_locales
  show "set_of_element c = (None, c') \<Longrightarrow> suffix c' c" for c c'
    by (auto simp: set_of_element_def cbind_eq_None dest: CBS_get_any_asn1_element_fail)
  show "is_element v \<Longrightarrow> set_of_element (v @ d) = (Some v, d)" for v d
    by (auto simp: is_element_def set_of_element_def cbind_eq_Some CBS_get_any_asn1_element_iff)
  show "set_of_element c = (Some v, c') \<Longrightarrow> is_element v \<and> c = v @ c'" for c v c'
    by (auto simp: is_element_def set_of_element_def cbind_eq_Some CBS_get_any_asn1_element_iff)
qed

lemma is_element_not_Nil: "is_element e \<Longrightarrow> e \<noteq> []"
  by (auto simp: is_element_def)

lemma count_children_iff:
  "count_children c = Some n \<longleftrightarrow> (\<exists>es. length es = n \<and> list_all is_element es \<and> c = concat es)"
proof
  assume "count_children c = Some n"
  then obtain es where "read_all (length c) set_of_element c = Some es" "n = length es" by (auto simp: count_children_def)
  then show "\<exists>es. length es = n \<and> list_all is_element es \<and> c = concat es"
    using element.read_all_canonical [of "length c" c es] by auto
next
  assume "\<exists>es. length es = n \<and> list_all is_element es \<and> c = concat es"
  then obtain es where es: "length es = n" "list_all is_element es" "c = concat es" by blast
  have "length es \<le> length (concat es)"
    using es(2) by (induction es) (auto simp: Suc_le_eq dest!: is_element_not_Nil intro: trans_le_add2 simp flip: length_greater_0_conv)
  then have "read_all (length c) set_of_element (concat (map (\<lambda>e. e) es)) = Some es"
    using es(2,3) by (intro element.read_all_put) (auto simp: list_all_iff is_element_not_Nil)
  then show "count_children c = Some n" using es by (simp add: count_children_def)
qed

lemma get_children_concat:
  "list_all is_element es \<Longrightarrow> get_children (length es) (concat es) = Some es"
  by (induction es) (simp_all add: element.get_put)

lemma write_children_concat:
  "pos + length (concat es) \<le> length out \<Longrightarrow>
    write_children out pos es = take pos out @ concat es @ drop (pos + length (concat es)) out"
proof (induction es arbitrary: out pos)
  case (Cons e es)
  define out' where "out' = copy_at out pos e"
  have len: "pos + length e + length (concat es) \<le> length out" using Cons.prems by simp
  then have "length out' = length out" by (simp add: out'_def copy_at_def)
  moreover have "take (pos + length e) out' = take pos out @ e"
    using len by (simp add: out'_def copy_at_def)
  moreover have "drop (pos + length e + length (concat es)) out' = drop (pos + length e + length (concat es)) out"
    using len by (simp add: out'_def copy_at_def add.commute)
  ultimately show ?case using Cons.IH [of "pos + length e" out'] len by (simp add: out'_def [symmetric] ac_simps)
qed simp

lemma length_concat_sort: "length (concat (sort es)) = length (concat es)" for es :: "bytes list"
  by (simp add: length_concat flip: sum_mset_sum_list)

section \<open>Properties\<close>

text \<open>The contents of an object after a flush start inside the buffer.\<close>

lemma start_le: "cbb_inv c \<Longrightarrow> \<not> error (base c) \<Longrightarrow> d \<le> length (children c) \<Longrightarrow> cbb_start c d \<le> length (buf (base c))"
proof -
  assume h: "cbb_inv c" "\<not> error (base c)" "d \<le> length (children c)"
  then have ok: "chain_ok 0 (children c) (length (buf (base c)))" by (simp add: cbb_inv_def)
  show ?thesis
  proof (cases d)
    case 0
    then show ?thesis by (simp add: cbb_start_def)
  next
    case (Suc i)
    then have "drop i (children c) = children c ! i # drop (Suc i) (children c)" using h(3) by (simp add: Cons_nth_drop_Suc)
    moreover obtain s where "chain_ok s (drop i (children c)) (length (buf (base c)))" using chain_ok_drop [OF ok] by blast
    ultimately show ?thesis using Suc by (auto simp: cbb_start_def dest: chain_ok_le)
  qed
qed

lemma cbb_inv_buf: "cbb_inv c \<Longrightarrow> length b = length (buf (base c)) \<Longrightarrow> cbb_inv (c\<lparr>base := (base c)\<lparr>buf := b\<rparr>\<rparr>)"
  by (simp add: cbb_inv_def buffer_inv_def)

text \<open>What the function does to the contents \<open>concat es\<close> of the flushed object.\<close>

lemma set_of_flushed:
  assumes "CBB_flush c d = (Some u, c1)" "cbb_inv c" "CBB_data c1 d = concat es" "list_all is_element es"
    "length es < 2 \<or> buf_ok \<and> children_ok"
  shows "CBB_flush_asn1_set_of buf_ok children_ok c d =
    (Some (), c1\<lparr>base := (base c1)\<lparr>buf := take (cbb_start c1 d) (buf (base c1)) @ concat (sort es)\<rparr>\<rparr>)"
proof -
  have f: "cbb_inv c1" "\<not> error (base c1)" "d \<le> length (children c)" "children c1 = take d (children c)"
    using CBB_flush_spec [OF assms(1,2)] by auto
  have start: "cbb_start c1 d \<le> length (buf (base c1))" using start_le [OF f(1,2), of d] f(3,4) by simp
  have buf: "buf (base c1) = take (cbb_start c1 d) (buf (base c1)) @ concat es"
    using assms(3) append_take_drop_id [of "cbb_start c1 d" "buf (base c1)"] by (simp add: CBB_data_def)
  have count: "count_children (concat es) = Some (length es)" using assms(4) by (auto simp: count_children_iff)
  show ?thesis
  proof (cases "length es < 2")
    case True
    then have "sort es = es" by (cases es rule: list.exhaust; cases "tl es") auto
    then have "c1 = c1\<lparr>base := (base c1)\<lparr>buf := take (cbb_start c1 d) (buf (base c1)) @ concat (sort es)\<rparr>\<rparr>"
      using buf by simp
    then show ?thesis using True by (simp add: CBB_flush_asn1_set_of_def assms(1,3) count)
  next
    case False
    have len: "cbb_start c1 d + length (concat es) = length (buf (base c1))"
      using arg_cong [OF buf, of length] start by simp
    then have "write_children (buf (base c1)) (cbb_start c1 d) (sort es) = take (cbb_start c1 d) (buf (base c1)) @ concat (sort es)"
      using write_children_concat [of "cbb_start c1 d" "sort es" "buf (base c1)"] by (simp add: length_concat_sort)
    then show ?thesis
      using False assms(5)
      by (simp add: CBB_flush_asn1_set_of_def assms(1,3) count get_children_concat [OF assms(4)] qsort_sort)
  qed
qed

text \<open>
  C35: a call of \<open>CBB_flush_asn1_set_of\<close> that succeeds leaves the contents of the object a sequence of DER elements in
  ascending order, the same elements as the flush wrote, each as often as before; the bytes in front of the object,
  the open objects and the memory invariant are kept. With enough memory it succeeds on any contents that are a
  sequence of DER elements.
\<close>

theorem set_of_sorts:
  assumes "cbb_inv c" "CBB_flush c d = (Some u, c1)"
  shows "case CBB_flush_asn1_set_of buf_ok children_ok c d of
      (Some _, c') \<Rightarrow>
        (\<exists>es sorted_es. CBB_data c1 d = concat es \<and> list_all is_element es \<and> CBB_data c' d = concat sorted_es \<and>
           sorted sorted_es \<and> mset sorted_es = mset es) \<and>
        take (cbb_start c1 d) (buf (base c')) = take (cbb_start c1 d) (buf (base c1)) \<and>
        children c' = children c1 \<and> cbb_inv c'
    | (None, c') \<Rightarrow> c' = c1 \<and>
        (buf_ok \<and> children_ok \<longrightarrow> \<not> (\<exists>es. CBB_data c1 d = concat es \<and> list_all is_element es))"
proof (cases "count_children (CBB_data c1 d)")
  case None
  then have "\<not> (\<exists>es. CBB_data c1 d = concat es \<and> list_all is_element es)"
    using count_children_iff [of "CBB_data c1 d"] by fastforce
  then show ?thesis using None by (simp add: CBB_flush_asn1_set_of_def assms(2))
next
  case (Some n)
  then obtain es where es: "length es = n" "list_all is_element es" "CBB_data c1 d = concat es" by (auto simp: count_children_iff)
  have f: "cbb_inv c1" "\<not> error (base c1)" "d \<le> length (children c)" "children c1 = take d (children c)"
    using CBB_flush_spec [OF assms(2,1)] by auto
  have start: "cbb_start c1 d \<le> length (buf (base c1))" using start_le [OF f(1,2), of d] f(3,4) by simp
  show ?thesis
  proof (cases "length es < 2 \<or> buf_ok \<and> children_ok")
    case True
    let ?b = "take (cbb_start c1 d) (buf (base c1)) @ concat (sort es)"
    have "length ?b = length (buf (base c1))"
      using start arg_cong [OF es(3), of length] by (simp add: CBB_data_def length_concat_sort)
    moreover have "cbb_start (c1\<lparr>base := b\<rparr>) d = cbb_start c1 d" for b by (cases d) (simp_all add: cbb_start_def)
    ultimately show ?thesis
      using set_of_flushed [OF assms(2,1) es(3,2) True] es(2,3) cbb_inv_buf [OF f(1), of ?b] start
      by simp (rule exI [of _ es], simp add: CBB_data_def, rule exI [of _ "sort es"], simp)
  next
    case False
    then show ?thesis using Some es(1) by (auto simp: CBB_flush_asn1_set_of_def assms(2))
  qed
qed

lemma set_of_sorts_witness:
  "\<exists>c1. case CBB_flush_asn1_set_of True True c1 0 of
      (Some _, c') \<Rightarrow>
        (\<exists>es sorted_es. CBB_data c1 0 = concat es \<and> list_all is_element es \<and> CBB_data c' 0 = concat sorted_es \<and>
           sorted sorted_es \<and> mset sorted_es = mset es) \<and>
        take (cbb_start c1 0) (buf (base c')) = take (cbb_start c1 0) (buf (base c1)) \<and> children c' = children c1 \<and> cbb_inv c'
    | (None, c') \<Rightarrow> False"
proof -
  define c where "c = (cbb_init (\<lambda>_. True) 16 True)\<lparr>base := (base (cbb_init (\<lambda>_. True) 16 True))\<lparr>buf := [2, 1, 5, 1, 1, 255]\<rparr>\<rparr>"
  have "cbb_inv c" by (simp add: c_def cbb_init_def cbb_inv_def buffer_inv_def)
  moreover have "CBB_flush c 0 = (Some (), c)" by (simp add: c_def cbb_init_def CBB_flush_def flush_chain.simps)
  ultimately have flush: "case CBB_flush_asn1_set_of True True c 0 of
      (Some _, c') \<Rightarrow>
        (\<exists>es sorted_es. CBB_data c 0 = concat es \<and> list_all is_element es \<and> CBB_data c' 0 = concat sorted_es \<and>
           sorted sorted_es \<and> mset sorted_es = mset es) \<and>
        take (cbb_start c 0) (buf (base c')) = take (cbb_start c 0) (buf (base c)) \<and> children c' = children c \<and> cbb_inv c'
    | (None, c') \<Rightarrow> c' = c \<and>
        (True \<and> True \<longrightarrow> \<not> (\<exists>es. CBB_data c 0 = concat es \<and> list_all is_element es))"
    by (rule set_of_sorts)
  have "[2, 1, 5] = der_element 2 [5]" "[1, 1, 255] = der_element 1 [255]"
    by (simp_all add: der_element_def der_header_def der_tag_def der_length_def Let_def mask_eq_exp_minus_1)
  then have "is_element [2, 1, 5]" "is_element [1, 1, 255]"
    unfolding is_element_def valid_tag_def
    by (intro exI [of _ 2] exI [of _ "[5]"], simp add: CBS_ASN1_CONSTRUCTED_def CBS_ASN1_TAG_SHIFT_def,
        intro exI [of _ 1] exI [of _ "[255]"], simp add: CBS_ASN1_CONSTRUCTED_def CBS_ASN1_TAG_SHIFT_def)
  then have "\<exists>es. CBB_data c 0 = concat es \<and> list_all is_element es"
    by (intro exI [of _ "[[2, 1, 5], [1, 1, 255]]"]) (simp add: CBB_data_def cbb_start_def c_def)
  then show ?thesis using flush by (intro exI [of _ c]) (auto split: prod.splits option.splits)
qed

end
