(* ===== verification/Unicode.thy ===== *)
theory Unicode
  imports CbbBuild
begin

text \<open>
  \<^verbatim>\<open>crypto/bytestring/unicode.c\<close>: reading and writing code points in UTF-8, Latin-1, UCS-2
  and UTF-32. The readers accept exactly the shortest form of each valid code point.
\<close>

section \<open>The code\<close>

definition is_valid_code_point :: "u32 \<Rightarrow> bool" where
  "is_valid_code_point v \<longleftrightarrow>
     \<not> (v > 0x10ffff \<or> v AND 0xfffe = 0xfffe \<or> (v \<ge> 0xfdd0 \<and> v \<le> 0xfdef) \<or>
        (v \<ge> 0xd800 \<and> v \<le> 0xdfff))"

definition BOTTOM_BITS :: "nat \<Rightarrow> u8" where
  "BOTTOM_BITS n = ucast (push_bit n (1 :: u32) - 1)"

definition TOP_BITS :: "nat \<Rightarrow> u8" where
  "TOP_BITS n = NOT (BOTTOM_BITS (8 - n))"

fun get_utf8_loop :: "nat \<Rightarrow> u32 \<Rightarrow> CBS \<Rightarrow> (u32, CBS) cres" where
  "get_utf8_loop 0 v cbs = (Some v, cbs)"
| "get_utf8_loop (Suc len) v cbs =
     cbind (CBS_get_u8 cbs) (\<lambda>c cbs.
       if c AND TOP_BITS 2 \<noteq> TOP_BITS 1 then (None, cbs)
       else get_utf8_loop len (push_bit 6 v OR ucast (c AND BOTTOM_BITS 6)) cbs)"

definition CBS_get_utf8 :: "CBS \<Rightarrow> (u32, CBS) cres" where
  "CBS_get_utf8 cbs =
     cbind (CBS_get_u8 cbs) (\<lambda>c cbs.
       if c \<le> 0x7f then (Some (ucast c), cbs)
       else
         case (if c AND TOP_BITS 3 = TOP_BITS 2 then Some (ucast (c AND BOTTOM_BITS 5), 1, 0x80)
               else if c AND TOP_BITS 4 = TOP_BITS 3 then Some (ucast (c AND BOTTOM_BITS 4), 2, 0x800)
               else if c AND TOP_BITS 5 = TOP_BITS 4 then Some (ucast (c AND BOTTOM_BITS 3), 3, 0x10000)
               else None) of
           None \<Rightarrow> (None, cbs)
         | Some (v, len, lower_bound) \<Rightarrow>
             cbind (get_utf8_loop len v cbs) (\<lambda>v cbs.
               if \<not> is_valid_code_point v \<or> v < lower_bound then (None, cbs) else (Some v, cbs)))"

definition CBS_get_latin1 :: "CBS \<Rightarrow> (u32, CBS) cres" where
  "CBS_get_latin1 cbs = cbind (CBS_get_u8 cbs) (\<lambda>c cbs. (Some (ucast c), cbs))"

definition CBS_get_ucs2_be :: "CBS \<Rightarrow> (u32, CBS) cres" where
  "CBS_get_ucs2_be cbs =
     cbind (CBS_get_u16 cbs) (\<lambda>c cbs.
       if \<not> is_valid_code_point (ucast c) then (None, cbs) else (Some (ucast c), cbs))"

definition CBS_get_utf32_be :: "CBS \<Rightarrow> (u32, CBS) cres" where
  "CBS_get_utf32_be cbs =
     cbind (CBS_get_u32 cbs) (\<lambda>v cbs. if is_valid_code_point v then (Some v, cbs) else (None, cbs))"

definition CBB_get_utf8_len :: "u32 \<Rightarrow> nat" where
  "CBB_get_utf8_len u = (if u \<le> 0x7f then 1 else if u \<le> 0x7ff then 2 else if u \<le> 0xffff then 3 else 4)"

definition CBB_add_utf8 :: "CBB \<Rightarrow> nat \<Rightarrow> u32 \<Rightarrow> (unit, CBB) cres" where
  "CBB_add_utf8 c d u =
     (if \<not> is_valid_code_point u then (None, c)
      else if u \<le> 0x7f then CBB_add_u8 c d (ucast u)
      else if u \<le> 0x7ff then
        cbind (CBB_add_u8 c d (ucast (ucast (TOP_BITS 2) OR drop_bit 6 u))) (\<lambda>_ c.
          CBB_add_u8 c d (ucast (ucast (TOP_BITS 1) OR (u AND ucast (BOTTOM_BITS 6)))))
      else if u \<le> 0xffff then
        cbind (CBB_add_u8 c d (ucast (ucast (TOP_BITS 3) OR drop_bit 12 u))) (\<lambda>_ c.
        cbind (CBB_add_u8 c d (ucast (ucast (TOP_BITS 1) OR (drop_bit 6 u AND ucast (BOTTOM_BITS 6))))) (\<lambda>_ c.
          CBB_add_u8 c d (ucast (ucast (TOP_BITS 1) OR (u AND ucast (BOTTOM_BITS 6))))))
      else if u \<le> 0x10ffff then
        cbind (CBB_add_u8 c d (ucast (ucast (TOP_BITS 4) OR drop_bit 18 u))) (\<lambda>_ c.
        cbind (CBB_add_u8 c d (ucast (ucast (TOP_BITS 1) OR (drop_bit 12 u AND ucast (BOTTOM_BITS 6))))) (\<lambda>_ c.
        cbind (CBB_add_u8 c d (ucast (ucast (TOP_BITS 1) OR (drop_bit 6 u AND ucast (BOTTOM_BITS 6))))) (\<lambda>_ c.
          CBB_add_u8 c d (ucast (ucast (TOP_BITS 1) OR (u AND ucast (BOTTOM_BITS 6)))))))
      else (None, c))"

definition CBB_add_latin1 :: "CBB \<Rightarrow> nat \<Rightarrow> u32 \<Rightarrow> (unit, CBB) cres" where
  "CBB_add_latin1 c d u = (if u \<le> 0xff then CBB_add_u8 c d (ucast u) else (None, c))"

definition CBB_add_ucs2_be :: "CBB \<Rightarrow> nat \<Rightarrow> u32 \<Rightarrow> (unit, CBB) cres" where
  "CBB_add_ucs2_be c d u =
     (if u \<le> 0xffff \<and> is_valid_code_point u then CBB_add_u16 c d (ucast u) else (None, c))"

definition CBB_add_utf32_be :: "CBB \<Rightarrow> nat \<Rightarrow> u32 \<Rightarrow> (unit, CBB) cres" where
  "CBB_add_utf32_be c d u = (if is_valid_code_point u then CBB_add_u32 c d u else (None, c))"

section \<open>The abstract encoding\<close>

text \<open>UTF-8 as arithmetic: lead byte and continuation bytes of a code point.\<close>

definition utf8 :: "nat \<Rightarrow> bytes" where
  "utf8 n =
     map of_nat
       (if n < 0x80 then [n]
        else if n < 0x800 then [192 + n div 64, 128 + n mod 64]
        else if n < 0x10000 then [224 + n div 4096, 128 + n div 64 mod 64, 128 + n mod 64]
        else [240 + n div 262144, 128 + n div 4096 mod 64, 128 + n div 64 mod 64, 128 + n mod 64])"

lemma bits_eq:
  "BOTTOM_BITS 6 = mask 6" "BOTTOM_BITS 5 = mask 5" "BOTTOM_BITS 4 = mask 4" "BOTTOM_BITS 3 = mask 3"
  "TOP_BITS 1 = push_bit 7 1" "TOP_BITS 2 = push_bit 6 3" "TOP_BITS 3 = push_bit 5 7" "TOP_BITS 4 = push_bit 4 15"
  "TOP_BITS 5 = push_bit 3 31"
  by (simp_all add: BOTTOM_BITS_def TOP_BITS_def mask_eq_exp_minus_1)

lemma top_masks:
  "push_bit 6 3 = NOT (mask 6 :: u8)" "push_bit 5 7 = NOT (mask 5 :: u8)"
  "push_bit 4 15 = NOT (mask 4 :: u8)" "push_bit 3 31 = NOT (mask 3 :: u8)"
  by (simp_all add: mask_eq_exp_minus_1)

lemma top_bits_iff:
  "c AND TOP_BITS 2 = TOP_BITS 1 \<longleftrightarrow> 128 \<le> unat c \<and> unat c < 192"
  "c AND TOP_BITS 3 = TOP_BITS 2 \<longleftrightarrow> 192 \<le> unat c \<and> unat c < 224"
  "c AND TOP_BITS 4 = TOP_BITS 3 \<longleftrightarrow> 224 \<le> unat c \<and> unat c < 240"
  "c AND TOP_BITS 5 = TOP_BITS 4 \<longleftrightarrow> 240 \<le> unat c \<and> unat c < 248"
proof -
  have m: "m - m mod k = q * k \<longleftrightarrow> q * k \<le> m \<and> m < Suc q * k" if "0 < k" for m k q :: nat
  proof -
    have "m - m mod k = q * k \<longleftrightarrow> m div k = q"
      using that by (simp add: minus_mod_eq_div_mult)
    also have "\<dots> \<longleftrightarrow> q \<le> m div k \<and> m div k < Suc q" by auto
    also have "\<dots> \<longleftrightarrow> q * k \<le> m \<and> m < Suc q * k"
      using that by (simp only: less_eq_div_iff_mult_less_eq div_less_iff_less_mult)
    finally show ?thesis .
  qed
  have "unat (push_bit 7 1 :: u8) = 128" "unat (push_bit 6 3 :: u8) = 192" "unat (push_bit 5 7 :: u8) = 224"
    "unat (push_bit 4 15 :: u8) = 240"
    by simp_all
  note tops = this
  have "c AND NOT (mask k) = d \<longleftrightarrow> unat c - unat c mod 2 ^ k = unat d" for k d
    by (simp only: word_unat_eq_iff unat_and_not_mask)
  note eqs = this
  show "c AND TOP_BITS 2 = TOP_BITS 1 \<longleftrightarrow> 128 \<le> unat c \<and> unat c < 192"
    unfolding bits_eq top_masks(1) eqs tops using m [of 64 "unat c" 2] by simp
  show "c AND TOP_BITS 3 = TOP_BITS 2 \<longleftrightarrow> 192 \<le> unat c \<and> unat c < 224"
    unfolding bits_eq top_masks(2) eqs tops using m [of 32 "unat c" 6] by simp
  show "c AND TOP_BITS 4 = TOP_BITS 3 \<longleftrightarrow> 224 \<le> unat c \<and> unat c < 240"
    unfolding bits_eq top_masks(3) eqs tops using m [of 16 "unat c" 14] by simp
  show "c AND TOP_BITS 5 = TOP_BITS 4 \<longleftrightarrow> 240 \<le> unat c \<and> unat c < 248"
    unfolding bits_eq top_masks(4) eqs tops using m [of 8 "unat c" 30] by simp
qed

section \<open>The reader\<close>

definition continuation :: "u8 \<Rightarrow> bool" where
  "continuation b \<longleftrightarrow> 128 \<le> unat b \<and> unat b < 192"

definition utf8_step :: "u32 \<Rightarrow> u8 \<Rightarrow> u32" where
  "utf8_step v c = push_bit 6 v OR ucast (c AND BOTTOM_BITS 6)"

lemma get_utf8_loop_iff:
  "get_utf8_loop k v c = (Some w, d) \<longleftrightarrow>
     (\<exists>bs. c = bs @ d \<and> length bs = k \<and> list_all continuation bs \<and> w = foldl utf8_step v bs)"
proof (induction k arbitrary: v c)
  case 0
  then show ?case by auto
next
  case (Suc k)
  show ?case
  proof (cases c)
    case Nil
    then show ?thesis by auto
  next
    case (Cons b c')
    then show ?thesis
      by (auto simp: Suc top_bits_iff(1) [unfolded One_nat_def] continuation_def utf8_step_def length_Suc_conv intro: exI [of _ "b # _"])
  qed
qed

lemma get_utf8_loop_suffix: "get_utf8_loop k v c = (r, d) \<Longrightarrow> suffix d c"
proof (induction k arbitrary: v c)
  case 0
  then show ?case by simp
next
  case (Suc k)
  then show ?case
    by (cases c) (auto simp: suffix_ConsI split: if_splits)
qed

lemma unat_utf8_step:
  "unat v < 2 ^ 20 \<Longrightarrow> continuation b \<Longrightarrow> unat (utf8_step v b) = 64 * unat v + (unat b - 128)"
proof -
  assume v: "unat v < 2 ^ 20" and b: "continuation b"
  have x: "unat (ucast (b AND mask 6) :: u32) = unat b mod 64"
  proof -
    have "unat (ucast y :: u32) = unat y" for y :: u8 by simp
    then show ?thesis by (simp only: unat_and_mask) simp
  qed
  have mod: "unat b mod 64 = unat b - 128" "unat b - 128 < 64"
    using b mod_interval [of 2 64 "unat b"] by (simp_all add: continuation_def)
  have "unat (push_bit 6 v OR ucast (b AND mask 6)) = unat v * 2 ^ 6 + unat (ucast (b AND mask 6) :: u32)"
    using v x mod by (intro unat_push_or) simp_all
  then show ?thesis by (simp add: utf8_step_def bits_eq x mod)
qed

lemma valid_le: "is_valid_code_point v \<Longrightarrow> unat v \<le> 0x10ffff"
  by (simp add: is_valid_code_point_def word_less_nat_alt)

lemma ascii_valid: "unat v < 0x80 \<Longrightarrow> is_valid_code_point v"
proof -
  assume v: "unat v < 0x80"
  have "v AND 0xfffe \<noteq> 0xfffe"
  proof
    assume "v AND 0xfffe = 0xfffe"
    then have "bit (v AND 0xfffe) 15" by simp
    then have "bit v 15" by (simp add: bit_and_iff)
    moreover have "unat v < 2 ^ 7" using v by simp
    ultimately show False using bit_lt_power [of v 7 15] by simp
  qed
  with v show ?thesis by (simp add: is_valid_code_point_def word_le_nat_alt word_less_nat_alt)
qed

lemma u8_of_nat: "n < 256 \<Longrightarrow> unat (of_nat n :: u8) = n"
  by (simp add: unat_of_nat)

lemma unat_lead:
  "unat (ucast (b AND BOTTOM_BITS 5) :: u32) = unat b mod 32"
  "unat (ucast (b AND BOTTOM_BITS 4) :: u32) = unat b mod 16"
  "unat (ucast (b AND BOTTOM_BITS 3) :: u32) = unat b mod 8"
proof -
  have wide: "unat (ucast y :: u32) = unat y" for y :: u8 by simp
  show "unat (ucast (b AND BOTTOM_BITS 5) :: u32) = unat b mod 32"
    "unat (ucast (b AND BOTTOM_BITS 4) :: u32) = unat b mod 16"
    "unat (ucast (b AND BOTTOM_BITS 3) :: u32) = unat b mod 8"
    by (simp_all only: wide bits_eq unat_and_mask) simp_all
qed

text \<open>What the reader does for each range of the lead byte.\<close>

definition multi :: "nat \<Rightarrow> u32 \<Rightarrow> u32 \<Rightarrow> CBS \<Rightarrow> (u32, CBS) cres" where
  "multi len v lower_bound cbs =
     cbind (get_utf8_loop len v cbs) (\<lambda>v cbs.
       if \<not> is_valid_code_point v \<or> v < lower_bound then (None, cbs) else (Some v, cbs))"

lemma get_utf8_Cons:
  "CBS_get_utf8 (b # c) =
     (if unat b < 128 then (Some (ucast b), c)
      else if unat b < 192 then (None, c)
      else if unat b < 224 then multi 1 (ucast (b AND BOTTOM_BITS 5)) 0x80 c
      else if unat b < 240 then multi 2 (ucast (b AND BOTTOM_BITS 4)) 0x800 c
      else if unat b < 248 then multi 3 (ucast (b AND BOTTOM_BITS 3)) 0x10000 c
      else (None, c))"
  unfolding CBS_get_utf8_def multi_def CBS_get_u8_Cons cbind_Some top_bits_iff
  by (auto simp: word_le_nat_alt)

lemma multi_iff:
  "multi k v0 lo c = (Some v, d) \<longleftrightarrow>
     (\<exists>bs. c = bs @ d \<and> length bs = k \<and> list_all continuation bs \<and> v = foldl utf8_step v0 bs) \<and>
     is_valid_code_point v \<and> lo \<le> v"
  by (auto simp: multi_def cbind_eq_Some get_utf8_loop_iff not_less split: if_splits)

lemma multi_suffix: "multi k v0 lo c = (r, d) \<Longrightarrow> suffix d c"
  using get_utf8_loop_suffix [of k v0 c]
  by (auto simp: multi_def cbind_def split: prod.splits option.splits if_splits)

lemma CBS_get_utf8_suffix: "CBS_get_utf8 c = (r, d) \<Longrightarrow> suffix d c"
proof (cases c)
  case Nil
  then show "CBS_get_utf8 c = (r, d) \<Longrightarrow> suffix d c" by (simp add: CBS_get_utf8_def)
next
  case (Cons b c')
  then show "CBS_get_utf8 c = (r, d) \<Longrightarrow> suffix d c"
    by (auto simp: get_utf8_Cons suffix_ConsI split: if_splits dest: multi_suffix)
qed

lemma length_1: "length bs = 1 \<longleftrightarrow> (\<exists>x. bs = [x])"
  and length_2: "length bs = 2 \<longleftrightarrow> (\<exists>x y. bs = [x, y])"
  and length_3: "length bs = 3 \<longleftrightarrow> (\<exists>x y z. bs = [x, y, z])"
  by (auto simp: numeral_eq_Suc length_Suc_conv)

lemma multi_1:
  assumes "192 \<le> unat b" "unat b < 224"
  shows "multi 1 (ucast (b AND BOTTOM_BITS 5)) 0x80 c = (Some v, d) \<longleftrightarrow>
    (\<exists>x. c = x # d \<and> continuation x \<and> unat v = 64 * (unat b - 192) + (unat x - 128)) \<and>
    is_valid_code_point v \<and> 0x80 \<le> unat v"
proof -
  let ?v0 = "ucast (b AND BOTTOM_BITS 5) :: u32"
  have v0: "unat ?v0 = unat b - 192"
    unfolding unat_lead using assms mod_interval [of 6 32 "unat b"] by simp
  then have "unat ?v0 < 2 ^ 20" using assms by simp
  note step = unat_utf8_step [OF this, unfolded v0]
  show ?thesis
    unfolding multi_iff length_1 by (auto simp: word_unat_eq_iff [of v] word_le_nat_alt step)
qed

lemma multi_2:
  assumes "224 \<le> unat b" "unat b < 240"
  shows "multi 2 (ucast (b AND BOTTOM_BITS 4)) 0x800 c = (Some v, d) \<longleftrightarrow>
    (\<exists>x y. c = x # y # d \<and> continuation x \<and> continuation y \<and>
       unat v = 4096 * (unat b - 224) + 64 * (unat x - 128) + (unat y - 128)) \<and>
    is_valid_code_point v \<and> 0x800 \<le> unat v"
proof -
  let ?v0 = "ucast (b AND BOTTOM_BITS 4) :: u32"
  have v0: "unat ?v0 = unat b - 224"
    unfolding unat_lead using assms mod_interval [of 14 16 "unat b"] by simp
  then have "unat ?v0 < 2 ^ 20" using assms by simp
  note s1 = unat_utf8_step [OF this, unfolded v0]
  have s2: "unat (utf8_step (utf8_step ?v0 x) y) = 4096 * (unat b - 224) + 64 * (unat x - 128) + (unat y - 128)"
    if "continuation x" "continuation y" for x y
  proof -
    have "unat (utf8_step ?v0 x) < 2 ^ 20"
      using s1 [OF that(1)] assms that(1) by (simp add: continuation_def, linarith)
    from unat_utf8_step [OF this that(2)] s1 [OF that(1)] show ?thesis by simp
  qed
  show ?thesis
    unfolding multi_iff length_2 by (auto simp: word_unat_eq_iff [of v] word_le_nat_alt s2)
qed

lemma multi_3:
  assumes "240 \<le> unat b" "unat b < 248"
  shows "multi 3 (ucast (b AND BOTTOM_BITS 3)) 0x10000 c = (Some v, d) \<longleftrightarrow>
    (\<exists>x y z. c = x # y # z # d \<and> continuation x \<and> continuation y \<and> continuation z \<and>
       unat v = 262144 * (unat b - 240) + 4096 * (unat x - 128) + 64 * (unat y - 128) + (unat z - 128)) \<and>
    is_valid_code_point v \<and> 0x10000 \<le> unat v"
proof -
  let ?v0 = "ucast (b AND BOTTOM_BITS 3) :: u32"
  have v0: "unat ?v0 = unat b - 240"
    unfolding unat_lead using assms mod_interval [of 30 8 "unat b"] by simp
  then have "unat ?v0 < 2 ^ 20" using assms by simp
  note s1 = unat_utf8_step [OF this, unfolded v0]
  have s3: "unat (utf8_step (utf8_step (utf8_step ?v0 x) y) z) =
      262144 * (unat b - 240) + 4096 * (unat x - 128) + 64 * (unat y - 128) + (unat z - 128)"
    if "continuation x" "continuation y" "continuation z" for x y z
  proof -
    have "unat (utf8_step ?v0 x) < 2 ^ 20"
      using s1 [OF that(1)] assms that(1) by (simp add: continuation_def, linarith)
    note s2 = unat_utf8_step [OF this that(2)]
    then have "unat (utf8_step (utf8_step ?v0 x) y) < 2 ^ 20"
      using s1 [OF that(1)] assms that by (simp add: continuation_def, linarith)
    from unat_utf8_step [OF this that(3)] s2 s1 [OF that(1)] show ?thesis by simp
  qed
  show ?thesis
    unfolding multi_iff length_3 by (auto simp: word_unat_eq_iff [of v] word_le_nat_alt s3)
qed

text \<open>The arithmetic of the three multi-byte forms.\<close>

lemma cont_of_nat: "continuation (of_nat (128 + n mod 64))" and unat_cont: "unat (of_nat (128 + n mod 64) :: u8) = 128 + n mod 64"
proof -
  have "n mod 64 < 64" by simp
  then have "128 + n mod 64 < 256" by linarith
  then show u: "unat (of_nat (128 + n mod 64) :: u8) = 128 + n mod 64" by (rule u8_of_nat)
  show "continuation (of_nat (128 + n mod 64))"
    unfolding continuation_def u using \<open>n mod 64 < 64\<close> by linarith
qed

lemma utf8_1: "n < 0x80 \<Longrightarrow> utf8 n = [of_nat n]"
  by (simp add: utf8_def)

lemma utf8_2: "0x80 \<le> n \<Longrightarrow> n < 0x800 \<Longrightarrow> utf8 n = [of_nat (192 + n div 64), of_nat (128 + n mod 64)]"
  by (simp add: utf8_def)

lemma utf8_3:
  "0x800 \<le> n \<Longrightarrow> n < 0x10000 \<Longrightarrow>
     utf8 n = [of_nat (224 + n div 4096), of_nat (128 + n div 64 mod 64), of_nat (128 + n mod 64)]"
  by (simp add: utf8_def)

lemma utf8_4:
  "0x10000 \<le> n \<Longrightarrow>
     utf8 n = [of_nat (240 + n div 262144), of_nat (128 + n div 4096 mod 64), of_nat (128 + n div 64 mod 64), of_nat (128 + n mod 64)]"
  by (simp add: utf8_def)

lemma qr64: "r < 64 \<Longrightarrow> (64 * q + r) div 64 = q \<and> (64 * q + r) mod 64 = r" for q r :: nat
  by simp

lemma digits:
  "64 * (n div 64) + n mod 64 = n"
  "4096 * (n div 4096) + 64 * (n div 64 mod 64) + n mod 64 = n"
  "262144 * (n div 262144) + 4096 * (n div 4096 mod 64) + 64 * (n div 64 mod 64) + n mod 64 = n" for n :: nat
proof -
  show 1: "64 * (n div 64) + n mod 64 = n" by simp
  have "n div 64 div 64 = n div 4096" by (simp only: div_mult2_eq [symmetric]) simp
  then have a: "64 * (n div 4096) + n div 64 mod 64 = n div 64"
    using mult_div_mod_eq [of 64 "n div 64"] by simp
  have "n div 4096 div 64 = n div 262144" by (simp only: div_mult2_eq [symmetric]) simp
  then have b: "64 * (n div 262144) + n div 4096 mod 64 = n div 4096"
    using mult_div_mod_eq [of 64 "n div 4096"] by simp
  show "4096 * (n div 4096) + 64 * (n div 64 mod 64) + n mod 64 = n" using 1 a by linarith
  show "262144 * (n div 262144) + 4096 * (n div 4096 mod 64) + 64 * (n div 64 mod 64) + n mod 64 = n"
    using 1 a b by linarith
qed

lemma CBS_get_utf8_put:
  assumes valid: "is_valid_code_point v"
  shows "CBS_get_utf8 (utf8 (unat v) @ d) = (Some v, d)"
proof -
  let ?n = "unat v"
  have le: "?n \<le> 0x10ffff" by (rule valid_le) (rule valid)
  consider "?n < 0x80" | "0x80 \<le> ?n" "?n < 0x800" | "0x800 \<le> ?n" "?n < 0x10000" | "0x10000 \<le> ?n"
    by linarith
  then show ?thesis
  proof cases
    case 1
    have "unat (of_nat ?n :: u8) = ?n" using 1 by (intro u8_of_nat) linarith
    moreover from this have "ucast (of_nat ?n :: u8) = v" by (simp only: word_unat_eq_iff) simp
    ultimately show ?thesis using 1 by (simp add: utf8_1 get_utf8_Cons)
  next
    case 2
    define B X where BX: "B = (of_nat (192 + ?n div 64) :: u8)" "X = (of_nat (128 + ?n mod 64) :: u8)"
    have "?n div 64 < 32" using 2 by (intro less_mult_imp_div_less) simp
    moreover from this have b: "unat B = 192 + ?n div 64" unfolding BX by (intro u8_of_nat) linarith
    ultimately have range: "192 \<le> unat B" "unat B < 224" by linarith+
    have "unat v = 64 * (unat B - 192) + (unat X - 128)"
      using digits(1) [of ?n] by (simp add: b BX(2) unat_cont del: of_nat_add)
    then have "multi 1 (ucast (B AND BOTTOM_BITS 5)) 0x80 (X # d) = (Some v, d)"
      unfolding multi_1 [OF range] using 2 valid by (auto simp: BX(2) cont_of_nat simp del: of_nat_add)
    with range show ?thesis
      using 2 by (simp add: utf8_2 BX [symmetric] get_utf8_Cons del: of_nat_add)
  next
    case 3
    define B X Y where BX: "B = (of_nat (224 + ?n div 4096) :: u8)" "X = (of_nat (128 + ?n div 64 mod 64) :: u8)"
      "Y = (of_nat (128 + ?n mod 64) :: u8)"
    have "?n div 4096 < 16" using 3 by (intro less_mult_imp_div_less) simp
    moreover from this have b: "unat B = 224 + ?n div 4096" unfolding BX by (intro u8_of_nat) linarith
    ultimately have range: "224 \<le> unat B" "unat B < 240" by linarith+
    have "unat v = 4096 * (unat B - 224) + 64 * (unat X - 128) + (unat Y - 128)"
      using digits(2) [of ?n] by (simp add: b BX(2,3) unat_cont del: of_nat_add)
    then have "multi 2 (ucast (B AND BOTTOM_BITS 4)) 0x800 (X # Y # d) = (Some v, d)"
      unfolding multi_2 [OF range] using 3 valid by (auto simp: BX(2,3) cont_of_nat simp del: of_nat_add)
    with range show ?thesis
      using 3 by (simp add: utf8_3 BX [symmetric] get_utf8_Cons del: of_nat_add)
  next
    case 4
    define B X Y Z where BX: "B = (of_nat (240 + ?n div 262144) :: u8)" "X = (of_nat (128 + ?n div 4096 mod 64) :: u8)"
      "Y = (of_nat (128 + ?n div 64 mod 64) :: u8)" "Z = (of_nat (128 + ?n mod 64) :: u8)"
    have "?n div 262144 < 5" using le by (intro less_mult_imp_div_less) simp
    moreover from this have b: "unat B = 240 + ?n div 262144" unfolding BX by (intro u8_of_nat) linarith
    ultimately have range: "240 \<le> unat B" "unat B < 248" by linarith+
    have "unat v = 262144 * (unat B - 240) + 4096 * (unat X - 128) + 64 * (unat Y - 128) + (unat Z - 128)"
      using digits(3) [of ?n] by (simp add: b BX(2-4) unat_cont del: of_nat_add)
    then have "multi 3 (ucast (B AND BOTTOM_BITS 3)) 0x10000 (X # Y # Z # d) = (Some v, d)"
      unfolding multi_3 [OF range] using 4 valid by (auto simp: BX(2-4) cont_of_nat simp del: of_nat_add)
    with range show ?thesis
      using 4 by (simp add: utf8_4 BX [symmetric] get_utf8_Cons del: of_nat_add)
  qed
qed

lemma continuation_digit: "continuation x \<Longrightarrow> \<exists>k. x = of_nat (128 + k) \<and> unat x = 128 + k \<and> k < 64"
proof (intro exI conjI)
  assume x: "continuation x"
  then show "unat x = 128 + (unat x - 128)" "unat x - 128 < 64"
    by (simp_all add: continuation_def) linarith
  then have "of_nat (128 + (unat x - 128)) = (of_nat (unat x) :: u8)" by metis
  then show "x = of_nat (128 + (unat x - 128))" by simp
qed

lemma lead_digit: "m \<le> unat b \<Longrightarrow> \<exists>k. b = of_nat (m + k) \<and> unat b = m + k" for b :: u8
  by (rule exI [of _ "unat b - m"]) simp

lemma CBS_get_utf8_get:
  assumes get: "CBS_get_utf8 c = (Some v, d)"
  shows "is_valid_code_point v \<and> c = utf8 (unat v) @ d"
proof -
  obtain b c' where c: "c = b # c'" using get by (cases c) (auto simp: CBS_get_utf8_def)
  note get = get [unfolded c get_utf8_Cons]
  consider "unat b < 128" | "192 \<le> unat b" "unat b < 224" | "224 \<le> unat b" "unat b < 240" | "240 \<le> unat b" "unat b < 248"
    using get by (auto simp: not_less split: if_splits)
  then show ?thesis
  proof cases
    case 1
    with get have "unat v = unat b" and "c' = d" by (auto split: if_splits)
    with 1 show ?thesis by (simp add: c utf8_1 ascii_valid)
  next
    case 2
    with get multi_1 [of b c' v d] obtain x where c': "c' = x # d" and x: "continuation x"
      and v: "unat v = 64 * (unat b - 192) + (unat x - 128)" and valid: "is_valid_code_point v" "0x80 \<le> unat v"
      by auto
    from continuation_digit [OF x] lead_digit [OF 2(1)] obtain i k where
      i: "x = of_nat (128 + i)" "unat x = 128 + i" "i < 64" and k: "b = of_nat (192 + k)" "unat b = 192 + k" by blast
    have v: "unat v = 64 * k + i" using v by (simp add: i(2) k(2))
    moreover have "k \<le> 31" using k(2) 2 by simp
    moreover from this have "unat v < 0x800" using v i(3) by linarith
    ultimately show ?thesis
      using valid qr64 [OF i(3), of k] by (simp add: c c' utf8_2 i(1) k(1))
  next
    case 3
    with get multi_2 [of b c' v d] obtain x y where c': "c' = x # y # d" and xy: "continuation x" "continuation y"
      and v: "unat v = 4096 * (unat b - 224) + 64 * (unat x - 128) + (unat y - 128)" and valid: "is_valid_code_point v" "0x800 \<le> unat v"
      by auto
    from continuation_digit [OF xy(1)] continuation_digit [OF xy(2)] lead_digit [OF 3(1)] obtain i j k where
      i: "x = of_nat (128 + i)" "unat x = 128 + i" "i < 64" and j: "y = of_nat (128 + j)" "unat y = 128 + j" "j < 64"
      and k: "b = of_nat (224 + k)" "unat b = 224 + k" by blast
    have v: "unat v = 64 * (64 * k + i) + j" using v by (simp add: i(2) j(2) k(2))
    moreover have "k \<le> 15" "i \<le> 63" "j \<le> 63" using i(3) j(3) k(2) 3 by simp_all
    moreover from this have "unat v < 0x10000" unfolding v by simp
    moreover have "unat v div 64 = 64 * k + i" "unat v mod 64 = j" using qr64 [OF j(3)] by (simp_all only: v)
    moreover have "unat v div 4096 = unat v div 64 div 64" by (simp only: div_mult2_eq [symmetric]) simp
    ultimately show ?thesis
      using valid qr64 [OF i(3), of k] by (simp add: c c' utf8_3 i(1) j(1) k(1))
  next
    case 4
    with get multi_3 [of b c' v d] obtain x y z where c': "c' = x # y # z # d"
      and xyz: "continuation x" "continuation y" "continuation z"
      and v: "unat v = 262144 * (unat b - 240) + 4096 * (unat x - 128) + 64 * (unat y - 128) + (unat z - 128)"
      and valid: "is_valid_code_point v" "0x10000 \<le> unat v"
      by auto
    from continuation_digit [OF xyz(1)] continuation_digit [OF xyz(2)] continuation_digit [OF xyz(3)] lead_digit [OF 4(1)]
    obtain i j l k where i: "x = of_nat (128 + i)" "unat x = 128 + i" "i < 64"
      and j: "y = of_nat (128 + j)" "unat y = 128 + j" "j < 64" and l: "z = of_nat (128 + l)" "unat z = 128 + l" "l < 64"
      and k: "b = of_nat (240 + k)" "unat b = 240 + k" by blast
    have v: "unat v = 64 * (64 * (64 * k + i) + j) + l" using v by (simp add: i(2) j(2) k(2) l(2))
    have "unat v div 64 = 64 * (64 * k + i) + j" "unat v mod 64 = l" using qr64 [OF l(3)] by (simp_all only: v)
    moreover have "unat v div 4096 = unat v div 64 div 64" "unat v div 262144 = unat v div 64 div 64 div 64"
      by (simp_all only: div_mult2_eq [symmetric]) simp_all
    ultimately show ?thesis
      using valid qr64 [OF j(3), of "64 * k + i"] qr64 [OF i(3), of k]
      by (simp add: c c' utf8_4 i(1) j(1) k(1) l(1))
  qed
qed

interpretation utf8: codec CBS_get_utf8 "\<lambda>v. utf8 (unat v)" is_valid_code_point
  by unfold_locales (auto dest: CBS_get_utf8_suffix CBS_get_utf8_get CBS_get_utf8_put)

section \<open>The writers\<close>

lemma writer_refuse: "writer (\<lambda>c d. (None, c)) out False"
  by unfold_locales simp_all

lemma top_bits_wide:
  "ucast (TOP_BITS 1) = (push_bit 7 1 :: u32)" "ucast (TOP_BITS 2) = (push_bit 6 3 :: u32)"
  "ucast (TOP_BITS 3) = (push_bit 5 7 :: u32)" "ucast (TOP_BITS 4) = (push_bit 4 15 :: u32)"
  "ucast (BOTTOM_BITS 6) = (mask 6 :: u32)"
  by (simp_all add: BOTTOM_BITS_def TOP_BITS_def mask_eq_exp_minus_1)

lemma or_byte:
  assumes "unat x < 2 ^ k" and "unat q * 2 ^ k + unat x < 256"
  shows "(ucast (push_bit k q OR x :: u32) :: u8) = of_nat (unat q * 2 ^ k + unat x)"
proof -
  have "unat q * 2 ^ k + unat x < 2 ^ LENGTH(32)" using assms(2) by simp
  from unat_push_or [OF assms(1) this] assms(2) show ?thesis
    by (simp only: word_unat_eq_iff u8_of_nat [OF assms(2)] unsigned_ucast_eq) (simp add: take_bit_eq_mod)
qed

lemma unat_drop: "unat (drop_bit k u) = unat u div 2 ^ k" for u :: u32
  by (simp only: unat_drop_bit_eq) (simp only: drop_bit_eq_div)

lemma trail_byte: "(ucast (ucast (TOP_BITS 1) OR (x AND ucast (BOTTOM_BITS 6)) :: u32) :: u8) = of_nat (128 + unat x mod 64)"
proof -
  have m: "unat (x AND mask 6) = unat x mod 64" by (simp only: unat_and_mask) simp
  have lt: "unat x mod 64 < 64" by simp
  have "unat (x AND mask 6) < 2 ^ 7" and "unat (1 :: u32) * 2 ^ 7 + unat (x AND mask 6) < 256"
    unfolding m using lt by simp_all
  from or_byte [OF this] show ?thesis unfolding top_bits_wide m by simp
qed

lemma lead_bytes:
  "unat u < 0x800 \<Longrightarrow> (ucast (ucast (TOP_BITS 2) OR drop_bit 6 u :: u32) :: u8) = of_nat (192 + unat u div 64)"
  "unat u < 0x10000 \<Longrightarrow> (ucast (ucast (TOP_BITS 3) OR drop_bit 12 u :: u32) :: u8) = of_nat (224 + unat u div 4096)"
  "unat u \<le> 0x10ffff \<Longrightarrow> (ucast (ucast (TOP_BITS 4) OR drop_bit 18 u :: u32) :: u8) = of_nat (240 + unat u div 262144)"
proof -
  assume "unat u < 0x800"
  then have "unat u div 64 < 32" by (intro less_mult_imp_div_less) simp
  then have "unat (drop_bit 6 u) < 2 ^ 6" and "unat (3 :: u32) * 2 ^ 6 + unat (drop_bit 6 u) < 256"
    unfolding unat_drop by simp_all
  from or_byte [OF this] show "(ucast (ucast (TOP_BITS 2) OR drop_bit 6 u :: u32) :: u8) = of_nat (192 + unat u div 64)"
    unfolding top_bits_wide unat_drop by simp
next
  assume "unat u < 0x10000"
  then have "unat u div 4096 < 16" by (intro less_mult_imp_div_less) simp
  then have "unat (drop_bit 12 u) < 2 ^ 5" and "unat (7 :: u32) * 2 ^ 5 + unat (drop_bit 12 u) < 256"
    unfolding unat_drop by simp_all
  from or_byte [OF this] show "(ucast (ucast (TOP_BITS 3) OR drop_bit 12 u :: u32) :: u8) = of_nat (224 + unat u div 4096)"
    unfolding top_bits_wide unat_drop by simp
next
  assume "unat u \<le> 0x10ffff"
  then have "unat u div 262144 < 5" by (intro less_mult_imp_div_less) simp
  then have "unat (drop_bit 18 u) < 2 ^ 4" and "unat (15 :: u32) * 2 ^ 4 + unat (drop_bit 18 u) < 256"
    unfolding unat_drop by simp_all
  from or_byte [OF this] show "(ucast (ucast (TOP_BITS 4) OR drop_bit 18 u :: u32) :: u8) = of_nat (240 + unat u div 262144)"
    unfolding top_bits_wide unat_drop by simp
qed

lemma div_64_again: "unat (drop_bit 6 u) = unat u div 64" "unat (drop_bit 12 u) = unat u div 4096" for u :: u32
  by (simp_all add: unat_drop)

interpretation add_utf8: writer "\<lambda>c d. CBB_add_utf8 c d u" "utf8 (unat u)" "is_valid_code_point u"
proof (cases "is_valid_code_point u")
  case False
  then have "(\<lambda>c d. CBB_add_utf8 c d u) = (\<lambda>c d. (None, c))"
    by (simp add: CBB_add_utf8_def)
  then show "writer (\<lambda>c d. CBB_add_utf8 c d u) (utf8 (unat u)) (is_valid_code_point u)"
    using writer_refuse False by simp
next
  case valid: True
  then have le: "unat u \<le> 0x10ffff" by (rule valid_le)
  consider "unat u < 0x80" | "0x80 \<le> unat u" "unat u < 0x800" | "0x800 \<le> unat u" "unat u < 0x10000"
    | "0x10000 \<le> unat u"
    by linarith
  then have "writer (\<lambda>c d. CBB_add_utf8 c d u) (utf8 (unat u)) True"
  proof cases
    case 1
    then have guard: "(u \<le> 0x7f) = True"
      by (simp add: word_le_nat_alt)
    have "(\<lambda>c d. CBB_add_utf8 c d u) = (\<lambda>c d. CBB_add_u8 c d (of_nat (unat u)))"
      by (intro ext) (simp add: CBB_add_utf8_def valid guard)
    with writer_add_u8 [of "of_nat (unat u)"] show ?thesis
      by (simp only: utf8_1 [OF 1])
  next
    case 2
    then have guards: "(u \<le> 0x7f) = False" "(u \<le> 0x7ff) = True"
      by (simp_all add: word_le_nat_alt)
    have "(\<lambda>c d. CBB_add_utf8 c d u) = (\<lambda>c d. cbind (CBB_add_u8 c d (of_nat (192 + unat u div 64))) (\<lambda>_ c. CBB_add_u8 c d (of_nat (128 + unat u mod 64))))"
      by (intro ext) (simp only: CBB_add_utf8_def valid guards if_True if_False not_True_eq_False lead_bytes(1) [OF 2(2)] trail_byte div_64_again)
    with writer_seq [OF writer_add_u8 writer_add_u8, of "of_nat (192 + unat u div 64)" "of_nat (128 + unat u mod 64)"]
    show ?thesis by (simp only: utf8_2 [OF 2] append_Cons append_Nil simp_thms)
  next
    case 3
    then have guards: "(u \<le> 0x7f) = False" "(u \<le> 0x7ff) = False" "(u \<le> 0xffff) = True"
      by (simp_all add: word_le_nat_alt)
    have "(\<lambda>c d. CBB_add_utf8 c d u) = (\<lambda>c d. cbind (CBB_add_u8 c d (of_nat (224 + unat u div 4096))) (\<lambda>_ c. cbind (CBB_add_u8 c d (of_nat (128 + unat u div 64 mod 64))) (\<lambda>_ c. CBB_add_u8 c d (of_nat (128 + unat u mod 64)))))"
      by (intro ext) (simp only: CBB_add_utf8_def valid guards if_True if_False not_True_eq_False lead_bytes(2) [OF 3(2)] trail_byte div_64_again)
    with writer_seq [OF writer_add_u8 writer_seq [OF writer_add_u8 writer_add_u8], of "of_nat (224 + unat u div 4096)"
        "of_nat (128 + unat u div 64 mod 64)" "of_nat (128 + unat u mod 64)"]
    show ?thesis by (simp only: utf8_3 [OF 3] append_Cons append_Nil simp_thms)
  next
    case 4
    then have guards: "(u \<le> 0x7f) = False" "(u \<le> 0x7ff) = False" "(u \<le> 0xffff) = False"
      by (simp_all add: word_le_nat_alt)
    have le_word: "(u \<le> 0x10ffff) = True"
      using le by (simp add: word_le_nat_alt)
    have "(\<lambda>c d. CBB_add_utf8 c d u) = (\<lambda>c d. cbind (CBB_add_u8 c d (of_nat (240 + unat u div 262144))) (\<lambda>_ c. cbind (CBB_add_u8 c d (of_nat (128 + unat u div 4096 mod 64))) (\<lambda>_ c. cbind (CBB_add_u8 c d (of_nat (128 + unat u div 64 mod 64))) (\<lambda>_ c. CBB_add_u8 c d (of_nat (128 + unat u mod 64))))))"
      by (intro ext) (simp only: CBB_add_utf8_def valid guards if_True if_False not_True_eq_False le_word if_True lead_bytes(3) [OF le] trail_byte div_64_again)
    with writer_seq [OF writer_add_u8 writer_seq [OF writer_add_u8 writer_seq [OF writer_add_u8 writer_add_u8]],
        of "of_nat (240 + unat u div 262144)" "of_nat (128 + unat u div 4096 mod 64)" "of_nat (128 + unat u div 64 mod 64)" "of_nat (128 + unat u mod 64)"]
    show ?thesis by (simp only: utf8_4 [OF 4] append_Cons append_Nil simp_thms)
  qed
  with valid show "writer (\<lambda>c d. CBB_add_utf8 c d u) (utf8 (unat u)) (is_valid_code_point u)" by simp
qed

lemma length_utf8: "length (utf8 n) \<le> 4"
  by (simp add: utf8_def)

section \<open>Fixed-width encodings\<close>

lemma unat_be_word_take:
  "length bs \<le> 8 \<Longrightarrow> be_word bs = of_nat (be_nat bs)"
  using unat_be_word [of bs, symmetric] by simp

lemma CBS_get_u16_iff: "CBS_get_u16 c = (Some v, d) \<longleftrightarrow> c = be_bytes 2 (unat v) @ d"
proof
  assume "CBS_get_u16 c = (Some v, d)"
  then obtain bs where c: "c = bs @ d" "length bs = 2" and v: "v = ucast (be_word bs)"
    by (auto simp: CBS_get_u16_def cbs_get_u_def cbind_eq_Some cbs_get_iff)
  have "be_nat bs < 2 ^ 16" using be_nat_bound [of bs] c by simp
  then have "unat v = be_nat bs"
    using unat_be_word [of bs] c by (simp add: v unsigned_ucast_eq take_bit_eq_mod)
  then show "c = be_bytes 2 (unat v) @ d"
    using be_bytes_be_nat [of bs] c by simp
next
  assume c: "c = be_bytes 2 (unat v) @ d"
  have lt: "unat v < 2 ^ 16" using unsigned_less [of v, where ?'a = nat] by simp
  then have "unat (be_word (be_bytes 2 (unat v))) = unat v"
    by (simp add: unat_be_word be_nat_be_bytes)
  then have "ucast (be_word (be_bytes 2 (unat v))) = v"
    using lt by (simp add: word_unat_eq_iff unsigned_ucast_eq take_bit_eq_mod)
  moreover have "cbs_get c 2 = (Some (be_bytes 2 (unat v)), d)"
    using c by (simp add: cbs_get_iff)
  ultimately show "CBS_get_u16 c = (Some v, d)"
    by (simp add: CBS_get_u16_def cbs_get_u_def)
qed

lemma CBS_get_u32_iff: "CBS_get_u32 c = (Some v, d) \<longleftrightarrow> c = be_bytes 4 (unat v) @ d"
proof
  assume "CBS_get_u32 c = (Some v, d)"
  then obtain bs where c: "c = bs @ d" "length bs = 4" and v: "v = ucast (be_word bs)"
    by (auto simp: CBS_get_u32_def cbs_get_u_def cbind_eq_Some cbs_get_iff)
  have "be_nat bs < 2 ^ 32" using be_nat_bound [of bs] c by simp
  then have "unat v = be_nat bs"
    using unat_be_word [of bs] c by (simp add: v unsigned_ucast_eq take_bit_eq_mod)
  then show "c = be_bytes 4 (unat v) @ d"
    using be_bytes_be_nat [of bs] c by simp
next
  assume c: "c = be_bytes 4 (unat v) @ d"
  have lt: "unat v < 2 ^ 32" using unsigned_less [of v, where ?'a = nat] by simp
  then have "unat (be_word (be_bytes 4 (unat v))) = unat v"
    by (simp add: unat_be_word be_nat_be_bytes)
  then have "ucast (be_word (be_bytes 4 (unat v))) = v"
    using lt by (simp add: word_unat_eq_iff unsigned_ucast_eq take_bit_eq_mod)
  moreover have "cbs_get c 4 = (Some (be_bytes 4 (unat v)), d)"
    using c by (simp add: cbs_get_iff)
  ultimately show "CBS_get_u32 c = (Some v, d)"
    by (simp add: CBS_get_u32_def cbs_get_u_def)
qed

lemma cbs_get_suffix: "cbs_get c n = (r, d) \<Longrightarrow> suffix d c"
  by (auto simp: cbs_get_def suffix_drop split: if_splits)

lemma CBS_get_u16_suffix: "CBS_get_u16 c = (r, d) \<Longrightarrow> suffix d c"
  using cbs_get_suffix [of c 2] by (auto simp: CBS_get_u16_def cbs_get_u_def cbind_def split: prod.splits option.splits)

lemma CBS_get_u32_suffix: "CBS_get_u32 c = (r, d) \<Longrightarrow> suffix d c"
  using cbs_get_suffix [of c 4] by (auto simp: CBS_get_u32_def cbs_get_u_def cbind_def split: prod.splits option.splits)

interpretation u16: codec CBS_get_u16 "\<lambda>v. be_bytes 2 (unat v)" "\<lambda>_. True"
  by unfold_locales (auto simp: CBS_get_u16_iff dest: CBS_get_u16_suffix)

interpretation u32: codec CBS_get_u32 "\<lambda>v. be_bytes 4 (unat v)" "\<lambda>_. True"
  by unfold_locales (auto simp: CBS_get_u32_iff dest: CBS_get_u32_suffix)

lemma CBS_get_ucs2_be_iff:
  "CBS_get_ucs2_be c = (Some v, d) \<longleftrightarrow>
     is_valid_code_point v \<and> v \<le> 0xffff \<and> c = be_bytes 2 (unat v) @ d"
proof
  assume "CBS_get_ucs2_be c = (Some v, d)"
  then obtain w where "CBS_get_u16 c = (Some w, d)" and v: "v = ucast w" "is_valid_code_point v"
    by (auto simp: CBS_get_ucs2_be_def cbind_eq_Some split: if_splits)
  then have w: "c = be_bytes 2 (unat w) @ d" by (simp only: CBS_get_u16_iff)
  have "unat v = unat w" by (simp add: v)
  moreover have "unat w < 2 ^ 16" using unsigned_less [of w, where ?'a = nat] by simp
  ultimately show "is_valid_code_point v \<and> v \<le> 0xffff \<and> c = be_bytes 2 (unat v) @ d"
    using w v(2) by (simp add: word_le_nat_alt)
next
  assume a: "is_valid_code_point v \<and> v \<le> 0xffff \<and> c = be_bytes 2 (unat v) @ d"
  define w where "w = (ucast v :: u16)"
  have "unat w = unat v"
    using a by (simp add: w_def word_le_nat_alt unsigned_ucast_eq take_bit_eq_mod)
  moreover from this have "ucast w = v" by (simp add: word_unat_eq_iff)
  ultimately show "CBS_get_ucs2_be c = (Some v, d)"
    using a u16.get_put [of w d] by (simp add: CBS_get_ucs2_be_def)
qed

lemma CBS_get_utf32_be_iff:
  "CBS_get_utf32_be c = (Some v, d) \<longleftrightarrow> is_valid_code_point v \<and> c = be_bytes 4 (unat v) @ d"
  by (auto simp: CBS_get_utf32_be_def cbind_eq_Some CBS_get_u32_iff split: if_splits)

lemma CBS_get_ucs2_be_suffix: "CBS_get_ucs2_be c = (r, d) \<Longrightarrow> suffix d c"
  using CBS_get_u16_suffix [of c]
  by (auto simp: CBS_get_ucs2_be_def cbind_def split: prod.splits option.splits if_splits)

lemma CBS_get_utf32_be_suffix: "CBS_get_utf32_be c = (r, d) \<Longrightarrow> suffix d c"
  using CBS_get_u32_suffix [of c]
  by (auto simp: CBS_get_utf32_be_def cbind_def split: prod.splits option.splits if_splits)

interpretation ucs2: codec CBS_get_ucs2_be "\<lambda>v. be_bytes 2 (unat v)" "\<lambda>v. is_valid_code_point v \<and> v \<le> 0xffff"
  by unfold_locales (auto simp: CBS_get_ucs2_be_iff dest: CBS_get_ucs2_be_suffix)

interpretation utf32: codec CBS_get_utf32_be "\<lambda>v. be_bytes 4 (unat v)" is_valid_code_point
  by unfold_locales (auto simp: CBS_get_utf32_be_iff dest: CBS_get_utf32_be_suffix)

interpretation add_ucs2: writer "\<lambda>c d. CBB_add_ucs2_be c d u" "be_bytes 2 (unat u)" "u \<le> 0xffff \<and> is_valid_code_point u"
proof (cases "u \<le> 0xffff \<and> is_valid_code_point u")
  case True
  then have "unat (ucast u :: u16) = unat u"
    by (simp add: word_le_nat_alt unsigned_ucast_eq take_bit_eq_mod)
  with True add_u16.writer_axioms [of "ucast u"]
  show "writer (\<lambda>c d. CBB_add_ucs2_be c d u) (be_bytes 2 (unat u)) (u \<le> 0xffff \<and> is_valid_code_point u)"
    by (simp add: CBB_add_ucs2_be_def)
next
  case False
  then have "(\<lambda>c d. CBB_add_ucs2_be c d u) = (\<lambda>c d. (None, c))" by (intro ext) (simp only: CBB_add_ucs2_be_def if_False)
  with False writer_refuse
  show "writer (\<lambda>c d. CBB_add_ucs2_be c d u) (be_bytes 2 (unat u)) (u \<le> 0xffff \<and> is_valid_code_point u)"
    by (simp only: False)
qed

interpretation add_utf32: writer "\<lambda>c d. CBB_add_utf32_be c d u" "be_bytes 4 (unat u)" "is_valid_code_point u"
proof (cases "is_valid_code_point u")
  case True
  with add_u32.writer_axioms [of u]
  show "writer (\<lambda>c d. CBB_add_utf32_be c d u) (be_bytes 4 (unat u)) (is_valid_code_point u)"
    by (simp add: CBB_add_utf32_be_def)
next
  case False
  with writer_refuse
  show "writer (\<lambda>c d. CBB_add_utf32_be c d u) (be_bytes 4 (unat u)) (is_valid_code_point u)"
    by (simp add: CBB_add_utf32_be_def)
qed

section \<open>Properties\<close>

text \<open>
  the UTF-8 reader accepts exactly the shortest encoding of each valid code point:
  overlong forms, surrogates, noncharacters, stray continuation bytes and values above
  0x10ffff are all refused, and a string decodes completely exactly when it is the
  concatenation of such encodings.
\<close>

theorem utf8_string_canonical:
  "read_all (length c) CBS_get_utf8 c = Some vs \<longleftrightarrow>
     c = concat (map (\<lambda>v. utf8 (unat v)) vs) \<and> list_all is_valid_code_point vs"
proof
  assume "read_all (length c) CBS_get_utf8 c = Some vs"
  from utf8.read_all_canonical [OF this]
  show "c = concat (map (\<lambda>v. utf8 (unat v)) vs) \<and> list_all is_valid_code_point vs" .
next
  assume c: "c = concat (map (\<lambda>v. utf8 (unat v)) vs) \<and> list_all is_valid_code_point vs"
  have ne: "utf8 n \<noteq> []" for n by (simp add: utf8_def)
  have "length vs \<le> length (concat (map (\<lambda>v. utf8 (unat v)) vs))"
  proof (induction vs)
    case (Cons v vs)
    then show ?case using ne [of "unat v"] by (cases "utf8 (unat v)") simp_all
  qed simp
  with c ne show "read_all (length c) CBS_get_utf8 c = Some vs"
    by (intro utf8.read_all_put [of vs "length c", folded c [THEN conjunct1]]) (auto simp: list_all_iff)
qed

text \<open>
  every valid code point written by \<open>CBB_add_utf8\<close> is read back by \<open>CBS_get_utf8\<close>, and
  takes at most the four bytes that \<open>CBB_get_utf8_len\<close> announces.
\<close>

theorem utf8_roundtrip:
  assumes "is_valid_code_point u" and "n < size_max"
  shows "\<exists>w. build (CBB_init (\<lambda>_. True) n) (\<lambda>c d. CBB_add_utf8 c d u) = Some w \<and>
    CBS_get_utf8 (w @ rest) = (Some u, rest) \<and> length w = CBB_get_utf8_len u"
proof -
  have "length (utf8 (unat u)) < size_max"
    by (rule order_le_less_trans [OF length_utf8]) simp
  from build_total [OF add_utf8.writer_axioms this assms(2,1)] utf8.get_put [OF assms(1), of rest]
  show ?thesis
    by (auto simp: CBB_get_utf8_len_def utf8_def word_le_nat_alt)
qed

theorem utf8_roundtrip_witness:
  "\<exists>w. build (CBB_init (\<lambda>_. True) 0) (\<lambda>c d. CBB_add_utf8 c d 0x20ac) = Some w \<and>
    CBS_get_utf8 (w @ [0x21]) = (Some 0x20ac, [0x21]) \<and> length w = CBB_get_utf8_len 0x20ac"
  by (rule utf8_roundtrip) (simp_all add: is_valid_code_point_def)

text \<open>
  \<open>CBS_get_ucs2_be\<close> reads exactly the valid code points of the basic multilingual plane
  that \<open>CBB_add_ucs2_be\<close> writes: no surrogate half ever enters or leaves the program.
\<close>

theorem ucs2_roundtrip:
  assumes "is_valid_code_point u" and "u \<le> 0xffff" and "n < size_max"
  shows "\<exists>w. build (CBB_init (\<lambda>_. True) n) (\<lambda>c d. CBB_add_ucs2_be c d u) = Some w \<and>
    CBS_get_ucs2_be (w @ rest) = (Some u, rest) \<and> \<not> (0xd800 \<le> u \<and> u \<le> 0xdfff)"
proof -
  have "length (be_bytes 2 (unat u)) < size_max" and fits: "u \<le> 0xffff \<and> is_valid_code_point u"
    using assms by simp_all
  from build_total [OF add_ucs2.writer_axioms this(1) assms(3) fits] ucs2.get_put [of u rest] assms
  show ?thesis by (auto simp: is_valid_code_point_def)
qed

theorem ucs2_roundtrip_witness:
  "\<exists>w. build (CBB_init (\<lambda>_. True) 0) (\<lambda>c d. CBB_add_ucs2_be c d 0x20ac) = Some w \<and>
    CBS_get_ucs2_be (w @ [0x21]) = (Some 0x20ac, [0x21]) \<and> \<not> (0xd800 \<le> (0x20ac :: u32) \<and> (0x20ac :: u32) \<le> 0xdfff)"
  by (rule ucs2_roundtrip) (simp_all add: is_valid_code_point_def)

end
