(* ===== verification/Decimal.thy ===== *)
theory Decimal
  imports Cbs
begin

text \<open>
  Decimal numbers: the digits that the \<open>printf\<close> family of the C library writes for an unsigned value, and
  \<open>CBS_get_u64_decimal\<close> of \<open>crypto/bytestring/cbs.c\<close>, which reads exactly those.
\<close>

section \<open>Digits\<close>

fun dec_digits :: "nat \<Rightarrow> bytes" where
  "dec_digits n = (if n < 10 then [of_nat (48 + n)] else dec_digits (n div 10) @ [of_nat (48 + n mod 10)])"

declare dec_digits.simps [simp del]

lemma dec_digits_snoc: "10 \<le> n \<Longrightarrow> dec_digits n = dec_digits (n div 10) @ [of_nat (48 + n mod 10)]"
  by (subst dec_digits.simps) simp

lemma dec_digits_1: "n < 10 \<Longrightarrow> dec_digits n = [of_nat (48 + n)]"
  by (subst dec_digits.simps) simp

definition digit :: "u8 \<Rightarrow> bool" where
  "digit c \<longleftrightarrow> OPENSSL_isdigit (uint c)"

lemma digit_nat: "digit c \<longleftrightarrow> 48 \<le> unat c \<and> unat c \<le> 57"
  unfolding digit_def OPENSSL_isdigit_def uint_nat by linarith

lemma digit_of_nat: "k < 10 \<Longrightarrow> digit (of_nat (48 + k)) \<and> unat (of_nat (48 + k) :: u8) = 48 + k"
  by (simp add: digit_nat unat_of_nat del: of_nat_add)

lemma of_nat_digit: "digit c \<Longrightarrow> of_nat (48 + (unat c - 48)) = c"
  by (simp add: digit_nat del: of_nat_add)

lemma dec_digits_not_Nil [simp]: "dec_digits n \<noteq> []"
  by (cases "n < 10") (simp_all add: dec_digits_1 dec_digits_snoc)

section \<open>Reading\<close>

text \<open>One step of the loop accepts a digit exactly when the value has no leading zero and does not overflow.\<close>

lemma decimal_step:
  fixes v :: u64
  assumes "digit c"
  shows "(v > (- 1) div 10 \<or> v * 10 > (- 1) - (ucast c - 0x30)) \<longleftrightarrow> 2 ^ 64 \<le> unat v * 10 + (unat c - 48)"
    and "unat v * 10 + (unat c - 48) < 2 ^ 64 \<Longrightarrow> unat (v * 10 + (ucast c - 0x30)) = unat v * 10 + (unat c - 48)"
proof -
  define d where "d = unat c - 48"
  have c: "unat c = 48 + d" "d < 10" using assms by (auto simp: digit_nat d_def)
  have w: "ucast c - 0x30 = (of_nat d :: u64)"
  proof -
    have "ucast c = (of_nat (unat c) :: u64)" by (simp add: unat_ucast_widen word_unat_eq_iff unat_of_nat)
    then show ?thesis using c by simp
  qed
  have d: "unat (of_nat d :: u64) = d" using c by (simp add: unat_of_nat)
  have max: "unat ((- 1) div 10 :: u64) = 1844674407370955161" by (simp add: unat_div)
  have all: "unat (- 1 :: u64) = 18446744073709551615" by (simp add: unsigned_minus_1_eq_mask mask_eq_exp_minus_1)
  have sub: "unat (- 1 - of_nat d :: u64) = 18446744073709551615 - d"
    using c(2) by (subst unat_sub) (simp_all only: word_le_nat_alt all d)
  show "(v > (- 1) div 10 \<or> v * 10 > (- 1) - (ucast c - 0x30)) \<longleftrightarrow> 2 ^ 64 \<le> unat v * 10 + (unat c - 48)"
  proof (cases "v > (- 1) div 10")
    case True
    then have "1844674407370955161 < unat v" unfolding word_less_nat_alt max .
    then show ?thesis using True by simp
  next
    case False
    then have "unat v \<le> 1844674407370955161" unfolding word_less_nat_alt max by simp
    then have "unat (v * 10) = unat v * 10" by (simp add: unat_word_ariths)
    then have "v * 10 > (- 1) - (ucast c - 0x30) \<longleftrightarrow> 18446744073709551615 - d < unat v * 10"
      unfolding word_less_nat_alt w sub by simp
    then show ?thesis using False c by (auto simp: d_def [symmetric])
  qed
  assume "unat v * 10 + (unat c - 48) < 2 ^ 64"
  then have "(unat v * 10 + d) mod 2 ^ 64 = unat v * 10 + d" by (simp add: d_def)
  moreover have "unat (v * 10 + of_nat d) = (unat v * 10 + d) mod 2 ^ 64"
    unfolding unat_word_ariths d by (simp add: mod_simps)
  ultimately show "unat (v * 10 + (ucast c - 0x30)) = unat v * 10 + (unat c - 48)"
    unfolding w by (simp add: d_def)
qed

definition stops :: "bytes \<Rightarrow> bool" where
  "stops rest \<longleftrightarrow> (case rest of [] \<Rightarrow> True | c # _ \<Rightarrow> \<not> digit c)"

lemma decimal_loop_stops: "stops rest \<Longrightarrow> get_u64_decimal_loop v True rest = (Some v, rest)"
  by (cases rest) (simp_all add: stops_def digit_def)

lemma word_of_nat_unat_id: "unat w = n \<Longrightarrow> of_nat n = w" for w :: u64
  by auto

lemma decimal_loop_digit:
  "digit c \<Longrightarrow> v \<noteq> 0 \<or> \<not> seen \<Longrightarrow> unat v * 10 + (unat c - 48) < 2 ^ 64 \<Longrightarrow>
    get_u64_decimal_loop v seen (c # cbs) = get_u64_decimal_loop (of_nat (unat v * 10 + (unat c - 48))) True cbs"
proof -
  assume h: "digit c" "v \<noteq> 0 \<or> \<not> seen" "unat v * 10 + (unat c - 48) < 2 ^ 64"
  have "of_nat (unat v * 10 + (unat c - 48)) = v * 10 + (ucast c - 0x30)"
    using decimal_step(2) [OF h(1,3)] by (metis word_of_nat_unat_id)
  moreover have "\<not> (v > (- 1) div 10 \<or> v * 10 > (- 1) - (ucast c - 0x30))"
    using decimal_step(1) [OF h(1), of v] h(3) by simp
  ultimately show ?thesis using h(1,2) by (auto simp: digit_def [symmetric] simp del: of_nat_add of_nat_mult)
qed

lemma decimal_loop_encode:
  "n < 2 ^ 64 \<Longrightarrow> get_u64_decimal_loop 0 False (dec_digits n @ cbs) = get_u64_decimal_loop (of_nat n) True cbs"
proof (induction n arbitrary: cbs rule: less_induct)
  case (less n)
  show ?case
  proof (cases "n < 10")
    case True
    then show ?thesis
      using decimal_loop_digit [of "of_nat (48 + n)" 0 False cbs] digit_of_nat [of n] by (simp add: dec_digits_1 del: of_nat_add)
  next
    case False
    let ?d = "of_nat (48 + n mod 10) :: u8"
    have d: "digit ?d" "unat ?d = 48 + n mod 10" using digit_of_nat [of "n mod 10"] by simp_all
    have q: "n div 10 < n" "n div 10 \<noteq> 0" "n div 10 < 2 ^ 64" using False less.prems by auto
    have v: "unat (of_nat (n div 10) :: u64) = n div 10" using q(3) by (simp add: unat_of_nat)
    then have "(of_nat (n div 10) :: u64) \<noteq> 0" using q(2) by (metis unat_0)
    then show ?thesis
      using less.IH [OF q(1,3), of "?d # cbs"] decimal_loop_digit [OF d(1), of "of_nat (n div 10)" True cbs] False less.prems
      by (simp add: dec_digits_snoc v d(2) del: of_nat_add)
  qed
qed

lemma decimal_loop_decode:
  "get_u64_decimal_loop v seen cbs = (Some r, rest) \<Longrightarrow> seen \<or> v = 0 \<Longrightarrow>
    stops rest \<and> (\<exists>ds. cbs = ds @ rest \<and> (if seen then dec_digits (unat v) else []) @ ds = dec_digits (unat r))"
proof (induction v seen cbs rule: get_u64_decimal_loop.induct)
  case (1 v seen)
  then show ?case by (simp add: stops_def split: if_splits)
next
  case (2 v seen c cbs)
  show ?case
  proof (cases "digit c")
    case False
    then show ?thesis using 2(2) by (auto simp: stops_def digit_def split: if_splits)
  next
    case True
    let ?v = "v * 10 + (ucast c - 0x30)"
    have ok: "\<not> (v = 0 \<and> seen)" "\<not> (v > (- 1) div 10 \<or> v * 10 > (- 1) - (ucast c - 0x30))"
      and rec: "get_u64_decimal_loop ?v True cbs = (Some r, rest)"
      using 2(2) True by (auto simp: digit_def split: if_splits)
    have val: "unat ?v = unat v * 10 + (unat c - 48)" using decimal_step [OF True, of v] ok(2) by simp
    have c: "unat c - 48 < 10" using True unfolding digit_nat by linarith
    have "dec_digits (unat ?v) = (if seen then dec_digits (unat v) else []) @ [c]"
    proof (cases seen)
      case True
      then have "unat v \<noteq> 0" using ok(1) by (simp add: unat_eq_zero)
      then have "10 \<le> unat ?v" "unat ?v div 10 = unat v" "unat ?v mod 10 = unat c - 48" using c by (simp_all add: val)
      then show ?thesis using True of_nat_digit [OF \<open>digit c\<close>] by (simp add: dec_digits_snoc del: of_nat_add)
    next
      case False
      then have "unat ?v = unat c - 48" using 2(3) val by simp
      then show ?thesis using False c of_nat_digit [OF \<open>digit c\<close>] by (simp add: dec_digits_1 del: of_nat_add)
    qed
    moreover have "stops rest \<and> (\<exists>ds. cbs = ds @ rest \<and> dec_digits (unat ?v) @ ds = dec_digits (unat r))"
      using "2.IH" [OF _ _ rec] True ok by (simp add: digit_def)
    ultimately show ?thesis by (metis append_Cons append_assoc append_Nil)
  qed
qed

lemma decimal_iff:
  "CBS_get_u64_decimal cbs = (Some v, rest) \<longleftrightarrow> cbs = dec_digits (unat v) @ rest \<and> stops rest"
proof
  assume "CBS_get_u64_decimal cbs = (Some v, rest)"
  then show "cbs = dec_digits (unat v) @ rest \<and> stops rest"
    using decimal_loop_decode [of 0 False cbs v rest] by (auto simp: CBS_get_u64_decimal_def)
next
  assume "cbs = dec_digits (unat v) @ rest \<and> stops rest"
  then show "CBS_get_u64_decimal cbs = (Some v, rest)"
    using decimal_loop_encode [of "unat v" rest] decimal_loop_stops [of rest v] unsigned_less [of v]
    by (simp add: CBS_get_u64_decimal_def)
qed

lemma decimal_loop_suffix: "get_u64_decimal_loop v seen cbs = (r, rest) \<Longrightarrow> suffix rest cbs"
  by (induction v seen cbs rule: get_u64_decimal_loop.induct) (auto simp: suffix_ConsI split: if_splits)

end
