(* ===== verification/Oid.thy ===== *)
theory Oid
  imports Unicode Decimal
begin

text \<open>
  Object identifiers as text: \<open>CBS_asn1_oid_to_text\<close> of \<open>crypto/bytestring/cbs.c\<close> and
  \<open>CBB_add_asn1_oid_from_text\<close> of \<open>crypto/bytestring/cbb.c\<close>, which translate between the DER contents and the
  dotted decimal notation.
\<close>

section \<open>The code\<close>

text \<open>The buffer of \<open>snprintf\<close> has room for every 64-bit number.\<close>

definition add_decimal :: "CBB \<Rightarrow> nat \<Rightarrow> u64 \<Rightarrow> (unit, CBB) cres" where
  "add_decimal out d v = CBB_add_bytes out d (dec_digits (unat v))"

lemma base128_length: "parse_base128_integer c = (Some v, c') \<Longrightarrow> length c' < length c"
  by (cases "base128 (unat v) = []") (auto dest!: parse_base128_decode simp: base128_def)

text \<open>\<open>d\<close> is the handle of the builder, here and below.\<close>

function oid_to_text_loop :: "CBB \<Rightarrow> nat \<Rightarrow> CBS \<Rightarrow> (unit, CBB) cres" where
  "oid_to_text_loop cbb d copy =
     (if length copy = 0 then (Some (), cbb)
      else case parse_base128_integer copy of
             (None, _) \<Rightarrow> (None, cbb)
           | (Some v, copy) \<Rightarrow>
               cbind (CBB_add_u8 cbb d 46) (\<lambda>_ cbb.
               cbind (add_decimal cbb d v) (\<lambda>_ cbb.
                 oid_to_text_loop cbb d copy)))"
  by pat_completeness auto
termination
  by (relation "measure (\<lambda>(_, _, copy). length copy)") (auto dest: base128_length [OF sym])

declare oid_to_text_loop.simps [simp del]

text \<open>What is written for the first number and the rest, up to the NUL.\<close>

definition oid_to_text_body :: "CBB \<Rightarrow> nat \<Rightarrow> u64 \<Rightarrow> CBS \<Rightarrow> (unit, CBB) cres" where
  "oid_to_text_body cbb d v copy =
     cbind
       (if v \<ge> 80 then
          cbind (CBB_add_bytes cbb d [50, 46]) (\<lambda>_ cbb. add_decimal cbb d (v - 80))
        else
          cbind (add_decimal cbb d (v div 40)) (\<lambda>_ cbb.
          cbind (CBB_add_u8 cbb d 46) (\<lambda>_ cbb. add_decimal cbb d (v mod 40))))
       (\<lambda>_ cbb. cbind (oid_to_text_loop cbb d copy) (\<lambda>_ cbb. CBB_add_u8 cbb d 0))"

text \<open>The result is the new string with its NUL; \<open>alloc_ok\<close> is the allocator of the builder.\<close>

definition CBS_asn1_oid_to_text :: "(nat \<Rightarrow> bool) \<Rightarrow> CBS \<Rightarrow> bytes option" where
  "CBS_asn1_oid_to_text alloc_ok cbs =
     (case CBB_init alloc_ok 32 of
        None \<Rightarrow> None
      | Some cbb \<Rightarrow>
          (case parse_base128_integer cbs of
             (None, _) \<Rightarrow> None
           | (Some v, copy) \<Rightarrow>
               (case oid_to_text_body cbb 0 v copy of
                  (None, _) \<Rightarrow> None
                | (Some _, cbb) \<Rightarrow> CBB_finish cbb 0 True)))"

definition parse_dotted_decimal :: "CBS \<Rightarrow> (u64, CBS) cres" where
  "parse_dotted_decimal cbs =
     cbind (CBS_get_u64_decimal cbs) (\<lambda>out cbs.
       case CBS_get_u8 cbs of
         (None, cbs) \<Rightarrow> (Some out, cbs)
       | (Some dot, cbs) \<Rightarrow> if dot = 46 \<and> length cbs > 0 then (Some out, cbs) else (None, cbs))"

lemma dotted_iff:
  "parse_dotted_decimal cbs = (Some v, rest) \<longleftrightarrow>
     cbs = dec_digits (unat v) @ (if rest = [] then [] else 46 # rest)"
proof -
  define tail where "tail c = (case CBS_get_u8 c of
         (None, cbs) \<Rightarrow> (Some v, cbs)
       | (Some dot, cbs) \<Rightarrow> if dot = 46 \<and> length cbs > 0 then (Some v, cbs) else (None, cbs))" for c
  have tail: "stops c \<and> tail c = (Some v, rest) \<longleftrightarrow> c = (if rest = [] then [] else 46 # rest)" for c
    by (cases c) (auto simp: tail_def CBS_get_u8_Cons CBS_get_u8_Nil stops_def digit_def OPENSSL_isdigit_def split: if_splits)
  have "parse_dotted_decimal cbs = (Some v, rest) \<longleftrightarrow> (\<exists>c. cbs = dec_digits (unat v) @ c \<and> (stops c \<and> tail c = (Some v, rest)))"
  proof
    assume "parse_dotted_decimal cbs = (Some v, rest)"
    then obtain a c where get: "CBS_get_u64_decimal cbs = (Some a, c)"
      and dot: "(case CBS_get_u8 c of (None, cbs) \<Rightarrow> (Some a, cbs)
         | (Some dot, cbs) \<Rightarrow> if dot = 46 \<and> length cbs > 0 then (Some a, cbs) else (None, cbs)) = (Some v, rest)"
      by (auto simp: parse_dotted_decimal_def cbind_eq_Some)
    then have "a = v" by (auto split: prod.splits option.splits if_splits)
    then show "\<exists>c. cbs = dec_digits (unat v) @ c \<and> (stops c \<and> tail c = (Some v, rest))"
      using get dot by (auto simp: tail_def decimal_iff)
  next
    assume "\<exists>c. cbs = dec_digits (unat v) @ c \<and> (stops c \<and> tail c = (Some v, rest))"
    then obtain c where "CBS_get_u64_decimal cbs = (Some v, c)" "tail c = (Some v, rest)" by (auto simp: decimal_iff)
    then show "parse_dotted_decimal cbs = (Some v, rest)" by (simp add: parse_dotted_decimal_def tail_def)
  qed
  then show ?thesis unfolding tail by auto
qed

lemma dotted_length: "parse_dotted_decimal c = (Some v, c') \<Longrightarrow> length c' < length c"
  unfolding dotted_iff by (auto split: if_splits)

function oid_from_text_loop :: "CBB \<Rightarrow> nat \<Rightarrow> CBS \<Rightarrow> (unit, CBB) cres" where
  "oid_from_text_loop cbb d cbs =
     (if length cbs > 0 then
        (case parse_dotted_decimal cbs of
           (None, _) \<Rightarrow> (None, cbb)
         | (Some a, cbs) \<Rightarrow> cbind (add_base128_integer cbb d a) (\<lambda>_ cbb. oid_from_text_loop cbb d cbs))
      else (Some (), cbb))"
  by pat_completeness auto
termination
  by (relation "measure (\<lambda>(_, _, cbs). length cbs)") (auto dest: dotted_length [OF sym])

declare oid_from_text_loop.simps [simp del]

definition CBB_add_asn1_oid_from_text :: "CBB \<Rightarrow> nat \<Rightarrow> bytes \<Rightarrow> (unit, CBB) cres" where
  "CBB_add_asn1_oid_from_text cbb d text =
     cbind (CBB_flush cbb d) (\<lambda>_ cbb.
       case cbind (parse_dotted_decimal text) (\<lambda>a cbs. cbind (parse_dotted_decimal cbs) (\<lambda>b cbs. (Some (a, b), cbs))) of
         (None, _) \<Rightarrow> (None, cbb)
       | (Some (a, b), cbs) \<Rightarrow>
           if a > 2 \<or> (a < 2 \<and> b > 39) \<or> b > - 1 - 80 then (None, cbb)
           else cbind (add_base128_integer cbb d (40 * a + b)) (\<lambda>_ cbb. oid_from_text_loop cbb d cbs))"

section \<open>Components\<close>

text \<open>
  An object identifier is the list of its components. Its DER contents are the base-128 numbers, the first two
  components in one; its text are the decimal numbers with dots between them.
\<close>

definition oid_ok :: "nat list \<Rightarrow> bool" where
  "oid_ok cs \<longleftrightarrow> (\<exists>a b rest. cs = a # b # rest \<and> a \<le> 2 \<and> (a < 2 \<longrightarrow> b < 40) \<and> 40 * a + b < 2 ^ 64 \<and> (\<forall>c\<in>set rest. c < 2 ^ 64))"

fun oid_der :: "nat list \<Rightarrow> bytes" where
  "oid_der (a # b # rest) = base128 (40 * a + b) @ concat (map base128 rest)"
| "oid_der _ = []"

fun oid_text :: "nat list \<Rightarrow> bytes" where
  "oid_text [] = []"
| "oid_text [c] = dec_digits c"
| "oid_text (c # cs) = dec_digits c @ 46 # oid_text cs"

text \<open>The numbers that \<open>get\<close> reads up to the end or a failure, and whether it reaches the end.\<close>

fun arcs :: "nat \<Rightarrow> (bytes \<Rightarrow> (u64, bytes) cres) \<Rightarrow> bytes \<Rightarrow> u64 list \<times> bool" where
  "arcs n get [] = ([], True)"
| "arcs 0 get (b # bs) = ([], False)"
| "arcs (Suc n) get (b # bs) =
     (case get (b # bs) of
        (None, _) \<Rightarrow> ([], False)
      | (Some v, rest) \<Rightarrow> (v # fst (arcs n get rest), snd (arcs n get rest)))"

lemma arcs_step:
  "get c = (Some v, rest) \<Longrightarrow> length rest < length c \<Longrightarrow>
    arcs (Suc n) get c = (v # fst (arcs n get rest), snd (arcs n get rest))"
  by (cases c) simp_all

lemma arcs_base128_step:
  "parse_base128_integer c = (Some v, rest) \<Longrightarrow>
    arcs (Suc n) parse_base128_integer c = (v # fst (arcs n parse_base128_integer rest), snd (arcs n parse_base128_integer rest))"
  by (rule arcs_step) (auto intro: base128_length)

lemma arcs_dotted_step:
  "parse_dotted_decimal c = (Some v, rest) \<Longrightarrow>
    arcs (Suc n) parse_dotted_decimal c = (v # fst (arcs n parse_dotted_decimal rest), snd (arcs n parse_dotted_decimal rest))"
  by (rule arcs_step) (auto intro: dotted_length)

lemma arcs_base128:
  "length c \<le> n \<Longrightarrow> snd (arcs n parse_base128_integer c) \<Longrightarrow>
    c = concat (map (\<lambda>v. base128 (unat v)) (fst (arcs n parse_base128_integer c)))"
proof (induction n arbitrary: c)
  case (Suc n)
  show ?case
  proof (cases c)
    case (Cons b bs)
    then obtain v rest where get: "parse_base128_integer c = (Some v, rest)"
      using Suc.prems(2) by (auto split: prod.splits option.splits)
    note a = arcs_base128_step [OF get, of n]
    have "length rest \<le> n" using base128_length [OF get] Suc.prems(1) by simp
    then have "rest = concat (map (\<lambda>v. base128 (unat v)) (fst (arcs n parse_base128_integer rest)))"
      using Suc.IH [of rest] Suc.prems(2) a by simp
    then show ?thesis using parse_base128_decode [OF get] unfolding a fst_conv list.map concat.simps by metis
  qed simp
qed simp

lemma arcs_base128_encode:
  "length c \<le> n \<Longrightarrow> c = concat (map (\<lambda>v. base128 (unat v)) vs) \<Longrightarrow> arcs n parse_base128_integer c = (vs, True)"
proof (induction vs arbitrary: c n)
  case (Cons v vs)
  have get: "parse_base128_integer c = (Some v, concat (map (\<lambda>v. base128 (unat v)) vs))"
    using Cons.prems(2) parse_base128_encode [of "unat v"] unsigned_less [of v] by simp
  obtain b bs where c: "c = b # bs" using base128_length [OF get] by (cases c) auto
  then obtain m where n: "n = Suc m" using Cons.prems(1) by (cases n) auto
  show ?case using Cons.IH [of "concat (map (\<lambda>v. base128 (unat v)) vs)" m] get base128_length [OF get] Cons.prems(1) c n by simp
qed (simp add: arcs.simps)

lemma oid_text_Cons: "oid_text (c # cs) = dec_digits c @ (if cs = [] then [] else 46 # oid_text cs)"
  by (cases cs) simp_all

lemma oid_text_Nil: "oid_text cs = [] \<longleftrightarrow> cs = []"
  by (cases cs) (simp_all add: oid_text_Cons)

lemma text_step:
  "c = ds @ (if rest = [] then [] else 46 # rest) \<Longrightarrow> rest = t \<Longrightarrow> (t = [] \<longleftrightarrow> vs = []) \<Longrightarrow>
    c = ds @ (if vs = [] then [] else 46 # t)"
  by simp

lemma arcs_dotted:
  "length c \<le> n \<Longrightarrow> snd (arcs n parse_dotted_decimal c) \<Longrightarrow> c = oid_text (map unat (fst (arcs n parse_dotted_decimal c)))"
proof (induction n arbitrary: c)
  case (Suc n)
  show ?case
  proof (cases c)
    case (Cons b bs)
    then obtain v rest where get: "parse_dotted_decimal c = (Some v, rest)"
      using Suc.prems(2) by (auto split: prod.splits option.splits)
    note a = arcs_dotted_step [OF get, of n]
    have "length rest \<le> n" using dotted_length [OF get] Suc.prems(1) by simp
    then have r: "rest = oid_text (map unat (fst (arcs n parse_dotted_decimal rest)))"
      using Suc.IH [of rest] Suc.prems(2) a by simp
    then show ?thesis using text_step [OF get [unfolded dotted_iff] r] oid_text_Nil unfolding a fst_conv list.map oid_text_Cons by blast
  qed simp
qed simp

lemma arcs_dotted_encode:
  "length c \<le> n \<Longrightarrow> c = oid_text (map unat vs) \<Longrightarrow> arcs n parse_dotted_decimal c = (vs, True)"
proof (induction vs arbitrary: c n)
  case (Cons v vs)
  have get: "parse_dotted_decimal c = (Some v, oid_text (map unat vs))"
    using Cons.prems(2) by (simp add: dotted_iff oid_text_Cons oid_text_Nil)
  obtain b bs where c: "c = b # bs" using dotted_length [OF get] by (cases c) auto
  then obtain m where n: "n = Suc m" using Cons.prems(1) by (cases n) auto
  show ?case using Cons.IH [of "oid_text (map unat vs)" m] get dotted_length [OF get] Cons.prems(1) c n by simp
qed (simp add: arcs.simps)

section \<open>Writers\<close>

interpretation add_decimal: writer "\<lambda>c d. add_decimal c d v" "dec_digits (unat v)" True
  using add_bytes.writer_axioms by (simp add: add_decimal_def)

lemma to_text_loop_writer:
  assumes "writer op out fits" "length copy \<le> n"
  shows "writer (\<lambda>c d. cbind (op c d) (\<lambda>_ c. oid_to_text_loop c d copy))
    (out @ concat (map (\<lambda>v. 46 # dec_digits (unat v)) (fst (arcs n parse_base128_integer copy))))
    (fits \<and> snd (arcs n parse_base128_integer copy))"
  using assms
proof (induction n arbitrary: op out fits copy)
  case 0
  then show ?case by (simp add: oid_to_text_loop.simps cbind_unit)
next
  case (Suc n)
  show ?case
  proof (cases copy)
    case Nil
    then show ?thesis using Suc.prems(1) by (simp add: oid_to_text_loop.simps cbind_unit)
  next
    case (Cons b bs)
    obtain r rest where get: "parse_base128_integer (b # bs) = (r, rest)" by (cases "parse_base128_integer (b # bs)")
    show ?thesis
    proof (cases r)
      case None
      have "writer (\<lambda>c d. cbind (op c d) (\<lambda>_ c. (None, c))) (out @ []) (fits \<and> False)"
        by (rule writer_seq [OF Suc.prems(1), of "\<lambda>c d. (None, c)", OF writer_refuse])
      then show ?thesis using get None Cons by (simp add: oid_to_text_loop.simps)
    next
      case (Some v)
      have len: "length rest \<le> n" using base128_length [of "b # bs" v rest] get Some Suc.prems(2) Cons by simp
      note step = writer_seq [OF Suc.prems(1) writer_seq [OF writer_add_u8 [of 46] add_decimal.writer_axioms [of v]]]
      show ?thesis
        by (rule writer_cong [OF Suc.IH [OF step len]])
          (use get Some Cons in \<open>auto simp: oid_to_text_loop.simps [of _ _ "b # bs"] cbind_assoc intro!: ext\<close>)
    qed
  qed
qed

lemma from_text_loop_writer:
  assumes "writer op out fits" "length cbs \<le> n"
  shows "writer (\<lambda>c d. cbind (op c d) (\<lambda>_ c. oid_from_text_loop c d cbs))
    (out @ concat (map (\<lambda>v. base128 (unat v)) (fst (arcs n parse_dotted_decimal cbs))))
    (fits \<and> snd (arcs n parse_dotted_decimal cbs))"
  using assms
proof (induction n arbitrary: op out fits cbs)
  case 0
  then show ?case by (simp add: oid_from_text_loop.simps cbind_unit)
next
  case (Suc n)
  show ?case
  proof (cases cbs)
    case Nil
    then show ?thesis using Suc.prems(1) by (simp add: oid_from_text_loop.simps cbind_unit)
  next
    case (Cons b bs)
    obtain r rest where get: "parse_dotted_decimal (b # bs) = (r, rest)" by (cases "parse_dotted_decimal (b # bs)")
    show ?thesis
    proof (cases r)
      case None
      have "writer (\<lambda>c d. cbind (op c d) (\<lambda>_ c. (None, c))) (out @ []) (fits \<and> False)"
        by (rule writer_seq [OF Suc.prems(1), of "\<lambda>c d. (None, c)", OF writer_refuse])
      then show ?thesis using get None Cons by (simp add: oid_from_text_loop.simps)
    next
      case (Some v)
      have len: "length rest \<le> n" using dotted_length [of "b # bs" v rest] get Some Suc.prems(2) Cons by simp
      note step = writer_seq [OF Suc.prems(1) add_base128.writer_axioms [of v]]
      show ?thesis
        by (rule writer_cong [OF Suc.IH [OF step len]])
          (use get Some Cons in \<open>auto simp: oid_from_text_loop.simps [of _ _ "b # bs"] cbind_assoc intro!: ext\<close>)
    qed
  qed
qed

text \<open>Neither loop succeeds on an input that does not parse.\<close>

lemma to_text_loop_parses:
  "oid_to_text_loop c d copy = (Some u, c') \<Longrightarrow> length copy \<le> n \<Longrightarrow> snd (arcs n parse_base128_integer copy)"
proof (induction n arbitrary: c copy)
  case (Suc n)
  show ?case
  proof (cases copy)
    case (Cons b bs)
    then obtain v rest where get: "parse_base128_integer copy = (Some v, rest)"
      using Suc.prems(1) by (subst (asm) oid_to_text_loop.simps) (auto split: prod.splits option.splits)
    then obtain c2 where "oid_to_text_loop c2 d rest = (Some u, c')"
      using Suc.prems(1) Cons by (subst (asm) oid_to_text_loop.simps) (auto simp: cbind_eq_Some)
    then show ?thesis using Suc.IH [of c2 rest] base128_length [OF get] Suc.prems(2)
      by (simp add: arcs_base128_step [OF get])
  qed simp
qed simp

lemma from_text_loop_parses:
  "oid_from_text_loop c d cbs = (Some u, c') \<Longrightarrow> length cbs \<le> n \<Longrightarrow> snd (arcs n parse_dotted_decimal cbs)"
proof (induction n arbitrary: c cbs)
  case (Suc n)
  show ?case
  proof (cases cbs)
    case (Cons b bs)
    then obtain v rest where get: "parse_dotted_decimal cbs = (Some v, rest)"
      using Suc.prems(1) by (subst (asm) oid_from_text_loop.simps) (auto split: prod.splits option.splits)
    then obtain c2 where "oid_from_text_loop c2 d rest = (Some u, c')"
      using Suc.prems(1) Cons by (subst (asm) oid_from_text_loop.simps) (auto simp: cbind_eq_Some)
    then show ?thesis using Suc.IH [of c2 rest] dotted_length [OF get] Suc.prems(2)
      by (simp add: arcs_dotted_step [OF get])
  qed simp
qed simp

text \<open>The text of the first number and of a list of further ones.\<close>

definition first_text :: "u64 \<Rightarrow> bytes" where
  "first_text v = (if v \<ge> 80 then [50, 46] @ dec_digits (unat (v - 80))
     else dec_digits (unat (v div 40)) @ 46 # dec_digits (unat (v mod 40)))"

lemma to_text_body_writer:
  assumes "length copy \<le> n"
  shows "writer (\<lambda>c d. oid_to_text_body c d v copy)
    (first_text v @ concat (map (\<lambda>v. 46 # dec_digits (unat v)) (fst (arcs n parse_base128_integer copy))) @ [0])
    (snd (arcs n parse_base128_integer copy))"
proof -
  define first where "first c d =
       (if v \<ge> 80 then cbind (CBB_add_bytes c d [50, 46]) (\<lambda>_ c. add_decimal c d (v - 80))
        else cbind (add_decimal c d (v div 40)) (\<lambda>_ c. cbind (CBB_add_u8 c d 46) (\<lambda>_ c. add_decimal c d (v mod 40))))" for c d
  have "writer first (first_text v) True"
  proof (cases "v \<ge> 80")
    case True
    then show ?thesis
      using writer_seq [OF add_bytes.writer_axioms [of "[50, 46]"] add_decimal.writer_axioms [of "v - 80"]]
      by (elim writer_cong) (auto simp: first_def first_text_def intro!: ext)
  next
    case False
    then show ?thesis
      using writer_seq [OF add_decimal.writer_axioms [of "v div 40"] writer_seq [OF writer_add_u8 [of 46] add_decimal.writer_axioms [of "v mod 40"]]]
      by (elim writer_cong) (auto simp: first_def first_text_def intro!: ext)
  qed
  from writer_seq [OF to_text_loop_writer [OF this assms] writer_add_u8 [of 0]] show ?thesis
    by (elim writer_cong) (auto simp: oid_to_text_body_def first_def [symmetric] cbind_assoc intro!: ext)
qed

text \<open>The components of a DER contents that parses and of a text that parses.\<close>

lemma first_text_oid:
  assumes "unat v = 40 * a + b" "a \<le> 2" "a < 2 \<longrightarrow> b < 40"
  shows "first_text v = oid_text [a, b]"
proof (cases "a = 2")
  case True
  then have "v \<ge> 80" "unat (v - 80) = b" using assms(1) by (simp_all add: word_le_nat_alt unat_sub)
  moreover have "dec_digits 2 = [50]" by (simp add: dec_digits_1)
  ultimately show ?thesis using True by (simp add: first_text_def)
next
  case False
  then have "a < 2" "b < 40" using assms by auto
  then have "\<not> v \<ge> 80" "unat (v div 40) = a" "unat (v mod 40) = b"
    using assms(1) by (simp_all add: word_le_nat_alt unat_div unat_mod)
  then show ?thesis by (simp add: first_text_def)
qed

lemma first_number: "\<exists>a b. n = 40 * a + b \<and> a \<le> 2 \<and> (a < 2 \<longrightarrow> b < 40)" for n :: nat
proof (cases "80 \<le> n")
  case True
  then show ?thesis by (intro exI [of _ 2] exI [of _ "n - 80"]) simp
next
  case False
  then show ?thesis by (intro exI [of _ "n div 40"] exI [of _ "n mod 40"]) auto
qed

lemma to_text_build:
  "CBS_asn1_oid_to_text alloc_ok cbs =
     (case parse_base128_integer cbs of
        (None, _) \<Rightarrow> None
      | (Some v, copy) \<Rightarrow> build (CBB_init alloc_ok 32) (\<lambda>c d. oid_to_text_body c d v copy))"
  by (simp add: CBS_asn1_oid_to_text_def build_def split: option.splits prod.splits)

lemma oid_text_join:
  "vs \<noteq> [] \<Longrightarrow> oid_text (us @ vs) = concat (map (\<lambda>u. dec_digits u @ [46]) us) @ oid_text vs"
  by (induction us) (simp_all add: oid_text_Cons)

lemma oid_text_tail: "oid_text (us @ vs) = oid_text us @ concat (map (\<lambda>v. 46 # dec_digits v) vs)" if "us \<noteq> []"
  using that
proof (induction us rule: list_nonempty_induct)
  case (single u)
  then show ?case by (induction vs arbitrary: u) (simp_all add: oid_text_Cons)
next
  case (cons u us)
  then show ?case by (simp add: oid_text_Cons)
qed

lemma length_dec_digits: "n < 2 ^ 64 \<Longrightarrow> length (dec_digits n) \<le> 20"
proof -
  have "n < 10 ^ Suc k \<Longrightarrow> length (dec_digits n) \<le> Suc k" for k
  proof (induction k arbitrary: n)
    case (Suc k)
    then show ?case by (cases "n < 10") (simp_all add: dec_digits_1 dec_digits_snoc)
  qed (simp add: dec_digits_1)
  from this [of 19] show "n < 2 ^ 64 \<Longrightarrow> length (dec_digits n) \<le> 20" by simp
qed

lemma u64_bound: "unat v < 2 ^ 64" for v :: u64
  using unsigned_less [of v] by simp

lemma length_base128_nat: "n < 2 ^ 64 \<Longrightarrow> length (base128 n) \<le> 10"
  using length_base128 [of n 9] by simp

lemma length_base128_pos: "0 < length (base128 n)"
  by (simp add: base128_def)

lemma length_concat_le: "(\<And>x. x \<in> set xs \<Longrightarrow> length (f x) \<le> k * length (g x)) \<Longrightarrow>
    length (concat (map f xs)) \<le> k * length (concat (map g xs))"
  by (induction xs) (force simp: algebra_simps intro: add_mono)+

text \<open>What the first two numbers of a text must satisfy, and what is written for a text.\<close>

definition text_heads :: "bytes \<Rightarrow> (u64 \<times> u64, CBS) cres" where
  "text_heads text = cbind (parse_dotted_decimal text) (\<lambda>a cbs. cbind (parse_dotted_decimal cbs) (\<lambda>b cbs. (Some (a, b), cbs)))"

definition heads_ok :: "u64 \<Rightarrow> u64 \<Rightarrow> bool" where
  "heads_ok a b \<longleftrightarrow> \<not> (a > 2 \<or> (a < 2 \<and> b > 39) \<or> b > - 1 - 80)"

lemma heads_ok_nat:
  "heads_ok a b \<longleftrightarrow> unat a \<le> 2 \<and> (unat a < 2 \<longrightarrow> unat b < 40) \<and> 40 * unat a + unat b < 2 ^ 64"
proof -
  have w: "a > 2 \<longleftrightarrow> unat a > 2" "a < 2 \<longleftrightarrow> unat a < 2" "b > 39 \<longleftrightarrow> unat b > 39"
    "b > - 1 - 80 \<longleftrightarrow> unat b > 18446744073709551535"
    by (simp_all add: word_less_nat_alt)
  consider "unat a = 0" | "unat a = 1" | "unat a = 2" | "2 < unat a" by linarith
  then show ?thesis unfolding heads_ok_def w by cases auto
qed

lemma heads_sum: "heads_ok a b \<Longrightarrow> unat (40 * a + b) = 40 * unat a + unat b"
  unfolding heads_ok_nat by (simp add: unat_word_ariths mod_simps)

lemma from_text_eq:
  "CBB_add_asn1_oid_from_text cbb d text =
     cbind (CBB_flush cbb d) (\<lambda>_ cbb.
       case text_heads text of
         (None, _) \<Rightarrow> (None, cbb)
       | (Some (a, b), cbs) \<Rightarrow>
           if heads_ok a b then cbind (add_base128_integer cbb d (40 * a + b)) (\<lambda>_ cbb. oid_from_text_loop cbb d cbs)
           else (None, cbb))"
  unfolding CBB_add_asn1_oid_from_text_def text_heads_def [symmetric] heads_ok_def
  by (auto split: prod.splits option.splits intro!: arg_cong2 [of _ _ _ _ cbind] ext)

lemma text_heads_iff:
  "text_heads text = (Some (a, b), cbs) \<longleftrightarrow>
     text = dec_digits (unat a) @ 46 # dec_digits (unat b) @ (if cbs = [] then [] else 46 # cbs)"
  by (auto simp: text_heads_def cbind_eq_Some dotted_iff)

text \<open>A text that is accepted is the text of an identifier, and the other way round.\<close>

lemma text_decode:
  assumes "text_heads text = (Some (a, b), cbs)" "heads_ok a b" "snd (arcs (length cbs) parse_dotted_decimal cbs)"
  obtains vs where "fst (arcs (length cbs) parse_dotted_decimal cbs) = vs"
    "oid_ok (unat a # unat b # map unat vs)" "text = oid_text (unat a # unat b # map unat vs)"
    "base128 (unat (40 * a + b)) @ concat (map (\<lambda>v. base128 (unat v)) vs) = oid_der (unat a # unat b # map unat vs)"
proof -
  define vs where "vs = fst (arcs (length cbs) parse_dotted_decimal cbs)"
  have cbs: "cbs = oid_text (map unat vs)" using arcs_dotted [OF _ assms(3)] by (simp add: vs_def)
  have "oid_ok (unat a # unat b # map unat vs)"
    using assms(2) u64_bound by (auto simp: oid_ok_def heads_ok_nat)
  moreover have "text = oid_text (unat a # unat b # map unat vs)"
    using assms(1) unfolding text_heads_iff cbs oid_text_Nil by (simp add: oid_text_Cons)
  ultimately show ?thesis using that [OF vs_def [symmetric]] heads_sum [OF assms(2)] by (simp add: comp_def)
qed

lemma text_encode:
  assumes "oid_ok cs" "text = oid_text cs"
  obtains a b vs where "cs = unat a # unat b # map unat vs" "text_heads text = (Some (a, b), oid_text (map unat vs))"
    "heads_ok a b" "arcs (length (oid_text (map unat vs))) parse_dotted_decimal (oid_text (map unat vs)) = (vs, True)"
proof -
  obtain m n rest where cs: "cs = m # n # rest" and ok: "m \<le> 2" "m < 2 \<longrightarrow> n < 40" "40 * m + n < 2 ^ 64" "\<forall>c\<in>set rest. c < 2 ^ 64"
    using assms(1) by (auto simp: oid_ok_def)
  define a b vs where "a = (of_nat m :: u64)" and "b = (of_nat n :: u64)" and "vs = (map of_nat rest :: u64 list)"
  have n: "unat a = m" "unat b = n" using ok(1,3) by (simp_all add: a_def b_def unat_of_nat)
  have r: "map unat vs = rest" using ok(4) by (simp add: vs_def unat_of_nat map_idI)
  show ?thesis
  proof (rule that)
    show "cs = unat a # unat b # map unat vs" by (simp add: cs n r)
    show "text_heads text = (Some (a, b), oid_text (map unat vs))"
      by (simp add: text_heads_iff assms(2) cs n r oid_text_Cons oid_text_Nil)
    show "heads_ok a b" using ok by (simp add: heads_ok_nat n)
  qed (rule arcs_dotted_encode, simp_all)
qed

lemma from_text_writer:
  assumes "text_heads text = (Some (a, b), cbs)" "heads_ok a b"
  shows "writer (\<lambda>c d. CBB_add_asn1_oid_from_text c d text)
    (base128 (unat (40 * a + b)) @ concat (map (\<lambda>v. base128 (unat v)) (fst (arcs (length cbs) parse_dotted_decimal cbs))))
    (snd (arcs (length cbs) parse_dotted_decimal cbs))"
proof -
  have "writer (\<lambda>c d. cbind (CBB_flush c d) (\<lambda>_ c. add_base128_integer c d (40 * a + b))) (base128 (unat (40 * a + b))) True"
    using writer_seq [OF writer_flush add_base128.writer_axioms [of "40 * a + b"]] by simp
  from from_text_loop_writer [OF this order_refl, of cbs] show ?thesis
    by (elim writer_cong) (auto simp: from_text_eq assms cbind_assoc intro!: ext)
qed

lemma from_text_accepts:
  assumes "CBB_add_asn1_oid_from_text c d text = (Some u, c')"
  obtains a b cbs where "text_heads text = (Some (a, b), cbs)" "heads_ok a b" "snd (arcs (length cbs) parse_dotted_decimal cbs)"
proof -
  obtain r cbs where t: "text_heads text = (r, cbs)" by (cases "text_heads text")
  obtain a b where h: "text_heads text = (Some (a, b), cbs)" "heads_ok a b"
  proof (cases r)
    case None
    then show ?thesis using assms t by (simp add: from_text_eq cbind_eq_Some)
  next
    case (Some ab)
    then show ?thesis using assms t that by (cases ab) (auto simp: from_text_eq cbind_eq_Some split: if_splits)
  qed
  then obtain c2 where "oid_from_text_loop c2 d cbs = (Some u, c')"
    using assms by (auto simp: from_text_eq cbind_eq_Some)
  from that [OF h from_text_loop_parses [OF this]] show ?thesis by simp
qed

text \<open>The DER contents of an identifier is what \<open>CBS_asn1_oid_to_text\<close> parses.\<close>

lemma der_decode:
  assumes "parse_base128_integer der = (Some v, copy)" "snd (arcs (length copy) parse_base128_integer copy)"
  obtains cs where "oid_ok cs" "der = oid_der cs"
    "first_text v @ concat (map (\<lambda>v. 46 # dec_digits (unat v)) (fst (arcs (length copy) parse_base128_integer copy))) = oid_text cs"
proof -
  define vs where "vs = fst (arcs (length copy) parse_base128_integer copy)"
  obtain a b where ab: "unat v = 40 * a + b" "a \<le> 2" "a < 2 \<longrightarrow> b < 40" using first_number by blast
  show ?thesis
  proof (rule that)
    show "oid_ok (a # b # map unat vs)" using ab u64_bound [of v] u64_bound by (auto simp: oid_ok_def)
    have "copy = concat (map (\<lambda>v. base128 (unat v)) vs)" using arcs_base128 [OF _ assms(2)] by (simp add: vs_def)
    then show "der = oid_der (a # b # map unat vs)"
      using parse_base128_decode [OF assms(1)] ab(1) by (simp add: comp_def)
    show "first_text v @ concat (map (\<lambda>v. 46 # dec_digits (unat v)) (fst (arcs (length copy) parse_base128_integer copy))) =
        oid_text (a # b # map unat vs)"
      using oid_text_tail [of "[a, b]" "map unat vs"] by (simp add: vs_def [symmetric] first_text_oid [OF ab] comp_def)
  qed
qed

lemma der_encode:
  assumes "oid_ok cs"
  obtains v :: u64 and vs :: "u64 list" where "parse_base128_integer (oid_der cs) = (Some v, concat (map (\<lambda>v. base128 (unat v)) vs))"
    "first_text v @ concat (map (\<lambda>v. 46 # dec_digits (unat v)) vs) = oid_text cs"
proof -
  obtain a b rest where cs: "cs = a # b # rest" and ok: "a \<le> 2" "a < 2 \<longrightarrow> b < 40" "40 * a + b < 2 ^ 64" "\<forall>c\<in>set rest. c < 2 ^ 64"
    using assms by (auto simp: oid_ok_def)
  define v vs where "v = (of_nat (40 * a + b) :: u64)" and "vs = (map of_nat rest :: u64 list)"
  have v: "unat v = 40 * a + b" using ok(3) by (simp add: v_def unat_of_nat del: of_nat_add of_nat_mult)
  have r: "map unat vs = rest" using ok(4) by (simp add: vs_def unat_of_nat map_idI)
  have m: "map (\<lambda>v. f (unat v)) vs = map f rest" for f :: "nat \<Rightarrow> bytes" unfolding r [symmetric] by simp
  show ?thesis
  proof (rule that)
    show "parse_base128_integer (oid_der cs) = (Some v, concat (map (\<lambda>v. base128 (unat v)) vs))"
      using parse_base128_encode [OF ok(3)] by (simp add: cs m v_def)
    show "first_text v @ concat (map (\<lambda>v. 46 # dec_digits (unat v)) vs) = oid_text cs"
      using oid_text_tail [of "[a, b]" rest] m [of "\<lambda>n. 46 # dec_digits n"]
      by (simp add: cs first_text_oid [OF v ok(1,2)])
  qed
qed

lemma length_der_text: "oid_ok cs \<Longrightarrow> length (oid_der cs) \<le> 10 * length (oid_text cs)"
proof -
  assume "oid_ok cs"
  then obtain a b rest where cs: "cs = a # b # rest" and ok: "40 * a + b < 2 ^ 64" "\<forall>c\<in>set rest. c < 2 ^ 64"
    by (auto simp: oid_ok_def)
  have "length (concat (map base128 rest)) \<le> 10 * length (concat (map (\<lambda>c. 46 # dec_digits c) rest))"
    using ok(2) by (intro length_concat_le) (simp add: le_trans [OF length_base128_nat])
  moreover have "length (base128 (40 * a + b)) \<le> 10" by (rule length_base128_nat [OF ok(1)])
  ultimately show ?thesis using oid_text_tail [of "[a, b]" rest] by (simp add: cs)
qed

lemma length_text_der: "oid_ok cs \<Longrightarrow> length (oid_text cs) \<le> 22 * length (oid_der cs)"
proof -
  assume "oid_ok cs"
  then obtain a b rest where cs: "cs = a # b # rest" and ok: "a \<le> 2" "40 * a + b < 2 ^ 64" "\<forall>c\<in>set rest. c < 2 ^ 64"
    by (auto simp: oid_ok_def)
  have "length (concat (map (\<lambda>c. 46 # dec_digits c) rest)) \<le> 22 * length (concat (map base128 rest))"
  proof (rule length_concat_le)
    fix c assume "c \<in> set rest"
    then have "length (dec_digits c) \<le> 20" using ok(3) by (intro length_dec_digits) simp
    then show "length (46 # dec_digits c) \<le> 22 * length (base128 c)" using length_base128_pos [of c] by (cases "base128 c") simp_all
  qed
  moreover have "length (dec_digits a) = 1" "length (dec_digits b) \<le> 20"
    using ok(1,2) length_dec_digits [of b] by (simp_all add: dec_digits_1)
  ultimately show ?thesis using oid_text_tail [of "[a, b]" rest] length_base128_pos [of "40 * a + b"]
    by (cases "base128 (40 * a + b)") (simp_all add: cs)
qed

section \<open>Properties\<close>

lemma oid_both_ways:
  assumes "oid_ok cs" "length (oid_text cs) < 2 ^ 59" "n < size_max"
  shows "build (CBB_init (\<lambda>_. True) n) (\<lambda>c d. CBB_add_asn1_oid_from_text c d (oid_text cs)) = Some (oid_der cs) \<and>
    CBS_asn1_oid_to_text (\<lambda>_. True) (oid_der cs) = Some (oid_text cs @ [0])"
proof (rule conjI)
  obtain a b vs where t: "cs = unat a # unat b # map unat vs" "text_heads (oid_text cs) = (Some (a, b), oid_text (map unat vs))"
    "heads_ok a b" "arcs (length (oid_text (map unat vs))) parse_dotted_decimal (oid_text (map unat vs)) = (vs, True)"
    by (rule text_encode [OF assms(1) refl])
  have "writer (\<lambda>c d. CBB_add_asn1_oid_from_text c d (oid_text cs)) (oid_der cs) True"
    using from_text_writer [OF t(2,3)] by (simp add: t(4) heads_sum [OF t(3)]) (simp add: t(1) comp_def)
  then show "build (CBB_init (\<lambda>_. True) n) (\<lambda>c d. CBB_add_asn1_oid_from_text c d (oid_text cs)) = Some (oid_der cs)"
    by (rule build_total) (use length_der_text [OF assms(1)] assms(2,3) in simp_all)
  obtain v :: u64 and ws :: "u64 list" where d: "parse_base128_integer (oid_der cs) = (Some v, concat (map (\<lambda>v. base128 (unat v)) ws))"
    "first_text v @ concat (map (\<lambda>v. 46 # dec_digits (unat v)) ws) = oid_text cs"
    by (rule der_encode [OF assms(1)])
  have arcs: "arcs k parse_base128_integer (concat (map (\<lambda>v. base128 (unat v)) ws)) = (ws, True)"
    if "length (concat (map (\<lambda>v. base128 (unat v)) ws)) \<le> k" for k
    using that by (rule arcs_base128_encode) simp
  have "writer (\<lambda>c d. oid_to_text_body c d v (concat (map (\<lambda>v. base128 (unat v)) ws))) (oid_text cs @ [0]) True"
    using to_text_body_writer [OF order_refl, where copy = "concat (map (\<lambda>v. base128 (unat v)) ws)" and v = v] arcs [OF order_refl]
    by (simp only: d(2) append_assoc [symmetric] fst_conv snd_conv)
  then have "build (CBB_init (\<lambda>_. True) 32) (\<lambda>c d. oid_to_text_body c d v (concat (map (\<lambda>v. base128 (unat v)) ws))) = Some (oid_text cs @ [0])"
    by (rule build_total) (use assms(2) in simp_all)
  then show "CBS_asn1_oid_to_text (\<lambda>_. True) (oid_der cs) = Some (oid_text cs @ [0])"
    by (simp add: to_text_build d(1))
qed

text \<open>
  C34: every object identifier whose components fit survives the round trip from text to DER and back, and from DER to
  text and back.
\<close>

theorem oid_roundtrip:
  assumes "oid_ok cs" "length (oid_text cs) < 2 ^ 59" "n < size_max"
  shows "build (CBB_init (\<lambda>_. True) n) (\<lambda>c d. CBB_add_asn1_oid_from_text c d (oid_text cs)) = Some (oid_der cs) \<and>
    CBS_asn1_oid_to_text (\<lambda>_. True) (oid_der cs) = Some (oid_text cs @ [0])"
  using assms by (rule oid_both_ways)

text \<open>
  the conversions accept nothing else: whatever string \<open>CBB_add_asn1_oid_from_text\<close> accepts and whatever contents
  \<open>CBS_asn1_oid_to_text\<close> accepts are the text and the contents of an object identifier, and what they return is the
  other form of that identifier, whatever the allocator does.
\<close>

theorem oid_conversions_canonical:
  assumes "length text < 2 ^ 59" "length der < 2 ^ 59" "n < size_max"
  shows "(build (Some (cbb_init a n resize)) (\<lambda>c d. CBB_add_asn1_oid_from_text c d text) = Some w \<longrightarrow>
      (\<exists>cs. oid_ok cs \<and> text = oid_text cs \<and> w = oid_der cs)) \<and>
    (CBS_asn1_oid_to_text alloc_ok der = Some t \<longrightarrow> (\<exists>cs. oid_ok cs \<and> der = oid_der cs \<and> t = oid_text cs @ [0]))"
proof (intro conjI impI)
  assume b: "build (Some (cbb_init a n resize)) (\<lambda>c d. CBB_add_asn1_oid_from_text c d text) = Some w"
  then obtain u c' where "CBB_add_asn1_oid_from_text (cbb_init a n resize) 0 text = (Some u, c')"
    by (auto simp: build_def split: prod.splits option.splits)
  then obtain x y cbs where h: "text_heads text = (Some (x, y), cbs)" "heads_ok x y" "snd (arcs (length cbs) parse_dotted_decimal cbs)"
    by (rule from_text_accepts)
  obtain vs where vs: "fst (arcs (length cbs) parse_dotted_decimal cbs) = vs" "oid_ok (unat x # unat y # map unat vs)"
    "text = oid_text (unat x # unat y # map unat vs)"
    "base128 (unat (40 * x + y)) @ concat (map (\<lambda>v. base128 (unat v)) vs) = oid_der (unat x # unat y # map unat vs)"
    by (rule text_decode [OF h])
  have "w = oid_der (unat x # unat y # map unat vs)"
    using from_text_writer [OF h(1,2)] unfolding vs(1,4)
    by (rule build_writer [OF _ _ assms(3) b]) (use length_der_text [OF vs(2)] assms(1) vs(3) in simp)
  then show "\<exists>cs. oid_ok cs \<and> text = oid_text cs \<and> w = oid_der cs" using vs(2,3) by blast
next
  assume t: "CBS_asn1_oid_to_text alloc_ok der = Some t"
  then obtain v copy where p: "parse_base128_integer der = (Some v, copy)"
    and b: "build (CBB_init alloc_ok 32) (\<lambda>c d. oid_to_text_body c d v copy) = Some t"
    by (auto simp: to_text_build split: prod.splits option.splits)
  then have b: "build (Some (cbb_init alloc_ok 32 True)) (\<lambda>c d. oid_to_text_body c d v copy) = Some t"
    by (auto simp: CBB_init_def build_def split: if_splits)
  then obtain u c' where "oid_to_text_body (cbb_init alloc_ok 32 True) 0 v copy = (Some u, c')"
    by (auto simp: build_def split: prod.splits option.splits)
  then have "snd (arcs (length copy) parse_base128_integer copy)"
    by (auto simp: oid_to_text_body_def cbind_eq_Some intro: to_text_loop_parses)
  then obtain cs where cs: "oid_ok cs" "der = oid_der cs"
    "first_text v @ concat (map (\<lambda>v. 46 # dec_digits (unat v)) (fst (arcs (length copy) parse_base128_integer copy))) = oid_text cs"
    by (rule der_decode [OF p])
  have "t = oid_text cs @ [0]"
    using to_text_body_writer [OF order_refl, where copy = copy and v = v] unfolding append_assoc [symmetric] cs(3)
    by (rule build_writer [OF _ _ _ b]) (use length_text_der [OF cs(1)] assms(2) cs(2) in simp_all)
  then show "\<exists>cs. oid_ok cs \<and> der = oid_der cs \<and> t = oid_text cs @ [0]" using cs(1,2) by blast
qed

lemma oid_example: "oid_ok [1, 2, 840, 113554, 4, 1, 72585]"
  by (simp add: oid_ok_def)

lemma oid_roundtrip_witness:
  "build (CBB_init (\<lambda>_. True) 0) (\<lambda>c d. CBB_add_asn1_oid_from_text c d (oid_text [1, 2, 840, 113554, 4, 1, 72585])) =
     Some (oid_der [1, 2, 840, 113554, 4, 1, 72585]) \<and>
   CBS_asn1_oid_to_text (\<lambda>_. True) (oid_der [1, 2, 840, 113554, 4, 1, 72585]) =
     Some (oid_text [1, 2, 840, 113554, 4, 1, 72585] @ [0])"
  by (rule oid_roundtrip [OF oid_example]) (simp_all add: dec_digits_1 dec_digits_snoc)

lemma oid_conversions_canonical_witness:
  "CBS_asn1_oid_to_text (\<lambda>_. True) (oid_der [1, 2, 840]) = Some (oid_text [1, 2, 840] @ [0]) \<and>
   (\<exists>cs. oid_ok cs \<and> oid_der [1, 2, 840] = oid_der cs \<and> oid_text [1, 2, 840] @ [0] = oid_text cs @ [0])"
proof
  have ok: "oid_ok [1, 2, 840]" by (simp add: oid_ok_def)
  have len: "length (oid_text [1, 2, 840]) < 2 ^ 59" by (simp add: dec_digits_1 dec_digits_snoc)
  have pos: "(0::nat) < size_max" by simp
  note printed = conjunct2 [OF oid_both_ways [OF ok len pos]]
  show "CBS_asn1_oid_to_text (\<lambda>_. True) (oid_der [1, 2, 840]) = Some (oid_text [1, 2, 840] @ [0])" by (rule printed)
  have "length (oid_der [1, 2, 840]) < 2 ^ 59" using length_der_text [OF ok] len by (simp add: dec_digits_1 dec_digits_snoc)
  then show "\<exists>cs. oid_ok cs \<and> oid_der [1, 2, 840] = oid_der cs \<and> oid_text [1, 2, 840] @ [0] = oid_text cs @ [0]"
    using mp [OF conjunct2 [OF oid_conversions_canonical [OF len _ pos]] printed] by blast
qed

end
