(* ===== verification/CbbSteps.thy ===== *)
theory CbbSteps
  imports CbbBuild SetOf Oid
begin

text \<open>
  The builder as a state machine: one step is one call of a public function of
  \<^verbatim>\<open>cbb.c\<close>, successful or not, on any object of the chain. The reachable states satisfy the
  memory invariant, keep the caller's buffer, and never leave the error state.
\<close>

section \<open>The SET OF flush and the text of an identifier\<close>

lemma flush_guarded: "guarded CBB_flush"
  by (rule writer_guarded [OF flush.writer_axioms]) simp

lemma guarded_set_of: "guarded (CBB_flush_asn1_set_of buf_ok children_ok)"
proof (rule guardedI)
  fix c d r c'
  assume op: "CBB_flush_asn1_set_of buf_ok children_ok c d = (r, c')" and inv: "cbb_inv c"
  obtain r1 c1 where h: "CBB_flush c d = (r1, c1)" by (cases "CBB_flush c d")
  have c1: "cbb_inv c1 \<and> same_env (base c) (base c1)" using guardedD [OF flush_guarded h] inv by blast
  show "cbb_inv c' \<and> same_env (base c) (base c')"
  proof (cases "r1 = None \<or> count_children (CBB_data c1 d) = None")
    case True
    then have "c' = c1" using op h by (cases r1) (auto simp: CBB_flush_asn1_set_of_def)
    then show ?thesis using c1 by simp
  next
    case False
    then obtain u es where es: "r1 = Some u" "list_all is_element es" "CBB_data c1 d = concat es"
      "count_children (concat es) = Some (length es)" by (auto simp: count_children_iff)
    show ?thesis
    proof (cases "length es < 2 \<or> buf_ok \<and> children_ok")
      case True
      let ?b = "take (cbb_start c1 d) (buf (base c1)) @ concat (sort es)"
      have c': "c' = c1\<lparr>base := (base c1)\<lparr>buf := ?b\<rparr>\<rparr>"
        using set_of_flushed [OF h [unfolded es(1)] inv es(3,2) True] op by simp
      have f: "\<not> error (base c1)" "d \<le> length (children c)" "children c1 = take d (children c)"
        using CBB_flush_spec [OF h [unfolded es(1)] inv] by auto
      have "cbb_start c1 d \<le> length (buf (base c1))" using start_le [OF conjunct1 [OF c1] f(1), of d] f(2,3) by simp
      then have "length ?b = length (buf (base c1))"
        using arg_cong [OF es(3), of length] by (simp add: CBB_data_def length_concat_sort)
      then show ?thesis using cbb_inv_buf [of c1 ?b] c1 by (simp add: c' same_env_def)
    next
      case False
      then have "c' = c1" using op h es by (auto simp: CBB_flush_asn1_set_of_def)
      then show ?thesis using c1 by simp
    qed
  qed
next
  fix c d r c'
  assume "CBB_flush_asn1_set_of buf_ok children_ok c d = (r, c')" and "error (base c)"
  then show "error (base c')" using CBB_flush_fails [of c d] by (auto simp: CBB_flush_asn1_set_of_def)
qed

lemma cbind_fails: "cbind p (\<lambda>_ c. (None, c)) = (None, snd p)"
  by (cases p; cases "fst p") auto

lemma length_arcs: "length (fst (arcs n get c)) \<le> n"
  by (induction n get c rule: arcs.induct) (auto split: prod.split option.split)

lemma guarded_oid_from_text: "length text < 2 ^ 60 \<Longrightarrow> guarded (\<lambda>c d. CBB_add_asn1_oid_from_text c d text)"
proof -
  assume len: "length text < 2 ^ 60"
  obtain r cbs where heads: "text_heads text = (r, cbs)" by (cases "text_heads text")
  consider a b where "r = Some (a, b)" "heads_ok a b"
    | "\<And>c d. CBB_add_asn1_oid_from_text c d text = (None, snd (CBB_flush c d))"
  proof (cases "\<exists>a b. r = Some (a, b) \<and> heads_ok a b")
    case True
    then show ?thesis using that(1) by blast
  next
    case False
    then have "CBB_add_asn1_oid_from_text c d text = cbind (CBB_flush c d) (\<lambda>_ c. (None, c))" for c d
      using heads by (cases r) (auto simp: from_text_eq split: prod.splits)
    then show ?thesis by (intro that(2)) (simp add: cbind_fails)
  qed
  then show ?thesis
  proof cases
    case 1
    let ?vs = "fst (arcs (length cbs) parse_dotted_decimal cbs)"
    have "length cbs \<le> length text" using heads 1(1) by (auto simp: text_heads_iff split: if_splits)
    moreover have "length (concat (map (\<lambda>v. base128 (unat v)) ?vs)) \<le> 10 * length ?vs"
      using length_concat_le [of ?vs "\<lambda>v. base128 (unat v)" 10 "\<lambda>_. [()]"] length_base128_nat [OF u64_bound]
      by (simp add: length_concat o_def sum_list_triv)
    moreover have "length (base128 (unat (40 * a + b))) \<le> 10" by (rule length_base128_nat [OF u64_bound])
    moreover have "length ?vs \<le> length cbs" by (rule length_arcs)
    ultimately have "length (base128 (unat (40 * a + b)) @ concat (map (\<lambda>v. base128 (unat v)) ?vs)) < size_max"
      using len by simp
    then show ?thesis using writer_guarded [OF from_text_writer [OF heads [unfolded 1(1)] 1(2)]] by blast
  next
    case 2
    have "cbb_inv (snd (CBB_flush c d)) \<and> same_env (base c) (base (snd (CBB_flush c d)))" if "cbb_inv c" for c d
      using guardedD [OF flush_guarded, of c d "fst (CBB_flush c d)" "snd (CBB_flush c d)"] that by simp
    moreover have "error (base (snd (CBB_flush c d)))" if "error (base c)" for c d
      using guardedD [OF flush_guarded, of c d "fst (CBB_flush c d)" "snd (CBB_flush c d)"] that by simp
    ultimately show ?thesis by (intro guardedI) (auto simp: 2)
  qed
qed

section \<open>The step relation\<close>

inductive cbb_step :: "CBB \<Rightarrow> CBB \<Rightarrow> bool" where
  flush: "CBB_flush c d = (r, c') \<Longrightarrow> cbb_step c c'"
| reserve: "CBB_reserve c d n = (r, c') \<Longrightarrow> cbb_step c c'"
| did_write: "length new < size_max \<Longrightarrow> CBB_did_write c d new = (r, c') \<Longrightarrow> cbb_step c c'"
| add_bytes: "length data < size_max \<Longrightarrow> CBB_add_bytes c d data = (r, c') \<Longrightarrow> cbb_step c c'"
| add_zeros: "n < size_max \<Longrightarrow> CBB_add_zeros c d n = (r, c') \<Longrightarrow> cbb_step c c'"
| add_u8: "CBB_add_u8 c d v8 = (r, c') \<Longrightarrow> cbb_step c c'"
| add_u16: "CBB_add_u16 c d v16 = (r, c') \<Longrightarrow> cbb_step c c'"
| add_u24: "CBB_add_u24 c d v32 = (r, c') \<Longrightarrow> cbb_step c c'"
| add_u32: "CBB_add_u32 c d v32 = (r, c') \<Longrightarrow> cbb_step c c'"
| add_u64: "CBB_add_u64 c d v64 = (r, c') \<Longrightarrow> cbb_step c c'"
| u8_prefixed: "CBB_add_u8_length_prefixed c d = (r, c') \<Longrightarrow> cbb_step c c'"
| u16_prefixed: "CBB_add_u16_length_prefixed c d = (r, c') \<Longrightarrow> cbb_step c c'"
| u24_prefixed: "CBB_add_u24_length_prefixed c d = (r, c') \<Longrightarrow> cbb_step c c'"
| add_asn1: "CBB_add_asn1 c d tag = (r, c') \<Longrightarrow> cbb_step c c'"
| add_uint64: "CBB_add_asn1_uint64_with_tag c d v64 tag = (r, c') \<Longrightarrow> cbb_step c c'"
| add_int64: "CBB_add_asn1_int64_with_tag c d v64 tag = (r, c') \<Longrightarrow> cbb_step c c'"
| add_octets: "length data < 2 ^ 32 \<Longrightarrow> CBB_add_asn1_octet_string c d data = (r, c') \<Longrightarrow> cbb_step c c'"
| add_bool: "CBB_add_asn1_bool c d i = (r, c') \<Longrightarrow> cbb_step c c'"
| set_of: "CBB_flush_asn1_set_of buf_ok children_ok c d = (r, c') \<Longrightarrow> cbb_step c c'"
| oid_from_text: "length oid < 2 ^ 60 \<Longrightarrow> CBB_add_asn1_oid_from_text c d oid = (r, c') \<Longrightarrow> cbb_step c c'"
| discard: "cbb_step c (CBB_discard_child c d)"

inductive cbb_reach :: "CBB \<Rightarrow> CBB \<Rightarrow> bool" where
  start: "cbb_reach c c"
| step: "cbb_reach c c' \<Longrightarrow> cbb_step c' c'' \<Longrightarrow> cbb_reach c c''"

inductive_cases cbb_stepE: "cbb_step c c'"

lemma cbb_step_guarded:
  "cbb_step c c' \<Longrightarrow>
     (cbb_inv c \<longrightarrow> cbb_inv c' \<and> same_env (base c) (base c')) \<and> (error (base c) \<longrightarrow> error (base c'))"
proof (induction rule: cbb_step.induct)
  case flush
  then show ?case by (rule guardedD [OF flush_guarded])
next
  case reserve
  then show ?case by (rule guardedD [OF guarded_reserve])
next
  case did_write
  then show ?case by (blast dest: guardedD [OF guarded_did_write])
next
  case add_bytes
  then show ?case using guardedD [OF writer_guarded [OF add_bytes.writer_axioms]] by blast
next
  case (add_zeros n)
  then show ?case using guardedD [OF writer_guarded [OF add_zeros.writer_axioms [of n]]] by simp
next
  case add_u8
  then show ?case by (rule guardedD [OF writer_guarded [OF add_u8.writer_axioms], rotated]) simp
next
  case add_u16
  then show ?case by (rule guardedD [OF writer_guarded [OF add_u16.writer_axioms], rotated]) simp
next
  case add_u24
  then show ?case by (rule guardedD [OF writer_guarded [OF add_u24.writer_axioms], rotated]) simp
next
  case add_u32
  then show ?case by (rule guardedD [OF writer_guarded [OF add_u32.writer_axioms], rotated]) simp
next
  case add_u64
  then show ?case by (rule guardedD [OF writer_guarded [OF add_u64.writer_axioms], rotated]) simp
next
  case u8_prefixed
  then show ?case using guardedD [OF guarded_length_prefixed [of 1]] by (simp add: CBB_add_u8_length_prefixed_def)
next
  case u16_prefixed
  then show ?case using guardedD [OF guarded_length_prefixed [of 2]] by (simp add: CBB_add_u16_length_prefixed_def)
next
  case u24_prefixed
  then show ?case using guardedD [OF guarded_length_prefixed [of 3]] by (simp add: CBB_add_u24_length_prefixed_def)
next
  case add_asn1
  then show ?case by (rule guardedD [OF guarded_add_asn1])
next
  case add_uint64
  then show ?case by (rule guardedD [OF writer_guarded [OF add_uint64_tag.writer_axioms length_int_small(1)]])
next
  case add_int64
  then show ?case by (rule guardedD [OF writer_guarded [OF add_int64_tag.writer_axioms length_int_small(2)]])
next
  case add_octets
  then show ?case using guardedD [OF writer_guarded [OF octet_string.writer_axioms length_der_small]] by blast
next
  case (add_bool c d i)
  then show ?case
    by (rule guardedD [OF writer_guarded [OF add_bool.writer_axioms length_der_small], rotated]) simp
next
  case set_of
  then show ?case by (rule guardedD [OF guarded_set_of])
next
  case oid_from_text
  then show ?case using guardedD [OF guarded_oid_from_text] by blast
next
  case (discard c d)
  show ?case using discard_inv [of c d] discard_error [of c d] by blast
qed

lemma cbb_reach_guarded:
  "cbb_reach c c' \<Longrightarrow>
     (cbb_inv c \<longrightarrow> cbb_inv c' \<and> same_env (base c) (base c')) \<and> (error (base c) \<longrightarrow> error (base c'))"
proof (induction rule: cbb_reach.induct)
  case (start c)
  then show ?case by simp
next
  case (step c c' c'')
  then show ?case using cbb_step_guarded [OF step.hyps(2)] by (blast intro: same_env_trans)
qed

section \<open>Properties\<close>

text \<open>
  C3: memory safety. Whatever calls of \<^verbatim>\<open>cbb.c\<close> are made, in whatever order, on whatever object of the
  chain, whether they succeed or fail and whatever the allocator does, the valid bytes
  stay inside the allocation, and a builder over a caller's buffer never has more than
  that buffer.
\<close>

theorem cbb_memory_safe:
  assumes "cbb_reach (cbb_init a n resize) c" and "n < size_max"
  shows "length (buf (base c)) \<le> cap (base c) \<and> (\<not> resize \<longrightarrow> cap (base c) = n)"
  using cbb_reach_guarded [OF assms(1)] cbb_init_inv [OF assms(2)]
  by (auto simp: cbb_inv_def buffer_inv_def same_env_def cbb_init_def)

theorem cbb_memory_safe_witness:
  "length (buf (base (snd (CBB_add_u16 (cbb_init (\<lambda>_. True) 1 False) 0 7)))) \<le> 1"
proof -
  let ?c = "cbb_init (\<lambda>_. True) 1 False"
  obtain r c' where op: "CBB_add_u16 ?c 0 7 = (r, c')" by (cases "CBB_add_u16 ?c 0 7")
  then have "cbb_reach ?c c'"
    using cbb_reach.step [OF cbb_reach.start cbb_step.add_u16] by blast
  from cbb_memory_safe [OF this] op show ?thesis by simp
qed

text \<open>
  C37: the error bit is sticky: after a failed call on a builder in the error state every
  later state is in it too, and \<open>CBB_finish\<close> refuses to hand out bytes.
\<close>

theorem cbb_error_sticky:
  assumes "cbb_reach c c'" and "error (base c)"
  shows "error (base c') \<and> CBB_finish c' d outs = None"
  using cbb_reach_guarded [OF assms(1)] assms(2) by (simp add: CBB_finish_def CBB_flush_fails)

theorem cbb_error_sticky_witness:
  "CBB_finish (snd (CBB_add_u16 (cbb_init (\<lambda>_. True) 1 False) 0 7)) 0 True = None"
proof -
  let ?c = "snd (CBB_add_u16 (cbb_init (\<lambda>_. True) 1 False) 0 7)"
  have "error (base ?c)"
    by (simp add: CBB_add_u16_def cbb_add_u_def store_be_eq CBB_add_space_def CBB_flush_def cbb_init_def
        flush_chain.simps cbb_buffer_add_def cbb_buffer_reserve_def)
  from cbb_error_sticky [OF cbb_reach.start this] show ?thesis by simp
qed

text \<open>
  C4: a structure round trips: a SEQUENCE of an integer and an octet string, built through
  nested children, is read back by the nested readers. Any builder is allowed here, also
  one over a fixed buffer or with a failing allocator: whenever it produces bytes they are
  the right ones.
\<close>

theorem sequence_roundtrip:
  assumes "valid_tag tag" and "length data < 2 ^ 31" and "n < size_max"
    and "build (Some (cbb_init a n resize)) (sequence_writer v data tag) = Some w"
  shows "\<exists>body c'. CBS_get_asn1 (w @ rest) tag = (Some body, rest) \<and>
    CBS_get_asn1_int64 body = (Some v, c') \<and> CBS_get_asn1 c' CBS_ASN1_OCTETSTRING = (Some data, [])"
proof -
  have w: "w = der_element tag (sequence_body v data)"
    by (rule build_writer [OF writer_sequence [OF assms(2)] length_sequence [OF assms(2)] assms(3,4)])
  have len: "length (sequence_body v data) < 2 ^ 32"
    using length_sequence_body [OF assms(2), of v] by simp
  have "CBS_get_asn1 (w @ rest) tag = (Some (sequence_body v data), rest)"
    using asn1.get_put [of tag "sequence_body v data" rest] assms(1) len by (simp add: w)
  moreover have "CBS_get_asn1_int64 (sequence_body v data) = (Some v, der_element CBS_ASN1_OCTETSTRING data)"
    unfolding sequence_body_def by (rule int64.get_put) simp
  moreover have "CBS_get_asn1 (der_element CBS_ASN1_OCTETSTRING data) CBS_ASN1_OCTETSTRING = (Some data, [])"
    using asn1.get_put_Nil [of CBS_ASN1_OCTETSTRING data] assms(2) by simp
  ultimately show ?thesis by simp
qed

theorem sequence_roundtrip_witness:
  "\<exists>w. build (CBB_init (\<lambda>_. True) 16) (sequence_writer 5 [1, 2] 0x20000010) = Some w \<and>
     fst (CBS_get_asn1 (w @ [7]) 0x20000010) \<noteq> None \<and> snd (CBS_get_asn1 (w @ [7]) 0x20000010) = [7]"
proof -
  have data: "length [1, 2 :: u8] < 2 ^ 31" and n: "16 < size_max" by simp_all
  have tag: "valid_tag 0x20000010"
    by (simp add: valid_tag_def CBS_ASN1_CONSTRUCTED_def CBS_ASN1_TAG_SHIFT_def)
  obtain w where "build (CBB_init (\<lambda>_. True) 16) (sequence_writer 5 [1, 2] 0x20000010) = Some w"
    using build_total [OF writer_sequence [OF data] length_sequence [OF data] n TrueI] by blast
  moreover from this have "build (Some (cbb_init (\<lambda>_. True) 16 True)) (sequence_writer 5 [1, 2] 0x20000010) = Some w"
    by (simp add: CBB_init_def)
  from sequence_roundtrip [OF tag data n this, of "[7]"]
  have "fst (CBS_get_asn1 (w @ [7]) 0x20000010) \<noteq> None \<and> snd (CBS_get_asn1 (w @ [7]) 0x20000010) = [7]"
    by auto
  ultimately show ?thesis by blast
qed

text \<open>
  a length-prefixed vector of the TLS presentation language round trips: the prefix
  of one, two or three bytes that the builder fills in on flush is the one the reader uses.
\<close>

theorem length_prefixed_roundtrip:
  assumes "k = 1 \<or> k = 2 \<or> k = 3" and "length data < 256 ^ k" and "n < size_max"
  shows "\<exists>w. build (CBB_init (\<lambda>_. True) n)
        (\<lambda>c d. cbind (cbb_add_length_prefixed c d k) (\<lambda>_ c.
           cbind (CBB_add_bytes c (d + 1) data) (\<lambda>_ c. CBB_flush c d))) = Some w \<and>
      cbs_get_length_prefixed (w @ rest) k = (Some data, rest)"
proof -
  let ?w = "be_bytes k (length data) @ data"
  have k: "k < 2 ^ 32" and k8: "k \<le> 8" and small: "(256 :: nat) ^ k \<le> 2 ^ 24" using assms(1) by auto
  have len: "length ?w < size_max" using assms(2) small k by simp
  have "cbs_get_u (?w @ rest) k = (Some (be_word (be_bytes k (length data))), data @ rest)"
    using cbs_get_append [of "be_bytes k (length data)" "data @ rest"] by (simp add: cbs_get_u_def)
  moreover have "unat (be_word (be_bytes k (length data))) = length data"
    using k8 assms(2) by (simp add: unat_be_word be_nat_be_bytes)
  ultimately have "cbs_get_length_prefixed (?w @ rest) k = (Some data, rest)"
    by (simp add: cbs_get_length_prefixed_def CBS_get_bytes_iff)
  moreover have fits: "True \<and> length data < 256 ^ k" using assms(2) by simp
  ultimately show ?thesis
    using build_total [OF writer_length_prefixed [OF add_bytes.writer_axioms k] len assms(3) fits] by blast
qed

theorem length_prefixed_roundtrip_witness:
  "\<exists>w. build (CBB_init (\<lambda>_. True) 0)
        (\<lambda>c d. cbind (cbb_add_length_prefixed c d 2) (\<lambda>_ c.
           cbind (CBB_add_bytes c (d + 1) [1, 2, 3]) (\<lambda>_ c. CBB_flush c d))) = Some w \<and>
      cbs_get_length_prefixed (w @ [9]) 2 = (Some [1, 2, 3], [9])"
  by (rule length_prefixed_roundtrip) simp_all

end
