(* ===== verification/PbStream.thy ===== *)
theory PbStream
  imports Prelude
begin

text \<open>
  The input streams of \<^verbatim>\<open>nanopb/pb_decode.c\<close> and the wire-format readers on top of them.

  A stream is a callback with a state and the number of bytes that may still be read. The
  built-in callback \<open>buf_read\<close> reads from memory: its state is the memory from the read
  pointer on. A callback of the application is code outside the repository: it is a
  function on its own state, which delivers the bytes or fails and may, as the interface
  documents, set \<open>bytes_left\<close> to 0 to report the end of the input. Writes through \<open>buf\<close> are
  the returned bytes; \<open>skip\<close> says that \<open>buf\<close> is the null pointer.
\<close>

section \<open>Streams\<close>

datatype read_outcome =
    Delivered bytes bytes
  | Failed bytes bool

datatype istream_callback =
    Buf_read
  | User_read "bytes \<Rightarrow> nat \<Rightarrow> read_outcome"

record pb_istream_t =
  is_callback :: istream_callback
  is_state :: bytes
  bytes_left :: nat
  is_errmsg :: "string option"

definition IN_RETURN_ERROR :: "pb_istream_t \<Rightarrow> string \<Rightarrow> ('a, pb_istream_t) cres" where
  "IN_RETURN_ERROR stream msg =
     (None, stream\<lparr>is_errmsg := (case is_errmsg stream of None \<Rightarrow> Some msg | Some m \<Rightarrow> Some m)\<rparr>)"

definition buf_read :: "pb_istream_t \<Rightarrow> nat \<Rightarrow> (bytes, pb_istream_t) cres" where
  "buf_read stream count =
     (Some (take count (is_state stream)), stream\<lparr>is_state := drop count (is_state stream)\<rparr>)"

definition stream_callback :: "pb_istream_t \<Rightarrow> nat \<Rightarrow> (bytes, pb_istream_t) cres" where
  "stream_callback stream count =
     (case is_callback stream of
        Buf_read \<Rightarrow> buf_read stream count
      | User_read f \<Rightarrow>
          (case f (is_state stream) count of
             Delivered bs st \<Rightarrow> (Some bs, stream\<lparr>is_state := st\<rparr>)
           | Failed st eof \<Rightarrow>
               (None, stream\<lparr>is_state := st, bytes_left := (if eof then 0 else bytes_left stream)\<rparr>)))"

text \<open>The part of \<open>pb_read\<close> behind the skipping loop.\<close>

definition pb_read_some :: "pb_istream_t \<Rightarrow> nat \<Rightarrow> (bytes, pb_istream_t) cres" where
  "pb_read_some stream count =
     (if count = 0 then (Some [], stream)
      else if bytes_left stream < count then IN_RETURN_ERROR stream ''end-of-stream''
      else case stream_callback stream count of
             (None, stream) \<Rightarrow> IN_RETURN_ERROR stream ''io error''
           | (Some bs, stream) \<Rightarrow> (Some bs, stream\<lparr>bytes_left := bytes_left stream - count\<rparr>))"

fun pb_skip_loop :: "pb_istream_t \<Rightarrow> nat \<Rightarrow> (bytes, pb_istream_t) cres" where
  "pb_skip_loop stream count =
     (if count > 16 then cbind (pb_read_some stream 16) (\<lambda>_ stream. pb_skip_loop stream (count - 16))
      else pb_read_some stream count)"

declare pb_skip_loop.simps [simp del]

definition pb_read :: "pb_istream_t \<Rightarrow> bool \<Rightarrow> nat \<Rightarrow> (bytes, pb_istream_t) cres" where
  "pb_read stream skip count =
     (if count = 0 then (Some [], stream)
      else if skip \<and> is_callback stream \<noteq> Buf_read then pb_skip_loop stream count
      else pb_read_some stream count)"

definition pb_readbyte :: "pb_istream_t \<Rightarrow> (u8, pb_istream_t) cres" where
  "pb_readbyte stream =
     (if bytes_left stream = 0 then IN_RETURN_ERROR stream ''end-of-stream''
      else case stream_callback stream 1 of
             (None, stream) \<Rightarrow> IN_RETURN_ERROR stream ''io error''
           | (Some bs, stream) \<Rightarrow> (Some (hd bs), stream\<lparr>bytes_left := bytes_left stream - 1\<rparr>))"

definition pb_istream_from_buffer :: "bytes \<Rightarrow> nat \<Rightarrow> pb_istream_t" where
  "pb_istream_from_buffer buf bufsize =
     \<lparr>is_callback = Buf_read, is_state = buf, bytes_left = bufsize, is_errmsg = None\<rparr>"

lemma readbyte_decreases: "pb_readbyte s = (Some b, s') \<Longrightarrow> bytes_left s' < bytes_left s"
  by (auto simp: pb_readbyte_def IN_RETURN_ERROR_def stream_callback_def buf_read_def
      split: if_splits prod.splits option.splits istream_callback.splits read_outcome.splits)

section \<open>Varints\<close>

text \<open>
  \<open>bitpos\<close> is an \<open>uint_fast8_t\<close>, which is 8 bits wide on the targets: its addition wraps
  at 256.
\<close>

function varint32_loop :: "pb_istream_t \<Rightarrow> nat \<Rightarrow> u32 \<Rightarrow> (u32 \<times> nat \<times> u8, pb_istream_t) cres" where
  "varint32_loop stream bitpos result =
     cbind (pb_readbyte stream) (\<lambda>byte stream.
       let sign_extension = (if bitpos < 63 then 0xFF else 0x01);
           bad = (bitpos \<ge> 32 \<and> byte AND 0x7F \<noteq> 0 \<and> (drop_bit 31 result = 0 \<or> byte \<noteq> sign_extension))
       in if bad then IN_RETURN_ERROR stream ''varint overflow''
          else
            let result = (if bitpos \<ge> 32 then result
                          else result OR push_bit bitpos (ucast (byte AND 0x7F)));
                bitpos = (bitpos + 7) mod 256
            in if byte AND 0x80 \<noteq> 0 then varint32_loop stream bitpos result
               else (Some (result, bitpos, byte), stream))"
  by pat_completeness auto
termination
  by (relation "measure (\<lambda>(stream, _, _). bytes_left stream)") (auto dest: readbyte_decreases)

declare varint32_loop.simps [simp del]

text \<open>The second component of a failure is \<open>*eof\<close>.\<close>

definition pb_decode_varint32_eof :: "pb_istream_t \<Rightarrow> u32 option \<times> bool \<times> pb_istream_t" where
  "pb_decode_varint32_eof stream =
     (case pb_readbyte stream of
        (None, stream) \<Rightarrow> (None, bytes_left stream = 0, stream)
      | (Some byte, stream) \<Rightarrow>
          if byte AND 0x80 = 0 then (Some (ucast byte), False, stream)
          else
            (case varint32_loop stream 7 (ucast (byte AND 0x7F)) of
               (None, stream) \<Rightarrow> (None, False, stream)
             | (Some (result, bitpos, byte), stream) \<Rightarrow>
                 if bitpos = 35 \<and> byte AND 0x70 \<noteq> 0
                 then (case IN_RETURN_ERROR stream ''varint overflow'' of (r, stream) \<Rightarrow> (r, False, stream))
                 else (Some result, False, stream)))"

definition pb_decode_varint32 :: "pb_istream_t \<Rightarrow> (u32, pb_istream_t) cres" where
  "pb_decode_varint32 stream = (case pb_decode_varint32_eof stream of (r, _, stream) \<Rightarrow> (r, stream))"

function varint_loop :: "pb_istream_t \<Rightarrow> nat \<Rightarrow> u64 \<Rightarrow> (u64, pb_istream_t) cres" where
  "varint_loop stream bitpos result =
     (if bitpos \<ge> 64 then IN_RETURN_ERROR stream ''varint overflow''
      else cbind (pb_readbyte stream) (\<lambda>byte stream.
        let result = result OR push_bit bitpos (ucast (byte AND 0x7F));
            bitpos = (bitpos + 7) mod 256
        in if byte AND 0x80 \<noteq> 0 then varint_loop stream bitpos result else (Some result, stream)))"
  by pat_completeness auto
termination
  by (relation "measure (\<lambda>(stream, _, _). bytes_left stream)") (auto dest: readbyte_decreases)

declare varint_loop.simps [simp del]

definition pb_decode_varint :: "pb_istream_t \<Rightarrow> (u64, pb_istream_t) cres" where
  "pb_decode_varint stream = varint_loop stream 0 0"

section \<open>Skipping and delimiting\<close>

lemma read_some_decreases: "pb_read_some s n = (Some bs, s') \<Longrightarrow> 0 < n \<Longrightarrow> bytes_left s' < bytes_left s"
  by (auto simp: pb_read_some_def IN_RETURN_ERROR_def stream_callback_def buf_read_def
      split: if_splits prod.splits option.splits istream_callback.splits read_outcome.splits)

function pb_skip_varint :: "pb_istream_t \<Rightarrow> (unit, pb_istream_t) cres" where
  "pb_skip_varint stream =
     cbind (pb_read stream False 1) (\<lambda>bs stream.
       if hd bs AND 0x80 \<noteq> 0 then pb_skip_varint stream else (Some (), stream))"
  by pat_completeness auto
termination
  by (relation "measure bytes_left") (auto simp: pb_read_def dest: read_some_decreases)

declare pb_skip_varint.simps [simp del]

definition pb_skip_string :: "pb_istream_t \<Rightarrow> (unit, pb_istream_t) cres" where
  "pb_skip_string stream =
     cbind (pb_decode_varint32 stream) (\<lambda>length stream.
       cbind (pb_read stream True (unat length)) (\<lambda>_ stream. (Some (), stream)))"

definition PB_WT_VARINT :: nat where "PB_WT_VARINT = 0"
definition PB_WT_64BIT :: nat where "PB_WT_64BIT = 1"
definition PB_WT_STRING :: nat where "PB_WT_STRING = 2"
definition PB_WT_32BIT :: nat where "PB_WT_32BIT = 5"

lemmas wire_types = PB_WT_VARINT_def PB_WT_64BIT_def PB_WT_STRING_def PB_WT_32BIT_def

text \<open>The result is the wire type and the tag; the second component is \<open>*eof\<close>.\<close>

definition pb_decode_tag :: "pb_istream_t \<Rightarrow> (nat \<times> u32) option \<times> bool \<times> pb_istream_t" where
  "pb_decode_tag stream =
     (case pb_decode_varint32_eof stream of
        (None, eof, stream) \<Rightarrow> (None, eof, stream)
      | (Some temp, eof, stream) \<Rightarrow>
          if temp = 0 then (None, True, stream)
          else (Some (unat (temp AND 7), drop_bit 3 temp), eof, stream))"

definition pb_skip_field :: "pb_istream_t \<Rightarrow> nat \<Rightarrow> (unit, pb_istream_t) cres" where
  "pb_skip_field stream wire_type =
     (if wire_type = PB_WT_VARINT then pb_skip_varint stream
      else if wire_type = PB_WT_64BIT then cbind (pb_read stream True 8) (\<lambda>_ s. (Some (), s))
      else if wire_type = PB_WT_STRING then pb_skip_string stream
      else if wire_type = PB_WT_32BIT then cbind (pb_read stream True 4) (\<lambda>_ s. (Some (), s))
      else IN_RETURN_ERROR stream ''invalid wire_type'')"

text \<open>\<open>n\<close> bytes have been stored in the buffer so far.\<close>

function raw_varint_loop :: "pb_istream_t \<Rightarrow> nat \<Rightarrow> bytes \<Rightarrow> (bytes, pb_istream_t) cres" where
  "raw_varint_loop stream max_size acc =
     (if length acc + 1 > max_size then (None, stream)
      else cbind (pb_read stream False 1) (\<lambda>bs stream.
        if hd bs AND 0x80 \<noteq> 0 then raw_varint_loop stream max_size (acc @ [hd bs])
        else (Some (acc @ [hd bs]), stream)))"
  by pat_completeness auto
termination
  by (relation "measure (\<lambda>(_, max_size, acc). max_size - length acc)") auto

declare raw_varint_loop.simps [simp del]

definition read_raw_value :: "pb_istream_t \<Rightarrow> nat \<Rightarrow> nat \<Rightarrow> (bytes, pb_istream_t) cres" where
  "read_raw_value stream wire_type max_size =
     (if wire_type = PB_WT_VARINT then raw_varint_loop stream max_size []
      else if wire_type = PB_WT_64BIT then pb_read stream False 8
      else if wire_type = PB_WT_32BIT then pb_read stream False 4
      else IN_RETURN_ERROR stream ''invalid wire_type'')"

text \<open>The result is the substream, the state the parent stream.\<close>

definition pb_make_string_substream :: "pb_istream_t \<Rightarrow> (pb_istream_t, pb_istream_t) cres" where
  "pb_make_string_substream stream =
     cbind (pb_decode_varint32 stream) (\<lambda>n stream.
       let substream = stream
       in if bytes_left substream < unat n then IN_RETURN_ERROR stream ''parent stream too short''
          else (Some (substream\<lparr>bytes_left := unat n\<rparr>),
                stream\<lparr>bytes_left := bytes_left stream - unat n\<rparr>))"

definition pb_close_string_substream :: "pb_istream_t \<Rightarrow> pb_istream_t \<Rightarrow> (unit, pb_istream_t) cres" where
  "pb_close_string_substream stream substream =
     (case (if bytes_left substream \<noteq> 0 then pb_read substream True (bytes_left substream)
            else (Some [], substream)) of
        (None, _) \<Rightarrow> (None, stream)
      | (Some _, substream) \<Rightarrow>
          (Some (), stream\<lparr>is_state := is_state substream, is_errmsg := is_errmsg substream\<rparr>))"

section \<open>Scalar values\<close>

definition pb_dec_bool :: "pb_istream_t \<Rightarrow> (bool, pb_istream_t) cres" where
  "pb_dec_bool stream = cbind (pb_decode_varint32 stream) (\<lambda>value stream. (Some (value \<noteq> 0), stream))"

definition pb_decode_bool :: "pb_istream_t \<Rightarrow> (bool, pb_istream_t) cres" where
  "pb_decode_bool stream = pb_dec_bool stream"

text \<open>A signed value is its 64-bit pattern.\<close>

definition pb_decode_svarint :: "pb_istream_t \<Rightarrow> (u64, pb_istream_t) cres" where
  "pb_decode_svarint stream =
     cbind (pb_decode_varint stream) (\<lambda>value stream.
       (Some (if value AND 1 \<noteq> 0 then NOT (drop_bit 1 value) else drop_bit 1 value), stream))"

definition pb_decode_fixed32 :: "pb_istream_t \<Rightarrow> (u32, pb_istream_t) cres" where
  "pb_decode_fixed32 stream =
     cbind (pb_read stream False 4) (\<lambda>bs stream.
       (Some (push_bit 0 (ucast (bs ! 0)) OR push_bit 8 (ucast (bs ! 1)) OR
              push_bit 16 (ucast (bs ! 2)) OR push_bit 24 (ucast (bs ! 3))), stream))"

definition pb_decode_fixed64 :: "pb_istream_t \<Rightarrow> (u64, pb_istream_t) cres" where
  "pb_decode_fixed64 stream =
     cbind (pb_read stream False 8) (\<lambda>bs stream.
       (Some (push_bit 0 (ucast (bs ! 0)) OR push_bit 8 (ucast (bs ! 1)) OR
              push_bit 16 (ucast (bs ! 2)) OR push_bit 24 (ucast (bs ! 3)) OR
              push_bit 32 (ucast (bs ! 4)) OR push_bit 40 (ucast (bs ! 5)) OR
              push_bit 48 (ucast (bs ! 6)) OR push_bit 56 (ucast (bs ! 7))), stream))"

end
