(* ===== verification/PbWire.thy ===== *)
theory PbWire
  imports PbStream
begin

text \<open>
  What the wire-format readers do on a stream over memory: which bytes they take, which
  value they return, and that they stay inside the \<open>bytes_left\<close> limit.
\<close>

section \<open>Streams over memory\<close>

definition stream_ok :: "pb_istream_t \<Rightarrow> bool" where
  "stream_ok s \<longleftrightarrow> is_callback s = Buf_read \<and> bytes_left s \<le> length (is_state s)"

definition view :: "pb_istream_t \<Rightarrow> bytes" where
  "view s = take (bytes_left s) (is_state s)"

definition advance :: "nat \<Rightarrow> pb_istream_t \<Rightarrow> pb_istream_t" where
  "advance n s = s\<lparr>is_state := drop n (is_state s), bytes_left := bytes_left s - n\<rparr>"

lemma length_view [simp]: "stream_ok s \<Longrightarrow> length (view s) = bytes_left s"
  by (simp add: view_def stream_ok_def)

lemma advance_0 [simp]: "advance 0 s = s"
  by (simp add: advance_def)

lemma advance_advance [simp]: "advance m (advance n s) = advance (n + m) s"
  by (simp add: advance_def add.commute)

lemma stream_ok_advance [simp]: "stream_ok s \<Longrightarrow> stream_ok (advance n s)"
  by (auto simp: stream_ok_def advance_def)

lemma bytes_left_advance [simp]: "bytes_left (advance n s) = bytes_left s - n"
  by (simp add: advance_def)

lemma errmsg_advance [simp]: "is_errmsg (advance n s) = is_errmsg s"
  by (simp add: advance_def)

lemma view_advance [simp]: "view (advance n s) = drop n (view s)"
  by (simp add: view_def advance_def drop_take)

lemma from_buffer_ok [simp]: "n = length buf \<Longrightarrow> stream_ok (pb_istream_from_buffer buf n)"
  and view_from_buffer [simp]: "n = length buf \<Longrightarrow> view (pb_istream_from_buffer buf n) = buf"
  by (simp_all add: stream_ok_def view_def pb_istream_from_buffer_def)

lemma bytes_left_from_buffer [simp]: "bytes_left (pb_istream_from_buffer buf n) = n"
  by (simp add: pb_istream_from_buffer_def)

text \<open>\<open>failed s\<close>: the stream after an error was reported on it.\<close>

definition failed :: "string \<Rightarrow> pb_istream_t \<Rightarrow> pb_istream_t" where
  "failed msg s = s\<lparr>is_errmsg := (case is_errmsg s of None \<Rightarrow> Some msg | Some m \<Rightarrow> Some m)\<rparr>"

lemma return_error [simp]: "IN_RETURN_ERROR s msg = (None, failed msg s)"
  by (simp add: IN_RETURN_ERROR_def failed_def)

lemma failed_frame [simp]:
  "stream_ok (failed msg s) = stream_ok s" "view (failed msg s) = view s" "bytes_left (failed msg s) = bytes_left s"
  by (simp_all add: failed_def stream_ok_def view_def)

lemma read_some_buf:
  "stream_ok s \<Longrightarrow> pb_read_some s n =
     (if n \<le> bytes_left s then (Some (take n (view s)), advance n s) else (None, failed ''end-of-stream'' s))"
  by (auto simp: pb_read_some_def stream_callback_def buf_read_def stream_ok_def view_def advance_def min_def)

lemma pb_read_buf:
  "stream_ok s \<Longrightarrow> pb_read s skip n =
     (if n \<le> bytes_left s then (Some (take n (view s)), advance n s) else (None, failed ''end-of-stream'' s))"
  by (auto simp: pb_read_def read_some_buf stream_ok_def)

lemma pb_readbyte_buf:
  "stream_ok s \<Longrightarrow> pb_readbyte s =
     (case view s of [] \<Rightarrow> (None, failed ''end-of-stream'' s) | b # _ \<Rightarrow> (Some b, advance 1 s))"
  by (cases "is_state s")
    (auto simp: pb_readbyte_def stream_callback_def buf_read_def stream_ok_def view_def advance_def take_Cons' split: list.splits)

section \<open>Base-128 numbers, least significant group first\<close>

fun le128 :: "bytes \<Rightarrow> nat" where
  "le128 [] = 0"
| "le128 (b # bs) = unat b mod 128 + 128 * le128 bs"

definition cont :: "u8 \<Rightarrow> bool" where
  "cont b \<longleftrightarrow> 128 \<le> unat b"

definition varint_length :: "bytes \<Rightarrow> nat" where
  "varint_length bs = Suc (length (takeWhile cont bs))"

lemma cont_bit: "b AND 0x80 \<noteq> 0 \<longleftrightarrow> cont b"
  by (simp add: cont_def byte_simps not_less)

lemma varint_length_Cons: "varint_length (b # bs) = (if cont b then Suc (varint_length bs) else 1)"
  by (simp add: varint_length_def)

lemma varint_length_pos [simp]: "0 < varint_length bs"
  by (simp add: varint_length_def)

lemma or_push:
  fixes r x :: "'a::len word"
  assumes "unat r < 2 ^ p"
  shows "r OR push_bit p x = r + push_bit p x"
proof -
  have "r AND push_bit p x = 0"
    by (intro bit_word_eqI) (auto simp: bit_simps dest: bit_lt_power [OF assms] leD)
  then show ?thesis by (simp add: disjunctive_add_eq_or)
qed

lemma septet_wide:
  "LENGTH('a::len) \<ge> 8 \<Longrightarrow> (ucast (b AND 0x7F :: u8) :: 'a word) = of_nat (unat b mod 128)"
proof -
  assume len: "LENGTH('a) \<ge> 8"
  have "unat (ucast (b AND 0x7F) :: 'a word) = unat b mod 128"
    using len by (simp add: byte_simps)
  moreover have "(2 :: nat) ^ 8 \<le> 2 ^ LENGTH('a)" by (rule power_increasing [OF len]) simp
  then have "unat (of_nat (unat b mod 128) :: 'a word) = unat b mod 128"
    by (simp add: unat_of_nat order_less_le_trans [of "unat b mod 128" 128])
  ultimately show ?thesis by (simp only: word_unat_eq_iff)
qed

lemma push_septet:
  "LENGTH('a::len) \<ge> 8 \<Longrightarrow> push_bit p (ucast (b AND 0x7F :: u8) :: 'a word) = of_nat (2 ^ p * (unat b mod 128))"
  by (simp only: septet_wide push_bit_eq_mult) simp

lemma varint_acc:
  assumes "unat r < 2 ^ p"
  shows "(r OR push_bit p (ucast (b AND 0x7F :: u8))) + of_nat (2 ^ (7 + p) * n) =
    r + (of_nat (2 ^ p * (unat b mod 128 + 128 * n)) :: u64)"
proof -
  have "(of_nat (2 ^ p * (unat b mod 128 + 128 * n)) :: u64) =
      of_nat (2 ^ p * (unat b mod 128)) + of_nat (2 ^ (7 + p) * n)"
    by (simp only: of_nat_add [symmetric]) (simp add: power_add algebra_simps)
  moreover have "r OR push_bit p (ucast (b AND 0x7F)) = r + push_bit p (ucast (b AND 0x7F))"
    by (rule or_push [OF assms])
  moreover have "push_bit p (ucast (b AND 0x7F)) = (of_nat (2 ^ p * (unat b mod 128)) :: u64)"
    by (rule push_septet) simp
  ultimately show ?thesis
    by (simp only: add.assoc)
qed

lemma varint_bound:
  assumes "unat r < 2 ^ (7 * k)" and "k \<le> 8"
  shows "unat (r OR push_bit (7 * k) (ucast (b AND 0x7F :: u8)) :: u64) < 2 ^ (7 * Suc k)"
proof -
  let ?x = "ucast (b AND 0x7F) :: u64"
  have x: "unat ?x = unat b mod 128" by (simp add: byte_simps)
  have "unat ?x * 2 ^ (7 * k) + unat r < (unat ?x + 1) * 2 ^ (7 * k)"
    using assms(1) by simp
  also have "\<dots> \<le> 128 * 2 ^ (7 * k)"
    unfolding x by (intro mult_le_mono1) (simp add: Suc_le_eq)
  finally have lt: "unat ?x * 2 ^ (7 * k) + unat r < 2 ^ (7 * Suc k)" by (simp add: power_add)
  also have "(2 :: nat) ^ (7 * Suc k) \<le> 2 ^ LENGTH(64)"
    using assms(2) by (intro power_increasing) simp_all
  finally have "unat (push_bit (7 * k) ?x OR r) = unat ?x * 2 ^ (7 * k) + unat r"
    by (intro unat_push_or [OF assms(1)])
  with lt show ?thesis by (simp only: or.commute)
qed

section \<open>Varints of 64 bits\<close>

text \<open>The reader takes at most ten bytes; a longer run of continuation bytes is an error.\<close>

lemma varint_loop_spec:
  assumes "stream_ok s" and "unat r < 2 ^ (7 * k)" and "k \<le> 9" and "k + n = 10"
  shows "varint_length (view s) \<le> n \<Longrightarrow> varint_length (view s) \<le> bytes_left s \<Longrightarrow>
      varint_loop s (7 * k) r =
        (Some (r + of_nat (2 ^ (7 * k) * le128 (take (varint_length (view s)) (view s)))), advance (varint_length (view s)) s)"
    and "\<not> (varint_length (view s) \<le> n \<and> varint_length (view s) \<le> bytes_left s) \<Longrightarrow>
      fst (varint_loop s (7 * k) r) = None \<and> stream_ok (snd (varint_loop s (7 * k) r))"
  using assms
proof (induction n arbitrary: s r k)
  case 0
  {
    case 1
    then show ?case by simp
  next
    case 2
    then show ?case by simp
  }
next
  case (Suc n)
  have pos: "\<not> 64 \<le> 7 * k" if "k \<le> 9" for k :: nat using that by simp
  have bitpos: "(7 * k + 7) mod 256 = 7 * Suc k" if "k \<le> 9" for k :: nat using that by simp
  {
    case 1
    then obtain b bs where v: "view s = b # bs"
      using length_view [of s] varint_length_pos [of "view s"] by (cases "view s") (auto simp: varint_length_def)
    let ?r = "r OR push_bit (7 * k) (ucast (b AND 0x7F))"
    have step: "varint_loop s (7 * k) r =
        (if cont b then varint_loop (advance 1 s) (7 * Suc k) ?r else (Some ?r, advance 1 s))"
      unfolding varint_loop.simps [of s] using 1 v pos [OF 1(5)] bitpos [OF 1(5)]
      by (simp add: pb_readbyte_buf Let_def cont_bit) (simp add: add.commute)
    show ?case
    proof (cases "cont b")
      case False
      then show ?thesis
        using varint_acc [OF 1(4), of b 0] by (simp add: step v varint_length_Cons)
    next
      case True
      have "1 \<le> varint_length bs" by (simp add: varint_length_def)
      moreover have "varint_length bs \<le> n" using 1 True by (simp add: v varint_length_Cons)
      ultimately have k: "k \<le> 8" using 1 by linarith
      have "varint_loop (advance 1 s) (7 * Suc k) ?r =
        (Some (?r + of_nat (2 ^ (7 * Suc k) * le128 (take (varint_length (view (advance 1 s))) (view (advance 1 s))))),
          advance (varint_length (view (advance 1 s))) (advance 1 s))"
        using 1 True k varint_bound [OF 1(4) k] by (intro Suc.IH(1)) (simp_all add: v varint_length_Cons)
      also have "view (advance 1 s) = bs" by (simp add: v)
      finally show ?thesis
        using True varint_acc [OF 1(4), of b "le128 (take (varint_length bs) bs)"]
        by (simp add: step v varint_length_Cons)
    qed
  next
    case 2
    show ?case
    proof (cases "view s")
      case Nil
      then show ?thesis
        unfolding varint_loop.simps [of s] using 2 pos [OF 2(4)] by (simp add: pb_readbyte_buf)
    next
      case (Cons b bs)
      note v = Cons
      let ?r = "r OR push_bit (7 * k) (ucast (b AND 0x7F))"
      have step: "varint_loop s (7 * k) r =
          (if cont b then varint_loop (advance 1 s) (7 * Suc k) ?r else (Some ?r, advance 1 s))"
        unfolding varint_loop.simps [of s] using 2 v pos [OF 2(4)] bitpos [OF 2(4)]
        by (simp add: pb_readbyte_buf Let_def cont_bit) (simp add: add.commute)
      have left: "bytes_left s = Suc (length bs)" using length_view [OF 2(2)] v by simp
      have b: "cont b" using 2 left by (auto simp: v varint_length_Cons split: if_splits)
      show ?thesis
      proof (cases "k = 9")
        case True
        then show ?thesis
          unfolding step using b 2(2) by (simp add: varint_loop.simps [of "advance (Suc 0) s"])
      next
        case False
        then have k: "k \<le> 8" using 2 by simp
        have "fst (varint_loop (advance 1 s) (7 * Suc k) ?r) = None \<and> stream_ok (snd (varint_loop (advance 1 s) (7 * Suc k) ?r))"
          using 2 k varint_bound [OF 2(3) k] b left by (intro Suc.IH(2)) (auto simp: v varint_length_Cons)
        then show ?thesis by (simp add: step b)
      qed
    qed
  }
qed

lemma pb_decode_varint_buf:
  assumes "stream_ok s"
  shows "varint_length (view s) \<le> 10 \<and> varint_length (view s) \<le> bytes_left s \<Longrightarrow>
      pb_decode_varint s =
        (Some (of_nat (le128 (take (varint_length (view s)) (view s)))), advance (varint_length (view s)) s)"
    and "\<not> (varint_length (view s) \<le> 10 \<and> varint_length (view s) \<le> bytes_left s) \<Longrightarrow>
      fst (pb_decode_varint s) = None \<and> stream_ok (snd (pb_decode_varint s))"
  using varint_loop_spec [of s 0 0 10] assms by (simp_all add: pb_decode_varint_def)

section \<open>Varints of 32 bits\<close>

lemma varint32_acc:
  assumes "unat r < 2 ^ p"
  shows "(r OR push_bit p (ucast (b AND 0x7F :: u8))) + of_nat (2 ^ (7 + p) * n) =
    r + (of_nat (2 ^ p * (unat b mod 128 + 128 * n)) :: u32)"
proof -
  have "(of_nat (2 ^ p * (unat b mod 128 + 128 * n)) :: u32) =
      of_nat (2 ^ p * (unat b mod 128)) + of_nat (2 ^ (7 + p) * n)"
    by (simp only: of_nat_add [symmetric]) (simp add: power_add algebra_simps)
  moreover have "r OR push_bit p (ucast (b AND 0x7F)) = r + push_bit p (ucast (b AND 0x7F))"
    by (rule or_push [OF assms])
  moreover have "push_bit p (ucast (b AND 0x7F)) = (of_nat (2 ^ p * (unat b mod 128)) :: u32)"
    by (rule push_septet) simp
  ultimately show ?thesis
    by (simp only: add.assoc)
qed

lemma varint32_bound:
  assumes "unat r < 2 ^ (7 * k)" and "k \<le> 3"
  shows "unat (r OR push_bit (7 * k) (ucast (b AND 0x7F :: u8)) :: u32) < 2 ^ (7 * Suc k)"
proof -
  let ?x = "ucast (b AND 0x7F) :: u32"
  have x: "unat ?x = unat b mod 128" by (simp add: byte_simps)
  have "unat ?x * 2 ^ (7 * k) + unat r < (unat ?x + 1) * 2 ^ (7 * k)"
    using assms(1) by simp
  also have "\<dots> \<le> 128 * 2 ^ (7 * k)"
    unfolding x by (intro mult_le_mono1) (simp add: Suc_le_eq)
  finally have lt: "unat ?x * 2 ^ (7 * k) + unat r < 2 ^ (7 * Suc k)" by (simp add: power_add)
  also have "(2 :: nat) ^ (7 * Suc k) \<le> 2 ^ LENGTH(32)"
    using assms(2) by (intro power_increasing) simp_all
  finally have "unat (push_bit (7 * k) ?x OR r) = unat ?x * 2 ^ (7 * k) + unat r"
    by (intro unat_push_or [OF assms(1)])
  with lt show ?thesis by (simp only: or.commute)
qed

text \<open>Up to five bytes, the loop is the plain one; it also returns the last byte.\<close>

lemma varint32_loop_spec:
  assumes "stream_ok s" and "unat r < 2 ^ (7 * k)" and "k + n = 5"
    and "varint_length (view s) \<le> n" and "varint_length (view s) \<le> bytes_left s"
  shows "varint32_loop s (7 * k) r =
      (Some (r + of_nat (2 ^ (7 * k) * le128 (take (varint_length (view s)) (view s))),
             7 * (k + varint_length (view s)), view s ! (varint_length (view s) - 1)),
       advance (varint_length (view s)) s)"
  using assms
proof (induction n arbitrary: s r k)
  case 0
  then show ?case by (simp add: varint_length_def)
next
  case (Suc n)
  have k4: "k \<le> 4" using Suc.prems(3) by simp
  then have bitpos: "\<not> 32 \<le> 7 * k" "(7 * k + 7) mod 256 = 7 * k + 7" by simp_all
  obtain b bs where v: "view s = b # bs"
    using Suc.prems length_view [of s] by (cases "view s") (auto simp: varint_length_def)
  let ?r = "r OR push_bit (7 * k) (ucast (b AND 0x7F))"
  have step: "varint32_loop s (7 * k) r =
      (if cont b then varint32_loop (advance 1 s) (7 * Suc k) ?r else (Some (?r, 7 * Suc k, b), advance 1 s))"
    unfolding varint32_loop.simps [of s] using Suc.prems(1) v bitpos
    by (simp add: pb_readbyte_buf Let_def cont_bit) (simp add: add.commute)
  show ?case
  proof (cases "cont b")
    case False
    then show ?thesis
      using varint32_acc [OF Suc.prems(2), of b 0] by (simp add: step v varint_length_Cons)
  next
    case True
    have one: "1 \<le> varint_length bs" by (simp add: varint_length_def)
    moreover have "varint_length bs \<le> n" using Suc.prems True by (simp add: v varint_length_Cons)
    ultimately have k: "k \<le> 3" using Suc.prems by linarith
    have "varint32_loop (advance 1 s) (7 * Suc k) ?r =
      (Some (?r + of_nat (2 ^ (7 * Suc k) * le128 (take (varint_length (view (advance 1 s))) (view (advance 1 s)))),
             7 * (Suc k + varint_length (view (advance 1 s))),
             view (advance 1 s) ! (varint_length (view (advance 1 s)) - 1)),
        advance (varint_length (view (advance 1 s))) (advance 1 s))"
      using Suc.prems True varint32_bound [OF Suc.prems(2) k] by (intro Suc.IH) (simp_all add: v varint_length_Cons)
    also have "view (advance 1 s) = bs" by (simp add: v)
    finally show ?thesis
      using True varint32_acc [OF Suc.prems(2), of b "le128 (take (varint_length bs) bs)"] one
      by (simp add: step v varint_length_Cons nth_Cons')
  qed
qed

lemma le128_append: "le128 (xs @ ys) = le128 xs + 128 ^ length xs * le128 ys"
  by (induction xs) (simp_all add: algebra_simps)

lemma le128_bound: "le128 xs < 128 ^ length xs"
proof (induction xs)
  case Nil
  then show ?case by simp
next
  case (Cons b xs)
  have "unat b mod 128 < 128" by simp
  then have "unat b mod 128 + 128 * le128 xs < 128 * (le128 xs + 1)" by simp
  also have "\<dots> \<le> 128 * 128 ^ length xs" using Cons by (intro mult_le_mono2) simp
  finally show ?case by simp
qed

lemma cont_take: "varint_length v \<le> length v \<Longrightarrow> \<not> cont (v ! (varint_length v - 1))"
proof (induction v)
  case Nil
  then show ?case by (simp add: varint_length_def)
next
  case (Cons b v)
  then show ?case
    by (cases "cont b") (simp_all add: varint_length_Cons nth_Cons' varint_length_def)
qed

lemma and_0x70: "b AND 0x70 \<noteq> 0 \<longleftrightarrow> 16 \<le> unat b mod 128" for b :: u8
proof -
  have "b AND 0x70 = (b AND mask 7) AND NOT (mask 4)"
    by (simp add: mask_eq_exp_minus_1 and.assoc)
  then have "unat (b AND 0x70) = unat b mod 128 - unat b mod 128 mod 16"
    by (simp add: unat_and_not_mask unat_and_mask)
  moreover have "m - m mod 16 = 0 \<longleftrightarrow> m < 16" for m :: nat
    by (simp add: minus_mod_eq_mult_div div_eq_0_iff)
  ultimately show ?thesis
    by (simp add: word_unat_eq_iff [of "b AND 0x70"] not_less)
qed

lemma pb_decode_varint32_buf:
  assumes ok: "stream_ok s" and len: "varint_length (view s) \<le> 5" "varint_length (view s) \<le> bytes_left s"
  defines "n \<equiv> le128 (take (varint_length (view s)) (view s))"
  shows "pb_decode_varint32 s =
    (if n < 2 ^ 32 then (Some (of_nat n), advance (varint_length (view s)) s)
     else (None, failed ''varint overflow'' (advance (varint_length (view s)) s)))"
proof -
  obtain b bs where v: "view s = b # bs"
    using ok len length_view [of s] by (cases "view s") (auto simp: varint_length_def)
  show ?thesis
  proof (cases "cont b")
    case False
    then have "b AND 0x80 = 0" using cont_bit by blast
    moreover have "n = unat b" and "unat b < 2 ^ 32"
      using False unat_u8_less [of b] by (simp_all add: n_def v varint_length_Cons cont_def)
    ultimately show ?thesis
      using ok False by (simp add: pb_decode_varint32_def pb_decode_varint32_eof_def pb_readbyte_buf v varint_length_Cons)
  next
    case True
    then have top: "b AND 0x80 \<noteq> 0" by (simp only: cont_bit)
    let ?s = "advance 1 s" and ?r = "ucast (b AND 0x7F) :: u32" and ?l = "varint_length bs"
    have vb: "view ?s = bs" by (simp add: v)
    have l: "?l \<le> 4" "?l \<le> length bs"
      using len True length_view [OF ok] by (simp_all add: v varint_length_Cons)
    have r: "unat ?r = unat b mod 128" by (simp add: byte_simps)
    have loop: "varint32_loop ?s 7 ?r =
      (Some (?r + of_nat (2 ^ 7 * le128 (take ?l bs)), 7 * (1 + ?l), bs ! (?l - 1)), advance ?l ?s)"
      using varint32_loop_spec [of ?s ?r 1 4] ok l length_view [OF ok] by (simp add: vb v r)
    have n: "n = unat b mod 128 + 128 * le128 (take ?l bs)"
      using True by (simp add: n_def v varint_length_Cons)
    have val: "?r + of_nat (2 ^ 7 * le128 (take ?l bs)) = of_nat n"
      using septet_wide [where 'a = 32, of b] by (simp add: n)
    have five: "?l = 4 \<Longrightarrow> bs ! 3 AND 0x70 \<noteq> 0 \<longleftrightarrow> 2 ^ 32 \<le> n"
    proof -
      assume l4: "?l = 4"
      then have "take ?l bs = take 3 bs @ [bs ! 3]" using l by (simp add: take_Suc_conv_app_nth [of 3, simplified])
      then have "n = unat b mod 128 + 128 * le128 (take 3 bs) + 268435456 * (unat (bs ! 3) mod 128)"
        using l l4 by (simp add: n le128_append)
      moreover have "unat b mod 128 + 128 * le128 (take 3 bs) < 268435456"
        using le128_bound [of "b # take 3 bs"] l l4 by simp
      ultimately have "2 ^ 32 \<le> n \<longleftrightarrow> 16 \<le> unat (bs ! 3) mod 128" by auto
      then show ?thesis by (simp only: and_0x70)
    qed
    have small: "?l \<noteq> 4 \<Longrightarrow> n < 2 ^ 32"
    proof -
      assume "?l \<noteq> 4"
      then have "length (b # take ?l bs) \<le> 4" using l by simp
      then have "128 ^ length (b # take ?l bs) \<le> (128 :: nat) ^ 4" by (rule power_increasing) simp
      with le128_bound [of "b # take ?l bs"] show ?thesis by (simp add: n)
    qed
    show ?thesis
    proof (cases "?l = 4")
      case True
      with five loop val top ok \<open>cont b\<close> show ?thesis
        by (simp add: pb_decode_varint32_def pb_decode_varint32_eof_def pb_readbyte_buf v varint_length_Cons not_less)
    next
      case False
      with small loop val top ok \<open>cont b\<close> show ?thesis
        by (simp add: pb_decode_varint32_def pb_decode_varint32_eof_def pb_readbyte_buf v varint_length_Cons)
    qed
  qed
qed

end
