(* ===== verification/PbCommon.thy ===== *)
theory PbCommon
  imports Prelude
begin

text \<open>
  \<^verbatim>\<open>nanopb/pb.h\<close> and \<^verbatim>\<open>nanopb/pb_common.c\<close>: the field descriptors of a message type and
  the iterator over them.

  A descriptor array is the list of its entries, the terminating entry with tag 0 included;
  \<open>pos\<close> is an index into it. Addresses are integers, the null pointer is 0. The program is
  built with \<open>PB_FIELD_32BIT\<close>: \<open>pb_size_t\<close> has 32 bits.
\<close>

section \<open>Descriptors\<close>

text \<open>
  \<open>ptr\<close> refers to the descriptor array of a submessage or to a default value. Message types may be recursive, so a
  descriptor array is named by a number, which stands for its address.
\<close>

datatype pb_ptr = PtrNull | PtrFields nat | PtrDefault bytes

datatype pb_field_t =
    pb_field (f_tag: nat) (f_type: u8) (f_data_offset: nat) (f_size_offset: int) (f_data_size: nat)
      (f_array_size: nat) (f_ptr: pb_ptr)

definition PB_LTYPE :: "u8 \<Rightarrow> u8" where "PB_LTYPE x = x AND 0x0F"
definition PB_HTYPE :: "u8 \<Rightarrow> u8" where "PB_HTYPE x = x AND 0x30"
definition PB_ATYPE :: "u8 \<Rightarrow> u8" where "PB_ATYPE x = x AND 0xC0"

definition PB_LTYPE_BOOL :: u8 where "PB_LTYPE_BOOL = 0x00"
definition PB_LTYPE_VARINT :: u8 where "PB_LTYPE_VARINT = 0x01"
definition PB_LTYPE_UVARINT :: u8 where "PB_LTYPE_UVARINT = 0x02"
definition PB_LTYPE_SVARINT :: u8 where "PB_LTYPE_SVARINT = 0x03"
definition PB_LTYPE_FIXED32 :: u8 where "PB_LTYPE_FIXED32 = 0x04"
definition PB_LTYPE_FIXED64 :: u8 where "PB_LTYPE_FIXED64 = 0x05"
definition PB_LTYPE_LAST_PACKABLE :: u8 where "PB_LTYPE_LAST_PACKABLE = 0x05"
definition PB_LTYPE_BYTES :: u8 where "PB_LTYPE_BYTES = 0x06"
definition PB_LTYPE_STRING :: u8 where "PB_LTYPE_STRING = 0x07"
definition PB_LTYPE_SUBMESSAGE :: u8 where "PB_LTYPE_SUBMESSAGE = 0x08"
definition PB_LTYPE_EXTENSION :: u8 where "PB_LTYPE_EXTENSION = 0x09"
definition PB_LTYPE_FIXED_LENGTH_BYTES :: u8 where "PB_LTYPE_FIXED_LENGTH_BYTES = 0x0A"

definition PB_HTYPE_REQUIRED :: u8 where "PB_HTYPE_REQUIRED = 0x00"
definition PB_HTYPE_OPTIONAL :: u8 where "PB_HTYPE_OPTIONAL = 0x10"
definition PB_HTYPE_REPEATED :: u8 where "PB_HTYPE_REPEATED = 0x20"
definition PB_HTYPE_ONEOF :: u8 where "PB_HTYPE_ONEOF = 0x30"

definition PB_ATYPE_STATIC :: u8 where "PB_ATYPE_STATIC = 0x00"
definition PB_ATYPE_POINTER :: u8 where "PB_ATYPE_POINTER = 0x80"
definition PB_ATYPE_CALLBACK :: u8 where "PB_ATYPE_CALLBACK = 0x40"

definition PB_SIZE_MAX :: nat where "PB_SIZE_MAX = 2 ^ 32 - 1"

section \<open>The iterator\<close>

record pb_field_iter_t =
  it_start :: "pb_field_t list"
  it_pos :: nat
  required_field_index :: nat
  dest_struct :: int
  pData :: int
  pSize :: int

abbreviation it_field :: "pb_field_iter_t \<Rightarrow> pb_field_t" where
  "it_field iter \<equiv> it_start iter ! it_pos iter"

definition pb_field_iter_begin :: "pb_field_t list \<Rightarrow> int \<Rightarrow> bool \<times> pb_field_iter_t" where
  "pb_field_iter_begin flds dest =
     (let f = flds ! 0;
          data = (if dest = 0 then 0 else dest + int (f_data_offset f));
          size_ptr = (if dest = 0 then 0 else data + f_size_offset f)
      in (f_tag f \<noteq> 0,
          \<lparr>it_start = flds, it_pos = 0, required_field_index = 0, dest_struct = dest,
           pData = data, pSize = size_ptr\<rparr>))"

definition pb_field_iter_next :: "pb_field_iter_t \<Rightarrow> bool \<times> pb_field_iter_t" where
  "pb_field_iter_next iter =
     (let prev_field = it_field iter in
      if f_tag prev_field = 0 then (False, iter)
      else
        let pos = it_start iter ! (it_pos iter + 1) in
        if f_tag pos = 0 then (False, snd (pb_field_iter_begin (it_start iter) (dest_struct iter)))
        else
          let iter = iter\<lparr>it_pos := it_pos iter + 1\<rparr>; prev_size = f_data_size prev_field in
          if PB_HTYPE (f_type prev_field) = PB_HTYPE_ONEOF \<and> PB_HTYPE (f_type pos) = PB_HTYPE_ONEOF \<and>
             f_data_offset pos = PB_SIZE_MAX
          then (True, iter)
          else
            let prev_size =
                  (if PB_ATYPE (f_type prev_field) = PB_ATYPE_STATIC \<and>
                      PB_HTYPE (f_type prev_field) = PB_HTYPE_REPEATED
                   then prev_size * f_array_size prev_field
                   else if PB_ATYPE (f_type prev_field) = PB_ATYPE_POINTER then 8
                   else prev_size);
                required = (if PB_HTYPE (f_type prev_field) = PB_HTYPE_REQUIRED
                            then required_field_index iter + 1 else required_field_index iter);
                data = pData iter + int prev_size + int (f_data_offset pos)
            in (True, iter\<lparr>required_field_index := required, pData := data,
                           pSize := data + f_size_offset pos\<rparr>))"

text \<open>
  The loop stops when it is back at the start. The first argument bounds its iterations;
  the length of the array is enough, and \<open>None\<close> means that it was not.
\<close>

fun iter_find_loop :: "nat \<Rightarrow> pb_field_iter_t \<Rightarrow> nat \<Rightarrow> nat \<Rightarrow> (bool \<times> pb_field_iter_t) option" where
  "iter_find_loop 0 iter start tag = None"
| "iter_find_loop (Suc fuel) iter start tag =
     (if f_tag (it_field iter) = tag \<and> PB_LTYPE (f_type (it_field iter)) \<noteq> PB_LTYPE_EXTENSION
      then Some (True, iter)
      else
        let iter = snd (pb_field_iter_next iter)
        in if it_pos iter \<noteq> start then iter_find_loop fuel iter start tag else Some (False, iter))"

definition pb_field_iter_find :: "pb_field_iter_t \<Rightarrow> nat \<Rightarrow> (bool \<times> pb_field_iter_t) option" where
  "pb_field_iter_find iter tag = iter_find_loop (length (it_start iter)) iter (it_pos iter) tag"

section \<open>Invariants\<close>

text \<open>A terminated array, and the iterator that has been advanced \<open>i\<close> times from the start.\<close>

definition wf_fields :: "pb_field_t list \<Rightarrow> bool" where
  "wf_fields fs \<longleftrightarrow> fs \<noteq> [] \<and> f_tag (last fs) = 0 \<and> list_all (\<lambda>f. f_tag f \<noteq> 0) (butlast fs)"

fun iter_at :: "pb_field_t list \<Rightarrow> int \<Rightarrow> nat \<Rightarrow> pb_field_iter_t" where
  "iter_at fs dest 0 = snd (pb_field_iter_begin fs dest)"
| "iter_at fs dest (Suc i) = snd (pb_field_iter_next (iter_at fs dest i))"

text \<open>The number of entries an iterator visits: all but the terminator, or it alone.\<close>

definition visited :: "pb_field_t list \<Rightarrow> nat" where
  "visited fs = (if length fs = 1 then 1 else length fs - 1)"

lemma wf_tag: "wf_fields fs \<Longrightarrow> i < length fs \<Longrightarrow> f_tag (fs ! i) = 0 \<longleftrightarrow> i = length fs - 1"
proof -
  assume wf: "wf_fields fs" and i: "i < length fs"
  show ?thesis
  proof (cases "i = length fs - 1")
    case True
    then have "fs ! i = last fs" using wf by (simp add: wf_fields_def last_conv_nth)
    with wf True show ?thesis by (simp add: wf_fields_def)
  next
    case False
    with i have "fs ! i = butlast fs ! i" and "i < length (butlast fs)"
      by (simp_all add: nth_butlast)
    with wf False show ?thesis by (auto simp: wf_fields_def list_all_length)
  qed
qed

lemma begin_simps [simp]:
  "it_start (snd (pb_field_iter_begin fs dest)) = fs"
  "it_pos (snd (pb_field_iter_begin fs dest)) = 0"
  "dest_struct (snd (pb_field_iter_begin fs dest)) = dest"
  "required_field_index (snd (pb_field_iter_begin fs dest)) = 0"
  by (simp_all add: pb_field_iter_begin_def Let_def)

lemma next_frame [simp]:
  "it_start (snd (pb_field_iter_next it)) = it_start it"
  "dest_struct (snd (pb_field_iter_next it)) = dest_struct it"
  by (simp_all add: pb_field_iter_next_def Let_def)

lemma iter_at_frame [simp]:
  "it_start (iter_at fs dest i) = fs" "dest_struct (iter_at fs dest i) = dest"
  by (induction i) simp_all

lemma wf_visited:
  assumes "wf_fields fs" and "i < visited fs"
  shows "visited fs = 1 \<and> i = 0 \<and> f_tag (fs ! 0) = 0 \<or>
    f_tag (fs ! i) \<noteq> 0 \<and> (f_tag (fs ! Suc i) = 0 \<longleftrightarrow> Suc i = visited fs)"
proof (cases "length fs = 1")
  case True
  with assms wf_tag [OF assms(1), of 0] show ?thesis by (simp add: visited_def)
next
  case False
  then have v: "visited fs = length fs - 1" by (simp add: visited_def)
  with assms(2) have "i < length fs" "Suc i < length fs" by simp_all
  with wf_tag [OF assms(1), of i] wf_tag [OF assms(1), of "Suc i"] v assms(2) show ?thesis
    by (intro disjI2) auto
qed

lemma next_end: "f_tag (it_field it) = 0 \<Longrightarrow> snd (pb_field_iter_next it) = it"
  by (simp add: pb_field_iter_next_def Let_def)

lemma next_wrap:
  "f_tag (it_field it) \<noteq> 0 \<Longrightarrow> f_tag (it_start it ! Suc (it_pos it)) = 0 \<Longrightarrow>
     snd (pb_field_iter_next it) = snd (pb_field_iter_begin (it_start it) (dest_struct it))"
  by (simp add: pb_field_iter_next_def Let_def)

lemma next_advance:
  "f_tag (it_field it) \<noteq> 0 \<Longrightarrow> f_tag (it_start it ! Suc (it_pos it)) \<noteq> 0 \<Longrightarrow>
     it_pos (snd (pb_field_iter_next it)) = Suc (it_pos it)"
  by (simp add: pb_field_iter_next_def Let_def)

lemma next_pos:
  "wf_fields (it_start it) \<Longrightarrow> it_pos it < visited (it_start it) \<Longrightarrow>
     it_pos (snd (pb_field_iter_next it)) = (it_pos it + 1) mod visited (it_start it)"
  using wf_visited [of "it_start it" "it_pos it"]
  by (cases "Suc (it_pos it) = visited (it_start it)") (auto simp: next_end next_wrap next_advance)

lemma iter_at_pos: "wf_fields fs \<Longrightarrow> i < visited fs \<Longrightarrow> it_pos (iter_at fs dest i) = i"
  by (induction i) (simp_all add: next_pos)

text \<open>The iterator wraps around to its own starting state.\<close>

lemma iter_at_wrap:
  assumes "wf_fields fs"
  shows "iter_at fs dest (visited fs) = iter_at fs dest 0"
proof -
  have "0 < visited fs" using assms by (cases fs) (auto simp: visited_def wf_fields_def)
  then obtain k where k: "visited fs = Suc k" by (cases "visited fs") auto
  let ?it = "iter_at fs dest k"
  have pos: "it_pos ?it = k" using iter_at_pos [OF assms] k by simp
  from wf_visited [OF assms, of k] k consider "k = 0" "f_tag (fs ! 0) = 0" | "f_tag (fs ! k) \<noteq> 0" "f_tag (fs ! Suc k) = 0"
    by auto
  then show ?thesis
  proof cases
    case 1
    then show ?thesis by (simp add: k next_end)
  next
    case 2
    then show ?thesis by (simp add: k next_wrap pos)
  qed
qed

text \<open>The iterator is in the state that its position determines.\<close>

definition iter_ok :: "pb_field_iter_t \<Rightarrow> bool" where
  "iter_ok it \<longleftrightarrow> wf_fields (it_start it) \<and> it_pos it < visited (it_start it) \<and>
     it = iter_at (it_start it) (dest_struct it) (it_pos it)"

lemma iter_ok_at: "wf_fields fs \<Longrightarrow> i < visited fs \<Longrightarrow> iter_ok (iter_at fs dest i)"
  by (simp add: iter_ok_def iter_at_pos)

lemma next_at:
  "wf_fields fs \<Longrightarrow> i < visited fs \<Longrightarrow>
     snd (pb_field_iter_next (iter_at fs dest i)) = iter_at fs dest ((i + 1) mod visited fs)"
  using iter_at_wrap [of fs dest] by (cases "Suc i = visited fs") (auto simp flip: iter_at.simps)

lemma find_loop_spec:
  assumes wf: "wf_fields fs" and "start < visited fs" and "k + n = visited fs" and "0 < n" and "n \<le> fuel"
    and "\<forall>j<k. \<not> (f_tag (fs ! ((start + j) mod visited fs)) = tag \<and>
                   PB_LTYPE (f_type (fs ! ((start + j) mod visited fs))) \<noteq> PB_LTYPE_EXTENSION)"
  shows "\<exists>b i. iter_find_loop fuel (iter_at fs dest ((start + k) mod visited fs)) start tag = Some (b, iter_at fs dest i) \<and>
    i < visited fs \<and>
    (b \<longrightarrow> f_tag (fs ! i) = tag \<and> PB_LTYPE (f_type (fs ! i)) \<noteq> PB_LTYPE_EXTENSION) \<and>
    (\<not> b \<longrightarrow> i = start \<and>
       (\<forall>j<visited fs. \<not> (f_tag (fs ! j) = tag \<and> PB_LTYPE (f_type (fs ! j)) \<noteq> PB_LTYPE_EXTENSION)))"
  using assms(3-)
proof (induction n arbitrary: k fuel)
  case 0
  then show ?case by simp
next
  case (Suc n)
  let ?v = "visited fs" and ?match = "\<lambda>i. f_tag (fs ! i) = tag \<and> PB_LTYPE (f_type (fs ! i)) \<noteq> PB_LTYPE_EXTENSION"
  let ?i = "(start + k) mod ?v"
  have v: "0 < ?v" using assms(2) by simp
  then have i: "?i < ?v" by simp
  obtain fuel' where fuel: "fuel = Suc fuel'" using Suc.prems by (cases fuel) auto
  have pos: "it_pos (iter_at fs dest ?i) = ?i" by (rule iter_at_pos [OF wf i])
  show ?case
  proof (cases "?match ?i")
    case True
    with i pos show ?thesis by (intro exI [of _ True] exI [of _ ?i]) (simp add: fuel)
  next
    case False
    have nxt: "snd (pb_field_iter_next (iter_at fs dest ?i)) = iter_at fs dest ((start + Suc k) mod ?v)"
      using next_at [OF wf i] by (simp add: mod_Suc_eq)
    have pos': "it_pos (iter_at fs dest ((start + Suc k) mod ?v)) = (start + Suc k) mod ?v"
      using v by (intro iter_at_pos [OF wf]) simp
    have home: "(start + Suc k) mod ?v = start \<longleftrightarrow> Suc k = ?v"
    proof
      assume *: "(start + Suc k) mod ?v = start"
      show "Suc k = ?v"
      proof (rule ccontr)
        assume "Suc k \<noteq> ?v"
        with Suc.prems(1) have "Suc k < ?v" by simp
        with * assms(2) show False
          by (cases "start + Suc k < ?v") (simp_all add: le_mod_geq)
      qed
    next
      assume "Suc k = ?v"
      then show "(start + Suc k) mod ?v = start" using assms(2) by simp
    qed
    have none: "\<forall>j<Suc k. \<not> ?match ((start + j) mod ?v)"
      using Suc.prems(4) False by (auto simp: less_Suc_eq)
    show ?thesis
    proof (cases "n = 0")
      case True
      then have k: "Suc k = ?v" using Suc.prems(1) by simp
      have "\<not> ?match j" if j: "j < ?v" for j
      proof -
        have "(start + (j + ?v - start) mod ?v) mod ?v = j"
          using j assms(2) by (simp add: mod_add_right_eq)
        moreover have "(j + ?v - start) mod ?v < Suc k" using k v by simp
        ultimately show ?thesis using none by metis
      qed
      then show ?thesis
        using False pos pos' home k assms(2)
        by (intro exI [of _ False] exI [of _ start]) (auto simp: fuel Let_def nxt)
    next
      case False
      then have "Suc k \<noteq> ?v" using Suc.prems(1) by simp
      moreover have "\<exists>b i. iter_find_loop fuel' (iter_at fs dest ((start + Suc k) mod ?v)) start tag = Some (b, iter_at fs dest i) \<and>
          i < ?v \<and> (b \<longrightarrow> ?match i) \<and> (\<not> b \<longrightarrow> i = start \<and> (\<forall>j<?v. \<not> ?match j))"
        using Suc.prems False none by (intro Suc.IH) (auto simp: fuel)
      ultimately show ?thesis
        using \<open>\<not> ?match ?i\<close> home pos pos' by (auto simp: fuel Let_def nxt)
    qed
  qed
qed

section \<open>Properties\<close>

text \<open>
  \<open>pb_field_iter_find\<close> always returns, visits every entry from any position, finds a
  non-extension entry with the tag exactly when the array has one, and leaves the iterator
  in the state that belongs to its position, back where it started when nothing matched.
\<close>

theorem pb_field_iter_find_correct:
  assumes "iter_ok it"
  shows "\<exists>b it'. pb_field_iter_find it tag = Some (b, it') \<and> iter_ok it' \<and>
    it_start it' = it_start it \<and>
    (b \<longleftrightarrow> (\<exists>i<visited (it_start it). f_tag (it_start it ! i) = tag \<and>
               PB_LTYPE (f_type (it_start it ! i)) \<noteq> PB_LTYPE_EXTENSION)) \<and>
    (b \<longrightarrow> f_tag (it_field it') = tag) \<and> (\<not> b \<longrightarrow> it' = it)"
proof -
  let ?fs = "it_start it"
  from assms have wf: "wf_fields ?fs" and pos: "it_pos it < visited ?fs"
    and at: "it = iter_at ?fs (dest_struct it) (it_pos it)"
    by (simp_all add: iter_ok_def)
  have "0 < visited ?fs" and "visited ?fs \<le> length ?fs"
    using pos wf by (auto simp: visited_def wf_fields_def)
  with find_loop_spec [OF wf pos, of 0 "visited ?fs" "length ?fs" tag "dest_struct it"] pos
  obtain b i where loop: "iter_find_loop (length ?fs) it (it_pos it) tag = Some (b, iter_at ?fs (dest_struct it) i)"
    and i: "i < visited ?fs"
    and yes: "b \<longrightarrow> f_tag (?fs ! i) = tag \<and> PB_LTYPE (f_type (?fs ! i)) \<noteq> PB_LTYPE_EXTENSION"
    and no: "\<not> b \<longrightarrow> i = it_pos it \<and>
       (\<forall>j<visited ?fs. \<not> (f_tag (?fs ! j) = tag \<and> PB_LTYPE (f_type (?fs ! j)) \<noteq> PB_LTYPE_EXTENSION))"
    using at by auto
  show ?thesis
  proof (intro exI conjI)
    show "pb_field_iter_find it tag = Some (b, iter_at ?fs (dest_struct it) i)"
      using loop by (simp add: pb_field_iter_find_def)
    show "iter_ok (iter_at ?fs (dest_struct it) i)" by (rule iter_ok_at [OF wf i])
    show "b \<longrightarrow> f_tag (it_field (iter_at ?fs (dest_struct it) i)) = tag"
      using yes iter_at_pos [OF wf i] by simp
    show "\<not> b \<longrightarrow> iter_at ?fs (dest_struct it) i = it" using no at by simp
    show "b \<longleftrightarrow> (\<exists>i<visited ?fs. f_tag (?fs ! i) = tag \<and> PB_LTYPE (f_type (?fs ! i)) \<noteq> PB_LTYPE_EXTENSION)"
      using yes no i by blast
  qed simp
qed

definition two_fields :: "pb_field_t list" where
  "two_fields = [pb_field 1 0 0 0 4 0 PtrNull, pb_field 5 0 0 0 8 0 PtrNull, pb_field 0 0 0 0 0 0 PtrNull]"

lemma pb_field_iter_find_correct_witness:
  "\<exists>it'. pb_field_iter_find (snd (pb_field_iter_begin two_fields 64)) 5 = Some (True, it') \<and> f_tag (it_field it') = 5"
proof -
  let ?it = "snd (pb_field_iter_begin two_fields 64)"
  have wf: "wf_fields two_fields" and v: "visited two_fields = 2"
    by (simp_all add: two_fields_def wf_fields_def visited_def)
  have "?it = iter_at two_fields 64 0" by simp
  then have "iter_ok ?it" using iter_ok_at [OF wf, of 0 64] v by simp
  moreover have "it_start ?it = two_fields" by (simp add: pb_field_iter_begin_def Let_def)
  moreover have "f_tag (two_fields ! 1) = 5 \<and> PB_LTYPE (f_type (two_fields ! 1)) \<noteq> PB_LTYPE_EXTENSION"
    by (simp add: two_fields_def PB_LTYPE_def PB_LTYPE_EXTENSION_def)
  then have "\<exists>i<visited two_fields. f_tag (two_fields ! i) = 5 \<and> PB_LTYPE (f_type (two_fields ! i)) \<noteq> PB_LTYPE_EXTENSION"
    using v by (metis one_less_numeral_iff semiring_norm(76))
  ultimately show ?thesis using pb_field_iter_find_correct [of ?it 5] by fastforce
qed

end
