(* ===== verification/PbFields.thy ===== *)
theory PbFields
  imports PbWire PbCommon
begin

text \<open>
  The scalar, string and bytes field decoders of \<^verbatim>\<open>nanopb/pb_decode.c\<close> and the encoders of
  \<^verbatim>\<open>nanopb/pb_encode.c\<close>, with the output streams they write to.

  The memory a decoder stores through \<open>dest\<close> is its result, the memory an encoder loads
  through \<open>src\<close> its argument: a list of bytes in the little-endian order of the targets.
\<close>

section \<open>Integers in memory\<close>

definition store_int :: "nat \<Rightarrow> u64 \<Rightarrow> bytes" where
  "store_int n v = map (\<lambda>i. ucast (drop_bit (8 * i) v)) [0..<n]"

definition load_unsigned :: "bytes \<Rightarrow> u64" where
  "load_unsigned bs = foldr (\<lambda>b v. push_bit 8 v OR ucast b) bs 0"

definition load_signed :: "bytes \<Rightarrow> u64" where
  "load_signed bs = signed_take_bit (8 * length bs - 1) (load_unsigned bs)"

section \<open>Field decoders\<close>

definition pb_dec_varint :: "pb_istream_t \<Rightarrow> pb_field_t \<Rightarrow> (bytes, pb_istream_t) cres" where
  "pb_dec_varint stream field =
     cbind (pb_decode_varint stream) (\<lambda>value stream.
       let svalue = (if f_data_size field = 8 then value else signed_take_bit 31 value) in
       if f_data_size field \<in> {8, 4, 2, 1} then
         let clamped = signed_take_bit (8 * f_data_size field - 1) svalue
         in if clamped \<noteq> svalue then IN_RETURN_ERROR stream ''integer too large''
            else (Some (store_int (f_data_size field) svalue), stream)
       else IN_RETURN_ERROR stream ''invalid data_size'')"

definition pb_dec_uvarint :: "pb_istream_t \<Rightarrow> pb_field_t \<Rightarrow> (bytes, pb_istream_t) cres" where
  "pb_dec_uvarint stream field =
     cbind (pb_decode_varint stream) (\<lambda>value stream.
       if f_data_size field \<in> {8, 4, 2, 1} then
         let clamped = take_bit (8 * f_data_size field) value
         in if clamped \<noteq> value then IN_RETURN_ERROR stream ''integer too large''
            else (Some (store_int (f_data_size field) value), stream)
       else IN_RETURN_ERROR stream ''invalid data_size'')"

definition pb_dec_svarint :: "pb_istream_t \<Rightarrow> pb_field_t \<Rightarrow> (bytes, pb_istream_t) cres" where
  "pb_dec_svarint stream field =
     cbind (pb_decode_svarint stream) (\<lambda>value stream.
       if f_data_size field \<in> {8, 4, 2, 1} then
         let clamped = signed_take_bit (8 * f_data_size field - 1) value
         in if clamped \<noteq> value then IN_RETURN_ERROR stream ''integer too large''
            else (Some (store_int (f_data_size field) value), stream)
       else IN_RETURN_ERROR stream ''invalid data_size'')"

definition pb_dec_fixed32 :: "pb_istream_t \<Rightarrow> pb_field_t \<Rightarrow> (bytes, pb_istream_t) cres" where
  "pb_dec_fixed32 stream field =
     cbind (pb_decode_fixed32 stream) (\<lambda>v stream. (Some (store_int 4 (ucast v)), stream))"

definition pb_dec_fixed64 :: "pb_istream_t \<Rightarrow> pb_field_t \<Rightarrow> (bytes, pb_istream_t) cres" where
  "pb_dec_fixed64 stream field =
     cbind (pb_decode_fixed64 stream) (\<lambda>v stream. (Some (store_int 8 v), stream))"

text \<open>
  \<open>allocate_field\<close>: the allocator is code outside the repository, \<open>realloc_ok\<close> says of a
  size whether it is granted. \<open>size_t\<close> has 64 bits.
\<close>

definition allocate_field ::
    "(nat \<Rightarrow> bool) \<Rightarrow> pb_istream_t \<Rightarrow> nat \<Rightarrow> nat \<Rightarrow> (nat, pb_istream_t) cres" where
  "allocate_field realloc_ok stream data_size array_size =
     (if data_size = 0 \<or> array_size = 0 then IN_RETURN_ERROR stream ''invalid size''
      else
        let check_limit = 2 ^ 32
        in if (data_size \<ge> check_limit \<or> array_size \<ge> check_limit) \<and>
              (size_max - 1) div array_size < data_size
           then IN_RETURN_ERROR stream ''size too large''
           else
             let n = array_size * data_size mod size_max
             in if \<not> realloc_ok n then IN_RETURN_ERROR stream ''realloc failed''
                else (Some n, stream))"

text \<open>\<open>PB_BYTES_ARRAY_T_ALLOCSIZE\<close>: the size member takes the first four bytes.\<close>

definition PB_BYTES_ARRAY_T_ALLOCSIZE :: "nat \<Rightarrow> nat" where
  "PB_BYTES_ARRAY_T_ALLOCSIZE n = size_add n 4"

text \<open>The result is the memory of the \<open>pb_bytes_array_t\<close>: the \<open>size\<close> member, then \<open>bytes\<close>.\<close>

definition pb_dec_bytes ::
    "(nat \<Rightarrow> bool) \<Rightarrow> pb_istream_t \<Rightarrow> pb_field_t \<Rightarrow> (bytes, pb_istream_t) cres" where
  "pb_dec_bytes realloc_ok stream field =
     cbind (pb_decode_varint32 stream) (\<lambda>size stream.
       let n = unat size; alloc_size = PB_BYTES_ARRAY_T_ALLOCSIZE n in
       if n > PB_SIZE_MAX then IN_RETURN_ERROR stream ''bytes overflow''
       else if n > alloc_size then IN_RETURN_ERROR stream ''size too large''
       else cbind
         (if PB_ATYPE (f_type field) = PB_ATYPE_POINTER then
            if bytes_left stream < n then IN_RETURN_ERROR stream ''end-of-stream''
            else allocate_field realloc_ok stream alloc_size 1
          else if alloc_size > f_data_size field then IN_RETURN_ERROR stream ''bytes overflow''
          else (Some alloc_size, stream))
         (\<lambda>_ stream. cbind (pb_read stream False n) (\<lambda>bs stream.
            (Some (store_int 4 (of_nat n) @ bs), stream))))"

text \<open>\<open>alloc_size = size + 1\<close> is an addition of 32-bit numbers. The result is the string
  with its terminator.\<close>

definition pb_dec_string ::
    "(nat \<Rightarrow> bool) \<Rightarrow> pb_istream_t \<Rightarrow> pb_field_t \<Rightarrow> (bytes, pb_istream_t) cres" where
  "pb_dec_string realloc_ok stream field =
     cbind (pb_decode_varint32 stream) (\<lambda>size stream.
       let n = unat size; alloc_size = unat (size + 1) in
       if alloc_size < n then IN_RETURN_ERROR stream ''size too large''
       else cbind
         (if PB_ATYPE (f_type field) = PB_ATYPE_POINTER then
            if bytes_left stream < n then IN_RETURN_ERROR stream ''end-of-stream''
            else allocate_field realloc_ok stream alloc_size 1
          else if alloc_size > f_data_size field then IN_RETURN_ERROR stream ''string overflow''
          else (Some alloc_size, stream))
         (\<lambda>_ stream. cbind (pb_read stream False n) (\<lambda>bs stream. (Some (bs @ [0]), stream))))"

definition pb_dec_fixed_length_bytes ::
    "pb_istream_t \<Rightarrow> pb_field_t \<Rightarrow> (bytes, pb_istream_t) cres" where
  "pb_dec_fixed_length_bytes stream field =
     cbind (pb_decode_varint32 stream) (\<lambda>size stream.
       if unat size > PB_SIZE_MAX then IN_RETURN_ERROR stream ''bytes overflow''
       else if size = 0 then (Some (replicate (f_data_size field) 0), stream)
       else if unat size \<noteq> f_data_size field
            then IN_RETURN_ERROR stream ''incorrect fixed length bytes size''
       else pb_read stream False (f_data_size field))"

section \<open>Output streams\<close>

text \<open>
  The state of the built-in callback \<open>buf_write\<close> is the memory it has written so far; a
  null callback only counts. A callback of the application is a function of its own state
  and the bytes, \<open>None\<close> when it returns false.
\<close>

datatype ostream_callback =
    Null_callback
  | Buf_write
  | User_write "bytes \<Rightarrow> bytes \<Rightarrow> bytes option"

record pb_ostream_t =
  os_callback :: ostream_callback
  os_state :: bytes
  max_size :: nat
  bytes_written :: nat
  os_errmsg :: "string option"

definition OUT_RETURN_ERROR :: "pb_ostream_t \<Rightarrow> string \<Rightarrow> ('a, pb_ostream_t) cres" where
  "OUT_RETURN_ERROR stream msg =
     (None, stream\<lparr>os_errmsg := (case os_errmsg stream of None \<Rightarrow> Some msg | Some m \<Rightarrow> Some m)\<rparr>)"

definition buf_write :: "pb_ostream_t \<Rightarrow> bytes \<Rightarrow> (unit, pb_ostream_t) cres" where
  "buf_write stream buf = (Some (), stream\<lparr>os_state := os_state stream @ buf\<rparr>)"

definition pb_ostream_from_buffer :: "nat \<Rightarrow> pb_ostream_t" where
  "pb_ostream_from_buffer bufsize =
     \<lparr>os_callback = Buf_write, os_state = [], max_size = bufsize, bytes_written = 0, os_errmsg = None\<rparr>"

definition PB_OSTREAM_SIZING :: pb_ostream_t where
  "PB_OSTREAM_SIZING =
     \<lparr>os_callback = Null_callback, os_state = [], max_size = 0, bytes_written = 0, os_errmsg = None\<rparr>"

definition pb_write :: "pb_ostream_t \<Rightarrow> bytes \<Rightarrow> (unit, pb_ostream_t) cres" where
  "pb_write stream buf =
     (let count = length buf; done = (\<lambda>s. (Some (), s\<lparr>bytes_written := size_add (bytes_written s) count\<rparr>)) in
      if count > 0 \<and> os_callback stream \<noteq> Null_callback then
        if size_add (bytes_written stream) count < bytes_written stream \<or>
           size_add (bytes_written stream) count > max_size stream
        then OUT_RETURN_ERROR stream ''stream full''
        else case os_callback stream of
               Null_callback \<Rightarrow> done stream
             | Buf_write \<Rightarrow> cbind (buf_write stream buf) (\<lambda>_. done)
             | User_write f \<Rightarrow>
                 (case f (os_state stream) buf of
                    None \<Rightarrow> OUT_RETURN_ERROR stream ''io error''
                  | Some st \<Rightarrow> done (stream\<lparr>os_state := st\<rparr>))
      else done stream)"

section \<open>Encoders\<close>

function varint_bytes_loop :: "u64 \<Rightarrow> bytes" where
  "varint_bytes_loop v =
     (if v \<noteq> 0 then (ucast ((v AND 0x7F) OR 0x80)) # varint_bytes_loop (drop_bit 7 v) else [])"
  by pat_completeness auto
termination
proof (relation "measure unat")
  fix v :: u64
  assume "v \<noteq> 0"
  then have "unat v div 2 ^ 7 < unat v"
    by (simp add: unat_gt_0)
  then show "(drop_bit 7 v, v) \<in> measure unat"
    by (simp only: in_measure unat_drop_bit_eq) (simp only: drop_bit_eq_div)
qed simp

declare varint_bytes_loop.simps [simp del]

definition pb_encode_varint :: "pb_ostream_t \<Rightarrow> u64 \<Rightarrow> (unit, pb_ostream_t) cres" where
  "pb_encode_varint stream v =
     (if v \<le> 0x7F then pb_write stream [ucast v]
      else
        let buffer = varint_bytes_loop v; i = length buffer;
            buffer = buffer[i - 1 := buffer ! (i - 1) AND 0x7F]
        in pb_write stream buffer)"

definition pb_encode_svarint :: "pb_ostream_t \<Rightarrow> u64 \<Rightarrow> (unit, pb_ostream_t) cres" where
  "pb_encode_svarint stream v =
     pb_encode_varint stream (if sint v < 0 then NOT (push_bit 1 v) else push_bit 1 v)"

definition pb_encode_fixed32 :: "pb_ostream_t \<Rightarrow> u32 \<Rightarrow> (unit, pb_ostream_t) cres" where
  "pb_encode_fixed32 stream val =
     pb_write stream [ucast (val AND 0xFF), ucast (drop_bit 8 val AND 0xFF),
       ucast (drop_bit 16 val AND 0xFF), ucast (drop_bit 24 val AND 0xFF)]"

definition pb_encode_fixed64 :: "pb_ostream_t \<Rightarrow> u64 \<Rightarrow> (unit, pb_ostream_t) cres" where
  "pb_encode_fixed64 stream val =
     pb_write stream [ucast (val AND 0xFF), ucast (drop_bit 8 val AND 0xFF),
       ucast (drop_bit 16 val AND 0xFF), ucast (drop_bit 24 val AND 0xFF),
       ucast (drop_bit 32 val AND 0xFF), ucast (drop_bit 40 val AND 0xFF),
       ucast (drop_bit 48 val AND 0xFF), ucast (drop_bit 56 val AND 0xFF)]"

definition pb_encode_tag :: "pb_ostream_t \<Rightarrow> nat \<Rightarrow> u32 \<Rightarrow> (unit, pb_ostream_t) cres" where
  "pb_encode_tag stream wiretype field_number =
     pb_encode_varint stream (push_bit 3 (ucast field_number) OR of_nat wiretype)"

definition pb_encode_tag_for_field :: "pb_ostream_t \<Rightarrow> pb_field_t \<Rightarrow> (unit, pb_ostream_t) cres" where
  "pb_encode_tag_for_field stream field =
     (let ltype = PB_LTYPE (f_type field); tag = of_nat (f_tag field) in
      if ltype \<in> {PB_LTYPE_BOOL, PB_LTYPE_VARINT, PB_LTYPE_UVARINT, PB_LTYPE_SVARINT}
      then pb_encode_tag stream PB_WT_VARINT tag
      else if ltype = PB_LTYPE_FIXED32 then pb_encode_tag stream PB_WT_32BIT tag
      else if ltype = PB_LTYPE_FIXED64 then pb_encode_tag stream PB_WT_64BIT tag
      else if ltype \<in> {PB_LTYPE_BYTES, PB_LTYPE_STRING, PB_LTYPE_SUBMESSAGE, PB_LTYPE_FIXED_LENGTH_BYTES}
      then pb_encode_tag stream PB_WT_STRING tag
      else OUT_RETURN_ERROR stream ''invalid field type'')"

definition pb_encode_string :: "pb_ostream_t \<Rightarrow> bytes \<Rightarrow> (unit, pb_ostream_t) cres" where
  "pb_encode_string stream buffer =
     cbind (pb_encode_varint stream (of_nat (length buffer))) (\<lambda>_ stream. pb_write stream buffer)"

section \<open>Field encoders\<close>

definition safe_read_bool :: "bytes \<Rightarrow> bool" where
  "safe_read_bool p \<longleftrightarrow> list_ex (\<lambda>b. b \<noteq> 0) p"

definition pb_enc_bool :: "pb_ostream_t \<Rightarrow> pb_field_t \<Rightarrow> bytes \<Rightarrow> (unit, pb_ostream_t) cres" where
  "pb_enc_bool stream field src = pb_encode_varint stream (if safe_read_bool (take 1 src) then 1 else 0)"

definition pb_enc_varint :: "pb_ostream_t \<Rightarrow> pb_field_t \<Rightarrow> bytes \<Rightarrow> (unit, pb_ostream_t) cres" where
  "pb_enc_varint stream field src =
     (if f_data_size field \<in> {1, 2, 4, 8}
      then pb_encode_varint stream (load_signed (take (f_data_size field) src))
      else OUT_RETURN_ERROR stream ''invalid data_size'')"

definition pb_enc_uvarint :: "pb_ostream_t \<Rightarrow> pb_field_t \<Rightarrow> bytes \<Rightarrow> (unit, pb_ostream_t) cres" where
  "pb_enc_uvarint stream field src =
     (if f_data_size field \<in> {1, 2, 4, 8}
      then pb_encode_varint stream (load_unsigned (take (f_data_size field) src))
      else OUT_RETURN_ERROR stream ''invalid data_size'')"

definition pb_enc_svarint :: "pb_ostream_t \<Rightarrow> pb_field_t \<Rightarrow> bytes \<Rightarrow> (unit, pb_ostream_t) cres" where
  "pb_enc_svarint stream field src =
     (if f_data_size field \<in> {1, 2, 4, 8}
      then pb_encode_svarint stream (load_signed (take (f_data_size field) src))
      else OUT_RETURN_ERROR stream ''invalid data_size'')"

definition pb_enc_fixed32 :: "pb_ostream_t \<Rightarrow> pb_field_t \<Rightarrow> bytes \<Rightarrow> (unit, pb_ostream_t) cres" where
  "pb_enc_fixed32 stream field src = pb_encode_fixed32 stream (ucast (load_unsigned (take 4 src)))"

definition pb_enc_fixed64 :: "pb_ostream_t \<Rightarrow> pb_field_t \<Rightarrow> bytes \<Rightarrow> (unit, pb_ostream_t) cres" where
  "pb_enc_fixed64 stream field src = pb_encode_fixed64 stream (load_unsigned (take 8 src))"

text \<open>\<open>src\<close> is the null pointer or memory; a \<open>pb_bytes_array_t\<close> starts with its \<open>size\<close> member.\<close>

definition pb_enc_bytes ::
    "pb_ostream_t \<Rightarrow> pb_field_t \<Rightarrow> bytes option \<Rightarrow> (unit, pb_ostream_t) cres" where
  "pb_enc_bytes stream field src =
     (case src of
        None \<Rightarrow> pb_encode_string stream []
      | Some m \<Rightarrow>
          let n = unat (load_unsigned (take 4 m)) in
          if PB_ATYPE (f_type field) = PB_ATYPE_STATIC \<and> n > (f_data_size field + size_max - 4) mod size_max
          then OUT_RETURN_ERROR stream ''bytes size exceeded''
          else pb_encode_string stream (take n (drop 4 m)))"

definition pb_enc_string ::
    "pb_ostream_t \<Rightarrow> pb_field_t \<Rightarrow> bytes option \<Rightarrow> (unit, pb_ostream_t) cres" where
  "pb_enc_string stream field src =
     (let limit = (if PB_ATYPE (f_type field) = PB_ATYPE_POINTER then size_max - 1 else f_data_size field)
      in case src of
           None \<Rightarrow> pb_encode_string stream []
         | Some p \<Rightarrow> pb_encode_string stream (takeWhile (\<lambda>c. c \<noteq> 0) (take limit p)))"

definition pb_enc_fixed_length_bytes ::
    "pb_ostream_t \<Rightarrow> pb_field_t \<Rightarrow> bytes \<Rightarrow> (unit, pb_ostream_t) cres" where
  "pb_enc_fixed_length_bytes stream field src = pb_encode_string stream (take (f_data_size field) src)"

section \<open>The tables, and arrays\<close>

text \<open>
  The tables of encoders and decoders by \<open>PB_LTYPE\<close>; the entry of submessages, which walks
  over another descriptor array, is an argument. \<open>None\<close> is a null entry.
\<close>

type_synonym pb_encoder_t = "pb_ostream_t \<Rightarrow> pb_field_t \<Rightarrow> bytes option \<Rightarrow> (unit, pb_ostream_t) cres"
type_synonym pb_decoder_t = "pb_istream_t \<Rightarrow> pb_field_t \<Rightarrow> (bytes, pb_istream_t) cres"

definition PB_ENCODERS :: "pb_encoder_t \<Rightarrow> u8 \<Rightarrow> pb_encoder_t option" where
  "PB_ENCODERS enc_submessage ltype =
     (if ltype = PB_LTYPE_BOOL then Some (\<lambda>os f src. pb_enc_bool os f (the src))
      else if ltype = PB_LTYPE_VARINT then Some (\<lambda>os f src. pb_enc_varint os f (the src))
      else if ltype = PB_LTYPE_UVARINT then Some (\<lambda>os f src. pb_enc_uvarint os f (the src))
      else if ltype = PB_LTYPE_SVARINT then Some (\<lambda>os f src. pb_enc_svarint os f (the src))
      else if ltype = PB_LTYPE_FIXED32 then Some (\<lambda>os f src. pb_enc_fixed32 os f (the src))
      else if ltype = PB_LTYPE_FIXED64 then Some (\<lambda>os f src. pb_enc_fixed64 os f (the src))
      else if ltype = PB_LTYPE_BYTES then Some pb_enc_bytes
      else if ltype = PB_LTYPE_STRING then Some pb_enc_string
      else if ltype = PB_LTYPE_SUBMESSAGE then Some enc_submessage
      else if ltype = PB_LTYPE_EXTENSION then None
      else if ltype = PB_LTYPE_FIXED_LENGTH_BYTES then Some (\<lambda>os f src. pb_enc_fixed_length_bytes os f (the src))
      else None)"

definition PB_DECODERS :: "(nat \<Rightarrow> bool) \<Rightarrow> pb_decoder_t \<Rightarrow> u8 \<Rightarrow> pb_decoder_t option" where
  "PB_DECODERS realloc_ok dec_submessage ltype =
     (if ltype = PB_LTYPE_BOOL then
        Some (\<lambda>s f. cbind (pb_dec_bool s) (\<lambda>b s. (Some [if b then 1 else 0], s)))
      else if ltype = PB_LTYPE_VARINT then Some pb_dec_varint
      else if ltype = PB_LTYPE_UVARINT then Some pb_dec_uvarint
      else if ltype = PB_LTYPE_SVARINT then Some pb_dec_svarint
      else if ltype = PB_LTYPE_FIXED32 then Some pb_dec_fixed32
      else if ltype = PB_LTYPE_FIXED64 then Some pb_dec_fixed64
      else if ltype = PB_LTYPE_BYTES then Some (pb_dec_bytes realloc_ok)
      else if ltype = PB_LTYPE_STRING then Some (pb_dec_string realloc_ok)
      else if ltype = PB_LTYPE_SUBMESSAGE then Some dec_submessage
      else if ltype = PB_LTYPE_EXTENSION then None
      else if ltype = PB_LTYPE_FIXED_LENGTH_BYTES then Some pb_dec_fixed_length_bytes
      else None)"

text \<open>
  \<open>encode_array\<close> gets the sources of the entries in order: the memory of an entry, or, for
  pointer-type strings and bytes, what the pointer in the entry refers to.
\<close>

fun array_items :: "pb_encoder_t \<Rightarrow> pb_field_t \<Rightarrow> pb_ostream_t \<Rightarrow> bytes option list \<Rightarrow> (unit, pb_ostream_t) cres" where
  "array_items func field stream [] = (Some (), stream)"
| "array_items func field stream (p # ps) =
     cbind (func stream field p) (\<lambda>_ stream. array_items func field stream ps)"

fun array_tagged :: "pb_encoder_t \<Rightarrow> pb_field_t \<Rightarrow> pb_ostream_t \<Rightarrow> bytes option list \<Rightarrow> (unit, pb_ostream_t) cres" where
  "array_tagged func field stream [] = (Some (), stream)"
| "array_tagged func field stream (p # ps) =
     cbind (pb_encode_tag_for_field stream field) (\<lambda>_ stream.
       cbind (func stream field p) (\<lambda>_ stream. array_tagged func field stream ps))"

definition encode_array ::
    "pb_ostream_t \<Rightarrow> pb_field_t \<Rightarrow> bytes option list \<Rightarrow> pb_encoder_t \<Rightarrow> (unit, pb_ostream_t) cres" where
  "encode_array stream field items func =
     (let count = length items; ltype = PB_LTYPE (f_type field) in
      if count = 0 then (Some (), stream)
      else if PB_ATYPE (f_type field) \<noteq> PB_ATYPE_POINTER \<and> count > f_array_size field
      then OUT_RETURN_ERROR stream ''array max size exceeded''
      else if ltype \<le> PB_LTYPE_LAST_PACKABLE then
        cbind (pb_encode_tag stream PB_WT_STRING (of_nat (f_tag field))) (\<lambda>_ stream.
          let sized =
                (if ltype = PB_LTYPE_FIXED32 then Some (4 * count mod size_max)
                 else if ltype = PB_LTYPE_FIXED64 then Some (8 * count mod size_max)
                 else case array_items func field PB_OSTREAM_SIZING items of
                        (None, _) \<Rightarrow> None
                      | (Some _, sizestream) \<Rightarrow> Some (bytes_written sizestream))
          in case sized of
               None \<Rightarrow> (None, stream)
             | Some n \<Rightarrow>
                 cbind (pb_encode_varint stream (of_nat n)) (\<lambda>_ stream.
                   if os_callback stream = Null_callback
                   then (Some (), stream\<lparr>bytes_written := size_add (bytes_written stream) n\<rparr>)
                   else array_items func field stream items))
      else array_tagged func field stream items)"

text \<open>
  The packed branch of \<open>decode_static_field\<close>: \<open>items\<close> are the entries in the struct,
  \<open>*size\<close> their number. A failing entry stops the loop.
\<close>

function packed_loop ::
    "pb_decoder_t \<Rightarrow> pb_field_t \<Rightarrow> pb_istream_t \<Rightarrow> bytes list \<Rightarrow> bool \<times> bytes list \<times> pb_istream_t" where
  "packed_loop func field substream items =
     (if bytes_left substream > 0 \<and> length items < f_array_size field
      then case func substream field of
             (None, substream) \<Rightarrow> (False, items, substream)
           | (Some m, substream) \<Rightarrow> packed_loop func field substream (items @ [m])
      else (True, items, substream))"
  by pat_completeness auto
termination
  by (relation "measure (\<lambda>(_, field, _, items). f_array_size field - length items)") auto

declare packed_loop.simps [simp del]

definition decode_packed_array ::
    "pb_decoder_t \<Rightarrow> pb_istream_t \<Rightarrow> pb_field_t \<Rightarrow> bytes list \<Rightarrow> (bytes list, pb_istream_t) cres" where
  "decode_packed_array func stream field items =
     cbind (pb_make_string_substream stream) (\<lambda>substream stream.
       case packed_loop func field substream items of
         (status, items, substream) \<Rightarrow>
           if bytes_left substream \<noteq> 0 then IN_RETURN_ERROR stream ''array overflow''
           else cbind (pb_close_string_substream stream substream) (\<lambda>_ stream.
             (if status then Some items else None, stream)))"

end
