(* ===== verification/PbCodec.thy ===== *)
theory PbCodec
  imports PbFields
begin

text \<open>
  The contract of a wire-format value of nanopb: an encoder that appends the same bytes to a
  counting stream and to a buffer, and a decoder that reads them back and never leaves the
  limit of its stream. The client is the packed array: a sequence of values is written by
  the same loop whatever the value is.
\<close>

section \<open>Streams that write to memory or count\<close>

definition accepts :: "pb_ostream_t \<Rightarrow> nat \<Rightarrow> bool" where
  "accepts os n \<longleftrightarrow>
     (case os_callback os of
        Null_callback \<Rightarrow> bytes_written os + n < size_max
      | Buf_write \<Rightarrow> bytes_written os + n \<le> max_size os
      | User_write f \<Rightarrow> False)"

definition out_ok :: "pb_ostream_t \<Rightarrow> bool" where
  "out_ok os \<longleftrightarrow> accepts os 0 \<and> max_size os < size_max"

definition emit :: "bytes \<Rightarrow> pb_ostream_t \<Rightarrow> pb_ostream_t" where
  "emit bs os = os\<lparr>os_state := (if os_callback os = Null_callback then os_state os else os_state os @ bs),
     bytes_written := bytes_written os + length bs\<rparr>"

text \<open>What a failing encoder may leave: part of the output, within the limit, and a message.\<close>

definition spilled :: "pb_ostream_t \<Rightarrow> pb_ostream_t \<Rightarrow> bool" where
  "spilled os os' \<longleftrightarrow> (\<exists>bs e. accepts os (length bs) \<and> os' = (emit bs os)\<lparr>os_errmsg := e\<rparr>)"

lemma emit_Nil [simp]: "emit [] os = os"
  by (simp add: emit_def)

lemma emit_emit [simp]: "emit b (emit a os) = emit (a @ b) os"
  by (simp add: emit_def add.assoc)

lemma accepts_emit [simp]: "accepts (emit bs os) n = accepts os (length bs + n)"
  by (simp add: accepts_def emit_def add.assoc split: ostream_callback.split)

lemma accepts_mono: "accepts os n \<Longrightarrow> m \<le> n \<Longrightarrow> accepts os m"
  by (auto simp: accepts_def split: ostream_callback.splits)

lemma out_ok_emit [simp]: "out_ok os \<Longrightarrow> out_ok (emit bs os) = accepts os (length bs)"
  by (simp add: out_ok_def) (simp add: emit_def)

lemma errmsg_frame [simp]:
  "accepts (os\<lparr>os_errmsg := e\<rparr>) n = accepts os n" "out_ok (os\<lparr>os_errmsg := e\<rparr>) = out_ok os"
  "emit bs (os\<lparr>os_errmsg := e\<rparr>) = (emit bs os)\<lparr>os_errmsg := e\<rparr>"
  by (simp_all add: accepts_def out_ok_def emit_def cong: ostream_callback.case_cong)

lemma callback_emit [simp]: "os_callback (emit bs os) = os_callback os"
  by (simp add: emit_def)

lemma spilled_error: "out_ok os \<Longrightarrow> spilled os (snd (OUT_RETURN_ERROR os msg))"
  unfolding spilled_def OUT_RETURN_ERROR_def by (rule exI [of _ "[]"]) (auto simp: out_ok_def)

lemma spilled_emit: "accepts os (length bs) \<Longrightarrow> spilled (emit bs os) os' \<Longrightarrow> spilled os os'"
  unfolding spilled_def by clarsimp (metis length_append)

lemma spilled_out_ok: "out_ok os \<Longrightarrow> spilled os os' \<Longrightarrow> out_ok os'"
  by (auto simp: spilled_def)

lemma pb_write_spec:
  assumes "out_ok os" and "length bs < size_max"
  shows "accepts os (length bs) \<Longrightarrow> pb_write os bs = (Some (), emit bs os)"
    and "\<not> accepts os (length bs) \<Longrightarrow> os_callback os \<noteq> Null_callback \<Longrightarrow> pb_write os bs = OUT_RETURN_ERROR os ''stream full''"
proof -
  have w: "bytes_written os < size_max"
    using assms by (auto simp: out_ok_def accepts_def split: ostream_callback.splits)
  note over = size_add_overflow [OF w assms(2)]
  {
    assume a: "accepts os (length bs)"
    then have "size_add (bytes_written os) (length bs) = bytes_written os + length bs"
      using assms by (intro size_add_exact) (auto simp: out_ok_def accepts_def split: ostream_callback.splits)
    with a show "pb_write os bs = (Some (), emit bs os)"
      by (cases bs) (auto simp: pb_write_def buf_write_def emit_def accepts_def Let_def split: ostream_callback.splits)
  }
  assume n: "\<not> accepts os (length bs)" and cb: "os_callback os \<noteq> Null_callback"
  then have b: "os_callback os = Buf_write" "max_size os < bytes_written os + length bs" "max_size os < size_max"
    "bytes_written os \<le> max_size os"
    using assms by (auto simp: out_ok_def accepts_def split: ostream_callback.splits)
  have "size_add (bytes_written os) (length bs) < bytes_written os \<or> max_size os < size_add (bytes_written os) (length bs)"
    using over b size_add_exact [of "bytes_written os" "length bs"] by (auto simp: not_less)
  moreover have "0 < length bs" using b by (cases bs) auto
  ultimately show "pb_write os bs = OUT_RETURN_ERROR os ''stream full''"
    using b by (simp add: pb_write_def Let_def)
qed

section \<open>What a reader may do to its stream\<close>

definition within :: "pb_istream_t \<Rightarrow> pb_istream_t \<Rightarrow> bool" where
  "within s s' \<longleftrightarrow> (\<exists>n e. n \<le> bytes_left s \<and> s' = (advance n s)\<lparr>is_errmsg := e\<rparr>)"

named_theorems within_intros

lemma within_refl [within_intros, simp]: "within s s"
  unfolding within_def by (rule exI [of _ 0]) (auto intro: exI [of _ "is_errmsg s"])

lemma within_advance [within_intros, simp]: "n \<le> bytes_left s \<Longrightarrow> within s (advance n s)"
  unfolding within_def by (rule exI [of _ n]) (auto intro: exI [of _ "is_errmsg s"])

lemma advance_errmsg [simp]: "advance n (s\<lparr>is_errmsg := e\<rparr>) = (advance n s)\<lparr>is_errmsg := e\<rparr>"
  by (simp add: advance_def)

lemma stream_ok_errmsg [simp]: "stream_ok (s\<lparr>is_errmsg := e\<rparr>) = stream_ok s"
  by (simp add: stream_ok_def)

lemma view_errmsg [simp]: "view (s\<lparr>is_errmsg := e\<rparr>) = view s"
  by (simp add: view_def)

lemma within_trans: "within a b \<Longrightarrow> within b c \<Longrightarrow> within a c"
proof -
  assume "within a b" and "within b c"
  then obtain n e m f where n: "n \<le> bytes_left a" "b = (advance n a)\<lparr>is_errmsg := e\<rparr>"
    and m: "m \<le> bytes_left b" "c = (advance m b)\<lparr>is_errmsg := f\<rparr>"
    by (auto simp: within_def)
  then have "n + m \<le> bytes_left a" "c = (advance (n + m) a)\<lparr>is_errmsg := f\<rparr>" by simp_all
  then show ?thesis unfolding within_def by blast
qed

lemma within_ok: "within s s' \<Longrightarrow> stream_ok s \<Longrightarrow> stream_ok s'"
  by (auto simp: within_def)

lemma within_failed [within_intros, simp]: "within s (failed msg s)"
  unfolding within_def failed_def by (rule exI [of _ 0]) (simp, blast)

lemma within_cbind [within_intros]:
  assumes "stream_ok s" and "within s (snd m)"
    and "\<And>v t. m = (Some v, t) \<Longrightarrow> stream_ok t \<Longrightarrow> within t (snd (f v t))"
  shows "within s (snd (cbind m f))"
  using assms by (cases m; cases "fst m") (auto intro: within_trans within_ok)

lemma within_read [within_intros]: "stream_ok s \<Longrightarrow> within s (snd (pb_read s skip n))"
  by (simp add: pb_read_buf)

lemma within_readbyte [within_intros]: "stream_ok s \<Longrightarrow> within s (snd (pb_readbyte s))"
  by (cases "view s") (use length_view [of s] in \<open>auto simp: pb_readbyte_buf\<close>)

section \<open>The contract of a wire-format value\<close>

locale wire_codec =
  fixes ok :: "'a \<Rightarrow> bool" and enc :: "'a \<Rightarrow> bytes"
    and put :: "pb_ostream_t \<Rightarrow> 'a \<Rightarrow> (unit, pb_ostream_t) cres"
    and get :: "pb_istream_t \<Rightarrow> ('a, pb_istream_t) cres"
  assumes put_fits: "out_ok os \<Longrightarrow> ok x \<Longrightarrow> accepts os (length (enc x)) \<Longrightarrow> put os x = (Some (), emit (enc x) os)"
    and put_full: "out_ok os \<Longrightarrow> ok x \<Longrightarrow> os_callback os = Buf_write \<Longrightarrow> \<not> accepts os (length (enc x)) \<Longrightarrow>
      fst (put os x) = None \<and> spilled os (snd (put os x))"
    and get_put: "stream_ok s \<Longrightarrow> ok x \<Longrightarrow> view s = enc x @ r \<Longrightarrow> get s = (Some x, advance (length (enc x)) s)"
    and get_within: "stream_ok s \<Longrightarrow> within s (snd (get s))"

text \<open>The packed form of an array: the values one after another.\<close>

fun put_all :: "(pb_ostream_t \<Rightarrow> 'a \<Rightarrow> (unit, pb_ostream_t) cres) \<Rightarrow> pb_ostream_t \<Rightarrow> 'a list \<Rightarrow> (unit, pb_ostream_t) cres" where
  "put_all put os [] = (Some (), os)"
| "put_all put os (x # xs) = cbind (put os x) (\<lambda>_ os. put_all put os xs)"

context wire_codec
begin

lemma put_all_fits:
  "out_ok os \<Longrightarrow> list_all ok xs \<Longrightarrow> accepts os (length (concat (map enc xs))) \<Longrightarrow>
    put_all put os xs = (Some (), emit (concat (map enc xs)) os)"
proof (induction xs arbitrary: os)
  case Nil
  then show ?case by simp
next
  case (Cons x xs)
  then have "accepts os (length (enc x))" by (auto elim: accepts_mono)
  with Cons show ?case by (simp add: put_fits)
qed

lemma put_all_full:
  "out_ok os \<Longrightarrow> list_all ok xs \<Longrightarrow> os_callback os = Buf_write \<Longrightarrow> \<not> accepts os (length (concat (map enc xs))) \<Longrightarrow>
    fst (put_all put os xs) = None \<and> spilled os (snd (put_all put os xs))"
proof (induction xs arbitrary: os)
  case Nil
  then show ?case by (simp add: out_ok_def)
next
  case (Cons x xs)
  show ?case
  proof (cases "accepts os (length (enc x))")
    case True
    with Cons.prems Cons.IH [of "emit (enc x) os"] show ?thesis
      by (auto simp: put_fits intro: spilled_emit [OF True])
  next
    case False
    with Cons.prems put_full [of os x] show ?thesis by (cases "put os x") simp
  qed
qed

lemma get_put_tail:
  "stream_ok s \<Longrightarrow> ok x \<Longrightarrow> view s = enc x @ r \<Longrightarrow> get s = (Some x, t) \<Longrightarrow> view t = r"
  by (auto simp: get_put)

end

text \<open>Most encoders make a single write.\<close>

locale write_codec =
  fixes ok :: "'a \<Rightarrow> bool" and enc :: "'a \<Rightarrow> bytes"
    and put :: "pb_ostream_t \<Rightarrow> 'a \<Rightarrow> (unit, pb_ostream_t) cres"
    and get :: "pb_istream_t \<Rightarrow> ('a, pb_istream_t) cres"
  assumes put_write: "ok x \<Longrightarrow> put os x = pb_write os (enc x)"
    and enc_bound: "ok x \<Longrightarrow> length (enc x) < size_max"
    and get_write: "stream_ok s \<Longrightarrow> ok x \<Longrightarrow> view s = enc x @ r \<Longrightarrow> get s = (Some x, advance (length (enc x)) s)"
    and write_within: "stream_ok s \<Longrightarrow> within s (snd (get s))"

sublocale write_codec \<subseteq> wire_codec ok enc put get
proof
  fix os x
  assume "out_ok os" and "ok x"
  note spec = pb_write_spec [OF this(1) enc_bound [OF this(2)]] put_write [OF \<open>ok x\<close>, of os]
  show "accepts os (length (enc x)) \<Longrightarrow> put os x = (Some (), emit (enc x) os)"
    using spec by simp
  show "os_callback os = Buf_write \<Longrightarrow> \<not> accepts os (length (enc x)) \<Longrightarrow> fst (put os x) = None \<and> spilled os (snd (put os x))"
    using spec spilled_error [OF \<open>out_ok os\<close>] by (simp add: OUT_RETURN_ERROR_def)
qed (rule get_write write_within; assumption)+

end
