(* ===== verification/PbRoundtrip.thy ===== *)
theory PbRoundtrip
  imports PbCodec
begin

text \<open>
  The wire-format values of nanopb meet their contract: varints, zigzag numbers, the
  fixed-width numbers, keys, strings and the scalar fields in memory.
\<close>

section \<open>The encoding of a varint\<close>

definition group :: "nat \<Rightarrow> u8" where
  "group n = of_nat (n mod 128 + 128)"

fun varint :: "nat \<Rightarrow> bytes" where
  "varint n = (if n < 128 then [of_nat n] else group n # varint (n div 128))"

declare varint.simps [simp del]

lemma varint_nonempty [simp]: "varint n \<noteq> []"
  by (subst varint.simps) simp

lemma unat_group [simp]: "unat (group n) = n mod 128 + 128"
proof -
  have "n mod 128 + 128 < 256" by simp
  then show ?thesis unfolding group_def by (simp only: unat_of_nat) simp
qed

lemma le128_varint [simp]: "le128 (varint n) = n"
  by (induction n rule: varint.induct) (subst varint.simps, simp add: unat_of_nat)

lemma varint_length_varint [simp]: "varint_length (varint n @ r) = length (varint n)"
proof (induction n rule: varint.induct)
  case (1 n)
  then show ?case
    by (cases "n < 128") (simp_all add: varint.simps [of n] varint_length_Cons cont_def unat_of_nat)
qed

lemma length_varint: "n < 128 ^ Suc k \<Longrightarrow> length (varint n) \<le> Suc k"
proof (induction k arbitrary: n)
  case 0
  then show ?case by (simp add: varint.simps)
next
  case (Suc k)
  have "n div 128 < 128 ^ Suc k" using Suc.prems by (simp add: less_mult_imp_div_less mult.commute)
  with Suc.IH [of "n div 128"] show ?case by (simp add: varint.simps [of n])
qed

lemma length_varint_u64: "length (varint (unat (v :: u64))) \<le> 10"
proof -
  have "unat v < 2 ^ 64" by (rule order_less_le_trans [OF unsigned_less]) simp
  then show ?thesis using length_varint [of "unat v" 9] by simp
qed

lemma length_varint_u32: "n < 2 ^ 32 \<Longrightarrow> length (varint n) \<le> 5"
  using length_varint [of n 4] by simp

text \<open>The loop sets the top bit of every group; the encoder clears the one of the last.\<close>

lemma unat_group_or [simp]: "unat (ucast ((v AND 0x7F) OR 0x80 :: u64) :: u8) = unat v mod 128 + 128"
proof -
  have m: "unat (v AND 0x7F) = unat v mod 128"
    using unat_and_mask [of v 7] by (simp add: mask_eq_exp_minus_1)
  have "unat (push_bit 7 1 OR (v AND 0x7F) :: u64) = unat (1 :: u64) * 2 ^ 7 + unat (v AND 0x7F)"
    by (rule unat_push_or) (simp_all add: m)
  then have "unat ((v AND 0x7F) OR 0x80) = unat v mod 128 + 128"
    by (simp add: m or.commute)
  then show ?thesis by (simp add: unsigned_ucast_eq take_bit_eq_mod)
qed

definition clear_last :: "bytes \<Rightarrow> bytes" where
  "clear_last b = b[length b - 1 := b ! (length b - 1) AND 0x7F]"

lemma varint_bytes_loop_varint:
  "v \<noteq> 0 \<Longrightarrow> varint_bytes_loop v \<noteq> [] \<and> clear_last (varint_bytes_loop v) = varint (unat v)"
proof (induction v rule: varint_bytes_loop.induct)
  case (1 v)
  let ?g = "ucast ((v AND 0x7F) OR 0x80) :: u8" and ?w = "drop_bit 7 v"
  have w: "unat ?w = unat v div 128"
    by (simp only: unat_drop_bit_eq) (simp only: drop_bit_eq_div, simp)
  have g: "?g = group (unat v)"
    by (simp only: word_unat_eq_iff unat_group_or unat_group)
  have loop: "varint_bytes_loop v = ?g # varint_bytes_loop ?w"
    using 1 by (subst varint_bytes_loop.simps) simp
  show ?case
  proof (cases "?w = 0")
    case True
    then have small: "unat v < 128" using w by (simp add: div_eq_0_iff)
    have "unat (?g AND 0x7F) = unat v"
      using small using unat_and_mask [of ?g 7] by (simp add: mask_eq_exp_minus_1 byte_simps)
    then have "?g AND 0x7F = of_nat (unat v)"
      using small by (simp only: word_unat_eq_iff unat_of_nat) simp
    moreover have "varint_bytes_loop ?w = []" by (subst varint_bytes_loop.simps) (simp add: True)
    ultimately show ?thesis
      using small by (simp only: loop) (simp add: clear_last_def varint.simps)
  next
    case False
    then have IH: "varint_bytes_loop ?w \<noteq> []" "clear_last (varint_bytes_loop ?w) = varint (unat ?w)"
      using 1 by blast+
    have "\<not> unat v < 128" using False w unat_gt_0 [of ?w] by (auto simp: div_eq_0_iff)
    moreover have "clear_last (?g # varint_bytes_loop ?w) = ?g # clear_last (varint_bytes_loop ?w)"
      using IH(1) by (cases "varint_bytes_loop ?w") (simp_all add: clear_last_def)
    ultimately show ?thesis
      unfolding loop by (simp add: IH(2) w g varint.simps [of "unat v"])
  qed
qed

lemma pb_encode_varint_write: "pb_encode_varint os v = pb_write os (varint (unat v))"
proof (cases "v \<le> 0x7F")
  case True
  then have "unat v < 128" by (simp add: word_le_nat_alt)
  then show ?thesis using True by (simp add: pb_encode_varint_def varint.simps)
next
  case False
  then have "v \<noteq> 0" by auto
  with varint_bytes_loop_varint [of v] False show ?thesis
    by (simp add: pb_encode_varint_def Let_def clear_last_def)
qed

section \<open>The values\<close>

lemma get_varint:
  assumes "stream_ok s" and "view s = varint (unat (v :: u64)) @ r"
  shows "pb_decode_varint s = (Some v, advance (length (varint (unat v))) s)"
proof -
  have "varint_length (view s) = length (varint (unat v))" by (simp only: assms(2) varint_length_varint)
  moreover have "length (varint (unat v)) \<le> bytes_left s"
    using length_view [OF assms(1)] by (simp add: assms(2))
  ultimately show ?thesis
    using pb_decode_varint_buf(1) [OF assms(1)] length_varint_u64 [of v] by (simp add: assms(2))
qed

lemma get_varint32:
  assumes "stream_ok s" and "n < 2 ^ 32" and "view s = varint n @ r"
  shows "pb_decode_varint32 s = (Some (of_nat n), advance (length (varint n)) s)"
proof -
  have "varint_length (view s) = length (varint n)" by (simp only: assms(3) varint_length_varint)
  moreover have "length (varint n) \<le> bytes_left s"
    using length_view [OF assms(1)] by (simp add: assms(3))
  ultimately show ?thesis
    using pb_decode_varint32_buf [OF assms(1)] length_varint_u32 [OF assms(2)] assms(2) by (simp add: assms(3))
qed

subsection \<open>No reader leaves its stream\<close>

lemma within_varint_loop [within_intros]: "stream_ok s \<Longrightarrow> within s (snd (varint_loop s p r))"
proof (induction s p r rule: varint_loop.induct)
  case (1 s p r)
  show ?case
    by (subst varint_loop.simps)
      (auto intro!: within_intros "1.IH" simp: Let_def \<open>stream_ok s\<close>)
qed

lemma within_varint32_loop [within_intros]: "stream_ok s \<Longrightarrow> within s (snd (varint32_loop s p r))"
proof (induction s p r rule: varint32_loop.induct)
  case (1 s p r)
  show ?case
    by (subst varint32_loop.simps)
      (auto intro!: within_intros "1.IH" simp: Let_def \<open>stream_ok s\<close>)
qed

lemma within_skip_varint [within_intros]: "stream_ok s \<Longrightarrow> within s (snd (pb_skip_varint s))"
proof (induction s rule: pb_skip_varint.induct)
  case (1 s)
  show ?case
    by (subst pb_skip_varint.simps)
      (auto intro!: within_intros "1.IH" simp: Let_def \<open>stream_ok s\<close>)
qed

lemma within_varint [within_intros]: "stream_ok s \<Longrightarrow> within s (snd (pb_decode_varint s))"
  by (simp add: pb_decode_varint_def within_varint_loop)

lemma within_varint32_loop_eq: "varint32_loop s p r = (x, t) \<Longrightarrow> stream_ok s \<Longrightarrow> within s t"
  using within_varint32_loop [of s p r] by simp

lemma within_varint32_eof [within_intros]: "stream_ok s \<Longrightarrow> within s (snd (snd (pb_decode_varint32_eof s)))"
  using within_readbyte [of s]
  by (auto simp: pb_decode_varint32_eof_def split: prod.split option.split
      dest!: within_varint32_loop_eq dest: within_ok intro: within_trans [OF _ within_failed] within_trans)

lemma within_varint32 [within_intros]: "stream_ok s \<Longrightarrow> within s (snd (pb_decode_varint32 s))"
  using within_varint32_eof [of s] by (simp add: pb_decode_varint32_def split_beta)

lemma within_tag [within_intros]: "stream_ok s \<Longrightarrow> within s (snd (snd (pb_decode_tag s)))"
  using within_varint32_eof [of s] by (auto simp: pb_decode_tag_def split: prod.split option.split)

lemma within_skip_string [within_intros]: "stream_ok s \<Longrightarrow> within s (snd (pb_skip_string s))"
  unfolding pb_skip_string_def by (auto intro!: within_intros)

lemma within_skip_field: "stream_ok s \<Longrightarrow> within s (snd (pb_skip_field s w))"
  by (auto simp: pb_skip_field_def intro!: within_intros)

lemma within_raw_varint_loop: "stream_ok s \<Longrightarrow> within s (snd (raw_varint_loop s m acc))"
proof (induction s m acc rule: raw_varint_loop.induct)
  case (1 s m acc)
  show ?case
    by (subst raw_varint_loop.simps)
      (auto intro!: within_intros "1.IH" simp: Let_def \<open>stream_ok s\<close>)
qed

lemma within_raw_value: "stream_ok s \<Longrightarrow> within s (snd (read_raw_value s w m))"
  by (auto simp: read_raw_value_def intro: within_intros within_raw_varint_loop)

lemma within_dec_bool [within_intros]: "stream_ok s \<Longrightarrow> within s (snd (pb_dec_bool s))"
  unfolding pb_dec_bool_def by (auto intro!: within_intros)

lemma within_svarint [within_intros]: "stream_ok s \<Longrightarrow> within s (snd (pb_decode_svarint s))"
  unfolding pb_decode_svarint_def by (auto intro!: within_intros)

lemma within_fixed32 [within_intros]: "stream_ok s \<Longrightarrow> within s (snd (pb_decode_fixed32 s))"
  unfolding pb_decode_fixed32_def by (auto intro!: within_intros)

lemma within_fixed64 [within_intros]: "stream_ok s \<Longrightarrow> within s (snd (pb_decode_fixed64 s))"
  unfolding pb_decode_fixed64_def by (auto intro!: within_intros)

lemma within_dec_ints:
  assumes "stream_ok s"
  shows "within s (snd (pb_dec_varint s f))" and "within s (snd (pb_dec_uvarint s f))"
    and "within s (snd (pb_dec_svarint s f))" and "within s (snd (pb_dec_fixed32 s f))"
    and "within s (snd (pb_dec_fixed64 s f))"
  using assms unfolding pb_dec_varint_def pb_dec_uvarint_def pb_dec_svarint_def pb_dec_fixed32_def pb_dec_fixed64_def
  by (auto intro!: within_intros simp: Let_def)

lemma within_allocate_field [within_intros]: "within s (snd (allocate_field g s d a))"
  by (simp add: allocate_field_def Let_def)

lemma within_dec_blobs:
  assumes "stream_ok s"
  shows "within s (snd (pb_dec_bytes g s f))" and "within s (snd (pb_dec_string g s f))"
    and "within s (snd (pb_dec_fixed_length_bytes s f))"
  using assms unfolding pb_dec_bytes_def pb_dec_string_def pb_dec_fixed_length_bytes_def
  by (auto intro!: within_intros simp: Let_def)

subsection \<open>Integers in memory\<close>

lemma length_store_int [simp]: "length (store_int n v) = n"
  by (simp add: store_int_def)

lemma nth_store_int [simp]: "i < n \<Longrightarrow> store_int n v ! i = ucast (drop_bit (8 * i) v)"
  by (simp add: store_int_def)

lemma bit_load_unsigned:
  "bit (load_unsigned bs) i \<longleftrightarrow> i < 64 \<and> i div 8 < length bs \<and> bit (bs ! (i div 8)) (i mod 8)"
proof (induction bs arbitrary: i)
  case Nil
  then show ?case by (simp add: load_unsigned_def)
next
  case (Cons b bs)
  have step: "load_unsigned (b # bs) = push_bit 8 (load_unsigned bs) OR ucast b"
    by (simp add: load_unsigned_def)
  show ?case
  proof (cases "i < 8")
    case True
    then show ?thesis by (auto simp: step bit_simps)
  next
    case False
    then obtain j where "i = 8 + j" using le_Suc_ex [of 8 i] by auto
    moreover have "(8 + j) div 8 = Suc (j div 8)" by simp
    ultimately show ?thesis
      by (auto simp: step bit_simps Cons.IH dest: bit_imp_le_length)
  qed
qed

lemma store_load_unsigned: "length m \<le> 8 \<Longrightarrow> store_int (length m) (load_unsigned m) = m"
  by (rule nth_equalityI) (auto intro!: bit_word_eqI simp: bit_simps bit_load_unsigned)

lemma store_signed: "n \<le> 8 \<Longrightarrow> 0 < n \<Longrightarrow> store_int n (signed_take_bit (8 * n - 1) v) = store_int n v"
proof (rule nth_equalityI)
  fix i
  assume n: "n \<le> 8" "0 < n" and i: "i < length (store_int n (signed_take_bit (8 * n - 1) v))"
  have "min (8 * n - 1) (8 * i + k) = 8 * i + k" if "k < 8" for k
  proof -
    have "8 * i + 8 \<le> 8 * n" using i mult_le_mono2 [of "Suc i" n 8] by simp
    with n that have "8 * i + k < 8 * n" by linarith
    then show ?thesis by (auto simp: min_def)
  qed
  with i n show "store_int n (signed_take_bit (8 * n - 1) v) ! i = store_int n v ! i"
    by (auto intro!: bit_word_eqI simp: bit_simps)
qed simp

lemma load_store_unsigned: "load_unsigned (store_int 8 v) = v"
  by (rule bit_word_eqI) (auto simp: bit_load_unsigned bit_simps)

lemma load_store_unsigned32: "ucast (load_unsigned (store_int 4 (ucast v))) = (v :: u32)"
  by (rule bit_word_eqI) (auto simp: bit_load_unsigned bit_simps)

subsection \<open>Zigzag\<close>

definition zigzag :: "u64 \<Rightarrow> u64" where
  "zigzag v = (if sint v < 0 then NOT (push_bit 1 v) else push_bit 1 v)"

lemma unzigzag:
  "(if zigzag v AND 1 \<noteq> 0 then NOT (drop_bit 1 (zigzag v)) else drop_bit 1 (zigzag v)) = v"
proof -
  have neg: "sint v < 0 \<longleftrightarrow> bit v 63" using bit_last_iff [of v] by simp
  have one: "x AND 1 \<noteq> 0 \<longleftrightarrow> bit x 0" for x :: u64 by (simp add: and_one_eq bit_0 mod2_eq_if)
  show ?thesis
  proof (cases "bit v 63")
    case True
    then have z: "zigzag v = NOT (push_bit 1 v)" by (simp add: zigzag_def neg)
    have "NOT (drop_bit 1 (NOT (push_bit 1 v))) = v"
    proof (rule bit_word_eqI)
      fix i
      assume "i < LENGTH(64)"
      then consider "i = 63" | "Suc i < 64" by fastforce
      then show "bit (NOT (drop_bit 1 (NOT (push_bit 1 v)))) i = bit v i"
        by cases (use True in \<open>auto simp: bit_simps simp del: push_bit_Suc drop_bit_Suc\<close>)
    qed
    then show ?thesis by (simp only: one z) (simp add: bit_simps del: push_bit_Suc drop_bit_Suc)
  next
    case False
    then have z: "zigzag v = push_bit 1 v" by (simp add: zigzag_def neg)
    have "drop_bit 1 (push_bit 1 v) = v"
    proof (rule bit_word_eqI)
      fix i
      assume "i < LENGTH(64)"
      then consider "i = 63" | "Suc i < 64" by fastforce
      then show "bit (drop_bit 1 (push_bit 1 v)) i = bit v i"
        by cases (use False in \<open>auto simp: bit_simps simp del: push_bit_Suc drop_bit_Suc\<close>)
    qed
    then show ?thesis by (simp only: one z) (simp add: bit_simps del: push_bit_Suc drop_bit_Suc)
  qed
qed

section \<open>The codecs\<close>

interpretation varint_codec: write_codec "\<lambda>_. True" "\<lambda>v. varint (unat v)" pb_encode_varint pb_decode_varint
proof
  fix x :: u64
  show "length (varint (unat x)) < size_max" using length_varint_u64 [of x] by simp
qed (auto simp: pb_encode_varint_write get_varint within_varint)

interpretation svarint_codec: write_codec "\<lambda>_. True" "\<lambda>v. varint (unat (zigzag v))" pb_encode_svarint pb_decode_svarint
proof
  fix x :: u64 and s r
  show "length (varint (unat (zigzag x))) < size_max" using length_varint_u64 [of "zigzag x"] by simp
  assume "stream_ok s" and "view s = varint (unat (zigzag x)) @ r"
  from get_varint [OF this] show "pb_decode_svarint s = (Some x, advance (length (varint (unat (zigzag x)))) s)"
    using unzigzag [of x] by (simp add: pb_decode_svarint_def)
qed (simp_all add: pb_encode_svarint_def zigzag_def pb_encode_varint_write within_svarint)

lemma ucast_low: "ucast (w AND 0xFF) = (ucast w :: u8)" for w :: "'a::len word"
proof -
  have "w AND 0xFF = take_bit 8 w" by (simp add: take_bit_eq_mask mask_eq_exp_minus_1)
  then show ?thesis by (auto intro!: bit_word_eqI simp: bit_simps)
qed

lemma encode_fixed32_write: "pb_encode_fixed32 os v = pb_write os (store_int 4 (ucast v))"
proof -
  have "[0..<4] = [0, 1, 2, 3 :: nat]" by (simp add: upt_rec)
  moreover have "ucast (drop_bit k (ucast v :: u64)) = (ucast (drop_bit k v) :: u8)" for k
    by (rule bit_word_eqI) (auto simp: bit_simps dest: bit_imp_le_length)
  ultimately show ?thesis by (simp add: pb_encode_fixed32_def store_int_def ucast_low)
qed

lemma encode_fixed64_write: "pb_encode_fixed64 os v = pb_write os (store_int 8 v)"
proof -
  have "[0..<8] = [0, 1, 2, 3, 4, 5, 6, 7 :: nat]" by (simp add: upt_rec)
  then show ?thesis by (simp add: pb_encode_fixed64_def store_int_def ucast_low)
qed

lemma read_exact:
  "stream_ok s \<Longrightarrow> view s = bs @ r \<Longrightarrow> pb_read s skip (length bs) = (Some bs, advance (length bs) s)"
  using length_view [of s] by (simp add: pb_read_buf)

lemma get_fixed32:
  assumes "stream_ok s" and "view s = store_int 4 (ucast v) @ r"
  shows "pb_decode_fixed32 s = (Some v, advance 4 s)"
proof -
  let ?m = "store_int 4 (ucast v :: u64)"
  have "push_bit 0 (ucast (?m ! 0)) OR push_bit 8 (ucast (?m ! 1)) OR push_bit 16 (ucast (?m ! 2)) OR
      push_bit 24 (ucast (?m ! 3)) = v"
    by (rule bit_word_eqI) (auto simp: bit_simps)
  then show ?thesis using read_exact [OF assms] by (simp add: pb_decode_fixed32_def)
qed

lemma or_chain:
  "push_bit 0 (ucast a0) OR push_bit 8 (ucast a1) OR push_bit 16 (ucast a2) OR push_bit 24 (ucast a3) OR
   push_bit 32 (ucast a4) OR push_bit 40 (ucast a5) OR push_bit 48 (ucast a6) OR push_bit 56 (ucast a7) =
   load_unsigned [a0, a1, a2, a3, a4, a5, a6, a7]"
  by (simp add: load_unsigned_def push_bit_or or.assoc or.commute or.left_commute)

lemma get_fixed64:
  assumes "stream_ok s" and "view s = store_int 8 v @ r"
  shows "pb_decode_fixed64 s = (Some v, advance 8 s)"
proof -
  let ?m = "store_int 8 v"
  have "[0..<8] = [0, 1, 2, 3, 4, 5, 6, 7 :: nat]" by (simp add: upt_rec)
  then have "?m = [?m ! 0, ?m ! 1, ?m ! 2, ?m ! 3, ?m ! 4, ?m ! 5, ?m ! 6, ?m ! 7]"
    by (simp add: store_int_def)
  then show ?thesis
    using read_exact [OF assms, of False] load_store_unsigned [of v]
    by (simp only: pb_decode_fixed64_def or_chain cbind_Some length_store_int)
qed

interpretation fixed32_codec: write_codec "\<lambda>_. True" "\<lambda>v. store_int 4 (ucast v)" pb_encode_fixed32 pb_decode_fixed32
  by unfold_locales (simp_all add: encode_fixed32_write get_fixed32 within_fixed32)

interpretation fixed64_codec: write_codec "\<lambda>_. True" "store_int 8" pb_encode_fixed64 pb_decode_fixed64
  by unfold_locales (simp_all add: encode_fixed64_write get_fixed64 within_fixed64)

lemma unat_of_nat_small: "n < 2 ^ LENGTH('a) \<Longrightarrow> unat (of_nat n :: 'a::len word) = n"
  by (simp only: unat_of_nat mod_less)

text \<open>A key: the wire type and the field number. Key 0 marks the end of a message.\<close>

definition key_ok :: "nat \<times> u32 \<Rightarrow> bool" where
  "key_ok k \<longleftrightarrow> fst k < 8 \<and> unat (snd k) < 2 ^ 29 \<and> k \<noteq> (0, 0)"

definition key_nat :: "nat \<times> u32 \<Rightarrow> nat" where
  "key_nat k = 8 * unat (snd k) + fst k"

definition get_key :: "pb_istream_t \<Rightarrow> (nat \<times> u32, pb_istream_t) cres" where
  "get_key s = (case pb_decode_tag s of (r, _, t) \<Rightarrow> (r, t))"

lemma key_nat_bound: "key_ok k \<Longrightarrow> key_nat k < 2 ^ 32 \<and> key_nat k \<noteq> 0"
  by (cases k) (auto simp: key_ok_def key_nat_def unat_eq_0)

lemma encode_tag_write: "key_ok k \<Longrightarrow> pb_encode_tag os (fst k) (snd k) = pb_write os (varint (key_nat k))"
proof -
  assume ok: "key_ok k"
  let ?n = "ucast (snd k) :: u64"
  have t: "unat (of_nat (fst k) :: u64) = fst k"
    using ok by (intro unat_of_nat_small) (simp add: key_ok_def)
  have "unat (push_bit 3 ?n OR of_nat (fst k)) = unat ?n * 2 ^ 3 + unat (of_nat (fst k) :: u64)"
    using ok by (intro unat_push_or) (simp_all only: t, simp_all add: key_ok_def)
  then show ?thesis by (simp add: pb_encode_tag_def pb_encode_varint_write t key_nat_def mult.commute)
qed

lemma get_key_varint:
  assumes "stream_ok s" and "key_ok k" and "view s = varint (key_nat k) @ r"
  shows "get_key s = (Some k, advance (length (varint (key_nat k))) s)"
proof -
  let ?w = "of_nat (key_nat k) :: u32"
  have b: "key_nat k < 2 ^ 32" "key_nat k \<noteq> 0" using key_nat_bound [OF assms(2)] by simp_all
  have w: "unat ?w = key_nat k" using b by (intro unat_of_nat_small) simp
  have "unat (?w AND 7) = fst k"
    using unat_and_mask [of ?w 3] assms(2) by (simp add: mask_eq_exp_minus_1 w) (simp add: key_nat_def key_ok_def)
  moreover have "drop_bit 3 ?w = snd k"
    using assms(2) by (simp only: word_unat_eq_iff unat_drop_bit_eq w)
      (simp only: drop_bit_eq_div, simp add: key_nat_def key_ok_def)
  moreover have "?w \<noteq> 0" using b w by auto
  ultimately show ?thesis
    using get_varint32 [OF assms(1) b(1) assms(3)]
    by (cases k) (auto simp: get_key_def pb_decode_tag_def pb_decode_varint32_def split: prod.splits)
qed

interpretation key_codec: write_codec key_ok "\<lambda>k. varint (key_nat k)" "\<lambda>os k. pb_encode_tag os (fst k) (snd k)" get_key
proof
  fix k
  assume "key_ok k"
  then have "length (varint (key_nat k)) \<le> 5" using key_nat_bound by (intro length_varint_u32) simp
  then show "length (varint (key_nat k)) < size_max" by simp
next
  fix s :: pb_istream_t
  assume "stream_ok s"
  from within_tag [OF this] show "within s (snd (get_key s))" by (simp add: get_key_def split_beta)
qed (simp_all add: encode_tag_write get_key_varint)

section \<open>Scalar fields\<close>

definition int_ok :: "pb_field_t \<Rightarrow> bytes \<Rightarrow> bool" where
  "int_ok f m \<longleftrightarrow> f_data_size f \<in> {1, 2, 4, 8} \<and> length m = f_data_size f"

lemma load_signed_id: "length m \<in> {1, 2, 4, 8} \<Longrightarrow>
    signed_take_bit (8 * length m - 1) (load_signed m) = load_signed m"
  unfolding load_signed_def by simp

lemma load_unsigned_id: "take_bit (8 * length m) (load_unsigned m) = load_unsigned m"
  by (rule bit_word_eqI) (auto simp: bit_simps bit_load_unsigned)

lemma store_load_signed: "length m \<in> {1, 2, 4, 8} \<Longrightarrow> store_int (length m) (load_signed m) = m"
  unfolding load_signed_def using store_load_unsigned [of m] by (subst store_signed) auto

lemma truncate_signed: "length m \<in> {1, 2, 4} \<Longrightarrow> signed_take_bit 31 (load_signed m) = load_signed m"
  unfolding load_signed_def by auto

interpretation varint_field: write_codec "int_ok f" "\<lambda>m. varint (unat (load_signed m))"
    "\<lambda>os. pb_enc_varint os f" "\<lambda>s. pb_dec_varint s f" for f
proof
  fix m s r
  assume "int_ok f m"
  note ok = this [unfolded int_ok_def]
  show "length (varint (unat (load_signed m))) < size_max" using length_varint_u64 [of "load_signed m"] by simp
  show "pb_enc_varint os f m = pb_write os (varint (unat (load_signed m)))" for os
    using ok by (auto simp: pb_enc_varint_def pb_encode_varint_write)
  assume "stream_ok s" and "view s = varint (unat (load_signed m)) @ r"
  note get = get_varint [OF this]
  have "(if f_data_size f = 8 then load_signed m else signed_take_bit 31 (load_signed m)) = load_signed m"
    using ok truncate_signed [of m] by auto
  moreover have "signed_take_bit (8 * f_data_size f - 1) (load_signed m) = load_signed m"
    using ok load_signed_id [of m] by simp
  moreover have "store_int (f_data_size f) (load_signed m) = m"
    using ok store_load_signed [of m] by simp
  ultimately show "pb_dec_varint s f = (Some m, advance (length (varint (unat (load_signed m)))) s)"
    using ok by (simp only: pb_dec_varint_def get cbind_Some Let_def) auto
qed (rule within_dec_ints)

interpretation uvarint_field: write_codec "int_ok f" "\<lambda>m. varint (unat (load_unsigned m))"
    "\<lambda>os. pb_enc_uvarint os f" "\<lambda>s. pb_dec_uvarint s f" for f
proof
  fix m s r
  assume "int_ok f m"
  note ok = this [unfolded int_ok_def]
  show "length (varint (unat (load_unsigned m))) < size_max" using length_varint_u64 [of "load_unsigned m"] by simp
  show "pb_enc_uvarint os f m = pb_write os (varint (unat (load_unsigned m)))" for os
    using ok by (auto simp: pb_enc_uvarint_def pb_encode_varint_write)
  assume "stream_ok s" and "view s = varint (unat (load_unsigned m)) @ r"
  note get = get_varint [OF this]
  have "take_bit (8 * f_data_size f) (load_unsigned m) = load_unsigned m"
    using ok load_unsigned_id [of m] by simp
  moreover have "store_int (f_data_size f) (load_unsigned m) = m"
    using ok store_load_unsigned [of m] by auto
  ultimately show "pb_dec_uvarint s f = (Some m, advance (length (varint (unat (load_unsigned m)))) s)"
    using ok by (simp only: pb_dec_uvarint_def get cbind_Some Let_def) auto
qed (rule within_dec_ints)

interpretation svarint_field: write_codec "int_ok f" "\<lambda>m. varint (unat (zigzag (load_signed m)))"
    "\<lambda>os. pb_enc_svarint os f" "\<lambda>s. pb_dec_svarint s f" for f
proof
  fix m s r
  assume "int_ok f m"
  note ok = this [unfolded int_ok_def]
  show "length (varint (unat (zigzag (load_signed m)))) < size_max"
    using length_varint_u64 [of "zigzag (load_signed m)"] by simp
  show "pb_enc_svarint os f m = pb_write os (varint (unat (zigzag (load_signed m))))" for os
    using ok svarint_codec.put_write [of os "load_signed m"] by (auto simp: pb_enc_svarint_def)
  assume "stream_ok s" and "view s = varint (unat (zigzag (load_signed m))) @ r"
  note get = svarint_codec.get_put [OF this(1) TrueI this(2)]
  have "signed_take_bit (8 * f_data_size f - 1) (load_signed m) = load_signed m"
    using ok load_signed_id [of m] by simp
  moreover have "store_int (f_data_size f) (load_signed m) = m"
    using ok store_load_signed [of m] by simp
  ultimately show "pb_dec_svarint s f = (Some m, advance (length (varint (unat (zigzag (load_signed m))))) s)"
    using ok by (simp only: pb_dec_svarint_def get cbind_Some Let_def) auto
qed (rule within_dec_ints)

end
