(* ===== verification/PbValues.thy ===== *)
theory PbValues
  imports PbRoundtrip
begin

text \<open>
  Delimited values of nanopb (strings, bytes, substreams), unknown fields, and the safety of
  both kinds of streams.
\<close>

section \<open>Two writes in a row\<close>

lemma write_seq:
  assumes ok: "out_ok os" and len: "length a + length b < size_max"
  shows "accepts os (length (a @ b)) \<Longrightarrow>
      cbind (pb_write os a) (\<lambda>_ os. pb_write os b) = (Some (), emit (a @ b) os)"
    and "os_callback os = Buf_write \<Longrightarrow> \<not> accepts os (length (a @ b)) \<Longrightarrow>
      fst (cbind (pb_write os a) (\<lambda>_ os. pb_write os b)) = None \<and>
      spilled os (snd (cbind (pb_write os a) (\<lambda>_ os. pb_write os b)))"
proof -
  have la: "length a < size_max" and lb: "length b < size_max" using len by simp_all
  note A = pb_write_spec [OF ok la]
  {
    assume "accepts os (length (a @ b))"
    then have "accepts os (length a)" "accepts (emit a os) (length b)"
      by (simp_all add: accepts_mono [of os "length (a @ b)"])
    then show "cbind (pb_write os a) (\<lambda>_ os. pb_write os b) = (Some (), emit (a @ b) os)"
      using A(1) pb_write_spec(1) [OF _ lb, of "emit a os"] ok by simp
  }
  assume cb: "os_callback os = Buf_write" and full: "\<not> accepts os (length (a @ b))"
  show "fst (cbind (pb_write os a) (\<lambda>_ os. pb_write os b)) = None \<and>
      spilled os (snd (cbind (pb_write os a) (\<lambda>_ os. pb_write os b)))"
  proof (cases "accepts os (length a)")
    case True
    then have "out_ok (emit a os)" "\<not> accepts (emit a os) (length b)" "os_callback (emit a os) = Buf_write"
      using ok full cb by simp_all
    note B = pb_write_spec(2) [OF this(1) lb this(2)] spilled_error [OF this(1)]
    show ?thesis
      using A(1) [OF True] B cb spilled_emit [OF True] by (simp add: OUT_RETURN_ERROR_def)
  next
    case False
    then show ?thesis using A(2) cb spilled_error [OF ok] by (simp add: OUT_RETURN_ERROR_def)
  qed
qed

section \<open>Delimited values\<close>

definition delimited :: "bytes \<Rightarrow> bytes" where
  "delimited bs = varint (length bs) @ bs"

lemma length_delimited: "length bs < 2 ^ 32 \<Longrightarrow> length (varint (length bs)) + length bs < size_max"
  using length_varint_u32 [of "length bs"] by simp

lemma encode_string_writes:
  "length bs < 2 ^ 32 \<Longrightarrow> pb_encode_string os bs =
    cbind (pb_write os (varint (length bs))) (\<lambda>_ os. pb_write os bs)"
proof -
  assume "length bs < 2 ^ 32"
  then have "unat (of_nat (length bs) :: u64) = length bs" by (intro unat_of_nat_small) simp
  then show ?thesis by (simp add: pb_encode_string_def pb_encode_varint_write)
qed

text \<open>The encoder of a field that ends in \<open>pb_encode_string\<close> meets the writing half of the contract.\<close>

lemma string_put:
  assumes "out_ok os" and "length bs < 2 ^ 32" and "put = pb_encode_string os bs"
  shows "accepts os (length (delimited bs)) \<Longrightarrow> put = (Some (), emit (delimited bs) os)"
    and "os_callback os = Buf_write \<Longrightarrow> \<not> accepts os (length (delimited bs)) \<Longrightarrow>
      fst put = None \<and> spilled os (snd put)"
  using write_seq [OF assms(1) length_delimited [OF assms(2)]] assms(3)
  by (simp_all add: encode_string_writes [OF assms(2)] delimited_def)

lemma get_delimited:
  assumes "stream_ok s" and "length bs < 2 ^ 32" and "view s = delimited bs @ r"
  shows "pb_decode_varint32 s = (Some (of_nat (length bs)), advance (length (varint (length bs))) s)"
    and "pb_read (advance (length (varint (length bs))) s) skip (length bs) =
      (Some bs, advance (length (delimited bs)) s)"
    and "length bs \<le> bytes_left (advance (length (varint (length bs))) s)"
proof -
  let ?t = "advance (length (varint (length bs))) s"
  have v: "view s = varint (length bs) @ (bs @ r)" using assms(3) by (simp add: delimited_def)
  show "pb_decode_varint32 s = (Some (of_nat (length bs)), ?t)"
    by (rule get_varint32 [OF assms(1,2) v])
  have t: "stream_ok ?t" "view ?t = bs @ r" using assms(1) v by simp_all
  then show "length bs \<le> bytes_left ?t" using length_view [of ?t] by simp
  show "pb_read ?t skip (length bs) = (Some bs, advance (length (delimited bs)) s)"
    using read_exact [OF t] by (simp add: delimited_def)
qed

definition bytes_ok :: "(nat \<Rightarrow> bool) \<Rightarrow> pb_field_t \<Rightarrow> bytes \<Rightarrow> bool" where
  "bytes_ok realloc_ok f m \<longleftrightarrow> 4 \<le> length m \<and> length m - 4 \<le> PB_SIZE_MAX \<and>
     unat (load_unsigned (take 4 m)) = length m - 4 \<and>
     (if PB_ATYPE (f_type f) = PB_ATYPE_POINTER then realloc_ok (length m) else length m \<le> f_data_size f) \<and>
     f_data_size f < size_max"

definition string_ok :: "(nat \<Rightarrow> bool) \<Rightarrow> pb_field_t \<Rightarrow> bytes \<Rightarrow> bool" where
  "string_ok realloc_ok f m \<longleftrightarrow> m \<noteq> [] \<and> last m = 0 \<and> 0 \<notin> set (butlast m) \<and> length m < 2 ^ 32 \<and>
     (if PB_ATYPE (f_type f) = PB_ATYPE_POINTER then realloc_ok (length m) else length m \<le> f_data_size f)"

lemma bytes_okD:
  assumes "bytes_ok realloc_ok f m"
  shows "length (drop 4 m) < 2 ^ 32" and "store_int 4 (of_nat (length (drop 4 m))) @ drop 4 m = m"
    and "length (drop 4 m) \<le> PB_SIZE_MAX"
    and "if PB_ATYPE (f_type f) = PB_ATYPE_POINTER then realloc_ok (length (drop 4 m) + 4)
      else length (drop 4 m) + 4 \<le> f_data_size f"
proof -
  note ok = assms [unfolded bytes_ok_def]
  then show l: "length (drop 4 m) < 2 ^ 32" by (auto simp: PB_SIZE_MAX_def)
  have "load_unsigned (take 4 m) = of_nat (length (drop 4 m))"
    using ok l by (simp only: word_unat_eq_iff) (subst unat_of_nat_small, simp_all)
  moreover have "store_int 4 (load_unsigned (take 4 m)) = take 4 m"
  proof -
    have "length (take 4 m) = 4" using ok by simp
    with store_load_unsigned [of "take 4 m"] show ?thesis by simp
  qed
  ultimately show "store_int 4 (of_nat (length (drop 4 m))) @ drop 4 m = m"
    by (simp only: append_take_drop_id)
  show "length (drop 4 m) \<le> PB_SIZE_MAX" using ok by simp
  show "if PB_ATYPE (f_type f) = PB_ATYPE_POINTER then realloc_ok (length (drop 4 m) + 4)
      else length (drop 4 m) + 4 \<le> f_data_size f"
    using ok by (simp split: if_splits)
qed

interpretation bytes_field: wire_codec "bytes_ok realloc_ok f" "\<lambda>m. delimited (drop 4 m)"
    "\<lambda>os m. pb_enc_bytes os f (Some m)" "\<lambda>s. pb_dec_bytes realloc_ok s f" for realloc_ok f
proof
  fix os m
  assume "out_ok os" and ok: "bytes_ok realloc_ok f m"
  let ?bs = "drop 4 m"
  have "PB_ATYPE (f_type f) = PB_ATYPE_STATIC \<Longrightarrow> (f_data_size f + size_max - 4) mod size_max = f_data_size f - 4"
    "PB_ATYPE (f_type f) = PB_ATYPE_STATIC \<Longrightarrow> length m - 4 \<le> f_data_size f - 4"
    using ok by (auto simp: bytes_ok_def PB_ATYPE_STATIC_def PB_ATYPE_POINTER_def mod_if)
  moreover have "unat (load_unsigned (take 4 m)) = length m - 4" using ok by (simp add: bytes_ok_def)
  ultimately have "\<not> (PB_ATYPE (f_type f) = PB_ATYPE_STATIC \<and>
      (f_data_size f + size_max - 4) mod size_max < unat (load_unsigned (take 4 m)))"
    by auto
  with ok have enc: "pb_enc_bytes os f (Some m) = pb_encode_string os ?bs"
    unfolding pb_enc_bytes_def by (auto simp: Let_def bytes_ok_def)
  note put = string_put [OF \<open>out_ok os\<close> bytes_okD(1) [OF ok] enc]
  show "accepts os (length (delimited ?bs)) \<Longrightarrow> pb_enc_bytes os f (Some m) = (Some (), emit (delimited ?bs) os)"
    by (rule put(1))
  show "os_callback os = Buf_write \<Longrightarrow> \<not> accepts os (length (delimited ?bs)) \<Longrightarrow>
      fst (pb_enc_bytes os f (Some m)) = None \<and> spilled os (snd (pb_enc_bytes os f (Some m)))"
    by (rule put(2))
next
  fix s m r
  assume s: "stream_ok s" and ok: "bytes_ok realloc_ok f m" and v: "view s = delimited (drop 4 m) @ r"
  let ?bs = "drop 4 m"
  note bs = bytes_okD [OF ok]
  have n: "unat (of_nat (length ?bs) :: u32) = length ?bs" using bs(1) by (intro unat_of_nat_small) simp
  have m: "store_int 4 (of_nat (length ?bs)) @ ?bs = m" by (rule bs(2))
  note get = get_delimited [OF s bs(1) v]
  show "pb_dec_bytes realloc_ok s f = (Some m, advance (length (delimited ?bs)) s)"
    unfolding pb_dec_bytes_def get(1) using get(2) get(3) bs(1,3,4)
    by (auto simp only: cbind_Some n m Let_def PB_BYTES_ARRAY_T_ALLOCSIZE_def)
      (auto simp: m [unfolded length_drop] allocate_field_def Let_def not_less split: if_splits)
qed (rule within_dec_blobs)

interpretation string_field: wire_codec "string_ok realloc_ok f" "\<lambda>m. delimited (butlast m)"
    "\<lambda>os m. pb_enc_string os f (Some m)" "\<lambda>s. pb_dec_string realloc_ok s f" for realloc_ok f
proof
  fix os m
  assume "out_ok os" and ok: "string_ok realloc_ok f m"
  have m: "m = butlast m @ [0]" using ok by (metis append_butlast_last_id string_ok_def)
  have size: "length (butlast m) < 2 ^ 32" using ok by (auto simp: string_ok_def)
  have "length m \<le> (if PB_ATYPE (f_type f) = PB_ATYPE_POINTER then size_max - 1 else f_data_size f)"
    using ok by (auto simp: string_ok_def)
  then have "take (if PB_ATYPE (f_type f) = PB_ATYPE_POINTER then size_max - 1 else f_data_size f) m = m"
    by (rule take_all)
  moreover have "takeWhile (\<lambda>c. c \<noteq> 0) (butlast m @ [0]) = butlast m"
    using ok by (intro takeWhile_tail [THEN trans]) (auto simp: string_ok_def takeWhile_eq_all_conv intro: takeWhile_eq_all_conv [THEN iffD2])
  ultimately have enc: "pb_enc_string os f (Some m) = pb_encode_string os (butlast m)"
    using m by (simp add: pb_enc_string_def Let_def)
  show "accepts os (length (delimited (butlast m))) \<Longrightarrow> pb_enc_string os f (Some m) = (Some (), emit (delimited (butlast m)) os)"
    by (rule string_put(1) [OF \<open>out_ok os\<close> size enc])
  show "os_callback os = Buf_write \<Longrightarrow> \<not> accepts os (length (delimited (butlast m))) \<Longrightarrow>
      fst (pb_enc_string os f (Some m)) = None \<and> spilled os (snd (pb_enc_string os f (Some m)))"
    by (rule string_put(2) [OF \<open>out_ok os\<close> size enc])
next
  fix s m r
  assume s: "stream_ok s" and ok: "string_ok realloc_ok f m" and v: "view s = delimited (butlast m) @ r"
  have m: "butlast m @ [0] = m" using ok by (metis append_butlast_last_id string_ok_def)
  have size: "length (butlast m) < 2 ^ 32" using ok by (auto simp: string_ok_def)
  have n: "unat (of_nat (length (butlast m)) :: u32) = length (butlast m)" using size by (intro unat_of_nat_small) simp
  have "of_nat (length (butlast m)) + 1 = (of_nat (length m) :: u32)"
    using arg_cong [OF m, of length] by (metis length_append_singleton of_nat_Suc add.commute)
  then have a: "unat (of_nat (length (butlast m)) + 1 :: u32) = length m"
    using ok by (simp only:) (rule unat_of_nat_small, simp add: string_ok_def)
  note get = get_delimited [OF s size v]
  show "pb_dec_string realloc_ok s f = (Some m, advance (length (delimited (butlast m))) s)"
    unfolding pb_dec_string_def get(1) using get(2) get(3) ok
    by (auto simp only: cbind_Some n a Let_def) (auto simp: string_ok_def allocate_field_def Let_def m not_less split: if_splits)
qed (rule within_dec_blobs)

lemma load_take: "length m = n \<Longrightarrow> take n m = m"
  by simp

interpretation fixed32_field: write_codec "\<lambda>m. length m = 4" "\<lambda>m. m" "\<lambda>os. pb_enc_fixed32 os f" "\<lambda>s. pb_dec_fixed32 s f" for f
proof
  fix m :: bytes and s r
  assume len: "length m = 4"
  let ?v = "ucast (load_unsigned m) :: u32"
  have "store_int 4 (ucast ?v) = m"
  proof (rule nth_equalityI)
    fix i
    assume "i < length (store_int 4 (ucast ?v))"
    with len show "store_int 4 (ucast ?v) ! i = m ! i"
      by (auto intro!: bit_word_eqI simp: bit_simps bit_load_unsigned)
  qed (simp add: len)
  note m = this
  show "pb_enc_fixed32 os f m = pb_write os m" for os
    using len m by (simp add: pb_enc_fixed32_def encode_fixed32_write)
  assume "stream_ok s" and "view s = m @ r"
  then have "pb_decode_fixed32 s = (Some ?v, advance 4 s)"
    by (intro get_fixed32) (simp_all add: m)
  then show "pb_dec_fixed32 s f = (Some m, advance (length m) s)"
    by (simp add: pb_dec_fixed32_def m len)
qed (simp_all add: within_dec_ints)

interpretation fixed64_field: write_codec "\<lambda>m. length m = 8" "\<lambda>m. m" "\<lambda>os. pb_enc_fixed64 os f" "\<lambda>s. pb_dec_fixed64 s f" for f
proof
  fix m :: bytes and s r
  assume len: "length m = 8"
  have m: "store_int 8 (load_unsigned m) = m" using store_load_unsigned [of m] len by simp
  show "pb_enc_fixed64 os f m = pb_write os m" for os
    using len m by (simp add: pb_enc_fixed64_def encode_fixed64_write)
  assume "stream_ok s" and "view s = m @ r"
  then have "pb_decode_fixed64 s = (Some (load_unsigned m), advance 8 s)"
    by (intro get_fixed64) (simp_all add: m)
  then show "pb_dec_fixed64 s f = (Some m, advance (length m) s)"
    by (simp add: pb_dec_fixed64_def m len)
qed (simp_all add: within_dec_ints)

lemma varint_small: "n < 128 \<Longrightarrow> varint n = [of_nat n]"
  by (subst varint.simps) simp

interpretation bool_field: write_codec "\<lambda>m. m \<in> {[0], [1]}" "\<lambda>m. m" "\<lambda>os. pb_enc_bool os f"
    "\<lambda>s. cbind (pb_dec_bool s) (\<lambda>b s. (Some [if b then 1 else 0], s))" for f
proof
  fix m :: bytes and s r
  assume m: "m \<in> {[0], [1]}"
  then have v: "m = varint (unat (hd m))" "unat (hd m) < 2 ^ 32" by (auto simp: varint_small)
  show "length m < size_max" using m by auto
  show "pb_enc_bool os f m = pb_write os m" for os
    using m by (auto simp: pb_enc_bool_def safe_read_bool_def pb_encode_varint_write varint_small)
  assume "stream_ok s" and "view s = m @ r"
  with v have "pb_decode_varint32 s = (Some (of_nat (unat (hd m))), advance (length m) s)"
    using get_varint32 [of s "unat (hd m)" r] by simp
  then show "cbind (pb_dec_bool s) (\<lambda>b s. (Some [if b then 1 else 0], s)) = (Some m, advance (length m) s)"
    using m by (auto simp: pb_dec_bool_def)
qed (auto intro!: within_intros)

interpretation fixed_length_bytes_field: wire_codec "\<lambda>m. length m = f_data_size f \<and> f_data_size f \<le> PB_SIZE_MAX" delimited
    "\<lambda>os. pb_enc_fixed_length_bytes os f" "\<lambda>s. pb_dec_fixed_length_bytes s f" for f
proof
  fix os and m :: bytes
  assume "out_ok os" and ok: "length m = f_data_size f \<and> f_data_size f \<le> PB_SIZE_MAX"
  then have size: "length m < 2 ^ 32" and enc: "pb_enc_fixed_length_bytes os f m = pb_encode_string os m"
    by (auto simp: PB_SIZE_MAX_def pb_enc_fixed_length_bytes_def)
  note put = string_put [OF \<open>out_ok os\<close> size enc]
  show "accepts os (length (delimited m)) \<Longrightarrow> pb_enc_fixed_length_bytes os f m = (Some (), emit (delimited m) os)"
    by (rule put(1))
  show "os_callback os = Buf_write \<Longrightarrow> \<not> accepts os (length (delimited m)) \<Longrightarrow>
      fst (pb_enc_fixed_length_bytes os f m) = None \<and> spilled os (snd (pb_enc_fixed_length_bytes os f m))"
    by (rule put(2))
next
  fix s and m r :: bytes
  assume s: "stream_ok s" and ok: "length m = f_data_size f \<and> f_data_size f \<le> PB_SIZE_MAX" and v: "view s = delimited m @ r"
  then have size: "length m < 2 ^ 32" by (auto simp: PB_SIZE_MAX_def)
  have n: "unat (of_nat (length m) :: u32) = length m" using size by (intro unat_of_nat_small) simp
  note get = get_delimited [OF s size v]
  show "pb_dec_fixed_length_bytes s f = (Some m, advance (length (delimited m)) s)"
  proof (cases "m = []")
    case True
    then show ?thesis
      unfolding pb_dec_fixed_length_bytes_def get(1) using ok by (simp add: delimited_def)
  next
    case False
    then have "(of_nat (length m) :: u32) \<noteq> 0" using n by (metis length_0_conv unat_0)
    then show ?thesis
      unfolding pb_dec_fixed_length_bytes_def get(1) using get(2) ok
      by (auto simp: n [unfolded conjunct1 [OF ok]] not_less)
  qed
qed (rule within_dec_blobs)

section \<open>Skipping and substreams\<close>

lemma skip_varint_buf:
  "stream_ok s \<Longrightarrow> varint_length (view s) \<le> bytes_left s \<Longrightarrow>
    pb_skip_varint s = (Some (), advance (varint_length (view s)) s)"
proof (induction s rule: pb_skip_varint.induct)
  case (1 s)
  then obtain b bs where v: "view s = b # bs"
    using length_view [of s] by (cases "view s") (auto simp: varint_length_def)
  then have "1 \<le> bytes_left s" using 1 length_view [of s] by simp
  then have read: "pb_read s False 1 = (Some [b], advance 1 s)"
    using 1 v by (simp add: pb_read_buf)
  show ?case
  proof (cases "cont b")
    case True
    then have "pb_skip_varint (advance 1 s) = (Some (), advance (varint_length (view (advance 1 s))) (advance 1 s))"
      using "1.prems" v by (intro "1.IH" [OF read]) (auto simp: cont_bit varint_length_Cons)
    then show ?thesis
      using True cont_bit [of b] unfolding pb_skip_varint.simps [of s] read by (simp add: v varint_length_Cons)
  next
    case False
    then show ?thesis
      using cont_bit [of b] unfolding pb_skip_varint.simps [of s] read by (simp add: v varint_length_Cons)
  qed
qed

text \<open>Closing a substream continues right behind it, whatever its reader did.\<close>

lemma close_substream:
  assumes s: "stream_ok s" and make: "pb_make_string_substream s = (Some sub, parent)" and w: "within sub sub'"
  shows "\<exists>u. within s u \<and> pb_skip_string s = (Some (), u) \<and>
    pb_close_string_substream parent sub' = (Some (), u\<lparr>is_errmsg := is_errmsg sub'\<rparr>)"
proof -
  obtain k t where k: "pb_decode_varint32 s = (Some k, t)" "unat k \<le> bytes_left t"
      "sub = t\<lparr>bytes_left := unat k\<rparr>" "parent = t\<lparr>bytes_left := bytes_left t - unat k\<rparr>"
    using make by (auto simp: pb_make_string_substream_def cbind_eq_Some Let_def not_less split: if_splits)
  have t: "stream_ok t" using within_varint32 [OF s] k(1) s by (auto dest: within_ok)
  obtain j g where j: "j \<le> unat k" "sub' = (advance j sub)\<lparr>is_errmsg := g\<rparr>"
    using w by (auto simp: within_def k(3))
  have sub': "stream_ok sub'" using t k j by (auto simp: stream_ok_def advance_def)
  let ?u = "advance (unat k) t"
  have "pb_skip_string s = (Some (), ?u)" using k(1,2) t by (simp add: pb_skip_string_def pb_read_buf)
  moreover have "within s ?u" using within_varint32 [OF s] k(1,2) by (auto intro: within_trans)
  moreover have "pb_close_string_substream parent sub' = (Some (), ?u\<lparr>is_errmsg := is_errmsg sub'\<rparr>)"
    using j(1) sub' unfolding pb_close_string_substream_def
    by (auto simp: pb_read_buf) (simp_all add: j(2) k advance_def)
  ultimately show ?thesis by blast
qed

lemma make_substream_view:
  assumes "stream_ok s" and "pb_make_string_substream s = (Some sub, parent)"
  shows "stream_ok sub" and "bytes_left sub \<le> bytes_left s"
proof -
  obtain k t where k: "pb_decode_varint32 s = (Some k, t)" "unat k \<le> bytes_left t" "sub = t\<lparr>bytes_left := unat k\<rparr>"
    using assms(2) by (auto simp: pb_make_string_substream_def cbind_eq_Some Let_def not_less split: if_splits)
  then have "within s t" using within_varint32 [OF assms(1)] by simp
  then show "stream_ok sub" "bytes_left sub \<le> bytes_left s"
    using k assms(1) by (auto simp: within_def stream_ok_def advance_def)
qed

section \<open>Encoders stay inside their buffer, whatever they are given\<close>

lemma spilled_refl: "out_ok os \<Longrightarrow> spilled os os"
  unfolding spilled_def by (auto intro!: exI [of _ "[]"] exI [of _ "os_errmsg os"] simp: out_ok_def)

lemma spilled_trans: "spilled a b \<Longrightarrow> spilled b c \<Longrightarrow> spilled a c"
  unfolding spilled_def by clarsimp (metis length_append)

lemma errmsg_id [simp]: "(emit bs os)\<lparr>os_errmsg := os_errmsg os\<rparr> = emit bs os"
  by (simp add: emit_def)

lemma spilled_write:
  assumes "out_ok os" and "length bs < size_max" and "os_callback os = Buf_write"
  shows "spilled os (snd (pb_write os bs))"
proof (cases "accepts os (length bs)")
  case True
  then show ?thesis
    using pb_write_spec(1) [OF assms(1,2)] unfolding spilled_def
    by (auto intro!: exI [of _ bs] exI [of _ "os_errmsg os"])
next
  case False
  then show ?thesis
    using pb_write_spec(2) [OF assms(1,2)] spilled_error [OF assms(1)] assms(3) by simp
qed

lemma spilled_callback: "spilled os os' \<Longrightarrow> os_callback os' = os_callback os"
  by (auto simp: spilled_def)

lemma spilled_cbind:
  assumes "out_ok os" "os_callback os = Buf_write" and "spilled os (snd m)"
    and "\<And>v t. m = (Some v, t) \<Longrightarrow> out_ok t \<Longrightarrow> os_callback t = Buf_write \<Longrightarrow> spilled t (snd (f v t))"
  shows "spilled os (snd (cbind m f))"
  using assms by (cases m; cases "fst m") (auto intro: spilled_trans spilled_out_ok simp: spilled_callback)

lemma spilled_varint: "out_ok os \<Longrightarrow> os_callback os = Buf_write \<Longrightarrow> spilled os (snd (pb_encode_varint os v))"
  unfolding pb_encode_varint_write by (rule spilled_write) (use length_varint_u64 [of v] in simp_all)

lemma spilled_svarint: "out_ok os \<Longrightarrow> os_callback os = Buf_write \<Longrightarrow> spilled os (snd (pb_encode_svarint os v))"
  unfolding pb_encode_svarint_def by (rule spilled_varint)

lemma spilled_string:
  "out_ok os \<Longrightarrow> os_callback os = Buf_write \<Longrightarrow> length bs < size_max \<Longrightarrow> spilled os (snd (pb_encode_string os bs))"
  unfolding pb_encode_string_def by (intro spilled_cbind spilled_varint spilled_write) auto

lemmas spilled_encoders = spilled_varint spilled_svarint spilled_string spilled_error

lemma spilled_tag_for_field:
  "out_ok os \<Longrightarrow> os_callback os = Buf_write \<Longrightarrow> spilled os (snd (pb_encode_tag_for_field os f))"
  by (simp add: pb_encode_tag_for_field_def pb_encode_tag_def Let_def spilled_encoders)

end
