(* ===== verification/PbArray.thy ===== *)
theory PbArray
  imports PbValues
begin

text \<open>
  Fields and arrays of nanopb through the tables of encoders and decoders: a scalar of any
  packable type meets the contract of \<open>PbCodec\<close>, and so packed and repeated arrays are read
  back as they were written.
\<close>

lemmas ltypes = PB_LTYPE_BOOL_def PB_LTYPE_VARINT_def PB_LTYPE_UVARINT_def PB_LTYPE_SVARINT_def
  PB_LTYPE_FIXED32_def PB_LTYPE_FIXED64_def PB_LTYPE_BYTES_def PB_LTYPE_STRING_def
  PB_LTYPE_SUBMESSAGE_def PB_LTYPE_EXTENSION_def PB_LTYPE_FIXED_LENGTH_BYTES_def
  PB_LTYPE_LAST_PACKABLE_def

section \<open>Scalars through the tables\<close>

abbreviation ltype :: "pb_field_t \<Rightarrow> u8" where
  "ltype f \<equiv> PB_LTYPE (f_type f)"

definition scalar_ok :: "pb_field_t \<Rightarrow> bytes \<Rightarrow> bool" where
  "scalar_ok f m \<longleftrightarrow>
     (if ltype f = PB_LTYPE_BOOL then m \<in> {[0], [1]}
      else if ltype f = PB_LTYPE_FIXED32 then length m = 4
      else if ltype f = PB_LTYPE_FIXED64 then length m = 8
      else int_ok f m)"

definition scalar_bytes :: "pb_field_t \<Rightarrow> bytes \<Rightarrow> bytes" where
  "scalar_bytes f m =
     (if ltype f = PB_LTYPE_VARINT then varint (unat (load_signed m))
      else if ltype f = PB_LTYPE_UVARINT then varint (unat (load_unsigned m))
      else if ltype f = PB_LTYPE_SVARINT then varint (unat (zigzag (load_signed m)))
      else m)"

lemma packable_cases:
  assumes "t \<le> PB_LTYPE_LAST_PACKABLE"
  obtains "t = PB_LTYPE_BOOL" | "t = PB_LTYPE_VARINT" | "t = PB_LTYPE_UVARINT" | "t = PB_LTYPE_SVARINT"
    | "t = PB_LTYPE_FIXED32" | "t = PB_LTYPE_FIXED64"
proof -
  have "unat t \<in> {0, 1, 2, 3, 4, 5}"
    using assms by (auto simp: ltypes word_le_nat_alt)
  then have "t \<in> {0, 1, 2, 3, 4, 5}"
    by (auto simp: word_unat_eq_iff)
  then show ?thesis using that by (auto simp: ltypes)
qed

definition scalar_coded :: "pb_field_t \<Rightarrow> pb_encoder_t \<Rightarrow> pb_decoder_t \<Rightarrow> bool" where
  "scalar_coded f func dec \<longleftrightarrow>
     wire_codec (scalar_ok f) (scalar_bytes f) (\<lambda>os m. func os f (Some m)) (\<lambda>s. dec s f)"

lemma scalar_codec:
  assumes "ltype f \<le> PB_LTYPE_LAST_PACKABLE"
    and "PB_ENCODERS e (ltype f) = Some func" and "PB_DECODERS g d (ltype f) = Some dec"
  shows "scalar_coded f func dec"
  using assms(1)
proof (cases rule: packable_cases)
  case 1
  then have "scalar_ok f = (\<lambda>m. m \<in> {[0], [1]})" "scalar_bytes f = (\<lambda>m. m)"
    "func = (\<lambda>os f src. pb_enc_bool os f (the src))"
    "dec = (\<lambda>s f. cbind (pb_dec_bool s) (\<lambda>b s. (Some [if b then 1 else 0], s)))"
    using assms(2,3) by (auto simp: fun_eq_iff scalar_ok_def scalar_bytes_def PB_ENCODERS_def PB_DECODERS_def ltypes)
  then show ?thesis using bool_field.wire_codec_axioms [of f] by (simp add: scalar_coded_def)
next
  case 2
  then have "scalar_ok f = int_ok f" "scalar_bytes f = (\<lambda>m. varint (unat (load_signed m)))"
    "func = (\<lambda>os f src. pb_enc_varint os f (the src))" "dec = pb_dec_varint"
    using assms(2,3) by (auto simp: fun_eq_iff scalar_ok_def scalar_bytes_def PB_ENCODERS_def PB_DECODERS_def ltypes)
  then show ?thesis using varint_field.wire_codec_axioms [of f] by (simp add: scalar_coded_def)
next
  case 3
  then have "scalar_ok f = int_ok f" "scalar_bytes f = (\<lambda>m. varint (unat (load_unsigned m)))"
    "func = (\<lambda>os f src. pb_enc_uvarint os f (the src))" "dec = pb_dec_uvarint"
    using assms(2,3) by (auto simp: fun_eq_iff scalar_ok_def scalar_bytes_def PB_ENCODERS_def PB_DECODERS_def ltypes)
  then show ?thesis using uvarint_field.wire_codec_axioms [of f] by (simp add: scalar_coded_def)
next
  case 4
  then have "scalar_ok f = int_ok f" "scalar_bytes f = (\<lambda>m. varint (unat (zigzag (load_signed m))))"
    "func = (\<lambda>os f src. pb_enc_svarint os f (the src))" "dec = pb_dec_svarint"
    using assms(2,3) by (auto simp: fun_eq_iff scalar_ok_def scalar_bytes_def PB_ENCODERS_def PB_DECODERS_def ltypes)
  then show ?thesis using svarint_field.wire_codec_axioms [of f] by (simp add: scalar_coded_def)
next
  case 5
  then have "scalar_ok f = (\<lambda>m. length m = 4)" "scalar_bytes f = (\<lambda>m. m)"
    "func = (\<lambda>os f src. pb_enc_fixed32 os f (the src))" "dec = pb_dec_fixed32"
    using assms(2,3) by (auto simp: fun_eq_iff scalar_ok_def scalar_bytes_def PB_ENCODERS_def PB_DECODERS_def ltypes)
  then show ?thesis using fixed32_field.wire_codec_axioms [of f] by (simp add: scalar_coded_def)
next
  case 6
  then have "scalar_ok f = (\<lambda>m. length m = 8)" "scalar_bytes f = (\<lambda>m. m)"
    "func = (\<lambda>os f src. pb_enc_fixed64 os f (the src))" "dec = pb_dec_fixed64"
    using assms(2,3) by (auto simp: fun_eq_iff scalar_ok_def scalar_bytes_def PB_ENCODERS_def PB_DECODERS_def ltypes)
  then show ?thesis using fixed64_field.wire_codec_axioms [of f] by (simp add: scalar_coded_def)
qed

lemma scalar_bytes_nonempty: "ltype f \<le> PB_LTYPE_LAST_PACKABLE \<Longrightarrow> scalar_ok f m \<Longrightarrow> scalar_bytes f m \<noteq> []"
  by (auto simp: scalar_ok_def scalar_bytes_def int_ok_def split: if_splits)

section \<open>Arrays\<close>

definition items_bytes :: "pb_field_t \<Rightarrow> bytes list \<Rightarrow> bytes" where
  "items_bytes f ms = concat (map (scalar_bytes f) ms)"

lemma items_bytes_simps [simp]:
  "items_bytes f [] = []" "items_bytes f (m # ms) = scalar_bytes f m @ items_bytes f ms"
  by (simp_all add: items_bytes_def)

definition array_key :: "pb_field_t \<Rightarrow> nat \<times> u32" where
  "array_key f = (PB_WT_STRING, of_nat (f_tag f))"

definition packed_bytes :: "pb_field_t \<Rightarrow> bytes list \<Rightarrow> bytes" where
  "packed_bytes f ms = varint (key_nat (array_key f)) @ delimited (items_bytes f ms)"

definition tag_ok :: "pb_field_t \<Rightarrow> bool" where
  "tag_ok f \<longleftrightarrow> 0 < f_tag f \<and> f_tag f < 2 ^ 29"

lemma unat_tag: "tag_ok f \<Longrightarrow> unat (of_nat (f_tag f) :: u32) = f_tag f"
  by (rule unat_of_nat_small) (simp add: tag_ok_def)

lemma tag_key_ok: "tag_ok f \<Longrightarrow> w < 8 \<Longrightarrow> key_ok (w, of_nat (f_tag f))"
  using unat_tag [of f] by (auto simp: key_ok_def tag_ok_def)

lemma array_items_put_all: "array_items func f os (map Some ms) = put_all (\<lambda>os m. func os f (Some m)) os ms"
  by (induction ms arbitrary: os) simp_all

lemma sizing_ok: "out_ok PB_OSTREAM_SIZING" "accepts PB_OSTREAM_SIZING n \<longleftrightarrow> n < size_max"
  by (simp_all add: out_ok_def accepts_def PB_OSTREAM_SIZING_def)

text \<open>The size in front of a packed array is the number of bytes behind it.\<close>

lemma fixed_items_bytes:
  "list_all (scalar_ok f) ms \<Longrightarrow> ltype f = PB_LTYPE_FIXED32 \<Longrightarrow> length (items_bytes f ms) = 4 * length ms"
  "list_all (scalar_ok f) ms \<Longrightarrow> ltype f = PB_LTYPE_FIXED64 \<Longrightarrow> length (items_bytes f ms) = 8 * length ms"
  by (induction ms) (simp_all add: items_bytes_def scalar_ok_def scalar_bytes_def ltypes)

lemma sizing_items:
  assumes codec: "scalar_coded f func dec"
    and ok: "list_all (scalar_ok f) ms" and len: "length (items_bytes f ms) < size_max"
  shows "array_items func f PB_OSTREAM_SIZING (map Some ms) =
    (Some (), PB_OSTREAM_SIZING\<lparr>bytes_written := length (items_bytes f ms)\<rparr>)"
proof -
  have "array_items func f PB_OSTREAM_SIZING (map Some ms) = (Some (), emit (items_bytes f ms) PB_OSTREAM_SIZING)"
    unfolding array_items_put_all using wire_codec.put_all_fits [OF codec [unfolded scalar_coded_def] sizing_ok(1) ok] len sizing_ok(2)
    by (simp add: items_bytes_def)
  then show ?thesis by (simp add: emit_def) (simp add: PB_OSTREAM_SIZING_def)
qed

lemma encode_array_packed:
  assumes codec: "scalar_coded f func dec"
    and pack: "ltype f \<le> PB_LTYPE_LAST_PACKABLE" and tag: "tag_ok f"
    and ms: "ms \<noteq> []" "list_all (scalar_ok f) ms" "length ms \<le> f_array_size f"
    and len: "length (items_bytes f ms) < 2 ^ 32"
    and os: "out_ok os" "os_callback os = Buf_write" "accepts os (length (packed_bytes f ms))"
  shows "encode_array os f (map Some ms) func = (Some (), emit (packed_bytes f ms) os)"
proof -
  let ?k = "varint (key_nat (array_key f))" and ?n = "varint (length (items_bytes f ms))" and ?b = "items_bytes f ms"
  have all: "accepts os (length ?k + (length ?n + length ?b))"
    using os(3) by (simp add: packed_bytes_def delimited_def)
  have k: "accepts os (length ?k)" and kn: "accepts os (length ?k + length ?n)"
    by (rule accepts_mono [OF all], simp)+
  have key: "pb_encode_tag os PB_WT_STRING (of_nat (f_tag f)) = (Some (), emit ?k os)"
    using key_codec.put_fits [OF os(1) tag_key_ok [OF tag, of PB_WT_STRING]] k
    by (simp add: array_key_def wire_types)
  have small: "unat (of_nat (length ?b) :: u64) = length ?b"
    using len by (intro unat_of_nat_small) simp
  have size: "pb_encode_varint (emit ?k os) (of_nat (length ?b)) = (Some (), emit (?k @ ?n) os)"
    using varint_codec.put_fits [of "emit ?k os" "of_nat (length ?b)"] os(1) k kn by (simp add: small)
  have items: "array_items func f (emit (?k @ ?n) os) (map Some ms) = (Some (), emit (?k @ ?n @ ?b) os)"
    unfolding array_items_put_all
    using wire_codec.put_all_fits [OF codec [unfolded scalar_coded_def] _ ms(2), of "emit (?k @ ?n) os"] os(1) kn all
    by (simp add: items_bytes_def add.assoc)
  have "ltype f = PB_LTYPE_FIXED32 \<Longrightarrow> 4 * length ms mod size_max = length ?b"
    "ltype f = PB_LTYPE_FIXED64 \<Longrightarrow> 8 * length ms mod size_max = length ?b"
    using fixed_items_bytes [OF ms(2)] len by auto
  then have "(if ltype f = PB_LTYPE_FIXED32 then Some (4 * length ms mod size_max)
         else if ltype f = PB_LTYPE_FIXED64 then Some (8 * length ms mod size_max)
         else case array_items func f PB_OSTREAM_SIZING (map Some ms) of
                (None, _) \<Rightarrow> None
              | (Some _, sizestream) \<Rightarrow> Some (bytes_written sizestream)) = Some (length ?b)"
    using sizing_items [OF codec ms(2)] len by simp
  then show ?thesis
    using ms(1,3) pack os(2)
    by (simp add: encode_array_def Let_def key size items packed_bytes_def delimited_def)
qed

lemma packed_loop_items:
  assumes codec: "scalar_coded f func dec"
    and pack: "ltype f \<le> PB_LTYPE_LAST_PACKABLE"
  shows "stream_ok s \<Longrightarrow> view s = items_bytes f ms \<Longrightarrow> list_all (scalar_ok f) ms \<Longrightarrow>
    length items + length ms \<le> f_array_size f \<Longrightarrow>
    packed_loop dec f s items = (True, items @ ms, advance (length (items_bytes f ms)) s)"
proof (induction ms arbitrary: s items)
  case Nil
  then show ?case
    using length_view [of s] by (subst packed_loop.simps) simp
next
  case (Cons m ms)
  have v: "view s = scalar_bytes f m @ items_bytes f ms" using Cons.prems by simp
  have "scalar_bytes f m \<noteq> []" using Cons.prems(3) by (intro scalar_bytes_nonempty [OF pack]) simp
  then have "0 < length (view s)" unfolding v by simp
  then have left: "0 < bytes_left s" unfolding length_view [OF Cons.prems(1)] .
  have step: "dec s f = (Some m, advance (length (scalar_bytes f m)) s)"
    using wire_codec.get_put [OF codec [unfolded scalar_coded_def] Cons.prems(1) _ v] Cons.prems(3) by simp
  have "packed_loop dec f (advance (length (scalar_bytes f m)) s) (items @ [m]) =
      (True, (items @ [m]) @ ms, advance (length (items_bytes f ms)) (advance (length (scalar_bytes f m)) s))"
    using Cons.prems by (intro Cons.IH) simp_all
  then show ?case
    using left Cons.prems(4) by (subst packed_loop.simps) (simp add: step)
qed

lemma decode_packed:
  assumes codec: "scalar_coded f func dec"
    and pack: "ltype f \<le> PB_LTYPE_LAST_PACKABLE"
    and ms: "list_all (scalar_ok f) ms" "length ms \<le> f_array_size f" and len: "length (items_bytes f ms) < 2 ^ 32"
    and s: "stream_ok s" "view s = delimited (items_bytes f ms) @ r"
  shows "\<exists>t. decode_packed_array dec s f [] = (Some ms, t) \<and> view t = r"
proof -
  let ?b = "items_bytes f ms" and ?h = "length (varint (length (items_bytes f ms)))"
  note get = get_delimited [OF s(1) len s(2)]
  have n: "unat (of_nat (length ?b) :: u32) = length ?b" using len by (intro unat_of_nat_small) simp
  let ?t = "advance ?h s"
  let ?sub = "?t\<lparr>bytes_left := length ?b\<rparr>" and ?parent = "?t\<lparr>bytes_left := bytes_left ?t - length ?b\<rparr>"
  have make: "pb_make_string_substream s = (Some ?sub, ?parent)"
    using get(1,3) by (simp add: pb_make_string_substream_def n Let_def)
  have vt: "view ?t = ?b @ r" using s by (simp add: delimited_def)
  have sub: "stream_ok ?sub" by (rule make_substream_view(1) [OF s(1) make])
  have "view ?sub = take (length ?b) (view ?t)"
    using get(3) by (simp add: view_def min_def)
  then have "view ?sub = ?b" unfolding vt by simp
  from packed_loop_items [OF codec pack sub this ms(1), of "[]"] ms(2)
  have loop: "packed_loop dec f ?sub [] = (True, ms, advance (length ?b) ?sub)" by simp
  have "within ?sub (advance (length ?b) ?sub)" by simp
  from close_substream [OF s(1) make this] obtain u where u: "within s u" "pb_skip_string s = (Some (), u)"
    "pb_close_string_substream ?parent (advance (length ?b) ?sub) =
      (Some (), u\<lparr>is_errmsg := is_errmsg (advance (length ?b) ?sub)\<rparr>)"
    by blast
  have "u = advance (length (delimited ?b)) s"
    using u(2) get(1,2) n by (simp add: pb_skip_string_def)
  then have "view u = r" using s(2) by simp
  then show ?thesis
    using make loop u(3) by (simp add: decode_packed_array_def)
qed

lemma decode_tag_key:
  assumes "stream_ok s" and "key_ok k" and "view s = varint (key_nat k) @ r"
  shows "pb_decode_tag s = (Some k, False, advance (length (varint (key_nat k))) s)"
proof -
  have "\<not> e" if "pb_decode_tag s = (Some k, e, t)" for e t
    using that by (auto simp: pb_decode_tag_def pb_decode_varint32_eof_def split: prod.splits option.splits if_splits)
  then show ?thesis
    using get_key_varint [OF assms] by (auto simp: get_key_def split: prod.splits)
qed

definition scalar_wire_type :: "pb_field_t \<Rightarrow> nat" where
  "scalar_wire_type f =
     (if ltype f = PB_LTYPE_FIXED32 then PB_WT_32BIT
      else if ltype f = PB_LTYPE_FIXED64 then PB_WT_64BIT else PB_WT_VARINT)"

lemma encode_tag_scalar:
  "ltype f \<le> PB_LTYPE_LAST_PACKABLE \<Longrightarrow>
    pb_encode_tag_for_field os f = pb_encode_tag os (scalar_wire_type f) (of_nat (f_tag f))"
  by (erule packable_cases) (simp_all add: pb_encode_tag_for_field_def scalar_wire_type_def Let_def ltypes)

lemma length_scalar_bytes: "ltype f \<le> PB_LTYPE_LAST_PACKABLE \<Longrightarrow> scalar_ok f m \<Longrightarrow> length (scalar_bytes f m) \<le> 10"
  by (erule packable_cases)
    (auto simp: scalar_ok_def scalar_bytes_def ltypes length_varint_u64)

lemma ostream_from_buffer_ok [simp]:
  "n < size_max \<Longrightarrow> out_ok (pb_ostream_from_buffer n)" "os_callback (pb_ostream_from_buffer n) = Buf_write"
  "accepts (pb_ostream_from_buffer n) k \<longleftrightarrow> k \<le> n"
  "os_state (emit bs (pb_ostream_from_buffer n)) = bs"
  by (simp_all add: out_ok_def accepts_def emit_def pb_ostream_from_buffer_def)

section \<open>Properties\<close>

text \<open>a scalar field of any packable type survives the wire: the key and the value that the
  encoder of its type writes into a buffer of 15 bytes or more are read back as the field number and as
  the same bytes of memory, and the reader stands right behind them.\<close>

theorem scalar_field_roundtrip:
  assumes "ltype f \<le> PB_LTYPE_LAST_PACKABLE" and "tag_ok f" and "scalar_ok f m"
    and "PB_ENCODERS e (ltype f) = Some func" and "PB_DECODERS g d (ltype f) = Some dec"
    and "15 \<le> n" and "n < size_max"
  shows "\<exists>os1 os2 s1 s2. pb_encode_tag_for_field (pb_ostream_from_buffer n) f = (Some (), os1) \<and>
    func os1 f (Some m) = (Some (), os2) \<and>
    pb_decode_tag (pb_istream_from_buffer (os_state os2 @ r) (length (os_state os2 @ r))) =
      (Some (scalar_wire_type f, of_nat (f_tag f)), False, s1) \<and>
    dec s1 f = (Some m, s2) \<and> view s2 = r"
proof -
  let ?k = "(scalar_wire_type f, of_nat (f_tag f))" and ?os = "pb_ostream_from_buffer n"
  let ?kb = "varint (key_nat ?k)" and ?mb = "scalar_bytes f m"
  let ?s = "pb_istream_from_buffer (?kb @ ?mb @ r) (length (?kb @ ?mb @ r))"
  note codec = scalar_codec [OF assms(1,4,5), unfolded scalar_coded_def]
  have key: "key_ok ?k" using assms(2) by (intro tag_key_ok) (auto simp: scalar_wire_type_def wire_types)
  have len: "length ?kb + length ?mb \<le> n"
    using length_varint_u32 [OF conjunct1 [OF key_nat_bound [OF key]]] length_scalar_bytes [OF assms(1,3)] assms(6)
    by simp
  have 1: "pb_encode_tag_for_field ?os f = (Some (), emit ?kb ?os)"
    using key_codec.put_fits [OF _ key, of ?os] len assms(7) by (simp add: encode_tag_scalar [OF assms(1)])
  have 2: "func (emit ?kb ?os) f (Some m) = (Some (), emit (?kb @ ?mb) ?os)"
    using wire_codec.put_fits [OF codec _ assms(3), of "emit ?kb ?os"] len assms(7) by simp
  have 3: "pb_decode_tag ?s = (Some ?k, False, advance (length ?kb) ?s)"
    by (rule decode_tag_key [OF from_buffer_ok [OF refl] key view_from_buffer [OF refl]])
  have 4: "dec (advance (length ?kb) ?s) f = (Some m, advance (length ?mb) (advance (length ?kb) ?s))"
    by (rule wire_codec.get_put [OF codec _ assms(3)]) simp_all
  show ?thesis
    by (rule exI [of _ "emit ?kb ?os"], rule exI [of _ "emit (?kb @ ?mb) ?os"],
        rule exI [of _ "advance (length ?kb) ?s"], rule exI [of _ "advance (length ?mb) (advance (length ?kb) ?s)"])
      (use 1 2 3 4 in simp)
qed

definition int32_field :: pb_field_t where
  "int32_field = pb_field 1 (PB_LTYPE_SVARINT OR PB_HTYPE_REQUIRED) 0 0 4 0 PtrNull"

lemma int32_field_ok: "PB_LTYPE (f_type int32_field) = PB_LTYPE_SVARINT" "tag_ok int32_field"
  by (simp_all add: int32_field_def PB_LTYPE_def ltypes PB_HTYPE_REQUIRED_def tag_ok_def)

lemma scalar_field_roundtrip_witness:
  "\<exists>os1 os2 s1 s2. pb_encode_tag_for_field (pb_ostream_from_buffer 20) int32_field = (Some (), os1) \<and>
    pb_enc_svarint os1 int32_field [0xFE, 0xFF, 0xFF, 0xFF] = (Some (), os2) \<and>
    pb_decode_tag (pb_istream_from_buffer (os_state os2 @ [7]) (length (os_state os2 @ [7]))) =
      (Some (PB_WT_VARINT, 1), False, s1) \<and>
    pb_dec_svarint s1 int32_field = (Some [0xFE, 0xFF, 0xFF, 0xFF], s2) \<and> view s2 = [7]"
  using scalar_field_roundtrip [of int32_field "[0xFE, 0xFF, 0xFF, 0xFF]" "\<lambda>os f src. (None, os)" _ "\<lambda>_. True"
      "\<lambda>s f. (None, s)" pb_dec_svarint 20 "[7]"]
  by (simp add: int32_field_ok PB_ENCODERS_def PB_DECODERS_def scalar_ok_def int_ok_def scalar_wire_type_def ltypes)
    (simp add: int32_field_def)

text \<open>C5: a packed array that fits its buffer is written with a correct length prefix, and the decoder
  of the packed branch gets all of its entries back and stands right behind the array.\<close>

theorem packed_array_roundtrip:
  assumes "ltype f \<le> PB_LTYPE_LAST_PACKABLE" and "tag_ok f"
    and "PB_ENCODERS e (ltype f) = Some func" and "PB_DECODERS g d (ltype f) = Some dec"
    and "ms \<noteq> []" and "list_all (scalar_ok f) ms" and "length ms \<le> f_array_size f"
    and "length (items_bytes f ms) < 2 ^ 32" and "length (packed_bytes f ms) \<le> n" and "n < size_max"
  shows "\<exists>os s1 s2. encode_array (pb_ostream_from_buffer n) f (map Some ms) func = (Some (), os) \<and>
    bytes_written os = length (os_state os) \<and>
    pb_decode_tag (pb_istream_from_buffer (os_state os @ r) (length (os_state os @ r))) =
      (Some (PB_WT_STRING, of_nat (f_tag f)), False, s1) \<and>
    decode_packed_array dec s1 f [] = (Some ms, s2) \<and> view s2 = r"
proof -
  let ?os = "pb_ostream_from_buffer n" and ?kb = "varint (key_nat (array_key f))" and ?d = "delimited (items_bytes f ms)"
  let ?s = "pb_istream_from_buffer (?kb @ ?d @ r) (length (?kb @ ?d @ r))"
  note codec = scalar_codec [OF assms(1,3,4)]
  have key: "key_ok (array_key f)" unfolding array_key_def using assms(2) by (intro tag_key_ok) (simp_all add: wire_types)
  have 1: "encode_array ?os f (map Some ms) func = (Some (), emit (packed_bytes f ms) ?os)"
    using assms(9,10) by (intro encode_array_packed [OF codec assms(1,2,5-8)]) simp_all
  have 2: "pb_decode_tag ?s = (Some (array_key f), False, advance (length ?kb) ?s)"
    by (rule decode_tag_key [OF from_buffer_ok [OF refl] key view_from_buffer [OF refl]])
  obtain t where t: "decode_packed_array dec (advance (length ?kb) ?s) f [] = (Some ms, t)" "view t = r"
    using decode_packed [OF codec assms(1,6-8), of "advance (length ?kb) ?s" r] by auto
  have 3: "bytes_written (emit (packed_bytes f ms) ?os) = length (packed_bytes f ms)"
    by (simp add: emit_def pb_ostream_from_buffer_def)
  have 4: "packed_bytes f ms @ r = ?kb @ ?d @ r" by (simp add: packed_bytes_def)
  show ?thesis
    by (rule exI [of _ "emit (packed_bytes f ms) ?os"], rule exI [of _ "advance (length ?kb) ?s"], rule exI [of _ t])
      (use 1 2 3 t in \<open>simp add: 4, simp add: array_key_def\<close>)
qed

definition fixed32_array :: pb_field_t where
  "fixed32_array = pb_field 3 (PB_LTYPE_FIXED32 OR PB_HTYPE_REPEATED) 0 0 4 8 PtrNull"

lemma packed_array_roundtrip_witness:
  "\<exists>os s1 s2. encode_array (pb_ostream_from_buffer 32) fixed32_array (map Some [[1, 2, 3, 4], [5, 6, 7, 8]])
      (\<lambda>os f src. pb_enc_fixed32 os f (the src)) = (Some (), os) \<and>
    bytes_written os = length (os_state os) \<and>
    pb_decode_tag (pb_istream_from_buffer (os_state os @ [9]) (length (os_state os @ [9]))) =
      (Some (PB_WT_STRING, 3), False, s1) \<and>
    decode_packed_array pb_dec_fixed32 s1 fixed32_array [] = (Some [[1, 2, 3, 4], [5, 6, 7, 8]], s2) \<and> view s2 = [9]"
proof -
  have f: "ltype fixed32_array = PB_LTYPE_FIXED32" "tag_ok fixed32_array" "f_tag fixed32_array = 3" "f_array_size fixed32_array = 8"
    by (simp_all add: fixed32_array_def PB_LTYPE_def ltypes PB_HTYPE_REPEATED_def tag_ok_def)
  let ?ms = "[[1, 2, 3, 4], [5, 6, 7, 8]] :: bytes list"
  have ok: "list_all (scalar_ok fixed32_array) ?ms" by (simp add: scalar_ok_def f ltypes)
  have len: "length (items_bytes fixed32_array ?ms) = 8" using fixed_items_bytes(1) [OF ok f(1)] by simp
  have "length (packed_bytes fixed32_array ?ms) = 10"
    by (simp add: packed_bytes_def delimited_def len del: items_bytes_simps) (simp add: array_key_def f key_nat_def wire_types varint_small)
  then show ?thesis
    using packed_array_roundtrip [of fixed32_array "\<lambda>os f src. (None, os)" "\<lambda>os f src. pb_enc_fixed32 os f (the src)"
        "\<lambda>_. True" "\<lambda>s f. (None, s)" pb_dec_fixed32 ?ms 32 "[9]"] ok len f
    by (simp add: PB_ENCODERS_def PB_DECODERS_def ltypes)
qed

end
