(* ===== verification/PbLimits.thy ===== *)
theory PbLimits
  imports PbArray
begin

text \<open>
  The two readers of varints compared, strings, delimited substreams, and the limits of both
  kinds of streams, which hold for any input.
\<close>

section \<open>Varints\<close>

text \<open>\<open>pb_decode_varint\<close> reads the base-128 number in front of the stream, least significant
  group first and modulo \<open>2 ^ 64\<close>, when it ends within ten bytes and within the limit of the stream;
  otherwise it reports an error.\<close>

theorem pb_decode_varint_correct:
  assumes "stream_ok s" and "varint_length (view s) = n"
  shows "if n \<le> 10 \<and> n \<le> bytes_left s
    then pb_decode_varint s = (Some (of_nat (le128 (take n (view s)))), advance n s)
    else fst (pb_decode_varint s) = None"
  using pb_decode_varint_buf [OF assms(1)] assms(2) by auto

lemma small_stream:
  "view (pb_istream_from_buffer [0xAC, 2, 0xFF] 3) = [0xAC, 2, 0xFF]"
  "varint_length [0xAC, 2, 0xFF] = 2" "le128 [0xAC, 2] = 300"
  by (simp_all add: varint_length_Cons cont_def)

lemma pb_decode_varint_correct_witness:
  "pb_decode_varint (pb_istream_from_buffer [0xAC, 2, 0xFF] 3) =
    (Some 300, advance 2 (pb_istream_from_buffer [0xAC, 2, 0xFF] 3))"
  using pb_decode_varint_correct [of "pb_istream_from_buffer [0xAC, 2, 0xFF] 3" 2] small_stream by simp

text \<open>where a varint takes at most five bytes, the 32-bit reader agrees with the 64-bit one and
  consumes the same bytes, except that a number of \<open>2 ^ 32\<close> or more is an error.\<close>

theorem pb_decode_varint32_agrees:
  assumes "stream_ok s" and "varint_length (view s) \<le> 5" and "pb_decode_varint s = (Some v, t)"
  shows "if unat v < 2 ^ 32 then pb_decode_varint32 s = (Some (ucast v), t)
    else fst (pb_decode_varint32 s) = None"
proof -
  let ?n = "le128 (take (varint_length (view s)) (view s))"
  have len: "varint_length (view s) \<le> bytes_left s"
    using assms pb_decode_varint_buf(2) [OF assms(1)] by force
  then have v: "v = of_nat ?n" "t = advance (varint_length (view s)) s"
    using assms pb_decode_varint_buf(1) [OF assms(1)] by auto
  have "?n < 128 ^ length (take (varint_length (view s)) (view s))" by (rule le128_bound)
  also have "\<dots> \<le> 128 ^ 5" using assms(2) by (intro power_increasing) auto
  finally have u: "unat v = ?n" unfolding v by (intro unat_of_nat_small) simp
  have "ucast v = (of_nat (unat v) :: u32)" by simp
  then have "ucast v = (of_nat ?n :: u32)" by (simp only: u)
  then show ?thesis
    using pb_decode_varint32_buf [OF assms(1,2) len] v(2) u by simp
qed

lemma pb_decode_varint32_agrees_witness:
  "pb_decode_varint32 (pb_istream_from_buffer [0xAC, 2, 0xFF] 3) =
    (Some 300, advance 2 (pb_istream_from_buffer [0xAC, 2, 0xFF] 3))"
proof -
  let ?s = "pb_istream_from_buffer [0xAC, 2, 0xFF] 3"
  have "pb_decode_varint ?s = (Some 300, advance 2 ?s)"
    using pb_decode_varint_buf(1) [of ?s] small_stream by simp
  then show ?thesis
    using pb_decode_varint32_agrees [of ?s 300 "advance 2 ?s"] small_stream by simp
qed

lemma varint32_padding:
  "stream_ok s \<Longrightarrow> take k (view s) = replicate k 0x80 \<Longrightarrow> b < 256 \<Longrightarrow>
    varint32_loop s b r = varint32_loop (advance k s) ((b + 7 * k) mod 256) r"
proof (induction k arbitrary: s b)
  case 0
  then show ?case by simp
next
  case (Suc k)
  then obtain v where v: "view s = 0x80 # v" "take k v = replicate k 0x80"
    by (cases "view s") auto
  have "varint32_loop s b r = varint32_loop (advance 1 s) ((b + 7) mod 256) r"
    by (subst varint32_loop.simps) (use Suc.prems(1) v in \<open>simp add: pb_readbyte_buf Let_def\<close>)
  also have "\<dots> = varint32_loop (advance k (advance 1 s)) (((b + 7) mod 256 + 7 * k) mod 256) r"
    using Suc.prems v by (intro Suc.IH) simp_all
  also have "((b + 7) mod 256 + 7 * k) mod 256 = (b + 7 * Suc k) mod 256"
    by (simp only: mod_add_left_eq) (simp add: add.assoc)
  finally show ?case by simp
qed

text \<open>C36: the 32-bit reader has no bound on the length of a varint, and its 8-bit position wraps: 37
  bytes of padding bring it back to bit 3, where the next group lands in the result again. The 64-bit
  reader reports an overflow.\<close>

theorem varint32_position_wraps:
  "fst (pb_decode_varint32 (pb_istream_from_buffer (replicate 37 0x80 @ [1]) 38)) = Some 8 \<and>
   fst (pb_decode_varint (pb_istream_from_buffer (replicate 37 0x80 @ [1]) 38)) = None"
proof
  let ?v = "replicate 37 0x80 @ [1] :: bytes" and ?s = "pb_istream_from_buffer (replicate 37 0x80 @ [1]) 38"
  have s: "stream_ok ?s" "view ?s = ?v" by simp_all
  have v: "?v = 0x80 # replicate 36 0x80 @ [1]" using replicate_Suc [of 36 "0x80 :: u8"] by simp
  have "varint32_loop (advance 1 ?s) 7 0 = varint32_loop (advance 36 (advance 1 ?s)) ((7 + 7 * 36) mod 256) 0"
    using s by (intro varint32_padding) simp_all
  also have "\<dots> = varint32_loop (advance 37 ?s) 3 0" by simp
  also have "\<dots> = (Some (8, 10, 1), advance 38 ?s)"
    by (subst varint32_loop.simps) (use s in \<open>simp add: pb_readbyte_buf Let_def\<close>)
  finally have loop: "varint32_loop (advance 1 ?s) 7 0 = (Some (8, 10, 1), advance 38 ?s)" .
  have "pb_readbyte ?s = (Some 0x80, advance 1 ?s)" using s v by (simp add: pb_readbyte_buf)
  then show "fst (pb_decode_varint32 ?s) = Some 8"
    using loop by (simp add: pb_decode_varint32_def pb_decode_varint32_eof_def)
  have "varint_length ?v = 38" by (simp add: varint_length_def takeWhile_append cont_def)
  then show "fst (pb_decode_varint ?s) = None"
    using pb_decode_varint_buf(2) [OF s(1)] s(2) by simp
qed

section \<open>Strings\<close>

text \<open>a string field round trips: a null-terminated string that fits its member is written as a
  length and its characters, without the terminator, and is read back with the terminator restored.\<close>

theorem string_field_roundtrip:
  assumes "string_ok realloc_ok f m" and "length (delimited (butlast m)) \<le> n" and "n < size_max"
  shows "\<exists>os t. pb_enc_string (pb_ostream_from_buffer n) f (Some m) = (Some (), os) \<and>
    os_state os = delimited (butlast m) \<and>
    pb_dec_string realloc_ok (pb_istream_from_buffer (os_state os @ r) (length (os_state os @ r))) f = (Some m, t) \<and>
    view t = r"
proof -
  let ?d = "delimited (butlast m)" and ?os = "pb_ostream_from_buffer n"
  let ?s = "pb_istream_from_buffer (?d @ r) (length (?d @ r))"
  have 1: "pb_enc_string ?os f (Some m) = (Some (), emit ?d ?os)"
    using string_field.put_fits [OF _ assms(1), of ?os] assms by simp
  have 2: "pb_dec_string realloc_ok ?s f = (Some m, advance (length ?d) ?s)"
    using string_field.get_put [OF _ assms(1), of ?s r] by simp
  show ?thesis
    by (rule exI [of _ "emit ?d ?os"], rule exI [of _ "advance (length ?d) ?s"]) (use 1 2 in simp)
qed

definition string_field_8 :: pb_field_t where
  "string_field_8 = pb_field 2 (PB_LTYPE_STRING OR PB_HTYPE_REQUIRED) 0 0 8 0 PtrNull"

lemma string_field_roundtrip_witness:
  "\<exists>os t. pb_enc_string (pb_ostream_from_buffer 16) string_field_8 (Some [0x68, 0x69, 0]) = (Some (), os) \<and>
    os_state os = [2, 0x68, 0x69] \<and>
    pb_dec_string (\<lambda>_. False) (pb_istream_from_buffer (os_state os @ [5]) (length (os_state os @ [5]))) string_field_8 =
      (Some [0x68, 0x69, 0], t) \<and> view t = [5]"
  using string_field_roundtrip [of "\<lambda>_. False" string_field_8 "[0x68, 0x69, 0]" 16 "[5]"]
  by (simp add: string_ok_def string_field_8_def PB_ATYPE_def ltypes PB_HTYPE_REQUIRED_def PB_ATYPE_POINTER_def
      delimited_def varint_small)

section \<open>Substreams\<close>

text \<open>C24: a delimited value is isolated: whatever its reader does inside the substream, closing it
  leaves the parent stream exactly where skipping the field would have left it.\<close>

theorem pb_substream_isolated:
  assumes "stream_ok s" and "pb_make_string_substream s = (Some sub, parent)" and "within sub sub'"
  shows "\<exists>u. pb_skip_string s = (Some (), u) \<and>
    pb_close_string_substream parent sub' = (Some (), u\<lparr>is_errmsg := is_errmsg sub'\<rparr>) \<and>
    bytes_left sub \<le> bytes_left s"
  using close_substream [OF assms] make_substream_view(2) [OF assms(1,2)] by blast

lemma pb_substream_isolated_witness:
  "\<exists>sub parent sub' u. pb_make_string_substream (pb_istream_from_buffer [2, 7, 8, 9] 4) = (Some sub, parent) \<and>
    pb_decode_varint sub = (Some 7, sub') \<and>
    pb_close_string_substream parent sub' = (Some (), u) \<and> view u = [9]"
proof -
  let ?s = "pb_istream_from_buffer [2, 7, 8, 9] 4"
  have ok: "stream_ok ?s" by simp
  have d: "pb_decode_varint32 ?s = (Some 2, advance 1 ?s)"
    using get_varint32 [OF ok, of 2 "[7, 8, 9]"] by (simp add: varint_small)
  have b: "bytes_left ?s = 4" by (simp add: pb_istream_from_buffer_def)
  let ?sub = "(advance 1 ?s)\<lparr>bytes_left := 2\<rparr>" and ?parent = "(advance 1 ?s)\<lparr>bytes_left := 1\<rparr>"
  have make: "pb_make_string_substream ?s = (Some ?sub, ?parent)"
    using b by (simp add: pb_make_string_substream_def d Let_def)
  have sub: "stream_ok ?sub" "view ?sub = varint (unat (7 :: u64)) @ [8]"
    by (simp_all add: stream_ok_def view_def advance_def pb_istream_from_buffer_def varint_small)
  have get: "pb_decode_varint ?sub = (Some 7, advance 1 ?sub)"
    using get_varint [OF sub] by (simp add: varint_small)
  have "pb_skip_string ?s = (Some (), advance 3 ?s)"
    using b by (simp add: pb_skip_string_def d pb_read_buf numeral_3_eq_3)
  moreover have "within ?sub (advance 1 ?sub)" by simp
  ultimately have "pb_close_string_substream ?parent (advance 1 ?sub) =
      (Some (), (advance 3 ?s)\<lparr>is_errmsg := is_errmsg (advance 1 ?sub)\<rparr>)"
    using pb_substream_isolated [OF ok make] by fastforce
  moreover have "view ((advance 3 ?s)\<lparr>is_errmsg := is_errmsg (advance 1 ?sub)\<rparr>) = [9]"
    by simp
  ultimately show ?thesis using make get by blast
qed

section \<open>Limits\<close>

text \<open>C25: on a stream over memory no reader, whatever the input, takes a byte beyond the limit of its
  stream: each leaves the stream further on inside the same limit, on success and on failure.\<close>

theorem pb_reads_within_limit:
  assumes "stream_ok s"
  shows "\<forall>s' \<in> {snd (pb_decode_varint s), snd (pb_decode_varint32 s), snd (snd (pb_decode_tag s)),
      snd (pb_skip_field s w), snd (read_raw_value s w m), snd (pb_dec_bool s),
      snd (pb_dec_varint s f), snd (pb_dec_uvarint s f), snd (pb_dec_svarint s f),
      snd (pb_dec_fixed32 s f), snd (pb_dec_fixed64 s f),
      snd (pb_dec_bytes g s f), snd (pb_dec_string g s f), snd (pb_dec_fixed_length_bytes s f)}.
    stream_ok s' \<and> bytes_left s' \<le> bytes_left s \<and> view s' = drop (bytes_left s - bytes_left s') (view s)"
proof -
  have "stream_ok s' \<and> bytes_left s' \<le> bytes_left s \<and> view s' = drop (bytes_left s - bytes_left s') (view s)"
    if "within s s'" for s'
    using that assms by (auto simp: within_def)
  moreover note within_varint [OF assms] within_varint32 [OF assms] within_tag [OF assms]
    within_skip_field [OF assms] within_raw_value [OF assms] within_dec_bool [OF assms]
    within_dec_ints [OF assms] within_dec_blobs [OF assms]
  ultimately show ?thesis by blast
qed

lemma pb_reads_within_limit_witness:
  "bytes_left (snd (pb_skip_field (pb_istream_from_buffer [9, 1] 2) PB_WT_STRING)) \<le> 2"
  using pb_reads_within_limit [of "pb_istream_from_buffer [9, 1] 2" PB_WT_STRING 10 int32_field "\<lambda>_. True"]
  by simp

end
