(* ===== verification/PbMemory.thy ===== *)
theory PbMemory
  imports PbFields
begin

text \<open>
  The memory that the message codec of nanopb works on: structs, the heap, and what the program provides besides
  (descriptor arrays, callbacks, extension types). Addresses are integers, 0 is the null pointer; numbers are stored in
  the little-endian order of the targets, pointers take eight bytes.
\<close>

section \<open>Memory\<close>

record pb_store =
  bytes_at :: "int \<Rightarrow> u8"
  blocks :: "int \<rightharpoonup> nat"

definition load :: "nat \<Rightarrow> int \<Rightarrow> pb_store \<Rightarrow> bytes" where
  "load n a m = map (\<lambda>i. bytes_at m (a + int i)) [0..<n]"

definition store :: "int \<Rightarrow> bytes \<Rightarrow> pb_store \<Rightarrow> pb_store" where
  "store a bs m = m\<lparr>bytes_at := \<lambda>x. if a \<le> x \<and> x < a + int (length bs) then bs ! nat (x - a) else bytes_at m x\<rparr>"

definition load_size :: "int \<Rightarrow> pb_store \<Rightarrow> nat" where
  "load_size a m = unat (load_unsigned (load 4 a m))"

definition store_size :: "int \<Rightarrow> nat \<Rightarrow> pb_store \<Rightarrow> pb_store" where
  "store_size a n = store a (store_int 4 (of_nat n))"

definition load_ptr :: "int \<Rightarrow> pb_store \<Rightarrow> int" where
  "load_ptr a m = uint (load_unsigned (load 8 a m))"

definition store_ptr :: "int \<Rightarrow> int \<Rightarrow> pb_store \<Rightarrow> pb_store" where
  "store_ptr a p = store a (store_int 8 (word_of_int p))"

definition load_bool :: "int \<Rightarrow> pb_store \<Rightarrow> bool" where
  "load_bool a m = safe_read_bool (load 1 a m)"

definition store_bool :: "int \<Rightarrow> bool \<Rightarrow> pb_store \<Rightarrow> pb_store" where
  "store_bool a b = store a [if b then 1 else 0]"

section \<open>What the program provides\<close>

text \<open>
  A callback of the application is a function of what it is given; the encoding callbacks get the memory to read, the
  decoding ones may also write it. A null function pointer of an extension type is \<open>None\<close>; its \<open>arg\<close> is the
  descriptor of the extension field. \<open>alloc\<close> is the address the C library's allocator returns for a size, \<open>None\<close> for
  null; \<open>frame\<close> is where the local variable \<open>fixed_count_size\<close> of an activation of \<open>pb_decode_noinit\<close> lives.
\<close>

type_synonym ('a, 's) run = "('a, 's) cres option"

type_synonym pb_dec_state = "pb_istream_t \<times> pb_store"

record pb_extension_type_t =
  ext_decode :: "(pb_istream_t \<Rightarrow> int \<Rightarrow> nat \<Rightarrow> nat \<Rightarrow> pb_store \<Rightarrow> (unit, pb_dec_state) cres) option"
  ext_encode :: "(pb_ostream_t \<Rightarrow> int \<Rightarrow> pb_store \<Rightarrow> (unit, pb_ostream_t) cres) option"
  ext_arg :: "pb_field_t list"

record pb_program =
  msgs :: "nat \<Rightarrow> pb_field_t list"
  ext_types :: "int \<Rightarrow> pb_extension_type_t"
  decode_fn :: "int \<Rightarrow> pb_istream_t \<Rightarrow> pb_field_t \<Rightarrow> int \<Rightarrow> pb_store \<Rightarrow> (unit, pb_dec_state) cres"
  encode_fn :: "int \<Rightarrow> pb_ostream_t \<Rightarrow> pb_field_t \<Rightarrow> int \<Rightarrow> pb_store \<Rightarrow> (unit, pb_ostream_t) cres"
  alloc :: "pb_store \<Rightarrow> nat \<Rightarrow> int option"
  frame :: "nat \<Rightarrow> int"

text \<open>The descriptor array that a descriptor of a submessage points to, \<open>None\<close> for null.\<close>

definition submsg_fields :: "pb_program \<Rightarrow> pb_field_t \<Rightarrow> pb_field_t list option" where
  "submsg_fields prog field = (case f_ptr field of PtrFields i \<Rightarrow> Some (msgs prog i) | _ \<Rightarrow> None)"

text \<open>The members of \<open>pb_extension_t\<close> and \<open>pb_callback_t\<close>.\<close>

definition extension_type :: "pb_program \<Rightarrow> int \<Rightarrow> pb_store \<Rightarrow> pb_extension_type_t" where
  "extension_type prog ext m = ext_types prog (load_ptr ext m)"

abbreviation extension_dest :: "int \<Rightarrow> int" where "extension_dest ext \<equiv> ext + 8"
abbreviation extension_next :: "int \<Rightarrow> int" where "extension_next ext \<equiv> ext + 16"
abbreviation extension_found :: "int \<Rightarrow> int" where "extension_found ext \<equiv> ext + 24"
abbreviation callback_arg :: "int \<Rightarrow> int" where "callback_arg cb \<equiv> cb + 8"

section \<open>Outcomes\<close>

text \<open>
  The message functions recurse through memory and call the application, so a run may have no outcome: \<open>None\<close> stands
  for a bound that was not enough (and for a call of a null entry of the tables of encoders and decoders).
\<close>

definition rbind :: "('a, 's) run \<Rightarrow> ('a \<Rightarrow> 's \<Rightarrow> ('b, 's) run) \<Rightarrow> ('b, 's) run" where
  "rbind r k = (case r of None \<Rightarrow> None | Some (None, s) \<Rightarrow> Some (None, s) | Some (Some x, s) \<Rightarrow> k x s)"

named_theorems run_simps

lemma rbind_simps [simp, run_simps]:
  "rbind None k = None" "rbind (Some (None, s)) k = Some (None, s)" "rbind (Some (Some x, s)) k = k x s"
  by (simp_all add: rbind_def)

lemma rbind_assoc: "rbind (rbind r f) g = rbind r (\<lambda>x s. rbind (f x s) g)"
  by (auto simp: rbind_def split: option.splits prod.splits)

lemma rbind_eq_ok:
  "rbind r k = Some (Some y, s') \<longleftrightarrow> (\<exists>x s. r = Some (Some x, s) \<and> k x s = Some (Some y, s'))"
  by (auto simp: rbind_def split: option.splits prod.splits)

text \<open>A reader of a stream, in the state of the message decoder.\<close>

definition on_stream :: "('a, pb_istream_t) cres \<Rightarrow> pb_store \<Rightarrow> ('a, pb_dec_state) cres" where
  "on_stream r m = (case r of (x, s) \<Rightarrow> (x, (s, m)))"

lemma on_stream_simp [simp, run_simps]: "on_stream (x, s) m = (x, (s, m))"
  by (simp add: on_stream_def)

section \<open>The heap\<close>

definition pb_realloc :: "pb_program \<Rightarrow> int \<Rightarrow> nat \<Rightarrow> pb_store \<Rightarrow> int \<times> pb_store" where
  "pb_realloc prog ptr n m =
     (case alloc prog m n of
        None \<Rightarrow> (0, m)
      | Some p \<Rightarrow>
          let old = (case blocks m ptr of None \<Rightarrow> [] | Some k \<Rightarrow> load (min k n) ptr m)
          in (p, store p old (m\<lparr>blocks := (blocks m)(ptr := None, p \<mapsto> n)\<rparr>)))"

definition pb_free :: "int \<Rightarrow> pb_store \<Rightarrow> pb_store" where
  "pb_free p m = m\<lparr>blocks := (blocks m)(p := None)\<rparr>"

section \<open>Loads and stores\<close>

lemma length_load [simp]: "length (load n a m) = n"
  by (simp add: load_def)

lemma nth_load [simp]: "i < n \<Longrightarrow> load n a m ! i = bytes_at m (a + int i)"
  by (simp add: load_def)

lemma take_load: "k \<le> n \<Longrightarrow> take k (load n a m) = load k a m"
  by (simp add: load_def take_map)

lemma drop_load: "drop k (load n a m) = load (n - k) (a + int k) m"
  by (intro nth_equalityI) (simp_all add: add.assoc)

lemma load_store_same [simp]: "length bs = n \<Longrightarrow> load n a (store a bs m) = bs"
  by (intro nth_equalityI) (simp_all add: store_def)

text \<open>\<open>n\<close> bytes at \<open>a\<close> and \<open>k\<close> bytes at \<open>b\<close> do not overlap.\<close>

definition apart :: "int \<Rightarrow> nat \<Rightarrow> int \<Rightarrow> nat \<Rightarrow> bool" where
  "apart a n b k \<longleftrightarrow> a + int n \<le> b \<or> b + int k \<le> a"

lemma load_store_apart: "apart a n b (length bs) \<Longrightarrow> load n a (store b bs m) = load n a m"
  by (intro nth_equalityI) (auto simp: store_def apart_def)

lemma store_blocks [simp]: "blocks (store a bs m) = blocks m"
  by (simp add: store_def)

lemma bytes_at_store: "bytes_at (store a bs m) x = (if a \<le> x \<and> x < a + int (length bs) then bs ! nat (x - a) else bytes_at m x)"
  by (simp add: store_def)

lemma store_Nil [simp]: "store a [] m = m"
  by (cases m) (auto simp: store_def fun_eq_iff)

lemma store_unchanged: "store a (load n a m) m = m"
proof -
  have "bytes_at (store a (load n a m) m) = bytes_at m" by (auto simp: bytes_at_store fun_eq_iff)
  then show ?thesis by (simp add: store_def)
qed

end
