(* ===== verification/PbEncode.thy ===== *)
theory PbEncode
  imports PbMemory
begin

text \<open>
  The message encoder of \<^verbatim>\<open>nanopb/pb_encode.c\<close>: \<open>pb_encode\<close> walks over the descriptors of a message and encodes
  the struct at an address. Every function is a definition of its own; the recursion through submessages is a parameter
  \<open>rec\<close> of the functions below \<open>pb_encode\<close>, which ties the knot. The bound \<open>n\<close> counts the nesting of messages and
  the extensions in a row.
\<close>

type_synonym enc = "(unit, pb_ostream_t) run"
type_synonym rec_encode = "pb_ostream_t \<Rightarrow> pb_field_t list \<Rightarrow> int \<Rightarrow> enc"
type_synonym mem_encoder = "pb_ostream_t \<Rightarrow> pb_field_t \<Rightarrow> int \<Rightarrow> enc"

section \<open>The table of encoders on memory\<close>

text \<open>
  The memory that an encoder reads: the value, and for a pointer to a string the block the pointer refers to.
\<close>

definition source_size :: "pb_store \<Rightarrow> pb_field_t \<Rightarrow> int \<Rightarrow> nat" where
  "source_size m field src =
     (let ltype = PB_LTYPE (f_type field) in
      if ltype = PB_LTYPE_BOOL then 1
      else if ltype = PB_LTYPE_FIXED32 then 4
      else if ltype = PB_LTYPE_FIXED64 then 8
      else if ltype = PB_LTYPE_BYTES then 4 + load_size src m
      else if ltype = PB_LTYPE_STRING \<and> PB_ATYPE (f_type field) = PB_ATYPE_POINTER
           then (case blocks m src of None \<Rightarrow> 0 | Some k \<Rightarrow> k)
      else f_data_size field)"

definition enc_source :: "pb_store \<Rightarrow> pb_field_t \<Rightarrow> int \<Rightarrow> bytes option" where
  "enc_source m field src = (if src = 0 then None else Some (load (source_size m field src) src m))"

definition pb_encode_submessage :: "rec_encode \<Rightarrow> pb_ostream_t \<Rightarrow> pb_field_t list \<Rightarrow> int \<Rightarrow> enc" where
  "pb_encode_submessage rec stream flds src_struct =
     (case rec PB_OSTREAM_SIZING flds src_struct of
        None \<Rightarrow> None
      | Some (None, substream) \<Rightarrow> Some (None, stream\<lparr>os_errmsg := os_errmsg substream\<rparr>)
      | Some (Some _, substream) \<Rightarrow>
          let n = bytes_written substream
          in rbind (Some (pb_encode_varint stream (of_nat n))) (\<lambda>_ stream.
            if os_callback stream = Null_callback
            then Some (Some (), stream\<lparr>bytes_written := size_add (bytes_written stream) n\<rparr>)
            else if size_add (bytes_written stream) n > max_size stream
            then Some (OUT_RETURN_ERROR stream ''stream full'')
            else
              let substream = \<lparr>os_callback = os_callback stream, os_state = os_state stream, max_size = n,
                               bytes_written = 0, os_errmsg = None\<rparr>
              in case rec substream flds src_struct of
                   None \<Rightarrow> None
                 | Some (status, substream) \<Rightarrow>
                     let stream = stream\<lparr>bytes_written := size_add (bytes_written stream) (bytes_written substream),
                                         os_state := os_state substream, os_errmsg := os_errmsg substream\<rparr>
                     in if bytes_written substream \<noteq> n then Some (OUT_RETURN_ERROR stream ''submsg size changed'')
                        else Some (status, stream)))"

definition pb_enc_submessage :: "pb_program \<Rightarrow> rec_encode \<Rightarrow> mem_encoder" where
  "pb_enc_submessage prog rec stream field src =
     (case submsg_fields prog field of
        None \<Rightarrow> Some (OUT_RETURN_ERROR stream ''invalid field descriptor'')
      | Some flds \<Rightarrow> pb_encode_submessage rec stream flds src)"

definition encoder :: "pb_program \<Rightarrow> pb_store \<Rightarrow> rec_encode \<Rightarrow> u8 \<Rightarrow> mem_encoder" where
  "encoder prog m rec ltype stream field src =
     (if ltype = PB_LTYPE_SUBMESSAGE then pb_enc_submessage prog rec stream field src
      else case PB_ENCODERS (\<lambda>os f src. (None, os)) ltype of
             None \<Rightarrow> None
           | Some func \<Rightarrow> Some (func stream field (enc_source m field src)))"

section \<open>Arrays\<close>

fun array_items_at :: "mem_encoder \<Rightarrow> pb_field_t \<Rightarrow> pb_ostream_t \<Rightarrow> int \<Rightarrow> nat \<Rightarrow> enc" where
  "array_items_at func field stream p 0 = Some (Some (), stream)"
| "array_items_at func field stream p (Suc n) =
     rbind (func stream field p) (\<lambda>_ stream. array_items_at func field stream (p + int (f_data_size field)) n)"

fun array_tagged_at :: "pb_store \<Rightarrow> mem_encoder \<Rightarrow> pb_field_t \<Rightarrow> pb_ostream_t \<Rightarrow> int \<Rightarrow> nat \<Rightarrow> enc" where
  "array_tagged_at m func field stream p 0 = Some (Some (), stream)"
| "array_tagged_at m func field stream p (Suc n) =
     rbind (Some (pb_encode_tag_for_field stream field)) (\<lambda>_ stream.
     rbind (func stream field
             (if PB_ATYPE (f_type field) = PB_ATYPE_POINTER \<and>
                 PB_LTYPE (f_type field) \<in> {PB_LTYPE_STRING, PB_LTYPE_BYTES}
              then load_ptr p m else p)) (\<lambda>_ stream.
       array_tagged_at m func field stream (p + int (f_data_size field)) n))"

definition encode_array_at :: "pb_store \<Rightarrow> pb_ostream_t \<Rightarrow> pb_field_t \<Rightarrow> int \<Rightarrow> nat \<Rightarrow> mem_encoder \<Rightarrow> enc" where
  "encode_array_at m stream field data count func =
     (let ltype = PB_LTYPE (f_type field) in
      if count = 0 then Some (Some (), stream)
      else if PB_ATYPE (f_type field) \<noteq> PB_ATYPE_POINTER \<and> count > f_array_size field
      then Some (OUT_RETURN_ERROR stream ''array max size exceeded'')
      else if ltype \<le> PB_LTYPE_LAST_PACKABLE then
        rbind (Some (pb_encode_tag stream PB_WT_STRING (of_nat (f_tag field)))) (\<lambda>_ stream.
          case (if ltype = PB_LTYPE_FIXED32 then Some (Some (4 * count mod size_max))
                else if ltype = PB_LTYPE_FIXED64 then Some (Some (8 * count mod size_max))
                else case array_items_at func field PB_OSTREAM_SIZING data count of
                       None \<Rightarrow> None
                     | Some (None, _) \<Rightarrow> Some None
                     | Some (Some _, sizestream) \<Rightarrow> Some (Some (bytes_written sizestream))) of
            None \<Rightarrow> None
          | Some None \<Rightarrow> Some (None, stream)
          | Some (Some n) \<Rightarrow>
              rbind (Some (pb_encode_varint stream (of_nat n))) (\<lambda>_ stream.
                if os_callback stream = Null_callback
                then Some (Some (), stream\<lparr>bytes_written := size_add (bytes_written stream) n\<rparr>)
                else array_items_at func field stream data count))
      else array_tagged_at m func field stream data count)"

section \<open>The default values of proto3\<close>

text \<open>The do-while loop over a message: \<open>None\<close> when the bound runs out, \<open>Some False\<close> at the first field that is set.\<close>

fun defaults_loop :: "nat \<Rightarrow> (pb_field_t \<Rightarrow> int \<Rightarrow> bool option) \<Rightarrow> pb_field_iter_t \<Rightarrow> bool option" where
  "defaults_loop 0 check iter = None"
| "defaults_loop (Suc k) check iter =
     (case check (it_field iter) (pData iter) of
        None \<Rightarrow> None
      | Some False \<Rightarrow> Some False
      | Some True \<Rightarrow>
          (case pb_field_iter_next iter of
             (True, iter) \<Rightarrow> defaults_loop k check iter
           | (False, iter) \<Rightarrow> Some True))"

definition check_singular_default ::
    "pb_program \<Rightarrow> pb_store \<Rightarrow> (pb_field_t \<Rightarrow> int \<Rightarrow> bool option) \<Rightarrow> pb_field_t \<Rightarrow> int \<Rightarrow> bool option" where
  "check_singular_default prog m check field data =
     (let type = f_type field; ltype = PB_LTYPE type;
          catch_all = list_all (\<lambda>b. b = 0) (load (f_data_size field) data m) in
      if PB_ATYPE type = PB_ATYPE_STATIC \<and> ltype = PB_LTYPE_BYTES then Some (load_size data m = 0)
      else if PB_ATYPE type = PB_ATYPE_STATIC \<and> ltype = PB_LTYPE_STRING then Some (load 1 data m = [0])
      else if PB_ATYPE type = PB_ATYPE_STATIC \<and> ltype = PB_LTYPE_FIXED_LENGTH_BYTES then Some (f_data_size field = 0)
      else if PB_ATYPE type = PB_ATYPE_STATIC \<and> ltype = PB_LTYPE_SUBMESSAGE then
        (case submsg_fields prog field of
           None \<Rightarrow> None
         | Some flds \<Rightarrow>
             (case pb_field_iter_begin flds data of
                (False, iter) \<Rightarrow> Some True
              | (True, iter) \<Rightarrow> defaults_loop (length flds) check iter))
      else if PB_ATYPE type = PB_ATYPE_POINTER \<and> ltype > PB_LTYPE_LAST_PACKABLE then Some (load_ptr data m = 0)
      else Some catch_all)"

fun pb_check_proto3_default_value :: "nat \<Rightarrow> pb_program \<Rightarrow> pb_store \<Rightarrow> pb_field_t \<Rightarrow> int \<Rightarrow> bool option" where
  "pb_check_proto3_default_value 0 prog m field data = None"
| "pb_check_proto3_default_value (Suc n) prog m field data =
     (let type = f_type field; size_ptr = data + f_size_offset field;
          singular = check_singular_default prog m (pb_check_proto3_default_value n prog m) field data in
      if PB_HTYPE type = PB_HTYPE_REQUIRED then Some False
      else if PB_HTYPE type = PB_HTYPE_REPEATED then
        if f_size_offset field \<noteq> 0 then Some (load_size size_ptr m = 0)
        else if PB_ATYPE type = PB_ATYPE_STATIC then Some False
        else singular
      else if PB_HTYPE type = PB_HTYPE_ONEOF then Some (load_size size_ptr m = 0)
      else if PB_HTYPE type = PB_HTYPE_OPTIONAL \<and> f_size_offset field \<noteq> 0 then Some (\<not> load_bool size_ptr m)
      else singular)"

section \<open>Fields\<close>

text \<open>
  The two places \<open>pSize\<close> can point to: the struct, or the local variable \<open>implicit_has\<close>, which a pointer field
  overwrites. The reader of a \<open>pb_size_t\<close> would take it from behind a local \<open>bool\<close>: no outcome.
\<close>

definition encode_basic_field ::
    "pb_program \<Rightarrow> pb_store \<Rightarrow> nat \<Rightarrow> rec_encode \<Rightarrow> pb_ostream_t \<Rightarrow> pb_field_t \<Rightarrow> int \<Rightarrow> enc" where
  "encode_basic_field prog m n rec stream field data =
     (let type = f_type field; func = encoder prog m rec (PB_LTYPE type);
          size_ptr = (if f_size_offset field \<noteq> 0 then Some (data + f_size_offset field) else None) in
      case (if f_size_offset field = 0 \<and> PB_HTYPE type = PB_HTYPE_OPTIONAL
            then map_option Not (pb_check_proto3_default_value n prog m field data) else Some True) of
        None \<Rightarrow> None
      | Some implicit_has \<Rightarrow>
          let pointer = (PB_ATYPE type = PB_ATYPE_POINTER);
              data = (if pointer then load_ptr data m else data);
              implicit_has = (if pointer then data \<noteq> 0 else implicit_has)
          in
            if PB_HTYPE type = PB_HTYPE_REQUIRED then
              if data = 0 then Some (OUT_RETURN_ERROR stream ''missing required field'')
              else rbind (Some (pb_encode_tag_for_field stream field)) (\<lambda>_ stream. func stream field data)
            else if PB_HTYPE type = PB_HTYPE_OPTIONAL then
              if (case size_ptr of Some a \<Rightarrow> load_bool a m | None \<Rightarrow> implicit_has)
              then rbind (Some (pb_encode_tag_for_field stream field)) (\<lambda>_ stream. func stream field data)
              else Some (Some (), stream)
            else if PB_HTYPE type = PB_HTYPE_REPEATED then
              encode_array_at m stream field data
                (case size_ptr of Some a \<Rightarrow> load_size a m | None \<Rightarrow> f_array_size field) func
            else if PB_HTYPE type = PB_HTYPE_ONEOF then
              (case size_ptr of
                 None \<Rightarrow> None
               | Some a \<Rightarrow>
                   if load_size a m = f_tag field
                   then rbind (Some (pb_encode_tag_for_field stream field)) (\<lambda>_ stream. func stream field data)
                   else Some (Some (), stream))
            else Some (OUT_RETURN_ERROR stream ''invalid field type''))"

definition encode_callback_field :: "pb_program \<Rightarrow> pb_store \<Rightarrow> pb_ostream_t \<Rightarrow> pb_field_t \<Rightarrow> int \<Rightarrow> enc" where
  "encode_callback_field prog m stream field data =
     (let f = load_ptr data m in
      if f \<noteq> 0 then
        (case encode_fn prog f stream field (callback_arg data) m of
           (None, stream) \<Rightarrow> Some (OUT_RETURN_ERROR stream ''callback error'')
         | (Some _, stream) \<Rightarrow> Some (Some (), stream))
      else Some (Some (), stream))"

definition encode_field ::
    "pb_program \<Rightarrow> pb_store \<Rightarrow> nat \<Rightarrow> rec_encode \<Rightarrow> pb_ostream_t \<Rightarrow> pb_field_t \<Rightarrow> int \<Rightarrow> enc" where
  "encode_field prog m n rec stream field data =
     (let atype = PB_ATYPE (f_type field) in
      if atype = PB_ATYPE_STATIC \<or> atype = PB_ATYPE_POINTER then encode_basic_field prog m n rec stream field data
      else if atype = PB_ATYPE_CALLBACK then encode_callback_field prog m stream field data
      else Some (OUT_RETURN_ERROR stream ''invalid field type''))"

definition default_extension_encoder ::
    "pb_program \<Rightarrow> pb_store \<Rightarrow> nat \<Rightarrow> rec_encode \<Rightarrow> pb_ostream_t \<Rightarrow> int \<Rightarrow> enc" where
  "default_extension_encoder prog m n rec stream ext =
     (let field = ext_arg (extension_type prog ext m) ! 0 in
      if PB_ATYPE (f_type field) = PB_ATYPE_POINTER then encode_field prog m n rec stream field (extension_dest ext)
      else encode_field prog m n rec stream field (load_ptr (extension_dest ext) m))"

fun extension_loop :: "nat \<Rightarrow> pb_program \<Rightarrow> pb_store \<Rightarrow> (pb_ostream_t \<Rightarrow> int \<Rightarrow> enc) \<Rightarrow> pb_ostream_t \<Rightarrow> int \<Rightarrow> enc" where
  "extension_loop 0 prog m handler stream ext = None"
| "extension_loop (Suc k) prog m handler stream ext =
     (if ext = 0 then Some (Some (), stream)
      else rbind (case ext_encode (extension_type prog ext m) of
                    Some f \<Rightarrow> Some (f stream ext m)
                  | None \<Rightarrow> handler stream ext) (\<lambda>_ stream.
        extension_loop k prog m handler stream (load_ptr (extension_next ext) m)))"

definition encode_extension_field ::
    "pb_program \<Rightarrow> pb_store \<Rightarrow> nat \<Rightarrow> rec_encode \<Rightarrow> pb_ostream_t \<Rightarrow> pb_field_t \<Rightarrow> int \<Rightarrow> enc" where
  "encode_extension_field prog m n rec stream field data =
     extension_loop n prog m (default_extension_encoder prog m n rec) stream (load_ptr data m)"

section \<open>Messages\<close>

definition encode_entry ::
    "pb_program \<Rightarrow> pb_store \<Rightarrow> nat \<Rightarrow> rec_encode \<Rightarrow> pb_ostream_t \<Rightarrow> pb_field_iter_t \<Rightarrow> enc" where
  "encode_entry prog m n rec stream iter =
     (if PB_LTYPE (f_type (it_field iter)) = PB_LTYPE_EXTENSION
      then encode_extension_field prog m n rec stream (it_field iter) (pData iter)
      else encode_field prog m n rec stream (it_field iter) (pData iter))"

fun encode_loop :: "nat \<Rightarrow> (pb_ostream_t \<Rightarrow> pb_field_iter_t \<Rightarrow> enc) \<Rightarrow> pb_ostream_t \<Rightarrow> pb_field_iter_t \<Rightarrow> enc" where
  "encode_loop 0 entry stream iter = None"
| "encode_loop (Suc k) entry stream iter =
     rbind (entry stream iter) (\<lambda>_ stream.
       case pb_field_iter_next iter of
         (True, iter) \<Rightarrow> encode_loop k entry stream iter
       | (False, iter) \<Rightarrow> Some (Some (), stream))"

fun pb_encode :: "nat \<Rightarrow> pb_program \<Rightarrow> pb_store \<Rightarrow> pb_ostream_t \<Rightarrow> pb_field_t list \<Rightarrow> int \<Rightarrow> enc" where
  "pb_encode 0 prog m stream flds src_struct = None"
| "pb_encode (Suc n) prog m stream flds src_struct =
     (case pb_field_iter_begin flds src_struct of
        (False, iter) \<Rightarrow> Some (Some (), stream)
      | (True, iter) \<Rightarrow> encode_loop (length flds) (encode_entry prog m n (pb_encode n prog m)) stream iter)"

definition pb_encode_delimited :: "nat \<Rightarrow> pb_program \<Rightarrow> pb_store \<Rightarrow> pb_ostream_t \<Rightarrow> pb_field_t list \<Rightarrow> int \<Rightarrow> enc" where
  "pb_encode_delimited n prog m stream flds src_struct =
     pb_encode_submessage (pb_encode n prog m) stream flds src_struct"

definition pb_encode_nullterminated :: "nat \<Rightarrow> pb_program \<Rightarrow> pb_store \<Rightarrow> pb_ostream_t \<Rightarrow> pb_field_t list \<Rightarrow> int \<Rightarrow> enc" where
  "pb_encode_nullterminated n prog m stream flds src_struct =
     rbind (pb_encode n prog m stream flds src_struct) (\<lambda>_ stream. Some (pb_write stream [0]))"

text \<open>\<open>None\<close> stands for no outcome, \<open>Some None\<close> for the return value false.\<close>

definition pb_get_encoded_size :: "nat \<Rightarrow> pb_program \<Rightarrow> pb_store \<Rightarrow> pb_field_t list \<Rightarrow> int \<Rightarrow> nat option option" where
  "pb_get_encoded_size n prog m flds src_struct =
     (case pb_encode n prog m PB_OSTREAM_SIZING flds src_struct of
        None \<Rightarrow> None
      | Some (None, _) \<Rightarrow> Some None
      | Some (Some _, stream) \<Rightarrow> Some (Some (bytes_written stream)))"

end
