(* ===== verification/PbEncodeSpec.thy ===== *)
theory PbEncodeSpec
  imports PbEncode PbArray
begin

text \<open>
  The two passes of the message encoder agree. A submessage is encoded twice, once to count its bytes and once to write
  them, and the second pass is held to the size of the first: what an encoder writes may depend on the memory only, not
  on the stream. \<open>regular\<close> is that contract; every encoder of the library meets it when the callbacks of the
  application do.
\<close>

section \<open>The contract\<close>

definition ready :: "pb_ostream_t \<Rightarrow> bool" where
  "ready os \<longleftrightarrow> out_ok os \<and> os_errmsg os = None \<and> max_size os < 2 ^ 63"

abbreviation to_buffer :: "pb_ostream_t \<Rightarrow> bool" where
  "to_buffer os \<equiv> os_callback os = Buf_write"

definition refused :: "enc \<Rightarrow> bool" where
  "refused r \<longleftrightarrow> (\<exists>os. r = Some (None, os))"

definition writes :: "(pb_ostream_t \<Rightarrow> enc) \<Rightarrow> bytes \<Rightarrow> bool" where
  "writes op bs \<longleftrightarrow> length bs < 2 ^ 63 \<and> (\<forall>os. ready os \<longrightarrow>
     (if accepts os (length bs) then op os = Some (Some (), emit bs os) else to_buffer os \<longrightarrow> refused (op os)))"

text \<open>
  What a run on a buffer does in any case (it appends), and that its bytes are those of every other run if they fit in
  memory; a count stays in the range of \<open>size_t\<close>.
\<close>

definition appended :: "pb_ostream_t \<Rightarrow> bytes \<Rightarrow> pb_ostream_t \<Rightarrow> bool" where
  "appended os d os' \<longleftrightarrow> to_buffer os' \<and> os_state os' = os_state os @ d \<and> bytes_written os' = size_add (bytes_written os) (length d)"

definition regular :: "(pb_ostream_t \<Rightarrow> enc) \<Rightarrow> bool" where
  "regular op \<longleftrightarrow>
     (\<forall>os os'. to_buffer os \<and> bytes_written os < size_max \<and> op os = Some (Some (), os') \<longrightarrow> (\<exists>d. appended os d os')) \<and>
     (\<forall>os os'. ready os \<and> to_buffer os \<and> op os = Some (Some (), os') \<and> length (os_state os') < length (os_state os) + 2 ^ 63 \<longrightarrow>
        (\<exists>bs. writes op bs)) \<and>
     (\<forall>os r os'. os_callback os = Null_callback \<and> bytes_written os < size_max \<and> op os = Some (r, os') \<longrightarrow>
        os_callback os' = Null_callback \<and> bytes_written os' < size_max)"

named_theorems regular_intros

lemma regularI:
  assumes "\<And>os os'. to_buffer os \<Longrightarrow> bytes_written os < size_max \<Longrightarrow> op os = Some (Some (), os') \<Longrightarrow> \<exists>d. appended os d os'"
    and "\<And>os os'. ready os \<Longrightarrow> to_buffer os \<Longrightarrow> op os = Some (Some (), os') \<Longrightarrow>
      length (os_state os') < length (os_state os) + 2 ^ 63 \<Longrightarrow> \<exists>bs. writes op bs"
    and "\<And>os r os'. os_callback os = Null_callback \<Longrightarrow> bytes_written os < size_max \<Longrightarrow> op os = Some (r, os') \<Longrightarrow>
      os_callback os' = Null_callback \<and> bytes_written os' < size_max"
  shows "regular op"
  unfolding regular_def using assms by blast

lemma regular_appends:
  assumes "regular op" "to_buffer os" "bytes_written os < size_max" "op os = Some (Some (), os')"
  obtains d where "appended os d os'"
  using assms unfolding regular_def by blast

lemma regular_counts:
  "regular op \<Longrightarrow> os_callback os = Null_callback \<Longrightarrow> bytes_written os < size_max \<Longrightarrow> op os = Some (r, os') \<Longrightarrow>
    os_callback os' = Null_callback \<and> bytes_written os' < size_max"
  unfolding regular_def by blast

lemma writesD:
  "writes op bs \<Longrightarrow> ready os \<Longrightarrow> accepts os (length bs) \<Longrightarrow> op os = Some (Some (), emit bs os)"
  "writes op bs \<Longrightarrow> ready os \<Longrightarrow> to_buffer os \<Longrightarrow> \<not> accepts os (length bs) \<Longrightarrow> refused (op os)"
  "writes op bs \<Longrightarrow> length bs < 2 ^ 63"
  by (simp_all add: writes_def)

lemma ready_emit [simp]: "ready os \<Longrightarrow> accepts os (length bs) \<Longrightarrow> ready (emit bs os)"
  by (simp add: ready_def) (simp add: emit_def)

lemma refused_simps [simp]: "\<not> refused (Some (Some x, os))" "refused (Some (None, os))" "\<not> refused None"
  by (simp_all add: refused_def)

lemma refused_rbind: "refused r \<Longrightarrow> refused (rbind r k)"
  by (auto simp: refused_def)

lemma ready_bounds: "ready os \<Longrightarrow> bytes_written os < size_max"
  by (auto simp: ready_def out_ok_def accepts_def split: ostream_callback.splits)

lemma accepts_bound: "ready os \<Longrightarrow> to_buffer os \<Longrightarrow> accepts os n \<Longrightarrow> n < 2 ^ 63"
  by (auto simp: ready_def accepts_def)

lemma regular_writes:
  assumes "regular op" "ready os" "to_buffer os" "op os = Some (Some (), os')"
    "length (os_state os') < length (os_state os) + 2 ^ 63"
  obtains bs where "writes op bs" "accepts os (length bs)" "os' = emit bs os"
proof -
  obtain bs where w: "writes op bs" using assms unfolding regular_def by blast
  then have "accepts os (length bs)" using writesD(2) [OF w assms(2,3)] assms(4) by (cases "accepts os (length bs)") simp_all
  then show thesis using that [OF w] writesD(1) [OF w assms(2)] assms(4) by simp
qed

lemma size_add_assoc: "size_add (size_add a b) c = size_add a (b + c)"
  by (simp add: size_add_def mod_add_left_eq add.assoc)

lemma size_add_less [simp]: "size_add a b < 18446744073709551616"
  by (simp add: size_add_def)

lemma appended_trans: "appended a d b \<Longrightarrow> appended b e c \<Longrightarrow> appended a (d @ e) c"
  by (simp add: appended_def size_add_assoc)

section \<open>Encoders that keep the contract\<close>

lemma writes_nothing: "writes (\<lambda>os. Some (Some (), os)) []"
  by (simp add: writes_def ready_def out_ok_def)

lemma writes_seq:
  assumes "writes f a" "writes g b" "length (a @ b) < 2 ^ 63"
  shows "writes (\<lambda>os. rbind (f os) (\<lambda>_ os. g os)) (a @ b)"
  unfolding writes_def
proof (intro conjI allI impI)
  fix os assume os: "ready os"
  show "if accepts os (length (a @ b)) then rbind (f os) (\<lambda>_ os. g os) = Some (Some (), emit (a @ b) os)
    else to_buffer os \<longrightarrow> refused (rbind (f os) (\<lambda>_ os. g os))"
  proof (cases "accepts os (length a)")
    case True
    then show ?thesis using writesD(1) [OF assms(1) os] writesD(1,2) [OF assms(2), of "emit a os"] os by auto
  next
    case False
    then have "\<not> accepts os (length (a @ b))" using accepts_mono [of os "length (a @ b)" "length a"] by auto
    then show ?thesis using writesD(2) [OF assms(1) os _ False] refused_rbind by auto
  qed
qed (rule assms(3))

lemma regular_seq [regular_intros]:
  assumes "regular f" "regular g"
  shows "regular (\<lambda>os. rbind (f os) (\<lambda>_ os. g os))"
proof (rule regularI)
  fix os os' assume os: "to_buffer os" "bytes_written os < size_max" "rbind (f os) (\<lambda>_ os. g os) = Some (Some (), os')"
  then obtain os1 where f: "f os = Some (Some (), os1)" "g os1 = Some (Some (), os')" by (auto simp: rbind_eq_ok)
  obtain d where d: "appended os d os1" by (rule regular_appends [OF assms(1) os(1,2) f(1)])
  then have "to_buffer os1" "bytes_written os1 < size_max" by (simp_all add: appended_def)
  from regular_appends [OF assms(2) this f(2)] d show "\<exists>d. appended os d os'" by (metis appended_trans)
next
  fix os os' assume os: "ready os" "to_buffer os" "rbind (f os) (\<lambda>_ os. g os) = Some (Some (), os')"
    "length (os_state os') < length (os_state os) + 2 ^ 63"
  then obtain os1 where f: "f os = Some (Some (), os1)" "g os1 = Some (Some (), os')" by (auto simp: rbind_eq_ok)
  obtain d where d: "appended os d os1" by (rule regular_appends [OF assms(1) os(2) ready_bounds [OF os(1)] f(1)])
  then have os1: "to_buffer os1" "bytes_written os1 < size_max" by (simp_all add: appended_def)
  obtain e where e: "appended os1 e os'" by (rule regular_appends [OF assms(2) os1 f(2)])
  have len: "length (os_state os1) < length (os_state os) + 2 ^ 63" "length (os_state os') < length (os_state os1) + 2 ^ 63"
    using os(4) d e by (auto simp: appended_def)
  obtain a where a: "writes f a" "accepts os (length a)" "os1 = emit a os"
    by (rule regular_writes [OF assms(1) os(1,2) f(1) len(1)])
  then have "ready os1" using os(1) by simp
  then obtain b where b: "writes g b" "accepts os1 (length b)"
    by (rule regular_writes [OF assms(2) _ os1(1) f(2) len(2)])
  then have "length (a @ b) < 2 ^ 63" using a(2,3) accepts_bound [OF os(1,2)] by simp
  then show "\<exists>bs. writes (\<lambda>os. rbind (f os) (\<lambda>_ os. g os)) bs" using writes_seq [OF a(1) b(1)] by blast
next
  fix os r os' assume os: "os_callback os = Null_callback" "bytes_written os < size_max" "rbind (f os) (\<lambda>_ os. g os) = Some (r, os')"
  then obtain x os1 where f: "f os = Some (x, os1)" by (cases "f os") auto
  note counts = regular_counts [OF assms(1) os(1,2) f]
  show "os_callback os' = Null_callback \<and> bytes_written os' < size_max"
  proof (cases x)
    case None
    then show ?thesis using os(3) f counts by simp
  next
    case (Some u)
    then have "g os1 = Some (r, os')" using os(3) f by simp
    then show ?thesis using regular_counts [OF assms(2)] counts by blast
  qed
qed

lemma regular_nothing [regular_intros]: "regular (\<lambda>os. Some (Some (), os))"
proof (rule regularI)
  fix os os' :: pb_ostream_t assume "to_buffer os" "bytes_written os < size_max" "Some (Some (), os) = Some (Some (), os')"
  then show "\<exists>d. appended os d os'" by (intro exI [of _ "[]"]) (simp add: appended_def)
qed (use writes_nothing in auto)

lemma regular_failing: "(\<And>os. os_callback (f os) = os_callback os \<and> bytes_written (f os) = bytes_written os) \<Longrightarrow> regular (\<lambda>os. Some (None, f os))"
  by (rule regularI) auto

lemma regular_error [regular_intros]: "regular (\<lambda>os. Some (OUT_RETURN_ERROR os msg))"
  unfolding OUT_RETURN_ERROR_def by (rule regular_failing) simp

lemma regular_false [regular_intros]: "regular (\<lambda>os. Some (None, os))"
  by (rule regular_failing) simp

lemma regular_none [regular_intros]: "regular (\<lambda>os. None)"
  by (rule regularI) auto

lemma regular_if [regular_intros]: "(b \<Longrightarrow> regular f) \<Longrightarrow> (\<not> b \<Longrightarrow> regular g) \<Longrightarrow> regular (\<lambda>os. if b then f os else g os)"
  by (cases b) simp_all

lemma regular_option [regular_intros]:
  "regular f \<Longrightarrow> (\<And>x. v = Some x \<Longrightarrow> regular (g x)) \<Longrightarrow> regular (\<lambda>os. case v of None \<Rightarrow> f os | Some x \<Rightarrow> g x os)"
  by (cases v) simp_all

lemma writes_write: "length bs < 2 ^ 63 \<Longrightarrow> writes (\<lambda>os. Some (pb_write os bs)) bs"
  unfolding writes_def ready_def using pb_write_spec [of _ bs] by (auto simp: OUT_RETURN_ERROR_def)

lemma regular_write [regular_intros]:
  assumes "length bs < size_max"
  shows "regular (\<lambda>os. Some (pb_write os bs))"
proof (rule regularI)
  fix os os' assume os: "to_buffer os" "Some (pb_write os bs) = Some (Some (), os')"
  then show "\<exists>d. appended os d os'"
    by (intro exI [of _ bs])
      (auto simp: appended_def pb_write_def Let_def buf_write_def OUT_RETURN_ERROR_def split: if_splits)
next
  fix os os' assume os: "ready os" "to_buffer os" "Some (pb_write os bs) = Some (Some (), os')"
    "length (os_state os') < length (os_state os) + 2 ^ 63"
  then have "length bs < 2 ^ 63"
    by (auto simp: pb_write_def Let_def buf_write_def OUT_RETURN_ERROR_def split: if_splits)
  then show "\<exists>bs'. writes (\<lambda>os. Some (pb_write os bs)) bs'" using writes_write by blast
next
  fix os r os' assume "os_callback os = Null_callback" "Some (pb_write os bs) = Some (r, os')"
  then show "os_callback os' = Null_callback \<and> bytes_written os' < size_max"
    by (auto simp: pb_write_def Let_def)
qed

section \<open>The wire format\<close>

lemma some_cbind: "Some (cbind r k) = rbind (Some r) (\<lambda>x s. Some (k x s))"
  by (cases r; cases "fst r") auto

lemma varint_bounded: "length (varint (unat (v :: u64))) < size_max"
  using length_varint_u64 [of v] by simp

lemma writes_varint: "writes (\<lambda>os. Some (pb_encode_varint os v)) (varint (unat v))"
  unfolding pb_encode_varint_write using length_varint_u64 [of v] by (intro writes_write) simp

lemma regular_varint [regular_intros]: "regular (\<lambda>os. Some (pb_encode_varint os v))"
  unfolding pb_encode_varint_write by (rule regular_write [OF varint_bounded])

lemma regular_tag [regular_intros]: "regular (\<lambda>os. Some (pb_encode_tag os wt tag))"
  unfolding pb_encode_tag_def by (rule regular_varint)

lemma some_if: "Some (if b then x else y) = (if b then Some x else Some y)"
  by simp

lemma regular_tag_for_field [regular_intros]: "regular (\<lambda>os. Some (pb_encode_tag_for_field os field))"
  unfolding pb_encode_tag_for_field_def Let_def some_if by (intro regular_intros)

lemma regular_string [regular_intros]:
  "length bs < size_max \<Longrightarrow> regular (\<lambda>os. Some (pb_encode_string os bs))"
  unfolding pb_encode_string_def some_cbind by (intro regular_intros)

section \<open>Scalars, strings and bytes\<close>

text \<open>The sizes in descriptors have 32 bits, and a block of the heap is smaller than the address space.\<close>

definition field_ok :: "pb_field_t \<Rightarrow> bool" where
  "field_ok f \<longleftrightarrow> f_data_size f < 2 ^ 32 \<and> f_array_size f < 2 ^ 32"

definition heap_ok :: "pb_store \<Rightarrow> bool" where
  "heap_ok m \<longleftrightarrow> (\<forall>p k. blocks m p = Some k \<longrightarrow> k < size_max)"

lemma writes_fixed32: "writes (\<lambda>os. Some (pb_encode_fixed32 os v))
    [ucast (v AND 0xFF), ucast (drop_bit 8 v AND 0xFF), ucast (drop_bit 16 v AND 0xFF), ucast (drop_bit 24 v AND 0xFF)]"
  unfolding pb_encode_fixed32_def by (rule writes_write) simp

lemma writes_fixed64: "writes (\<lambda>os. Some (pb_encode_fixed64 os v))
    [ucast (v AND 0xFF), ucast (drop_bit 8 v AND 0xFF), ucast (drop_bit 16 v AND 0xFF), ucast (drop_bit 24 v AND 0xFF),
     ucast (drop_bit 32 v AND 0xFF), ucast (drop_bit 40 v AND 0xFF), ucast (drop_bit 48 v AND 0xFF), ucast (drop_bit 56 v AND 0xFF)]"
  unfolding pb_encode_fixed64_def by (rule writes_write) simp

lemma regular_fixed [regular_intros]:
  "regular (\<lambda>os. Some (pb_encode_fixed32 os v))" "regular (\<lambda>os. Some (pb_encode_fixed64 os w))"
  unfolding pb_encode_fixed32_def pb_encode_fixed64_def by (intro regular_write; simp)+

lemma regular_bytes [regular_intros]: "regular (\<lambda>os. Some (pb_enc_bytes os field src))"
proof (cases src)
  case None
  then show ?thesis unfolding pb_enc_bytes_def by (simp add: regular_string)
next
  case (Some bs)
  have "unat (load_unsigned (take 4 bs)) < size_max"
    by (rule order_less_le_trans [OF unsigned_less]) simp
  then have "length (take (unat (load_unsigned (take 4 bs))) (drop 4 bs)) < size_max" by simp
  then show ?thesis unfolding pb_enc_bytes_def Some option.case Let_def some_if by (intro regular_intros)
qed

lemma regular_enc_string:
  assumes "\<And>bs. src = Some bs \<Longrightarrow> length bs < size_max"
  shows "regular (\<lambda>os. Some (pb_enc_string os field src))"
proof (cases src)
  case None
  then show ?thesis unfolding pb_enc_string_def by (simp add: regular_string Let_def)
next
  case (Some bs)
  have "length (takeWhile p (take k bs)) \<le> length bs" for p k
    using length_takeWhile_le [of p "take k bs"] by simp
  then show ?thesis
    using assms [OF Some] unfolding pb_enc_string_def Some option.case Let_def
    by (intro regular_string) (rule order_le_less_trans)
qed

lemma PB_ENCODERS_cases:
  assumes "PB_ENCODERS e lt = Some func" "lt \<noteq> PB_LTYPE_SUBMESSAGE"
  obtains "func = (\<lambda>os f src. pb_enc_bool os f (the src))" | "func = (\<lambda>os f src. pb_enc_varint os f (the src))"
    | "func = (\<lambda>os f src. pb_enc_uvarint os f (the src))" | "func = (\<lambda>os f src. pb_enc_svarint os f (the src))"
    | "func = (\<lambda>os f src. pb_enc_fixed32 os f (the src))" "lt = PB_LTYPE_FIXED32"
    | "func = (\<lambda>os f src. pb_enc_fixed64 os f (the src))" "lt = PB_LTYPE_FIXED64"
    | "func = pb_enc_bytes" "lt = PB_LTYPE_BYTES" | "func = pb_enc_string" "lt = PB_LTYPE_STRING"
    | "func = (\<lambda>os f src. pb_enc_fixed_length_bytes os f (the src))" "lt = PB_LTYPE_FIXED_LENGTH_BYTES"
  using assms unfolding PB_ENCODERS_def by (simp split: if_splits)

lemma regular_encoder:
  assumes "field_ok field" "heap_ok m"
    and "\<And>flds. submsg_fields prog field = Some flds \<Longrightarrow> regular (\<lambda>os. pb_encode_submessage rec os flds src)"
  shows "regular (\<lambda>os. encoder prog m rec (PB_LTYPE (f_type field)) os field src)"
proof (cases "PB_LTYPE (f_type field) = PB_LTYPE_SUBMESSAGE")
  case True
  then show ?thesis
    unfolding encoder_def pb_enc_submessage_def by (simp, intro regular_intros assms(3))
next
  case other: False
  show ?thesis
  proof (cases "PB_ENCODERS (\<lambda>os f src. (None, os)) (PB_LTYPE (f_type field))")
    case None
    then show ?thesis unfolding encoder_def using other by (simp add: regular_none)
  next
    case (Some func)
    then have enc: "encoder prog m rec (PB_LTYPE (f_type field)) os field src = Some (func os field (enc_source m field src))" for os
      using other by (simp add: encoder_def)
    show ?thesis
      unfolding enc
    proof (cases rule: PB_ENCODERS_cases [OF Some other])
      case 8
      have "length bs < size_max" if "enc_source m field src = Some bs" for bs
        using that assms(1,2) 8(2)
        by (auto simp: enc_source_def source_size_def field_ok_def heap_ok_def Let_def ltypes split: if_splits option.splits)
      then show "regular (\<lambda>os. Some (func os field (enc_source m field src)))"
        unfolding 8(1) by (rule regular_enc_string)
    next
      case 9
      have "length (take (f_data_size field) (the (enc_source m field src))) < size_max"
        using assms(1) by (simp add: field_ok_def min_def)
      then show "regular (\<lambda>os. Some (func os field (enc_source m field src)))"
        unfolding 9(1) pb_enc_fixed_length_bytes_def by (rule regular_string)
    qed (simp_all only: pb_enc_bool_def pb_enc_varint_def pb_enc_uvarint_def pb_enc_svarint_def pb_enc_fixed32_def
          pb_enc_fixed64_def pb_encode_svarint_def some_if, (intro regular_intros)+)
  qed
qed

section \<open>Submessages\<close>

text \<open>The substream of the second pass, and what the stream becomes.\<close>

abbreviation substream_of :: "pb_ostream_t \<Rightarrow> nat \<Rightarrow> pb_ostream_t" where
  "substream_of os n \<equiv> \<lparr>os_callback = os_callback os, os_state = os_state os, max_size = n, bytes_written = 0, os_errmsg = None\<rparr>"

definition second_pass :: "(pb_ostream_t \<Rightarrow> enc) \<Rightarrow> nat \<Rightarrow> pb_ostream_t \<Rightarrow> enc" where
  "second_pass op n stream =
     (if os_callback stream = Null_callback
      then Some (Some (), stream\<lparr>bytes_written := size_add (bytes_written stream) n\<rparr>)
      else if size_add (bytes_written stream) n > max_size stream
      then Some (OUT_RETURN_ERROR stream ''stream full'')
      else case op (substream_of stream n) of
             None \<Rightarrow> None
           | Some (status, substream) \<Rightarrow>
               let stream = stream\<lparr>bytes_written := size_add (bytes_written stream) (bytes_written substream),
                                   os_state := os_state substream, os_errmsg := os_errmsg substream\<rparr>
               in if bytes_written substream \<noteq> n then Some (OUT_RETURN_ERROR stream ''submsg size changed'')
                  else Some (status, stream))"

lemma encode_submessage_passes:
  "pb_encode_submessage rec os flds src =
     (case rec PB_OSTREAM_SIZING flds src of
        None \<Rightarrow> None
      | Some (None, substream) \<Rightarrow> Some (None, os\<lparr>os_errmsg := os_errmsg substream\<rparr>)
      | Some (Some _, substream) \<Rightarrow>
          rbind (Some (pb_encode_varint os (of_nat (bytes_written substream)))) (\<lambda>_ os.
            second_pass (\<lambda>os. rec os flds src) (bytes_written substream) os))"
  unfolding pb_encode_submessage_def second_pass_def [abs_def] Let_def ..

lemma second_pass_success:
  assumes "to_buffer os" "second_pass op n os = Some (Some (), os')"
  obtains sub where "op (substream_of os n) = Some (Some (), sub)" "bytes_written sub = n"
    "os' = os\<lparr>bytes_written := size_add (bytes_written os) n, os_state := os_state sub, os_errmsg := os_errmsg sub\<rparr>"
  using assms
  by (auto simp: second_pass_def OUT_RETURN_ERROR_def Let_def split: if_splits option.splits)

lemma second_pass_writes:
  assumes "writes op bs" "length bs = n"
  shows "writes (second_pass op n) bs"
  unfolding writes_def
proof (intro conjI allI impI)
  fix os assume os: "ready os"
  have n: "n < 2 ^ 63" using writesD(3) [OF assms(1)] assms(2) by simp
  show "if accepts os (length bs) then second_pass op n os = Some (Some (), emit bs os)
    else to_buffer os \<longrightarrow> refused (second_pass op n os)"
  proof (cases "os_callback os")
    case Null_callback
    then show ?thesis
      using assms(2) by (auto simp: second_pass_def accepts_def emit_def)
  next
    case Buf_write
    then have b: "bytes_written os \<le> max_size os" "max_size os < 2 ^ 63"
      using os by (auto simp: ready_def out_ok_def accepts_def)
    then have add: "size_add (bytes_written os) n = bytes_written os + n" using n by simp
    have "ready (substream_of os n)" "accepts (substream_of os n) (length bs)"
      using Buf_write n assms(2) by (simp_all add: ready_def out_ok_def accepts_def)
    from writesD(1) [OF assms(1) this] show ?thesis
      using Buf_write add assms(2) os
      by (auto simp: second_pass_def accepts_def emit_def OUT_RETURN_ERROR_def ready_def Let_def)
  next
    case (User_write f)
    then show ?thesis by (simp add: accepts_def)
  qed
qed (rule writesD(3) [OF assms(1)])

lemma regular_second_pass:
  assumes "regular op" "n < size_max"
  shows "regular (second_pass op n)"
proof (rule regularI)
  fix os os' assume os: "to_buffer os" "second_pass op n os = Some (Some (), os')"
  then obtain sub where sub: "op (substream_of os n) = Some (Some (), sub)" "bytes_written sub = n"
    "os' = os\<lparr>bytes_written := size_add (bytes_written os) n, os_state := os_state sub, os_errmsg := os_errmsg sub\<rparr>"
    by (rule second_pass_success)
  obtain d where "appended (substream_of os n) d sub"
    by (rule regular_appends [OF assms(1) _ _ sub(1)]) (use os in simp_all)
  then have "appended os d os'" using sub os by (simp add: appended_def) (simp add: size_add_def mod_add_right_eq)
  then show "\<exists>d. appended os d os'" by blast
next
  fix os os' assume os: "ready os" "to_buffer os" "second_pass op n os = Some (Some (), os')"
    "length (os_state os') < length (os_state os) + 2 ^ 63"
  then obtain sub where sub: "op (substream_of os n) = Some (Some (), sub)" "bytes_written sub = n"
    "os' = os\<lparr>bytes_written := size_add (bytes_written os) n, os_state := os_state sub, os_errmsg := os_errmsg sub\<rparr>"
    by (metis second_pass_success)
  obtain d where d: "appended (substream_of os n) d sub"
    by (rule regular_appends [OF assms(1) _ _ sub(1)]) (use os in simp_all)
  then have "length d < 2 ^ 63" using os(4) sub(3) by (simp add: appended_def)
  then have n: "n = length d" using d sub(2) by (simp add: appended_def)
  then have "ready (substream_of os n)" using \<open>length d < 2 ^ 63\<close> os(2) by (simp add: ready_def out_ok_def accepts_def)
  then obtain bs where bs: "writes op bs" "sub = emit bs (substream_of os n)"
    by (rule regular_writes [OF assms(1) _ _ sub(1)]) (use os(2,4) sub(3) in simp_all)
  then have "length bs = n" using sub(2) by (simp add: emit_def)
  then show "\<exists>bs. writes (second_pass op n) bs" using second_pass_writes [OF bs(1)] by blast
next
  fix os r os' assume "os_callback os = Null_callback" "second_pass op n os = Some (r, os')"
  then show "os_callback os' = Null_callback \<and> bytes_written os' < size_max" by (auto simp: second_pass_def)
qed

lemma regular_submessage:
  assumes "regular (\<lambda>os. rec os flds src)"
  shows "regular (\<lambda>os. pb_encode_submessage rec os flds src)"
proof (cases "rec PB_OSTREAM_SIZING flds src")
  case None
  then show ?thesis by (simp add: encode_submessage_passes regular_none)
next
  case (Some r)
  obtain status sub where r: "r = (status, sub)" by (cases r)
  show ?thesis
  proof (cases status)
    case None
    then show ?thesis using Some r by (simp add: encode_submessage_passes) (rule regular_failing, simp)
  next
    case (Some u)
    have "bytes_written sub < size_max"
      using regular_counts [OF assms, of PB_OSTREAM_SIZING status sub] \<open>rec PB_OSTREAM_SIZING flds src = Some r\<close> r
      by (simp add: PB_OSTREAM_SIZING_def)
    from regular_seq [OF regular_varint regular_second_pass [OF assms this]] show ?thesis
      using \<open>rec PB_OSTREAM_SIZING flds src = Some r\<close> r Some by (simp add: encode_submessage_passes del: rbind_simps)
  qed
qed

section \<open>Arrays\<close>

lemma writes_items:
  assumes "\<And>p. writes (\<lambda>os. func os field p) (g p)"
    and "length (concat (map (\<lambda>i. g (p + int (i * f_data_size field))) [0..<n])) < 2 ^ 63"
  shows "writes (\<lambda>os. array_items_at func field os p n) (concat (map (\<lambda>i. g (p + int (i * f_data_size field))) [0..<n]))"
  using assms(2)
proof (induction n arbitrary: p)
  case 0
  then show ?case using writes_nothing by simp
next
  case (Suc n)
  let ?ds = "f_data_size field"
  have split: "map (\<lambda>i. g (p + int (i * ?ds))) [0..<Suc n] = g p # map (\<lambda>i. g (p + int ?ds + int (i * ?ds))) [0..<n]"
    by (simp add: upt_rec [of 0] map_Suc_upt [symmetric] del: upt_Suc) (simp add: algebra_simps)
  show ?case
    using writes_seq [OF assms(1) [of p] Suc.IH [of "p + int ?ds"]] Suc.prems unfolding split by simp
qed

lemma regular_items:
  assumes "\<And>p. regular (\<lambda>os. func os field p)"
  shows "regular (\<lambda>os. array_items_at func field os p n)"
  by (induction n arbitrary: p) (simp_all add: regular_nothing regular_seq assms)

lemma regular_tagged:
  assumes "\<And>p. regular (\<lambda>os. func os field p)"
  shows "regular (\<lambda>os. array_tagged_at m func field os p n)"
proof (induction n arbitrary: p)
  case (Suc n)
  show ?case unfolding array_tagged_at.simps by (intro regular_intros assms Suc.IH)
qed (simp add: regular_nothing)

text \<open>The packed form: the counted size is the number of bytes that the items take.\<close>

definition packed_items :: "(pb_ostream_t \<Rightarrow> enc) \<Rightarrow> nat \<Rightarrow> pb_ostream_t \<Rightarrow> enc" where
  "packed_items items n os =
     (if os_callback os = Null_callback then Some (Some (), os\<lparr>bytes_written := size_add (bytes_written os) n\<rparr>) else items os)"

lemma packed_items_writes:
  assumes "writes items bs" "length bs = n"
  shows "writes (packed_items items n) bs"
  using assms unfolding writes_def packed_items_def
  by (auto simp: accepts_def emit_def split: if_splits)

lemma regular_packed_items:
  assumes "regular items"
    and "\<And>bs. writes items bs \<Longrightarrow> length bs = n"
  shows "regular (packed_items items n)"
proof (rule regularI)
  fix os os' assume "to_buffer os" "bytes_written os < size_max" "packed_items items n os = Some (Some (), os')"
  then show "\<exists>d. appended os d os'" by (auto simp: packed_items_def elim: regular_appends [OF assms(1)])
next
  fix os os' assume os: "ready os" "to_buffer os" "packed_items items n os = Some (Some (), os')"
    "length (os_state os') < length (os_state os) + 2 ^ 63"
  then obtain bs where "writes items bs"
    by (auto simp: packed_items_def elim: regular_writes [OF assms(1)])
  then show "\<exists>bs. writes (packed_items items n) bs" using packed_items_writes assms(2) by blast
next
  fix os r os' assume "os_callback os = Null_callback" "packed_items items n os = Some (r, os')"
  then show "os_callback os' = Null_callback \<and> bytes_written os' < size_max" by (auto simp: packed_items_def)
qed

lemma sizing_ready: "ready PB_OSTREAM_SIZING"
  by (simp add: ready_def out_ok_def accepts_def PB_OSTREAM_SIZING_def)

lemma sizing_writes:
  "writes op bs \<Longrightarrow> op PB_OSTREAM_SIZING = Some (Some (), emit bs PB_OSTREAM_SIZING)"
  using writesD(1) [OF _ sizing_ready] writesD(3) [of op bs] by (simp add: accepts_def PB_OSTREAM_SIZING_def)

lemma bytes_written_sizing: "bytes_written (emit bs PB_OSTREAM_SIZING) = length bs"
  by (simp add: emit_def PB_OSTREAM_SIZING_def)

lemma regular_array:
  assumes "\<And>p. regular (\<lambda>os. func os field p)" "count < 2 ^ 32"
    and "PB_LTYPE (f_type field) = PB_LTYPE_FIXED32 \<Longrightarrow> \<forall>p. \<exists>bs. length bs = 4 \<and> writes (\<lambda>os. func os field p) bs"
    and "PB_LTYPE (f_type field) = PB_LTYPE_FIXED64 \<Longrightarrow> \<forall>p. \<exists>bs. length bs = 8 \<and> writes (\<lambda>os. func os field p) bs"
  shows "regular (\<lambda>os. encode_array_at m os field data count func)"
proof -
  let ?items = "\<lambda>os. array_items_at func field os data count"
  note items = regular_items [of func field data count, OF assms(1)]
  have fixed: "length bs = k * count" if w: "writes ?items bs" and g: "\<forall>p. \<exists>bs. length bs = k \<and> writes (\<lambda>os. func os field p) bs"
    and k: "k \<le> 8" for bs k
  proof -
    obtain g where g: "\<And>p. length (g p) = k" "\<And>p. writes (\<lambda>os. func os field p) (g p)" using choice [OF g] by blast
    let ?bs = "concat (map (\<lambda>i. g (data + int (i * f_data_size field))) [0..<count])"
    have "length ?bs = k * count" by (simp add: length_concat comp_def g(1) sum_list_triv)
    moreover have "8 * count < 2 ^ 63" using assms(2) by simp
    with mult_le_mono1 [OF k, of count] have "k * count < 2 ^ 63" by (rule order_le_less_trans)
    ultimately have "writes ?items ?bs" by (intro writes_items g(2)) (simp only:)
    from sizing_writes [OF this] sizing_writes [OF w] have "emit bs PB_OSTREAM_SIZING = emit ?bs PB_OSTREAM_SIZING" by simp
    then have "length bs = length ?bs" by (metis bytes_written_sizing)
    then show ?thesis using \<open>length ?bs = k * count\<close> by simp
  qed
  have sized: "length bs = bytes_written sub" if "writes ?items bs" "?items PB_OSTREAM_SIZING = Some (Some u, sub)" for bs sub u
    using sizing_writes [OF that(1)] that(2) bytes_written_sizing [of bs] by simp
  have packed: "regular (\<lambda>os. rbind (Some (pb_encode_varint os v)) (\<lambda>_ os. packed_items ?items n os))"
    if "\<And>bs. writes ?items bs \<Longrightarrow> length bs = n" for n v
    by (intro regular_seq regular_varint regular_packed_items items that)
  show ?thesis
    unfolding encode_array_at_def Let_def packed_items_def [of ?items, symmetric]
  proof (intro regular_if regular_nothing regular_error regular_seq regular_tag regular_tagged assms(1))
    let ?size = "if PB_LTYPE (f_type field) = PB_LTYPE_FIXED32 then Some (Some (4 * count mod size_max))
        else if PB_LTYPE (f_type field) = PB_LTYPE_FIXED64 then Some (Some (8 * count mod size_max))
        else case ?items PB_OSTREAM_SIZING of None \<Rightarrow> None | Some (None, _) \<Rightarrow> Some None
             | Some (Some _, sizestream) \<Rightarrow> Some (Some (bytes_written sizestream))"
    have size: "length bs = n" if n: "?size = Some (Some n)" and bs: "writes ?items bs" for bs n
    proof (cases "PB_LTYPE (f_type field) = PB_LTYPE_FIXED32 \<or> PB_LTYPE (f_type field) = PB_LTYPE_FIXED64")
      case True
      then show ?thesis
        using n fixed [OF bs, of 4] fixed [OF bs, of 8] assms(2,3,4) by (auto simp: ltypes split: if_splits)
    next
      case False
      then show ?thesis using n bs sized by (auto split: option.splits prod.splits)
    qed
    show "regular (\<lambda>os. case ?size of None \<Rightarrow> None | Some None \<Rightarrow> Some (None, os)
        | Some (Some n) \<Rightarrow> rbind (Some (pb_encode_varint os (word_of_nat n))) (\<lambda>_. packed_items ?items n))"
      by (intro regular_option regular_none regular_false packed) (rule size; simp)
  qed
qed

section \<open>Fields\<close>

text \<open>
  What the message encoder relies on: the descriptors of the program are terminated arrays with sizes of 32 bits, and a
  callback writes the same bytes each time, as its documentation asks.
\<close>

definition message_ok :: "pb_field_t list \<Rightarrow> bool" where
  "message_ok flds \<longleftrightarrow> wf_fields flds \<and> list_all field_ok flds"

definition program_ok :: "pb_program \<Rightarrow> pb_store \<Rightarrow> bool" where
  "program_ok prog m \<longleftrightarrow> heap_ok m \<and> (\<forall>i. message_ok (msgs prog i)) \<and>
     (\<forall>t. ext_arg (ext_types prog t) \<noteq> [] \<and> field_ok (ext_arg (ext_types prog t) ! 0)) \<and>
     (\<forall>f field arg. regular (\<lambda>os. Some (encode_fn prog f os field arg m))) \<and>
     (\<forall>t g ext. ext_encode (ext_types prog t) = Some g \<longrightarrow> regular (\<lambda>os. Some (g os ext m)))"

lemma load_unsigned_bound: "unat (load_unsigned bs) < 2 ^ (8 * length bs)"
proof -
  have "unat (take_bit (8 * length bs) (load_unsigned bs)) < 2 ^ (8 * length bs)" by (simp add: unsigned_take_bit_eq)
  then show ?thesis unfolding load_unsigned_id .
qed

lemma load_size_bound: "load_size a m < 2 ^ 32"
  using load_unsigned_bound [of "load 4 a m"] by (simp add: load_size_def)

lemma regular_basic_field:
  assumes "field_ok field" "heap_ok m" "\<And>flds src. submsg_fields prog field = Some flds \<Longrightarrow> regular (\<lambda>os. rec os flds src)"
  shows "regular (\<lambda>os. encode_basic_field prog m n rec os field data)"
proof -
  let ?lt = "PB_LTYPE (f_type field)"
  have func: "regular (\<lambda>os. encoder prog m rec ?lt os field src)" for src
    by (intro regular_encoder assms(1,2) regular_submessage assms(3))
  have whole: "regular (\<lambda>os. rbind (Some (pb_encode_tag_for_field os field)) (\<lambda>_ os. encoder prog m rec ?lt os field src))" for src
    by (intro regular_seq regular_tag_for_field func)
  have array: "regular (\<lambda>os. encode_array_at m os field src count (encoder prog m rec ?lt))" if "count < 2 ^ 32" for src count
  proof (rule regular_array, rule func, rule that)
    assume "?lt = PB_LTYPE_FIXED32"
    then have "encoder prog m rec ?lt os field p = Some (pb_enc_fixed32 os field (the (enc_source m field p)))" for os p
      by (simp add: encoder_def PB_ENCODERS_def ltypes)
    then show "\<forall>p. \<exists>bs. length bs = 4 \<and> writes (\<lambda>os. encoder prog m rec ?lt os field p) bs"
      using writes_fixed32 by (auto simp: pb_enc_fixed32_def intro!: exI conjI)
  next
    assume "?lt = PB_LTYPE_FIXED64"
    then have "encoder prog m rec ?lt os field p = Some (pb_enc_fixed64 os field (the (enc_source m field p)))" for os p
      by (simp add: encoder_def PB_ENCODERS_def ltypes)
    then show "\<forall>p. \<exists>bs. length bs = 8 \<and> writes (\<lambda>os. encoder prog m rec ?lt os field p) bs"
      using writes_fixed64 by (auto simp: pb_enc_fixed64_def intro!: exI conjI)
  qed
  have count: "(case sp of Some a \<Rightarrow> load_size a m | None \<Rightarrow> f_array_size field) < 2 ^ 32" for sp
    using assms(1) load_size_bound by (auto simp: field_ok_def split: option.split)
  show ?thesis
    unfolding encode_basic_field_def Let_def
    by (intro regular_option regular_none regular_if regular_error regular_nothing whole array count)
qed

lemma regular_callback:
  assumes "\<And>f field arg. regular (\<lambda>os. Some (encode_fn prog f os field arg m))"
  shows "regular (\<lambda>os. encode_callback_field prog m os field data)"
proof (cases "load_ptr data m = 0")
  case True
  then show ?thesis by (simp add: encode_callback_field_def regular_nothing)
next
  case False
  let ?f = "\<lambda>os. encode_fn prog (load_ptr data m) os field (callback_arg data) m"
  let ?g = "\<lambda>os. encode_callback_field prog m os field data"
  have ok: "?g os = Some (Some (), os') \<longleftrightarrow> Some (?f os) = Some (Some (), os')" for os os'
    using False by (auto simp: encode_callback_field_def OUT_RETURN_ERROR_def Let_def split: prod.splits option.splits)
  have bad: "Some (?f os) = Some (None, os1) \<Longrightarrow> ?g os = Some (OUT_RETURN_ERROR os1 ''callback error'')" for os os1
    using False by (simp add: encode_callback_field_def)
  have cases: "(\<exists>os1. Some (?f os) = Some (None, os1)) \<or> (\<exists>os1. Some (?f os) = Some (Some (), os1))" for os
    by (cases "?f os"; cases "fst (?f os)") auto
  have writes: "writes ?g bs" if w: "writes (\<lambda>os. Some (?f os)) bs" for bs
    unfolding writes_def
  proof (intro conjI allI impI)
    fix os assume os: "ready os"
    show "if accepts os (length bs) then ?g os = Some (Some (), emit bs os) else to_buffer os \<longrightarrow> refused (?g os)"
      using writesD(1,2) [OF w os] ok bad by (auto simp: refused_def OUT_RETURN_ERROR_def)
  qed (rule writesD(3) [OF w])
  show ?thesis
  proof (rule regularI)
    fix os os' assume os: "to_buffer os" "bytes_written os < size_max" "?g os = Some (Some (), os')"
    show "\<exists>d. appended os d os'"
      by (rule regular_appends [OF assms os(1,2) os(3) [unfolded ok]]) blast
  next
    fix os os' assume os: "ready os" "to_buffer os" "?g os = Some (Some (), os')" "length (os_state os') < length (os_state os) + 2 ^ 63"
    show "\<exists>bs. writes ?g bs"
      by (rule regular_writes [OF assms os(1,2) os(3) [unfolded ok] os(4)]) (use writes in blast)
  next
    fix os r os' assume os: "os_callback os = Null_callback" "bytes_written os < size_max" "?g os = Some (r, os')"
    show "os_callback os' = Null_callback \<and> bytes_written os' < size_max"
      using cases [of os]
    proof
      assume "\<exists>os1. Some (?f os) = Some (None, os1)"
      then obtain os1 where f: "Some (?f os) = Some (None, os1)" by blast
      show ?thesis using regular_counts [OF assms os(1,2) f] bad [OF f] os(3) by (auto simp: OUT_RETURN_ERROR_def)
    next
      assume "\<exists>os1. Some (?f os) = Some (Some (), os1)"
      then obtain os1 where f: "Some (?f os) = Some (Some (), os1)" by blast
      show ?thesis using regular_counts [OF assms os(1,2) f] f [folded ok] os(3) by simp
    qed
  qed
qed

lemma regular_field:
  assumes "field_ok field" "program_ok prog m" "\<And>flds src. message_ok flds \<Longrightarrow> regular (\<lambda>os. rec os flds src)"
  shows "regular (\<lambda>os. encode_field prog m n rec os field data)"
proof -
  have "message_ok flds" if "submsg_fields prog field = Some flds" for flds
    using that assms(2) by (auto simp: submsg_fields_def program_ok_def split: pb_ptr.splits)
  moreover have "heap_ok m" "\<And>f field arg. regular (\<lambda>os. Some (encode_fn prog f os field arg m))"
    using assms(2) by (simp_all add: program_ok_def)
  ultimately show ?thesis
    unfolding encode_field_def Let_def
    by (intro regular_if regular_error regular_basic_field regular_callback assms(1) assms(3)) blast+
qed

section \<open>Messages\<close>

lemma regular_extensions:
  assumes "\<And>ext. regular (\<lambda>os. handler os ext)" "program_ok prog m"
  shows "regular (\<lambda>os. extension_loop k prog m handler os ext)"
proof (induction k arbitrary: ext)
  case 0
  then show ?case by (simp add: regular_none)
next
  case (Suc k)
  have "regular (\<lambda>os. case ext_encode (extension_type prog ext m) of None \<Rightarrow> handler os ext | Some f \<Rightarrow> Some (f os ext m))"
    using assms(2) by (intro regular_option assms(1)) (auto simp: program_ok_def extension_type_def)
  then show ?case unfolding extension_loop.simps by (intro regular_if regular_nothing regular_seq Suc.IH)
qed

definition iter_in :: "pb_field_t list \<Rightarrow> pb_field_iter_t \<Rightarrow> bool" where
  "iter_in flds iter \<longleftrightarrow> it_start iter = flds \<and> it_pos iter < length flds"

lemma iter_in_begin: "wf_fields flds \<Longrightarrow> iter_in flds (snd (pb_field_iter_begin flds dest))"
  by (simp add: iter_in_def wf_fields_def)

lemma iter_in_next: "wf_fields flds \<Longrightarrow> iter_in flds iter \<Longrightarrow> iter_in flds (snd (pb_field_iter_next iter))"
  using wf_tag [of flds "it_pos iter"] iter_in_begin [of flds "dest_struct iter"]
  by (auto simp: iter_in_def pb_field_iter_next_def Let_def)

lemma iter_in_ok: "message_ok flds \<Longrightarrow> iter_in flds iter \<Longrightarrow> field_ok (it_field iter)"
  by (auto simp: message_ok_def iter_in_def list_all_length)

lemma regular_entry:
  assumes "field_ok (it_field iter)" "program_ok prog m" "\<And>flds src. message_ok flds \<Longrightarrow> regular (\<lambda>os. rec os flds src)"
  shows "regular (\<lambda>os. encode_entry prog m n rec os iter)"
proof -
  have "field_ok (ext_arg (extension_type prog ext m) ! 0)" for ext
    using assms(2) by (simp add: program_ok_def extension_type_def)
  then have "regular (\<lambda>os. default_extension_encoder prog m n rec os ext)" for ext
    unfolding default_extension_encoder_def Let_def by (intro regular_if regular_field assms(2,3))
  then show ?thesis
    unfolding encode_entry_def encode_extension_field_def
    by (intro regular_if regular_extensions regular_field assms)
qed

lemma regular_loop:
  assumes "\<And>iter. iter_in flds iter \<Longrightarrow> regular (\<lambda>os. entry os iter)" "wf_fields flds" "iter_in flds iter"
  shows "regular (\<lambda>os. encode_loop k entry os iter)"
  using assms(3)
proof (induction k arbitrary: iter)
  case 0
  then show ?case by (simp add: regular_none)
next
  case (Suc k)
  have "regular (\<lambda>os. case pb_field_iter_next iter of (True, iter) \<Rightarrow> encode_loop k entry os iter | (False, iter) \<Rightarrow> Some (Some (), os))"
    using Suc.IH [OF iter_in_next [OF assms(2) Suc.prems]]
    by (cases "pb_field_iter_next iter"; cases "fst (pb_field_iter_next iter)") (simp_all add: regular_nothing)
  then show ?case unfolding encode_loop.simps by (intro regular_seq assms(1) Suc.prems)
qed

lemma regular_encode:
  assumes "program_ok prog m" "message_ok flds"
  shows "regular (\<lambda>os. pb_encode n prog m os flds src)"
  using assms(2)
proof (induction n arbitrary: flds src)
  case 0
  then show ?case by (simp add: regular_none)
next
  case (Suc n)
  then have wf: "wf_fields flds" by (simp add: message_ok_def)
  have loop: "regular (\<lambda>os. encode_loop (length flds) (encode_entry prog m n (pb_encode n prog m)) os
      (snd (pb_field_iter_begin flds src)))"
    by (intro regular_loop [OF _ wf iter_in_begin [OF wf]] regular_entry assms(1) Suc.IH iter_in_ok [OF Suc.prems])
  show ?case
    using loop by (cases "pb_field_iter_begin flds src"; cases "fst (pb_field_iter_begin flds src)") (simp_all add: regular_nothing)
qed

lemma submessage_writes:
  assumes "writes (\<lambda>os. rec os flds src) bs" "length bs < 2 ^ 32"
  shows "writes (\<lambda>os. pb_encode_submessage rec os flds src) (varint (length bs) @ bs)"
proof -
  have len: "unat (of_nat (length bs) :: u64) = length bs" by (rule unat_of_nat_small) (use assms(2) in simp)
  have "length (varint (length bs) @ bs) < 2 ^ 63" using length_varint_u32 [OF assms(2)] assms(2) by simp
  from writes_seq [OF writes_varint [of "of_nat (length bs)", unfolded len] second_pass_writes [OF assms(1) refl] this] show ?thesis
    by (simp add: encode_submessage_passes sizing_writes [OF assms(1)] bytes_written_sizing del: rbind_simps)
qed

lemma buffer_ready:
  "c < 2 ^ 63 \<Longrightarrow> ready (pb_ostream_from_buffer c)" "to_buffer (pb_ostream_from_buffer c)"
  "accepts (pb_ostream_from_buffer c) k \<longleftrightarrow> k \<le> c"
  by (simp_all add: ready_def out_ok_def accepts_def pb_ostream_from_buffer_def)

section \<open>Properties\<close>

text \<open>
  C21: an encoding that succeeds does not depend on the stream: \<open>pb_get_encoded_size\<close> is the number of its bytes, they fit
  the buffer they were written to, every other buffer they fit gets the same bytes, and a smaller one is refused. So the
  size that \<open>pb_encode_submessage\<close> counts in its first pass is the one it writes in its second, at every level.
\<close>

theorem pb_encode_reproducible:
  assumes "program_ok prog m" "message_ok flds" "cap < 2 ^ 63" "cap' < 2 ^ 63"
    and "pb_encode n prog m (pb_ostream_from_buffer cap) flds src = Some (Some (), os)" "length (os_state os) < 2 ^ 63"
  shows "length (os_state os) \<le> cap \<and> bytes_written os = length (os_state os) \<and>
    pb_get_encoded_size n prog m flds src = Some (Some (length (os_state os))) \<and>
    (if length (os_state os) \<le> cap'
     then pb_encode n prog m (pb_ostream_from_buffer cap') flds src =
            Some (Some (), emit (os_state os) (pb_ostream_from_buffer cap'))
     else \<exists>os'. pb_encode n prog m (pb_ostream_from_buffer cap') flds src = Some (None, os'))"
proof -
  have "length (os_state os) < length (os_state (pb_ostream_from_buffer cap)) + 2 ^ 63" using assms(6) by simp
  from regular_writes [OF regular_encode [OF assms(1,2)] buffer_ready(1) [OF assms(3)] buffer_ready(2) assms(5) this]
  obtain bs where bs: "writes (\<lambda>os. pb_encode n prog m os flds src) bs" "accepts (pb_ostream_from_buffer cap) (length bs)"
    "os = emit bs (pb_ostream_from_buffer cap)" by blast
  have state: "os_state os = bs" "bytes_written os = length bs"
    by (simp_all add: bs(3) emit_def pb_ostream_from_buffer_def)
  have "pb_get_encoded_size n prog m flds src = Some (Some (length bs))"
    using sizing_writes [OF bs(1)] by (simp add: pb_get_encoded_size_def bytes_written_sizing)
  moreover have "if length bs \<le> cap'
     then pb_encode n prog m (pb_ostream_from_buffer cap') flds src = Some (Some (), emit bs (pb_ostream_from_buffer cap'))
     else \<exists>os'. pb_encode n prog m (pb_ostream_from_buffer cap') flds src = Some (None, os')"
    using writesD(1) [OF bs(1) buffer_ready(1) [OF assms(4)]] writesD(2) [OF bs(1) buffer_ready(1) [OF assms(4)] buffer_ready(2)] buffer_ready(3)
    by (simp add: refused_def)
  ultimately show ?thesis using bs(2) buffer_ready(3) state by simp
qed

text \<open>An example: a message with a number and a submessage that holds two more.\<close>

definition pair_fields :: "pb_field_t list" where
  "pair_fields = [pb_field 1 (PB_LTYPE_SVARINT OR PB_HTYPE_REQUIRED) 0 0 4 0 PtrNull,
     pb_field 2 (PB_LTYPE_FIXED32 OR PB_HTYPE_REQUIRED) 0 0 4 0 PtrNull, pb_field 0 0 0 0 0 0 PtrNull]"

definition outer_fields :: "pb_field_t list" where
  "outer_fields = [pb_field 3 (PB_LTYPE_UVARINT OR PB_HTYPE_REQUIRED) 0 0 4 0 PtrNull,
     pb_field 4 (PB_LTYPE_SUBMESSAGE OR PB_HTYPE_REQUIRED) 0 0 8 0 (PtrFields 1), pb_field 0 0 0 0 0 0 PtrNull]"

definition example_program :: pb_program where
  "example_program = \<lparr>msgs = (\<lambda>i. if i = 1 then pair_fields else outer_fields),
     ext_types = (\<lambda>_. \<lparr>ext_decode = None, ext_encode = None, ext_arg = outer_fields\<rparr>),
     decode_fn = (\<lambda>_ s _ _ m. (None, (s, m))), encode_fn = (\<lambda>_ os _ _ _. (None, os)),
     alloc = (\<lambda>_ _. None), frame = (\<lambda>n. 5000 + 4 * int n)\<rparr>"

definition example_store :: pb_store where
  "example_store = \<lparr>bytes_at = (\<lambda>x. if 1000 \<le> x \<and> x < 1012 then [150, 0, 0, 0, 254, 255, 255, 255, 1, 2, 3, 4] ! nat (x - 1000) else 0),
     blocks = (\<lambda>_. None)\<rparr>"

lemmas field_types = PB_HTYPE_REQUIRED_def PB_HTYPE_OPTIONAL_def PB_HTYPE_REPEATED_def PB_HTYPE_ONEOF_def
  PB_ATYPE_STATIC_def PB_ATYPE_POINTER_def PB_ATYPE_CALLBACK_def

lemma load_byte: "load 0 a m = []" "load (Suc n) a m = bytes_at m a # load n (a + 1) m"
  by (simp_all add: load_def upt_rec [of 0] map_Suc_upt [symmetric] del: upt_Suc) (simp add: comp_def algebra_simps)

lemma required_entry:
  "PB_HTYPE (f_type (it_field iter)) = PB_HTYPE_REQUIRED \<Longrightarrow> PB_ATYPE (f_type (it_field iter)) = PB_ATYPE_STATIC \<Longrightarrow>
    PB_LTYPE (f_type (it_field iter)) \<noteq> PB_LTYPE_EXTENSION \<Longrightarrow> pData iter \<noteq> 0 \<Longrightarrow>
    encode_entry prog m n rec os iter = rbind (Some (pb_encode_tag_for_field os (it_field iter))) (\<lambda>_ os.
      encoder prog m rec (PB_LTYPE (f_type (it_field iter))) os (it_field iter) (pData iter))"
  by (simp add: encode_entry_def encode_field_def encode_basic_field_def Let_def field_types)

lemmas eval_fields = PB_LTYPE_def PB_HTYPE_def PB_ATYPE_def ltypes field_types

lemma rbind_unit: "rbind (r :: enc) (\<lambda>_ os. Some (Some (), os)) = r"
  by (auto simp: rbind_def split: option.splits prod.splits)

lemmas eval_encoders = encoder_def PB_ENCODERS_def enc_source_def source_size_def pb_encode_tag_for_field_def pb_encode_tag_def
  wire_types pb_enc_svarint_def pb_enc_uvarint_def pb_enc_fixed32_def

lemma pair_encoding:
  "0 < a \<Longrightarrow> pb_encode (Suc n) prog m os pair_fields a =
    rbind (Some (pb_encode_varint os 8)) (\<lambda>_ os.
    rbind (Some (pb_encode_svarint os (load_signed (load 4 a m)))) (\<lambda>_ os.
    rbind (Some (pb_encode_varint os 21)) (\<lambda>_ os.
      Some (pb_encode_fixed32 os (ucast (load_unsigned (load 4 (a + 4) m)))))))"
  by (simp add: pb_field_iter_begin_def pair_fields_def pb_field_iter_next_def Let_def required_entry eval_fields
      eval_encoders rbind_unit rbind_assoc take_load)

lemma outer_encoding:
  "0 < a \<Longrightarrow> pb_encode (Suc n) example_program m os outer_fields a =
    rbind (Some (pb_encode_varint os 24)) (\<lambda>_ os.
    rbind (Some (pb_encode_varint os (load_unsigned (load 4 a m)))) (\<lambda>_ os.
    rbind (Some (pb_encode_varint os 34)) (\<lambda>_ os.
      pb_encode_submessage (pb_encode n example_program m) os pair_fields (a + 4))))"
  by (simp add: pb_field_iter_begin_def outer_fields_def pb_field_iter_next_def Let_def required_entry eval_fields
      eval_encoders pb_enc_submessage_def submsg_fields_def example_program_def rbind_unit rbind_assoc take_load)

lemma example_encoding:
  "writes (\<lambda>os. pb_encode (Suc (Suc 0)) example_program example_store os outer_fields 1000)
     [24, 150, 1, 34, 7, 8, 3, 21, 1, 2, 3, 4]"
proof -
  have load: "load 4 1000 example_store = [150, 0, 0, 0]" "load 4 1004 example_store = [254, 255, 255, 255]"
    "load 4 1008 example_store = [1, 2, 3, 4]"
    by (simp_all add: eval_nat_numeral load_byte example_store_def)
  have vals: "load_unsigned [150, 0, 0, 0] = 150" "load_signed [254, 255, 255, 255] = - 2" "load_unsigned [1, 2, 3, 4] = 0x04030201"
    by (simp_all add: load_unsigned_def load_signed_def)
  have zigzag: "pb_encode_svarint os (- 2) = pb_encode_varint os 3" for os by (simp add: pb_encode_svarint_def)
  have small: "varint 3 = [3]" "varint 7 = [7]" "varint 8 = [8]" "varint 21 = [21]" "varint 24 = [24]" "varint 34 = [34]"
    by (simp_all add: varint.simps)
  have two: "varint 150 = [150, 1]" by (simp add: varint.simps group_def)
  have "pb_encode (Suc 0) example_program example_store os pair_fields 1004 =
    rbind (Some (pb_encode_varint os 8)) (\<lambda>_ os. rbind (Some (pb_encode_varint os 3)) (\<lambda>_ os.
    rbind (Some (pb_encode_varint os 21)) (\<lambda>_ os. Some (pb_encode_fixed32 os 0x04030201))))" for os
    by (simp add: pair_encoding load vals zigzag del: pb_encode.simps rbind_simps)
  moreover have "writes (\<lambda>os. rbind (Some (pb_encode_varint os 8)) (\<lambda>_ os. rbind (Some (pb_encode_varint os 3)) (\<lambda>_ os.
    rbind (Some (pb_encode_varint os 21)) (\<lambda>_ os. Some (pb_encode_fixed32 os 0x04030201)))))
    (varint (unat (8::u64)) @ varint (unat (3::u64)) @ varint (unat (21::u64)) @ [1, 2, 3, 4])"
    by (intro writes_seq writes_varint) (use writes_fixed32 [of "0x04030201"] in \<open>simp_all add: small\<close>)
  ultimately have pair: "writes (\<lambda>os. pb_encode (Suc 0) example_program example_store os pair_fields 1004) [8, 3, 21, 1, 2, 3, 4]"
    by (simp add: small del: pb_encode.simps rbind_simps)
  then have sub: "writes (\<lambda>os. pb_encode_submessage (pb_encode (Suc 0) example_program example_store) os pair_fields 1004)
      [7, 8, 3, 21, 1, 2, 3, 4]"
    using submessage_writes [of "pb_encode (Suc 0) example_program example_store" pair_fields 1004, OF pair]
    by (simp add: varint.simps del: pb_encode.simps)
  have "pb_encode (Suc (Suc 0)) example_program example_store os outer_fields 1000 =
    rbind (Some (pb_encode_varint os 24)) (\<lambda>_ os. rbind (Some (pb_encode_varint os 150)) (\<lambda>_ os.
    rbind (Some (pb_encode_varint os 34)) (\<lambda>_ os.
      pb_encode_submessage (pb_encode (Suc 0) example_program example_store) os pair_fields 1004)))" for os
    by (simp add: outer_encoding load vals del: pb_encode.simps rbind_simps)
  moreover have "writes (\<lambda>os. rbind (Some (pb_encode_varint os 24)) (\<lambda>_ os. rbind (Some (pb_encode_varint os 150)) (\<lambda>_ os.
    rbind (Some (pb_encode_varint os 34)) (\<lambda>_ os.
      pb_encode_submessage (pb_encode (Suc 0) example_program example_store) os pair_fields 1004))))
    (varint (unat (24::u64)) @ varint (unat (150::u64)) @ varint (unat (34::u64)) @ [7, 8, 3, 21, 1, 2, 3, 4])"
    by (intro writes_seq writes_varint) (simp_all add: small two sub del: pb_encode.simps rbind_simps)
  ultimately show ?thesis by (simp add: small two del: pb_encode.simps rbind_simps)
qed

lemma example_ok: "program_ok example_program m" if "heap_ok m"
  using that regular_false
  by (auto simp: program_ok_def example_program_def message_ok_def pair_fields_def outer_fields_def wf_fields_def field_ok_def)

lemma pb_encode_reproducible_witness:
  "pb_get_encoded_size 2 example_program example_store outer_fields 1000 = Some (Some 12) \<and>
   pb_encode 2 example_program example_store (pb_ostream_from_buffer 12) outer_fields 1000 =
     Some (Some (), emit [24, 150, 1, 34, 7, 8, 3, 21, 1, 2, 3, 4] (pb_ostream_from_buffer 12)) \<and>
   (\<exists>os'. pb_encode 2 example_program example_store (pb_ostream_from_buffer 11) outer_fields 1000 = Some (None, os'))"
proof -
  let ?os = "emit [24, 150, 1, 34, 7, 8, 3, 21, 1, 2, 3, 4] (pb_ostream_from_buffer 20)"
  have run: "pb_encode 2 example_program example_store (pb_ostream_from_buffer 20) outer_fields 1000 = Some (Some (), ?os)"
    using writesD(1) [OF example_encoding buffer_ready(1) [of 20]] by (simp add: buffer_ready flip: numeral_2_eq_2 del: pb_encode.simps)
  have ok: "program_ok example_program example_store" by (rule example_ok) (simp add: heap_ok_def example_store_def)
  have flds: "message_ok outer_fields" by (simp add: message_ok_def outer_fields_def wf_fields_def field_ok_def)
  have state: "os_state ?os = [24, 150, 1, 34, 7, 8, 3, 21, 1, 2, 3, 4]" by (simp add: emit_def pb_ostream_from_buffer_def)
  have len: "length (os_state ?os) < 2 ^ 63" by (simp add: state)
  have caps: "(20 :: nat) < 2 ^ 63" "(12 :: nat) < 2 ^ 63" "(11 :: nat) < 2 ^ 63" by simp_all
  note result = pb_encode_reproducible [OF ok flds caps(1) _ run len, unfolded state]
  show ?thesis using result [OF caps(2)] result [OF caps(3)] by simp
qed

end
