(* ===== verification/PbEncodeTotal.thy ===== *)
theory PbEncodeTotal
  imports PbEncodeSpec
begin

text \<open>
  When the message encoder returns: for a message type whose submessages nest to a finite depth, a bound of that depth
  is enough for any memory. And a proto3 message that the encoder takes to be empty although it is not.
\<close>

section \<open>Nesting of message types\<close>

definition field_returns :: "pb_field_t \<Rightarrow> bool" where
  "field_returns f \<longleftrightarrow> PB_LTYPE (f_type f) \<le> PB_LTYPE_FIXED_LENGTH_BYTES \<and> PB_LTYPE (f_type f) \<noteq> PB_LTYPE_EXTENSION \<and>
     (PB_HTYPE (f_type f) = PB_HTYPE_ONEOF \<longrightarrow> f_size_offset f \<noteq> 0)"

fun nested :: "nat \<Rightarrow> pb_program \<Rightarrow> pb_field_t list \<Rightarrow> bool" where
  "nested 0 prog flds \<longleftrightarrow> False"
| "nested (Suc n) prog flds \<longleftrightarrow> wf_fields flds \<and> list_all field_returns flds \<and>
     (\<forall>f\<in>set flds. PB_LTYPE (f_type f) = PB_LTYPE_SUBMESSAGE \<longrightarrow>
        (case submsg_fields prog f of None \<Rightarrow> False | Some sub \<Rightarrow> nested n prog sub))"

text \<open>What \<open>nested\<close> says of a single field.\<close>

definition field_nested :: "nat \<Rightarrow> pb_program \<Rightarrow> pb_field_t \<Rightarrow> bool" where
  "field_nested n prog f \<longleftrightarrow> field_returns f \<and>
     (PB_LTYPE (f_type f) = PB_LTYPE_SUBMESSAGE \<longrightarrow>
        (case submsg_fields prog f of None \<Rightarrow> False | Some sub \<Rightarrow> nested n prog sub))"

lemma nested_field: "nested (Suc n) prog flds \<Longrightarrow> iter_in flds iter \<Longrightarrow> field_nested n prog (it_field iter)"
  by (auto simp: field_nested_def iter_in_def list_all_iff)

lemma nested_wf: "nested n prog flds \<Longrightarrow> wf_fields flds"
  by (cases n) simp_all

lemma nested_Suc: "nested n prog flds \<Longrightarrow> nested (Suc n) prog flds"
proof (induction n arbitrary: flds)
  case (Suc n)
  have sub: "case submsg_fields prog f of None \<Rightarrow> False | Some sub \<Rightarrow> nested (Suc n) prog sub"
    if "f \<in> set flds" "PB_LTYPE (f_type f) = PB_LTYPE_SUBMESSAGE" for f
  proof (cases "submsg_fields prog f")
    case None
    then show ?thesis using Suc.prems that by auto
  next
    case (Some sub)
    then have "nested n prog sub" using Suc.prems that by auto
    then show ?thesis using Suc.IH [of sub] Some by simp
  qed
  then show ?case using Suc.prems unfolding nested.simps(2) [of "Suc n"] by simp
qed simp

lemma nested_mono: "nested n prog flds \<Longrightarrow> nested (n + k) prog flds"
  by (induction k) (auto dest: nested_Suc simp del: nested.simps)

section \<open>Every loop returns\<close>

definition returns :: "(pb_ostream_t \<Rightarrow> enc) \<Rightarrow> bool" where
  "returns op \<longleftrightarrow> (\<forall>os. op os \<noteq> None)"

named_theorems returns_intros

lemma returns_some [returns_intros]: "returns (\<lambda>os. Some (f os))"
  by (simp add: returns_def)

lemma returns_seq [returns_intros]: "returns f \<Longrightarrow> returns g \<Longrightarrow> returns (\<lambda>os. rbind (f os) (\<lambda>_ os. g os))"
  unfolding returns_def rbind_def by (auto split: option.splits)

lemma returns_if [returns_intros]: "(b \<Longrightarrow> returns f) \<Longrightarrow> (\<not> b \<Longrightarrow> returns g) \<Longrightarrow> returns (\<lambda>os. if b then f os else g os)"
  by (cases b) simp_all

lemma returns_items: "(\<And>p. returns (\<lambda>os. func os field p)) \<Longrightarrow> returns (\<lambda>os. array_items_at func field os p n)"
  by (induction n arbitrary: p) (simp_all add: returns_some returns_seq)

lemma returns_tagged: "(\<And>p. returns (\<lambda>os. func os field p)) \<Longrightarrow> returns (\<lambda>os. array_tagged_at m func field os p n)"
proof (induction n arbitrary: p)
  case (Suc n)
  show ?case unfolding array_tagged_at.simps by (intro returns_seq returns_some Suc)
qed (simp add: returns_some)

lemma returns_array:
  assumes "\<And>p. returns (\<lambda>os. func os field p)"
  shows "returns (\<lambda>os. encode_array_at m os field data count func)"
proof -
  let ?items = "\<lambda>os. array_items_at func field os data count"
  have items: "returns ?items" by (rule returns_items) (rule assms)
  then have "?items PB_OSTREAM_SIZING \<noteq> None" unfolding returns_def by blast
  then obtain x sub where sizing: "?items PB_OSTREAM_SIZING = Some (x, sub)" by auto
  have packed: "returns (packed_items ?items n)" for n
    using items unfolding returns_def packed_items_def by simp
  show ?thesis
    unfolding encode_array_at_def Let_def packed_items_def [of ?items, symmetric] sizing
    by (cases x; intro returns_if returns_some returns_seq returns_tagged assms)
      (auto intro!: returns_some returns_seq packed simp del: rbind_simps)
qed

lemma defaults_loop_returns:
  assumes "\<And>iter. iter_in flds iter \<Longrightarrow> check (it_field iter) (pData iter) \<noteq> None" "wf_fields flds"
    and "iter_in flds iter" "length flds \<le> k + it_pos iter"
  shows "defaults_loop k check iter \<noteq> None"
  using assms(3,4)
proof (induction k arbitrary: iter)
  case 0
  then show ?case by (simp add: iter_in_def)
next
  case (Suc k)
  have "it_pos (snd (pb_field_iter_next iter)) = it_pos iter + 1" if "fst (pb_field_iter_next iter)"
    using that by (auto simp: pb_field_iter_next_def Let_def split: if_splits)
  with Suc.IH [OF iter_in_next [OF assms(2) Suc.prems(1)]] Suc.prems assms(1) show ?case
    by (cases "pb_field_iter_next iter"; cases "fst (pb_field_iter_next iter)") (auto split: option.splits bool.splits)
qed

lemma encode_loop_returns:
  assumes "\<And>iter. iter_in flds iter \<Longrightarrow> returns (\<lambda>os. entry os iter)" "wf_fields flds"
    and "iter_in flds iter" "length flds \<le> k + it_pos iter"
  shows "returns (\<lambda>os. encode_loop k entry os iter)"
  using assms(3,4)
proof (induction k arbitrary: iter)
  case 0
  then show ?case by (simp add: iter_in_def)
next
  case (Suc k)
  have pos: "it_pos (snd (pb_field_iter_next iter)) = it_pos iter + 1" if "fst (pb_field_iter_next iter)"
    using that by (auto simp: pb_field_iter_next_def Let_def split: if_splits)
  have "returns (\<lambda>os. case pb_field_iter_next iter of (True, iter) \<Rightarrow> encode_loop k entry os iter | (False, iter) \<Rightarrow> Some (Some (), os))"
    using Suc.IH [OF iter_in_next [OF assms(2) Suc.prems(1)]] Suc.prems pos
    by (cases "pb_field_iter_next iter"; cases "fst (pb_field_iter_next iter)") (simp_all add: returns_some)
  then show ?case unfolding encode_loop.simps by (intro returns_seq assms(1) Suc.prems)
qed

section \<open>Fields and messages\<close>

lemma returned_if: "(b \<Longrightarrow> x \<noteq> None) \<Longrightarrow> (\<not> b \<Longrightarrow> y \<noteq> None) \<Longrightarrow> (if b then x else y) \<noteq> None"
  by simp

lemma check_default_returns:
  "field_nested n prog f \<Longrightarrow> pb_check_proto3_default_value (Suc n) prog m f data \<noteq> None"
proof (induction n arbitrary: f data)
  case 0
  then show ?case
    by (auto simp: field_nested_def check_singular_default_def Let_def split: option.splits)
next
  case (Suc n)
  have "check_singular_default prog m (pb_check_proto3_default_value (Suc n) prog m) f data \<noteq> None"
  proof (cases "submsg_fields prog f")
    case None
    then show ?thesis using Suc.prems by (auto simp: check_singular_default_def Let_def field_nested_def)
  next
    case (Some sub)
    show ?thesis
    proof (cases "PB_LTYPE (f_type f) = PB_LTYPE_SUBMESSAGE")
      case True
      then have sub: "nested (Suc n) prog sub" using Suc.prems Some by (simp add: field_nested_def)
      have "defaults_loop (length sub) (pb_check_proto3_default_value (Suc n) prog m) (snd (pb_field_iter_begin sub data)) \<noteq> None"
        by (rule defaults_loop_returns [where flds = sub])
          (use Suc.IH [OF nested_field [OF sub]] nested_wf [OF sub] iter_in_begin [OF nested_wf [OF sub]] in \<open>simp_all del: pb_check_proto3_default_value.simps nested.simps\<close>)
      then show ?thesis
        using Some
        by (cases "pb_field_iter_begin sub data"; cases "fst (pb_field_iter_begin sub data)")
          (auto simp: check_singular_default_def Let_def simp del: pb_check_proto3_default_value.simps)
    next
      case False
      then show ?thesis by (auto simp: check_singular_default_def Let_def)
    qed
  qed
  then show ?case unfolding pb_check_proto3_default_value.simps(2) [of "Suc n"] Let_def by (intro returned_if option.simps(3))
qed

lemma le_10: "n \<le> 10 \<Longrightarrow> n \<in> {0, 1, 2, 3, 4, 5, 6, 7, 8, 9, 10 :: nat}"
  unfolding insert_iff empty_iff by presburger

lemma ltype_cases:
  assumes "field_returns f"
  shows "PB_LTYPE (f_type f) = PB_LTYPE_SUBMESSAGE \<or> PB_ENCODERS e (PB_LTYPE (f_type f)) \<noteq> None"
proof -
  have "unat (PB_LTYPE (f_type f)) \<le> 10"
    using assms by (simp add: field_returns_def ltypes word_le_nat_alt)
  then have "unat (PB_LTYPE (f_type f)) \<in> {0, 1, 2, 3, 4, 5, 6, 7, 8, 9, 10}" by (rule le_10)
  then have "PB_LTYPE (f_type f) \<in> {0, 1, 2, 3, 4, 5, 6, 7, 8, 9, 10}" by (auto simp: word_unat_eq_iff)
  then show ?thesis using assms by (auto simp: field_returns_def ltypes PB_ENCODERS_def)
qed

lemma submessage_returns:
  "returns (\<lambda>os. rec os flds src) \<Longrightarrow> returns (\<lambda>os. pb_encode_submessage rec os flds src)"
  unfolding returns_def encode_submessage_passes second_pass_def [abs_def] rbind_def Let_def
  by (auto split: option.splits prod.splits) (metis option.distinct(1))

lemma encode_field_returns:
  assumes "field_nested n prog f" "\<And>flds src. nested n prog flds \<Longrightarrow> returns (\<lambda>os. rec os flds src)"
  shows "returns (\<lambda>os. encode_field prog m (Suc n) rec os f data)"
proof -
  have func: "returns (\<lambda>os. encoder prog m rec (PB_LTYPE (f_type f)) os f src)" for src
  proof (cases "PB_LTYPE (f_type f) = PB_LTYPE_SUBMESSAGE")
    case True
    then obtain sub where "submsg_fields prog f = Some sub" "nested n prog sub"
      using assms(1) by (auto simp: field_nested_def split: option.splits)
    then show ?thesis
      using submessage_returns [of rec sub src] assms(2) True by (simp add: encoder_def pb_enc_submessage_def)
  next
    case False
    then show ?thesis
      using ltype_cases [of f] assms(1)
      by (auto simp: encoder_def returns_def field_nested_def split: option.split)
  qed
  have "PB_HTYPE (f_type f) = PB_HTYPE_ONEOF \<longrightarrow> f_size_offset f \<noteq> 0" using assms(1) by (simp add: field_nested_def field_returns_def)
  moreover obtain b where "pb_check_proto3_default_value (Suc n) prog m f data = Some b"
    using check_default_returns [OF assms(1), of m data] by blast
  ultimately have "returns (\<lambda>os. encode_basic_field prog m (Suc n) rec os f data)"
    unfolding encode_basic_field_def Let_def
    by (cases "f_size_offset f = 0 \<and> PB_HTYPE (f_type f) = PB_HTYPE_OPTIONAL")
      (auto intro!: returns_if returns_some returns_seq returns_array func simp del: pb_check_proto3_default_value.simps)
  then show ?thesis
    unfolding encode_field_def encode_callback_field_def Let_def
    by (intro returns_if returns_some) (simp_all add: returns_def split: prod.split option.split)
qed

lemma encode_returns: "nested n prog flds \<Longrightarrow> returns (\<lambda>os. pb_encode (Suc n) prog m os flds src)"
proof (induction n arbitrary: flds src)
  case 0
  then show ?case by simp
next
  case (Suc n)
  have entry: "returns (\<lambda>os. encode_entry prog m (Suc n) (pb_encode (Suc n) prog m) os iter)" if "iter_in flds iter" for iter
    using encode_field_returns [OF nested_field [OF Suc.prems that] Suc.IH] nested_field [OF Suc.prems that]
    by (simp add: encode_entry_def field_nested_def field_returns_def del: pb_encode.simps)
  have wf: "wf_fields flds" using Suc.prems by simp
  have "returns (\<lambda>os. encode_loop (length flds) (encode_entry prog m (Suc n) (pb_encode (Suc n) prog m)) os
      (snd (pb_field_iter_begin flds src)))"
    by (rule encode_loop_returns [where flds = flds]) (use entry wf iter_in_begin [OF wf] in \<open>simp_all del: pb_encode.simps\<close>)
  then show ?case
    unfolding pb_encode.simps(2) [of "Suc n"]
    by (cases "pb_field_iter_begin flds src"; cases "fst (pb_field_iter_begin flds src)")
      (simp_all add: returns_some del: pb_encode.simps)
qed

section \<open>Properties\<close>

text \<open>
  C22: the encoder returns for every memory and every stream when the message types nest to a depth of \<open>n\<close>: the bound
  \<open>n + 1\<close> and any larger one is enough.
\<close>

theorem pb_encode_returns:
  assumes "nested n prog flds"
  shows "\<exists>status os'. pb_encode (Suc (n + k)) prog m os flds src = Some (status, os')"
  using encode_returns [OF nested_mono [OF assms]] unfolding returns_def by (metis not_None_eq surj_pair)

lemma example_nested: "nested 2 example_program outer_fields"
proof -
  have "nested (Suc (Suc 0)) example_program outer_fields"
    by (simp add: outer_fields_def pair_fields_def example_program_def wf_fields_def field_returns_def submsg_fields_def eval_fields)
  then show ?thesis by (simp only: numeral_2_eq_2)
qed

lemma pb_encode_returns_witness:
  "\<exists>status os'. pb_encode 3 example_program example_store (pb_ostream_from_buffer 4) outer_fields 1000 = Some (status, os')"
  using pb_encode_returns [OF example_nested, of 0 example_store "pb_ostream_from_buffer 4" 1000] by (simp only: add_0_right eval_nat_numeral)

text \<open>A proto3 message that holds a pointer to a \<open>bool\<close>, and one that holds it as a singular submessage.\<close>

definition flag_fields :: "pb_field_t list" where
  "flag_fields = [pb_field 1 (PB_LTYPE_BOOL OR PB_HTYPE_OPTIONAL OR PB_ATYPE_POINTER) 0 0 1 0 PtrNull, pb_field 0 0 0 0 0 0 PtrNull]"

definition holder_fields :: "nat \<Rightarrow> pb_field_t list" where
  "holder_fields i = [pb_field 2 (PB_LTYPE_SUBMESSAGE OR PB_HTYPE_OPTIONAL) 0 0 8 0 (PtrFields i), pb_field 0 0 0 0 0 0 PtrNull]"

text \<open>
  C23: \<open>pb_check_proto3_default_value\<close> compares only as many bytes of a pointer as the value behind it has. When a
  pointer to a \<open>bool\<close> ends in a zero byte, the singular submessage that holds it is taken to be empty and not encoded,
  although the submessage alone encodes its field.
\<close>

theorem proto3_pointer_dropped:
  assumes "msgs prog i = flag_fields" "0 < a" "load_ptr a m \<noteq> 0" "load 1 a m = [0]"
  shows "pb_encode (Suc (Suc (Suc (Suc n)))) prog m os (holder_fields i) a = Some (Some (), os) \<and>
    pb_encode (Suc (Suc (Suc n))) prog m os flag_fields a =
      rbind (Some (pb_encode_varint os 8)) (\<lambda>_ os.
        Some (pb_encode_varint os (if load_bool (load_ptr a m) m then 1 else 0)))"
proof -
  have "pb_encode (Suc (Suc (Suc (Suc n)))) prog m os (holder_fields i) a = Some (Some (), os)"
    using assms
    by (simp add: holder_fields_def flag_fields_def pb_field_iter_begin_def pb_field_iter_next_def Let_def encode_entry_def
        encode_field_def encode_basic_field_def check_singular_default_def submsg_fields_def eval_fields)
  moreover have "pb_encode (Suc (Suc (Suc n))) prog m os flag_fields a =
      rbind (Some (pb_encode_varint os 8)) (\<lambda>_ os.
        Some (pb_encode_varint os (if load_bool (load_ptr a m) m then 1 else 0)))"
    using assms
    by (simp add: flag_fields_def pb_field_iter_begin_def pb_field_iter_next_def Let_def encode_entry_def encode_field_def
        encode_basic_field_def check_singular_default_def eval_fields eval_encoders load_bool_def pb_enc_bool_def rbind_unit take_load)
  ultimately show ?thesis ..
qed

definition flag_store :: pb_store where
  "flag_store = \<lparr>bytes_at = (\<lambda>x. if x = 1001 \<or> x = 256 then 1 else 0), blocks = (\<lambda>_. None)\<rparr>"

lemma proto3_pointer_dropped_witness:
  "\<exists>prog os. bytes_written os = 0 \<and> pb_encode 4 prog flag_store os (holder_fields 2) 1000 = Some (Some (), os) \<and>
    pb_encode 3 prog flag_store os flag_fields 1000 =
      rbind (Some (pb_encode_varint os 8)) (\<lambda>_ os.
        Some (pb_encode_varint os (if load_bool (load_ptr 1000 flag_store) flag_store then 1 else 0)))"
proof -
  let ?os = "pb_ostream_from_buffer 8" and ?prog = "example_program\<lparr>msgs := \<lambda>_. flag_fields\<rparr>"
  have "load 8 1000 flag_store = [0, 1, 0, 0, 0, 0, 0, 0]" by (simp add: eval_nat_numeral load_byte flag_store_def)
  then have ptr: "load_ptr 1000 flag_store = 256" by (simp add: load_ptr_def load_unsigned_def)
  have "pb_encode (Suc (Suc (Suc (Suc 0)))) ?prog flag_store ?os (holder_fields 2) 1000 = Some (Some (), ?os) \<and>
    pb_encode (Suc (Suc (Suc 0))) ?prog flag_store ?os flag_fields 1000 =
      rbind (Some (pb_encode_varint ?os 8)) (\<lambda>_ os.
        Some (pb_encode_varint os (if load_bool (load_ptr 1000 flag_store) flag_store then 1 else 0)))"
    by (rule proto3_pointer_dropped) (simp_all add: ptr, simp add: load_byte flag_store_def)
  then show ?thesis by (intro exI [of _ ?prog] exI [of _ ?os]) (simp only: eval_nat_numeral BitM.simps pred_numeral_simps, simp add: pb_ostream_from_buffer_def)
qed

end
