(* ===== verification/PbEncodeLimits.thy ===== *)
theory PbEncodeLimits
  imports PbLimits PbEncodeTotal
begin

text \<open>
  The message encoder and the capacity of its buffer. Every encoder of \<^verbatim>\<open>pb_encode.c\<close> stays inside the buffer, on success and
  on failure, when the callbacks of the application do; a submessage, which is given its own limit, stays inside the buffer
  of the message around it.
\<close>

section \<open>Staying inside\<close>

definition confined :: "(pb_ostream_t \<Rightarrow> enc) \<Rightarrow> bool" where
  "confined op \<longleftrightarrow>
     (\<forall>os r os'. out_ok os \<and> to_buffer os \<and> max_size os < 2 ^ 63 \<and> op os = Some (r, os') \<longrightarrow> spilled os os')"

named_theorems confined_intros

lemma confinedI:
  "(\<And>os r os'. out_ok os \<Longrightarrow> to_buffer os \<Longrightarrow> max_size os < 2 ^ 63 \<Longrightarrow> op os = Some (r, os') \<Longrightarrow> spilled os os') \<Longrightarrow> confined op"
  unfolding confined_def by blast

lemma confinedD:
  "confined op \<Longrightarrow> out_ok os \<Longrightarrow> to_buffer os \<Longrightarrow> max_size os < 2 ^ 63 \<Longrightarrow> op os = Some (r, os') \<Longrightarrow> spilled os os'"
  unfolding confined_def by blast

lemma spilled_limit: "spilled os os' \<Longrightarrow> max_size os' = max_size os"
  by (auto simp: spilled_def emit_def)

lemma confined_some: "(\<And>os. out_ok os \<Longrightarrow> to_buffer os \<Longrightarrow> spilled os (snd (f os))) \<Longrightarrow> confined (\<lambda>os. Some (f os))"
  by (rule confinedI) (metis option.inject snd_conv)

lemma confined_seq [confined_intros]:
  assumes "confined f" "confined g"
  shows "confined (\<lambda>os. rbind (f os) (\<lambda>_ os. g os))"
proof (rule confinedI)
  fix os r os' assume os: "out_ok os" "to_buffer os" "max_size os < 2 ^ 63" "rbind (f os) (\<lambda>_ os. g os) = Some (r, os')"
  then obtain x os1 where f: "f os = Some (x, os1)" by (cases "f os") auto
  note s = confinedD [OF assms(1) os(1-3) f]
  show "spilled os os'"
  proof (cases x)
    case None
    then show ?thesis using s f os(4) by simp
  next
    case (Some u)
    then have "g os1 = Some (r, os')" using f os(4) by simp
    from confinedD [OF assms(2) _ _ _ this] have "spilled os1 os'"
      using spilled_out_ok [OF os(1) s] spilled_callback [OF s] spilled_limit [OF s] os(2,3) by simp
    then show ?thesis by (rule spilled_trans [OF s])
  qed
qed

lemma confined_none [confined_intros]: "confined (\<lambda>os. None)"
  by (rule confinedI) simp

lemma confined_nothing [confined_intros]: "confined (\<lambda>os. Some (r, os))"
  by (rule confined_some) (simp add: spilled_refl)

lemma confined_error [confined_intros]: "confined (\<lambda>os. Some (OUT_RETURN_ERROR os msg))"
  by (rule confined_some) (rule spilled_error)

lemma confined_message: "confined (\<lambda>os. Some (r, os\<lparr>os_errmsg := e\<rparr>))"
proof (rule confined_some)
  fix os assume "out_ok os"
  then show "spilled os (snd (r, os\<lparr>os_errmsg := e\<rparr>))"
    unfolding spilled_def by (intro exI [of _ "[]"] exI [of _ e]) (simp add: out_ok_def)
qed

lemma confined_if [confined_intros]:
  "(b \<Longrightarrow> confined f) \<Longrightarrow> (\<not> b \<Longrightarrow> confined g) \<Longrightarrow> confined (\<lambda>os. if b then f os else g os)"
  by (cases b) simp_all

lemma confined_option [confined_intros]:
  "confined f \<Longrightarrow> (\<And>x. v = Some x \<Longrightarrow> confined (g x)) \<Longrightarrow> confined (\<lambda>os. case v of None \<Rightarrow> f os | Some x \<Rightarrow> g x os)"
  by (cases v) simp_all

section \<open>Values\<close>

lemma confined_write [confined_intros]: "length bs < size_max \<Longrightarrow> confined (\<lambda>os. Some (pb_write os bs))"
  by (rule confined_some) (rule spilled_write)

lemma confined_varint [confined_intros]: "confined (\<lambda>os. Some (pb_encode_varint os v))"
  by (rule confined_some) (rule spilled_varint)

lemma confined_tag [confined_intros]: "confined (\<lambda>os. Some (pb_encode_tag os wt tag))"
  unfolding pb_encode_tag_def by (rule confined_varint)

lemma confined_tag_for_field [confined_intros]: "confined (\<lambda>os. Some (pb_encode_tag_for_field os f))"
  by (rule confined_some) (rule spilled_tag_for_field)

lemma confined_string [confined_intros]: "length bs < size_max \<Longrightarrow> confined (\<lambda>os. Some (pb_encode_string os bs))"
  by (rule confined_some) (rule spilled_string)

lemma confined_fixed [confined_intros]:
  "confined (\<lambda>os. Some (pb_encode_fixed32 os v))" "confined (\<lambda>os. Some (pb_encode_fixed64 os w))"
  unfolding pb_encode_fixed32_def pb_encode_fixed64_def by (intro confined_write; simp)+

lemma confined_bytes [confined_intros]: "confined (\<lambda>os. Some (pb_enc_bytes os field src))"
proof (cases src)
  case None
  then show ?thesis unfolding pb_enc_bytes_def by (simp add: confined_string)
next
  case (Some bs)
  have "unat (load_unsigned (take 4 bs)) < size_max"
    by (rule order_less_le_trans [OF unsigned_less]) simp
  then have "length (take (unat (load_unsigned (take 4 bs))) (drop 4 bs)) < size_max" by simp
  then show ?thesis unfolding pb_enc_bytes_def Some option.case Let_def some_if by (intro confined_intros)
qed

lemma confined_enc_string:
  assumes "\<And>bs. src = Some bs \<Longrightarrow> length bs < size_max"
  shows "confined (\<lambda>os. Some (pb_enc_string os field src))"
proof (cases src)
  case None
  then show ?thesis unfolding pb_enc_string_def by (simp add: confined_string Let_def)
next
  case (Some bs)
  have "length (takeWhile p (take k bs)) \<le> length bs" for p k
    using length_takeWhile_le [of p "take k bs"] by simp
  then show ?thesis
    using assms [OF Some] unfolding pb_enc_string_def Some option.case Let_def
    by (intro confined_string) (rule order_le_less_trans)
qed

lemma source_bounded:
  assumes "field_ok field" "heap_ok m" "PB_LTYPE (f_type field) = PB_LTYPE_STRING" "enc_source m field src = Some bs"
  shows "length bs < size_max"
  using assms by (auto simp: enc_source_def source_size_def field_ok_def heap_ok_def Let_def ltypes split: if_splits option.splits)

lemma confined_encoder:
  assumes "field_ok field" "heap_ok m"
    and "\<And>flds. submsg_fields prog field = Some flds \<Longrightarrow> confined (\<lambda>os. pb_encode_submessage rec os flds src)"
  shows "confined (\<lambda>os. encoder prog m rec (PB_LTYPE (f_type field)) os field src)"
proof (cases "PB_LTYPE (f_type field) = PB_LTYPE_SUBMESSAGE")
  case True
  then show ?thesis
    unfolding encoder_def pb_enc_submessage_def by (simp, intro confined_intros assms(3))
next
  case other: False
  show ?thesis
  proof (cases "PB_ENCODERS (\<lambda>os f src. (None, os)) (PB_LTYPE (f_type field))")
    case None
    then show ?thesis unfolding encoder_def using other by (simp add: confined_none)
  next
    case (Some func)
    then have enc: "encoder prog m rec (PB_LTYPE (f_type field)) os field src = Some (func os field (enc_source m field src))" for os
      using other by (simp add: encoder_def)
    show ?thesis
      unfolding enc
    proof (cases rule: PB_ENCODERS_cases [OF Some other])
      case 8
      then show "confined (\<lambda>os. Some (func os field (enc_source m field src)))"
        unfolding 8(1) using source_bounded [OF assms(1,2) 8(2)] by (intro confined_enc_string)
    next
      case 9
      have "length (take (f_data_size field) (the (enc_source m field src))) < size_max"
        using assms(1) by (simp add: field_ok_def min_def)
      then show "confined (\<lambda>os. Some (func os field (enc_source m field src)))"
        unfolding 9(1) pb_enc_fixed_length_bytes_def by (rule confined_string)
    qed (simp_all only: pb_enc_bool_def pb_enc_varint_def pb_enc_uvarint_def pb_enc_svarint_def pb_enc_fixed32_def
          pb_enc_fixed64_def pb_encode_svarint_def some_if, (intro confined_intros)+)
  qed
qed

section \<open>Submessages and arrays\<close>

text \<open>
  The second pass of a submessage: its stream may take \<open>n\<close> bytes, which the stream around it has room for. The sum does
  not wrap around because \<open>n\<close> is less than \<open>2 ^ 63\<close>; the code does not check for that.
\<close>

lemma confined_second_pass:
  assumes "confined op" "n < 2 ^ 63"
  shows "confined (second_pass op n)"
proof (rule confinedI)
  fix os r os' assume os: "out_ok os" "to_buffer os" "max_size os < 2 ^ 63" "second_pass op n os = Some (r, os')"
  then have le: "bytes_written os \<le> max_size os" by (simp add: out_ok_def accepts_def)
  then have add: "size_add (bytes_written os) n = bytes_written os + n" using os(3) assms(2) by simp
  show "spilled os os'"
  proof (cases "bytes_written os + n > max_size os")
    case True
    then have "OUT_RETURN_ERROR os ''stream full'' = (r, os')" using os add by (simp add: second_pass_def)
    then show ?thesis using spilled_error [OF os(1), of "''stream full''"] by (metis snd_conv)
  next
    case False
    then obtain status sub where sub: "op (substream_of os n) = Some (status, sub)"
      using os add by (auto simp: second_pass_def split: option.splits)
    have "out_ok (substream_of os n)" "to_buffer (substream_of os n)" "max_size (substream_of os n) < 2 ^ 63"
      using os(2) assms(2) by (simp_all add: out_ok_def accepts_def)
    from confinedD [OF assms(1) this sub] obtain bs e where bs: "length bs \<le> n" "sub = (emit bs (substream_of os n))\<lparr>os_errmsg := e\<rparr>"
      using os(2) by (auto simp: spilled_def accepts_def)
    have fit: "bytes_written os + length bs < size_max" "accepts os (length bs)"
      using bs(1) False os(2,3) by (simp_all add: accepts_def)
    have "\<exists>e'. os' = (emit bs os)\<lparr>os_errmsg := e'\<rparr>"
      using os add False sub bs fit(1) by (cases os) (auto simp: second_pass_def Let_def OUT_RETURN_ERROR_def emit_def split: if_splits)
    then show ?thesis using fit(2) by (auto simp: spilled_def)
  qed
qed

lemma confined_submessage:
  assumes "confined (\<lambda>os. rec os flds src)"
    and "\<And>sub. rec PB_OSTREAM_SIZING flds src = Some (Some (), sub) \<Longrightarrow> bytes_written sub < 2 ^ 63"
  shows "confined (\<lambda>os. pb_encode_submessage rec os flds src)"
proof (cases "rec PB_OSTREAM_SIZING flds src")
  case None
  then show ?thesis by (simp add: encode_submessage_passes confined_none)
next
  case (Some r)
  then obtain status sub where r: "rec PB_OSTREAM_SIZING flds src = Some (status, sub)" by (cases r) simp
  show ?thesis
  proof (cases status)
    case None
    then show ?thesis using r by (simp add: encode_submessage_passes confined_message)
  next
    case (Some u)
    from confined_seq [OF confined_varint confined_second_pass [OF assms(1) assms(2)]] show ?thesis
      using r Some by (simp add: encode_submessage_passes del: rbind_simps)
  qed
qed

lemma confined_items:
  assumes "\<And>p. confined (\<lambda>os. func os field p)"
  shows "confined (\<lambda>os. array_items_at func field os p n)"
  by (induction n arbitrary: p) (simp_all add: confined_nothing confined_seq assms)

lemma confined_tagged:
  assumes "\<And>p. confined (\<lambda>os. func os field p)"
  shows "confined (\<lambda>os. array_tagged_at m func field os p n)"
proof (induction n arbitrary: p)
  case (Suc n)
  show ?case unfolding array_tagged_at.simps by (intro confined_intros assms Suc.IH)
qed (simp add: confined_nothing)

lemma confined_packed:
  assumes "confined items"
  shows "confined (\<lambda>os. if os_callback os = Null_callback then Some (Some (), os\<lparr>bytes_written := k os\<rparr>) else items os)"
  by (rule confinedI) (use assms in \<open>simp add: confinedD\<close>)

lemma confined_array:
  assumes "\<And>p. confined (\<lambda>os. func os field p)"
  shows "confined (\<lambda>os. encode_array_at m os field data count func)"
  unfolding encode_array_at_def Let_def
  by (intro confined_intros confined_packed confined_items confined_tagged assms)

section \<open>Fields and messages\<close>

text \<open>
  What the application provides: descriptors of messages, blocks smaller than the address space, callbacks that stay inside
  the buffer they are given, and messages that take less than \<open>2 ^ 63\<close> bytes.
\<close>

definition program_confined :: "pb_program \<Rightarrow> pb_store \<Rightarrow> bool" where
  "program_confined prog m \<longleftrightarrow> heap_ok m \<and> (\<forall>i. message_ok (msgs prog i)) \<and>
     (\<forall>t. field_ok (ext_arg (ext_types prog t) ! 0)) \<and>
     (\<forall>f field arg. confined (\<lambda>os. Some (encode_fn prog f os field arg m))) \<and>
     (\<forall>t g ext. ext_encode (ext_types prog t) = Some g \<longrightarrow> confined (\<lambda>os. Some (g os ext m))) \<and>
     (\<forall>k i src n. pb_get_encoded_size k prog m (msgs prog i) src = Some (Some n) \<longrightarrow> n < 2 ^ 63)"

lemma confined_callback:
  assumes "\<And>f field arg. confined (\<lambda>os. Some (encode_fn prog f os field arg m))"
  shows "confined (\<lambda>os. encode_callback_field prog m os field data)"
proof (rule confinedI)
  fix os r os' assume os: "out_ok os" "to_buffer os" "max_size os < 2 ^ 63" "encode_callback_field prog m os field data = Some (r, os')"
  show "spilled os os'"
  proof (cases "load_ptr data m = 0")
    case True
    then show ?thesis using os by (simp add: encode_callback_field_def spilled_refl)
  next
    case False
    obtain x os1 where f: "encode_fn prog (load_ptr data m) os field (callback_arg data) m = (x, os1)"
      by (cases "encode_fn prog (load_ptr data m) os field (callback_arg data) m")
    then have s: "spilled os os1" using confinedD [OF assms os(1-3), of "load_ptr data m" field "callback_arg data"] by simp
    have "os' = os1 \<or> os' = snd (OUT_RETURN_ERROR os1 ''callback error'')"
      using os(4) False f by (auto simp: encode_callback_field_def Let_def OUT_RETURN_ERROR_def split: option.splits)
    then show ?thesis using s spilled_trans [OF s spilled_error [OF spilled_out_ok [OF os(1) s]]] by auto
  qed
qed

lemma confined_field:
  assumes "field_ok field" "program_confined prog m" "\<And>i src. confined (\<lambda>os. pb_encode_submessage rec os (msgs prog i) src)"
  shows "confined (\<lambda>os. encode_field prog m n rec os field data)"
proof -
  have m: "heap_ok m" "\<And>f field arg. confined (\<lambda>os. Some (encode_fn prog f os field arg m))"
    using assms(2) by (simp_all add: program_confined_def)
  have sub: "confined (\<lambda>os. pb_encode_submessage rec os flds src)" if "submsg_fields prog field = Some flds" for flds src
    using that assms(3) by (auto simp: submsg_fields_def split: pb_ptr.splits)
  have func: "confined (\<lambda>os. encoder prog m rec (PB_LTYPE (f_type field)) os field src)" for src
    by (intro confined_encoder assms(1) m(1) sub)
  have "confined (\<lambda>os. encode_basic_field prog m n rec os field data)"
    unfolding encode_basic_field_def Let_def by (intro confined_intros confined_array func)
  then show ?thesis
    unfolding encode_field_def Let_def by (intro confined_if confined_error confined_callback m(2))
qed

lemma confined_extensions:
  assumes "\<And>ext. confined (\<lambda>os. handler os ext)" "program_confined prog m"
  shows "confined (\<lambda>os. extension_loop k prog m handler os ext)"
proof (induction k arbitrary: ext)
  case 0
  then show ?case by (simp add: confined_none)
next
  case (Suc k)
  have "confined (\<lambda>os. case ext_encode (extension_type prog ext m) of None \<Rightarrow> handler os ext | Some f \<Rightarrow> Some (f os ext m))"
    using assms(2) by (intro confined_option assms(1)) (auto simp: program_confined_def extension_type_def)
  then show ?case unfolding extension_loop.simps by (intro confined_if confined_nothing confined_seq Suc.IH)
qed

lemma confined_entry:
  assumes "field_ok (it_field iter)" "program_confined prog m" "\<And>i src. confined (\<lambda>os. pb_encode_submessage rec os (msgs prog i) src)"
  shows "confined (\<lambda>os. encode_entry prog m n rec os iter)"
proof -
  have "field_ok (ext_arg (extension_type prog ext m) ! 0)" for ext
    using assms(2) by (simp add: program_confined_def extension_type_def)
  then have "confined (\<lambda>os. default_extension_encoder prog m n rec os ext)" for ext
    unfolding default_extension_encoder_def Let_def by (intro confined_if confined_field assms(2,3))
  then show ?thesis
    unfolding encode_entry_def encode_extension_field_def
    by (intro confined_if confined_extensions confined_field assms)
qed

lemma confined_loop:
  assumes "\<And>iter. iter_in flds iter \<Longrightarrow> confined (\<lambda>os. entry os iter)" "wf_fields flds" "iter_in flds iter"
  shows "confined (\<lambda>os. encode_loop k entry os iter)"
  using assms(3)
proof (induction k arbitrary: iter)
  case 0
  then show ?case by (simp add: confined_none)
next
  case (Suc k)
  have "confined (\<lambda>os. case pb_field_iter_next iter of (True, iter) \<Rightarrow> encode_loop k entry os iter | (False, iter) \<Rightarrow> Some (Some (), os))"
    using Suc.IH [OF iter_in_next [OF assms(2) Suc.prems]]
    by (cases "pb_field_iter_next iter"; cases "fst (pb_field_iter_next iter)") (simp_all add: confined_nothing)
  then show ?case unfolding encode_loop.simps by (intro confined_seq assms(1) Suc.prems)
qed

lemma confined_message_of:
  assumes "program_confined prog m" "confined (\<lambda>os. pb_encode k prog m os (msgs prog i) src)"
  shows "confined (\<lambda>os. pb_encode_submessage (pb_encode k prog m) os (msgs prog i) src)"
proof (rule confined_submessage [where rec = "pb_encode k prog m" and flds = "msgs prog i" and src = src, OF assms(2)])
  fix sub assume "pb_encode k prog m PB_OSTREAM_SIZING (msgs prog i) src = Some (Some (), sub)"
  then have "pb_get_encoded_size k prog m (msgs prog i) src = Some (Some (bytes_written sub))" by (simp add: pb_get_encoded_size_def)
  then show "bytes_written sub < 2 ^ 63" using assms(1) unfolding program_confined_def by blast
qed

lemma confined_encode:
  assumes "program_confined prog m" "message_ok flds"
  shows "confined (\<lambda>os. pb_encode n prog m os flds src)"
  using assms(2)
proof (induction n arbitrary: flds src)
  case 0
  then show ?case by (simp add: confined_none)
next
  case (Suc n)
  then have wf: "wf_fields flds" by (simp add: message_ok_def)
  have "message_ok (msgs prog i)" for i using assms(1) by (simp add: program_confined_def)
  then have sub: "confined (\<lambda>os. pb_encode_submessage (pb_encode n prog m) os (msgs prog i) src)" for i src
    by (intro confined_message_of assms(1) Suc.IH)
  have loop: "confined (\<lambda>os. encode_loop (length flds) (encode_entry prog m n (pb_encode n prog m)) os
      (snd (pb_field_iter_begin flds src)))"
    by (intro confined_loop [OF _ wf iter_in_begin [OF wf]] confined_entry assms(1) sub iter_in_ok [OF Suc.prems])
  show ?case
    using loop by (cases "pb_field_iter_begin flds src"; cases "fst (pb_field_iter_begin flds src)") (simp_all add: confined_nothing)
qed

section \<open>Properties\<close>

text \<open>C26: no encoder of \<^verbatim>\<open>pb_encode.c\<close>, whatever it is given, writes beyond the capacity of its buffer: not the
  encoders of values, nor those of fields and arrays, of submessages, which are given a limit of their own, and of whole
  messages; when a call returns, successfully or not, the memory has grown by exactly what \<open>bytes_written\<close> has grown, which stays
  below \<open>max_size\<close>. The callbacks of the application are relied on to do the same, and the submessages
  to take less than \<open>2 ^ 63\<close> bytes: the check of \<open>pb_encode_submessage\<close> does not look for a sum that wraps around.\<close>

theorem pb_writes_within_buffer:
  assumes "out_ok os" "os_callback os = Buf_write" "max_size os < 2 ^ 63" "length bs < size_max"
    and "program_confined prog m" "field_ok f" "message_ok flds"
    and "res \<in> {Some (pb_write os bs), Some (pb_encode_varint os v), Some (pb_encode_svarint os i),
      Some (pb_encode_fixed32 os w), Some (pb_encode_fixed64 os v), Some (pb_encode_tag_for_field os f), Some (pb_encode_string os bs),
      encoder prog m (pb_encode n prog m) (PB_LTYPE (f_type f)) os f src, encode_field prog m k (pb_encode n prog m) os f src,
      encode_array_at m os f src count (encoder prog m (pb_encode n prog m) (PB_LTYPE (f_type f))),
      pb_encode_submessage (pb_encode n prog m) os (msgs prog j) src, pb_encode n prog m os flds src,
      pb_encode_delimited n prog m os (msgs prog j) src, pb_encode_nullterminated n prog m os flds src}"
    and "res = Some (r, os')"
  shows "\<exists>out. os_state os' = os_state os @ out \<and> bytes_written os' = bytes_written os + length out \<and>
    bytes_written os' \<le> max_size os"
proof -
  have msgs: "message_ok (msgs prog j)" for j using assms(5) by (simp add: program_confined_def)
  have sub: "confined (\<lambda>os. pb_encode_submessage (pb_encode n prog m) os (msgs prog j) src)" for j src
    by (intro confined_message_of confined_encode assms(5) msgs)
  have field_sub: "confined (\<lambda>os. pb_encode_submessage (pb_encode n prog m) os flds src)"
    if "submsg_fields prog f = Some flds" for flds src
    using that sub by (auto simp: submsg_fields_def split: pb_ptr.splits)
  have heap: "heap_ok m" using assms(5) by (simp add: program_confined_def)
  have enc: "confined (\<lambda>os. encoder prog m (pb_encode n prog m) (PB_LTYPE (f_type f)) os f src)" for src
    by (rule confined_encoder [OF assms(6) heap]) (rule field_sub)
  have run: "spilled os os'" if "confined op" "res = op os" for op
    by (rule confinedD [where r = r, OF that(1) assms(1-3)]) (use that(2) assms(9) in simp)
  have svarint: "confined (\<lambda>os. Some (pb_encode_svarint os i))"
    unfolding pb_encode_svarint_def by (rule confined_varint)
  have delimited: "confined (\<lambda>os. pb_encode_delimited n prog m os (msgs prog j) src)" unfolding pb_encode_delimited_def by (rule sub)
  have terminated: "confined (\<lambda>os. pb_encode_nullterminated n prog m os flds src)"
    unfolding pb_encode_nullterminated_def by (intro confined_seq confined_encode confined_write assms(5,7)) simp
  have field: "confined (\<lambda>os. encode_field prog m k (pb_encode n prog m) os f src)"
    by (rule confined_field [OF assms(6,5) sub])
  have array: "confined (\<lambda>os. encode_array_at m os f src count (encoder prog m (pb_encode n prog m) (PB_LTYPE (f_type f))))"
    by (rule confined_array) (rule enc)
  note runs = run [OF confined_write [OF assms(4)]] run [OF confined_varint] run [OF svarint] run [OF confined_fixed(1)]
    run [OF confined_fixed(2)] run [OF confined_tag_for_field] run [OF confined_string [OF assms(4)]] run [OF enc] run [OF field]
    run [OF array] run [OF sub] run [OF confined_encode [OF assms(5,7)]] run [OF delimited] run [OF terminated]
  have "spilled os os'"
    using assms(8) unfolding insert_iff empty_iff by (elim disjE FalseE) (erule runs)+
  then show ?thesis using assms(2) by (auto simp: spilled_def emit_def accepts_def)
qed

text \<open>A message that holds a message with one number, in a buffer that is too small for it.\<close>

definition byte_fields :: "pb_field_t list" where
  "byte_fields = [pb_field 1 (PB_LTYPE_BOOL OR PB_HTYPE_REQUIRED) 0 0 1 0 PtrNull, pb_field 0 0 0 0 0 0 PtrNull]"

definition byte_program :: pb_program where
  "byte_program = example_program\<lparr>msgs := \<lambda>_. byte_fields\<rparr>"

lemma byte_encoding:
  "pb_encode (Suc n) byte_program m os byte_fields a =
    (if a = 0 then Some (OUT_RETURN_ERROR os ''missing required field'')
     else rbind (Some (pb_encode_varint os 8)) (\<lambda>_ os. Some (pb_encode_varint os (if load_bool a m then 1 else 0))))"
  by (simp add: byte_fields_def pb_field_iter_begin_def pb_field_iter_next_def Let_def encode_entry_def encode_field_def
      encode_basic_field_def eval_fields eval_encoders load_bool_def pb_enc_bool_def rbind_unit take_load)

lemma byte_program_confined: "program_confined byte_program example_store"
proof -
  have size: "n < 2 ^ 63" if "pb_get_encoded_size k byte_program example_store byte_fields a = Some (Some n)" for k a n
  proof (cases k)
    case 0
    then show ?thesis using that by (simp add: pb_get_encoded_size_def)
  next
    case (Suc j)
    let ?b = "if load_bool a example_store then 1 else 0 :: u64"
    have "writes (\<lambda>os. rbind (Some (pb_encode_varint os 8)) (\<lambda>_ os. Some (pb_encode_varint os ?b)))
        (varint (unat (8 :: u64)) @ varint (unat ?b))"
      using length_varint_u64 [of "8 :: u64"] length_varint_u64 [of ?b] by (intro writes_seq writes_varint) simp
    from sizing_writes [OF this] show ?thesis
      using that Suc length_varint_u64 [of "8 :: u64"] length_varint_u64 [of ?b]
      by (auto simp: pb_get_encoded_size_def byte_encoding bytes_written_sizing OUT_RETURN_ERROR_def simp del: pb_encode.simps rbind_simps split: if_splits)
  qed
  then show ?thesis using confined_nothing
    by (auto simp: program_confined_def byte_program_def example_program_def heap_ok_def example_store_def message_ok_def
        byte_fields_def outer_fields_def wf_fields_def field_ok_def)
qed

lemma pb_writes_within_buffer_witness:
  "\<exists>r os' out. pb_encode 3 byte_program example_store (pb_ostream_from_buffer 3) outer_fields 1000 = Some (r, os') \<and>
    os_state os' = out \<and> bytes_written os' = length out \<and> length out \<le> 3"
proof -
  have "nested (Suc (Suc 0)) byte_program outer_fields"
    by (simp add: outer_fields_def byte_fields_def byte_program_def wf_fields_def field_returns_def submsg_fields_def eval_fields)
  then obtain r os' where run: "pb_encode (Suc (Suc (Suc 0))) byte_program example_store (pb_ostream_from_buffer 3) outer_fields 1000 = Some (r, os')"
    using encode_returns [of "Suc (Suc 0)" byte_program outer_fields] unfolding returns_def by (metis not_None_eq surj_pair)
  let ?os = "pb_ostream_from_buffer 3"
  have os: "out_ok ?os" "os_callback ?os = Buf_write" "max_size ?os < 2 ^ 63" "length ([] :: bytes) < size_max"
    by (simp_all add: pb_ostream_from_buffer_def out_ok_def accepts_def)
  have field: "field_ok (outer_fields ! 0)" "message_ok outer_fields"
    by (simp_all add: outer_fields_def field_ok_def message_ok_def wf_fields_def)
  obtain out where "os_state os' = os_state ?os @ out" "bytes_written os' = bytes_written ?os + length out" "bytes_written os' \<le> max_size ?os"
    using pb_writes_within_buffer [OF os byte_program_confined field _ run, of 0 0 0 "Suc (Suc (Suc 0))" 1000 0 0 0] by auto
  then show ?thesis using run by (intro exI [of _ r] exI [of _ os'] exI [of _ out]) (simp add: pb_ostream_from_buffer_def eval_nat_numeral)
qed

end
