(* ===== verification/PbDefaults.thy ===== *)
theory PbDefaults
  imports PbMemory
begin

text \<open>
  The functions of \<^verbatim>\<open>nanopb/pb_decode.c\<close> that walk over a struct without reading a stream: initialising a
  message to its defaults and releasing what it owns on the heap. The bound \<open>n\<close> of each is the nesting of messages and
  of extensions; a loop over the entries of a descriptor array is bounded by its length.
\<close>

section \<open>Loops over a message\<close>

text \<open>The do-while loop with \<open>pb_field_iter_next\<close>.\<close>

fun fields_loop ::
    "nat \<Rightarrow> (pb_field_iter_t \<Rightarrow> pb_store \<Rightarrow> pb_store option) \<Rightarrow> pb_field_iter_t \<Rightarrow> pb_store \<Rightarrow> pb_store option" where
  "fields_loop 0 entry iter m = None"
| "fields_loop (Suc k) entry iter m =
     (case entry iter m of
        None \<Rightarrow> None
      | Some m \<Rightarrow>
          (case pb_field_iter_next iter of
             (True, iter) \<Rightarrow> fields_loop k entry iter m
           | (False, iter) \<Rightarrow> Some m))"

definition message_fields ::
    "(pb_field_iter_t \<Rightarrow> pb_store \<Rightarrow> pb_store option) \<Rightarrow> pb_field_t list \<Rightarrow> int \<Rightarrow> pb_store \<Rightarrow> pb_store option" where
  "message_fields entry flds dest m =
     (case pb_field_iter_begin flds dest of
        (False, iter) \<Rightarrow> Some m
      | (True, iter) \<Rightarrow> fields_loop (length flds) entry iter m)"

text \<open>The walk over the linked list of extensions, whose \<open>found\<close> member may be reset first.\<close>

definition iter_from_extension :: "pb_program \<Rightarrow> int \<Rightarrow> pb_store \<Rightarrow> pb_field_iter_t" where
  "iter_from_extension prog ext m =
     (let flds = ext_arg (extension_type prog ext m);
          iter = snd (pb_field_iter_begin flds (load_ptr (extension_dest ext) m));
          iter = iter\<lparr>pData := load_ptr (extension_dest ext) m, pSize := extension_found ext\<rparr>
      in if PB_ATYPE (f_type (flds ! 0)) = PB_ATYPE_POINTER then iter\<lparr>pData := extension_dest ext\<rparr> else iter)"

fun extensions_loop ::
    "nat \<Rightarrow> pb_program \<Rightarrow> bool \<Rightarrow> (pb_field_iter_t \<Rightarrow> pb_store \<Rightarrow> pb_store option) \<Rightarrow> int \<Rightarrow> pb_store \<Rightarrow> pb_store option" where
  "extensions_loop 0 prog reset entry ext m = None"
| "extensions_loop (Suc k) prog reset entry ext m =
     (if ext = 0 then Some m
      else
        let m = (if reset then store_bool (extension_found ext) False m else m)
        in case entry (iter_from_extension prog ext m) m of
             None \<Rightarrow> None
           | Some m \<Rightarrow> extensions_loop k prog reset entry (load_ptr (extension_next ext) m) m)"

section \<open>Defaults\<close>

text \<open>A static member: its has flag or counter is reset, and its value initialised.\<close>

definition static_to_default ::
    "pb_program \<Rightarrow> (pb_field_t list \<Rightarrow> int \<Rightarrow> pb_store \<Rightarrow> pb_store option) \<Rightarrow> pb_field_iter_t \<Rightarrow> pb_store \<Rightarrow> pb_store option" where
  "static_to_default prog set_to_defaults iter m =
     (let field = it_field iter; htype = PB_HTYPE (f_type field);
          (init_data, m) =
            (if htype = PB_HTYPE_OPTIONAL \<and> pSize iter \<noteq> pData iter then (True, store_bool (pSize iter) False m)
             else if htype = PB_HTYPE_REPEATED \<or> htype = PB_HTYPE_ONEOF then (False, store_size (pSize iter) 0 m)
             else (True, m))
      in if init_data then
           if PB_LTYPE (f_type field) = PB_LTYPE_SUBMESSAGE then
             (case submsg_fields prog field of None \<Rightarrow> None | Some flds \<Rightarrow> set_to_defaults flds (pData iter) m)
           else (case f_ptr field of
                   PtrDefault d \<Rightarrow> Some (store (pData iter) (take (f_data_size field) d) m)
                 | PtrNull \<Rightarrow> Some (store (pData iter) (replicate (f_data_size field) 0) m)
                 | PtrFields i \<Rightarrow> None)
         else Some m)"

fun pb_field_set_to_default :: "nat \<Rightarrow> pb_program \<Rightarrow> pb_field_iter_t \<Rightarrow> pb_store \<Rightarrow> pb_store option" where
  "pb_field_set_to_default 0 prog iter m = None"
| "pb_field_set_to_default (Suc n) prog iter m =
     (let type = f_type (it_field iter) in
      if PB_LTYPE type = PB_LTYPE_EXTENSION
      then extensions_loop n prog True (pb_field_set_to_default n prog) (load_ptr (pData iter) m) m
      else if PB_ATYPE type = PB_ATYPE_STATIC
      then static_to_default prog (message_fields (pb_field_set_to_default n prog)) iter m
      else if PB_ATYPE type = PB_ATYPE_POINTER then
        let m = store_ptr (pData iter) 0 m
        in Some (if PB_HTYPE type = PB_HTYPE_REPEATED \<or> PB_HTYPE type = PB_HTYPE_ONEOF
                 then store_size (pSize iter) 0 m else m)
      else Some m)"

definition pb_message_set_to_defaults :: "nat \<Rightarrow> pb_program \<Rightarrow> pb_field_t list \<Rightarrow> int \<Rightarrow> pb_store \<Rightarrow> pb_store option" where
  "pb_message_set_to_defaults n prog = message_fields (pb_field_set_to_default n prog)"

section \<open>Release\<close>

fun release_items ::
    "(int \<Rightarrow> pb_store \<Rightarrow> pb_store option) \<Rightarrow> nat \<Rightarrow> int \<Rightarrow> nat \<Rightarrow> pb_store \<Rightarrow> pb_store option" where
  "release_items release data_size item 0 m = Some m"
| "release_items release data_size item (Suc count) m =
     (case release item m of
        None \<Rightarrow> None
      | Some m \<Rightarrow> release_items release data_size (item + int data_size) count m)"

fun free_items :: "int \<Rightarrow> nat \<Rightarrow> pb_store \<Rightarrow> pb_store" where
  "free_items item 0 m = m"
| "free_items item (Suc count) m = free_items (item + 8) count (store_ptr item 0 (pb_free (load_ptr item m) m))"

text \<open>The number of submessages a field holds.\<close>

definition release_count :: "pb_field_iter_t \<Rightarrow> pb_store \<Rightarrow> nat" where
  "release_count iter m =
     (let field = it_field iter; static = (PB_ATYPE (f_type field) = PB_ATYPE_STATIC) in
      if PB_HTYPE (f_type field) = PB_HTYPE_REPEATED then
        let count = (if static \<and> pSize iter = pData iter then f_array_size field else load_size (pSize iter) m)
        in if static \<and> count > f_array_size field then f_array_size field else count
      else 1)"

definition release_message ::
    "(pb_field_iter_t \<Rightarrow> pb_store \<Rightarrow> pb_store option) \<Rightarrow> pb_field_t list \<Rightarrow> int \<Rightarrow> pb_store \<Rightarrow> pb_store option" where
  "release_message entry flds dest m = (if dest = 0 then Some m else message_fields entry flds dest m)"

definition release_pointer :: "pb_field_iter_t \<Rightarrow> pb_store \<Rightarrow> pb_store" where
  "release_pointer iter m =
     (let type = f_type (it_field iter);
          m = (if PB_HTYPE type = PB_HTYPE_REPEATED \<and> PB_LTYPE type \<in> {PB_LTYPE_STRING, PB_LTYPE_BYTES}
               then free_items (load_ptr (pData iter) m) (load_size (pSize iter) m) m else m);
          m = (if PB_HTYPE type = PB_HTYPE_REPEATED then store_size (pSize iter) 0 m else m)
      in store_ptr (pData iter) 0 (pb_free (load_ptr (pData iter) m) m))"

fun pb_release_single_field :: "nat \<Rightarrow> pb_program \<Rightarrow> pb_field_iter_t \<Rightarrow> pb_store \<Rightarrow> pb_store option" where
  "pb_release_single_field 0 prog iter m = None"
| "pb_release_single_field (Suc n) prog iter m =
     (let field = it_field iter; type = f_type field in
      if PB_HTYPE type = PB_HTYPE_ONEOF \<and> load_size (pSize iter) m \<noteq> f_tag field then Some m
      else
        case (if PB_LTYPE type = PB_LTYPE_EXTENSION
              then extensions_loop n prog False (pb_release_single_field n prog) (load_ptr (pData iter) m) m
              else if PB_LTYPE type = PB_LTYPE_SUBMESSAGE \<and> PB_ATYPE type \<noteq> PB_ATYPE_CALLBACK then
                let item = (if PB_ATYPE type = PB_ATYPE_POINTER then load_ptr (pData iter) m else pData iter)
                in if item \<noteq> 0 then
                     (case submsg_fields prog field of
                        None \<Rightarrow> None
                      | Some flds \<Rightarrow>
                          release_items (release_message (pb_release_single_field n prog) flds) (f_data_size field) item
                            (release_count iter m) m)
                   else Some m
              else Some m) of
          None \<Rightarrow> None
        | Some m \<Rightarrow> Some (if PB_ATYPE type = PB_ATYPE_POINTER then release_pointer iter m else m))"

definition pb_release :: "nat \<Rightarrow> pb_program \<Rightarrow> pb_field_t list \<Rightarrow> int \<Rightarrow> pb_store \<Rightarrow> pb_store option" where
  "pb_release n prog = release_message (pb_release_single_field n prog)"

end
