(* ===== verification/PbDecode.thy ===== *)
theory PbDecode
  imports PbDefaults
begin

text \<open>
  The message decoder of \<^verbatim>\<open>nanopb/pb_decode.c\<close>: \<open>pb_decode\<close> reads fields from a stream and stores them in the
  struct at an address. The state of a run is the stream and the memory. As in the encoder, the recursion through
  submessages is a parameter, and the bound \<open>n\<close> counts nesting, fields and calls of a callback in a row.
\<close>

type_synonym 'a dec = "('a, pb_dec_state) run"
type_synonym mem_decoder = "pb_istream_t \<Rightarrow> pb_field_t \<Rightarrow> int \<Rightarrow> pb_store \<Rightarrow> unit dec"
type_synonym rec_decode = "pb_istream_t \<Rightarrow> pb_field_t list \<Rightarrow> int \<Rightarrow> pb_store \<Rightarrow> unit dec"

abbreviation dec_error :: "pb_istream_t \<Rightarrow> pb_store \<Rightarrow> string \<Rightarrow> 'a dec" where
  "dec_error stream m msg \<equiv> Some (on_stream (IN_RETURN_ERROR stream msg) m)"

section \<open>Decoders on memory\<close>

text \<open>
  The decoders of \<open>PbFields\<close> with the stores they make: a number is stored before the check that it was not clamped,
  the size of bytes before and the terminator of a string after the read, whether that succeeds or not.
\<close>

definition store_clamped :: "pb_istream_t \<Rightarrow> pb_field_t \<Rightarrow> u64 \<Rightarrow> u64 \<Rightarrow> int \<Rightarrow> pb_store \<Rightarrow> unit dec" where
  "store_clamped stream field clamped v dest m =
     (if f_data_size field \<in> {8, 4, 2, 1} then
        let m = store dest (store_int (f_data_size field) v) m
        in if clamped \<noteq> v then dec_error stream m ''integer too large'' else Some (Some (), (stream, m))
      else dec_error stream m ''invalid data_size'')"

definition dec_bool_at :: mem_decoder where
  "dec_bool_at stream field dest m =
     rbind (Some (on_stream (pb_dec_bool stream) m)) (\<lambda>b (stream, m). Some (Some (), (stream, store_bool dest b m)))"

definition dec_varint_at :: mem_decoder where
  "dec_varint_at stream field dest m =
     rbind (Some (on_stream (pb_decode_varint stream) m)) (\<lambda>v (stream, m).
       let svalue = (if f_data_size field = 8 then v else signed_take_bit 31 v)
       in store_clamped stream field (signed_take_bit (8 * f_data_size field - 1) svalue) svalue dest m)"

definition dec_uvarint_at :: mem_decoder where
  "dec_uvarint_at stream field dest m =
     rbind (Some (on_stream (pb_decode_varint stream) m)) (\<lambda>v (stream, m).
       store_clamped stream field (take_bit (8 * f_data_size field) v) v dest m)"

definition dec_svarint_at :: mem_decoder where
  "dec_svarint_at stream field dest m =
     rbind (Some (on_stream (pb_decode_svarint stream) m)) (\<lambda>v (stream, m).
       store_clamped stream field (signed_take_bit (8 * f_data_size field - 1) v) v dest m)"

definition dec_fixed32_at :: mem_decoder where
  "dec_fixed32_at stream field dest m =
     rbind (Some (on_stream (pb_dec_fixed32 stream field) m)) (\<lambda>bs (stream, m). Some (Some (), (stream, store dest bs m)))"

definition dec_fixed64_at :: mem_decoder where
  "dec_fixed64_at stream field dest m =
     rbind (Some (on_stream (pb_dec_fixed64 stream field) m)) (\<lambda>bs (stream, m). Some (Some (), (stream, store dest bs m)))"

definition allocate_field_at :: "pb_program \<Rightarrow> pb_istream_t \<Rightarrow> int \<Rightarrow> nat \<Rightarrow> nat \<Rightarrow> pb_store \<Rightarrow> unit dec" where
  "allocate_field_at prog stream data data_size array_size m =
     (if data_size = 0 \<or> array_size = 0 then dec_error stream m ''invalid size''
      else
        let check_limit = 2 ^ 32
        in if (data_size \<ge> check_limit \<or> array_size \<ge> check_limit) \<and> (size_max - 1) div array_size < data_size
           then dec_error stream m ''size too large''
           else (case pb_realloc prog (load_ptr data m) (array_size * data_size mod size_max) m of
                   (ptr, m) \<Rightarrow>
                     if ptr = 0 then dec_error stream m ''realloc failed''
                     else Some (Some (), (stream, store_ptr data ptr m))))"

definition dec_bytes_at :: "pb_program \<Rightarrow> mem_decoder" where
  "dec_bytes_at prog stream field dest m =
     rbind (Some (on_stream (pb_decode_varint32 stream) m)) (\<lambda>v (stream, m).
       let n = unat v; alloc_size = PB_BYTES_ARRAY_T_ALLOCSIZE n in
       if n > PB_SIZE_MAX then dec_error stream m ''bytes overflow''
       else if n > alloc_size then dec_error stream m ''size too large''
       else rbind
         (if PB_ATYPE (f_type field) = PB_ATYPE_POINTER then
            if bytes_left stream < n then dec_error stream m ''end-of-stream''
            else rbind (allocate_field_at prog stream dest alloc_size 1 m) (\<lambda>_ (stream, m).
                   Some (Some (load_ptr dest m), (stream, m)))
          else if alloc_size > f_data_size field then dec_error stream m ''bytes overflow''
          else Some (Some dest, (stream, m)))
         (\<lambda>bdest (stream, m).
            let m = store_size bdest n m
            in rbind (Some (on_stream (pb_read stream False n) m)) (\<lambda>bs (stream, m).
                 Some (Some (), (stream, store (bdest + 4) bs m)))))"

definition dec_string_at :: "pb_program \<Rightarrow> mem_decoder" where
  "dec_string_at prog stream field dest m =
     rbind (Some (on_stream (pb_decode_varint32 stream) m)) (\<lambda>v (stream, m).
       let n = unat v; alloc_size = unat (v + 1) in
       if alloc_size < n then dec_error stream m ''size too large''
       else rbind
         (if PB_ATYPE (f_type field) = PB_ATYPE_POINTER then
            if bytes_left stream < n then dec_error stream m ''end-of-stream''
            else rbind (allocate_field_at prog stream dest alloc_size 1 m) (\<lambda>_ (stream, m).
                   Some (Some (load_ptr dest m), (stream, m)))
          else if alloc_size > f_data_size field then dec_error stream m ''string overflow''
          else Some (Some dest, (stream, m)))
         (\<lambda>dest (stream, m).
            case pb_read stream False n of
              (None, stream) \<Rightarrow> Some (None, (stream, store (dest + int n) [0] m))
            | (Some bs, stream) \<Rightarrow> Some (Some (), (stream, store (dest + int n) [0] (store dest bs m)))))"

definition dec_fixed_length_bytes_at :: mem_decoder where
  "dec_fixed_length_bytes_at stream field dest m =
     rbind (Some (on_stream (pb_dec_fixed_length_bytes stream field) m)) (\<lambda>bs (stream, m).
       Some (Some (), (stream, store dest bs m)))"

text \<open>\<open>rec\<close> is \<open>pb_decode\<close> for the entries of an array, which are initialised first, and \<open>rec_noinit\<close> \<open>pb_decode_noinit\<close>.\<close>

definition pb_dec_submessage :: "pb_program \<Rightarrow> rec_decode \<Rightarrow> rec_decode \<Rightarrow> mem_decoder" where
  "pb_dec_submessage prog rec rec_noinit stream field dest m =
     rbind (Some (on_stream (pb_make_string_substream stream) m)) (\<lambda>substream (stream, m).
       case submsg_fields prog field of
         None \<Rightarrow> dec_error stream m ''invalid field descriptor''
       | Some flds \<Rightarrow>
           (case (if PB_HTYPE (f_type field) = PB_HTYPE_REPEATED then rec substream flds dest m
                  else rec_noinit substream flds dest m) of
              None \<Rightarrow> None
            | Some (status, (substream, m)) \<Rightarrow>
                rbind (Some (on_stream (pb_close_string_substream stream substream) m)) (\<lambda>_ (stream, m).
                  Some (status, (stream, m)))))"

definition decoder :: "pb_program \<Rightarrow> mem_decoder \<Rightarrow> u8 \<Rightarrow> mem_decoder" where
  "decoder prog dec_submessage ltype stream field dest m =
     (if ltype = PB_LTYPE_BOOL then dec_bool_at stream field dest m
      else if ltype = PB_LTYPE_VARINT then dec_varint_at stream field dest m
      else if ltype = PB_LTYPE_UVARINT then dec_uvarint_at stream field dest m
      else if ltype = PB_LTYPE_SVARINT then dec_svarint_at stream field dest m
      else if ltype = PB_LTYPE_FIXED32 then dec_fixed32_at stream field dest m
      else if ltype = PB_LTYPE_FIXED64 then dec_fixed64_at stream field dest m
      else if ltype = PB_LTYPE_BYTES then dec_bytes_at prog stream field dest m
      else if ltype = PB_LTYPE_STRING then dec_string_at prog stream field dest m
      else if ltype = PB_LTYPE_SUBMESSAGE then dec_submessage stream field dest m
      else if ltype = PB_LTYPE_FIXED_LENGTH_BYTES then dec_fixed_length_bytes_at stream field dest m
      else None)"

section \<open>Static fields\<close>

text \<open>The product of \<open>data_size\<close> and the counter is one of 32-bit numbers.\<close>

definition item_addr :: "int \<Rightarrow> pb_field_t \<Rightarrow> nat \<Rightarrow> int" where
  "item_addr base field i = base + int (f_data_size field * i mod 2 ^ 32)"

text \<open>The result is \<open>status\<close>.\<close>

fun static_packed_loop ::
    "nat \<Rightarrow> mem_decoder \<Rightarrow> pb_field_iter_t \<Rightarrow> pb_istream_t \<Rightarrow> pb_store \<Rightarrow> (bool \<times> pb_dec_state) option" where
  "static_packed_loop 0 func iter substream m = None"
| "static_packed_loop (Suc k) func iter substream m =
     (let field = it_field iter; count = load_size (pSize iter) m in
      if bytes_left substream > 0 \<and> count < f_array_size field then
        (case func substream field (item_addr (pData iter) field count) m of
           None \<Rightarrow> None
         | Some (None, (substream, m)) \<Rightarrow> Some (False, (substream, m))
         | Some (Some _, (substream, m)) \<Rightarrow>
             static_packed_loop k func iter substream (store_size (pSize iter) (load_size (pSize iter) m + 1) m))
      else Some (True, (substream, m)))"

definition decode_static_field ::
    "nat \<Rightarrow> pb_program \<Rightarrow> mem_decoder \<Rightarrow> pb_istream_t \<Rightarrow> nat \<Rightarrow> pb_field_iter_t \<Rightarrow> pb_store \<Rightarrow> unit dec" where
  "decode_static_field n prog dec_submessage stream wire_type iter m =
     (let field = it_field iter; type = f_type field; func = decoder prog dec_submessage (PB_LTYPE type) in
      if PB_HTYPE type = PB_HTYPE_REQUIRED then func stream field (pData iter) m
      else if PB_HTYPE type = PB_HTYPE_OPTIONAL then
        func stream field (pData iter) (if pSize iter \<noteq> pData iter then store_bool (pSize iter) True m else m)
      else if PB_HTYPE type = PB_HTYPE_REPEATED then
        if wire_type = PB_WT_STRING \<and> PB_LTYPE type \<le> PB_LTYPE_LAST_PACKABLE then
          rbind (Some (on_stream (pb_make_string_substream stream) m)) (\<lambda>substream (stream, m).
            case static_packed_loop n func iter substream m of
              None \<Rightarrow> None
            | Some (status, (substream, m)) \<Rightarrow>
                if bytes_left substream \<noteq> 0 then dec_error stream m ''array overflow''
                else rbind (Some (on_stream (pb_close_string_substream stream substream) m)) (\<lambda>_ (stream, m).
                  Some (if status then Some () else None, (stream, m))))
        else
          let count = load_size (pSize iter) m; item = item_addr (pData iter) field count;
              m = store_size (pSize iter) (count + 1) m
          in if count \<ge> f_array_size field then dec_error stream m ''array overflow''
             else func stream field item m
      else if PB_HTYPE type = PB_HTYPE_ONEOF then
        (case (if PB_LTYPE type = PB_LTYPE_SUBMESSAGE \<and> load_size (pSize iter) m \<noteq> f_tag field then
                 (case submsg_fields prog field of
                    None \<Rightarrow> None
                  | Some flds \<Rightarrow>
                      pb_message_set_to_defaults n prog flds (pData iter)
                        (store (pData iter) (replicate (f_data_size field) 0) m))
               else Some m) of
           None \<Rightarrow> None
         | Some m \<Rightarrow> func stream field (pData iter) (store_size (pSize iter) (f_tag field) m))
      else dec_error stream m ''invalid field type'')"

section \<open>Pointer fields\<close>

definition initialize_pointer_field :: "nat \<Rightarrow> pb_program \<Rightarrow> int \<Rightarrow> pb_field_iter_t \<Rightarrow> pb_store \<Rightarrow> pb_store option" where
  "initialize_pointer_field n prog item iter m =
     (let field = it_field iter; ltype = PB_LTYPE (f_type field) in
      if ltype = PB_LTYPE_STRING \<or> ltype = PB_LTYPE_BYTES then Some (store_ptr item 0 m)
      else if ltype = PB_LTYPE_SUBMESSAGE then
        (case submsg_fields prog field of
           None \<Rightarrow> None
         | Some flds \<Rightarrow>
             pb_message_set_to_defaults n prog flds item (store item (replicate (f_data_size field) 0) m))
      else Some m)"

text \<open>Decoding one item behind a pointer.\<close>

definition decode_item ::
    "nat \<Rightarrow> pb_program \<Rightarrow> mem_decoder \<Rightarrow> pb_istream_t \<Rightarrow> int \<Rightarrow> pb_field_iter_t \<Rightarrow> pb_store \<Rightarrow> unit dec" where
  "decode_item n prog func stream item iter m =
     (case initialize_pointer_field n prog item iter m of
        None \<Rightarrow> None
      | Some m \<Rightarrow> func stream (it_field iter) item m)"

text \<open>
  The guess of the number of entries to reserve, in the arithmetic of \<open>size_t\<close>. A division by zero has no outcome.
\<close>

definition reserve :: "nat \<Rightarrow> nat \<Rightarrow> nat \<Rightarrow> nat option" where
  "reserve bytes data_size allocated_size =
     (if data_size = 0 then None
      else
        let remain = (bytes - 1) div data_size + 1
        in Some (if remain < (PB_SIZE_MAX + size_max - allocated_size) mod size_max
                 then size_add allocated_size remain else size_add allocated_size 1))"

text \<open>
  The loop of the packed branch: \<open>decode\<close> reads one entry, \<open>stream\<close> is the parent, which the first check leaves its
  message on.
\<close>

fun pointer_packed_loop ::
    "nat \<Rightarrow> pb_program \<Rightarrow> (pb_istream_t \<Rightarrow> int \<Rightarrow> pb_store \<Rightarrow> unit dec) \<Rightarrow> pb_field_iter_t \<Rightarrow> nat \<Rightarrow> pb_istream_t
      \<Rightarrow> pb_istream_t \<Rightarrow> pb_store \<Rightarrow> (bool \<times> pb_istream_t \<times> pb_dec_state) option" where
  "pointer_packed_loop 0 prog decode iter allocated_size stream substream m = None"
| "pointer_packed_loop (Suc k) prog decode iter allocated_size stream substream m =
     (let field = it_field iter; count = load_size (pSize iter) m in
      if bytes_left substream = 0 then Some (True, stream, (substream, m))
      else if count = PB_SIZE_MAX
      then Some (False, stream\<lparr>is_errmsg := Some ''too many array entries''\<rparr>, (substream, m))
      else
        case (if count + 1 > allocated_size then
                (case reserve (bytes_left substream) (f_data_size field) allocated_size of
                   None \<Rightarrow> None
                 | Some allocated_size \<Rightarrow>
                     rbind (allocate_field_at prog substream (pData iter) (f_data_size field) allocated_size m)
                       (\<lambda>_ s. Some (Some allocated_size, s)))
              else Some (Some allocated_size, (substream, m))) of
          None \<Rightarrow> None
        | Some (None, s) \<Rightarrow> Some (False, stream, s)
        | Some (Some allocated_size, (substream, m)) \<Rightarrow>
            let item = item_addr (load_ptr (pData iter) m) field count
            in if item = 0 then Some (False, stream, (substream, m))
               else (case decode substream item m of
                       None \<Rightarrow> None
                     | Some (None, s) \<Rightarrow> Some (False, stream, s)
                     | Some (Some _, (substream, m)) \<Rightarrow>
                         pointer_packed_loop k prog decode iter allocated_size stream substream
                           (store_size (pSize iter) (load_size (pSize iter) m + 1) m)))"

definition decode_pointer_field ::
    "nat \<Rightarrow> pb_program \<Rightarrow> mem_decoder \<Rightarrow> pb_istream_t \<Rightarrow> nat \<Rightarrow> pb_field_iter_t \<Rightarrow> pb_store \<Rightarrow> unit dec" where
  "decode_pointer_field n prog dec_submessage stream wire_type iter m =
     (let field = it_field iter; type = f_type field; ltype = PB_LTYPE type; func = decoder prog dec_submessage ltype in
      if PB_HTYPE type \<in> {PB_HTYPE_REQUIRED, PB_HTYPE_OPTIONAL, PB_HTYPE_ONEOF} then
        (case (if ltype = PB_LTYPE_SUBMESSAGE \<and> load_ptr (pData iter) m \<noteq> 0
               then pb_release_single_field n prog iter m else Some m) of
           None \<Rightarrow> None
         | Some m \<Rightarrow>
             let m = (if PB_HTYPE type = PB_HTYPE_ONEOF then store_size (pSize iter) (f_tag field) m else m)
             in if ltype = PB_LTYPE_STRING \<or> ltype = PB_LTYPE_BYTES then func stream field (pData iter) m
                else rbind (allocate_field_at prog stream (pData iter) (f_data_size field) 1 m) (\<lambda>_ (stream, m).
                  decode_item n prog func stream (load_ptr (pData iter) m) iter m))
      else if PB_HTYPE type = PB_HTYPE_REPEATED then
        if wire_type = PB_WT_STRING \<and> ltype \<le> PB_LTYPE_LAST_PACKABLE then
          rbind (Some (on_stream (pb_make_string_substream stream) m)) (\<lambda>substream (stream, m).
            case pointer_packed_loop n prog (\<lambda>s item. decode_item n prog func s item iter) iter (load_size (pSize iter) m) stream substream m of
              None \<Rightarrow> None
            | Some (status, stream, (substream, m)) \<Rightarrow>
                rbind (Some (on_stream (pb_close_string_substream stream substream) m)) (\<lambda>_ (stream, m).
                  Some (if status then Some () else None, (stream, m))))
        else
          let count = load_size (pSize iter) m
          in if count = PB_SIZE_MAX then dec_error stream m ''too many array entries''
             else rbind (allocate_field_at prog stream (pData iter) (f_data_size field) (count + 1) m) (\<lambda>_ (stream, m).
               let item = item_addr (load_ptr (pData iter) m) field (load_size (pSize iter) m);
                   m = store_size (pSize iter) (load_size (pSize iter) m + 1) m
               in decode_item n prog func stream item iter m)
      else dec_error stream m ''invalid field type'')"

section \<open>Callback fields\<close>

fun callback_loop ::
    "nat \<Rightarrow> (pb_istream_t \<Rightarrow> pb_store \<Rightarrow> (unit, pb_dec_state) cres) \<Rightarrow> pb_istream_t \<Rightarrow> pb_store \<Rightarrow> unit dec" where
  "callback_loop 0 f substream m = None"
| "callback_loop (Suc k) f substream m =
     rbind (Some (f substream m)) (\<lambda>_ (substream, m).
       if bytes_left substream \<noteq> 0 then callback_loop k f substream m else Some (Some (), (substream, m)))"

definition decode_callback_field ::
    "nat \<Rightarrow> pb_program \<Rightarrow> pb_istream_t \<Rightarrow> nat \<Rightarrow> pb_field_iter_t \<Rightarrow> pb_store \<Rightarrow> unit dec" where
  "decode_callback_field n prog stream wire_type iter m =
     (let callback = pData iter; arg = callback_arg callback in
      if callback = 0 \<or> load_ptr callback m = 0 then Some (on_stream (pb_skip_field stream wire_type) m)
      else
        let decode = (\<lambda>s. decode_fn prog (load_ptr callback m) s (it_field iter) arg) in
        if wire_type = PB_WT_STRING then
          rbind (Some (on_stream (pb_make_string_substream stream) m)) (\<lambda>substream (stream, m).
            case callback_loop n decode substream m of
              None \<Rightarrow> None
            | Some (None, (substream, m)) \<Rightarrow> dec_error stream m ''callback failed''
            | Some (Some _, (substream, m)) \<Rightarrow> Some (on_stream (pb_close_string_substream stream substream) m))
        else
          rbind (Some (on_stream (read_raw_value stream wire_type 10) m)) (\<lambda>buffer (stream, m).
            case decode (pb_istream_from_buffer buffer (length buffer)) m of
              (status, (_, m)) \<Rightarrow> Some (status, (stream, m))))"

section \<open>Any field\<close>

text \<open>The result is the iterator, which the search for the old member of a union moves.\<close>

definition pb_release_union_field ::
    "nat \<Rightarrow> pb_program \<Rightarrow> pb_istream_t \<Rightarrow> pb_field_iter_t \<Rightarrow> pb_store \<Rightarrow> pb_field_iter_t dec" where
  "pb_release_union_field n prog stream iter m =
     (let old_tag = load_size (pSize iter) m; new_tag = f_tag (it_field iter) in
      if old_tag = 0 \<or> old_tag = new_tag then Some (Some iter, (stream, m))
      else case pb_field_iter_find iter old_tag of
             None \<Rightarrow> None
           | Some (False, iter) \<Rightarrow> dec_error stream m ''invalid union tag''
           | Some (True, iter) \<Rightarrow>
               (case pb_release_single_field n prog iter m of
                  None \<Rightarrow> None
                | Some m \<Rightarrow>
                    (case pb_field_iter_find iter new_tag of
                       None \<Rightarrow> None
                     | Some (False, iter) \<Rightarrow> dec_error stream m ''iterator error''
                     | Some (True, iter) \<Rightarrow>
                         Some (Some iter, (stream,
                           if PB_ATYPE (f_type (it_field iter)) = PB_ATYPE_POINTER
                           then store_ptr (pData iter) 0 m else m)))))"

definition decode_field ::
    "nat \<Rightarrow> pb_program \<Rightarrow> mem_decoder \<Rightarrow> pb_istream_t \<Rightarrow> nat \<Rightarrow> pb_field_iter_t \<Rightarrow> pb_store \<Rightarrow> pb_field_iter_t dec" where
  "decode_field n prog dec_submessage stream wire_type iter m =
     rbind (if PB_HTYPE (f_type (it_field iter)) = PB_HTYPE_ONEOF then pb_release_union_field n prog stream iter m
            else Some (Some iter, (stream, m))) (\<lambda>iter (stream, m).
       let atype = PB_ATYPE (f_type (it_field iter)) in
       rbind (if atype = PB_ATYPE_STATIC then decode_static_field n prog dec_submessage stream wire_type iter m
              else if atype = PB_ATYPE_POINTER then decode_pointer_field n prog dec_submessage stream wire_type iter m
              else if atype = PB_ATYPE_CALLBACK then decode_callback_field n prog stream wire_type iter m
              else dec_error stream m ''invalid field type'') (\<lambda>_ s. Some (Some iter, s)))"

section \<open>Extensions\<close>

definition default_extension_decoder ::
    "nat \<Rightarrow> pb_program \<Rightarrow> mem_decoder \<Rightarrow> pb_istream_t \<Rightarrow> int \<Rightarrow> nat \<Rightarrow> nat \<Rightarrow> pb_store \<Rightarrow> unit dec" where
  "default_extension_decoder n prog dec_submessage stream ext tag wire_type m =
     (if f_tag (ext_arg (extension_type prog ext m) ! 0) \<noteq> tag then Some (Some (), (stream, m))
      else
        let iter = iter_from_extension prog ext m; m = store_bool (extension_found ext) True m
        in rbind (decode_field n prog dec_submessage stream wire_type iter m) (\<lambda>_ s. Some (Some (), s)))"

fun decode_extension_loop ::
    "nat \<Rightarrow> pb_program \<Rightarrow> (pb_istream_t \<Rightarrow> int \<Rightarrow> pb_store \<Rightarrow> unit dec) \<Rightarrow> nat \<Rightarrow> nat \<Rightarrow> nat \<Rightarrow> pb_istream_t \<Rightarrow> int \<Rightarrow> pb_store
      \<Rightarrow> unit dec" where
  "decode_extension_loop 0 prog handler tag wire_type pos stream ext m = None"
| "decode_extension_loop (Suc k) prog handler tag wire_type pos stream ext m =
     (if ext \<noteq> 0 \<and> pos = bytes_left stream then
        rbind (case ext_decode (extension_type prog ext m) of
                 Some f \<Rightarrow> Some (f stream ext tag wire_type m)
               | None \<Rightarrow> handler stream ext m) (\<lambda>_ (stream, m).
          decode_extension_loop k prog handler tag wire_type pos stream (load_ptr (extension_next ext) m) m)
      else Some (Some (), (stream, m)))"

definition decode_extension ::
    "nat \<Rightarrow> pb_program \<Rightarrow> mem_decoder \<Rightarrow> pb_istream_t \<Rightarrow> nat \<Rightarrow> nat \<Rightarrow> pb_field_iter_t \<Rightarrow> pb_store \<Rightarrow> unit dec" where
  "decode_extension n prog dec_submessage stream tag wire_type iter m =
     decode_extension_loop n prog
       (\<lambda>stream ext. default_extension_decoder n prog dec_submessage stream ext tag wire_type) tag wire_type
       (bytes_left stream) stream (load_ptr (pData iter) m) m"

fun find_extension_loop :: "nat \<Rightarrow> pb_field_iter_t \<Rightarrow> nat \<Rightarrow> (bool \<times> pb_field_iter_t) option" where
  "find_extension_loop 0 iter start = None"
| "find_extension_loop (Suc fuel) iter start =
     (if PB_LTYPE (f_type (it_field iter)) = PB_LTYPE_EXTENSION then Some (True, iter)
      else
        let iter = snd (pb_field_iter_next iter)
        in if it_pos iter \<noteq> start then find_extension_loop fuel iter start else Some (False, iter))"

definition find_extension_field :: "pb_field_iter_t \<Rightarrow> (bool \<times> pb_field_iter_t) option" where
  "find_extension_field iter = find_extension_loop (length (it_start iter)) iter (it_pos iter)"

section \<open>Messages\<close>

text \<open>The local variables of \<open>pb_decode_noinit\<close>; a field pointer is an index, \<open>None\<close> for null.\<close>

record decode_locals =
  dl_iter :: pb_field_iter_t
  fields_seen :: "u32 list"
  extension_range_start :: nat
  fixed_count_field :: "nat option"

definition PB_MAX_REQUIRED_FIELDS :: nat where "PB_MAX_REQUIRED_FIELDS = 64"

text \<open>A field that the descriptor array does not have: an extension may handle it, else it is skipped.\<close>

definition decode_unknown ::
    "nat \<Rightarrow> pb_program \<Rightarrow> mem_decoder \<Rightarrow> nat \<Rightarrow> nat \<Rightarrow> decode_locals \<Rightarrow> pb_istream_t \<Rightarrow> pb_store \<Rightarrow> decode_locals dec" where
  "decode_unknown n prog dec_submessage tag wire_type d stream m =
     (let skip = (\<lambda>d (stream, m). rbind (Some (on_stream (pb_skip_field stream wire_type) m)) (\<lambda>_ s. Some (Some d, s))) in
      if tag \<ge> extension_range_start d then
        (case find_extension_field (dl_iter d) of
           None \<Rightarrow> None
         | Some (found, iter) \<Rightarrow>
             let start = (if found then f_tag (it_field iter) else 2 ^ 32 - 1);
                 d = d\<lparr>dl_iter := iter, extension_range_start := start\<rparr>
             in if tag \<ge> start then
                  let pos = bytes_left stream
                  in rbind (decode_extension n prog dec_submessage stream tag wire_type iter m) (\<lambda>_ (stream, m).
                       if pos \<noteq> bytes_left stream then Some (Some d, (stream, m)) else skip d (stream, m))
                else skip d (stream, m))
      else skip d (stream, m))"

text \<open>A fixed count array has no counter in the struct: it is counted in the local variable.\<close>

definition select_counter ::
    "int \<Rightarrow> decode_locals \<Rightarrow> pb_istream_t \<Rightarrow> pb_store \<Rightarrow> decode_locals dec" where
  "select_counter counter d stream m =
     (let iter = dl_iter d in
      if PB_HTYPE (f_type (it_field iter)) = PB_HTYPE_REPEATED \<and> pSize iter = pData iter then
        if fixed_count_field d \<noteq> Some (it_pos iter) then
          if (case fixed_count_field d of
                None \<Rightarrow> False
              | Some i \<Rightarrow> load_size counter m \<noteq> f_array_size (it_start iter ! i))
          then dec_error stream m ''wrong size for fixed count field''
          else Some (Some (d\<lparr>fixed_count_field := Some (it_pos iter), dl_iter := iter\<lparr>pSize := counter\<rparr>\<rparr>),
                     (stream, store_size counter 0 m))
        else Some (Some (d\<lparr>dl_iter := iter\<lparr>pSize := counter\<rparr>\<rparr>), (stream, m))
      else Some (Some d, (stream, m)))"

definition mark_seen :: "decode_locals \<Rightarrow> decode_locals" where
  "mark_seen d =
     (let iter = dl_iter d; i = required_field_index iter in
      if PB_HTYPE (f_type (it_field iter)) = PB_HTYPE_REQUIRED \<and> i < PB_MAX_REQUIRED_FIELDS
      then d\<lparr>fields_seen := (fields_seen d)[i div 32 := (fields_seen d ! (i div 32)) OR push_bit (i mod 32) 1]\<rparr>
      else d)"

text \<open>One round of the loop; \<open>None\<close> for the locals is the break at the end of the message.\<close>

definition decode_entry ::
    "nat \<Rightarrow> pb_program \<Rightarrow> int \<Rightarrow> mem_decoder \<Rightarrow> decode_locals \<Rightarrow> pb_istream_t \<Rightarrow> pb_store \<Rightarrow> decode_locals option dec" where
  "decode_entry n prog counter dec_submessage d stream m =
     (case pb_decode_tag stream of
        (None, eof, stream) \<Rightarrow> if eof then Some (Some None, (stream, m)) else Some (None, (stream, m))
      | (Some (wire_type, tag), _, stream) \<Rightarrow>
          (case pb_field_iter_find (dl_iter d) (unat tag) of
             None \<Rightarrow> None
           | Some (False, iter) \<Rightarrow>
               rbind (decode_unknown n prog dec_submessage (unat tag) wire_type (d\<lparr>dl_iter := iter\<rparr>) stream m) (\<lambda>d s.
                 Some (Some (Some d), s))
           | Some (True, iter) \<Rightarrow>
               rbind (select_counter counter (d\<lparr>dl_iter := iter\<rparr>) stream m) (\<lambda>d (stream, m).
                 let d = mark_seen d
                 in rbind (decode_field n prog dec_submessage stream wire_type (dl_iter d) m) (\<lambda>iter s.
                      Some (Some (Some (d\<lparr>dl_iter := iter\<rparr>)), s)))))"

fun decode_loop ::
    "nat \<Rightarrow> (decode_locals \<Rightarrow> pb_istream_t \<Rightarrow> pb_store \<Rightarrow> decode_locals option dec) \<Rightarrow> decode_locals \<Rightarrow> pb_istream_t
      \<Rightarrow> pb_store \<Rightarrow> decode_locals dec" where
  "decode_loop 0 entry d stream m = None"
| "decode_loop (Suc k) entry d stream m =
     (if bytes_left stream = 0 then Some (Some d, (stream, m))
      else rbind (entry d stream m) (\<lambda>next (stream, m).
        case next of None \<Rightarrow> Some (Some d, (stream, m)) | Some d \<Rightarrow> decode_loop k entry d stream m))"

text \<open>The loop to the end of the descriptors: the index and the type of the last field, and the iterator.\<close>

fun last_field_loop :: "nat \<Rightarrow> pb_field_iter_t \<Rightarrow> (nat \<times> u8 \<times> pb_field_iter_t) option" where
  "last_field_loop 0 iter = None"
| "last_field_loop (Suc k) iter =
     (case pb_field_iter_next iter of
        (True, iter') \<Rightarrow> last_field_loop k iter'
      | (False, iter') \<Rightarrow> Some (required_field_index iter, f_type (it_field iter), iter'))"

definition required_count :: "pb_field_iter_t \<Rightarrow> nat option" where
  "required_count iter =
     (case last_field_loop (length (it_start iter)) iter of
        None \<Rightarrow> None
      | Some (count, last_type, iter) \<Rightarrow>
          let count = (if PB_HTYPE last_type = PB_HTYPE_REQUIRED \<and> f_tag (it_field iter) \<noteq> 0 then count + 1 else count)
          in Some (min count PB_MAX_REQUIRED_FIELDS))"

definition all_seen :: "u32 list \<Rightarrow> nat \<Rightarrow> bool" where
  "all_seen seen count \<longleftrightarrow>
     list_all (\<lambda>w. w = NOT 0) (take (count div 32) seen) \<and>
     (count mod 32 \<noteq> 0 \<longrightarrow> seen ! (count div 32) = drop_bit (32 - count mod 32) (NOT 0))"

definition finish_decode :: "int \<Rightarrow> decode_locals \<Rightarrow> pb_istream_t \<Rightarrow> pb_store \<Rightarrow> unit dec" where
  "finish_decode counter d stream m =
     (if (case fixed_count_field d of
            None \<Rightarrow> False
          | Some i \<Rightarrow> load_size counter m \<noteq> f_array_size (it_start (dl_iter d) ! i))
      then dec_error stream m ''wrong size for fixed count field''
      else case required_count (dl_iter d) of
             None \<Rightarrow> None
           | Some count \<Rightarrow>
               if count > 0 \<and> \<not> all_seen (fields_seen d) count then dec_error stream m ''missing required field''
               else Some (Some (), (stream, m)))"

text \<open>\<open>pb_decode\<close> around a given \<open>pb_decode_noinit\<close>.\<close>

definition decode_message :: "nat \<Rightarrow> pb_program \<Rightarrow> rec_decode \<Rightarrow> rec_decode" where
  "decode_message n prog noinit stream flds dest m =
     (case pb_message_set_to_defaults n prog flds dest m of
        None \<Rightarrow> None
      | Some m \<Rightarrow>
          (case noinit stream flds dest m of
             None \<Rightarrow> None
           | Some (None, (stream, m)) \<Rightarrow>
               map_option (\<lambda>m. (None, (stream, m))) (pb_release n prog flds dest m)
           | Some (Some _, s) \<Rightarrow> Some (Some (), s)))"

fun pb_decode_noinit :: "nat \<Rightarrow> pb_program \<Rightarrow> pb_istream_t \<Rightarrow> pb_field_t list \<Rightarrow> int \<Rightarrow> pb_store \<Rightarrow> unit dec" where
  "pb_decode_noinit 0 prog stream flds dest m = None"
| "pb_decode_noinit (Suc n) prog stream flds dest m =
     (let iter = snd (pb_field_iter_begin flds dest); counter = frame prog n;
          dec_submessage = pb_dec_submessage prog (decode_message n prog (pb_decode_noinit n prog)) (pb_decode_noinit n prog)
      in rbind (decode_loop n (decode_entry n prog counter dec_submessage)
                  \<lparr>dl_iter = iter, fields_seen = [0, 0], extension_range_start = 0, fixed_count_field = None\<rparr>
                  stream (store_size counter 0 m)) (\<lambda>d (stream, m).
           finish_decode counter d stream m))"

definition pb_decode :: "nat \<Rightarrow> pb_program \<Rightarrow> pb_istream_t \<Rightarrow> pb_field_t list \<Rightarrow> int \<Rightarrow> pb_store \<Rightarrow> unit dec" where
  "pb_decode n prog = decode_message n prog (pb_decode_noinit n prog)"

text \<open>A message behind its length, with or without the initialisation.\<close>

definition decode_delimited :: "rec_decode \<Rightarrow> rec_decode" where
  "decode_delimited decode stream flds dest m =
     rbind (Some (on_stream (pb_make_string_substream stream) m)) (\<lambda>substream (stream, m).
       case decode substream flds dest m of
         None \<Rightarrow> None
       | Some (status, (substream, m)) \<Rightarrow>
           rbind (Some (on_stream (pb_close_string_substream stream substream) m)) (\<lambda>_ (stream, m).
             Some (status, (stream, m))))"

definition pb_decode_delimited_noinit ::
    "nat \<Rightarrow> pb_program \<Rightarrow> pb_istream_t \<Rightarrow> pb_field_t list \<Rightarrow> int \<Rightarrow> pb_store \<Rightarrow> unit dec" where
  "pb_decode_delimited_noinit n prog = decode_delimited (pb_decode_noinit n prog)"

definition pb_decode_delimited ::
    "nat \<Rightarrow> pb_program \<Rightarrow> pb_istream_t \<Rightarrow> pb_field_t list \<Rightarrow> int \<Rightarrow> pb_store \<Rightarrow> unit dec" where
  "pb_decode_delimited n prog = decode_delimited (pb_decode n prog)"

definition pb_decode_nullterminated ::
    "nat \<Rightarrow> pb_program \<Rightarrow> pb_istream_t \<Rightarrow> pb_field_t list \<Rightarrow> int \<Rightarrow> pb_store \<Rightarrow> unit dec" where
  "pb_decode_nullterminated n prog = pb_decode n prog"

end
