(* ===== verification/ConstTime.thy ===== *)
theory ConstTime
  imports Prelude
begin

text \<open>
  The branch-free word operations of \<^verbatim>\<open>crypto/internal.h\<close>: comparisons that return a mask of all
  ones or all zeros, selections by a mask, rotations, and additions and subtractions with
  carry. \<open>crypto_word_t\<close> has 64 bits; \<open>value_barrier_w\<close> is the identity.
\<close>

section \<open>Masks\<close>

type_synonym crypto_word_t = u64

definition value_barrier_w :: "crypto_word_t \<Rightarrow> crypto_word_t" where
  "value_barrier_w a = a"

definition constant_time_msb_w :: "crypto_word_t \<Rightarrow> crypto_word_t" where
  "constant_time_msb_w a = 0 - drop_bit (8 * 8 - 1) a"

definition constant_time_lt_w :: "crypto_word_t \<Rightarrow> crypto_word_t \<Rightarrow> crypto_word_t" where
  "constant_time_lt_w a b = constant_time_msb_w (a XOR ((a XOR b) OR ((a - b) XOR a)))"

definition constant_time_lt_8 :: "crypto_word_t \<Rightarrow> crypto_word_t \<Rightarrow> u8" where
  "constant_time_lt_8 a b = ucast (constant_time_lt_w a b)"

definition constant_time_ge_w :: "crypto_word_t \<Rightarrow> crypto_word_t \<Rightarrow> crypto_word_t" where
  "constant_time_ge_w a b = NOT (constant_time_lt_w a b)"

definition constant_time_ge_8 :: "crypto_word_t \<Rightarrow> crypto_word_t \<Rightarrow> u8" where
  "constant_time_ge_8 a b = ucast (constant_time_ge_w a b)"

definition constant_time_is_zero_w :: "crypto_word_t \<Rightarrow> crypto_word_t" where
  "constant_time_is_zero_w a = constant_time_msb_w (NOT a AND (a - 1))"

definition constant_time_is_zero_8 :: "crypto_word_t \<Rightarrow> u8" where
  "constant_time_is_zero_8 a = ucast (constant_time_is_zero_w a)"

definition constant_time_eq_w :: "crypto_word_t \<Rightarrow> crypto_word_t \<Rightarrow> crypto_word_t" where
  "constant_time_eq_w a b = constant_time_is_zero_w (a XOR b)"

definition constant_time_eq_8 :: "crypto_word_t \<Rightarrow> crypto_word_t \<Rightarrow> u8" where
  "constant_time_eq_8 a b = ucast (constant_time_eq_w a b)"

text \<open>An \<open>int\<close> is its 32-bit pattern; its conversion to \<open>crypto_word_t\<close> extends the sign.\<close>

definition constant_time_eq_int :: "u32 \<Rightarrow> u32 \<Rightarrow> crypto_word_t" where
  "constant_time_eq_int a b = constant_time_eq_w (scast a) (scast b)"

definition constant_time_eq_int_8 :: "u32 \<Rightarrow> u32 \<Rightarrow> u8" where
  "constant_time_eq_int_8 a b = constant_time_eq_8 (scast a) (scast b)"

definition constant_time_select_w :: "crypto_word_t \<Rightarrow> crypto_word_t \<Rightarrow> crypto_word_t \<Rightarrow> crypto_word_t" where
  "constant_time_select_w msk a b =
     (let m = value_barrier_w msk in (m AND a) OR (NOT m AND b))"

definition constant_time_select_8 :: "crypto_word_t \<Rightarrow> u8 \<Rightarrow> u8 \<Rightarrow> u8" where
  "constant_time_select_8 msk a b =
     (let m = ucast (value_barrier_w msk) in (m AND a) OR (NOT m AND b))"

definition constant_time_select_int :: "crypto_word_t \<Rightarrow> u32 \<Rightarrow> u32 \<Rightarrow> u32" where
  "constant_time_select_int msk a b = ucast (constant_time_select_w msk (scast a) (scast b))"

text \<open>The \<open>n\<close> bytes at \<open>dst\<close> and \<open>src\<close>; the result is the new contents of \<open>dst\<close>.\<close>

definition constant_time_conditional_memcpy :: "bytes \<Rightarrow> bytes \<Rightarrow> crypto_word_t \<Rightarrow> bytes" where
  "constant_time_conditional_memcpy dst src msk = map2 (\<lambda>out b. constant_time_select_8 msk b out) dst src"

definition constant_time_conditional_memxor :: "bytes \<Rightarrow> bytes \<Rightarrow> crypto_word_t \<Rightarrow> bytes" where
  "constant_time_conditional_memxor dst src msk =
     map2 (\<lambda>out b. out XOR ucast (value_barrier_w msk AND ucast b)) dst src"

section \<open>Rotations\<close>

text \<open>\<open>shift\<close> is an \<open>int\<close> from 0 on and below the width.\<close>

definition CRYPTO_rotl_u32 :: "u32 \<Rightarrow> nat \<Rightarrow> u32" where
  "CRYPTO_rotl_u32 v shift = push_bit shift v OR drop_bit (nat (- int shift AND 31)) v"

definition CRYPTO_rotr_u32 :: "u32 \<Rightarrow> nat \<Rightarrow> u32" where
  "CRYPTO_rotr_u32 v shift = drop_bit shift v OR push_bit (nat (- int shift AND 31)) v"

definition CRYPTO_rotl_u64 :: "u64 \<Rightarrow> nat \<Rightarrow> u64" where
  "CRYPTO_rotl_u64 v shift = push_bit shift v OR drop_bit (nat (- int shift AND 63)) v"

definition CRYPTO_rotr_u64 :: "u64 \<Rightarrow> nat \<Rightarrow> u64" where
  "CRYPTO_rotr_u64 v shift = drop_bit shift v OR push_bit (nat (- int shift AND 63)) v"

section \<open>Carries\<close>

text \<open>The portable branches, without compiler builtins and without 128-bit integers. The result is
  the sum or difference and the outgoing carry or borrow.\<close>

definition CRYPTO_addc_u32 :: "u32 \<Rightarrow> u32 \<Rightarrow> u32 \<Rightarrow> u32 \<times> u32" where
  "CRYPTO_addc_u32 x y carry =
     (let ret = ucast carry + (ucast x + ucast y) :: u64
      in (ucast ret, ucast (drop_bit 32 ret)))"

definition CRYPTO_addc_u64 :: "u64 \<Rightarrow> u64 \<Rightarrow> u64 \<Rightarrow> u64 \<times> u64" where
  "CRYPTO_addc_u64 x y carry =
     (let x = x + carry;
          carry = (if x < carry then 1 else 0);
          ret = x + y;
          carry = carry + (if ret < x then 1 else 0)
      in (ret, carry))"

definition CRYPTO_subc_u32 :: "u32 \<Rightarrow> u32 \<Rightarrow> u32 \<Rightarrow> u32 \<times> u32" where
  "CRYPTO_subc_u32 x y borrow =
     (x - y - borrow, (if x < y then 1 else 0) OR ((if x = y then 1 else 0) AND borrow))"

definition CRYPTO_subc_u64 :: "u64 \<Rightarrow> u64 \<Rightarrow> u64 \<Rightarrow> u64 \<times> u64" where
  "CRYPTO_subc_u64 x y borrow =
     (x - y - borrow, (if x < y then 1 else 0) OR ((if x = y then 1 else 0) AND borrow))"

section \<open>What the masks mean\<close>

named_theorems mask_simps

definition mask_of :: "bool \<Rightarrow> 'a::len word" where
  "mask_of b = (if b then - 1 else 0)"

lemma mask_of_simps [simp]: "mask_of True = - 1" "mask_of False = 0" "NOT (mask_of b) = mask_of (\<not> b)"
  by (simp_all add: mask_of_def)

lemma ucast_mask [mask_simps]:
  "LENGTH('a) \<le> LENGTH('b) \<Longrightarrow> (ucast (mask_of c :: 'b::len word) :: 'a::len word) = mask_of c"
  by (rule bit_word_eqI) (auto simp: mask_of_def bit_simps)

lemma ucast_mask_8 [mask_simps]: "(ucast (mask_of c :: u64) :: u8) = mask_of c"
  by (rule ucast_mask) simp

lemma unat_u64_less: "unat (x :: u64) < 2 ^ 64"
  by (rule order_less_le_trans [OF unsigned_less]) simp

lemma bit_top: "bit x 63 \<longleftrightarrow> 2 ^ 63 \<le> unat x" for x :: u64
proof -
  have "bit x 63 \<longleftrightarrow> bit (unat x) 63" by (simp add: bit_unsigned_iff)
  then have "bit x 63 \<longleftrightarrow> odd (unat x div 2 ^ 63)" by (simp only: bit_iff_odd [of "unat x"])
  moreover have "unat x div 2 ^ 63 < 2"
    using unat_u64_less [of x] by (simp add: less_mult_imp_div_less)
  ultimately show ?thesis by (auto simp: less_2_cases_iff div_eq_0_iff)
qed

lemma msb_mask [mask_simps]: "constant_time_msb_w a = mask_of (bit a 63)"
proof -
  have "bit a (63 + n) \<longleftrightarrow> n = 0 \<and> bit a 63" for n
    by (cases n) (auto dest: bit_imp_le_length)
  then have "drop_bit 63 a = (if bit a 63 then 1 else 0)"
    by (intro bit_word_eqI) (auto simp: bit_simps bit_1_iff)
  then show ?thesis by (simp add: constant_time_msb_w_def mask_of_def)
qed

lemma unat_diff_len:
  "unat (a - b) = (if unat b \<le> unat a then unat a - unat b else 2 ^ LENGTH('a) + unat a - unat b)"
  for a b :: "'a::len word"
proof (cases "b \<le> a")
  case True
  then show ?thesis by (simp add: unat_sub word_le_nat_alt)
next
  case False
  have "uint (a - b) = (uint a - uint b) mod 2 ^ LENGTH('a)"
    by (simp add: uint_word_ariths)
  also have "\<dots> = uint a - uint b + 2 ^ LENGTH('a)"
  proof -
    have "uint a < uint b" using False by (simp add: word_le_def)
    moreover have "0 \<le> uint a" and "uint b < 2 ^ LENGTH('a)"
      using uint_range_size [of a] uint_range_size [of b] by (simp_all add: word_size)
    ultimately have "0 \<le> uint a - uint b + 2 ^ LENGTH('a)" and "uint a - uint b + 2 ^ LENGTH('a) < 2 ^ LENGTH('a)"
      by linarith+
    then have "(uint a - uint b + 2 ^ LENGTH('a)) mod 2 ^ LENGTH('a) = uint a - uint b + 2 ^ LENGTH('a)"
      by (rule mod_pos_pos_trivial)
    then show ?thesis by (simp only: mod_add_self2)
  qed
  finally have "int (unat (a - b) + unat b) = int (unat a + 2 ^ LENGTH('a))" by simp
  then have "unat (a - b) + unat b = unat a + 2 ^ LENGTH('a)" by (simp only: of_nat_eq_iff)
  then show ?thesis using False by (simp add: word_le_nat_alt)
qed

lemmas unat_diff = unat_diff_len [where 'a = 64, simplified]
lemmas unat_diff_32 = unat_diff_len [where 'a = 32, simplified]

lemma lt_mask [mask_simps]: "constant_time_lt_w a b = mask_of (a < b)"
proof -
  have "bit (a XOR ((a XOR b) OR ((a - b) XOR a))) 63 \<longleftrightarrow>
      bit a 63 \<noteq> (bit a 63 \<noteq> bit b 63 \<or> bit (a - b) 63 \<noteq> bit a 63)"
    by (simp add: bit_xor_iff bit_or_iff)
  also have "\<dots> \<longleftrightarrow> a < b"
    using unat_u64_less [of a] unat_u64_less [of b]
    by (auto simp: bit_top unat_diff word_less_nat_alt)
  finally show ?thesis by (simp only: constant_time_lt_w_def mask_simps)
qed

lemma is_zero_mask [mask_simps]: "constant_time_is_zero_w a = mask_of (a = 0)"
proof -
  have "bit (NOT a AND (a - 1)) 63 \<longleftrightarrow> \<not> bit a 63 \<and> bit (a - 1) 63"
    by (simp add: bit_not_iff bit_and_iff)
  also have "\<dots> \<longleftrightarrow> a = 0"
    unfolding bit_top using unat_u64_less [of a] by (auto simp: unat_diff [of a 1] unat_eq_0 not_le split: if_splits)
  finally show ?thesis by (simp only: constant_time_is_zero_w_def mask_simps)
qed

lemma xor_zero: "a XOR b = 0 \<longleftrightarrow> a = b" for a b :: u64
proof
  assume "a XOR b = 0"
  then have "(a XOR b) XOR b = 0 XOR b" by (simp only:)
  then show "a = b" by (simp add: xor.assoc)
qed simp

lemma eq_mask [mask_simps]: "constant_time_eq_w a b = mask_of (a = b)"
  by (simp only: constant_time_eq_w_def mask_simps xor_zero)

lemma select_w_mask [mask_simps]: "constant_time_select_w (mask_of c) a b = (if c then a else b)"
  by (cases c) (simp_all add: constant_time_select_w_def value_barrier_w_def)

lemma select_8_mask [mask_simps]: "constant_time_select_8 (mask_of c) a b = (if c then a else b)"
  using ucast_mask_8 [of True] by (cases c) (simp_all add: constant_time_select_8_def value_barrier_w_def)

lemma select_int_mask: "constant_time_select_int (mask_of c) a b = (if c then a else b)"
proof -
  have "ucast (scast x :: u64) = x" for x :: u32
    by (rule bit_word_eqI) (auto simp: bit_simps)
  then show ?thesis by (simp add: constant_time_select_int_def mask_simps)
qed

lemma scast_inj: "(scast a :: u64) = scast b \<longleftrightarrow> a = b" for a b :: u32
proof
  assume eq: "(scast a :: u64) = scast b"
  show "a = b"
  proof (rule bit_word_eqI)
    fix n
    assume "n < LENGTH(32)"
    moreover have "bit (scast a :: u64) n = bit (scast b :: u64) n" by (simp only: eq)
    ultimately show "bit a n = bit b n" by (auto simp: bit_simps split: if_splits)
  qed
qed simp

lemma memcpy_mask:
  "length dst = length src \<Longrightarrow> constant_time_conditional_memcpy dst src (mask_of c) = (if c then src else dst)"
  by (rule nth_equalityI) (auto simp: constant_time_conditional_memcpy_def mask_simps)

lemma memxor_mask:
  "length dst = length src \<Longrightarrow>
    constant_time_conditional_memxor dst src (mask_of c) = (if c then map2 (XOR) dst src else dst)"
proof -
  have "ucast (ucast b :: u64) = b" for b :: u8 by (rule bit_word_eqI) (auto simp: bit_simps)
  then show "length dst = length src \<Longrightarrow> ?thesis"
    by (intro nth_equalityI) (auto simp: constant_time_conditional_memxor_def value_barrier_w_def)
qed

lemma neg_mod: "0 < n \<Longrightarrow> n < w \<Longrightarrow> (- int n) mod int w = int w - int n"
  by (simp add: zmod_zminus1_eq_if)

lemma neg_shift: "n < 32 \<Longrightarrow> nat (- int n AND 31) = (if n = 0 then 0 else 32 - n)"
  "n < 64 \<Longrightarrow> nat (- int n AND 63) = (if n = 0 then 0 else 64 - n)"
proof -
  have "- int n AND 31 = (- int n) mod 32" "- int n AND 63 = (- int n) mod 64"
    using take_bit_eq_mask [of 5 "- int n"] take_bit_eq_mask [of 6 "- int n"]
    by (simp_all add: mask_eq_exp_minus_1 take_bit_eq_mod)
  with neg_mod [of n 32] neg_mod [of n 64]
  show "n < 32 \<Longrightarrow> nat (- int n AND 31) = (if n = 0 then 0 else 32 - n)"
    "n < 64 \<Longrightarrow> nat (- int n AND 63) = (if n = 0 then 0 else 64 - n)"
    by auto
qed

lemma rotl_rotr_32: "s < 32 \<Longrightarrow> CRYPTO_rotr_u32 (CRYPTO_rotl_u32 v s) s = v"
  by (rule bit_word_eqI) (auto simp: CRYPTO_rotr_u32_def CRYPTO_rotl_u32_def neg_shift bit_simps dest: bit_imp_le_length)

lemma rotl_rotr_64: "s < 64 \<Longrightarrow> CRYPTO_rotr_u64 (CRYPTO_rotl_u64 v s) s = v"
  by (rule bit_word_eqI) (auto simp: CRYPTO_rotr_u64_def CRYPTO_rotl_u64_def neg_shift bit_simps dest: bit_imp_le_length)

section \<open>Properties\<close>

text \<open>the branch-free operations compute the comparisons, selections and conditional copies that
  a branch would: a comparison is all ones or all zeros, and a selection by such a mask picks its
  first or its second operand.\<close>

theorem constant_time_masks:
  "constant_time_lt_w a b = (if a < b then - 1 else 0) \<and>
   constant_time_ge_w a b = (if b \<le> a then - 1 else 0) \<and>
   constant_time_eq_w a b = (if a = b then - 1 else 0) \<and>
   constant_time_is_zero_w a = (if a = 0 then - 1 else 0) \<and>
   constant_time_lt_8 a b = (if a < b then - 1 else 0) \<and>
   constant_time_eq_int_8 i j = (if i = j then - 1 else 0) \<and>
   constant_time_select_w (constant_time_lt_w a b) x y = (if a < b then x else y) \<and>
   constant_time_select_8 (constant_time_eq_w a b) p q = (if a = b then p else q) \<and>
   constant_time_select_int (constant_time_is_zero_w a) i j = (if a = 0 then i else j) \<and>
   map (\<lambda>m. constant_time_conditional_memcpy [p, q] [q, p] m) [- 1, 0] = [[q, p], [p, q]]"
  using memcpy_mask [of "[p, q]" "[q, p]" True] memcpy_mask [of "[p, q]" "[q, p]" False]
  by (simp add: constant_time_ge_w_def constant_time_lt_8_def constant_time_eq_int_8_def constant_time_eq_8_def
      mask_simps select_int_mask scast_inj) (auto simp: mask_of_def not_less word_gt_0)

lemma add_carry:
  "unat (a + b) + 2 ^ 64 * (if a + b < b then 1 else 0) = unat a + unat b" for a b :: u64
proof -
  have "unat (a + b) = (unat a + unat b) mod 2 ^ 64" by (simp add: unat_word_ariths)
  also have "\<dots> = (if unat a + unat b < 2 ^ 64 then unat a + unat b else unat a + unat b - 2 ^ 64)"
    using unat_u64_less [of a] unat_u64_less [of b] by (auto simp: mod_if)
  finally show ?thesis
    using unat_u64_less [of a] unat_u64_less [of b] by (auto simp: word_less_nat_alt split: if_splits)
qed

lemma unat_one_iff: "unat b = 1 \<longleftrightarrow> b = 1" for b :: "'a::len word"
  by (simp add: word_unat_eq_iff)

lemma borrow_bit: "unat b \<le> 1 \<Longrightarrow>
    unat ((if p then 1 else 0) OR ((if q then 1 else 0) AND b) :: 'a::len word) = (if p \<or> q \<and> b = 1 then 1 else 0)"
  by (cases "b = 0") (auto simp: unat_one_iff [simplified] le_Suc_eq unat_eq_0)

lemma borrow_nat:
  fixes x y b l :: nat
  assumes "x < l" and "y < l" and "b \<le> 1"
  shows "(let d = (if y \<le> x then x - y else l + x - y) in if b \<le> d then d - b else l + d - b) + y + b =
    x + l * (if x < y \<or> x = y \<and> b = 1 then 1 else 0)"
  using assms by (auto simp: Let_def le_Suc_eq)

lemma borrow_exact:
  fixes x y b :: "'a::len word"
  assumes "unat b \<le> 1"
  shows "unat (x - y - b) + unat y + unat b = unat x + 2 ^ LENGTH('a) * (if x < y \<or> x = y \<and> b = 1 then 1 else 0)"
proof -
  have "unat x < 2 ^ LENGTH('a)" "unat y < 2 ^ LENGTH('a)"
    by (rule order_less_le_trans [OF unsigned_less], simp)+
  from borrow_nat [OF this assms] show ?thesis
    by (simp only: unat_diff_len [of "x - y"] unat_diff_len [of x] word_less_nat_alt Let_def unat_one_iff word_unat_eq_iff [of x])
qed

text \<open>the additions and subtractions with carry are exact: result and outgoing carry together are the
  sum of the operands and the incoming carry, result and outgoing borrow the difference.\<close>

theorem crypto_carries_exact:
  assumes "c \<le> 1" and "d \<le> 1"
  shows "(case CRYPTO_addc_u64 x y c of (r, k) \<Rightarrow> unat r + 2 ^ 64 * unat k = unat x + unat y + unat c) \<and>
    (case CRYPTO_addc_u32 u v d of (r, k) \<Rightarrow> unat r + 2 ^ 32 * unat k = unat u + unat v + unat d) \<and>
    (case CRYPTO_subc_u64 x y c of (r, k) \<Rightarrow> unat r + unat y + unat c = unat x + 2 ^ 64 * unat k) \<and>
    (case CRYPTO_subc_u32 u v d of (r, k) \<Rightarrow> unat r + unat v + unat d = unat u + 2 ^ 32 * unat k)"
proof (intro conjI)
  have c: "unat c \<le> 1" and d: "unat d \<le> 1" using assms by (simp_all add: word_le_nat_alt)
  let ?x = "x + c"
  have first: "unat ?x + 2 ^ 64 * (if ?x < c then 1 else 0) = unat x + unat c" by (rule add_carry)
  have second: "unat (?x + y) + 2 ^ 64 * (if ?x + y < ?x then 1 else 0) = unat ?x + unat y"
    using add_carry [of y ?x] by (simp add: add.commute)
  have "unat ((if ?x < c then 1 else 0) + (if ?x + y < ?x then 1 else 0) :: u64) =
      (if ?x < c then 1 else 0) + (if ?x + y < ?x then 1 else 0)"
    by simp
  with first second show "case CRYPTO_addc_u64 x y c of (r, k) \<Rightarrow> unat r + 2 ^ 64 * unat k = unat x + unat y + unat c"
    by (simp add: CRYPTO_addc_u64_def Let_def split: if_splits)
  let ?r = "ucast d + (ucast u + ucast v) :: u64"
  have uv: "unat u < 2 ^ 32" "unat v < 2 ^ 32"
    by (rule order_less_le_trans [OF unsigned_less], simp)+
  then have "unat (ucast u + ucast v :: u64) = unat u + unat v" by (simp add: unat_word_ariths)
  with uv d have r: "unat ?r = unat d + (unat u + unat v)" by (simp add: unat_word_ariths)
  have "unat (ucast ?r :: u32) = unat ?r mod 2 ^ 32" by (simp add: unsigned_ucast_eq take_bit_eq_mod)
  moreover have "unat (ucast (drop_bit 32 ?r) :: u32) = unat ?r div 2 ^ 32 mod 2 ^ 32"
    by (simp add: unsigned_ucast_eq take_bit_eq_mod unat_drop_bit_eq) (simp add: drop_bit_eq_div)
  moreover have "unat ?r div 2 ^ 32 < 2 ^ 32" using r uv d by (simp add: less_mult_imp_div_less)
  ultimately have "unat (ucast ?r :: u32) + 2 ^ 32 * unat (ucast (drop_bit 32 ?r) :: u32) = unat ?r"
    by (simp only: mod_less mod_mult_div_eq)
  then show "case CRYPTO_addc_u32 u v d of (r, k) \<Rightarrow> unat r + 2 ^ 32 * unat k = unat u + unat v + unat d"
    by (simp only: CRYPTO_addc_u32_def Let_def prod.case r)
  show "case CRYPTO_subc_u64 x y c of (r, k) \<Rightarrow> unat r + unat y + unat c = unat x + 2 ^ 64 * unat k"
    using borrow_exact [OF c, of x y] by (simp add: CRYPTO_subc_u64_def borrow_bit [OF c])
  show "case CRYPTO_subc_u32 u v d of (r, k) \<Rightarrow> unat r + unat v + unat d = unat u + 2 ^ 32 * unat k"
    using borrow_exact [OF d, of u v] by (simp add: CRYPTO_subc_u32_def borrow_bit [OF d])
qed

lemma crypto_carries_exact_witness:
  "case CRYPTO_addc_u64 (2 ^ 64 - 1) 5 1 of (r, k) \<Rightarrow> unat r + 2 ^ 64 * unat k = 2 ^ 64 - 1 + 5 + 1"
  using crypto_carries_exact [of 1 0 "2 ^ 64 - 1" 5 0 0] by simp

end
