(* ===== verification/Base64.thy ===== *)
theory Base64
  imports ConstTime
begin

text \<open>
  \<^verbatim>\<open>crypto/base64/base64.c\<close>: encoding and decoding of blocks, and the streaming contexts that
  encode lines of 48 bytes and decode in quads.

  What a function writes through \<open>out\<close> is a list of bytes, the terminating NUL of the
  encoders included; \<open>assert\<close>s are not modelled. \<open>INT_MAX\<close> is \<open>2 ^ 31 - 1\<close>.
\<close>

section \<open>Characters\<close>

definition constant_time_lt_args_8 :: "u8 \<Rightarrow> u8 \<Rightarrow> u8" where
  "constant_time_lt_args_8 a b = ucast (constant_time_msb_w (ucast a - ucast b))"

definition constant_time_in_range_8 :: "u8 \<Rightarrow> u8 \<Rightarrow> u8 \<Rightarrow> u8" where
  "constant_time_in_range_8 a lo hi = constant_time_lt_args_8 (a - lo) (hi - lo + 1)"

definition conv_bin2ascii :: "u8 \<Rightarrow> u8" where
  "conv_bin2ascii a =
     (let a = a AND 0x3f;
          ret = constant_time_select_8 (ucast (constant_time_eq_8 (ucast a) 62)) 43 47;
          ret = constant_time_select_8 (ucast (constant_time_lt_args_8 a 62)) (a - 52 + 48) ret;
          ret = constant_time_select_8 (ucast (constant_time_lt_args_8 a 52)) (a - 26 + 97) ret;
          ret = constant_time_select_8 (ucast (constant_time_lt_args_8 a 26)) (a + 65) ret
      in ret)"

definition base64_ascii_to_bin :: "u8 \<Rightarrow> u8" where
  "base64_ascii_to_bin a =
     (let is_upper = constant_time_in_range_8 a 65 90;
          is_lower = constant_time_in_range_8 a 97 122;
          is_digit = constant_time_in_range_8 a 48 57;
          is_plus = constant_time_eq_8 (ucast a) 43;
          is_slash = constant_time_eq_8 (ucast a) 47;
          is_equals = constant_time_eq_8 (ucast a) 61;
          ret = 0 OR (is_upper AND (a - 65));
          ret = ret OR (is_lower AND (a - 97 + 26));
          ret = ret OR (is_digit AND (a - 48 + 52));
          ret = ret OR (is_plus AND 62);
          ret = ret OR (is_slash AND 63);
          is_valid = is_upper OR is_lower OR is_digit OR is_plus OR is_slash OR is_equals
      in ret OR NOT is_valid)"

section \<open>Blocks\<close>

definition INT_MAX :: nat where "INT_MAX = 2 ^ 31 - 1"

definition EVP_EncodedLength :: "nat \<Rightarrow> nat option" where
  "EVP_EncodedLength n =
     (if size_add n 2 < n then None
      else
        let n = size_add n 2 div 3
        in if n * 4 mod size_max div 4 \<noteq> n then None
           else
             let n = n * 4 mod size_max
             in if size_add n 1 < n then None else Some (size_add n 1))"

text \<open>The text without the NUL, and the count \<open>ret\<close>.\<close>

fun encode_block_loop :: "bytes \<Rightarrow> bytes \<times> nat" where
  "encode_block_loop [] = ([], 0)"
| "encode_block_loop [a] =
     (let l = push_bit 16 (ucast a) :: u32
      in ([conv_bin2ascii (ucast (drop_bit 18 l)), conv_bin2ascii (ucast (drop_bit 12 l)), 61, 61], 4))"
| "encode_block_loop [a, b] =
     (let l = push_bit 16 (ucast a) OR push_bit 8 (ucast b) :: u32
      in ([conv_bin2ascii (ucast (drop_bit 18 l)), conv_bin2ascii (ucast (drop_bit 12 l)),
           conv_bin2ascii (ucast (drop_bit 6 l)), 61], 4))"
| "encode_block_loop (a # b # c # src) =
     (let l = push_bit 16 (ucast a) OR push_bit 8 (ucast b) OR ucast c :: u32;
          quad = [conv_bin2ascii (ucast (drop_bit 18 l)), conv_bin2ascii (ucast (drop_bit 12 l)),
                  conv_bin2ascii (ucast (drop_bit 6 l)), conv_bin2ascii (ucast l)];
          (dst, ret) = encode_block_loop src
      in (quad @ dst, ret + 4))"

definition EVP_EncodeBlock :: "bytes \<Rightarrow> bytes \<times> nat" where
  "EVP_EncodeBlock src = (let (dst, ret) = encode_block_loop src in (dst @ [0], ret))"

definition EVP_DecodedLength :: "nat \<Rightarrow> nat option" where
  "EVP_DecodedLength n = (if n mod 4 \<noteq> 0 then None else Some (n div 4 * 3))"

text \<open>The bytes written to \<open>out\<close>; their number is \<open>*out_num_bytes\<close>.\<close>

definition base64_decode_quad :: "u8 \<Rightarrow> u8 \<Rightarrow> u8 \<Rightarrow> u8 \<Rightarrow> bytes option" where
  "base64_decode_quad in0 in1 in2 in3 =
     (let a = base64_ascii_to_bin in0; b = base64_ascii_to_bin in1;
          c = base64_ascii_to_bin in2; d = base64_ascii_to_bin in3
      in if a = 0xff \<or> b = 0xff \<or> c = 0xff \<or> d = 0xff then None
         else
           let v = push_bit 18 (ucast a) OR push_bit 12 (ucast b) OR push_bit 6 (ucast c) OR ucast d :: u32;
               padding_pattern = (in0 = 61, in1 = 61, in2 = 61, in3 = 61)
           in if padding_pattern = (False, False, False, False)
              then Some [ucast (drop_bit 16 v), ucast (drop_bit 8 v), ucast v]
              else if padding_pattern = (False, False, False, True)
              then Some [ucast (drop_bit 16 v), ucast (drop_bit 8 v)]
              else if padding_pattern = (False, False, True, True)
              then Some [ucast (drop_bit 16 v)]
              else None)"

text \<open>The loop over the quads, for an input whose length is a multiple of four.\<close>

fun decode_base64_loop :: "bytes \<Rightarrow> bytes \<Rightarrow> bytes option" where
  "decode_base64_loop out (a # b # c # d # src) =
     (case base64_decode_quad a b c d of
        None \<Rightarrow> None
      | Some bs \<Rightarrow>
          if length bs \<noteq> 3 \<and> src \<noteq> [] then None else decode_base64_loop (out @ bs) src)"
| "decode_base64_loop out src = Some out"

definition EVP_DecodeBase64 :: "nat \<Rightarrow> bytes \<Rightarrow> bytes option" where
  "EVP_DecodeBase64 max_out src =
     (if length src mod 4 \<noteq> 0 then None
      else case EVP_DecodedLength (length src) of
             None \<Rightarrow> None
           | Some max_len \<Rightarrow> if max_out < max_len then None else decode_base64_loop [] src)"

text \<open>The result is the memory at \<open>dst\<close> with its filling zeros, whose length is returned; \<open>None\<close> is \<open>-1\<close>.\<close>

definition EVP_DecodeBlock :: "bytes \<Rightarrow> bytes option" where
  "EVP_DecodeBlock src =
     (let src = dropWhile (\<lambda>c. c = 32 \<or> c = 9) src;
          src = rev (dropWhile (\<lambda>c. c = 32 \<or> c = 9 \<or> c = 13 \<or> c = 10) (rev src))
      in case EVP_DecodedLength (length src) of
           None \<Rightarrow> None
         | Some dst_len \<Rightarrow>
             if dst_len > INT_MAX then None
             else case EVP_DecodeBase64 dst_len src of
                    None \<Rightarrow> None
                  | Some dst \<Rightarrow> Some (dst @ replicate ((3 - length dst mod 3) mod 3) 0))"

section \<open>Streams\<close>

record EVP_ENCODE_CTX =
  data_used :: nat
  data :: bytes
  eof_seen :: bool
  error_encountered :: bool

definition EVP_EncodeInit :: EVP_ENCODE_CTX where
  "EVP_EncodeInit = \<lparr>data_used = 0, data = replicate 48 0, eof_seen = False, error_encountered = False\<rparr>"

definition EVP_DecodeInit :: EVP_ENCODE_CTX where
  "EVP_DecodeInit = EVP_EncodeInit"

text \<open>
  One line: \<open>EVP_EncodeBlock\<close>, whose NUL is replaced by the newline; the NUL behind it is
  replaced by the next line. The second result of the loop is \<open>None\<close> when the counter
  \<open>count\<close> overflows.
\<close>

definition encode_line :: "bytes \<Rightarrow> bytes \<times> nat" where
  "encode_line src = (let (text, encoded) = EVP_EncodeBlock src in (take encoded text @ [10], encoded))"

function encode_update_loop :: "bytes \<Rightarrow> nat \<Rightarrow> bytes \<Rightarrow> bytes \<times> (nat \<times> bytes) option" where
  "encode_update_loop out count src =
     (if length src \<ge> 48 then
        let (line, encoded) = encode_line (take 48 src)
        in if size_add count (size_add encoded 1) < count then (out @ line, None)
           else encode_update_loop (out @ line) (size_add count (size_add encoded 1)) (drop 48 src)
      else (out, Some (count, src)))"
  by pat_completeness auto
termination by (relation "measure (\<lambda>(_, _, src). length src)") auto

declare encode_update_loop.simps [simp del]

text \<open>The results: the text written to \<open>out\<close> without the final NUL, \<open>*out_len\<close>, and the context.\<close>

definition EVP_EncodeUpdate :: "EVP_ENCODE_CTX \<Rightarrow> bytes \<Rightarrow> bytes \<times> nat \<times> EVP_ENCODE_CTX" where
  "EVP_EncodeUpdate ctx src =
     (if src = [] then ([], 0, ctx)
      else if 48 - data_used ctx > length src then
        ([], 0, ctx\<lparr>data := copy_at (data ctx) (data_used ctx) src, data_used := data_used ctx + length src\<rparr>)
      else
        let (out, count, src, ctx) =
              (if data_used ctx \<noteq> 0 then
                 let todo = 48 - data_used ctx;
                     ctx = ctx\<lparr>data := copy_at (data ctx) (data_used ctx) (take todo src)\<rparr>;
                     (line, encoded) = encode_line (data ctx)
                 in (line, encoded + 1, drop todo src, ctx\<lparr>data_used := 0\<rparr>)
               else ([], 0, src, ctx))
        in case encode_update_loop out count src of
             (out, None) \<Rightarrow> (out, 0, ctx)
           | (out, Some (count, src)) \<Rightarrow>
               (out, if count > INT_MAX then 0 else count,
                ctx\<lparr>data := copy_at (data ctx) 0 src, data_used := length src\<rparr>))"

definition EVP_EncodeFinal :: "EVP_ENCODE_CTX \<Rightarrow> bytes \<times> nat \<times> EVP_ENCODE_CTX" where
  "EVP_EncodeFinal ctx =
     (if data_used ctx = 0 then ([], 0, ctx)
      else
        let (line, encoded) = encode_line (take (data_used ctx) (data ctx))
        in (line, encoded + 1, ctx\<lparr>data_used := 0\<rparr>))"

text \<open>The loop of \<open>EVP_DecodeUpdate\<close>; \<open>False\<close> is a return of \<open>-1\<close> from its body.\<close>

fun decode_update_loop :: "EVP_ENCODE_CTX \<Rightarrow> bytes \<Rightarrow> bytes \<Rightarrow> bool \<times> bytes \<times> EVP_ENCODE_CTX" where
  "decode_update_loop ctx out [] = (True, out, ctx)"
| "decode_update_loop ctx out (c # src) =
     (if c = 32 \<or> c = 9 \<or> c = 13 \<or> c = 10 then decode_update_loop ctx out src
      else if eof_seen ctx then (False, out, ctx\<lparr>error_encountered := True\<rparr>)
      else
        let ctx = ctx\<lparr>data := (data ctx)[data_used ctx := c], data_used := data_used ctx + 1\<rparr>
        in if data_used ctx = 4 then
             case base64_decode_quad (data ctx ! 0) (data ctx ! 1) (data ctx ! 2) (data ctx ! 3) of
               None \<Rightarrow> (False, out, ctx\<lparr>error_encountered := True\<rparr>)
             | Some bs \<Rightarrow>
                 let ctx = ctx\<lparr>data_used := 0\<rparr>;
                     ctx = (if length bs < 3 then ctx\<lparr>eof_seen := True\<rparr> else ctx)
                 in decode_update_loop ctx (out @ bs) src
           else decode_update_loop ctx out src)"

text \<open>The results: the return value, the bytes written, \<open>*out_len\<close>, and the context.\<close>

definition EVP_DecodeUpdate :: "EVP_ENCODE_CTX \<Rightarrow> bytes \<Rightarrow> int \<times> bytes \<times> nat \<times> EVP_ENCODE_CTX" where
  "EVP_DecodeUpdate ctx src =
     (if error_encountered ctx then (-1, [], 0, ctx)
      else case decode_update_loop ctx [] src of
             (False, out, ctx) \<Rightarrow> (-1, out, 0, ctx)
           | (True, out, ctx) \<Rightarrow>
               if length out > INT_MAX then (-1, out, 0, ctx\<lparr>error_encountered := True\<rparr>)
               else (if eof_seen ctx then 0 else 1, out, length out, ctx))"

definition EVP_DecodeFinal :: "EVP_ENCODE_CTX \<Rightarrow> int" where
  "EVP_DecodeFinal ctx = (if error_encountered ctx \<or> data_used ctx \<noteq> 0 then -1 else 1)"

section \<open>Characters and masks\<close>

lemma small_diff:
  "x < 256 \<Longrightarrow> y < 256 \<Longrightarrow> (y \<le> x \<longrightarrow> \<not> 2 ^ 63 \<le> x - y) \<and> (\<not> y \<le> x \<longrightarrow> 2 ^ 63 \<le> 2 ^ 64 + x - y)"
  for x y :: nat
  by auto

lemma lt_args_mask [mask_simps]: "constant_time_lt_args_8 a b = mask_of (a < b)"
proof -
  have u: "unat (ucast x :: u64) = unat x" for x :: u8 by simp
  have "bit (ucast a - ucast b :: u64) 63 \<longleftrightarrow> a < b"
    using small_diff [OF unat_u8_less [of a] unat_u8_less [of b]]
    by (auto simp: bit_top unat_diff u word_less_nat_alt)
  then show ?thesis by (simp only: constant_time_lt_args_8_def mask_simps)
qed

lemma eq_8_mask [mask_simps]: "constant_time_eq_8 a b = mask_of (a = b)"
  by (simp add: constant_time_eq_8_def mask_simps)

lemma select_wide_mask [mask_simps]: "constant_time_select_8 (ucast (mask_of c :: u8)) a b = (if c then a else b)"
proof -
  have "ucast (ucast m :: u64) = m" for m :: u8 by (rule bit_word_eqI) (auto simp: bit_simps)
  then show ?thesis by (cases c) (simp_all add: constant_time_select_8_def value_barrier_w_def)
qed

lemma conv_bin2ascii_cases:
  "conv_bin2ascii a =
    (let a = a AND 0x3f in
     if a < 26 then a + 65 else if a < 52 then a - 26 + 97 else if a < 62 then a - 52 + 48
     else if a = 62 then 43 else 47)"
proof -
  have "ucast x = (62 :: u64) \<longleftrightarrow> x = 62" for x :: u8
    by (simp add: word_unat_eq_iff)
  then show ?thesis by (simp add: conv_bin2ascii_def Let_def mask_simps)
qed

lemma in_range_mask [mask_simps]: "lo \<le> hi \<Longrightarrow> hi < 255 \<Longrightarrow> constant_time_in_range_8 a lo hi = mask_of (lo \<le> a \<and> a \<le> hi)"
proof -
  assume "lo \<le> hi" and "hi < 255"
  then have "a - lo < hi - lo + 1 \<longleftrightarrow> lo \<le> a \<and> a \<le> hi"
    unfolding word_less_nat_alt word_le_nat_alt
    by (auto simp: unat_diff_len [of a] unat_diff_len [of hi] unat_word_ariths word_le_nat_alt word_less_nat_alt)
  then show ?thesis by (simp add: constant_time_in_range_8_def mask_simps)
qed

lemma mask_and: "mask_of c AND x = (if c then x else 0)" for x :: "'a::len word"
  by (simp add: mask_of_def)

lemma mask_or: "mask_of b OR mask_of c = mask_of (b \<or> c)"
  by (simp add: mask_of_def)

lemma ucast_eq_small: "(ucast x :: u64) = 43 \<longleftrightarrow> x = 43" "(ucast x :: u64) = 47 \<longleftrightarrow> x = 47"
  "(ucast x :: u64) = 61 \<longleftrightarrow> x = 61" for x :: u8
  by (simp_all add: word_unat_eq_iff)

lemma unat_all_ones: "unat (- 1 :: u8) = 255"
  by (simp add: unsigned_minus_1_eq_mask mask_eq_exp_minus_1)

lemma in_ranges: "constant_time_in_range_8 a 65 90 = mask_of (65 \<le> a \<and> a \<le> 90)"
  "constant_time_in_range_8 a 97 122 = mask_of (97 \<le> a \<and> a \<le> 122)"
  "constant_time_in_range_8 a 48 57 = mask_of (48 \<le> a \<and> a \<le> 57)"
  by (simp_all add: in_range_mask)

lemma ascii_to_bin_cases:
  "base64_ascii_to_bin a =
    (if 65 \<le> a \<and> a \<le> 90 then a - 65 else if 97 \<le> a \<and> a \<le> 122 then a - 97 + 26
     else if 48 \<le> a \<and> a \<le> 57 then a - 48 + 52 else if a = 43 then 62 else if a = 47 then 63
     else if a = 61 then 0 else 0xff)"
  unfolding base64_ascii_to_bin_def Let_def
  by (simp only: in_ranges mask_simps ucast_eq_small mask_or mask_and mask_of_simps)
    (auto simp: mask_of_def word_le_nat_alt word_unat_eq_iff unat_all_ones)

definition alphabet_ok :: "nat \<Rightarrow> bool" where
  "alphabet_ok n \<longleftrightarrow> base64_ascii_to_bin (conv_bin2ascii (of_nat n)) = of_nat n \<and>
     conv_bin2ascii (of_nat n) \<notin> {61, 32, 9, 13, 10}"

lemma alphabet_all: "list_all alphabet_ok [0..<64]"
  by (simp add: upt_rec alphabet_ok_def conv_bin2ascii_cases ascii_to_bin_cases Let_def)

lemma conv_and: "conv_bin2ascii a = conv_bin2ascii (of_nat (unat (a AND 0x3f)))"
  by (simp add: conv_bin2ascii_def)

lemma alphabet_char: "alphabet_ok (unat (a AND 0x3f))" for a :: u8
proof -
  have "unat (a AND 0x3f) = unat a mod 64" using unat_and_mask [of a 6] by (simp add: mask_eq_exp_minus_1)
  then have "unat (a AND 0x3f) \<in> set [0..<64]" by simp
  then show ?thesis using alphabet_all by (simp only: list_all_iff)
qed

lemma ascii_roundtrip: "base64_ascii_to_bin (conv_bin2ascii a) = a AND 0x3f"
  using alphabet_char [of a] conv_and [of a] by (simp add: alphabet_ok_def)

lemma conv_not_special: "conv_bin2ascii a \<notin> {61, 32, 9, 13, 10}"
  using alphabet_char [of a] conv_and [of a] by (simp add: alphabet_ok_def)

section \<open>Blocks are read back\<close>

lemma bin_valid: "a AND 0x3f \<noteq> 0xff" for a :: u8
proof
  assume "a AND 0x3f = 0xff"
  then have "unat (a AND mask 6) = 255" by (simp add: mask_eq_exp_minus_1)
  moreover have "unat a mod 64 < 64" by simp
  ultimately show False by (simp add: unat_and_mask)
qed

lemma conv_neq_pad [simp]: "conv_bin2ascii a \<noteq> 61" "61 \<noteq> conv_bin2ascii a"
  using conv_not_special [of a] by auto

lemma pad_bin: "base64_ascii_to_bin 61 = 0"
  by (simp add: ascii_to_bin_cases)

lemma sextet: "ucast (ucast x AND 0x3f :: u8) = (x AND 0x3f)" for x :: u32
proof -
  have "x AND 0x3f = take_bit 6 x" "ucast x AND (0x3f :: u8) = take_bit 6 (ucast x)"
    by (simp_all add: take_bit_eq_mask mask_eq_exp_minus_1)
  then show ?thesis by (auto intro!: bit_word_eqI simp: bit_simps)
qed

lemma and_sextet: "x AND 0x3f = take_bit 6 x" for x :: u32
  by (simp add: take_bit_eq_mask mask_eq_exp_minus_1)

lemma bit_sextet: "bit (push_bit k (drop_bit k l AND 0x3f)) n \<longleftrightarrow> n < 32 \<and> k \<le> n \<and> n < k + 6 \<and> bit l n" for l :: u32
  by (auto simp: and_sextet bit_simps)

lemma sextets: "push_bit 18 (drop_bit 18 l AND 0x3f) OR push_bit 12 (drop_bit 12 l AND 0x3f) OR
    push_bit 6 (drop_bit 6 l AND 0x3f) OR (l AND 0x3f) = take_bit 24 l" for l :: u32
proof (rule bit_word_eqI)
  fix n
  have "bit (l AND 0x3f) n \<longleftrightarrow> n < 6 \<and> bit l n" by (auto simp: and_sextet bit_simps)
  then show "bit (push_bit 18 (drop_bit 18 l AND 0x3f) OR push_bit 12 (drop_bit 12 l AND 0x3f) OR
      push_bit 6 (drop_bit 6 l AND 0x3f) OR (l AND 0x3f)) n = bit (take_bit 24 l) n"
    by (simp only: bit_or_iff bit_sextet bit_take_bit_iff) (auto dest: bit_imp_le_length)
qed

lemma decode_quad_3:
  "base64_decode_quad (conv_bin2ascii (ucast (drop_bit 18 l))) (conv_bin2ascii (ucast (drop_bit 12 l)))
     (conv_bin2ascii (ucast (drop_bit 6 l))) (conv_bin2ascii (ucast l)) =
   Some [ucast (drop_bit 16 (take_bit 24 l)), ucast (drop_bit 8 (take_bit 24 l)), ucast (take_bit 24 l)]" for l :: u32
  unfolding base64_decode_quad_def Let_def ascii_roundtrip
  by (simp only: bin_valid simp_thms if_False if_True conv_neq_pad sextet sextets)

lemma decode_quad_2:
  "base64_decode_quad (conv_bin2ascii (ucast (drop_bit 18 l))) (conv_bin2ascii (ucast (drop_bit 12 l)))
     (conv_bin2ascii (ucast (drop_bit 6 l))) 61 =
   Some [ucast (drop_bit 16 (take_bit 24 l)), ucast (drop_bit 8 (take_bit 24 l))]" for l :: u32
proof -
  let ?v = "push_bit 18 (drop_bit 18 l AND 0x3f) OR push_bit 12 (drop_bit 12 l AND 0x3f) OR push_bit 6 (drop_bit 6 l AND 0x3f)"
  have bits: "bit ?v n \<longleftrightarrow> 6 \<le> n \<and> n < 24 \<and> bit l n" for n
    by (simp only: bit_or_iff bit_sextet) (auto dest: bit_imp_le_length)
  have "ucast (drop_bit 16 ?v) = (ucast (drop_bit 16 (take_bit 24 l)) :: u8)"
    by (rule bit_word_eqI, simp only: bit_ucast_iff bit_drop_bit_eq bits o_def bit_take_bit_iff, auto dest: bit_imp_le_length)
  moreover have "ucast (drop_bit 8 ?v) = (ucast (drop_bit 8 (take_bit 24 l)) :: u8)"
    by (rule bit_word_eqI, simp only: bit_ucast_iff bit_drop_bit_eq bits o_def bit_take_bit_iff, auto dest: bit_imp_le_length)
  moreover have "ucast (0 :: u8) = (0 :: u32)" by simp
  ultimately show ?thesis
    unfolding base64_decode_quad_def Let_def ascii_roundtrip pad_bin
    by (simp only: bin_valid simp_thms if_False if_True conv_neq_pad sextet or.right_neutral prod.inject) simp
qed

lemma decode_quad_1:
  "base64_decode_quad (conv_bin2ascii (ucast (drop_bit 18 l))) (conv_bin2ascii (ucast (drop_bit 12 l))) 61 61 =
   Some [ucast (drop_bit 16 (take_bit 24 l))]" for l :: u32
proof -
  let ?v = "push_bit 18 (drop_bit 18 l AND 0x3f) OR push_bit 12 (drop_bit 12 l AND 0x3f)"
  have bits: "bit ?v n \<longleftrightarrow> 12 \<le> n \<and> n < 24 \<and> bit l n" for n
    by (simp only: bit_or_iff bit_sextet) (auto dest: bit_imp_le_length)
  have "ucast (drop_bit 16 ?v) = (ucast (drop_bit 16 (take_bit 24 l)) :: u8)"
    by (rule bit_word_eqI, simp only: bit_ucast_iff bit_drop_bit_eq bits o_def bit_take_bit_iff, auto dest: bit_imp_le_length)
  moreover have "ucast (0 :: u8) = (0 :: u32)" by simp
  ultimately show ?thesis
    unfolding base64_decode_quad_def Let_def ascii_roundtrip pad_bin
    by (simp only: bin_valid simp_thms if_False if_True conv_neq_pad sextet or.right_neutral push_bit_of_0 prod.inject) simp
qed

lemma u8_high: "8 \<le> n \<Longrightarrow> \<not> bit (b :: u8) n"
  by (auto dest: bit_imp_le_length)

lemma pack_24:
  fixes a b c :: u8
  defines "v \<equiv> take_bit 24 (push_bit 16 (ucast a) OR push_bit 8 (ucast b) OR ucast c :: u32)"
  shows "ucast (drop_bit 16 v) = a" "ucast (drop_bit 8 v) = b" "ucast v = c"
  unfolding v_def by (auto intro!: bit_word_eqI simp: bit_simps u8_high)

lemma pack_16:
  fixes a b :: u8
  defines "v \<equiv> take_bit 24 (push_bit 16 (ucast a) OR push_bit 8 (ucast b) :: u32)"
  shows "ucast (drop_bit 16 v) = a" "ucast (drop_bit 8 v) = b"
  unfolding v_def by (auto intro!: bit_word_eqI simp: bit_simps u8_high)

lemma pack_8: "ucast (drop_bit 16 (take_bit 24 (push_bit 16 (ucast a) :: u32))) = a" for a :: u8
  by (auto intro!: bit_word_eqI simp: bit_simps)

lemma encode_loop_length: "encode_block_loop src = (dst, n) \<Longrightarrow> n = length dst \<and> length dst = (length src + 2) div 3 * 4"
proof (induction src arbitrary: dst n rule: encode_block_loop.induct)
  case (4 a b c src)
  obtain t k where e: "encode_block_loop src = (t, k)" by fastforce
  then have "k = length t \<and> length t = (length src + 2) div 3 * 4" by (rule "4.IH" [OF refl refl])
  moreover have "(Suc (Suc (Suc m)) + 2) div 3 = Suc ((m + 2) div 3)" for m :: nat by presburger
  ultimately show ?case using "4.prems" by (auto simp: e Let_def)
qed (auto simp: Let_def)

lemma decode_encode_loop:
  "decode_base64_loop out (fst (encode_block_loop src)) = Some (out @ src)"
proof (induction src arbitrary: out rule: encode_block_loop.induct)
  case (4 a b c src)
  obtain dst ret where e: "encode_block_loop src = (dst, ret)" by fastforce
  have IH: "decode_base64_loop out dst = Some (out @ src)" for out using "4.IH" [OF refl refl, of out] e by simp
  show ?case
    unfolding encode_block_loop.simps Let_def e prod.case fst_conv append.simps decode_base64_loop.simps decode_quad_3
    by (simp only: pack_24 option.case) (simp add: IH)
next
  case (3 a b)
  show ?case
    unfolding encode_block_loop.simps Let_def fst_conv decode_base64_loop.simps decode_quad_2
    by (simp only: pack_16 option.case) simp
next
  case (2 a)
  show ?case
    unfolding encode_block_loop.simps Let_def fst_conv decode_base64_loop.simps decode_quad_1
    by (simp only: pack_8 option.case) simp
qed simp

section \<open>Lines\<close>

text \<open>What the streaming encoder writes in all: a line for every 48 bytes and one for the rest.\<close>

definition line :: "bytes \<Rightarrow> bytes" where
  "line src = fst (encode_block_loop src) @ [10]"

fun encode_lines :: "bytes \<Rightarrow> bytes" where
  "encode_lines src =
     (if src = [] then []
      else if length src \<le> 48 then line src
      else line (take 48 src) @ encode_lines (drop 48 src))"

declare encode_lines.simps [simp del]

lemma encode_line_eq: "encode_line src = (line src, length (line src) - 1)"
proof -
  obtain dst n where e: "encode_block_loop src = (dst, n)" by fastforce
  with encode_loop_length [OF e] show ?thesis
    by (simp add: encode_line_def EVP_EncodeBlock_def line_def)
qed

lemma length_line: "length (line src) = (length src + 2) div 3 * 4 + 1"
  using encode_loop_length [of src "fst (encode_block_loop src)" "snd (encode_block_loop src)"] by (simp add: line_def)

lemma encode_lines_Nil [simp]: "encode_lines [] = []"
  by (subst encode_lines.simps) simp

lemma encode_lines_full: "length a = 48 \<Longrightarrow> encode_lines (a @ b) = line a @ encode_lines b"
  by (cases "b = []") (subst encode_lines.simps; auto)+

lemma update_loop_lines:
  assumes "count + (length src div 48) * 65 < size_max"
  shows "\<exists>mid last. encode_update_loop out count src = (out @ mid, Some (count + length mid, last)) \<and>
    length last < 48 \<and> (\<forall>r. mid @ encode_lines (last @ r) = encode_lines (src @ r)) \<and> length mid = length src div 48 * 65"
  using assms
proof (induction src arbitrary: out count rule: measure_induct_rule [where f = length])
  case (less src)
  show ?case
  proof (cases "48 \<le> length src")
    case True
    let ?a = "take 48 src" and ?b = "drop 48 src"
    have len: "length (line ?a) = 65" using True by (simp add: length_line)
    have div: "length src div 48 = Suc (length ?b div 48)"
      using True by (simp add: le_div_geq)
    have add: "size_add count (size_add 64 1) = count + 65" using less.prems div by simp
    have "\<exists>mid last. encode_update_loop (out @ line ?a) (count + 65) ?b =
        ((out @ line ?a) @ mid, Some (count + 65 + length mid, last)) \<and> length last < 48 \<and>
        (\<forall>r. mid @ encode_lines (last @ r) = encode_lines (?b @ r)) \<and> length mid = length ?b div 48 * 65"
      using less.prems div True by (intro less.IH) simp_all
    then obtain mid last where m: "encode_update_loop (out @ line ?a) (count + 65) ?b =
        ((out @ line ?a) @ mid, Some (count + 65 + length mid, last))" "length last < 48"
        "\<forall>r. mid @ encode_lines (last @ r) = encode_lines (?b @ r)" "length mid = length ?b div 48 * 65"
      by blast
    have lines: "encode_lines (src @ r) = line ?a @ encode_lines (?b @ r)" for r
      using encode_lines_full [of ?a "?b @ r"] True
      by (metis append.assoc append_take_drop_id length_take min_absorb2)
    have "encode_update_loop out count src = (out @ (line ?a @ mid), Some (count + length (line ?a @ mid), last))"
      using True m(1) add by (subst encode_update_loop.simps) (simp add: encode_line_eq len)
    with m(2,3,4) lines div len show ?thesis
      by (intro exI [of _ "line ?a @ mid"] exI [of _ last]) simp
  next
    case False
    then show ?thesis
      by (intro exI [of _ "[]"] exI [of _ src]) (simp add: encode_update_loop.simps [of out])
  qed
qed

section \<open>Streaming encoder\<close>

definition ctx_ok :: "EVP_ENCODE_CTX \<Rightarrow> bool" where
  "ctx_ok ctx \<longleftrightarrow> length (data ctx) = 48 \<and> data_used ctx < 48"

definition pending_data :: "EVP_ENCODE_CTX \<Rightarrow> bytes" where
  "pending_data ctx = take (data_used ctx) (data ctx)"

text \<open>One call: the bytes written complete exactly the lines that the new context does not hold back.\<close>

lemma encode_update_lines:
  assumes ok: "ctx_ok ctx" and len: "length src \<le> 2 ^ 62" and call: "EVP_EncodeUpdate ctx src = (out, n, ctx')"
  shows "ctx_ok ctx'" and "out @ encode_lines (pending_data ctx' @ r) = encode_lines (pending_data ctx @ src @ r)"
    and "n = (if length out > INT_MAX then 0 else length out)" "length out = (data_used ctx + length src) div 48 * 65"
proof -
  let ?used = "data_used ctx"
  have "ctx_ok ctx' \<and> out @ encode_lines (pending_data ctx' @ r) = encode_lines (pending_data ctx @ src @ r) \<and>
    n = (if length out > INT_MAX then 0 else length out) \<and> length out = (data_used ctx + length src) div 48 * 65"
  proof (cases "src = []")
    case True
    then show ?thesis using ok call by (auto simp: EVP_EncodeUpdate_def ctx_ok_def)
  next
    case False
    show ?thesis
    proof (cases "48 - ?used > length src")
      case True
      then have fit: "?used + length src < 48" using ok by (auto simp: ctx_ok_def)
      have "take (?used + length src) (copy_at (data ctx) ?used src) = take ?used (data ctx) @ src"
        using fit ok by (intro take_copy_at) (simp add: ctx_ok_def)
      then show ?thesis
        using ok call True False fit
        by (auto simp: EVP_EncodeUpdate_def ctx_ok_def pending_data_def length_copy_at)
    next
      case big: False
      define todo where "todo = 48 - ?used"
      define first where "first = (if ?used \<noteq> 0 then take ?used (data ctx) @ take todo src else [])"
      define rest where "rest = (if ?used \<noteq> 0 then drop todo src else src)"
      define start where "start = (if ?used \<noteq> 0 then line first else [])"
      have todo: "todo \<le> length src" "?used + todo = 48" using big ok by (auto simp: todo_def ctx_ok_def)
      have full: "copy_at (data ctx) ?used (take todo src) = take ?used (data ctx) @ take todo src"
        using todo ok by (simp add: copy_at_def ctx_ok_def)
      have first_len: "?used \<noteq> 0 \<Longrightarrow> length first = 48" using todo ok by (simp add: first_def ctx_ok_def)
      have pend: "encode_lines (pending_data ctx @ src @ r) = start @ encode_lines (rest @ r)"
      proof (cases "?used = 0")
        case True
        then show ?thesis by (simp add: pending_data_def start_def rest_def)
      next
        case False
        have "encode_lines (first @ drop todo src @ r) = line first @ encode_lines (drop todo src @ r)"
          by (rule encode_lines_full [OF first_len [OF False]])
        moreover have "take todo src @ drop todo src @ r = src @ r"
          by (simp only: append.assoc [symmetric] append_take_drop_id)
        ultimately show ?thesis using False by (simp add: pending_data_def start_def rest_def first_def)
      qed
      have start_len: "length start \<le> 65"
        using first_len by (auto simp: start_def length_line)
      have "length rest div 48 \<le> 2 ^ 62 div 48"
        using len by (intro div_le_mono) (auto simp: rest_def)
      then have small: "length start + length rest div 48 * 65 < size_max" using start_len by simp
      obtain mid last where loop: "encode_update_loop start (length start) rest =
          (start @ mid, Some (length start + length mid, last))" "length last < 48"
          "\<forall>r. mid @ encode_lines (last @ r) = encode_lines (rest @ r)" "length mid = length rest div 48 * 65"
        using update_loop_lines [OF small, of start] by blast
      define d where "d = (if ?used \<noteq> 0 then copy_at (data ctx) ?used (take todo src) else data ctx)"
      have d: "length d = 48" using ok todo by (simp add: d_def length_copy_at ctx_ok_def)
      have "out = start @ mid \<and> n = (if length (start @ mid) > INT_MAX then 0 else length (start @ mid)) \<and>
          ctx' = ctx\<lparr>data := copy_at d 0 last, data_used := length last\<rparr>"
      proof (cases "?used = 0")
        case True
        then show ?thesis
          using call big False loop(1) by (auto simp: EVP_EncodeUpdate_def d_def start_def rest_def)
      next
        case u: False
        have "encode_line (copy_at (data ctx) ?used (take todo src)) = (start, length start - 1)"
          using u full by (simp add: encode_line_eq start_def first_def)
        moreover have "length start - 1 + 1 = length start" using u by (simp add: start_def length_line)
        ultimately show ?thesis
          using call big False loop(1) u
          by (auto simp: EVP_EncodeUpdate_def Let_def d_def rest_def simp flip: todo_def)
      qed
      moreover have "pending_data (ctx\<lparr>data := copy_at d 0 last, data_used := length last\<rparr>) = last"
        by (simp add: pending_data_def copy_at_def)
      moreover have "length (start @ mid) = (?used + length src) div 48 * 65"
      proof (cases "?used = 0")
        case True
        then show ?thesis using loop(4) by (simp add: start_def rest_def)
      next
        case False
        have "?used + length src = length rest + 48" using False todo by (simp add: rest_def)
        then have "(?used + length src) div 48 = Suc (length rest div 48)" by simp
        then show ?thesis using False first_len loop(4) by (simp add: start_def length_line)
      qed
      ultimately show ?thesis
        using loop(2,3) d pend by (simp add: ctx_ok_def length_copy_at)
    qed
  qed
  then show "ctx_ok ctx'" "out @ encode_lines (pending_data ctx' @ r) = encode_lines (pending_data ctx @ src @ r)"
    "n = (if length out > INT_MAX then 0 else length out)" "length out = (data_used ctx + length src) div 48 * 65"
    by blast+
qed

lemma encode_final_lines: "ctx_ok ctx \<Longrightarrow> fst (EVP_EncodeFinal ctx) = encode_lines (pending_data ctx)"
  by (subst encode_lines.simps)
    (auto simp: EVP_EncodeFinal_def encode_line_eq pending_data_def ctx_ok_def)

text \<open>
  A call that writes more than \<open>INT_MAX\<close> bytes reports none of them, although \<^verbatim>\<open>base64.h\<close> says that \<open>*out_len\<close> is set to the
  number of bytes written.
\<close>

lemma encode_update_overlong:
  assumes "ctx_ok ctx" "length src \<le> 2 ^ 62" "INT_MAX < (data_used ctx + length src) div 48 * 65"
  shows "\<exists>out ctx'. EVP_EncodeUpdate ctx src = (out, 0, ctx') \<and> INT_MAX < length out"
proof -
  obtain out n ctx' where u: "EVP_EncodeUpdate ctx src = (out, n, ctx')" by (cases "EVP_EncodeUpdate ctx src") auto
  show ?thesis using encode_update_lines(3,4) [OF assms(1,2) u] assms(3) u by simp
qed

text \<open>
  A whole session: a client encodes chunk after chunk into one buffer and places the next text behind what the last call
  has reported. A call that writes something ends it with a NUL.
\<close>

definition put_text :: "bytes \<Rightarrow> nat \<Rightarrow> bytes \<Rightarrow> bytes" where
  "put_text mem pos out = (if out = [] then mem else copy_at mem pos (out @ [0]))"

fun encode_session :: "EVP_ENCODE_CTX \<Rightarrow> bytes \<Rightarrow> nat \<Rightarrow> bytes list \<Rightarrow> bytes \<times> nat" where
  "encode_session ctx mem pos [] = (case EVP_EncodeFinal ctx of (out, n, _) \<Rightarrow> (put_text mem pos out, pos + n))"
| "encode_session ctx mem pos (chunk # chunks) =
     (case EVP_EncodeUpdate ctx chunk of (out, n, ctx) \<Rightarrow> encode_session ctx (put_text mem pos out) (pos + n) chunks)"

definition placed :: "bytes \<Rightarrow> nat \<Rightarrow> bytes \<Rightarrow> bytes \<Rightarrow> bool" where
  "placed mem pos out mem' \<longleftrightarrow> length mem' = length mem \<and> take (pos + length out) mem' = take pos mem @ out \<and>
     drop (pos + length out + 1) mem' = drop (pos + length out + 1) mem"

lemma placed_text: "pos + length out < length mem \<Longrightarrow> placed mem pos out (put_text mem pos out)"
  by (auto simp: placed_def put_text_def copy_at_def)

lemma placed_append:
  assumes "placed mem pos a mem1" "placed mem1 (pos + length a) b mem2"
  shows "placed mem pos (a @ b) mem2"
proof -
  have "drop (length b) (drop (pos + length a + 1) mem1) = drop (length b) (drop (pos + length a + 1) mem)"
    using assms(1) by (simp add: placed_def)
  then show ?thesis using assms by (simp add: placed_def ac_simps)
qed

lemma encode_session_lines:
  assumes "ctx_ok ctx" "list_all (\<lambda>c. length c \<le> 1585834032) chunks"
    and "pos + length (encode_lines (pending_data ctx @ concat chunks)) < length mem"
  shows "\<exists>mem'. encode_session ctx mem pos chunks = (mem', pos + length (encode_lines (pending_data ctx @ concat chunks))) \<and>
    placed mem pos (encode_lines (pending_data ctx @ concat chunks)) mem'"
  using assms
proof (induction chunks arbitrary: ctx mem pos)
  case Nil
  have n: "fst (snd (EVP_EncodeFinal ctx)) = length (fst (EVP_EncodeFinal ctx))"
    by (auto simp: EVP_EncodeFinal_def encode_line_eq length_line)
  show ?case
    using Nil.prems encode_final_lines [OF Nil.prems(1)] placed_text [of pos "fst (EVP_EncodeFinal ctx)" mem] n
    by (simp add: case_prod_unfold)
next
  case (Cons c cs)
  obtain out n ctx' where u: "EVP_EncodeUpdate ctx c = (out, n, ctx')" by (cases "EVP_EncodeUpdate ctx c") auto
  have c: "length c \<le> 1585834032" "length c \<le> 2 ^ 62" using Cons.prems(2) by simp_all
  note step = encode_update_lines [OF Cons.prems(1) c(2) u]
  have "(data_used ctx + length c) div 48 \<le> (47 + 1585834032) div 48"
    using Cons.prems(1) c(1) by (intro div_le_mono) (simp add: ctx_ok_def)
  then have n: "n = length out" using step(3,4) by (simp add: INT_MAX_def)
  let ?L = "encode_lines (pending_data ctx' @ concat cs)"
  have all: "encode_lines (pending_data ctx @ concat (c # cs)) = out @ ?L" using step(2) [of "concat cs"] by simp
  have put: "placed mem pos out (put_text mem pos out)"
    by (rule placed_text) (use Cons.prems(3) all in simp)
  then have "length (put_text mem pos out) = length mem" by (simp add: placed_def)
  then obtain mem' where "encode_session ctx' (put_text mem pos out) (pos + length out) cs = (mem', pos + length out + length ?L)"
    "placed (put_text mem pos out) (pos + length out) ?L mem'"
    using Cons.IH [OF step(1), of "pos + length out" "put_text mem pos out"] Cons.prems(2,3) all by auto
  then show ?case using placed_append [OF put] all u n by (simp add: add.assoc)
qed

lemma init_ok: "ctx_ok EVP_EncodeInit" "pending_data EVP_EncodeInit = []"
  by (simp_all add: ctx_ok_def pending_data_def EVP_EncodeInit_def)

section \<open>Streaming decoder\<close>

definition clean :: "EVP_ENCODE_CTX \<Rightarrow> bool" where
  "clean ctx \<longleftrightarrow> data_used ctx = 0 \<and> \<not> eof_seen ctx \<and> \<not> error_encountered ctx \<and> length (data ctx) = 48"

definition space :: "u8 \<Rightarrow> bool" where
  "space c \<longleftrightarrow> c \<in> {32, 9, 13, 10}"

definition quad_ctx :: "EVP_ENCODE_CTX \<Rightarrow> u8 \<Rightarrow> u8 \<Rightarrow> u8 \<Rightarrow> u8 \<Rightarrow> EVP_ENCODE_CTX" where
  "quad_ctx ctx a b c d = ctx\<lparr>data := (data ctx)[0 := a, 1 := b, 2 := c, 3 := d], data_used := 0\<rparr>"

lemma decode_update_quad:
  assumes "clean ctx" and "\<not> space a" "\<not> space b" "\<not> space c" "\<not> space d"
    and "base64_decode_quad a b c d = Some bs"
  shows "decode_update_loop ctx out (a # b # c # d # src) =
    decode_update_loop (if length bs < 3 then (quad_ctx ctx a b c d)\<lparr>eof_seen := True\<rparr> else quad_ctx ctx a b c d)
      (out @ bs) src"
  using assms by (simp add: clean_def space_def quad_ctx_def Let_def numeral_2_eq_2 numeral_3_eq_3)

lemma clean_quad: "clean ctx \<Longrightarrow> clean (quad_ctx ctx a b c d)"
  by (simp add: clean_def quad_ctx_def)

lemma conv_not_space [simp]: "\<not> space (conv_bin2ascii a)" "\<not> space 61"
  using conv_not_special [of a] by (auto simp: space_def)

text \<open>\<open>done ctx\<close>: a padded quad has been seen, only space may follow.\<close>

definition finished :: "EVP_ENCODE_CTX \<Rightarrow> bool" where
  "finished ctx \<longleftrightarrow> data_used ctx = 0 \<and> eof_seen ctx \<and> \<not> error_encountered ctx"

lemma pad_step:
  assumes "clean ctx" and "\<not> space a" "\<not> space b" "\<not> space c" "\<not> space d"
    and "base64_decode_quad a b c d = Some bs" and "length bs < 3"
  shows "\<exists>ctx'. finished ctx' \<and>
    (\<forall>out rest. decode_update_loop ctx out ([a, b, c, d] @ rest) = decode_update_loop ctx' (out @ bs) rest)"
  using decode_update_quad [OF assms(1-6)] assms(1,7)
  by (intro exI [of _ "(quad_ctx ctx a b c d)\<lparr>eof_seen := True\<rparr>"]) (simp add: finished_def quad_ctx_def clean_def)

lemma full_step:
  assumes "clean ctx" and "\<not> space a" "\<not> space b" "\<not> space c" "\<not> space d"
    and "base64_decode_quad a b c d = Some bs" and "length bs = 3"
  shows "\<exists>ctx'. clean ctx' \<and>
    (\<forall>out rest. decode_update_loop ctx out (a # b # c # d # rest) = decode_update_loop ctx' (out @ bs) rest)"
  using decode_update_quad [OF assms(1-6)] clean_quad [OF assms(1)] assms(7)
  by (intro exI [of _ "quad_ctx ctx a b c d"]) simp

lemma decode_update_block:
  "clean ctx \<Longrightarrow> \<exists>ctx'. (if length src mod 3 = 0 then clean ctx' else finished ctx') \<and>
    (\<forall>out rest. decode_update_loop ctx out (fst (encode_block_loop src) @ rest) =
      decode_update_loop ctx' (out @ src) rest)"
proof (induction src arbitrary: ctx rule: encode_block_loop.induct)
  case 1
  then show ?case by auto
next
  case (2 a)
  note quad = decode_quad_1 [of "push_bit 16 (ucast a)", unfolded pack_8]
  from pad_step [OF 2 conv_not_space(1) conv_not_space(1) conv_not_space(2) conv_not_space(2) quad]
  show ?case
    unfolding encode_block_loop.simps Let_def fst_conv by simp
next
  case (3 a b)
  note quad = decode_quad_2 [of "push_bit 16 (ucast a) OR push_bit 8 (ucast b)", unfolded pack_16]
  from pad_step [OF 3 conv_not_space(1) conv_not_space(1) conv_not_space(1) conv_not_space(2) quad]
  show ?case
    unfolding encode_block_loop.simps Let_def fst_conv by simp
next
  case (4 a b c src)
  obtain dst n where e: "encode_block_loop src = (dst, n)" by fastforce
  let ?l = "push_bit 16 (ucast a) OR push_bit 8 (ucast b) OR ucast c :: u32"
  obtain ctx' where c: "clean ctx'"
    "\<And>out rest. decode_update_loop ctx out (conv_bin2ascii (ucast (drop_bit 18 ?l)) #
        conv_bin2ascii (ucast (drop_bit 12 ?l)) # conv_bin2ascii (ucast (drop_bit 6 ?l)) #
        conv_bin2ascii (ucast ?l) # rest) = decode_update_loop ctx' (out @ [a, b, c]) rest"
    using full_step [OF "4.prems" conv_not_space(1) conv_not_space(1) conv_not_space(1) conv_not_space(1) decode_quad_3 [of ?l]]
    unfolding pack_24 by auto
  obtain ctx'' where d: "if length src mod 3 = 0 then clean ctx'' else finished ctx''"
    "\<And>out rest. decode_update_loop ctx' out (dst @ rest) = decode_update_loop ctx'' (out @ src) rest"
    using "4.IH" [OF refl refl c(1)] e by auto
  have "Suc (Suc (Suc m)) mod 3 = m mod 3" for m :: nat by presburger
  then have "length (a # b # c # src) mod 3 = length src mod 3" by simp
  with d(1) have "if length (a # b # c # src) mod 3 = 0 then clean ctx'' else finished ctx''" by (simp only:)
  moreover have "decode_update_loop ctx out (fst (encode_block_loop (a # b # c # src)) @ rest) =
      decode_update_loop ctx'' (out @ a # b # c # src) rest" for out rest
    unfolding encode_block_loop.simps Let_def e prod.case fst_conv append.simps c(2) d(2) by simp
  ultimately show ?case by blast
qed

lemma skip_newline: "decode_update_loop ctx out (10 # rest) = decode_update_loop ctx out rest"
  by simp

lemma decode_update_lines:
  "clean ctx \<Longrightarrow> \<exists>ctx'. (if length src mod 3 = 0 then clean ctx' else finished ctx') \<and>
    (\<forall>out. decode_update_loop ctx out (encode_lines src) = (True, out @ src, ctx'))"
proof (induction src arbitrary: ctx rule: measure_induct_rule [where f = length])
  case (less src)
  consider "src = []" | "src \<noteq> []" "length src \<le> 48" | "48 < length src" by linarith
  then show ?case
  proof cases
    case 1
    with less.prems show ?thesis by auto
  next
    case 2
    then have "encode_lines src = fst (encode_block_loop src) @ [10]" by (subst encode_lines.simps) (simp add: line_def)
    with decode_update_block [OF less.prems, of src] show ?thesis by (auto simp: skip_newline)
  next
    case 3
    let ?a = "take 48 src" and ?b = "drop 48 src"
    have len: "length ?a = 48" using 3 by simp
    obtain ctx' where c: "clean ctx'"
      "\<And>out rest. decode_update_loop ctx out (fst (encode_block_loop ?a) @ rest) = decode_update_loop ctx' (out @ ?a) rest"
      using decode_update_block [OF less.prems, of ?a] len by auto
    obtain ctx'' where d: "if length ?b mod 3 = 0 then clean ctx'' else finished ctx''"
      "\<And>out. decode_update_loop ctx' out (encode_lines ?b) = (True, out @ ?b, ctx'')"
    proof -
      have "length ?b < length src" using 3 by simp
      from less.IH [OF this c(1)] show thesis using that by blast
    qed
    have lines: "encode_lines src = fst (encode_block_loop ?a) @ 10 # encode_lines ?b"
      using 3 by (subst encode_lines.simps) (auto simp: line_def)
    have "length src mod 3 = length ?b mod 3"
    proof -
      have "length src = length ?b + 3 * 16" using 3 by simp
      then show ?thesis by presburger
    qed
    with d(1) have "if length src mod 3 = 0 then clean ctx'' else finished ctx''" by simp
    moreover have "decode_update_loop ctx out (encode_lines src) = (True, out @ src, ctx'')" for out
      unfolding lines c(2) skip_newline d(2) by simp
    ultimately show ?thesis by blast
  qed
qed

lemma decode_update_append:
  "decode_update_loop ctx out (a @ b) =
    (case decode_update_loop ctx out a of
       (False, out, ctx) \<Rightarrow> (False, out, ctx)
     | (True, out, ctx) \<Rightarrow> decode_update_loop ctx out b)"
  by (induction ctx out a rule: decode_update_loop.induct) (auto simp: Let_def split: option.split)

text \<open>
  A session of the decoder: piece after piece into one buffer, until a call fails, and the final call. The first result
  lists the return values.
\<close>

fun decode_session :: "EVP_ENCODE_CTX \<Rightarrow> bytes \<Rightarrow> nat \<Rightarrow> bytes list \<Rightarrow> int list \<times> bytes \<times> nat" where
  "decode_session ctx mem pos [] = ([EVP_DecodeFinal ctx], mem, pos)"
| "decode_session ctx mem pos (piece # pieces) =
     (case EVP_DecodeUpdate ctx piece of
        (ret, out, n, ctx) \<Rightarrow>
          if ret < 0 then ([ret], copy_at mem pos out, pos + n)
          else case decode_session ctx (copy_at mem pos out) (pos + n) pieces of
                 (rets, mem, pos) \<Rightarrow> (ret # rets, mem, pos))"

lemma decode_update_prepend:
  "decode_update_loop ctx (a @ out) src = (case decode_update_loop ctx out src of (ok, bs, ctx) \<Rightarrow> (ok, a @ bs, ctx))"
  by (induction src arbitrary: ctx out) (auto simp: Let_def split: option.split)

lemma decode_update_no_error:
  "decode_update_loop ctx out src = (True, bs, ctx') \<Longrightarrow> error_encountered ctx' = error_encountered ctx"
  by (induction ctx out src rule: decode_update_loop.induct) (auto simp: Let_def split: if_splits option.splits)

lemma decode_update_pieces:
  assumes "decode_update_loop ctx [] (a @ b) = (True, bs, ctx2)"
  obtains x ctx1 y where "decode_update_loop ctx [] a = (True, x, ctx1)" "decode_update_loop ctx1 [] b = (True, y, ctx2)" "bs = x @ y"
proof -
  obtain ok x ctx1 where a: "decode_update_loop ctx [] a = (ok, x, ctx1)" by (cases "decode_update_loop ctx [] a")
  then have "ok" using assms by (cases ok) (simp_all add: decode_update_append)
  obtain ok' y ctx2' where b: "decode_update_loop ctx1 [] b = (ok', y, ctx2')" by (cases "decode_update_loop ctx1 [] b")
  then have "ok' = True \<and> x @ y = bs \<and> ctx2' = ctx2"
    using assms a \<open>ok\<close> decode_update_prepend [of ctx1 x "[]" b] by (simp add: decode_update_append)
  then show thesis using that a b \<open>ok\<close> by simp
qed

lemma decode_session_spec:
  assumes "decode_update_loop ctx [] (concat pieces) = (True, bs, ctx')" "\<not> error_encountered ctx" "pieces \<noteq> []"
    and "length bs \<le> INT_MAX" "pos + length bs \<le> length mem"
  shows "\<exists>rets. decode_session ctx mem pos pieces =
    (rets @ [if eof_seen ctx' then 0 else 1, EVP_DecodeFinal ctx'], copy_at mem pos bs, pos + length bs)"
  using assms
proof (induction pieces arbitrary: ctx mem pos bs)
  case (Cons p ps)
  obtain x ctx1 y where x: "decode_update_loop ctx [] p = (True, x, ctx1)" "decode_update_loop ctx1 [] (concat ps) = (True, y, ctx')"
    "bs = x @ y" using Cons.prems(1) by (auto elim: decode_update_pieces)
  have err: "\<not> error_encountered ctx1" using decode_update_no_error [OF x(1)] Cons.prems(2) by simp
  have upd: "EVP_DecodeUpdate ctx p = (if eof_seen ctx1 then 0 else 1, x, length x, ctx1)"
    using x(1,3) Cons.prems(2,4) by (simp add: EVP_DecodeUpdate_def)
  have cat: "copy_at (copy_at mem pos x) (pos + length x) y = copy_at mem pos bs"
    using Cons.prems(5) x(3) by (simp add: copy_at_def ac_simps)
  show ?case
  proof (cases "ps = []")
    case True
    then show ?thesis using x(2,3) upd by simp
  next
    case False
    have "pos + length x + length y \<le> length (copy_at mem pos x)" using Cons.prems(5) x(3) by (simp add: length_copy_at)
    then obtain rets where "decode_session ctx1 (copy_at mem pos x) (pos + length x) ps =
        (rets @ [if eof_seen ctx' then 0 else 1, EVP_DecodeFinal ctx'], copy_at mem pos bs, pos + length x + length y)"
      using Cons.IH [OF x(2) err False, of "pos + length x" "copy_at mem pos x"] Cons.prems(4) x(3) cat by auto
    then show ?thesis using upd x(3) by (intro exI [of _ "(if eof_seen ctx1 then 0 else 1) # rets"]) (simp add: add.assoc)
  qed
qed simp

section \<open>Properties\<close>

text \<open>C27: base64 round trips: a block of any length is encoded into four characters for every three
  bytes, the last group padded, and the block decoder recovers it from the text in any buffer of
  the announced size.\<close>

theorem base64_roundtrip:
  "(case EVP_EncodeBlock src of (text, n) \<Rightarrow>
      n = (length src + 2) div 3 * 4 \<and> length text = n + 1 \<and>
      EVP_DecodeBase64 (n div 4 * 3 + extra) (take n text) = Some src)"
proof -
  obtain dst n where e: "encode_block_loop src = (dst, n)" by fastforce
  then show ?thesis
    using encode_loop_length [OF e] decode_encode_loop [of "[]" src]
    by (simp add: EVP_EncodeBlock_def EVP_DecodeBase64_def EVP_DecodedLength_def)
qed

text \<open>C28: how the input of the streaming encoder is split into calls does not matter: a client that
  places the next text behind the bytes that the calls report fills its buffer with the lines of the
  whole input, is told their number, and nothing behind the NUL that ends them is touched. A call is
  given at most 1585834032 bytes: beyond, it reports 0 for a text longer than \<open>INT_MAX\<close>.\<close>

theorem base64_encode_chunks:
  assumes "list_all (\<lambda>c. length c \<le> 1585834032) chunks" "length (encode_lines (concat chunks)) < length mem"
  shows "\<exists>mem'. encode_session EVP_EncodeInit mem 0 chunks = (mem', length (encode_lines (concat chunks))) \<and>
    length mem' = length mem \<and> take (length (encode_lines (concat chunks))) mem' = encode_lines (concat chunks) \<and>
    drop (length (encode_lines (concat chunks)) + 1) mem' = drop (length (encode_lines (concat chunks)) + 1) mem"
  using encode_session_lines [OF init_ok(1) assms(1), of 0 mem] assms(2) init_ok(2) by (auto simp: placed_def)

lemma base64_encode_chunks_witness:
  "\<exists>mem'. encode_session EVP_EncodeInit (replicate 7 9) 0 [[1], [], [2, 3]] = (mem', 5) \<and>
    take 5 mem' = [65, 81, 73, 68, 10] \<and> drop 6 mem' = [9]"
proof -
  let ?cs = "[[1], [], [2, 3]] :: bytes list" and ?L = "[65, 81, 73, 68, 10] :: bytes"
  have lines: "encode_lines (concat ?cs) = ?L"
    by (simp add: encode_lines.simps [of "[1, 2, 3]"] line_def Let_def conv_bin2ascii_cases)
  have five: "length ?L = 5" "5 + 1 = (6 :: nat)" "drop 6 (replicate 7 9) = [9 :: u8]" by simp_all
  have "list_all (\<lambda>c. length c \<le> 1585834032) ?cs" "length (encode_lines (concat ?cs)) < length (replicate 7 (9 :: u8))"
    unfolding lines by simp_all
  from base64_encode_chunks [OF this] show ?thesis unfolding lines five by blast
qed

text \<open>C29: the streaming decoder inverts the streaming encoder: the text that a session has encoded,
  handed over in pieces however they are cut, is decoded into the input, wherever the pieces end; the
  last call reports whether the end of the data was seen, and the final call succeeds.\<close>

theorem base64_stream_roundtrip:
  assumes "list_all (\<lambda>c. length c \<le> 1585834032) chunks" "length (concat chunks) \<le> INT_MAX"
    and "encode_session EVP_EncodeInit mem 0 chunks = (mem', n)" "length (encode_lines (concat chunks)) < length mem"
    and "concat pieces = take n mem'" "pieces \<noteq> []" "length (concat chunks) \<le> length dst"
  shows "\<exists>rets. decode_session EVP_DecodeInit dst 0 pieces =
    (rets @ [if length (concat chunks) mod 3 = 0 then 1 else 0, 1],
     concat chunks @ drop (length (concat chunks)) dst, length (concat chunks))"
proof -
  let ?src = "concat chunks"
  have lines: "concat pieces = encode_lines ?src"
    using encode_session_lines [OF init_ok(1) assms(1), of 0 mem] assms(3,4,5) init_ok(2) by (auto simp: placed_def)
  have "clean EVP_DecodeInit" by (simp add: clean_def EVP_DecodeInit_def EVP_EncodeInit_def)
  then obtain ctx where c: "if length ?src mod 3 = 0 then clean ctx else finished ctx"
    "decode_update_loop EVP_DecodeInit [] (concat pieces) = (True, ?src, ctx)"
    using decode_update_lines [of EVP_DecodeInit ?src] unfolding lines by auto
  have "\<not> error_encountered EVP_DecodeInit" by (simp add: EVP_DecodeInit_def EVP_EncodeInit_def)
  from decode_session_spec [OF c(2) this assms(6,2), of 0 dst] obtain rets where
    "decode_session EVP_DecodeInit dst 0 pieces =
      (rets @ [if eof_seen ctx then 0 else 1, EVP_DecodeFinal ctx], copy_at dst 0 ?src, length ?src)" using assms(7) by auto
  moreover have "eof_seen ctx = (length ?src mod 3 \<noteq> 0)" "EVP_DecodeFinal ctx = 1"
    using c(1) by (auto simp: clean_def finished_def EVP_DecodeFinal_def split: if_splits)
  ultimately show ?thesis by (auto simp: copy_at_def)
qed

lemma base64_stream_roundtrip_witness:
  "\<exists>mem' rets. encode_session EVP_EncodeInit (replicate 6 9) 0 [[1], [2]] = (mem', 5) \<and>
    decode_session EVP_DecodeInit [7, 7, 7] 0 [[65], take 3 (drop 1 mem'), [10]] = (rets @ [0, 1], [1, 2, 7], 2)"
proof -
  let ?cs = "[[1], [2]] :: bytes list" and ?L = "[65, 81, 73, 61, 10] :: bytes"
  have lines: "encode_lines (concat ?cs) = ?L"
    by (simp add: encode_lines.simps [of "[1, 2]"] line_def Let_def conv_bin2ascii_cases)
  have five: "length ?L = 5" by simp
  have cs: "list_all (\<lambda>c. length c \<le> 1585834032) ?cs" "length (concat ?cs) \<le> INT_MAX"
    "length (encode_lines (concat ?cs)) < length (replicate 6 (9 :: u8))"
    unfolding lines by (simp_all add: INT_MAX_def)
  obtain mem' where m: "encode_session EVP_EncodeInit (replicate 6 9) 0 ?cs = (mem', 5)" "take 5 mem' = ?L"
  proof -
    have "0 + length (encode_lines (pending_data EVP_EncodeInit @ concat ?cs)) < length (replicate 6 (9 :: u8))"
      unfolding init_ok(2) append_Nil lines five by simp
    from encode_session_lines [OF init_ok(1) cs(1) this] obtain mem' where
      "encode_session EVP_EncodeInit (replicate 6 9) 0 ?cs = (mem', 5)" "placed (replicate 6 9) 0 ?L mem'"
      unfolding init_ok(2) append_Nil lines five add_0 by blast
    then show thesis using that [of mem'] by (simp only: placed_def five add_0 take_0 append_Nil simp_thms)
  qed
  have "take 3 (drop 1 (take 5 mem')) = take 3 (drop 1 mem')" by (simp add: drop_take)
  then have piece: "take 3 (drop 1 mem') = [81, 73, 61]" using m(2) by (simp add: numeral_3_eq_3)
  have pieces: "concat [[65], take 3 (drop 1 mem'), [10]] = take 5 mem'" "[[65], take 3 (drop 1 mem'), [10]] \<noteq> []"
    "length (concat ?cs) \<le> length [7, 7, 7 :: u8]"
    unfolding piece m(2) by simp_all
  obtain rets where "decode_session EVP_DecodeInit [7, 7, 7] 0 [[65], take 3 (drop 1 mem'), [10]] =
    (rets @ [if length (concat ?cs) mod 3 = 0 then 1 else 0, 1],
     concat ?cs @ drop (length (concat ?cs)) [7, 7, 7], length (concat ?cs))"
    using base64_stream_roundtrip [OF cs(1,2) m(1) cs(3) pieces] by blast
  moreover have "length (concat ?cs) = 2" "2 mod 3 = (2 :: nat)" "concat ?cs @ drop 2 [7, 7, 7] = [1, 2, 7]" by simp_all
  ultimately show ?thesis using m(1) by simp
qed

text \<open>\<open>EVP_EncodedLength\<close> announces exactly the memory that \<open>EVP_EncodeBlock\<close> writes, its final
  NUL included, and reports an overflow exactly when that size does not fit a \<open>size_t\<close>.\<close>

theorem EVP_EncodedLength_exact:
  assumes "length src < size_max"
  shows "EVP_EncodedLength (length src) =
    (if length src + 2 < size_max \<and> (length src + 2) div 3 * 4 < size_max
     then Some (length (fst (EVP_EncodeBlock src))) else None)"
proof -
  obtain dst n where e: "encode_block_loop src = (dst, n)" by fastforce
  have len: "length (fst (EVP_EncodeBlock src)) = (length src + 2) div 3 * 4 + 1"
    using encode_loop_length [OF e] e by (simp add: EVP_EncodeBlock_def)
  let ?n = "length src" and ?k = "(length src + 2) div 3"
  have over: "size_add ?n 2 < ?n \<longleftrightarrow> size_max \<le> ?n + 2"
    using assms by (intro size_add_overflow) simp_all
  show ?thesis
  proof (cases "?n + 2 < size_max \<and> ?k * 4 < size_max")
    case True
    then have "?k < 2 ^ 62" by simp
    then have "?k * 4 + 1 < size_max" by simp
    then have "size_add (?k * 4) 1 = ?k * 4 + 1" by simp
    then show ?thesis using True over len by (simp add: EVP_EncodedLength_def Let_def)
  next
    case False
    then consider "size_max \<le> ?n + 2" | "?n + 2 < size_max" "size_max \<le> ?k * 4" by linarith
    then show ?thesis
    proof cases
      case 1
      then show ?thesis using over by (simp add: EVP_EncodedLength_def)
    next
      case 2
      have "?k * 4 mod size_max div 4 < 2 ^ 62" by (simp add: less_mult_imp_div_less)
      then have "?k * 4 mod size_max div 4 \<noteq> ?k" using 2 by simp
      then show ?thesis using 2 by (simp add: EVP_EncodedLength_def Let_def)
    qed
  qed
qed

lemma EVP_EncodedLength_exact_witness:
  "EVP_EncodedLength 4 = Some (length (fst (EVP_EncodeBlock (replicate 4 0))))"
  using EVP_EncodedLength_exact [of "replicate 4 0", unfolded length_replicate] by simp

end
