(* ===== verification/Asn1Int.thy ===== *)
theory Asn1Int
  imports Asn1String DerInt
begin

text \<open>
  \<open>crypto/asn1/a_int.c\<close>: INTEGER and ENUMERATED values as a sign in the type and a magnitude in the data, their
  conversion to and from DER contents and 64-bit integers. The conversions to and from \<open>BIGNUM\<close> belong to
  the big number library, which is not modelled.
\<close>

section \<open>Sign and magnitude\<close>

definition ASN1_INTEGER_cmp :: "ASN1_STRING \<Rightarrow> ASN1_STRING \<Rightarrow> int" where
  "ASN1_INTEGER_cmp x y =
     (let neg = as_type x AND V_ASN1_NEG
      in if neg \<noteq> as_type y AND V_ASN1_NEG then (if neg \<noteq> 0 then -1 else 1)
         else
           let ret = ASN1_STRING_cmp x y
           in if neg \<noteq> 0 then (if ret < 0 then 1 else if ret > 0 then -1 else 0) else ret)"

text \<open>The loop from the last byte down; the second result is \<open>borrow\<close>.\<close>

fun negate_loop :: "bytes \<Rightarrow> bytes \<times> bool" where
  "negate_loop [] = ([], False)"
| "negate_loop (t # buf) =
     (let (buf, borrow) = negate_loop buf
      in ((0 - (if borrow then 1 else 0) - t) # buf, borrow \<or> t \<noteq> 0))"

definition negate_twos_complement :: "bytes \<Rightarrow> bytes" where
  "negate_twos_complement buf = fst (negate_loop buf)"

definition is_all_zeros :: "bytes \<Rightarrow> bool" where
  "is_all_zeros = list_all (\<lambda>b. b = 0)"

fun skip_zeros :: "bytes \<Rightarrow> bytes" where
  "skip_zeros [] = []"
| "skip_zeros (b # cbs) = (if b = 0 then skip_zeros cbs else b # cbs)"

text \<open>The bytes written at \<open>*outp\<close>; \<open>None\<close> for the return value 0. A negative value is negated in place.\<close>

definition i2c_ASN1_INTEGER :: "ASN1_STRING option \<Rightarrow> bytes option" where
  "i2c_ASN1_INTEGER x =
     (case x of
        None \<Rightarrow> None
      | Some x \<Rightarrow>
          let cbs = skip_zeros (as_bytes x);
              is_negative = as_type x AND V_ASN1_NEG \<noteq> 0;
              (is_negative, pad) =
                (case cbs of
                   [] \<Rightarrow> (False, 1)
                 | msb # copy \<Rightarrow>
                     (is_negative,
                      if is_negative then (if msb > 0x80 \<or> (msb = 0x80 \<and> \<not> is_all_zeros copy) then 1 else 0)
                      else if msb AND 0x80 \<noteq> 0 then 1 else 0))
          in if int (length cbs) > (2 ^ 31 - 1) - int pad then None
             else
               let out = replicate pad 0 @ cbs
               in Some (if is_negative then negate_twos_complement out else out))"

text \<open>
  \<open>ret\<close> is the object to fill, \<open>*out\<close> or a new one; the result is the filled object and the bytes taken from \<open>*inp\<close>.
\<close>

definition c2i_ASN1_INTEGER ::
    "allocator \<Rightarrow> ASN1_STRING \<Rightarrow> bytes \<Rightarrow> int \<Rightarrow> (ASN1_STRING \<times> nat) option" where
  "c2i_ASN1_INTEGER malloc ret inp len =
     (if len < 0 \<or> len > (2 ^ 31 - 1) div 2 then None
      else
        let cbs = take (nat len) inp
        in case CBS_is_valid_asn1_integer cbs of
             None \<Rightarrow> None
           | Some is_negative \<Rightarrow>
               let cbs =
                     (if is_negative
                      then if length cbs > 0 \<and> hd cbs = 0xff \<and> \<not> is_all_zeros (tl cbs) then tl cbs else cbs
                      else if length cbs > 0 \<and> hd cbs = 0 then tl cbs else cbs)
               in case ASN1_STRING_set malloc ret (Some cbs) (int (length cbs)) of
                    (None, _) \<Rightarrow> None
                  | (Some _, ret) \<Rightarrow>
                      Some (if is_negative
                            then ret\<lparr>as_type := V_ASN1_NEG_INTEGER,
                                   as_data := map_option
                                     (\<lambda>d. negate_twos_complement (take (as_length ret) d) @ drop (as_length ret) d) (as_data ret)\<rparr>
                            else ret\<lparr>as_type := V_ASN1_INTEGER\<rparr>,
                            nat len))"

section \<open>64-bit integers\<close>

definition asn1_string_set_uint64 :: "allocator \<Rightarrow> ASN1_STRING \<Rightarrow> u64 \<Rightarrow> int \<Rightarrow> (unit, ASN1_STRING) cres" where
  "asn1_string_set_uint64 malloc out v type =
     (let buf = skip_zeros (be_bytes 8 (unat v))
      in cbind (ASN1_STRING_set malloc out (Some buf) (int (length buf))) (\<lambda>_ out.
           (Some (), out\<lparr>as_type := type\<rparr>)))"

definition ASN1_INTEGER_set_uint64 :: "allocator \<Rightarrow> ASN1_STRING \<Rightarrow> u64 \<Rightarrow> (unit, ASN1_STRING) cres" where
  "ASN1_INTEGER_set_uint64 malloc out v = asn1_string_set_uint64 malloc out v V_ASN1_INTEGER"

definition ASN1_ENUMERATED_set_uint64 :: "allocator \<Rightarrow> ASN1_STRING \<Rightarrow> u64 \<Rightarrow> (unit, ASN1_STRING) cres" where
  "ASN1_ENUMERATED_set_uint64 malloc out v = asn1_string_set_uint64 malloc out v V_ASN1_ENUMERATED"

definition ASN1_INTEGER_set_int64 :: "allocator \<Rightarrow> ASN1_STRING \<Rightarrow> u64 \<Rightarrow> (unit, ASN1_STRING) cres" where
  "ASN1_INTEGER_set_int64 malloc a v =
     (if 0 \<le> sint v then ASN1_INTEGER_set_uint64 malloc a v
      else cbind (ASN1_INTEGER_set_uint64 malloc a (0 - v)) (\<lambda>_ a.
             (Some (), a\<lparr>as_type := V_ASN1_NEG_INTEGER\<rparr>)))"

definition ASN1_ENUMERATED_set_int64 :: "allocator \<Rightarrow> ASN1_STRING \<Rightarrow> u64 \<Rightarrow> (unit, ASN1_STRING) cres" where
  "ASN1_ENUMERATED_set_int64 malloc a v =
     (if 0 \<le> sint v then ASN1_ENUMERATED_set_uint64 malloc a v
      else cbind (ASN1_ENUMERATED_set_uint64 malloc a (0 - v)) (\<lambda>_ a.
             (Some (), a\<lparr>as_type := V_ASN1_NEG_ENUMERATED\<rparr>)))"

definition asn1_string_get_abs_uint64 :: "ASN1_STRING \<Rightarrow> int \<Rightarrow> u64 option" where
  "asn1_string_get_abs_uint64 a type =
     (if as_type a AND NOT V_ASN1_NEG \<noteq> type then None
      else if as_length a > 8 then None
      else Some (be_word (copy_at (replicate 8 0) (8 - as_length a) (as_bytes a))))"

definition asn1_string_get_uint64 :: "ASN1_STRING \<Rightarrow> int \<Rightarrow> u64 option" where
  "asn1_string_get_uint64 a type =
     (case asn1_string_get_abs_uint64 a type of
        None \<Rightarrow> None
      | Some v \<Rightarrow> if as_type a AND V_ASN1_NEG \<noteq> 0 then None else Some v)"

definition ASN1_INTEGER_get_uint64 :: "ASN1_STRING \<Rightarrow> u64 option" where
  "ASN1_INTEGER_get_uint64 a = asn1_string_get_uint64 a V_ASN1_INTEGER"

definition ASN1_ENUMERATED_get_uint64 :: "ASN1_STRING \<Rightarrow> u64 option" where
  "ASN1_ENUMERATED_get_uint64 a = asn1_string_get_uint64 a V_ASN1_ENUMERATED"

definition asn1_string_get_int64 :: "ASN1_STRING \<Rightarrow> int \<Rightarrow> u64 option" where
  "asn1_string_get_int64 a type =
     (case asn1_string_get_abs_uint64 a type of
        None \<Rightarrow> None
      | Some v \<Rightarrow>
          let (i64, fits_in_i64) =
                (if as_type a AND V_ASN1_NEG \<noteq> 0 \<and> v \<noteq> 0 then (0 - v, sint (0 - v) < 0) else (v, 0 \<le> sint v))
          in if \<not> fits_in_i64 then None else Some i64)"

definition ASN1_INTEGER_get_int64 :: "ASN1_STRING \<Rightarrow> u64 option" where
  "ASN1_INTEGER_get_int64 a = asn1_string_get_int64 a V_ASN1_INTEGER"

definition ASN1_ENUMERATED_get_int64 :: "ASN1_STRING \<Rightarrow> u64 option" where
  "ASN1_ENUMERATED_get_int64 a = asn1_string_get_int64 a V_ASN1_ENUMERATED"

text \<open>\<open>long\<close> has 64 bits, so that its range check never fails; \<open>-1\<close> reports the failures.\<close>

definition asn1_string_get_long :: "ASN1_STRING option \<Rightarrow> int \<Rightarrow> u64" where
  "asn1_string_get_long a type =
     (case a of
        None \<Rightarrow> 0
      | Some a \<Rightarrow> (case asn1_string_get_int64 a type of None \<Rightarrow> -1 | Some v \<Rightarrow> v))"

definition ASN1_INTEGER_get :: "ASN1_STRING option \<Rightarrow> u64" where
  "ASN1_INTEGER_get a = asn1_string_get_long a V_ASN1_INTEGER"

definition ASN1_ENUMERATED_get :: "ASN1_STRING option \<Rightarrow> u64" where
  "ASN1_ENUMERATED_get a = asn1_string_get_long a V_ASN1_ENUMERATED"

section \<open>Values\<close>

text \<open>The number an object stands for, and the canonical objects: no leading zeros and no negative zero.\<close>

definition is_neg :: "ASN1_STRING \<Rightarrow> bool" where
  "is_neg s \<longleftrightarrow> as_type s AND V_ASN1_NEG \<noteq> 0"

definition asn1_int :: "ASN1_STRING \<Rightarrow> int" where
  "asn1_int s = (if is_neg s then - int (be_nat (as_bytes s)) else int (be_nat (as_bytes s)))"

definition canonical_int :: "ASN1_STRING \<Rightarrow> bool" where
  "canonical_int s \<longleftrightarrow> string_ok s \<and> (as_bytes s = [] \<or> hd (as_bytes s) \<noteq> 0) \<and>
     as_type s = (if asn1_int s < 0 then V_ASN1_NEG_INTEGER else V_ASN1_INTEGER)"

lemma be_nat_bounds: "unat a * 256 ^ length bs \<le> be_nat (a # bs)" "be_nat (a # bs) < (unat a + 1) * 256 ^ length bs"
  using be_nat_bound [of bs] by (simp_all add: be_nat_Cons)

lemma be_nat_zeros: "is_all_zeros bs \<longleftrightarrow> be_nat bs = 0"
  by (induction bs) (auto simp: is_all_zeros_def be_nat_Cons unat_eq_0)

lemma be_nat_skip_zeros: "be_nat (skip_zeros bs) = be_nat bs"
  by (induction bs) (auto simp: be_nat_Cons)

lemma skip_zeros_hd: "skip_zeros bs = a # as \<Longrightarrow> a \<noteq> 0"
  by (induction bs) (auto split: if_splits)

lemma length_skip_zeros: "length (skip_zeros bs) \<le> length bs"
  by (induction bs) auto

lemma top_bit_nat: "a AND 0x80 \<noteq> 0 \<longleftrightarrow> 128 * 256 ^ length bs \<le> be_nat (a # bs)" for a :: u8
proof -
  have "128 * 256 ^ length bs \<le> be_nat (a # bs)" if "128 \<le> unat a"
    by (rule order_trans [OF _ be_nat_bounds(1)]) (use that in simp)
  moreover have "be_nat (a # bs) < 128 * 256 ^ length bs" if "unat a < 128"
  proof (rule order_less_le_trans [OF be_nat_bounds(2)])
    show "(unat a + 1) * 256 ^ length bs \<le> 128 * 256 ^ length bs" using that by (intro mult_right_mono) simp_all
  qed
  ultimately show ?thesis unfolding and_0x80_eq_0_iff by (meson not_le)
qed

text \<open>A body is minimal when its value does not fit in one byte less.\<close>

lemma minimalI:
  assumes "bs \<noteq> []"
    "2 \<le> length bs \<Longrightarrow> \<not> (- (128 * 256 ^ (length bs - 2)) \<le> sval bs \<and> sval bs < 128 * 256 ^ (length bs - 2))"
  shows "minimal bs"
proof (cases bs rule: minimal.cases)
  case (3 a b cs)
  have len: "length bs - 2 = length cs" "2 \<le> length bs" using 3 by simp_all
  have sval: "sval bs = sint a * 256 ^ Suc (length cs) + int (be_nat (b # cs))"
    using sval_Cons [of a "b # cs"] 3 by simp
  have bound: "int (be_nat (b # cs)) < 256 ^ Suc (length cs)"
    using be_nat_bound [of "b # cs"] by (simp only: of_nat_less_iff [symmetric, where 'a = int]) simp
  have low: "int (be_nat (b # cs)) < 128 * 256 ^ length cs" if "b AND 0x80 = 0"
    using top_bit_nat [of b cs] that by (simp add: not_le of_nat_less_iff [symmetric, where 'a = int] del: of_nat_less_iff)
  have high: "128 * 256 ^ length cs \<le> int (be_nat (b # cs))" if "b AND 0x80 \<noteq> 0"
    using top_bit_nat [of b cs] that by (simp add: of_nat_le_iff [symmetric, where 'a = int] del: of_nat_le_iff)
  have pow: "(256 :: int) ^ Suc (length cs) = 256 * 256 ^ length cs" "(0 :: int) < 256 ^ length cs" by simp_all
  have "\<not> (a = 0 \<and> b AND 0x80 = 0)"
    using assms(2) [OF len(2)] low pow unfolding len(1) sval by auto
  moreover have "\<not> (a = 0xff \<and> b AND 0x80 \<noteq> 0)"
  proof
    assume a: "a = 0xff \<and> b AND 0x80 \<noteq> 0"
    then have s: "sint a = - 1" by simp
    show False
      using assms(2) [OF len(2)] high a pow bound unfolding len(1) sval s by linarith
  qed
  ultimately show ?thesis by (simp add: 3)
qed (use assms in auto)

lemma unat_neg_byte:
  "unat (- t :: u8) = (256 - unat t) mod 256" "unat (- 1 - t :: u8) = 255 - unat t"
proof -
  have t: "unat t < 256" using unsigned_less [of t] by simp
  have "(of_nat (256 - unat t) :: u8) + t = of_nat (256 - unat t) + of_nat (unat t)" by simp
  also have "\<dots> = of_nat 256" unfolding of_nat_add [symmetric] using t by (simp only: le_add_diff_inverse2 order_less_imp_le)
  finally have "of_nat (256 - unat t) + t = 0" by simp
  then have "- t = of_nat (256 - unat t)" by (simp only: neg_eq_iff_add_eq_0 add.commute)
  then show "unat (- t) = (256 - unat t) mod 256" by (simp only: unat_of_nat) simp
  have "unat t \<le> 255" using t by linarith
  then have "t \<le> 255" by (simp add: word_le_nat_alt)
  then have "unat (255 - t) = 255 - unat t" by (simp add: unat_sub)
  moreover have "- 1 - t = 255 - t" by simp
  ultimately show "unat (- 1 - t) = 255 - unat t" by (simp only:)
qed

lemma negate_loop_spec:
  "negate_loop bs = (bs', borrow) \<Longrightarrow>
    length bs' = length bs \<and> borrow = (be_nat bs \<noteq> 0) \<and> be_nat bs' = (256 ^ length bs - be_nat bs) mod 256 ^ length bs"
proof (induction bs arbitrary: bs' borrow)
  case (Cons t bs)
  obtain u br where u: "negate_loop bs = (u, br)" by (cases "negate_loop bs")
  note IH = Cons.IH [OF u]
  have bs': "bs' = (0 - (if br then 1 else 0) - t) # u" "borrow = (br \<or> t \<noteq> 0)"
    using Cons.prems u by (simp_all add: Let_def split: prod.splits)
  have t: "unat t < 256" using unsigned_less [of t] by simp
  have b: "be_nat bs < 256 ^ length bs" by (rule be_nat_bound)
  let ?p = "256 ^ length bs :: nat"
  have "be_nat bs' = (256 * ?p - (unat t * ?p + be_nat bs)) mod (256 * ?p)"
  proof (cases "be_nat bs = 0")
    case True
    then have "be_nat bs' = (256 - unat t) mod 256 * ?p" using IH bs' by (simp add: be_nat_Cons unat_neg_byte)
    also have "\<dots> = (256 - unat t) * ?p mod (256 * ?p)" by (simp add: mult_mod_left)
    finally show ?thesis using True by (simp add: diff_mult_distrib)
  next
    case False
    then have "be_nat u = ?p - be_nat bs" using IH b by simp
    then have e: "be_nat bs' = (255 - unat t) * ?p + (?p - be_nat bs)"
      using IH bs' False by (simp add: be_nat_Cons unat_neg_byte)
    also have "\<dots> = 256 * ?p - (unat t * ?p + be_nat bs)"
    proof -
      have "unat t * ?p \<le> 255 * ?p" using t by (intro mult_right_mono) linarith+
      then show ?thesis using b by (simp add: diff_mult_distrib)
    qed
    finally have e: "be_nat bs' = 256 * ?p - (unat t * ?p + be_nat bs)" .
    have "256 * ?p - (unat t * ?p + be_nat bs) < 256 * ?p" using False b by simp
    then show ?thesis using e by simp
  qed
  then show ?case using IH bs' by (auto simp: be_nat_Cons unat_eq_0)
qed simp

lemma negate_spec:
  "length (negate_twos_complement bs) = length bs"
  "be_nat bs \<noteq> 0 \<Longrightarrow> be_nat (negate_twos_complement bs) = 256 ^ length bs - be_nat bs"
  using negate_loop_spec [of bs] be_nat_bound [of bs]
  by (cases "negate_loop bs"; simp add: negate_twos_complement_def)+

lemma sval_of_nat:
  assumes "bs \<noteq> []" "128 * 256 ^ (length bs - 1) \<le> be_nat bs"
  shows "sval bs = int (be_nat bs) - 256 ^ length bs"
proof -
  obtain a as where bs: "bs = a # as" using assms(1) by (cases bs) auto
  then have "a AND 0x80 \<noteq> 0" using assms(2) top_bit_nat [of a as] by simp
  then show ?thesis using sval_neg_bounds(1) [of a as] bs by simp
qed

section \<open>Encoding\<close>

lemma positive_octets:
  assumes "msb \<noteq> 0"
  shows "replicate (if msb AND 0x80 \<noteq> 0 then 1 else 0) 0 @ msb # copy = int_octets (int (be_nat (msb # copy)))"
proof (cases "msb AND 0x80 = 0")
  case True
  then have "minimal (msb # copy)" using assms by (cases copy) auto
  then show ?thesis using True sval_nonneg [of msb copy] by (simp add: int_octets_iff)
next
  case False
  then show ?thesis
    using sval_nonneg [of 0 "msb # copy"] by (simp add: int_octets_iff be_nat_Cons)
qed

lemma negative_octets:
  fixes msb :: u8 and copy :: bytes
  assumes "msb \<noteq> 0"
  defines "pad \<equiv> if msb > 0x80 \<or> (msb = 0x80 \<and> \<not> is_all_zeros copy) then 1 else 0 :: nat"
  shows "negate_twos_complement (replicate pad 0 @ msb # copy) = int_octets (- int (be_nat (msb # copy)))"
proof -
  let ?n = "length copy" and ?out = "replicate pad 0 @ msb # copy" and ?m = "be_nat (msb # copy)"
  let ?bs = "negate_twos_complement ?out"
  have msb: "1 \<le> unat msb" using assms(1) by (simp add: unat_gt_0 Suc_le_eq)
  have m: "256 ^ ?n \<le> ?m" "?m < 256 ^ Suc ?n" "?m > 0"
  proof -
    show "256 ^ ?n \<le> ?m" by (rule order_trans [OF _ be_nat_bounds(1)]) (use msb in simp)
    then show "?m > 0" by (rule order_less_le_trans [rotated]) simp
    show "?m < 256 ^ Suc ?n" using be_nat_bound [of "msb # copy"] by simp
  qed
  have pad: "pad = 1 \<longleftrightarrow> 128 * 256 ^ ?n < ?m"
  proof -
    consider "unat msb < 128" | "unat msb = 128" | "128 < unat msb" by linarith
    then show ?thesis
    proof cases
      case 1
      then have "(unat msb + 1) * 256 ^ ?n \<le> 128 * 256 ^ ?n" by (intro mult_right_mono) simp_all
      then have "?m < 128 * 256 ^ ?n" using be_nat_bounds(2) [of msb copy] by linarith
      then show ?thesis using 1 by (auto simp: pad_def word_less_nat_alt)
    next
      case 2
      then have "msb = 0x80" by (simp add: word_unat_eq_iff)
      then show ?thesis by (simp add: pad_def be_nat_zeros be_nat_Cons)
    next
      case 3
      then have "129 * 256 ^ ?n \<le> unat msb * 256 ^ ?n" by (intro mult_right_mono) simp_all
      moreover have "(128 :: nat) * 256 ^ ?n < 129 * 256 ^ ?n" by simp
      ultimately have "128 * 256 ^ ?n < ?m" using be_nat_bounds(1) [of msb copy] by linarith
      then show ?thesis using 3 by (auto simp: pad_def word_less_nat_alt)
    qed
  qed
  have p01: "pad = 0 \<or> pad = 1" by (simp add: pad_def)
  have out: "be_nat ?out = ?m" "length ?out = pad + Suc ?n" using p01 by (auto simp: be_nat_Cons)
  have len: "length ?bs = pad + Suc ?n" using negate_spec(1) [of ?out] out by simp
  have val: "be_nat ?bs = 256 ^ (pad + Suc ?n) - ?m" using negate_spec(2) [of ?out] out m(3) by simp
  have half: "?m \<le> 128 * 256 ^ (pad + ?n)" using pad p01 m(2) by auto
  have "128 * 256 ^ (length ?bs - 1) \<le> be_nat ?bs" unfolding len val using half by simp
  then have "sval ?bs = int (be_nat ?bs) - 256 ^ length ?bs" using len by (intro sval_of_nat) auto
  also have "\<dots> = - int ?m"
    unfolding len val using half by (simp add: of_nat_diff)
  finally have s: "sval ?bs = - int ?m" .
  have "minimal ?bs"
  proof (rule minimalI)
    show "?bs \<noteq> []" using len by auto
    assume l: "2 \<le> length ?bs"
    have "128 * 256 ^ (pad + Suc ?n - 2) < ?m"
    proof (cases "pad = 1")
      case True
      then show ?thesis using pad by simp
    next
      case False
      then obtain k where k: "?n = Suc k" "pad = 0" using l len p01 by (cases ?n) auto
      have "(128 :: nat) * 256 ^ k < 256 ^ Suc k" by simp
      then have "128 * 256 ^ k < ?m" using m(1) unfolding k(1) by (rule order_less_le_trans)
      then show ?thesis using k by simp
    qed
    then have "int (128 * 256 ^ (pad + Suc ?n - 2)) < int ?m" by (simp only: of_nat_less_iff)
    then show "\<not> (- (128 * 256 ^ (length ?bs - 2)) \<le> sval ?bs \<and> sval ?bs < 128 * 256 ^ (length ?bs - 2))"
      unfolding s len by simp
  qed
  with s show ?thesis by (simp add: int_octets_iff)
qed

lemma i2c_correct:
  assumes "string_ok s" "as_length s < 2 ^ 31 - 1"
  shows "i2c_ASN1_INTEGER (Some s) = Some (int_octets (asn1_int s))"
proof (cases "skip_zeros (as_bytes s)")
  case Nil
  then have z: "be_nat (as_bytes s) = 0" using be_nat_skip_zeros [of "as_bytes s"] by simp
  have "[0] = int_octets 0" by (simp add: int_octets_small)
  then show ?thesis using Nil z by (simp add: i2c_ASN1_INTEGER_def Let_def asn1_int_def)
next
  case (Cons msb copy)
  note hd = skip_zeros_hd [OF Cons]
  have n: "be_nat (as_bytes s) = be_nat (msb # copy)" using be_nat_skip_zeros [of "as_bytes s"] Cons by simp
  have "length (msb # copy) \<le> as_length s"
    using length_skip_zeros [of "as_bytes s"] length_as_bytes [OF assms(1)] by (simp add: Cons)
  then have short: "\<not> int (length (msb # copy)) > (2 ^ 31 - 1) - int pad" if "pad \<le> 1" for pad :: nat
    using assms(2) that by simp
  show ?thesis
  proof (cases "is_neg s")
    case True
    then show ?thesis
      using negative_octets [OF hd, of copy] short
      by (simp add: i2c_ASN1_INTEGER_def Cons is_neg_def asn1_int_def n)
  next
    case False
    then show ?thesis
      using positive_octets [OF hd, of copy] short
      by (simp add: i2c_ASN1_INTEGER_def Cons is_neg_def asn1_int_def n)
  qed
qed

section \<open>Decoding\<close>

text \<open>The magnitude \<open>c2i_ASN1_INTEGER\<close> stores for a minimal body.\<close>

definition magnitude :: "bytes \<Rightarrow> bytes" where
  "magnitude cbs =
     (if sval cbs < 0
      then negate_twos_complement (if hd cbs = 0xff \<and> \<not> is_all_zeros (tl cbs) then tl cbs else cbs)
      else if hd cbs = 0 then tl cbs else cbs)"

lemma hd_not_zero:
  assumes "bs \<noteq> []" "256 ^ (length bs - 1) \<le> be_nat bs"
  shows "hd bs \<noteq> 0"
proof -
  obtain a as where bs: "bs = a # as" using assms(1) by (cases bs) auto
  show ?thesis
  proof
    assume "hd bs = 0"
    then have "be_nat bs < 256 ^ length as" using be_nat_bound [of as] by (simp add: bs be_nat_Cons)
    then show False using assms(2) by (simp add: bs)
  qed
qed

lemma magnitude_spec:
  assumes "minimal cbs"
  shows "int (be_nat (magnitude cbs)) = \<bar>sval cbs\<bar>" "magnitude cbs = [] \<or> hd (magnitude cbs) \<noteq> 0"
    "length (magnitude cbs) \<le> length cbs"
proof -
  obtain a as where cbs: "cbs = a # as" using assms by (cases cbs) auto
  let ?n = "length as"
  have "int (be_nat (magnitude cbs)) = \<bar>sval cbs\<bar> \<and> (magnitude cbs = [] \<or> hd (magnitude cbs) \<noteq> 0) \<and>
    length (magnitude cbs) \<le> length cbs"
  proof (cases "a AND 0x80 = 0")
    case True
    have v: "sval cbs = int (be_nat cbs)" using sval_nonneg [OF True] by (simp add: cbs)
    have m: "magnitude cbs = (if a = 0 then as else cbs)" unfolding magnitude_def v by (simp add: cbs)
    have "be_nat (if a = 0 then as else cbs) = be_nat cbs" by (simp add: cbs be_nat_Cons)
    moreover have "a = 0 \<Longrightarrow> as = [] \<or> hd as \<noteq> 0" using assms by (cases as) (auto simp: cbs)
    ultimately show ?thesis unfolding m v by (auto simp: cbs)
  next
    case False
    note neg = sval_neg_bounds [OF False, of as]
    show ?thesis
    proof (cases "a = 0xff \<and> \<not> is_all_zeros as")
      case True
      then obtain b bs where as: "as = b # bs" by (cases as) (auto simp: is_all_zeros_def)
      have low: "be_nat as < 128 * 256 ^ length bs"
        using True assms top_bit_nat [of b bs] by (simp add: cbs as not_le)
      have m: "magnitude cbs = negate_twos_complement as"
        using True neg by (simp add: magnitude_def cbs)
      have z: "be_nat as \<noteq> 0" using True by (simp add: be_nat_zeros)
      note n = negate_spec(1) [of as] negate_spec(2) [OF z]
      have "sval cbs = int (be_nat as) - 256 ^ ?n"
        using neg(1) True by (simp add: cbs be_nat_Cons)
      then have "int (be_nat (magnitude cbs)) = \<bar>sval cbs\<bar>"
        using n(2) be_nat_bound [of as] unfolding m by (simp add: of_nat_diff abs_if)
      moreover have "hd (magnitude cbs) \<noteq> 0"
      proof (rule hd_not_zero)
        show "256 ^ (length (magnitude cbs) - 1) \<le> be_nat (magnitude cbs)"
          using n low by (simp add: m as)
      qed (use n as in \<open>auto simp: m\<close>)
      ultimately show ?thesis using n(1) unfolding m by (simp add: cbs)
    next
      case plain: False
      have m: "magnitude cbs = negate_twos_complement cbs"
        using plain neg by (auto simp: magnitude_def cbs)
      have top: "128 * 256 ^ ?n \<le> be_nat cbs" using False top_bit_nat [of a as] by (simp add: cbs)
      moreover have "(0 :: nat) < 128 * 256 ^ ?n" by simp
      ultimately have z: "be_nat cbs \<noteq> 0" by linarith
      note n = negate_spec(1) [of cbs] negate_spec(2) [OF z]
      have "int (be_nat (magnitude cbs)) = \<bar>sval cbs\<bar>"
        using n(2) be_nat_bound [of cbs] neg unfolding m by (simp add: of_nat_diff abs_if cbs)
      moreover have "hd (magnitude cbs) \<noteq> 0"
      proof (rule hd_not_zero)
        have "be_nat cbs \<le> 255 * 256 ^ ?n"
        proof (cases "a = 0xff")
          case True
          then show ?thesis using plain by (simp add: cbs be_nat_Cons be_nat_zeros)
        next
          case False
          then have "unat a \<noteq> 255" by (simp add: word_unat_eq_iff)
          moreover have "unat a < 256" using unsigned_less [of a] by simp
          ultimately have "unat a + 1 \<le> 255" by linarith
          then have "(unat a + 1) * 256 ^ ?n \<le> 255 * 256 ^ ?n" by (rule mult_right_mono) simp
          then show ?thesis using be_nat_bounds(2) [of a as] unfolding cbs by linarith
        qed
        then show "256 ^ (length (magnitude cbs) - 1) \<le> be_nat (magnitude cbs)"
          unfolding m n by (simp add: cbs)
        show "magnitude cbs \<noteq> []" unfolding m length_0_conv [symmetric] n by (simp add: cbs)
      qed
      ultimately show ?thesis using n(1) by (simp add: m)
    qed
  qed
  then show "int (be_nat (magnitude cbs)) = \<bar>sval cbs\<bar>" "magnitude cbs = [] \<or> hd (magnitude cbs) \<noteq> 0"
    "length (magnitude cbs) \<le> length cbs" by auto
qed

lemma neg_types:
  "V_ASN1_NEG_INTEGER AND V_ASN1_NEG \<noteq> 0" "V_ASN1_INTEGER AND V_ASN1_NEG = 0"
  "V_ASN1_NEG_INTEGER AND NOT V_ASN1_NEG = V_ASN1_INTEGER" "V_ASN1_INTEGER AND NOT V_ASN1_NEG = V_ASN1_INTEGER"
  by (simp_all add: asn1_types)

lemma is_neg_type [simp]:
  "is_neg (s\<lparr>as_type := V_ASN1_NEG_INTEGER\<rparr>)" "\<not> is_neg (s\<lparr>as_type := V_ASN1_INTEGER\<rparr>)"
  by (simp_all add: is_neg_def neg_types)

lemma c2i_spec:
  assumes "alloc_ok malloc" "string_ok ret" "length cbs \<le> (2 ^ 31 - 1) div 2"
    "c2i_ASN1_INTEGER malloc ret (cbs @ rest) (int (length cbs)) = Some (s, n)"
  shows "cbs = int_octets (asn1_int s) \<and> canonical_int s \<and> n = length cbs \<and> as_length s \<le> length cbs"
proof -
  define neg where "neg \<longleftrightarrow> sval cbs < 0"
  define body where "body = (if neg then if length cbs > 0 \<and> hd cbs = 0xff \<and> \<not> is_all_zeros (tl cbs) then tl cbs else cbs
      else if length cbs > 0 \<and> hd cbs = 0 then tl cbs else cbs)"
  have min: "minimal cbs"
    using assms(3,4) by (auto simp: c2i_ASN1_INTEGER_def valid_integer_minimal split: if_splits)
  then have pos: "0 < length cbs" by auto
  obtain s' where set: "ASN1_STRING_set malloc ret (Some body) (int (length body)) = (Some (), s')"
    and s: "s = (if neg then s'\<lparr>as_type := V_ASN1_NEG_INTEGER,
                   as_data := map_option (\<lambda>d. negate_twos_complement (take (as_length s') d) @ drop (as_length s') d) (as_data s')\<rparr>
                 else s'\<lparr>as_type := V_ASN1_INTEGER\<rparr>)" and n: "n = length cbs"
    using assms(3,4) min
    by (auto simp: c2i_ASN1_INTEGER_def valid_integer_minimal Let_def neg_def [symmetric] body_def [symmetric]
        split: option.splits prod.splits)
  obtain b where s': "string_ok s'" "as_bytes s' = body" "as_length s' = length body" "as_data s' = Some b" "length body < length b"
    using string_set [OF assms(1,2) order_refl set] by auto
  have take: "take (length body) b = body" using s' by (simp add: as_bytes_def)
  have mag: "magnitude cbs = (if neg then negate_twos_complement body else body)"
    using pos by (simp add: magnitude_def neg_def body_def)
  have bytes: "as_bytes s = magnitude cbs" "string_ok s"
  proof -
    have l: "length (negate_twos_complement body) = length body" by (rule negate_spec(1))
    show "as_bytes s = magnitude cbs" "string_ok s"
      using s' take l by (auto simp: s mag as_bytes_def string_ok_def)
  qed
  have neg_s: "is_neg s = neg" using s by (simp add: is_neg_def neg_types)
  have val: "asn1_int s = sval cbs"
    using magnitude_spec(1) [OF min] by (simp add: asn1_int_def neg_s bytes neg_def)
  have "as_type s = (if neg then V_ASN1_NEG_INTEGER else V_ASN1_INTEGER)" using s by simp
  then have "canonical_int s"
    using bytes magnitude_spec(2) [OF min] by (simp add: canonical_int_def val neg_def)
  moreover have "cbs = int_octets (sval cbs)" using min by (simp add: int_octets_iff)
  moreover have "as_length s \<le> length cbs"
    using length_as_bytes [OF bytes(2)] magnitude_spec(3) [OF min] bytes(1) by simp
  ultimately show ?thesis using n val by simp
qed

lemma c2i_total:
  assumes "minimal cbs" "length cbs \<le> ASN1_STRING_MAX" "\<And>n. malloc n \<noteq> None"
  shows "c2i_ASN1_INTEGER malloc ret (cbs @ rest) (int (length cbs)) \<noteq> None"
proof -
  have small: "\<not> (int (length cbs) < 0 \<or> int (length cbs) > (2 ^ 31 - 1) div 2)"
    using assms(2) by (simp add: ASN1_STRING_MAX_def)
  have set: "\<exists>s'. ASN1_STRING_set malloc ret (Some b) (int (length b)) = (Some (), s')" if "length b \<le> length cbs" for b
    using string_set_total [of "length b" malloc ret b] assms(2,3) that by simp
  define body where "body = (if sval cbs < 0 then if length cbs > 0 \<and> hd cbs = 0xff \<and> \<not> is_all_zeros (tl cbs) then tl cbs else cbs
      else if length cbs > 0 \<and> hd cbs = 0 then tl cbs else cbs)"
  have "length body \<le> length cbs" by (simp add: body_def)
  then obtain s' where "ASN1_STRING_set malloc ret (Some body) (int (length body)) = (Some (), s')" using set by blast
  then show ?thesis
    using small assms(1) by (simp add: c2i_ASN1_INTEGER_def valid_integer_minimal Let_def body_def [symmetric])
qed

text \<open>
  the INTEGER codec of the legacy module is exact for integers of any size: whatever \<open>c2i_ASN1_INTEGER\<close> accepts
  is the minimal two's complement encoding of the value of the object it fills, which has no leading zeros and no
  negative zero, and \<open>i2c_ASN1_INTEGER\<close> writes the same bytes again; with memory it accepts every such encoding.
\<close>

theorem asn1_integer_roundtrip:
  assumes "alloc_ok malloc" "string_ok ret" "length cbs \<le> ASN1_STRING_MAX"
  shows "(\<forall>s n. c2i_ASN1_INTEGER malloc ret (cbs @ rest) (int (length cbs)) = Some (s, n) \<longrightarrow>
      cbs = int_octets (asn1_int s) \<and> canonical_int s \<and> n = length cbs \<and> i2c_ASN1_INTEGER (Some s) = Some cbs) \<and>
    ((\<forall>n. malloc n \<noteq> None) \<longrightarrow>
      (\<exists>s. c2i_ASN1_INTEGER malloc ret (cbs @ rest) (int (length cbs)) = Some (s, length cbs)) = (\<exists>i. cbs = int_octets i))"
proof (intro conjI allI impI)
  have short: "length cbs \<le> (2 ^ 31 - 1) div 2" using assms(3) by (simp add: ASN1_STRING_MAX_def)
  note spec = c2i_spec [OF assms(1,2) short, of rest]
  fix s n
  assume c: "c2i_ASN1_INTEGER malloc ret (cbs @ rest) (int (length cbs)) = Some (s, n)"
  note sp = spec [OF c]
  show "cbs = int_octets (asn1_int s)" "canonical_int s" "n = length cbs" using sp by auto
  have "as_length s \<le> ASN1_STRING_MAX" using sp assms(3) by linarith
  then have "as_length s < 2 ^ 31 - 1" by (simp add: ASN1_STRING_MAX_def)
  then show "i2c_ASN1_INTEGER (Some s) = Some cbs" using sp by (simp add: i2c_correct canonical_int_def)
next
  have short: "length cbs \<le> (2 ^ 31 - 1) div 2" using assms(3) by (simp add: ASN1_STRING_MAX_def)
  let ?c = "c2i_ASN1_INTEGER malloc ret (cbs @ rest) (int (length cbs))"
  assume "\<forall>n. malloc n \<noteq> None"
  then have "minimal cbs \<Longrightarrow> ?c \<noteq> None" using c2i_total [OF _ assms(3)] by blast
  moreover have "?c = Some (s, n) \<Longrightarrow> cbs = int_octets (asn1_int s) \<and> n = length cbs" for s n
    using c2i_spec [OF assms(1,2) short, of rest s n] by simp
  ultimately show "(\<exists>s. ?c = Some (s, length cbs)) = (\<exists>i. cbs = int_octets i)"
    by (cases ?c) (auto simp: int_octets_iff)
qed

lemma canonical_zero: "canonical_int (ASN1_STRING_type_new V_ASN1_INTEGER)"
  by (simp add: canonical_int_def asn1_int_def is_neg_def) (simp add: ASN1_STRING_type_new_def)

lemma asn1_integer_roundtrip_witness:
  "\<exists>s n. c2i_ASN1_INTEGER (\<lambda>n. Some (replicate n 0)) ASN1_STRING_new ([0xff, 0x7f] @ [1]) (int (length [0xff, 0x7f :: u8])) = Some (s, n) \<and>
     i2c_ASN1_INTEGER (Some s) = Some [0xff, 0x7f]"
proof -
  let ?m = "\<lambda>n. Some (replicate n 0) :: bytes option"
  have ok: "alloc_ok ?m" by (simp add: alloc_ok_def)
  have l: "length [0xff, 0x7f :: u8] \<le> ASN1_STRING_MAX" by (simp add: ASN1_STRING_MAX_def)
  note rt = asn1_integer_roundtrip [OF ok type_new_ok(3) l, of "[1]"]
  have "[0xff, 0x7f] = int_octets (- 129)" by (simp add: int_octets_iff sval_Cons be_nat_Cons)
  then have "\<exists>i. [0xff, 0x7f] = int_octets i" by (rule exI)
  moreover have "\<forall>n. ?m n \<noteq> None" by simp
  ultimately obtain s where s: "c2i_ASN1_INTEGER ?m ASN1_STRING_new ([0xff, 0x7f] @ [1]) (int (length [0xff, 0x7f :: u8])) =
      Some (s, length [0xff, 0x7f :: u8])"
    using rt by blast
  then have "i2c_ASN1_INTEGER (Some s) = Some [0xff, 0x7f]" using conjunct1 [OF rt] by blast
  with s show ?thesis by blast
qed

section \<open>64-bit values\<close>

lemma get_abs:
  assumes "string_ok a" "as_length a \<le> 8" "as_type a AND NOT V_ASN1_NEG = ty"
  shows "asn1_string_get_abs_uint64 a ty = Some (of_nat (be_nat (as_bytes a)))" "be_nat (as_bytes a) < 2 ^ 64"
proof -
  have len: "length (as_bytes a) \<le> 8" using length_as_bytes [OF assms(1)] assms(2) by simp
  have zeros: "be_nat (replicate k 0 @ bs) = be_nat bs" for k and bs :: bytes
    by (induction k) (simp_all add: be_nat_Cons)
  have "copy_at (replicate 8 0) (8 - as_length a) (as_bytes a) = replicate (8 - as_length a) 0 @ as_bytes a"
    using assms(2) length_as_bytes [OF assms(1)] by (simp add: copy_at_def)
  then have "be_word (copy_at (replicate 8 0) (8 - as_length a) (as_bytes a)) = of_nat (be_nat (as_bytes a))"
    using assms(2) length_as_bytes [OF assms(1)] unat_be_word [of "replicate (8 - as_length a) 0 @ as_bytes a"]
    by (simp add: zeros) (metis of_nat_unat ucast_id zeros)
  then show "asn1_string_get_abs_uint64 a ty = Some (of_nat (be_nat (as_bytes a)))"
    using assms(2,3) by (simp add: asn1_string_get_abs_uint64_def)
  have "be_nat (as_bytes a) < 256 ^ length (as_bytes a)" by (rule be_nat_bound)
  also have "\<dots> \<le> (256 :: nat) ^ 8" using len by (intro power_increasing) simp_all
  finally show "be_nat (as_bytes a) < 2 ^ 64" by simp
qed

lemma get_int64:
  assumes "string_ok a" "as_length a \<le> 8" "as_type a AND NOT V_ASN1_NEG = ty"
  shows "asn1_string_get_int64 a ty =
    (if - (2 ^ 63) \<le> asn1_int a \<and> asn1_int a < 2 ^ 63 then Some (of_int (asn1_int a)) else None)"
proof -
  let ?m = "be_nat (as_bytes a)"
  note abs = get_abs [OF assms]
  have z: "(18446744073709551616 :: u64) = 0" by simp
  have sint: "sint (of_int i :: u64) = i" if "- (2 ^ 63) \<le> i" "i < 2 ^ 63" for i :: int
    using that by (simp add: signed_of_int signed_take_bit_int_eq_self)
  have big: "sint (of_int i :: u64) = i - 2 ^ 64" if "2 ^ 63 \<le> i" "i < 2 ^ 64" for i :: int
    using sint [of "i - 2 ^ 64"] that by (simp add: z)
  have v: "(of_nat ?m :: u64) = 0 \<longleftrightarrow> ?m = 0"
    using abs(2) by (simp add: word_unat_eq_iff unat_of_nat)
  have m: "int ?m < 2 ^ 64" using abs(2) by (simp only: of_nat_less_iff [symmetric, where 'a = int]) simp
  show ?thesis
  proof (cases "is_neg a \<and> ?m \<noteq> 0")
    case True
    have e: "0 - (of_nat ?m :: u64) = of_int (- int ?m)" by simp
    have "sint (of_int (- int ?m) :: u64) < 0 \<longleftrightarrow> - (2 ^ 63) \<le> - int ?m"
    proof (cases "- (2 ^ 63) \<le> - int ?m")
      case True
      then show ?thesis using sint [of "- int ?m"] \<open>is_neg a \<and> ?m \<noteq> 0\<close> by simp
    next
      case False
      then have "sint (of_int (2 ^ 64 - int ?m) :: u64) = 2 ^ 64 - int ?m" using m by (intro sint) simp_all
      then have "sint (of_int (- int ?m) :: u64) = 2 ^ 64 - int ?m" by (simp add: z)
      then show ?thesis using False m by simp
    qed
    then show ?thesis
      using True v abs(1) unfolding asn1_string_get_int64_def e by (simp add: asn1_int_def is_neg_def e)
  next
    case False
    have "0 \<le> sint (of_nat ?m :: u64) \<longleftrightarrow> int ?m < 2 ^ 63"
      using sint [of "int ?m"] big [of "int ?m"] m by (cases "int ?m < 2 ^ 63") simp_all
    then show ?thesis
      using False v abs(1) unfolding asn1_string_get_int64_def
      by (auto simp: asn1_int_def is_neg_def)
  qed
qed

lemma skip_zeros_canonical: "skip_zeros bs = [] \<or> hd (skip_zeros bs) \<noteq> 0"
  by (cases "skip_zeros bs") (auto dest: skip_zeros_hd)

lemma set_uint64:
  assumes "alloc_ok malloc" "string_ok a" "asn1_string_set_uint64 malloc a v ty = (r, a')"
  shows "if r = None then a' = a
    else string_ok a' \<and> as_type a' = ty \<and> as_length a' \<le> 8 \<and> be_nat (as_bytes a') = unat v \<and>
      (as_bytes a' = [] \<or> hd (as_bytes a') \<noteq> 0)"
proof -
  let ?buf = "skip_zeros (be_bytes 8 (unat v))"
  obtain r' a'' where set: "ASN1_STRING_set malloc a (Some ?buf) (int (length ?buf)) = (r', a'')"
    by (cases "ASN1_STRING_set malloc a (Some ?buf) (int (length ?buf))")
  have len: "length ?buf \<le> 8" using length_skip_zeros [of "be_bytes 8 (unat v)"] by simp
  have "unat v < 256 ^ 8" using unsigned_less [of v, where ?'a = nat] by simp
  then have nat: "be_nat ?buf = unat v" by (simp add: be_nat_skip_zeros be_nat_be_bytes)
  show ?thesis
    using string_set [OF assms(1,2) order_refl set] set assms(3) len nat skip_zeros_canonical [of "be_bytes 8 (unat v)"]
    by (cases r') (auto simp: asn1_string_set_uint64_def Let_def)
qed

lemma unat_of_int_u64: "0 \<le> i \<Longrightarrow> i < 2 ^ 64 \<Longrightarrow> int (unat (of_int i :: u64)) = i"
proof -
  assume i: "0 \<le> i" "i < 2 ^ 64"
  then have "nat i < 2 ^ LENGTH(64)" by (simp add: nat_less_iff)
  then have "unat (of_nat (nat i) :: u64) = nat i" by (simp only: unat_of_nat mod_less)
  then show ?thesis using i by simp
qed

lemma unat_sint: "0 \<le> sint v \<Longrightarrow> int (unat v) = sint v" "sint v < 0 \<Longrightarrow> int (unat (- v)) = - sint v" for v :: u64
proof -
  have range: "- (2 ^ 63) \<le> sint v" "sint v < 2 ^ 63" using sint_ge [of v] sint_lt [of v] by simp_all
  have v: "of_int (sint v) = v" by simp
  then have n: "of_int (- sint v) = - v" by simp
  show "int (unat v) = sint v" if "0 \<le> sint v"
    using unat_of_int_u64 [of "sint v"] that range unfolding v by simp
  show "int (unat (- v)) = - sint v" if "sint v < 0"
    using unat_of_int_u64 [of "- sint v"] that range unfolding n by simp
qed

lemma set_int64:
  assumes "alloc_ok malloc" "string_ok a" "ASN1_INTEGER_set_int64 malloc a v = (Some u, a')"
  shows "canonical_int a' \<and> asn1_int a' = sint v \<and> as_length a' \<le> 8"
proof (cases "0 \<le> sint v")
  case True
  then have "asn1_string_set_uint64 malloc a v V_ASN1_INTEGER = (Some u, a')"
    using assms(3) by (simp add: ASN1_INTEGER_set_int64_def ASN1_INTEGER_set_uint64_def)
  note set = set_uint64 [OF assms(1,2) this, simplified]
  have "int (unat v) = sint v" using True by (rule unat_sint)
  then show ?thesis using set True by (auto simp: canonical_int_def asn1_int_def is_neg_def neg_types)
next
  case False
  then obtain a'' where set: "asn1_string_set_uint64 malloc a (0 - v) V_ASN1_INTEGER = (Some u, a'')"
    and a': "a' = a''\<lparr>as_type := V_ASN1_NEG_INTEGER\<rparr>"
    using assms(3) by (auto simp: ASN1_INTEGER_set_int64_def ASN1_INTEGER_set_uint64_def cbind_eq_Some)
  note set = set_uint64 [OF assms(1,2) set, simplified]
  have "int (unat (- v)) = - sint v" using False by (intro unat_sint) simp
  then show ?thesis using set a' False by (auto simp: canonical_int_def asn1_int_def is_neg_def neg_types)
qed

text \<open>
  a 64-bit integer stored in an INTEGER is read back, and is written as the minimal DER body of its value;
  an INTEGER of at most eight bytes is read as a 64-bit integer exactly when its value is in range.
\<close>

theorem asn1_int64_roundtrip:
  assumes "alloc_ok malloc" "string_ok a" "ASN1_INTEGER_set_int64 malloc a v = (Some u, a')"
    "string_ok b" "as_length b \<le> 8" "as_type b AND NOT V_ASN1_NEG = V_ASN1_INTEGER"
  shows "ASN1_INTEGER_get_int64 a' = Some v \<and> ASN1_INTEGER_get (Some a') = v \<and>
    i2c_ASN1_INTEGER (Some a') = Some (int_octets (sint v)) \<and>
    ASN1_INTEGER_get_int64 b = (if - (2 ^ 63) \<le> asn1_int b \<and> asn1_int b < 2 ^ 63 then Some (of_int (asn1_int b)) else None)"
proof -
  have a': "string_ok a'" "as_length a' \<le> 8" "as_type a' AND NOT V_ASN1_NEG = V_ASN1_INTEGER" "asn1_int a' = sint v"
    using set_int64 [OF assms(1-3)] by (auto simp: canonical_int_def neg_types)
  have "- (2 ^ 63) \<le> sint v" "sint v < 2 ^ 63" using sint_ge [of v] sint_lt [of v] by simp_all
  then have g: "ASN1_INTEGER_get_int64 a' = Some v"
    unfolding ASN1_INTEGER_get_int64_def get_int64 [OF a'(1-3)] a'(4) by simp
  then show ?thesis
    using i2c_correct [of a'] a' get_int64 [OF assms(4-6)]
    by (simp add: ASN1_INTEGER_get_int64_def ASN1_INTEGER_get_def asn1_string_get_long_def)
qed

lemma asn1_int64_roundtrip_witness:
  "\<exists>a'. ASN1_INTEGER_get_int64 a' = Some (- 129) \<and> ASN1_INTEGER_get (Some a') = - 129 \<and>
     i2c_ASN1_INTEGER (Some a') = Some (int_octets (sint (- 129 :: u64))) \<and>
     ASN1_INTEGER_get_int64 (ASN1_STRING_type_new V_ASN1_INTEGER) =
       (if - (2 ^ 63) \<le> asn1_int (ASN1_STRING_type_new V_ASN1_INTEGER) \<and> asn1_int (ASN1_STRING_type_new V_ASN1_INTEGER) < 2 ^ 63
        then Some (of_int (asn1_int (ASN1_STRING_type_new V_ASN1_INTEGER))) else None)"
proof -
  let ?m = "\<lambda>n. Some (replicate n 0) :: bytes option"
  have ok: "alloc_ok ?m" by (simp add: alloc_ok_def)
  have "\<exists>a'. ASN1_INTEGER_set_int64 ?m ASN1_STRING_new (- 129) = (Some (), a')"
  proof -
    let ?buf = "skip_zeros (be_bytes 8 (unat (0 - (- 129 :: u64))))"
    have "length ?buf \<le> 8" using length_skip_zeros [of "be_bytes 8 (unat (0 - (- 129 :: u64)))"] by simp
    then obtain s where "ASN1_STRING_set ?m ASN1_STRING_new (Some ?buf) (int (length ?buf)) = (Some (), s)"
      using string_set_total [of "length ?buf" ?m ASN1_STRING_new ?buf] by (auto simp: ASN1_STRING_MAX_def)
    then show ?thesis
      by (simp add: ASN1_INTEGER_set_int64_def ASN1_INTEGER_set_uint64_def asn1_string_set_uint64_def Let_def del: be_bytes.simps)
  qed
  then obtain a' where a': "ASN1_INTEGER_set_int64 ?m ASN1_STRING_new (- 129) = (Some (), a')" by blast
  show ?thesis
    by (rule exI [of _ a'], rule asn1_int64_roundtrip [OF ok type_new_ok(3) a' type_new_ok(1)])
      (simp_all add: ASN1_STRING_type_new_def neg_types)
qed

end
