(* ===== verification/Asn1Bits.thy ===== *)
theory Asn1Bits
  imports Asn1String
begin

text \<open>
  \<open>crypto/asn1/a_bitstr.c\<close>: BIT STRING values. A string keeps its unused bits in \<open>flags\<close>, or, after
  \<open>ASN1_BIT_STRING_set_bit\<close>, leaves them to be computed from its trailing zeros. The theory shows that
  the contents written and read here are those the DER reader of \<open>cbs.c\<close> accepts, bit by bit.
\<close>

section \<open>Operations\<close>

definition ASN1_BIT_STRING_set :: "allocator \<Rightarrow> ASN1_STRING \<Rightarrow> bytes option \<Rightarrow> int \<Rightarrow> (unit, ASN1_STRING) cres" where
  "ASN1_BIT_STRING_set malloc x d len = ASN1_STRING_set malloc x d len"

definition ASN1_BIT_STRING_num_bytes :: "ASN1_STRING \<Rightarrow> nat option" where
  "ASN1_BIT_STRING_num_bytes str =
     (let (len, padding_bits) = asn1_bit_string_length str
      in if padding_bits \<noteq> 0 then None else Some len)"

text \<open>The bytes written at \<open>*pp\<close>; \<open>None\<close> for the return value 0.\<close>

definition i2c_ASN1_BIT_STRING :: "ASN1_STRING option \<Rightarrow> bytes option" where
  "i2c_ASN1_BIT_STRING a =
     (case a of
        None \<Rightarrow> None
      | Some a \<Rightarrow>
          let (len, bits) = asn1_bit_string_length a
          in if len > 2 ^ 31 - 1 - 1 then None
             else
               let p = take len (case as_data a of None \<Rightarrow> [] | Some d \<Rightarrow> d)
               in Some (of_nat bits #
                    (if len > 0 then p[len - 1 := p ! (len - 1) AND push_bit bits 0xff] else p)))"

text \<open>
  The object is \<open>*a\<close> or a new one; a failing copy leaves its flags changed. The result is the number of bytes
  taken from \<open>*pp\<close>.
\<close>

definition c2i_ASN1_BIT_STRING :: "allocator \<Rightarrow> ASN1_STRING \<Rightarrow> bytes \<Rightarrow> int \<Rightarrow> (nat, ASN1_STRING) cres" where
  "c2i_ASN1_BIT_STRING malloc ret pp len =
     (if len < 1 \<or> len > 2 ^ 31 - 1 then (None, ret)
      else
        let padding = hd pp; p = tl pp; n = nat (len - 1)
        in if padding > 7 then (None, ret)
           else
             let padding_mask = push_bit (unat padding) 1 - 1
             in if padding \<noteq> 0 \<and> (n < 1 \<or> p ! (n - 1) AND padding_mask \<noteq> 0) then (None, ret)
                else
                  let ret = ret\<lparr>as_flags := as_flags ret AND NOT (ASN1_STRING_FLAG_BITS_LEFT OR 0x07)\<rparr>;
                      ret = ret\<lparr>as_flags := as_flags ret OR (ASN1_STRING_FLAG_BITS_LEFT OR ucast padding)\<rparr>
                  in if n > 0 then
                       (case malloc n of
                          None \<Rightarrow> (None, ret)
                        | Some s \<Rightarrow>
                            (Some (nat len), ret\<lparr>as_length := n, as_data := Some (copy_at s 0 (take n p)),
                               as_type := V_ASN1_BIT_STRING\<rparr>))
                     else (Some (nat len), ret\<lparr>as_length := n, as_data := None, as_type := V_ASN1_BIT_STRING\<rparr>))"

definition ASN1_BIT_STRING_set_bit ::
    "allocator \<Rightarrow> ASN1_STRING option \<Rightarrow> nat \<Rightarrow> bool \<Rightarrow> (unit, ASN1_STRING option) cres" where
  "ASN1_BIT_STRING_set_bit malloc a n val =
     (let w = n div 8; v = push_bit (7 - n mod 8) 1; iv = NOT v; v = (if val then v else 0)
      in case a of
           None \<Rightarrow> (None, None)
         | Some a \<Rightarrow>
             let a = a\<lparr>as_flags := as_flags a AND NOT (ASN1_STRING_FLAG_BITS_LEFT OR 0x07)\<rparr>;
                 store = (\<lambda>len d. let d = d[w := d ! w AND iv OR v]
                                  in (Some (), Some (a\<lparr>as_data := Some d, as_length := trim_zeros d len\<rparr>)))
             in if as_length a < w + 1 \<or> as_data a = None then
                  if \<not> val then (Some (), Some a)
                  else case OPENSSL_realloc malloc (as_data a) (w + 1) of
                         None \<Rightarrow> (None, Some a)
                       | Some c \<Rightarrow> store (w + 1) (copy_at c (as_length a) (replicate (w + 1 - as_length a) 0))
                else store (as_length a) (the (as_data a)))"

definition ASN1_BIT_STRING_get_bit :: "ASN1_STRING option \<Rightarrow> nat \<Rightarrow> bool" where
  "ASN1_BIT_STRING_get_bit a n =
     (let w = n div 8; v = push_bit (7 - n mod 8) 1
      in case a of
           None \<Rightarrow> False
         | Some a \<Rightarrow>
             (case as_data a of
                None \<Rightarrow> False
              | Some d \<Rightarrow> if as_length a < w + 1 then False else d ! w AND v \<noteq> 0))"

text \<open>The loop from index \<open>i\<close> on over the bytes that are left.\<close>

fun bits_check_loop :: "bytes \<Rightarrow> bytes \<Rightarrow> nat \<Rightarrow> nat \<Rightarrow> bool" where
  "bits_check_loop flags [] flags_len i = True"
| "bits_check_loop flags (b # data) flags_len i =
     (let m = (if i < flags_len then NOT (flags ! i) else 0xff)
      in if b AND m = 0 then bits_check_loop flags data flags_len (i + 1) else False)"

definition ASN1_BIT_STRING_check :: "ASN1_STRING option \<Rightarrow> bytes \<Rightarrow> nat \<Rightarrow> bool" where
  "ASN1_BIT_STRING_check a flags flags_len =
     (case a of
        None \<Rightarrow> True
      | Some a \<Rightarrow>
          (case as_data a of
             None \<Rightarrow> True
           | Some d \<Rightarrow> bits_check_loop flags (take (as_length a) d) flags_len 0))"

section \<open>Bits\<close>

text \<open>Bit \<open>n\<close> of a string of bytes, the most significant bit of the first byte first.\<close>

definition bit_at :: "bytes \<Rightarrow> nat \<Rightarrow> bool" where
  "bit_at bs n \<longleftrightarrow> n div 8 < length bs \<and> bit (bs ! (n div 8)) (7 - n mod 8)"

lemma and_push_bit: "x AND push_bit k 1 \<noteq> 0 \<longleftrightarrow> bit x k" for x :: "'a::len word"
  by (simp add: bit_iff_and_push_bit_not_eq_0)

lemma get_bit_at: "string_ok a \<Longrightarrow> ASN1_BIT_STRING_get_bit (Some a) n \<longleftrightarrow> bit_at (as_bytes a) n"
  unfolding ASN1_BIT_STRING_get_bit_def Let_def and_push_bit
  by (auto simp: bit_at_def as_bytes_def string_ok_def split: option.splits)

lemma bit_at_snoc_zero: "bit_at (bs @ [0]) n = bit_at bs n"
  by (auto simp: bit_at_def nth_append less_Suc_eq)

lemma trim_zeros_spec:
  "n \<le> length d \<Longrightarrow> trim_zeros d n \<le> n \<and> (trim_zeros d n > 0 \<longrightarrow> d ! (trim_zeros d n - 1) \<noteq> 0) \<and>
    bit_at (take (trim_zeros d n) d) = bit_at (take n d)"
proof (induction d n rule: trim_zeros.induct)
  case (2 d n)
  then show ?case by (auto simp: take_Suc_conv_app_nth bit_at_snoc_zero fun_eq_iff)
qed simp

lemma bit_at_take_zeros: "bit_at (bs @ replicate k 0) n = bit_at bs n"
  by (auto simp: bit_at_def nth_append)

text \<open>Storing one bit.\<close>

lemma bit_at_store:
  assumes "n div 8 < length bs"
  shows "bit_at (bs[n div 8 := (bs ! (n div 8) AND NOT (push_bit (7 - n mod 8) 1)) OR (if val then push_bit (7 - n mod 8) 1 else 0)]) m =
    (if m = n then val else bit_at bs m)"
proof (cases "m div 8 = n div 8")
  case True
  have "m = n \<longleftrightarrow> 7 - m mod 8 = 7 - n mod 8"
  proof
    assume "7 - m mod 8 = 7 - n mod 8"
    moreover have "m mod 8 \<le> 7" "n mod 8 \<le> 7" using mod_less_divisor [of 8 m] mod_less_divisor [of 8 n] by linarith+
    ultimately have "m mod 8 = n mod 8" by linarith
    with True show "m = n" by (metis div_mult_mod_eq)
  qed simp
  moreover have "7 - m mod 8 < 8" "7 - n mod 8 < 8" by simp_all
  ultimately show ?thesis
    using assms True by (auto simp: bit_at_def bit_simps)
next
  case False
  then have "m \<noteq> n" by auto
  with False show ?thesis by (auto simp: bit_at_def)
qed

section \<open>Setting and getting bits\<close>

lemma set_bit_spec:
  assumes "alloc_ok malloc" "string_ok a" "ASN1_BIT_STRING_set_bit malloc (Some a) n val = (Some u, Some a')"
  shows "string_ok a' \<and> bit_at (as_bytes a') m = (if m = n then val else bit_at (as_bytes a) m) \<and>
    as_flags a' AND ASN1_STRING_FLAG_BITS_LEFT = 0 \<and> as_length a' \<le> max (as_length a) (n div 8 + 1)"
proof -
  let ?w = "n div 8"
  define a0 where "a0 = a\<lparr>as_flags := as_flags a AND NOT (ASN1_STRING_FLAG_BITS_LEFT OR 0x07)\<rparr>"
  define d' where "d' d = d[?w := (d ! ?w AND NOT (push_bit (7 - n mod 8) 1)) OR (if val then push_bit (7 - n mod 8) 1 else 0)]"
    for d :: bytes
  have a0: "string_ok a0" "as_bytes a0 = as_bytes a" "as_length a0 = as_length a" "as_data a0 = as_data a"
    "as_flags a0 AND ASN1_STRING_FLAG_BITS_LEFT = 0"
    using assms(2) by (simp_all add: a0_def ASN1_STRING_FLAG_BITS_LEFT_def and.assoc)
  have stored: "string_ok a' \<and> bit_at (as_bytes a') m = (if m = n then val else bit_at (take len d) m) \<and>
      as_flags a' AND ASN1_STRING_FLAG_BITS_LEFT = 0 \<and> as_length a' \<le> len"
    if "?w < len" "len \<le> length d" "a' = a0\<lparr>as_data := Some (d' d), as_length := trim_zeros (d' d) len\<rparr>" for len d
  proof -
    have "len \<le> length (d' d)" using that by (simp add: d'_def)
    note trim = trim_zeros_spec [OF this]
    have "bit_at (take len (d' d)) m = (if m = n then val else bit_at (take len d) m)"
      using bit_at_store [of n "take len d" val m] that(1,2) by (simp add: d'_def take_update_swap)
    then show ?thesis using that trim a0(5) by (auto simp: string_ok_def as_bytes_def d'_def)
  qed
  note def = assms(3) [unfolded ASN1_BIT_STRING_set_bit_def Let_def option.case a0_def [symmetric], folded d'_def]
  show ?thesis
  proof (cases "as_length a < ?w + 1 \<or> as_data a = None")
    case True
    show ?thesis
    proof (cases val)
      case False
      then have "a' = a0" using def True a0 by simp
      then show ?thesis
        using a0 True False assms(2) by (auto simp: bit_at_def as_bytes_def string_ok_def split: option.splits)
    next
      case val: True
      then obtain c where c: "OPENSSL_realloc malloc (as_data a) (?w + 1) = Some c"
        and a': "a' = a0\<lparr>as_data := Some (d' (copy_at c (as_length a) (replicate (?w + 1 - as_length a) 0))),
          as_length := trim_zeros (d' (copy_at c (as_length a) (replicate (?w + 1 - as_length a) 0))) (?w + 1)\<rparr>"
        using def True a0 by (auto split: option.splits)
      have len: "length c = ?w + 1" by (rule realloc_length [OF assms(1) c])
      have short: "as_length a \<le> ?w + 1" using True assms(2) by (auto simp: string_ok_def)
      have old: "take (as_length a) c = as_bytes a"
        using c True assms(2) len short
        by (auto simp: OPENSSL_realloc_def as_bytes_def string_ok_def copy_at_def Let_def min_def split: option.splits if_splits)
      have "copy_at c (as_length a) (replicate (?w + 1 - as_length a) 0) =
          as_bytes a @ replicate (?w + 1 - as_length a) 0" (is "?c = _")
        using len short old by (simp add: copy_at_def)
      moreover have lc: "length ?c = ?w + 1" using len short by (simp add: length_copy_at)
      ultimately have "take (?w + 1) ?c = as_bytes a @ replicate (?w + 1 - as_length a) 0" by (metis order_refl take_all)
      then show ?thesis
        using stored [of "?w + 1" ?c, OF _ _ a'] lc unfolding bit_at_take_zeros
        by (simp add: bit_at_take_zeros le_max_iff_disj)
    qed
  next
    case False
    then obtain d where d: "as_data a = Some d" "?w < as_length a" by auto
    then have a': "a' = a0\<lparr>as_data := Some (d' d), as_length := trim_zeros (d' d) (as_length a)\<rparr>"
      using def a0 by simp
    have "as_length a \<le> length d" using assms(2) d by (simp add: string_ok_def)
    with stored [OF d(2) this a'] show ?thesis using d by (auto simp: as_bytes_def)
  qed
qed

section \<open>DER contents\<close>

lemma padding_loop_spec:
  "(\<forall>k<p. \<not> bit b k) \<Longrightarrow> (\<forall>k<padding_loop b n p. \<not> bit b k) \<and> padding_loop b n p \<le> n + p"
proof (induction b n p rule: padding_loop.induct)
  case (2 b n p)
  show ?case
  proof (cases "bit b p")
    case True
    then show ?thesis using 2(2) by (simp add: and_push_bit del: push_bit_of_1)
  next
    case False
    then have "\<forall>k<p + 1. \<not> bit b k" using 2(2) by (simp add: less_Suc_eq)
    then show ?thesis using 2(1) False by (simp add: and_push_bit del: push_bit_of_1)
  qed
qed simp

lemma length_bounds:
  assumes "asn1_bit_string_length a = (len, bits)" "string_ok a"
  shows "len \<le> as_length a" "bits \<le> 7" "len = 0 \<Longrightarrow> bits = 0"
    "as_flags a AND ASN1_STRING_FLAG_BITS_LEFT = 0 \<Longrightarrow>
       bit_at (take len (as_bytes a)) = bit_at (as_bytes a) \<and> (len > 0 \<longrightarrow> (\<forall>k<bits. \<not> bit (as_bytes a ! (len - 1)) k))"
proof -
  obtain d where d: "d = (case as_data a of None \<Rightarrow> [] | Some d \<Rightarrow> d)" by simp
  have n: "as_length a \<le> length d" "take (as_length a) d = as_bytes a"
    using assms(2) by (auto simp: d string_ok_def as_bytes_def split: option.splits)
  note trim = trim_zeros_spec [OF n(1)]
  have mask: "unat (as_flags a AND 0x07) \<le> 7"
    using unat_mask_less [of "as_flags a" 3] by (simp add: mask_eq_exp_minus_1)
  have pad: "padding_loop b 7 0 \<le> 7" "\<forall>k<padding_loop b 7 0. \<not> bit b k" for b
    using padding_loop_spec [of 0 b 7] by auto
  show "len \<le> as_length a" "bits \<le> 7" "len = 0 \<Longrightarrow> bits = 0"
    using assms(1) trim mask pad(1) unfolding asn1_bit_string_length_def Let_def d [symmetric]
    by (auto split: if_splits)
  assume "as_flags a AND ASN1_STRING_FLAG_BITS_LEFT = 0"
  then have l: "len = trim_zeros d (as_length a)" "bits = (if len > 0 then padding_loop (d ! (len - 1)) 7 0 else 0)"
    using assms(1) unfolding asn1_bit_string_length_def Let_def d [symmetric] by auto
  have t: "take len (as_bytes a) = take len d"
    using trim l(1) n(2) by (metis min.absorb1 take_take)
  have "len > 0 \<Longrightarrow> as_bytes a ! (len - 1) = d ! (len - 1)"
    using trim l(1) n(2) by (metis One_nat_def Suc_pred le_eq_less_or_eq less_Suc_eq nth_take order_less_le_trans lessI)
  then show "bit_at (take len (as_bytes a)) = bit_at (as_bytes a) \<and>
      (len > 0 \<longrightarrow> (\<forall>k<bits. \<not> bit (as_bytes a ! (len - 1)) k))"
    using trim l pad(2) n(2) unfolding t by auto
qed

lemma valid_bitstring_iff:
  "CBS_is_valid_asn1_bitstring (b # bs) \<longleftrightarrow>
     unat b \<le> 7 \<and> (b \<noteq> 0 \<longrightarrow> bs \<noteq> [] \<and> last bs AND mask (unat b) = 0)"
proof -
  have "CBS_get_u8 (b # bs) = (Some b, bs)" by (rule CBS_get_u8_Cons)
  then show ?thesis
    by (cases "b = 0") (auto simp: CBS_is_valid_asn1_bitstring_def CBS_get_last_u8_def mask_eq_exp_minus_1 word_less_nat_alt
        last_conv_nth split: option.splits)
qed

lemma and_mask_zero: "x AND mask n = 0 \<longleftrightarrow> (\<forall>k<n. \<not> bit x k)" for x :: "'a::len word"
  by (auto simp: bit_eq_iff bit_simps dest: bit_imp_le_length)

lemma has_bit_at:
  assumes "CBS_is_valid_asn1_bitstring (b # bs)" "m < 2 ^ 32"
  shows "CBS_asn1_bitstring_has_bit (b # bs) (of_nat m) \<longleftrightarrow> bit_at bs m"
proof -
  have m: "unat (of_nat m :: u32) = m" using assms(2) by (simp add: unat_of_nat)
  have "unat (drop_bit 3 (of_nat m :: u32)) = m div 8" by (simp only: unat_drop_bit_eq m) (simp add: drop_bit_eq_div)
  moreover have "m div 8 + 1 < 2 ^ 32" using assms(2) by simp
  ultimately have byte: "unat (drop_bit 3 (of_nat m :: u32) + 1) = m div 8 + 1"
    by (simp add: unat_word_ariths)
  have low: "unat ((of_nat m :: u32) AND 7) = m mod 8"
    using unat_and_mask [of "of_nat m :: u32" 3] m by (simp add: mask_eq_exp_minus_1)
  then have "(of_nat m :: u32) AND 7 \<le> 7" by (simp add: word_le_nat_alt)
  then have bit: "unat (7 - ((of_nat m :: u32) AND 7)) = 7 - m mod 8" by (simp add: unat_sub low)
  show ?thesis
    using assms(1) unfolding CBS_asn1_bitstring_has_bit_def Let_def byte bit and_push_bit
    by (simp add: bit_at_def)
qed

lemma last_update: "bs \<noteq> [] \<Longrightarrow> last (bs[length bs - 1 := x]) = x"
  by (simp add: last_conv_nth)

lemma i2c_spec:
  assumes "string_ok a" "as_length a \<le> 2 ^ 31 - 2"
  obtains bits bs where "i2c_ASN1_BIT_STRING (Some a) = Some (bits # bs)" "CBS_is_valid_asn1_bitstring (bits # bs)"
    "as_flags a AND ASN1_STRING_FLAG_BITS_LEFT = 0 \<Longrightarrow> bit_at bs = bit_at (as_bytes a)"
proof -
  obtain len bits where l: "asn1_bit_string_length a = (len, bits)" by (cases "asn1_bit_string_length a")
  note bounds = length_bounds [OF l assms(1)]
  have len: "len \<le> length (as_bytes a)" using bounds(1) length_as_bytes [OF assms(1)] by simp
  have take: "take len (case as_data a of None \<Rightarrow> [] | Some d \<Rightarrow> d) = take len (as_bytes a)"
    using bounds(1) by (auto simp: as_bytes_def min_def split: option.splits)
  define p where "p = take len (as_bytes a)"
  have lp: "length p = len" using len by (simp add: p_def)
  define bs where "bs = (if len > 0 then p[len - 1 := p ! (len - 1) AND push_bit bits 0xff] else p)"
  have i2c: "i2c_ASN1_BIT_STRING (Some a) = Some (of_nat bits # bs)"
    using bounds(1) assms(2) by (simp add: i2c_ASN1_BIT_STRING_def l take p_def [symmetric] bs_def)
  have ub: "unat (of_nat bits :: u8) = bits" using bounds(2) by (simp add: unat_of_nat)
  have "last bs AND mask bits = 0" "bs \<noteq> []" if "bits \<noteq> 0"
  proof -
    have pos: "len > 0" using bounds(3) that by auto
    have "p \<noteq> []" using pos lp by auto
    then have "last bs = p ! (len - 1) AND push_bit bits 0xff" "bs \<noteq> []"
      using pos lp last_update [of p "p ! (len - 1) AND push_bit bits 0xff"] by (simp_all add: bs_def)
    then show "last bs AND mask bits = 0" "bs \<noteq> []" by (auto simp: and_mask_zero bit_simps)
  qed
  then have valid: "CBS_is_valid_asn1_bitstring (of_nat bits # bs)"
    using bounds(2) by (cases "bits = 0") (auto simp: valid_bitstring_iff ub)
  have "bit_at bs = bit_at (as_bytes a)" if "as_flags a AND ASN1_STRING_FLAG_BITS_LEFT = 0"
  proof (cases "len > 0")
    case True
    have nz: "\<forall>k<bits. \<not> bit (p ! (len - 1)) k" using bounds(4) [OF that] True by (simp add: p_def)
    have "p ! (len - 1) AND push_bit bits 0xff = p ! (len - 1)"
    proof (rule bit_word_eqI)
      fix k
      assume k: "k < LENGTH(8)"
      have "bit (push_bit bits (0xff :: u8)) k \<longleftrightarrow> bits \<le> k"
        using k bit_mask_iff [of 8 "k - bits", where 'a = "8 word"] by (auto simp: bit_simps mask_eq_exp_minus_1)
      then show "bit (p ! (len - 1) AND push_bit bits 0xff) k \<longleftrightarrow> bit (p ! (len - 1)) k"
        using nz by (auto simp: bit_and_iff not_le)
    qed
    then have "bs = p" using True by (simp add: bs_def)
    then show ?thesis using bounds(4) [OF that] by (simp add: p_def)
  next
    case False
    then show ?thesis using bounds(4) [OF that] by (simp add: bs_def p_def)
  qed
  with i2c valid show ?thesis by (rule that)
qed

lemma bits_c2i_spec:
  assumes "alloc_ok malloc" "\<And>n. malloc n \<noteq> None" "length cbs \<le> 2 ^ 31 - 1"
  shows "(case c2i_ASN1_BIT_STRING malloc ret (cbs @ rest) (int (length cbs)) of
      (None, _) \<Rightarrow> \<not> CBS_is_valid_asn1_bitstring cbs
    | (Some n, a) \<Rightarrow> CBS_is_valid_asn1_bitstring cbs \<and> n = length cbs \<and> string_ok a \<and> as_bytes a = tl cbs \<and>
        as_type a = V_ASN1_BIT_STRING \<and> as_flags a AND ASN1_STRING_FLAG_BITS_LEFT \<noteq> 0 \<and>
        unat (as_flags a AND 0x07) = unat (hd cbs))"
proof (cases cbs)
  case Nil
  then show ?thesis by (simp add: c2i_ASN1_BIT_STRING_def CBS_is_valid_asn1_bitstring_def CBS_get_u8_Nil)
next
  case (Cons b bs)
  have flags: "((fl AND NOT (ASN1_STRING_FLAG_BITS_LEFT OR 0x07)) OR (ASN1_STRING_FLAG_BITS_LEFT OR ucast b)) AND
        ASN1_STRING_FLAG_BITS_LEFT \<noteq> 0 \<and>
      unat (((fl AND NOT (ASN1_STRING_FLAG_BITS_LEFT OR 0x07)) OR (ASN1_STRING_FLAG_BITS_LEFT OR ucast b)) AND 0x07) = unat b"
    if "unat b \<le> 7" for fl :: u64
  proof
    let ?f = "(fl AND NOT (ASN1_STRING_FLAG_BITS_LEFT OR 0x07)) OR (ASN1_STRING_FLAG_BITS_LEFT OR ucast b)"
    have "bit (?f AND ASN1_STRING_FLAG_BITS_LEFT) 3"
      by (simp add: bit_simps ASN1_STRING_FLAG_BITS_LEFT_def) 
    then show "?f AND ASN1_STRING_FLAG_BITS_LEFT \<noteq> 0" by auto
    have "unat b < 2 ^ 3" using that by simp
    note low = bit_lt_power [OF this]
    have masks: "(0x07 :: u64) = mask 3" "bit ASN1_STRING_FLAG_BITS_LEFT n \<longleftrightarrow> n = 3" for n
      using bit_push_bit_iff [of 3 "1 :: u64" n] bit_imp_le_length [of ASN1_STRING_FLAG_BITS_LEFT n]
      by (auto simp: mask_eq_exp_minus_1 ASN1_STRING_FLAG_BITS_LEFT_def bit_1_iff)
    have "?f AND 0x07 = (ucast b :: u64)"
      by (rule bit_word_eqI) (auto simp: bit_simps masks dest: low)
    moreover have "unat (ucast b :: u64) = unat b" by simp
    ultimately show "unat (?f AND 0x07) = unat b" by (simp only:)
  qed
  have last: "bs \<noteq> [] \<Longrightarrow> (bs @ rest) ! (length bs - 1) = last bs" by (simp add: nth_append last_conv_nth)
  have valid: "(b > 7 \<or> b \<noteq> 0 \<and> (length bs < 1 \<or> (bs @ rest) ! (length bs - 1) AND (push_bit (unat b) 1 - 1) \<noteq> 0)) \<longleftrightarrow>
      \<not> CBS_is_valid_asn1_bitstring cbs"
    using last unfolding Cons valid_bitstring_iff
    by (cases "bs = []") (auto simp: word_less_nat_alt mask_eq_exp_minus_1)
  have len: "\<not> (int (length cbs) < 1 \<or> int (length cbs) > 2 ^ 31 - 1)" "nat (int (length cbs) - 1) = length bs"
    using assms(3) by (simp_all add: Cons)
  show ?thesis
  proof (cases "CBS_is_valid_asn1_bitstring cbs")
    case False
    then have "c2i_ASN1_BIT_STRING malloc ret (cbs @ rest) (int (length cbs)) = (None, ret)"
      using valid len unfolding c2i_ASN1_BIT_STRING_def Let_def by (auto simp: Cons)
    then show ?thesis using False by simp
  next
    case True
    have ok: "\<not> b > 7" "\<not> (b \<noteq> 0 \<and> (length bs < 1 \<or> (bs @ rest) ! (length bs - 1) AND (push_bit (unat b) 1 - 1) \<noteq> 0))"
      using True valid by blast+
    then have b7: "unat b \<le> 7" by (simp add: word_less_nat_alt)
    obtain blk where blk: "malloc (length bs) = Some blk" "length blk = length bs"
      using assms(1) assms(2) [of "length bs"] by (auto simp: alloc_ok_def)
    have copy: "copy_at blk 0 bs = bs" using blk by (simp add: copy_at_def)
    have res: "c2i_ASN1_BIT_STRING malloc ret (cbs @ rest) (int (length cbs)) = (Some (length cbs),
        ret\<lparr>as_flags := (as_flags ret AND NOT (ASN1_STRING_FLAG_BITS_LEFT OR 0x07)) OR (ASN1_STRING_FLAG_BITS_LEFT OR ucast b),
          as_length := length bs, as_data := (if length bs > 0 then Some bs else None), as_type := V_ASN1_BIT_STRING\<rparr>)"
      using ok len blk copy unfolding c2i_ASN1_BIT_STRING_def Let_def by (simp add: Cons nat_add_distrib)
    show ?thesis
      unfolding res using True flags [OF b7] by (simp add: string_ok_def as_bytes_def Cons)
  qed
qed

text \<open>
  setting a bit changes that bit alone, and the contents then written are a valid DER BIT STRING whose bits,
  read by the reader of \<open>cbs.c\<close>, are the bits of the object.
\<close>

theorem bit_string_set_bit:
  assumes "alloc_ok malloc" "string_ok a" "as_length a \<le> 2 ^ 31 - 2" "n < 8 * (2 ^ 31 - 2)"
    "ASN1_BIT_STRING_set_bit malloc (Some a) n val = (Some u, Some a')"
  shows "string_ok a' \<and>
    (\<forall>m. ASN1_BIT_STRING_get_bit (Some a') m = (if m = n then val else ASN1_BIT_STRING_get_bit (Some a) m)) \<and>
    (\<exists>out. i2c_ASN1_BIT_STRING (Some a') = Some out \<and> CBS_is_valid_asn1_bitstring out \<and>
       (\<forall>m. m < 2 ^ 32 \<longrightarrow> CBS_asn1_bitstring_has_bit out (of_nat m) = ASN1_BIT_STRING_get_bit (Some a') m))"
proof -
  note set = set_bit_spec [OF assms(1,2,5)]
  have ok: "string_ok a'" using set by blast
  have "n div 8 + 1 \<le> 2 ^ 31 - 2" using less_mult_imp_div_less [of n "2 ^ 31 - 2" 8] assms(4) by (simp add: mult.commute)
  then have len: "as_length a' \<le> 2 ^ 31 - 2" using set assms(3) by (meson max.boundedI order_trans)
  obtain bits bs where out: "i2c_ASN1_BIT_STRING (Some a') = Some (bits # bs)" "CBS_is_valid_asn1_bitstring (bits # bs)"
    and "as_flags a' AND ASN1_STRING_FLAG_BITS_LEFT = 0 \<Longrightarrow> bit_at bs = bit_at (as_bytes a')"
    using i2c_spec [OF ok len] by blast
  then have bits: "bit_at bs = bit_at (as_bytes a')" using set by blast
  show ?thesis
    using set out has_bit_at [OF out(2)] ok bits by (simp add: get_bit_at [OF ok] get_bit_at [OF assms(2)])
qed

lemma bit_string_set_bit_witness:
  "\<exists>a'. string_ok a' \<and>
    (\<forall>m. ASN1_BIT_STRING_get_bit (Some a') m = (if m = 10 then True else ASN1_BIT_STRING_get_bit (Some ASN1_STRING_new) m)) \<and>
    (\<exists>out. i2c_ASN1_BIT_STRING (Some a') = Some out \<and> CBS_is_valid_asn1_bitstring out \<and>
       (\<forall>m. m < 2 ^ 32 \<longrightarrow> CBS_asn1_bitstring_has_bit out (of_nat m) = ASN1_BIT_STRING_get_bit (Some a') m))"
proof -
  let ?m = "\<lambda>n. Some (replicate n 0) :: bytes option"
  have ok: "alloc_ok ?m" by (simp add: alloc_ok_def)
  have len: "as_length ASN1_STRING_new \<le> 2 ^ 31 - 2" by (simp add: ASN1_STRING_new_def ASN1_STRING_type_new_def)
  have n: "(10 :: nat) < 8 * (2 ^ 31 - 2)" by simp
  obtain a' where "ASN1_BIT_STRING_set_bit ?m (Some ASN1_STRING_new) 10 True = (Some (), Some a')"
    by (auto simp: ASN1_BIT_STRING_set_bit_def Let_def ASN1_STRING_new_def ASN1_STRING_type_new_def OPENSSL_realloc_def)
  from bit_string_set_bit [OF ok type_new_ok(3) len n this] show ?thesis by blast
qed

text \<open>
  with memory, \<open>c2i_ASN1_BIT_STRING\<close> accepts exactly the contents that \<open>CBS_is_valid_asn1_bitstring\<close> accepts;
  the object it fills has the bits that \<open>CBS_asn1_bitstring_has_bit\<close> reads, and is written as the same contents.
\<close>

theorem bit_string_roundtrip:
  assumes "alloc_ok malloc" "\<And>n. malloc n \<noteq> None" "length cbs \<le> 2 ^ 31 - 1"
  shows "(case c2i_ASN1_BIT_STRING malloc ret (cbs @ rest) (int (length cbs)) of
      (None, _) \<Rightarrow> \<not> CBS_is_valid_asn1_bitstring cbs
    | (Some n, a) \<Rightarrow> CBS_is_valid_asn1_bitstring cbs \<and> n = length cbs \<and> i2c_ASN1_BIT_STRING (Some a) = Some cbs \<and>
        (\<forall>m. m < 2 ^ 32 \<longrightarrow> CBS_asn1_bitstring_has_bit cbs (of_nat m) = ASN1_BIT_STRING_get_bit (Some a) m))"
proof (cases "c2i_ASN1_BIT_STRING malloc ret (cbs @ rest) (int (length cbs))")
  case (Pair r a)
  show ?thesis
  proof (cases r)
    case None
    then show ?thesis using bits_c2i_spec [OF assms, of ret rest] Pair by simp
  next
    case (Some n)
    have sp: "CBS_is_valid_asn1_bitstring cbs" "n = length cbs" "string_ok a" "as_bytes a = tl cbs"
      "as_flags a AND ASN1_STRING_FLAG_BITS_LEFT \<noteq> 0" "unat (as_flags a AND 0x07) = unat (hd cbs)"
      using bits_c2i_spec [OF assms, of ret rest] Pair Some by auto
    obtain b bs where cbs: "cbs = b # bs"
      using sp(1) by (cases cbs) (auto simp: CBS_is_valid_asn1_bitstring_def CBS_get_u8_Nil)
    have valid: "unat b \<le> 7" "b \<noteq> 0 \<Longrightarrow> bs \<noteq> [] \<and> last bs AND mask (unat b) = 0"
      using sp(1) by (auto simp: cbs valid_bitstring_iff)
    have len: "as_length a = length bs" using length_as_bytes [OF sp(3)] sp(4) by (simp add: cbs)
    have l: "asn1_bit_string_length a = (length bs, unat b)"
      using sp(5,6) valid(2) len by (cases "b = 0") (auto simp: asn1_bit_string_length_def Let_def cbs)
    have data: "take (length bs) (case as_data a of None \<Rightarrow> [] | Some d \<Rightarrow> d) = bs"
      using sp(4) len by (auto simp: as_bytes_def cbs split: option.splits)
    have "bs ! (length bs - 1) AND push_bit (unat b) 0xff = bs ! (length bs - 1)" if "bs \<noteq> []"
    proof (rule bit_word_eqI)
      fix k
      assume k: "k < LENGTH(8)"
      have nz: "\<forall>i<unat b. \<not> bit (bs ! (length bs - 1)) i"
        using valid(2) that by (cases "b = 0") (auto simp: last_conv_nth and_mask_zero)
      have "bit (push_bit (unat b) (0xff :: u8)) k \<longleftrightarrow> unat b \<le> k"
        using k bit_mask_iff [of 8 "k - unat b", where 'a = "8 word"] by (auto simp: bit_simps mask_eq_exp_minus_1)
      then show "bit (bs ! (length bs - 1) AND push_bit (unat b) 0xff) k \<longleftrightarrow> bit (bs ! (length bs - 1)) k"
        using nz by (auto simp: bit_and_iff not_le)
    qed
    then have last: "bs \<noteq> [] \<Longrightarrow> bs[length bs - 1 := bs ! (length bs - 1) AND push_bit (unat b) 0xff] = bs" by simp
    have "i2c_ASN1_BIT_STRING (Some a) = Some cbs"
      using last assms(3) by (auto simp: i2c_ASN1_BIT_STRING_def l data cbs)
    then show ?thesis
      using Pair Some sp(1-4) has_bit_at [of b bs] by (simp add: cbs get_bit_at)
  qed
qed

lemma bit_string_roundtrip_witness:
  "case c2i_ASN1_BIT_STRING (\<lambda>n. Some (replicate n 0)) ASN1_STRING_new ([3, 0xa8] @ [7]) (int (length [3, 0xa8 :: u8])) of
      (None, _) \<Rightarrow> \<not> CBS_is_valid_asn1_bitstring [3, 0xa8]
    | (Some n, a) \<Rightarrow> CBS_is_valid_asn1_bitstring [3, 0xa8] \<and> n = length [3, 0xa8 :: u8] \<and>
        i2c_ASN1_BIT_STRING (Some a) = Some [3, 0xa8] \<and>
        (\<forall>m. m < 2 ^ 32 \<longrightarrow> CBS_asn1_bitstring_has_bit [3, 0xa8] (of_nat m) = ASN1_BIT_STRING_get_bit (Some a) m)"
  by (rule bit_string_roundtrip) (simp_all add: alloc_ok_def)

end
