(* ===== verification/PosixTime.thy ===== *)
theory PosixTime
  imports Prelude "HOL-Library.Signed_Division"
begin

text \<open>
  \<open>crypto/asn1/posix_time.c\<close>: the conversions between POSIX times and calendar dates. The 64-bit
  numbers of the code are integers here: the checks of the code bound them before they are
  computed with, which \<open>gmtime_adj_no_overflow\<close> states for the one addition that could leave the range.
  The division of C is \<open>sdiv\<close>, which truncates. The second half of the theory proves the two conversions
  inverse to each other, by counting days from one date to the next.
\<close>

named_theorems time_defs

section \<open>Dates and seconds\<close>

definition SECS_PER_HOUR :: int where [time_defs]: "SECS_PER_HOUR = 60 * 60"

definition SECS_PER_DAY :: int where [time_defs]: "SECS_PER_DAY = 24 * SECS_PER_HOUR"

definition is_valid_date :: "int \<Rightarrow> int \<Rightarrow> int \<Rightarrow> bool" where
  "is_valid_date year month day =
     (if day < 1 \<or> month < 1 \<or> year < 0 \<or> year > 9999 then False
      else if month \<in> {1, 3, 5, 7, 8, 10, 12} then day > 0 \<and> day \<le> 31
      else if month \<in> {4, 6, 9, 11} then day > 0 \<and> day \<le> 30
      else if month = 2 then
        if (year smod 4 = 0 \<and> year smod 100 \<noteq> 0) \<or> year smod 400 = 0
        then day > 0 \<and> day \<le> 29
        else day > 0 \<and> day \<le> 28
      else False)"

definition is_valid_time :: "int \<Rightarrow> int \<Rightarrow> int \<Rightarrow> bool" where
  "is_valid_time hours minutes seconds =
     (if hours < 0 \<or> minutes < 0 \<or> seconds < 0 \<or> hours > 23 \<or> minutes > 59 \<or> seconds > 59
      then False else True)"

definition MIN_POSIX_TIME :: int where "MIN_POSIX_TIME = -62167219200"

definition MAX_POSIX_TIME :: int where "MAX_POSIX_TIME = 253402300799"

definition is_valid_posix_time :: "int \<Rightarrow> bool" where
  "is_valid_posix_time time \<longleftrightarrow> MIN_POSIX_TIME \<le> time \<and> time \<le> MAX_POSIX_TIME"

definition posix_time_from_utc :: "int \<Rightarrow> int \<Rightarrow> int \<Rightarrow> int \<Rightarrow> int \<Rightarrow> int \<Rightarrow> int option" where
  "posix_time_from_utc year month day hours minutes seconds =
     (if \<not> is_valid_date year month day \<or> \<not> is_valid_time hours minutes seconds then None
      else
        let year = (if month \<le> 2 then year - 1 else year);
            era = (if year \<ge> 0 then year else year - 399) sdiv 400;
            year_of_era = year - era * 400;
            day_of_year = (153 * (if month > 2 then month - 3 else month + 9) + 2) sdiv 5 + day - 1;
            day_of_era = year_of_era * 365 + year_of_era sdiv 4 - year_of_era sdiv 100 + day_of_year;
            posix_days = era * 146097 + day_of_era - 719468
        in Some (posix_days * SECS_PER_DAY + hours * SECS_PER_HOUR + minutes * 60 + seconds))"

definition utc_from_posix_time :: "int \<Rightarrow> (int \<times> int \<times> int \<times> int \<times> int \<times> int) option" where
  "utc_from_posix_time time =
     (if \<not> is_valid_posix_time time then None
      else
        let days = time sdiv SECS_PER_DAY;
            leftover_seconds = time smod SECS_PER_DAY;
            (days, leftover_seconds) =
              (if leftover_seconds < 0 then (days - 1, leftover_seconds + SECS_PER_DAY) else (days, leftover_seconds));
            days = days + 719468;
            era = (if days > 0 then days else days - 146096) sdiv 146097;
            day_of_era = days - era * 146097;
            year_of_era = (day_of_era - day_of_era sdiv 1460 + day_of_era sdiv 36524 - day_of_era sdiv 146096) sdiv 365;
            out_year = year_of_era + era * 400;
            day_of_year = day_of_era - (365 * year_of_era + year_of_era sdiv 4 - year_of_era sdiv 100);
            month_of_year = (5 * day_of_year + 2) sdiv 153;
            out_month = (if month_of_year < 10 then month_of_year + 3 else month_of_year - 9);
            out_year = (if out_month \<le> 2 then out_year + 1 else out_year);
            out_day = day_of_year - (153 * month_of_year + 2) sdiv 5 + 1;
            out_hours = leftover_seconds sdiv SECS_PER_HOUR;
            leftover_seconds = leftover_seconds smod SECS_PER_HOUR;
            out_minutes = leftover_seconds sdiv 60;
            out_seconds = leftover_seconds smod 60
        in Some (out_year, out_month, out_day, out_hours, out_minutes, out_seconds))"

section \<open>The struct tm of the C library\<close>

record tm =
  tm_sec :: int
  tm_min :: int
  tm_hour :: int
  tm_mday :: int
  tm_mon :: int
  tm_year :: int
  tm_wday :: int
  tm_yday :: int
  tm_isdst :: int

definition OPENSSL_tm_to_posix :: "tm \<Rightarrow> int option" where
  "OPENSSL_tm_to_posix t =
     posix_time_from_utc (tm_year t + 1900) (tm_mon t + 1) (tm_mday t) (tm_hour t) (tm_min t) (tm_sec t)"

definition OPENSSL_posix_to_tm :: "int \<Rightarrow> tm option" where
  "OPENSSL_posix_to_tm time =
     (case utc_from_posix_time time of
        None \<Rightarrow> None
      | Some (year, month, day, hours, minutes, seconds) \<Rightarrow>
          Some \<lparr>tm_sec = seconds, tm_min = minutes, tm_hour = hours, tm_mday = day, tm_mon = month - 1,
                tm_year = year - 1900, tm_wday = 0, tm_yday = 0, tm_isdst = 0\<rparr>)"

text \<open>\<open>time_t\<close> has \<open>n\<close> bytes, 4 or 8.\<close>

definition OPENSSL_timegm :: "nat \<Rightarrow> tm \<Rightarrow> int option" where
  "OPENSSL_timegm n t =
     (case OPENSSL_tm_to_posix t of
        None \<Rightarrow> None
      | Some posix_time \<Rightarrow>
          if n = 4 \<and> (posix_time > 2 ^ 31 - 1 \<or> posix_time < - (2 ^ 31)) then None else Some posix_time)"

definition OPENSSL_gmtime :: "int \<Rightarrow> tm option" where
  "OPENSSL_gmtime time = OPENSSL_posix_to_tm time"

definition INT64_MAX :: int where [time_defs]: "INT64_MAX = 2 ^ 63 - 1"

definition INT64_MIN :: int where [time_defs]: "INT64_MIN = - (2 ^ 63)"

text \<open>The new contents of \<open>*tm\<close>; a failing call leaves it as it was.\<close>

definition OPENSSL_gmtime_adj :: "tm \<Rightarrow> int \<Rightarrow> int \<Rightarrow> tm option" where
  "OPENSSL_gmtime_adj t offset_day offset_sec =
     (case OPENSSL_tm_to_posix t of
        None \<Rightarrow> None
      | Some posix_time \<Rightarrow>
          let posix_time = posix_time + offset_day * SECS_PER_DAY
          in if posix_time > 0 \<and> offset_sec > INT64_MAX - posix_time then None
             else if posix_time < 0 \<and> offset_sec < INT64_MIN - posix_time then None
             else OPENSSL_posix_to_tm (posix_time + offset_sec))"

definition OPENSSL_gmtime_diff :: "tm \<Rightarrow> tm \<Rightarrow> (int \<times> int) option" where
  "OPENSSL_gmtime_diff from_tm to_tm =
     (case OPENSSL_tm_to_posix to_tm of
        None \<Rightarrow> None
      | Some time_to \<Rightarrow>
          (case OPENSSL_tm_to_posix from_tm of
             None \<Rightarrow> None
           | Some time_from \<Rightarrow>
               let timediff = time_to - time_from
               in Some (timediff sdiv SECS_PER_DAY, timediff smod SECS_PER_DAY)))"

section \<open>Division\<close>

lemma sdiv_nonneg: "0 \<le> a \<Longrightarrow> 0 < b \<Longrightarrow> a sdiv b = a div b" for a b :: int
  by (cases "a = 0") (simp_all add: signed_divide_int_def sgn_if)

lemma smod_nonneg: "0 \<le> a \<Longrightarrow> 0 < b \<Longrightarrow> a smod b = a mod b" for a b :: int
  by (cases "a = 0") (simp_all add: signed_modulo_int_def sgn_if)

lemma div_unique_int: "q * b \<le> a \<Longrightarrow> a < (q + 1) * b \<Longrightarrow> 0 < b \<Longrightarrow> a div b = q" for a b q :: int
  by (rule int_div_pos_eq [of _ _ _ "a - q * b"]) (simp_all add: algebra_simps)

lemma sdiv_neg: "a < 0 \<Longrightarrow> 0 < b \<Longrightarrow> a sdiv b = - ((- a) div b)" for a b :: int
  by (simp add: signed_divide_int_def sgn_if)

text \<open>The idiom of the code for a division that rounds down.\<close>

lemma floor_idiom_pred:
  fixes a b :: int
  assumes "0 < b" "P \<Longrightarrow> 0 \<le> a" "\<not> P \<Longrightarrow> a \<le> 0"
  shows "(if P then a else a - (b - 1)) sdiv b = a div b"
proof (cases P)
  case True
  then show ?thesis using assms by (simp add: sdiv_nonneg)
next
  case False
  have a: "a = (a div b) * b + a mod b" "0 \<le> a mod b" "a mod b < b"
    using assms div_mult_mod_eq [of a b] by simp_all
  show ?thesis
  proof (cases "a - (b - 1) < 0")
    case True
    have "(- (a - (b - 1))) div b = - (a div b)"
    proof (rule div_unique_int)
      show "- (a div b) * b \<le> - (a - (b - 1))" using a by linarith
      show "- (a - (b - 1)) < (- (a div b) + 1) * b" using a by (simp only: distrib_right)
    qed (use assms in simp)
    with False True assms show ?thesis by (simp add: sdiv_neg)
  next
    case nonneg: False
    with False assms have "a = 0" "b = 1" by auto
    with False show ?thesis by simp
  qed
qed

lemma floor_idiom:
  fixes a b :: int
  shows "0 < b \<Longrightarrow> (P \<Longrightarrow> 0 \<le> a) \<Longrightarrow> (\<not> P \<Longrightarrow> a \<le> 0) \<Longrightarrow> c = b - 1 \<Longrightarrow>
    (if P then a else a - c) sdiv b = a div b"
  using floor_idiom_pred [of b P a] by (cases P) simp_all

lemma floor_seconds:
  fixes t b :: int
  assumes "0 < b"
  shows "(if t smod b < 0 then (t sdiv b - 1, t smod b + b) else (t sdiv b, t smod b)) = (t div b, t mod b)"
proof (cases "0 \<le> t")
  case True
  then show ?thesis using assms by (simp add: sdiv_nonneg smod_nonneg not_less)
next
  case False
  have m: "t smod b = - ((- t) mod b)" "t sdiv b = - ((- t) div b)"
    using False assms by (simp_all add: signed_modulo_int_def signed_divide_int_def sgn_if)
  show ?thesis
  proof (cases "(- t) mod b = 0")
    case True
    then have "t mod b = 0" by (simp add: mod_eq_0_iff_dvd)
    with True show ?thesis using assms by (simp add: m zdiv_zminus1_eq_if)
  next
    case False
    then have "(- t) mod b > 0" using assms by (simp add: order_less_le)
    moreover have "t div b = - ((- t) div b) - 1" "t mod b = b - (- t) mod b"
      using zdiv_zminus1_eq_if [of b "- t"] zmod_zminus1_eq_if [of "- t" b] False assms by simp_all
    ultimately show ?thesis by (simp add: m)
  qed
qed

section \<open>Counting days\<close>

text \<open>
  The reference calendar: the length of a month, the day after a day, and the number of days from
  March 1 of the year 0 to the first of March of a year.
\<close>

definition leap :: "int \<Rightarrow> bool" where
  "leap y \<longleftrightarrow> 4 dvd y \<and> (\<not> 100 dvd y \<or> 400 dvd y)"

definition month_days :: "int \<Rightarrow> int \<Rightarrow> int" where
  "month_days y m = (if m = 2 then if leap y then 29 else 28 else if m \<in> {4, 6, 9, 11} then 30 else 31)"

definition next_day :: "int \<Rightarrow> int \<Rightarrow> int \<Rightarrow> int \<times> int \<times> int" where
  "next_day y m d =
     (if d < month_days y m then (y, m, d + 1) else if m < 12 then (y, m + 1, 1) else (y + 1, 1, 1))"

definition march_days :: "int \<Rightarrow> int" where
  "march_days y = 365 * y + y div 4 - y div 100 + y div 400"

definition month_start :: "int \<Rightarrow> int" where
  "month_start m = (153 * (if m > 2 then m - 3 else m + 9) + 2) div 5"

definition march_year :: "int \<Rightarrow> int \<Rightarrow> int" where
  "march_year y m = (if m \<le> 2 then y - 1 else y)"

definition day_number :: "int \<Rightarrow> int \<Rightarrow> int \<Rightarrow> int" where
  "day_number y m d = march_days (march_year y m) + (month_start m + d - 1)"

lemma leap_dvd: "(100 dvd y \<longrightarrow> 4 dvd y) \<and> (400 dvd y \<longrightarrow> 100 dvd y)" for y :: int
  using dvd_trans [of 4 100 y] dvd_trans [of 100 400 y] by simp

lemma leap_smod: "0 \<le> y \<Longrightarrow> (y smod 4 = 0 \<and> y smod 100 \<noteq> 0) \<or> y smod 400 = 0 \<longleftrightarrow> leap y"
proof -
  assume y: "0 \<le> y"
  show ?thesis
    using leap_dvd [of y] unfolding leap_def dvd_eq_mod_eq_0 smod_nonneg [OF y zero_less_numeral] by argo
qed

lemma is_valid_date_iff:
  "is_valid_date y m d \<longleftrightarrow> 0 \<le> y \<and> y \<le> 9999 \<and> 1 \<le> m \<and> m \<le> 12 \<and> 1 \<le> d \<and> d \<le> month_days y m"
proof (cases "0 \<le> y")
  case True
  have "m \<in> {1, 3, 5, 7, 8, 10, 12} \<or> m \<in> {4, 6, 9, 11} \<or> m = 2 \<longleftrightarrow> 1 \<le> m \<and> m \<le> 12" by (simp; presburger)
  then show ?thesis unfolding is_valid_date_def leap_smod [OF True] by (auto simp: month_days_def)
qed (simp add: is_valid_date_def)

lemma is_valid_time_iff:
  "is_valid_time h m s \<longleftrightarrow> 0 \<le> h \<and> h \<le> 23 \<and> 0 \<le> m \<and> m \<le> 59 \<and> 0 \<le> s \<and> s \<le> 59"
  by (auto simp: is_valid_time_def)

lemma div_pred: "0 < k \<Longrightarrow> y div k = (y - 1) div k + (if k dvd y then 1 else 0)" for y k :: int
proof -
  assume k: "0 < k"
  have e: "y = (y div k) * k + y mod k" "0 \<le> y mod k" "y mod k < k" using k by simp_all
  show ?thesis
  proof (cases "y mod k = 0")
    case True
    have "(y - 1) div k = y div k - 1"
      by (rule div_unique_int) (use e k True in \<open>simp_all add: algebra_simps\<close>)
    then show ?thesis using True by (simp add: dvd_eq_mod_eq_0)
  next
    case False
    have "(y - 1) div k = y div k"
    proof (rule div_unique_int)
      show "(y div k) * k \<le> y - 1" using e False by linarith
      show "y - 1 < (y div k + 1) * k" using e by (simp only: distrib_right)
    qed (rule k)
    then show ?thesis using False by (simp add: dvd_eq_mod_eq_0)
  qed
qed

lemma march_days_step: "march_days y = march_days (y - 1) + 365 + (if leap y then 1 else 0)"
proof -
  have l: "(if leap y then 1 else 0 :: int) =
      (if 4 dvd y then 1 else 0) - (if 100 dvd y then 1 else 0) + (if 400 dvd y then 1 else 0)"
    using leap_dvd [of y] unfolding leap_def by (cases "4 dvd y"; cases "100 dvd y"; cases "400 dvd y"; simp)
  have combine: "a = a' + A \<Longrightarrow> b = b' + B \<Longrightarrow> c = c' + C \<Longrightarrow> l = A - B + C \<Longrightarrow>
      365 * y + a - b + c = 365 * (y - 1) + a' - b' + c' + 365 + l" for a b c a' b' c' A B C l :: int
    by simp
  show ?thesis
    unfolding march_days_def
    by (rule combine [OF div_pred [OF zero_less_numeral] div_pred [OF zero_less_numeral] div_pred [OF zero_less_numeral] l])
qed

lemma march_days_mono: "a \<le> b \<Longrightarrow> march_days a \<le> march_days b"
proof (induction b rule: int_ge_induct)
  case (step i)
  then show ?case using march_days_step [of "i + 1"] by (simp split: if_splits)
qed simp

lemma months: "1 \<le> m \<Longrightarrow> m \<le> 12 \<Longrightarrow> m \<in> {1, 2, 3, 4, 5, 6, 7, 8, 9, 10, 11, 12}" for m :: int
  by (simp; presburger)

lemma month_start_next:
  assumes "1 \<le> m" "m < 12" "m \<noteq> 2"
  shows "month_start (m + 1) = month_start m + month_days y m"
  using months [of m] assms by (auto simp: month_start_def month_days_def)

lemma next_day_number:
  assumes "1 \<le> m" "m \<le> 12" "d \<le> month_days y m" "next_day y m d = (y', m', d')"
  shows "day_number y' m' d' = day_number y m d + 1"
proof -
  consider "d < month_days y m" | "d = month_days y m" "m = 2" | "d = month_days y m" "m \<noteq> 2" "m < 12"
    | "d = month_days y m" "m = 12"
    using assms by linarith
  then show ?thesis
  proof cases
    case 1
    then show ?thesis using assms(4) by (auto simp: next_day_def day_number_def)
  next
    case 2
    then show ?thesis using assms(4) march_days_step [of y]
      by (auto simp: next_day_def day_number_def month_start_def march_year_def month_days_def)
  next
    case 3
    have "march_year y (m + 1) = march_year y m" using 3 assms by (auto simp: march_year_def)
    then show ?thesis using 3 assms month_start_next [of m y] by (auto simp: next_day_def day_number_def)
  next
    case 4
    then show ?thesis using assms(4) 
      by (auto simp: next_day_def day_number_def month_start_def march_year_def month_days_def)
  qed
qed

section \<open>From dates to days and back\<close>

lemma div_of_parts:
  fixes E r k n :: int
  assumes "0 < k"
  shows "(E * (n * k) + r) div k = E * n + r div k"
  using assms by (simp add: mult.assoc [symmetric])

lemma march_days_era: "march_days (E * 400 + r) = E * 146097 + march_days r"
  using div_of_parts [of 4 E 100 r] div_of_parts [of 100 E 4 r] div_of_parts [of 400 E 1 r]
  by (simp add: march_days_def)

lemma march_days_year_of_era:
  "0 \<le> r \<Longrightarrow> r < 400 \<Longrightarrow> march_days r = r * 365 + r div 4 - r div 100"
  by (simp add: march_days_def)

lemma march_year_bounds: "0 \<le> y \<Longrightarrow> - 1 \<le> march_year y m"
  by (simp add: march_year_def)

lemma month_start_nonneg: "1 \<le> m \<Longrightarrow> 0 \<le> month_start m"
  by (auto simp: month_start_def)

lemma day_of_era_eq:
  fixes Y :: int
  shows "Y div 400 * 146097 + ((Y - Y div 400 * 400) * 365 + (Y - Y div 400 * 400) sdiv 4 -
      (Y - Y div 400 * 400) sdiv 100 + k) = march_days Y + k"
proof -
  define E r where "E = Y div 400" and "r = Y mod 400"
  have r: "0 \<le> r" "r < 400" "Y = E * 400 + r" by (simp_all add: E_def r_def)
  have "march_days Y = E * 146097 + (r * 365 + r div 4 - r div 100)"
    unfolding r(3) march_days_era march_days_year_of_era [OF r(1,2)] ..
  then show ?thesis
    unfolding E_def [symmetric] using r(3) sdiv_nonneg [OF r(1), of 4] sdiv_nonneg [OF r(1), of 100] by simp
qed

lemma posix_time_days:
  assumes "is_valid_date y m d" "is_valid_time h mi s"
  shows "posix_time_from_utc y m d h mi s =
    Some ((day_number y m d - 719468) * 86400 + (h * 3600 + mi * 60 + s))"
proof -
  have m: "1 \<le> m" using assms by (simp add: is_valid_date_iff)
  have era: "(if Y \<ge> 0 then Y else Y - 399) sdiv 400 = Y div 400" for Y :: int
    by (rule floor_idiom) auto
  have start: "(153 * (if m > 2 then m - 3 else m + 9) + 2) sdiv 5 = month_start m"
    unfolding month_start_def using m by (intro sdiv_nonneg) auto
  have "march_year y m div 400 * 146097 + ((march_year y m - march_year y m div 400 * 400) * 365 +
      (march_year y m - march_year y m div 400 * 400) sdiv 4 -
      (march_year y m - march_year y m div 400 * 400) sdiv 100 + (month_start m + d - 1)) = day_number y m d"
    unfolding day_of_era_eq day_number_def by simp
  then show ?thesis
    using assms
    unfolding posix_time_from_utc_def Let_def era start march_year_def [symmetric] SECS_PER_DAY_def SECS_PER_HOUR_def
    by simp
qed

lemma posix_time_invalid:
  "\<not> (is_valid_date y m d \<and> is_valid_time h mi s) \<Longrightarrow> posix_time_from_utc y m d h mi s = None"
  by (auto simp: posix_time_from_utc_def)

text \<open>The year of a day of an era: \<open>c\<close> centuries, \<open>q\<close> groups of four years and \<open>r\<close> years precede it.\<close>

lemma year_of_era_unique:
  fixes c q r doy :: int
  assumes "0 \<le> c" "c \<le> 3" "0 \<le> q" "q \<le> 24" "0 \<le> r" "r \<le> 3" "0 \<le> doy"
    and doy: "doy \<le> 364 \<or> doy = 365 \<and> r = 3 \<and> (q < 24 \<or> c = 3)"
  defines "doe \<equiv> 36524 * c + 1461 * q + 365 * r + doy"
  shows "(doe - doe div 1460 + doe div 36524 - doe div 146096) div 365 = 100 * c + 4 * q + r"
proof -
  have days: "365 * r + doy \<le> 1460" using assms by linarith
  show ?thesis
  proof (cases "c = 3 \<and> q = 24 \<and> r = 3 \<and> doy = 365")
    case True
    then show ?thesis by (simp add: doe_def)
  next
    case False
    have "1461 * q + 365 * r + doy < 36524" if "q < 24" using that days by linarith
    moreover have "365 * r + doy < 1460" if "q = 24" using False that doy assms by linarith
    ultimately have rest: "1461 * q + 365 * r + doy < 36524" using \<open>q \<le> 24\<close> by fastforce
    have a: "doe div 36524 = c"
      by (rule div_unique_int) (use rest assms in \<open>simp_all add: doe_def\<close>)
    have b: "doe div 146096 = 0"
      by (rule div_unique_int) (use rest assms in \<open>simp_all add: doe_def\<close>)
    define f where "f = 24 * c + q + 365 * r + doy"
    have f: "doe = (25 * c + q) * 1460 + f" by (simp add: doe_def f_def)
    have f_bounds: "0 \<le> f" "f < 2 * 1460" using assms days by (simp_all add: f_def)
    define e where "e = (if f < 1460 then 0 else 1 :: int)"
    have d: "doe div 1460 = 25 * c + q + e"
      by (rule div_unique_int) (use f_bounds in \<open>auto simp: f e_def\<close>)
    have "0 \<le> doy - e"
      using assms by (auto simp: e_def f_def not_less)
    moreover have "doy - e < 365"
    proof -
      have "e = 1" if "doy = 365" using that assms by (auto simp: e_def f_def)
      moreover have "0 \<le> e" by (simp add: e_def)
      ultimately show ?thesis using doy by linarith
    qed
    ultimately show ?thesis
      unfolding a b d by (intro div_unique_int) (simp_all add: doe_def)
  qed
qed

lemma year_of_era_parts:
  fixes y :: int
  assumes "0 \<le> y" "y < 400"
  obtains c q r where "0 \<le> c" "c \<le> 3" "0 \<le> q" "q \<le> 24" "0 \<le> r" "r \<le> 3"
    "y = 100 * c + 4 * q + r" "y div 4 = 25 * c + q" "y div 100 = c"
proof
  define c x where "c = y div 100" and "x = y mod 100"
  have x: "y = 100 * c + x" "0 \<le> x" "x < 100" by (simp_all add: c_def x_def)
  have x4: "x = 4 * (x div 4) + x mod 4" by simp
  show "0 \<le> y div 100" "y div 100 \<le> 3" using assms by auto
  show "0 \<le> (y mod 100) div 4" "(y mod 100) div 4 \<le> 24" "0 \<le> (y mod 100) mod 4" "(y mod 100) mod 4 \<le> 3"
    using x(2,3) unfolding x_def by auto
  show "y = 100 * (y div 100) + 4 * (y mod 100 div 4) + y mod 100 mod 4" by simp
  have "y div 4 = c * 25 + x div 4" using x(1) div_of_parts [of 4 c 25 x] by simp
  then show "y div 4 = 25 * (y div 100) + y mod 100 div 4" unfolding c_def x_def by simp
qed simp

lemma leap_parts:
  fixes E c q r :: int
  assumes "0 \<le> c" "c \<le> 3" "0 \<le> q" "q \<le> 24" "0 \<le> r" "r \<le> 3" "leap (E * 400 + (100 * c + 4 * q + r) + 1)"
  shows "r = 3 \<and> (q < 24 \<or> c = 3)"
proof -
  let ?y = "E * 400 + (100 * c + 4 * q + r) + 1"
  have "?y = 4 * (E * 100 + 25 * c + q) + (r + 1)" by simp
  moreover have "4 dvd ?y" using assms(7) by (simp add: leap_def)
  ultimately have "4 dvd r + 1" by (metis dvd_add_right_iff dvd_triv_left)
  then have r: "r = 3" using assms(5,6) by presburger
  moreover have "q < 24 \<or> c = 3"
  proof (rule ccontr)
    assume "\<not> (q < 24 \<or> c = 3)"
    then have q: "q = 24" and c: "c < 3" using assms by auto
    have y: "?y = 100 * (4 * E + c + 1)" using q r by simp
    then have "100 dvd ?y" by (metis dvd_triv_left)
    then have "400 dvd ?y" using assms(7) by (simp add: leap_def)
    then have "100 * 4 dvd 100 * (4 * E + c + 1)" unfolding y by simp
    then have "4 dvd 4 * E + c + 1" 
      unfolding dvd_mult_cancel_left by (elim disjE) simp_all
    then have "4 dvd 4 * E + (c + 1)" by (simp only: add.assoc)
    then have "4 dvd c + 1" by (metis dvd_add_right_iff dvd_triv_left)
    then show False using zdvd_not_zless [of "c + 1" 4] c assms(1) by simp
  qed
  ultimately show ?thesis ..
qed

text \<open>The conversion of a day back to the year that begins in March and the day in it.\<close>

lemma march_year_back:
  fixes Y doy :: int
  assumes "0 \<le> doy" "doy < march_days (Y + 1) - march_days Y"
  defines "days \<equiv> march_days Y + doy"
  shows "(let era = (if days > 0 then days else days - 146096) sdiv 146097;
              doe = days - era * 146097;
              yoe = (doe - doe sdiv 1460 + doe sdiv 36524 - doe sdiv 146096) sdiv 365
          in (yoe + era * 400, doe - (365 * yoe + yoe sdiv 4 - yoe sdiv 100))) = (Y, doy)"
proof -
  define E y where "E = Y div 400" and "y = Y mod 400"
  have y: "0 \<le> y" "y < 400" and Y: "Y = E * 400 + y" by (simp_all add: E_def y_def)
  from y obtain c q r where parts: "0 \<le> c" "c \<le> 3" "0 \<le> q" "q \<le> 24" "0 \<le> r" "r \<le> 3"
    and sum: "y = 100 * c + 4 * q + r" and quot: "y div 4 = 25 * c + q" "y div 100 = c"
    by (rule year_of_era_parts)
  define doe where "doe = march_days y + doy"
  have march_y: "march_days y = y * 365 + y div 4 - y div 100"
    by (rule march_days_year_of_era [OF y])
  then have doe: "doe = 36524 * c + 1461 * q + 365 * r + doy"
    unfolding doe_def march_y quot using sum by simp
  have days: "days = E * 146097 + doe"
    by (simp add: days_def doe_def Y march_days_era)
  have last: "doy \<le> 364 \<or> doy = 365 \<and> r = 3 \<and> (q < 24 \<or> c = 3)"
    using assms(2) march_days_step [of "Y + 1"] leap_parts [OF parts, of E] assms(1)
    by (auto simp: Y sum split: if_splits)
  have doe_bounds: "0 \<le> doe" "doe < 146097"
    using doe parts last assms(1) by linarith+
  have era: "(if days > 0 then days else days - 146096) sdiv 146097 = E"
  proof -
    have "(if days > 0 then days else days - 146096) sdiv 146097 = days div 146097"
      by (rule floor_idiom) auto
    also have "\<dots> = E" by (rule div_unique_int) (use doe_bounds days in auto)
    finally show ?thesis .
  qed
  have yoe: "(doe - doe sdiv 1460 + doe sdiv 36524 - doe sdiv 146096) sdiv 365 = y"
  proof -
    have eq: "(doe - doe div 1460 + doe div 36524 - doe div 146096) div 365 = y"
      using year_of_era_unique [OF parts assms(1) last] unfolding doe [symmetric] sum by simp
    have "doe div 1460 \<le> doe + doe div 36524 - doe div 146096"
      using doe_bounds by linarith
    then show ?thesis
      using eq doe_bounds by (simp add: sdiv_nonneg)
  qed
  have rest: "days - E * 146097 = doe" using days by simp
  show ?thesis
    unfolding Let_def era rest yoe using y Y march_y by (simp add: sdiv_nonneg doe_def)
qed

lemma month_of_day:
  assumes "1 \<le> m" "m \<le> 12" "1 \<le> d" "d \<le> 31" "m \<in> {4, 6, 9, 11} \<Longrightarrow> d \<le> 30" "m = 2 \<Longrightarrow> d \<le> 29"
  defines "mm \<equiv> if m > 2 then m - 3 else m + 9"
  shows "(5 * (month_start m + d - 1) + 2) div 153 = mm"
  using months [OF assms(1,2)] assms(3-6) unfolding mm_def month_start_def
  by (elim insertE emptyE; simp; intro div_unique_int; simp)

lemma valid_month_day:
  assumes "is_valid_date y m d"
  shows "1 \<le> m" "m \<le> 12" "1 \<le> d" "d \<le> 31" "m \<in> {4, 6, 9, 11} \<Longrightarrow> d \<le> 30" "m = 2 \<Longrightarrow> d \<le> 29"
  using assms by (auto simp: is_valid_date_iff month_days_def split: if_splits)

lemma valid_day_of_year:
  assumes "is_valid_date y m d"
  shows "0 \<le> month_start m + d - 1"
    "month_start m + d - 1 < march_days (march_year y m + 1) - march_days (march_year y m)"
proof -
  have v: "1 \<le> m" "m \<le> 12" "1 \<le> d" "d \<le> month_days y m" using assms by (simp_all add: is_valid_date_iff)
  then show "0 \<le> month_start m + d - 1" using month_start_nonneg [of m] by simp
  have "month_start m + d - 1 < 365 \<or> m = 2 \<and> leap y \<and> month_start m + d - 1 < 366"
    using months [OF v(1,2)] v(4) unfolding month_start_def month_days_def
    by (elim insertE emptyE; simp split: if_splits)
  then show "month_start m + d - 1 < march_days (march_year y m + 1) - march_days (march_year y m)"
    using march_days_step [of "march_year y m + 1"] by (auto simp: march_year_def)
qed

lemma day_number_range:
  assumes "is_valid_date y m d"
  shows "- 60 \<le> day_number y m d" "day_number y m d \<le> 3652364"
proof -
  have v: "0 \<le> y" "y \<le> 9999" "1 \<le> m" "m \<le> 12" using assms by (simp_all add: is_valid_date_iff)
  note doy = valid_day_of_year [OF assms]
  have e: "march_days (- 1) = - 366" "march_days 0 = 0" "march_days 9999 = 3652059"
    by (simp_all add: march_days_def)
  show "- 60 \<le> day_number y m d"
  proof (cases "march_year y m = - 1")
    case True
    then have "m = 1 \<or> m = 2" using v by (auto simp: march_year_def split: if_splits)
    then show ?thesis using True e valid_month_day(3) [OF assms] by (auto simp: day_number_def month_start_def)
  next
    case False
    then have "march_days 0 \<le> march_days (march_year y m)"
      using march_year_bounds [OF v(1), of m] by (intro march_days_mono) simp
    then show ?thesis using doy(1) e by (simp add: day_number_def)
  qed
  show "day_number y m d \<le> 3652364"
  proof (cases "march_year y m = 9999")
    case True
    then have "m > 2" using v by (auto simp: march_year_def split: if_splits)
    moreover have "m \<in> {1, 2, 3, 4, 5, 6, 7, 8, 9, 10, 11, 12}" by (rule months [OF v(3,4)])
    ultimately show ?thesis using True e valid_month_day [OF assms] by (auto simp: day_number_def month_start_def)
  next
    case False
    then have "march_year y m + 1 \<le> 9999" using v by (auto simp: march_year_def split: if_splits)
    then have "march_days (march_year y m + 1) \<le> march_days 9999" by (rule march_days_mono)
    then show ?thesis using doy(2) e by (simp add: day_number_def)
  qed
qed

lemma seconds_split:
  fixes h mi s :: int
  assumes "is_valid_time h mi s"
  defines "t \<equiv> h * 3600 + mi * 60 + s"
  shows "0 \<le> t \<and> t < 86400 \<and> t sdiv 3600 = h \<and> t smod 3600 sdiv 60 = mi \<and> t smod 3600 smod 60 = s"
proof -
  have b: "0 \<le> h" "h \<le> 23" "0 \<le> mi" "mi \<le> 59" "0 \<le> s" "s \<le> 59" using assms by (simp_all add: is_valid_time_iff)
  then have t: "0 \<le> t" "t < 86400" by (simp_all add: t_def)
  have h: "t div 3600 = h" by (rule div_unique_int) (use b in \<open>simp_all add: t_def\<close>)
  have m: "t mod 3600 = mi * 60 + s"
  proof -
    have "t = h * 3600 + (mi * 60 + s)" by (simp add: t_def)
    then show ?thesis using div_mult_mod_eq [of t 3600, unfolded h] by linarith
  qed
  have mi: "(mi * 60 + s) div 60 = mi" by (rule div_unique_int) (use b in simp_all)
  have s: "(mi * 60 + s) mod 60 = s" using b by (simp add: mod_pos_pos_trivial)
  show ?thesis using t b by (simp add: sdiv_nonneg smod_nonneg h m mi s)
qed

lemma day_split: "0 \<le> r \<Longrightarrow> r < 86400 \<Longrightarrow> (n * 86400 + r) div 86400 = n \<and> (n * 86400 + r) mod 86400 = r" for n r :: int
  by (simp add: mod_pos_pos_trivial)

lemma utc_of_days:
  assumes "is_valid_date y m d" "is_valid_time h mi s"
  shows "utc_from_posix_time ((day_number y m d - 719468) * 86400 + (h * 3600 + mi * 60 + s)) = Some (y, m, d, h, mi, s)"
    (is "utc_from_posix_time ?t = _")
proof -
  define r where "r = h * 3600 + mi * 60 + s"
  define doy where "doy = month_start m + d - 1"
  have r: "0 \<le> r" "r < 86400" "r sdiv 3600 = h" "r smod 3600 sdiv 60 = mi" "r smod 3600 smod 60 = s"
    using seconds_split [OF assms(2)] by (simp_all add: r_def)
  have range: "is_valid_posix_time ?t"
    using day_number_range [OF assms(1)] r(1,2) unfolding r_def [symmetric]
    by (simp add: is_valid_posix_time_def MIN_POSIX_TIME_def MAX_POSIX_TIME_def)
  have floor: "?t div 86400 = day_number y m d - 719468" "?t mod 86400 = r"
    unfolding r_def [symmetric]
    by (rule conjunct1 [OF day_split [OF r(1,2)]], rule conjunct2 [OF day_split [OF r(1,2)]])
  have days: "day_number y m d - 719468 + 719468 = march_days (march_year y m) + doy"
    by (simp add: day_number_def doy_def)
  note year = march_year_back [OF valid_day_of_year [OF assms(1)], folded doy_def, unfolded Let_def prod.inject]
  have mm: "(5 * doy + 2) sdiv 153 = (if m > 2 then m - 3 else m + 9)"
    using month_of_day [OF valid_month_day [OF assms(1)]] valid_day_of_year(1) [OF assms(1)]
    by (simp add: doy_def sdiv_nonneg)
  have ms: "(153 * (if m > 2 then m - 3 else m + 9) + 2) sdiv 5 = month_start m"
    unfolding month_start_def using valid_month_day(1) [OF assms(1)] by (intro sdiv_nonneg) auto
  have m: "(if (if m > 2 then m - 3 else m + 9) < 10 then (if m > 2 then m - 3 else m + 9) + 3
      else (if m > 2 then m - 3 else m + 9) - 9) = m"
    using valid_month_day(1,2) [OF assms(1)] by auto
  have y: "(if m \<le> 2 then march_year y m + 1 else march_year y m) = y" by (simp add: march_year_def)
  have d: "doy - month_start m + 1 = d" by (simp add: doy_def)
  have secs: "SECS_PER_DAY = 86400" "SECS_PER_HOUR = 3600" by (simp_all add: time_defs)
  show ?thesis
    unfolding utc_from_posix_time_def Let_def secs floor_seconds [of 86400, simplified] floor prod.case days
      conjunct1 [OF year] conjunct2 [OF year] mm ms m y d r(3-5)
    using range by (simp only: r_def not_True_eq_False if_False)
qed

text \<open>Every day and every second is reached by counting from the first one.\<close>

lemma next_day_valid:
  assumes "is_valid_date y m d" "next_day y m d = (y', m', d')" "day_number y m d < 3652364"
  shows "is_valid_date y' m' d'"
proof -
  have v: "0 \<le> y" "y \<le> 9999" "1 \<le> m" "m \<le> 12" "1 \<le> d" "d \<le> month_days y m"
    using assms(1) by (simp_all add: is_valid_date_iff)
  have pos: "1 \<le> month_days a b" for a b by (simp add: month_days_def)
  have "y < 9999" if "d = month_days y m" "m = 12"
  proof (rule ccontr)
    assume "\<not> y < 9999"
    then have "y = 9999" using v by simp
    then show False using assms(3) that by (simp add: day_number_def month_days_def march_year_def march_days_def month_start_def)
  qed
  then show ?thesis using assms(2) v pos by (auto simp: next_day_def is_valid_date_iff split: if_splits)
qed

lemma every_day:
  assumes "- 60 \<le> n" "n \<le> 3652364"
  shows "\<exists>y m d. is_valid_date y m d \<and> day_number y m d = n"
  using assms
proof (induction n rule: int_ge_induct)
  case base
  have "is_valid_date 0 1 1 \<and> day_number 0 1 1 = - 60"
    by (simp add: is_valid_date_iff month_days_def day_number_def march_year_def march_days_def month_start_def)
  then show ?case by blast
next
  case (step n)
  then obtain y m d where v: "is_valid_date y m d" "day_number y m d = n" by auto
  obtain y' m' d' where n: "next_day y m d = (y', m', d')" by (rule prod_cases3)
  have "day_number y' m' d' = n + 1"
    using next_day_number [OF _ _ _ n] v by (simp add: is_valid_date_iff)
  then show ?case using next_day_valid [OF v(1) n] v(2) step.prems by force
qed

lemma every_second:
  assumes "0 \<le> r" "r < 86400"
  shows "\<exists>h mi s. is_valid_time h mi s \<and> h * 3600 + mi * 60 + s = r"
proof -
  have e: "r = r div 3600 * 3600 + r mod 3600" "r mod 3600 = r mod 3600 div 60 * 60 + r mod 3600 mod 60" by simp_all
  have "r div 3600 \<le> 23" using assms by auto
  moreover have "r mod 3600 div 60 \<le> 59" using pos_mod_bound [of 3600 r] by linarith
  ultimately have "is_valid_time (r div 3600) (r mod 3600 div 60) (r mod 3600 mod 60)"
    using assms pos_mod_bound [of 60 "r mod 3600"] pos_mod_sign [of 3600 r]
    by (simp add: is_valid_time_iff pos_imp_zdiv_nonneg_iff)
  moreover have "r div 3600 * 3600 + r mod 3600 div 60 * 60 + r mod 3600 mod 60 = r"
    using e by linarith
  ultimately show ?thesis by blast
qed

lemma every_time:
  assumes "is_valid_posix_time t"
  shows "\<exists>y m d h mi s. posix_time_from_utc y m d h mi s = Some t \<and> utc_from_posix_time t = Some (y, m, d, h, mi, s)"
proof -
  have t: "t = (t div 86400 + 719468 - 719468) * 86400 + t mod 86400" by simp
  have "- 60 \<le> t div 86400 + 719468" "t div 86400 + 719468 \<le> 3652364"
    using assms unfolding is_valid_posix_time_def MIN_POSIX_TIME_def MAX_POSIX_TIME_def by linarith+
  then obtain y m d where d: "is_valid_date y m d" "day_number y m d = t div 86400 + 719468"
    using every_day by blast
  obtain h mi s where s: "is_valid_time h mi s" "h * 3600 + mi * 60 + s = t mod 86400"
    using every_second [of "t mod 86400"] by auto
  show ?thesis
    using posix_time_days [OF d(1) s(1)] utc_of_days [OF d(1) s(1)] t unfolding d(2) s(2) by metis
qed

lemma posix_time_Some:
  assumes "posix_time_from_utc y m d h mi s = Some t"
  shows "is_valid_date y m d" "is_valid_time h mi s" "is_valid_posix_time t"
    "utc_from_posix_time t = Some (y, m, d, h, mi, s)"
    "t = (day_number y m d - 719468) * 86400 + (h * 3600 + mi * 60 + s)"
proof -
  show v: "is_valid_date y m d" "is_valid_time h mi s"
    using assms posix_time_invalid [of y m d h mi s] by auto
  show t: "t = (day_number y m d - 719468) * 86400 + (h * 3600 + mi * 60 + s)"
    using posix_time_days [OF v] assms by simp
  show inverse: "utc_from_posix_time t = Some (y, m, d, h, mi, s)"
    using utc_of_days [OF v] t by simp
  then show "is_valid_posix_time t" by (simp add: utc_from_posix_time_def split: if_splits)
qed

section \<open>The struct tm\<close>

definition plain :: "tm \<Rightarrow> tm" where
  "plain t = t\<lparr>tm_wday := 0, tm_yday := 0, tm_isdst := 0\<rparr>"

lemma utc_Some:
  assumes "utc_from_posix_time t = Some (y, m, d, h, mi, s)"
  shows "posix_time_from_utc y m d h mi s = Some t"
proof -
  have "is_valid_posix_time t" using assms by (simp add: utc_from_posix_time_def split: if_splits)
  then show ?thesis using every_time [of t] assms by auto
qed

lemma posix_to_tm_iff:
  "OPENSSL_posix_to_tm p = Some t \<longleftrightarrow> OPENSSL_tm_to_posix t = Some p \<and> plain t = t"
proof
  assume "OPENSSL_posix_to_tm p = Some t"
  then show "OPENSSL_tm_to_posix t = Some p \<and> plain t = t"
    by (auto simp: OPENSSL_posix_to_tm_def OPENSSL_tm_to_posix_def plain_def utc_Some
        split: option.splits prod.splits)
next
  assume t: "OPENSSL_tm_to_posix t = Some p \<and> plain t = t"
  then have "utc_from_posix_time p =
      Some (tm_year t + 1900, tm_mon t + 1, tm_mday t, tm_hour t, tm_min t, tm_sec t)"
    by (auto simp: OPENSSL_tm_to_posix_def dest: posix_time_Some(4))
  then show "OPENSSL_posix_to_tm p = Some t"
    using t by (cases t) (simp add: OPENSSL_posix_to_tm_def plain_def)
qed

lemma tm_to_posix_plain: "OPENSSL_tm_to_posix (plain t) = OPENSSL_tm_to_posix t"
  by (simp add: OPENSSL_tm_to_posix_def plain_def)

lemma plain_plain: "plain (plain t) = plain t"
  by (simp add: plain_def)

lemma posix_to_tm_plain: "OPENSSL_tm_to_posix t = Some p \<Longrightarrow> OPENSSL_posix_to_tm p = Some (plain t)"
  by (simp add: posix_to_tm_iff tm_to_posix_plain plain_plain)

lemma posix_time_defined:
  "(\<exists>t. posix_time_from_utc y m d h mi s = Some t) \<longleftrightarrow> is_valid_date y m d \<and> is_valid_time h mi s"
  using posix_time_days [of y m d h mi s] posix_time_invalid [of y m d h mi s]
  by (cases "is_valid_date y m d \<and> is_valid_time h mi s") simp_all

lemma utc_defined: "(\<exists>date. utc_from_posix_time t = Some date) \<longleftrightarrow> is_valid_posix_time t"
  by (simp add: utc_from_posix_time_def Let_def split_def)

lemma posix_to_tm_valid: "is_valid_posix_time p \<longleftrightarrow> (\<exists>t. OPENSSL_posix_to_tm p = Some t)"
  by (auto simp: OPENSSL_posix_to_tm_def utc_from_posix_time_def Let_def split: prod.splits if_splits)

lemma tm_to_posix_valid: "OPENSSL_tm_to_posix t = Some p \<Longrightarrow> is_valid_posix_time p"
  by (auto simp: OPENSSL_tm_to_posix_def dest: posix_time_Some(3))

lemma gmtime_adj_no_overflow:
  assumes "INT64_MIN \<le> q" "q \<le> INT64_MAX" "INT64_MIN \<le> sec" "sec \<le> INT64_MAX"
    "\<not> (q > 0 \<and> sec > INT64_MAX - q)" "\<not> (q < 0 \<and> sec < INT64_MIN - q)"
  shows "INT64_MIN \<le> q + sec" "q + sec \<le> INT64_MAX"
  using assms by (auto simp: time_defs)

text \<open>
  C30: the two conversions are inverse to each other: a calendar date and time is converted to a time exactly when
  that time is converted to it, the dates that have a time are exactly the valid ones of the years 0 to 9999, and the
  times that have a date are exactly those of the range the code states.
\<close>

theorem posix_time_inverse:
  "(posix_time_from_utc y m d h mi s = Some t \<longleftrightarrow> utc_from_posix_time t = Some (y, m, d, h, mi, s)) \<and>
   ((\<exists>t. posix_time_from_utc y m d h mi s = Some t) \<longleftrightarrow>
      0 \<le> y \<and> y \<le> 9999 \<and> 1 \<le> m \<and> m \<le> 12 \<and> 1 \<le> d \<and> d \<le> month_days y m \<and>
      0 \<le> h \<and> h \<le> 23 \<and> 0 \<le> mi \<and> mi \<le> 59 \<and> 0 \<le> s \<and> s \<le> 59) \<and>
   ((\<exists>date. utc_from_posix_time t = Some date) \<longleftrightarrow> -62167219200 \<le> t \<and> t \<le> 253402300799)"
proof (intro conjI)
  show "posix_time_from_utc y m d h mi s = Some t \<longleftrightarrow> utc_from_posix_time t = Some (y, m, d, h, mi, s)"
    by (auto intro: posix_time_Some(4) utc_Some)
  show "(\<exists>t. posix_time_from_utc y m d h mi s = Some t) \<longleftrightarrow>
      0 \<le> y \<and> y \<le> 9999 \<and> 1 \<le> m \<and> m \<le> 12 \<and> 1 \<le> d \<and> d \<le> month_days y m \<and>
      0 \<le> h \<and> h \<le> 23 \<and> 0 \<le> mi \<and> mi \<le> 59 \<and> 0 \<le> s \<and> s \<le> 59"
    (is "?some \<longleftrightarrow> ?valid")
  proof -
    have "?valid \<longleftrightarrow> is_valid_date y m d \<and> is_valid_time h mi s"
      by (simp only: is_valid_date_iff is_valid_time_iff conj_assoc)
    then show ?thesis unfolding posix_time_defined by (rule sym)
  qed
  show "(\<exists>date. utc_from_posix_time t = Some date) \<longleftrightarrow> -62167219200 \<le> t \<and> t \<le> 253402300799"
    unfolding utc_defined is_valid_posix_time_def MIN_POSIX_TIME_def MAX_POSIX_TIME_def ..
qed

text \<open>
  the time of a date counts the seconds since 1970: the epoch has time 0, a time of day adds its seconds,
  and the midnight that follows a day in the calendar is 86400 seconds after the midnight it begins with.
\<close>

theorem posix_time_counts:
  assumes "posix_time_from_utc y m d 0 0 0 = Some t" "posix_time_from_utc y m d h mi s = Some t'"
    "next_day y m d = (y2, m2, d2)" "posix_time_from_utc y2 m2 d2 0 0 0 = Some t2"
  shows "posix_time_from_utc 1970 1 1 0 0 0 = Some 0 \<and> t' = t + h * 3600 + mi * 60 + s \<and> t2 = t + 86400"
proof (intro conjI)
  show "posix_time_from_utc 1970 1 1 0 0 0 = Some 0"
    by (simp add: posix_time_days is_valid_date_iff is_valid_time_iff month_days_def day_number_def
        march_year_def march_days_def month_start_def)
  show "t' = t + h * 3600 + mi * 60 + s"
    using posix_time_Some(5) [OF assms(1)] posix_time_Some(5) [OF assms(2)] by simp
  show "t2 = t + 86400"
    using next_day_number [OF _ _ _ assms(3)] posix_time_Some(1) [OF assms(1)]
      posix_time_Some(5) [OF assms(1)] posix_time_Some(5) [OF assms(4)] by (simp add: is_valid_date_iff)
qed

lemma february_day:
  "posix_time_from_utc 2024 2 29 0 0 0 = Some 1709164800" "posix_time_from_utc 2024 2 29 12 30 15 = Some 1709209815"
  "posix_time_from_utc 2024 3 1 0 0 0 = Some 1709251200" "next_day 2024 2 29 = (2024, 3, 1)"
  by (simp_all add: posix_time_days is_valid_date_iff is_valid_time_iff month_days_def day_number_def
      march_year_def march_days_def month_start_def next_day_def leap_def)

lemma posix_time_counts_witness:
  "posix_time_from_utc 1970 1 1 0 0 0 = Some 0 \<and> (1709209815 :: int) = 1709164800 + 12 * 3600 + 30 * 60 + 15 \<and>
   (1709251200 :: int) = 1709164800 + 86400"
  by (rule posix_time_counts [OF february_day(1,2,4,3)])

lemma gmtime_adj_eq:
  assumes "OPENSSL_tm_to_posix t = Some p" "- (2 ^ 31) \<le> day" "day < 2 ^ 31" "INT64_MIN \<le> sec" "sec \<le> INT64_MAX"
  shows "OPENSSL_gmtime_adj t day sec = OPENSSL_posix_to_tm (p + day * 86400 + sec)"
proof -
  have none: "OPENSSL_posix_to_tm x = None" if "x < MIN_POSIX_TIME \<or> MAX_POSIX_TIME < x" for x
    using that posix_to_tm_valid [of x] by (cases "OPENSSL_posix_to_tm x") (auto simp: is_valid_posix_time_def)
  show ?thesis
    using assms(1) none [of "p + day * 86400 + sec"]
    by (auto simp: OPENSSL_gmtime_adj_def time_defs Let_def MIN_POSIX_TIME_def MAX_POSIX_TIME_def)
qed

text \<open>
  \<open>OPENSSL_gmtime_adj\<close> moves a time by days and seconds and fails exactly when the moved time has no date;
  \<open>OPENSSL_gmtime_diff\<close> gives days and seconds of one sign by which \<open>OPENSSL_gmtime_adj\<close> leads from the one time
  to the other.
\<close>

theorem gmtime_adj_diff:
  assumes "OPENSSL_tm_to_posix t = Some p" "OPENSSL_tm_to_posix t2 = Some p2"
    "- (2 ^ 31) \<le> day" "day < 2 ^ 31" "INT64_MIN \<le> sec" "sec \<le> INT64_MAX"
  shows "OPENSSL_gmtime_adj t day sec = OPENSSL_posix_to_tm (p + day * 86400 + sec) \<and>
    (\<exists>ddays dsecs. OPENSSL_gmtime_diff t t2 = Some (ddays, dsecs) \<and> \<bar>dsecs\<bar> < 86400 \<and> 0 \<le> ddays * dsecs \<and>
       OPENSSL_gmtime_adj t ddays dsecs = Some (plain t2))"
proof -
  define dd ss where "dd = (p2 - p) sdiv 86400" and "ss = (p2 - p) smod 86400"
  have sum: "p + dd * 86400 + ss = p2"
    using sdiv_mult_smod_eq [of "p2 - p" 86400] by (simp add: dd_def ss_def)
  have sign: "\<bar>ss\<bar> < 86400" "0 \<le> dd * ss"
    by (auto simp: dd_def ss_def signed_divide_int_def signed_modulo_int_def abs_mult sgn_if pos_imp_zdiv_nonneg_iff)
  have diff: "OPENSSL_gmtime_diff t t2 = Some (dd, ss)"
    using assms(1,2) by (simp add: OPENSSL_gmtime_diff_def time_defs dd_def ss_def Let_def)
  show ?thesis
  proof (intro conjI exI)
    show "OPENSSL_gmtime_diff t t2 = Some (dd, ss)" by (rule diff)
    have v: "is_valid_posix_time p" "is_valid_posix_time p2" using assms by (simp_all add: tm_to_posix_valid)
    then have b: "\<bar>p2 - p\<bar> \<le> 315569519999"
      by (auto simp: is_valid_posix_time_def MIN_POSIX_TIME_def MAX_POSIX_TIME_def)
    have "\<bar>dd\<bar> = \<bar>p2 - p\<bar> div 86400" by (simp add: dd_def signed_divide_int_def abs_mult sgn_if)
    also have "\<dots> \<le> 315569519999 div 86400" using b by (rule zdiv_mono1) simp
    finally have "\<bar>dd\<bar> < 2 ^ 31" by simp
    then have "OPENSSL_gmtime_adj t dd ss = OPENSSL_posix_to_tm (p + dd * 86400 + ss)"
      using sign by (intro gmtime_adj_eq [OF assms(1)]) (auto simp: time_defs)
    then show "OPENSSL_gmtime_adj t dd ss = Some (plain t2)"
      unfolding sum posix_to_tm_plain [OF assms(2)] .
  qed (rule gmtime_adj_eq [OF assms(1,3-6)] sign)+
qed

lemma gmtime_adj_diff_witness:
  "\<exists>t t2. OPENSSL_gmtime_adj t 1 3600 = OPENSSL_posix_to_tm (0 + 1 * 86400 + 3600) \<and>
    (\<exists>ddays dsecs. OPENSSL_gmtime_diff t t2 = Some (ddays, dsecs) \<and> \<bar>dsecs\<bar> < 86400 \<and> 0 \<le> ddays * dsecs \<and>
       OPENSSL_gmtime_adj t ddays dsecs = Some (plain t2))"
proof -
  obtain t t2 where "OPENSSL_posix_to_tm 0 = Some t" "OPENSSL_posix_to_tm 1709164800 = Some t2"
    using posix_to_tm_valid [of 0] posix_to_tm_valid [of 1709164800]
    by (auto simp: is_valid_posix_time_def MIN_POSIX_TIME_def MAX_POSIX_TIME_def)
  then have "OPENSSL_tm_to_posix t = Some 0" "OPENSSL_tm_to_posix t2 = Some 1709164800"
    by (simp_all add: posix_to_tm_iff)
  then show ?thesis
    using gmtime_adj_diff [of t 0 t2 1709164800 1 3600] by (force simp: time_defs)
qed

end
