(* ===== verification/Asn1Time.thy ===== *)
theory Asn1Time
  imports PosixTime Asn1String Decimal
begin

text \<open>
  The times of X.509: the parser of \<open>crypto/bytestring/cbs.c\<close> for UTCTime and GeneralizedTime, and the objects of
  \<open>a_utctm.c\<close>, \<open>a_gentm.c\<close> and \<open>a_time.c\<close> that print, parse, convert and compare them.
\<close>

section \<open>Parsing\<close>

definition cbs_get_two_digits :: "CBS \<Rightarrow> (int, CBS) cres" where
  "cbs_get_two_digits cbs =
     cbind (CBS_get_u8 cbs) (\<lambda>first_digit cbs.
       if \<not> OPENSSL_isdigit (uint first_digit) then (None, cbs)
       else cbind (CBS_get_u8 cbs) (\<lambda>second_digit cbs.
         if \<not> OPENSSL_isdigit (uint second_digit) then (None, cbs)
         else (Some ((uint first_digit - 48) * 10 + (uint second_digit - 48)), cbs)))"

definition is_valid_day :: "int \<Rightarrow> int \<Rightarrow> int \<Rightarrow> bool" where
  "is_valid_day year month day =
     (if day < 1 then False
      else if month \<in> {1, 3, 5, 7, 8, 10, 12} then day \<le> 31
      else if month \<in> {4, 6, 9, 11} then day \<le> 30
      else if month = 2 then
        if (year smod 4 = 0 \<and> year smod 100 \<noteq> 0) \<or> year smod 400 = 0 then day \<le> 29 else day \<le> 28
      else False)"

text \<open>The value of a pair of digits that satisfies \<open>ok\<close>.\<close>

definition digits_that :: "(int \<Rightarrow> bool) \<Rightarrow> CBS \<Rightarrow> (int, CBS) cres" where
  "digits_that ok copy =
     cbind (cbs_get_two_digits copy) (\<lambda>v copy. if \<not> ok v then (None, copy) else (Some v, copy))"

text \<open>The year, the offset in seconds behind the time, and all fields up to the end of the input.\<close>

definition time_year :: "bool \<Rightarrow> CBS \<Rightarrow> (int, CBS) cres" where
  "time_year is_gentime cbs =
     (if is_gentime then
        cbind (cbs_get_two_digits cbs) (\<lambda>tmp copy.
          let year = tmp * 100
          in cbind (cbs_get_two_digits copy) (\<lambda>tmp copy. (Some (year + tmp), copy)))
      else
        cbind (cbs_get_two_digits cbs) (\<lambda>tmp copy.
          let year = 1900 + tmp;
              year = (if year < 1950 then year + 100 else year)
          in if year \<ge> 2050 then (None, copy) else (Some year, copy)))"

definition time_zone :: "bool \<Rightarrow> CBS \<Rightarrow> (int, CBS) cres" where
  "time_zone allow_timezone_offset copy =
     cbind (CBS_get_u8 copy) (\<lambda>tz copy.
     cbind (if tz = 90 then (Some 0, copy) else if tz = 43 then (Some 1, copy)
            else if tz = 45 then (Some (-1), copy) else (None, copy)) (\<lambda>offset_sign copy.
     if offset_sign \<noteq> 0 then
       if \<not> allow_timezone_offset then (None, copy)
       else
         cbind (digits_that (\<lambda>offset_hours. \<not> offset_hours > 23) copy) (\<lambda>offset_hours copy.
         cbind (digits_that (\<lambda>offset_minutes. \<not> offset_minutes > 59) copy) (\<lambda>offset_minutes copy.
           (Some (offset_sign * (offset_hours * 3600 + offset_minutes * 60)), copy)))
     else (Some 0, copy)))"

definition time_fields :: "bool \<Rightarrow> bool \<Rightarrow> CBS \<Rightarrow> (int \<times> int \<times> int \<times> int \<times> int \<times> int \<times> int, CBS) cres" where
  "time_fields is_gentime allow_timezone_offset cbs =
     cbind (time_year is_gentime cbs) (\<lambda>year copy.
     cbind (digits_that (\<lambda>month. \<not> (month < 1 \<or> month > 12)) copy) (\<lambda>month copy.
     cbind (digits_that (is_valid_day year month) copy) (\<lambda>day copy.
     cbind (digits_that (\<lambda>hour. \<not> hour > 23) copy) (\<lambda>hour copy.
     cbind (digits_that (\<lambda>minute. \<not> minute > 59) copy) (\<lambda>minute copy.
     cbind (digits_that (\<lambda>sec. \<not> sec > 59) copy) (\<lambda>sec copy.
     cbind (time_zone allow_timezone_offset copy) (\<lambda>offset_seconds copy.
     if length copy \<noteq> 0 then (None, copy)
     else (Some (year, month, day, hour, minute, sec, offset_seconds), copy))))))))"

text \<open>
  The return value and \<open>*out_tm\<close>, \<open>None\<close> for a null pointer. A failing adjustment leaves the fields it was given.
\<close>

definition CBS_parse_rfc5280_time_internal :: "CBS \<Rightarrow> bool \<Rightarrow> bool \<Rightarrow> tm option \<Rightarrow> bool \<times> tm option" where
  "CBS_parse_rfc5280_time_internal cbs is_gentime allow_timezone_offset out_tm =
     (case time_fields is_gentime allow_timezone_offset cbs of
        (None, _) \<Rightarrow> (False, out_tm)
      | (Some (year, month, day, hour, minute, sec, offset_seconds), _) \<Rightarrow>
          (case out_tm of
             None \<Rightarrow> (True, None)
           | Some t \<Rightarrow>
               let t = t\<lparr>tm_year := year - 1900, tm_mon := month - 1, tm_mday := day,
                         tm_hour := hour, tm_min := minute, tm_sec := sec\<rparr>
               in if offset_seconds \<noteq> 0 then
                    (case OPENSSL_gmtime_adj t 0 offset_seconds of
                       None \<Rightarrow> (False, Some t)
                     | Some t \<Rightarrow> (True, Some t))
                  else (True, Some t)))"

definition CBS_parse_generalized_time :: "CBS \<Rightarrow> tm option \<Rightarrow> bool \<Rightarrow> bool \<times> tm option" where
  "CBS_parse_generalized_time cbs out_tm allow_timezone_offset =
     CBS_parse_rfc5280_time_internal cbs True allow_timezone_offset out_tm"

definition CBS_parse_utc_time :: "CBS \<Rightarrow> tm option \<Rightarrow> bool \<Rightarrow> bool \<times> tm option" where
  "CBS_parse_utc_time cbs out_tm allow_timezone_offset =
     CBS_parse_rfc5280_time_internal cbs False allow_timezone_offset out_tm"

section \<open>UTCTime and GeneralizedTime objects\<close>

text \<open>The strings of the objects are their first \<open>length\<close> bytes.\<close>

definition asn1_utctime_to_tm :: "tm option \<Rightarrow> ASN1_STRING \<Rightarrow> bool \<Rightarrow> bool \<times> tm option" where
  "asn1_utctime_to_tm t d allow_timezone_offset =
     (if as_type d \<noteq> V_ASN1_UTCTIME then (False, t)
      else CBS_parse_utc_time (as_bytes d) t allow_timezone_offset)"

definition ASN1_UTCTIME_check :: "ASN1_STRING \<Rightarrow> bool" where
  "ASN1_UTCTIME_check d = fst (asn1_utctime_to_tm None d True)"

definition asn1_generalizedtime_to_tm :: "tm option \<Rightarrow> ASN1_STRING \<Rightarrow> bool \<times> tm option" where
  "asn1_generalizedtime_to_tm t d =
     (if as_type d \<noteq> V_ASN1_GENERALIZEDTIME then (False, t)
      else CBS_parse_generalized_time (as_bytes d) t False)"

definition ASN1_GENERALIZEDTIME_check :: "ASN1_STRING \<Rightarrow> bool" where
  "ASN1_GENERALIZEDTIME_check d = fst (asn1_generalizedtime_to_tm None d)"

text \<open>\<open>str\<close> is a C string without its NUL, \<open>s\<close> the object or \<open>None\<close> for a null pointer.\<close>

definition set_time_string ::
    "allocator \<Rightarrow> ASN1_STRING option \<Rightarrow> bytes \<Rightarrow> int \<Rightarrow> (unit, ASN1_STRING option) cres" where
  "set_time_string malloc s str type =
     (case s of
        None \<Rightarrow> (Some (), None)
      | Some s \<Rightarrow>
          (case ASN1_STRING_set malloc s (Some (str @ [0])) (int (length str)) of
             (None, s) \<Rightarrow> (None, Some s)
           | (Some _, s) \<Rightarrow> (Some (), Some (s\<lparr>as_type := type\<rparr>))))"

definition ASN1_UTCTIME_set_string :: "allocator \<Rightarrow> ASN1_STRING option \<Rightarrow> bytes \<Rightarrow> (unit, ASN1_STRING option) cres" where
  "ASN1_UTCTIME_set_string malloc s str =
     (if \<not> fst (CBS_parse_utc_time str None False) then (None, s)
      else set_time_string malloc s str V_ASN1_UTCTIME)"

definition ASN1_GENERALIZEDTIME_set_string ::
    "allocator \<Rightarrow> ASN1_STRING option \<Rightarrow> bytes \<Rightarrow> (unit, ASN1_STRING option) cres" where
  "ASN1_GENERALIZEDTIME_set_string malloc s str =
     (if \<not> fst (CBS_parse_generalized_time str None False) then (None, s)
      else set_time_string malloc s str V_ASN1_GENERALIZEDTIME)"

text \<open>The conversion \<^verbatim>\<open>%0wd\<close> of \<open>snprintf\<close>.\<close>

definition sprintf_0d :: "nat \<Rightarrow> int \<Rightarrow> bytes" where
  "sprintf_0d w v =
     (let ds = dec_digits (nat \<bar>v\<bar>)
      in if v < 0 then 45 # replicate (w - 1 - length ds) 48 @ ds else replicate (w - length ds) 48 @ ds)"

datatype 'a outcome = Returns 'a | Aborts

text \<open>
  The common end of the two printing functions: the string \<open>buf\<close> must have the expected length, \<open>s\<close> is the object given
  or a new one of type \<open>V_ASN1_UTCTIME\<close>; \<open>None\<close> is the return of a null pointer.
\<close>

definition set_time_text ::
    "allocator \<Rightarrow> bool \<Rightarrow> ASN1_STRING option \<Rightarrow> bytes \<Rightarrow> nat \<Rightarrow> int \<Rightarrow> ASN1_STRING option outcome" where
  "set_time_text malloc new_ok s buf expected type =
     (if length buf \<noteq> expected then Aborts
      else Returns
        (case (case s of Some s \<Rightarrow> Some s | None \<Rightarrow> if new_ok then Some (ASN1_STRING_type_new V_ASN1_UTCTIME) else None) of
           None \<Rightarrow> None
         | Some s \<Rightarrow>
             (case ASN1_STRING_set malloc s (Some (buf @ [0])) (int (length buf)) of
                (None, _) \<Rightarrow> None
              | (Some _, s) \<Rightarrow> Some (s\<lparr>as_type := type\<rparr>))))"

definition adjusted_tm :: "int \<Rightarrow> int \<Rightarrow> int \<Rightarrow> tm option" where
  "adjusted_tm posix_time offset_day offset_sec =
     (case OPENSSL_posix_to_tm posix_time of
        None \<Rightarrow> None
      | Some t \<Rightarrow> if offset_day \<noteq> 0 \<or> offset_sec \<noteq> 0 then OPENSSL_gmtime_adj t offset_day offset_sec else Some t)"

definition ASN1_UTCTIME_adj ::
    "allocator \<Rightarrow> bool \<Rightarrow> ASN1_STRING option \<Rightarrow> int \<Rightarrow> int \<Rightarrow> int \<Rightarrow> ASN1_STRING option outcome" where
  "ASN1_UTCTIME_adj malloc new_ok s posix_time offset_day offset_sec =
     (case adjusted_tm posix_time offset_day offset_sec of
        None \<Rightarrow> Returns None
      | Some t \<Rightarrow>
          if tm_year t < 50 \<or> tm_year t \<ge> 150 then Returns None
          else set_time_text malloc new_ok s
                 (sprintf_0d 2 (tm_year t smod 100) @ sprintf_0d 2 (tm_mon t + 1) @ sprintf_0d 2 (tm_mday t) @
                  sprintf_0d 2 (tm_hour t) @ sprintf_0d 2 (tm_min t) @ sprintf_0d 2 (tm_sec t) @ [90])
                 13 V_ASN1_UTCTIME)"

definition ASN1_UTCTIME_set :: "allocator \<Rightarrow> bool \<Rightarrow> ASN1_STRING option \<Rightarrow> int \<Rightarrow> ASN1_STRING option outcome" where
  "ASN1_UTCTIME_set malloc new_ok s posix_time = ASN1_UTCTIME_adj malloc new_ok s posix_time 0 0"

definition ASN1_GENERALIZEDTIME_adj ::
    "allocator \<Rightarrow> bool \<Rightarrow> ASN1_STRING option \<Rightarrow> int \<Rightarrow> int \<Rightarrow> int \<Rightarrow> ASN1_STRING option outcome" where
  "ASN1_GENERALIZEDTIME_adj malloc new_ok s posix_time offset_day offset_sec =
     (case adjusted_tm posix_time offset_day offset_sec of
        None \<Rightarrow> Returns None
      | Some t \<Rightarrow>
          if tm_year t < 0 - 1900 \<or> tm_year t > 9999 - 1900 then Returns None
          else set_time_text malloc new_ok s
                 (sprintf_0d 4 (tm_year t + 1900) @ sprintf_0d 2 (tm_mon t + 1) @ sprintf_0d 2 (tm_mday t) @
                  sprintf_0d 2 (tm_hour t) @ sprintf_0d 2 (tm_min t) @ sprintf_0d 2 (tm_sec t) @ [90])
                 15 V_ASN1_GENERALIZEDTIME)"

definition ASN1_GENERALIZEDTIME_set ::
    "allocator \<Rightarrow> bool \<Rightarrow> ASN1_STRING option \<Rightarrow> int \<Rightarrow> ASN1_STRING option outcome" where
  "ASN1_GENERALIZEDTIME_set malloc new_ok s posix_time = ASN1_GENERALIZEDTIME_adj malloc new_ok s posix_time 0 0"

text \<open>The locals \<open>stm\<close> and \<open>ttm\<close> are filled before they are read; \<open>blank_tm\<close> is what they hold before.\<close>

definition blank_tm :: tm where
  "blank_tm = \<lparr>tm_sec = 0, tm_min = 0, tm_hour = 0, tm_mday = 0, tm_mon = 0, tm_year = 0, tm_wday = 0, tm_yday = 0, tm_isdst = 0\<rparr>"

definition ASN1_UTCTIME_cmp_time_t :: "ASN1_STRING \<Rightarrow> int \<Rightarrow> int" where
  "ASN1_UTCTIME_cmp_time_t s t =
     (case asn1_utctime_to_tm (Some blank_tm) s True of
        (True, Some stm) \<Rightarrow>
          (case OPENSSL_posix_to_tm t of
             None \<Rightarrow> -2
           | Some ttm \<Rightarrow>
               (case OPENSSL_gmtime_diff ttm stm of
                  None \<Rightarrow> -2
                | Some (day, sec) \<Rightarrow>
                    if day > 0 then 1 else if day < 0 then -1 else if sec > 0 then 1 else if sec < 0 then -1 else 0))
      | _ \<Rightarrow> -2)"

section \<open>The choice between the two\<close>

definition fits_in_utc_time :: "tm \<Rightarrow> bool" where
  "fits_in_utc_time t \<longleftrightarrow> 50 \<le> tm_year t \<and> tm_year t < 150"

definition ASN1_TIME_adj ::
    "allocator \<Rightarrow> bool \<Rightarrow> ASN1_STRING option \<Rightarrow> int \<Rightarrow> int \<Rightarrow> int \<Rightarrow> ASN1_STRING option outcome" where
  "ASN1_TIME_adj malloc new_ok s posix_time offset_day offset_sec =
     (case adjusted_tm posix_time offset_day offset_sec of
        None \<Rightarrow> Returns None
      | Some t \<Rightarrow>
          if fits_in_utc_time t then ASN1_UTCTIME_adj malloc new_ok s posix_time offset_day offset_sec
          else ASN1_GENERALIZEDTIME_adj malloc new_ok s posix_time offset_day offset_sec)"

definition ASN1_TIME_set_posix :: "allocator \<Rightarrow> bool \<Rightarrow> ASN1_STRING option \<Rightarrow> int \<Rightarrow> ASN1_STRING option outcome" where
  "ASN1_TIME_set_posix malloc new_ok s posix_time = ASN1_TIME_adj malloc new_ok s posix_time 0 0"

definition ASN1_TIME_set :: "allocator \<Rightarrow> bool \<Rightarrow> ASN1_STRING option \<Rightarrow> int \<Rightarrow> ASN1_STRING option outcome" where
  "ASN1_TIME_set malloc new_ok s time = ASN1_TIME_adj malloc new_ok s time 0 0"

definition ASN1_TIME_check :: "ASN1_STRING \<Rightarrow> bool" where
  "ASN1_TIME_check t =
     (if as_type t = V_ASN1_GENERALIZEDTIME then ASN1_GENERALIZEDTIME_check t
      else if as_type t = V_ASN1_UTCTIME then ASN1_UTCTIME_check t
      else False)"

text \<open>\<open>ret\<close> is \<open>*out\<close> or a new object; the century is written into the grown block and the old string appended.\<close>

definition ASN1_TIME_to_generalizedtime :: "allocator \<Rightarrow> ASN1_STRING \<Rightarrow> ASN1_STRING \<Rightarrow> (unit, ASN1_STRING) cres" where
  "ASN1_TIME_to_generalizedtime malloc t ret =
     (if \<not> ASN1_TIME_check t then (None, ret)
      else if as_type t = V_ASN1_GENERALIZEDTIME then
        ASN1_STRING_set malloc ret (as_data t) (int (as_length t))
      else
        cbind (ASN1_STRING_set malloc ret None (int (as_length t) + 2)) (\<lambda>_ ret.
          let newlen = as_length t + 2 + 1;
              str = the (as_data ret);
              century = (if as_bytes t ! 0 \<ge> 53 then [49, 57] else [50, 48]);
              str = copy_at str 0 (snd (OPENSSL_strlcpy century newlen));
              str = snd (OPENSSL_strlcat str (takeWhile (\<lambda>c. c \<noteq> 0) (the (as_data t))) newlen)
          in (Some (), ret\<lparr>as_data := Some str\<rparr>)))"

definition ASN1_TIME_set_string :: "allocator \<Rightarrow> ASN1_STRING option \<Rightarrow> bytes \<Rightarrow> (unit, ASN1_STRING option) cres" where
  "ASN1_TIME_set_string malloc s str =
     (case ASN1_UTCTIME_set_string malloc s str of
        (Some _, s) \<Rightarrow> (Some (), s)
      | (None, s) \<Rightarrow> ASN1_GENERALIZEDTIME_set_string malloc s str)"

definition ASN1_TIME_set_string_X509 :: "allocator \<Rightarrow> ASN1_STRING option \<Rightarrow> bytes \<Rightarrow> (unit, ASN1_STRING option) cres" where
  "ASN1_TIME_set_string_X509 malloc s str =
     (case (if fst (CBS_parse_utc_time str None False) then Some (V_ASN1_UTCTIME, str)
            else case CBS_parse_generalized_time str (Some blank_tm) False of
                   (True, Some t) \<Rightarrow>
                     if fits_in_utc_time t then Some (V_ASN1_UTCTIME, snd (CBS_skip str 2))
                     else Some (V_ASN1_GENERALIZEDTIME, str)
                 | _ \<Rightarrow> None) of
        None \<Rightarrow> (None, s)
      | Some (type, cbs) \<Rightarrow> set_time_string malloc s cbs type)"

text \<open>\<open>now\<close> is the time of the system clock, read for a null pointer.\<close>

definition asn1_time_to_tm :: "int \<Rightarrow> tm option \<Rightarrow> ASN1_STRING option \<Rightarrow> bool \<Rightarrow> bool \<times> tm option" where
  "asn1_time_to_tm now tm0 t allow_timezone_offset =
     (case t of
        None \<Rightarrow> (case OPENSSL_posix_to_tm now of Some tm1 \<Rightarrow> (True, Some tm1) | None \<Rightarrow> (False, tm0))
      | Some t \<Rightarrow>
          if as_type t = V_ASN1_UTCTIME then asn1_utctime_to_tm tm0 t allow_timezone_offset
          else if as_type t = V_ASN1_GENERALIZEDTIME then asn1_generalizedtime_to_tm tm0 t
          else (False, tm0))"

definition ASN1_TIME_diff :: "int \<Rightarrow> ASN1_STRING option \<Rightarrow> ASN1_STRING option \<Rightarrow> (int \<times> int) option" where
  "ASN1_TIME_diff now from_t to_t =
     (case asn1_time_to_tm now (Some blank_tm) from_t True of
        (True, Some tm_from) \<Rightarrow>
          (case asn1_time_to_tm now (Some blank_tm) to_t True of
             (True, Some tm_to) \<Rightarrow> OPENSSL_gmtime_diff tm_from tm_to
           | _ \<Rightarrow> None)
      | _ \<Rightarrow> None)"

definition ASN1_TIME_to_time_t :: "int \<Rightarrow> nat \<Rightarrow> ASN1_STRING option \<Rightarrow> int option" where
  "ASN1_TIME_to_time_t now n t =
     (case asn1_time_to_tm now (Some blank_tm) t False of
        (True, Some tm1) \<Rightarrow> OPENSSL_timegm n tm1
      | _ \<Rightarrow> None)"

definition ASN1_TIME_to_posix :: "int \<Rightarrow> ASN1_STRING option \<Rightarrow> int option" where
  "ASN1_TIME_to_posix now t =
     (case asn1_time_to_tm now (Some blank_tm) t False of
        (True, Some tm1) \<Rightarrow> OPENSSL_tm_to_posix tm1
      | _ \<Rightarrow> None)"

section \<open>Digits\<close>

text \<open>The text of a number of two digits.\<close>

definition text2 :: "int \<Rightarrow> bytes" where
  "text2 v = [of_int (48 + v div 10), of_int (48 + v mod 10)]"

lemma digit_byte: "0 \<le> v \<Longrightarrow> v < 10 \<Longrightarrow> uint (of_int (48 + v) :: u8) = 48 + v"
proof -
  assume "0 \<le> v" "v < 10"
  then have "(48 + v) mod 2 ^ LENGTH(8) = 48 + v" by simp
  then show ?thesis by (simp only: uint_word_of_int)
qed

lemma two_digits_iff: "cbs_get_two_digits c = (Some v, c') \<longleftrightarrow> 0 \<le> v \<and> v \<le> 99 \<and> c = text2 v @ c'"
proof
  assume "cbs_get_two_digits c = (Some v, c')"
  then obtain a b where c: "c = a # b # c'" and digits: "48 \<le> uint a" "uint a \<le> 57" "48 \<le> uint b" "uint b \<le> 57"
    and v: "v = (uint a - 48) * 10 + (uint b - 48)"
    by (cases c; cases "tl c")
      (auto simp: cbs_get_two_digits_def OPENSSL_isdigit_def CBS_get_u8_Cons CBS_get_u8_Nil split: if_splits)
  have q: "v div 10 = uint a - 48" by (rule div_unique_int) (use digits in \<open>simp_all add: v\<close>)
  have r: "v mod 10 = uint b - 48"
    using minus_div_mult_eq_mod [of v 10, symmetric] unfolding q by (simp add: v)
  have "of_int (48 + v div 10) = a" "of_int (48 + v mod 10) = b" unfolding q r by simp_all
  then show "0 \<le> v \<and> v \<le> 99 \<and> c = text2 v @ c'" using digits by (simp add: text2_def c v)
next
  assume v: "0 \<le> v \<and> v \<le> 99 \<and> c = text2 v @ c'"
  then have r: "0 \<le> v div 10" "v div 10 < 10" "0 \<le> v mod 10" "v mod 10 < 10" by auto
  note d = digit_byte [OF r(1,2)] digit_byte [OF r(3,4)]
  have "v div 10 \<le> 9" "v mod 10 \<le> 9" using r by linarith+
  then show "cbs_get_two_digits c = (Some v, c')"
    using v r d by (simp add: cbs_get_two_digits_def text2_def CBS_get_u8_Cons OPENSSL_isdigit_def)
qed

lemma digits_that_iff:
  "digits_that ok c = (Some v, c') \<longleftrightarrow> ok v \<and> 0 \<le> v \<and> v \<le> 99 \<and> c = text2 v @ c'"
  by (auto simp: digits_that_def cbind_eq_Some two_digits_iff split: if_splits)

lemma dec_digits_2: "v \<le> 99 \<Longrightarrow> dec_digits v = (if v < 10 then [] else [of_nat (48 + v div 10)]) @ [of_nat (48 + v mod 10)]"
proof -
  assume "v \<le> 99"
  then have "v div 10 < 10" by linarith
  then show ?thesis by (subst dec_digits.simps, subst dec_digits.simps) simp
qed

lemma text2_int: "text2 (int n) = [of_nat (48 + n div 10), of_nat (48 + n mod 10)]"
proof -
  have "int n div 10 = int (n div 10)" "int n mod 10 = int (n mod 10)" by (simp_all add: zdiv_int zmod_int)
  then show ?thesis unfolding text2_def by simp
qed

lemma sprintf_2:
  assumes "0 \<le> v" "v \<le> 99"
  shows "sprintf_0d 2 v = text2 v"
proof -
  obtain n where "v = int n" using assms(1) nonneg_int_cases by blast
  then show ?thesis
    using assms by (auto simp: sprintf_0d_def Let_def dec_digits_2 text2_int numeral_2_eq_2 numeral_3_eq_3)
qed

lemma sprintf_4:
  assumes "0 \<le> v" "v \<le> 9999"
  shows "sprintf_0d 4 v = text2 (v div 100) @ text2 (v mod 100)"
proof -
  obtain n where v: "v = int n" using assms(1) nonneg_int_cases by blast
  have n: "n \<le> 9999" using assms v by simp
  have d: "n div 100 = n div 10 div 10" "n mod 100 div 10 = n div 10 mod 10" "n mod 100 mod 10 = n mod 10"
    by (simp_all add: div_mult2_eq [symmetric] mod_mult2_eq [of n 10 10, simplified]) 
  have int: "text2 (v div 100) = text2 (int (n div 100))" "text2 (v mod 100) = text2 (int (n mod 100))" by (simp_all add: v zdiv_int zmod_int)
  have two: "dec_digits k = (if k < 10 then [] else [of_nat (48 + k div 10)]) @ [of_nat (48 + k mod 10)]" if "k \<le> 99" for k
    using that by (rule dec_digits_2)
  show ?thesis
  proof (cases "n < 100")
    case True
    then show ?thesis
      using n unfolding int text2_int by (auto simp: sprintf_0d_def Let_def two v numeral_2_eq_2 numeral_3_eq_3)
  next
    case False
    have e: "dec_digits n = dec_digits (n div 100) @ [of_nat (48 + n mod 100 div 10), of_nat (48 + n mod 100 mod 10)]"
      using False dec_digits_snoc [of n] dec_digits_snoc [of "n div 10"] by (simp add: d)
    have "n div 100 \<le> 99" using n by simp
    then show ?thesis
      using False unfolding int text2_int by (auto simp: sprintf_0d_def Let_def e two v numeral_2_eq_2 numeral_3_eq_3)
  qed
qed

section \<open>The language of times\<close>

text \<open>The text of a date and a time behind the year.\<close>

definition rest_text :: "int \<Rightarrow> int \<Rightarrow> int \<Rightarrow> int \<Rightarrow> int \<Rightarrow> bytes" where
  "rest_text m d h mi s = text2 m @ text2 d @ text2 h @ text2 mi @ text2 s @ [90]"

definition gentime_text :: "int \<Rightarrow> int \<Rightarrow> int \<Rightarrow> int \<Rightarrow> int \<Rightarrow> int \<Rightarrow> bytes" where
  "gentime_text y m d h mi s = text2 (y div 100) @ text2 (y mod 100) @ rest_text m d h mi s"

definition utctime_text :: "int \<Rightarrow> int \<Rightarrow> int \<Rightarrow> int \<Rightarrow> int \<Rightarrow> int \<Rightarrow> bytes" where
  "utctime_text y m d h mi s = text2 (y mod 100) @ rest_text m d h mi s"

lemma is_valid_day_iff:
  assumes "0 \<le> y"
  shows "is_valid_day y m d \<longleftrightarrow> 1 \<le> m \<and> m \<le> 12 \<and> 1 \<le> d \<and> d \<le> month_days y m"
proof -
  have "m \<in> {1, 3, 5, 7, 8, 10, 12} \<or> m \<in> {4, 6, 9, 11} \<or> m = 2 \<longleftrightarrow> 1 \<le> m \<and> m \<le> 12" by (simp; presburger)
  then show ?thesis unfolding is_valid_day_def leap_smod [OF assms] by (auto simp: month_days_def)
qed

lemma length_text2 [simp]: "length (text2 v) = 2"
  by (simp add: text2_def)

lemma year_digits: "y = a * 100 + b \<and> 0 \<le> a \<and> a \<le> 99 \<and> 0 \<le> b \<and> b \<le> 99 \<longleftrightarrow>
    0 \<le> y \<and> y \<le> 9999 \<and> a = y div 100 \<and> b = y mod 100" for a b y :: int
proof
  assume l: "y = a * 100 + b \<and> 0 \<le> a \<and> a \<le> 99 \<and> 0 \<le> b \<and> b \<le> 99"
  then have "y div 100 = a" by (intro div_unique_int) auto
  then show "0 \<le> y \<and> y \<le> 9999 \<and> a = y div 100 \<and> b = y mod 100"
    using l minus_div_mult_eq_mod [of y 100] by auto
next
  assume r: "0 \<le> y \<and> y \<le> 9999 \<and> a = y div 100 \<and> b = y mod 100"
  have "0 \<le> y div 100" "y div 100 \<le> 99" "0 \<le> y mod 100" "y mod 100 \<le> 99" using r by auto
  then show "y = a * 100 + b \<and> 0 \<le> a \<and> a \<le> 99 \<and> 0 \<le> b \<and> b \<le> 99" using r by simp
qed

lemma utc_year_digits: "0 \<le> v \<and> v \<le> 99 \<and> \<not> y \<ge> 2050 \<and> y = (if 1900 + v < 1950 then 1900 + v + 100 else 1900 + v) \<longleftrightarrow>
    1950 \<le> y \<and> y < 2050 \<and> v = y mod 100" for v y :: int
proof
  assume l: "0 \<le> v \<and> v \<le> 99 \<and> \<not> y \<ge> 2050 \<and> y = (if 1900 + v < 1950 then 1900 + v + 100 else 1900 + v)"
  then consider "y = 1900 + v" | "y = 2000 + v" by (cases "v < 50") auto
  then have "y mod 100 = v"
  proof cases
    case 1
    then have "y div 100 = 19" using l by (intro div_unique_int) auto
    then show ?thesis using 1 minus_div_mult_eq_mod [of y 100] by simp
  next
    case 2
    then have "y div 100 = 20" using l by (intro div_unique_int) auto
    then show ?thesis using 2 minus_div_mult_eq_mod [of y 100] by simp
  qed
  then show "1950 \<le> y \<and> y < 2050 \<and> v = y mod 100" using l by (auto split: if_splits)
next
  assume r: "1950 \<le> y \<and> y < 2050 \<and> v = y mod 100"
  have "y div 100 = 19 \<or> y div 100 = 20" using r by auto
  then have "y = 1900 + v \<or> y = 2000 + v" using r minus_div_mult_eq_mod [of y 100] by auto
  then show "0 \<le> v \<and> v \<le> 99 \<and> \<not> y \<ge> 2050 \<and> y = (if 1900 + v < 1950 then 1900 + v + 100 else 1900 + v)"
    using r by auto
qed

lemma time_year_gen_iff:
  "time_year True c = (Some y, c') \<longleftrightarrow> 0 \<le> y \<and> y \<le> 9999 \<and> c = text2 (y div 100) @ text2 (y mod 100) @ c'"
proof -
  have "time_year True c = (Some y, c') \<longleftrightarrow>
      (\<exists>a b. c = text2 a @ text2 b @ c' \<and> (y = a * 100 + b \<and> 0 \<le> a \<and> a \<le> 99 \<and> 0 \<le> b \<and> b \<le> 99))"
    by (auto simp: time_year_def cbind_eq_Some two_digits_iff Let_def)
  then show ?thesis unfolding year_digits by auto
qed

lemma guard_Some: "(if b then (None, c) else (Some a, c)) = (Some y, c') \<longleftrightarrow> \<not> b \<and> a = y \<and> c = c'"
  by simp

lemma time_year_utc_iff:
  "time_year False c = (Some y, c') \<longleftrightarrow> 1950 \<le> y \<and> y < 2050 \<and> c = text2 (y mod 100) @ c'"
proof -
  have "time_year False c = (Some y, c') \<longleftrightarrow>
      (\<exists>v. c = text2 v @ c' \<and> (0 \<le> v \<and> v \<le> 99 \<and> \<not> y \<ge> 2050 \<and> y = (if 1900 + v < 1950 then 1900 + v + 100 else 1900 + v)))"
    unfolding time_year_def if_False cbind_eq_Some two_digits_iff Let_def guard_Some by blast
  then show ?thesis unfolding utc_year_digits by auto
qed

lemma time_zone_iff: "time_zone False c = (Some off, c') \<longleftrightarrow> off = 0 \<and> c = 90 # c'"
  by (cases c) (auto simp: time_zone_def cbind_eq_Some CBS_get_u8_Cons CBS_get_u8_Nil split: if_splits)

lemma month_days_le: "month_days y m \<le> 31"
  by (simp add: month_days_def)

lemma time_fields_iff:
  "time_fields g False c = (Some (y, m, d, h, mi, s, off), c') \<longleftrightarrow>
     off = 0 \<and> c' = [] \<and> is_valid_time h mi s \<and> is_valid_day y m d \<and> 1 \<le> m \<and> m \<le> 12 \<and> d \<le> 99 \<and>
     time_year g c = (Some y, rest_text m d h mi s)"
proof -
  have "time_fields g False c = (Some (y, m, d, h, mi, s, off), c') \<longleftrightarrow>
      (\<exists>c0 c1 c2 c3 c4 c5. time_year g c = (Some y, c0) \<and>
         (\<not> (m < 1 \<or> m > 12) \<and> 0 \<le> m \<and> m \<le> 99 \<and> c0 = text2 m @ c1) \<and>
         (is_valid_day y m d \<and> 0 \<le> d \<and> d \<le> 99 \<and> c1 = text2 d @ c2) \<and>
         (\<not> h > 23 \<and> 0 \<le> h \<and> h \<le> 99 \<and> c2 = text2 h @ c3) \<and>
         (\<not> mi > 59 \<and> 0 \<le> mi \<and> mi \<le> 99 \<and> c3 = text2 mi @ c4) \<and>
         (\<not> s > 59 \<and> 0 \<le> s \<and> s \<le> 99 \<and> c4 = text2 s @ c5) \<and>
         (off = 0 \<and> c5 = [90] \<and> c' = []))"
    unfolding time_fields_def cbind_eq_Some digits_that_iff time_zone_iff
    by (auto split: if_splits)
  moreover have "is_valid_day y m d \<Longrightarrow> 0 \<le> d" by (auto simp: is_valid_day_def split: if_splits)
  ultimately show ?thesis by (auto simp: is_valid_time_iff rest_text_def)
qed

lemma generalized_fields_iff:
  "time_fields True False c = (Some (y, m, d, h, mi, s, off), c') \<longleftrightarrow>
     off = 0 \<and> c' = [] \<and> is_valid_date y m d \<and> is_valid_time h mi s \<and> c = gentime_text y m d h mi s"
  using is_valid_day_iff [of y m d] month_days_le [of y m]
  by (auto simp: time_fields_iff time_year_gen_iff gentime_text_def is_valid_date_iff)

lemma utc_fields_iff:
  "time_fields False False c = (Some (y, m, d, h, mi, s, off), c') \<longleftrightarrow>
     off = 0 \<and> c' = [] \<and> 1950 \<le> y \<and> y < 2050 \<and> is_valid_date y m d \<and> is_valid_time h mi s \<and> c = utctime_text y m d h mi s"
  using is_valid_day_iff [of y m d] month_days_le [of y m]
  by (auto simp: time_fields_iff time_year_utc_iff utctime_text_def is_valid_date_iff)

section \<open>Printing\<close>

text \<open>The date and the time of a \<open>struct tm\<close> as the printers read it.\<close>

definition tm_ok :: "tm \<Rightarrow> bool" where
  "tm_ok t \<longleftrightarrow> is_valid_date (tm_year t + 1900) (tm_mon t + 1) (tm_mday t) \<and> is_valid_time (tm_hour t) (tm_min t) (tm_sec t)"

lemma tm_to_posix_ok: "OPENSSL_tm_to_posix t = Some p \<Longrightarrow> tm_ok t"
  by (auto simp: OPENSSL_tm_to_posix_def tm_ok_def dest: posix_time_Some(1,2))

lemma posix_to_tm_ok: "OPENSSL_posix_to_tm p = Some t \<Longrightarrow> tm_ok t"
  by (auto simp: posix_to_tm_iff intro: tm_to_posix_ok)

lemma two_bounds:
  assumes "is_valid_date y m d" "is_valid_time h mi s"
  shows "sprintf_0d 2 m @ sprintf_0d 2 d @ sprintf_0d 2 h @ sprintf_0d 2 mi @ sprintf_0d 2 s @ [90] = rest_text m d h mi s"
  using assms month_days_le [of y m] by (simp add: is_valid_date_iff is_valid_time_iff sprintf_2 rest_text_def)

lemma print_gen:
  "tm_ok t \<Longrightarrow>
    sprintf_0d 4 (tm_year t + 1900) @ sprintf_0d 2 (tm_mon t + 1) @ sprintf_0d 2 (tm_mday t) @
      sprintf_0d 2 (tm_hour t) @ sprintf_0d 2 (tm_min t) @ sprintf_0d 2 (tm_sec t) @ [90] =
    gentime_text (tm_year t + 1900) (tm_mon t + 1) (tm_mday t) (tm_hour t) (tm_min t) (tm_sec t)"
  unfolding tm_ok_def by (simp only: two_bounds [of "tm_year t + 1900"]) (simp add: sprintf_4 gentime_text_def is_valid_date_iff)

lemma print_utc:
  assumes "tm_ok t" "50 \<le> tm_year t" "tm_year t < 150"
  shows "sprintf_0d 2 (tm_year t smod 100) @ sprintf_0d 2 (tm_mon t + 1) @ sprintf_0d 2 (tm_mday t) @
      sprintf_0d 2 (tm_hour t) @ sprintf_0d 2 (tm_min t) @ sprintf_0d 2 (tm_sec t) @ [90] =
    utctime_text (tm_year t + 1900) (tm_mon t + 1) (tm_mday t) (tm_hour t) (tm_min t) (tm_sec t)"
proof -
  have "(tm_year t + 1900) mod 100 = tm_year t mod 100"
    using mod_mult_self1 [of "tm_year t" 19 100] by simp
  moreover have "tm_year t smod 100 = tm_year t mod 100" using assms(2) by (intro smod_nonneg) auto
  moreover have "0 \<le> tm_year t mod 100" "tm_year t mod 100 \<le> 99" by simp_all
  ultimately show ?thesis
    using assms(1) unfolding tm_ok_def
    by (simp only: two_bounds [of "tm_year t + 1900"]) (simp add: sprintf_2 utctime_text_def)
qed

lemma parse_fields:
  "time_fields g False c = (Some (y, m, d, h, mi, s, 0), c') \<Longrightarrow>
    CBS_parse_rfc5280_time_internal c g False out =
      (True, map_option (\<lambda>t. t\<lparr>tm_year := y - 1900, tm_mon := m - 1, tm_mday := d, tm_hour := h, tm_min := mi, tm_sec := s\<rparr>) out)"
  by (cases out) (simp_all add: CBS_parse_rfc5280_time_internal_def Let_def)

lemma parse_gen:
  "tm_ok t \<Longrightarrow> CBS_parse_generalized_time
      (gentime_text (tm_year t + 1900) (tm_mon t + 1) (tm_mday t) (tm_hour t) (tm_min t) (tm_sec t)) out False =
    (True, map_option (\<lambda>t0. t0\<lparr>tm_year := tm_year t, tm_mon := tm_mon t, tm_mday := tm_mday t,
       tm_hour := tm_hour t, tm_min := tm_min t, tm_sec := tm_sec t\<rparr>) out)"
  unfolding CBS_parse_generalized_time_def
  by (subst parse_fields [of _ _ "tm_year t + 1900" "tm_mon t + 1" "tm_mday t" "tm_hour t" "tm_min t" "tm_sec t" "[]"])
    (simp_all add: generalized_fields_iff tm_ok_def)

lemma parse_utc:
  "tm_ok t \<Longrightarrow> 50 \<le> tm_year t \<Longrightarrow> tm_year t < 150 \<Longrightarrow> CBS_parse_utc_time
      (utctime_text (tm_year t + 1900) (tm_mon t + 1) (tm_mday t) (tm_hour t) (tm_min t) (tm_sec t)) out False =
    (True, map_option (\<lambda>t0. t0\<lparr>tm_year := tm_year t, tm_mon := tm_mon t, tm_mday := tm_mday t,
       tm_hour := tm_hour t, tm_min := tm_min t, tm_sec := tm_sec t\<rparr>) out)"
  unfolding CBS_parse_utc_time_def
  by (subst parse_fields [of _ _ "tm_year t + 1900" "tm_mon t + 1" "tm_mday t" "tm_hour t" "tm_min t" "tm_sec t" "[]"])
    (simp_all add: utc_fields_iff tm_ok_def)

text \<open>Storing a text that was printed.\<close>

lemma set_time_text_total:
  assumes "alloc_ok malloc" "\<And>n. malloc n \<noteq> None" "length buf = n" "n \<le> 15"
    "case s of None \<Rightarrow> new_ok | Some s \<Rightarrow> string_ok s"
  obtains s' where "set_time_text malloc new_ok s buf n ty = Returns (Some s')" "string_ok s'" "as_bytes s' = buf"
    "as_type s' = ty" "as_length s' = n" "\<exists>b. as_data s' = Some b \<and> n < length b \<and> b ! n = 0"
proof -
  define s0 where "s0 = (case s of Some s \<Rightarrow> s | None \<Rightarrow> ASN1_STRING_type_new V_ASN1_UTCTIME)"
  have ok: "string_ok s0" using assms(5) by (auto simp: s0_def split: option.splits)
  have sel: "(case s of Some s \<Rightarrow> Some s | None \<Rightarrow> if new_ok then Some (ASN1_STRING_type_new V_ASN1_UTCTIME) else None) = Some s0"
    using assms(5) by (auto simp: s0_def split: option.splits)
  have "length buf \<le> ASN1_STRING_MAX" using assms(3,4) by (simp add: ASN1_STRING_MAX_def)
  then obtain s1 where s1: "ASN1_STRING_set malloc s0 (Some (buf @ [0])) (int (length buf)) = (Some (), s1)"
    using string_set_total [of "length buf" malloc s0 "buf @ [0]"] assms(2) by blast
  have "length buf \<le> length (buf @ [0])" by simp
  note set = string_set [OF assms(1) ok this s1]
  show ?thesis
  proof (rule that)
    show "set_time_text malloc new_ok s buf n ty = Returns (Some (s1\<lparr>as_type := ty\<rparr>))"
      using assms(3) s1 by (simp add: set_time_text_def sel)
  qed (use set assms(3) in auto)
qed

lemma text_lengths: "length (gentime_text y m d h mi s) = 15" "length (utctime_text y m d h mi s) = 13"
  by (simp_all add: gentime_text_def utctime_text_def rest_text_def)

lemma posix_of_fields:
  "OPENSSL_tm_to_posix (t0\<lparr>tm_year := tm_year t, tm_mon := tm_mon t, tm_mday := tm_mday t,
     tm_hour := tm_hour t, tm_min := tm_min t, tm_sec := tm_sec t\<rparr>) = OPENSSL_tm_to_posix t"
  by (simp add: OPENSSL_tm_to_posix_def)

lemma utc_object:
  assumes "tm_ok t" "fits_in_utc_time t" "as_type s = V_ASN1_UTCTIME"
    "as_bytes s = utctime_text (tm_year t + 1900) (tm_mon t + 1) (tm_mday t) (tm_hour t) (tm_min t) (tm_sec t)"
  shows "ASN1_TIME_to_posix now (Some s) = OPENSSL_tm_to_posix t"
  using assms parse_utc [OF assms(1)]
  by (simp add: ASN1_TIME_to_posix_def asn1_time_to_tm_def asn1_utctime_to_tm_def fits_in_utc_time_def posix_of_fields)

lemma gen_object:
  assumes "tm_ok t" "as_type s = V_ASN1_GENERALIZEDTIME"
    "as_bytes s = gentime_text (tm_year t + 1900) (tm_mon t + 1) (tm_mday t) (tm_hour t) (tm_min t) (tm_sec t)"
  shows "ASN1_TIME_to_posix now (Some s) = OPENSSL_tm_to_posix t"
  using assms parse_gen [OF assms(1)]
  by (simp add: ASN1_TIME_to_posix_def asn1_time_to_tm_def asn1_generalizedtime_to_tm_def posix_of_fields asn1_types)

lemma adjusted:
  assumes "is_valid_posix_time p" "- (2 ^ 31) \<le> day" "day < 2 ^ 31" "INT64_MIN \<le> sec" "sec \<le> INT64_MAX"
  shows "adjusted_tm p day sec = OPENSSL_posix_to_tm (p + day * 86400 + sec)"
proof -
  obtain t where t: "OPENSSL_posix_to_tm p = Some t" using assms(1) posix_to_tm_valid by blast
  then have "OPENSSL_tm_to_posix t = Some p" by (simp add: posix_to_tm_iff)
  then show ?thesis using t gmtime_adj_eq [OF _ assms(2-5)] by (simp add: adjusted_tm_def)
qed

text \<open>
  C31: \<open>ASN1_TIME_adj\<close> never aborts; it prints the moved time, as a UTCTime exactly for the years 1950 to 2049 and as a
  GeneralizedTime otherwise, which \<open>ASN1_TIME_to_posix\<close> reads back, and fails exactly when the moved time
  lies outside the years 0 to 9999.
\<close>

theorem asn1_time_roundtrip:
  assumes "alloc_ok malloc" "\<And>n. malloc n \<noteq> None" "case s of None \<Rightarrow> new_ok | Some s \<Rightarrow> string_ok s"
    "is_valid_posix_time p" "- (2 ^ 31) \<le> day" "day < 2 ^ 31" "INT64_MIN \<le> sec" "sec \<le> INT64_MAX"
  defines "q \<equiv> p + day * 86400 + sec"
  shows "case ASN1_TIME_adj malloc new_ok s p day sec of
      Aborts \<Rightarrow> False
    | Returns None \<Rightarrow> \<not> is_valid_posix_time q
    | Returns (Some s') \<Rightarrow> ASN1_TIME_to_posix now (Some s') = Some q \<and> string_ok s' \<and>
        (\<exists>t. OPENSSL_posix_to_tm q = Some t \<and>
           as_type s' = (if 1950 \<le> tm_year t + 1900 \<and> tm_year t + 1900 < 2050 then V_ASN1_UTCTIME else V_ASN1_GENERALIZEDTIME))"
proof (cases "OPENSSL_posix_to_tm q")
  case None
  then show ?thesis
    using adjusted [OF assms(4-8)] posix_to_tm_valid [of q] by (simp add: ASN1_TIME_adj_def q_def)
next
  case (Some t)
  have adj: "adjusted_tm p day sec = Some t" using adjusted [OF assms(4-8)] Some by (simp add: q_def)
  have ok: "tm_ok t" and q: "OPENSSL_tm_to_posix t = Some q" using Some posix_to_tm_ok by (simp_all add: posix_to_tm_iff)
  let ?utc = "utctime_text (tm_year t + 1900) (tm_mon t + 1) (tm_mday t) (tm_hour t) (tm_min t) (tm_sec t)"
  let ?gen = "gentime_text (tm_year t + 1900) (tm_mon t + 1) (tm_mday t) (tm_hour t) (tm_min t) (tm_sec t)"
  show ?thesis
  proof (cases "fits_in_utc_time t")
    case True
    obtain s' where s': "set_time_text malloc new_ok s ?utc 13 V_ASN1_UTCTIME = Returns (Some s')" "string_ok s'"
      "as_bytes s' = ?utc" "as_type s' = V_ASN1_UTCTIME"
      by (rule set_time_text_total [OF assms(1,2) _ _ assms(3), of ?utc 13 V_ASN1_UTCTIME]) (auto simp: text_lengths)
    have "ASN1_TIME_adj malloc new_ok s p day sec = Returns (Some s')"
      using True print_utc [OF ok] s'(1) by (auto simp: ASN1_TIME_adj_def ASN1_UTCTIME_adj_def adj fits_in_utc_time_def)
    then show ?thesis using utc_object [OF ok True s'(4,3)] s' q Some True by (auto simp: fits_in_utc_time_def)
  next
    case False
    obtain s' where s': "set_time_text malloc new_ok s ?gen 15 V_ASN1_GENERALIZEDTIME = Returns (Some s')" "string_ok s'"
      "as_bytes s' = ?gen" "as_type s' = V_ASN1_GENERALIZEDTIME"
      by (rule set_time_text_total [OF assms(1,2) _ _ assms(3), of ?gen 15 V_ASN1_GENERALIZEDTIME]) (auto simp: text_lengths)
    have "\<not> (tm_year t < 0 - 1900 \<or> tm_year t > 9999 - 1900)" using ok by (auto simp: tm_ok_def is_valid_date_iff)
    then have "ASN1_TIME_adj malloc new_ok s p day sec = Returns (Some s')"
      using False print_gen [OF ok] s'(1) by (simp add: ASN1_TIME_adj_def ASN1_GENERALIZEDTIME_adj_def adj)
    then show ?thesis using gen_object [OF ok s'(4,3)] s' q Some False by (auto simp: fits_in_utc_time_def)
  qed
qed

lemma asn1_time_roundtrip_witness:
  "case ASN1_TIME_adj (\<lambda>n. Some (replicate n 0)) True None 1709164800 1 3600 of
      Aborts \<Rightarrow> False
    | Returns None \<Rightarrow> \<not> is_valid_posix_time (1709164800 + 1 * 86400 + 3600)
    | Returns (Some s') \<Rightarrow> ASN1_TIME_to_posix 0 (Some s') = Some (1709164800 + 1 * 86400 + 3600) \<and> string_ok s' \<and>
        (\<exists>t. OPENSSL_posix_to_tm (1709164800 + 1 * 86400 + 3600) = Some t \<and>
           as_type s' = (if 1950 \<le> tm_year t + 1900 \<and> tm_year t + 1900 < 2050 then V_ASN1_UTCTIME else V_ASN1_GENERALIZEDTIME))"
  by (rule asn1_time_roundtrip)
    (simp_all add: alloc_ok_def is_valid_posix_time_def MIN_POSIX_TIME_def MAX_POSIX_TIME_def time_defs)

section \<open>Accepted strings and conversion\<close>

lemma parse_strict:
  "CBS_parse_rfc5280_time_internal c g False out =
    (case time_fields g False c of
       (Some (y, m, d, h, mi, s, _), _) \<Rightarrow>
         (True, map_option (\<lambda>t. t\<lparr>tm_year := y - 1900, tm_mon := m - 1, tm_mday := d, tm_hour := h, tm_min := mi, tm_sec := s\<rparr>) out)
     | (None, _) \<Rightarrow> (False, out))"
proof (cases "time_fields g False c")
  case (Pair r c')
  show ?thesis
  proof (cases r)
    case None
    then show ?thesis by (simp add: Pair CBS_parse_rfc5280_time_internal_def)
  next
    case (Some f)
    obtain y m d h mi s off where f: "f = (y, m, d, h, mi, s, off)" by (cases f) auto
    then have fields: "time_fields g False c = (Some (y, m, d, h, mi, s, off), c')" by (simp add: Pair Some)
    then have "off = 0" by (simp add: time_fields_iff)
    then show ?thesis using parse_fields [of g c y m d h mi s c' out] fields by simp
  qed
qed

lemma parse_strict_ok:
  "fst (CBS_parse_rfc5280_time_internal c g False out) \<longleftrightarrow>
     (\<exists>y m d h mi s off c'. time_fields g False c = (Some (y, m, d, h, mi, s, off), c'))"
  by (cases "time_fields g False c"; cases "fst (time_fields g False c)") (auto simp: parse_strict)

text \<open>
  without the offsets that RFC 5280 forbids, the time parsers accept exactly the texts of valid dates and times:
  \<^verbatim>\<open>YYYYMMDDHHMMSSZ\<close> of any year for GeneralizedTime, and \<^verbatim>\<open>YYMMDDHHMMSSZ\<close> of the years 1950 to 2049 for UTCTime.
\<close>

theorem time_parsers_canonical:
  "(fst (CBS_parse_generalized_time c out False) \<longleftrightarrow>
      (\<exists>y m d h mi s. is_valid_date y m d \<and> is_valid_time h mi s \<and> c = gentime_text y m d h mi s)) \<and>
   (fst (CBS_parse_utc_time c out False) \<longleftrightarrow>
      (\<exists>y m d h mi s. 1950 \<le> y \<and> y < 2050 \<and> is_valid_date y m d \<and> is_valid_time h mi s \<and> c = utctime_text y m d h mi s))"
  unfolding CBS_parse_generalized_time_def CBS_parse_utc_time_def parse_strict_ok generalized_fields_iff utc_fields_iff
  by simp

text \<open>The block after \<open>ASN1_STRING_set\<close> with a null pointer.\<close>

lemma string_set_null:
  assumes "alloc_ok malloc" "string_ok s" "n \<le> ASN1_STRING_MAX" "\<And>k. malloc k \<noteq> None"
  obtains b where "ASN1_STRING_set malloc s None (int n) = (Some (), s\<lparr>as_length := n, as_data := Some b\<rparr>)" "n < length b"
proof -
  define r where "r = (if as_length s \<le> n \<or> as_data s = None then OPENSSL_realloc malloc (as_data s) (n + 1) else as_data s)"
  have "r \<noteq> None" using assms(4) [of "n + 1"] by (auto simp: r_def OPENSSL_realloc_def Let_def split: option.splits)
  then obtain b where b: "r = Some b" by auto
  have "n < length b"
    using b assms(2) realloc_length [OF assms(1), of "as_data s" "n + 1" b] by (auto simp: r_def string_ok_def split: if_splits option.splits)
  moreover have "ASN1_STRING_set malloc s None (int n) = (Some (), s\<lparr>as_length := n, as_data := Some b\<rparr>)"
    using assms(3) b by (simp add: ASN1_STRING_set_def r_def [symmetric])
  ultimately show ?thesis by (rule that [rotated])
qed

lemma takeWhile_nonzero:
  "as_data t = Some b \<Longrightarrow> as_length t < length b \<Longrightarrow> b ! as_length t = 0 \<Longrightarrow> 0 \<notin> set (as_bytes t) \<Longrightarrow>
    takeWhile (\<lambda>c. c \<noteq> 0) b = as_bytes t"
  by (rule takeWhile_eq_take_P_nth [where n = "as_length t" and xs = b, simplified, THEN trans])
    (auto simp: as_bytes_def in_set_conv_nth)

lemma century_text:
  assumes "1950 \<le> y" "y < 2050"
  shows "(if utctime_text y m d h mi s ! 0 \<ge> 53 then [49, 57] else [50, 48]) @ utctime_text y m d h mi s = gentime_text y m d h mi s"
proof -
  define a where "a = y mod 100 div 10"
  have a: "0 \<le> a" "a < 10" by (auto simp: a_def)
  have head: "utctime_text y m d h mi s ! 0 = of_int (48 + a)" by (simp add: utctime_text_def text2_def a_def)
  have ge: "(of_int (48 + a) :: u8) \<ge> 53 \<longleftrightarrow> 5 \<le> a"
    using digit_byte [OF a] by (simp add: word_le_def)
  consider "y < 2000" | "2000 \<le> y" by linarith
  then show ?thesis
  proof cases
    case 1
    then have q: "y div 100 = 19" using assms by (intro div_unique_int) auto
    then have "50 \<le> y mod 100" using assms minus_div_mult_eq_mod [of y 100] by simp
    then have "5 \<le> a" by (simp add: a_def)
    then show ?thesis unfolding head ge by (simp add: gentime_text_def utctime_text_def q text2_def)
  next
    case 2
    then have q: "y div 100 = 20" using assms by (intro div_unique_int) auto
    then have "y mod 100 < 50" using assms minus_div_mult_eq_mod [of y 100] by simp
    then have "\<not> 5 \<le> a" by (simp add: a_def)
    then show ?thesis unfolding head ge by (simp add: gentime_text_def utctime_text_def q text2_def)
  qed
qed

lemma strlcat_loop_spec:
  "0 \<notin> set xs \<Longrightarrow> length xs < n \<Longrightarrow> strlcat_loop l (xs @ 0 # ys) n = (l + length xs, n - length xs)"
proof (induction xs arbitrary: l n)
  case Nil
  then show ?case by (cases n) simp_all
next
  case (Cons x xs)
  then show ?case by (cases n) auto
qed

text \<open>The converted string is the century and the old string, whatever that string is.\<close>

lemma to_generalizedtime_bytes:
  assumes "alloc_ok malloc" "\<And>k. malloc k \<noteq> None" "string_ok ret" "as_length t + 2 \<le> ASN1_STRING_MAX"
    "ASN1_TIME_check t" "as_type t = V_ASN1_UTCTIME" "as_data t = Some b" "as_length t < length b" "b ! as_length t = 0"
    "0 \<notin> set (as_bytes t)"
  obtains ret' where "ASN1_TIME_to_generalizedtime malloc t ret = (Some (), ret')" "string_ok ret'" "as_type ret' = as_type ret"
    "as_bytes ret' = (if as_bytes t ! 0 \<ge> 53 then [49, 57] else [50, 48]) @ as_bytes t"
proof -
  let ?n = "as_length t"
  define c where "c = (if as_bytes t ! 0 \<ge> 53 then [49, 57] else [50, 48] :: bytes)"
  obtain blk where blk0: "ASN1_STRING_set malloc ret None (int (?n + 2)) = (Some (), ret\<lparr>as_length := ?n + 2, as_data := Some blk\<rparr>)"
    "?n + 2 < length blk"
    by (rule string_set_null [OF assms(1,3,4,2)])
  have blk: "ASN1_STRING_set malloc ret None (int ?n + 2) = (Some (), ret\<lparr>as_length := ?n + 2, as_data := Some blk\<rparr>)"
    using blk0(1) by (simp add: add.commute)
  have len: "length (as_bytes t) = ?n" using assms(7,8) by (simp add: as_bytes_def)
  have c: "length c = 2" "0 \<notin> set c" by (auto simp: c_def)
  have cpy: "snd (OPENSSL_strlcpy c (?n + 2 + 1)) = c @ [0]"
    using Mem.OPENSSL_strlcpy_prefix [of c "?n + 2 + 1"] c(1) by simp
  have str1: "copy_at blk 0 (c @ [0]) = c @ 0 # drop 3 blk" using c(1) by (simp add: copy_at_def)
  have loop: "strlcat_loop 0 (c @ 0 # drop 3 blk) (?n + 2 + 1) = (2, ?n + 1)"
    using strlcat_loop_spec [OF c(2), of "?n + 2 + 1" 0 "drop 3 blk"] c(1) by simp
  have src: "takeWhile (\<lambda>c. c \<noteq> 0) b = as_bytes t" by (rule takeWhile_nonzero [OF assms(7-10)])
  have cat: "snd (OPENSSL_strlcat (c @ 0 # drop 3 blk) (as_bytes t) (?n + 2 + 1)) =
      copy_at (c @ 0 # drop 3 blk) 2 (as_bytes t @ [0])"
    using Mem.OPENSSL_strlcpy_prefix [of "as_bytes t" "?n + 1"] len
    unfolding OPENSSL_strlcat_def loop by (simp split: prod.splits) (metis snd_conv)
  define out where "out = copy_at (c @ 0 # drop 3 blk) 2 (as_bytes t @ [0])"
  have res: "ASN1_TIME_to_generalizedtime malloc t ret = (Some (), ret\<lparr>as_length := ?n + 2, as_data := Some out\<rparr>)"
    unfolding ASN1_TIME_to_generalizedtime_def Let_def
    unfolding blk cbind_Some c_def [symmetric] out_def
    using assms(5,6) by (simp add: asn1_types assms(7) cpy [simplified] str1 src cat [simplified])
  have "take (?n + 2) out = c @ as_bytes t" "?n + 2 \<le> length out"
    using c(1) len blk0(2) by (simp_all add: out_def copy_at_def)
  then show ?thesis
    by (intro that [OF res]) (simp_all add: string_ok_def as_bytes_def c_def)
qed

lemma text_no_zero: "0 \<le> v \<Longrightarrow> v \<le> 99 \<Longrightarrow> 0 \<notin> set (text2 v)"
proof -
  assume v: "0 \<le> v" "v \<le> 99"
  then have r: "0 \<le> v div 10" "v div 10 < 10" "0 \<le> v mod 10" "v mod 10 < 10" by auto
  have "(of_int (48 + k) :: u8) \<noteq> 0" if "0 \<le> k" "k < 10" for k :: int
  proof
    assume "(of_int (48 + k) :: u8) = 0"
    then have "uint (of_int (48 + k) :: u8) = 0" by (simp only:) simp
    then show False using digit_byte [OF that] that by simp
  qed
  then show ?thesis using r unfolding text2_def by (metis empty_iff empty_set set_ConsD)
qed

lemma utctime_no_zero:
  "is_valid_date y m d \<Longrightarrow> is_valid_time h mi s \<Longrightarrow> 0 \<notin> set (utctime_text y m d h mi s)"
  using month_days_le [of y m] text_no_zero [of "y mod 100"] text_no_zero [of m] text_no_zero [of d] text_no_zero [of h]
    text_no_zero [of mi] text_no_zero [of s]
  by (simp add: utctime_text_def rest_text_def is_valid_date_iff is_valid_time_iff)

end
