(* ===== verification/TimeConversion.thy ===== *)
theory TimeConversion
  imports Asn1Time
begin

text \<open>
  What the conversion of \<open>a_time.c\<close> from UTCTime to GeneralizedTime keeps, and the times with a zone offset that the
  parser of \<open>crypto/bytestring/cbs.c\<close> still accepts.
\<close>

section \<open>Strict times\<close>

lemma utctime_strict:
  assumes "as_type t = V_ASN1_UTCTIME" "ASN1_TIME_to_posix now (Some t) = Some p"
  obtains tm where "tm_ok tm" "fits_in_utc_time tm" "OPENSSL_tm_to_posix tm = Some p"
    "as_bytes t = utctime_text (tm_year tm + 1900) (tm_mon tm + 1) (tm_mday tm) (tm_hour tm) (tm_min tm) (tm_sec tm)"
proof -
  obtain tm where parse: "CBS_parse_utc_time (as_bytes t) (Some blank_tm) False = (True, Some tm)"
    and p: "OPENSSL_tm_to_posix tm = Some p"
    using assms by (auto simp: ASN1_TIME_to_posix_def asn1_time_to_tm_def asn1_utctime_to_tm_def
        split: prod.splits bool.splits option.splits)
  then obtain y m d h mi s off c' where fields: "time_fields False False (as_bytes t) = (Some (y, m, d, h, mi, s, off), c')"
    using parse_strict_ok [of "as_bytes t" False "Some blank_tm"] by (auto simp: CBS_parse_utc_time_def)
  then have tm: "tm = blank_tm\<lparr>tm_year := y - 1900, tm_mon := m - 1, tm_mday := d, tm_hour := h, tm_min := mi, tm_sec := s\<rparr>"
    using parse by (simp add: CBS_parse_utc_time_def parse_strict)
  have "fits_in_utc_time tm" "as_bytes t = utctime_text (tm_year tm + 1900) (tm_mon tm + 1) (tm_mday tm) (tm_hour tm) (tm_min tm) (tm_sec tm)"
    using fields unfolding utc_fields_iff by (auto simp: tm fits_in_utc_time_def)
  then show ?thesis using that tm_to_posix_ok [OF p] p by blast
qed

text \<open>A string without an offset is read the same way whether offsets are allowed or not.\<close>

lemma time_zone_strict: "time_zone False c = (Some off, c') \<Longrightarrow> time_zone True c = (Some off, c')"
  unfolding time_zone_iff by (simp add: time_zone_def CBS_get_u8_Cons)

lemma cbind_mono:
  "cbind m f = (Some v, c) \<Longrightarrow> (\<And>x s. f x s = (Some v, c) \<Longrightarrow> g x s = (Some v, c)) \<Longrightarrow> cbind m g = (Some v, c)"
  by (auto simp: cbind_eq_Some)

lemma cbind_mono2:
  "cbind m f = (Some v, c) \<Longrightarrow> (\<And>x s. m = (Some x, s) \<Longrightarrow> m' = (Some x, s)) \<Longrightarrow> cbind m' f = (Some v, c)"
  by (auto simp: cbind_eq_Some)

lemma time_fields_strict: "time_fields g False c = (Some f, c') \<Longrightarrow> time_fields g True c = (Some f, c')"
  unfolding time_fields_def by (rule cbind_mono, assumption)+ (erule cbind_mono2 [OF _ time_zone_strict], simp)

lemma parse_zoneless:
  assumes "tm_ok t" "50 \<le> tm_year t" "tm_year t < 150"
  shows "fst (CBS_parse_rfc5280_time_internal
      (utctime_text (tm_year t + 1900) (tm_mon t + 1) (tm_mday t) (tm_hour t) (tm_min t) (tm_sec t)) False True None)"
proof -
  have "time_fields False False (utctime_text (tm_year t + 1900) (tm_mon t + 1) (tm_mday t) (tm_hour t) (tm_min t) (tm_sec t)) =
      (Some (tm_year t + 1900, tm_mon t + 1, tm_mday t, tm_hour t, tm_min t, tm_sec t, 0), [])"
    using assms by (simp add: utc_fields_iff tm_ok_def)
  then show ?thesis by (simp add: CBS_parse_rfc5280_time_internal_def time_fields_strict)
qed

text \<open>
  the conversion to GeneralizedTime of a UTCTime without a zone offset succeeds, passes
  \<open>ASN1_GENERALIZEDTIME_check\<close> and denotes the same POSIX time.
\<close>

theorem to_generalizedtime_keeps_time:
  assumes "alloc_ok malloc" "\<And>k. malloc k \<noteq> None" "string_ok ret" "as_type ret = V_ASN1_GENERALIZEDTIME"
    "as_type t = V_ASN1_UTCTIME" "as_data t = Some b" "as_length t < length b" "b ! as_length t = 0"
    "ASN1_TIME_to_posix now (Some t) = Some p"
  shows "\<exists>ret'. ASN1_TIME_to_generalizedtime malloc t ret = (Some (), ret') \<and> string_ok ret' \<and>
    ASN1_GENERALIZEDTIME_check ret' \<and> ASN1_TIME_to_posix now (Some ret') = Some p"
proof -
  obtain tm where tm: "tm_ok tm" "fits_in_utc_time tm" "OPENSSL_tm_to_posix tm = Some p"
    "as_bytes t = utctime_text (tm_year tm + 1900) (tm_mon tm + 1) (tm_mday tm) (tm_hour tm) (tm_min tm) (tm_sec tm)"
    using utctime_strict [OF assms(5,9)] by blast
  have y: "1950 \<le> tm_year tm + 1900" "tm_year tm + 1900 < 2050" using tm(2) by (auto simp: fits_in_utc_time_def)
  have len: "as_length t = 13"
    using arg_cong [OF tm(4), of length] assms(6,7) by (simp add: text_lengths as_bytes_def)
  have valid: "is_valid_date (tm_year tm + 1900) (tm_mon tm + 1) (tm_mday tm)" "is_valid_time (tm_hour tm) (tm_min tm) (tm_sec tm)"
    using tm(1) by (simp_all add: tm_ok_def)
  have "fst (asn1_utctime_to_tm None t True)"
    using parse_zoneless [OF tm(1)] tm(2) assms(5)
    by (simp add: asn1_utctime_to_tm_def CBS_parse_utc_time_def tm(4) fits_in_utc_time_def)
  then have check: "ASN1_TIME_check t" using assms(5) by (simp add: ASN1_TIME_check_def ASN1_UTCTIME_check_def asn1_types)
  obtain ret' where ret': "ASN1_TIME_to_generalizedtime malloc t ret = (Some (), ret')" "string_ok ret'" "as_type ret' = as_type ret"
    "as_bytes ret' = (if as_bytes t ! 0 \<ge> 53 then [49, 57] else [50, 48]) @ as_bytes t"
    using to_generalizedtime_bytes [OF assms(1,2,3) _ check assms(5,6,7,8)] utctime_no_zero [OF valid] len tm(4)
    by (auto simp: ASN1_STRING_MAX_def)
  have gen: "as_bytes ret' = gentime_text (tm_year tm + 1900) (tm_mon tm + 1) (tm_mday tm) (tm_hour tm) (tm_min tm) (tm_sec tm)"
    using ret'(4) century_text [OF y] by (simp add: tm(4))
  have ty: "as_type ret' = V_ASN1_GENERALIZEDTIME" using ret'(3) assms(4) by simp
  have "ASN1_GENERALIZEDTIME_check ret'"
    using parse_gen [OF tm(1), of None] ty
    by (simp add: ASN1_GENERALIZEDTIME_check_def asn1_generalizedtime_to_tm_def gen)
  then show ?thesis using ret'(1,2) gen_object [OF tm(1) ty gen] tm(3) by auto
qed

section \<open>Zone offsets\<close>

text \<open>A UTCTime with a zone offset \<open>sign\<close> (43 or 45, plus or minus) \<open>oh\<close> hours and \<open>om\<close> minutes.\<close>

definition offset_text :: "int \<Rightarrow> int \<Rightarrow> int \<Rightarrow> int \<Rightarrow> int \<Rightarrow> int \<Rightarrow> u8 \<Rightarrow> int \<Rightarrow> int \<Rightarrow> bytes" where
  "offset_text y m d h mi s sign oh om =
     text2 (y mod 100) @ text2 m @ text2 d @ text2 h @ text2 mi @ text2 s @ sign # text2 oh @ text2 om"

definition zone_seconds :: "u8 \<Rightarrow> int \<Rightarrow> int \<Rightarrow> int" where
  "zone_seconds sign oh om = (if sign = 43 then 1 else -1) * (oh * 3600 + om * 60)"

lemma time_zone_offset:
  assumes "sign \<in> {43, 45}" "0 \<le> oh" "oh \<le> 23" "0 \<le> om" "om \<le> 59"
  shows "time_zone True (sign # text2 oh @ text2 om) = (Some (zone_seconds sign oh om), [])"
proof -
  have "digits_that (\<lambda>h. \<not> h > 23) (text2 oh @ text2 om) = (Some oh, text2 om)"
    "digits_that (\<lambda>h. \<not> h > 59) (text2 om) = (Some om, [])"
    using assms two_digits_iff [of "text2 om" om "[]"] by (auto simp: digits_that_iff)
  then show ?thesis using assms(1) by (auto simp: time_zone_def CBS_get_u8_Cons zone_seconds_def)
qed

lemma digits_text: "0 \<le> v \<Longrightarrow> v \<le> 99 \<Longrightarrow> ok v \<Longrightarrow> digits_that ok (text2 v @ c) = (Some v, c)"
  by (simp add: digits_that_iff)

lemma offset_fields:
  assumes "1950 \<le> y" "y < 2050" "is_valid_date y m d" "is_valid_time h mi s"
    "sign \<in> {43, 45}" "0 \<le> oh" "oh \<le> 23" "0 \<le> om" "om \<le> 59"
  shows "time_fields False True (offset_text y m d h mi s sign oh om) = (Some (y, m, d, h, mi, s, zone_seconds sign oh om), [])"
proof -
  have r: "1 \<le> m" "m \<le> 12" "1 \<le> d" "d \<le> 99" "is_valid_day y m d" "0 \<le> h" "h \<le> 23" "0 \<le> mi" "mi \<le> 59" "0 \<le> s" "s \<le> 59"
    using assms(1-4) is_valid_day_iff [of y m d] month_days_le [of y m] by (auto simp: is_valid_date_iff is_valid_time_iff)
  have yr: "time_year False (text2 (y mod 100) @ c) = (Some y, c)" for c
    using assms(1,2) by (simp add: time_year_utc_iff)
  show ?thesis
    using r time_zone_offset [OF assms(5-9)]
    by (simp add: time_fields_def offset_text_def yr digits_text)
qed

lemma zone_bounds: "0 \<le> oh \<Longrightarrow> oh \<le> 23 \<Longrightarrow> 0 \<le> om \<Longrightarrow> om \<le> 59 \<Longrightarrow> \<bar>zone_seconds sign oh om\<bar> \<le> 86340"
  by (auto simp: zone_seconds_def)

lemma posix_time_century:
  assumes "posix_time_from_utc y m d h mi s = Some p" "1950 \<le> y" "y < 2050"
  shows "- 700000000 \<le> p \<and> p \<le> 3000000000"
proof -
  note date = posix_time_Some(1) [OF assms(1)]
  have "1949 \<le> march_year y m" "march_year y m + 1 \<le> 2050" using assms(2,3) by (auto simp: march_year_def)
  then have "march_days 1949 \<le> march_days (march_year y m)" "march_days (march_year y m + 1) \<le> march_days 2050"
    by (auto intro: march_days_mono)
  moreover have e: "march_days 1949 = 711857" "march_days 2050 = 748747" by (simp_all add: march_days_def)
  ultimately have "711857 \<le> day_number y m d" "day_number y m d \<le> 748747"
    using valid_day_of_year [OF date] e by (simp_all add: day_number_def)
  moreover have "0 \<le> h * 3600 + mi * 60 + s" "h * 3600 + mi * 60 + s < 86400"
    using posix_time_Some(2) [OF assms(1)] by (simp_all add: is_valid_time_iff)
  ultimately show ?thesis unfolding posix_time_Some(5) [OF assms(1)] by (simp add: left_diff_distrib)
qed

lemma parse_offset:
  assumes "1950 \<le> y" "y < 2050" "posix_time_from_utc y m d h mi s = Some p"
    "sign \<in> {43, 45}" "0 \<le> oh" "oh \<le> 23" "0 \<le> om" "om \<le> 59"
  shows "CBS_parse_utc_time (offset_text y m d h mi s sign oh om) None True = (True, None)"
    "\<exists>tm. CBS_parse_utc_time (offset_text y m d h mi s sign oh om) (Some tm0) True = (True, Some tm) \<and>
       OPENSSL_tm_to_posix tm = Some (p + zone_seconds sign oh om)"
proof -
  have fields: "time_fields False True (offset_text y m d h mi s sign oh om) = (Some (y, m, d, h, mi, s, zone_seconds sign oh om), [])"
    using posix_time_Some(1,2) [OF assms(3)] by (rule offset_fields [OF assms(1,2) _ _ assms(4-8)])
  then show "CBS_parse_utc_time (offset_text y m d h mi s sign oh om) None True = (True, None)"
    by (simp add: CBS_parse_utc_time_def CBS_parse_rfc5280_time_internal_def)
  let ?t = "tm0\<lparr>tm_year := y - 1900, tm_mon := m - 1, tm_mday := d, tm_hour := h, tm_min := mi, tm_sec := s\<rparr>"
  have p: "OPENSSL_tm_to_posix ?t = Some p" using assms(3) by (simp add: OPENSSL_tm_to_posix_def)
  show "\<exists>tm. CBS_parse_utc_time (offset_text y m d h mi s sign oh om) (Some tm0) True = (True, Some tm) \<and>
       OPENSSL_tm_to_posix tm = Some (p + zone_seconds sign oh om)"
  proof (cases "zone_seconds sign oh om = 0")
    case True
    then show ?thesis using fields p by (simp add: CBS_parse_utc_time_def CBS_parse_rfc5280_time_internal_def)
  next
    case False
    have z: "\<bar>zone_seconds sign oh om\<bar> \<le> 86340" by (rule zone_bounds [OF assms(5-8)])
    have "is_valid_posix_time (p + zone_seconds sign oh om)" using posix_time_century [OF assms(3,1,2)] z
      unfolding is_valid_posix_time_def MIN_POSIX_TIME_def MAX_POSIX_TIME_def by linarith
    then obtain tm where tm: "OPENSSL_posix_to_tm (p + zone_seconds sign oh om) = Some tm" using posix_to_tm_valid by blast
    moreover have "OPENSSL_gmtime_adj ?t 0 (zone_seconds sign oh om) = Some tm"
      using gmtime_adj_eq [OF p, of 0 "zone_seconds sign oh om"] z tm by (simp add: time_defs)
    ultimately show ?thesis
      using fields False by (simp add: CBS_parse_utc_time_def CBS_parse_rfc5280_time_internal_def posix_to_tm_iff)
  qed
qed

text \<open>
  C38: the parser adds a positive zone offset to the local time and subtracts a negative one, so that the time it reads
  for a string lies twice the offset away from the time that X.680 gives the string, which is the local time less the offset.
\<close>

theorem utctime_offset_added:
  assumes "1950 \<le> y" "y < 2050" "posix_time_from_utc y m d h mi s = Some p"
    "sign \<in> {43, 45}" "0 \<le> oh" "oh \<le> 23" "0 \<le> om" "om \<le> 59"
    "as_type t = V_ASN1_UTCTIME" "as_bytes t = offset_text y m d h mi s sign oh om"
  shows "\<exists>tm. asn1_time_to_tm now (Some blank_tm) (Some t) True = (True, Some tm) \<and>
       OPENSSL_tm_to_posix tm = Some (p + (if sign = 43 then 1 else -1) * (oh * 3600 + om * 60))"
  using parse_offset(2) [OF assms(1-8)] assms(9,10)
  by (simp add: asn1_time_to_tm_def asn1_utctime_to_tm_def zone_seconds_def)

lemma posix_time_1970: "posix_time_from_utc 1970 1 1 1 0 0 = Some 3600"
  by (subst posix_time_days)
    (simp_all add: is_valid_date_iff is_valid_time_iff month_days_def day_number_def march_days_def march_year_def month_start_def)

lemma utctime_offset_added_witness:
  "\<exists>tm. asn1_time_to_tm 0 (Some blank_tm)
       (Some \<lparr>as_length = 17, as_type = V_ASN1_UTCTIME, as_data = Some (offset_text 1970 1 1 1 0 0 43 1 0), as_flags = 0\<rparr>) True =
       (True, Some tm) \<and>
     OPENSSL_tm_to_posix tm = Some (3600 + (if (43 :: u8) = 43 then 1 else -1) * (1 * 3600 + 0 * 60))"
  by (rule utctime_offset_added [of 1970 1 1 1 0 0 3600 43 1 0])
    (simp_all add: posix_time_1970 as_bytes_def offset_text_def)

text \<open>
  C39: a UTCTime with a zone offset passes \<open>ASN1_TIME_check\<close>, and the conversion succeeds on it, but the GeneralizedTime
  it makes fails \<open>ASN1_GENERALIZEDTIME_check\<close>.
\<close>

theorem to_generalizedtime_offset_invalid:
  assumes "alloc_ok malloc" "\<And>k. malloc k \<noteq> None" "string_ok ret" "as_type ret = V_ASN1_GENERALIZEDTIME"
    "as_type t = V_ASN1_UTCTIME" "as_data t = Some b" "as_length t < length b" "b ! as_length t = 0"
    "1950 \<le> y" "y < 2050" "posix_time_from_utc y m d h mi s = Some p"
    "sign \<in> {43, 45}" "0 \<le> oh" "oh \<le> 23" "0 \<le> om" "om \<le> 59"
    "as_bytes t = offset_text y m d h mi s sign oh om"
  shows "ASN1_TIME_check t \<and>
    (\<exists>ret'. ASN1_TIME_to_generalizedtime malloc t ret = (Some (), ret') \<and> \<not> ASN1_GENERALIZEDTIME_check ret')"
proof -
  have check: "ASN1_TIME_check t"
    using parse_offset(1) [OF assms(9-16)] assms(5,17)
    by (simp add: ASN1_TIME_check_def ASN1_UTCTIME_check_def asn1_utctime_to_tm_def asn1_types)
  have len: "as_length t = 17"
    using arg_cong [OF assms(17), of length] assms(6,7) by (simp add: offset_text_def as_bytes_def)
  have "is_valid_date y m d" "is_valid_time h mi s" using posix_time_Some(1,2) [OF assms(11)] by simp_all
  then have "0 \<notin> set (as_bytes t)"
    using month_days_le [of y m] assms(12-16) text_no_zero [of "y mod 100"] text_no_zero [of m] text_no_zero [of d] text_no_zero [of h]
      text_no_zero [of mi] text_no_zero [of s] text_no_zero [of oh] text_no_zero [of om]
    by (auto simp: assms(17) offset_text_def is_valid_date_iff is_valid_time_iff)
  moreover have "as_length t + 2 \<le> ASN1_STRING_MAX" by (simp add: len ASN1_STRING_MAX_def)
  ultimately obtain ret' where ret': "ASN1_TIME_to_generalizedtime malloc t ret = (Some (), ret')"
    "as_bytes ret' = (if as_bytes t ! 0 \<ge> 53 then [49, 57] else [50, 48]) @ as_bytes t"
    using to_generalizedtime_bytes [OF assms(1,2,3) _ check assms(5,6,7,8)] by blast
  have "length (as_bytes ret') = 19" using ret'(2) by (simp add: assms(17) offset_text_def)
  then have "as_bytes ret' \<noteq> gentime_text y m d h mi s" for y m d h mi s by (auto simp: text_lengths)
  then have "\<not> ASN1_GENERALIZEDTIME_check ret'"
    by (auto simp: ASN1_GENERALIZEDTIME_check_def asn1_generalizedtime_to_tm_def CBS_parse_generalized_time_def parse_strict_ok
        generalized_fields_iff)
  then show ?thesis using check ret'(1) by blast
qed

text \<open>The two theorems above on the last second of 1999 and on midnight with an offset of one hour.\<close>

definition utc_example :: "bytes \<Rightarrow> ASN1_STRING" where
  "utc_example txt = \<lparr>as_length = length txt, as_type = V_ASN1_UTCTIME, as_data = Some (txt @ [0]), as_flags = 0\<rparr>"

lemma utc_example_time: "ASN1_TIME_to_posix now (Some (utc_example (utctime_text 1999 12 31 23 59 59))) = Some 946684799"
proof -
  let ?t = "blank_tm\<lparr>tm_year := 99, tm_mon := 11, tm_mday := 31, tm_hour := 23, tm_min := 59, tm_sec := 59\<rparr>"
  have "posix_time_from_utc 1999 12 31 23 59 59 = Some 946684799"
    by (subst posix_time_days)
      (simp_all add: is_valid_date_iff is_valid_time_iff month_days_def day_number_def march_days_def march_year_def month_start_def)
  then have p: "OPENSSL_tm_to_posix ?t = Some 946684799" by (simp add: OPENSSL_tm_to_posix_def)
  show ?thesis
    using utc_object [OF tm_to_posix_ok [OF p], of "utc_example (utctime_text 1999 12 31 23 59 59)" now] p
    by (simp add: fits_in_utc_time_def utc_example_def as_bytes_def)
qed

lemma to_generalizedtime_keeps_time_witness:
  "\<exists>ret'. ASN1_TIME_to_generalizedtime (\<lambda>n. Some (replicate n 0)) (utc_example (utctime_text 1999 12 31 23 59 59))
       (ASN1_STRING_type_new V_ASN1_GENERALIZEDTIME) = (Some (), ret') \<and> string_ok ret' \<and>
     ASN1_GENERALIZEDTIME_check ret' \<and> ASN1_TIME_to_posix 0 (Some ret') = Some 946684799"
  by (rule to_generalizedtime_keeps_time [where b = "utctime_text 1999 12 31 23 59 59 @ [0]"])
    (simp_all add: alloc_ok_def utc_example_time ASN1_STRING_type_new_def string_ok_def nth_append text_lengths,
     simp_all add: utc_example_def text_lengths nth_append)

lemma to_generalizedtime_offset_invalid_witness:
  "ASN1_TIME_check (utc_example (offset_text 1970 1 1 1 0 0 43 1 0)) \<and>
   (\<exists>ret'. ASN1_TIME_to_generalizedtime (\<lambda>n. Some (replicate n 0)) (utc_example (offset_text 1970 1 1 1 0 0 43 1 0))
       (ASN1_STRING_type_new V_ASN1_GENERALIZEDTIME) = (Some (), ret') \<and> \<not> ASN1_GENERALIZEDTIME_check ret')"
  by (rule to_generalizedtime_offset_invalid [where b = "offset_text 1970 1 1 1 0 0 43 1 0 @ [0]" and y = 1970 and m = 1 and d = 1
        and h = 1 and mi = 0 and s = 0 and sign = 43 and oh = 1 and om = 0 and p = 3600])
    (simp_all add: alloc_ok_def utc_example_def offset_text_def as_bytes_def posix_time_1970 ASN1_STRING_type_new_def string_ok_def nth_append)

end
