(* ===== verification/Ber.thy ===== *)
theory Ber
  imports CbbBuild
begin

text \<open>
  \<open>crypto/bytestring/ber.c\<close>: the search for BER encodings and their conversion to DER, which recurses through nested
  elements, constructed strings and indefinite lengths.
\<close>

section \<open>The code\<close>

definition CBS_ASN1_UTF8STRING :: CBS_ASN1_TAG where "CBS_ASN1_UTF8STRING = 0xc"
definition CBS_ASN1_NUMERICSTRING :: CBS_ASN1_TAG where "CBS_ASN1_NUMERICSTRING = 0x12"
definition CBS_ASN1_PRINTABLESTRING :: CBS_ASN1_TAG where "CBS_ASN1_PRINTABLESTRING = 0x13"
definition CBS_ASN1_T61STRING :: CBS_ASN1_TAG where "CBS_ASN1_T61STRING = 0x14"
definition CBS_ASN1_VIDEOTEXSTRING :: CBS_ASN1_TAG where "CBS_ASN1_VIDEOTEXSTRING = 0x15"
definition CBS_ASN1_IA5STRING :: CBS_ASN1_TAG where "CBS_ASN1_IA5STRING = 0x16"
definition CBS_ASN1_GRAPHICSTRING :: CBS_ASN1_TAG where "CBS_ASN1_GRAPHICSTRING = 0x19"
definition CBS_ASN1_VISIBLESTRING :: CBS_ASN1_TAG where "CBS_ASN1_VISIBLESTRING = 0x1a"
definition CBS_ASN1_GENERALSTRING :: CBS_ASN1_TAG where "CBS_ASN1_GENERALSTRING = 0x1b"
definition CBS_ASN1_UNIVERSALSTRING :: CBS_ASN1_TAG where "CBS_ASN1_UNIVERSALSTRING = 0x1c"
definition CBS_ASN1_BMPSTRING :: CBS_ASN1_TAG where "CBS_ASN1_BMPSTRING = 0x1e"

lemmas string_tags = CBS_ASN1_OCTETSTRING_def CBS_ASN1_UTF8STRING_def CBS_ASN1_NUMERICSTRING_def CBS_ASN1_PRINTABLESTRING_def
  CBS_ASN1_T61STRING_def CBS_ASN1_VIDEOTEXSTRING_def CBS_ASN1_IA5STRING_def CBS_ASN1_GRAPHICSTRING_def
  CBS_ASN1_VISIBLESTRING_def CBS_ASN1_GENERALSTRING_def CBS_ASN1_UNIVERSALSTRING_def CBS_ASN1_BMPSTRING_def

definition kMaxDepth :: nat where
  "kMaxDepth = 128"

definition is_string_type :: "CBS_ASN1_TAG \<Rightarrow> bool" where
  "is_string_type tag \<longleftrightarrow>
     tag AND NOT CBS_ASN1_CONSTRUCTED \<in>
       {CBS_ASN1_OCTETSTRING, CBS_ASN1_UTF8STRING, CBS_ASN1_NUMERICSTRING, CBS_ASN1_PRINTABLESTRING, CBS_ASN1_T61STRING,
        CBS_ASN1_VIDEOTEXSTRING, CBS_ASN1_IA5STRING, CBS_ASN1_GRAPHICSTRING, CBS_ASN1_VISIBLESTRING, CBS_ASN1_GENERALSTRING,
        CBS_ASN1_UNIVERSALSTRING, CBS_ASN1_BMPSTRING}"

definition constructed :: "CBS_ASN1_TAG \<Rightarrow> bool" where
  "constructed tag \<longleftrightarrow> tag AND CBS_ASN1_CONSTRUCTED \<noteq> 0"

text \<open>The lengths of what the reader of elements hands out bound the recursions below.\<close>

lemma ber_element_shape:
  assumes "cbs_get_any_asn1_element ok c = (Some e, c')"
  shows "c = elem_out e @ c'" "2 \<le> elem_header_len e" "elem_header_len e \<le> length (elem_out e)" "valid_tag (elem_tag e)"
    "elem_indefinite e \<Longrightarrow> constructed (elem_tag e) \<and> elem_ber_found e \<and> length (elem_out e) = elem_header_len e"
    "elem_header_len e \<le> 12" "length (elem_out e) < 2 ^ 33"
proof -
  from assms obtain t header where tag: "parse_asn1_tag c = (Some t, header)"
    by (auto simp: cbs_get_any_asn1_element_def split: prod.splits option.splits)
  from tag.codec_get [OF tag] have t: "valid_tag t" and c: "c = der_tag t @ header" by simp_all
  from assms tag obtain b d where header: "header = b # d"
    by (cases header) (auto simp: cbs_get_any_asn1_element_def)
  let ?h = "length c - length d"
  have h: "?h = length (der_tag t) + 1" by (simp add: c header)
  have tlen: "1 \<le> length (der_tag t)" by (simp add: Suc_le_eq)
  have h7: "2 \<le> ?h" "?h \<le> 7" using length_der_tag [of t] tlen by (simp_all add: h)
  have b256: "unat b < 256" using unsigned_less [of b] by simp
  have big: "(2 :: nat) ^ 33 = 2 ^ 32 + 2 ^ 32" "(2 :: nat) ^ 32 = 4294967296" by simp_all
  have small: "unat b + k < size_max" if "k \<le> 7" for k
  proof -
    have "(264 :: nat) < size_max" by simp
    then show ?thesis using b256 that by linarith
  qed
  have all: "c = elem_out e @ c' \<and> elem_tag e = t \<and> 2 \<le> elem_header_len e \<and> elem_header_len e \<le> length (elem_out e) \<and>
    (elem_indefinite e \<longrightarrow> constructed t \<and> elem_ber_found e \<and> length (elem_out e) = elem_header_len e) \<and>
    elem_header_len e \<le> 12 \<and> length (elem_out e) < 2 ^ 33"
  proof (cases "unat b < 128")
    case True
    have sizes: "size_add (unat b) ?h = unat b + ?h"
      using small [OF h7(2)] by (rule size_add_exact)
    have "cbs_get_any_asn1_element ok c =
        cbind (CBS_get_bytes c (unat b + ?h)) (\<lambda>out cbs.
          (Some \<lparr>elem_out = out, elem_tag = t, elem_header_len = ?h, elem_ber_found = False, elem_indefinite = False\<rparr>, cbs))"
      unfolding cbs_get_any_asn1_element_def tag header prod.case option.case CBS_get_u8_Cons Let_def and_0x80_eq_0_iff sizes
      using True by simp
    from trans [OF this [symmetric] assms] have "CBS_get_bytes c (unat b + ?h) = (Some (elem_out e), c')"
      and "elem_tag e = t" "elem_header_len e = ?h" "\<not> elem_indefinite e"
      by (auto simp: cbind_eq_Some)
    moreover from this(1) have "c = elem_out e @ c'" "length (elem_out e) = unat b + ?h"
      unfolding CBS_get_bytes_iff by blast+
    ultimately show ?thesis using h7 True big by linarith
  next
    case False
    let ?k = "unat (b AND 0x7f)"
    show ?thesis
    proof (cases "ok \<and> t AND CBS_ASN1_CONSTRUCTED \<noteq> 0 \<and> ?k = 0")
      case True
      then have "CBS_get_bytes c ?h = (Some (elem_out e), c')"
        and "elem_tag e = t" "elem_header_len e = ?h" "elem_indefinite e" "elem_ber_found e"
        using False assms tag header
        by (auto simp: cbs_get_any_asn1_element_def Let_def and_0x80_eq_0_iff cbind_eq_Some)
      moreover from this(1) have "c = elem_out e @ c'" "length (elem_out e) = ?h"
        unfolding CBS_get_bytes_iff by blast+
      ultimately show ?thesis using h7 True big unfolding constructed_def by linarith
    next
      case def: False
      obtain len64 rest where u: "cbs_get_u d ?k = (Some len64, rest)" and k4: "1 \<le> ?k" "?k \<le> 4"
        and out: "CBS_get_bytes c (size_add (unat len64) (size_add ?h ?k)) = (Some (elem_out e), c')"
        and e: "elem_tag e = t" "elem_header_len e = size_add ?h ?k" "\<not> elem_indefinite e"
        using False def assms tag header
        by (auto simp: cbs_get_any_asn1_element_def Let_def and_0x80_eq_0_iff cbind_eq_Some
            split: prod.splits option.splits if_splits)
      from u obtain bs where bs: "length bs = ?k" "len64 = be_word bs" by (auto simp: cbs_get_u_iff)
      have "be_nat bs < 256 ^ ?k" using be_nat_bound [of bs] by (simp add: bs(1))
      also have "\<dots> \<le> 256 ^ 4" using k4 by (intro power_increasing) simp_all
      finally have n32: "unat len64 < 2 ^ 32" using bs k4 by (simp add: unat_be_word)
      note sizes = size_add_header [OF n32 h7(2) k4(2)]
      have "c = elem_out e @ c' \<and> length (elem_out e) = unat len64 + ?h + ?k"
        using out unfolding CBS_get_bytes_iff sizes(2) .
      moreover have "elem_header_len e = ?h + ?k" using e(2) unfolding sizes(4) .
      ultimately show ?thesis using e(1,3) h7 k4 n32 big by linarith
    qed
  qed
  show "c = elem_out e @ c'" by (rule all [THEN conjunct1])
  note rest = all [THEN conjunct2]
  show "valid_tag (elem_tag e)" using rest t by simp
  show "2 \<le> elem_header_len e" "elem_header_len e \<le> length (elem_out e)"
    "elem_header_len e \<le> 12" "length (elem_out e) < 2 ^ 33" using rest by linarith+
  show "elem_indefinite e \<Longrightarrow> constructed (elem_tag e) \<and> elem_ber_found e \<and> length (elem_out e) = elem_header_len e"
    using rest by simp
qed

lemmas any_ber_element_parts = ber_element_shape [of True, folded CBS_get_any_ber_asn1_element_def]

lemma skip_header: "CBS_skip c n = (Some u, c') \<Longrightarrow> c' = drop n c \<and> n \<le> length c"
  by (auto simp: CBS_skip_def cbind_eq_Some cbs_get_iff)

lemma ber_rest_shorter: "CBS_get_any_ber_asn1_element c = (Some e, c') \<Longrightarrow> length c' < length c"
  using any_ber_element_parts(2,3) [of c e c'] arg_cong [OF any_ber_element_parts(1) [of c e c'], of length]
  by (cases "elem_out e") auto

lemma ber_contents_shorter:
  "CBS_get_any_ber_asn1_element c = (Some e, c') \<Longrightarrow> CBS_skip (elem_out e) (elem_header_len e) = (Some u, contents) \<Longrightarrow>
    length contents < length c"
  using any_ber_element_parts(1-3) [of c e c'] skip_header [of "elem_out e" "elem_header_len e" u contents] by auto

text \<open>
  The iterations of the loop are calls at the same depth, for which the test at the entry holds again. \<open>None\<close> is the
  return value 0.
\<close>

function cbs_find_ber :: "CBS \<Rightarrow> nat \<Rightarrow> bool option" where
  "cbs_find_ber inp depth =
     (if depth > kMaxDepth then None
      else if length inp = 0 then Some False
      else case CBS_get_any_ber_asn1_element inp of
             (None, _) \<Rightarrow> None
           | (Some e, inp') \<Rightarrow>
               if elem_ber_found e then Some True
               else if constructed (elem_tag e) then
                 if is_string_type (elem_tag e) then Some True
                 else (case CBS_skip (elem_out e) (elem_header_len e) of
                         (None, _) \<Rightarrow> None
                       | (Some _, contents) \<Rightarrow>
                           (case cbs_find_ber contents (depth + 1) of
                              None \<Rightarrow> None
                            | Some ber_found \<Rightarrow> if ber_found then Some True else cbs_find_ber inp' depth))
               else cbs_find_ber inp' depth)"
  by pat_completeness auto
termination
  by (relation "measure (\<lambda>(inp, depth). length inp)")
    (auto dest: ber_rest_shorter [OF sym] ber_contents_shorter [OF sym sym])

declare cbs_find_ber.simps [simp del]

definition cbs_get_eoc :: "CBS \<Rightarrow> (unit, CBS) cres" where
  "cbs_get_eoc cbs =
     (if length cbs \<ge> 2 \<and> cbs ! 0 = 0 \<and> cbs ! 1 = 0 then CBS_skip cbs 2 else (None, cbs))"

text \<open>
  \<open>cbs_convert_ber\<close> consumes \<open>inp\<close> and writes to the object of handle \<open>d\<close>; the result holds the rest of \<open>inp\<close>. The
  contents go to a new child at depth \<open>d + 1\<close> or, inside a constructed string, to the object itself.
\<close>

definition open_contents :: "CBB \<Rightarrow> nat \<Rightarrow> CBS_ASN1_TAG \<Rightarrow> CBS_ASN1_TAG \<Rightarrow> (nat \<times> CBS_ASN1_TAG, CBB) cres" where
  "open_contents out d string_tag tag =
     (if string_tag \<noteq> 0 then
        if tag AND NOT CBS_ASN1_CONSTRUCTED \<noteq> string_tag then (None, out) else (Some (d, string_tag), out)
      else
        let (out_tag, child_string_tag) =
              (if constructed tag \<and> is_string_type tag
               then (tag AND NOT CBS_ASN1_CONSTRUCTED, tag AND NOT CBS_ASN1_CONSTRUCTED) else (tag, string_tag))
        in cbind (CBB_add_asn1 out d out_tag) (\<lambda>_ out. (Some (d + 1, child_string_tag), out)))"

function (domintros) cbs_convert_ber :: "CBS \<Rightarrow> CBB \<Rightarrow> nat \<Rightarrow> CBS_ASN1_TAG \<Rightarrow> bool \<Rightarrow> nat \<Rightarrow> (CBS, CBB) cres" where
  "cbs_convert_ber inp out d string_tag looking_for_eoc depth =
     (if depth > kMaxDepth then (None, out)
      else if length inp = 0 then (if looking_for_eoc then None else Some [], out)
      else if looking_for_eoc \<and> fst (cbs_get_eoc inp) \<noteq> None then (Some (snd (cbs_get_eoc inp)), out)
      else case CBS_get_any_ber_asn1_element inp of
             (None, _) \<Rightarrow> (None, out)
           | (Some e, inp) \<Rightarrow>
               cbind (open_contents out d string_tag (elem_tag e)) (\<lambda>(d', child_string_tag) out.
                 if elem_indefinite e then
                   cbind (cbs_convert_ber inp out d' child_string_tag True (depth + 1)) (\<lambda>inp out.
                   cbind (CBB_flush out d) (\<lambda>_ out.
                     cbs_convert_ber inp out d string_tag looking_for_eoc depth))
                 else case CBS_skip (elem_out e) (elem_header_len e) of
                        (None, _) \<Rightarrow> (None, out)
                      | (Some _, contents) \<Rightarrow>
                          cbind (if constructed (elem_tag e) then
                                   cbs_convert_ber contents out d' child_string_tag False (depth + 1)
                                 else cbind (CBB_add_bytes out d' contents) (\<lambda>_ out. (Some [], out))) (\<lambda>_ out.
                          cbind (CBB_flush out d) (\<lambda>_ out.
                            cbs_convert_ber inp out d string_tag looking_for_eoc depth))))"
  by pat_completeness auto

lemma get_eoc_shorter: "length (snd (cbs_get_eoc c)) \<le> length c"
  by (auto simp: cbs_get_eoc_def CBS_skip_def cbind_def cbs_get_def split: prod.splits option.splits)

text \<open>What is left of the input is no longer than the input, which the recursion on the rest needs.\<close>

lemma convert_rest_shorter:
  assumes "cbs_convert_ber_dom (inp, out, d, st, l, depth)" "cbs_convert_ber inp out d st l depth = (Some rest, out')"
  shows "length rest \<le> length inp"
  using assms
proof (induction arbitrary: rest out' rule: cbs_convert_ber.pinduct)
  case (1 inp out d st l depth)
  note c_def = cbs_convert_ber.psimps [OF 1(1)]
  show ?case
  proof (cases "depth > kMaxDepth \<or> length inp = 0 \<or> l \<and> fst (cbs_get_eoc inp) \<noteq> None")
    case True
    then show ?thesis using "1.prems" [unfolded c_def] get_eoc_shorter [of inp] by (auto split: if_splits)
  next
    case False
    then have c: "\<not> depth > kMaxDepth" "length inp \<noteq> 0" "\<not> (l \<and> fst (cbs_get_eoc inp) \<noteq> None)" by auto
    note c_eq = c_def [unfolded if_not_P [OF c(1)] if_not_P [OF c(2)] if_not_P [OF c(3)]]
    obtain r inp1 where get: "CBS_get_any_ber_asn1_element inp = (r, inp1)" by (cases "CBS_get_any_ber_asn1_element inp")
    obtain e where r: "r = Some e" using "1.prems" [unfolded c_eq get] by (cases r) auto
    note prem = "1.prems" [unfolded c_eq get r prod.case option.case cbind_eq_Some]
    obtain d' st' s where opened: "open_contents out d st (elem_tag e) = (Some (d', st'), s)" using prem by auto
    note len = ber_rest_shorter [OF get [unfolded r]]
    show ?thesis
    proof (cases "elem_indefinite e")
      case True
      then obtain inp2 s2 s3 where calls: "cbs_convert_ber inp1 s d' st' True (depth + 1) = (Some inp2, s2)"
        "CBB_flush s2 d = (Some (), s3)" "cbs_convert_ber inp2 s3 d st l depth = (Some rest, out')"
        using prem opened by (auto simp: cbind_eq_Some)
      have "length inp2 \<le> length inp1"
        by (rule "1.IH"(1) [OF c get [symmetric] r opened refl True calls(1)])
      moreover have "length rest \<le> length inp2"
        by (rule "1.IH"(2) [OF c get [symmetric] r opened refl True calls(1,2,3)])
      ultimately show ?thesis using len by simp
    next
      case False
      obtain x contents where skip: "CBS_skip (elem_out e) (elem_header_len e) = (x, contents)"
        by (cases "CBS_skip (elem_out e) (elem_header_len e)")
      obtain y where x: "x = Some y" using prem opened False skip by (cases x) auto
      obtain w s2 s3 where calls: "(if constructed (elem_tag e) then cbs_convert_ber contents s d' st' False (depth + 1)
           else cbind (CBB_add_bytes s d' contents) (\<lambda>_ out. (Some [], out))) = (Some w, s2)"
        "CBB_flush s2 d = (Some (), s3)" "cbs_convert_ber inp1 s3 d st l depth = (Some rest, out')"
        using prem opened False skip x by (auto simp: cbind_eq_Some [of "if b then t else f" for b t f] cbind_eq_Some [of "CBB_flush s d" for s d])
      have "length rest \<le> length inp1"
        by (rule "1.IH"(4) [OF c get [symmetric] r opened refl False skip [symmetric] x calls])
      then show ?thesis using len by simp
    qed
  qed
qed

termination cbs_convert_ber
proof (relation "measure (\<lambda>(inp, _). length inp)", goal_cases)
  case (3 inp out d st l depth x y e v s d' st' out2 inp2 s2 u s3)
  then show ?case using ber_rest_shorter [of inp e y] convert_rest_shorter [of y out2 d' st' True "depth + 1" inp2 s2] by simp
qed (auto dest: ber_rest_shorter [OF sym] ber_contents_shorter [OF sym sym])

declare cbs_convert_ber.simps [simp del]

text \<open>
  \<open>CBS_asn1_ber_to_der\<close> returns the bytes of \<open>out\<close>, the new storage if there is one, and the rest of \<open>in\<close>; how far \<open>in\<close>
  was read before a failure is not part of the result.
\<close>

definition CBS_asn1_ber_to_der :: "(nat \<Rightarrow> bool) \<Rightarrow> CBS \<Rightarrow> (CBS \<times> bytes option \<times> CBS) option" where
  "CBS_asn1_ber_to_der alloc_ok inp =
     (case cbs_find_ber inp 0 of
        None \<Rightarrow> None
      | Some conversion_needed \<Rightarrow>
          if \<not> conversion_needed then
            (case CBS_get_any_asn1_element inp of
               (None, _) \<Rightarrow> None
             | (Some (out, _, _), inp) \<Rightarrow> Some (out, None, inp))
          else
            (case CBB_init alloc_ok (length inp) of
               None \<Rightarrow> None
             | Some cbb \<Rightarrow>
                 (case cbs_convert_ber inp cbb 0 0 False 0 of
                    (None, _) \<Rightarrow> None
                  | (Some inp, cbb) \<Rightarrow>
                      (case CBB_finish cbb 0 True of
                         None \<Rightarrow> None
                       | Some out_storage \<Rightarrow> Some (out_storage, Some out_storage, inp)))))"


section \<open>What is converted to what\<close>

text \<open>
  The relation between the input, the bytes written and the rest of the input. The first argument is the tag of the
  constructed string around the elements, or 0; the second is whether the elements end with an end-of-contents; the
  third is the depth.
\<close>

definition der_name :: "CBS_ASN1_TAG \<Rightarrow> CBS_ASN1_TAG" where
  "der_name tag = (if constructed tag \<and> is_string_type tag then tag AND NOT CBS_ASN1_CONSTRUCTED else tag)"

definition string_below :: "CBS_ASN1_TAG \<Rightarrow> CBS_ASN1_TAG" where
  "string_below tag = (if constructed tag \<and> is_string_type tag then tag AND NOT CBS_ASN1_CONSTRUCTED else 0)"

definition wrap :: "CBS_ASN1_TAG \<Rightarrow> CBS_ASN1_TAG \<Rightarrow> bytes \<Rightarrow> bytes" where
  "wrap st tag x = (if st = 0 then der_element (der_name tag) x else x)"

inductive ber_to_der :: "CBS_ASN1_TAG \<Rightarrow> bool \<Rightarrow> nat \<Rightarrow> CBS \<Rightarrow> bytes \<Rightarrow> CBS \<Rightarrow> bool" where
  ends: "depth \<le> kMaxDepth \<Longrightarrow> ber_to_der st False depth [] [] []"
| eoc: "depth \<le> kMaxDepth \<Longrightarrow> ber_to_der st True depth (0 # 0 # rest) [] rest"
| indefinite: "depth \<le> kMaxDepth \<Longrightarrow> inp \<noteq> [] \<Longrightarrow> \<not> (l \<and> fst (cbs_get_eoc inp) \<noteq> None) \<Longrightarrow>
    CBS_get_any_ber_asn1_element inp = (Some e, inp1) \<Longrightarrow> elem_indefinite e \<Longrightarrow>
    st = 0 \<or> elem_tag e AND NOT CBS_ASN1_CONSTRUCTED = st \<Longrightarrow>
    ber_to_der (if st = 0 then string_below (elem_tag e) else st) True (depth + 1) inp1 x inp2 \<Longrightarrow>
    ber_to_der st l depth inp2 w rest \<Longrightarrow>
    ber_to_der st l depth inp (wrap st (elem_tag e) x @ w) rest"
| nested: "depth \<le> kMaxDepth \<Longrightarrow> inp \<noteq> [] \<Longrightarrow> \<not> (l \<and> fst (cbs_get_eoc inp) \<noteq> None) \<Longrightarrow>
    CBS_get_any_ber_asn1_element inp = (Some e, inp1) \<Longrightarrow> \<not> elem_indefinite e \<Longrightarrow> constructed (elem_tag e) \<Longrightarrow>
    st = 0 \<or> elem_tag e AND NOT CBS_ASN1_CONSTRUCTED = st \<Longrightarrow>
    ber_to_der (if st = 0 then string_below (elem_tag e) else st) False (depth + 1)
      (drop (elem_header_len e) (elem_out e)) x [] \<Longrightarrow>
    ber_to_der st l depth inp1 w rest \<Longrightarrow>
    ber_to_der st l depth inp (wrap st (elem_tag e) x @ w) rest"
| primitive: "depth \<le> kMaxDepth \<Longrightarrow> inp \<noteq> [] \<Longrightarrow> \<not> (l \<and> fst (cbs_get_eoc inp) \<noteq> None) \<Longrightarrow>
    CBS_get_any_ber_asn1_element inp = (Some e, inp1) \<Longrightarrow> \<not> elem_indefinite e \<Longrightarrow> \<not> constructed (elem_tag e) \<Longrightarrow>
    st = 0 \<or> elem_tag e AND NOT CBS_ASN1_CONSTRUCTED = st \<Longrightarrow>
    ber_to_der st l depth inp1 w rest \<Longrightarrow>
    ber_to_der st l depth inp (wrap st (elem_tag e) (drop (elem_header_len e) (elem_out e)) @ w) rest"

lemma get_eoc_Cons: "cbs_get_eoc (0 # 0 # rest) = (Some (), rest)"
  using CBS_skip_append [of "[0, 0]" rest] by (simp add: cbs_get_eoc_def numeral_2_eq_2)

lemma get_eoc_Some: "fst (cbs_get_eoc c) \<noteq> None \<Longrightarrow> \<exists>rest. c = 0 # 0 # rest"
proof -
  assume "fst (cbs_get_eoc c) \<noteq> None"
  then have c: "2 \<le> length c" "c ! 0 = 0" "c ! 1 = 0" by (auto simp: cbs_get_eoc_def split: if_splits)
  then obtain a b rest where "c = a # b # rest" by (cases c; cases "tl c") auto
  then show ?thesis using c by simp
qed

lemma ber_to_der_shorter: "ber_to_der st l depth inp w rest \<Longrightarrow> length rest \<le> length inp"
proof (induction rule: ber_to_der.induct)
  case (indefinite depth inp l e inp1 st x inp2 w rest)
  then show ?case using ber_rest_shorter [of inp e inp1] by simp
next
  case (nested depth inp l e inp1 st x w rest)
  then show ?case using ber_rest_shorter [of inp e inp1] by simp
next
  case (primitive depth inp l e inp1 st w rest)
  then show ?case using ber_rest_shorter [of inp e inp1] by simp
qed simp_all

lemma no_eoc_rest: "ber_to_der st False depth inp w rest \<Longrightarrow> rest = []"
  by (induction st "False" depth inp w rest rule: ber_to_der.induct) simp_all

text \<open>The call without a look at the builder: only \<open>convert_step\<close> unfolds the code.\<close>

definition convert_rest :: "CBS \<Rightarrow> CBB \<Rightarrow> nat \<Rightarrow> CBS_ASN1_TAG \<Rightarrow> bool \<Rightarrow> nat \<Rightarrow> (CBS, CBB) cres" where
  "convert_rest inp out d st l depth = cbind (CBB_flush out d) (\<lambda>_ out. cbs_convert_ber inp out d st l depth)"

definition convert_body ::
    "asn1_element \<Rightarrow> CBS \<Rightarrow> nat \<Rightarrow> CBS_ASN1_TAG \<Rightarrow> bool \<Rightarrow> nat \<Rightarrow> nat \<Rightarrow> CBS_ASN1_TAG \<Rightarrow> CBB \<Rightarrow> (CBS, CBB) cres" where
  "convert_body e inp1 d st l depth d' st' out =
     (if elem_indefinite e then cbind (cbs_convert_ber inp1 out d' st' True (depth + 1)) (\<lambda>inp2 out. convert_rest inp2 out d st l depth)
      else cbind (if constructed (elem_tag e) then
                    cbs_convert_ber (drop (elem_header_len e) (elem_out e)) out d' st' False (depth + 1)
                  else cbind (CBB_add_bytes out d' (drop (elem_header_len e) (elem_out e))) (\<lambda>_ out. (Some [], out)))
             (\<lambda>_ out. convert_rest inp1 out d st l depth))"

lemma convert_step:
  assumes "depth \<le> kMaxDepth" "inp \<noteq> []" "\<not> (l \<and> fst (cbs_get_eoc inp) \<noteq> None)"
    "CBS_get_any_ber_asn1_element inp = (Some e, inp1)"
  shows "cbs_convert_ber inp out d st l depth =
    (if st \<noteq> 0 then
       if elem_tag e AND NOT CBS_ASN1_CONSTRUCTED \<noteq> st then (None, out) else convert_body e inp1 d st l depth d st out
     else cbind (CBB_add_asn1 out d (der_name (elem_tag e))) (\<lambda>_ out.
            convert_body e inp1 d st l depth (d + 1) (string_below (elem_tag e)) out))"
proof -
  have skip: "CBS_skip (elem_out e) (elem_header_len e) = (Some (), drop (elem_header_len e) (elem_out e))"
    using any_ber_element_parts(3) [OF assms(4)] by (simp add: CBS_skip_def cbs_get_def)
  have c: "\<not> depth > kMaxDepth" "length inp \<noteq> 0" using assms(1,2) by auto
  have "cbs_convert_ber inp out d st l depth =
      cbind (open_contents out d st (elem_tag e)) (\<lambda>(d', st') out. convert_body e inp1 d st l depth d' st' out)"
    unfolding cbs_convert_ber.simps [of inp out d st l depth] if_not_P [OF c(1)] if_not_P [OF c(2)] if_not_P [OF assms(3)]
      assms(4) skip prod.case option.case convert_rest_def convert_body_def ..
  moreover have "open_contents out d st (elem_tag e) =
     (if st \<noteq> 0 then (if elem_tag e AND NOT CBS_ASN1_CONSTRUCTED \<noteq> st then (None, out) else (Some (d, st), out))
      else cbind (CBB_add_asn1 out d (der_name (elem_tag e))) (\<lambda>_ out. (Some (d + 1, string_below (elem_tag e)), out)))"
    by (simp add: open_contents_def der_name_def string_below_def)
  ultimately show ?thesis by (simp add: cbind_assoc)
qed

lemma convert_ends:
  "cbs_convert_ber [] out d st l depth = (if depth > kMaxDepth \<or> l then None else Some [], out)"
  "cbs_convert_ber (0 # 0 # rest) out d st True depth = (if depth > kMaxDepth then None else Some rest, out)"
  by (simp_all add: cbs_convert_ber.simps [of "[]"] cbs_convert_ber.simps [of "0 # 0 # rest"] get_eoc_Cons)

text \<open>Whatever succeeds is a conversion, and the relation determines its result.\<close>

lemma convert_sound:
  "cbs_convert_ber inp out d st l depth = (Some rest, out') \<Longrightarrow> \<exists>w. ber_to_der st l depth inp w rest"
proof (induction "length inp" arbitrary: inp out d st l depth rest out' rule: less_induct)
  case less
  show ?case
  proof (cases "depth \<le> kMaxDepth \<and> inp \<noteq> [] \<and> \<not> (l \<and> fst (cbs_get_eoc inp) \<noteq> None)")
    case False
    then consider "depth > kMaxDepth" | "depth \<le> kMaxDepth" "inp = []" | r where "depth \<le> kMaxDepth" "inp = 0 # 0 # r" l
      using get_eoc_Some by fastforce
    then show ?thesis
    proof cases
      case 1
      then show ?thesis using less.prems by (subst (asm) cbs_convert_ber.simps) simp
    next
      case 2
      then show ?thesis using less.prems by (auto simp: convert_ends split: if_splits intro: ber_to_der.ends)
    next
      case 3
      then show ?thesis using less.prems by (auto simp: convert_ends split: if_splits intro: ber_to_der.eoc)
    qed
  next
    case True
    then have c: "depth \<le> kMaxDepth" "inp \<noteq> []" "\<not> (l \<and> fst (cbs_get_eoc inp) \<noteq> None)" by simp_all
    obtain r inp1 where "CBS_get_any_ber_asn1_element inp = (r, inp1)" by (cases "CBS_get_any_ber_asn1_element inp")
    moreover from this have "r \<noteq> None" using less.prems c by (subst (asm) cbs_convert_ber.simps) (cases r, auto split: if_splits)
    ultimately obtain e where get: "CBS_get_any_ber_asn1_element inp = (Some e, inp1)" by auto
    note prem = less.prems [unfolded convert_step [OF c get]]
    have st: "st = 0 \<or> elem_tag e AND NOT CBS_ASN1_CONSTRUCTED = st" using prem by (auto split: if_splits)
    obtain d' s where body: "convert_body e inp1 d st l depth d' (if st = 0 then string_below (elem_tag e) else st) s = (Some rest, out')"
      using prem st by (auto simp: cbind_eq_Some split: if_splits)
    have short: "length inp1 < length inp" by (rule ber_rest_shorter [OF get])
    have inner: "length (drop (elem_header_len e) (elem_out e)) < length inp"
      using any_ber_element_parts(2,3) [OF get] arg_cong [OF any_ber_element_parts(1) [OF get], of length] by (cases "elem_out e") auto
    show ?thesis
    proof (cases "elem_indefinite e")
      case True
      then obtain inp2 s2 s3 where a: "cbs_convert_ber inp1 s d' (if st = 0 then string_below (elem_tag e) else st) True (depth + 1) = (Some inp2, s2)"
        and b: "cbs_convert_ber inp2 s3 d st l depth = (Some rest, out')"
        using body by (auto simp: convert_body_def cbind_eq_Some convert_rest_def)
      obtain x where x: "ber_to_der (if st = 0 then string_below (elem_tag e) else st) True (depth + 1) inp1 x inp2"
        using less.hyps [OF short a] by blast
      have "length inp2 < length inp" using ber_to_der_shorter [OF x] short by simp
      then obtain w where "ber_to_der st l depth inp2 w rest" using less.hyps b by blast
      then show ?thesis using ber_to_der.indefinite [OF c get True st x] by blast
    next
      case False
      obtain w0 s2 s3 where a: "(if constructed (elem_tag e) then
                    cbs_convert_ber (drop (elem_header_len e) (elem_out e)) s d' (if st = 0 then string_below (elem_tag e) else st) False (depth + 1)
                  else cbind (CBB_add_bytes s d' (drop (elem_header_len e) (elem_out e))) (\<lambda>_ out. (Some [], out))) = (Some w0, s2)"
        and b: "cbs_convert_ber inp1 s3 d st l depth = (Some rest, out')"
        using body False
        by (auto simp: convert_body_def cbind_eq_Some [of "if b then t else f" for b t f] cbind_eq_Some [of "CBB_flush s d" for s d] convert_rest_def)
      obtain w where w: "ber_to_der st l depth inp1 w rest" using less.hyps [OF short b] by blast
      show ?thesis
      proof (cases "constructed (elem_tag e)")
        case True
        then have "cbs_convert_ber (drop (elem_header_len e) (elem_out e)) s d' (if st = 0 then string_below (elem_tag e) else st) False (depth + 1) = (Some w0, s2)"
          using a by simp
        from less.hyps [OF inner this] obtain x
          where x: "ber_to_der (if st = 0 then string_below (elem_tag e) else st) False (depth + 1) (drop (elem_header_len e) (elem_out e)) x w0"
          by blast
        moreover from this have "w0 = []" by (rule no_eoc_rest)
        ultimately show ?thesis using ber_to_der.nested [OF c get False True st _ w] by blast
      next
        case False
        then show ?thesis using ber_to_der.primitive [OF c get \<open>\<not> elem_indefinite e\<close> False st w] by blast
      qed
    qed
  qed
qed

lemma ber_to_der_unique:
  "ber_to_der st l depth inp w rest \<Longrightarrow> ber_to_der st l depth inp w' rest' \<Longrightarrow> w = w' \<and> rest = rest'"
proof (induction arbitrary: w' rest' rule: ber_to_der.induct)
  case (ends depth st)
  from ends(2) show ?case by cases auto
next
  case (eoc depth st rest)
  from eoc(2) show ?case by cases (auto simp: get_eoc_Cons)
next
  case (indefinite depth inp l e inp1 st x inp2 w rest)
  note h = indefinite.hyps and IH = indefinite.IH
  from indefinite.prems show ?case
  proof cases
    case (indefinite e' inp1' x' inp2' w1')
    then have "e' = e" "inp1' = inp1" using h(4) by simp_all
    then show ?thesis using indefinite IH(1) [of x' inp2'] IH(2) [of w1' rest'] by auto
  qed (use h in \<open>auto simp: get_eoc_Cons\<close>)
next
  case (nested depth inp l e inp1 st x w rest)
  note h = nested.hyps and IH = nested.IH
  from nested.prems show ?case
  proof cases
    case (nested e' inp1' x' w1')
    then have "e' = e" "inp1' = inp1" using h(4) by simp_all
    then show ?thesis using nested IH(1) [of x' "[]"] IH(2) [of w1' rest'] by auto
  qed (use h in \<open>auto simp: get_eoc_Cons\<close>)
next
  case (primitive depth inp l e inp1 st w rest)
  note h = primitive.hyps and IH = primitive.IH
  from primitive.prems show ?case
  proof cases
    case (primitive e' inp1' w1')
    then have "e' = e" "inp1' = inp1" using h(4) by simp_all
    then show ?thesis using primitive IH [of w1' rest'] by auto
  qed (use h in \<open>auto simp: get_eoc_Cons\<close>)
qed

section \<open>What is written\<close>

text \<open>A call that succeeds leaves the object of its handle open and the error bit clear.\<close>

definition open_at :: "nat \<Rightarrow> CBB \<Rightarrow> bool" where
  "open_at d c \<longleftrightarrow> \<not> error (base c) \<and> d \<le> length (children c)"

lemma buffer_add_error: "cbb_buffer_add b new = (Some u, b') \<Longrightarrow> error b' = error b"
  by (auto simp: cbb_buffer_add_def cbb_buffer_reserve_def cbind_eq_Some Let_def split: if_splits)

lemma flush_child_error: "flush_child b ch = (Some u, b') \<Longrightarrow> error b' = error b"
  by (auto simp: flush_child_def Let_def cbind_eq_Some case_prod_beta dest: buffer_add_error split: if_splits option.splits)

lemma flush_chain_error: "flush_chain b chs = (Some u, b') \<Longrightarrow> \<not> error b'"
proof (induction b chs arbitrary: u b' rule: flush_chain.induct)
  case (1 b chain)
  show ?case
  proof (cases chain)
    case Nil
    then show ?thesis using 1(2) by (simp add: flush_chain.simps [of b] split: if_splits)
  next
    case (Cons ch rest)
    then have "\<not> error b" and "cbind (flush_chain b rest) (\<lambda>_ b. flush_child b ch) = (Some (), b')"
      using 1(2) by (auto simp: flush_chain.simps [of b] split: if_splits prod.splits option.splits)
    then obtain b1 where "flush_chain b rest = (Some (), b1)" "flush_child b1 ch = (Some (), b')"
      by (auto simp: cbind_eq_Some)
    then show ?thesis using 1(1) [OF \<open>\<not> error b\<close> Cons] flush_child_error by metis
  qed
qed

lemma flush_open: "CBB_flush c d = (Some u, c') \<Longrightarrow> open_at d c'"
  by (auto simp: CBB_flush_def open_at_def dest: flush_chain_error split: if_splits prod.splits)

lemma add_u8_open: "CBB_add_u8 c d v = (Some u, c') \<Longrightarrow> open_at d c'"
proof -
  assume "CBB_add_u8 c d v = (Some u, c')"
  then obtain bs where "CBB_add_space c d bs = (Some (), c')"
    by (auto simp: CBB_add_u8_def cbb_add_u_def cbind_eq_Some split: prod.splits if_splits)
  then obtain c1 where f: "CBB_flush c d = (Some (), c1)"
    and a: "(case cbb_buffer_add (base c1) bs of (r, b) \<Rightarrow> (r, c1\<lparr>base := b\<rparr>)) = (Some (), c')"
    by (auto simp: CBB_add_space_def cbind_eq_Some)
  from a obtain b where "cbb_buffer_add (base c1) bs = (Some (), b)" "c' = c1\<lparr>base := b\<rparr>"
    by (cases "cbb_buffer_add (base c1) bs") auto
  note f this
  then show "open_at d c'" using flush_open [of c d "()" c1] buffer_add_error [of "base c1" bs "()" b] by (simp add: open_at_def)
qed

lemma base128_loop_open: "add_base128_loop c d v n = (Some u, c') \<Longrightarrow> open_at d c \<Longrightarrow> open_at d c'"
proof (induction c d v n arbitrary: u c' rule: add_base128_loop.induct)
  case (2 c d v i)
  let ?byte = "let byte = ucast (drop_bit (7 * i) v) AND 0x7f in if i \<noteq> 0 then byte OR 0x80 else byte :: u8"
  obtain c1 where "CBB_add_u8 c d ?byte = (Some (), c1)" "add_base128_loop c1 d v i = (Some u, c')"
    using 2(2) by (auto simp: Let_def cbind_eq_Some)
  then show ?case using 2(1) add_u8_open by (auto simp: Let_def)
qed simp

lemma flush_new_child:
  assumes "CBB_add_asn1 c d tag = (Some u, c')"
  shows "CBB_flush c' (d + 1) = (Some (), c')"
proof -
  obtain c1 where add: "cbb_add_child c1 d 1 True = (Some u, c')" and w: "cbind (CBB_flush c d) (\<lambda>_ c. tag_writer tag c d) = (Some (), c1)"
    using assms by (auto simp: CBB_add_asn1_eq cbind_eq_Some [of "cbind m f" for m f])
  then obtain c0 where "CBB_flush c d = (Some (), c0)" and t: "tag_writer tag c0 d = (Some (), c1)" by (auto simp: cbind_eq_Some)
  then have "open_at d c0" by (simp add: flush_open)
  then have "open_at d c1" using t
    by (auto simp: tag_writer_def Let_def cbind_eq_Some add_base128_integer_def dest: add_u8_open base128_loop_open split: if_splits)
  then show ?thesis using add
    by (auto simp: cbb_add_child_def open_at_def CBB_flush_def flush_chain.simps dest: buffer_add_error split: prod.splits option.splits)
qed

text \<open>The call as a value writer behind another one.\<close>

definition convert_writer :: "(CBB \<Rightarrow> nat \<Rightarrow> (unit, CBB) cres) \<Rightarrow> CBS \<Rightarrow> CBS_ASN1_TAG \<Rightarrow> bool \<Rightarrow> nat \<Rightarrow> CBB \<Rightarrow> nat \<Rightarrow> (unit, CBB) cres" where
  "convert_writer op inp st l depth c d =
     cbind (op c d) (\<lambda>_ c. cbind (cbs_convert_ber inp c d st l depth) (\<lambda>_ c. (Some (), c)))"

lemma convert_result:
  assumes "ber_to_der st l depth inp w rest"
  shows "cbind (cbs_convert_ber inp c d st l depth) (\<lambda>r c. f r c) =
    cbind (cbind (cbs_convert_ber inp c d st l depth) (\<lambda>_ c. (Some (), c))) (\<lambda>_ c. f rest c)"
proof (cases "cbs_convert_ber inp c d st l depth")
  case (Pair r c')
  then show ?thesis using convert_sound [of inp c d st l depth] ber_to_der_unique [OF assms] by (cases r) auto
qed

text \<open>The writer of one element in front of the rest, in a constructed string and outside.\<close>

lemma convert_element:
  assumes "\<And>c d. cbs_convert_ber inp c d st l depth =
      (if st \<noteq> 0 then cbind (body c d) (\<lambda>_ c. convert_rest inp2 c d st l depth)
       else cbind (CBB_add_asn1 c d t) (\<lambda>_ c. cbind (body c (d + 1)) (\<lambda>_ c. convert_rest inp2 c d st l depth)))"
    and body: "\<And>op out fits. writer op out fits \<Longrightarrow> writer (\<lambda>c d. cbind (op c d) (\<lambda>_ c. body c d)) (out @ x) (fits \<and> length x \<le> 0xfffffffe)"
    and rest: "\<And>op out fits. writer op out fits \<Longrightarrow> writer (convert_writer op inp2 st l depth) (out @ w) (fits \<and> length w \<le> 0xfffffffe)"
    and op: "writer op out fits"
  shows "writer (convert_writer op inp st l depth) (out @ (if st = 0 then der_element t x else x) @ w)
    (fits \<and> length ((if st = 0 then der_element t x else x) @ w) \<le> 0xfffffffe)"
proof (cases "st = 0")
  case False
  have "writer (\<lambda>c d. cbind (cbind (op c d) (\<lambda>_ c. body c d)) (\<lambda>_ c. CBB_flush c d)) ((out @ x) @ []) ((fits \<and> length x \<le> 0xfffffffe) \<and> True)"
    by (rule writer_seq [OF body [OF op] writer_flush])
  from rest [OF this] show ?thesis
    by (rule writer_cong) (use False in \<open>auto simp: convert_writer_def assms(1) convert_rest_def cbind_assoc intro!: ext\<close>)
next
  case True
  have "writer (\<lambda>c d. cbind (CBB_flush c d) (\<lambda>_ c. body c d)) x (length x \<le> 0xfffffffe)"
    using body [OF writer_flush] by simp
  from writer_asn1_value [OF this, of t]
  have "writer (\<lambda>c d. cbind (CBB_add_asn1 c d t) (\<lambda>_ c. cbind (body c (d + 1)) (\<lambda>_ c. CBB_flush c d))) (der_element t x) (length x \<le> 0xfffffffe)"
    by (rule writer_cong) (auto simp: cbind_def flush_new_child [simplified] split: prod.splits option.splits intro!: ext)
  note elem = this
  have conv: "cbs_convert_ber inp c d st l depth =
      cbind (CBB_add_asn1 c d t) (\<lambda>_ c. cbind (body c (d + 1)) (\<lambda>_ c. convert_rest inp2 c d st l depth))" for c d
    using assms(1) True by simp
  show ?thesis unfolding if_P [OF True]
    by (rule writer_cong [OF rest [OF writer_seq [OF op elem]]])
      (auto simp: convert_writer_def conv convert_rest_def cbind_assoc der_element_def intro!: ext)
qed

lemma ber_to_der_writer:
  assumes "ber_to_der st l depth inp w rest" "writer op out fits"
  shows "writer (convert_writer op inp st l depth) (out @ w) (fits \<and> length w \<le> 0xfffffffe)"
  using assms
proof (induction arbitrary: op out fits rule: ber_to_der.induct)
  case (ends depth st)
  then show ?case by (elim writer_cong) (auto simp: convert_writer_def convert_ends cbind_unit intro!: ext)
next
  case (eoc depth st rest)
  then show ?case by (elim writer_cong) (auto simp: convert_writer_def convert_ends cbind_unit intro!: ext)
next
  case (indefinite depth inp l e inp1 st x inp2 w rest)
  let ?st = "if st = 0 then string_below (elem_tag e) else st"
  show ?case unfolding wrap_def
  proof (rule convert_element [where body = "\<lambda>c d. cbind (cbs_convert_ber inp1 c d ?st True (depth + 1)) (\<lambda>_ c. (Some (), c))"])
    show "cbs_convert_ber inp c d st l depth =
      (if st \<noteq> 0 then cbind (cbind (cbs_convert_ber inp1 c d ?st True (depth + 1)) (\<lambda>_ c. (Some (), c))) (\<lambda>_ c. convert_rest inp2 c d st l depth)
       else cbind (CBB_add_asn1 c d (der_name (elem_tag e))) (\<lambda>_ c.
         cbind (cbind (cbs_convert_ber inp1 c (d + 1) ?st True (depth + 1)) (\<lambda>_ c. (Some (), c))) (\<lambda>_ c. convert_rest inp2 c d st l depth)))" for c d
      unfolding convert_step [OF indefinite.hyps(1,2,3,4)] convert_body_def
      using indefinite.hyps(5,6) convert_result [OF indefinite.hyps(7), where f = "\<lambda>r c. convert_rest r c d st l depth"]
      by (cases "st = 0") simp_all
  qed (use indefinite.IH indefinite.prems in \<open>simp_all add: convert_writer_def [abs_def]\<close>)
next
  case (nested depth inp l e inp1 st x w rest)
  let ?st = "if st = 0 then string_below (elem_tag e) else st" and ?x = "drop (elem_header_len e) (elem_out e)"
  show ?case unfolding wrap_def
  proof (rule convert_element [where body = "\<lambda>c d. cbind (cbs_convert_ber ?x c d ?st False (depth + 1)) (\<lambda>_ c. (Some (), c))"])
    show "cbs_convert_ber inp c d st l depth =
      (if st \<noteq> 0 then cbind (cbind (cbs_convert_ber ?x c d ?st False (depth + 1)) (\<lambda>_ c. (Some (), c))) (\<lambda>_ c. convert_rest inp1 c d st l depth)
       else cbind (CBB_add_asn1 c d (der_name (elem_tag e))) (\<lambda>_ c.
         cbind (cbind (cbs_convert_ber ?x c (d + 1) ?st False (depth + 1)) (\<lambda>_ c. (Some (), c))) (\<lambda>_ c. convert_rest inp1 c d st l depth)))" for c d
      unfolding convert_step [OF nested.hyps(1,2,3,4)] convert_body_def
      using nested.hyps(5,6,7) convert_result [OF nested.hyps(8), where f = "\<lambda>r c. convert_rest inp1 c d st l depth"]
      by (cases "st = 0") simp_all
  qed (use nested.IH nested.prems in \<open>simp_all add: convert_writer_def [abs_def]\<close>)
next
  case (primitive depth inp l e inp1 st w rest)
  let ?x = "drop (elem_header_len e) (elem_out e)"
  show ?case unfolding wrap_def
  proof (rule convert_element [where body = "\<lambda>c d. CBB_add_bytes c d ?x"])
    show "cbs_convert_ber inp c d st l depth =
      (if st \<noteq> 0 then cbind (CBB_add_bytes c d ?x) (\<lambda>_ c. convert_rest inp1 c d st l depth)
       else cbind (CBB_add_asn1 c d (der_name (elem_tag e))) (\<lambda>_ c.
         cbind (CBB_add_bytes c (d + 1) ?x) (\<lambda>_ c. convert_rest inp1 c d st l depth)))" for c d
      unfolding convert_step [OF primitive.hyps(1,2,3,4)] convert_body_def
      using primitive.hyps(5,6,7) by (auto simp: cbind_assoc)
    show "writer op out fits \<Longrightarrow> writer (\<lambda>c d. cbind (op c d) (\<lambda>_ c. CBB_add_bytes c d ?x)) (out @ ?x) (fits \<and> length ?x \<le> 0xfffffffe)"
      for op out fits
      using writer_seq [OF _ add_bytes.writer_axioms [of ?x], of op out fits] by (elim meta_impE writer_cong) auto
  qed (use primitive.IH primitive.prems in simp_all)
qed

section \<open>The output is DER\<close>

lemma length_wrap: "length (wrap st tag x) \<le> 11 + length x"
  using length_der_tag [of "der_name tag"] length_der_length [of "length x"]
  by (simp add: wrap_def der_element_def der_header_def)

lemma element_length: "CBS_get_any_ber_asn1_element c = (Some e, c') \<Longrightarrow>
    length c = length (elem_out e) + length c' \<and> 2 \<le> elem_header_len e \<and> elem_header_len e \<le> length (elem_out e)"
  using any_ber_element_parts(2,3) [of c e c'] arg_cong [OF any_ber_element_parts(1) [of c e c'], of length] by simp

lemma ber_to_der_length: "ber_to_der st l depth inp w rest \<Longrightarrow> length w + 6 * length rest \<le> 6 * length inp"
proof (induction rule: ber_to_der.induct)
  case (indefinite depth inp l e inp1 st x inp2 w rest)
  then show ?case using length_wrap [of st "elem_tag e" x] element_length [of inp e inp1] by simp
next
  case (nested depth inp l e inp1 st x w rest)
  have "length x \<le> 6 * length (elem_out e) - 6 * elem_header_len e"
    using nested.IH(1) by (simp add: diff_mult_distrib2)
  moreover have "12 \<le> 6 * elem_header_len e" "6 * elem_header_len e \<le> 6 * length (elem_out e)"
    using element_length [OF nested.hyps(4)] by simp_all
  ultimately have "length x + 12 \<le> 6 * length (elem_out e)" by linarith
  then show ?case using nested.IH(2) length_wrap [of st "elem_tag e" x] element_length [OF nested.hyps(4)] by simp
next
  case (primitive depth inp l e inp1 st w rest)
  have "length (drop (elem_header_len e) (elem_out e)) + 2 \<le> length (elem_out e)"
    using element_length [OF primitive.hyps(4)] unfolding length_drop by linarith
  then show ?case
    using primitive.IH length_wrap [of st "elem_tag e" "drop (elem_header_len e) (elem_out e)"] element_length [OF primitive.hyps(4)]
    by (simp del: length_drop)
qed simp_all

lemma der_name_cases:
  assumes "valid_tag tag"
  shows "valid_tag (der_name tag)"
    "constructed (der_name tag) \<Longrightarrow> constructed tag \<and> string_below tag = 0 \<and> \<not> is_string_type (der_name tag)"
proof -
  have clear: "(tag AND NOT CBS_ASN1_CONSTRUCTED) AND CBS_ASN1_CONSTRUCTED = 0" by (simp add: and.assoc)
  show "valid_tag (der_name tag)" using assms by (simp add: valid_tag_def der_name_def and.assoc)
  show "constructed (der_name tag) \<Longrightarrow> constructed tag \<and> string_below tag = 0 \<and> \<not> is_string_type (der_name tag)"
    using clear by (auto simp: der_name_def string_below_def constructed_def split: if_splits)
qed

text \<open>One step of the search over a DER element.\<close>

lemma find_ber_element:
  assumes "valid_tag t" "length x < 2 ^ 32" "depth \<le> kMaxDepth"
  shows "cbs_find_ber (der_element t x @ c) depth =
    (if constructed t then
       if is_string_type t then Some True
       else (case cbs_find_ber x (depth + 1) of None \<Rightarrow> None | Some f \<Rightarrow> if f then Some True else cbs_find_ber c depth)
     else cbs_find_ber c depth)"
proof -
  have get: "CBS_get_any_ber_asn1_element (der_element t x @ c) = (Some (parsed_element t x), c)"
    using any_asn1_element_encode [OF assms(1,2)] by (simp add: CBS_get_any_ber_asn1_element_def)
  have skip: "CBS_skip (der_element t x) (length (der_header t (length x))) = (Some (), x)"
    by (simp add: header_prefix)
  show ?thesis
    using assms(3) by (subst cbs_find_ber.simps) (simp add: get parsed_element_def skip)
qed

lemma find_ber_Nil: "depth \<le> kMaxDepth \<Longrightarrow> cbs_find_ber [] depth = Some False"
  by (subst cbs_find_ber.simps) simp

lemma ber_to_der_output:
  "ber_to_der st l depth inp w rest \<Longrightarrow> st = 0 \<Longrightarrow> length w < 2 ^ 32 \<Longrightarrow> cbs_find_ber w depth = Some False"
proof (induction rule: ber_to_der.induct)
  case (indefinite depth inp l e inp1 st x inp2 w rest)
  note valid = any_ber_element_parts(4) [OF indefinite.hyps(4)]
  have "length x < 2 ^ 32" "length w < 2 ^ 32" using indefinite.prems by (simp_all add: wrap_def der_element_def)
  then show ?case
    using indefinite.IH indefinite.prems(1) indefinite.hyps(1) der_name_cases [OF valid]
    by (auto simp: wrap_def find_ber_element)
next
  case (nested depth inp l e inp1 st x w rest)
  note valid = any_ber_element_parts(4) [OF nested.hyps(4)]
  have "length x < 2 ^ 32" "length w < 2 ^ 32" using nested.prems by (simp_all add: wrap_def der_element_def)
  then show ?case
    using nested.IH nested.prems(1) nested.hyps(1) der_name_cases [OF valid]
    by (auto simp: wrap_def find_ber_element)
next
  case (primitive depth inp l e inp1 st w rest)
  note valid = any_ber_element_parts(4) [OF primitive.hyps(4)]
  have "length (drop (elem_header_len e) (elem_out e)) < 2 ^ 32" "length w < 2 ^ 32"
    using primitive.prems by (simp_all add: wrap_def der_element_def)
  moreover have "\<not> constructed (der_name (elem_tag e))" using primitive.hyps(6) by (simp add: der_name_def)
  ultimately show ?case
    using primitive.IH primitive.prems(1) primitive.hyps(1) der_name_cases(1) [OF valid]
    by (simp add: wrap_def find_ber_element)
qed (simp_all add: find_ber_Nil)

lemma find_ber_prefix:
  assumes "cbs_find_ber c 0 = Some False" "CBS_get_any_asn1_element c = (Some (out, t, h), rest)"
  shows "cbs_find_ber out 0 = Some False"
proof -
  obtain x where x: "valid_tag t" "length x < 2 ^ 32" "out = der_element t x" "c = der_element t x @ rest"
    using assms(2) by (auto simp: CBS_get_any_asn1_element_iff)
  have d: "(0 :: nat) \<le> kMaxDepth" by simp
  show ?thesis
    using assms(1) find_ber_element [OF x(1,2) d, of rest] find_ber_element [OF x(1,2) d, of "[]"] find_ber_Nil [OF d]
    by (auto simp: x(3,4) split: if_splits option.splits)
qed

section \<open>What the strict parser makes of it\<close>

text \<open>
  A sequence of elements that the DER parser accepts at every level, without a constructed string: the tags are those of the
  universal string types that \<^verbatim>\<open>ber.c\<close> joins, by their numbers in X.680, with the bit of the constructed form. A BIT STRING is
  none of them.
\<close>

definition constructed_strings :: "CBS_ASN1_TAG list" where
  "constructed_strings =
     [0x20000004, 0x2000000c, 0x20000012, 0x20000013, 0x20000014, 0x20000015, 0x20000016, 0x20000019, 0x2000001a, 0x2000001b,
      0x2000001c, 0x2000001e]"

lemma parsed_shorter:
  "CBS_get_any_asn1 c = (Some (x, t), c') \<Longrightarrow> length x < length c \<and> length c' < length c"
proof -
  assume get: "CBS_get_any_asn1 c = (Some (x, t), c')"
  have "der_element t' x' \<noteq> []" for t' x' by (simp add: der_element_def der_header_def der_length_def)
  moreover have "length x' \<le> length (der_element t' x')" "0 < length (der_header t' n)" for t' x' n
    by (simp_all add: der_element_def der_header_def der_length_def)
  ultimately show ?thesis using get by (cases c rule: CBS_get_any_asn1_cases) (auto simp: der_element_def)
qed

function strict_der :: "CBS \<Rightarrow> bool" where
  "strict_der c =
     (c = [] \<or>
      (case CBS_get_any_asn1 c of
         (None, _) \<Rightarrow> False
       | (Some (contents, tag), rest) \<Rightarrow>
           (tag AND CBS_ASN1_CONSTRUCTED \<noteq> 0 \<longrightarrow> tag \<notin> set constructed_strings \<and> strict_der contents) \<and> strict_der rest))"
  by pat_completeness auto
termination
  by (relation "measure length") (auto dest: parsed_shorter [OF sym])

declare strict_der.simps [simp del]

lemma strict_der_element:
  assumes "valid_tag t" "length x < 2 ^ 32"
  shows "strict_der (der_element t x @ c) = ((constructed t \<longrightarrow> t \<notin> set constructed_strings \<and> strict_der x) \<and> strict_der c)"
proof -
  have "der_element t x @ c \<noteq> []" by (simp add: der_element_def der_header_def der_length_def)
  then show ?thesis
    by (subst strict_der.simps) (simp add: CBS_get_any_asn1_encode [OF assms] constructed_def)
qed

lemma strict_parser:
  assumes "cbs_get_any_asn1_element True c = (Some e, c')" "\<not> elem_ber_found e"
  shows "cbs_get_any_asn1_element False c = (Some e, c')"
  using assms
  by (auto simp: cbs_get_any_asn1_element_def Let_def cbind_eq_Some split: prod.splits option.splits if_splits)

lemma constructed_string_type: "t \<in> set constructed_strings \<Longrightarrow> is_string_type t"
  by (auto simp: constructed_strings_def is_string_type_def string_tags CBS_ASN1_CONSTRUCTED_def CBS_ASN1_TAG_SHIFT_def)

lemma no_ber_strict: "cbs_find_ber c depth = Some False \<Longrightarrow> strict_der c"
proof (induction "length c" arbitrary: c depth rule: less_induct)
  case less
  show ?case
  proof (cases "c = []")
    case True
    then show ?thesis by (simp add: strict_der.simps)
  next
    case False
    have depth: "depth \<le> kMaxDepth" using less.prems by (subst (asm) cbs_find_ber.simps) (auto split: if_splits)
    obtain e c' where e: "cbs_get_any_asn1_element True c = (Some e, c')" "\<not> elem_ber_found e"
      using less.prems depth False
      by (subst (asm) cbs_find_ber.simps) (auto simp: CBS_get_any_ber_asn1_element_def split: prod.splits option.splits if_splits)
    then have "CBS_get_any_asn1_element c = (Some (elem_out e, elem_tag e, elem_header_len e), c')"
      using strict_parser [OF e] by (simp add: CBS_get_any_asn1_element_def)
    then obtain x where x: "valid_tag (elem_tag e)" "length x < 2 ^ 32" "c = der_element (elem_tag e) x @ c'"
      by (auto simp: CBS_get_any_asn1_element_iff)
    have short: "length x < length c" "length c' < length c"
      using parsed_shorter [OF CBS_get_any_asn1_encode [OF x(1,2), of c']] by (simp_all add: x(3))
    note find = less.prems [unfolded x(3) find_ber_element [OF x(1,2) depth]]
    have "strict_der c'" using find by (auto split: if_splits option.splits intro: less.hyps [OF short(2)])
    moreover have "\<not> is_string_type (elem_tag e)" "strict_der x" if "constructed (elem_tag e)"
      using find that by (auto split: if_splits option.splits intro: less.hyps [OF short(1)])
    ultimately show ?thesis unfolding x(3) strict_der_element [OF x(1,2)] using constructed_string_type by blast
  qed
qed

section \<open>Properties\<close>

text \<open>The conversion with a builder of its own.\<close>

lemma convert_builds:
  assumes "CBS_asn1_ber_to_der alloc_ok inp = Some (out, Some storage, rest)" "length inp < 2 ^ 60"
  shows "cbs_find_ber inp 0 = Some True \<and> storage = out \<and> ber_to_der 0 False 0 inp out rest"
proof -
  obtain cbb c' where find: "cbs_find_ber inp 0 = Some True" and init: "CBB_init alloc_ok (length inp) = Some cbb"
    and conv: "cbs_convert_ber inp cbb 0 0 False 0 = (Some rest, c')" and fin: "CBB_finish c' 0 True = Some out" "storage = out"
    using assms(1) by (auto simp: CBS_asn1_ber_to_der_def split: option.splits prod.splits if_splits)
  obtain w where w: "ber_to_der 0 False 0 inp w rest" using convert_sound [OF conv] by blast
  have len: "length w < size_max" using ber_to_der_length [OF w] assms(2) by simp
  have cbb: "cbb = cbb_init alloc_ok (length inp) True" using init by (auto simp: CBB_init_def split: if_splits)
  have "CBB_flush cbb 0 = (Some (), cbb)" by (simp add: cbb cbb_init_def CBB_flush_def flush_chain.simps)
  then have "build (Some cbb) (convert_writer CBB_flush inp 0 False 0) = Some out"
    by (simp add: build_def convert_writer_def conv fin)
  then have "out = w"
    using build_writer [OF ber_to_der_writer [OF w writer_flush], of "length inp" alloc_ok True out] len assms(2) by (simp add: cbb)
  then show ?thesis using find fin(2) w by simp
qed

lemma convert_total:
  assumes "cbs_find_ber inp 0 = Some True" "ber_to_der 0 False 0 inp w []" "length w \<le> 0xfffffffe" "length inp < 2 ^ 60"
  shows "CBS_asn1_ber_to_der (\<lambda>_. True) inp = Some (w, Some w, [])"
proof -
  let ?c = "cbb_init (\<lambda>_. True) (length inp) True"
  have init: "CBB_init (\<lambda>_. True) (length inp) = Some ?c" by (simp add: CBB_init_def)
  have flush: "CBB_flush ?c 0 = (Some (), ?c)" by (simp add: cbb_init_def CBB_flush_def flush_chain.simps)
  have "build (CBB_init (\<lambda>_. True) (length inp)) (convert_writer CBB_flush inp 0 False 0) = Some w"
    using build_total [OF ber_to_der_writer [OF _ writer_flush], of 0 False 0 inp w "[]" "length inp"] assms by simp
  then have b: "(case convert_writer CBB_flush inp 0 False 0 ?c 0 of (None, c) \<Rightarrow> None | (Some _, c) \<Rightarrow> CBB_finish c 0 True) = Some w"
    by (simp add: build_def init)
  then obtain r c' where conv: "cbs_convert_ber inp ?c 0 0 False 0 = (Some r, c')" and fin: "CBB_finish c' 0 True = Some w"
    by (cases "cbs_convert_ber inp ?c 0 0 False 0"; cases "fst (cbs_convert_ber inp ?c 0 0 False 0)")
      (auto simp: convert_writer_def flush)
  have "r = []" using convert_sound [OF conv] no_eoc_rest by blast
  then show "CBS_asn1_ber_to_der (\<lambda>_. True) inp = Some (w, Some w, [])"
    using assms(1) conv fin by (simp add: CBS_asn1_ber_to_der_def init)
qed

text \<open>
  C32: the conversion refines the relation \<open>ber_to_der\<close> between BER and DER: whatever the allocator does, what
  \<open>CBS_asn1_ber_to_der\<close> returns in new storage is the conversion of its input; and if the input has a conversion and
  memory suffices, it is returned.
\<close>

theorem ber_to_der_refines:
  assumes "length inp < 2 ^ 60"
  shows "(CBS_asn1_ber_to_der alloc_ok inp = Some (out, Some storage, rest) \<longrightarrow>
      storage = out \<and> rest = [] \<and> ber_to_der 0 False 0 inp out []) \<and>
    (cbs_find_ber inp 0 = Some True \<and> ber_to_der 0 False 0 inp w [] \<and> length w \<le> 0xfffffffe \<longrightarrow>
      CBS_asn1_ber_to_der (\<lambda>_. True) inp = Some (w, Some w, []))"
proof (intro conjI impI)
  assume "CBS_asn1_ber_to_der alloc_ok inp = Some (out, Some storage, rest)"
  then have "storage = out" "ber_to_der 0 False 0 inp out rest" using convert_builds [OF _ assms] by blast+
  moreover from this(2) have "rest = []" by (rule no_eoc_rest)
  ultimately show "storage = out" "rest = []" "ber_to_der 0 False 0 inp out []" by simp_all
next
  assume "cbs_find_ber inp 0 = Some True \<and> ber_to_der 0 False 0 inp w [] \<and> length w \<le> 0xfffffffe"
  then show "CBS_asn1_ber_to_der (\<lambda>_. True) inp = Some (w, Some w, [])" by (intro convert_total) (use assms in auto)
qed

text \<open>
  C33: what \<open>CBS_asn1_ber_to_der\<close> returns, converted or not, is DER: the strict parser reads all of it, element after element
  and at every level, no string in it is constructed, and it needs no further conversion.
\<close>

theorem ber_to_der_is_der:
  assumes "CBS_asn1_ber_to_der alloc_ok inp = Some (out, storage, rest)" "length inp < 2 ^ 29"
  shows "strict_der out \<and> cbs_find_ber out 0 = Some False"
proof -
  have "cbs_find_ber out 0 = Some False"
  proof (cases storage)
  case None
  then show ?thesis
    using assms(1) find_ber_prefix [of inp out] by (auto simp: CBS_asn1_ber_to_der_def split: option.splits prod.splits if_splits)
next
  case (Some s)
  then have "ber_to_der 0 False 0 inp out rest" using convert_builds [of alloc_ok inp out s rest] assms by simp
  moreover from ber_to_der_length [OF this] assms(2) have "length out < 2 ^ 32" by simp
  ultimately show ?thesis using ber_to_der_output by blast
  qed
  then show ?thesis using no_ber_strict by blast
qed

text \<open>An empty SEQUENCE of indefinite length in front of NULL, and of definite length.\<close>

lemmas any_ber_defs = CBS_get_any_ber_asn1_element_def CBS_get_any_asn1_element_def cbs_get_any_asn1_element_def parse_asn1_tag_def
  CBS_get_u8_Cons cbs_get_u_def CBS_get_bytes_def cbs_get_def Let_def size_add_def CBS_ASN1_TAG_SHIFT_def CBS_ASN1_CONSTRUCTED_def

lemma parse_examples:
  "CBS_get_any_ber_asn1_element [0x30, 0x80, 0, 0, 5, 0] =
     (Some \<lparr>elem_out = [0x30, 0x80], elem_tag = 0x20000010, elem_header_len = 2, elem_ber_found = True, elem_indefinite = True\<rparr>,
      [0, 0, 5, 0])"
  "CBS_get_any_ber_asn1_element [5, 0] =
     (Some \<lparr>elem_out = [5, 0], elem_tag = 5, elem_header_len = 2, elem_ber_found = False, elem_indefinite = False\<rparr>, [])"
  "CBS_get_any_asn1_element [0x30, 0, 5, 0] = (Some ([0x30, 0], 0x20000010, 2), [5, 0])"
  "CBS_get_any_ber_asn1_element [0x30, 0, 5, 0] =
     (Some \<lparr>elem_out = [0x30, 0], elem_tag = 0x20000010, elem_header_len = 2, elem_ber_found = False, elem_indefinite = False\<rparr>,
      [5, 0])"
  by (simp_all add: any_ber_defs)

lemma sequence_tag: "constructed 0x20000010" "\<not> is_string_type 0x20000010" "der_name 0x20000010 = 0x20000010" "\<not> constructed 5"
    "string_below 0x20000010 = 0" "der_name 5 = 5" "der_element 0x20000010 [] = [0x30, 0]" "der_element 5 [] = [5, 0]"
  by (simp_all add: constructed_def is_string_type_def der_name_def string_below_def string_tags CBS_ASN1_CONSTRUCTED_def
      CBS_ASN1_TAG_SHIFT_def der_element_def der_header_def der_tag_def der_length_def mask_eq_exp_minus_1)

lemma find_ber_example: "cbs_find_ber [0x30, 0x80, 0, 0, 5, 0] 0 = Some True"
  by (subst cbs_find_ber.simps) (simp add: parse_examples)

lemma ber_to_der_example: "ber_to_der 0 False 0 [0x30, 0x80, 0, 0, 5, 0] [0x30, 0, 5, 0] []"
proof -
  have "ber_to_der 0 False 0 [5, 0] (wrap 0 5 (drop 2 [5, 0]) @ []) []"
    using ber_to_der.primitive [OF _ _ _ parse_examples(2), of 0 False 0 "[]" "[]"] ber_to_der.ends [of 0 0] by (simp add: sequence_tag)
  then have null: "ber_to_der 0 False 0 [5, 0] [5, 0] []" by (simp add: wrap_def sequence_tag)
  have "ber_to_der 0 True 1 [0, 0, 5, 0] [] [5, 0]" by (rule ber_to_der.eoc) (simp add: kMaxDepth_def)
  then have "ber_to_der 0 False 0 [0x30, 0x80, 0, 0, 5, 0] (wrap 0 0x20000010 [] @ [5, 0]) []"
    using ber_to_der.indefinite [OF _ _ _ parse_examples(1), of 0 False 0 "[]" "[5, 0]" "[5, 0]" "[]"] null by (simp add: sequence_tag)
  then show ?thesis by (simp add: wrap_def sequence_tag)
qed

lemma convert_example:
  "CBS_asn1_ber_to_der (\<lambda>_. True) [0x30, 0x80, 0, 0, 5, 0] = Some ([0x30, 0, 5, 0], Some [0x30, 0, 5, 0], [])"
  by (rule convert_total [OF find_ber_example ber_to_der_example]) simp_all

lemma ber_to_der_refines_witness:
  "ber_to_der 0 False 0 [0x30, 0x80, 0, 0, 5, 0] [0x30, 0, 5, 0] [] \<and>
   CBS_asn1_ber_to_der (\<lambda>_. True) [0x30, 0x80, 0, 0, 5, 0] = Some ([0x30, 0, 5, 0], Some [0x30, 0, 5, 0], [])"
proof
  have len: "length [0x30, 0x80, 0, 0, 5, 0 :: u8] < 2 ^ 60" by simp
  note refines = ber_to_der_refines [OF len]
  show der: "ber_to_der 0 False 0 [0x30, 0x80, 0, 0, 5, 0] [0x30, 0, 5, 0] []"
    using mp [OF conjunct1 [OF refines] convert_example] by blast
  have "length ([0x30, 0, 5, 0] :: bytes) \<le> 0xfffffffe" by simp
  with find_ber_example der
  show "CBS_asn1_ber_to_der (\<lambda>_. True) [0x30, 0x80, 0, 0, 5, 0] = Some ([0x30, 0, 5, 0], Some [0x30, 0, 5, 0], [])"
    using mp [OF conjunct2 [OF refines]] by blast
qed

lemma ber_to_der_is_der_witness: "strict_der [0x30, 0, 5, 0] \<and> cbs_find_ber [0x30, 0, 5, 0] 0 = Some False"
  by (rule ber_to_der_is_der [OF convert_example]) simp

end
