(* ===== verification/BerString.thy ===== *)
theory BerString
  imports Ber
begin

text \<open>
  \<open>CBS_get_asn1_implicit_string\<close> of \<open>crypto/bytestring/ber.c\<close>, which reads a string that BER may have cut into
  fragments.
\<close>

section \<open>The code\<close>

lemma get_asn1_shorter: "CBS_get_asn1 c t = (Some x, c') \<Longrightarrow> length c' < length c"
  by (auto simp: CBS_get_asn1_iff)

function implicit_string_loop :: "CBB \<Rightarrow> nat \<Rightarrow> CBS \<Rightarrow> CBS_ASN1_TAG \<Rightarrow> (unit, CBB) cres" where
  "implicit_string_loop result d child inner_tag =
     (if length child > 0 then
        (case CBS_get_asn1 child inner_tag of
           (None, _) \<Rightarrow> (None, result)
         | (Some chunk, child) \<Rightarrow>
             cbind (CBB_add_bytes result d chunk) (\<lambda>_ result. implicit_string_loop result d child inner_tag))
      else (Some (), result))"
  by pat_completeness auto
termination
  by (relation "measure (\<lambda>(_, _, child, _). length child)") (auto dest: get_asn1_shorter [OF sym])

declare implicit_string_loop.simps [simp del]

text \<open>The result is \<open>out\<close>, the new storage if there is one, and the rest of \<open>in\<close>.\<close>

definition CBS_get_asn1_implicit_string ::
    "(nat \<Rightarrow> bool) \<Rightarrow> CBS \<Rightarrow> CBS_ASN1_TAG \<Rightarrow> CBS_ASN1_TAG \<Rightarrow> (CBS \<times> bytes option \<times> CBS) option" where
  "CBS_get_asn1_implicit_string alloc_ok inp outer_tag inner_tag =
     (if CBS_peek_asn1_tag inp outer_tag then
        (case CBS_get_asn1 inp outer_tag of (None, _) \<Rightarrow> None | (Some out, inp) \<Rightarrow> Some (out, None, inp))
      else
        (case CBB_init alloc_ok (length inp) of
           None \<Rightarrow> None
         | Some result \<Rightarrow>
             (case CBS_get_asn1 inp (outer_tag OR CBS_ASN1_CONSTRUCTED) of
                (None, _) \<Rightarrow> None
              | (Some child, inp) \<Rightarrow>
                  (case implicit_string_loop result 0 child inner_tag of
                     (None, _) \<Rightarrow> None
                   | (Some _, result) \<Rightarrow>
                       (case CBB_finish result 0 True of
                          None \<Rightarrow> None
                        | Some data \<Rightarrow> Some (data, Some data, inp))))))"

section \<open>Fragments\<close>

definition fragments :: "CBS_ASN1_TAG \<Rightarrow> bytes list \<Rightarrow> bytes" where
  "fragments t xs = concat (map (der_element t) xs)"

lemma string_loop_writer:
  assumes "writer op out fits" "valid_tag t" "\<forall>x\<in>set xs. length x < 2 ^ 32"
  shows "writer (\<lambda>c d. cbind (op c d) (\<lambda>_ c. implicit_string_loop c d (fragments t xs) t)) (out @ concat xs) fits"
  using assms
proof (induction xs arbitrary: op out)
  case Nil
  then show ?case by (simp add: implicit_string_loop.simps fragments_def cbind_unit)
next
  case (Cons x xs)
  have get: "CBS_get_asn1 (fragments t (x # xs)) t = (Some x, fragments t xs)"
    using Cons.prems(2,3) by (simp add: fragments_def asn1.get_put)
  have "fragments t (x # xs) \<noteq> []" by (simp add: fragments_def)
  then have loop: "implicit_string_loop c d (fragments t (x # xs)) t =
      cbind (CBB_add_bytes c d x) (\<lambda>_ c. implicit_string_loop c d (fragments t xs) t)" for c d
    by (subst implicit_string_loop.simps) (simp add: get)
  have "writer (\<lambda>c d. cbind (op c d) (\<lambda>_ c. CBB_add_bytes c d x)) (out @ x) fits"
    using writer_seq [OF Cons.prems(1) add_bytes.writer_axioms [of x]] by simp
  from Cons.IH [OF this Cons.prems(2)] Cons.prems(3)
  have "writer (\<lambda>c d. cbind (cbind (op c d) (\<lambda>_ c. CBB_add_bytes c d x)) (\<lambda>_ c. implicit_string_loop c d (fragments t xs) t))
      ((out @ x) @ concat xs) fits" by simp
  then show ?case by (elim writer_cong) (auto simp: loop cbind_assoc intro!: ext)
qed

lemma string_loop_parses:
  "implicit_string_loop c d child t = (Some u, c') \<Longrightarrow> \<exists>xs. child = fragments t xs \<and> (\<forall>x\<in>set xs. length x < 2 ^ 32)"
proof (induction "length child" arbitrary: c child rule: less_induct)
  case less
  show ?case
  proof (cases "child = []")
    case True
    then show ?thesis by (intro exI [of _ "[]"]) (simp add: fragments_def)
  next
    case False
    then obtain x rest where get: "CBS_get_asn1 child t = (Some x, rest)"
      using less.prems by (subst (asm) implicit_string_loop.simps) (auto split: prod.splits option.splits)
    then obtain c2 where "implicit_string_loop c2 d rest t = (Some u, c')"
      using less.prems False by (subst (asm) implicit_string_loop.simps) (auto simp: cbind_eq_Some)
    then obtain xs where "rest = fragments t xs" "\<forall>x\<in>set xs. length x < 2 ^ 32" using less.hyps get_asn1_shorter [OF get] by blast
    then show ?thesis using get by (intro exI [of _ "x # xs"]) (auto simp: fragments_def CBS_get_asn1_iff)
  qed
qed

lemma length_fragments: "length (concat xs) \<le> length (fragments t xs)"
  by (induction xs) (simp_all add: fragments_def der_element_def)

lemma loop_builds:
  assumes "n < size_max" "valid_tag t" "\<forall>x\<in>set xs. length x < 2 ^ 32" "length (concat xs) < size_max"
  shows "\<exists>c'. implicit_string_loop (cbb_init (\<lambda>_. True) n True) 0 (fragments t xs) t = (Some (), c') \<and> CBB_finish c' 0 True = Some (concat xs)"
proof -
  let ?c = "cbb_init (\<lambda>_. True) n True"
  have flush: "CBB_flush ?c 0 = (Some (), ?c)" by (simp add: cbb_init_def CBB_flush_def flush_chain.simps)
  have "writer (\<lambda>c d. cbind (CBB_flush c d) (\<lambda>_ c. implicit_string_loop c d (fragments t xs) t)) (concat xs) True"
    using string_loop_writer [OF writer_flush assms(2,3)] by simp
  from build_total [OF this assms(4,1) TrueI]
  have "(case implicit_string_loop ?c 0 (fragments t xs) t of (None, c) \<Rightarrow> None | (Some _, c) \<Rightarrow> CBB_finish c 0 True) = Some (concat xs)"
    by (simp add: build_def CBB_init_def flush)
  then show ?thesis by (auto split: prod.splits option.splits)
qed

lemma constructed_tag:
  assumes "valid_tag t" "\<not> constructed t"
  shows "valid_tag (t OR CBS_ASN1_CONSTRUCTED)" "t OR CBS_ASN1_CONSTRUCTED \<noteq> t"
proof -
  have "(t OR CBS_ASN1_CONSTRUCTED) AND NOT CBS_ASN1_CONSTRUCTED = t AND NOT CBS_ASN1_CONSTRUCTED"
    by (rule bit_word_eqI) (auto simp: bit_simps)
  then show "valid_tag (t OR CBS_ASN1_CONSTRUCTED)" using assms(1) by (simp add: valid_tag_def)
  have "(t OR CBS_ASN1_CONSTRUCTED) AND CBS_ASN1_CONSTRUCTED = CBS_ASN1_CONSTRUCTED"
    by (rule bit_word_eqI) (auto simp: bit_simps)
  moreover have "CBS_ASN1_CONSTRUCTED \<noteq> 0" by (simp add: CBS_ASN1_CONSTRUCTED_def CBS_ASN1_TAG_SHIFT_def)
  moreover have "t AND CBS_ASN1_CONSTRUCTED = 0" using assms(2) by (simp add: constructed_def)
  ultimately show "t OR CBS_ASN1_CONSTRUCTED \<noteq> t" by metis
qed

lemma peek_element: "valid_tag t \<Longrightarrow> CBS_peek_asn1_tag (der_element t x @ rest) t' \<longleftrightarrow> t' = t"
  using parse_der_tag [of t "der_length (length x) @ x @ rest"] by (auto simp: CBS_peek_asn1_tag_def der_element_def der_header_def)

section \<open>Properties\<close>

text \<open>
  an implicitly tagged string is read from its primitive encoding without a copy and from a constructed encoding as
  the concatenation of its fragments, which must all be primitive strings of the inner tag; nothing else is accepted.
\<close>

theorem implicit_string_concatenates:
  assumes "valid_tag outer" "\<not> constructed outer" "valid_tag inner" "length inp < 2 ^ 60"
  shows "case CBS_get_asn1_implicit_string (\<lambda>_. True) inp outer inner of
      Some (out, None, rest) \<Rightarrow> inp = der_element outer out @ rest
    | Some (out, Some storage, rest) \<Rightarrow> storage = out \<and>
        (\<exists>xs. out = concat xs \<and> inp = der_element (outer OR CBS_ASN1_CONSTRUCTED) (fragments inner xs) @ rest)
    | None \<Rightarrow> (\<forall>out rest. length out < 2 ^ 32 \<longrightarrow> inp \<noteq> der_element outer out @ rest) \<and>
        (\<forall>xs rest. length (fragments inner xs) < 2 ^ 32 \<longrightarrow>
           inp \<noteq> der_element (outer OR CBS_ASN1_CONSTRUCTED) (fragments inner xs) @ rest)"
proof (cases "CBS_peek_asn1_tag inp outer")
  case True
  have "inp \<noteq> der_element (outer OR CBS_ASN1_CONSTRUCTED) y @ rest" for y rest
    using True peek_element constructed_tag [OF assms(1,2)] by metis
  note other = this
  show ?thesis
  proof (cases "fst (CBS_get_asn1 inp outer)")
    case None
    then have "CBS_get_asn1_implicit_string (\<lambda>_. True) inp outer inner = None"
      using True by (cases "CBS_get_asn1 inp outer") (simp add: CBS_get_asn1_implicit_string_def)
    moreover have "inp \<noteq> der_element outer y @ rest" if "length y < 2 ^ 32" for y rest
      using asn1.get_put [of outer y rest] assms(1) that None by auto
    ultimately show ?thesis using other by simp
  next
    case (Some y)
    then obtain rest where get: "CBS_get_asn1 inp outer = (Some y, rest)" by (cases "CBS_get_asn1 inp outer") auto
    then have "CBS_get_asn1_implicit_string (\<lambda>_. True) inp outer inner = Some (y, None, rest)"
      using True by (simp add: CBS_get_asn1_implicit_string_def)
    then show ?thesis using get unfolding CBS_get_asn1_iff by simp
  qed
next
  case False
  have prim: "inp \<noteq> der_element outer y @ rest" for y rest using False peek_element [OF assms(1)] by metis
  let ?t = "outer OR CBS_ASN1_CONSTRUCTED"
  show ?thesis
  proof (cases "fst (CBS_get_asn1 inp ?t)")
    case None
    then have "inp \<noteq> der_element ?t y @ rest" if "length y < 2 ^ 32" for y rest
      using asn1.get_put [of ?t y rest] constructed_tag(1) [OF assms(1,2)] that by auto
    then show ?thesis
      using False None prim
      by (cases "CBS_get_asn1 inp ?t") (auto simp: CBS_get_asn1_implicit_string_def CBB_init_def)
  next
    case (Some child)
    then obtain rest where get: "CBS_get_asn1 inp ?t = (Some child, rest)" by (cases "CBS_get_asn1 inp ?t") auto
    then have inp: "inp = der_element ?t child @ rest" "length child < 2 ^ 32" by (auto simp: CBS_get_asn1_iff)
    let ?c = "cbb_init (\<lambda>_. True) (length inp) True"
    show ?thesis
    proof (cases "\<exists>xs. child = fragments inner xs \<and> (\<forall>x\<in>set xs. length x < 2 ^ 32)")
      case True
      then obtain xs where xs: "child = fragments inner xs" "\<forall>x\<in>set xs. length x < 2 ^ 32" by blast
      have "length (concat xs) < size_max" using length_fragments [of xs inner] inp(2) xs(1) by simp
      then obtain c' where "implicit_string_loop ?c 0 child inner = (Some (), c')" "CBB_finish c' 0 True = Some (concat xs)"
        using loop_builds [of "length inp" inner xs] assms(3,4) xs by auto
      then show ?thesis using False get inp xs(1) by (auto simp: CBS_get_asn1_implicit_string_def CBB_init_def)
    next
      case bad: False
      then have "fst (implicit_string_loop ?c 0 child inner) = None"
        using string_loop_parses [of ?c 0 child inner "()"] by (metis old.unit.exhaust option.exhaust prod.collapse)
      then have "CBS_get_asn1_implicit_string (\<lambda>_. True) inp outer inner = None"
        using False get
        by (cases "implicit_string_loop ?c 0 child inner") (auto simp: CBS_get_asn1_implicit_string_def CBB_init_def)
      moreover have "inp \<noteq> der_element ?t (fragments inner xs) @ rest'" if len: "length (fragments inner xs) < 2 ^ 32" for xs rest'
      proof
        assume "inp = der_element ?t (fragments inner xs) @ rest'"
        then have "child = fragments inner xs"
          using get asn1.get_put [of ?t "fragments inner xs" rest'] constructed_tag(1) [OF assms(1,2)] len by simp
        moreover have "\<forall>x\<in>set xs. length x < 2 ^ 32"
        proof
          fix x assume "x \<in> set xs"
          then obtain ys zs where "xs = ys @ x # zs" by (meson split_list)
          then have "length x \<le> length (fragments inner xs)" by (simp add: fragments_def der_element_def)
          then show "length x < 2 ^ 32" using len by simp
        qed
        ultimately show False using bad by blast
      qed
      ultimately show ?thesis using prim by simp
    qed
  qed
qed

lemma implicit_string_concatenates_witness:
  "case CBS_get_asn1_implicit_string (\<lambda>_. True) [0xa0, 6, 4, 1, 7, 4, 1, 8] 0x80000000 4 of
      Some (out, Some storage, rest) \<Rightarrow> storage = out \<and>
        (\<exists>xs. out = concat xs \<and> [0xa0, 6, 4, 1, 7, 4, 1, 8] = der_element (0x80000000 OR CBS_ASN1_CONSTRUCTED) (fragments 4 xs) @ rest)
    | _ \<Rightarrow> False"
proof -
  have tags: "valid_tag 0x80000000" "\<not> constructed 0x80000000" "valid_tag 4"
    by (simp_all add: valid_tag_def constructed_def CBS_ASN1_CONSTRUCTED_def CBS_ASN1_TAG_SHIFT_def)
  define inp where "inp = [0xa0, 6, 4, 1, 7, 4, 1, 8 :: u8]"
  let ?ct = "0x80000000 OR CBS_ASN1_CONSTRUCTED"
  note eval = Let_def mask_eq_exp_minus_1 der_element_def der_header_def der_tag_def der_length_def CBS_ASN1_CONSTRUCTED_def CBS_ASN1_TAG_SHIFT_def
  have "length inp < 2 ^ 60" by (simp add: inp_def)
  note string = implicit_string_concatenates [OF tags this]
  have len: "length (fragments 4 [[7], [8]]) < 2 ^ 32" by (simp add: fragments_def eval)
  have enc: "inp = der_element ?ct (fragments 4 [[7], [8]]) @ []" by (simp add: fragments_def inp_def eval)
  have "hd (der_element 0x80000000 out) = 0x80" for out by (simp add: eval)
  moreover have "der_element 0x80000000 out \<noteq> []" for out by (simp add: eval)
  moreover have neq: "(0xa0 :: u8) \<noteq> 0x80" by simp
  ultimately have prim: "inp \<noteq> der_element 0x80000000 out @ rest" for out rest by (metis hd_append2 inp_def list.sel(1) neq)
  have "case CBS_get_asn1_implicit_string (\<lambda>_. True) inp 0x80000000 4 of
      Some (out, Some storage, rest) \<Rightarrow> storage = out \<and> (\<exists>xs. out = concat xs \<and> inp = der_element ?ct (fragments 4 xs) @ rest)
    | _ \<Rightarrow> False"
  proof (cases "CBS_get_asn1_implicit_string (\<lambda>_. True) inp 0x80000000 4")
    case None
    then show ?thesis using string enc len by (simp only: option.case) blast
  next
    case (Some r)
    obtain out st rest where r: "r = (out, st, rest)" by (cases r)
    then obtain storage where "st = Some storage" using string Some prim by (cases st) simp_all
    then show ?thesis using string Some r by simp
  qed
  then show ?thesis unfolding inp_def .
qed

end
