(* ===== verification/Stack.thy ===== *)
theory Stack
  imports Prelude
begin

text \<open>
  \<^verbatim>\<open>crypto/stack/stack.c\<close>: the growing array of pointers that the certificate and name code keeps its lists in.

  A pointer is an integer, 0 is the null pointer; a stack that may be null is an option. \<open>st_data\<close> is the whole
  allocation. Function pointers are integers too: the code compares them with each other and with null, and calls them
  through the \<open>call_\<close> arguments. The allocator is the parameter \<open>malloc\<close>: of a size in bytes, the pointers that the
  block happens to hold.
\<close>

record stack_st =
  st_num :: nat
  st_data :: "int list"
  st_sorted :: bool
  st_num_alloc :: nat
  st_comp :: int

type_synonym OPENSSL_STACK = "stack_st option"
type_synonym ptr_allocator = "nat \<Rightarrow> int list option"
type_synonym call_cmp = "int \<Rightarrow> int \<Rightarrow> int \<Rightarrow> int"

definition kMinSize :: nat where "kMinSize = 4"

abbreviation int_max :: nat where "int_max \<equiv> 2147483647"

section \<open>Making and reading a stack\<close>

text \<open>\<open>OPENSSL_calloc\<close> fills the block with null pointers. \<open>zalloc_ok\<close>: the struct itself could be allocated.\<close>

definition OPENSSL_sk_new :: "ptr_allocator \<Rightarrow> bool \<Rightarrow> int \<Rightarrow> OPENSSL_STACK" where
  "OPENSSL_sk_new malloc zalloc_ok cmp =
     (if \<not> zalloc_ok then None
      else case malloc (kMinSize * 8) of
             None \<Rightarrow> None
           | Some _ \<Rightarrow> Some \<lparr>st_num = 0, st_data = replicate kMinSize 0, st_sorted = False,
                              st_num_alloc = kMinSize, st_comp = cmp\<rparr>)"

definition OPENSSL_sk_new_null :: "ptr_allocator \<Rightarrow> bool \<Rightarrow> OPENSSL_STACK" where
  "OPENSSL_sk_new_null malloc zalloc_ok = OPENSSL_sk_new malloc zalloc_ok 0"

definition OPENSSL_sk_num :: "OPENSSL_STACK \<Rightarrow> nat" where
  "OPENSSL_sk_num sk = (case sk of None \<Rightarrow> 0 | Some s \<Rightarrow> st_num s)"

definition OPENSSL_sk_zero :: "OPENSSL_STACK \<Rightarrow> OPENSSL_STACK" where
  "OPENSSL_sk_zero sk =
     (case sk of
        None \<Rightarrow> None
      | Some s \<Rightarrow>
          if st_num s = 0 then Some s
          else Some (s\<lparr>st_data := replicate (st_num s) 0 @ drop (st_num s) (st_data s), st_num := 0, st_sorted := False\<rparr>))"

definition OPENSSL_sk_value :: "OPENSSL_STACK \<Rightarrow> nat \<Rightarrow> int" where
  "OPENSSL_sk_value sk i =
     (case sk of None \<Rightarrow> 0 | Some s \<Rightarrow> if i \<ge> st_num s then 0 else st_data s ! i)"

definition OPENSSL_sk_set :: "OPENSSL_STACK \<Rightarrow> nat \<Rightarrow> int \<Rightarrow> int \<times> OPENSSL_STACK" where
  "OPENSSL_sk_set sk i v =
     (case sk of
        None \<Rightarrow> (0, None)
      | Some s \<Rightarrow> if i \<ge> st_num s then (0, sk) else (v, Some (s\<lparr>st_data := (st_data s)[i := v]\<rparr>)))"

text \<open>Freeing the elements: the pointers that the function is called on, in order.\<close>

definition OPENSSL_sk_pop_free_ex :: "OPENSSL_STACK \<Rightarrow> int list" where
  "OPENSSL_sk_pop_free_ex sk =
     (case sk of None \<Rightarrow> [] | Some s \<Rightarrow> filter (\<lambda>p. p \<noteq> 0) (take (st_num s) (st_data s)))"

section \<open>Insertion and deletion\<close>

text \<open>Growing: the array is doubled, or, if that overflows, extended by one pointer.\<close>

definition grown_alloc :: "nat \<Rightarrow> nat option" where
  "grown_alloc num_alloc =
     (let new_alloc = num_alloc * 2 mod size_max; alloc_size = new_alloc * 8 mod size_max;
          (new_alloc, alloc_size) =
            (if new_alloc < num_alloc \<or> alloc_size div 8 \<noteq> new_alloc
             then (size_add num_alloc 1, size_add num_alloc 1 * 8 mod size_max) else (new_alloc, alloc_size))
      in if new_alloc < num_alloc \<or> alloc_size div 8 \<noteq> new_alloc then None else Some new_alloc)"

definition realloc_ptrs :: "ptr_allocator \<Rightarrow> int list \<Rightarrow> nat \<Rightarrow> int list option" where
  "realloc_ptrs malloc old n =
     (case malloc (n * 8) of
        None \<Rightarrow> None
      | Some blk \<Rightarrow> Some (take n old @ drop (length old) blk))"

definition sk_reserve :: "ptr_allocator \<Rightarrow> stack_st \<Rightarrow> stack_st option" where
  "sk_reserve malloc s =
     (if st_num_alloc s \<le> size_add (st_num s) 1 then
        case grown_alloc (st_num_alloc s) of
          None \<Rightarrow> None
        | Some new_alloc \<Rightarrow>
            (case realloc_ptrs malloc (st_data s) new_alloc of
               None \<Rightarrow> None
             | Some data \<Rightarrow> Some (s\<lparr>st_data := data, st_num_alloc := new_alloc\<rparr>))
      else Some s)"

text \<open>\<open>memmove\<close> of \<open>n\<close> pointers from index \<open>src\<close> to index \<open>dst\<close>.\<close>

definition memmove_ptrs :: "nat \<Rightarrow> nat \<Rightarrow> nat \<Rightarrow> int list \<Rightarrow> int list" where
  "memmove_ptrs dst src n data = take dst data @ take n (drop src data) @ drop (dst + n) data"

definition OPENSSL_sk_insert :: "ptr_allocator \<Rightarrow> OPENSSL_STACK \<Rightarrow> int \<Rightarrow> nat \<Rightarrow> nat \<times> OPENSSL_STACK" where
  "OPENSSL_sk_insert malloc sk p pos =
     (case sk of
        None \<Rightarrow> (0, None)
      | Some s \<Rightarrow>
          if st_num s \<ge> int_max then (0, sk)
          else case sk_reserve malloc s of
                 None \<Rightarrow> (0, sk)
               | Some s \<Rightarrow>
                   let data = (if pos \<ge> st_num s then (st_data s)[st_num s := p]
                               else (memmove_ptrs (pos + 1) pos (st_num s - pos) (st_data s))[pos := p])
                   in (st_num s + 1, Some (s\<lparr>st_data := data, st_num := st_num s + 1, st_sorted := False\<rparr>)))"

definition OPENSSL_sk_push :: "ptr_allocator \<Rightarrow> OPENSSL_STACK \<Rightarrow> int \<Rightarrow> nat \<times> OPENSSL_STACK" where
  "OPENSSL_sk_push malloc sk p = OPENSSL_sk_insert malloc sk p (OPENSSL_sk_num sk)"

definition OPENSSL_sk_delete :: "OPENSSL_STACK \<Rightarrow> nat \<Rightarrow> int \<times> OPENSSL_STACK" where
  "OPENSSL_sk_delete sk pos =
     (case sk of
        None \<Rightarrow> (0, None)
      | Some s \<Rightarrow>
          if pos \<ge> st_num s then (0, sk)
          else
            let ret = st_data s ! pos;
                data = (if pos \<noteq> st_num s - 1
                        then memmove_ptrs pos (pos + 1) (st_num s - pos - 1) (st_data s) else st_data s)
            in (ret, Some (s\<lparr>st_data := data, st_num := st_num s - 1\<rparr>)))"

text \<open>The loops that look for an element: the first index whose element satisfies \<open>P\<close>.\<close>

fun first_index :: "(int \<Rightarrow> bool) \<Rightarrow> int list \<Rightarrow> nat \<Rightarrow> nat option" where
  "first_index P [] i = None"
| "first_index P (x # xs) i = (if P x then Some i else first_index P xs (i + 1))"

definition OPENSSL_sk_delete_ptr :: "OPENSSL_STACK \<Rightarrow> int \<Rightarrow> int \<times> OPENSSL_STACK" where
  "OPENSSL_sk_delete_ptr sk p =
     (case sk of
        None \<Rightarrow> (0, None)
      | Some s \<Rightarrow>
          (case first_index (\<lambda>x. x = p) (take (st_num s) (st_data s)) 0 of
             None \<Rightarrow> (0, sk)
           | Some i \<Rightarrow> OPENSSL_sk_delete sk i))"

text \<open>The loop of \<open>delete_if\<close> compacts the array in place.\<close>

function delete_if_loop :: "(int \<Rightarrow> bool) \<Rightarrow> nat \<Rightarrow> nat \<Rightarrow> nat \<Rightarrow> int list \<Rightarrow> nat \<times> int list" where
  "delete_if_loop f num i new_num data =
     (if i < num then
        if \<not> f (data ! i) then delete_if_loop f num (i + 1) (new_num + 1) (data[new_num := data ! i])
        else delete_if_loop f num (i + 1) new_num data
      else (new_num, data))"
  by auto
termination by (relation "measure (\<lambda>(f, num, i, _). num - i)") auto

declare delete_if_loop.simps [simp del]

definition OPENSSL_sk_delete_if :: "(int \<Rightarrow> bool) \<Rightarrow> OPENSSL_STACK \<Rightarrow> OPENSSL_STACK" where
  "OPENSSL_sk_delete_if f sk =
     (case sk of
        None \<Rightarrow> None
      | Some s \<Rightarrow>
          (case delete_if_loop f (st_num s) 0 0 (st_data s) of
             (new_num, data) \<Rightarrow> Some (s\<lparr>st_data := data, st_num := new_num\<rparr>)))"

definition OPENSSL_sk_shift :: "OPENSSL_STACK \<Rightarrow> int \<times> OPENSSL_STACK" where
  "OPENSSL_sk_shift sk =
     (case sk of None \<Rightarrow> (0, None) | Some s \<Rightarrow> if st_num s = 0 then (0, sk) else OPENSSL_sk_delete sk 0)"

definition OPENSSL_sk_pop :: "OPENSSL_STACK \<Rightarrow> int \<times> OPENSSL_STACK" where
  "OPENSSL_sk_pop sk =
     (case sk of None \<Rightarrow> (0, None) | Some s \<Rightarrow> if st_num s = 0 then (0, sk) else OPENSSL_sk_delete sk (st_num s - 1))"

section \<open>Search\<close>

definition OPENSSL_sk_is_sorted :: "OPENSSL_STACK \<Rightarrow> bool" where
  "OPENSSL_sk_is_sorted sk =
     (case sk of None \<Rightarrow> True | Some s \<Rightarrow> st_sorted s \<or> st_comp s \<noteq> 0 \<and> st_num s < 2)"

text \<open>The binary search. \<open>cmp x\<close> compares what is looked for with the element \<open>x\<close>.\<close>

function search_loop :: "(int \<Rightarrow> int) \<Rightarrow> int list \<Rightarrow> nat \<Rightarrow> nat \<Rightarrow> nat option" where
  "search_loop cmp data lo hi =
     (if lo < hi then
        let mid = lo + (hi - lo - 1) div 2; r = cmp (data ! mid)
        in if r > 0 then search_loop cmp data (mid + 1) hi
           else if r < 0 then search_loop cmp data lo mid
           else if hi - lo = 1 then Some mid
           else search_loop cmp data lo (mid + 1)
      else None)"
  by auto
termination by (relation "measure (\<lambda>(cmp, data, lo, hi). hi - lo)") (auto simp: Let_def)

declare search_loop.simps [simp del]

definition OPENSSL_sk_find :: "call_cmp \<Rightarrow> OPENSSL_STACK \<Rightarrow> int \<Rightarrow> nat option" where
  "OPENSSL_sk_find call_cmp_func sk p =
     (case sk of
        None \<Rightarrow> None
      | Some s \<Rightarrow>
          if st_comp s = 0 then first_index (\<lambda>x. x = p) (take (st_num s) (st_data s)) 0
          else if p = 0 then None
          else if \<not> OPENSSL_sk_is_sorted sk
          then first_index (\<lambda>x. call_cmp_func (st_comp s) p x = 0) (take (st_num s) (st_data s)) 0
          else search_loop (call_cmp_func (st_comp s) p) (st_data s) 0 (st_num s))"

section \<open>Sorting\<close>

definition parent_idx :: "nat \<Rightarrow> nat" where "parent_idx idx = (idx - 1) div 2"
definition left_idx :: "nat \<Rightarrow> nat" where "left_idx idx = 2 * idx + 1"

definition swap_ptrs :: "nat \<Rightarrow> nat \<Rightarrow> int list \<Rightarrow> int list" where
  "swap_ptrs i j data = data[i := data ! j, j := data ! i]"

text \<open>The index of the largest of the element at \<open>i\<close> and its children.\<close>

definition heap_next :: "(int \<Rightarrow> int \<Rightarrow> int) \<Rightarrow> int list \<Rightarrow> nat \<Rightarrow> nat \<Rightarrow> nat" where
  "heap_next cmp data i num =
     (let left = left_idx i;
          next = (if cmp (data ! i) (data ! left) < 0 then left else i);
          right = left + 1
      in if right < num \<and> cmp (data ! next) (data ! right) < 0 then right else next)"

lemma heap_next_bound: "left_idx i < num \<Longrightarrow> heap_next cmp data i num \<noteq> i \<Longrightarrow>
    i < heap_next cmp data i num \<and> heap_next cmp data i num < num"
  by (auto simp: heap_next_def left_idx_def Let_def split: if_splits)

function down_heap :: "(int \<Rightarrow> int \<Rightarrow> int) \<Rightarrow> int list \<Rightarrow> nat \<Rightarrow> nat \<Rightarrow> int list" where
  "down_heap cmp data i num =
     (if left_idx i \<ge> num then data
      else
        let next = heap_next cmp data i num
        in if i = next then data else down_heap cmp (swap_ptrs i next data) next num)"
  by auto
termination
proof (relation "measure (\<lambda>(cmp, data, i, num). num - i)")
  fix cmp and data :: "int list" and i num x
  assume "\<not> num \<le> left_idx i" "x = heap_next cmp data i num" "i \<noteq> x"
  then show "((cmp, swap_ptrs i x data, x, num), cmp, data, i, num) \<in> measure (\<lambda>(cmp, data, i, num). num - i)"
    using heap_next_bound [of i num cmp data] by auto
qed simp

declare down_heap.simps [simp del]

text \<open>The first loop runs down to index 0, where the unsigned counter wraps around and ends it.\<close>

fun build_heap :: "(int \<Rightarrow> int \<Rightarrow> int) \<Rightarrow> nat \<Rightarrow> int list \<Rightarrow> nat \<Rightarrow> int list" where
  "build_heap cmp num data 0 = down_heap cmp data 0 num"
| "build_heap cmp num data (Suc i) = build_heap cmp num (down_heap cmp data (Suc i) num) i"

fun drain_heap :: "(int \<Rightarrow> int \<Rightarrow> int) \<Rightarrow> int list \<Rightarrow> nat \<Rightarrow> int list" where
  "drain_heap cmp data 0 = data"
| "drain_heap cmp data (Suc i) = drain_heap cmp (down_heap cmp (swap_ptrs 0 (Suc i) data) 0 (Suc i)) i"

definition OPENSSL_sk_sort :: "call_cmp \<Rightarrow> OPENSSL_STACK \<Rightarrow> OPENSSL_STACK" where
  "OPENSSL_sk_sort call_cmp_func sk =
     (case sk of
        None \<Rightarrow> None
      | Some s \<Rightarrow>
          if st_comp s = 0 \<or> st_sorted s then sk
          else
            let cmp = call_cmp_func (st_comp s); num = st_num s;
                data = (if num \<ge> 2
                        then drain_heap cmp (build_heap cmp num (st_data s) (parent_idx (num - 1))) (num - 1)
                        else st_data s)
            in Some (s\<lparr>st_data := data, st_sorted := True\<rparr>))"

text \<open>The stack is not null here.\<close>

definition OPENSSL_sk_set_cmp_func :: "stack_st \<Rightarrow> int \<Rightarrow> int \<times> stack_st" where
  "OPENSSL_sk_set_cmp_func s cmp =
     (st_comp s, s\<lparr>st_sorted := (if st_comp s \<noteq> cmp then False else st_sorted s), st_comp := cmp\<rparr>)"

section \<open>Copies\<close>

definition OPENSSL_sk_dup :: "ptr_allocator \<Rightarrow> bool \<Rightarrow> OPENSSL_STACK \<Rightarrow> OPENSSL_STACK" where
  "OPENSSL_sk_dup malloc zalloc_ok sk =
     (case sk of
        None \<Rightarrow> None
      | Some s \<Rightarrow>
          if \<not> zalloc_ok then None
          else if st_num_alloc s = 0 then None
          else case malloc (8 * st_num_alloc s) of
                 None \<Rightarrow> None
               | Some _ \<Rightarrow> Some \<lparr>st_num = st_num s, st_data = take (st_num_alloc s) (st_data s), st_sorted = st_sorted s,
                                  st_num_alloc = st_num_alloc s, st_comp = st_comp s\<rparr>)"

text \<open>
  The loop replaces each element by its copy. When a copy fails the copies made so far are freed: \<open>Inl\<close> of them.
\<close>

function deep_copy_loop :: "(int \<Rightarrow> int) \<Rightarrow> nat \<Rightarrow> nat \<Rightarrow> int list \<Rightarrow> int list + int list" where
  "deep_copy_loop copy num i data =
     (if i < num then
        if data ! i = 0 then deep_copy_loop copy num (i + 1) data
        else
          let data = data[i := copy (data ! i)]
          in if data ! i = 0 then Inl (filter (\<lambda>p. p \<noteq> 0) (take i data))
             else deep_copy_loop copy num (i + 1) data
      else Inr data)"
  by auto
termination by (relation "measure (\<lambda>(copy, num, i, data). num - i)") auto

declare deep_copy_loop.simps [simp del]

text \<open>The result, and the copies that were freed again.\<close>

definition OPENSSL_sk_deep_copy :: "ptr_allocator \<Rightarrow> bool \<Rightarrow> (int \<Rightarrow> int) \<Rightarrow> OPENSSL_STACK \<Rightarrow> OPENSSL_STACK \<times> int list" where
  "OPENSSL_sk_deep_copy malloc zalloc_ok copy sk =
     (case OPENSSL_sk_dup malloc zalloc_ok sk of
        None \<Rightarrow> (None, [])
      | Some ret \<Rightarrow>
          (case deep_copy_loop copy (st_num ret) 0 (st_data ret) of
             Inl freed \<Rightarrow> (None, freed)
           | Inr data \<Rightarrow> (Some (ret\<lparr>st_data := data\<rparr>), [])))"

end
