(* ===== verification/StackSpec.thy ===== *)
theory StackSpec
  imports Stack SetOf
begin

text \<open>
  What a stack promises: its operations are those of lists, its heap sort sorts, and its search finds the first match
  whether it may use the order or not. The comparison functions of the program meet the locale \<open>comparison\<close>.
\<close>

section \<open>Comparison functions\<close>

locale comparison =
  fixes cmp :: "'a \<Rightarrow> 'a \<Rightarrow> int"
  assumes cmp_flip: "cmp a b < 0 \<longleftrightarrow> 0 < cmp b a"
    and cmp_trans: "cmp a b \<le> 0 \<Longrightarrow> cmp b c \<le> 0 \<Longrightarrow> cmp a c \<le> 0"
begin

lemma cmp_refl [simp]: "cmp a a = 0"
  using cmp_flip [of a a] by linarith

lemma cmp_linear: "cmp a b \<le> 0 \<or> cmp b a \<le> 0"
  using cmp_flip [of a b] by linarith

lemma cmp_less_trans: "cmp a b < 0 \<Longrightarrow> cmp b c \<le> 0 \<Longrightarrow> cmp a c < 0"
  using cmp_flip [of a c] cmp_flip [of a b] cmp_trans [of b c a] by linarith

lemma cmp_le_less_trans: "cmp a b \<le> 0 \<Longrightarrow> cmp b c < 0 \<Longrightarrow> cmp a c < 0"
  using cmp_flip [of a c] cmp_flip [of b c] cmp_trans [of c a b] by linarith

abbreviation below :: "'a \<Rightarrow> 'a \<Rightarrow> bool" where
  "below a b \<equiv> cmp a b \<le> 0"

end

section \<open>Searching\<close>

lemma first_index_None: "first_index P xs k = None \<longleftrightarrow> (\<forall>x\<in>set xs. \<not> P x)"
  by (induction xs arbitrary: k) auto

lemma first_index_shift: "first_index P xs k = map_option (\<lambda>i. k + i) (first_index P xs 0)"
proof (induction xs arbitrary: k)
  case (Cons x xs)
  show ?case using Cons.IH [of "k + 1"] Cons.IH [of 1] by (simp add: option.map_comp o_def)
qed simp

lemma first_index_Some:
  "first_index P xs 0 = Some i \<longleftrightarrow> i < length xs \<and> P (xs ! i) \<and> (\<forall>j<i. \<not> P (xs ! j))"
proof (induction xs arbitrary: i)
  case (Cons x xs)
  show ?case
  proof (cases i)
    case 0
    then show ?thesis using first_index_shift [of P xs 1] by auto
  next
    case (Suc n)
    have "(\<forall>j<Suc n. \<not> P ((x # xs) ! j)) \<longleftrightarrow> \<not> P x \<and> (\<forall>j<n. \<not> P (xs ! j))"
      by (auto simp: less_Suc_eq_0_disj)
    then show ?thesis using Suc Cons.IH [of n] first_index_shift [of P xs 1] by auto
  qed
qed simp

lemma first_index_append:
  "first_index P (xs @ ys) k =
     (case first_index P xs k of Some i \<Rightarrow> Some i | None \<Rightarrow> first_index P ys (k + length xs))"
  by (induction xs arbitrary: k) (simp_all split: option.splits)

text \<open>A part of an array from \<open>lo\<close> to \<open>hi\<close>.\<close>

definition slice :: "'a list \<Rightarrow> nat \<Rightarrow> nat \<Rightarrow> 'a list" where
  "slice xs lo hi = take (hi - lo) (drop lo xs)"

lemma slice_split: "lo \<le> mid \<Longrightarrow> mid \<le> hi \<Longrightarrow> hi \<le> length xs \<Longrightarrow> slice xs lo hi = slice xs lo mid @ slice xs mid hi"
  unfolding slice_def using take_add [of "mid - lo" "hi - mid" "drop lo xs"] by simp

lemma slice_Suc: "mid < hi \<Longrightarrow> hi \<le> length xs \<Longrightarrow> slice xs mid hi = xs ! mid # slice xs (mid + 1) hi"
  unfolding slice_def by (simp add: Cons_nth_drop_Suc [of mid xs, symmetric] take_Cons' del: drop_Suc)

lemma length_slice: "hi \<le> length xs \<Longrightarrow> length (slice xs lo hi) = hi - lo"
  unfolding slice_def by simp

lemma set_slice: "hi \<le> length xs \<Longrightarrow> x \<in> set (slice xs lo hi) \<longleftrightarrow> (\<exists>i. lo \<le> i \<and> i < hi \<and> x = xs ! i)"
proof -
  assume hi: "hi \<le> length xs"
  then have "x \<in> set (slice xs lo hi) \<longleftrightarrow> (\<exists>i<hi - lo. x = slice xs lo hi ! i)"
    by (auto simp: in_set_conv_nth length_slice)
  also have "\<dots> \<longleftrightarrow> (\<exists>i<hi - lo. x = xs ! (lo + i))"
    using hi unfolding slice_def by auto
  also have "\<dots> \<longleftrightarrow> (\<exists>i. lo \<le> i \<and> i < hi \<and> x = xs ! i)"
    by (metis add_diff_inverse_nat diff_less_mono le_add1 less_diff_conv not_less add.commute)
  finally show ?thesis .
qed

text \<open>
  The binary search returns what a scan from the left would, when the comparisons with the elements are first positive,
  then 0, then negative.
\<close>

definition directed :: "(int \<Rightarrow> int) \<Rightarrow> int list \<Rightarrow> nat \<Rightarrow> bool" where
  "directed f data n \<longleftrightarrow>
     (\<forall>i j. i < j \<longrightarrow> j < n \<longrightarrow> (0 < f (data ! j) \<longrightarrow> 0 < f (data ! i)) \<and> (f (data ! i) < 0 \<longrightarrow> f (data ! j) < 0))"

lemma search_loop_first:
  assumes "directed f data n" "n \<le> length data" "hi \<le> n" "lo \<le> hi"
  shows "search_loop f data lo hi = first_index (\<lambda>x. f x = 0) (slice data lo hi) lo"
  using assms
proof (induction f data lo hi rule: search_loop.induct)
  case (1 f data lo hi)
  note D = "1.prems"(1)
  define mid where "mid = lo + (hi - lo - 1) div 2"
  note loop = search_loop.simps [of f data lo hi, unfolded Let_def, folded mid_def]
  show ?case
  proof (cases "lo < hi")
    case False
    then show ?thesis by (simp add: loop slice_def)
  next
    case True
    then have mid: "lo \<le> mid" "mid < hi" by (auto simp: mid_def)
    have len: "hi \<le> length data" using "1.prems" by simp
    have before: "0 < f (data ! i)" if "0 < f (data ! mid)" "i \<le> mid" for i
    proof (cases "i = mid")
      case False
      then have "i < mid" "mid < n" using that mid "1.prems" by auto
      then show ?thesis using D that unfolding directed_def by blast
    qed (use that in simp)
    have after: "f (data ! i) < 0" if "f (data ! mid) < 0" "mid \<le> i" "i < hi" for i
    proof (cases "i = mid")
      case False
      then have "mid < i" "i < n" using that mid "1.prems" by auto
      then show ?thesis using D that unfolding directed_def by blast
    qed (use that in simp)
    have left: "slice data lo hi = slice data lo mid @ data ! mid # slice data (mid + 1) hi"
      using slice_split [of lo mid hi data] slice_Suc [of mid hi data] mid len by simp
    have right: "slice data lo hi = slice data lo (mid + 1) @ slice data (mid + 1) hi"
      using slice_split [of lo "mid + 1" hi data] mid len by simp
    have lens: "length (slice data lo mid) = mid - lo" "length (slice data lo (mid + 1)) = mid + 1 - lo"
      using mid len by (simp_all add: length_slice)
    consider "0 < f (data ! mid)" | "f (data ! mid) < 0" | "f (data ! mid) = 0" by linarith
    then show ?thesis
    proof cases
      case 1
      have "first_index (\<lambda>x. f x = 0) (slice data lo (mid + 1)) lo = None"
        unfolding first_index_None
      proof
        fix x assume "x \<in> set (slice data lo (mid + 1))"
        then obtain i where "i \<le> mid" "x = data ! i" using mid len by (auto simp: set_slice less_Suc_eq_le)
        then show "f x \<noteq> 0" using before [OF 1, of i] by simp
      qed
      then show ?thesis
        using "1.IH"(1) [OF True mid_def refl] 1 True mid "1.prems" lens
        by (simp add: loop right first_index_append)
    next
      case 2
      have "first_index (\<lambda>x. f x = 0) (data ! mid # slice data (mid + 1) hi) k = None" for k
        unfolding first_index_None
      proof
        fix x assume "x \<in> set (data ! mid # slice data (mid + 1) hi)"
        then have "x \<in> set (slice data mid hi)" using slice_Suc [OF mid(2) len] by simp
        then obtain i where "mid \<le> i" "i < hi" "x = data ! i" using len by (auto simp: set_slice)
        then show "f x \<noteq> 0" using after [OF 2, of i] by simp
      qed
      then show ?thesis
        using "1.IH"(2) [OF True mid_def refl] 2 True mid "1.prems"
        by (simp add: loop left first_index_append split: option.splits)
    next
      case 3
      have in_slice: "data ! mid \<in> set (slice data lo (mid + 1))"
        using mid len by (subst set_slice) (auto intro!: exI [of _ mid])
      have "first_index (\<lambda>x. f x = 0) (slice data lo (mid + 1)) lo \<noteq> None"
        using 3 in_slice unfolding first_index_None by blast
      then have whole: "first_index (\<lambda>x. f x = 0) (slice data lo hi) lo = first_index (\<lambda>x. f x = 0) (slice data lo (mid + 1)) lo"
        by (auto simp: right first_index_append)
      show ?thesis
      proof (cases "hi - lo = 1")
        case True
        then have "mid = lo" "slice data lo hi = [data ! lo]" using mid len slice_Suc [of lo hi data] by (auto simp: slice_def)
        then show ?thesis using 3 True \<open>lo < hi\<close> by (simp add: loop)
      next
        case False
        then show ?thesis
          using "1.IH"(3) [OF True mid_def refl _ _ False] 3 True mid "1.prems" whole by (simp add: loop)
      qed
    qed
  qed
qed

section \<open>Heap sort\<close>

lemma swap_simps [simp]:
  "length (swap_ptrs i j data) = length data"
  "i < length data \<Longrightarrow> j < length data \<Longrightarrow> mset (swap_ptrs i j data) = mset data"
  by (simp_all add: swap_ptrs_def mset_swap)

lemma nth_swap:
  "i < length data \<Longrightarrow> j < length data \<Longrightarrow>
     swap_ptrs i j data ! k = (if k = j then data ! i else if k = i then data ! j else data ! k)"
  by (simp add: swap_ptrs_def nth_list_update)

text \<open>A rearrangement of the first \<open>n\<close> elements.\<close>

definition shuffled :: "nat \<Rightarrow> int list \<Rightarrow> int list \<Rightarrow> bool" where
  "shuffled n xs ys \<longleftrightarrow> mset (take n ys) = mset (take n xs) \<and> drop n ys = drop n xs \<and> length ys = length xs"

lemma shuffled_refl [simp]: "shuffled n xs xs"
  by (simp add: shuffled_def)

lemma shuffled_trans: "shuffled n xs ys \<Longrightarrow> shuffled n ys zs \<Longrightarrow> shuffled n xs zs"
  by (simp add: shuffled_def)

lemma shuffled_length: "shuffled n xs ys \<Longrightarrow> length ys = length xs"
  by (simp add: shuffled_def)

lemma shuffled_swap: "i < n \<Longrightarrow> j < n \<Longrightarrow> n \<le> length data \<Longrightarrow> shuffled n data (swap_ptrs i j data)"
  unfolding shuffled_def swap_ptrs_def
  using mset_swap [of j "take n data" i] by (simp add: take_update_swap)

lemma shuffled_mono: "shuffled k xs ys \<Longrightarrow> k \<le> n \<Longrightarrow> shuffled n xs ys"
proof -
  assume s: "shuffled k xs ys" and "k \<le> n"
  then have n: "n = k + (n - k)" by simp
  have "take n zs = take k zs @ take (n - k) (drop k zs)" for zs :: "int list" by (subst n) (rule take_add)
  moreover have "drop n ys = drop n xs" using s n unfolding shuffled_def by (metis add.commute drop_drop)
  ultimately show ?thesis using s by (simp add: shuffled_def)
qed

lemma shuffled_nth:
  assumes "shuffled n xs ys" "i < length xs"
  shows "n \<le> i \<Longrightarrow> ys ! i = xs ! i" "i < n \<Longrightarrow> \<exists>j<n. j < length xs \<and> ys ! i = xs ! j"
proof -
  show "ys ! i = xs ! i" if "n \<le> i"
  proof -
    have "drop n ys ! (i - n) = drop n xs ! (i - n)" "length ys = length xs" using assms(1) by (simp_all add: shuffled_def)
    then show ?thesis using that assms(2) by simp
  qed
  show "\<exists>j<n. j < length xs \<and> ys ! i = xs ! j" if "i < n"
  proof -
    have "ys ! i \<in> set (take n ys)" using that assms by (auto simp: in_set_conv_nth shuffled_def intro!: exI [of _ i])
    also have "set (take n ys) = set (take n xs)" using assms(1) unfolding shuffled_def by (metis mset_eq_setD)
    finally show ?thesis by (auto simp: in_set_conv_nth)
  qed
qed

abbreviation child_of :: "nat \<Rightarrow> nat \<Rightarrow> bool" where
  "child_of j i \<equiv> j = 2 * i + 1 \<or> j = 2 * i + 2"

text \<open>The first \<open>n\<close> elements are a heap from index \<open>m\<close> on, except below \<open>k\<close>.\<close>

definition heap_except :: "(int \<Rightarrow> int \<Rightarrow> int) \<Rightarrow> nat option \<Rightarrow> nat \<Rightarrow> nat \<Rightarrow> int list \<Rightarrow> bool" where
  "heap_except cmp k m n data \<longleftrightarrow>
     (\<forall>i j. m \<le> i \<longrightarrow> j < n \<longrightarrow> child_of j i \<longrightarrow> Some i \<noteq> k \<longrightarrow> cmp (data ! j) (data ! i) \<le> 0) \<and>
     (\<forall>g i j. k = Some i \<longrightarrow> m \<le> g \<longrightarrow> child_of i g \<longrightarrow> j < n \<longrightarrow> child_of j i \<longrightarrow> cmp (data ! j) (data ! g) \<le> 0)"

locale pointer_comparison = comparison cmp
  for cmp :: "int \<Rightarrow> int \<Rightarrow> int"
begin

lemma heap_next_max:
  assumes "left_idx i < n"
  shows "heap_next cmp data i n = i \<or> child_of (heap_next cmp data i n) i"
    "below (data ! i) (data ! heap_next cmp data i n)"
    "j < n \<Longrightarrow> child_of j i \<Longrightarrow> below (data ! j) (data ! heap_next cmp data i n)"
    "heap_next cmp data i n \<noteq> i \<Longrightarrow> cmp (data ! i) (data ! heap_next cmp data i n) < 0"
proof -
  let ?l = "2 * i + 1" and ?r = "2 * i + 2"
  have r: "?l + 1 = ?r" by simp
  note nxt = heap_next_def [of cmp data i n, unfolded left_idx_def Let_def r]
  show "heap_next cmp data i n = i \<or> child_of (heap_next cmp data i n) i" by (simp add: nxt)
  show "below (data ! i) (data ! heap_next cmp data i n)"
    using cmp_less_trans [of "data ! i" "data ! ?l" "data ! ?r"] by (auto simp: nxt)
  show "heap_next cmp data i n \<noteq> i \<Longrightarrow> cmp (data ! i) (data ! heap_next cmp data i n) < 0"
    using cmp_less_trans [of "data ! i" "data ! ?l" "data ! ?r"] by (auto simp: nxt split: if_splits)
  show "below (data ! j) (data ! heap_next cmp data i n)" if "j < n" "child_of j i"
    using that(2)
  proof
    assume j: "j = ?l"
    show ?thesis
      using j cmp_flip [of "data ! i" "data ! ?l"] cmp_trans [of "data ! ?l" "data ! i" "data ! ?r"] by (auto simp: nxt)
  next
    assume j: "j = ?r"
    then have "?r < n" using that(1) by simp
    then show ?thesis
      using j cmp_flip [of "data ! i" "data ! ?r"] cmp_flip [of "data ! ?l" "data ! ?r"] by (auto simp: nxt)
  qed
qed

lemma down_heap_spec:
  assumes "n \<le> length data" "m \<le> i" "i < n" "heap_except cmp (Some i) m n data"
  shows "shuffled n data (down_heap cmp data i n) \<and> heap_except cmp None m n (down_heap cmp data i n)"
  using assms
proof (induction "n - i" arbitrary: data i rule: less_induct)
  case less
  note H = less.prems(4) [unfolded heap_except_def]
  have H1: "below (data ! j) (data ! g)" if "m \<le> g" "j < n" "child_of j g" "g \<noteq> i" for g j
    using H that by blast
  have H2: "below (data ! j) (data ! g)" if "m \<le> g" "j < n" "child_of i g" "child_of j i" for g j
    using H that by blast
  show ?case
  proof (cases "n \<le> left_idx i")
    case True
    have "below (data ! j) (data ! g)" if "m \<le> g" "j < n" "child_of j g" for g j
      using H1 [of g j] that True by (cases "g = i") (auto simp: left_idx_def)
    then show ?thesis using True by (simp add: down_heap.simps [of cmp data i n] heap_except_def)
  next
    case False
    define k where "k = heap_next cmp data i n"
    have max: "k = i \<or> child_of k i" "below (data ! i) (data ! k)"
      "\<And>j. j < n \<Longrightarrow> child_of j i \<Longrightarrow> below (data ! j) (data ! k)"
      using heap_next_max [where i = i and n = n and data = data] False by (auto simp: k_def)
    show ?thesis
    proof (cases "i = k")
      case True
      have "below (data ! j) (data ! g)" if "m \<le> g" "j < n" "child_of j g" for g j
        using H1 [of g j] max(3) [of j] that True by (cases "g = i") auto
      moreover have "heap_next cmp data i n = i" using True k_def by simp
      then have "down_heap cmp data i n = data"
        using False by (simp add: down_heap.simps [of cmp data i n])
      ultimately show ?thesis unfolding heap_except_def by simp
    next
      case neq: False
      have k: "i < k" "k < n" using heap_next_bound [of i n cmp data] False neq by (auto simp: k_def)
      let ?d = "swap_ptrs i k data"
      have nth: "?d ! x = (if x = k then data ! i else if x = i then data ! k else data ! x)" for x
        using k less.prems(1) by (simp add: nth_swap)
      have 1: "below (?d ! j) (?d ! g)" if "m \<le> g" "j < n" "child_of j g" "g \<noteq> k" for g j
      proof (cases "g = i")
        case True
        then show ?thesis using that max(2) max(3) [of j] neq by (auto simp: nth)
      next
        case gi: False
        consider "j = i" | "j = k" | "j \<noteq> i" "j \<noteq> k" by blast
        then show ?thesis
        proof cases
          case 1
          then show ?thesis using H2 [of g k] that max(1) neq k gi by (simp add: nth)
        next
          case 2
          then have "g = i" using that(3) max(1) neq by auto
          then show ?thesis using gi by simp
        next
          case 3
          then show ?thesis using H1 [of g j] that gi by (simp add: nth)
        qed
      qed
      have 2: "below (?d ! j) (?d ! g)" if "m \<le> g" "j < n" "child_of k g" "child_of j k" for g j
      proof -
        have "g = i" using that(3) max(1) neq by auto
        then show ?thesis using H1 [of k j] that k less.prems(2) by (auto simp: nth)
      qed
      have "heap_except cmp (Some k) m n ?d"
        unfolding heap_except_def using 1 2 by blast
      then have "shuffled n ?d (down_heap cmp ?d k n) \<and> heap_except cmp None m n (down_heap cmp ?d k n)"
        using less.prems k by (intro less.hyps) auto
      moreover have "shuffled n data ?d" using k less.prems(1) by (intro shuffled_swap) auto
      moreover have "down_heap cmp data i n = down_heap cmp ?d k n"
        using False neq by (simp add: down_heap.simps [of cmp data i n] k_def [symmetric])
      ultimately show ?thesis using shuffled_trans by metis
    qed
  qed
qed

lemma heap_from_except: "heap_except cmp None (Suc m) n data \<Longrightarrow> heap_except cmp (Some m) m n data"
proof -
  assume h: "heap_except cmp None (Suc m) n data"
  have "below (data ! j) (data ! i)" if "m \<le> i" "j < n" "child_of j i" "Some i \<noteq> Some m" for i j
  proof -
    have "Suc m \<le> i" using that by auto
    then show ?thesis using h that unfolding heap_except_def by blast
  qed
  moreover have False if "m \<le> g" "child_of m g" for g using that by auto
  ultimately show ?thesis unfolding heap_except_def by blast
qed

lemma build_heap_spec:
  "n \<le> length data \<Longrightarrow> i < n \<Longrightarrow> heap_except cmp None (Suc i) n data \<Longrightarrow>
     shuffled n data (build_heap cmp n data i) \<and> heap_except cmp None 0 n (build_heap cmp n data i)"
proof (induction i arbitrary: data)
  case 0
  then show ?case using down_heap_spec [of n data 0 0] heap_from_except by simp
next
  case (Suc i)
  have down: "shuffled n data (down_heap cmp data (Suc i) n)" "heap_except cmp None (Suc i) n (down_heap cmp data (Suc i) n)"
    using down_heap_spec [of n data "Suc i" "Suc i"] heap_from_except [of "Suc i" n data] Suc.prems by auto
  then show ?case
    using Suc.IH [OF _ _ down(2)] Suc.prems shuffled_trans shuffled_length [OF down(1)] by auto
qed

lemma root_max:
  assumes "heap_except cmp None 0 n data" "j < n"
  shows "below (data ! j) (data ! 0)"
  using assms(2)
proof (induction j rule: less_induct)
  case (less j)
  show ?case
  proof (cases "j = 0")
    case False
    define i where "i = (j - 1) div 2"
    have i: "child_of j i" "i < j" using False by (auto simp: i_def)
    then have "below (data ! j) (data ! i)" using assms(1) less.prems unfolding heap_except_def by blast
    then show ?thesis using less.IH [of i] i less.prems cmp_trans by force
  qed simp
qed

text \<open>While the heap is drained, everything behind it is in order and not below what it holds.\<close>

lemma drain_heap_spec:
  assumes "i < n" "n \<le> length data" "heap_except cmp None 0 (Suc i) data"
    and "\<And>a b. a < b \<Longrightarrow> i < b \<Longrightarrow> b < n \<Longrightarrow> below (data ! a) (data ! b)"
  shows "shuffled n data (drain_heap cmp data i) \<and>
    (\<forall>a b. a < b \<longrightarrow> b < n \<longrightarrow> below (drain_heap cmp data i ! a) (drain_heap cmp data i ! b))"
  using assms
proof (induction i arbitrary: data)
  case 0
  then show ?case by auto
next
  case (Suc i)
  let ?s = "swap_ptrs 0 (Suc i) data"
  let ?d = "down_heap cmp ?s 0 (Suc i)"
  have len: "Suc i < length data" "0 < length data" using Suc.prems(1,2) by auto
  have nth: "?s ! x = (if x = Suc i then data ! 0 else if x = 0 then data ! Suc i else data ! x)" for x
    using len by (simp add: nth_swap)
  have "below (?s ! y) (?s ! x)" if "y < Suc i" "child_of y x" "Some x \<noteq> Some 0" for x y
  proof -
    have "y < Suc (Suc i)" using that(1) by simp
    then have "below (data ! y) (data ! x)" using Suc.prems(3) that(2,3) unfolding heap_except_def by blast
    moreover have "x \<noteq> 0" "x \<noteq> Suc i" "y \<noteq> 0" "y \<noteq> Suc i" using that by auto
    ultimately show ?thesis by (simp add: nth)
  qed
  moreover have False if "child_of 0 g" for g :: nat using that by simp
  ultimately have "heap_except cmp (Some 0) 0 (Suc i) ?s" unfolding heap_except_def by blast
  then have down: "shuffled (Suc i) ?s ?d" "heap_except cmp None 0 (Suc i) ?d"
    using down_heap_spec [of "Suc i" ?s 0 0] len by auto
  have "shuffled n data ?s" using Suc.prems(1,2) by (intro shuffled_swap) auto
  then have all: "shuffled n data ?d"
    using shuffled_trans shuffled_mono [OF down(1), of n] Suc.prems(1) by (meson less_imp_le)
  have "below (?d ! a) (?d ! b)" if ab: "a < b" "i < b" "b < n" for a b
  proof -
    have b: "?d ! b = ?s ! b" using shuffled_nth(1) [OF down(1), of b] ab Suc.prems(2) by simp
    obtain c where c: "c < b" "?d ! a = ?s ! c"
    proof (cases "a < Suc i")
      case True
      then obtain c where "c < Suc i" "?d ! a = ?s ! c"
        using shuffled_nth(2) [OF down(1), of a] len by auto
      then show ?thesis using that [of c] ab by simp
    next
      case False
      then show ?thesis using that [of a] shuffled_nth(1) [OF down(1), of a] ab Suc.prems(2) by simp
    qed
    show ?thesis
    proof (cases "b = Suc i")
      case True
      have "below (data ! x) (data ! 0)" if "x \<le> Suc i" for x using root_max [OF Suc.prems(3)] that by simp
      then show ?thesis using c True b by (auto simp: nth)
    next
      case False
      then have "below (data ! x) (data ! b)" if "x < b" for x using Suc.prems(4) [of x b] that ab by simp
      then show ?thesis using c False b ab by (auto simp: nth)
    qed
  qed
  then have "shuffled n ?d (drain_heap cmp ?d i) \<and>
      (\<forall>a b. a < b \<longrightarrow> b < n \<longrightarrow> below (drain_heap cmp ?d i ! a) (drain_heap cmp ?d i ! b))"
    using Suc.prems(1,2) down(2) shuffled_length [OF all] by (intro Suc.IH) auto
  then show ?case using all shuffled_trans by auto
qed

lemma heap_sort_spec:
  assumes "2 \<le> n" "n \<le> length data"
  defines "sorted_data \<equiv> drain_heap cmp (build_heap cmp n data (parent_idx (n - 1))) (n - 1)"
  shows "shuffled n data sorted_data" "sorted_wrt below (take n sorted_data)"
proof -
  let ?p = "parent_idx (n - 1)"
  let ?b = "build_heap cmp n data ?p"
  have "heap_except cmp None (Suc ?p) n data"
    using assms(1) by (auto simp: heap_except_def parent_idx_def)
  moreover have "?p < n" using assms(1) by (auto simp: parent_idx_def)
  ultimately have b: "shuffled n data ?b" "heap_except cmp None 0 n ?b"
    using build_heap_spec [OF assms(2)] by auto
  have "shuffled n ?b sorted_data \<and>
      (\<forall>a c. a < c \<longrightarrow> c < n \<longrightarrow> below (sorted_data ! a) (sorted_data ! c))"
    unfolding sorted_data_def
    by (rule drain_heap_spec) (use assms(1,2) b shuffled_length [OF b(1)] in auto)
  then show "shuffled n data sorted_data" "sorted_wrt below (take n sorted_data)"
    using shuffled_trans [OF b(1)] by (auto simp: sorted_wrt_iff_nth_less)
qed

end

section \<open>The operations on the list of the elements\<close>

definition entries :: "stack_st \<Rightarrow> int list" where
  "entries s = take (st_num s) (st_data s)"

text \<open>The allocator returns blocks of the size asked for.\<close>

definition blocks_ok :: "ptr_allocator \<Rightarrow> bool" where
  "blocks_ok malloc \<longleftrightarrow> (\<forall>n blk. malloc n = Some blk \<longrightarrow> length blk = n div 8)"

definition in_order :: "call_cmp \<Rightarrow> int \<Rightarrow> int list \<Rightarrow> bool" where
  "in_order call c xs \<longleftrightarrow> sorted_wrt (\<lambda>a b. call c a b \<le> 0) xs"

text \<open>The invariant: the flag tells the truth.\<close>

definition stack_inv :: "call_cmp \<Rightarrow> stack_st \<Rightarrow> bool" where
  "stack_inv call s \<longleftrightarrow>
     length (st_data s) = st_num_alloc s \<and> kMinSize \<le> st_num_alloc s \<and> st_num s \<le> st_num_alloc s \<and> st_num s \<le> int_max \<and>
     (st_sorted s \<longrightarrow> st_comp s \<noteq> 0 \<and> in_order call (st_comp s) (entries s))"

lemma length_entries: "stack_inv call s \<Longrightarrow> length (entries s) = st_num s"
  by (simp add: stack_inv_def entries_def)

lemma in_order_simps [simp]: "in_order call c []" "in_order call c [x]"
  by (simp_all add: in_order_def)

lemma in_order_filter: "in_order call c xs \<Longrightarrow> in_order call c (filter P xs)"
  by (simp add: in_order_def sorted_wrt_filter)

lemma in_order_delete: "in_order call c xs \<Longrightarrow> in_order call c (take i xs @ drop (Suc i) xs)"
proof (induction xs arbitrary: i)
  case (Cons x xs)
  have tail: "in_order call c xs" "\<forall>y\<in>set xs. call c x y \<le> 0" using Cons.prems by (simp_all add: in_order_def)
  show ?case
  proof (cases i)
    case 0
    then show ?thesis using tail by simp
  next
    case (Suc n)
    have "\<forall>y\<in>set (take n xs @ drop (Suc n) xs). call c x y \<le> 0"
      using tail(2) by (auto dest: in_set_takeD in_set_dropD)
    then show ?thesis using Suc Cons.IH [OF tail(1), of n] by (simp add: in_order_def)
  qed
qed simp

lemma new_spec:
  "OPENSSL_sk_new malloc zalloc_ok c = Some s \<Longrightarrow> stack_inv call s \<and> entries s = [] \<and> st_comp s = c"
  by (auto simp: OPENSSL_sk_new_def stack_inv_def entries_def kMinSize_def split: if_splits option.splits)

lemma zero_spec: "stack_inv call s \<Longrightarrow> OPENSSL_sk_zero (Some s) = Some s' \<Longrightarrow> stack_inv call s' \<and> entries s' = []"
  by (auto simp: OPENSSL_sk_zero_def stack_inv_def entries_def split: if_splits)

lemma value_spec:
  "stack_inv call s \<Longrightarrow> OPENSSL_sk_value (Some s) i = (if i < length (entries s) then entries s ! i else 0)"
  by (auto simp: OPENSSL_sk_value_def stack_inv_def entries_def)

lemma grown_alloc_double: "n \<le> 2147483648 \<Longrightarrow> grown_alloc n = Some (2 * n)"
  by (simp add: grown_alloc_def Let_def)

lemma reserve_spec:
  assumes "stack_inv call s" "blocks_ok malloc" "st_num s < int_max" "sk_reserve malloc s = Some s'"
  shows "length (st_data s') = st_num_alloc s' \<and> kMinSize \<le> st_num_alloc s' \<and> st_num s < st_num_alloc s' \<and>
    entries s' = entries s \<and> st_num s' = st_num s \<and> st_comp s' = st_comp s"
proof -
  have inv: "length (st_data s) = st_num_alloc s" "4 \<le> st_num_alloc s" "st_num s \<le> st_num_alloc s"
    using assms(1) by (simp_all add: stack_inv_def kMinSize_def)
  have add: "size_add (st_num s) 1 = st_num s + 1" using assms(3) by simp
  show ?thesis
  proof (cases "st_num_alloc s \<le> st_num s + 1")
    case True
    then have "grown_alloc (st_num_alloc s) = Some (2 * st_num_alloc s)" using assms(3) by (intro grown_alloc_double) simp
    then obtain blk where blk: "malloc (2 * st_num_alloc s * 8) = Some blk"
      "s' = s\<lparr>st_data := take (2 * st_num_alloc s) (st_data s) @ drop (length (st_data s)) blk, st_num_alloc := 2 * st_num_alloc s\<rparr>"
      using assms(4) True add by (auto simp: sk_reserve_def realloc_ptrs_def split: option.splits)
    then have "length blk = 2 * st_num_alloc s" using assms(2) by (auto simp: blocks_ok_def)
    then show ?thesis using inv blk by (simp add: entries_def kMinSize_def)
  next
    case False
    then show ?thesis using assms(4) add inv by (auto simp: sk_reserve_def kMinSize_def entries_def)
  qed
qed

lemma memmove_ptrs_up:
  "pos \<le> n \<Longrightarrow> n < length data \<Longrightarrow>
     take (n + 1) ((memmove_ptrs (pos + 1) pos (n - pos) data)[pos := p]) = take pos data @ p # take (n - pos) (drop pos data)"
  by (simp add: memmove_ptrs_def list_update_append take_Suc_conv_app_nth Suc_diff_le)

lemma insert_spec:
  assumes "stack_inv call s" "blocks_ok malloc" "OPENSSL_sk_insert malloc (Some s) p pos = (r, sk)"
  shows "\<exists>s'. sk = Some s' \<and> stack_inv call s' \<and> st_comp s' = st_comp s \<and>
    (if r = 0 then s' = s else r = st_num s' \<and> entries s' = take pos (entries s) @ p # drop pos (entries s))"
proof (cases "st_num s \<ge> int_max \<or> sk_reserve malloc s = None")
  case True
  then have "r = 0" "sk = Some s" using assms(3) by (cases "st_num s \<ge> int_max"; simp add: OPENSSL_sk_insert_def)+
  then show ?thesis using assms(1) by simp
next
  case False
  then obtain t where t: "sk_reserve malloc s = Some t" and num: "st_num s < int_max" by auto
  note res = reserve_spec [OF assms(1,2) num t]
  define data where "data = (if pos \<ge> st_num t then (st_data t)[st_num t := p]
    else (memmove_ptrs (pos + 1) pos (st_num t - pos) (st_data t))[pos := p])"
  have out: "r = st_num t + 1" "sk = Some (t\<lparr>st_data := data, st_num := st_num t + 1, st_sorted := False\<rparr>)"
    using assms(3) num t by (auto simp: OPENSSL_sk_insert_def data_def Let_def)
  have room: "st_num t < length (st_data t)" using res by simp
  have ent: "take (st_num t + 1) data = take pos (entries t) @ p # drop pos (entries t)"
  proof (cases "pos \<ge> st_num t")
    case True
    then show ?thesis using room by (simp add: data_def entries_def take_Suc_conv_app_nth)
  next
    case False
    then show ?thesis using memmove_ptrs_up [of pos "st_num t" "st_data t" p] room by (simp add: data_def entries_def drop_take)
  qed
  have "length data = st_num_alloc t" using res by (auto simp: data_def memmove_ptrs_def)
  moreover have "entries (t\<lparr>st_data := data, st_num := st_num t + 1, st_sorted := False\<rparr>) =
      take pos (entries s) @ p # drop pos (entries s)"
    (is "entries ?t = _")
  proof -
    have "entries ?t = take (st_num t + 1) data" by (simp add: entries_def)
    then show ?thesis using ent res by simp
  qed
  ultimately show ?thesis using out res num by (auto simp: stack_inv_def)
qed

lemma memmove_down:
  "pos < n \<Longrightarrow> n \<le> length data \<Longrightarrow>
     take (n - 1) (memmove_ptrs pos (pos + 1) (n - pos - 1) data) = take pos data @ drop (Suc pos) (take n data) \<and>
     length (memmove_ptrs pos (pos + 1) (n - pos - 1) data) = length data"
  by (simp add: memmove_ptrs_def drop_take)

lemma delete_spec:
  assumes "stack_inv call s" "pos < st_num s"
  shows "\<exists>s'. OPENSSL_sk_delete (Some s) pos = (entries s ! pos, Some s') \<and> stack_inv call s' \<and>
    entries s' = take pos (entries s) @ drop (Suc pos) (entries s)"
proof -
  define data where "data = (if pos \<noteq> st_num s - 1
    then memmove_ptrs pos (pos + 1) (st_num s - pos - 1) (st_data s) else st_data s)"
  have room: "st_num s \<le> length (st_data s)" using assms(1) by (simp add: stack_inv_def)
  have "take (st_num s - 1) data = take pos (entries s) @ drop (Suc pos) (entries s) \<and> length data = length (st_data s)"
    using memmove_down [OF assms(2) room] assms(2) by (auto simp: data_def entries_def)
  moreover have "in_order call (st_comp s) (take pos (entries s) @ drop (Suc pos) (entries s))" if "st_sorted s"
    using assms(1) that in_order_delete by (auto simp: stack_inv_def)
  moreover have "OPENSSL_sk_delete (Some s) pos = (entries s ! pos, Some (s\<lparr>st_data := data, st_num := st_num s - 1\<rparr>))"
    unfolding data_def using assms(2) by (simp add: OPENSSL_sk_delete_def entries_def)
  ultimately show ?thesis
    using assms by (auto simp: stack_inv_def entries_def)
qed

lemma delete_if_spec:
  assumes "i \<le> num" "num \<le> length data" "new_num \<le> i" "delete_if_loop f num i new_num data = (n, d)"
  shows "take n d = take new_num data @ filter (\<lambda>x. \<not> f x) (slice data i num) \<and> length d = length data \<and> n \<le> num"
  using assms
proof (induction f num i new_num data rule: delete_if_loop.induct)
  case (1 f num i new_num data)
  show ?case
  proof (cases "i < num")
    case False
    then have "i = num" using "1.prems"(1) by simp
    then show ?thesis using "1.prems" by (simp add: delete_if_loop.simps [of f num num] slice_def)
  next
    case True
    then have slice: "slice data i num = data ! i # slice data (i + 1) num" using "1.prems" by (intro slice_Suc) auto
    show ?thesis
    proof (cases "f (data ! i)")
      case True
      then show ?thesis using "1.IH"(2) \<open>i < num\<close> "1.prems" slice by (simp add: delete_if_loop.simps [of f num i])
    next
      case False
      let ?data = "data[new_num := data ! i]"
      have "slice ?data (i + 1) num = slice data (i + 1) num" using "1.prems" by (simp add: slice_def)
      moreover have "take (new_num + 1) ?data = take new_num data @ [data ! i]"
        using "1.prems" True by (simp add: take_Suc_conv_app_nth)
      ultimately show ?thesis
        using "1.IH"(1) [OF True False] "1.prems" True False slice by (simp add: delete_if_loop.simps [of f num i])
    qed
  qed
qed

lemma sk_delete_if_spec:
  assumes "stack_inv call s" "OPENSSL_sk_delete_if f (Some s) = Some s'"
  shows "stack_inv call s' \<and> entries s' = filter (\<lambda>x. \<not> f x) (entries s)"
proof -
  obtain n d where nd: "delete_if_loop f (st_num s) 0 0 (st_data s) = (n, d)" by (cases "delete_if_loop f (st_num s) 0 0 (st_data s)")
  have "take n d = filter (\<lambda>x. \<not> f x) (entries s) \<and> length d = length (st_data s) \<and> n \<le> st_num s"
    using delete_if_spec [OF _ _ _ nd] assms(1) by (simp add: stack_inv_def slice_def entries_def)
  then show ?thesis
    using assms nd in_order_filter [of call "st_comp s" "entries s"]
    by (auto simp: OPENSSL_sk_delete_if_def stack_inv_def entries_def)
qed

lemma sort_spec:
  assumes "stack_inv call s" "pointer_comparison (call (st_comp s))" "OPENSSL_sk_sort call (Some s) = Some s'"
  shows "stack_inv call s' \<and> mset (entries s') = mset (entries s) \<and> st_comp s' = st_comp s \<and>
    (st_comp s \<noteq> 0 \<longrightarrow> in_order call (st_comp s) (entries s') \<and> st_sorted s') \<and> (st_comp s = 0 \<longrightarrow> s' = s)"
proof (cases "st_comp s = 0 \<or> st_sorted s")
  case True
  then have "s' = s" using assms(3) by (simp add: OPENSSL_sk_sort_def)
  then show ?thesis using True assms(1) by (auto simp: stack_inv_def)
next
  case False
  let ?cmp = "call (st_comp s)" and ?n = "st_num s"
  define data where "data = (if ?n \<ge> 2
    then drain_heap ?cmp (build_heap ?cmp ?n (st_data s) (parent_idx (?n - 1))) (?n - 1) else st_data s)"
  have s': "s' = s\<lparr>st_data := data, st_sorted := True\<rparr>"
    using assms(3) False by (simp add: OPENSSL_sk_sort_def data_def Let_def)
  have room: "?n \<le> length (st_data s)" using assms(1) by (simp add: stack_inv_def)
  have "shuffled ?n (st_data s) data \<and> in_order call (st_comp s) (take ?n data)"
  proof (cases "2 \<le> ?n")
    case True
    then show ?thesis
      using pointer_comparison.heap_sort_spec [OF assms(2) True room] by (simp add: data_def in_order_def)
  next
    case False
    then have "length (take ?n data) < 2" by simp
    then obtain x where "take ?n data = [] \<or> take ?n data = [x]" by (cases "take ?n data"; cases "tl (take ?n data)") auto
    then show ?thesis using False by (auto simp: data_def)
  qed
  then show ?thesis using assms(1) False s' by (auto simp: stack_inv_def entries_def shuffled_def)
qed

lemma set_cmp_func_spec:
  "stack_inv call s \<Longrightarrow> OPENSSL_sk_set_cmp_func s c = (old, s') \<Longrightarrow> stack_inv call s' \<and> entries s' = entries s"
  by (auto simp: OPENSSL_sk_set_cmp_func_def stack_inv_def entries_def split: if_splits)

lemma dup_spec:
  "stack_inv call s \<Longrightarrow> OPENSSL_sk_dup malloc zalloc_ok (Some s) = Some s' \<Longrightarrow> s' = s"
  by (cases s) (auto simp: OPENSSL_sk_dup_def stack_inv_def split: if_splits option.splits)

lemma directed_in_order:
  assumes "pointer_comparison (call c)" "in_order call c (take n data)" "n \<le> length data"
  shows "directed (call c p) data n"
proof -
  have le: "call c (data ! i) (data ! j) \<le> 0" if "i < j" "j < n" for i j
    using assms(2,3) that by (auto simp: in_order_def sorted_wrt_iff_nth_less)
  have c: "comparison (call c)" using assms(1) by (simp add: pointer_comparison_def)
  show ?thesis
    unfolding directed_def
  proof (intro allI impI conjI)
    fix i j assume ij: "i < j" "j < n"
    show "0 < call c p (data ! i)" if "0 < call c p (data ! j)"
      using comparison.cmp_le_less_trans [OF c le [OF ij], of p] that comparison.cmp_flip [OF c] by blast
    show "call c p (data ! j) < 0" if "call c p (data ! i) < 0"
      using comparison.cmp_less_trans [OF c that le [OF ij]] .
  qed
qed

end
