(* ===== verification/StackSteps.thy ===== *)
theory StackSteps
  imports StackSpec
begin

text \<open>
  A stack as a state machine: every sequence of calls keeps the invariant, sorting sorts, searching finds the first
  match. \<open>OPENSSL_sk_set\<close> does not reset the mark of a sorted stack: it is a step only while the mark is off, and the last
  property shows what a call on a marked stack does. A deep copy keeps the mark too, which is right when copies compare as
  the originals do.
\<close>

section \<open>The elements of a SET OF are compared as the search and the sort need it\<close>

lemma memcmp_sign_flip: "memcmp_sign b a n = - memcmp_sign a b n"
  by (induction a b n rule: memcmp_sign.induct) auto

lemma compare_flip: "compare_set_of_element b a = - compare_set_of_element a b"
  by (auto simp: compare_set_of_element_def Let_def memcmp_sign_flip [of b a])

interpretation element_order: pointer_comparison "\<lambda>a b. compare_set_of_element (mem a) (mem b)" for mem :: "int \<Rightarrow> CBS"
proof unfold_locales
  show "compare_set_of_element (mem a) (mem b) < 0 \<longleftrightarrow> 0 < compare_set_of_element (mem b) (mem a)" for a b
    using compare_flip [of "mem b" "mem a"] by simp
  show "compare_set_of_element (mem a) (mem b) \<le> 0 \<Longrightarrow> compare_set_of_element (mem b) (mem c) \<le> 0 \<Longrightarrow>
      compare_set_of_element (mem a) (mem c) \<le> 0" for a b c
    by (auto simp: compare_le)
qed

section \<open>Deep copies\<close>

definition copied :: "(int \<Rightarrow> int) \<Rightarrow> int \<Rightarrow> int" where
  "copied copy p = (if p = 0 then 0 else copy p)"

lemma deep_copy_loop_spec:
  "deep_copy_loop copy num i data = Inr out \<Longrightarrow> i \<le> num \<Longrightarrow> num \<le> length data \<Longrightarrow>
    out = take i data @ map (copied copy) (slice data i num) @ drop num data"
proof (induction copy num i data arbitrary: out rule: deep_copy_loop.induct)
  case (1 copy num i data)
  note unfold = deep_copy_loop.simps [of copy num i data]
  show ?case
  proof (cases "i < num")
    case False
    then have "i = num" using "1.prems"(2) by simp
    then show ?thesis using "1.prems" unfold by (simp add: slice_def)
  next
    case True
    have i: "i < length data" using True "1.prems"(3) by simp
    have step: "slice data i num = data ! i # slice data (i + 1) num"
      using True i by (simp add: slice_def Cons_nth_drop_Suc [symmetric] take_Cons' Suc_diff_Suc [symmetric])
    define data' where "data' = data[i := copied copy (data ! i)]"
    have same: "data[i := 0] = data" if "data ! i = 0" using that list_update_id [of data i] by simp
    have rec: "deep_copy_loop copy num (i + 1) data' = Inr out"
      using "1.prems"(1) unfold True same by (auto simp: data'_def copied_def Let_def split: if_splits)
    have "out = take (i + 1) data' @ map (copied copy) (slice data' (i + 1) num) @ drop num data'"
    proof (cases "data ! i = 0")
      case z: True
      then have "data' = data" by (simp add: data'_def copied_def list_update_same_conv i)
      then show ?thesis using "1.IH"(1) [OF True z] rec "1.prems"(3) True by simp
    next
      case nz: False
      then have d: "data' = data[i := copy (data ! i)]" by (simp add: data'_def copied_def)
      then have "data' ! i \<noteq> 0" using "1.prems"(1) unfold True nz by (auto simp: Let_def split: if_splits)
      then show ?thesis using "1.IH"(2) [OF True nz d] rec "1.prems"(3) True by (simp add: data'_def)
    qed
    moreover have "take (i + 1) data' = take i data @ [copied copy (data ! i)]" "slice data' (i + 1) num = slice data (i + 1) num"
      "drop num data' = drop num data"
      using i True by (simp_all add: data'_def take_Suc_conv_app_nth slice_def)
    ultimately show ?thesis using step by simp
  qed
qed

lemma deep_copy_spec:
  assumes "stack_inv call s" "OPENSSL_sk_deep_copy malloc zalloc_ok copy (Some s) = (Some s', freed)"
    and "\<And>a b. call (st_comp s) a b \<le> 0 \<Longrightarrow> call (st_comp s) (copied copy a) (copied copy b) \<le> 0"
  shows "stack_inv call s' \<and> entries s' = map (copied copy) (entries s)"
proof -
  obtain t data where t: "OPENSSL_sk_dup malloc zalloc_ok (Some s) = Some t" "deep_copy_loop copy (st_num t) 0 (st_data t) = Inr data"
    "s' = t\<lparr>st_data := data\<rparr>" using assms(2) by (auto simp: OPENSSL_sk_deep_copy_def split: option.splits sum.splits)
  have ts: "t = s" by (rule dup_spec [OF assms(1) t(1)])
  have room: "st_num s \<le> length (st_data s)" using assms(1) by (simp add: stack_inv_def)
  have data: "data = map (copied copy) (entries s) @ drop (st_num s) (st_data s)"
    using deep_copy_loop_spec [OF t(2)] room by (simp add: ts slice_def entries_def)
  have e: "entries s' = map (copied copy) (entries s)"
    using room by (simp add: t(3) ts data entries_def)
  have "in_order call (st_comp s) (map (copied copy) xs)" if "in_order call (st_comp s) xs" for xs
    using that assms(3) by (auto simp: in_order_def sorted_wrt_map elim!: sorted_wrt_mono_rel [rotated])
  then show ?thesis using assms(1) e room by (auto simp: stack_inv_def t(3) ts data entries_def)
qed

section \<open>Calls\<close>

inductive sk_step :: "call_cmp \<Rightarrow> ptr_allocator \<Rightarrow> stack_st \<Rightarrow> stack_st \<Rightarrow> bool" for call malloc where
  sk_zero: "OPENSSL_sk_zero (Some s) = Some s' \<Longrightarrow> sk_step call malloc s s'"
| sk_insert: "OPENSSL_sk_insert malloc (Some s) p pos = (r, Some s') \<Longrightarrow> sk_step call malloc s s'"
| sk_push: "OPENSSL_sk_push malloc (Some s) p = (r, Some s') \<Longrightarrow> sk_step call malloc s s'"
| sk_delete: "OPENSSL_sk_delete (Some s) pos = (x, Some s') \<Longrightarrow> sk_step call malloc s s'"
| sk_delete_ptr: "OPENSSL_sk_delete_ptr (Some s) p = (x, Some s') \<Longrightarrow> sk_step call malloc s s'"
| sk_delete_if: "OPENSSL_sk_delete_if f (Some s) = Some s' \<Longrightarrow> sk_step call malloc s s'"
| sk_shift: "OPENSSL_sk_shift (Some s) = (x, Some s') \<Longrightarrow> sk_step call malloc s s'"
| sk_pop: "OPENSSL_sk_pop (Some s) = (x, Some s') \<Longrightarrow> sk_step call malloc s s'"
| sk_sort: "OPENSSL_sk_sort call (Some s) = Some s' \<Longrightarrow> sk_step call malloc s s'"
| sk_set_cmp_func: "OPENSSL_sk_set_cmp_func s c = (old, s') \<Longrightarrow> sk_step call malloc s s'"
| sk_dup: "OPENSSL_sk_dup malloc zalloc_ok (Some s) = Some s' \<Longrightarrow> sk_step call malloc s s'"
| sk_set: "OPENSSL_sk_set (Some s) i v = (r, Some s') \<Longrightarrow> \<not> st_sorted s \<Longrightarrow> sk_step call malloc s s'"
| sk_deep_copy: "OPENSSL_sk_deep_copy malloc zalloc_ok copy (Some s) = (Some s', freed) \<Longrightarrow>
    (\<And>a b. call (st_comp s) a b \<le> 0 \<Longrightarrow> call (st_comp s) (copied copy a) (copied copy b) \<le> 0) \<Longrightarrow> sk_step call malloc s s'"

inductive_cases sk_stepE: "sk_step call malloc s s'"

inductive sk_reach :: "call_cmp \<Rightarrow> ptr_allocator \<Rightarrow> stack_st \<Rightarrow> bool" for call malloc where
  sk_new: "OPENSSL_sk_new malloc zalloc_ok c = Some s \<Longrightarrow> sk_reach call malloc s"
| sk_call: "sk_reach call malloc s \<Longrightarrow> sk_step call malloc s s' \<Longrightarrow> sk_reach call malloc s'"

text \<open>Deleting at an index, in or out of range.\<close>

lemma delete_inv: "stack_inv call s \<Longrightarrow> OPENSSL_sk_delete (Some s) pos = (x, Some s') \<Longrightarrow> stack_inv call s'"
  using delete_spec [of call s pos] by (cases "pos < st_num s") (auto simp: OPENSSL_sk_delete_def)

lemma delete_at_inv:
  assumes "stack_inv call s"
  shows "OPENSSL_sk_delete_ptr (Some s) p = (x, Some s') \<Longrightarrow> stack_inv call s'"
    "OPENSSL_sk_shift (Some s) = (x, Some s') \<Longrightarrow> stack_inv call s'"
    "OPENSSL_sk_pop (Some s) = (x, Some s') \<Longrightarrow> stack_inv call s'"
  using delete_inv [OF assms] assms
  by (auto simp: OPENSSL_sk_delete_ptr_def OPENSSL_sk_shift_def OPENSSL_sk_pop_def split: option.splits if_splits)

lemma step_inv:
  assumes "sk_step call malloc s s'" "stack_inv call s" "blocks_ok malloc" "\<And>c. pointer_comparison (call c)"
  shows "stack_inv call s'"
  using assms(1)
proof (cases rule: sk_step.cases)
  case sk_zero
  then show ?thesis using zero_spec [OF assms(2)] by simp
next
  case (sk_insert p pos r)
  then show ?thesis using insert_spec [OF assms(2,3) sk_insert] by auto
next
  case (sk_push p r)
  then show ?thesis using insert_spec [OF assms(2,3), of p "OPENSSL_sk_num (Some s)"] by (auto simp: OPENSSL_sk_push_def)
next
  case sk_delete_if
  then show ?thesis using sk_delete_if_spec [OF assms(2)] by simp
next
  case sk_sort
  then show ?thesis using sort_spec [OF assms(2,4)] by simp
next
  case (sk_set_cmp_func c old)
  then show ?thesis using set_cmp_func_spec [OF assms(2)] by simp
next
  case (sk_dup zalloc_ok)
  then show ?thesis using dup_spec [OF assms(2) sk_dup] assms(2) by blast
next
  case (sk_set i v r)
  then show ?thesis using assms(2) by (auto simp: OPENSSL_sk_set_def stack_inv_def split: if_splits)
next
  case (sk_deep_copy zalloc_ok copy freed)
  then show ?thesis using deep_copy_spec [OF assms(2) sk_deep_copy] by blast
qed (use delete_inv [OF assms(2)] delete_at_inv [OF assms(2)] in \<open>simp_all\<close>)

text \<open>Why an insertion fails.\<close>

lemma insert_fails:
  assumes "stack_inv call s" "OPENSSL_sk_insert malloc (Some s) p pos = (0, sk)"
  shows "st_num s = int_max \<or> (\<exists>n. malloc n = None)"
proof (cases "st_num s < int_max")
  case True
  then have "sk_reserve malloc s = None"
    using assms(2) by (auto simp: OPENSSL_sk_insert_def Let_def split: option.splits)
  moreover have "grown_alloc (st_num_alloc s) \<noteq> None" if "st_num_alloc s \<le> st_num s + 1"
    using grown_alloc_double [of "st_num_alloc s"] that True by simp
  ultimately show ?thesis
    using True by (auto simp: sk_reserve_def realloc_ptrs_def split: if_splits option.splits)
next
  case False
  then show ?thesis using assms(1) by (simp add: stack_inv_def)
qed

section \<open>Properties\<close>

text \<open>
  C9: however a stack is built and changed by the calls of \<^verbatim>\<open>stack.c\<close>, elements being replaced by \<open>OPENSSL_sk_set\<close> only
  while the stack is not marked as sorted and deep copies comparing as their originals, its count stays inside its
  allocation, and a stack that is marked as sorted is in the order of its comparison function.
\<close>

theorem stack_flag_truthful:
  assumes "sk_reach call malloc s" "blocks_ok malloc" "\<And>c. pointer_comparison (call c)"
  shows "st_num s \<le> st_num_alloc s \<and> length (st_data s) = st_num_alloc s \<and>
    (OPENSSL_sk_is_sorted (Some s) \<longrightarrow> in_order call (st_comp s) (entries s))"
proof -
  have inv: "stack_inv call s"
    using assms(1)
  proof (induction rule: sk_reach.induct)
    case (sk_new zalloc_ok c s)
    then show ?case using new_spec by simp
  next
    case (sk_call s s')
    then show ?case using step_inv [OF sk_call.hyps(2) sk_call.IH assms(2,3)] by simp
  qed
  have "in_order call (st_comp s) (entries s)" if "st_num s < 2"
  proof -
    have "length (entries s) < 2" using that length_entries [OF inv] by simp
    then obtain x where "entries s = [] \<or> entries s = [x]" by (cases "entries s"; cases "tl (entries s)") auto
    then show ?thesis by auto
  qed
  then show ?thesis using inv by (auto simp: stack_inv_def OPENSSL_sk_is_sorted_def)
qed

text \<open>The stack of the examples: three certificates in reverse order, compared by their numbers.\<close>

definition by_number :: call_cmp where "by_number c a b = a - b"
definition all_blocks :: ptr_allocator where "all_blocks n = Some (replicate (n div 8) 7)"
definition three_down :: stack_st where
  "three_down = \<lparr>st_num = 3, st_data = [30, 20, 10, 0], st_sorted = False, st_num_alloc = 4, st_comp = 5\<rparr>"

lemma by_number_comparison: "pointer_comparison (by_number c)"
  by unfold_locales (auto simp: by_number_def)

lemma all_blocks_ok: "blocks_ok all_blocks"
  by (simp add: blocks_ok_def all_blocks_def)

lemma three_down_inv: "stack_inv by_number three_down"
  by (simp add: stack_inv_def three_down_def kMinSize_def)

lemma stack_flag_truthful_witness:
  "\<exists>s. sk_reach by_number all_blocks s \<and> OPENSSL_sk_is_sorted (Some s) \<and> st_num s \<le> st_num_alloc s \<and>
    in_order by_number (st_comp s) (entries s)"
proof -
  let ?s = "\<lparr>st_num = 0, st_data = replicate kMinSize 0, st_sorted = False, st_num_alloc = kMinSize, st_comp = 5\<rparr>"
  have "OPENSSL_sk_new all_blocks True 5 = Some ?s" by (simp add: OPENSSL_sk_new_def all_blocks_def)
  then have "sk_reach by_number all_blocks ?s" by (rule sk_new)
  then show ?thesis
    using stack_flag_truthful [of by_number all_blocks ?s, OF _ all_blocks_ok by_number_comparison]
    by (intro exI [of _ ?s]) (auto simp: OPENSSL_sk_is_sorted_def)
qed

text \<open>
  C7: sorting puts the elements in ascending order and keeps them all; the array behind them is not touched.
\<close>

theorem stack_sort_sorts:
  assumes "stack_inv call s" "pointer_comparison (call (st_comp s))" "st_comp s \<noteq> 0"
  shows "\<exists>s'. OPENSSL_sk_sort call (Some s) = Some s' \<and> mset (entries s') = mset (entries s) \<and>
    in_order call (st_comp s) (entries s') \<and> OPENSSL_sk_is_sorted (Some s') \<and> stack_inv call s'"
proof -
  obtain s' where "OPENSSL_sk_sort call (Some s) = Some s'"
    by (cases "OPENSSL_sk_sort call (Some s)") (auto simp: OPENSSL_sk_sort_def Let_def split: if_splits)
  then show ?thesis using sort_spec [OF assms(1,2)] assms(3) by (auto simp: OPENSSL_sk_is_sorted_def)
qed

lemma stack_sort_sorts_witness:
  "\<exists>s'. OPENSSL_sk_sort by_number (Some three_down) = Some s' \<and> mset (entries s') = {#10, 20, 30#} \<and>
    in_order by_number 5 (entries s') \<and> OPENSSL_sk_is_sorted (Some s')"
  using stack_sort_sorts [OF three_down_inv by_number_comparison] by (auto simp: three_down_def entries_def add_mset_commute)

text \<open>
  C8: the search returns the first element that compares equal, or nothing if there is none: the binary search of a
  sorted stack gives the answer of the linear search.
\<close>

theorem stack_find_first:
  assumes "stack_inv call s" "pointer_comparison (call (st_comp s))" "st_comp s \<noteq> 0" "p \<noteq> 0"
  shows "OPENSSL_sk_find call (Some s) p = first_index (\<lambda>x. call (st_comp s) p x = 0) (entries s) 0"
proof (cases "OPENSSL_sk_is_sorted (Some s)")
  case False
  then show ?thesis using assms(3,4) by (simp add: OPENSSL_sk_find_def entries_def)
next
  case True
  have room: "st_num s \<le> length (st_data s)" using assms(1) by (simp add: stack_inv_def)
  have "in_order call (st_comp s) (entries s)"
  proof (cases "st_sorted s")
    case False
    then have "length (entries s) < 2" using True by (simp add: OPENSSL_sk_is_sorted_def length_entries [OF assms(1)])
    then obtain x where "entries s = [] \<or> entries s = [x]" by (cases "entries s"; cases "tl (entries s)") auto
    then show ?thesis by auto
  qed (use assms(1) in \<open>simp add: stack_inv_def\<close>)
  then have "directed (call (st_comp s) p) (st_data s) (st_num s)"
    unfolding entries_def by (intro directed_in_order assms(2) room)
  then show ?thesis
    using search_loop_first [of "call (st_comp s) p" "st_data s" "st_num s" "st_num s" 0] room True assms(3,4)
    by (simp add: OPENSSL_sk_find_def slice_def entries_def)
qed

lemma stack_find_first_witness:
  "OPENSSL_sk_find by_number (Some (three_down\<lparr>st_data := [10, 20, 20, 0], st_sorted := True\<rparr>)) 20 = Some 1"
proof -
  have "stack_inv by_number (three_down\<lparr>st_data := [10, 20, 20, 0], st_sorted := True\<rparr>)"
    by (simp add: stack_inv_def three_down_def kMinSize_def entries_def in_order_def by_number_def)
  note find = stack_find_first [OF this by_number_comparison, of 20]
  have "first_index (\<lambda>x. by_number 5 20 x = 0) [10, 20, 20] 0 = Some 1" by (simp add: by_number_def)
  then show ?thesis using find by (simp add: three_down_def entries_def)
qed

text \<open>
  C6: insertion and deletion are those of lists. An insertion that fails leaves the stack as it was, and it fails only
  at \<open>INT_MAX\<close> elements or when the allocator refuses to grow the array.
\<close>

theorem stack_refines_list:
  assumes "stack_inv call s" "blocks_ok malloc"
  shows "(\<exists>r s'. OPENSSL_sk_insert malloc (Some s) p pos = (r, Some s') \<and>
      (r = 0 \<longrightarrow> s' = s \<and> (st_num s = int_max \<or> (\<exists>n. malloc n = None))) \<and>
      (r \<noteq> 0 \<longrightarrow> entries s' = take pos (entries s) @ p # drop pos (entries s) \<and> r = length (entries s'))) \<and>
    (i < length (entries s) \<longrightarrow> (\<exists>s'. OPENSSL_sk_delete (Some s) i = (entries s ! i, Some s') \<and>
      entries s' = take i (entries s) @ drop (Suc i) (entries s))) \<and>
    (\<exists>s'. OPENSSL_sk_delete_if f (Some s) = Some s' \<and> entries s' = filter (\<lambda>x. \<not> f x) (entries s))"
proof (intro conjI)
  obtain r sk where ins: "OPENSSL_sk_insert malloc (Some s) p pos = (r, sk)" by (cases "OPENSSL_sk_insert malloc (Some s) p pos")
  then obtain s' where s': "sk = Some s'" "stack_inv call s'"
    "if r = 0 then s' = s else r = st_num s' \<and> entries s' = take pos (entries s) @ p # drop pos (entries s)"
    using insert_spec [OF assms(1,2)] by blast
  have "r = 0 \<Longrightarrow> st_num s = int_max \<or> (\<exists>n. malloc n = None)"
    using insert_fails [OF assms(1)] ins by simp
  then show "\<exists>r s'. OPENSSL_sk_insert malloc (Some s) p pos = (r, Some s') \<and>
      (r = 0 \<longrightarrow> s' = s \<and> (st_num s = int_max \<or> (\<exists>n. malloc n = None))) \<and>
      (r \<noteq> 0 \<longrightarrow> entries s' = take pos (entries s) @ p # drop pos (entries s) \<and> r = length (entries s'))"
    using ins s' length_entries [OF s'(2)] by (auto split: if_splits)
  show "i < length (entries s) \<longrightarrow> (\<exists>s'. OPENSSL_sk_delete (Some s) i = (entries s ! i, Some s') \<and>
      entries s' = take i (entries s) @ drop (Suc i) (entries s))"
    using delete_spec [OF assms(1), of i] length_entries [OF assms(1)] by auto
  obtain s' where "OPENSSL_sk_delete_if f (Some s) = Some s'"
    by (cases "delete_if_loop f (st_num s) 0 0 (st_data s)") (auto simp: OPENSSL_sk_delete_if_def)
  then show "\<exists>s'. OPENSSL_sk_delete_if f (Some s) = Some s' \<and> entries s' = filter (\<lambda>x. \<not> f x) (entries s)"
    using sk_delete_if_spec [OF assms(1)] by blast
qed

lemma stack_refines_list_witness:
  "\<exists>r s' s''. OPENSSL_sk_insert all_blocks (Some three_down) 15 2 = (r, Some s') \<and> r = 4 \<and> entries s' = [30, 20, 15, 10] \<and>
    OPENSSL_sk_delete (Some three_down) 1 = (20, Some s'') \<and> entries s'' = [30, 10]"
proof -
  have "1 < length (entries three_down)" by (simp add: three_down_def entries_def)
  with stack_refines_list [OF three_down_inv all_blocks_ok, of 15 2 1 "\<lambda>_. False"]
  obtain r s' s'' where T: "OPENSSL_sk_insert all_blocks (Some three_down) 15 2 = (r, Some s')"
    "r = 0 \<longrightarrow> st_num three_down = int_max \<or> (\<exists>n. all_blocks n = None)"
    "r \<noteq> 0 \<longrightarrow> entries s' = take 2 (entries three_down) @ 15 # drop 2 (entries three_down) \<and> r = length (entries s')"
    "OPENSSL_sk_delete (Some three_down) 1 = (entries three_down ! 1, Some s'')"
    "entries s'' = take 1 (entries three_down) @ drop (Suc 1) (entries three_down)"
    by blast
  have e: "entries three_down = [30, 20, 10]" by (simp add: three_down_def entries_def)
  have "r \<noteq> 0" using T(2) by (auto simp: three_down_def all_blocks_def)
  then have "entries s' = [30, 20, 15, 10]" "r = 4" using T(3) by (simp_all add: e)
  moreover have "entries s'' = [30, 10]" "entries three_down ! 1 = 20" using T(5) by (simp_all add: e)
  ultimately show ?thesis using T(1,4) by auto
qed

text \<open>
  C10: setting an element of a sorted stack leaves the mark in place, so that the stack still counts as sorted, and the
  search misses an element that was set to the front and compares greater than the others.
\<close>

theorem stack_set_stale_flag:
  assumes "st_sorted s" "st_comp s \<noteq> 0" "3 \<le> st_num s" "st_num s \<le> length (st_data s)" "v \<noteq> 0"
    and "\<And>j. 1 \<le> j \<Longrightarrow> j < st_num s \<Longrightarrow> 0 < call (st_comp s) v (st_data s ! j)"
  shows "\<exists>s'. OPENSSL_sk_set (Some s) 0 v = (v, Some s') \<and> OPENSSL_sk_is_sorted (Some s') \<and>
    OPENSSL_sk_value (Some s') 0 = v \<and> OPENSSL_sk_find call (Some s') v = None"
proof -
  let ?s = "s\<lparr>st_data := (st_data s)[0 := v]\<rparr>"
  have none: "search_loop f d lo hi = None"
    if "\<And>j. 1 \<le> j \<Longrightarrow> j < hi \<Longrightarrow> 0 < f (d ! j)" "1 \<le> lo \<or> 3 \<le> hi - lo" for f d lo hi
    using that
  proof (induction f d lo hi rule: search_loop.induct)
    case (1 f d lo hi)
    define mid where "mid = lo + (hi - lo - 1) div 2"
    show ?case
    proof (cases "lo < hi")
      case True
      then have "1 \<le> mid" "mid < hi" using "1.prems"(2) by (auto simp: mid_def)
      then have "0 < f (d ! mid)" using "1.prems"(1) by blast
      moreover have "search_loop f d (mid + 1) hi = None"
        using "1.IH"(1) [OF True mid_def refl] "1.prems"(1) calculation by simp
      ultimately show ?thesis
        using True search_loop.simps [of f d lo hi, unfolded Let_def, folded mid_def] by simp
    qed (simp add: search_loop.simps [of f d lo hi])
  qed
  have "search_loop (call (st_comp s) v) ((st_data s)[0 := v]) 0 (st_num s) = None"
    by (rule none) (use assms(3,6) in auto)
  moreover have "(st_data s)[0 := v] ! 0 = v" using assms(3,4) by (intro nth_list_update_eq) linarith
  ultimately show ?thesis
    using assms by (intro exI [of _ ?s])
      (auto simp: OPENSSL_sk_set_def OPENSSL_sk_is_sorted_def OPENSSL_sk_value_def OPENSSL_sk_find_def)
qed

lemma stack_set_stale_flag_witness:
  "\<exists>s s'. OPENSSL_sk_sort by_number (Some three_down) = Some s \<and> OPENSSL_sk_set (Some s) 0 40 = (40, Some s') \<and>
    OPENSSL_sk_value (Some s') 0 = 40 \<and> OPENSSL_sk_find by_number (Some s') 40 = None"
proof -
  let ?s = "three_down\<lparr>st_data := [10, 20, 30, 0], st_sorted := True\<rparr>"
  have "OPENSSL_sk_sort by_number (Some three_down) = Some ?s"
    by (simp add: OPENSSL_sk_sort_def three_down_def by_number_def eval_nat_numeral parent_idx_def left_idx_def
        down_heap.simps heap_next_def swap_ptrs_def Let_def)
  moreover have "0 < by_number (st_comp ?s) 40 (st_data ?s ! j)" if "1 \<le> j" "j < st_num ?s" for j
  proof -
    have "j = 1 \<or> j = 2" using that by (auto simp: three_down_def)
    then show ?thesis by (auto simp: three_down_def by_number_def)
  qed
  ultimately show ?thesis
    using stack_set_stale_flag [of ?s 40 by_number] by (auto simp: three_down_def)
qed

end
