(* ===== verification/Lhash.thy ===== *)
theory Lhash
  imports Mem
begin

text \<open>
  \<^verbatim>\<open>crypto/lhash/lhash.c\<close>: the hash table with chaining that the object and configuration tables are made of.

  A chain, a linked list of items in the code, is a list; what \<open>get_next_ptr_and_hash\<close> points to is a bucket and a
  position in its chain, the length of the chain standing for the null pointer at its end. Data are pointers, integers
  with 0 for null; \<open>hash_of\<close> and \<open>cmp\<close> are the calls of the table's two functions. \<open>malloc_ok\<close> and \<open>zalloc_ok\<close> say
  whether the allocation of an item and of an array of buckets of that many bytes succeeds.
\<close>

record lhash_item =
  it_data :: int
  it_hash :: u32

record lhash_st =
  num_items :: nat
  buckets :: "lhash_item list list"
  num_buckets :: nat
  callback_depth :: nat

type_synonym lh_hash = "int \<Rightarrow> u32"
type_synonym lh_cmp = "int \<Rightarrow> int \<Rightarrow> int"

definition kMinNumBuckets :: nat where "kMinNumBuckets = 16"
definition kMaxAverageChainLength :: nat where "kMaxAverageChainLength = 2"
definition kMinAverageChainLength :: nat where "kMinAverageChainLength = 1"

definition OPENSSL_lh_new :: "bool \<Rightarrow> (nat \<Rightarrow> bool) \<Rightarrow> lhash_st option" where
  "OPENSSL_lh_new malloc_ok zalloc_ok =
     (if malloc_ok \<and> zalloc_ok (kMinNumBuckets * 8)
      then Some \<lparr>num_items = 0, buckets = replicate kMinNumBuckets [], num_buckets = kMinNumBuckets, callback_depth = 0\<rparr>
      else None)"

text \<open>The items that are freed with the table, in order.\<close>

definition OPENSSL_lh_free :: "lhash_st option \<Rightarrow> lhash_item list" where
  "OPENSSL_lh_free lh = (case lh of None \<Rightarrow> [] | Some lh \<Rightarrow> concat (take (num_buckets lh) (buckets lh)))"

definition OPENSSL_lh_num_items :: "lhash_st \<Rightarrow> nat" where
  "OPENSSL_lh_num_items lh = num_items lh"

section \<open>Lookup\<close>

text \<open>The loop over a chain: the position of the first item that \<open>eq\<close> accepts.\<close>

fun chain_pos :: "(int \<Rightarrow> bool) \<Rightarrow> lhash_item list \<Rightarrow> nat" where
  "chain_pos eq [] = 0"
| "chain_pos eq (cur # rest) = (if eq (it_data cur) then 0 else Suc (chain_pos eq rest))"

definition get_next_ptr_and_hash :: "lhash_st \<Rightarrow> lh_hash \<Rightarrow> lh_cmp \<Rightarrow> int \<Rightarrow> nat \<times> nat \<times> u32" where
  "get_next_ptr_and_hash lh hash_of cmp data =
     (let h = hash_of data; i = unat h mod num_buckets lh
      in (i, chain_pos (\<lambda>cur. cmp cur data = 0) (buckets lh ! i), h))"

definition get_next_ptr_by_key :: "lhash_st \<Rightarrow> u32 \<Rightarrow> (int \<Rightarrow> int) \<Rightarrow> nat \<times> nat" where
  "get_next_ptr_by_key lh key_hash cmp_key =
     (let i = unat key_hash mod num_buckets lh
      in (i, chain_pos (\<lambda>cur. cmp_key cur = 0) (buckets lh ! i)))"

text \<open>The pointer that is found, as the item it points to.\<close>

definition item_at :: "lhash_st \<Rightarrow> nat \<Rightarrow> nat \<Rightarrow> lhash_item option" where
  "item_at lh i k = (let chain = buckets lh ! i in if k < length chain then Some (chain ! k) else None)"

definition OPENSSL_lh_retrieve :: "lhash_st \<Rightarrow> lh_hash \<Rightarrow> lh_cmp \<Rightarrow> int \<Rightarrow> int" where
  "OPENSSL_lh_retrieve lh hash_of cmp data =
     (case get_next_ptr_and_hash lh hash_of cmp data of
        (i, k, _) \<Rightarrow> (case item_at lh i k of None \<Rightarrow> 0 | Some item \<Rightarrow> it_data item))"

definition OPENSSL_lh_retrieve_key :: "lhash_st \<Rightarrow> u32 \<Rightarrow> (int \<Rightarrow> int) \<Rightarrow> int" where
  "OPENSSL_lh_retrieve_key lh key_hash cmp_key =
     (case get_next_ptr_by_key lh key_hash cmp_key of
        (i, k) \<Rightarrow> (case item_at lh i k of None \<Rightarrow> 0 | Some item \<Rightarrow> it_data item))"

section \<open>Resizing\<close>

text \<open>An item is moved to the front of its new chain.\<close>

definition move_item :: "nat \<Rightarrow> lhash_item \<Rightarrow> lhash_item list list \<Rightarrow> lhash_item list list" where
  "move_item new_num_buckets cur new_buckets =
     (let new_bucket = unat (it_hash cur) mod new_num_buckets
      in new_buckets[new_bucket := cur # new_buckets ! new_bucket])"

fun move_chain :: "nat \<Rightarrow> lhash_item list \<Rightarrow> lhash_item list list \<Rightarrow> lhash_item list list" where
  "move_chain n [] new_buckets = new_buckets"
| "move_chain n (cur # rest) new_buckets = move_chain n rest (move_item n cur new_buckets)"

fun move_buckets :: "nat \<Rightarrow> lhash_item list list \<Rightarrow> lhash_item list list \<Rightarrow> lhash_item list list" where
  "move_buckets n [] new_buckets = new_buckets"
| "move_buckets n (chain # rest) new_buckets = move_buckets n rest (move_chain n chain new_buckets)"

definition lh_rebucket :: "(nat \<Rightarrow> bool) \<Rightarrow> lhash_st \<Rightarrow> nat \<Rightarrow> lhash_st" where
  "lh_rebucket zalloc_ok lh new_num_buckets =
     (let alloc_size = 8 * new_num_buckets mod size_max
      in if alloc_size div 8 \<noteq> new_num_buckets then lh
         else if \<not> zalloc_ok alloc_size then lh
         else lh\<lparr>num_buckets := new_num_buckets,
                 buckets := move_buckets new_num_buckets (take (num_buckets lh) (buckets lh)) (replicate new_num_buckets [])\<rparr>)"

definition lh_maybe_resize :: "(nat \<Rightarrow> bool) \<Rightarrow> lhash_st \<Rightarrow> lhash_st" where
  "lh_maybe_resize zalloc_ok lh =
     (if callback_depth lh > 0 then lh
      else
        let avg_chain_length = num_items lh div num_buckets lh
        in if avg_chain_length > kMaxAverageChainLength then
             let new_num_buckets = num_buckets lh * 2 mod size_max
             in if new_num_buckets > num_buckets lh then lh_rebucket zalloc_ok lh new_num_buckets else lh
           else if avg_chain_length < kMinAverageChainLength \<and> num_buckets lh > kMinNumBuckets then
             let new_num_buckets = num_buckets lh div 2
             in lh_rebucket zalloc_ok lh (if new_num_buckets < kMinNumBuckets then kMinNumBuckets else new_num_buckets)
           else lh)"

section \<open>Insertion and deletion\<close>

text \<open>The result is the return value, the old data and the table.\<close>

definition OPENSSL_lh_insert ::
    "(nat \<Rightarrow> bool) \<Rightarrow> (nat \<Rightarrow> bool) \<Rightarrow> lhash_st \<Rightarrow> lh_hash \<Rightarrow> lh_cmp \<Rightarrow> int \<Rightarrow> bool \<times> int \<times> lhash_st" where
  "OPENSSL_lh_insert malloc_ok zalloc_ok lh hash_of cmp data =
     (case get_next_ptr_and_hash lh hash_of cmp data of
        (i, k, hash) \<Rightarrow>
          (case item_at lh i k of
             Some item \<Rightarrow>
               (True, it_data item, lh\<lparr>buckets := (buckets lh)[i := (buckets lh ! i)[k := item\<lparr>it_data := data\<rparr>]]\<rparr>)
           | None \<Rightarrow>
               if \<not> malloc_ok 24 then (False, 0, lh)
               else
                 let item = \<lparr>it_data = data, it_hash = hash\<rparr>;
                     lh = lh\<lparr>buckets := (buckets lh)[i := take k (buckets lh ! i) @ [item]], num_items := num_items lh + 1\<rparr>
                 in (True, 0, lh_maybe_resize zalloc_ok lh)))"

definition OPENSSL_lh_delete :: "(nat \<Rightarrow> bool) \<Rightarrow> lhash_st \<Rightarrow> lh_hash \<Rightarrow> lh_cmp \<Rightarrow> int \<Rightarrow> int \<times> lhash_st" where
  "OPENSSL_lh_delete zalloc_ok lh hash_of cmp data =
     (case get_next_ptr_and_hash lh hash_of cmp data of
        (i, k, _) \<Rightarrow>
          (case item_at lh i k of
             None \<Rightarrow> (0, lh)
           | Some item \<Rightarrow>
               let chain = buckets lh ! i;
                   lh = lh\<lparr>buckets := (buckets lh)[i := take k chain @ drop (Suc k) chain], num_items := num_items lh - 1\<rparr>
               in (it_data item, lh_maybe_resize zalloc_ok lh)))"

section \<open>Iteration\<close>

text \<open>
  The walk over all items, for callbacks that do not change the table themselves: \<open>func\<close> works on a state of the
  caller. The depth is a saturating counter.
\<close>

abbreviation uint_max :: nat where "uint_max \<equiv> 4294967295"

definition OPENSSL_lh_doall_arg ::
    "(nat \<Rightarrow> bool) \<Rightarrow> lhash_st option \<Rightarrow> (int \<Rightarrow> 'a \<Rightarrow> 'a) \<Rightarrow> 'a \<Rightarrow> 'a \<times> lhash_st option" where
  "OPENSSL_lh_doall_arg zalloc_ok lh func arg =
     (case lh of
        None \<Rightarrow> (arg, None)
      | Some lh \<Rightarrow>
          let lh = (if callback_depth lh < uint_max then lh\<lparr>callback_depth := callback_depth lh + 1\<rparr> else lh);
              arg = fold (\<lambda>chain. fold (\<lambda>cur. func (it_data cur)) chain) (take (num_buckets lh) (buckets lh)) arg;
              lh = (if callback_depth lh < uint_max then lh\<lparr>callback_depth := callback_depth lh - 1\<rparr> else lh)
          in (arg, Some (lh_maybe_resize zalloc_ok lh)))"

end
