(* ===== verification/LhashSpec.thy ===== *)
theory LhashSpec
  imports Lhash "HOL-Library.Multiset"
begin

text \<open>
  A hash table is a finite map: retrieving, inserting and deleting are lookup, update and removal, whether the array of
  buckets is resized on the way, keeps its size because an allocation failed, or has long chains. And the chains are
  not long: the table grows and shrinks with the number of its items.
\<close>

section \<open>The two functions of a table\<close>

locale hashing =
  fixes hash_of :: lh_hash and cmp :: lh_cmp
  assumes cmp_refl [simp]: "cmp a a = 0"
    and cmp_sym: "cmp a b = 0 \<Longrightarrow> cmp b a = 0"
    and cmp_trans: "cmp a b = 0 \<Longrightarrow> cmp b c = 0 \<Longrightarrow> cmp a c = 0"
    and hash_equal: "cmp a b = 0 \<Longrightarrow> hash_of a = hash_of b"

text \<open>The items of a table; no two of them are equal, and each is where its hash says.\<close>

definition table_items :: "lhash_st \<Rightarrow> lhash_item multiset" where
  "table_items lh = mset (concat (buckets lh))"

definition all_differ :: "lh_cmp \<Rightarrow> lhash_item multiset \<Rightarrow> bool" where
  "all_differ cmp M \<longleftrightarrow> (\<forall>x\<in>#M. \<forall>y\<in>#M - {#x#}. cmp (it_data x) (it_data y) \<noteq> 0)"

definition placed :: "nat \<Rightarrow> lhash_item list list \<Rightarrow> bool" where
  "placed n bs \<longleftrightarrow> length bs = n \<and> (\<forall>i<n. \<forall>it\<in>set (bs ! i). unat (it_hash it) mod n = i)"

definition lh_inv :: "lh_hash \<Rightarrow> lh_cmp \<Rightarrow> lhash_st \<Rightarrow> bool" where
  "lh_inv hash_of cmp lh \<longleftrightarrow>
     kMinNumBuckets \<le> num_buckets lh \<and> placed (num_buckets lh) (buckets lh) \<and> num_items lh = size (table_items lh) \<and>
     all_differ cmp (table_items lh) \<and> (\<forall>it\<in>#table_items lh. it_hash it = hash_of (it_data it) \<and> it_data it \<noteq> 0)"

text \<open>The map that a table stands for.\<close>

definition lh_view :: "lh_cmp \<Rightarrow> lhash_st \<Rightarrow> int \<Rightarrow> int option" where
  "lh_view cmp lh k = List.find (\<lambda>d. cmp d k = 0) (map it_data (concat (buckets lh)))"

section \<open>Chains\<close>

lemma chain_pos_le: "chain_pos eq chain \<le> length chain"
  by (induction chain) auto

lemma chain_pos_found:
  "chain_pos eq chain < length chain \<longleftrightarrow> (\<exists>it\<in>set chain. eq (it_data it))"
  "chain_pos eq chain < length chain \<Longrightarrow> eq (it_data (chain ! chain_pos eq chain))"
  by (induction chain) auto

lemma table_split:
  "i < length bs \<Longrightarrow> mset (concat bs) = mset (bs ! i) + mset (concat (take i bs) @ concat (drop (Suc i) bs))"
  by (subst id_take_nth_drop [of i bs]) simp_all

lemma table_update:
  "i < length bs \<Longrightarrow> mset (concat (bs[i := c])) = mset c + mset (concat (take i bs) @ concat (drop (Suc i) bs))"
  by (simp add: upd_conv_take_nth_drop)

lemma placed_update:
  "placed n bs \<Longrightarrow> i < n \<Longrightarrow> (\<And>it. it \<in> set c \<Longrightarrow> unat (it_hash it) mod n = i) \<Longrightarrow> placed n (bs[i := c])"
  by (auto simp: placed_def nth_list_update)

lemma placed_same_hashes:
  assumes "placed n bs" "i < n" "it_hash ` set c \<subseteq> it_hash ` set (bs ! i)"
  shows "placed n (bs[i := c])"
proof (rule placed_update [OF assms(1,2)])
  fix it assume "it \<in> set c"
  then obtain it' where "it' \<in> set (bs ! i)" "it_hash it = it_hash it'" using assms(3) by auto
  then show "unat (it_hash it) mod n = i" using assms(1,2) by (auto simp: placed_def)
qed

section \<open>Moving the items to another array\<close>

lemma move_item_spec:
  assumes "placed n bs" "0 < n"
  shows "placed n (move_item n cur bs) \<and> mset (concat (move_item n cur bs)) = add_mset cur (mset (concat bs))"
proof -
  let ?i = "unat (it_hash cur) mod n"
  have i: "?i < n" "?i < length bs" using assms by (auto simp: placed_def)
  have "placed n (bs[?i := cur # bs ! ?i])" using assms i by (intro placed_update) (auto simp: placed_def)
  moreover have "mset (concat (bs[?i := cur # bs ! ?i])) = add_mset cur (mset (concat bs))"
    using table_split [OF i(2)] table_update [OF i(2), of "cur # bs ! ?i"] by simp
  ultimately show ?thesis by (simp add: move_item_def Let_def)
qed

lemma move_chain_spec:
  "placed n bs \<Longrightarrow> 0 < n \<Longrightarrow>
     placed n (move_chain n chain bs) \<and> mset (concat (move_chain n chain bs)) = mset chain + mset (concat bs)"
  by (induction chain arbitrary: bs) (simp_all add: move_item_spec)

lemma move_buckets_spec:
  "placed n bs \<Longrightarrow> 0 < n \<Longrightarrow>
     placed n (move_buckets n old bs) \<and> mset (concat (move_buckets n old bs)) = mset (concat old) + mset (concat bs)"
  by (induction old arbitrary: bs) (simp_all add: move_chain_spec ac_simps)

lemma empty_buckets: "placed n (replicate n [])" "concat (replicate n []) = []"
  by (auto simp: placed_def)

text \<open>Resizing keeps the items, and it either happens or leaves the table as it was.\<close>

lemma rebucket_spec:
  assumes "lh_inv hash_of cmp lh" "kMinNumBuckets \<le> n"
  shows "lh_inv hash_of cmp (lh_rebucket zalloc_ok lh n) \<and> table_items (lh_rebucket zalloc_ok lh n) = table_items lh \<and>
    callback_depth (lh_rebucket zalloc_ok lh n) = callback_depth lh \<and> num_items (lh_rebucket zalloc_ok lh n) = num_items lh"
proof (cases "lh_rebucket zalloc_ok lh n = lh")
  case False
  have old: "take (num_buckets lh) (buckets lh) = buckets lh" using assms(1) by (simp add: lh_inv_def placed_def)
  then have new: "lh_rebucket zalloc_ok lh n = lh\<lparr>num_buckets := n, buckets := move_buckets n (buckets lh) (replicate n [])\<rparr>"
    using False by (auto simp: lh_rebucket_def Let_def split: if_splits)
  have "0 < n" using assms(2) by (simp add: kMinNumBuckets_def)
  then have "placed n (move_buckets n (buckets lh) (replicate n []))"
    "mset (concat (move_buckets n (buckets lh) (replicate n []))) = mset (concat (buckets lh))"
    using move_buckets_spec [OF empty_buckets(1), of n "buckets lh"] by (auto simp: empty_buckets(2))
  then show ?thesis using assms new by (simp add: lh_inv_def table_items_def)
qed (use assms in simp)

lemma resize_spec:
  assumes "lh_inv hash_of cmp lh"
  shows "lh_inv hash_of cmp (lh_maybe_resize zalloc_ok lh) \<and> table_items (lh_maybe_resize zalloc_ok lh) = table_items lh \<and>
    callback_depth (lh_maybe_resize zalloc_ok lh) = callback_depth lh \<and> num_items (lh_maybe_resize zalloc_ok lh) = num_items lh"
proof -
  have min: "kMinNumBuckets \<le> num_buckets lh" using assms by (simp add: lh_inv_def)
  show ?thesis
    unfolding lh_maybe_resize_def Let_def
    using rebucket_spec [OF assms] min assms by (auto split: if_splits)
qed

section \<open>The laws\<close>

context hashing
begin

lemma cmp_swap: "cmp a b = 0 \<longleftrightarrow> cmp b a = 0"
  using cmp_sym by blast

lemma all_differ_add:
  "all_differ cmp (add_mset a M) \<longleftrightarrow> all_differ cmp M \<and> (\<forall>y\<in>#M. cmp (it_data a) (it_data y) \<noteq> 0)"
proof
  assume h: "all_differ cmp (add_mset a M)"
  have "cmp (it_data x) (it_data y) \<noteq> 0" if "x \<in># M" "y \<in># M - {#x#}" for x y
  proof -
    from multi_member_split [OF that(1)] obtain N where "M = add_mset x N" ..
    then have "x \<in># add_mset a M" "y \<in># add_mset a M - {#x#}" using that by simp_all
    then show ?thesis using h unfolding all_differ_def by blast
  qed
  moreover have "\<forall>y\<in>#M. cmp (it_data a) (it_data y) \<noteq> 0" using h by (simp add: all_differ_def)
  ultimately show "all_differ cmp M \<and> (\<forall>y\<in>#M. cmp (it_data a) (it_data y) \<noteq> 0)" by (simp add: all_differ_def)
next
  assume h: "all_differ cmp M \<and> (\<forall>y\<in>#M. cmp (it_data a) (it_data y) \<noteq> 0)"
  show "all_differ cmp (add_mset a M)"
    unfolding all_differ_def
  proof (intro ballI)
    fix x y assume x: "x \<in># add_mset a M" and y: "y \<in># add_mset a M - {#x#}"
    show "cmp (it_data x) (it_data y) \<noteq> 0"
    proof (cases "x = a")
      case True
      then show ?thesis using h y by simp
    next
      case False
      then have "x \<in># M" "y = a \<or> y \<in># M - {#x#}" using x y by (auto simp: diff_add_mset_swap)
      then show ?thesis using h cmp_swap by (auto simp: all_differ_def)
    qed
  qed
qed

lemma unique_item:
  assumes "all_differ cmp M" "x \<in># M" "y \<in># M" "cmp (it_data x) k = 0" "cmp (it_data y) k = 0"
  shows "x = y"
proof (rule ccontr)
  assume "x \<noteq> y"
  obtain N where "M = add_mset x N" using multi_member_split [OF assms(2)] by blast
  then have "y \<in># M - {#x#}" using assms(3) \<open>x \<noteq> y\<close> by simp
  then have "cmp (it_data x) (it_data y) \<noteq> 0" using assms(1,2) by (simp add: all_differ_def)
  then show False using assms(4,5) cmp_trans cmp_sym by blast
qed

lemma find_SomeD: "List.find P xs = Some x \<Longrightarrow> x \<in> set xs \<and> P x"
  by (induction xs) (auto split: if_splits)

lemma view_SomeD: "lh_view cmp lh k = Some d \<Longrightarrow> \<exists>it\<in>#table_items lh. it_data it = d \<and> cmp d k = 0"
proof -
  assume "lh_view cmp lh k = Some d"
  then have "d \<in> set (map it_data (concat (buckets lh))) \<and> cmp d k = 0"
    unfolding lh_view_def by (rule find_SomeD)
  then have "d \<in> it_data ` set (concat (buckets lh))" "cmp d k = 0" unfolding set_map by blast+
  then show ?thesis unfolding table_items_def set_mset_mset by blast
qed

lemma view_iff:
  assumes "lh_inv hash_of cmp lh"
  shows "lh_view cmp lh k = Some d \<longleftrightarrow> (\<exists>it\<in>#table_items lh. it_data it = d \<and> cmp d k = 0)"
proof
  show "lh_view cmp lh k = Some d \<Longrightarrow> \<exists>it\<in>#table_items lh. it_data it = d \<and> cmp d k = 0" by (rule view_SomeD)
next
  assume "\<exists>it\<in>#table_items lh. it_data it = d \<and> cmp d k = 0"
  then obtain it where it: "it \<in># table_items lh" "it_data it = d" "cmp d k = 0" by blast
  then have "lh_view cmp lh k \<noteq> None" by (auto simp: lh_view_def table_items_def find_None_iff)
  then obtain e where e: "lh_view cmp lh k = Some e" by auto
  then obtain it' where "it' \<in># table_items lh" "it_data it' = e" "cmp e k = 0"
    using view_SomeD by blast
  then have "it' = it" using unique_item [of "table_items lh" it' it k] it assms by (auto simp: lh_inv_def)
  then show "lh_view cmp lh k = Some d" using e it \<open>it_data it' = e\<close> by simp
qed

text \<open>What a search of one chain finds is what the table holds.\<close>

lemma search_spec:
  assumes "lh_inv hash_of cmp lh" "get_next_ptr_and_hash lh hash_of cmp data = (i, k, h)"
  shows "i < length (buckets lh)" "h = hash_of data" "k \<le> length (buckets lh ! i)" "unat h mod num_buckets lh = i"
    "item_at lh i k = Some it \<Longrightarrow> it \<in> set (buckets lh ! i) \<and> buckets lh ! i ! k = it \<and> cmp (it_data it) data = 0"
    "item_at lh i k = None \<Longrightarrow> it \<in># table_items lh \<Longrightarrow> cmp (it_data it) data \<noteq> 0"
proof -
  have def: "h = hash_of data" "i = unat (hash_of data) mod num_buckets lh"
    "k = chain_pos (\<lambda>cur. cmp cur data = 0) (buckets lh ! i)"
    using assms(2) by (auto simp: get_next_ptr_and_hash_def Let_def)
  have pl: "placed (num_buckets lh) (buckets lh)" "0 < num_buckets lh"
    using assms(1) by (auto simp: lh_inv_def kMinNumBuckets_def)
  then show i: "i < length (buckets lh)" using def(2) by (auto simp: placed_def)
  show "h = hash_of data" "k \<le> length (buckets lh ! i)" "unat h mod num_buckets lh = i"
    using def chain_pos_le by auto
  show "it \<in> set (buckets lh ! i) \<and> buckets lh ! i ! k = it \<and> cmp (it_data it) data = 0" if "item_at lh i k = Some it"
    using that chain_pos_found(2) [of "\<lambda>cur. cmp cur data = 0" "buckets lh ! i"] def(3)
    by (auto simp: item_at_def Let_def split: if_splits)
  show "cmp (it_data it) data \<noteq> 0" if none: "item_at lh i k = None" and it: "it \<in># table_items lh"
  proof
    assume eq: "cmp (it_data it) data = 0"
    obtain c where c: "c \<in> set (buckets lh)" "it \<in> set c" using it by (auto simp: table_items_def)
    then obtain j where j: "j < length (buckets lh)" "it \<in> set (buckets lh ! j)" by (metis in_set_conv_nth)
    have "unat (it_hash it) mod num_buckets lh = j" using pl j by (auto simp: placed_def)
    moreover have "it_hash it = hash_of data" using assms(1) it hash_equal [OF eq] by (auto simp: lh_inv_def)
    ultimately have "j = i" using def(2) by simp
    then have "k < length (buckets lh ! i)" using j(2) eq chain_pos_found(1) def(3) by blast
    then show False using none by (simp add: item_at_def Let_def)
  qed
qed

lemma chain_split: "buckets lh ! i ! k = it \<Longrightarrow> k < length (buckets lh ! i) \<Longrightarrow>
    buckets lh ! i = take k (buckets lh ! i) @ it # drop (Suc k) (buckets lh ! i)"
  using id_take_nth_drop by blast

lemma item_at_less: "item_at lh i k = Some it \<Longrightarrow> k < length (buckets lh ! i)"
  by (simp add: item_at_def Let_def split: if_splits)

lemma retrieve_view:
  assumes "lh_inv hash_of cmp lh"
  shows "OPENSSL_lh_retrieve lh hash_of cmp data = (case lh_view cmp lh data of None \<Rightarrow> 0 | Some d \<Rightarrow> d)"
proof -
  obtain i k h where g: "get_next_ptr_and_hash lh hash_of cmp data = (i, k, h)"
    by (cases "get_next_ptr_and_hash lh hash_of cmp data") auto
  note search = search_spec [OF assms g]
  show ?thesis
  proof (cases "item_at lh i k")
    case None
    then have "lh_view cmp lh data = None"
      using search(6) view_SomeD [of lh data] by (cases "lh_view cmp lh data") blast+
    then show ?thesis using None g by (simp add: OPENSSL_lh_retrieve_def)
  next
    case (Some it)
    then have "it \<in># table_items lh" using search(1,5) by (auto simp: table_items_def)
    then have "lh_view cmp lh data = Some (it_data it)" using view_iff [OF assms] search(5) [OF Some] by blast
    then show ?thesis using Some g by (simp add: OPENSSL_lh_retrieve_def)
  qed
qed

text \<open>Replacing the items by others that hold something else for one key changes the map at that key.\<close>

lemma view_change:
  assumes "lh_inv hash_of cmp lh" "lh_inv hash_of cmp lh'"
    and "\<And>it. cmp (it_data it) data \<noteq> 0 \<Longrightarrow> it \<in># table_items lh' \<longleftrightarrow> it \<in># table_items lh"
    and "\<And>it. it \<in># table_items lh' \<Longrightarrow> cmp (it_data it) data = 0 \<Longrightarrow> r = Some (it_data it)"
    and "r = None \<or> (\<exists>it\<in>#table_items lh'. cmp (it_data it) data = 0)"
  shows "lh_view cmp lh' k = (if cmp data k = 0 then r else lh_view cmp lh k)"
proof (cases "cmp data k = 0")
  case True
  have same: "cmp d k = 0 \<longleftrightarrow> cmp d data = 0" for d using True cmp_trans cmp_sym by blast
  have "lh_view cmp lh' k = Some d \<longleftrightarrow> r = Some d" for d
    using view_iff [OF assms(2), of k d] assms(4,5) same by fastforce
  then show ?thesis using True by (metis not_Some_eq)
next
  case False
  then have "cmp (it_data it) data \<noteq> 0" if "cmp (it_data it) k = 0" for it using that cmp_trans cmp_sym by blast
  then have "lh_view cmp lh' k = Some d \<longleftrightarrow> lh_view cmp lh k = Some d" for d
    using view_iff [OF assms(2), of k d] view_iff [OF assms(1), of k d] assms(3) by metis
  then show ?thesis using False by (metis not_Some_eq)
qed

lemma insert_new:
  assumes "lh_inv hash_of cmp lh" "data \<noteq> 0" "get_next_ptr_and_hash lh hash_of cmp data = (i, k, h)" "item_at lh i k = None"
  defines "lh' \<equiv> lh\<lparr>buckets := (buckets lh)[i := take k (buckets lh ! i) @ [\<lparr>it_data = data, it_hash = h\<rparr>]],
                   num_items := num_items lh + 1\<rparr>"
  shows "lh_inv hash_of cmp lh' \<and> table_items lh' = add_mset \<lparr>it_data = data, it_hash = h\<rparr> (table_items lh)"
proof -
  note search = search_spec [OF assms(1,3)]
  let ?it = "\<lparr>it_data = data, it_hash = h\<rparr>"
  have chain: "take k (buckets lh ! i) = buckets lh ! i"
    using assms(4) by (auto simp: item_at_def Let_def split: if_splits)
  have items: "table_items lh' = add_mset ?it (table_items lh)"
    using table_split [OF search(1)] table_update [OF search(1), of "buckets lh ! i @ [?it]"]
    by (simp add: lh'_def table_items_def chain)
  have pl: "placed (num_buckets lh) (buckets lh)" using assms(1) by (simp add: lh_inv_def)
  then have "placed (num_buckets lh) ((buckets lh)[i := buckets lh ! i @ [?it]])"
    using search(1,4) by (intro placed_update) (auto simp: placed_def)
  moreover have "all_differ cmp (table_items lh')"
    unfolding items all_differ_add using assms(1) search(6) [OF assms(4)] cmp_swap by (auto simp: lh_inv_def)
  ultimately show ?thesis
    using assms(1,2) items search(2) by (simp add: lh_inv_def lh'_def chain)
qed

text \<open>The tables after the changes, before they are resized.\<close>

lemma replace_item:
  assumes "lh_inv hash_of cmp lh" "data \<noteq> 0" "get_next_ptr_and_hash lh hash_of cmp data = (i, k, h)" "item_at lh i k = Some it"
  defines "lh' \<equiv> lh\<lparr>buckets := (buckets lh)[i := (buckets lh ! i)[k := it\<lparr>it_data := data\<rparr>]]\<rparr>"
  shows "\<exists>R. table_items lh = add_mset it R \<and> table_items lh' = add_mset (it\<lparr>it_data := data\<rparr>) R \<and> lh_inv hash_of cmp lh'"
proof -
  note search = search_spec [OF assms(1,3)]
  note k = item_at_less [OF assms(4)]
  let ?c = "buckets lh ! i" and ?new = "it\<lparr>it_data := data\<rparr>"
  note split = chain_split [of lh i k it]
  have old: "?c = take k ?c @ it # drop (Suc k) ?c" using split search(5) [OF assms(4)] k by simp
  have new: "?c[k := ?new] = take k ?c @ ?new # drop (Suc k) ?c" using k by (simp add: upd_conv_take_nth_drop)
  define R where "R = mset (take k ?c @ drop (Suc k) ?c) + mset (concat (take i (buckets lh)) @ concat (drop (Suc i) (buckets lh)))"
  have "mset ?c = add_mset it (mset (take k ?c @ drop (Suc k) ?c))" by (subst old) simp
  then have items: "table_items lh = add_mset it R"
    using table_split [OF search(1)] by (simp add: table_items_def R_def)
  have items': "table_items lh' = add_mset ?new R"
    using table_update [OF search(1), of "?c[k := ?new]"] by (simp add: lh'_def table_items_def new R_def)
  have eq: "cmp (it_data it) data = 0" using search(5) [OF assms(4)] by simp
  have hash: "it_hash it = hash_of data" using assms(1) items hash_equal [OF eq] by (simp add: lh_inv_def)
  have "all_differ cmp (add_mset it R)" using assms(1) items by (simp add: lh_inv_def)
  then have R: "all_differ cmp R" "\<forall>y\<in>#R. cmp (it_data it) (it_data y) \<noteq> 0" unfolding all_differ_add by blast+
  have "cmp data (it_data y) \<noteq> 0" if "y \<in># R" for y
  proof
    assume "cmp data (it_data y) = 0"
    then have "cmp (it_data it) (it_data y) = 0" by (rule cmp_trans [OF eq])
    then show False using R(2) that by blast
  qed
  then have "all_differ cmp (table_items lh')" unfolding items' all_differ_add using R(1) by simp
  moreover have bs: "buckets lh' = (buckets lh)[i := ?c[k := ?new]]" by (simp add: lh'_def)
  have "placed (num_buckets lh) (buckets lh')"
    unfolding bs
  proof (rule placed_same_hashes)
    show "placed (num_buckets lh) (buckets lh)" using assms(1) by (simp add: lh_inv_def)
    then show "i < num_buckets lh" using search(1) by (simp add: placed_def)
    have "it_hash ` set ?c = it_hash ` set (take k ?c @ it # drop (Suc k) ?c)" using old by simp
    then show "it_hash ` set (?c[k := ?new]) \<subseteq> it_hash ` set ?c" unfolding new by simp
  qed
  ultimately show ?thesis
    using assms(1,2) items items' hash by (auto simp: lh_inv_def lh'_def)
qed

lemma remove_item:
  assumes "lh_inv hash_of cmp lh" "get_next_ptr_and_hash lh hash_of cmp data = (i, k, h)" "item_at lh i k = Some it"
  defines "lh' \<equiv> lh\<lparr>buckets := (buckets lh)[i := take k (buckets lh ! i) @ drop (Suc k) (buckets lh ! i)],
                   num_items := num_items lh - 1\<rparr>"
  shows "table_items lh = add_mset it (table_items lh') \<and> lh_inv hash_of cmp lh'"
proof -
  note search = search_spec [OF assms(1,2)]
  note k = item_at_less [OF assms(3)]
  let ?c = "buckets lh ! i"
  have "?c = take k ?c @ it # drop (Suc k) ?c" using chain_split [of lh i k it] search(5) [OF assms(3)] k by simp
  then have "mset ?c = add_mset it (mset (take k ?c @ drop (Suc k) ?c))" by (metis mset_append mset.simps(2) union_mset_add_mset_right)
  then have items: "table_items lh = add_mset it (table_items lh')"
    using table_split [OF search(1)] table_update [OF search(1), of "take k ?c @ drop (Suc k) ?c"]
    by (simp add: lh'_def table_items_def)
  have bs: "buckets lh' = (buckets lh)[i := take k ?c @ drop (Suc k) ?c]" by (simp add: lh'_def)
  have "placed (num_buckets lh) (buckets lh')"
    unfolding bs
  proof (rule placed_same_hashes)
    show "placed (num_buckets lh) (buckets lh)" using assms(1) by (simp add: lh_inv_def)
    then show "i < num_buckets lh" using search(1) by (simp add: placed_def)
    show "it_hash ` set (take k ?c @ drop (Suc k) ?c) \<subseteq> it_hash ` set ?c" by (auto dest: in_set_takeD in_set_dropD)
  qed
  then show ?thesis using assms(1) items all_differ_add [of it "table_items lh'"] by (auto simp: lh_inv_def lh'_def)
qed

text \<open>The operations: what happens to the map and to the number of items.\<close>

lemma insert_law:
  assumes "lh_inv hash_of cmp lh" "data \<noteq> 0" "OPENSSL_lh_insert malloc_ok zalloc_ok lh hash_of cmp data = (r, old, lh')"
  shows "lh_inv hash_of cmp lh' \<and> old = (case lh_view cmp lh data of None \<Rightarrow> 0 | Some d \<Rightarrow> d) \<and>
    (if r then lh_view cmp lh' k = (if cmp data k = 0 then Some data else lh_view cmp lh k) else lh' = lh \<and> \<not> malloc_ok 24) \<and>
    num_items lh' = num_items lh + (if r \<and> lh_view cmp lh data = None then 1 else 0) \<and> callback_depth lh' = callback_depth lh"
proof -
  obtain i j h where g: "get_next_ptr_and_hash lh hash_of cmp data = (i, j, h)"
    by (cases "get_next_ptr_and_hash lh hash_of cmp data") auto
  note search = search_spec [OF assms(1) g]
  show ?thesis
  proof (cases "item_at lh i j")
    case (Some it)
    define lh1 where "lh1 = lh\<lparr>buckets := (buckets lh)[i := (buckets lh ! i)[j := it\<lparr>it_data := data\<rparr>]]\<rparr>"
    obtain R where R: "table_items lh = add_mset it R" "table_items lh1 = add_mset (it\<lparr>it_data := data\<rparr>) R" "lh_inv hash_of cmp lh1"
      using replace_item [OF assms(1,2) g Some] unfolding lh1_def by blast
    have out: "r" "old = it_data it" "lh' = lh1" using assms(3) g Some by (auto simp: OPENSSL_lh_insert_def lh1_def)
    have eq: "cmp (it_data it) data = 0" using search(5) [OF Some] by simp
    have "all_differ cmp (add_mset it R)" using assms(1) R(1) by (simp add: lh_inv_def)
    then have R_differ: "cmp (it_data x) data \<noteq> 0" if "x \<in># R" for x
      using that eq cmp_trans cmp_sym unfolding all_differ_add by blast
    have "lh_view cmp lh1 k = (if cmp data k = 0 then Some data else lh_view cmp lh k)"
    proof (rule view_change [OF assms(1) R(3)])
      show "x \<in># table_items lh1 \<longleftrightarrow> x \<in># table_items lh" if "cmp (it_data x) data \<noteq> 0" for x
        using that eq by (auto simp: R)
      show "Some data = Some (it_data x)" if "x \<in># table_items lh1" "cmp (it_data x) data = 0" for x
        using that R_differ by (auto simp: R)
      show "Some data = None \<or> (\<exists>x\<in>#table_items lh1. cmp (it_data x) data = 0)" by (simp add: R)
    qed
    moreover have "lh_view cmp lh data = Some (it_data it)" using view_iff [OF assms(1)] eq by (auto simp: R)
    ultimately show ?thesis using out R(3) by (simp add: lh1_def)
  next
    case None
    then have no: "lh_view cmp lh data = None"
      using search(6) view_SomeD [of lh data] by (cases "lh_view cmp lh data") blast+
    show ?thesis
    proof (cases "malloc_ok 24")
      case False
      then have "\<not> r" "old = 0" "lh' = lh" using assms(3) g None by (auto simp: OPENSSL_lh_insert_def)
      then show ?thesis using assms(1) no False by simp
    next
      case True
      let ?it = "\<lparr>it_data = data, it_hash = h\<rparr>"
      define lh1 where "lh1 = lh\<lparr>buckets := (buckets lh)[i := take j (buckets lh ! i) @ [?it]], num_items := num_items lh + 1\<rparr>"
      have 1: "lh_inv hash_of cmp lh1" "table_items lh1 = add_mset ?it (table_items lh)"
        using insert_new [OF assms(1,2) g None] unfolding lh1_def by blast+
      have out: "r" "old = 0" "lh' = lh_maybe_resize zalloc_ok lh1"
        using assms(3) g None True by (auto simp: OPENSSL_lh_insert_def lh1_def Let_def)
      note res = resize_spec [OF 1(1), of zalloc_ok]
      have items: "table_items lh' = add_mset ?it (table_items lh)" using res out 1(2) by simp
      have inv: "lh_inv hash_of cmp lh'" using res out by simp
      have "lh_view cmp lh' k = (if cmp data k = 0 then Some data else lh_view cmp lh k)"
        by (rule view_change [OF assms(1) inv]) (use search(6) [OF None] in \<open>auto simp: items\<close>)
      then show ?thesis using out inv no res by (simp add: lh1_def)
    qed
  qed
qed

lemma delete_law:
  assumes "lh_inv hash_of cmp lh" "OPENSSL_lh_delete zalloc_ok lh hash_of cmp data = (old, lh')"
  shows "lh_inv hash_of cmp lh' \<and> old = (case lh_view cmp lh data of None \<Rightarrow> 0 | Some d \<Rightarrow> d) \<and>
    lh_view cmp lh' k = (if cmp data k = 0 then None else lh_view cmp lh k) \<and>
    num_items lh' = num_items lh - (if lh_view cmp lh data = None then 0 else 1) \<and> callback_depth lh' = callback_depth lh"
proof -
  obtain i j h where g: "get_next_ptr_and_hash lh hash_of cmp data = (i, j, h)"
    by (cases "get_next_ptr_and_hash lh hash_of cmp data") auto
  note search = search_spec [OF assms(1) g]
  show ?thesis
  proof (cases "item_at lh i j")
    case None
    then have no: "lh_view cmp lh data = None"
      using search(6) view_SomeD [of lh data] by (cases "lh_view cmp lh data") blast+
    moreover have "lh_view cmp lh k = None" if "cmp data k = 0"
      using search(6) [OF None] view_SomeD [of lh k] that cmp_trans cmp_sym by (cases "lh_view cmp lh k") blast+
    ultimately show ?thesis using assms g None by (auto simp: OPENSSL_lh_delete_def)
  next
    case (Some it)
    define lh1 where "lh1 = lh\<lparr>buckets := (buckets lh)[i := take j (buckets lh ! i) @ drop (Suc j) (buckets lh ! i)],
                              num_items := num_items lh - 1\<rparr>"
    have 1: "table_items lh = add_mset it (table_items lh1)" "lh_inv hash_of cmp lh1"
      using remove_item [OF assms(1) g Some] unfolding lh1_def by blast+
    have out: "old = it_data it" "lh' = lh_maybe_resize zalloc_ok lh1"
      using assms(2) g Some by (auto simp: OPENSSL_lh_delete_def lh1_def Let_def)
    note res = resize_spec [OF 1(2), of zalloc_ok]
    have items: "table_items lh = add_mset it (table_items lh')" using res out 1(1) by simp
    have inv: "lh_inv hash_of cmp lh'" using res out by simp
    have eq: "cmp (it_data it) data = 0" using search(5) [OF Some] by simp
    have "all_differ cmp (add_mset it (table_items lh'))" using assms(1) items by (simp add: lh_inv_def)
    then have "cmp (it_data x) data \<noteq> 0" if "x \<in># table_items lh'" for x
      using that eq cmp_trans cmp_sym unfolding all_differ_add by blast
    then have "lh_view cmp lh' k = (if cmp data k = 0 then None else lh_view cmp lh k)"
      by (intro view_change [OF assms(1) inv]) (use eq in \<open>auto simp: items\<close>)
    moreover have "lh_view cmp lh data = Some (it_data it)" using view_iff [OF assms(1)] eq by (auto simp: items)
    ultimately show ?thesis using out inv res by (simp add: lh1_def)
  qed
qed

end

end
