(* ===== verification/LhashSteps.thy ===== *)
theory LhashSteps
  imports LhashSpec
begin

text \<open>
  The hash table as a state machine, and what its clients rely on.
\<close>

section \<open>Load\<close>

definition balanced :: "lhash_st \<Rightarrow> bool" where
  "balanced lh \<longleftrightarrow> num_items lh < 3 * num_buckets lh \<and> (num_buckets lh = kMinNumBuckets \<or> num_buckets lh \<le> num_items lh)"

lemma rebucket_happens:
  "zalloc_ok (8 * n) \<Longrightarrow> n < 2305843009213693952 \<Longrightarrow> num_buckets (lh_rebucket zalloc_ok lh n) = n"
  by (simp add: lh_rebucket_def Let_def)

lemma resize_balanced:
  assumes "lh_inv hash_of cmp lh" "callback_depth lh = 0" "\<forall>n. zalloc_ok n"
    and "num_items lh \<le> 3 * num_buckets lh" "num_buckets lh = 16 \<or> num_buckets lh \<le> num_items lh + 1"
    and "num_items lh \<le> 288230376151711744"
  shows "balanced (lh_maybe_resize zalloc_ok lh)"
proof -
  let ?b = "num_buckets lh" and ?n = "num_items lh"
  have b: "16 \<le> ?b" "?b \<le> 288230376151711745" using assms(1,5,6) by (auto simp: lh_inv_def kMinNumBuckets_def)
  have items: "num_items (lh_rebucket zalloc_ok lh n) = ?n" if "16 \<le> n" for n
    using rebucket_spec [OF assms(1)] that by (simp add: kMinNumBuckets_def)
  consider "3 * ?b \<le> ?n" | "?n < ?b" "16 < ?b" | "?n < 3 * ?b" "?b \<le> ?n \<or> ?b = 16" using b(1) by linarith
  then show ?thesis
  proof cases
    case 1
    then have "2 < ?n div ?b" using b(1) div_le_mono [OF 1, of ?b] by simp
    moreover have "?b * 2 mod size_max = ?b * 2" using b(2) by simp
    ultimately have "lh_maybe_resize zalloc_ok lh = lh_rebucket zalloc_ok lh (?b * 2)"
      using assms(2) b(1) by (simp add: lh_maybe_resize_def Let_def kMaxAverageChainLength_def)
    then show ?thesis
      using rebucket_happens [of zalloc_ok "?b * 2" lh] items [of "?b * 2"] assms(3,4) 1 b by (simp add: balanced_def)
  next
    case 2
    let ?m = "if ?b div 2 < kMinNumBuckets then kMinNumBuckets else ?b div 2"
    have "?n div ?b = 0" using 2 by simp
    then have "lh_maybe_resize zalloc_ok lh = lh_rebucket zalloc_ok lh ?m"
      using assms(2) 2 by (simp add: lh_maybe_resize_def Let_def kMaxAverageChainLength_def kMinAverageChainLength_def kMinNumBuckets_def)
    moreover have "16 \<le> ?m" "?m < 2305843009213693952" using b(2) by (auto simp: kMinNumBuckets_def)
    moreover have "?n < 3 * ?m" "?m = kMinNumBuckets \<or> ?m \<le> ?n" using 2 assms(5) by (auto simp: kMinNumBuckets_def)
    ultimately show ?thesis
      using rebucket_happens [of zalloc_ok ?m lh] items [of ?m] assms(3) by (simp add: balanced_def)
  next
    case 3
    then have "\<not> 2 < ?n div ?b" using b(1) by (simp add: div_less_iff_less_mult not_less less_Suc_eq_le [symmetric])
    moreover have "\<not> ?n div ?b < 1 \<or> ?b = 16" using 3(2) b(1) by (auto simp: div_greater_zero_iff)
    ultimately have "lh_maybe_resize zalloc_ok lh = lh"
      by (auto simp: lh_maybe_resize_def Let_def kMaxAverageChainLength_def kMinAverageChainLength_def kMinNumBuckets_def)
    then show ?thesis using 3 by (auto simp: balanced_def kMinNumBuckets_def)
  qed
qed

section \<open>Calls\<close>

text \<open>
  A table has fewer than \<open>2 ^ 58\<close> items: each takes 24 bytes of the address space. The arguments of the step are the two
  functions and the allocation of the arrays.
\<close>

inductive lh_step :: "lh_hash \<Rightarrow> lh_cmp \<Rightarrow> (nat \<Rightarrow> bool) \<Rightarrow> lhash_st \<Rightarrow> lhash_st \<Rightarrow> bool" for hash_of cmp zalloc_ok where
  lh_insert: "data \<noteq> 0 \<Longrightarrow> num_items lh < 288230376151711744 \<Longrightarrow>
     OPENSSL_lh_insert malloc_ok zalloc_ok lh hash_of cmp data = (r, old, lh') \<Longrightarrow> lh_step hash_of cmp zalloc_ok lh lh'"
| lh_delete: "OPENSSL_lh_delete zalloc_ok lh hash_of cmp data = (old, lh') \<Longrightarrow> lh_step hash_of cmp zalloc_ok lh lh'"
| lh_doall: "OPENSSL_lh_doall_arg zalloc_ok (Some lh) func (arg :: int list) = (arg', Some lh') \<Longrightarrow> lh_step hash_of cmp zalloc_ok lh lh'"

inductive lh_reach :: "lh_hash \<Rightarrow> lh_cmp \<Rightarrow> (nat \<Rightarrow> bool) \<Rightarrow> lhash_st \<Rightarrow> bool" for hash_of cmp zalloc_ok where
  lh_new: "OPENSSL_lh_new malloc_ok zalloc_ok = Some lh \<Longrightarrow> lh_reach hash_of cmp zalloc_ok lh"
| lh_call: "lh_reach hash_of cmp zalloc_ok lh \<Longrightarrow> lh_step hash_of cmp zalloc_ok lh lh' \<Longrightarrow> lh_reach hash_of cmp zalloc_ok lh'"

lemma new_inv:
  "OPENSSL_lh_new malloc_ok zalloc_ok = Some lh \<Longrightarrow> lh_inv hash_of cmp lh \<and> balanced lh \<and> callback_depth lh = 0"
  using empty_buckets [of kMinNumBuckets]
  by (auto simp: OPENSSL_lh_new_def lh_inv_def table_items_def all_differ_def balanced_def kMinNumBuckets_def split: if_splits)

lemma doall_law:
  assumes "lh_inv hash_of cmp lh" "callback_depth lh = 0" "OPENSSL_lh_doall_arg zalloc_ok (Some lh) func arg = (arg', Some lh')"
  shows "lh' = lh_maybe_resize zalloc_ok lh \<and> arg' = fold (\<lambda>it. func (it_data it)) (concat (buckets lh)) arg"
proof -
  have all: "take (num_buckets lh) (buckets lh) = buckets lh" using assms(1) by (simp add: lh_inv_def placed_def)
  have fold: "fold (\<lambda>chain. fold (\<lambda>cur. func (it_data cur)) chain) bs a = fold (\<lambda>it. func (it_data it)) (concat bs) a" for bs a
    by (induction bs arbitrary: a) simp_all
  have "lh\<lparr>callback_depth := 0\<rparr> = lh" using assms(2) by (cases lh) simp
  moreover have "lh' = lh_maybe_resize zalloc_ok (lh\<lparr>callback_depth := 0\<rparr>) \<and> arg' = fold (\<lambda>it. func (it_data it)) (concat (buckets lh)) arg"
    using assms(2,3) by (auto simp: OPENSSL_lh_doall_arg_def all fold)
  ultimately show ?thesis by metis
qed

context hashing
begin

text \<open>A change is a replacement in place, or a change of one item and then a resize.\<close>

lemma insert_shape:
  assumes "lh_inv hash_of cmp lh" "data \<noteq> 0" "OPENSSL_lh_insert malloc_ok zalloc_ok lh hash_of cmp data = (r, old, lh')"
  shows "num_buckets lh' = num_buckets lh \<and> num_items lh' = num_items lh \<or>
    (\<exists>lh1. lh' = lh_maybe_resize zalloc_ok lh1 \<and> lh_inv hash_of cmp lh1 \<and> num_buckets lh1 = num_buckets lh \<and>
       num_items lh1 = num_items lh + 1 \<and> callback_depth lh1 = callback_depth lh)"
proof -
  obtain i j h where g: "get_next_ptr_and_hash lh hash_of cmp data = (i, j, h)"
    by (cases "get_next_ptr_and_hash lh hash_of cmp data") auto
  show ?thesis
  proof (cases "item_at lh i j = None \<and> malloc_ok 24")
    case False
    then have "num_buckets lh' = num_buckets lh \<and> num_items lh' = num_items lh"
      using assms(3) g by (cases "item_at lh i j") (auto simp: OPENSSL_lh_insert_def)
    then show ?thesis ..
  next
    case True
    let ?lh1 = "lh\<lparr>buckets := (buckets lh)[i := take j (buckets lh ! i) @ [\<lparr>it_data = data, it_hash = h\<rparr>]], num_items := num_items lh + 1\<rparr>"
    have "lh' = lh_maybe_resize zalloc_ok ?lh1" using assms(3) g True by (simp add: OPENSSL_lh_insert_def Let_def)
    moreover have "lh_inv hash_of cmp ?lh1" using insert_new [OF assms(1,2) g] True by simp
    ultimately show ?thesis by (intro disjI2 exI [of _ ?lh1]) simp
  qed
qed

lemma delete_shape:
  assumes "lh_inv hash_of cmp lh" "OPENSSL_lh_delete zalloc_ok lh hash_of cmp data = (old, lh')"
  shows "lh' = lh \<or>
    (\<exists>lh1. lh' = lh_maybe_resize zalloc_ok lh1 \<and> lh_inv hash_of cmp lh1 \<and> num_buckets lh1 = num_buckets lh \<and>
       num_items lh = num_items lh1 + 1 \<and> callback_depth lh1 = callback_depth lh)"
proof -
  obtain i j h where g: "get_next_ptr_and_hash lh hash_of cmp data = (i, j, h)"
    by (cases "get_next_ptr_and_hash lh hash_of cmp data") auto
  show ?thesis
  proof (cases "item_at lh i j")
    case None
    then show ?thesis using assms(2) g by (simp add: OPENSSL_lh_delete_def)
  next
    case (Some it)
    define lh1 where "lh1 = lh\<lparr>buckets := (buckets lh)[i := take j (buckets lh ! i) @ drop (Suc j) (buckets lh ! i)],
      num_items := num_items lh - 1\<rparr>"
    have "lh' = lh_maybe_resize zalloc_ok lh1" using assms(2) g Some by (simp add: OPENSSL_lh_delete_def lh1_def Let_def)
    moreover have 1: "table_items lh = add_mset it (table_items lh1)" "lh_inv hash_of cmp lh1"
      using remove_item [OF assms(1) g Some] unfolding lh1_def by blast+
    moreover have "num_items lh = num_items lh1 + 1" using 1 assms(1) by (simp add: lh_inv_def)
    moreover have "num_buckets lh1 = num_buckets lh" "callback_depth lh1 = callback_depth lh" by (simp_all add: lh1_def)
    ultimately show ?thesis by blast
  qed
qed

lemma step_keeps:
  assumes "lh_step hash_of cmp zalloc_ok lh lh'" "lh_inv hash_of cmp lh" "callback_depth lh = 0"
  shows "lh_inv hash_of cmp lh' \<and> callback_depth lh' = 0"
  using assms(1)
proof (cases rule: lh_step.cases)
  case (lh_insert data malloc_ok r old)
  then show ?thesis using insert_law [OF assms(2)] assms(3) by simp
next
  case (lh_delete data old)
  then show ?thesis using delete_law [OF assms(2)] assms(3) by simp
next
  case (lh_doall func arg arg')
  then show ?thesis using doall_law [OF assms(2,3) lh_doall] resize_spec [OF assms(2)] assms(3) by metis
qed

lemma step_balanced:
  assumes "lh_step hash_of cmp zalloc_ok lh lh'" "lh_inv hash_of cmp lh" "callback_depth lh = 0" "\<forall>n. zalloc_ok n"
    and "balanced lh" "num_items lh \<le> 288230376151711744"
  shows "balanced lh' \<and> num_items lh' \<le> 288230376151711744"
proof -
  have sized: "balanced (lh_maybe_resize zalloc_ok lh1) \<and> num_items (lh_maybe_resize zalloc_ok lh1) \<le> 288230376151711744"
    if "lh_inv hash_of cmp lh1" "callback_depth lh1 = 0" "num_buckets lh1 = num_buckets lh"
      "num_items lh1 \<le> num_items lh + 1" "num_items lh \<le> num_items lh1 + 1" "num_items lh1 \<le> 288230376151711744" for lh1
  proof
    have "num_items lh1 \<le> 3 * num_buckets lh1" "num_buckets lh1 = 16 \<or> num_buckets lh1 \<le> num_items lh1 + 1"
      using that(3-5) assms(5) by (auto simp: balanced_def kMinNumBuckets_def)
    then show "balanced (lh_maybe_resize zalloc_ok lh1)" by (rule resize_balanced [OF that(1,2) assms(4) _ _ that(6)])
    show "num_items (lh_maybe_resize zalloc_ok lh1) \<le> 288230376151711744"
      using resize_spec [OF that(1), of zalloc_ok] that(6) by simp
  qed
  show ?thesis
    using assms(1)
  proof (cases rule: lh_step.cases)
    case (lh_insert data malloc_ok r old)
    from insert_shape [OF assms(2) lh_insert(1,3)] show ?thesis
    proof
      assume "num_buckets lh' = num_buckets lh \<and> num_items lh' = num_items lh"
      then show ?thesis using assms(5,6) by (simp add: balanced_def)
    next
      assume "\<exists>lh1. lh' = lh_maybe_resize zalloc_ok lh1 \<and> lh_inv hash_of cmp lh1 \<and> num_buckets lh1 = num_buckets lh \<and>
        num_items lh1 = num_items lh + 1 \<and> callback_depth lh1 = callback_depth lh"
      then show ?thesis using sized lh_insert(2) assms(3) by fastforce
    qed
  next
    case (lh_delete data old)
    from delete_shape [OF assms(2) lh_delete] show ?thesis
    proof
      assume "\<exists>lh1. lh' = lh_maybe_resize zalloc_ok lh1 \<and> lh_inv hash_of cmp lh1 \<and> num_buckets lh1 = num_buckets lh \<and>
        num_items lh = num_items lh1 + 1 \<and> callback_depth lh1 = callback_depth lh"
      then show ?thesis using sized assms(3,6) by fastforce
    qed (use assms(5,6) in simp)
  next
    case (lh_doall func arg arg')
    then show ?thesis using doall_law [OF assms(2,3) lh_doall] sized [OF assms(2,3)] assms(6) by simp
  qed
qed

lemma reach_inv: "lh_reach hash_of cmp zalloc_ok lh \<Longrightarrow> lh_inv hash_of cmp lh \<and> callback_depth lh = 0"
proof (induction rule: lh_reach.induct)
  case (lh_call lh lh')
  then show ?case using step_keeps by blast
qed (use new_inv in blast)

lemma reach_balanced:
  assumes "lh_reach hash_of cmp zalloc_ok lh" "\<forall>n. zalloc_ok n"
  shows "balanced lh \<and> num_items lh \<le> 288230376151711744"
  using assms(1)
proof (induction rule: lh_reach.induct)
  case (lh_new malloc_ok lh)
  then have "num_items lh = 0" by (auto simp: OPENSSL_lh_new_def split: if_splits)
  then show ?case using new_inv [OF lh_new] by simp
next
  case (lh_call lh lh')
  have "lh_inv hash_of cmp lh" "callback_depth lh = 0" using reach_inv [OF lh_call.hyps(1)] by auto
  then show ?case using step_balanced [OF lh_call.hyps(2) _ _ assms(2)] lh_call.IH by simp
qed

lemma distinct_data: "all_differ cmp (mset xs) \<Longrightarrow> distinct (map it_data xs)"
  by (induction xs) (auto simp: all_differ_add)

lemma view_range:
  assumes "lh_inv hash_of cmp lh"
  shows "ran (lh_view cmp lh) = it_data ` set_mset (table_items lh)"
proof -
  have "d \<in> ran (lh_view cmp lh) \<longleftrightarrow> d \<in> it_data ` set_mset (table_items lh)" for d
  proof
    assume "d \<in> it_data ` set_mset (table_items lh)"
    then have "lh_view cmp lh d = Some d" using view_iff [OF assms, of d d] by auto
    then show "d \<in> ran (lh_view cmp lh)" by (rule ranI)
  qed (use view_SomeD in \<open>fastforce simp: ran_def\<close>)
  then show ?thesis by blast
qed

lemma same_items_same_view:
  assumes "lh_inv hash_of cmp lh" "lh_inv hash_of cmp lh'" "table_items lh' = table_items lh"
  shows "lh_view cmp lh' = lh_view cmp lh"
proof
  fix k
  have "lh_view cmp lh' k = Some d \<longleftrightarrow> lh_view cmp lh k = Some d" for d
    using view_iff [OF assms(1), of k d] view_iff [OF assms(2), of k d] assms(3) by simp
  then show "lh_view cmp lh' k = lh_view cmp lh k" by (metis not_Some_eq)
qed

end

section \<open>Properties\<close>

text \<open>
  C11: a table that was built by any sequence of calls is a finite map. Retrieving looks a key up; inserting returns the
  old value and sets the new one, or leaves the table as it was when the item cannot be allocated; deleting returns the
  old value and removes it. This holds on every path of the resizing.
\<close>

theorem lh_refines_map:
  assumes "hashing hash_of cmp" "lh_reach hash_of cmp zalloc_ok lh" "data \<noteq> 0"
  shows "OPENSSL_lh_retrieve lh hash_of cmp k = (case lh_view cmp lh k of None \<Rightarrow> 0 | Some d \<Rightarrow> d) \<and>
    (\<exists>r lh'. OPENSSL_lh_insert malloc_ok zalloc_ok lh hash_of cmp data = (r, OPENSSL_lh_retrieve lh hash_of cmp data, lh') \<and>
      (if r then lh_view cmp lh' k = (if cmp data k = 0 then Some data else lh_view cmp lh k) else lh' = lh \<and> \<not> malloc_ok 24)) \<and>
    (\<exists>lh'. OPENSSL_lh_delete zalloc_ok lh hash_of cmp data = (OPENSSL_lh_retrieve lh hash_of cmp data, lh') \<and>
      lh_view cmp lh' k = (if cmp data k = 0 then None else lh_view cmp lh k))"
proof -
  have inv: "lh_inv hash_of cmp lh" using hashing.reach_inv [OF assms(1,2)] ..
  note retrieve = hashing.retrieve_view [OF assms(1) inv]
  obtain r old lh1 where "OPENSSL_lh_insert malloc_ok zalloc_ok lh hash_of cmp data = (r, old, lh1)"
    by (cases "OPENSSL_lh_insert malloc_ok zalloc_ok lh hash_of cmp data") auto
  moreover obtain old2 lh2 where "OPENSSL_lh_delete zalloc_ok lh hash_of cmp data = (old2, lh2)"
    by (cases "OPENSSL_lh_delete zalloc_ok lh hash_of cmp data") auto
  ultimately show ?thesis
    using hashing.insert_law [OF assms(1) inv assms(3), of malloc_ok zalloc_ok r old lh1 k]
      hashing.delete_law [OF assms(1) inv, of zalloc_ok data old2 lh2 k] retrieve by simp
qed

text \<open>The table of the examples: integers under their low bits.\<close>

definition low_bits :: lh_hash where "low_bits p = word_of_int p"
definition difference :: lh_cmp where "difference a b = a - b"
definition empty_lhash :: lhash_st where
  "empty_lhash = \<lparr>num_items = 0, buckets = replicate kMinNumBuckets [], num_buckets = kMinNumBuckets, callback_depth = 0\<rparr>"

lemma low_bits_hashing: "hashing low_bits difference"
  by unfold_locales (auto simp: low_bits_def difference_def)

lemma empty_lhash_reach: "lh_reach hash_of cmp (\<lambda>_. True) empty_lhash"
  by (rule lh_new [where malloc_ok = True]) (simp add: OPENSSL_lh_new_def empty_lhash_def)

lemma empty_lhash_view: "lh_view cmp empty_lhash k = None"
  by (simp add: lh_view_def empty_lhash_def)

lemma lh_refines_map_witness:
  "\<exists>lh'. OPENSSL_lh_insert (\<lambda>_. True) (\<lambda>_. True) empty_lhash low_bits difference 5 = (True, 0, lh') \<and>
    lh_view difference lh' 5 = Some 5 \<and> OPENSSL_lh_retrieve empty_lhash low_bits difference 5 = 0"
  using lh_refines_map [OF low_bits_hashing empty_lhash_reach, of 5 5 "\<lambda>_. True"]
  by (auto simp: empty_lhash_view difference_def split: if_splits)

text \<open>
  C12: while the arrays can be allocated, no sequence of calls lets the chains grow or the array dwindle: there are
  fewer than three items to a bucket, no more buckets than items above the minimum, and every item is in the bucket
  of its hash.
\<close>

theorem lh_load_balanced:
  assumes "hashing hash_of cmp" "lh_reach hash_of cmp zalloc_ok lh" "\<And>n. zalloc_ok n"
  shows "OPENSSL_lh_num_items lh < 3 * num_buckets lh \<and>
    (num_buckets lh = kMinNumBuckets \<or> num_buckets lh \<le> OPENSSL_lh_num_items lh) \<and>
    OPENSSL_lh_num_items lh = length (concat (buckets lh)) \<and> placed (num_buckets lh) (buckets lh)"
proof -
  have "lh_inv hash_of cmp lh" using hashing.reach_inv [OF assms(1,2)] ..
  then have "num_items lh = length (concat (buckets lh))" "placed (num_buckets lh) (buckets lh)"
    by (simp_all only: lh_inv_def table_items_def size_mset)
  moreover have "balanced lh" using hashing.reach_balanced [OF assms(1,2)] assms(3) by blast
  ultimately show ?thesis by (simp add: balanced_def OPENSSL_lh_num_items_def)
qed

lemma lh_load_balanced_witness: "placed (num_buckets empty_lhash) (buckets empty_lhash)"
  using lh_load_balanced [OF low_bits_hashing empty_lhash_reach] by simp

text \<open>
  C13: a walk over a table calls the function on every datum of the map exactly once, and the resizing that follows it
  does not change the map.
\<close>

theorem lh_doall_each_once:
  assumes "hashing hash_of cmp" "lh_reach hash_of cmp zalloc_ok lh"
  shows "\<exists>ds lh'. OPENSSL_lh_doall_arg zalloc_ok (Some lh) func arg = (fold func ds arg, Some lh') \<and>
    distinct ds \<and> set ds = ran (lh_view cmp lh) \<and> length ds = OPENSSL_lh_num_items lh \<and> lh_view cmp lh' = lh_view cmp lh \<and>
    callback_depth lh' = 0"
proof -
  have inv: "lh_inv hash_of cmp lh" "callback_depth lh = 0" using hashing.reach_inv [OF assms] by auto
  let ?ds = "map it_data (concat (buckets lh))"
  obtain arg' lh' where d: "OPENSSL_lh_doall_arg zalloc_ok (Some lh) func arg = (arg', Some lh')"
    by (auto simp: OPENSSL_lh_doall_arg_def Let_def)
  have l: "lh' = lh_maybe_resize zalloc_ok lh" "arg' = fold (\<lambda>it. func (it_data it)) (concat (buckets lh)) arg"
    using doall_law [OF inv d] by auto
  have "fold (\<lambda>it. func (it_data it)) its a = fold func (map it_data its) a" for its a by (induction its arbitrary: a) simp_all
  then have "arg' = fold func ?ds arg" using l(2) by simp
  moreover have "distinct ?ds"
    using inv(1) by (intro hashing.distinct_data [OF assms(1)]) (simp add: lh_inv_def table_items_def)
  moreover have "set ?ds = ran (lh_view cmp lh)" using hashing.view_range [OF assms(1) inv(1)] by (simp add: table_items_def)
  moreover have "length ?ds = num_items lh" using inv(1) unfolding lh_inv_def table_items_def size_mset by simp
  moreover have "lh_view cmp lh' = lh_view cmp lh" "callback_depth lh' = 0"
    using resize_spec [OF inv(1), of zalloc_ok] l(1) inv(2) hashing.same_items_same_view [OF assms(1) inv(1)] by simp_all
  ultimately show ?thesis using d unfolding OPENSSL_lh_num_items_def by blast
qed

lemma lh_doall_each_once_witness:
  "\<exists>lh'. OPENSSL_lh_doall_arg (\<lambda>_. True) (Some empty_lhash) (#) [7] = ([7], Some lh') \<and> callback_depth lh' = 0"
proof -
  obtain ds lh' where "OPENSSL_lh_doall_arg (\<lambda>_. True) (Some empty_lhash) (#) [7] = (fold (#) ds [7], Some lh')"
    "set ds = ran (lh_view difference empty_lhash)" "callback_depth lh' = 0"
    using lh_doall_each_once [OF low_bits_hashing empty_lhash_reach, of "(#)" "[7]"] by blast
  then show ?thesis by (simp add: empty_lhash_view ran_def)
qed

end
