(* ===== verification/Bio.thy ===== *)
theory Bio
  imports Mem
begin

text \<open>
  \<^verbatim>\<open>crypto/bio/bio.c\<close>: a BIO as an object with a table of methods.

  The BIOs and the memory buffers are objects on a heap, a pointer is an integer with 0 for null. A method table is a
  record of functions that work on that heap; the program may bring tables of its own, so the tables at all addresses
  are the parameter \<open>methods\<close>. The result \<open>None\<close> of an operation stands for no defined outcome: an assertion that
  fails, a pointer to a freed object, or a loop that does not end. \<open>int\<close> values are integers, \<open>size_t\<close> is a natural
  number.
\<close>

section \<open>Objects\<close>

text \<open>
  Half of a pair (\<open>struct bio_bio_st\<close>), and a memory buffer (\<open>BUF_MEM\<close>): \<open>bm_data\<close> is the block and \<open>bm_pos\<close> where in
  it \<open>data\<close> points, which moves only in a read-only memory BIO.
\<close>

record bio_bio_st =
  peer :: int
  closed :: int
  bb_len :: nat
  bb_offset :: nat
  bb_size :: nat
  bb_buf :: "bytes option"
  request :: nat

record buf_mem_st =
  bm_length :: nat
  bm_data :: "bytes option"
  bm_pos :: nat
  bm_max :: nat

text \<open>What \<open>ptr\<close> of a BIO points to depends on its method.\<close>

datatype bio_ptr = NullPtr | PairPtr bio_bio_st | BufPtr int | DataPtr int

record bio_st =
  bio_method :: int
  init :: int
  shutdown :: int
  bio_flags :: u32
  retry_reason :: int
  bio_num :: int
  references :: u32
  bio_ptr :: bio_ptr
  next_bio :: int
  num_read :: u64
  num_write :: u64

record bio_heap =
  bios :: "int \<rightharpoonup> bio_st"
  bufs :: "int \<rightharpoonup> buf_mem_st"

text \<open>
  The functions of a method table. Bytes that are written are an argument, with \<open>None\<close> for a null pointer; bytes that
  are read are part of the result, and whether the destination is null is an argument. A control call takes a number and
  a pointer.
\<close>

record bio_method_st =
  mtype :: int
  bwrite :: "(bio_heap \<Rightarrow> int \<Rightarrow> bytes option \<Rightarrow> int \<Rightarrow> (int \<times> bio_heap) option) option"
  bread :: "(bio_heap \<Rightarrow> int \<Rightarrow> bool \<Rightarrow> int \<Rightarrow> (int \<times> bytes \<times> bio_heap) option) option"
  bgets :: "(bio_heap \<Rightarrow> int \<Rightarrow> int \<Rightarrow> (int \<times> bytes \<times> bio_heap) option) option"
  mctrl :: "(bio_heap \<Rightarrow> int \<Rightarrow> int \<Rightarrow> int \<Rightarrow> int \<Rightarrow> (int \<times> bio_heap) option) option"
  create :: "(bio_heap \<Rightarrow> int \<Rightarrow> (bool \<times> bio_heap) option) option"
  destroy :: "(bio_heap \<Rightarrow> int \<Rightarrow> bio_heap option) option"

type_synonym methods = "int \<Rightarrow> bio_method_st"

text \<open>Changing the object behind a pointer.\<close>

definition set_bio :: "int \<Rightarrow> bio_st \<Rightarrow> bio_heap \<Rightarrow> bio_heap" where
  "set_bio p b h = h\<lparr>bios := (bios h)(p \<mapsto> b)\<rparr>"

lemma set_bio_simps [simp]:
  "bios (set_bio p b h) = (bios h)(p \<mapsto> b)" "bufs (set_bio p b h) = bufs h"
  by (simp_all add: set_bio_def)

abbreviation with_bio :: "bio_heap \<Rightarrow> int \<Rightarrow> (bio_st \<Rightarrow> 'a option) \<Rightarrow> 'a option" where
  "with_bio h p f \<equiv> (case bios h p of None \<Rightarrow> None | Some b \<Rightarrow> f b)"

abbreviation upd_bio :: "bio_heap \<Rightarrow> int \<Rightarrow> (bio_st \<Rightarrow> bio_st) \<Rightarrow> bio_heap option" where
  "upd_bio h p f \<equiv> with_bio h p (\<lambda>b. Some (set_bio p (f b) h))"

section \<open>Flags\<close>

definition BIO_FLAGS_READ :: u32 where "BIO_FLAGS_READ = 0x01"
definition BIO_FLAGS_WRITE :: u32 where "BIO_FLAGS_WRITE = 0x02"
definition BIO_FLAGS_IO_SPECIAL :: u32 where "BIO_FLAGS_IO_SPECIAL = 0x04"
definition BIO_FLAGS_RWS :: u32 where "BIO_FLAGS_RWS = BIO_FLAGS_READ OR BIO_FLAGS_WRITE OR BIO_FLAGS_IO_SPECIAL"
definition BIO_FLAGS_SHOULD_RETRY :: u32 where "BIO_FLAGS_SHOULD_RETRY = 0x08"
definition BIO_FLAGS_MEM_RDONLY :: u32 where "BIO_FLAGS_MEM_RDONLY = 0x200"
definition kRetryFlags :: u32 where "kRetryFlags = BIO_FLAGS_RWS OR BIO_FLAGS_SHOULD_RETRY"

definition BIO_set_flags :: "u32 \<Rightarrow> bio_st \<Rightarrow> bio_st" where
  "BIO_set_flags flags bio = bio\<lparr>bio_flags := bio_flags bio OR flags\<rparr>"

definition BIO_test_flags :: "bio_st \<Rightarrow> u32 \<Rightarrow> u32" where
  "BIO_test_flags bio flags = bio_flags bio AND flags"

definition BIO_should_read :: "bio_st \<Rightarrow> u32" where
  "BIO_should_read bio = BIO_test_flags bio BIO_FLAGS_READ"

definition BIO_should_write :: "bio_st \<Rightarrow> u32" where
  "BIO_should_write bio = BIO_test_flags bio BIO_FLAGS_WRITE"

definition BIO_should_retry :: "bio_st \<Rightarrow> u32" where
  "BIO_should_retry bio = BIO_test_flags bio BIO_FLAGS_SHOULD_RETRY"

definition BIO_should_io_special :: "bio_st \<Rightarrow> u32" where
  "BIO_should_io_special bio = BIO_test_flags bio BIO_FLAGS_IO_SPECIAL"

definition BIO_clear_flags :: "u32 \<Rightarrow> bio_st \<Rightarrow> bio_st" where
  "BIO_clear_flags flags bio = bio\<lparr>bio_flags := bio_flags bio AND NOT flags\<rparr>"

definition BIO_set_retry_read :: "bio_st \<Rightarrow> bio_st" where
  "BIO_set_retry_read bio = bio\<lparr>bio_flags := bio_flags bio OR (BIO_FLAGS_READ OR BIO_FLAGS_SHOULD_RETRY)\<rparr>"

definition BIO_set_retry_write :: "bio_st \<Rightarrow> bio_st" where
  "BIO_set_retry_write bio = bio\<lparr>bio_flags := bio_flags bio OR (BIO_FLAGS_WRITE OR BIO_FLAGS_SHOULD_RETRY)\<rparr>"

definition BIO_set_retry_special :: "bio_st \<Rightarrow> bio_st" where
  "BIO_set_retry_special bio = bio\<lparr>bio_flags := bio_flags bio OR (BIO_FLAGS_READ OR BIO_FLAGS_IO_SPECIAL)\<rparr>"

definition BIO_get_retry_flags :: "bio_st \<Rightarrow> u32" where
  "BIO_get_retry_flags bio = bio_flags bio AND kRetryFlags"

definition BIO_clear_retry_flags :: "bio_st \<Rightarrow> bio_st" where
  "BIO_clear_retry_flags bio = bio\<lparr>bio_flags := bio_flags bio AND NOT kRetryFlags, retry_reason := 0\<rparr>"

definition BIO_copy_next_retry :: "bio_heap \<Rightarrow> int \<Rightarrow> bio_heap option" where
  "BIO_copy_next_retry h p =
     with_bio h p (\<lambda>bio. with_bio h (next_bio bio) (\<lambda>nb.
       Some (set_bio p ((BIO_set_flags (BIO_get_retry_flags nb) (BIO_clear_retry_flags bio))\<lparr>retry_reason := retry_reason nb\<rparr>) h)))"

section \<open>Creating, sharing and freeing\<close>

text \<open>
  \<open>fresh\<close> is the address of the new object, or none. The count of references saturates, as in
  \<^verbatim>\<open>crypto/refcount.c\<close>: at its maximum it is never changed.
\<close>

definition CRYPTO_REFCOUNT_MAX :: u32 where "CRYPTO_REFCOUNT_MAX = 0xffffffff"

definition CRYPTO_refcount_inc :: "u32 \<Rightarrow> u32" where
  "CRYPTO_refcount_inc count = (if count = CRYPTO_REFCOUNT_MAX then count else count + 1)"

text \<open>Decrementing a count of zero aborts the program.\<close>

definition CRYPTO_refcount_dec_and_test_zero :: "u32 \<Rightarrow> (bool \<times> u32) option" where
  "CRYPTO_refcount_dec_and_test_zero count =
     (if count = 0 then None
      else if count = CRYPTO_REFCOUNT_MAX then Some (False, count)
      else Some (count - 1 = 0, count - 1))"

definition BIO_new :: "methods \<Rightarrow> (bio_heap \<Rightarrow> int option) \<Rightarrow> bio_heap \<Rightarrow> int \<Rightarrow> (int \<times> bio_heap) option" where
  "BIO_new methods fresh h m =
     (case fresh h of
        None \<Rightarrow> Some (0, h)
      | Some p \<Rightarrow>
          let h' = set_bio p \<lparr>bio_method = m, init = 0, shutdown = 1, bio_flags = 0, retry_reason = 0, bio_num = 0, references = 1,
                             bio_ptr = NullPtr, next_bio = 0, num_read = 0, num_write = 0\<rparr> h
          in (case create (methods m) of
                None \<Rightarrow> Some (p, h')
              | Some f \<Rightarrow>
                  (case f h' p of
                     None \<Rightarrow> None
                   | Some (True, h') \<Rightarrow> Some (p, h')
                   | Some (False, h') \<Rightarrow> Some (0, h'\<lparr>bios := (bios h')(p := None)\<rparr>))))"

definition BIO_up_ref :: "bio_heap \<Rightarrow> int \<Rightarrow> bio_heap option" where
  "BIO_up_ref h p = upd_bio h p (\<lambda>b. b\<lparr>references := CRYPTO_refcount_inc (references b)\<rparr>)"

definition BIO_pop :: "bio_heap \<Rightarrow> int \<Rightarrow> (int \<times> bio_heap) option" where
  "BIO_pop h p =
     (if p = 0 then Some (0, h) else with_bio h p (\<lambda>b. Some (next_bio b, set_bio p (b\<lparr>next_bio := 0\<rparr>) h)))"

text \<open>One round of the loop of \<open>BIO_free\<close>: the next BIO to free, or the return value.\<close>

definition free_one :: "methods \<Rightarrow> bio_heap \<Rightarrow> int \<Rightarrow> ((int + int) \<times> bio_heap) option" where
  "free_one methods h p =
     with_bio h p (\<lambda>b.
       case CRYPTO_refcount_dec_and_test_zero (references b) of
         None \<Rightarrow> None
       | Some (False, n) \<Rightarrow> Some (Inr 0, set_bio p (b\<lparr>references := n\<rparr>) h)
       | Some (True, n) \<Rightarrow>
           (case BIO_pop (set_bio p (b\<lparr>references := n\<rparr>) h) p of
              None \<Rightarrow> None
            | Some (q, h) \<Rightarrow>
                (case (if bio_method b \<noteq> 0 then destroy (methods (bio_method b)) else None) of
                   None \<Rightarrow> Some (Inl q, h\<lparr>bios := (bios h)(p := None)\<rparr>)
                 | Some f \<Rightarrow> (case f h p of
                     None \<Rightarrow> None
                   | Some h \<Rightarrow> Some (Inl q, h\<lparr>bios := (bios h)(p := None)\<rparr>)))))"

partial_function (option) BIO_free :: "methods \<Rightarrow> bio_heap \<Rightarrow> int \<Rightarrow> (int \<times> bio_heap) option" where
  "BIO_free methods h p =
     (if p = 0 then Some (1, h)
      else case free_one methods h p of
             None \<Rightarrow> None
           | Some (r, h) \<Rightarrow> (case r of Inl q \<Rightarrow> BIO_free methods h q | Inr n \<Rightarrow> Some (n, h)))"

section \<open>Reading and writing\<close>

definition BIO_read :: "methods \<Rightarrow> bio_heap \<Rightarrow> int \<Rightarrow> int \<Rightarrow> (int \<times> bytes \<times> bio_heap) option" where
  "BIO_read methods h p len =
     (if p = 0 then Some (-2, [], h)
      else with_bio h p (\<lambda>bio.
        case (if bio_method bio = 0 then None else bread (methods (bio_method bio))) of
          None \<Rightarrow> Some (-2, [], h)
        | Some f \<Rightarrow>
            if init bio = 0 then Some (-2, [], h)
            else if len \<le> 0 then Some (0, [], h)
            else case f h p True len of
                   None \<Rightarrow> None
                 | Some (ret, out, h) \<Rightarrow>
                     if ret > 0 then
                       (case upd_bio h p (\<lambda>b. b\<lparr>num_read := num_read b + word_of_int ret\<rparr>) of
                          None \<Rightarrow> None | Some h \<Rightarrow> Some (ret, out, h))
                     else Some (ret, out, h)))"

definition BIO_gets :: "methods \<Rightarrow> bio_heap \<Rightarrow> int \<Rightarrow> int \<Rightarrow> (int \<times> bytes \<times> bio_heap) option" where
  "BIO_gets methods h p len =
     (if p = 0 then Some (-2, [], h)
      else with_bio h p (\<lambda>bio.
        case (if bio_method bio = 0 then None else bgets (methods (bio_method bio))) of
          None \<Rightarrow> Some (-2, [], h)
        | Some f \<Rightarrow>
            if init bio = 0 then Some (-2, [], h)
            else if len \<le> 0 then Some (0, [], h)
            else case f h p len of
                   None \<Rightarrow> None
                 | Some (ret, out, h) \<Rightarrow>
                     if ret > 0 then
                       (case upd_bio h p (\<lambda>b. b\<lparr>num_read := num_read b + word_of_int ret\<rparr>) of
                          None \<Rightarrow> None | Some h \<Rightarrow> Some (ret, out, h))
                     else Some (ret, out, h)))"

definition BIO_write :: "methods \<Rightarrow> bio_heap \<Rightarrow> int \<Rightarrow> bytes \<Rightarrow> int \<Rightarrow> (int \<times> bio_heap) option" where
  "BIO_write methods h p data inl =
     (if p = 0 then Some (-2, h)
      else with_bio h p (\<lambda>bio.
        case (if bio_method bio = 0 then None else bwrite (methods (bio_method bio))) of
          None \<Rightarrow> Some (-2, h)
        | Some f \<Rightarrow>
            if init bio = 0 then Some (-2, h)
            else if inl \<le> 0 then Some (0, h)
            else case f h p (Some data) inl of
                   None \<Rightarrow> None
                 | Some (ret, h) \<Rightarrow>
                     if ret > 0 then
                       (case upd_bio h p (\<lambda>b. b\<lparr>num_write := num_write b + word_of_int ret\<rparr>) of
                          None \<Rightarrow> None | Some h \<Rightarrow> Some (ret, h))
                     else Some (ret, h)))"

abbreviation int_max_z :: int where "int_max_z \<equiv> 2147483647"

text \<open>The rest of the data is what has not been written yet.\<close>

partial_function (option) BIO_write_all :: "methods \<Rightarrow> bio_heap \<Rightarrow> int \<Rightarrow> bytes \<Rightarrow> (bool \<times> bio_heap) option" where
  "BIO_write_all methods h p data =
     (if data = [] then Some (True, h)
      else case BIO_write methods h p data (if int (length data) > int_max_z then int_max_z else int (length data)) of
             None \<Rightarrow> None
           | Some (ret, h) \<Rightarrow>
               if ret \<le> 0 then Some (False, h) else BIO_write_all methods h p (drop (nat ret) data))"

definition BIO_puts :: "methods \<Rightarrow> bio_heap \<Rightarrow> int \<Rightarrow> bytes \<Rightarrow> (int \<times> bio_heap) option" where
  "BIO_puts methods h p s =
     (if int (length s) > int_max_z then Some (-1, h) else BIO_write methods h p s (int (length s)))"

fun indent_loop :: "methods \<Rightarrow> bio_heap \<Rightarrow> int \<Rightarrow> nat \<Rightarrow> (bool \<times> bio_heap) option" where
  "indent_loop methods h p 0 = Some (True, h)"
| "indent_loop methods h p (Suc n) =
     (case BIO_puts methods h p [32] of
        None \<Rightarrow> None
      | Some (ret, h) \<Rightarrow> if ret \<noteq> 1 then Some (False, h) else indent_loop methods h p n)"

definition BIO_indent :: "methods \<Rightarrow> bio_heap \<Rightarrow> int \<Rightarrow> nat \<Rightarrow> nat \<Rightarrow> (bool \<times> bio_heap) option" where
  "BIO_indent methods h p indent max_indent = indent_loop methods h p (if indent > max_indent then max_indent else indent)"

section \<open>Control\<close>

definition BIO_CTRL_RESET :: int where "BIO_CTRL_RESET = 1"
definition BIO_CTRL_EOF :: int where "BIO_CTRL_EOF = 2"
definition BIO_CTRL_INFO :: int where "BIO_CTRL_INFO = 3"
definition BIO_CTRL_GET_CLOSE :: int where "BIO_CTRL_GET_CLOSE = 8"
definition BIO_CTRL_SET_CLOSE :: int where "BIO_CTRL_SET_CLOSE = 9"
definition BIO_CTRL_PENDING :: int where "BIO_CTRL_PENDING = 10"
definition BIO_CTRL_FLUSH :: int where "BIO_CTRL_FLUSH = 11"
definition BIO_CTRL_WPENDING :: int where "BIO_CTRL_WPENDING = 13"

definition BIO_ctrl :: "methods \<Rightarrow> bio_heap \<Rightarrow> int \<Rightarrow> int \<Rightarrow> int \<Rightarrow> int \<Rightarrow> (int \<times> bio_heap) option" where
  "BIO_ctrl methods h p cmd larg parg =
     (if p = 0 then Some (0, h)
      else with_bio h p (\<lambda>bio.
        case (if bio_method bio = 0 then None else mctrl (methods (bio_method bio))) of
          None \<Rightarrow> Some (-2, h)
        | Some f \<Rightarrow> f h p cmd larg parg))"

definition BIO_flush :: "methods \<Rightarrow> bio_heap \<Rightarrow> int \<Rightarrow> (int \<times> bio_heap) option" where
  "BIO_flush methods h p = BIO_ctrl methods h p BIO_CTRL_FLUSH 0 0"

definition BIO_reset :: "methods \<Rightarrow> bio_heap \<Rightarrow> int \<Rightarrow> (int \<times> bio_heap) option" where
  "BIO_reset methods h p = BIO_ctrl methods h p BIO_CTRL_RESET 0 0"

definition BIO_eof :: "methods \<Rightarrow> bio_heap \<Rightarrow> int \<Rightarrow> (int \<times> bio_heap) option" where
  "BIO_eof methods h p = BIO_ctrl methods h p BIO_CTRL_EOF 0 0"

definition BIO_set_close :: "methods \<Rightarrow> bio_heap \<Rightarrow> int \<Rightarrow> int \<Rightarrow> (int \<times> bio_heap) option" where
  "BIO_set_close methods h p close_flag = BIO_ctrl methods h p BIO_CTRL_SET_CLOSE close_flag 0"

text \<open>A negative answer fails the assertion.\<close>

definition BIO_pending :: "methods \<Rightarrow> bio_heap \<Rightarrow> int \<Rightarrow> (nat \<times> bio_heap) option" where
  "BIO_pending methods h p =
     (case BIO_ctrl methods h p BIO_CTRL_PENDING 0 0 of
        None \<Rightarrow> None | Some (r, h) \<Rightarrow> if r < 0 then None else Some (nat r, h))"

definition BIO_wpending :: "methods \<Rightarrow> bio_heap \<Rightarrow> int \<Rightarrow> (nat \<times> bio_heap) option" where
  "BIO_wpending methods h p =
     (case BIO_ctrl methods h p BIO_CTRL_WPENDING 0 0 of
        None \<Rightarrow> None | Some (r, h) \<Rightarrow> if r < 0 then None else Some (nat r, h))"

section \<open>Chains\<close>

definition BIO_next :: "bio_heap \<Rightarrow> int \<Rightarrow> int option" where
  "BIO_next h p = (if p = 0 then Some 0 else map_option next_bio (bios h p))"

text \<open>The last BIO of a chain.\<close>

partial_function (option) chain_end :: "bio_heap \<Rightarrow> int \<Rightarrow> int option" where
  "chain_end h p = with_bio h p (\<lambda>b. if next_bio b = 0 then Some p else chain_end h (next_bio b))"

definition BIO_push :: "bio_heap \<Rightarrow> int \<Rightarrow> int \<Rightarrow> (int \<times> bio_heap) option" where
  "BIO_push h p q =
     (if p = 0 then Some (0, h)
      else case chain_end h p of
             None \<Rightarrow> None
           | Some e \<Rightarrow> (case upd_bio h e (\<lambda>b. b\<lparr>next_bio := q\<rparr>) of None \<Rightarrow> None | Some h \<Rightarrow> Some (p, h)))"

text \<open>The types are small non-negative numbers with the kind in the bits above the lowest eight.\<close>

partial_function (option) BIO_find_type :: "methods \<Rightarrow> bio_heap \<Rightarrow> int \<Rightarrow> int \<Rightarrow> int option" where
  "BIO_find_type methods h p ty =
     (if p = 0 then Some 0
      else with_bio h p (\<lambda>b.
        if bio_method b \<noteq> 0 \<and>
           (let method_type = mtype (methods (bio_method b))
            in if ty AND 0xff = 0 then method_type AND ty \<noteq> 0 else method_type = ty)
        then Some p
        else BIO_find_type methods h (next_bio b) ty))"

section \<open>Fields\<close>

definition BIO_free_all :: "methods \<Rightarrow> bio_heap \<Rightarrow> int \<Rightarrow> bio_heap option" where
  "BIO_free_all methods h p = map_option snd (BIO_free methods h p)"

definition BIO_vfree :: "methods \<Rightarrow> bio_heap \<Rightarrow> int \<Rightarrow> bio_heap option" where
  "BIO_vfree methods h p = map_option snd (BIO_free methods h p)"

definition BIO_method_type :: "methods \<Rightarrow> bio_st \<Rightarrow> int" where
  "BIO_method_type methods bio = mtype (methods (bio_method bio))"

definition BIO_get_retry_reason :: "bio_st \<Rightarrow> int" where "BIO_get_retry_reason bio = retry_reason bio"

definition BIO_set_retry_reason :: "int \<Rightarrow> bio_st \<Rightarrow> bio_st" where
  "BIO_set_retry_reason reason bio = bio\<lparr>retry_reason := reason\<rparr>"

definition BIO_number_read :: "bio_st \<Rightarrow> u64" where "BIO_number_read bio = num_read bio"
definition BIO_number_written :: "bio_st \<Rightarrow> u64" where "BIO_number_written bio = num_write bio"

definition BIO_set_data :: "bio_ptr \<Rightarrow> bio_st \<Rightarrow> bio_st" where "BIO_set_data ptr bio = bio\<lparr>bio_ptr := ptr\<rparr>"
definition BIO_get_data :: "bio_st \<Rightarrow> bio_ptr" where "BIO_get_data bio = bio_ptr bio"
definition BIO_set_init :: "int \<Rightarrow> bio_st \<Rightarrow> bio_st" where "BIO_set_init n bio = bio\<lparr>init := n\<rparr>"
definition BIO_get_init :: "bio_st \<Rightarrow> int" where "BIO_get_init bio = init bio"
definition BIO_set_shutdown :: "int \<Rightarrow> bio_st \<Rightarrow> bio_st" where "BIO_set_shutdown n bio = bio\<lparr>shutdown := n\<rparr>"
definition BIO_get_shutdown :: "bio_st \<Rightarrow> int" where "BIO_get_shutdown bio = shutdown bio"

end
