(* ===== verification/BioPair.thy ===== *)
theory BioPair
  imports Bio
begin

text \<open>
  \<^verbatim>\<open>crypto/bio/pair.c\<close>: two BIOs that are connected, what is written to one is read from the other. Each half keeps the
  ring buffer for what is written to it.

  The functions are the entries of the method table \<open>methods_biop\<close>. An assertion that fails makes the result \<open>None\<close>;
  the loops have no other bound than that of the code.
\<close>

text \<open>The conversions between \<open>int\<close> and \<open>size_t\<close>.\<close>

definition size_of_int :: "int \<Rightarrow> nat" where
  "size_of_int i = nat (i mod 2 ^ 64)"

definition int_of_size :: "nat \<Rightarrow> int" where
  "int_of_size n = signed_take_bit 31 (int n)"

definition long_of_size :: "nat \<Rightarrow> int" where
  "long_of_size n = signed_take_bit 63 (int n)"

section \<open>Objects\<close>

text \<open>The half of a pair that a BIO holds, and changing it.\<close>

definition half :: "bio_heap \<Rightarrow> int \<Rightarrow> bio_bio_st option" where
  "half h p = (case bios h p of Some b \<Rightarrow> (case bio_ptr b of PairPtr x \<Rightarrow> Some x | _ \<Rightarrow> None) | None \<Rightarrow> None)"

definition set_half :: "int \<Rightarrow> bio_bio_st \<Rightarrow> bio_heap \<Rightarrow> bio_heap" where
  "set_half p x h = (case bios h p of None \<Rightarrow> h | Some b \<Rightarrow> set_bio p (b\<lparr>bio_ptr := PairPtr x\<rparr>) h)"

definition bio_new :: "bool \<Rightarrow> bio_heap \<Rightarrow> int \<Rightarrow> (bool \<times> bio_heap) option" where
  "bio_new zalloc_ok h p =
     (if \<not> zalloc_ok then Some (False, h)
      else map_option (\<lambda>h. (True, h))
        (upd_bio h p (\<lambda>b. b\<lparr>bio_ptr := PairPtr \<lparr>peer = 0, closed = 0, bb_len = 0, bb_offset = 0, bb_size = 17 * 1024,
                                               bb_buf = None, request = 0\<rparr>\<rparr>)))"

text \<open>A BIO without data is left alone; the assertions compare the two halves.\<close>

definition bio_destroy_pair :: "bio_heap \<Rightarrow> int \<Rightarrow> bio_heap option" where
  "bio_destroy_pair h p =
     with_bio h p (\<lambda>bio.
       case bio_ptr bio of
         PairPtr b \<Rightarrow>
           if peer b = 0 then Some h
           else with_bio h (peer b) (\<lambda>peer_bio.
             case bio_ptr peer_bio of
               PairPtr peer_b \<Rightarrow>
                 if peer peer_b \<noteq> p \<or> bb_buf peer_b = None \<or> bb_buf b = None then None
                 else Some
                   (set_bio p (bio\<lparr>bio_ptr := PairPtr (b\<lparr>peer := 0, bb_len := 0, bb_offset := 0\<rparr>), init := 0\<rparr>)
                     (set_bio (peer b)
                       (peer_bio\<lparr>bio_ptr := PairPtr (peer_b\<lparr>peer := 0, bb_len := 0, bb_offset := 0\<rparr>), init := 0\<rparr>) h))
             | _ \<Rightarrow> None)
       | NullPtr \<Rightarrow> Some h
       | _ \<Rightarrow> None)"

text \<open>The buffer and the half itself are freed with it.\<close>

definition bio_free :: "bio_heap \<Rightarrow> int \<Rightarrow> bio_heap option" where
  "bio_free h p =
     (case half h p of
        None \<Rightarrow> None
      | Some b \<Rightarrow>
          (case (if peer b \<noteq> 0 then bio_destroy_pair h p else Some h) of
             None \<Rightarrow> None
           | Some h \<Rightarrow> upd_bio h p (\<lambda>bio. bio\<lparr>bio_ptr := NullPtr\<rparr>)))"

section \<open>Reading\<close>

text \<open>
  The loop of \<open>bio_read\<close>: what has been copied is appended to \<open>out\<close>. The half and its buffer are the state.
\<close>

definition read_chunk :: "bio_bio_st \<Rightarrow> nat \<Rightarrow> nat" where
  "read_chunk b rest = (if size_add (bb_offset b) rest \<le> bb_size b then rest else bb_size b - bb_offset b)"

definition after_read :: "bio_bio_st \<Rightarrow> nat \<Rightarrow> bio_bio_st" where
  "after_read b chunk =
     (let b = b\<lparr>bb_len := bb_len b - chunk\<rparr>
      in if bb_len b \<noteq> 0 then
           let b = b\<lparr>bb_offset := bb_offset b + chunk\<rparr>
           in if bb_offset b = bb_size b then b\<lparr>bb_offset := 0\<rparr> else b
         else b\<lparr>bb_offset := 0\<rparr>)"

partial_function (option) read_loop :: "bytes \<Rightarrow> nat \<Rightarrow> bytes \<Rightarrow> bio_bio_st \<Rightarrow> (bytes \<times> bio_bio_st) option" where
  "read_loop buf rest out b =
     (if rest > bb_len b then None
      else
        let chunk = read_chunk b rest
        in if bb_offset b + chunk > bb_size b \<or> (bb_len b = chunk \<and> chunk \<noteq> rest) then None
           else
             let out = out @ take chunk (drop (bb_offset b) buf)
             in if rest - chunk = 0 then Some (out, after_read b chunk)
                else if bb_offset (after_read b chunk) > bb_size b then None
                else read_loop buf (rest - chunk) out (after_read b chunk))"

definition bio_read :: "bio_heap \<Rightarrow> int \<Rightarrow> bool \<Rightarrow> int \<Rightarrow> (int \<times> bytes \<times> bio_heap) option" where
  "bio_read h p buf_ok size0 =
     with_bio h p (\<lambda>bio.
       let bio = BIO_clear_retry_flags bio; h = set_bio p bio h; size = size_of_int size0
       in if init bio = 0 then Some (0, [], h)
          else case half h p of
                 None \<Rightarrow> None
               | Some b \<Rightarrow>
                   (case half h (peer b) of
                      None \<Rightarrow> None
                    | Some peer_b \<Rightarrow>
                        (case bb_buf peer_b of
                           None \<Rightarrow> None
                         | Some buf \<Rightarrow>
                             let peer_b = peer_b\<lparr>request := 0\<rparr>; h = set_half (peer b) peer_b h
                             in if \<not> buf_ok \<or> size = 0 then Some (0, [], h)
                                else if bb_len peer_b = 0 then
                                  (if closed peer_b \<noteq> 0 then Some (0, [], h)
                                   else Some (-1, [],
                                     set_half (peer b) (peer_b\<lparr>request := if size \<le> bb_size peer_b then size else bb_size peer_b\<rparr>)
                                       (set_bio p (BIO_set_retry_read bio) h)))
                                else
                                  let size = (if bb_len peer_b < size then bb_len peer_b else size)
                                  in (case read_loop buf size [] peer_b of
                                        None \<Rightarrow> None
                                      | Some (out, peer_b) \<Rightarrow> Some (int_of_size size, out, set_half (peer b) peer_b h)))))"

section \<open>Writing\<close>

definition write_offset :: "bio_bio_st \<Rightarrow> nat" where
  "write_offset b = (let w = size_add (bb_offset b) (bb_len b) in if w \<ge> bb_size b then w - bb_size b else w)"

definition write_chunk :: "bio_bio_st \<Rightarrow> nat \<Rightarrow> nat" where
  "write_chunk b rest = (if size_add (write_offset b) rest \<le> bb_size b then rest else bb_size b - write_offset b)"

partial_function (option) write_loop :: "bytes \<Rightarrow> nat \<Rightarrow> bio_bio_st \<Rightarrow> bytes \<Rightarrow> bio_bio_st option" where
  "write_loop src rest b buf =
     (if size_add (bb_len b) rest > bb_size b then None
      else
        let chunk = write_chunk b rest;
            buf = copy_at buf (write_offset b) (take chunk src);
            b = b\<lparr>bb_len := bb_len b + chunk\<rparr>
        in if bb_len b > bb_size b then None
           else if rest - chunk = 0 then Some (b\<lparr>bb_buf := Some buf\<rparr>)
           else write_loop (drop chunk src) (rest - chunk) b buf)"

definition bio_write :: "bio_heap \<Rightarrow> int \<Rightarrow> bytes option \<Rightarrow> int \<Rightarrow> (int \<times> bio_heap) option" where
  "bio_write h p src num0 =
     with_bio h p (\<lambda>bio.
       let bio = BIO_clear_retry_flags bio; h = set_bio p bio h; num = size_of_int num0
       in case src of
            None \<Rightarrow> Some (0, h)
          | Some src \<Rightarrow>
              if init bio = 0 \<or> num = 0 then Some (0, h)
              else case half h p of
                     None \<Rightarrow> None
                   | Some b \<Rightarrow>
                       (case bb_buf b of
                          None \<Rightarrow> None
                        | Some buf \<Rightarrow>
                            if peer b = 0 then None
                            else
                              let b = b\<lparr>request := 0\<rparr>; h = set_half p b h
                              in if closed b \<noteq> 0 then Some (-1, h)
                                 else if bb_len b > bb_size b then None
                                 else if bb_len b = bb_size b then
                                   Some (-1, set_half p b (set_bio p (BIO_set_retry_write bio) h))
                                 else
                                   let num = (if num > bb_size b - bb_len b then bb_size b - bb_len b else num)
                                   in (case write_loop src num b buf of
                                         None \<Rightarrow> None
                                       | Some b \<Rightarrow> Some (int_of_size num, set_half p b h))))"

section \<open>Connecting\<close>

text \<open>
  The buffer of one half. The size is the requested one, or the default; a block that is allocated has any contents,
  which is what \<open>malloc\<close> says.
\<close>

definition pair_buffer :: "(nat \<Rightarrow> bytes option) \<Rightarrow> bio_bio_st \<Rightarrow> nat \<Rightarrow> bio_bio_st \<times> bool" where
  "pair_buffer malloc b writebuf_len =
     (if bb_buf b = None then
        let b = (if writebuf_len \<noteq> 0 then b\<lparr>bb_size := writebuf_len\<rparr> else b)
        in case malloc (bb_size b) of
             None \<Rightarrow> (b, False)
           | Some blk \<Rightarrow> (b\<lparr>bb_buf := Some blk, bb_len := 0, bb_offset := 0\<rparr>, True)
      else (b, True))"

definition bio_make_pair ::
    "(nat \<Rightarrow> bytes option) \<Rightarrow> bio_heap \<Rightarrow> int \<Rightarrow> int \<Rightarrow> nat \<Rightarrow> nat \<Rightarrow> (bool \<times> bio_heap) option" where
  "bio_make_pair malloc h p1 p2 writebuf1_len writebuf2_len =
     (case (half h p1, half h p2) of
        (Some b1, Some b2) \<Rightarrow>
          if peer b1 \<noteq> 0 \<or> peer b2 \<noteq> 0 then Some (False, h)
          else
            (case pair_buffer malloc b1 writebuf1_len of
               (b1, False) \<Rightarrow> Some (False, set_half p1 b1 h)
             | (b1, True) \<Rightarrow>
                 (case pair_buffer malloc b2 writebuf2_len of
                    (b2, False) \<Rightarrow> Some (False, set_half p2 b2 (set_half p1 b1 h))
                  | (b2, True) \<Rightarrow>
                      let h = set_half p2 (b2\<lparr>peer := p1, closed := 0, request := 0\<rparr>)
                                (set_half p1 (b1\<lparr>peer := p2, closed := 0, request := 0\<rparr>) h)
                      in map_option (\<lambda>h. (True, h))
                           (case upd_bio h p1 (\<lambda>b. b\<lparr>init := 1\<rparr>) of
                              None \<Rightarrow> None | Some h \<Rightarrow> upd_bio h p2 (\<lambda>b. b\<lparr>init := 1\<rparr>))))
      | _ \<Rightarrow> None)"

section \<open>Control\<close>

definition BIO_C_GET_WRITE_BUF_SIZE :: int where "BIO_C_GET_WRITE_BUF_SIZE = 137"
definition BIO_C_GET_WRITE_GUARANTEE :: int where "BIO_C_GET_WRITE_GUARANTEE = 140"
definition BIO_C_GET_READ_REQUEST :: int where "BIO_C_GET_READ_REQUEST = 141"
definition BIO_C_SHUTDOWN_WR :: int where "BIO_C_SHUTDOWN_WR = 142"
definition BIO_C_RESET_READ_REQUEST :: int where "BIO_C_RESET_READ_REQUEST = 147"

definition bio_ctrl :: "bio_heap \<Rightarrow> int \<Rightarrow> int \<Rightarrow> int \<Rightarrow> int \<Rightarrow> (int \<times> bio_heap) option" where
  "bio_ctrl h p cmd num other =
     with_bio h p (\<lambda>bio.
       case half h p of
         None \<Rightarrow> None
       | Some b \<Rightarrow>
           if cmd = BIO_C_GET_WRITE_BUF_SIZE then Some (long_of_size (bb_size b), h)
           else if cmd = BIO_C_GET_WRITE_GUARANTEE then
             Some (if peer b = 0 \<or> closed b \<noteq> 0 then 0
                   else long_of_size (size_of_int (long_of_size (bb_size b) - int (bb_len b))), h)
           else if cmd = BIO_C_GET_READ_REQUEST then Some (long_of_size (request b), h)
           else if cmd = BIO_C_RESET_READ_REQUEST then Some (1, set_half p (b\<lparr>request := 0\<rparr>) h)
           else if cmd = BIO_C_SHUTDOWN_WR then Some (1, set_half p (b\<lparr>closed := 1\<rparr>) h)
           else if cmd = BIO_CTRL_GET_CLOSE then Some (shutdown bio, h)
           else if cmd = BIO_CTRL_SET_CLOSE then Some (1, set_bio p (bio\<lparr>shutdown := signed_take_bit 31 num\<rparr>) h)
           else if cmd = BIO_CTRL_PENDING then
             (if peer b \<noteq> 0 then map_option (\<lambda>peer_b. (long_of_size (bb_len peer_b), h)) (half h (peer b))
              else Some (0, h))
           else if cmd = BIO_CTRL_WPENDING then Some (if bb_buf b \<noteq> None then long_of_size (bb_len b) else 0, h)
           else if cmd = BIO_CTRL_FLUSH then Some (1, h)
           else if cmd = BIO_CTRL_EOF then
             (if other \<noteq> 0
              then map_option (\<lambda>other_b. (if bb_len other_b = 0 \<and> closed other_b \<noteq> 0 then 1 else 0, h)) (half h other)
              else Some (1, h))
           else Some (0, h))"

definition methods_biop :: "bool \<Rightarrow> bio_method_st" where
  "methods_biop zalloc_ok =
     \<lparr>mtype = 0x413, bwrite = Some bio_write, bread = Some bio_read, bgets = None, mctrl = Some bio_ctrl,
      create = Some (bio_new zalloc_ok), destroy = Some bio_free\<rparr>"

text \<open>\<open>m\<close> is the address of the table of pairs.\<close>

definition BIO_new_bio_pair ::
    "methods \<Rightarrow> int \<Rightarrow> (nat \<Rightarrow> bytes option) \<Rightarrow> (bio_heap \<Rightarrow> int option) \<Rightarrow> bio_heap \<Rightarrow> nat \<Rightarrow> nat \<Rightarrow> ((int \<times> int) option \<times> bio_heap) option"
  where
  "BIO_new_bio_pair methods m malloc fresh h writebuf1_len writebuf2_len =
     (case BIO_new methods fresh h m of
        None \<Rightarrow> None
      | Some (p1, h) \<Rightarrow>
          (case BIO_new methods fresh h m of
             None \<Rightarrow> None
           | Some (p2, h) \<Rightarrow>
               (case (if p1 = 0 \<or> p2 = 0 then Some (False, h) else bio_make_pair malloc h p1 p2 writebuf1_len writebuf2_len) of
                  None \<Rightarrow> None
                | Some (True, h) \<Rightarrow> Some (Some (p1, p2), h)
                | Some (False, h) \<Rightarrow>
                    (case BIO_free methods h p1 of
                       None \<Rightarrow> None
                     | Some (_, h) \<Rightarrow>
                         (case BIO_free methods h p2 of None \<Rightarrow> None | Some (_, h) \<Rightarrow> Some (None, h))))))"

definition BIO_ctrl_get_read_request :: "methods \<Rightarrow> bio_heap \<Rightarrow> int \<Rightarrow> (nat \<times> bio_heap) option" where
  "BIO_ctrl_get_read_request methods h p =
     map_option (\<lambda>(r, h). (size_of_int r, h)) (BIO_ctrl methods h p BIO_C_GET_READ_REQUEST 0 0)"

definition BIO_ctrl_get_write_guarantee :: "methods \<Rightarrow> bio_heap \<Rightarrow> int \<Rightarrow> (nat \<times> bio_heap) option" where
  "BIO_ctrl_get_write_guarantee methods h p =
     map_option (\<lambda>(r, h). (size_of_int r, h)) (BIO_ctrl methods h p BIO_C_GET_WRITE_GUARANTEE 0 0)"

definition BIO_shutdown_wr :: "methods \<Rightarrow> bio_heap \<Rightarrow> int \<Rightarrow> (int \<times> bio_heap) option" where
  "BIO_shutdown_wr methods h p = BIO_ctrl methods h p BIO_C_SHUTDOWN_WR 0 0"

end
