(* ===== verification/BioPairSpec.thy ===== *)
theory BioPairSpec
  imports BioPair
begin

text \<open>
  The ring buffer of half a pair is a bounded queue of bytes, and the connected halves are two of them.
\<close>

section \<open>Bounded queues\<close>

text \<open>
  What the rest relies on: putting within the room appends, getting what is there takes from the front, and the sum of
  what is held and the room is fixed.
\<close>

locale bounded_queue =
  fixes inv :: "'q \<Rightarrow> bool" and contents :: "'q \<Rightarrow> 'a list" and room :: "'q \<Rightarrow> nat"
    and put :: "'a list \<Rightarrow> 'q \<Rightarrow> 'q option" and get :: "nat \<Rightarrow> 'q \<Rightarrow> ('a list \<times> 'q) option"
  assumes put_law: "inv q \<Longrightarrow> xs \<noteq> [] \<Longrightarrow> length xs \<le> room q \<Longrightarrow>
      \<exists>q'. put xs q = Some q' \<and> inv q' \<and> contents q' = contents q @ xs \<and> room q' = room q - length xs"
    and get_law: "inv q \<Longrightarrow> 0 < n \<Longrightarrow> n \<le> length (contents q) \<Longrightarrow>
      \<exists>q'. get n q = Some (take n (contents q), q') \<and> inv q' \<and> contents q' = drop n (contents q) \<and> room q' = room q + n"
begin

lemma put_get:
  assumes "inv q" "xs \<noteq> []" "length xs \<le> room q"
  obtains q1 q2 where "put xs q = Some q1" "get (length (contents q) + length xs) q1 = Some (contents q @ xs, q2)"
    "contents q2 = []" "inv q2" "room q2 = room q + length (contents q)"
proof -
  obtain q1 where 1: "put xs q = Some q1" "inv q1" "contents q1 = contents q @ xs" "room q1 = room q - length xs"
    using put_law [OF assms] by blast
  then have "0 < length (contents q1)" using assms(2) by simp
  from get_law [OF 1(2) this] obtain q2 where "get (length (contents q1)) q1 = Some (contents q1, q2)" "inv q2"
    "contents q2 = []" "room q2 = room q1 + length (contents q1)" by auto
  then show ?thesis using that [of q1 q2] 1 assms(3) by simp
qed

end

section \<open>The ring\<close>

text \<open>The bytes that a half holds, from the offset on around the end of the buffer.\<close>

definition ring :: "bio_bio_st \<Rightarrow> bytes" where
  "ring b = (case bb_buf b of None \<Rightarrow> []
             | Some buf \<Rightarrow> map (\<lambda>i. buf ! ((bb_offset b + i) mod bb_size b)) [0..<bb_len b])"

definition ring_ok :: "bio_bio_st \<Rightarrow> bool" where
  "ring_ok b \<longleftrightarrow> 0 < bb_size b \<and> bb_size b < 2 ^ 63 \<and> bb_len b \<le> bb_size b \<and> bb_offset b < bb_size b \<and>
     (bb_len b = 0 \<longrightarrow> bb_offset b = 0) \<and> (\<exists>buf. bb_buf b = Some buf \<and> length buf = bb_size b)"

definition ring_room :: "bio_bio_st \<Rightarrow> nat" where
  "ring_room b = bb_size b - bb_len b"

lemma length_ring: "ring_ok b \<Longrightarrow> length (ring b) = bb_len b"
  by (auto simp: ring_ok_def ring_def)

lemma wrap_mod: "(i :: nat) < 2 * n \<Longrightarrow> i mod n = (if i < n then i else i - n)"
  by (simp add: mod_if not_less)

lemma nth_copy_at:
  "i + length src \<le> length dst \<Longrightarrow> j < length dst \<Longrightarrow>
     copy_at dst i src ! j = (if i \<le> j \<and> j < i + length src then src ! (j - i) else dst ! j)"
  by (auto simp: copy_at_def nth_append min_def)

lemma sizes_add: "a < 2 ^ 63 \<Longrightarrow> b < 2 ^ 63 \<Longrightarrow> size_add a b = a + b"
  by simp

subsection \<open>Reading\<close>

lemma after_read_simps:
  "bb_size (after_read b k) = bb_size b" "bb_buf (after_read b k) = bb_buf b" "bb_len (after_read b k) = bb_len b - k"
  "peer (after_read b k) = peer b" "closed (after_read b k) = closed b" "request (after_read b k) = request b"
  "bb_offset (after_read b k) =
     (if bb_len b \<le> k then 0 else if bb_offset b + k = bb_size b then 0 else bb_offset b + k)"
  by (auto simp: after_read_def Let_def)

lemma ring_after_read:
  assumes "ring_ok b" "k \<le> bb_len b" "bb_offset b + k \<le> bb_size b"
  shows "ring (after_read b k) = drop k (ring b)" "ring_ok (after_read b k)"
    "take k (drop (bb_offset b) (the (bb_buf b))) = take k (ring b)"
proof -
  obtain buf where buf: "bb_buf b = Some buf" "length buf = bb_size b" using assms(1) by (auto simp: ring_ok_def)
  show ok: "ring_ok (after_read b k)"
    using assms by (auto simp: ring_ok_def after_read_simps)
  have len: "length (ring b) = bb_len b" by (rule length_ring [OF assms(1)])
  show "ring (after_read b k) = drop k (ring b)"
  proof (rule nth_equalityI)
    show "length (ring (after_read b k)) = length (drop k (ring b))" by (simp add: length_ring [OF ok] len after_read_simps)
    fix i assume i: "i < length (ring (after_read b k))"
    then have i': "k + i < bb_len b" by (simp add: length_ring [OF ok] after_read_simps)
    have "(bb_offset (after_read b k) + i) mod bb_size b = (bb_offset b + (k + i)) mod bb_size b"
      using i' by (auto simp: after_read_simps add.assoc [symmetric])
    then show "ring (after_read b k) ! i = drop k (ring b) ! i"
      using i' buf assms(2) by (simp add: ring_def after_read_simps len)
  qed
  show "take k (drop (bb_offset b) (the (bb_buf b))) = take k (ring b)"
  proof (rule nth_equalityI)
    show "length (take k (drop (bb_offset b) (the (bb_buf b)))) = length (take k (ring b))"
      using assms(2,3) buf by (simp add: len)
    fix i assume "i < length (take k (drop (bb_offset b) (the (bb_buf b))))"
    then have i: "i < k" by simp
    then show "take k (drop (bb_offset b) (the (bb_buf b))) ! i = take k (ring b) ! i"
      using buf assms(2,3) by (simp add: ring_def)
  qed
qed

lemma read_loop_spec:
  assumes "ring_ok b" "0 < rest" "rest \<le> bb_len b" "bb_buf b = Some buf"
  shows "\<exists>b'. read_loop buf rest out b = Some (out @ take rest (ring b), b') \<and> ring_ok b' \<and> ring b' = drop rest (ring b) \<and>
    bb_size b' = bb_size b \<and> bb_len b' = bb_len b - rest \<and> peer b' = peer b \<and> closed b' = closed b \<and> request b' = request b"
proof -
  have sz: "bb_offset b < 2 ^ 63" "rest < 2 ^ 63" "bb_len b \<le> bb_size b" using assms by (auto simp: ring_ok_def)
  have add: "size_add (bb_offset b) rest = bb_offset b + rest" using sz by (intro sizes_add)
  show ?thesis
  proof (cases "bb_offset b + rest \<le> bb_size b")
    case True
    note r = ring_after_read [OF assms(1,3) True]
    have "read_loop buf rest out b = Some (out @ take rest (ring b), after_read b rest)"
      using True assms(3,4) r(3) by (subst read_loop.simps) (simp add: read_chunk_def add Let_def)
    then show ?thesis using r(1,2) by (simp add: after_read_simps)
  next
    case False
    define k where "k = bb_size b - bb_offset b"
    have k: "k < rest" "0 < k" "bb_offset b + k = bb_size b" using False assms(1) by (auto simp: k_def ring_ok_def)
    note r = ring_after_read [OF assms(1), of k]
    let ?b = "after_read b k"
    have ok: "ring_ok ?b" "ring ?b = drop k (ring b)" using r k assms(3) by simp_all
    have off: "bb_offset ?b = 0" using k by (simp add: after_read_simps)
    have le: "rest - k \<le> bb_len ?b" "rest - k \<le> bb_size ?b" using assms(3) sz(3) by (simp_all add: after_read_simps)
    note r2 = ring_after_read [OF ok(1) le(1)]
    have "read_loop buf rest out b = read_loop buf (rest - k) (out @ take k (ring b)) ?b"
      using False k assms(3,4) r(3) off
      by (subst read_loop.simps) (simp add: read_chunk_def add Let_def k_def [symmetric])
    also have "\<dots> = Some ((out @ take k (ring b)) @ take (rest - k) (ring ?b), after_read ?b (rest - k))"
      using r2(3) le off assms(4) sz(2) by (subst read_loop.simps) (simp add: read_chunk_def Let_def after_read_simps)
    also have "(out @ take k (ring b)) @ take (rest - k) (ring ?b) = out @ take rest (ring b)"
      using k(1) by (simp add: ok(2) take_drop) (metis append_take_drop_id drop_take le_add_diff_inverse less_imp_le_nat take_take min.absorb1)
    finally have "read_loop buf rest out b = Some (out @ take rest (ring b), after_read ?b (rest - k))" .
    moreover have "ring (after_read ?b (rest - k)) = drop rest (ring b)" using r2(1) le off k(1) by (simp add: ok(2))
    ultimately show ?thesis using r2(2) le off k(1) by (simp add: after_read_simps)
  qed
qed

subsection \<open>Writing\<close>

lemma write_offset_mod: "ring_ok b \<Longrightarrow> write_offset b = (bb_offset b + bb_len b) mod bb_size b"
  by (auto simp: write_offset_def ring_ok_def Let_def sizes_add wrap_mod)

lemma write_offset_buf [simp]: "write_offset (b\<lparr>bb_buf := x\<rparr>) = write_offset b"
  by (simp add: write_offset_def Let_def)

lemma ring_after_write:
  assumes "ring_ok b" "bb_buf b = Some buf" "length xs \<le> ring_room b" "write_offset b + length xs \<le> bb_size b"
  defines "b' \<equiv> b\<lparr>bb_len := bb_len b + length xs, bb_buf := Some (copy_at buf (write_offset b) xs)\<rparr>"
  assumes "xs \<noteq> []"
  shows "ring_ok b' \<and> ring b' = ring b @ xs"
proof
  have n: "bb_len b + length xs \<le> bb_size b" "length buf = bb_size b" "bb_offset b < bb_size b" "0 < bb_size b"
    using assms(1-3) by (auto simp: ring_room_def ring_ok_def)
  then show ok: "ring_ok b'"
    using assms(1,4,6) by (auto simp: b'_def ring_ok_def length_copy_at)
  show "ring b' = ring b @ xs"
  proof (rule nth_equalityI)
    show "length (ring b') = length (ring b @ xs)" by (simp add: length_ring [OF ok] length_ring [OF assms(1)]) (simp add: b'_def)
    fix i assume "i < length (ring b')"
    then have i: "i < bb_len b + length xs" by (simp add: length_ring [OF ok]) (simp add: b'_def)
    let ?w = "write_offset b" and ?p = "(bb_offset b + i) mod bb_size b"
    have p: "?p < length buf" using n by simp
    have at: "ring b' ! i = (if ?w \<le> ?p \<and> ?p < ?w + length xs then xs ! (?p - ?w) else buf ! ?p)"
      using i p n(2) assms(4) by (simp add: ring_def b'_def nth_copy_at)
    have w: "?w = (if bb_offset b + bb_len b < bb_size b then bb_offset b + bb_len b else bb_offset b + bb_len b - bb_size b)"
      using n by (simp add: write_offset_mod [OF assms(1)] wrap_mod)
    have pos: "?p = (if bb_offset b + i < bb_size b then bb_offset b + i else bb_offset b + i - bb_size b)"
      using n i by (intro wrap_mod) linarith
    show "ring b' ! i = (ring b @ xs) ! i"
    proof (cases "i < bb_len b")
      case True
      then have "\<not> (?w \<le> ?p \<and> ?p < ?w + length xs)" using n by (auto simp: w pos split: if_splits)
      then have "ring b' ! i = buf ! ?p" using at by auto
      also have "\<dots> = ring b ! i" using True assms(2) by (simp add: ring_def)
      finally show ?thesis using True by (simp add: nth_append length_ring [OF assms(1)])
    next
      case False
      define j where "j = i - bb_len b"
      have "?p = ?w + j" "j < length xs" using False i assms(4) n by (auto simp: w pos j_def split: if_splits)
      then have "ring b' ! i = xs ! j" using at by simp
      then show ?thesis using False by (simp add: nth_append length_ring [OF assms(1)] j_def)
    qed
  qed
qed

lemma write_loop_spec:
  assumes "ring_ok b" "0 < rest" "rest \<le> length src" "rest \<le> ring_room b" "bb_buf b = Some buf"
  shows "\<exists>b'. write_loop src rest b buf = Some b' \<and> ring_ok b' \<and> ring b' = ring b @ take rest src \<and>
    bb_size b' = bb_size b \<and> bb_len b' = bb_len b + rest \<and> peer b' = peer b \<and> closed b' = closed b \<and> request b' = request b"
proof -
  have n: "bb_len b + rest \<le> bb_size b" "bb_size b < 2 ^ 63" "length buf = bb_size b" "0 < bb_size b"
    using assms by (auto simp: ring_room_def ring_ok_def)
  have w: "write_offset b < bb_size b" using n(4) by (simp add: write_offset_mod [OF assms(1)])
  have add: "size_add (bb_len b) rest = bb_len b + rest" "size_add (write_offset b) rest = write_offset b + rest"
    using n w by (auto intro!: sizes_add)
  show ?thesis
  proof (cases "write_offset b + rest \<le> bb_size b")
    case True
    let ?b = "b\<lparr>bb_len := bb_len b + rest, bb_buf := Some (copy_at buf (write_offset b) (take rest src))\<rparr>"
    have "write_loop src rest b buf = Some ?b"
      using True n by (subst write_loop.simps) (simp add: write_chunk_def add Let_def)
    moreover have "ring_ok ?b \<and> ring ?b = ring b @ take rest src"
      using ring_after_write [OF assms(1,5), of "take rest src"] assms(2-4) True by (cases src) auto
    ultimately show ?thesis by simp
  next
    case False
    define k where "k = bb_size b - write_offset b"
    have k: "k < rest" "0 < k" "write_offset b + k = bb_size b" using False w by (auto simp: k_def)
    let ?b = "b\<lparr>bb_len := bb_len b + k\<rparr>" and ?buf = "copy_at buf (write_offset b) (take k src)"
    let ?b1 = "?b\<lparr>bb_buf := Some ?buf\<rparr>"
    have "b\<lparr>bb_len := bb_len b + length (take k src), bb_buf := Some ?buf\<rparr> = ?b1" using k(1) assms(3) by simp
    moreover have "take k src \<noteq> []" using k(1,2) assms(3) by auto
    ultimately have 1: "ring_ok ?b1" "ring ?b1 = ring b @ take k src"
      using ring_after_write [OF assms(1,5), of "take k src"] assms(3,4) k by auto
    have off1: "write_offset ?b1 = 0"
    proof -
      have "write_offset ?b1 = (bb_offset b + (bb_len b + k)) mod bb_size b" using write_offset_mod [OF 1(1)] by simp
      also have "\<dots> = (write_offset b + k) mod bb_size b"
        by (simp add: write_offset_mod [OF assms(1)] mod_add_left_eq add.assoc)
      finally show ?thesis using k(3) by simp
    qed
    then have off: "write_offset ?b = 0" by simp
    let ?b2 = "?b1\<lparr>bb_len := bb_len ?b1 + (rest - k), bb_buf := Some (copy_at ?buf 0 (take (rest - k) (drop k src)))\<rparr>"
    have add2: "size_add (bb_len ?b) (rest - k) = bb_len b + rest" "size_add 0 (rest - k) = rest - k"
      using n k by (auto simp: sizes_add)
    have "write_loop src rest b buf = write_loop (drop k src) (rest - k) ?b ?buf"
      using False k n by (subst write_loop.simps) (simp add: write_chunk_def add Let_def k_def [symmetric])
    also have "\<dots> = Some ?b2"
      using k n off add2 by (subst write_loop.simps) (simp add: write_chunk_def Let_def)
    finally have "write_loop src rest b buf = Some ?b2" .
    moreover have "ring_ok ?b2 \<and> ring ?b2 = ring ?b1 @ take (rest - k) (drop k src)"
      using ring_after_write [OF 1(1), of ?buf "take (rest - k) (drop k src)"] k n assms(3) off1 by (simp add: ring_room_def)
    moreover have "take k src @ take (rest - k) (drop k src) = take rest src"
      using k(1) by (metis less_imp_le_nat take_add le_add_diff_inverse)
    ultimately show ?thesis using k(1) 1(2) by simp
  qed
qed

interpretation ring_queue: bounded_queue ring_ok ring ring_room
  "\<lambda>xs b. write_loop xs (length xs) b (the (bb_buf b))" "\<lambda>n b. read_loop (the (bb_buf b)) n [] b"
proof unfold_locales
  fix b :: bio_bio_st and xs :: bytes
  assume "ring_ok b" "xs \<noteq> []" "length xs \<le> ring_room b"
  moreover obtain buf where "bb_buf b = Some buf" using \<open>ring_ok b\<close> by (auto simp: ring_ok_def)
  ultimately show "\<exists>b'. write_loop xs (length xs) b (the (bb_buf b)) = Some b' \<and> ring_ok b' \<and> ring b' = ring b @ xs \<and>
      ring_room b' = ring_room b - length xs"
    using write_loop_spec [of b "length xs" xs buf] by (auto simp: ring_room_def)
next
  fix b :: bio_bio_st and n
  assume b: "ring_ok b" "0 < n" "n \<le> length (ring b)"
  then obtain buf where "bb_buf b = Some buf" by (auto simp: ring_ok_def)
  then show "\<exists>b'. read_loop (the (bb_buf b)) n [] b = Some (take n (ring b), b') \<and> ring_ok b' \<and> ring b' = drop n (ring b) \<and>
      ring_room b' = ring_room b + n"
    using read_loop_spec [OF b(1,2), of buf "[]"] b length_ring [OF b(1)] by (auto simp: ring_room_def ring_ok_def)
qed

end
