(* ===== verification/BioPairSteps.thy ===== *)
theory BioPairSteps
  imports BioPairSpec
begin

text \<open>
  A connected pair under the calls of \<^verbatim>\<open>bio.c\<close>: no assertion fails, each direction is a bounded queue, and what is
  written arrives.
\<close>

section \<open>Connected halves\<close>

definition request_ok :: "bio_bio_st \<Rightarrow> bool" where
  "request_ok b \<longleftrightarrow> request b \<le> bb_size b \<and> (bb_len b \<noteq> 0 \<longrightarrow> request b = 0)"

definition holds_half :: "int \<Rightarrow> bio_heap \<Rightarrow> int \<Rightarrow> bio_bio_st \<Rightarrow> bool" where
  "holds_half m h p b \<longleftrightarrow> p \<noteq> 0 \<and> ring_ok b \<and> request_ok b \<and>
     (\<exists>bio. bios h p = Some bio \<and> bio_ptr bio = PairPtr b \<and> init bio \<noteq> 0 \<and> bio_method bio = m)"

definition paired :: "int \<Rightarrow> bio_heap \<Rightarrow> int \<Rightarrow> int \<Rightarrow> bio_bio_st \<Rightarrow> bio_bio_st \<Rightarrow> bool" where
  "paired m h p q b c \<longleftrightarrow> p \<noteq> q \<and> peer b = q \<and> peer c = p \<and> holds_half m h p b \<and> holds_half m h q c"

definition flagged :: "bio_heap \<Rightarrow> int \<Rightarrow> u32 \<Rightarrow> bool" where
  "flagged h p f \<longleftrightarrow> (case bios h p of None \<Rightarrow> False | Some bio \<Rightarrow> BIO_test_flags bio f = f)"

lemma paired_sym: "paired m h p q b c \<longleftrightarrow> paired m h q p c b"
  by (auto simp: paired_def)

lemma paired_half: "paired m h p q b c \<Longrightarrow> half h p = Some b" "paired m h p q b c \<Longrightarrow> half h q = Some c"
  by (auto simp: paired_def holds_half_def half_def)

lemma paired_bio:
  assumes "paired m h p q b c"
  obtains bio where "bios h p = Some bio" "bio_ptr bio = PairPtr b" "init bio \<noteq> 0" "bio_method bio = m"
  using assms by (auto simp: paired_def holds_half_def)

text \<open>Changing a half, and changing what a BIO keeps beside it.\<close>

lemma paired_set_half:
  assumes "paired m h p q b c" "ring_ok b'" "request_ok b'" "peer b' = peer b"
  shows "paired m (set_half p b' h) p q b' c"
  using assms by (auto simp: paired_def holds_half_def set_half_def)

lemma paired_set_bio:
  assumes "paired m h p q b c" "bios h p = Some bio" "bio_ptr bio' = bio_ptr bio" "init bio' = init bio" "bio_method bio' = bio_method bio"
  shows "paired m (set_bio p bio' h) p q b c"
  using assms by (auto simp: paired_def holds_half_def)

lemma paired_upd_bio:
  assumes "paired m h p q b c" "\<And>bio. bio_ptr (f bio) = bio_ptr bio \<and> init (f bio) = init bio \<and> bio_method (f bio) = bio_method bio"
  shows "\<exists>h'. upd_bio h p f = Some h' \<and> paired m h' p q b c"
proof -
  obtain bio where bio: "bios h p = Some bio" using paired_bio [OF assms(1)] by metis
  then show ?thesis using paired_set_bio [OF assms(1) bio, of "f bio"] assms(2) by simp
qed

lemma flags_simps [simp]:
  "bio_ptr (BIO_clear_retry_flags x) = bio_ptr x" "init (BIO_clear_retry_flags x) = init x"
  "bio_method (BIO_clear_retry_flags x) = bio_method x"
  "bio_ptr (BIO_set_retry_read x) = bio_ptr x" "init (BIO_set_retry_read x) = init x" "bio_method (BIO_set_retry_read x) = bio_method x"
  "bio_ptr (BIO_set_retry_write x) = bio_ptr x" "init (BIO_set_retry_write x) = init x" "bio_method (BIO_set_retry_write x) = bio_method x"
  by (simp_all add: BIO_clear_retry_flags_def BIO_set_retry_read_def BIO_set_retry_write_def)

lemma flag_laws:
  "BIO_test_flags (BIO_set_retry_read x) (BIO_FLAGS_READ OR BIO_FLAGS_SHOULD_RETRY) = BIO_FLAGS_READ OR BIO_FLAGS_SHOULD_RETRY"
  "BIO_test_flags (BIO_set_retry_write x) (BIO_FLAGS_WRITE OR BIO_FLAGS_SHOULD_RETRY) = BIO_FLAGS_WRITE OR BIO_FLAGS_SHOULD_RETRY"
  by (auto simp: BIO_test_flags_def BIO_set_retry_read_def BIO_set_retry_write_def bit_eq_iff bit_simps)

lemma flagged_set_half [simp]: "flagged (set_half q b h) p f = flagged h p f"
  by (auto simp: flagged_def set_half_def BIO_test_flags_def split: option.splits)

section \<open>The methods\<close>

lemma small_int: "0 \<le> i \<Longrightarrow> i < 2 ^ 31 \<Longrightarrow> size_of_int i = nat i"
  by (simp add: size_of_int_def)

lemma small_size: "n < 2 ^ 31 \<Longrightarrow> int_of_size n = int n"
  by (simp add: int_of_size_def signed_take_bit_int_eq_self_iff)

lemma bio_write_law:
  assumes pr: "paired m h p q b c" and num: "0 < num" "num < 2 ^ 31" "num \<le> int (length src)"
  shows "\<exists>ret h' b'. bio_write h p (Some src) num = Some (ret, h') \<and> paired m h' p q b' c \<and>
    closed b' = closed b \<and> bb_size b' = bb_size b \<and>
    (if closed b \<noteq> 0 then ret = -1 \<and> ring b' = ring b
     else if ring_room b = 0 then ret = -1 \<and> ring b' = ring b \<and> flagged h' p (BIO_FLAGS_WRITE OR BIO_FLAGS_SHOULD_RETRY)
     else 0 < ret \<and> ret = min num (int (ring_room b)) \<and> ring b' = ring b @ take (nat ret) src)"
proof -
  obtain bio where bio: "bios h p = Some bio" "bio_ptr bio = PairPtr b" "init bio \<noteq> 0" using paired_bio [OF pr] by metis
  define bio1 where "bio1 = BIO_clear_retry_flags bio"
  define h1 where "h1 = set_bio p bio1 h"
  have pr1: "paired m h1 p q b c" unfolding h1_def bio1_def by (rule paired_set_bio [OF pr bio(1)]) simp_all
  have bio1: "init bio1 \<noteq> 0" "bios h1 p = Some bio1" using bio(3) by (simp_all add: bio1_def h1_def)
  have n: "size_of_int num = nat num" "0 < nat num" using num small_int by auto
  have ok: "ring_ok b" "request_ok b" "peer b \<noteq> 0" using pr by (auto simp: paired_def holds_half_def)
  obtain buf where buf: "bb_buf b = Some buf" using ok by (auto simp: ring_ok_def)
  define b0 where "b0 = b\<lparr>request := 0\<rparr>"
  have b0: "ring_ok b0" "request_ok b0" "ring b0 = ring b" "peer b0 = peer b" "bb_buf b0 = Some buf" "ring_room b0 = ring_room b"
    "closed b0 = closed b" "bb_size b0 = bb_size b" "bb_len b0 \<le> bb_size b0" "bb_len b0 = bb_len b"
    using ok buf by (auto simp: b0_def ring_ok_def request_ok_def ring_def ring_room_def)
  define h2 where "h2 = set_half p b0 h1"
  have pr2: "paired m h2 p q b0 c" unfolding h2_def by (rule paired_set_half [OF pr1 b0(1,2,4)])
  have half1: "half h1 p = Some b" using paired_half(1) [OF pr1] .
  have run: "bio_write h p (Some src) num =
     (if closed b0 \<noteq> 0 then Some (-1, h2)
      else if bb_len b0 = bb_size b0 then Some (-1, set_half p b0 (set_bio p (BIO_set_retry_write bio1) h2))
      else (case write_loop src (min (nat num) (ring_room b0)) b0 buf of None \<Rightarrow> None
            | Some b' \<Rightarrow> Some (int_of_size (min (nat num) (ring_room b0)), set_half p b' h2)))"
  proof -
    have "(if nat num > bb_size b0 - bb_len b0 then bb_size b0 - bb_len b0 else nat num) = min (nat num) (ring_room b0)"
      by (simp add: ring_room_def min_def)
    then show ?thesis
      unfolding bio_write_def
      using bio(1) bio1(1) n half1 buf ok(3) b0(9)
      by (simp add: bio1_def [symmetric] h1_def [symmetric] b0_def [symmetric] h2_def [symmetric] Let_def) (auto simp: h2_def split: option.split)
  qed
  consider (closed) "closed b \<noteq> 0" | (full) "closed b = 0" "ring_room b = 0" | (room) "closed b = 0" "ring_room b \<noteq> 0" by blast
  then show ?thesis
  proof cases
    case closed
    then show ?thesis using run pr2 b0 by auto
  next
    case full
    let ?h = "set_half p b0 (set_bio p (BIO_set_retry_write bio1) h2)"
    have "bio_write h p (Some src) num = Some (-1, ?h)"
      using run full b0(6-10) by (simp add: ring_room_def)
    moreover have "bios h2 p = Some (bio1\<lparr>bio_ptr := PairPtr b0\<rparr>)" using bio1(2) by (simp add: h2_def set_half_def)
    then have "paired m ?h p q b0 c"
      using pr bio b0(1,2,4) by (auto simp: paired_def holds_half_def set_half_def h2_def h1_def bio1_def)
    moreover have "flagged ?h p (BIO_FLAGS_WRITE OR BIO_FLAGS_SHOULD_RETRY)"
      unfolding flagged_set_half by (simp add: flagged_def flag_laws)
    ultimately show ?thesis using full b0 by fastforce
  next
    case room
    let ?n = "min (nat num) (ring_room b0)"
    have "0 < ?n" "?n \<le> length src" "?n \<le> ring_room b0" "?n < 2 ^ 31" using room n num b0(6) by auto
    then obtain b' where b': "write_loop src ?n b0 buf = Some b'" "ring_ok b'" "ring b' = ring b0 @ take ?n src" "bb_size b' = bb_size b0"
      "bb_len b' = bb_len b0 + ?n" "peer b' = peer b0" "closed b' = closed b0" "request b' = request b0"
      using write_loop_spec [OF b0(1) _ _ _ b0(5)] by blast
    have "request_ok b'" using b'(8) by (simp add: request_ok_def b0_def)
    then have "paired m (set_half p b' h2) p q b' c" by (intro paired_set_half [OF pr2 b'(2) _ b'(6)])
    moreover have "bio_write h p (Some src) num = Some (int ?n, set_half p b' h2)"
      using run room b0(6,7,10) b'(1) small_size [OF \<open>?n < 2 ^ 31\<close>] by (simp add: ring_room_def b0(8))
    moreover have "int ?n = min num (int (ring_room b))" using num(1) b0(6) by linarith
    moreover have "nat (min num (int (ring_room b))) = ?n" using num(1) b0(6) by linarith
    ultimately show ?thesis using room b' b0 \<open>0 < ?n\<close> by (intro exI [of _ "int ?n"]) auto
  qed
qed

lemma bio_read_law:
  assumes pr: "paired m h p q b c" and k: "0 < k" "k < 2 ^ 31"
  shows "\<exists>ret out h' c'. bio_read h p True k = Some (ret, out, h') \<and> paired m h' p q b c' \<and>
    closed c' = closed c \<and> bb_size c' = bb_size c \<and>
    (if ring c = [] then out = [] \<and> ring c' = [] \<and>
       (if closed c \<noteq> 0 then ret = 0
        else ret = -1 \<and> flagged h' p (BIO_FLAGS_READ OR BIO_FLAGS_SHOULD_RETRY) \<and> request c' = min (nat k) (bb_size c))
     else ret = int (length out) \<and> out = take (nat k) (ring c) \<and> ring c' = drop (nat k) (ring c))"
proof -
  obtain bio where bio: "bios h p = Some bio" "bio_ptr bio = PairPtr b" "init bio \<noteq> 0" using paired_bio [OF pr] by metis
  define bio1 where "bio1 = BIO_clear_retry_flags bio"
  define h1 where "h1 = set_bio p bio1 h"
  have pr1: "paired m h1 p q b c" unfolding h1_def bio1_def by (rule paired_set_bio [OF pr bio(1)]) simp_all
  have bio1: "init bio1 \<noteq> 0" "bios h1 p = Some bio1" using bio(3) by (simp_all add: bio1_def h1_def)
  have n: "size_of_int k = nat k" "0 < nat k" using k small_int by auto
  have ok: "ring_ok c" "request_ok c" "peer b = q" "p \<noteq> q" using pr by (auto simp: paired_def holds_half_def)
  obtain buf where buf: "bb_buf c = Some buf" using ok by (auto simp: ring_ok_def)
  define c0 where "c0 = c\<lparr>request := 0\<rparr>"
  have c0: "ring_ok c0" "request_ok c0" "ring c0 = ring c" "peer c0 = peer c" "bb_buf c0 = Some buf"
    "closed c0 = closed c" "bb_size c0 = bb_size c" "bb_len c0 = length (ring c)"
    using ok buf length_ring [OF ok(1)] by (auto simp: c0_def ring_ok_def request_ok_def ring_def)
  define h2 where "h2 = set_half q c0 h1"
  have pr2: "paired m h2 p q b c0"
    unfolding h2_def using paired_set_half [of m h1 q p c b c0] pr1 c0 paired_sym by blast
  have halves: "half h1 p = Some b" "half h1 q = Some c" using paired_half [OF pr1] .
  define want where "want = min (nat k) (bb_size c0)"
  define got where "got = min (nat k) (bb_len c0)"
  have run: "bio_read h p True k =
     (if bb_len c0 = 0 then
        (if closed c0 \<noteq> 0 then Some (0, [], h2)
         else Some (-1, [], set_half q (c0\<lparr>request := want\<rparr>) (set_bio p (BIO_set_retry_read bio1) h2)))
      else (case read_loop buf got [] c0 of None \<Rightarrow> None
            | Some (out, c') \<Rightarrow> Some (int_of_size got, out, set_half q c' h2)))"
  proof -
    have "(if bb_len c0 < nat k then bb_len c0 else nat k) = got"
      "(if nat k \<le> bb_size c0 then nat k else bb_size c0) = want"
      by (simp_all add: got_def want_def min_def)
    then show ?thesis
      unfolding bio_read_def
      using bio(1) bio1(1) n halves buf ok(3)
      by (simp add: bio1_def [symmetric] h1_def [symmetric] c0_def [symmetric] h2_def [symmetric] Let_def) (auto simp: h2_def split: option.split)
  qed
  consider (eof) "ring c = []" "closed c \<noteq> 0" | (empty) "ring c = []" "closed c = 0" | (data) "ring c \<noteq> []" by blast
  then show ?thesis
  proof cases
    case eof
    then show ?thesis using run pr2 c0 by auto
  next
    case empty
    let ?h = "set_half q (c0\<lparr>request := want\<rparr>) (set_bio p (BIO_set_retry_read bio1) h2)"
    have "bio_read h p True k = Some (-1, [], ?h)" using run empty c0 by simp
    moreover have p2: "bios h2 p = Some bio1" using bio1(2) ok(4) by (auto simp: h2_def set_half_def split: option.splits)
    have "paired m (set_bio p (BIO_set_retry_read bio1) h2) p q b c0"
      by (rule paired_set_bio [OF pr2 p2]) simp_all
    then have "paired m ?h p q b (c0\<lparr>request := want\<rparr>)"
      using paired_set_half [of m "set_bio p (BIO_set_retry_read bio1) h2" q p c0 b "c0\<lparr>request := want\<rparr>"] c0 empty paired_sym
      by (auto simp: request_ok_def ring_ok_def want_def)
    moreover have "flagged ?h p (BIO_FLAGS_READ OR BIO_FLAGS_SHOULD_RETRY)"
      unfolding flagged_set_half by (simp add: flagged_def flag_laws)
    moreover have "ring (c0\<lparr>request := want\<rparr>) = ring c0" by (simp add: ring_def c0(5))
    ultimately show ?thesis using empty c0 by (intro exI [of _ "-1"] exI [of _ "[]"] exI [of _ ?h] exI [of _ "c0\<lparr>request := want\<rparr>"])
        (simp add: want_def)
  next
    case data
    have g: "0 < got" "got \<le> bb_len c0" "got < 2 ^ 31" "got \<le> length (ring c)"
      using data n k by (auto simp: got_def c0(8))
    obtain c' where c': "read_loop buf got [] c0 = Some (take got (ring c), c')" "ring_ok c'" "ring c' = drop got (ring c)"
      "bb_size c' = bb_size c0" "peer c' = peer c0" "closed c' = closed c0" "request c' = request c0"
      using read_loop_spec [OF c0(1) g(1,2) c0(5), of "[]"] c0(3) by auto
    have "request_ok c'" using c'(7) by (simp add: request_ok_def c0_def)
    then have "paired m (set_half q c' h2) p q b c'"
      using paired_set_half [of m h2 q p c0 b c'] pr2 c' paired_sym by blast
    moreover have "bio_read h p True k = Some (int got, take got (ring c), set_half q c' h2)"
      using run data c0(8) c'(1) small_size [OF g(3)] by simp
    moreover have "take got (ring c) = take (nat k) (ring c)" "drop got (ring c) = drop (nat k) (ring c)"
      by (auto simp: got_def c0(8) min_def)
    moreover have "got = length (take (nat k) (ring c))" by (simp add: got_def c0(8))
    ultimately show ?thesis
      using data c' c0 by (intro exI [of _ "int got"] exI [of _ "take (nat k) (ring c)"] exI [of _ "set_half q c' h2"] exI [of _ c']) simp
  qed
qed

section \<open>The calls of \<^verbatim>\<open>bio.c\<close>\<close>

definition pair_table :: "methods \<Rightarrow> int \<Rightarrow> bool" where
  "pair_table methods m \<longleftrightarrow> m \<noteq> 0 \<and> (\<exists>z. methods m = methods_biop z)"

lemma pair_table_simps:
  assumes "pair_table methods m"
  shows "m \<noteq> 0" "bwrite (methods m) = Some bio_write" "bread (methods m) = Some bio_read" "mctrl (methods m) = Some bio_ctrl"
  using assms by (auto simp: pair_table_def methods_biop_def)

lemma BIO_write_law:
  assumes "pair_table methods m" "paired m h p q b c" "src \<noteq> []" "length src < 2 ^ 31"
  shows "\<exists>ret h' b'. BIO_write methods h p src (int (length src)) = Some (ret, h') \<and> paired m h' p q b' c \<and>
    closed b' = closed b \<and> bb_size b' = bb_size b \<and>
    (if closed b \<noteq> 0 \<or> ring_room b = 0 then ret = -1 \<and> ring b' = ring b
     else ret = int (min (length src) (ring_room b)) \<and> ring b' = ring b @ take (nat ret) src)"
proof -
  have num: "0 < int (length src)" "int (length src) < 2 ^ 31" using assms(3,4) by auto
  obtain ret h1 b' where w: "bio_write h p (Some src) (int (length src)) = Some (ret, h1)" "paired m h1 p q b' c"
    "closed b' = closed b" "bb_size b' = bb_size b"
    "if closed b \<noteq> 0 then ret = -1 \<and> ring b' = ring b
     else if ring_room b = 0 then ret = -1 \<and> ring b' = ring b \<and> flagged h1 p (BIO_FLAGS_WRITE OR BIO_FLAGS_SHOULD_RETRY)
     else 0 < ret \<and> ret = min (int (length src)) (int (ring_room b)) \<and> ring b' = ring b @ take (nat ret) src"
    using bio_write_law [OF assms(2) num order_refl] by metis
  obtain bio where bio: "bios h p = Some bio" "init bio \<noteq> 0" "bio_method bio = m" using paired_bio [OF assms(2)] by metis
  have p: "p \<noteq> 0" using assms(2) by (simp add: paired_def holds_half_def)
  note t = pair_table_simps [OF assms(1)]
  obtain h2 where h2: "upd_bio h1 p (\<lambda>x. x\<lparr>num_write := num_write x + word_of_int ret\<rparr>) = Some h2" "paired m h2 p q b' c"
    using paired_upd_bio [OF w(2), of "\<lambda>x. x\<lparr>num_write := num_write x + word_of_int ret\<rparr>"] by auto
  have "BIO_write methods h p src (int (length src)) = (if ret > 0 then Some (ret, h2) else Some (ret, h1))"
    using bio t p num w(1) h2(1) by (simp add: BIO_write_def split: option.splits)
  then show ?thesis using w(2-) h2(2) by (cases "ret > 0") (auto split: if_splits)
qed

lemma BIO_read_law:
  assumes "pair_table methods m" "paired m h p q b c" "0 < k" "k < 2 ^ 31"
  shows "\<exists>ret out h' c'. BIO_read methods h p k = Some (ret, out, h') \<and> paired m h' p q b c' \<and>
    closed c' = closed c \<and> bb_size c' = bb_size c \<and> out = take (nat k) (ring c) \<and> ring c' = drop (nat k) (ring c) \<and>
    (if ring c = [] then ret = (if closed c \<noteq> 0 then 0 else -1) \<and> (closed c = 0 \<longrightarrow> request c' = min (nat k) (bb_size c) \<and>
       flagged h' p (BIO_FLAGS_READ OR BIO_FLAGS_SHOULD_RETRY))
     else ret = int (length out))"
proof -
  obtain ret out h1 c' where r: "bio_read h p True k = Some (ret, out, h1)" "paired m h1 p q b c'"
    "closed c' = closed c" "bb_size c' = bb_size c"
    "if ring c = [] then out = [] \<and> ring c' = [] \<and>
       (if closed c \<noteq> 0 then ret = 0
        else ret = -1 \<and> flagged h1 p (BIO_FLAGS_READ OR BIO_FLAGS_SHOULD_RETRY) \<and> request c' = min (nat k) (bb_size c))
     else ret = int (length out) \<and> out = take (nat k) (ring c) \<and> ring c' = drop (nat k) (ring c)"
    using bio_read_law [OF assms(2-4)] by auto
  obtain bio where bio: "bios h p = Some bio" "init bio \<noteq> 0" "bio_method bio = m" using paired_bio [OF assms(2)] by metis
  have p: "p \<noteq> 0" using assms(2) by (simp add: paired_def holds_half_def)
  note t = pair_table_simps [OF assms(1)]
  obtain h2 where h2: "upd_bio h1 p (\<lambda>x. x\<lparr>num_read := num_read x + word_of_int ret\<rparr>) = Some h2" "paired m h2 p q b c'"
    using paired_upd_bio [OF r(2), of "\<lambda>x. x\<lparr>num_read := num_read x + word_of_int ret\<rparr>"] by auto
  have "BIO_read methods h p k = (if ret > 0 then Some (ret, out, h2) else Some (ret, out, h1))"
    using bio t p assms(3) r(1) h2(1) by (simp add: BIO_read_def split: option.splits)
  then show ?thesis using r(2-) h2(2) assms(3) by (cases "ret > 0") (auto split: if_splits)
qed

lemma BIO_ctrl_pair:
  assumes "pair_table methods m" "paired m h p q b c"
  shows "BIO_ctrl methods h p cmd larg parg = bio_ctrl h p cmd larg parg"
proof -
  obtain bio where "bios h p = Some bio" "bio_method bio = m" using paired_bio [OF assms(2)] by metis
  then show ?thesis using assms pair_table_simps [OF assms(1)] by (simp add: BIO_ctrl_def paired_def holds_half_def)
qed

lemma ctrl_codes:
  "BIO_C_GET_WRITE_BUF_SIZE = 137" "BIO_C_GET_WRITE_GUARANTEE = 140" "BIO_C_GET_READ_REQUEST = 141" "BIO_C_SHUTDOWN_WR = 142"
  "BIO_C_RESET_READ_REQUEST = 147" "BIO_CTRL_RESET = 1" "BIO_CTRL_EOF = 2" "BIO_CTRL_INFO = 3" "BIO_CTRL_GET_CLOSE = 8"
  "BIO_CTRL_SET_CLOSE = 9" "BIO_CTRL_PENDING = 10" "BIO_CTRL_FLUSH = 11" "BIO_CTRL_WPENDING = 13"
  by (simp_all add: BIO_C_GET_WRITE_BUF_SIZE_def BIO_C_GET_WRITE_GUARANTEE_def BIO_C_GET_READ_REQUEST_def BIO_C_SHUTDOWN_WR_def
      BIO_C_RESET_READ_REQUEST_def BIO_CTRL_RESET_def BIO_CTRL_EOF_def BIO_CTRL_INFO_def BIO_CTRL_GET_CLOSE_def
      BIO_CTRL_SET_CLOSE_def BIO_CTRL_PENDING_def BIO_CTRL_FLUSH_def BIO_CTRL_WPENDING_def)

lemma shutdown_law:
  assumes "pair_table methods m" "paired m h p q b c"
  shows "\<exists>h' b'. BIO_shutdown_wr methods h p = Some (1, h') \<and> paired m h' p q b' c \<and> closed b' = 1 \<and> ring b' = ring b \<and> bb_size b' = bb_size b"
proof -
  let ?b = "b\<lparr>closed := 1\<rparr>"
  obtain bio where bio: "bios h p = Some bio" using paired_bio [OF assms(2)] by metis
  have "ring_ok ?b" "request_ok ?b" "ring ?b = ring b"
    using assms(2) by (auto simp: paired_def holds_half_def ring_ok_def request_ok_def ring_def split: option.splits)
  moreover from this have "paired m (set_half p ?b h) p q ?b c" by (intro paired_set_half [OF assms(2)]) simp_all
  moreover have "BIO_shutdown_wr methods h p = Some (1, set_half p ?b h)"
    using bio paired_half(1) [OF assms(2)] by (simp add: BIO_shutdown_wr_def BIO_ctrl_pair [OF assms] bio_ctrl_def ctrl_codes)
  ultimately show ?thesis by auto
qed

lemma long_small: "n < 2 ^ 63 \<Longrightarrow> long_of_size n = int n" "n < 2 ^ 63 \<Longrightarrow> size_of_int (int n) = n"
  by (simp_all add: long_of_size_def signed_take_bit_int_eq_self_iff size_of_int_def)

lemma query_laws:
  assumes "pair_table methods m" "paired m h p q b c"
  shows "BIO_ctrl_get_write_guarantee methods h p = Some (if closed b \<noteq> 0 then 0 else ring_room b, h)"
    "BIO_pending methods h p = Some (length (ring c), h)" "BIO_wpending methods h p = Some (length (ring b), h)"
    "BIO_ctrl_get_read_request methods h p = Some (request b, h)"
proof -
  have b: "ring_ok b" "ring_ok c" "peer b = q" "q \<noteq> 0" "request b \<le> bb_size b"
    using assms(2) by (auto simp: paired_def holds_half_def request_ok_def)
  then have sizes: "bb_size b < 2 ^ 63" "bb_len b \<le> bb_size b" "bb_len c < 2 ^ 63" "bb_buf b \<noteq> None" "request b < 2 ^ 63" "bb_len b < 2 ^ 63"
    by (auto simp: ring_ok_def)
  obtain bio where bio: "bios h p = Some bio" using paired_bio [OF assms(2)] by metis
  note halves = paired_half [OF assms(2)]
  have room: "ring_room b < 2 ^ 63" using sizes by (simp add: ring_room_def)
  have diff: "int (bb_size b) - int (bb_len b) = int (ring_room b)" using sizes by (simp add: ring_room_def)
  note ctrl = BIO_ctrl_pair [OF assms] bio_ctrl_def ctrl_codes
  show "BIO_ctrl_get_write_guarantee methods h p = Some (if closed b \<noteq> 0 then 0 else ring_room b, h)"
    using bio halves b by (simp add: BIO_ctrl_get_write_guarantee_def ctrl long_small [OF sizes(1)] diff long_small [OF room])
      (simp add: size_of_int_def)
  show "BIO_pending methods h p = Some (length (ring c), h)" "BIO_wpending methods h p = Some (length (ring b), h)"
    using bio halves b sizes(4) by (auto simp: BIO_pending_def BIO_wpending_def ctrl long_small [OF sizes(3)] long_small [OF sizes(6)] length_ring)
  show "BIO_ctrl_get_read_request methods h p = Some (request b, h)"
    using bio halves by (simp add: BIO_ctrl_get_read_request_def ctrl long_small [OF sizes(5)])
qed

end
