(* ===== verification/BioPairTrace.thy ===== *)
theory BioPairTrace
  imports BioPairSteps
begin

text \<open>
  Sequences of calls on a connected pair: what one end receives is what the other end sent, in order, and all of it
  arrives.
\<close>

section \<open>A new pair\<close>

text \<open>The addresses of new objects, and the blocks of the allocator.\<close>

definition fresh_ok :: "(bio_heap \<Rightarrow> int option) \<Rightarrow> bool" where
  "fresh_ok fresh \<longleftrightarrow> (\<forall>h p. fresh h = Some p \<longrightarrow> p \<noteq> 0 \<and> bios h p = None)"

definition blocks_of_size :: "(nat \<Rightarrow> bytes option) \<Rightarrow> bool" where
  "blocks_of_size malloc \<longleftrightarrow> (\<forall>n blk. malloc n = Some blk \<longrightarrow> length blk = n \<and> n < 2 ^ 63)"

lemma BIO_new_pair_half:
  assumes "pair_table methods m" "fresh_ok fresh" "BIO_new methods fresh h m = Some (p, h')" "p \<noteq> 0"
  shows "bios h p = None \<and> h' = set_bio p \<lparr>bio_method = m, init = 0, shutdown = 1, bio_flags = 0, retry_reason = 0, bio_num = 0,
      references = 1, bio_ptr = PairPtr \<lparr>peer = 0, closed = 0, bb_len = 0, bb_offset = 0, bb_size = 17 * 1024, bb_buf = None, request = 0\<rparr>,
      next_bio = 0, num_read = 0, num_write = 0\<rparr> h"
  using assms
  by (auto simp: BIO_new_def pair_table_def methods_biop_def bio_new_def fresh_ok_def set_bio_def Let_def split: option.splits bool.splits if_splits)

lemma new_pair_paired:
  assumes "pair_table methods m" "fresh_ok fresh" "blocks_of_size malloc"
    and "BIO_new_bio_pair methods m malloc fresh h0 w1 w2 = Some (Some (p, q), h)"
  shows "\<exists>b c. paired m h p q b c \<and> ring b = [] \<and> ring c = [] \<and> closed b = 0 \<and> closed c = 0 \<and>
    bb_size b = (if w1 = 0 then 17 * 1024 else w1) \<and> bb_size c = (if w2 = 0 then 17 * 1024 else w2)"
proof -
  obtain h1 h2 where n: "BIO_new methods fresh h0 m = Some (p, h1)" "BIO_new methods fresh h1 m = Some (q, h2)"
    "p \<noteq> 0" "q \<noteq> 0" "bio_make_pair malloc h2 p q w1 w2 = Some (True, h)"
    using assms(4) by (auto simp: BIO_new_bio_pair_def split: option.splits prod.splits bool.splits if_splits)
  note 1 = BIO_new_pair_half [OF assms(1,2) n(1,3)] and 2 = BIO_new_pair_half [OF assms(1,2) n(2,4)]
  have ne: "p \<noteq> q" using 1 2 by auto
  define b0 where "b0 = \<lparr>peer = 0, closed = 0, bb_len = 0, bb_offset = 0, bb_size = 17 * 1024, bb_buf = None :: bytes option, request = 0\<rparr>"
  have halves: "half h2 p = Some b0" "half h2 q = Some b0" using 1 2 ne by (simp_all add: half_def b0_def)
  obtain b c where bufs: "pair_buffer malloc b0 w1 = (b, True)" "pair_buffer malloc b0 w2 = (c, True)"
    using n(5) halves by (auto simp: bio_make_pair_def Let_def split: option.splits prod.splits bool.splits if_splits)
  have buf: "ring_ok x \<and> bb_len x = 0 \<and> bb_size x = (if w = 0 then 17 * 1024 else w)" if "pair_buffer malloc b0 w = (x, True)" for x w
    using that assms(3) by (auto simp: pair_buffer_def b0_def ring_ok_def blocks_of_size_def Let_def split: option.splits if_splits)
  let ?b = "b\<lparr>peer := q, closed := 0, request := 0\<rparr>" and ?c = "c\<lparr>peer := p, closed := 0, request := 0\<rparr>"
  have ok: "ring_ok ?b" "ring_ok ?c" using buf [OF bufs(1)] buf [OF bufs(2)] by (auto simp: ring_ok_def)
  obtain B C where BC: "bios h2 p = Some B" "bios h2 q = Some C" "bio_method B = m" "bio_method C = m"
    using 1 2 ne by auto
  have "h = set_bio q (C\<lparr>bio_ptr := PairPtr ?c, init := 1\<rparr>) (set_bio p (B\<lparr>bio_ptr := PairPtr ?b, init := 1\<rparr>)
      (set_half q ?c (set_half p ?b h2)))"
    using n(5) halves bufs BC ne
    by (auto simp: bio_make_pair_def b0_def set_half_def Let_def split: if_splits)
  then have "paired m h p q ?b ?c"
    using ne n(3,4) ok BC by (auto simp: paired_def holds_half_def request_ok_def)
  moreover have "ring ?b = []" "ring ?c = []" using buf [OF bufs(1)] buf [OF bufs(2)] length_ring [OF ok(1)] length_ring [OF ok(2)] by auto
  ultimately show ?thesis using buf [OF bufs(1)] buf [OF bufs(2)] by (intro exI [of _ ?b] exI [of _ ?c]) auto
qed

section \<open>Runs\<close>

datatype pair_call = Write int bytes | Read int int | ShutdownWr int | Pending int | Guarantee int

text \<open>What a call hands over: the bytes that the end accepts, or the bytes that it delivers.\<close>

datatype pair_event = Accepted int bytes | Delivered int bytes | Answer int nat

definition call :: "methods \<Rightarrow> bio_heap \<Rightarrow> pair_call \<Rightarrow> (pair_event \<times> bio_heap) option" where
  "call methods h c =
     (case c of
        Write p data \<Rightarrow>
          map_option (\<lambda>(ret, h). (Accepted p (take (nat ret) data), h)) (BIO_write methods h p data (int (length data)))
      | Read p k \<Rightarrow> map_option (\<lambda>(ret, out, h). (Delivered p (take (nat ret) out), h)) (BIO_read methods h p k)
      | ShutdownWr p \<Rightarrow> map_option (\<lambda>(ret, h). (Accepted p [], h)) (BIO_shutdown_wr methods h p)
      | Pending p \<Rightarrow> map_option (\<lambda>(n, h). (Answer p n, h)) (BIO_pending methods h p)
      | Guarantee p \<Rightarrow> map_option (\<lambda>(n, h). (Answer p n, h)) (BIO_ctrl_get_write_guarantee methods h p))"

fun run :: "methods \<Rightarrow> bio_heap \<Rightarrow> pair_call list \<Rightarrow> (pair_event list \<times> bio_heap) option" where
  "run methods h [] = Some ([], h)"
| "run methods h (c # cs) =
     (case call methods h c of
        None \<Rightarrow> None
      | Some (e, h) \<Rightarrow> map_option (\<lambda>(es, h). (e # es, h)) (run methods h cs))"

fun sent :: "int \<Rightarrow> pair_event list \<Rightarrow> bytes" where
  "sent p [] = []"
| "sent p (Accepted r bs # es) = (if r = p then bs else []) @ sent p es"
| "sent p (_ # es) = sent p es"

fun received :: "int \<Rightarrow> pair_event list \<Rightarrow> bytes" where
  "received p [] = []"
| "received p (Delivered r bs # es) = (if r = p then bs else []) @ received p es"
| "received p (_ # es) = received p es"

text \<open>The calls that the program may make: at one of the two ends, and with a length that \<open>int\<close> holds.\<close>

fun call_ok :: "int \<Rightarrow> int \<Rightarrow> pair_call \<Rightarrow> bool" where
  "call_ok p q (Write r data) = ((r = p \<or> r = q) \<and> length data < 2 ^ 31)"
| "call_ok p q (Read r k) = ((r = p \<or> r = q) \<and> k < 2 ^ 31)"
| "call_ok p q (ShutdownWr r) = (r = p \<or> r = q)"
| "call_ok p q (Pending r) = (r = p \<or> r = q)"
| "call_ok p q (Guarantee r) = (r = p \<or> r = q)"

lemma trivial_length:
  assumes "pair_table methods m" "paired m h p q b c"
  shows "BIO_write methods h p [] 0 = Some (0, h)" "k \<le> 0 \<Longrightarrow> BIO_read methods h p k = Some (0, [], h)"
proof -
  obtain bio where "bios h p = Some bio" "init bio \<noteq> 0" "bio_method bio = m" using paired_bio [OF assms(2)] by metis
  then show "BIO_write methods h p [] 0 = Some (0, h)" "k \<le> 0 \<Longrightarrow> BIO_read methods h p k = Some (0, [], h)"
    using pair_table_simps [OF assms(1)] assms(2) by (simp_all add: BIO_write_def BIO_read_def paired_def holds_half_def)
qed

text \<open>One call at the end \<open>p\<close>: the queue to the other end grows by what is sent, the queue from it shrinks by what is received.\<close>

lemma call_law:
  assumes "pair_table methods m" "paired m h p q b c" "call_ok p q cl" "cl \<in> {Write p d, Read p k, ShutdownWr p, Pending p, Guarantee p}"
  shows "\<exists>e h' b' c'. call methods h cl = Some (e, h') \<and> paired m h' p q b' c' \<and> bb_size b' = bb_size b \<and> bb_size c' = bb_size c \<and>
    ring b' = ring b @ sent p [e] \<and> ring c = received p [e] @ ring c' \<and> sent q [e] = [] \<and> received q [e] = []"
proof -
  have ne: "p \<noteq> q" using assms(2) by (simp add: paired_def)
  consider "cl = Write p d" "d \<noteq> []" | "cl = Write p d" "d = []" | "cl = Read p k" "0 < k" | "cl = Read p k" "k \<le> 0"
    | "cl = ShutdownWr p" | "cl = Pending p" | "cl = Guarantee p" using assms(4) by force
  then show ?thesis
  proof cases
    case 1
    then obtain ret h' b' where "BIO_write methods h p d (int (length d)) = Some (ret, h')" "paired m h' p q b' c" "bb_size b' = bb_size b"
      "if closed b \<noteq> 0 \<or> ring_room b = 0 then ret = -1 \<and> ring b' = ring b
       else ret = int (min (length d) (ring_room b)) \<and> ring b' = ring b @ take (nat ret) d"
      using BIO_write_law [OF assms(1,2), of d] assms(3) by auto
    then show ?thesis
      using 1 ne by (intro exI [of _ "Accepted p (take (nat ret) d)"] exI [of _ h'] exI [of _ b'] exI [of _ c])
        (simp add: call_def split: if_splits)
  next
    case 2
    then show ?thesis using trivial_length [OF assms(1,2)] assms(2) ne by (auto simp: call_def)
  next
    case 3
    then obtain ret out h' c' where r: "BIO_read methods h p k = Some (ret, out, h')" "paired m h' p q b c'" "bb_size c' = bb_size c"
      "out = take (nat k) (ring c)" "ring c' = drop (nat k) (ring c)" "ring c \<noteq> [] \<Longrightarrow> ret = int (length out)"
      using BIO_read_law [OF assms(1,2), of k] assms(3) by fastforce
    then have "take (nat ret) out = take (nat k) (ring c)" by (cases "ring c = []") (auto simp: min_def)
    then show ?thesis using 3 ne r by (intro exI [of _ "Delivered p (take (nat ret) out)"] exI [of _ h'] exI [of _ b] exI [of _ c']) (simp add: call_def)
  next
    case 4
    then show ?thesis using trivial_length [OF assms(1,2)] assms(2) ne by (auto simp: call_def)
  next
    case 5
    then show ?thesis using shutdown_law [OF assms(1,2)] ne by (fastforce simp: call_def)
  next
    case 6
    then show ?thesis using query_laws [OF assms(1,2)] assms(2) ne by (auto simp: call_def)
  next
    case 7
    then show ?thesis using query_laws [OF assms(1,2)] assms(2) ne by (auto simp: call_def)
  qed
qed

lemma events_append: "sent p (e # es) = sent p [e] @ sent p es" "received p (e # es) = received p [e] @ received p es"
  by (cases e; simp)+

lemma run_law:
  assumes "pair_table methods m" "paired m h p q b c" "\<forall>cl\<in>set cs. call_ok p q cl"
  shows "\<exists>es h' b' c'. run methods h cs = Some (es, h') \<and> paired m h' p q b' c' \<and> bb_size b' = bb_size b \<and> bb_size c' = bb_size c \<and>
    ring b @ sent p es = received q es @ ring b' \<and> ring c @ sent q es = received p es @ ring c'"
  using assms(2,3)
proof (induction cs arbitrary: h b c)
  case (Cons cl cs)
  obtain d k where "cl \<in> {Write p d, Read p k, ShutdownWr p, Pending p, Guarantee p} \<or>
      cl \<in> {Write q d, Read q k, ShutdownWr q, Pending q, Guarantee q}"
    using Cons.prems(2) by (cases cl) auto
  then obtain e h1 b1 c1 where 1: "call methods h cl = Some (e, h1)" "paired m h1 p q b1 c1" "bb_size b1 = bb_size b" "bb_size c1 = bb_size c"
    "ring b @ sent p [e] = received q [e] @ ring b1" "ring c @ sent q [e] = received p [e] @ ring c1"
  proof
    assume "cl \<in> {Write p d, Read p k, ShutdownWr p, Pending p, Guarantee p}"
    then show ?thesis using call_law [OF assms(1) Cons.prems(1), of cl d k] Cons.prems(2) that by fastforce
  next
    assume at: "cl \<in> {Write q d, Read q k, ShutdownWr q, Pending q, Guarantee q}"
    have "paired m h q p c b" "call_ok q p cl" using Cons.prems by (auto simp: paired_sym [of m h q] elim!: call_ok.elims)
    from call_law [OF assms(1) this at] obtain e h1 c1 b1 where "call methods h cl = Some (e, h1)" "paired m h1 q p c1 b1"
      "bb_size c1 = bb_size c" "bb_size b1 = bb_size b" "ring c1 = ring c @ sent q [e]" "ring b = received q [e] @ ring b1"
      "sent p [e] = []" "received p [e] = []" by blast
    then show ?thesis using that [of e h1 b1 c1] paired_sym by auto
  qed
  have "\<forall>cl\<in>set cs. call_ok p q cl" using Cons.prems(2) by simp
  from Cons.IH [OF 1(2) this] obtain es h2 b2 c2 where 2: "run methods h1 cs = Some (es, h2)" "paired m h2 p q b2 c2"
    "bb_size b2 = bb_size b1" "bb_size c2 = bb_size c1"
    "ring b1 @ sent p es = received q es @ ring b2" "ring c1 @ sent q es = received p es @ ring c2" by blast
  have "ring b @ sent p (e # es) = received q (e # es) @ ring b2" "ring c @ sent q (e # es) = received p (e # es) @ ring c2"
    using 1(5,6) 2(5,6) by (metis append_assoc events_append)+
  then show ?case using 1 2 by auto
qed auto

section \<open>Properties\<close>

text \<open>
  C14: on a new pair no sequence of calls fails an assertion or leaves the buffers, and in each direction the bytes
  that were accepted are the bytes that were delivered followed by what the ring buffer holds, never more than its
  size: two bounded queues.
\<close>

theorem bio_pair_is_two_queues:
  assumes "pair_table methods m" "fresh_ok fresh" "blocks_of_size malloc"
    and "BIO_new_bio_pair methods m malloc fresh h0 w1 w2 = Some (Some (p, q), h)" "\<forall>cl\<in>set cs. call_ok p q cl"
  shows "\<exists>es h' b c. run methods h cs = Some (es, h') \<and> half h' p = Some b \<and> half h' q = Some c \<and>
    sent p es = received q es @ ring b \<and> length (ring b) \<le> (if w1 = 0 then 17 * 1024 else w1) \<and>
    sent q es = received p es @ ring c \<and> length (ring c) \<le> (if w2 = 0 then 17 * 1024 else w2)"
proof -
  obtain b c where new: "paired m h p q b c" "ring b = []" "ring c = []"
    "bb_size b = (if w1 = 0 then 17 * 1024 else w1)" "bb_size c = (if w2 = 0 then 17 * 1024 else w2)"
    using new_pair_paired [OF assms(1-4)] by blast
  obtain es h' b' c' where run: "run methods h cs = Some (es, h')" "paired m h' p q b' c'" "bb_size b' = bb_size b" "bb_size c' = bb_size c"
    "sent p es = received q es @ ring b'" "sent q es = received p es @ ring c'"
    using run_law [OF assms(1) new(1) assms(5)] new(2,3) by auto
  have "length (ring b') \<le> bb_size b'" "length (ring c') \<le> bb_size c'"
    using run(2) length_ring by (auto simp: paired_def holds_half_def ring_ok_def)
  then show ?thesis using run paired_half [OF run(2)] new(4,5) by auto
qed

text \<open>The pair of the examples: four bytes of buffer each way, at the addresses 1 and 2.\<close>

definition only_pairs :: methods where "only_pairs m = methods_biop True"
definition two_addresses :: "bio_heap \<Rightarrow> int option" where
  "two_addresses h = (if bios h 1 = None then Some 1 else if bios h 2 = None then Some 2 else None)"
definition zero_blocks :: "nat \<Rightarrow> bytes option" where
  "zero_blocks n = (if n < 2 ^ 63 then Some (replicate n 0) else None)"
definition no_bios :: bio_heap where "no_bios = \<lparr>bios = Map.empty, bufs = Map.empty\<rparr>"

lemma example_parts: "pair_table only_pairs 7" "fresh_ok two_addresses" "blocks_of_size zero_blocks"
  by (auto simp: pair_table_def only_pairs_def fresh_ok_def two_addresses_def blocks_of_size_def zero_blocks_def split: if_splits)

lemma example_new: "\<exists>h. BIO_new_bio_pair only_pairs 7 zero_blocks two_addresses no_bios 4 4 = Some (Some (1, 2), h)"
  by (simp add: BIO_new_bio_pair_def BIO_new_def two_addresses_def only_pairs_def methods_biop_def bio_new_def bio_make_pair_def
      half_def set_half_def pair_buffer_def zero_blocks_def no_bios_def set_bio_def Let_def)

lemma bio_pair_is_two_queues_witness:
  "\<exists>h es h' b. BIO_new_bio_pair only_pairs 7 zero_blocks two_addresses no_bios 4 4 = Some (Some (1, 2), h) \<and>
    run only_pairs h [Write 1 [5, 6, 7], Read 2 2, ShutdownWr 1] = Some (es, h') \<and> half h' 1 = Some b \<and>
    sent 1 es = received 2 es @ ring b \<and> length (ring b) \<le> 4"
proof -
  obtain h where new: "BIO_new_bio_pair only_pairs 7 zero_blocks two_addresses no_bios 4 4 = Some (Some (1, 2), h)"
    using example_new by blast
  have "\<forall>cl\<in>set [Write 1 [5, 6, 7], Read 2 2, ShutdownWr 1]. call_ok 1 2 cl" by simp
  from bio_pair_is_two_queues [OF example_parts new this] show ?thesis using new by auto
qed

text \<open>
  A client that sends \<open>data\<close> from \<open>p\<close> to \<open>q\<close>: in each round it writes what is left and reads at most \<open>k\<close> bytes at the
  other end.
\<close>

fun pump :: "methods \<Rightarrow> nat \<Rightarrow> bio_heap \<Rightarrow> int \<Rightarrow> int \<Rightarrow> int \<Rightarrow> bytes \<Rightarrow> (bytes \<times> bytes \<times> bio_heap) option" where
  "pump methods 0 h p q k data = Some ([], data, h)"
| "pump methods (Suc n) h p q k data =
     (case BIO_write methods h p data (int (length data)) of
        None \<Rightarrow> None
      | Some (w, h) \<Rightarrow>
          (case BIO_read methods h q k of
             None \<Rightarrow> None
           | Some (r, out, h) \<Rightarrow>
               map_option (\<lambda>(rest, data, h). (out @ rest, data, h)) (pump methods n h p q k (drop (nat w) data))))"

lemma pump_law:
  assumes "pair_table methods m" "paired m h p q b c" "closed b = 0" "length data < 2 ^ 31" "0 < k" "k < 2 ^ 31"
    and "length (ring b) + length data \<le> n"
  shows "\<exists>h' b'. pump methods n h p q k data = Some (ring b @ data, [], h') \<and> paired m h' p q b' c \<and> ring b' = [] \<and> closed b' = 0"
  using assms(2-4,7)
proof (induction n arbitrary: h b data)
  case (Suc n)
  obtain w h1 b1 where w: "BIO_write methods h p data (int (length data)) = Some (w, h1)" "paired m h1 p q b1 c" "closed b1 = 0"
    "ring b1 = ring b @ take (nat w) data" "data \<noteq> [] \<Longrightarrow> ring b1 \<noteq> []"
  proof (cases "data = []")
    case True
    then show ?thesis using that [of 0 h b] trivial_length [OF assms(1) Suc.prems(1)] Suc.prems by simp
  next
    case False
    then obtain ret h1 b1 where 1: "BIO_write methods h p data (int (length data)) = Some (ret, h1)" "paired m h1 p q b1 c" "closed b1 = closed b"
      "if closed b \<noteq> 0 \<or> ring_room b = 0 then ret = -1 \<and> ring b1 = ring b
       else ret = int (min (length data) (ring_room b)) \<and> ring b1 = ring b @ take (nat ret) data"
      using BIO_write_law [OF assms(1) Suc.prems(1) False Suc.prems(3)] by blast
    have "ring_ok b" using Suc.prems(1) by (simp add: paired_def holds_half_def)
    then have full: "ring b \<noteq> []" if "ring_room b = 0" using that length_ring [of b] by (auto simp: ring_room_def ring_ok_def)
    show ?thesis
    proof (cases "ring_room b = 0")
      case True
      then show ?thesis using that [of ret h1 b1] 1 Suc.prems(2) full by simp
    next
      case room: False
      then have "take (nat ret) data \<noteq> []" using 1(4) Suc.prems(2) False by auto
      then show ?thesis using that [of ret h1 b1] 1 Suc.prems(2) room by simp
    qed
  qed
  let ?data = "drop (nat w) data"
  have all: "ring b1 @ ?data = ring b @ data" using w(4) by simp
  have "paired m h1 q p c b1" using w(2) paired_sym by blast
  from BIO_read_law [OF assms(1) this assms(5,6)] obtain r out h2 b2 where r: "BIO_read methods h1 q k = Some (r, out, h2)"
    "paired m h2 q p c b2" "closed b2 = closed b1" "out = take (nat k) (ring b1)" "ring b2 = drop (nat k) (ring b1)" by blast
  have "length (ring b2) + length ?data \<le> n"
  proof (cases "ring b1 = []")
    case True
    then show ?thesis using w(5) r(5) by (cases "data = []") auto
  next
    case False
    have "length (ring b1) + length ?data \<le> Suc n" using Suc.prems(4) arg_cong [OF all, of length] by simp
    moreover have "length (ring b2) < length (ring b1)" using False r(5) assms(5) by (cases "ring b1") auto
    ultimately show ?thesis by linarith
  qed
  moreover have "paired m h2 p q b2 c" "closed b2 = 0" "length ?data < 2 ^ 31" using r(2,3) w(3) Suc.prems(3) paired_sym by auto
  ultimately obtain h' b' where "pump methods n h2 p q k ?data = Some (ring b2 @ ?data, [], h')" "paired m h' p q b' c" "ring b' = []"
    "closed b' = 0" using Suc.IH by blast
  moreover have "out @ ring b2 @ ?data = ring b @ data" using all r(4,5) by (metis append_assoc append_take_drop_id)
  ultimately show ?case using w(1) r(1) by auto
qed auto

text \<open>
  C15: everything that is written arrives. While the writer is open, a client that keeps writing what the pair has not
  accepted and keeps reading gets all that was pending and all of its data, in order, after at most as many rounds as
  there are bytes; once the writer shuts down, the next read reports the end of the data.
\<close>

theorem bio_pair_delivers:
  assumes "pair_table methods m" "paired m h p q b c" "closed b = 0" "length data < 2 ^ 31" "0 < k" "k < 2 ^ 31"
  shows "\<exists>h' h'' h3. pump methods (length (ring b) + length data) h p q k data = Some (ring b @ data, [], h') \<and>
    BIO_pending methods h' q = Some (0, h') \<and> BIO_shutdown_wr methods h' p = Some (1, h'') \<and>
    BIO_read methods h'' q k = Some (0, [], h3)"
proof -
  obtain h' b' where pump: "pump methods (length (ring b) + length data) h p q k data = Some (ring b @ data, [], h')"
    "paired m h' p q b' c" "ring b' = []" using pump_law [OF assms order_refl] by blast
  obtain h'' b'' where shut: "BIO_shutdown_wr methods h' p = Some (1, h'')" "paired m h'' p q b'' c" "closed b'' = 1" "ring b'' = []"
    using shutdown_law [OF assms(1) pump(2)] pump(3) by auto
  have "paired m h' q p c b'" "paired m h'' q p c b''" using pump(2) shut(2) paired_sym by auto
  moreover from this obtain h3 where "BIO_read methods h'' q k = Some (0, [], h3)"
    using BIO_read_law [OF assms(1) _ assms(5,6)] shut(3,4) by fastforce
  ultimately show ?thesis using pump(1,3) shut(1) query_laws(2) [OF assms(1)] by fastforce
qed

lemma bio_pair_delivers_witness:
  "\<exists>h h'. BIO_new_bio_pair only_pairs 7 zero_blocks two_addresses no_bios 4 4 = Some (Some (1, 2), h) \<and>
    pump only_pairs 6 h 1 2 2 [1, 2, 3, 4, 5, 6] = Some ([1, 2, 3, 4, 5, 6], [], h')"
proof -
  obtain h where new: "BIO_new_bio_pair only_pairs 7 zero_blocks two_addresses no_bios 4 4 = Some (Some (1, 2), h)"
    using example_new by blast
  then obtain b c where pr: "paired 7 h 1 2 b c" "ring b = []" "closed b = 0" using new_pair_paired [OF example_parts] by metis
  let ?d = "[1, 2, 3, 4, 5, 6] :: bytes"
  obtain h' where "pump only_pairs (length (ring b) + length ?d) h 1 2 2 ?d = Some (ring b @ ?d, [], h')"
    using bio_pair_delivers [OF example_parts(1) pr(1,3), of ?d 2] by auto
  moreover have "length (ring b) + length ?d = 6" using pr(2) by simp
  ultimately show ?thesis using new pr(2) by (metis append_Nil)
qed

text \<open>
  C16: the control calls of an end that is open for writing tell the truth, whatever is in its ring: the guarantee and the bytes
  pending at the other end add up to the size of the ring; a write accepts exactly what the guarantee announces, or all it is
  given if that is less, and fails when it announces nothing; the pending bytes, old and new, can be read at once and in order;
  and after a read that found nothing the writer sees how many bytes were asked for.
\<close>

theorem bio_pair_guarantees:
  assumes "pair_table methods m" "paired m h p q b c" "closed b = 0" "bb_size b < 2 ^ 31"
    and "data \<noteq> []" "length data < 2 ^ 31" "0 < k" "k < 2 ^ 31"
  shows "\<exists>g n w h1 h2 h3.
    BIO_ctrl_get_write_guarantee methods h p = Some (g, h) \<and> BIO_pending methods h q = Some (n, h) \<and> g + n = bb_size b \<and>
    w = min (length data) g \<and>
    BIO_write methods h p data (int (length data)) = Some (if g = 0 then -1 else int w, h1) \<and>
    BIO_ctrl_get_write_guarantee methods h1 p = Some (g - w, h1) \<and> BIO_pending methods h1 q = Some (n + w, h1) \<and>
    BIO_read methods h1 q (int (n + w)) = Some (int (n + w), ring b @ take w data, h2) \<and> n = length (ring b) \<and>
    BIO_read methods h2 q k = Some (-1, [], h3) \<and> BIO_ctrl_get_read_request methods h3 p = Some (min (nat k) (bb_size b), h3)"
proof -
  let ?g = "ring_room b" and ?n = "length (ring b)" and ?w = "min (length data) (ring_room b)"
  have ring: "length (ring x) + ring_room x = bb_size x \<and> 0 < bb_size x" if "paired m h' p q x y" for h' x y
    using that length_ring [of x] by (auto simp: paired_def holds_half_def ring_room_def ring_ok_def)
  have s0: "paired m h q p c b" using assms(2) paired_sym by blast
  note q0 = query_laws [OF assms(1,2)] query_laws [OF assms(1) s0]
  obtain h1 b1 where 1: "BIO_write methods h p data (int (length data)) = Some (if ?g = 0 then -1 else int ?w, h1)"
    "paired m h1 p q b1 c" "ring b1 = ring b @ take ?w data" "closed b1 = 0" "bb_size b1 = bb_size b"
    using BIO_write_law [OF assms(1,2,5,6)] assms(3) by (cases "?g = 0") auto
  have s1: "paired m h1 q p c b1" using 1(2) paired_sym by blast
  have len: "length (ring b1) = ?n + ?w" by (simp add: 1(3))
  then have room: "ring_room b1 = ?g - ?w" using ring [OF 1(2)] ring [OF assms(2)] 1(5) by linarith
  have pos: "0 < ?n + ?w" "?n + ?w < 2 ^ 31" using ring [OF assms(2)] assms(4,5) by (cases data; auto)+
  then have "length (ring b1) \<noteq> 0" using len by linarith
  then have "ring b1 \<noteq> []" by simp
  then obtain h2 b2 where 2: "BIO_read methods h1 q (int (?n + ?w)) = Some (int (?n + ?w), ring b1, h2)" "paired m h2 q p c b2"
    "ring b2 = []" "closed b2 = 0" "bb_size b2 = bb_size b"
    using BIO_read_law [OF assms(1) s1, of "int (?n + ?w)"] 1 pos len by (auto simp del: of_nat_add)
  obtain h3 b3 where 3: "BIO_read methods h2 q k = Some (-1, [], h3)" "paired m h3 q p c b3" "request b3 = min (nat k) (bb_size b)"
    using BIO_read_law [OF assms(1) 2(2) assms(7,8)] 2 by fastforce
  have "paired m h3 p q b3 c" using 3(2) paired_sym by blast
  then have "BIO_ctrl_get_read_request methods h3 p = Some (min (nat k) (bb_size b), h3)"
    using query_laws(4) [OF assms(1)] 3(3) by simp
  moreover have "BIO_ctrl_get_write_guarantee methods h p = Some (?g, h)" "BIO_pending methods h q = Some (?n, h)" "?g + ?n = bb_size b"
    using q0 assms(3) ring [OF assms(2)] by simp_all
  moreover have "BIO_ctrl_get_write_guarantee methods h1 p = Some (?g - ?w, h1)" "BIO_pending methods h1 q = Some (?n + ?w, h1)"
    using query_laws(1) [OF assms(1) 1(2)] query_laws(2) [OF assms(1) s1] 1(4) len room by simp_all
  ultimately show ?thesis using 1(1) 2(1) 3(1) unfolding 1(3) by blast
qed

lemma bio_pair_guarantees_witness:
  "\<exists>h h1 h2 h3. BIO_new_bio_pair only_pairs 7 zero_blocks two_addresses no_bios 4 4 = Some (Some (1, 2), h) \<and>
    BIO_write only_pairs h 1 [5, 6, 7] 3 = Some (3, h1) \<and> BIO_ctrl_get_write_guarantee only_pairs h1 1 = Some (1, h1) \<and>
    BIO_write only_pairs h1 1 [8, 9] 2 = Some (1, h2) \<and> BIO_read only_pairs h2 2 4 = Some (4, [5, 6, 7, 8], h3)"
proof -
  obtain h where new: "BIO_new_bio_pair only_pairs 7 zero_blocks two_addresses no_bios 4 4 = Some (Some (1, 2), h)"
    using example_new by blast
  then obtain b c where pr: "paired 7 h 1 2 b c" "ring b = []" "closed b = 0" "bb_size b = 4"
    using new_pair_paired [OF example_parts] by (metis zero_neq_numeral)
  have "ring_ok b" using pr(1) by (simp add: paired_def holds_half_def)
  then have "ring_room b = 4" using length_ring [of b] pr(2,4) by (simp add: ring_room_def)
  then obtain h1 b1 where 1: "BIO_write only_pairs h 1 [5, 6, 7] 3 = Some (3, h1)" "paired 7 h1 1 2 b1 c" "ring b1 = [5, 6, 7]"
    "closed b1 = 0" "bb_size b1 = 4"
    using BIO_write_law [OF example_parts(1) pr(1), of "[5, 6, 7]"] pr by auto
  have size: "bb_size b1 < 2 ^ 31" "[8, 9 :: u8] \<noteq> []" "length [8, 9 :: u8] < 2 ^ 31" "(0 :: int) < 3" "(3 :: int) < 2 ^ 31"
    using 1(5) by simp_all
  obtain g n w h2 h3 where "BIO_ctrl_get_write_guarantee only_pairs h1 1 = Some (g, h1)" "g + n = bb_size b1" "n = length (ring b1)"
    "w = min (length [8, 9 :: u8]) g" "BIO_write only_pairs h1 1 [8, 9] (int (length [8, 9 :: u8])) = Some (if g = 0 then -1 else int w, h2)"
    "BIO_read only_pairs h2 2 (int (n + w)) = Some (int (n + w), ring b1 @ take w [8, 9], h3)"
    using bio_pair_guarantees [OF example_parts(1) 1(2,4) size] by blast
  moreover from this have "n = 3" "g = 1" "w = 1" using 1(3,5) by simp_all
  ultimately show ?thesis using new 1(1,3) by auto
qed

end
