(* ===== verification/BioMem.thy ===== *)
theory BioMem
  imports BioPair Asn1String
begin

text \<open>
  \<^verbatim>\<open>crypto/buf/buf.c\<close>: growing buffers, and \<^verbatim>\<open>crypto/bio/bio_mem.c\<close>: BIOs that write to one and read from it.

  What a control call stores through its pointer argument, the address of a buffer or of its data, is not kept: the
  buffer is an object on the heap. The allocator is the parameter \<open>malloc\<close>, the addresses of new buffers are
  \<open>fresh_buf\<close>.
\<close>

section \<open>Buffers\<close>

definition BUF_MEM_new :: "(bio_heap \<Rightarrow> int option) \<Rightarrow> bio_heap \<Rightarrow> int \<times> bio_heap" where
  "BUF_MEM_new fresh_buf h =
     (case fresh_buf h of
        None \<Rightarrow> (0, h)
      | Some p \<Rightarrow> (p, h\<lparr>bufs := (bufs h)(p \<mapsto> \<lparr>bm_length = 0, bm_data = None, bm_pos = 0, bm_max = 0\<rparr>)\<rparr>))"

definition BUF_MEM_free :: "int \<Rightarrow> bio_heap \<Rightarrow> bio_heap" where
  "BUF_MEM_free p h = (if p = 0 then h else h\<lparr>bufs := (bufs h)(p := None)\<rparr>)"

definition BUF_MEM_reserve :: "allocator \<Rightarrow> buf_mem_st \<Rightarrow> nat \<Rightarrow> bool \<times> buf_mem_st" where
  "BUF_MEM_reserve malloc buf cap =
     (if bm_max buf \<ge> cap then (True, buf)
      else
        let n = size_add cap 3
        in if n < cap then (False, buf)
           else
             let n = n div 3; alloc_size = n * 4 mod size_max
             in if alloc_size div 4 \<noteq> n then (False, buf)
                else case OPENSSL_realloc malloc (bm_data buf) alloc_size of
                       None \<Rightarrow> (False, buf)
                     | Some new_buf \<Rightarrow> (True, buf\<lparr>bm_data := Some new_buf, bm_max := alloc_size\<rparr>))"

text \<open>Writing at an offset of \<open>data\<close>.\<close>

definition buf_store :: "buf_mem_st \<Rightarrow> nat \<Rightarrow> bytes \<Rightarrow> buf_mem_st" where
  "buf_store buf at src = buf\<lparr>bm_data := map_option (\<lambda>blk. copy_at blk (bm_pos buf + at) src) (bm_data buf)\<rparr>"

definition BUF_MEM_grow :: "allocator \<Rightarrow> buf_mem_st \<Rightarrow> nat \<Rightarrow> nat \<times> buf_mem_st" where
  "BUF_MEM_grow malloc buf len =
     (case BUF_MEM_reserve malloc buf len of
        (False, buf) \<Rightarrow> (0, buf)
      | (True, buf) \<Rightarrow>
          let buf = (if bm_length buf < len then buf_store buf (bm_length buf) (replicate (len - bm_length buf) 0) else buf)
          in (len, buf\<lparr>bm_length := len\<rparr>))"

definition BUF_MEM_grow_clean :: "allocator \<Rightarrow> buf_mem_st \<Rightarrow> nat \<Rightarrow> nat \<times> buf_mem_st" where
  "BUF_MEM_grow_clean malloc buf len = BUF_MEM_grow malloc buf len"

definition BUF_MEM_append :: "allocator \<Rightarrow> buf_mem_st \<Rightarrow> bytes \<Rightarrow> bool \<times> buf_mem_st" where
  "BUF_MEM_append malloc buf src =
     (if length src = 0 then (True, buf)
      else
        let new_len = size_add (bm_length buf) (length src)
        in if new_len < length src then (False, buf)
           else case BUF_MEM_reserve malloc buf new_len of
                  (False, buf) \<Rightarrow> (False, buf)
                | (True, buf) \<Rightarrow> (True, (buf_store buf (bm_length buf) src)\<lparr>bm_length := new_len\<rparr>))"

section \<open>Memory BIOs\<close>

text \<open>The buffer of a BIO, and replacing it.\<close>

definition mem_buf :: "bio_heap \<Rightarrow> bio_st \<Rightarrow> buf_mem_st option" where
  "mem_buf h bio = (case bio_ptr bio of BufPtr p \<Rightarrow> bufs h p | _ \<Rightarrow> None)"

definition set_mem_buf :: "bio_st \<Rightarrow> buf_mem_st \<Rightarrow> bio_heap \<Rightarrow> bio_heap" where
  "set_mem_buf bio b h = (case bio_ptr bio of BufPtr p \<Rightarrow> h\<lparr>bufs := (bufs h)(p \<mapsto> b)\<rparr> | _ \<Rightarrow> h)"

definition mem_new :: "(bio_heap \<Rightarrow> int option) \<Rightarrow> bio_heap \<Rightarrow> int \<Rightarrow> (bool \<times> bio_heap) option" where
  "mem_new fresh_buf h p =
     (case BUF_MEM_new fresh_buf h of
        (b, h) \<Rightarrow>
          if b = 0 then Some (False, h)
          else map_option (\<lambda>h. (True, h)) (upd_bio h p (\<lambda>bio. bio\<lparr>shutdown := 1, init := 1, bio_num := -1, bio_ptr := BufPtr b\<rparr>)))"

definition rdonly :: "bio_st \<Rightarrow> bool" where
  "rdonly bio \<longleftrightarrow> bio_flags bio AND BIO_FLAGS_MEM_RDONLY \<noteq> 0"

definition mem_free :: "bio_heap \<Rightarrow> int \<Rightarrow> bio_heap option" where
  "mem_free h p =
     with_bio h p (\<lambda>bio.
       if shutdown bio = 0 \<or> init bio = 0 \<or> bio_ptr bio = NullPtr then Some h
       else case bio_ptr bio of
              BufPtr b \<Rightarrow> Some (set_bio p (bio\<lparr>bio_ptr := NullPtr\<rparr>) (BUF_MEM_free b h))
            | _ \<Rightarrow> None)"

text \<open>Taking \<open>n\<close> bytes from the front: a read-only buffer moves its start, the others move the rest to the front.\<close>

definition mem_take :: "bio_st \<Rightarrow> buf_mem_st \<Rightarrow> nat \<Rightarrow> buf_mem_st" where
  "mem_take bio b n =
     (let b = b\<lparr>bm_length := bm_length b - n\<rparr>
      in if rdonly bio then b\<lparr>bm_pos := bm_pos b + n\<rparr>
         else b\<lparr>bm_data := map_option (\<lambda>blk. copy_at blk (bm_pos b) (take (bm_length b) (drop (bm_pos b + n) blk))) (bm_data b)\<rparr>)"

definition mem_read :: "bio_heap \<Rightarrow> int \<Rightarrow> bool \<Rightarrow> int \<Rightarrow> (int \<times> bytes \<times> bio_heap) option" where
  "mem_read h p out_ok outl =
     with_bio h p (\<lambda>bio.
       let bio = BIO_clear_retry_flags bio; h = set_bio p bio h
       in if outl \<le> 0 then Some (0, [], h)
          else case mem_buf h bio of
                 None \<Rightarrow> None
               | Some b \<Rightarrow>
                   let ret = (if size_of_int outl > bm_length b then int_of_size (bm_length b) else outl)
                   in if ret > 0 then
                        (case bm_data b of
                           None \<Rightarrow> None
                         | Some blk \<Rightarrow>
                             Some (ret, take (nat ret) (drop (bm_pos b) blk), set_mem_buf bio (mem_take bio b (nat ret)) h))
                      else if bm_length b = 0 then
                        Some (bio_num bio, [], if bio_num bio \<noteq> 0 then set_bio p (BIO_set_retry_read bio) h else h)
                      else Some (ret, [], h))"

definition mem_write :: "allocator \<Rightarrow> bio_heap \<Rightarrow> int \<Rightarrow> bytes option \<Rightarrow> int \<Rightarrow> (int \<times> bio_heap) option" where
  "mem_write malloc h p src inl =
     with_bio h p (\<lambda>bio.
       let bio = BIO_clear_retry_flags bio; h = set_bio p bio h
       in if inl \<le> 0 then Some (0, h)
          else if rdonly bio then Some (-1, h)
          else case (mem_buf h bio, src) of
                 (Some b, Some src) \<Rightarrow>
                   (case BUF_MEM_append malloc b (take (nat inl) src) of
                      (False, b) \<Rightarrow> Some (-1, set_mem_buf bio b h)
                    | (True, b) \<Rightarrow> Some (inl, set_mem_buf bio b h))
               | _ \<Rightarrow> None)"

text \<open>The terminator is written behind the bytes that are read; it is not part of the result.\<close>

definition mem_gets :: "bio_heap \<Rightarrow> int \<Rightarrow> int \<Rightarrow> (int \<times> bytes \<times> bio_heap) option" where
  "mem_gets h p n =
     with_bio h p (\<lambda>bio.
       let bio = BIO_clear_retry_flags bio; h = set_bio p bio h
       in if n \<le> 0 then Some (0, [], h)
          else case mem_buf h bio of
                 None \<Rightarrow> None
               | Some b \<Rightarrow>
                   let ret = n - 1;
                       ret = (if size_of_int ret > bm_length b then int_of_size (bm_length b) else ret);
                       line = (case bm_data b of None \<Rightarrow> [] | Some blk \<Rightarrow> take (nat ret) (drop (bm_pos b) blk));
                       ret = (case OPENSSL_memchr line 10 of None \<Rightarrow> ret | Some newline \<Rightarrow> int newline + 1)
                   in mem_read h p True ret)"

definition BIO_C_SET_BUF_MEM :: int where "BIO_C_SET_BUF_MEM = 114"
definition BIO_C_GET_BUF_MEM_PTR :: int where "BIO_C_GET_BUF_MEM_PTR = 115"
definition BIO_C_SET_BUF_MEM_EOF_RETURN :: int where "BIO_C_SET_BUF_MEM_EOF_RETURN = 130"

definition mem_ctrl :: "bio_heap \<Rightarrow> int \<Rightarrow> int \<Rightarrow> int \<Rightarrow> int \<Rightarrow> (int \<times> bio_heap) option" where
  "mem_ctrl h p cmd num ptr =
     with_bio h p (\<lambda>bio.
       if cmd = BIO_C_SET_BUF_MEM_EOF_RETURN then Some (1, set_bio p (bio\<lparr>bio_num := signed_take_bit 31 num\<rparr>) h)
       else if cmd = BIO_C_SET_BUF_MEM then
         (case mem_free h p of
            None \<Rightarrow> None
          | Some h \<Rightarrow> map_option (\<lambda>h. (1, h))
              (upd_bio h p (\<lambda>bio. bio\<lparr>shutdown := signed_take_bit 31 num, bio_ptr := if ptr = 0 then NullPtr else BufPtr ptr\<rparr>)))
       else if cmd = BIO_C_GET_BUF_MEM_PTR then Some (1, h)
       else if cmd = BIO_CTRL_GET_CLOSE then Some (shutdown bio, h)
       else if cmd = BIO_CTRL_SET_CLOSE then Some (1, set_bio p (bio\<lparr>shutdown := signed_take_bit 31 num\<rparr>) h)
       else if cmd = BIO_CTRL_WPENDING then Some (0, h)
       else if cmd = BIO_CTRL_FLUSH then Some (1, h)
       else if cmd = BIO_CTRL_RESET \<or> cmd = BIO_CTRL_EOF \<or> cmd = BIO_CTRL_INFO \<or> cmd = BIO_CTRL_PENDING then
         (case mem_buf h bio of
            None \<Rightarrow> None
          | Some b \<Rightarrow>
              if cmd = BIO_CTRL_RESET then
                Some (1,
                  case bm_data b of
                    None \<Rightarrow> h
                  | Some blk \<Rightarrow>
                      set_mem_buf bio
                        (if rdonly bio then b\<lparr>bm_pos := bm_pos b - (bm_max b - bm_length b), bm_length := bm_max b\<rparr>
                         else (buf_store b 0 (replicate (bm_max b) 0))\<lparr>bm_length := 0\<rparr>) h)
              else if cmd = BIO_CTRL_EOF then Some (if bm_length b = 0 then 1 else 0, h)
              else Some (long_of_size (bm_length b), h))
       else Some (0, h))"

definition mem_method :: "allocator \<Rightarrow> (bio_heap \<Rightarrow> int option) \<Rightarrow> bio_method_st" where
  "mem_method malloc fresh_buf =
     \<lparr>mtype = 0x401, bwrite = Some (mem_write malloc), bread = Some mem_read, bgets = Some mem_gets, mctrl = Some mem_ctrl,
      create = Some (mem_new fresh_buf), destroy = Some mem_free\<rparr>"

text \<open>\<open>m\<close> is the address of the table of memory BIOs; a negative length asks for the length of the string.\<close>

definition BIO_new_mem_buf ::
    "methods \<Rightarrow> int \<Rightarrow> (bio_heap \<Rightarrow> int option) \<Rightarrow> bio_heap \<Rightarrow> bytes option \<Rightarrow> int \<Rightarrow> (int \<times> bio_heap) option" where
  "BIO_new_mem_buf methods m fresh h buf len =
     (case (if len < 0 then map_option (\<lambda>s. length (takeWhile (\<lambda>c. c \<noteq> 0) s)) buf else Some (size_of_int len)) of
        None \<Rightarrow> None
      | Some n \<Rightarrow>
          if buf = None \<and> len \<noteq> 0 then Some (0, h)
          else case BIO_new methods fresh h m of
                 None \<Rightarrow> None
               | Some (p, h) \<Rightarrow>
                   if p = 0 then Some (0, h)
                   else with_bio h p (\<lambda>bio.
                     case mem_buf h bio of
                       None \<Rightarrow> None
                     | Some b \<Rightarrow>
                         Some (p, set_bio p (bio\<lparr>bio_flags := bio_flags bio OR BIO_FLAGS_MEM_RDONLY, bio_num := 0\<rparr>)
                           (set_mem_buf bio (b\<lparr>bm_data := map_option (take n) buf, bm_pos := 0, bm_length := n, bm_max := n\<rparr>) h))))"

text \<open>\<open>m\<close> is again the address of the table, which a memory BIO is recognised by.\<close>

definition BIO_mem_contents :: "int \<Rightarrow> bio_heap \<Rightarrow> int \<Rightarrow> bytes option" where
  "BIO_mem_contents m h p =
     with_bio h p (\<lambda>bio.
       if bio_method bio \<noteq> m then None
       else map_option (\<lambda>b. case bm_data b of None \<Rightarrow> [] | Some blk \<Rightarrow> take (bm_length b) (drop (bm_pos b) blk)) (mem_buf h bio))"

definition BIO_set_mem_buf :: "methods \<Rightarrow> bio_heap \<Rightarrow> int \<Rightarrow> int \<Rightarrow> int \<Rightarrow> (int \<times> bio_heap) option" where
  "BIO_set_mem_buf methods h p b take_ownership = BIO_ctrl methods h p BIO_C_SET_BUF_MEM take_ownership b"

definition BIO_set_mem_eof_return :: "methods \<Rightarrow> bio_heap \<Rightarrow> int \<Rightarrow> int \<Rightarrow> (int \<times> bio_heap) option" where
  "BIO_set_mem_eof_return methods h p eof_value = BIO_ctrl methods h p BIO_C_SET_BUF_MEM_EOF_RETURN eof_value 0"

section \<open>Reading whole objects\<close>

text \<open>
  The functions of \<^verbatim>\<open>bio.c\<close> that read everything, a number of bytes, or one element. A negative return value other than
  -1 moves \<open>done\<close> back, as a \<open>size_t\<close>; reading to a place outside the block is no defined outcome.
\<close>

definition kChunkSize :: nat where "kChunkSize = 4096"

definition grow_read_buffer :: "allocator \<Rightarrow> bytes \<Rightarrow> nat \<Rightarrow> nat \<Rightarrow> bytes option" where
  "grow_read_buffer malloc buf done max_len =
     (let len = length buf
      in if len < max_len \<and> size_add len (size_max - done) < kChunkSize div 2 then
           let len = size_add len kChunkSize;
               len = (if len < kChunkSize \<or> len > max_len then max_len else len)
           in OPENSSL_realloc malloc (Some buf) len
         else Some buf)"

partial_function (option) read_all_loop ::
    "methods \<Rightarrow> allocator \<Rightarrow> bio_heap \<Rightarrow> int \<Rightarrow> nat \<Rightarrow> bytes \<Rightarrow> nat \<Rightarrow> (bytes option \<times> bio_heap) option" where
  "read_all_loop methods malloc h p max_len buf done =
     (if done = length buf then Some (None, h)
      else
        let todo = size_add (length buf) (size_max - done);
            todo = (if todo > nat int_max_z then nat int_max_z else todo)
        in case BIO_read methods h p (int todo) of
             None \<Rightarrow> None
           | Some (n, out, h) \<Rightarrow>
               if n = 0 then (if done \<le> length buf then Some (Some (take done buf), h) else None)
               else if n = -1 then Some (None, h)
               else if out \<noteq> [] \<and> done + length out > length buf then None
               else
                 let buf = (if out = [] then buf else copy_at buf done out); done = size_add done (size_of_int n)
                 in case grow_read_buffer malloc buf done max_len of
                      None \<Rightarrow> Some (None, h)
                    | Some buf \<Rightarrow> read_all_loop methods malloc h p max_len buf done)"

definition bio_read_all ::
    "methods \<Rightarrow> allocator \<Rightarrow> bio_heap \<Rightarrow> int \<Rightarrow> bytes \<Rightarrow> nat \<Rightarrow> (bytes option \<times> bio_heap) option" where
  "bio_read_all methods malloc h p pre max_len =
     (let len = size_add (length pre) kChunkSize;
          len = (if len > max_len then max_len else len)
      in if len < length pre then Some (None, h)
         else case malloc len of
                None \<Rightarrow> Some (None, h)
              | Some out \<Rightarrow> read_all_loop methods malloc h p max_len (copy_at out 0 pre) (length pre))"

text \<open>What has been read is collected in \<open>out\<close>; the flag of a failure says whether the first read found the end.\<close>

partial_function (option) read_full_loop ::
    "methods \<Rightarrow> bio_heap \<Rightarrow> int \<Rightarrow> bool \<Rightarrow> bytes \<Rightarrow> nat \<Rightarrow> ((bool + bytes) \<times> bio_heap) option" where
  "read_full_loop methods h p first_read out len =
     (if len = 0 then Some (Inr out, h)
      else case BIO_read methods h p (if len \<le> nat int_max_z then int len else int_max_z) of
             None \<Rightarrow> None
           | Some (ret, bs, h) \<Rightarrow>
               if ret \<le> 0 then Some (Inl (first_read \<and> ret = 0), h)
               else read_full_loop methods h p False (out @ bs) (len - nat ret))"

definition bio_read_full :: "methods \<Rightarrow> bio_heap \<Rightarrow> int \<Rightarrow> nat \<Rightarrow> ((bool + bytes) \<times> bio_heap) option" where
  "bio_read_full methods h p len = read_full_loop methods h p True [] len"

datatype asn1_reason = ASN1_R_DECODE_ERROR | ASN1_R_HEADER_TOO_LONG | ASN1_R_NOT_ENOUGH_DATA | ASN1_R_TOO_LONG | MALLOC_FAILURE

text \<open>The contents, behind the header that has been read.\<close>

definition read_asn1_contents ::
    "methods \<Rightarrow> allocator \<Rightarrow> bio_heap \<Rightarrow> int \<Rightarrow> nat \<Rightarrow> bytes \<Rightarrow> nat \<Rightarrow> ((asn1_reason + bytes) \<times> bio_heap) option" where
  "read_asn1_contents methods malloc h p max_len header len =
     (let total = size_add len (length header)
      in if total < len \<or> total > max_len \<or> len > nat int_max_z then Some (Inl ASN1_R_TOO_LONG, h)
         else case malloc total of
                None \<Rightarrow> Some (Inl MALLOC_FAILURE, h)
              | Some _ \<Rightarrow>
                  (case bio_read_full methods h p (total - length header) of
                     None \<Rightarrow> None
                   | Some (Inl _, h) \<Rightarrow> Some (Inl ASN1_R_NOT_ENOUGH_DATA, h)
                   | Some (Inr bs, h) \<Rightarrow> Some (Inr (header @ bs), h)))"

definition len32_of :: "bytes \<Rightarrow> u32" where
  "len32_of bs = foldl (\<lambda>n b. push_bit 8 n OR ucast b) 0 bs"

definition BIO_read_asn1 ::
    "methods \<Rightarrow> allocator \<Rightarrow> bio_heap \<Rightarrow> int \<Rightarrow> nat \<Rightarrow> ((asn1_reason + bytes) \<times> bio_heap) option" where
  "BIO_read_asn1 methods malloc h p max_len =
     (case bio_read_full methods h p 2 of
        None \<Rightarrow> None
      | Some (Inl eof, h) \<Rightarrow> Some (Inl (if eof then ASN1_R_HEADER_TOO_LONG else ASN1_R_NOT_ENOUGH_DATA), h)
      | Some (Inr header, h) \<Rightarrow>
          let tag = header ! 0; length_byte = header ! 1
          in if tag AND 0x1f = 0x1f then Some (Inl ASN1_R_DECODE_ERROR, h)
             else if length_byte AND 0x80 = 0 then read_asn1_contents methods malloc h p max_len header (unat length_byte)
             else
               let num_bytes = unat (length_byte AND 0x7f)
               in if tag AND 0x20 \<noteq> 0 \<and> num_bytes = 0 then
                    (case bio_read_all methods malloc h p header max_len of
                       None \<Rightarrow> None
                     | Some (None, h) \<Rightarrow> Some (Inl ASN1_R_NOT_ENOUGH_DATA, h)
                     | Some (Some out, h) \<Rightarrow> Some (Inr out, h))
                  else if num_bytes = 0 \<or> num_bytes > 4 then Some (Inl ASN1_R_DECODE_ERROR, h)
                  else case bio_read_full methods h p num_bytes of
                         None \<Rightarrow> None
                       | Some (Inl _, h) \<Rightarrow> Some (Inl ASN1_R_NOT_ENOUGH_DATA, h)
                       | Some (Inr octets, h) \<Rightarrow>
                           let len32 = len32_of octets
                           in if len32 < 128 then Some (Inl ASN1_R_DECODE_ERROR, h)
                              else if drop_bit ((num_bytes - 1) * 8) len32 = 0 then Some (Inl ASN1_R_DECODE_ERROR, h)
                              else read_asn1_contents methods malloc h p max_len (header @ octets) (unat len32))"

end
