(* ===== verification/BioSource.thy ===== *)
theory BioSource
  imports BioMem BioPairSteps
begin

text \<open>
  What reading relies on, as an interface: a source of bytes hands out a prefix of what it holds. Memory BIOs and the
  ends of a pair provide it, and reading whole objects uses nothing else.
\<close>

section \<open>Sources of bytes\<close>

locale source =
  fixes methods :: methods and p :: int and holds :: "bio_heap \<Rightarrow> bytes \<Rightarrow> bool"
  assumes read_some: "holds h cs \<Longrightarrow> cs \<noteq> [] \<Longrightarrow> 0 < k \<Longrightarrow> k < 2 ^ 31 \<Longrightarrow>
      \<exists>h'. BIO_read methods h p k = Some (int (length (take (nat k) cs)), take (nat k) cs, h') \<and> holds h' (drop (nat k) cs)"
    and read_none: "holds h [] \<Longrightarrow> 0 < k \<Longrightarrow> k < 2 ^ 31 \<Longrightarrow>
      \<exists>r h'. BIO_read methods h p k = Some (r, [], h') \<and> r \<le> 0 \<and> holds h' []"
begin

lemma read_full_loop_spec:
  assumes "holds h cs"
  shows "\<exists>h'. holds h' (drop len cs) \<and>
    (if len \<le> length cs then read_full_loop methods h p fr out len = Some (Inr (out @ take len cs), h')
     else \<exists>e. read_full_loop methods h p fr out len = Some (Inl e, h'))"
  using assms
proof (induction len arbitrary: h cs fr out rule: less_induct)
  case (less len)
  define k where "k = (if len \<le> nat int_max_z then int len else int_max_z)"
  have unfold: "read_full_loop methods h p fr out len =
     (if len = 0 then Some (Inr out, h)
      else case BIO_read methods h p k of
             None \<Rightarrow> None
           | Some (ret, bs, h) \<Rightarrow>
               if ret \<le> 0 then Some (Inl (fr \<and> ret = 0), h)
               else read_full_loop methods h p False (out @ bs) (len - nat ret))"
    unfolding k_def by (rule read_full_loop.simps)
  show ?case
  proof (cases "len = 0")
    case True
    then show ?thesis using less.prems unfold by (intro exI [of _ h]) simp
  next
    case False
    then have k: "0 < k" "k < 2 ^ 31" by (auto simp: k_def)
    show ?thesis
    proof (cases "cs = []")
      case True
      then obtain r h' where "BIO_read methods h p k = Some (r, [], h')" "r \<le> 0" "holds h' []"
        using read_none [OF _ k] less.prems by blast
      then have "read_full_loop methods h p fr out len = Some (Inl (fr \<and> r = 0), h')"
        using False by (simp add: unfold)
      then show ?thesis using True False \<open>holds h' []\<close> by auto
    next
      case ne: False
      then obtain h1 where r: "BIO_read methods h p k = Some (int (length (take (nat k) cs)), take (nat k) cs, h1)"
        "holds h1 (drop (nat k) cs)" using read_some [OF less.prems ne k] by blast
      let ?n = "length (take (nat k) cs)"
      have n: "0 < ?n" "?n \<le> len" using k(1) ne by (auto simp: k_def split: if_splits)
      have step: "read_full_loop methods h p fr out len = read_full_loop methods h1 p False (out @ take (nat k) cs) (len - ?n)"
        using False r(1) n(1) by (subst unfold) (simp add: min_def)
      have "len - ?n < len" using n False by simp
      from less.IH [OF this r(2)] obtain h' where h': "holds h' (drop (len - ?n) (drop (nat k) cs))"
        "if len - ?n \<le> length (drop (nat k) cs)
         then read_full_loop methods h1 p False (out @ take (nat k) cs) (len - ?n) = Some (Inr ((out @ take (nat k) cs) @ take (len - ?n) (drop (nat k) cs)), h')
         else \<exists>e. read_full_loop methods h1 p False (out @ take (nat k) cs) (len - ?n) = Some (Inl e, h')" by blast
      have le: "nat k \<le> len" by (auto simp: k_def)
      have "len - ?n \<le> length (drop (nat k) cs) \<longleftrightarrow> len \<le> length cs" using le by auto
      moreover have "drop (len - ?n) (drop (nat k) cs) = drop len cs" using le by (cases "nat k \<le> length cs") auto
      moreover have "take (nat k) cs @ take (len - ?n) (drop (nat k) cs) = take len cs" if "len \<le> length cs"
        using that le take_add [of "nat k" "len - nat k" cs] by (simp add: min_absorb2)
      ultimately show ?thesis using h' step by (intro exI [of _ h']) (auto split: if_splits)
    qed
  qed
qed

lemma read_full_enough:
  assumes "holds h cs" "len \<le> length cs"
  shows "\<exists>h'. bio_read_full methods h p len = Some (Inr (take len cs), h') \<and> holds h' (drop len cs)"
  using read_full_loop_spec [OF assms(1), of len True "[]"] assms(2) by (auto simp: bio_read_full_def)

lemma read_full_short:
  assumes "holds h cs" "length cs < len"
  shows "\<exists>e h'. bio_read_full methods h p len = Some (Inl e, h') \<and> holds h' []"
  using read_full_loop_spec [OF assms(1), of len True "[]"] assms(2) by (auto simp: bio_read_full_def)

lemma read_contents:
  assumes "holds h cs" "len < 2 ^ 32" "length header \<le> 6" "malloc (len + length header) \<noteq> None"
  shows "\<exists>h'. read_asn1_contents methods malloc h p max_len header len =
      (if len + length header \<le> max_len \<and> len < 2 ^ 31 \<and> len \<le> length cs then Some (Inr (header @ take len cs), h')
       else Some (Inl (if max_len < len + length header \<or> 2 ^ 31 \<le> len then ASN1_R_TOO_LONG else ASN1_R_NOT_ENOUGH_DATA), h')) \<and>
    (len + length header \<le> max_len \<and> len < 2 ^ 31 \<longrightarrow> holds h' (drop len cs))"
proof -
  have add: "size_add len (length header) = len + length header" using assms(2,3) by simp
  show ?thesis
  proof (cases "len + length header \<le> max_len \<and> len < 2 ^ 31")
    case False
    then show ?thesis by (intro exI [of _ h]) (auto simp: read_asn1_contents_def add)
  next
    case fits: True
    show ?thesis
    proof (cases "len \<le> length cs")
      case True
      then obtain h' where "bio_read_full methods h p len = Some (Inr (take len cs), h')" "holds h' (drop len cs)"
        using read_full_enough [OF assms(1)] by blast
      then show ?thesis using fits True assms(4) by (intro exI [of _ h']) (auto simp: read_asn1_contents_def add Let_def)
    next
      case False
      then obtain e h' where "bio_read_full methods h p len = Some (Inl e, h')" "holds h' []"
        using read_full_short [OF assms(1), of len] by auto
      then show ?thesis using fits False assms(4) by (intro exI [of _ h']) (auto simp: read_asn1_contents_def add Let_def)
    qed
  qed
qed

end

section \<open>Memory BIOs as sources\<close>

definition mem_ok :: "bool \<Rightarrow> buf_mem_st \<Rightarrow> bool" where
  "mem_ok ro b \<longleftrightarrow> bm_length b \<le> bm_max b \<and> bm_max b < 2 ^ 63 \<and>
     (case bm_data b of None \<Rightarrow> bm_max b = 0 \<and> bm_pos b = 0
      | Some blk \<Rightarrow> length blk = bm_max b \<and> bm_pos b = (if ro then bm_max b - bm_length b else 0))"

definition mem_bytes :: "buf_mem_st \<Rightarrow> bytes" where
  "mem_bytes b = (case bm_data b of None \<Rightarrow> [] | Some blk \<Rightarrow> take (bm_length b) (drop (bm_pos b) blk))"

definition mem_holds :: "int \<Rightarrow> int \<Rightarrow> bool \<Rightarrow> int \<Rightarrow> bio_heap \<Rightarrow> bytes \<Rightarrow> bool" where
  "mem_holds m p ro eof h cs \<longleftrightarrow> p \<noteq> 0 \<and>
     (\<exists>bio bp b. bios h p = Some bio \<and> bio_method bio = m \<and> init bio \<noteq> 0 \<and> rdonly bio = ro \<and> bio_num bio = eof \<and>
        bio_ptr bio = BufPtr bp \<and> bufs h bp = Some b \<and> mem_ok ro b \<and> cs = mem_bytes b)"

definition mem_table :: "methods \<Rightarrow> int \<Rightarrow> allocator \<Rightarrow> bool" where
  "mem_table methods m malloc \<longleftrightarrow> m \<noteq> 0 \<and> (\<exists>fresh_buf. methods m = mem_method malloc fresh_buf)"

lemma mem_table_simps:
  assumes "mem_table methods m malloc"
  shows "m \<noteq> 0" "bwrite (methods m) = Some (mem_write malloc)" "bread (methods m) = Some mem_read"
    "bgets (methods m) = Some mem_gets" "mctrl (methods m) = Some mem_ctrl"
  using assms by (auto simp: mem_table_def mem_method_def)

lemma mem_length: "mem_ok ro b \<Longrightarrow> length (mem_bytes b) = bm_length b"
  by (auto simp: mem_ok_def mem_bytes_def split: option.splits)

lemma rdonly_flags [simp]:
  "rdonly (BIO_clear_retry_flags x) = rdonly x" "rdonly (BIO_set_retry_read x) = rdonly x"
  "bio_num (BIO_clear_retry_flags x) = bio_num x" "bio_num (BIO_set_retry_read x) = bio_num x"
proof -
  have "BIO_FLAGS_MEM_RDONLY AND kRetryFlags = 0" "BIO_FLAGS_MEM_RDONLY AND (BIO_FLAGS_READ OR BIO_FLAGS_SHOULD_RETRY) = 0"
    by (simp_all add: BIO_FLAGS_MEM_RDONLY_def kRetryFlags_def BIO_FLAGS_RWS_def BIO_FLAGS_READ_def BIO_FLAGS_WRITE_def
        BIO_FLAGS_IO_SPECIAL_def BIO_FLAGS_SHOULD_RETRY_def)
  then have "(f AND NOT kRetryFlags) AND BIO_FLAGS_MEM_RDONLY = f AND BIO_FLAGS_MEM_RDONLY"
    "(f OR (BIO_FLAGS_READ OR BIO_FLAGS_SHOULD_RETRY)) AND BIO_FLAGS_MEM_RDONLY = f AND BIO_FLAGS_MEM_RDONLY" for f
    by (auto simp: bit_eq_iff bit_simps)
  then show "rdonly (BIO_clear_retry_flags x) = rdonly x" "rdonly (BIO_set_retry_read x) = rdonly x"
    by (simp_all add: rdonly_def BIO_clear_retry_flags_def BIO_set_retry_read_def)
qed (simp_all add: BIO_clear_retry_flags_def BIO_set_retry_read_def)

lemma mem_take_spec:
  assumes "mem_ok (rdonly bio) b" "n \<le> bm_length b"
  shows "mem_ok (rdonly bio) (mem_take bio b n) \<and> mem_bytes (mem_take bio b n) = drop n (mem_bytes b)"
proof (cases "bm_data b")
  case None
  then show ?thesis using assms by (auto simp: mem_ok_def mem_take_def mem_bytes_def Let_def)
next
  case (Some blk)
  show ?thesis
  proof (cases "rdonly bio")
    case True
    then show ?thesis using assms Some by (auto simp: mem_ok_def mem_take_def mem_bytes_def Let_def drop_take add.commute)
  next
    case False
    define src where "src = take (bm_length b - n) (drop n blk)"
    have l: "length src = bm_length b - n" "0 + length src \<le> length blk" using assms Some by (auto simp: mem_ok_def src_def)
    have "length (copy_at blk 0 src) = length blk" by (rule length_copy_at [OF l(2)])
    moreover have "take (bm_length b - n) (copy_at blk 0 src) = src" using take_copy_at [of 0 blk src] l(1) by simp
    ultimately show ?thesis
      using assms Some False by (auto simp: mem_ok_def mem_take_def mem_bytes_def Let_def drop_take src_def)
  qed
qed

text \<open>Bookkeeping of the BIO that leaves its buffer alone.\<close>

lemma mem_holds_upd:
  assumes "mem_holds m p ro eof h cs"
    and "\<And>x. bio_ptr (f x) = bio_ptr x \<and> init (f x) = init x \<and> bio_method (f x) = bio_method x \<and> rdonly (f x) = rdonly x \<and> bio_num (f x) = bio_num x"
  shows "\<exists>h'. upd_bio h p f = Some h' \<and> mem_holds m p ro eof h' cs"
  using assms by (auto simp: mem_holds_def)

lemma mem_read_law:
  assumes "mem_holds m p ro eof h cs" "0 < k" "k < 2 ^ 31"
  shows "\<exists>h'. mem_holds m p ro eof h' (drop (nat k) cs) \<and>
    mem_read h p b k = Some (if cs = [] then eof else int (length (take (nat k) cs)), take (nat k) cs, h') \<and>
    (cs = [] \<and> eof \<noteq> 0 \<longrightarrow> flagged h' p (BIO_FLAGS_READ OR BIO_FLAGS_SHOULD_RETRY))"
proof -
  obtain bio bp bm where bio: "p \<noteq> 0" "bios h p = Some bio" "bio_method bio = m" "init bio \<noteq> 0" "rdonly bio = ro" "bio_num bio = eof"
    "bio_ptr bio = BufPtr bp" "bufs h bp = Some bm" "mem_ok ro bm" "cs = mem_bytes bm"
    using assms(1) by (auto simp: mem_holds_def)
  define bio1 where "bio1 = BIO_clear_retry_flags bio"
  have bio1: "bio_method bio1 = m" "init bio1 \<noteq> 0" "rdonly bio1 = ro" "bio_num bio1 = eof" "bio_ptr bio1 = BufPtr bp"
    using bio by (simp_all add: bio1_def)
  have len: "length cs = bm_length bm" using mem_length [OF bio(9)] bio(10) by simp
  have k: "size_of_int k = nat k" using assms small_int by simp
  show ?thesis
  proof (cases "cs = []")
    case True
    let ?h = "if eof \<noteq> 0 then set_bio p (BIO_set_retry_read bio1) (set_bio p bio1 h) else set_bio p bio1 h"
    have "mem_read h p b k = Some (eof, [], ?h)"
      using bio bio1 True len assms k
      by (simp add: mem_read_def bio1_def [symmetric] mem_buf_def Let_def int_of_size_def)
    moreover have "mem_holds m p ro eof ?h []"
      using bio bio1 True by (auto simp: mem_holds_def)
    moreover have "eof \<noteq> 0 \<longrightarrow> flagged ?h p (BIO_FLAGS_READ OR BIO_FLAGS_SHOULD_RETRY)"
      by (simp add: flagged_def flag_laws)
    ultimately show ?thesis using True by auto
  next
    case False
    then obtain blk where blk: "bm_data bm = Some blk" using bio(10) by (auto simp: mem_bytes_def split: option.splits)
    define n where "n = length (take (nat k) cs)"
    have n: "n \<le> bm_length bm" "0 < n" "int n < 2 ^ 31" using assms False len by (cases cs; auto simp: n_def)+
    have ret: "(if size_of_int k > bm_length bm then int_of_size (bm_length bm) else k) = int n"
      using k assms len by (auto simp: n_def small_size min_def)
    have out: "take n (drop (bm_pos bm) blk) = take (nat k) cs"
      using n len by (simp add: bio(10) mem_bytes_def blk n_def min_def)
    let ?h = "set_mem_buf bio1 (mem_take bio1 bm n) (set_bio p bio1 h)"
    have "mem_read h p b k = Some (int n, take (nat k) cs, ?h)"
      using bio bio1 assms(2) n(2) ret blk out by (simp add: mem_read_def bio1_def [symmetric] mem_buf_def Let_def)
    moreover have "drop n cs = drop (nat k) cs" using len by (auto simp: n_def min_def)
    then have "mem_holds m p ro eof ?h (drop (nat k) cs)"
      using bio bio1 mem_take_spec [of bio1 bm n] n(1) by (auto simp: mem_holds_def set_mem_buf_def)
    ultimately show ?thesis using False by (auto simp: n_def)
  qed
qed

lemma mem_BIO_read:
  assumes "mem_table methods m malloc" "mem_holds m p ro eof h cs" "0 < k" "k < 2 ^ 31"
  shows "\<exists>h'. mem_holds m p ro eof h' (drop (nat k) cs) \<and>
    BIO_read methods h p k = Some (if cs = [] then eof else int (length (take (nat k) cs)), take (nat k) cs, h')"
proof -
  obtain h1 where r: "mem_holds m p ro eof h1 (drop (nat k) cs)"
    "mem_read h p True k = Some (if cs = [] then eof else int (length (take (nat k) cs)), take (nat k) cs, h1)"
    using mem_read_law [OF assms(2-4)] by blast
  let ?r = "if cs = [] then eof else int (length (take (nat k) cs))"
  obtain h2 where h2: "upd_bio h1 p (\<lambda>x. x\<lparr>num_read := num_read x + word_of_int ?r\<rparr>) = Some h2" "mem_holds m p ro eof h2 (drop (nat k) cs)"
    using mem_holds_upd [OF r(1), of "\<lambda>x. x\<lparr>num_read := num_read x + word_of_int ?r\<rparr>"] by (auto simp: rdonly_def)
  obtain bio where bio: "p \<noteq> 0" "bios h p = Some bio" "bio_method bio = m" "init bio \<noteq> 0" using assms(2) by (auto simp: mem_holds_def)
  have "BIO_read methods h p k = (if ?r > 0 then Some (?r, take (nat k) cs, h2) else Some (?r, take (nat k) cs, h1))"
    using bio assms(3) mem_table_simps [OF assms(1)] r(2) h2(1) by (simp add: BIO_read_def split: option.splits)
  then show ?thesis using r(1) h2(2) by (cases "?r > 0") auto
qed

text \<open>A memory BIO is a source as long as its value for the end of the data is no positive number.\<close>

lemma mem_source:
  assumes "mem_table methods m malloc" "eof \<le> 0"
  shows "source methods p (mem_holds m p ro eof)"
proof unfold_locales
  fix h cs and k :: int
  assume "mem_holds m p ro eof h cs" "cs \<noteq> []" "0 < k" "k < 2 ^ 31"
  then show "\<exists>h'. BIO_read methods h p k = Some (int (length (take (nat k) cs)), take (nat k) cs, h') \<and> mem_holds m p ro eof h' (drop (nat k) cs)"
    using mem_BIO_read [OF assms(1), of p ro eof h cs k] by auto
next
  fix h and k :: int
  assume "mem_holds m p ro eof h []" "0 < k" "k < 2 ^ 31"
  then show "\<exists>r h'. BIO_read methods h p k = Some (r, [], h') \<and> r \<le> 0 \<and> mem_holds m p ro eof h' []"
    using mem_BIO_read [OF assms(1), of p ro eof h "[]" k] assms(2) by auto
qed

text \<open>So is the end of a pair.\<close>

definition pair_holds :: "int \<Rightarrow> int \<Rightarrow> bio_heap \<Rightarrow> bytes \<Rightarrow> bool" where
  "pair_holds m p h cs \<longleftrightarrow> (\<exists>q b c. paired m h p q b c \<and> ring c = cs)"

lemma pair_source:
  assumes "pair_table methods m"
  shows "source methods p (pair_holds m p)"
proof unfold_locales
  fix h cs and k :: int
  assume h: "pair_holds m p h cs" "cs \<noteq> []" "0 < k" "k < 2 ^ 31"
  then obtain q b c where pr: "paired m h p q b c" "ring c = cs" unfolding pair_holds_def by blast
  obtain ret out h' c' where r: "BIO_read methods h p k = Some (ret, out, h')" "paired m h' p q b c'"
    "out = take (nat k) cs" "ring c' = drop (nat k) cs" "ret = int (length out)"
    using BIO_read_law [OF assms pr(1) h(3,4)] h(2) pr(2) by auto
  have "pair_holds m p h' (drop (nat k) cs)" unfolding pair_holds_def using r(2,4) by blast
  then show "\<exists>h'. BIO_read methods h p k = Some (int (length (take (nat k) cs)), take (nat k) cs, h') \<and> pair_holds m p h' (drop (nat k) cs)"
    using r(1,3,5) by blast
next
  fix h and k :: int
  assume h: "pair_holds m p h []" "0 < k" "k < 2 ^ 31"
  then obtain q b c where pr: "paired m h p q b c" "ring c = []" unfolding pair_holds_def by blast
  obtain r out h' c' where r: "BIO_read methods h p k = Some (r, out, h')" "paired m h' p q b c'" "out = take (nat k) (ring c)"
    "ring c' = drop (nat k) (ring c)" "ring c = [] \<Longrightarrow> r = (if closed c \<noteq> 0 then 0 else -1)"
    using BIO_read_law [OF assms pr(1) h(2,3)] by auto
  then have "r \<le> 0" "out = []" "ring c' = []" using pr(2) by (auto split: if_splits)
  then show "\<exists>r h'. BIO_read methods h p k = Some (r, [], h') \<and> r \<le> 0 \<and> pair_holds m p h' []"
    using r(1,2) unfolding pair_holds_def by blast
qed

text \<open>The two tables of the program at the addresses 1 and 2.\<close>

definition bio_tables :: "bool \<Rightarrow> allocator \<Rightarrow> (bio_heap \<Rightarrow> int option) \<Rightarrow> methods" where
  "bio_tables zalloc_ok malloc fresh_buf m = (if m = 1 then methods_biop zalloc_ok else mem_method malloc fresh_buf)"

lemma tables: "pair_table (bio_tables z malloc fresh_buf) 1" "mem_table (bio_tables z malloc fresh_buf) 2 malloc"
  by (auto simp: pair_table_def mem_table_def bio_tables_def)

interpretation pair_end: source "bio_tables z malloc fresh_buf" p "pair_holds 1 p" for z malloc fresh_buf p
  by (rule pair_source [OF tables(1)])

interpretation mem_bio: source "bio_tables z malloc fresh_buf" p "mem_holds 2 p ro (- int n)" for z malloc fresh_buf p ro n
  by (rule mem_source [OF tables(2)]) simp

section \<open>What else a memory BIO does\<close>

text \<open>A new read-only BIO holds the bytes it was made from.\<close>

lemma new_mem_buf_holds:
  assumes "mem_table methods m malloc" "BIO_new_mem_buf methods m fresh h (Some bs) (int (length bs)) = Some (p, h')" "p \<noteq> 0"
    "length bs < 2 ^ 63"
  shows "mem_holds m p True 0 h' bs"
proof -
  obtain fresh_buf where table: "methods m = mem_method malloc fresh_buf" using assms(1) by (auto simp: mem_table_def)
  have n: "size_of_int (int (length bs)) = length bs" using assms(4) by (simp add: size_of_int_def)
  obtain h1 bio b where new: "BIO_new methods fresh h m = Some (p, h1)" "bios h1 p = Some bio" "mem_buf h1 bio = Some b"
    "h' = set_bio p (bio\<lparr>bio_flags := bio_flags bio OR BIO_FLAGS_MEM_RDONLY, bio_num := 0\<rparr>)
        (set_mem_buf bio (b\<lparr>bm_data := Some bs, bm_pos := 0, bm_length := length bs, bm_max := length bs\<rparr>) h1)"
    using assms(2,3) by (auto simp: BIO_new_mem_buf_def n split: option.splits prod.splits if_splits)
  have bio: "init bio = 1" "bio_method bio = m" "\<exists>bp. bio_ptr bio = BufPtr bp"
    using new(1,2) assms(3) table
    by (auto simp: BIO_new_def mem_method_def mem_new_def BUF_MEM_new_def set_bio_def Let_def split: option.splits prod.splits bool.splits if_splits)
  have "rdonly (bio\<lparr>bio_flags := bio_flags bio OR BIO_FLAGS_MEM_RDONLY, bio_num := 0\<rparr>)"
    by (auto simp: rdonly_def BIO_FLAGS_MEM_RDONLY_def bit_eq_iff bit_simps intro!: exI [of _ 9])
  then show ?thesis
    using bio new(3,4) assms(3,4) by (auto simp: mem_holds_def set_mem_buf_def mem_ok_def mem_bytes_def)
qed

text \<open>
  Growing the buffer keeps its bytes; the capacity becomes about four thirds of what is asked for. When the allocator refuses,
  the buffer stays as it is.
\<close>

abbreviation refusing :: "allocator \<Rightarrow> bool" where
  "refusing malloc \<equiv> \<exists>n < 2 ^ 63. malloc n = None"

lemma reserve_law:
  assumes "alloc_ok malloc" "mem_ok False b" "cap < 2 ^ 62"
  shows "BUF_MEM_reserve malloc b cap = (False, b) \<and> refusing malloc \<or>
   (\<exists>b'. BUF_MEM_reserve malloc b cap = (True, b') \<and> cap \<le> bm_max b' \<and> bm_length b' = bm_length b \<and> bm_max b' < 2 ^ 63 \<and>
    bm_pos b' = 0 \<and> mem_bytes b' = mem_bytes b \<and>
    (case bm_data b' of None \<Rightarrow> bm_max b' = 0 | Some blk \<Rightarrow> length blk = bm_max b'))"
proof (cases "cap \<le> bm_max b")
  case True
  then show ?thesis using assms(2) by (auto simp: BUF_MEM_reserve_def mem_ok_def split: option.splits)
next
  case False
  define n where "n = (cap + 3) div 3"
  have n: "n * 4 < 2 ^ 63" "cap \<le> n * 4" "n < 2 ^ 62" using assms(3) by (auto simp: n_def)
  have sizes: "size_add cap 3 = cap + 3" "n * 4 mod size_max = n * 4" using assms(3) n by auto
  have reserve: "BUF_MEM_reserve malloc b cap =
      (case OPENSSL_realloc malloc (bm_data b) (n * 4) of
         None \<Rightarrow> (False, b) | Some blk \<Rightarrow> (True, b\<lparr>bm_data := Some blk, bm_max := n * 4\<rparr>))"
    using False sizes n(3) by (simp add: BUF_MEM_reserve_def n_def [symmetric] Let_def split: option.split)
  show ?thesis
  proof (cases "malloc (n * 4)")
    case None
    then have "OPENSSL_realloc malloc (bm_data b) (n * 4) = None" by (simp add: OPENSSL_realloc_def split: option.split)
    moreover have "refusing malloc" using None n(1) by blast
    ultimately show ?thesis using reserve by simp
  next
    case ret: (Some ret)
    obtain blk where blk: "OPENSSL_realloc malloc (bm_data b) (n * 4) = Some blk" "length blk = n * 4"
      "take (bm_length b) blk = mem_bytes b"
    proof (cases "bm_data b")
      case None
      then show ?thesis
        using that [of ret] assms(1,2) ret by (auto simp: OPENSSL_realloc_def alloc_ok_def mem_ok_def mem_bytes_def)
    next
      case (Some old)
      have len: "length ret = n * 4" "length old = bm_max b" "bm_length b \<le> bm_max b" "bm_pos b = 0"
        using assms(1,2) ret Some by (auto simp: alloc_ok_def mem_ok_def)
      have "length old \<le> n * 4" using False n(2) len by simp
      then show ?thesis
        using that [of "copy_at ret 0 old"] ret Some len False n
        by (auto simp: OPENSSL_realloc_def mem_bytes_def length_copy_at copy_at_def)
    qed
    then have "BUF_MEM_reserve malloc b cap = (True, b\<lparr>bm_data := Some blk, bm_max := n * 4\<rparr>)" using reserve by simp
    then show ?thesis using n assms(2) blk by (auto simp: mem_ok_def mem_bytes_def split: option.splits)
  qed
qed

lemma append_law:
  assumes "alloc_ok malloc" "mem_ok False b" "bm_length b + length src < 2 ^ 62"
  shows "BUF_MEM_append malloc b src = (False, b) \<and> refusing malloc \<or>
    (\<exists>b'. BUF_MEM_append malloc b src = (True, b') \<and> mem_ok False b' \<and> mem_bytes b' = mem_bytes b @ src)"
proof (cases "src = []")
  case True
  then show ?thesis using assms(2) by (simp add: BUF_MEM_append_def)
next
  case False
  have add: "size_add (bm_length b) (length src) = bm_length b + length src" using assms(3) by simp
  consider "BUF_MEM_reserve malloc b (bm_length b + length src) = (False, b)" "refusing malloc"
    | b1 where "BUF_MEM_reserve malloc b (bm_length b + length src) = (True, b1)" "bm_length b + length src \<le> bm_max b1"
      "bm_length b1 = bm_length b" "bm_max b1 < 2 ^ 63" "bm_pos b1 = 0" "mem_bytes b1 = mem_bytes b"
      "case bm_data b1 of None \<Rightarrow> bm_max b1 = 0 | Some blk \<Rightarrow> length blk = bm_max b1"
    using reserve_law [OF assms(1,2,3)] by blast
  then show ?thesis
  proof cases
    case 1
    then have "BUF_MEM_append malloc b src = (False, b)" using add by (simp add: BUF_MEM_append_def Let_def) (use False in auto)
    then show ?thesis using 1(2) by blast
  next
    case b1: (2 b1)
    then obtain blk where blk: "bm_data b1 = Some blk" "length blk = bm_max b1" using False by (cases "bm_data b1") auto
    let ?b = "(buf_store b1 (bm_length b1) src)\<lparr>bm_length := bm_length b + length src\<rparr>"
    have "take (bm_length b + length src) (copy_at blk (bm_length b) src) = take (bm_length b) blk @ src"
      by (rule take_copy_at) (use b1 blk in simp)
    then have "mem_bytes ?b = mem_bytes b @ src" using b1 blk by (auto simp: mem_bytes_def buf_store_def)
    moreover have "mem_ok False ?b" using b1 blk by (simp add: mem_ok_def buf_store_def length_copy_at)
    moreover have "BUF_MEM_append malloc b src = (True, ?b)" using False b1(1,3) add by (simp add: BUF_MEM_append_def Let_def)
    ultimately show ?thesis by blast
  qed
qed

lemma mem_BIO_write:
  assumes "mem_table methods m malloc" "mem_holds m p False eof h cs" "alloc_ok malloc"
    and "src \<noteq> []" "length src < 2 ^ 31" "length cs + length src < 2 ^ 62"
  shows "\<exists>h'. BIO_write methods h p src (int (length src)) = Some (-1, h') \<and> mem_holds m p False eof h' cs \<and> refusing malloc \<or>
    BIO_write methods h p src (int (length src)) = Some (int (length src), h') \<and> mem_holds m p False eof h' (cs @ src)"
proof -
  obtain bio bp bm where bio: "p \<noteq> 0" "bios h p = Some bio" "bio_method bio = m" "init bio \<noteq> 0" "\<not> rdonly bio" "bio_num bio = eof"
    "bio_ptr bio = BufPtr bp" "bufs h bp = Some bm" "mem_ok False bm" "cs = mem_bytes bm"
    using assms(2) by (auto simp: mem_holds_def)
  define bio1 where "bio1 = BIO_clear_retry_flags bio"
  have bio1: "bio_method bio1 = m" "init bio1 \<noteq> 0" "\<not> rdonly bio1" "bio_num bio1 = eof" "bio_ptr bio1 = BufPtr bp"
    using bio by (simp_all add: bio1_def)
  have "bm_length bm + length src < 2 ^ 62" using assms(6) mem_length [OF bio(9)] bio(10) by simp
  then consider "BUF_MEM_append malloc bm src = (False, bm)" "refusing malloc"
    | b' where "BUF_MEM_append malloc bm src = (True, b')" "mem_ok False b'" "mem_bytes b' = cs @ src"
    using append_law [OF assms(3) bio(9), of src] bio(10) by blast
  then show ?thesis
  proof cases
    case 1
    let ?h = "set_mem_buf bio1 bm (set_bio p bio1 h)"
    have "mem_write malloc h p (Some src) (int (length src)) = Some (-1, ?h)"
      using bio(2,7,8) bio1 assms(4) 1 by (simp add: mem_write_def bio1_def [symmetric] mem_buf_def Let_def)
    then have "BIO_write methods h p src (int (length src)) = Some (-1, ?h)"
      using bio(1-4) assms(4) mem_table_simps [OF assms(1)] by (simp add: BIO_write_def)
    moreover have "mem_holds m p False eof ?h cs" using bio(1) bio1 bio(9,10) by (auto simp: mem_holds_def set_mem_buf_def)
    ultimately show ?thesis using 1(2) by blast
  next
    case b': (2 b')
    let ?h = "set_mem_buf bio1 b' (set_bio p bio1 h)"
    have w: "mem_write malloc h p (Some src) (int (length src)) = Some (int (length src), ?h)"
      using bio(2,7,8) bio1 assms(4) b'(1) by (simp add: mem_write_def bio1_def [symmetric] mem_buf_def Let_def)
    have "mem_holds m p False eof ?h (cs @ src)" using bio(1) bio1 b' by (auto simp: mem_holds_def set_mem_buf_def)
    then obtain h2 where h2: "upd_bio ?h p (\<lambda>x. x\<lparr>num_write := num_write x + word_of_int (int (length src))\<rparr>) = Some h2"
      "mem_holds m p False eof h2 (cs @ src)"
      using mem_holds_upd [of m p False eof ?h "cs @ src" "\<lambda>x. x\<lparr>num_write := num_write x + word_of_int (int (length src))\<rparr>"]
      by (auto simp: rdonly_def)
    then have "BIO_write methods h p src (int (length src)) = Some (int (length src), h2)"
      using bio(1-4) assms(4) mem_table_simps [OF assms(1)] w by (simp add: BIO_write_def)
    then show ?thesis using h2(2) by blast
  qed
qed

text \<open>A line: up to and with the newline, but at most \<open>n\<close> bytes.\<close>

definition line_of :: "nat \<Rightarrow> bytes \<Rightarrow> bytes" where
  "line_of n cs = (case OPENSSL_memchr (take n cs) 10 of None \<Rightarrow> take n cs | Some i \<Rightarrow> take (Suc i) cs)"

lemma mem_BIO_gets:
  assumes "mem_table methods m malloc" "mem_holds m p ro eof h cs" "1 < k" "k < 2 ^ 31"
  shows "\<exists>h'. BIO_gets methods h p k = Some (int (length (line_of (nat k - 1) cs)), line_of (nat k - 1) cs, h') \<and>
    mem_holds m p ro eof h' (drop (length (line_of (nat k - 1) cs)) cs)"
proof -
  obtain bio bp bm where bio: "p \<noteq> 0" "bios h p = Some bio" "bio_method bio = m" "init bio \<noteq> 0" "rdonly bio = ro" "bio_num bio = eof"
    "bio_ptr bio = BufPtr bp" "bufs h bp = Some bm" "mem_ok ro bm" "cs = mem_bytes bm"
    using assms(2) by (auto simp: mem_holds_def)
  define bio1 where "bio1 = BIO_clear_retry_flags bio"
  have bio1: "bio_method bio1 = m" "init bio1 \<noteq> 0" "rdonly bio1 = ro" "bio_num bio1 = eof" "bio_ptr bio1 = BufPtr bp"
    using bio by (simp_all add: bio1_def)
  have holds1: "mem_holds m p ro eof (set_bio p bio1 h) cs" using bio bio1 by (auto simp: mem_holds_def)
  have len: "length cs = bm_length bm" using mem_length [OF bio(9)] bio(10) by simp
  define n where "n = (if nat k - 1 > bm_length bm then bm_length bm else nat k - 1)"
  have n: "(if size_of_int (k - 1) > bm_length bm then int_of_size (bm_length bm) else k - 1) = int n" "n \<le> length cs" "n < 2 ^ 31"
    using assms(3,4) len small_int [of "k - 1"] by (auto simp: n_def small_size nat_diff_distrib)
  have line: "(case bm_data bm of None \<Rightarrow> [] | Some blk \<Rightarrow> take n (drop (bm_pos bm) blk)) = take n cs"
    using n(2) len by (auto simp: bio(10) mem_bytes_def min_def split: option.splits)
  define r where "r = (case OPENSSL_memchr (take n cs) 10 of None \<Rightarrow> int n | Some i \<Rightarrow> int i + 1)"
  have tk: "take (nat k - 1) cs = take n cs" using len by (auto simp: n_def)
  have r: "take (nat r) cs = line_of (nat k - 1) cs" "0 \<le> r" "r < 2 ^ 31" "nat r \<le> length cs" "r = 0 \<Longrightarrow> cs = []"
  proof -
    show "take (nat r) cs = line_of (nat k - 1) cs"
      unfolding line_of_def tk r_def by (simp add: nat_add_distrib split: option.splits)
    have "i < n" if "OPENSSL_memchr (take n cs) 10 = Some i" for i using memchr_Some [OF that] by simp
    then have bound: "0 \<le> r \<and> r \<le> int n \<and> (r = 0 \<longrightarrow> n = 0)"
      by (cases "OPENSSL_memchr (take n cs) 10") (force simp: r_def)+
    then show "0 \<le> r" "r < 2 ^ 31" "nat r \<le> length cs" using n(2,3) by auto
    have "n = 0 \<Longrightarrow> cs = []" using assms(3) len by (auto simp: n_def split: if_splits)
    then show "r = 0 \<Longrightarrow> cs = []" using bound by blast
  qed
  have gets: "mem_gets h p k = mem_read (set_bio p bio1 h) p True r"
    using bio(2,7,8) bio1(5) assms(3) n(1) line
    by (simp add: mem_gets_def bio1_def [symmetric] mem_buf_def Let_def r_def cong: option.case_cong)
  show ?thesis
  proof (cases "r = 0")
    case True
    then have "cs = []" "line_of (nat k - 1) cs = []" using r(1,5) by auto
    moreover have "mem_read (set_bio p bio1 h) p True 0 = Some (0, [], set_bio p (BIO_clear_retry_flags bio1) (set_bio p bio1 h))"
      by (simp add: mem_read_def Let_def)
    moreover have "mem_holds m p ro eof (set_bio p (BIO_clear_retry_flags bio1) (set_bio p bio1 h)) cs"
      using bio bio1 by (auto simp: mem_holds_def)
    ultimately show ?thesis
      using bio(1-4) assms(3) mem_table_simps [OF assms(1)] gets True by (simp add: BIO_gets_def)
  next
    case False
    then have pos: "0 < r" using r(2) by simp
    then have ne: "cs \<noteq> []" using r(4) by auto
    have size: "int (length (take (nat r) cs)) = r" using r(2,4) by simp
    obtain h1 where h1: "mem_holds m p ro eof h1 (drop (nat r) cs)" "mem_read (set_bio p bio1 h) p True r = Some (r, take (nat r) cs, h1)"
      using mem_read_law [OF holds1 pos r(3)] ne size by auto
    obtain h2 where h2: "upd_bio h1 p (\<lambda>x. x\<lparr>num_read := num_read x + word_of_int r\<rparr>) = Some h2" "mem_holds m p ro eof h2 (drop (nat r) cs)"
      using mem_holds_upd [OF h1(1), of "\<lambda>x. x\<lparr>num_read := num_read x + word_of_int r\<rparr>"] by (auto simp: rdonly_def)
    then have "BIO_gets methods h p k = Some (r, take (nat r) cs, h2)"
      using bio(1-4) assms(3) mem_table_simps [OF assms(1)] gets h1(2) pos by (simp add: BIO_gets_def)
    moreover have "length (line_of (nat k - 1) cs) = nat r" using r(1,4) size by (metis length_take min.absorb2)
    ultimately show ?thesis using h2(2) r(1) pos by auto
  qed
qed

end
