(* ===== verification/BioAsn1.thy ===== *)
theory BioAsn1
  imports BioSource
begin

text \<open>
  Reading one ASN.1 element from a BIO, against the strict DER parser of \<^verbatim>\<open>cbs.c\<close>.
\<close>

section \<open>What the parser of byte strings does with short tags\<close>

text \<open>
  Inputs on which the two readers have the same task: the tag is in the low form, it is not the reserved number 0, and the
  length is not the indefinite one.
\<close>

definition definite :: "bytes \<Rightarrow> bool" where
  "definite c \<longleftrightarrow> (case c of t # l # _ \<Rightarrow> t AND 0x1f \<noteq> 0x1f \<and> t AND 0xdf \<noteq> 0 \<and> \<not> (t AND 0x20 \<noteq> 0 \<and> l = 0x80) | _ \<Rightarrow> True)"

lemma low_tag:
  assumes "t AND 0x1f \<noteq> 0x1f" "t AND 0xdf \<noteq> 0"
  shows "\<exists>tag. parse_asn1_tag (t # c) = (Some tag, c)"
proof -
  let ?tag = "push_bit 24 (ucast t AND 0xe0) OR ucast (t AND 0x1f) :: u32"
  obtain n where n: "bit t n" "bit (0xdf :: u8) n" using assms(2) by (auto simp: bit_eq_iff bit_simps)
  then have "n < 8" by (auto dest: bit_imp_le_length)
  then consider "n = 0" | "n = 1" | "n = 2" | "n = 3" | "n = 4" | "n = 5" | "n = 6" | "n = 7" by linarith
  then have "\<exists>i. bit (?tag AND NOT CBS_ASN1_CONSTRUCTED) i"
  proof cases
    case 6
    then show ?thesis using n(2) by simp
  next
    case 7
    then show ?thesis using n(1) by (intro exI [of _ 30]) (simp add: bit_simps CBS_ASN1_CONSTRUCTED_def CBS_ASN1_TAG_SHIFT_def)
  next
    case 8
    then show ?thesis using n(1) by (intro exI [of _ 31]) (simp add: bit_simps CBS_ASN1_CONSTRUCTED_def CBS_ASN1_TAG_SHIFT_def)
  qed (use n(1) in \<open>intro exI [of _ n]; simp add: bit_simps CBS_ASN1_CONSTRUCTED_def CBS_ASN1_TAG_SHIFT_def\<close>)+
  then have "valid_tag ?tag" by (auto simp: valid_tag_def)
  then show ?thesis using assms(1) by (simp add: parse_asn1_tag_Cons Let_def)
qed

lemma len32_nat: "length bs \<le> 4 \<Longrightarrow> unat (len32_of bs) = be_nat bs"
proof (induction bs rule: rev_induct)
  case (snoc b bs)
  have ih: "unat (len32_of bs) = be_nat bs" using snoc by simp
  have "be_nat (bs @ [b]) < 256 ^ length (bs @ [b])" by (rule be_nat_bound)
  also have "\<dots> \<le> 256 ^ 4" using snoc.prems by (intro power_increasing) auto
  finally have bound: "be_nat (bs @ [b]) < 2 ^ 32" by simp
  have "push_bit 8 (len32_of bs) AND ucast b = 0"
    by (rule bit_word_eqI) (auto simp: bit_simps dest: bit_imp_le_length)
  then have "len32_of (bs @ [b]) = push_bit 8 (len32_of bs) + ucast b"
    by (simp add: len32_of_def disjunctive_add_eq_or)
  also have "\<dots> = 256 * len32_of bs + ucast b" by (simp add: push_bit_eq_mult)
  finally show ?case using bound by (simp add: unat_word_ariths mod_simps ih)
qed (simp add: len32_of_def)

text \<open>The two parts of the length check.\<close>

definition minimal_length :: "bytes \<Rightarrow> bool" where
  "minimal_length bs \<longleftrightarrow> 128 \<le> be_nat bs \<and> be_nat bs div 2 ^ ((length bs - 1) * 8) \<noteq> 0"

lemma unat_drop_bit_div: "unat (drop_bit n w) = unat w div 2 ^ n" for w :: "'a::len word"
  by (simp only: unat_drop_bit_eq) (simp add: drop_bit_eq_div)

lemma minimal_word:
  fixes w :: "'a::len word"
  assumes "unat w = be_nat bs" "unat (128 :: 'a word) = 128"
  shows "minimal_length bs \<longleftrightarrow> \<not> (w < 128 \<or> drop_bit ((length bs - 1) * 8) w = 0)"
proof -
  have "drop_bit n w = 0 \<longleftrightarrow> be_nat bs div 2 ^ n = 0" for n
    unfolding word_unat_eq_iff unat_drop_bit_div assms(1) by simp
  then show ?thesis unfolding minimal_length_def word_less_nat_alt assms by auto
qed

lemma minimal32: "length bs \<le> 4 \<Longrightarrow> minimal_length bs \<longleftrightarrow> \<not> (len32_of bs < 128 \<or> drop_bit ((length bs - 1) * 8) (len32_of bs) = 0)"
  by (rule minimal_word) (simp_all add: len32_nat)

lemma minimal64: "length bs \<le> 4 \<Longrightarrow> minimal_length bs \<longleftrightarrow> \<not> (be_word bs < 128 \<or> drop_bit ((length bs - 1) * 8) (be_word bs) = 0)"
  by (rule minimal_word) (simp_all add: unat_be_word)

text \<open>The parser, with the length of the header and of the contents.\<close>

lemma parser_short:
  assumes "parse_asn1_tag (t # l # r) = (Some tag, l # r)" "l AND 0x80 = 0"
  shows "CBS_get_any_asn1_element (t # l # r) =
    (if unat l \<le> length r then (Some (t # l # take (unat l) r, tag, 2), drop (unat l) r) else (None, t # l # r))"
proof -
  have add: "size_add (unat l) 2 = unat l + 2" by (rule size_add_exact) (use unat_u8_less [of l] in \<open>simp del: unat_u8_less\<close>)
  show ?thesis
  proof (cases "unat l \<le> length r")
    case True
    then have "CBS_get_bytes (t # l # r) (unat l + 2) = (Some (t # l # take (unat l) r), drop (unat l) r)"
      by (simp add: CBS_get_bytes_take)
    then show ?thesis
      using True assms by (simp add: CBS_get_any_asn1_element_def cbs_get_any_asn1_element_def Let_def add)
  next
    case False
    then have "CBS_get_bytes (t # l # r) (unat l + 2) = (None, t # l # r)" by (simp add: CBS_get_bytes_def cbs_get_def)
    then show ?thesis
      using False assms by (simp add: CBS_get_any_asn1_element_def cbs_get_any_asn1_element_def Let_def add)
  qed
qed

lemma minimal_bound: "length bs \<le> 4 \<Longrightarrow> be_nat bs < 2 ^ 32"
  using be_nat_bound [of bs] power_increasing [of "length bs" 4 "256 :: nat"] by simp

lemma parser_long:
  assumes "parse_asn1_tag (t # l # r) = (Some tag, l # r)" "l AND 0x80 \<noteq> 0"
  defines "k \<equiv> unat (l AND 0x7f)"
  defines "n \<equiv> be_nat (take k r)"
  shows "CBS_get_any_asn1_element (t # l # r) =
    (if 1 \<le> k \<and> k \<le> 4 \<and> k \<le> length r \<and> minimal_length (take k r) \<and> k + n \<le> length r
     then (Some (t # l # take (k + n) r, tag, 2 + k), drop (k + n) r) else (None, t # l # r))"
proof -
  have fst_fail: ?thesis if "\<not> (1 \<le> k \<and> k \<le> 4)"
    using that assms(1,2) unfolding CBS_get_any_asn1_element_def cbs_get_any_asn1_element_def Let_def
    by (auto simp: k_def [symmetric])
  have short: ?thesis if "1 \<le> k" "k \<le> 4" "\<not> k \<le> length r"
  proof -
    have "fst (cbs_get_u r k) = None" using that(3) by (simp add: cbs_get_u_def cbs_get_def)
    then obtain r' where "cbs_get_u r k = (None, r')" by (cases "cbs_get_u r k") auto
    then show ?thesis
      using that assms(1,2) by (simp add: CBS_get_any_asn1_element_def cbs_get_any_asn1_element_def Let_def k_def [symmetric])
  qed
  have full: ?thesis if k: "1 \<le> k" "k \<le> 4" "k \<le> length r"
  proof -
    let ?bs = "take k r"
    have len: "length ?bs = k" "length ?bs \<le> 4" using k by auto
    have u: "cbs_get_u r k = (Some (be_word ?bs), drop k r)" using k(3) by (auto simp: cbs_get_u_iff intro!: exI [of _ ?bs])
    have n: "unat (be_word ?bs) = n" "n < 2 ^ 32" using unat_be_word [of ?bs] minimal_bound [OF len(2)] len by (auto simp: n_def)
    have add: "size_add n (size_add 2 k) = n + (2 + k)" "size_add (size_add n 2) k = n + 2 + k" using n(2) k(2) by simp_all
    have min: "minimal_length ?bs \<longleftrightarrow> \<not> (be_word ?bs < 128 \<or> drop_bit ((k - 1) * 8) (be_word ?bs) = 0)"
      using minimal64 [OF len(2)] len(1) by simp
    have get: "CBS_get_bytes (t # l # r) (n + (2 + k)) =
        (if k + n \<le> length r then (Some (t # l # take (k + n) r), drop (k + n) r) else (None, t # l # r))"
      by (auto simp: CBS_get_bytes_def cbs_get_def add.commute)
    show ?thesis
    proof (cases "minimal_length ?bs")
      case True
      then show ?thesis
        using k assms(1,2) u get add n(1) min
        by (simp add: CBS_get_any_asn1_element_def cbs_get_any_asn1_element_def Let_def k_def [symmetric])
    next
      case False
      then show ?thesis
        using k assms(1,2) u min
        by (simp add: CBS_get_any_asn1_element_def cbs_get_any_asn1_element_def Let_def k_def [symmetric])
    qed
  qed
  show ?thesis using fst_fail short full by blast
qed

text \<open>The first byte announces a tag in the long form.\<close>

definition long_tag :: "bytes \<Rightarrow> bool" where
  "long_tag c \<longleftrightarrow> (case c of t # _ # _ \<Rightarrow> t AND 0x1f = 0x1f | _ \<Rightarrow> False)"

section \<open>Reading an element from a source\<close>

context source
begin

lemma read_asn1_der:
  assumes h: "holds h c" and c: "definite c" and malloc: "\<And>n. malloc n \<noteq> None"
  shows "\<exists>res h'. BIO_read_asn1 methods malloc h p max_len = Some (res, h') \<and>
    (case CBS_get_any_asn1_element c of
       (Some (el, tag, hl), rest) \<Rightarrow>
         if length el \<le> max_len \<and> length el - hl < 2 ^ 31 then res = Inr el \<and> holds h' rest else res = Inl ASN1_R_TOO_LONG
     | (None, _) \<Rightarrow> \<exists>e. res = Inl e)"
proof (cases "2 \<le> length c")
  case False
  have "2 \<le> length (der_element t x)" for t x
    by (cases "der_tag t") (auto simp: der_element_def der_header_def der_length_def)
  then have two: "2 \<le> length (der_element t x @ c')" for t x c' by (simp add: trans_le_add1)
  have "CBS_get_any_asn1_element c \<noteq> (Some (out, t, hl), c')" for out t hl c'
    using False two by (auto simp del: length_append simp: CBS_get_any_asn1_element_iff)
  then obtain c' where "CBS_get_any_asn1_element c = (None, c')"
    by (cases "CBS_get_any_asn1_element c"; cases "fst (CBS_get_any_asn1_element c)") auto
  then show ?thesis using read_full_short [OF h, of 2] False by (auto simp: BIO_read_asn1_def)
next
  case True
  then obtain t l r where tlr: "c = t # l # r" by (cases c; cases "tl c") auto
  have d: "t AND 0x1f \<noteq> 0x1f" "t AND 0xdf \<noteq> 0" "\<not> (t AND 0x20 \<noteq> 0 \<and> l = 0x80)" using c by (auto simp: definite_def tlr)
  obtain tag where tag: "parse_asn1_tag (t # l # r) = (Some tag, l # r)" using low_tag [OF d(1,2)] by blast
  obtain h1 where h1: "bio_read_full methods h p 2 = Some (Inr [t, l], h1)" "holds h1 r"
    using read_full_enough [OF h, of 2] by (auto simp: tlr)
  show ?thesis
  proof (cases "l AND 0x80 = 0")
    case True
    then have l: "unat l < 128" by (simp add: and_0x80_eq_0_iff)
    have run: "BIO_read_asn1 methods malloc h p max_len = read_asn1_contents methods malloc h1 p max_len [t, l] (unat l)"
      using h1(1) d(1) True by (simp add: BIO_read_asn1_def)
    have n: "unat l < 2 ^ 32" "length [t, l] \<le> 6" "unat l < 2 ^ 31" using l by simp_all
    have hl: "length [t, l] = 2" by simp
    from read_contents [OF h1(2) n(1,2), of malloc max_len] malloc obtain h' where
      "BIO_read_asn1 methods malloc h p max_len =
        (if unat l + 2 \<le> max_len \<and> unat l < 2 ^ 31 \<and> unat l \<le> length r then Some (Inr ([t, l] @ take (unat l) r), h')
         else Some (Inl (if max_len < unat l + 2 \<or> 2 ^ 31 \<le> unat l then ASN1_R_TOO_LONG else ASN1_R_NOT_ENOUGH_DATA), h'))"
      "unat l + 2 \<le> max_len \<and> unat l < 2 ^ 31 \<longrightarrow> holds h' (drop (unat l) r)"
      unfolding run hl by blast
    then show ?thesis
      using n(3) unfolding tlr parser_short [OF tag True] by (auto simp: min_def)
  next
    case False
    define k where "k = unat (l AND 0x7f)"
    have "l = 0x80" if "k = 0"
    proof -
      have "unat l mod 128 = 0" "\<not> unat l < 128" using that False by (simp_all add: k_def unat_and_0x7f and_0x80_eq_0_iff)
      then have "unat l = 128" using unat_u8_less [of l] by presburger
      then show ?thesis by (simp add: word_unat_eq_iff)
    qed
    then have ind: "\<not> (t AND 0x20 \<noteq> 0 \<and> k = 0)" using d(3) by blast
    have run: "BIO_read_asn1 methods malloc h p max_len =
      (if k = 0 \<or> k > 4 then Some (Inl ASN1_R_DECODE_ERROR, h1)
       else case bio_read_full methods h1 p k of
              None \<Rightarrow> None
            | Some (Inl _, h) \<Rightarrow> Some (Inl ASN1_R_NOT_ENOUGH_DATA, h)
            | Some (Inr bs, h) \<Rightarrow>
                if len32_of bs < 128 \<or> drop_bit ((k - 1) * 8) (len32_of bs) = 0 then Some (Inl ASN1_R_DECODE_ERROR, h)
                else read_asn1_contents methods malloc h p max_len ([t, l] @ bs) (unat (len32_of bs)))"
      using h1(1) d(1) False ind
      by (simp add: BIO_read_asn1_def k_def [symmetric] Let_def cong: option.case_cong sum.case_cong) (auto split: option.split sum.split)
    note parser = parser_long [OF tag False, folded k_def]
    show ?thesis
    proof (cases "1 \<le> k \<and> k \<le> 4")
      case False
      then have "BIO_read_asn1 methods malloc h p max_len = Some (Inl ASN1_R_DECODE_ERROR, h1)"
        by (auto simp: run)
      then show ?thesis using False unfolding tlr parser by auto
    next
      case k: True
      show ?thesis
      proof (cases "k \<le> length r")
        case False
        then obtain e h' where "bio_read_full methods h1 p k = Some (Inl e, h')" using read_full_short [OF h1(2), of k] by auto
        then show ?thesis using k False unfolding tlr parser run by auto
      next
        case True
        let ?bs = "take k r"
        obtain h2 where h2: "bio_read_full methods h1 p k = Some (Inr ?bs, h2)" "holds h2 (drop k r)"
          using read_full_enough [OF h1(2) True] by blast
        have len: "length ?bs = k" "length ?bs \<le> 4" using k True by auto
        define n where "n = be_nat ?bs"
        have n: "unat (len32_of ?bs) = n" "n < 2 ^ 32" using len32_nat [OF len(2)] minimal_bound [OF len(2)] by (auto simp: n_def)
        have min: "minimal_length ?bs \<longleftrightarrow> \<not> (len32_of ?bs < 128 \<or> drop_bit ((k - 1) * 8) (len32_of ?bs) = 0)"
          using minimal32 [OF len(2)] len(1) by simp
        show ?thesis
        proof (cases "minimal_length ?bs")
          case False
          then have "BIO_read_asn1 methods malloc h p max_len = Some (Inl ASN1_R_DECODE_ERROR, h2)"
            using run k h2(1) min by simp
          then show ?thesis using False unfolding tlr parser by auto
        next
          case m: True
          have run2: "BIO_read_asn1 methods malloc h p max_len = read_asn1_contents methods malloc h2 p max_len ([t, l] @ ?bs) n"
            using run k h2(1) min m n(1) by simp
          have hl: "length ([t, l] @ ?bs) = k + 2" "length ([t, l] @ ?bs) \<le> 6" using len by auto
          from read_contents [OF h2(2) n(2) hl(2), of malloc max_len] malloc obtain h' where r:
            "BIO_read_asn1 methods malloc h p max_len =
              (if n + (k + 2) \<le> max_len \<and> n < 2 ^ 31 \<and> n \<le> length (drop k r) then Some (Inr (([t, l] @ ?bs) @ take n (drop k r)), h')
               else Some (Inl (if max_len < n + (k + 2) \<or> 2 ^ 31 \<le> n then ASN1_R_TOO_LONG else ASN1_R_NOT_ENOUGH_DATA), h'))"
            "n + (k + 2) \<le> max_len \<and> n < 2 ^ 31 \<longrightarrow> holds h' (drop n (drop k r))"
            unfolding run2 hl(1) by blast
          have parse: "CBS_get_any_asn1_element c =
            (if k + n \<le> length r then (Some (t # l # take (k + n) r, tag, 2 + k), drop (k + n) r) else (None, c))"
            using k True m unfolding tlr parser n_def by simp
          show ?thesis
          proof (cases "k + n \<le> length r")
            case False
            then have "\<not> n \<le> length (drop k r)" using True by simp
            then show ?thesis using r(1) parse False by auto
          next
            case fits: True
            have "(([t, l] @ ?bs) @ take n (drop k r)) = t # l # take (k + n) r" by (simp add: take_add)
            moreover have "drop n (drop k r) = drop (k + n) r" by (simp add: add.commute)
            moreover have "length (t # l # take (k + n) r) = n + (k + 2)" using fits by simp
            moreover have "n \<le> length (drop k r)" using fits by simp
            ultimately show ?thesis using r parse fits by auto
          qed
        qed
      qed
    qed
  qed
qed

lemma read_asn1_long_tag:
  assumes "holds h c" "long_tag c"
  shows "\<exists>h'. BIO_read_asn1 methods malloc h p max_len = Some (Inl ASN1_R_DECODE_ERROR, h')"
proof -
  obtain t l r where c: "c = t # l # r" "t AND 0x1f = 0x1f" using assms(2) by (auto simp: long_tag_def split: list.splits)
  then obtain h1 where "bio_read_full methods h p 2 = Some (Inr [t, l], h1)" using read_full_enough [OF assms(1), of 2] by auto
  then show ?thesis using c(2) by (simp add: BIO_read_asn1_def)
qed

end

section \<open>Properties\<close>

text \<open>A memory BIO that has an end, or the end of a pair, with the bytes that can be read from it.\<close>

definition holds_bytes :: "methods \<Rightarrow> int \<Rightarrow> bio_heap \<Rightarrow> bytes \<Rightarrow> bool" where
  "holds_bytes methods p h c \<longleftrightarrow>
     (\<exists>m malloc ro eof. mem_table methods m malloc \<and> eof \<le> 0 \<and> mem_holds m p ro eof h c) \<or>
     (\<exists>m. pair_table methods m \<and> pair_holds m p h c)"

text \<open>
  C17: reading one element from a memory BIO or from the end of a pair, whose ring may hand it out in pieces, is parsing what
  the BIO holds by the strict DER parser: within the limits of the caller and of \<open>int\<close> it returns the element that the parser finds
  and leaves the BIO behind it, it reports an element beyond these limits as too long, and it fails where the parser fails. The
  parser and \<open>BIO_read_asn1\<close> differ in three cases: tags in the long form, which are always refused here though the parser
  accepts them, and, left out by \<open>definite\<close>, constructed elements of indefinite length and the tag number 0 of the universal class.
\<close>

theorem BIO_read_asn1_is_der_parser:
  assumes "holds_bytes methods p h c" "definite c \<or> long_tag c" "\<And>n. malloc n \<noteq> None"
  shows "\<exists>res h'. BIO_read_asn1 methods malloc h p max_len = Some (res, h') \<and>
    (if long_tag c then res = Inl ASN1_R_DECODE_ERROR
     else case CBS_get_any_asn1_element c of
       (Some (el, tag, hl), rest) \<Rightarrow>
         if length el \<le> max_len \<and> length el - hl < 2 ^ 31 then res = Inr el \<and> holds_bytes methods p h' rest
         else res = Inl ASN1_R_TOO_LONG
     | (None, _) \<Rightarrow> \<exists>e. res = Inl e)"
proof -
  have read: ?thesis if src: "source methods p holds" and h: "holds h c" and sub: "\<And>h c. holds h c \<Longrightarrow> holds_bytes methods p h c" for holds
  proof (cases "long_tag c")
    case True
    then show ?thesis using source.read_asn1_long_tag [OF src h] by auto
  next
    case False
    then have "definite c" using assms(2) by blast
    from source.read_asn1_der [where malloc = malloc and max_len = max_len, OF src h this assms(3)] obtain res h' where
      res: "BIO_read_asn1 methods malloc h p max_len = Some (res, h')"
      "case CBS_get_any_asn1_element c of
         (Some (el, tag, hl), rest) \<Rightarrow>
           if length el \<le> max_len \<and> length el - hl < 2 ^ 31 then res = Inr el \<and> holds h' rest else res = Inl ASN1_R_TOO_LONG
       | (None, _) \<Rightarrow> \<exists>e. res = Inl e" by (elim exE conjE) (rule that)
    obtain r rest where parse: "CBS_get_any_asn1_element c = (r, rest)" by (cases "CBS_get_any_asn1_element c")
    show ?thesis
      by (rule exI [of _ res], rule exI [of _ h']) (use res False sub parse in \<open>cases r; auto split: if_splits\<close>)
  qed
  from assms(1) consider m malloc ro eof where "mem_table methods m malloc" "eof \<le> 0" "mem_holds m p ro eof h c"
    | m where "pair_table methods m" "pair_holds m p h c" unfolding holds_bytes_def by blast
  then show ?thesis
  proof cases
    case 1
    show ?thesis by (rule read [OF mem_source [OF 1(1,2)] 1(3)]) (use 1(1,2) in \<open>auto simp: holds_bytes_def\<close>)
  next
    case 2
    show ?thesis by (rule read [OF pair_source [OF 2(1)] 2(2)]) (use 2(1) in \<open>auto simp: holds_bytes_def\<close>)
  qed
qed

text \<open>The BIO of the examples: an octet string of two bytes and one byte behind it, read-only.\<close>

definition octets_bio :: bio_heap where
  "octets_bio = \<lparr>bios = [5 \<mapsto> \<lparr>bio_method = 2, init = 1, shutdown = 1, bio_flags = BIO_FLAGS_MEM_RDONLY, retry_reason = 0, bio_num = 0,
                   references = 1, bio_ptr = BufPtr 6, next_bio = 0, num_read = 0, num_write = 0\<rparr>],
                 bufs = [6 \<mapsto> \<lparr>bm_length = 5, bm_data = Some [4, 2, 0xaa, 0xbb, 5], bm_pos = 0, bm_max = 5\<rparr>]\<rparr>"

definition any_block :: allocator where "any_block n = Some (replicate n 0)"

lemma octets_bio_holds: "mem_holds 2 5 True 0 octets_bio [4, 2, 0xaa, 0xbb, 5]"
  by (auto simp: mem_holds_def octets_bio_def mem_ok_def mem_bytes_def rdonly_def BIO_FLAGS_MEM_RDONLY_def)

lemma octets_parsed: "CBS_get_any_asn1_element [4, 2, 0xaa, 0xbb, 5] = (Some ([4, 2, 0xaa, 0xbb], 4, 2), [5])"
proof -
  have "parse_asn1_tag [4, 2, 0xaa, 0xbb, 5] = (Some 4, [2, 0xaa, 0xbb, 5])"
    by (simp add: parse_asn1_tag_Cons Let_def valid_tag_def CBS_ASN1_CONSTRUCTED_def CBS_ASN1_TAG_SHIFT_def)
  from parser_short [OF this] show ?thesis by simp
qed

lemma BIO_read_asn1_is_der_parser_witness:
  "\<exists>h'. BIO_read_asn1 (bio_tables True any_block (\<lambda>_. None)) any_block octets_bio 5 100 = Some (Inr [4, 2, 0xaa, 0xbb], h') \<and>
    holds_bytes (bio_tables True any_block (\<lambda>_. None)) 5 h' [5]"
proof -
  have c: "definite [4, 2, 0xaa, 0xbb, 5]" "\<not> long_tag [4, 2, 0xaa, 0xbb, 5]" by (simp_all add: definite_def long_tag_def)
  have "holds_bytes (bio_tables True any_block (\<lambda>_. None)) 5 octets_bio [4, 2, 0xaa, 0xbb, 5]"
    using tables(2) octets_bio_holds by (force simp: holds_bytes_def)
  from BIO_read_asn1_is_der_parser [OF this disjI1 [OF c(1)], of any_block 100] c(2) show ?thesis
    by (auto simp: octets_parsed any_block_def)
qed

text \<open>
  C18: a writable memory BIO is a queue of bytes, whatever the allocator does: a write appends all of the data, or it fails, which
  takes an allocator that refuses a block, and leaves the contents as they are; the contents and the count of pending bytes are
  what has been written and not read, and reading takes from the front.
\<close>

theorem mem_bio_is_queue:
  assumes "mem_table methods m malloc" "mem_holds m p False eof h cs" "alloc_ok malloc"
    and "src \<noteq> []" "length src < 2 ^ 31" "length cs + length src < 2 ^ 62" "0 < k" "k < 2 ^ 31"
  shows "\<exists>ret cs' h1 h2. BIO_write methods h p src (int (length src)) = Some (ret, h1) \<and>
    (ret = int (length src) \<and> cs' = cs @ src \<or> ret = -1 \<and> cs' = cs \<and> (\<exists>n < 2 ^ 63. malloc n = None)) \<and>
    BIO_mem_contents m h1 p = Some cs' \<and> BIO_pending methods h1 p = Some (length cs', h1) \<and>
    BIO_read methods h1 p k = Some (if cs' = [] then eof else int (length (take (nat k) cs')), take (nat k) cs', h2) \<and>
    BIO_mem_contents m h2 p = Some (drop (nat k) cs')"
proof -
  have contents: "BIO_mem_contents m h p = Some cs" if "mem_holds m p ro eof h cs" for ro h cs
    using that by (auto simp: BIO_mem_contents_def mem_holds_def mem_buf_def mem_bytes_def)
  obtain ret cs' h1 where h1: "BIO_write methods h p src (int (length src)) = Some (ret, h1)" "mem_holds m p False eof h1 cs'"
    "ret = int (length src) \<and> cs' = cs @ src \<or> ret = -1 \<and> cs' = cs \<and> (\<exists>n < 2 ^ 63. malloc n = None)"
    using mem_BIO_write [OF assms(1-6)] by blast
  obtain h2 where h2: "BIO_read methods h1 p k = Some (if cs' = [] then eof else int (length (take (nat k) cs')), take (nat k) cs', h2)"
    "mem_holds m p False eof h2 (drop (nat k) cs')"
    using mem_BIO_read [OF assms(1) h1(2) assms(7,8)] by blast
  obtain bio bp bm where bio: "p \<noteq> 0" "bios h1 p = Some bio" "bio_method bio = m" "bio_ptr bio = BufPtr bp" "bufs h1 bp = Some bm"
    "mem_ok False bm" "cs' = mem_bytes bm" using h1(2) by (auto simp: mem_holds_def)
  have n: "bm_length bm = length cs'" using mem_length [OF bio(6)] bio(7) [symmetric] by simp
  have "length cs' < 2 ^ 62" using assms(6) h1(3) by auto
  then have "long_of_size (length cs') = int (length cs')" by (intro long_small) simp
  then have "BIO_pending methods h1 p = Some (length cs', h1)"
    using bio mem_table_simps [OF assms(1)] n
    by (simp add: BIO_pending_def BIO_ctrl_def mem_ctrl_def mem_buf_def ctrl_codes BIO_C_SET_BUF_MEM_EOF_RETURN_def
        BIO_C_SET_BUF_MEM_def BIO_C_GET_BUF_MEM_PTR_def)
  then show ?thesis using h1(1,3) h2(1) contents [OF h1(2)] contents [OF h2(2)] by blast
qed

definition empty_mem :: bio_heap where
  "empty_mem = \<lparr>bios = [5 \<mapsto> \<lparr>bio_method = 2, init = 1, shutdown = 1, bio_flags = 0, retry_reason = 0, bio_num = -1, references = 1,
                  bio_ptr = BufPtr 6, next_bio = 0, num_read = 0, num_write = 0\<rparr>],
                bufs = [6 \<mapsto> \<lparr>bm_length = 0, bm_data = None, bm_pos = 0, bm_max = 0\<rparr>]\<rparr>"

lemma empty_mem_holds: "mem_holds 2 5 False (-1) empty_mem []"
  by (auto simp: mem_holds_def empty_mem_def mem_ok_def mem_bytes_def rdonly_def)

lemma mem_bio_is_queue_witness:
  "\<exists>h1 h2. BIO_write (bio_tables True any_block (\<lambda>_. None)) empty_mem 5 [1, 2, 3] 3 = Some (3, h1) \<and>
    BIO_read (bio_tables True any_block (\<lambda>_. None)) h1 5 2 = Some (2, [1, 2], h2) \<and> BIO_mem_contents 2 h2 5 = Some [3]"
  using mem_bio_is_queue [OF tables(2) empty_mem_holds, of any_block "[1, 2, 3]" 2 True "\<lambda>_. None"]
  by (auto simp: alloc_ok_def any_block_def)

text \<open>Reading line after line until nothing is left.\<close>

fun read_lines :: "methods \<Rightarrow> nat \<Rightarrow> bio_heap \<Rightarrow> int \<Rightarrow> int \<Rightarrow> bytes list option" where
  "read_lines methods 0 h p k = None"
| "read_lines methods (Suc n) h p k =
     (case BIO_gets methods h p k of
        None \<Rightarrow> None
      | Some (ret, line, h) \<Rightarrow> if ret \<le> 0 then Some [] else map_option (\<lambda>ls. line # ls) (read_lines methods n h p k))"

lemma line_of_parts:
  assumes "cs \<noteq> []" "0 < n"
  shows "line_of n cs \<noteq> []" "line_of n cs @ drop (length (line_of n cs)) cs = cs" "length (line_of n cs) \<le> n"
    "10 \<notin> set (butlast (line_of n cs))"
    "last (line_of n cs) = 10 \<or> length (line_of n cs) = n \<or> line_of n cs = cs"
proof -
  consider "OPENSSL_memchr (take n cs) 10 = None" | i where "OPENSSL_memchr (take n cs) 10 = Some i" by (cases "OPENSSL_memchr (take n cs) 10") auto
  then have "line_of n cs \<noteq> [] \<and> line_of n cs @ drop (length (line_of n cs)) cs = cs \<and> length (line_of n cs) \<le> n \<and>
    10 \<notin> set (butlast (line_of n cs)) \<and> (last (line_of n cs) = 10 \<or> length (line_of n cs) = n \<or> line_of n cs = cs)"
  proof cases
    case 1
    then have "10 \<notin> set (take n cs)" by (simp add: memchr_None)
    moreover have "line_of n cs = take n cs" using 1 by (simp add: line_of_def)
    ultimately show ?thesis using assms by (auto dest: in_set_butlastD simp: min_def)
  next
    case 2
    from memchr_Some [OF 2] have i: "i < n" "i < length cs" "cs ! i = 10" "10 \<notin> set (take i cs)" by auto
    have "line_of n cs = take i cs @ [10]" using 2 i by (simp add: line_of_def take_Suc_conv_app_nth)
    moreover have "take i cs @ 10 # drop (Suc i) cs = cs" using id_take_nth_drop [OF i(2)] i(3) by simp
    ultimately show ?thesis using i by (auto simp: butlast_append)
  qed
  then show "line_of n cs \<noteq> []" "line_of n cs @ drop (length (line_of n cs)) cs = cs" "length (line_of n cs) \<le> n"
    "10 \<notin> set (butlast (line_of n cs))" "last (line_of n cs) = 10 \<or> length (line_of n cs) = n \<or> line_of n cs = cs" by blast+
qed

lemma read_lines_law:
  assumes "mem_table methods m malloc" "1 < k" "k < 2 ^ 31"
  shows "mem_holds m p ro eof h cs \<Longrightarrow> length cs < n \<Longrightarrow>
    \<exists>ls. read_lines methods n h p k = Some ls \<and> concat ls = cs \<and>
      (\<forall>l\<in>set ls. l \<noteq> [] \<and> length l < nat k \<and> 10 \<notin> set (butlast l)) \<and>
      (\<forall>l\<in>set (butlast ls). last l = 10 \<or> length l = nat k - 1)"
proof (induction n arbitrary: h cs)
  case (Suc n)
  let ?l = "line_of (nat k - 1) cs"
  obtain h' where g: "BIO_gets methods h p k = Some (int (length ?l), ?l, h')" "mem_holds m p ro eof h' (drop (length ?l) cs)"
    using mem_BIO_gets [OF assms(1) Suc.prems(1) assms(2,3)] by blast
  show ?case
  proof (cases "cs = []")
    case True
    then have "?l = []" by (simp add: line_of_def OPENSSL_memchr_def)
    then show ?thesis using g(1) True by simp
  next
    case False
    have k: "0 < nat k - 1" using assms(2) by simp
    note line = line_of_parts [OF False k]
    have "length (drop (length ?l) cs) < n" using line(1) Suc.prems(2) False by (cases ?l; cases cs) auto
    from Suc.IH [OF g(2) this] obtain ls where ls: "read_lines methods n h' p k = Some ls" "concat ls = drop (length ?l) cs"
      "\<forall>l\<in>set ls. l \<noteq> [] \<and> length l < nat k \<and> 10 \<notin> set (butlast l)"
      "\<forall>l\<in>set (butlast ls). last l = 10 \<or> length l = nat k - 1" by blast
    have "last ?l = 10 \<or> length ?l = nat k - 1" if "ls \<noteq> []"
    proof -
      have "drop (length ?l) cs \<noteq> []" using that ls(2,3) by (cases ls) auto
      then show ?thesis using line(5) by auto
    qed
    moreover have "read_lines methods (Suc n) h p k = Some (?l # ls)" using g(1) ls(1) line(1) by simp
    moreover have "length ?l < nat k" using line(3) k by linarith
    ultimately show ?thesis using ls line by (intro exI [of _ "?l # ls"]) auto
  qed
qed simp

text \<open>
  C19: reading a memory BIO line by line loses nothing and ends: the pieces put together are the contents, none is empty or
  longer than the buffer holds beside its terminator, a newline is only at the end of a piece, and every piece but the last
  ends with one or fills the buffer.
\<close>

theorem mem_gets_splits_lines:
  assumes "mem_table methods m malloc" "mem_holds m p ro eof h cs" "1 < k" "k < 2 ^ 31"
  shows "\<exists>ls. read_lines methods (Suc (length cs)) h p k = Some ls \<and> concat ls = cs \<and>
    list_all (\<lambda>l. l \<noteq> [] \<and> length l < nat k \<and> 10 \<notin> set (butlast l)) ls \<and>
    list_all (\<lambda>l. last l = 10 \<or> length l = nat k - 1) (butlast ls)"
  using read_lines_law [OF assms(1,3,4,2), of "Suc (length cs)"] by (simp add: list_all_iff)

lemma mem_gets_splits_lines_witness:
  "\<exists>ls. read_lines (bio_tables True any_block (\<lambda>_. None)) 6 octets_bio 5 4 = Some ls \<and> concat ls = [4, 2, 0xaa, 0xbb, 5]"
proof -
  let ?cs = "[4, 2, 0xaa, 0xbb, 5] :: bytes"
  obtain ls where "read_lines (bio_tables True any_block (\<lambda>_. None)) (Suc (length ?cs)) octets_bio 5 4 = Some ls" "concat ls = ?cs"
    using mem_gets_splits_lines [OF tables(2) octets_bio_holds, of 4 True any_block "\<lambda>_. None"] by auto
  moreover have "Suc (length ?cs) = 6" by simp
  ultimately show ?thesis by metis
qed

text \<open>
  C20: a read error other than -1 goes unnoticed in the reader of everything: when the BIO answers -2 and then reports the end,
  the call succeeds, and the two bytes of the header, already in the buffer, are not part of what it returns.
\<close>

theorem read_all_hides_error:
  assumes "length pre = 2" "malloc 4098 = Some blk" "length blk = 4098" "4098 \<le> max_len"
    and "BIO_read methods h p 4096 = Some (-2, [], h1)" "BIO_read methods h1 p 4098 = Some (0, [], h2)"
  shows "bio_read_all methods malloc h p pre max_len = Some (Some [], h2)"
proof -
  let ?buf = "copy_at blk 0 pre"
  have len: "length ?buf = 4098" using assms(1,3) by (simp add: length_copy_at)
  have wrap: "size_add 2 (size_of_int (-2)) = 0" by (simp add: size_add_def size_of_int_def)
  have "read_all_loop methods malloc h p max_len ?buf 2 = read_all_loop methods malloc h1 p max_len ?buf 0"
    using assms(5) len wrap
    by (subst read_all_loop.simps) (simp add: size_add_def Let_def grow_read_buffer_def kChunkSize_def)
  also have "\<dots> = Some (Some [], h2)"
    using assms(6) len by (subst read_all_loop.simps) (simp add: size_add_def Let_def)
  finally show ?thesis
    using assms(1,2,4) by (simp add: bio_read_all_def kChunkSize_def Let_def size_add_def)
qed

text \<open>A table whose BIOs report an error once and then the end of the data.\<close>

definition error_then_end :: methods where
  "error_then_end m = \<lparr>mtype = 0x480, bwrite = None,
     bread = Some (\<lambda>h p _ _. with_bio h p (\<lambda>b. if bio_num b \<noteq> 0 then Some (-2, [], set_bio p (b\<lparr>bio_num := 0\<rparr>) h) else Some (0, [], h))),
     bgets = None, mctrl = None, create = None, destroy = None\<rparr>"

lemma read_all_hides_error_witness:
  "\<exists>h2. bio_read_all error_then_end any_block empty_mem 5 [0x30, 0x80] 10000 = Some (Some [], h2)"
proof -
  let ?h1 = "empty_mem\<lparr>bios := (bios empty_mem)(5 \<mapsto> (the (bios empty_mem 5))\<lparr>bio_num := 0\<rparr>)\<rparr>"
  have "BIO_read error_then_end empty_mem 5 4096 = Some (-2, [], ?h1)"
    by (simp add: BIO_read_def error_then_end_def empty_mem_def set_bio_def)
  moreover have "BIO_read error_then_end ?h1 5 4098 = Some (0, [], ?h1)"
    by (simp add: BIO_read_def error_then_end_def empty_mem_def set_bio_def)
  ultimately show ?thesis
    using read_all_hides_error [of "[0x30, 0x80]" any_block "replicate 4098 0" 10000 error_then_end empty_mem 5 ?h1 ?h1]
    by (auto simp: any_block_def)
qed

end
