(* ===== verification/Conf.thy ===== *)
theory Conf
  imports Stack LhashSteps BioMem
begin

text \<open>
  \<^verbatim>\<open>crypto/conf/conf.c\<close>: configuration files as sections of named values. A \<open>CONF\<close> owns two hash tables, of sections
  and of values, and each section a stack of pointers to its values: the three structures refer to the same objects.

  The objects are in a heap: a freed object has no entry there, and a pointer is the address of an object. C strings are
  lists of bytes without the terminator. The parameters of the allocator are collected in \<open>conf_mem\<close>.
\<close>

record CONF_VALUE =
  v_section :: "bytes option"
  v_name :: "bytes option"
  v_value :: "bytes option"

record CONF_SECTION =
  s_name :: bytes
  s_values :: stack_st

record conf_state =
  conf_sections :: lhash_st
  conf_values :: lhash_st
  hvals :: "int \<rightharpoonup> CONF_VALUE"
  hsecs :: "int \<rightharpoonup> CONF_SECTION"

text \<open>
  \<open>cm_malloc\<close> and \<open>cm_ptrs\<close> say what the allocator does for a number of bytes, \<open>cm_blocks\<close> are the blocks it gives to a
  growing buffer, \<open>cm_section\<close> and \<open>cm_value\<close> are the addresses of new objects.
\<close>

record conf_mem =
  cm_malloc :: "nat \<Rightarrow> bool"
  cm_ptrs :: ptr_allocator
  cm_blocks :: allocator
  cm_section :: "conf_state \<Rightarrow> int option"
  cm_value :: "conf_state \<Rightarrow> int option"

definition kDefaultSectionName :: bytes where
  "kDefaultSectionName = [100, 101, 102, 97, 117, 108, 116]"

section \<open>The functions of the tables\<close>

text \<open>\<open>strcmp\<close> of the C library.\<close>

fun strcmp :: "bytes \<Rightarrow> bytes \<Rightarrow> int" where
  "strcmp [] [] = 0"
| "strcmp [] (b # bs) = -1"
| "strcmp (a # as) [] = 1"
| "strcmp (a # as) (b # bs) = (if a = b then strcmp as bs else if a < b then -1 else 1)"

definition section_name :: "conf_state \<Rightarrow> int \<Rightarrow> bytes" where
  "section_name c p = (case hsecs c p of Some s \<Rightarrow> s_name s | None \<Rightarrow> [])"

definition value_key :: "conf_state \<Rightarrow> int \<Rightarrow> bytes \<times> bytes" where
  "value_key c p =
     (case hvals c p of
        Some v \<Rightarrow> (case v_section v of Some s \<Rightarrow> s | None \<Rightarrow> [], case v_name v of Some n \<Rightarrow> n | None \<Rightarrow> [])
      | None \<Rightarrow> ([], []))"

definition conf_section_hash :: "conf_state \<Rightarrow> lh_hash" where
  "conf_section_hash c s = OPENSSL_strhash (section_name c s)"

definition conf_section_cmp :: "conf_state \<Rightarrow> lh_cmp" where
  "conf_section_cmp c a b = strcmp (section_name c a) (section_name c b)"

definition conf_value_hash :: "conf_state \<Rightarrow> lh_hash" where
  "conf_value_hash c v =
     (case value_key c v of
        (section, name) \<Rightarrow> push_bit 2 (OPENSSL_strhash section) XOR OPENSSL_strhash name)"

definition conf_value_cmp :: "conf_state \<Rightarrow> lh_cmp" where
  "conf_value_cmp c a b =
     (let cmp = strcmp (fst (value_key c a)) (fst (value_key c b))
      in if cmp \<noteq> 0 then cmp else strcmp (snd (value_key c a)) (snd (value_key c b)))"

lemma strcmp_zero [simp]: "strcmp a b = 0 \<longleftrightarrow> a = b"
  by (induction a b rule: strcmp.induct) auto

lemma section_cmp_zero: "conf_section_cmp c a b = 0 \<longleftrightarrow> section_name c a = section_name c b"
  by (simp add: conf_section_cmp_def)

lemma value_cmp_zero: "conf_value_cmp c a b = 0 \<longleftrightarrow> value_key c a = value_key c b"
  by (auto simp: conf_value_cmp_def Let_def prod_eq_iff)

interpretation section_table: hashing "conf_section_hash c" "conf_section_cmp c" for c
  by unfold_locales (auto simp: section_cmp_zero conf_section_hash_def)

interpretation value_table: hashing "conf_value_hash c" "conf_value_cmp c" for c
  by unfold_locales (auto simp: value_cmp_zero conf_value_hash_def)

section \<open>Sections and values\<close>

definition section_free :: "int \<Rightarrow> conf_state \<Rightarrow> conf_state" where
  "section_free s c = (if s = 0 then c else c\<lparr>hsecs := (hsecs c)(s := None)\<rparr>)"

definition value_free :: "int \<Rightarrow> conf_state \<Rightarrow> conf_state" where
  "value_free v c = (if v = 0 then c else c\<lparr>hvals := (hvals c)(v := None)\<rparr>)"

text \<open>The tables of a new object; a table that was made is freed when the other one cannot be.\<close>

definition NCONF_new :: "conf_mem \<Rightarrow> int \<Rightarrow> conf_state \<Rightarrow> conf_state option" where
  "NCONF_new cm method c =
     (if method \<noteq> 0 then None
      else if \<not> cm_malloc cm 16 then None
      else case (OPENSSL_lh_new (cm_malloc cm 48) (cm_malloc cm), OPENSSL_lh_new (cm_malloc cm 48) (cm_malloc cm)) of
             (Some s, Some v) \<Rightarrow> Some (c\<lparr>conf_sections := s, conf_values := v\<rparr>)
           | _ \<Rightarrow> None)"

definition CONF_VALUE_new :: "conf_mem \<Rightarrow> conf_state \<Rightarrow> int \<times> conf_state" where
  "CONF_VALUE_new cm c =
     (case cm_value cm c of
        None \<Rightarrow> (0, c)
      | Some v \<Rightarrow> (v, c\<lparr>hvals := (hvals c)(v \<mapsto> \<lparr>v_section = None, v_name = None, v_value = None\<rparr>)\<rparr>))"

text \<open>What is left when everything that the tables point to has been freed; the tables themselves go with it.\<close>

definition NCONF_free :: "conf_mem \<Rightarrow> conf_state \<Rightarrow> conf_state" where
  "NCONF_free cm c =
     (let c = fst (OPENSSL_lh_doall_arg (cm_malloc cm) (Some (conf_sections c)) section_free c)
      in fst (OPENSSL_lh_doall_arg (cm_malloc cm) (Some (conf_values c)) value_free c))"

text \<open>The result is the new section, 0 for failure.\<close>

definition NCONF_new_section :: "conf_mem \<Rightarrow> conf_state \<Rightarrow> bytes \<Rightarrow> int \<times> conf_state" where
  "NCONF_new_section cm c section =
     (case cm_section cm c of
        None \<Rightarrow> (0, c)
      | Some s \<Rightarrow>
          (case OPENSSL_sk_new_null (cm_ptrs cm) (cm_malloc cm 40) of
             None \<Rightarrow> (0, c)
           | Some vals \<Rightarrow>
               if \<not> cm_malloc cm (length section + 1) then (0, c)
               else
                 let c' = c\<lparr>hsecs := (hsecs c)(s \<mapsto> \<lparr>s_name = section, s_values = vals\<rparr>)\<rparr>
                 in (case OPENSSL_lh_insert (cm_malloc cm) (cm_malloc cm) (conf_sections c') (conf_section_hash c')
                            (conf_section_cmp c') s of
                       (False, _, lh) \<Rightarrow> (0, section_free s (c'\<lparr>conf_sections := lh\<rparr>))
                     | (True, old_section, lh) \<Rightarrow> (s, section_free old_section (c'\<lparr>conf_sections := lh\<rparr>)))))"

text \<open>A lookup is made with an object on the stack that is all zero beside its name; \<open>template\<close> is its address.\<close>

definition template :: int where "template = -1"

definition zero_stack :: stack_st where
  "zero_stack = \<lparr>st_num = 0, st_data = [], st_sorted = False, st_num_alloc = 0, st_comp = 0\<rparr>"

definition get_section :: "conf_state \<Rightarrow> bytes \<Rightarrow> int" where
  "get_section c section =
     (let c' = c\<lparr>hsecs := (hsecs c)(template \<mapsto> \<lparr>s_name = section, s_values = zero_stack\<rparr>)\<rparr>
      in OPENSSL_lh_retrieve (conf_sections c) (conf_section_hash c') (conf_section_cmp c') template)"

definition NCONF_get_section :: "conf_state \<Rightarrow> bytes \<Rightarrow> OPENSSL_STACK" where
  "NCONF_get_section c section =
     (let section_obj = get_section c section
      in if section_obj = 0 then None else map_option s_values (hsecs c section_obj))"

definition NCONF_get_string :: "conf_state \<Rightarrow> bytes option \<Rightarrow> bytes \<Rightarrow> bytes option" where
  "NCONF_get_string c section name =
     (let section = (case section of None \<Rightarrow> kDefaultSectionName | Some s \<Rightarrow> s);
          c' = c\<lparr>hvals := (hvals c)(template \<mapsto> \<lparr>v_section = Some section, v_name = Some name, v_value = None\<rparr>)\<rparr>;
          v = OPENSSL_lh_retrieve (conf_values c) (conf_value_hash c') (conf_value_cmp c') template
      in if v = 0 then None else case hvals c v of None \<Rightarrow> None | Some x \<Rightarrow> v_value x)"

text \<open>The stack of a section is changed through its pointer.\<close>

definition set_values :: "int \<Rightarrow> OPENSSL_STACK \<Rightarrow> conf_state \<Rightarrow> conf_state" where
  "set_values section sk c =
     (case (hsecs c section, sk) of
        (Some s, Some vals) \<Rightarrow> c\<lparr>hsecs := (hsecs c)(section \<mapsto> s\<lparr>s_values := vals\<rparr>)\<rparr>
      | _ \<Rightarrow> c)"

definition values_of :: "conf_state \<Rightarrow> int \<Rightarrow> OPENSSL_STACK" where
  "values_of c section = map_option s_values (hsecs c section)"

definition add_string :: "conf_mem \<Rightarrow> conf_state \<Rightarrow> int \<Rightarrow> int \<Rightarrow> bool \<times> conf_state" where
  "add_string cm c section v =
     (if \<not> cm_malloc cm (length (section_name c section) + 1) then (False, c)
      else
        let c = c\<lparr>hvals := (hvals c)(v := map_option (\<lambda>x. x\<lparr>v_section := Some (section_name c section)\<rparr>) (hvals c v))\<rparr>
        in case OPENSSL_sk_push (cm_ptrs cm) (values_of c section) v of
             (n, sk) \<Rightarrow>
               let c = set_values section sk c
               in if n = 0 then (False, c)
                  else case OPENSSL_lh_insert (cm_malloc cm) (cm_malloc cm) (conf_values c) (conf_value_hash c) (conf_value_cmp c) v of
                         (False, _, lh) \<Rightarrow>
                           (False, set_values section (snd (OPENSSL_sk_pop (values_of c section))) (c\<lparr>conf_values := lh\<rparr>))
                       | (True, old_value, lh) \<Rightarrow>
                           let c = c\<lparr>conf_values := lh\<rparr>
                           in if old_value \<noteq> 0 then
                                (True, value_free old_value
                                   (set_values section (snd (OPENSSL_sk_delete_ptr (values_of c section) old_value)) c))
                              else (True, c))"

section \<open>Characters\<close>

text \<open>
  A string is a list of bytes without its terminator, a pointer into it the rest of the list from there: the end of the list is
  the terminator. Writing a terminator cuts the string.
\<close>

definition is_comment :: "u8 \<Rightarrow> bool" where "is_comment c \<longleftrightarrow> c = 0x23"
definition is_quote :: "u8 \<Rightarrow> bool" where "is_quote c \<longleftrightarrow> c = 0x22 \<or> c = 0x27 \<or> c = 0x60"
definition is_esc :: "u8 \<Rightarrow> bool" where "is_esc c \<longleftrightarrow> c = 0x5c"
definition is_conf_ws :: "u8 \<Rightarrow> bool" where "is_conf_ws c \<longleftrightarrow> c = 0x20 \<or> c = 0x09 \<or> c = 0x0d \<or> c = 0x0a"

definition is_name_char :: "u8 \<Rightarrow> bool" where
  "is_name_char c \<longleftrightarrow> OPENSSL_isalnum (sint c) \<or>
     c \<in> {0x5f, 0x21, 0x2e, 0x25, 0x26, 0x2a, 0x2b, 0x2c, 0x2f, 0x3b, 0x3f, 0x40, 0x5e, 0x7e, 0x7c, 0x2d}"

text \<open>The inner loop of \<open>str_copy\<close>, up to the closing quote: what is copied, and the rest behind the quote.\<close>

fun copy_quoted :: "u8 \<Rightarrow> bytes \<Rightarrow> bytes \<times> bytes" where
  "copy_quoted q [] = ([], [])"
| "copy_quoted q (c # from) =
     (if c = q then ([], from)
      else if is_esc c then
        (case from of
           [] \<Rightarrow> ([], [])
         | d # from \<Rightarrow> (case copy_quoted q from of (out, from) \<Rightarrow> (d # out, from)))
      else (case copy_quoted q from of (out, from) \<Rightarrow> (c # out, from)))"

lemma copy_quoted_shorter: "length (snd (copy_quoted q from)) \<le> length from"
proof (induction q "from" rule: copy_quoted.induct)
  case (2 q c p)
  then show ?case by (cases p) (simp_all add: case_prod_unfold le_SucI)
qed simp

definition escaped :: "u8 \<Rightarrow> u8" where
  "escaped v = (if v = 0x72 then 0x0d else if v = 0x6e then 0x0a else if v = 0x62 then 0x08 else if v = 0x74 then 0x09 else v)"

text \<open>One round of the loop of \<open>str_copy\<close>: what it copies and where it goes on, or the error.\<close>

definition copy_step :: "u8 \<Rightarrow> bytes \<Rightarrow> (bytes \<times> bytes) option" where
  "copy_step c from =
     (if is_quote c then Some (copy_quoted c from)
      else if is_esc c then Some (case from of [] \<Rightarrow> ([], []) | v # from \<Rightarrow> ([escaped v], from))
      else if c = 0x24 then None
      else Some ([c], from))"

lemma copy_step_shorter: "copy_step c from = Some (out, rest) \<Longrightarrow> length rest \<le> length from"
  using copy_quoted_shorter [of c "from"] by (cases "from") (auto simp: copy_step_def split: if_splits)

function copy_text :: "bytes \<Rightarrow> bytes option" where
  "copy_text [] = Some []"
| "copy_text (c # from) =
     (case copy_step c from of None \<Rightarrow> None | Some (out, from) \<Rightarrow> map_option (\<lambda>rest. out @ rest) (copy_text from))"
  by pat_completeness simp_all
termination copy_text
  by (relation "measure length") (auto simp: less_Suc_eq_le dest: copy_step_shorter)

text \<open>The copy replaces the string that \<open>pto\<close> points to; the result is the new string.\<close>

definition str_copy :: "conf_mem \<Rightarrow> bytes \<Rightarrow> bytes option" where
  "str_copy cm from =
     (if \<not> cm_malloc cm 24 then None
      else case BUF_MEM_grow (cm_blocks cm) \<lparr>bm_length = 0, bm_data = None, bm_pos = 0, bm_max = 0\<rparr> (length from + 1) of
             (n, _) \<Rightarrow> if n = 0 then None else copy_text from)"

definition eat_ws :: "bytes \<Rightarrow> bytes" where
  "eat_ws p = dropWhile is_conf_ws p"

definition scan_esc :: "bytes \<Rightarrow> bytes" where
  "scan_esc p = (case p of _ # _ # p \<Rightarrow> p | _ \<Rightarrow> [])"

function eat_name :: "bytes \<Rightarrow> bytes" where
  "eat_name [] = []"
| "eat_name (c # p) =
     (if is_esc c then eat_name (scan_esc (c # p))
      else if \<not> is_name_char c then c # p
      else eat_name p)"
  by pat_completeness auto
termination eat_name
  by (relation "measure length") (auto simp: scan_esc_def split: list.split)

text \<open>Behind the opening quote \<open>q\<close>.\<close>

fun scan_quote :: "u8 \<Rightarrow> bytes \<Rightarrow> bytes" where
  "scan_quote q [] = []"
| "scan_quote q (c # p) =
     (if c = q then p
      else if is_esc c then (case p of [] \<Rightarrow> [] | _ # p \<Rightarrow> scan_quote q p)
      else scan_quote q p)"

lemma scan_quote_shorter: "length (scan_quote q p) \<le> length p"
proof (induction q p rule: scan_quote.induct)
  case (2 q c p)
  then show ?case by (cases p) (simp_all add: le_SucI)
qed simp

text \<open>The string up to the first comment, from a place that is no comment to the next.\<close>

definition pass_over :: "u8 \<Rightarrow> bytes \<Rightarrow> bytes" where
  "pass_over c p = (if is_quote c then scan_quote c p else if is_esc c then scan_esc (c # p) else p)"

lemma pass_over_shorter: "length (pass_over c p) \<le> length p"
  using scan_quote_shorter [of c p] by (cases p) (auto simp: pass_over_def scan_esc_def)

function clear_loop :: "bytes \<Rightarrow> bytes" where
  "clear_loop [] = []"
| "clear_loop (c # p) =
     (if is_comment c then [] else take (length (c # p) - length (pass_over c p)) (c # p) @ clear_loop (pass_over c p))"
  by pat_completeness simp_all
termination clear_loop
  by (relation "measure length") (simp_all add: less_Suc_eq_le pass_over_shorter)

definition clear_comments :: "bytes \<Rightarrow> bytes" where
  "clear_comments p = takeWhile is_conf_ws p @ clear_loop (dropWhile is_conf_ws p)"

end
