(* ===== verification/ConfLoad.thy ===== *)
theory ConfLoad
  imports Conf
begin

text \<open>
  The loader of \<^verbatim>\<open>crypto/conf/conf.c\<close>: \<open>NCONF_load_bio\<close> reads a configuration line by line from a BIO and enters the
  values into the tables, and \<open>CONF_parse_list\<close> cuts a list at its separators.
\<close>

section \<open>One line\<close>

text \<open>The name of a section, behind the bracket: where it ends, or none if the closing bracket is missing.\<close>

lemma scan_esc_shorter: "length (scan_esc (c # p)) \<le> length p"
  by (cases p) (simp_all add: scan_esc_def)

lemma eat_name_shorter: "length (eat_name p) \<le> length p"
proof (induction p rule: eat_name.induct)
  case (2 c p)
  then show ?case using scan_esc_shorter [of c p] by auto
qed simp

lemma eat_ws_shorter: "length (eat_ws p) \<le> length p"
  by (simp add: eat_ws_def length_dropWhile_le)

function section_end :: "bytes \<Rightarrow> bytes option" where
  "section_end ss =
     (let p = eat_ws (eat_name ss)
      in if p \<noteq> [] \<and> hd p = 0x5d then Some (eat_name ss)
         else if p \<noteq> [] \<and> length p \<noteq> length ss then section_end p
         else None)"
  by pat_completeness simp_all
termination section_end
proof (relation "measure length", goal_cases)
  case (2 ss p)
  then show ?case using eat_ws_shorter [of "eat_name ss"] eat_name_shorter [of ss] by simp
qed simp

declare section_end.simps [simp del]

text \<open>The part of a string before a place in it.\<close>

definition cut_at :: "bytes \<Rightarrow> bytes \<Rightarrow> bytes" where
  "cut_at s end = take (length s - length end) s"

text \<open>
  What the loader keeps from line to line: the object, the name of the section it is in and that section, and the number of
  lines.
\<close>

record load_state =
  ld_conf :: conf_state
  ld_section :: bytes
  ld_sv :: int
  ld_eline :: int

definition find_section :: "conf_mem \<Rightarrow> conf_state \<Rightarrow> bytes \<Rightarrow> int \<times> conf_state" where
  "find_section cm c name = (let sv = get_section c name in if sv = 0 then NCONF_new_section cm c name else (sv, c))"

definition load_section :: "conf_mem \<Rightarrow> load_state \<Rightarrow> bytes \<Rightarrow> bool \<times> load_state" where
  "load_section cm st s =
     (let start = eat_ws s
      in case section_end start of
           None \<Rightarrow> (False, st)
         | Some end \<Rightarrow>
             (case str_copy cm (cut_at start end) of
                None \<Rightarrow> (False, st)
              | Some section \<Rightarrow>
                  (case find_section cm (ld_conf st) section of
                     (sv, c) \<Rightarrow> (sv \<noteq> 0, st\<lparr>ld_conf := c, ld_section := section, ld_sv := sv\<rparr>))))"

text \<open>The section, if it is named, the name and the value of an assignment.\<close>

definition trim_end :: "bytes \<Rightarrow> bytes" where
  "trim_end p = rev (dropWhile is_conf_ws (rev p))"

definition split_assignment :: "bytes \<Rightarrow> (bytes option \<times> bytes \<times> bytes) option" where
  "split_assignment s =
     (let end = eat_name s;
          (psection, pname, end) =
            (if take 2 end = [0x3a, 0x3a] then (Some (cut_at s end), drop 2 end, eat_name (drop 2 end)) else (None, s, end));
          p = eat_ws end
      in if p \<noteq> [] \<and> hd p = 0x3d then Some (psection, cut_at pname end, trim_end (eat_ws (tl p))) else None)"

text \<open>A value that is made and not entered is freed.\<close>

definition load_assignment :: "conf_mem \<Rightarrow> load_state \<Rightarrow> bytes \<Rightarrow> bool \<times> load_state" where
  "load_assignment cm st s =
     (case split_assignment s of
        None \<Rightarrow> (False, st)
      | Some (psection, pname, start) \<Rightarrow>
          (case CONF_VALUE_new cm (ld_conf st) of
             (v, c) \<Rightarrow>
               if v = 0 then (False, st)
               else
                 let psection = (case psection of None \<Rightarrow> ld_section st | Some s \<Rightarrow> s);
                     fail = (\<lambda>c. (False, st\<lparr>ld_conf := value_free v c\<rparr>))
                 in if \<not> cm_malloc cm (length pname + 1) then fail c
                    else case str_copy cm start of
                           None \<Rightarrow> fail c
                         | Some x \<Rightarrow>
                             let c = c\<lparr>hvals := (hvals c)(v \<mapsto> \<lparr>v_section = None, v_name = Some pname, v_value = Some x\<rparr>)\<rparr>
                             in case (if psection \<noteq> ld_section st then find_section cm c psection else (ld_sv st, c)) of
                                  (tv, c) \<Rightarrow>
                                    if tv = 0 then fail c
                                    else case add_string cm c tv v of
                                           (False, c) \<Rightarrow> fail c
                                         | (True, c) \<Rightarrow> (True, st\<lparr>ld_conf := c\<rparr>)))"

definition load_line :: "conf_mem \<Rightarrow> load_state \<Rightarrow> bytes \<Rightarrow> bool \<times> load_state" where
  "load_line cm st line =
     (let s = eat_ws (clear_comments line)
      in if s = [] then (True, st)
         else if hd s = 0x5b then load_section cm st (tl s)
         else load_assignment cm st s)"

section \<open>The lines of a BIO\<close>

definition CONFBUFSIZE :: nat where "CONFBUFSIZE = 512"

text \<open>
  The buffer of the loader: the block, the bytes of the line so far, and whether the line goes on. A read puts what it gets
  behind the line so far; the result is whether the data ends, the line goes on, or the line is complete.
\<close>

record line_buf =
  lb_buff :: buf_mem_st
  lb_bufnum :: nat
  lb_again :: bool

datatype line_event = Line_failed | Line_end | Line_more | Line bytes

definition c_string :: "bytes \<Rightarrow> bytes" where
  "c_string p = takeWhile (\<lambda>b. b \<noteq> 0) p"

definition strip_newlines :: "bytes \<Rightarrow> bytes" where
  "strip_newlines p = rev (dropWhile (\<lambda>b. b = 0x0d \<or> b = 0x0a) (rev p))"

definition ends_in_escape :: "bytes \<Rightarrow> bool" where
  "ends_in_escape line \<longleftrightarrow> line \<noteq> [] \<and> is_esc (last line) \<and> (length line \<le> 1 \<or> \<not> is_esc (line ! (length line - 2)))"

text \<open>
  What is done with \<open>p\<close>, the string that has been read to the place \<open>bufnum\<close>: its newlines are cut off, and the line is
  complete unless it had none or ends in a single backslash.
\<close>

definition line_piece :: "line_buf \<Rightarrow> int \<Rightarrow> line_event \<times> line_buf \<times> int" where
  "line_piece lb eline =
     (let at = lb_bufnum lb; buff = lb_buff lb;
          p = (case bm_data buff of None \<Rightarrow> [] | Some blk \<Rightarrow> c_string (drop at blk))
      in if p = [] \<and> \<not> lb_again lb then (Line_end, lb, eline)
         else
           let q = strip_newlines p;
               long = (p \<noteq> [] \<and> q = p);
               buff = (if long then buff else buf_store buff (at + length q) [0]);
               eline = (if long then eline else eline + 1);
               line = (case bm_data buff of None \<Rightarrow> [] | Some blk \<Rightarrow> take (at + length q) blk);
               esc = ends_in_escape line;
               lb = lb\<lparr>lb_buff := buff, lb_bufnum := length line - (if esc then 1 else 0), lb_again := long \<or> esc\<rparr>
           in if long \<or> esc then (Line_more, lb, eline)
              else (Line line, lb\<lparr>lb_bufnum := 0\<rparr>, eline))"

definition read_line_chunk ::
    "methods \<Rightarrow> conf_mem \<Rightarrow> bio_heap \<Rightarrow> int \<Rightarrow> line_buf \<Rightarrow> int \<Rightarrow> (line_event \<times> line_buf \<times> int \<times> bio_heap) option" where
  "read_line_chunk methods cm h in_bio lb eline =
     (case BUF_MEM_grow (cm_blocks cm) (lb_buff lb) (lb_bufnum lb + CONFBUFSIZE) of
        (n, buff) \<Rightarrow>
          if n = 0 then Some (Line_failed, lb\<lparr>lb_buff := buff\<rparr>, eline, h)
          else
            let at = lb_bufnum lb; buff = buf_store buff at [0]
            in case BIO_gets methods h in_bio (int (CONFBUFSIZE - 1)) of
                 None \<Rightarrow> None
               | Some (_, out, h) \<Rightarrow>
                   let buff = buf_store (buf_store buff at (out @ [0])) (at + (CONFBUFSIZE - 1)) [0]
                   in case line_piece (lb\<lparr>lb_buff := buff\<rparr>) eline of
                        (event, lb, eline) \<Rightarrow> Some (event, lb, eline, h))"

partial_function (option) load_loop ::
    "methods \<Rightarrow> conf_mem \<Rightarrow> bio_heap \<Rightarrow> int \<Rightarrow> line_buf \<Rightarrow> load_state \<Rightarrow> (bool \<times> load_state \<times> bio_heap) option" where
  "load_loop methods cm h in_bio lb st =
     (case read_line_chunk methods cm h in_bio lb (ld_eline st) of
        None \<Rightarrow> None
      | Some (event, lb, eline, h) \<Rightarrow>
          let st = st\<lparr>ld_eline := eline\<rparr>
          in case event of
               Line_failed \<Rightarrow> Some (False, st, h)
             | Line_end \<Rightarrow> Some (True, st, h)
             | Line_more \<Rightarrow> load_loop methods cm h in_bio lb st
             | Line line \<Rightarrow>
                 (case load_line cm st line of
                    (ok, st) \<Rightarrow> if ok then load_loop methods cm h in_bio lb st else Some (False, st, h)))"

text \<open>The result is the return value, the line of an error, and the objects.\<close>

definition NCONF_load_bio ::
    "methods \<Rightarrow> conf_mem \<Rightarrow> bio_heap \<Rightarrow> conf_state \<Rightarrow> int \<Rightarrow> ((bool \<times> int) \<times> conf_state \<times> bio_heap) option" where
  "NCONF_load_bio methods cm h c in_bio =
     (if \<not> cm_malloc cm 24 \<or> \<not> cm_malloc cm (length kDefaultSectionName + 1) then Some ((False, 0), c, h)
      else case NCONF_new_section cm c kDefaultSectionName of
             (sv, c) \<Rightarrow>
               if sv = 0 then Some ((False, 0), c, h)
               else map_option (\<lambda>(ok, st, h). ((ok, ld_eline st), ld_conf st, h))
                      (load_loop methods cm h in_bio
                         \<lparr>lb_buff = \<lparr>bm_length = 0, bm_data = None, bm_pos = 0, bm_max = 0\<rparr>, lb_bufnum = 0, lb_again = False\<rparr>
                         \<lparr>ld_conf = c, ld_section = kDefaultSectionName, ld_sv = sv, ld_eline = 0\<rparr>))"

text \<open>Files are opened by the C library: \<open>open_file\<close> gives the BIO of a file, or 0.\<close>

definition NCONF_load ::
    "methods \<Rightarrow> conf_mem \<Rightarrow> (bio_heap \<Rightarrow> bytes \<Rightarrow> int \<times> bio_heap) \<Rightarrow> bio_heap \<Rightarrow> conf_state \<Rightarrow> bytes \<Rightarrow>
     ((bool \<times> int option) \<times> conf_state \<times> bio_heap) option" where
  "NCONF_load methods cm open_file h c filename =
     (case open_file h filename of
        (in_bio, h) \<Rightarrow>
          if in_bio = 0 then Some ((False, None), c, h)
          else case NCONF_load_bio methods cm h c in_bio of
                 None \<Rightarrow> None
               | Some ((ok, line), c, h) \<Rightarrow>
                   (case BIO_free methods h in_bio of
                      None \<Rightarrow> None
                    | Some (_, h) \<Rightarrow> Some ((ok, if ok then None else Some line), c, h)))"

section \<open>Lists\<close>

text \<open>
  The callback gets an element, or \<open>None\<close> for an empty one, and the state of the caller; the loop ends at a result that is
  not positive. The separator is not the terminator of strings.
\<close>

definition skip_space :: "bytes \<Rightarrow> bytes" where
  "skip_space p = dropWhile (\<lambda>b. OPENSSL_isspace (uint b)) p"

definition list_elem :: "bool \<Rightarrow> bytes \<Rightarrow> bytes option" where
  "list_elem remove_whitespace elem =
     (if elem = [] then None
      else Some (if remove_whitespace then rev (dropWhile (\<lambda>b. OPENSSL_isspace (uint b)) (rev elem)) else elem))"

function parse_list_loop :: "bool \<Rightarrow> u8 \<Rightarrow> (bytes option \<Rightarrow> 'a \<Rightarrow> int \<times> 'a) \<Rightarrow> bytes \<Rightarrow> 'a \<Rightarrow> int \<times> 'a" where
  "parse_list_loop remove_whitespace sep list_cb lst arg =
     (let lstart = (if remove_whitespace then skip_space lst else lst);
          elem = takeWhile (\<lambda>b. b \<noteq> sep) lstart
      in case list_cb (list_elem remove_whitespace elem) arg of
           (ret, arg) \<Rightarrow>
             if ret \<le> 0 then (ret, arg)
             else if length elem < length lstart
             then parse_list_loop remove_whitespace sep list_cb (drop (Suc (length elem)) lstart) arg
             else (1, arg))"
  by pat_completeness simp_all
termination parse_list_loop
proof (relation "measure (\<lambda>(_, _, _, lst, _). length lst)")
  fix r sep f lst and arg lstart elem x ret arg'
  assume "lstart = (if r then skip_space lst else lst)" "length elem < length lstart"
  then show "((r, sep, f, drop (Suc (length elem)) lstart, arg'), (r, sep, f, lst, arg)) \<in> measure (\<lambda>(_, _, _, lst, _). length lst)"
    using length_dropWhile_le [of "\<lambda>b. OPENSSL_isspace (uint b)" lst] by (auto simp: skip_space_def split: if_splits)
qed simp

declare parse_list_loop.simps [simp del]

definition CONF_parse_list :: "bytes option \<Rightarrow> u8 \<Rightarrow> bool \<Rightarrow> (bytes option \<Rightarrow> 'a \<Rightarrow> int \<times> 'a) \<Rightarrow> 'a \<Rightarrow> int \<times> 'a" where
  "CONF_parse_list lst sep remove_whitespace list_cb arg =
     (case lst of None \<Rightarrow> (0, arg) | Some lst \<Rightarrow> parse_list_loop remove_whitespace sep list_cb lst arg)"

text \<open>
  A list is handled as the list of its pieces: the callback gets one after another until it says stop. Spaces around a piece
  are not part of it when they are to be removed, where the separator is not a space.
\<close>

function pieces :: "u8 \<Rightarrow> bytes \<Rightarrow> bytes list" where
  "pieces sep lst =
     (let elem = takeWhile (\<lambda>b. b \<noteq> sep) lst
      in if length elem < length lst then elem # pieces sep (drop (Suc (length elem)) lst) else [elem])"
  by pat_completeness simp_all
termination pieces by (relation "measure (\<lambda>(_, lst). length lst)") auto

declare pieces.simps [simp del]

fun feed :: "(bytes option \<Rightarrow> 'a \<Rightarrow> int \<times> 'a) \<Rightarrow> bytes option list \<Rightarrow> 'a \<Rightarrow> int \<times> 'a" where
  "feed list_cb [] arg = (1, arg)"
| "feed list_cb (e # es) arg = (case list_cb e arg of (ret, arg) \<Rightarrow> if ret \<le> 0 then (ret, arg) else feed list_cb es arg)"

definition trimmed :: "bool \<Rightarrow> bytes \<Rightarrow> bytes option" where
  "trimmed remove_whitespace elem = list_elem remove_whitespace (if remove_whitespace then skip_space elem else elem)"

lemma takeWhile_skip:
  assumes "\<not> OPENSSL_isspace (uint sep)"
  shows "takeWhile (\<lambda>b. b \<noteq> sep) (skip_space lst) = skip_space (takeWhile (\<lambda>b. b \<noteq> sep) lst)"
    "drop (Suc (length (takeWhile (\<lambda>b. b \<noteq> sep) (skip_space lst)))) (skip_space lst) =
       drop (Suc (length (takeWhile (\<lambda>b. b \<noteq> sep) lst))) lst"
    "length (takeWhile (\<lambda>b. b \<noteq> sep) (skip_space lst)) < length (skip_space lst) \<longleftrightarrow>
       length (takeWhile (\<lambda>b. b \<noteq> sep) lst) < length lst"
  by (induction lst) (use assms in \<open>auto simp: skip_space_def\<close>)

lemma parse_list_pieces:
  assumes "remove_whitespace \<longrightarrow> \<not> OPENSSL_isspace (uint sep)"
  shows "parse_list_loop remove_whitespace sep list_cb lst arg = feed list_cb (map (trimmed remove_whitespace) (pieces sep lst)) arg"
  using assms
proof (induction remove_whitespace sep list_cb lst arg rule: parse_list_loop.induct)
  case (1 r sep list_cb lst arg)
  let ?start = "if r then skip_space lst else lst"
  let ?elem = "takeWhile (\<lambda>b. b \<noteq> sep) ?start"
  let ?rest = "drop (Suc (length (takeWhile (\<lambda>b. b \<noteq> sep) lst))) lst"
  have elem: "trimmed r (takeWhile (\<lambda>b. b \<noteq> sep) lst) = list_elem r ?elem" "drop (Suc (length ?elem)) ?start = ?rest"
    "length ?elem < length ?start \<longleftrightarrow> length (takeWhile (\<lambda>b. b \<noteq> sep) lst) < length lst"
    using takeWhile_skip [of sep lst] 1(2) by (auto simp: trimmed_def)
  obtain ret arg' where cb: "list_cb (list_elem r ?elem) arg = (ret, arg')" by (cases "list_cb (list_elem r ?elem) arg")
  show ?case
    using 1(1) [OF refl refl cb [symmetric]] 1(2) cb elem
    by (subst parse_list_loop.simps, subst pieces.simps) (simp add: Let_def)
qed

end
