(* ===== verification/KeyTable.thy ===== *)
theory KeyTable
  imports LhashSteps
begin

text \<open>
  A hash table whose functions read a key of the data: the tables of objects on a heap, whose keys stay the same while other
  objects change. What such a table holds is a set of pointers, no two of them with the same key.
\<close>

definition members :: "lhash_st \<Rightarrow> int set" where
  "members lh = it_data ` set_mset (table_items lh)"

definition by_key :: "(int \<Rightarrow> 'k) \<Rightarrow> lh_cmp" where
  "by_key key a b = (if key a = key b then 0 else 1)"

definition table_ok :: "(int \<Rightarrow> 'k) \<Rightarrow> ('k \<Rightarrow> u32) \<Rightarrow> lhash_st \<Rightarrow> bool" where
  "table_ok key h lh \<longleftrightarrow> lh_inv (\<lambda>p. h (key p)) (by_key key) lh"

lemma by_key_zero [simp]: "by_key key a b = 0 \<longleftrightarrow> key a = key b"
  by (simp add: by_key_def)

text \<open>The invariant of a table depends on its members only, and on the comparison only as far as equality goes.\<close>

lemma all_differ_cong:
  assumes "\<And>a b. a \<in> it_data ` set_mset M \<Longrightarrow> b \<in> it_data ` set_mset M \<Longrightarrow> cmp1 a b = 0 \<longleftrightarrow> cmp2 a b = 0"
  shows "all_differ cmp1 M \<longleftrightarrow> all_differ cmp2 M"
proof -
  have "cmp1 (it_data x) (it_data y) = 0 \<longleftrightarrow> cmp2 (it_data x) (it_data y) = 0" if "x \<in># M" "y \<in># M - {#x#}" for x y
    using assms that(1) in_diffD [OF that(2)] by blast
  then show ?thesis unfolding all_differ_def by (intro ball_cong refl) blast
qed

lemma lh_inv_cong:
  assumes "\<And>a. a \<in> members lh \<Longrightarrow> hash1 a = hash2 a"
    and "\<And>a b. a \<in> members lh \<Longrightarrow> b \<in> members lh \<Longrightarrow> cmp1 a b = 0 \<longleftrightarrow> cmp2 a b = 0"
  shows "lh_inv hash1 cmp1 lh \<longleftrightarrow> lh_inv hash2 cmp2 lh"
proof -
  have "all_differ cmp1 (table_items lh) \<longleftrightarrow> all_differ cmp2 (table_items lh)"
    using assms(2) by (intro all_differ_cong) (auto simp: members_def)
  moreover have "hash1 (it_data it) = hash2 (it_data it)" if "it \<in># table_items lh" for it
    using assms(1) that by (auto simp: members_def)
  ultimately show ?thesis unfolding lh_inv_def by auto
qed

context hashing
begin

lemma view_member: "lh_inv hash_of cmp lh \<Longrightarrow> lh_view cmp lh k = Some d \<longleftrightarrow> d \<in> members lh \<and> cmp d k = 0"
  by (auto simp: view_iff members_def)

lemma retrieve_member:
  assumes "lh_inv hash_of cmp lh" "OPENSSL_lh_retrieve lh hash_of cmp k = r"
  shows "if r = 0 then \<forall>x\<in>members lh. cmp x k \<noteq> 0 else r \<in> members lh \<and> cmp r k = 0"
proof -
  have nonzero: "0 \<notin> members lh" using assms(1) by (auto simp: lh_inv_def members_def)
  show ?thesis
  proof (cases "lh_view cmp lh k")
    case None
    then have "r = 0" using assms(2) retrieve_view [OF assms(1), of k] by simp
    moreover have "cmp x k \<noteq> 0" if "x \<in> members lh" for x using None view_member [OF assms(1), of k x] that by simp
    ultimately show ?thesis by simp
  next
    case (Some d)
    then have "r = d" using assms(2) retrieve_view [OF assms(1), of k] by simp
    moreover have "d \<in> members lh" "cmp d k = 0" using Some view_member [OF assms(1), of k d] by simp_all
    ultimately show ?thesis using nonzero by auto
  qed
qed

lemma insert_members:
  assumes "lh_inv hash_of cmp lh" "data \<noteq> 0" "OPENSSL_lh_insert malloc_ok zalloc_ok lh hash_of cmp data = (r, old, lh')"
  shows "if r then members lh' = insert data {x \<in> members lh. cmp data x \<noteq> 0} \<and>
           {x \<in> members lh. cmp data x = 0} = (if old = 0 then {} else {old})
         else lh' = lh"
proof (cases r)
  case True
  have law: "lh_inv hash_of cmp lh'" "old = (case lh_view cmp lh data of None \<Rightarrow> 0 | Some d \<Rightarrow> d)"
    using insert_law [OF assms] by auto
  have nonzero: "0 \<notin> members lh" using assms(1) by (auto simp: lh_inv_def members_def)
  note inv = law(1)
  have view: "lh_view cmp lh' k = (if cmp data k = 0 then Some data else lh_view cmp lh k)" for k using insert_law [OF assms, of k] True by simp
  have new: "x \<in> members lh' \<longleftrightarrow> (if cmp data x = 0 then x = data else x \<in> members lh)" for x
    using view [of x] view_member [OF inv, of x x] view_member [OF assms(1), of x x] by (auto split: if_splits)
  have "members lh' = insert data {x \<in> members lh. cmp data x \<noteq> 0}"
  proof (rule set_eqI)
    show "x \<in> members lh' \<longleftrightarrow> x \<in> insert data {x \<in> members lh. cmp data x \<noteq> 0}" for x
      using new [of x] cmp_refl [of data] by (cases "x = data") auto
  qed
  moreover have "{x \<in> members lh. cmp data x = 0} = (if old = 0 then {} else {old})"
  proof (cases "lh_view cmp lh data")
    case None
    then have "old = 0" using law by simp
    moreover have "cmp data x \<noteq> 0" if "x \<in> members lh" for x
      using None view_member [OF assms(1), of data x] cmp_swap [of data x] that by simp
    ultimately show ?thesis by auto
  next
    case (Some d)
    then have "old = d" using law by simp
    moreover have "d \<in> members lh" using Some view_member [OF assms(1), of data d] by simp
    moreover have "x \<in> members lh \<and> cmp data x = 0 \<longleftrightarrow> x = d" for x
      using Some view_member [OF assms(1), of data x] cmp_swap [of data x] by auto
    ultimately show ?thesis using nonzero by auto
  qed
  ultimately show ?thesis using True by simp
next
  case False
  then show ?thesis using insert_law [OF assms] by simp
qed

end

section \<open>Tables by key\<close>

lemma table_ok_cong: "(\<And>a. a \<in> members lh \<Longrightarrow> key1 a = key2 a) \<Longrightarrow> table_ok key1 h lh \<longleftrightarrow> table_ok key2 h lh"
  unfolding table_ok_def by (rule lh_inv_cong) auto

interpretation keyed: hashing "\<lambda>p. h (key p)" "by_key key" for h key
  by unfold_locales auto

lemma table_ok_nonzero: "table_ok key h lh \<Longrightarrow> 0 \<notin> members lh"
  by (auto simp: table_ok_def lh_inv_def members_def)

lemma table_ok_inj:
  assumes "table_ok key h lh" "a \<in> members lh" "b \<in> members lh" "key a = key b"
  shows "a = b"
  using keyed.view_member [of h key lh b a] keyed.view_member [of h key lh b b] assms by (simp add: table_ok_def)

text \<open>
  The calls: the functions of the table read the keys of a later state, which agrees on the members, and compare like the
  keys do.
\<close>

lemma table_retrieve:
  assumes "hashing hash_of cmp" "table_ok key h lh" "\<And>a. a \<in> members lh \<Longrightarrow> key' a = key a"
    and "\<And>a. hash_of a = h (key' a)" "\<And>a b. cmp a b = 0 \<longleftrightarrow> key' a = key' b"
    and "OPENSSL_lh_retrieve lh hash_of cmp k = r"
  shows "if r = 0 then \<forall>x\<in>members lh. key x \<noteq> key' k else r \<in> members lh \<and> key r = key' k"
proof -
  have "table_ok key' h lh" using assms(2,3) table_ok_cong [of lh key' key h] by blast
  then have "lh_inv hash_of cmp lh"
    unfolding table_ok_def using assms(4,5) lh_inv_cong [of lh "\<lambda>p. h (key' p)" hash_of "by_key key'" cmp] by auto
  from hashing.retrieve_member [OF assms(1) this assms(6)] show ?thesis using assms(3,5) by (auto split: if_splits)
qed

lemma table_insert:
  assumes "hashing hash_of cmp" "table_ok key h lh" "\<And>a. a \<in> members lh \<Longrightarrow> key' a = key a" "data \<noteq> 0"
    and "\<And>a. hash_of a = h (key' a)" "\<And>a b. cmp a b = 0 \<longleftrightarrow> key' a = key' b"
    and "OPENSSL_lh_insert malloc_ok zalloc_ok lh hash_of cmp data = (r, old, lh')"
  shows "if r then table_ok key' h lh' \<and> members lh' = insert data {x \<in> members lh. key x \<noteq> key' data} \<and>
           {x \<in> members lh. key x = key' data} = (if old = 0 then {} else {old})
         else lh' = lh"
proof -
  have "table_ok key' h lh" using assms(2,3) table_ok_cong [of lh key' key h] by blast
  then have inv: "lh_inv hash_of cmp lh"
    unfolding table_ok_def using assms(5,6) lh_inv_cong [of lh "\<lambda>p. h (key' p)" hash_of "by_key key'" cmp] by auto
  have "lh_inv hash_of cmp lh'" using hashing.insert_law [OF assms(1) inv assms(4,7)] by blast
  then have ok: "table_ok key' h lh'"
    unfolding table_ok_def using assms(5,6) lh_inv_cong [of lh' "\<lambda>p. h (key' p)" hash_of "by_key key'" cmp] by auto
  have "{x \<in> members lh. cmp data x = 0} = {x \<in> members lh. key x = key' data}"
    "{x \<in> members lh. cmp data x \<noteq> 0} = {x \<in> members lh. key x \<noteq> key' data}"
    using assms(3,6) by auto
  then show ?thesis using hashing.insert_members [OF assms(1) inv assms(4,7)] ok
    by (cases r) (simp_all only: if_True if_False simp_thms)
qed

lemma new_table: "OPENSSL_lh_new malloc_ok zalloc_ok = Some lh \<Longrightarrow> table_ok key h lh \<and> members lh = {} \<and> callback_depth lh = 0"
  using new_inv [of malloc_ok zalloc_ok lh "\<lambda>p. h (key p)" "by_key key"]
  by (auto simp: table_ok_def members_def table_items_def OPENSSL_lh_new_def empty_buckets split: if_splits)

end
