(* ===== verification/ConfSpec.thy ===== *)
theory ConfSpec
  imports ConfLoad KeyTable StackSteps
begin

text \<open>
  What a configuration object stands for: a list of names with values for every section. The two tables and the stacks of
  the sections hold the same values, and every change keeps them in step.
\<close>

section \<open>The tables of an object\<close>

definition pair_hash :: "bytes \<times> bytes \<Rightarrow> u32" where
  "pair_hash k = push_bit 2 (OPENSSL_strhash (fst k)) XOR OPENSSL_strhash (snd k)"

definition section_entries :: "conf_state \<Rightarrow> int \<Rightarrow> int list" where
  "section_entries c s = (case hsecs c s of Some x \<Rightarrow> entries (s_values x) | None \<Rightarrow> [])"

definition no_cmp :: call_cmp where "no_cmp f a b = 0"

definition section_ok :: "conf_state \<Rightarrow> int \<Rightarrow> bool" where
  "section_ok c s \<longleftrightarrow> 0 < s \<and> (\<exists>x. hsecs c s = Some x \<and> stack_inv no_cmp (s_values x))"

definition value_ok :: "conf_state \<Rightarrow> int \<Rightarrow> bool" where
  "value_ok c v \<longleftrightarrow> 0 < v \<and> (\<exists>s n t. hvals c v = Some \<lparr>v_section = Some s, v_name = Some n, v_value = Some t\<rparr>)"

definition conf_ok :: "conf_state \<Rightarrow> bool" where
  "conf_ok c \<longleftrightarrow>
     table_ok (section_name c) OPENSSL_strhash (conf_sections c) \<and> table_ok (value_key c) pair_hash (conf_values c) \<and>
     (\<forall>s\<in>members (conf_sections c). section_ok c s \<and> distinct (section_entries c s) \<and>
        set (section_entries c s) = {v \<in> members (conf_values c). fst (value_key c v) = section_name c s}) \<and>
     (\<forall>v\<in>members (conf_values c). value_ok c v \<and> (\<exists>s\<in>members (conf_sections c). section_name c s = fst (value_key c v)))"

text \<open>The abstraction.\<close>

definition value_text :: "conf_state \<Rightarrow> int \<Rightarrow> bytes" where
  "value_text c v = (case hvals c v of Some x \<Rightarrow> the (v_value x) | None \<Rightarrow> [])"

definition entry :: "conf_state \<Rightarrow> int \<Rightarrow> bytes \<times> bytes" where
  "entry c v = (snd (value_key c v), value_text c v)"

definition conf_map :: "conf_state \<Rightarrow> bytes \<Rightarrow> (bytes \<times> bytes) list option" where
  "conf_map c n = (let s = get_section c n in if s = 0 then None else Some (map (entry c) (section_entries c s)))"

section \<open>Lookups\<close>

lemma conf_value_hash_pair: "conf_value_hash c v = pair_hash (value_key c v)"
  by (simp add: conf_value_hash_def pair_hash_def case_prod_unfold)

lemma get_section_table:
  assumes "table_ok (section_name c) OPENSSL_strhash (conf_sections c)" "template \<notin> members (conf_sections c)"
  shows "if get_section c n = 0 then \<forall>s\<in>members (conf_sections c). section_name c s \<noteq> n
    else get_section c n \<in> members (conf_sections c) \<and> section_name c (get_section c n) = n"
proof -
  let ?c = "c\<lparr>hsecs := (hsecs c)(template \<mapsto> \<lparr>s_name = n, s_values = zero_stack\<rparr>)\<rparr>"
  define v where "v = OPENSSL_lh_retrieve (conf_sections c) (conf_section_hash ?c) (conf_section_cmp ?c) template"
  have "section_name ?c a = section_name c a" if "a \<in> members (conf_sections c)" for a
    using assms(2) that by (auto simp: section_name_def)
  moreover have "section_name ?c template = n" by (simp add: section_name_def)
  ultimately have "if v = 0 then \<forall>s\<in>members (conf_sections c). section_name c s \<noteq> n
    else v \<in> members (conf_sections c) \<and> section_name c v = n"
    using table_retrieve [OF section_table.hashing_axioms [of ?c] assms(1), of "section_name ?c" template v]
    by (cases "v = 0") (simp_all add: v_def [symmetric] conf_section_hash_def section_cmp_zero)
  then show ?thesis by (simp only: get_section_def v_def Let_def)
qed

lemma get_section_spec:
  assumes "conf_ok c"
  shows "if get_section c n = 0 then \<forall>s\<in>members (conf_sections c). section_name c s \<noteq> n
    else get_section c n \<in> members (conf_sections c) \<and> section_name c (get_section c n) = n"
proof (rule get_section_table)
  show "table_ok (section_name c) OPENSSL_strhash (conf_sections c)" using assms by (simp add: conf_ok_def)
  show "template \<notin> members (conf_sections c)" using assms by (auto simp: conf_ok_def section_ok_def template_def)
qed

lemma get_section_member:
  assumes "conf_ok c" "s \<in> members (conf_sections c)"
  shows "get_section c (section_name c s) = s"
proof -
  have t: "table_ok (section_name c) OPENSSL_strhash (conf_sections c)" using assms(1) by (simp add: conf_ok_def)
  show ?thesis
    using get_section_spec [OF assms(1), of "section_name c s"] assms(2) table_ok_inj [OF t] by (auto split: if_splits)
qed

lemma conf_map_member:
  "conf_ok c \<Longrightarrow> s \<in> members (conf_sections c) \<Longrightarrow> section_name c s = n \<Longrightarrow> conf_map c n = Some (map (entry c) (section_entries c s))"
  using get_section_member [of c s] table_ok_nonzero [of "section_name c" OPENSSL_strhash "conf_sections c"]
  by (auto simp: conf_map_def Let_def conf_ok_def)

lemma conf_map_None: "conf_ok c \<Longrightarrow> conf_map c n = None \<longleftrightarrow> (\<forall>s\<in>members (conf_sections c). section_name c s \<noteq> n)"
  using get_section_spec [of c n] by (auto simp: conf_map_def Let_def)

text \<open>A conf with the same tables, whose members are the same, stands for the same.\<close>

lemma conf_cong:
  assumes "conf_ok c" "conf_sections c' = conf_sections c" "conf_values c' = conf_values c"
    and "\<And>s. s \<in> members (conf_sections c) \<Longrightarrow> section_ok c' s \<and> section_name c' s = section_name c s \<and> section_entries c' s = section_entries c s"
    and "\<And>v. v \<in> members (conf_values c) \<Longrightarrow> hvals c' v = hvals c v"
  shows "conf_ok c' \<and> conf_map c' = conf_map c"
proof -
  have key: "value_key c' v = value_key c v" "entry c' v = entry c v" "value_ok c' v = value_ok c v" if "v \<in> members (conf_values c)" for v
    using assms(5) [OF that] by (simp_all add: value_key_def entry_def value_text_def value_ok_def)
  have "table_ok (section_name c') OPENSSL_strhash (conf_sections c)"
    using assms(1,4) table_ok_cong [of "conf_sections c" "section_name c'" "section_name c"] by (simp add: conf_ok_def)
  moreover have "table_ok (value_key c') pair_hash (conf_values c)"
    using assms(1) key(1) table_ok_cong [of "conf_values c" "value_key c'" "value_key c"] by (simp add: conf_ok_def)
  moreover have "{v \<in> members (conf_values c). fst (value_key c' v) = n} = {v \<in> members (conf_values c). fst (value_key c v) = n}" for n
    using key(1) by auto
  ultimately have ok: "conf_ok c'"
    using assms(1,2,3,4) key unfolding conf_ok_def by simp
  have "conf_map c' n = conf_map c n" for n
  proof (cases "conf_map c n")
    case None
    then show ?thesis using conf_map_None [OF assms(1), of n] conf_map_None [OF ok, of n] assms(2,4) by simp
  next
    case (Some l)
    then obtain s where s: "s \<in> members (conf_sections c)" "section_name c s = n"
      using conf_map_None [OF assms(1), of n] by auto
    have "set (section_entries c s) \<subseteq> members (conf_values c)" using assms(1) s by (auto simp: conf_ok_def)
    then have "map (entry c') (section_entries c s) = map (entry c) (section_entries c s)" using key(2) by auto
    then show ?thesis using conf_map_member [OF assms(1) s] conf_map_member [OF ok, of s n] s assms(2,4) by simp
  qed
  then show ?thesis using ok by blast
qed

lemma lookup_spec:
  assumes "conf_ok c"
  shows "NCONF_get_string c (Some n) k = (case conf_map c n of None \<Rightarrow> None | Some l \<Rightarrow> map_of l k)"
proof -
  let ?c = "c\<lparr>hvals := (hvals c)(template \<mapsto> \<lparr>v_section = Some n, v_name = Some k, v_value = None\<rparr>)\<rparr>"
  define v where "v = OPENSSL_lh_retrieve (conf_values c) (conf_value_hash ?c) (conf_value_cmp ?c) template"
  have t: "table_ok (value_key c) pair_hash (conf_values c)" using assms by (simp add: conf_ok_def)
  have pos: "a \<noteq> template" if "a \<in> members (conf_values c)" for a
    using assms that by (auto simp: conf_ok_def value_ok_def template_def)
  have "value_key ?c a = value_key c a" if "a \<in> members (conf_values c)" for a
    using pos [OF that] by (simp add: value_key_def)
  moreover have "value_key ?c template = (n, k)" by (simp add: value_key_def)
  ultimately have v: "if v = 0 then \<forall>x\<in>members (conf_values c). value_key c x \<noteq> (n, k)
      else v \<in> members (conf_values c) \<and> value_key c v = (n, k)"
    using table_retrieve [OF value_table.hashing_axioms [of ?c] t, of "value_key ?c" template v]
    by (cases "v = 0") (simp_all add: v_def [symmetric] conf_value_hash_pair value_cmp_zero)
  have get: "NCONF_get_string c (Some n) k = (if v = 0 then None else case hvals c v of None \<Rightarrow> None | Some x \<Rightarrow> v_value x)"
    by (simp add: NCONF_get_string_def v_def Let_def)
  have sec: "fst (value_key c x) = n" "x \<in> members (conf_values c)"
    if "s \<in> members (conf_sections c)" "section_name c s = n" "x \<in> set (section_entries c s)" for s x
    using assms that by (auto simp: conf_ok_def)
  show ?thesis
  proof (cases "v = 0")
    case True
    have "map_of l k = None" if "conf_map c n = Some l" for l
    proof -
      obtain s where s: "s \<in> members (conf_sections c)" "section_name c s = n" using conf_map_None [OF assms, of n] \<open>conf_map c n = Some l\<close> by auto
      have "l = map (entry c) (section_entries c s)" using conf_map_member [OF assms s] that by simp
      moreover have "snd (value_key c x) \<noteq> k" if "x \<in> set (section_entries c s)" for x
        using v True sec [OF s that] by (metis prod.collapse)
      ultimately show ?thesis by (force simp: map_of_eq_None_iff entry_def)
    qed
    then show ?thesis using get True by (auto split: option.split)
  next
    case False
    then have mem: "v \<in> members (conf_values c)" "value_key c v = (n, k)" using v by simp_all
    obtain a b t where x: "hvals c v = Some \<lparr>v_section = Some a, v_name = Some b, v_value = Some t\<rparr>"
      using assms mem(1) unfolding conf_ok_def value_ok_def by blast
    obtain s where s: "s \<in> members (conf_sections c)" "section_name c s = n" using assms mem by (force simp: conf_ok_def)
    have v_in: "v \<in> set (section_entries c s)" using assms s mem by (auto simp: conf_ok_def)
    have "map_of (map (entry c) (section_entries c s)) k = Some t"
    proof (rule map_of_is_SomeI)
      have "inj_on (\<lambda>x. snd (value_key c x)) (set (section_entries c s))"
        using sec [OF s] table_ok_inj [OF t] by (auto intro!: inj_onI simp: prod_eq_iff)
      then show "distinct (map fst (map (entry c) (section_entries c s)))"
        using assms s by (simp add: conf_ok_def distinct_map o_def entry_def)
      have "entry c v = (k, t)" using mem(2) x by (simp add: entry_def value_text_def)
      then show "(k, t) \<in> set (map (entry c) (section_entries c s))" using v_in by force
    qed
    then show ?thesis using get False x conf_map_member [OF assms s] by simp
  qed
qed


section \<open>Making sections and adding values\<close>

lemma push_spec:
  assumes "stack_inv call s" "blocks_ok malloc" "OPENSSL_sk_push malloc (Some s) p = (r, sk)"
  shows "\<exists>s'. sk = Some s' \<and> stack_inv call s' \<and> entries s' = (if r = 0 then entries s else entries s @ [p])"
  using insert_spec [OF assms(1,2), of p "st_num s" r sk] assms(3) length_entries [OF assms(1)]
  by (auto simp: OPENSSL_sk_push_def OPENSSL_sk_num_def split: if_splits)

lemma pop_spec:
  assumes "stack_inv call s" "entries s = xs @ [p]"
  shows "\<exists>s'. OPENSSL_sk_pop (Some s) = (p, Some s') \<and> stack_inv call s' \<and> entries s' = xs"
proof -
  have num: "st_num s = Suc (length xs)" using length_entries [OF assms(1)] assms(2) by simp
  then show ?thesis using delete_spec [OF assms(1), of "length xs"] assms(2) by (auto simp: OPENSSL_sk_pop_def)
qed

lemma delete_ptr_spec:
  assumes "stack_inv call s" "distinct (entries s)"
  shows "\<exists>r s'. OPENSSL_sk_delete_ptr (Some s) p = (r, Some s') \<and> stack_inv call s' \<and> entries s' = filter (\<lambda>x. x \<noteq> p) (entries s)"
proof (cases "first_index (\<lambda>x. x = p) (entries s) 0")
  case None
  then have "p \<notin> set (entries s)" by (auto simp: first_index_None)
  then have "filter (\<lambda>x. x \<noteq> p) (entries s) = entries s" by (auto intro!: filter_True)
  then show ?thesis using None assms(1) by (simp add: OPENSSL_sk_delete_ptr_def entries_def)
next
  case (Some i)
  then have i: "i < length (entries s)" "entries s ! i = p" by (auto simp: first_index_Some)
  obtain s' where s': "OPENSSL_sk_delete (Some s) i = (p, Some s')" "stack_inv call s'"
    "entries s' = take i (entries s) @ drop (Suc i) (entries s)"
    using delete_spec [OF assms(1), of i] i length_entries [OF assms(1)] by auto
  have split: "entries s = take i (entries s) @ p # drop (Suc i) (entries s)" using i id_take_nth_drop by blast
  then have "p \<notin> set (take i (entries s)) \<union> set (drop (Suc i) (entries s))" using assms(2)
    by (metis Un_iff distinct.simps(2) distinct_append disjoint_iff list.set_intros(1))
  then have "filter (\<lambda>x. x \<noteq> p) (take i (entries s)) = take i (entries s)"
    "filter (\<lambda>x. x \<noteq> p) (drop (Suc i) (entries s)) = drop (Suc i) (entries s)" by (auto intro!: filter_True)
  then have "filter (\<lambda>x. x \<noteq> p) (take i (entries s) @ p # drop (Suc i) (entries s)) = take i (entries s) @ drop (Suc i) (entries s)"
    by simp
  then have "entries s' = filter (\<lambda>x. x \<noteq> p) (entries s)" using s'(3) split by metis
  then show ?thesis using Some s' by (simp add: OPENSSL_sk_delete_ptr_def entries_def)
qed

text \<open>Filtering by a key is filtering the pointers, where no two have the same key.\<close>

lemma filter_entries:
  assumes "inj_on (\<lambda>x. fst (f x)) (set xs)" "old \<in> set xs" "fst (f old) = k"
  shows "map f (filter (\<lambda>x. x \<noteq> old) xs) = filter (\<lambda>p. fst p \<noteq> k) (map f xs)"
proof -
  have "x \<noteq> old \<longleftrightarrow> fst (f x) \<noteq> k" if "x \<in> set xs" for x using assms that by (auto dest: inj_onD)
  then show ?thesis by (simp add: filter_map o_def cong: filter_cong)
qed

definition conf_add :: "(bytes \<Rightarrow> (bytes \<times> bytes) list option) \<Rightarrow> bytes \<Rightarrow> bytes \<Rightarrow> bytes \<Rightarrow> bytes \<Rightarrow> (bytes \<times> bytes) list option" where
  "conf_add m n k t = m(n := map_option (\<lambda>l. filter (\<lambda>p. fst p \<noteq> k) l @ [(k, t)]) (m n))"

text \<open>The tables after a value has been entered: \<open>old\<close> is gone and \<open>v\<close> is the last of its section.\<close>

lemma conf_entered:
  assumes "conf_ok c" "s \<in> members (conf_sections c)" "section_name c s = n"
    and "conf_sections c' = conf_sections c" "table_ok (value_key c') pair_hash (conf_values c')"
    and "members (conf_values c') = insert v {x \<in> members (conf_values c). value_key c x \<noteq> (n, k)}" "v \<notin> members (conf_values c)"
    and "\<And>x. x \<in> members (conf_values c) \<Longrightarrow> value_key c x \<noteq> (n, k) \<Longrightarrow> hvals c' x = hvals c x"
    and "0 < v" "hvals c' v = Some \<lparr>v_section = Some n, v_name = Some k, v_value = Some t\<rparr>"
    and "\<And>r. r \<in> members (conf_sections c) \<Longrightarrow> section_ok c' r \<and> section_name c' r = section_name c r"
    and "\<And>r. r \<in> members (conf_sections c) \<Longrightarrow> r \<noteq> s \<Longrightarrow> section_entries c' r = section_entries c r"
    and "section_entries c' s = filter (\<lambda>x. value_key c x \<noteq> (n, k)) (section_entries c s) @ [v]"
  shows "conf_ok c' \<and> conf_map c' = conf_add (conf_map c) n k t"
proof -
  let ?kept = "{x \<in> members (conf_values c). value_key c x \<noteq> (n, k)}"
  have v: "value_key c' v = (n, k)" "entry c' v = (k, t)" "value_ok c' v"
    using assms(9,10) by (simp_all add: value_key_def entry_def value_text_def value_ok_def)
  have key: "value_key c' x = value_key c x" "entry c' x = entry c x" "value_ok c' x = value_ok c x" if "x \<in> ?kept" for x
    using assms(8) that by (simp_all add: value_key_def entry_def value_text_def value_ok_def)
  have secs: "distinct (section_entries c r)" "set (section_entries c r) = {x \<in> members (conf_values c). fst (value_key c x) = section_name c r}"
    if "r \<in> members (conf_sections c)" for r using assms(1) that by (simp_all add: conf_ok_def)
  have names: "section_name c r \<noteq> n" if "r \<in> members (conf_sections c)" "r \<noteq> s" for r
    using assms(1,2,3) that table_ok_inj [of "section_name c" OPENSSL_strhash "conf_sections c" r s] by (auto simp: conf_ok_def)
  have t: "table_ok (section_name c') OPENSSL_strhash (conf_sections c')"
    using assms(1,4,11) table_ok_cong [of "conf_sections c" "section_name c'" "section_name c"] by (simp add: conf_ok_def)
  have sec_ok: "distinct (section_entries c' r) \<and>
      set (section_entries c' r) = {x \<in> members (conf_values c'). fst (value_key c' x) = section_name c' r}"
    if r: "r \<in> members (conf_sections c)" for r
  proof (cases "r = s")
    case True
    have "set (section_entries c' s) = insert v {x \<in> ?kept. fst (value_key c x) = n}"
      using assms(13) secs(2) [OF assms(2)] assms(3) by auto
    also have "\<dots> = {x \<in> members (conf_values c'). fst (value_key c' x) = n}"
    proof (rule set_eqI)
      show "x \<in> insert v {x \<in> ?kept. fst (value_key c x) = n} \<longleftrightarrow> x \<in> {x \<in> members (conf_values c'). fst (value_key c' x) = n}" for x
        using v(1) key(1) [of x] assms(6) by (cases "x = v") auto
    qed
    finally show ?thesis using True assms(2,3,7,11,13) secs by simp
  next
    case False
    have "{x \<in> members (conf_values c). fst (value_key c x) = section_name c r} =
        {x \<in> members (conf_values c'). fst (value_key c' x) = section_name c r}"
    proof (rule set_eqI)
      show "x \<in> {x \<in> members (conf_values c). fst (value_key c x) = section_name c r} \<longleftrightarrow>
          x \<in> {x \<in> members (conf_values c'). fst (value_key c' x) = section_name c r}" for x
        using v(1) key(1) [of x] assms(6,7) names [OF r False] by (cases "x = v"; cases "value_key c x = (n, k)") auto
    qed
    then show ?thesis using False assms(11,12) [OF r] secs [OF r] by simp
  qed
  have val_ok: "value_ok c' x \<and> (\<exists>r\<in>members (conf_sections c). section_name c' r = fst (value_key c' x))"
    if "x \<in> members (conf_values c')" for x
  proof (cases "x = v")
    case True
    then show ?thesis using v assms(2,3,11) by auto
  next
    case False
    then have x: "x \<in> ?kept" using that assms(6) by simp
    then have "value_ok c x" "\<exists>r\<in>members (conf_sections c). section_name c r = fst (value_key c x)" using assms(1) by (auto simp: conf_ok_def)
    then show ?thesis using key [OF x] assms(11) by auto
  qed
  have ok: "conf_ok c'"
    unfolding conf_ok_def using t assms(4,5,11) sec_ok val_ok by simp
  have "conf_map c' m = conf_add (conf_map c) n k t m" for m
  proof (cases "conf_map c m")
    case None
    then have "m \<noteq> n" using conf_map_None [OF assms(1), of m] assms(2,3) by auto
    then show ?thesis using None conf_map_None [OF assms(1), of m] conf_map_None [OF ok, of m] assms(4,11) by (simp add: conf_add_def)
  next
    case (Some l)
    then obtain r where r: "r \<in> members (conf_sections c)" "section_name c r = m" using conf_map_None [OF assms(1), of m] by auto
    have map: "conf_map c' m = Some (map (entry c') (section_entries c' r))" "conf_map c m = Some (map (entry c) (section_entries c r))"
      using conf_map_member [OF ok, of r m] conf_map_member [OF assms(1) r] r assms(4,11) by simp_all
    show ?thesis
    proof (cases "r = s")
      case False
      then have "m \<noteq> n" using names r by blast
      moreover have "entry c' x = entry c x" if "x \<in> set (section_entries c r)" for x
        using key(2) [of x] secs(2) [OF r(1)] r \<open>m \<noteq> n\<close> that by (cases "value_key c x = (n, k)") auto
      then have "map (entry c') (section_entries c r) = map (entry c) (section_entries c r)" by simp
      ultimately show ?thesis using map assms(12) [OF r(1) False] by (simp add: conf_add_def)
    next
      case True
      then have m: "m = n" using r assms(3) by simp
      let ?es = "section_entries c s"
      have es: "x \<in> set ?es \<Longrightarrow> value_key c x = (n, snd (value_key c x))" for x using secs(2) [OF assms(2)] assms(3) by (auto simp: prod_eq_iff)
      have "map (entry c') (filter (\<lambda>x. value_key c x \<noteq> (n, k)) ?es) = map (entry c) (filter (\<lambda>x. value_key c x \<noteq> (n, k)) ?es)"
        using key(2) secs(2) [OF assms(2)] by auto
      also have "\<dots> = map (entry c) (filter (\<lambda>x. fst (entry c x) \<noteq> k) ?es)"
        using es by (auto simp: entry_def prod_eq_iff intro!: arg_cong [where f = "map (entry c)"] filter_cong)
      also have "\<dots> = filter (\<lambda>p. fst p \<noteq> k) (map (entry c) ?es)" by (simp add: filter_map o_def)
      finally show ?thesis using map True m assms(13) v(2) by (simp add: conf_add_def)
    qed
  qed
  then show ?thesis using ok by blast
qed

end
