(* ===== verification/ConfSteps.thy ===== *)
theory ConfSteps
  imports ConfSpec
begin

text \<open>
  The operations of a configuration object under its invariant: making a section, adding a value, loading a line. The
  lists of the abstraction change as the text of the line says, whatever the allocator does.
\<close>

section \<open>Adding a value\<close>

lemma set_values_eq:
  "hsecs c s = Some x \<Longrightarrow> set_values s (Some vals) c = c\<lparr>hsecs := (hsecs c)(s \<mapsto> x\<lparr>s_values := vals\<rparr>)\<rparr>"
  by (simp add: set_values_def)

lemma value_free_other: "v \<noteq> p \<Longrightarrow> hvals (value_free v c) p = hvals c p"
  by (simp add: value_free_def)

lemma value_free_same [simp]:
  "conf_sections (value_free v c) = conf_sections c" "conf_values (value_free v c) = conf_values c" "hsecs (value_free v c) = hsecs c"
  by (simp_all add: value_free_def)

text \<open>Nothing that is seen changes when a value that is in no table is written or freed.\<close>

definition keeps_names :: "conf_state \<Rightarrow> conf_state \<Rightarrow> bool" where
  "keeps_names c c' \<longleftrightarrow> (\<forall>s\<in>members (conf_sections c). s \<in> members (conf_sections c') \<and> section_name c' s = section_name c s)"

lemma value_unseen:
  assumes "conf_ok c" "v \<notin> members (conf_values c)" "conf_sections c' = conf_sections c" "conf_values c' = conf_values c"
    and "hsecs c' = hsecs c" "\<And>p. p \<noteq> v \<Longrightarrow> hvals c' p = hvals c p"
  shows "conf_ok c' \<and> conf_map c' = conf_map c \<and> keeps_names c c'"
proof -
  have "conf_ok c' \<and> conf_map c' = conf_map c"
  proof (rule conf_cong [OF assms(1,3,4)])
    show "section_ok c' s \<and> section_name c' s = section_name c s \<and> section_entries c' s = section_entries c s"
      if "s \<in> members (conf_sections c)" for s
      using assms(1,5) that by (simp add: conf_ok_def section_ok_def section_name_def section_entries_def)
    show "hvals c' p = hvals c p" if "p \<in> members (conf_values c)" for p
      using assms(2,6) that by metis
  qed
  then show ?thesis using assms(3,5) by (simp add: keeps_names_def section_name_def)
qed

text \<open>The state with another stack in a section and the section's name in the value.\<close>

definition with_stack :: "conf_state \<Rightarrow> int \<Rightarrow> stack_st \<Rightarrow> int \<Rightarrow> CONF_VALUE \<Rightarrow> conf_state" where
  "with_stack c s vals v y =
     c\<lparr>hvals := (hvals c)(v \<mapsto> y), hsecs := (hsecs c)(s \<mapsto> (the (hsecs c s))\<lparr>s_values := vals\<rparr>)\<rparr>"

lemma with_stack_sections:
  assumes "conf_ok c" "r \<in> members (conf_sections c)" "stack_inv no_cmp vals"
  shows "section_ok (with_stack c s vals v y) r \<and> section_name (with_stack c s vals v y) r = section_name c r \<and>
    section_entries (with_stack c s vals v y) r = (if r = s then entries vals else section_entries c r)"
proof -
  have "section_ok c r" using assms(1,2) by (simp add: conf_ok_def)
  then show ?thesis using assms(3) by (auto simp: with_stack_def section_ok_def section_name_def section_entries_def)
qed

lemma with_stack_unseen:
  assumes "conf_ok c" "v \<notin> members (conf_values c)" "s \<in> members (conf_sections c)" "stack_inv no_cmp vals"
    and "entries vals = section_entries c s" "c' = with_stack c s vals v y"
  shows "conf_ok c' \<and> conf_map c' = conf_map c \<and> keeps_names c c'"
proof -
  note secs = with_stack_sections [OF assms(1) _ assms(4), of _ s v y, folded assms(6)]
  have same: "conf_sections c' = conf_sections c" "conf_values c' = conf_values c" using assms(6) by (simp_all add: with_stack_def)
  have "conf_ok c' \<and> conf_map c' = conf_map c"
  proof (rule conf_cong [OF assms(1) same])
    show "section_ok c' r \<and> section_name c' r = section_name c r \<and> section_entries c' r = section_entries c r"
      if "r \<in> members (conf_sections c)" for r using secs [OF that] assms(5) by auto
    show "hvals c' p = hvals c p" if "p \<in> members (conf_values c)" for p
      using assms(2,6) that by (auto simp: with_stack_def)
  qed
  then show ?thesis using secs same by (simp add: keeps_names_def)
qed

lemma add_string_spec:
  assumes "conf_ok c" "s \<in> members (conf_sections c)" "section_name c s = n" "0 < v" "v \<notin> members (conf_values c)"
    and "hvals c v = Some \<lparr>v_section = sx, v_name = Some k, v_value = Some t\<rparr>" "blocks_ok (cm_ptrs cm)"
    and "add_string cm c s v = (r, c')"
  shows "conf_ok c' \<and> conf_map c' = (if r then conf_add (conf_map c) n k t else conf_map c) \<and> keeps_names c c' \<and>
    (r \<or> v \<notin> members (conf_values c'))"
proof (cases "cm_malloc cm (length n + 1)")
  case False
  then have "r = False" "c' = c" using assms(3,8) by (auto simp: add_string_def)
  then show ?thesis using assms(1,5) by (simp add: keeps_names_def)
next
  case True
  define y where "y = \<lparr>v_section = Some n, v_name = Some k, v_value = Some t\<rparr>"
  obtain x where x: "hsecs c s = Some x" "stack_inv no_cmp (s_values x)" using assms(1,2) by (auto simp: conf_ok_def section_ok_def)
  have es: "section_entries c s = entries (s_values x)" using x by (simp add: section_entries_def)
  obtain m sk where push: "OPENSSL_sk_push (cm_ptrs cm) (Some (s_values x)) v = (m, sk)" by (cases "OPENSSL_sk_push (cm_ptrs cm) (Some (s_values x)) v")
  obtain vals where vals: "sk = Some vals" "stack_inv no_cmp vals" "entries vals = (if m = 0 then entries (s_values x) else entries (s_values x) @ [v])"
    using push_spec [OF x(2) assms(7) push] by blast
  define c2 where "c2 = with_stack c s vals v y"
  have c2: "set_values s sk (c\<lparr>hvals := (hvals c)(v \<mapsto> y)\<rparr>) = c2" "conf_values c2 = conf_values c" "hsecs c2 s = Some (x\<lparr>s_values := vals\<rparr>)"
    using x(1) vals(1) by (simp_all add: c2_def with_stack_def set_values_def)
  have run: "add_string cm c s v =
      (if m = 0 then (False, c2)
       else case OPENSSL_lh_insert (cm_malloc cm) (cm_malloc cm) (conf_values c) (conf_value_hash c2) (conf_value_cmp c2) v of
              (False, _, lh) \<Rightarrow> (False, set_values s (snd (OPENSSL_sk_pop (Some vals))) (c2\<lparr>conf_values := lh\<rparr>))
            | (True, old, lh) \<Rightarrow>
                if old \<noteq> 0 then (True, value_free old (set_values s (snd (OPENSSL_sk_delete_ptr (Some vals) old)) (c2\<lparr>conf_values := lh\<rparr>)))
                else (True, c2\<lparr>conf_values := lh\<rparr>))"
    using True assms(3,6) x(1) push c2 by (simp add: add_string_def values_of_def Let_def y_def section_name_def split: prod.split bool.split)
  show ?thesis
  proof (cases "m = 0")
    case True
    then have "r = False" "c' = c2" using run assms(8) by simp_all
    then show ?thesis using with_stack_unseen [OF assms(1,5,2) vals(2) _ c2_def] vals(3) True es c2(2) assms(5) by simp
  next
    case False
    obtain ok old lh where ins: "OPENSSL_lh_insert (cm_malloc cm) (cm_malloc cm) (conf_values c) (conf_value_hash c2) (conf_value_cmp c2) v = (ok, old, lh)"
      by (cases "OPENSSL_lh_insert (cm_malloc cm) (cm_malloc cm) (conf_values c) (conf_value_hash c2) (conf_value_cmp c2) v") auto
    have t: "table_ok (value_key c) pair_hash (conf_values c)" using assms(1) by (simp add: conf_ok_def)
    have key: "value_key c2 a = value_key c a" if "a \<in> members (conf_values c)" for a
      using assms(5) that by (auto simp: c2_def with_stack_def value_key_def)
    have kv: "value_key c2 v = (n, k)" by (simp add: c2_def with_stack_def value_key_def y_def)
    note table = table_insert [OF value_table.hashing_axioms [of c2] t key _ conf_value_hash_pair value_cmp_zero ins]
    show ?thesis
    proof (cases ok)
      case bad: False
      obtain vals' where pop: "OPENSSL_sk_pop (Some vals) = (v, Some vals')" "stack_inv no_cmp vals'" "entries vals' = entries (s_values x)"
        using pop_spec [OF vals(2), of "entries (s_values x)" v] vals(3) False by auto
      have "lh = conf_values c" using table assms(4) bad by simp
      then have "r = False" "c' = set_values s (Some vals') c2"
        using run assms(8) False ins bad pop(1) c2(2) by (auto simp: c2_def with_stack_def)
      moreover have "set_values s (Some vals') c2 = with_stack c s vals' v y"
        using x(1) by (simp add: c2_def with_stack_def set_values_def)
      ultimately show ?thesis
        using with_stack_unseen [OF assms(1,5,2) pop(2) _ refl] pop(3) es assms(5) by (simp add: with_stack_def)
    next
      case good: True
      have mem: "table_ok (value_key c2) pair_hash lh" "members lh = insert v {x \<in> members (conf_values c). value_key c x \<noteq> (n, k)}"
        "{x \<in> members (conf_values c). value_key c x = (n, k)} = (if old = 0 then {} else {old})"
        using table assms(4) good kv by simp_all
      have old_v: "old \<noteq> v" using mem(3) assms(4,5) by (auto split: if_splits)
      obtain q vals' where del: "OPENSSL_sk_delete_ptr (Some vals) old = (q, Some vals')" "stack_inv no_cmp vals'"
          "entries vals' = filter (\<lambda>x. x \<noteq> old) (entries vals)"
        using delete_ptr_spec [OF vals(2), of old] assms(1,2,5) vals(3) es False by (force simp: conf_ok_def)
      define vs where "vs = (if old = 0 then vals else vals')"
      have "c' = value_free old ((with_stack c s vs v y)\<lparr>conf_values := lh\<rparr>)" "r = True"
        using run assms(8) False ins good del(1) x(1)
        by (auto simp: vs_def c2_def with_stack_def set_values_def value_free_def split: if_splits)
      then have c': "c' = value_free old ((with_stack c s vs v y)\<lparr>conf_values := lh\<rparr>)" "r = True" by simp_all
      have inv: "stack_inv no_cmp vs" using del(2) vals(2) by (simp add: vs_def)
      have entries: "entries vs = filter (\<lambda>x. value_key c x \<noteq> (n, k)) (section_entries c s) @ [v]"
      proof -
        have sub: "set (section_entries c s) \<subseteq> members (conf_values c)" using assms(1,2) by (auto simp: conf_ok_def)
        have iff: "x \<noteq> old \<longleftrightarrow> value_key c x \<noteq> (n, k)" if "x \<in> members (conf_values c)" "old \<noteq> 0 \<or> x \<noteq> 0" for x
          using mem(3) that by (auto split: if_splits)
        have pos: "x \<noteq> 0" if "x \<in> members (conf_values c)" for x using table_ok_nonzero [OF t] that by metis
        have "filter (\<lambda>x. x \<noteq> old) (section_entries c s) = filter (\<lambda>x. value_key c x \<noteq> (n, k)) (section_entries c s)"
          using sub iff pos by (intro filter_cong refl) blast
        moreover have "entries vs = filter (\<lambda>x. x \<noteq> old) (section_entries c s) @ [v]"
        proof (cases "old = 0")
          case True
          have "filter (\<lambda>x. x \<noteq> old) (section_entries c s) = section_entries c s"
            using sub pos True by (intro filter_True) blast
          then show ?thesis using True vals(3) False es by (simp add: vs_def)
        next
          case old: False
          then show ?thesis using del(3) vals(3) False es old_v by (simp add: vs_def)
        qed
        ultimately show ?thesis by simp
      qed
      have heap: "hvals c' x = hvals c2 x" if "x \<in> members lh" for x
        using mem(2,3) that old_v by (auto simp: c'(1) c2_def with_stack_def value_free_def split: if_splits)
      have same: "conf_sections c' = conf_sections c" "conf_values c' = lh" "hsecs c' = hsecs (with_stack c s vs v y)"
        by (simp_all add: c'(1) with_stack_def)
      have secs: "section_ok c' q \<and> section_name c' q = section_name c q \<and> section_entries c' q = (if q = s then entries vs else section_entries c q)"
        if "q \<in> members (conf_sections c)" for q
        using with_stack_sections [OF assms(1) that inv, of s v y] same(3) by (simp add: section_ok_def section_name_def section_entries_def)
      have "table_ok (value_key c') pair_hash (conf_values c')"
        using table_ok_cong [of lh "value_key c'" "value_key c2"] heap mem(1) same(2) by (simp add: value_key_def)
      moreover have "hvals c' x = hvals c x" if "x \<in> members (conf_values c)" "value_key c x \<noteq> (n, k)" for x
        using heap [of x] that mem(2) assms(5) by (auto simp: c2_def with_stack_def)
      moreover have "hvals c' v = Some \<lparr>v_section = Some n, v_name = Some k, v_value = Some t\<rparr>"
        using heap [of v] mem(2) by (simp add: c2_def with_stack_def y_def)
      ultimately have "conf_ok c' \<and> conf_map c' = conf_add (conf_map c) n k t"
        using conf_entered [OF assms(1,2,3) same(1), of v k t] same(2) mem(2) assms(2,4,5) secs entries by simp
      then show ?thesis using c'(2) same(1) secs by (simp add: keeps_names_def)
    qed
  qed
qed


section \<open>Making a section\<close>

text \<open>A new object is not one that is in use.\<close>

definition fresh_objects :: "conf_mem \<Rightarrow> bool" where
  "fresh_objects cm \<longleftrightarrow>
     (\<forall>c s. cm_section cm c = Some s \<longrightarrow> 0 < s \<and> hsecs c s = None) \<and> (\<forall>c v. cm_value cm c = Some v \<longrightarrow> 0 < v \<and> hvals c v = None)"

lemma section_free_simps [simp]:
  "conf_sections (section_free s c) = conf_sections c" "conf_values (section_free s c) = conf_values c" "hvals (section_free s c) = hvals c"
  by (simp_all add: section_free_def)

text \<open>What happens to the tables, whether the name is new or not.\<close>

lemma new_section_table:
  assumes "table_ok (section_name c) OPENSSL_strhash (conf_sections c)" "\<And>s. s \<in> members (conf_sections c) \<Longrightarrow> hsecs c s \<noteq> None"
    and "fresh_objects cm" "NCONF_new_section cm c n = (s, c')"
  shows "hvals c' = hvals c \<and> conf_values c' = conf_values c \<and>
    (if s = 0 then conf_sections c' = conf_sections c \<and> (\<forall>q\<in>members (conf_sections c). hsecs c' q = hsecs c q)
     else s \<notin> members (conf_sections c) \<and> 0 < s \<and> table_ok (section_name c') OPENSSL_strhash (conf_sections c') \<and>
       members (conf_sections c') = insert s {q \<in> members (conf_sections c). section_name c q \<noteq> n} \<and>
       (\<forall>q\<in>members (conf_sections c). section_name c q \<noteq> n \<longrightarrow> hsecs c' q = hsecs c q) \<and>
       (\<exists>vals. hsecs c' s = Some \<lparr>s_name = n, s_values = vals\<rparr> \<and> stack_inv no_cmp vals \<and> entries vals = []))"
proof (cases "cm_section cm c = None \<or> OPENSSL_sk_new_null (cm_ptrs cm) (cm_malloc cm 40) = None \<or> \<not> cm_malloc cm (length n + 1)")
  case True
  then have "s = 0" "c' = c" using assms(4) by (auto simp: NCONF_new_section_def split: option.splits)
  then show ?thesis by simp
next
  case False
  then obtain p vals where p: "cm_section cm c = Some p" "OPENSSL_sk_new_null (cm_ptrs cm) (cm_malloc cm 40) = Some vals" "cm_malloc cm (length n + 1)"
    by auto
  have fresh: "0 < p" "hsecs c p = None" using p(1) assms(3) by (auto simp: fresh_objects_def)
  have pn: "p \<notin> members (conf_sections c)" using assms(2) [of p] fresh(2) by blast
  have vals: "stack_inv no_cmp vals" "entries vals = []" using p(2) new_spec by (auto simp: OPENSSL_sk_new_null_def)
  define c1 where "c1 = c\<lparr>hsecs := (hsecs c)(p \<mapsto> \<lparr>s_name = n, s_values = vals\<rparr>)\<rparr>"
  obtain ok old lh where ins: "OPENSSL_lh_insert (cm_malloc cm) (cm_malloc cm) (conf_sections c) (conf_section_hash c1) (conf_section_cmp c1) p = (ok, old, lh)"
    by (cases "OPENSSL_lh_insert (cm_malloc cm) (cm_malloc cm) (conf_sections c) (conf_section_hash c1) (conf_section_cmp c1) p") auto
  have run: "NCONF_new_section cm c n =
      (if ok then (p, section_free old (c1\<lparr>conf_sections := lh\<rparr>)) else (0, section_free p (c1\<lparr>conf_sections := lh\<rparr>)))"
    using p ins by (simp add: NCONF_new_section_def c1_def [symmetric] Let_def) (simp add: c1_def)
  have key: "section_name c1 a = section_name c a" if "a \<in> members (conf_sections c)" for a
    using pn that by (auto simp: c1_def section_name_def)
  have kp: "section_name c1 p = n" by (simp add: c1_def section_name_def)
  note table = table_insert [OF section_table.hashing_axioms [of c1] assms(1) key _ conf_section_hash_def section_cmp_zero ins]
  show ?thesis
  proof (cases ok)
    case False
    then have "lh = conf_sections c" "s = 0" "c' = section_free p (c1\<lparr>conf_sections := lh\<rparr>)" using table fresh(1) run assms(4) by simp_all
    then show ?thesis using pn by (auto simp: c1_def section_free_def)
  next
    case True
    have mem: "table_ok (section_name c1) OPENSSL_strhash lh" "members lh = insert p {q \<in> members (conf_sections c). section_name c q \<noteq> n}"
      "{q \<in> members (conf_sections c). section_name c q = n} = (if old = 0 then {} else {old})"
      using table fresh(1) True kp by simp_all
    have res: "s = p" "c' = section_free old (c1\<lparr>conf_sections := lh\<rparr>)" using run True assms(4) by simp_all
    have heap: "hsecs c' q = hsecs c1 q" if "q \<in> members lh" for q
      using that mem(2,3) pn by (auto simp: res(2) section_free_def split: if_splits)
    have "table_ok (section_name c') OPENSSL_strhash lh"
      using table_ok_cong [of lh "section_name c'" "section_name c1"] heap mem(1) by (simp add: section_name_def)
    moreover have "hsecs c' q = hsecs c q" if "q \<in> members (conf_sections c)" "section_name c q \<noteq> n" for q
      using heap [of q] mem(2) that pn by (auto simp: c1_def)
    moreover have "hsecs c' p = Some \<lparr>s_name = n, s_values = vals\<rparr>" using heap [of p] mem(2) by (simp add: c1_def)
    moreover have "conf_sections c' = lh" "conf_values c' = conf_values c" "hvals c' = hvals c" by (simp_all add: res(2) c1_def)
    ultimately show ?thesis using res(1) fresh(1) pn mem(2) vals by auto
  qed
qed

lemma conf_ok_live: "conf_ok c \<Longrightarrow> s \<in> members (conf_sections c) \<Longrightarrow> hsecs c s \<noteq> None"
  by (auto simp: conf_ok_def section_ok_def)

lemma new_section_spec:
  assumes "conf_ok c" "conf_map c n = None" "fresh_objects cm" "NCONF_new_section cm c n = (s, c')"
  shows "conf_ok c' \<and> keeps_names c c' \<and>
    (if s = 0 then conf_map c' = conf_map c
     else conf_map c' = (conf_map c)(n \<mapsto> []) \<and> s \<in> members (conf_sections c') \<and> section_name c' s = n)"
proof -
  have t: "table_ok (section_name c) OPENSSL_strhash (conf_sections c)" using assms(1) by (simp add: conf_ok_def)
  note new = new_section_table [OF t conf_ok_live [OF assms(1)] assms(3,4)]
  have unnamed: "\<forall>q\<in>members (conf_sections c). section_name c q \<noteq> n" using assms(1,2) conf_map_None by blast
  have seen: "section_ok c' q \<and> section_name c' q = section_name c q \<and> section_entries c' q = section_entries c q"
    if "q \<in> members (conf_sections c)" for q
  proof -
    have "hsecs c' q = hsecs c q" using new unnamed that by (auto split: if_splits)
    moreover have "section_ok c q" using assms(1) that by (simp add: conf_ok_def)
    ultimately show ?thesis by (simp add: section_ok_def section_name_def section_entries_def)
  qed
  show ?thesis
  proof (cases "s = 0")
    case True
    then show ?thesis using conf_cong [OF assms(1), of c'] seen new by (auto simp: keeps_names_def)
  next
    case False
    then obtain vals where s: "s \<notin> members (conf_sections c)" "0 < s" "table_ok (section_name c') OPENSSL_strhash (conf_sections c')"
        "members (conf_sections c') = insert s (members (conf_sections c))" "hsecs c' s = Some \<lparr>s_name = n, s_values = vals\<rparr>"
        "stack_inv no_cmp vals" "entries vals = []"
      using new unnamed by auto
    have same: "value_key c' = value_key c" "value_ok c' = value_ok c" "entry c' = entry c" "conf_values c' = conf_values c"
      using new by (simp_all add: fun_eq_iff value_key_def value_ok_def entry_def value_text_def)
    have "section_ok c' s" "section_name c' s = n" "section_entries c' s = []"
      using s by (simp_all add: section_ok_def section_name_def section_entries_def)
    moreover have "fst (value_key c v) \<noteq> n" if "v \<in> members (conf_values c)" for v
      using assms(1) that unnamed by (auto simp: conf_ok_def)
    ultimately have ok: "conf_ok c'"
      using assms(1) s(3,4) seen same unfolding conf_ok_def by auto
    have "conf_map c' m = ((conf_map c)(n \<mapsto> [])) m" for m
    proof (cases "m = n")
      case True
      then show ?thesis using conf_map_member [OF ok, of s n] s(4) \<open>section_name c' s = n\<close> \<open>section_entries c' s = []\<close> by simp
    next
      case m: False
      show ?thesis
      proof (cases "conf_map c m")
        case None
        then show ?thesis using conf_map_None [OF assms(1), of m] conf_map_None [OF ok, of m] s(4) seen m \<open>section_name c' s = n\<close> by auto
      next
        case (Some l)
        then obtain q where q: "q \<in> members (conf_sections c)" "section_name c q = m" using conf_map_None [OF assms(1), of m] by auto
        then show ?thesis using conf_map_member [OF assms(1) q] conf_map_member [OF ok, of q m] seen s(4) m same(3) by simp
      qed
    qed
    then show ?thesis using ok s(4) seen False \<open>section_name c' s = n\<close> by (auto simp: keeps_names_def)
  qed
qed


section \<open>What a line says\<close>

type_synonym sections = "bytes \<Rightarrow> (bytes \<times> bytes) list option"

definition with_section :: "sections \<Rightarrow> bytes \<Rightarrow> sections" where
  "with_section m n = (if m n = None then m(n \<mapsto> []) else m)"

text \<open>The sections and the name of the section that the line is in, before and after; \<open>None\<close> is a line that is no line.\<close>

definition spec_line :: "sections \<times> bytes \<Rightarrow> bytes \<Rightarrow> (sections \<times> bytes) option" where
  "spec_line cfg line =
     (let (m, cur) = cfg; s = eat_ws (clear_comments line)
      in if s = [] then Some (m, cur)
         else if hd s = 0x5b then
           (case section_end (eat_ws (tl s)) of
              None \<Rightarrow> None
            | Some end \<Rightarrow> map_option (\<lambda>n. (with_section m n, n)) (copy_text (cut_at (eat_ws (tl s)) end)))
         else
           (case split_assignment s of
              None \<Rightarrow> None
            | Some (sec, k, start) \<Rightarrow>
                map_option (\<lambda>t. let n = (case sec of None \<Rightarrow> cur | Some n \<Rightarrow> n) in (conf_add (with_section m n) n k t, cur))
                  (copy_text start)))"

lemma str_copy_text: "str_copy cm s = Some t \<Longrightarrow> copy_text s = Some t"
  by (auto simp: str_copy_def split: if_splits prod.splits)

lemma find_section_spec:
  assumes "conf_ok c" "fresh_objects cm" "find_section cm c n = (s, c')"
  shows "conf_ok c' \<and> keeps_names c c' \<and>
    (s \<noteq> 0 \<longrightarrow> conf_map c' = with_section (conf_map c) n \<and> s \<in> members (conf_sections c') \<and> section_name c' s = n)"
proof (cases "get_section c n = 0")
  case True
  then have none: "conf_map c n = None" by (simp add: conf_map_def)
  have "NCONF_new_section cm c n = (s, c')" using True assms(3) by (simp add: find_section_def)
  note new = new_section_spec [OF assms(1) none assms(2) this]
  have "with_section (conf_map c) n = (conf_map c)(n \<mapsto> [])" using none by (simp add: with_section_def)
  then show ?thesis using new by (cases "s = 0") (simp_all only: if_True if_False simp_thms)
next
  case False
  then have f: "find_section cm c n = (get_section c n, c)" "conf_map c n \<noteq> None" by (simp_all add: find_section_def conf_map_def Let_def)
  then have s: "s = get_section c n" "c' = c" using assms(3) by (metis prod.inject)+
  have "with_section (conf_map c) n = conf_map c" using f(2) by (simp only: with_section_def if_False)
  then show ?thesis using s False assms(1) get_section_spec [OF assms(1), of n] by (simp add: keeps_names_def)
qed

lemma find_section_values:
  assumes "conf_ok c" "fresh_objects cm" "find_section cm c n = (s, c')"
  shows "hvals c' = hvals c \<and> conf_values c' = conf_values c"
proof (cases "get_section c n = 0")
  case True
  have t: "table_ok (section_name c) OPENSSL_strhash (conf_sections c)" using assms(1) by (simp add: conf_ok_def)
  have "NCONF_new_section cm c n = (s, c')" using True assms(3) by (simp add: find_section_def)
  from new_section_table [OF t conf_ok_live assms(2) this] show ?thesis using assms(1) by blast
next
  case False
  then show ?thesis using assms(3) by (simp add: find_section_def)
qed

definition load_ok :: "load_state \<Rightarrow> bool" where
  "load_ok st \<longleftrightarrow> conf_ok (ld_conf st) \<and> ld_sv st \<in> members (conf_sections (ld_conf st)) \<and>
     section_name (ld_conf st) (ld_sv st) = ld_section st"

definition load_view :: "load_state \<Rightarrow> sections \<times> bytes" where
  "load_view st = (conf_map (ld_conf st), ld_section st)"

text \<open>The allocation of a value and of its section, and its entry.\<close>

lemma load_target:
  assumes "load_ok st" "fresh_objects cm" "cm_value cm (ld_conf st) = Some v"
    and "c1 = (ld_conf st)\<lparr>hvals := (hvals (ld_conf st))(v \<mapsto> \<lparr>v_section = None, v_name = Some k, v_value = Some t\<rparr>)\<rparr>"
    and "(if n \<noteq> ld_section st then find_section cm c1 n else (ld_sv st, c1)) = (tv, c2)" "tv \<noteq> 0"
  shows "conf_ok c2" "tv \<in> members (conf_sections c2)" "section_name c2 tv = n" "keeps_names (ld_conf st) c2"
    "conf_map c2 = with_section (conf_map (ld_conf st)) n" "0 < v" "v \<notin> members (conf_values c2)"
    "hvals c2 v = Some \<lparr>v_section = None, v_name = Some k, v_value = Some t\<rparr>"
proof -
  let ?c = "ld_conf st"
  have ok: "conf_ok ?c" using assms(1) by (simp add: load_ok_def)
  have v: "0 < v" "hvals ?c v = None" using assms(2,3) by (auto simp: fresh_objects_def)
  have v_new: "v \<notin> members (conf_values ?c)" using ok v(2) by (auto simp: conf_ok_def value_ok_def)
  have c1: "conf_ok c1 \<and> conf_map c1 = conf_map ?c \<and> keeps_names ?c c1"
    by (rule value_unseen [OF ok v_new]) (simp_all add: assms(4))
  have "conf_ok c2 \<and> keeps_names c1 c2 \<and> conf_map c2 = with_section (conf_map c1) n \<and> tv \<in> members (conf_sections c2) \<and>
      section_name c2 tv = n \<and> hvals c2 = hvals c1 \<and> conf_values c2 = conf_values c1"
  proof (cases "n = ld_section st")
    case True
    have "tv \<in> members (conf_sections c1)" "section_name c1 tv = n"
      using assms(1,5) True c1 by (auto simp: load_ok_def keeps_names_def)
    moreover from this have "conf_map c1 n \<noteq> None" using conf_map_member c1 by blast
    then have "with_section (conf_map c1) n = conf_map c1" by (simp only: with_section_def if_False)
    ultimately show ?thesis using assms(5) True c1 by (simp add: keeps_names_def)
  next
    case False
    then have find: "find_section cm c1 n = (tv, c2)" using assms(5) by simp
    have "hvals c2 = hvals c1 \<and> conf_values c2 = conf_values c1" using find_section_values [OF _ assms(2) find] c1 by blast
    then show ?thesis using find_section_spec [OF _ assms(2) find] c1 assms(6) by simp
  qed
  then show "conf_ok c2" "tv \<in> members (conf_sections c2)" "section_name c2 tv = n" "keeps_names ?c c2"
      "conf_map c2 = with_section (conf_map ?c) n" "0 < v" "v \<notin> members (conf_values c2)"
      "hvals c2 v = Some \<lparr>v_section = None, v_name = Some k, v_value = Some t\<rparr>"
    using c1 v(1) v_new by (simp_all add: assms(4) keeps_names_def)
qed

lemma load_value_spec:
  assumes "load_ok st" "fresh_objects cm" "blocks_ok (cm_ptrs cm)" "cm_value cm (ld_conf st) = Some v"
    and "c1 = (ld_conf st)\<lparr>hvals := (hvals (ld_conf st))(v \<mapsto> \<lparr>v_section = None, v_name = Some k, v_value = Some t\<rparr>)\<rparr>"
    and "(if n \<noteq> ld_section st then find_section cm c1 n else (ld_sv st, c1)) = (tv, c2)" "tv \<noteq> 0"
    and "add_string cm c2 tv v = (r, c3)"
  shows "conf_ok c3 \<and> keeps_names (ld_conf st) c3 \<and>
    (if r then conf_map c3 = conf_add (with_section (conf_map (ld_conf st)) n) n k t else v \<notin> members (conf_values c3))"
proof -
  note c2 = load_target [OF assms(1,2,4,5,6,7)]
  have "conf_ok c3 \<and> conf_map c3 = (if r then conf_add (conf_map c2) n k t else conf_map c2) \<and> keeps_names c2 c3 \<and>
      (r \<or> v \<notin> members (conf_values c3))"
    by (rule add_string_spec [OF c2(1,2,3,6,7,8) assms(3,8)])
  then show ?thesis using c2(4,5) by (auto simp: keeps_names_def)
qed

lemma load_assignment_spec:
  assumes "load_ok st" "fresh_objects cm" "blocks_ok (cm_ptrs cm)" "load_assignment cm st s = (ok, st')"
  shows "if ok then load_ok st' \<and> (case split_assignment s of None \<Rightarrow> False
      | Some (sec, k, start) \<Rightarrow> (\<exists>t. copy_text start = Some t \<and> load_view st' =
          (let n = (case sec of None \<Rightarrow> ld_section st | Some n \<Rightarrow> n) in
             (conf_add (with_section (conf_map (ld_conf st)) n) n k t, ld_section st))))
    else conf_ok (ld_conf st')"
proof -
  let ?c = "ld_conf st"
  have okc: "conf_ok ?c" using assms(1) by (simp add: load_ok_def)
  show ?thesis
  proof (cases "split_assignment s")
    case None
    then show ?thesis using assms(4) okc by (simp add: load_assignment_def)
  next
    case (Some a)
    then obtain sec k start where sp: "split_assignment s = Some (sec, k, start)" by (cases a) auto
    define n where "n = (case sec of None \<Rightarrow> ld_section st | Some n \<Rightarrow> n)"
    show ?thesis
    proof (cases "cm_value cm ?c")
      case None
      then show ?thesis using assms(4) okc sp by (simp add: load_assignment_def CONF_VALUE_new_def)
    next
      case (Some v)
      have v: "0 < v" "hvals ?c v = None" using assms(2) Some by (auto simp: fresh_objects_def)
      have v_new: "v \<notin> members (conf_values ?c)" using okc v(2) by (auto simp: conf_ok_def value_ok_def)
      define c0 where "c0 = ?c\<lparr>hvals := (hvals ?c)(v \<mapsto> \<lparr>v_section = None, v_name = None, v_value = None\<rparr>)\<rparr>"
      have free: "conf_ok (value_free v c)" if "conf_ok c" "v \<notin> members (conf_values c)" for c
      proof -
        have "conf_ok (value_free v c) \<and> conf_map (value_free v c) = conf_map c \<and> keeps_names c (value_free v c)"
          by (rule value_unseen [OF that]) (simp_all add: value_free_other)
        then show ?thesis ..
      qed
      have c0: "conf_ok c0" "conf_values c0 = conf_values ?c"
        using value_unseen [OF okc v_new, of c0] by (simp_all add: c0_def)
      define written where "written = (\<lambda>x. ?c\<lparr>hvals := (hvals ?c)(v \<mapsto> \<lparr>v_section = None, v_name = Some k, v_value = Some x\<rparr>)\<rparr>)"
      have run: "load_assignment cm st s =
          (if \<not> cm_malloc cm (length k + 1) then (False, st\<lparr>ld_conf := value_free v c0\<rparr>)
           else case str_copy cm start of
                  None \<Rightarrow> (False, st\<lparr>ld_conf := value_free v c0\<rparr>)
                | Some x \<Rightarrow>
                    (case (if n \<noteq> ld_section st
                           then find_section cm (written x) n
                           else (ld_sv st, written x)) of
                       (tv, c) \<Rightarrow>
                         if tv = 0 then (False, st\<lparr>ld_conf := value_free v c\<rparr>)
                         else case add_string cm c tv v of
                                (False, c) \<Rightarrow> (False, st\<lparr>ld_conf := value_free v c\<rparr>)
                              | (True, c) \<Rightarrow> (True, st\<lparr>ld_conf := c\<rparr>)))"
        using sp Some v(1) by (simp add: load_assignment_def CONF_VALUE_new_def c0_def Let_def n_def written_def cong: option.case_cong if_cong prod.case_cong)
      show ?thesis
      proof (cases "\<not> cm_malloc cm (length k + 1) \<or> str_copy cm start = None")
        case True
        then have "ok = False" "st' = st\<lparr>ld_conf := value_free v c0\<rparr>" using run assms(4) by (auto split: if_splits)
        then show ?thesis using free [OF c0(1)] c0(2) v_new by simp
      next
        case False
        then obtain x where x: "str_copy cm start = Some x" "cm_malloc cm (length k + 1)" by auto
        define c1 where "c1 = written x"
        have c1_eq: "c1 = ?c\<lparr>hvals := (hvals ?c)(v \<mapsto> \<lparr>v_section = None, v_name = Some k, v_value = Some x\<rparr>)\<rparr>" by (simp add: c1_def written_def)
        obtain tv c2 where tv: "(if n \<noteq> ld_section st then find_section cm c1 n else (ld_sv st, c1)) = (tv, c2)" by fastforce
        show ?thesis
        proof (cases "tv = 0")
          case True
          have c1: "conf_ok c1" "conf_values c1 = conf_values ?c" using value_unseen [OF okc v_new, of c1] by (simp_all add: c1_eq)
          have "table_ok (section_name ?c) OPENSSL_strhash (conf_sections ?c)" using okc by (simp add: conf_ok_def)
          from table_ok_nonzero [OF this] have "ld_sv st \<noteq> 0" using assms(1) by (metis load_ok_def)
          then have find: "find_section cm c1 n = (tv, c2)" using tv True by (cases "n = ld_section st") simp_all
          have "conf_ok c2" "conf_values c2 = conf_values c1"
            using find_section_spec [OF c1(1) assms(2) find] find_section_values [OF c1(1) assms(2) find] by simp_all
          then have "conf_ok (value_free v c2)" using free v_new c1(2) by simp
          moreover have "ok = False" "st' = st\<lparr>ld_conf := value_free v c2\<rparr>"
            using run assms(4) x tv [unfolded c1_def] True by simp_all
          ultimately show ?thesis by simp
        next
          case False
          obtain r c3 where add: "add_string cm c2 tv v = (r, c3)" by (cases "add_string cm c2 tv v")
          note entered = load_value_spec [OF assms(1,2,3) Some c1_eq tv False add]
          show ?thesis
          proof (cases r)
            case True
            then have "ok = True" "st' = st\<lparr>ld_conf := c3\<rparr>" using run assms(4) x tv [unfolded c1_def] False add by simp_all
            then show ?thesis
              using entered True assms(1) sp str_copy_text [OF x(1)] n_def by (simp add: load_ok_def load_view_def keeps_names_def Let_def)
          next
            case bad: False
            then have "ok = False" "st' = st\<lparr>ld_conf := value_free v c3\<rparr>" using run assms(4) x tv [unfolded c1_def] False add by simp_all
            then show ?thesis using free entered bad by simp
          qed
        qed
      qed
    qed
  qed
qed


lemma load_section_spec:
  assumes "load_ok st" "fresh_objects cm" "load_section cm st s = (ok, st')"
  shows "if ok then load_ok st' \<and> (\<exists>e n. section_end (eat_ws s) = Some e \<and> copy_text (cut_at (eat_ws s) e) = Some n \<and>
      load_view st' = (with_section (conf_map (ld_conf st)) n, n)) else conf_ok (ld_conf st')"
proof -
  have okc: "conf_ok (ld_conf st)" using assms(1) by (simp add: load_ok_def)
  show ?thesis
  proof (cases "section_end (eat_ws s)")
    case None
    then show ?thesis using assms(3) okc by (simp add: load_section_def)
  next
    case e: (Some e)
    show ?thesis
    proof (cases "str_copy cm (cut_at (eat_ws s) e)")
      case None
      then show ?thesis using assms(3) okc e by (simp add: load_section_def)
    next
      case n: (Some n)
      obtain sv c where find: "find_section cm (ld_conf st) n = (sv, c)" by (cases "find_section cm (ld_conf st) n")
      then have "ok = (sv \<noteq> 0)" "st' = st\<lparr>ld_conf := c, ld_section := n, ld_sv := sv\<rparr>"
        using assms(3) e n by (auto simp: load_section_def)
      then show ?thesis
        using find_section_spec [OF okc assms(2) find] str_copy_text [OF n] e by (simp add: load_ok_def load_view_def)
    qed
  qed
qed

lemma load_line_spec:
  assumes "load_ok st" "fresh_objects cm" "blocks_ok (cm_ptrs cm)" "load_line cm st line = (ok, st')"
  shows "if ok then load_ok st' \<and> spec_line (load_view st) line = Some (load_view st') else conf_ok (ld_conf st')"
proof -
  let ?s = "eat_ws (clear_comments line)"
  consider "?s = []" | "?s \<noteq> []" "hd ?s = 0x5b" | "?s \<noteq> []" "hd ?s \<noteq> 0x5b" by blast
  then show ?thesis
  proof cases
    case 1
    then show ?thesis using assms(1,4) by (simp add: load_line_def spec_line_def load_view_def)
  next
    case 2
    then have "load_section cm st (tl ?s) = (ok, st')" using assms(4) by (simp add: load_line_def Let_def)
    from load_section_spec [OF assms(1,2) this] show ?thesis
      using 2 by (auto simp: spec_line_def load_view_def Let_def split: if_splits)
  next
    case 3
    then have "load_assignment cm st ?s = (ok, st')" using assms(4) by (simp add: load_line_def Let_def)
    from load_assignment_spec [OF assms(1-3) this] show ?thesis
      using 3 by (auto simp: spec_line_def load_view_def Let_def split: if_splits option.splits)
  qed
qed

end
