(* ===== verification/ConfLines.thy ===== *)
theory ConfLines
  imports ConfSteps BioAsn1
begin

text \<open>
  The lines of a configuration in a memory BIO: what the buffer of the loader holds between two reads, the text that is left,
  and the whole file as the text of its lines.
\<close>

section \<open>The buffer\<close>

definition line_ok :: "buf_mem_st \<Rightarrow> bytes \<Rightarrow> bool" where
  "line_ok b cur \<longleftrightarrow> bm_pos b = 0 \<and> length cur \<le> bm_length b \<and> bm_length b \<le> bm_max b \<and>
     (case bm_data b of None \<Rightarrow> bm_max b = 0 | Some blk \<Rightarrow> length blk = bm_max b \<and> take (length cur) blk = cur)"

lemma take_copy_before: "n \<le> i \<Longrightarrow> i \<le> length dst \<Longrightarrow> take n (copy_at dst i src) = take n dst"
  by (simp add: copy_at_def min_def)

lemma reserve_any:
  assumes "alloc_ok malloc" "line_ok b cur" "0 < want" "BUF_MEM_reserve malloc b want = (True, b')"
  shows "line_ok b' cur \<and> want \<le> bm_max b' \<and> bm_length b' = bm_length b"
proof (cases "want \<le> bm_max b")
  case True
  then show ?thesis using assms(2,4) by (simp add: BUF_MEM_reserve_def)
next
  case False
  define a where "a = size_add want 3"
  define n where "n = a div 3"
  define k where "k = n * 4 mod size_max"
  have "BUF_MEM_reserve malloc b want =
      (if a < want then (False, b) else if k div 4 \<noteq> n then (False, b)
       else case OPENSSL_realloc malloc (bm_data b) k of
              None \<Rightarrow> (False, b) | Some blk \<Rightarrow> (True, b\<lparr>bm_data := Some blk, bm_max := k\<rparr>))"
    using False by (simp only: BUF_MEM_reserve_def Let_def a_def n_def k_def if_False)
  then have "\<not> a < want \<and> k div 4 = n \<and> (\<exists>blk. OPENSSL_realloc malloc (bm_data b) k = Some blk \<and> b' = b\<lparr>bm_data := Some blk, bm_max := k\<rparr>)"
    using assms(4) by (auto split: if_splits option.splits)
  then obtain blk where n: "want \<le> a" "k div 4 = n" "OPENSSL_realloc malloc (bm_data b) k = Some blk"
    "b' = b\<lparr>bm_data := Some blk, bm_max := k\<rparr>" by auto
  have "a = want + 3"
  proof (rule ccontr)
    assume "a \<noteq> want + 3"
    then have "\<not> want + 3 < size_max" "a = (want + 3) mod size_max" by (auto simp: a_def size_add_def)
    moreover have "(want + 3) mod size_max < want" if "\<not> want + 3 < size_max"
      using that by (cases "want < size_max") (simp_all add: le_mod_geq mod_less_divisor order.strict_trans2 [OF mod_less_divisor])
    ultimately show False using n(1) by simp
  qed
  then have "want \<le> n * 4" by (simp add: n_def)
  moreover have "n * 4 \<le> k" using n(2) div_times_less_eq_dividend [of k 4] by simp
  ultimately have want: "want \<le> k" by simp
  have len: "length blk = k" using realloc_length [OF assms(1) n(3)] .
  have "take (length cur) blk = cur"
  proof (cases "bm_data b")
    case None
    then have "cur = []" using assms(2) by (auto simp: line_ok_def)
    then show ?thesis by simp
  next
    case (Some old)
    then have old: "length old = bm_max b" "take (length cur) old = cur" "length cur \<le> length old" using assms(2) by (auto simp: line_ok_def)
    obtain ret where "blk = copy_at ret 0 (take (length old) old)" "malloc k = Some ret"
      using n(3) Some want False old(1) by (auto simp: OPENSSL_realloc_def Let_def split: option.splits)
    then show ?thesis using old by (simp add: copy_at_def)
  qed
  then show ?thesis using assms(2) n(4) want len False by (simp add: line_ok_def)
qed

lemma grow_any:
  assumes "alloc_ok malloc" "line_ok b cur" "0 < len" "length cur \<le> len" "BUF_MEM_grow malloc b len = (n, b')" "n \<noteq> 0"
  shows "\<exists>blk. bm_data b' = Some blk \<and> length blk = bm_max b' \<and> bm_pos b' = 0 \<and> len \<le> bm_max b' \<and> bm_length b' = len \<and>
    take (length cur) blk = cur"
proof -
  obtain b1 where res: "BUF_MEM_reserve malloc b len = (True, b1)"
    using assms(5,6) by (auto simp: BUF_MEM_grow_def split: prod.splits bool.splits)
  from reserve_any [OF assms(1,2,3) this]
  have b1: "line_ok b1 cur" "len \<le> bm_max b1" "bm_length b1 = bm_length b" by simp_all
  then obtain blk where blk: "bm_data b1 = Some blk" "length blk = bm_max b1" "take (length cur) blk = cur" "bm_pos b1 = 0"
      "length cur \<le> bm_length b1" "bm_length b1 \<le> bm_max b1"
    using assms(3) by (cases "bm_data b1") (auto simp: line_ok_def)
  show ?thesis
  proof (cases "bm_length b1 < len")
    case True
    then have "b' = (buf_store b1 (bm_length b1) (replicate (len - bm_length b1) 0))\<lparr>bm_length := len\<rparr>"
      using assms(5) res by (auto simp: BUF_MEM_grow_def Let_def)
    moreover have "take (length cur) (copy_at blk (bm_length b1) (replicate (len - bm_length b1) 0)) = cur"
      using blk take_copy_before [of "length cur" "bm_length b1" blk] by simp
    ultimately show ?thesis using blk b1(2) True by (simp add: buf_store_def length_copy_at)
  next
    case False
    then have "b' = b1\<lparr>bm_length := len\<rparr>" using assms(5) res by (auto simp: BUF_MEM_grow_def Let_def)
    then show ?thesis using blk b1(2) by simp
  qed
qed

section \<open>One read\<close>

lemma strip_newlines_take: "strip_newlines p = take (length (strip_newlines p)) p"
proof -
  have "rev p = takeWhile (\<lambda>b. b = 0x0d \<or> b = 0x0a) (rev p) @ dropWhile (\<lambda>b. b = 0x0d \<or> b = 0x0a) (rev p)" by simp
  then have "p = strip_newlines p @ rev (takeWhile (\<lambda>b. b = 0x0d \<or> b = 0x0a) (rev p))"
    unfolding strip_newlines_def by (metis rev_append rev_rev_ident)
  then show ?thesis by (metis append_eq_conv_conj)
qed

lemma strip_newlines_length: "length (strip_newlines p) \<le> length p"
  by (metis strip_newlines_take length_take min.cobounded1)

text \<open>The block after a read: the line so far, what was read, and a terminator.\<close>

lemma read_block:
  assumes "take (length cur) blk = cur" "length cur + 512 \<le> length blk" "length q \<le> 510" "0 \<notin> set q"
    and "blk3 = copy_at (copy_at (copy_at blk (length cur) [0]) (length cur) (q @ [0])) (length cur + 511) [0]"
  shows "length blk3 = length blk" "c_string (drop (length cur) blk3) = q" "n \<le> length q \<Longrightarrow> take (length cur + n) blk3 = cur @ take n q"
proof -
  let ?a = "length cur"
  have len: "length (copy_at blk ?a [0]) = length blk" "length (copy_at (copy_at blk ?a [0]) ?a (q @ [0])) = length blk"
    using assms(2,3) by (simp_all add: length_copy_at)
  show "length blk3 = length blk" using len(2) assms(2,5) by (simp add: length_copy_at)
  have "take ?a (copy_at blk ?a [0]) = cur" using assms(1,2) take_copy_before [of ?a ?a blk] by simp
  then have "take (?a + length (q @ [0])) (copy_at (copy_at blk ?a [0]) ?a (q @ [0])) = cur @ q @ [0]"
    using take_copy_at [of ?a "copy_at blk ?a [0]" "q @ [0]"] len(1) assms(2) by simp
  then have t: "take (?a + length (q @ [0])) blk3 = cur @ q @ [0]"
    using take_copy_before [of "?a + length (q @ [0])" "?a + 511" "copy_at (copy_at blk ?a [0]) ?a (q @ [0])" "[0]"] len(2) assms(2,3,5) by simp
  then have split: "blk3 = (cur @ q @ [0]) @ drop (?a + length (q @ [0])) blk3" by (metis append_take_drop_id)
  have "drop ?a blk3 = q @ 0 # drop (?a + length (q @ [0])) blk3" by (subst split) simp
  then show "c_string (drop ?a blk3) = q" using assms(4) by (simp add: c_string_def takeWhile_tail takeWhile_append)
  show "n \<le> length q \<Longrightarrow> take (?a + n) blk3 = cur @ take n q" by (subst split) simp
qed

definition holds_line :: "line_buf \<Rightarrow> bytes \<Rightarrow> bool" where
  "holds_line lb cur \<longleftrightarrow> line_ok (lb_buff lb) cur \<and> lb_bufnum lb = length cur"

lemma read_line_law:
  assumes "mem_table methods m malloc" "mem_holds m p ro eof h cs" "alloc_ok (cm_blocks cm)" "0 \<notin> set cs" "holds_line lb cur"
  defines "q \<equiv> line_of 510 cs"
  shows "\<exists>event lb' eline' h'. read_line_chunk methods cm h p lb eline = Some (event, lb', eline', h') \<and>
    (event = Line_failed \<or> mem_holds m p ro eof h' (drop (length q) cs) \<and>
      (if q = [] \<and> \<not> lb_again lb then event = Line_end
       else let line = cur @ strip_newlines q; long = (q \<noteq> [] \<and> strip_newlines q = q); esc = ends_in_escape line
            in lb_again lb' = (long \<or> esc) \<and>
               (if long \<or> esc then event = Line_more \<and> holds_line lb' (if esc then butlast line else line)
                else event = Line line \<and> holds_line lb' [])))"
proof -
  obtain n b where grow: "BUF_MEM_grow (cm_blocks cm) (lb_buff lb) (lb_bufnum lb + CONFBUFSIZE) = (n, b)"
    by (cases "BUF_MEM_grow (cm_blocks cm) (lb_buff lb) (lb_bufnum lb + CONFBUFSIZE)")
  show ?thesis
  proof (cases "n = 0")
    case True
    then show ?thesis using grow by (simp add: read_line_chunk_def)
  next
    case False
    have at: "lb_bufnum lb = length cur" "line_ok (lb_buff lb) cur" using assms(5) by (simp_all add: holds_line_def)
    obtain blk where blk: "bm_data b = Some blk" "length blk = bm_max b" "bm_pos b = 0" "length cur + 512 \<le> bm_max b"
        "bm_length b = length cur + 512" "take (length cur) blk = cur"
      using grow_any [OF assms(3) at(2) _ _ grow False] at(1) by (auto simp: CONFBUFSIZE_def)
    obtain h' where gets: "BIO_gets methods h p 511 = Some (int (length q), q, h')" "mem_holds m p ro eof h' (drop (length q) cs)"
      using mem_BIO_gets [OF assms(1,2), of 511] by (auto simp: q_def)
    have q: "length q \<le> 510" "0 \<notin> set q"
    proof -
      have "q = take (length q) cs \<and> length q \<le> 510"
        using line_of_parts(2,3) [of cs 510] by (cases "cs = []") (auto simp: q_def line_of_def OPENSSL_memchr_def append_eq_conv_conj)
      then show "length q \<le> 510" "0 \<notin> set q" using assms(4) in_set_takeD [of 0 "length q" cs] by metis+
    qed
    define b3 where "b3 = buf_store (buf_store (buf_store b (length cur) [0]) (length cur) (q @ [0])) (length cur + 511) [0]"
    define blk3 where "blk3 = copy_at (copy_at (copy_at blk (length cur) [0]) (length cur) (q @ [0])) (length cur + 511) [0]"
    note block = read_block [OF blk(6) _ q blk3_def]
    have b3: "bm_data b3 = Some blk3" "bm_pos b3 = 0" "bm_length b3 = length cur + 512" "bm_max b3 = bm_max b"
      using blk(1,3,5) by (simp_all add: b3_def blk3_def buf_store_def)
    have len3: "length blk3 = bm_max b" "c_string (drop (length cur) blk3) = q" using block(1,2) blk(2,4) by simp_all
    define sq where "sq = strip_newlines q"
    have sq: "length sq \<le> length q" "sq = take (length sq) q" using strip_newlines_length strip_newlines_take by (simp_all add: sq_def)
    have line3: "take (length cur + length sq) blk3 = cur @ sq" using block(3) [of "length sq"] sq blk(2,4) by simp
    define lng where "lng = (q \<noteq> [] \<and> sq = q)"
    define b4 where "b4 = (if lng then b3 else buf_store b3 (length cur + length sq) [0])"
    obtain blk4 where b4: "bm_data b4 = Some blk4" "length blk4 = bm_max b" "take (length cur + length sq) blk4 = cur @ sq"
        "bm_pos b4 = 0" "bm_length b4 = length cur + 512" "bm_max b4 = bm_max b"
    proof (cases lng)
      case True
      then show ?thesis using that b3 len3 line3 by (simp add: b4_def)
    next
      case False
      have le: "length cur + length sq \<le> length blk3" "length cur + length sq + 1 \<le> length blk3" using sq(1) q(1) len3(1) blk(4) by simp_all
      have "take (length cur + length sq) (copy_at blk3 (length cur + length sq) [0]) = cur @ sq"
        using take_copy_before [OF order_refl le(1)] line3 by simp
      then show ?thesis using that [of "copy_at blk3 (length cur + length sq) [0]"] False b3 len3(1) le(2)
        by (simp add: b4_def buf_store_def length_copy_at)
    qed
    have ok4: "line_ok b4 l" if "length l \<le> length cur + length sq" "take (length l) (cur @ sq) = l" for l
    proof -
      have "take (length l) blk4 = l" using b4(3) that by (metis min.absorb1 take_take)
      then show ?thesis using b4 that(1) sq(1) q(1) blk(4) by (simp add: line_ok_def)
    qed
    define esc where "esc = ends_in_escape (cur @ sq)"
    define lb' where "lb' = lb\<lparr>lb_buff := b4, lb_bufnum := length (cur @ sq) - (if esc then 1 else 0), lb_again := lng \<or> esc\<rparr>"
    have piece: "line_piece (lb\<lparr>lb_buff := b3\<rparr>) eline =
        (if q = [] \<and> \<not> lb_again lb then (Line_end, lb\<lparr>lb_buff := b3\<rparr>, eline)
         else if lng \<or> esc then (Line_more, lb', if lng then eline else eline + 1)
         else (Line (cur @ sq), lb'\<lparr>lb_bufnum := 0\<rparr>, if lng then eline else eline + 1))"
    proof -
      have p: "(case bm_data b3 of None \<Rightarrow> [] | Some blk \<Rightarrow> c_string (drop (length cur) blk)) = q" using b3(1) len3(2) by simp
      have line: "(case bm_data b4 of None \<Rightarrow> [] | Some blk \<Rightarrow> take (length cur + length sq) blk) = cur @ sq" using b4(1,3) by simp
      have sel: "lb_bufnum (lb\<lparr>lb_buff := b3\<rparr>) = length cur" "lb_buff (lb\<lparr>lb_buff := b3\<rparr>) = b3" "lb_again (lb\<lparr>lb_buff := b3\<rparr>) = lb_again lb"
        by (simp_all add: at(1))
      show ?thesis
        unfolding line_piece_def Let_def
        by (simp only: sel p sq_def [symmetric] lng_def [symmetric] b4_def [symmetric] line esc_def [symmetric] lb'_def)
          (simp add: lb'_def)
    qed
    have run: "read_line_chunk methods cm h p lb eline =
        (case line_piece (lb\<lparr>lb_buff := b3\<rparr>) eline of (event, lb, eline) \<Rightarrow> Some (event, lb, eline, h'))"
      using False gets(1) grow [unfolded at(1) CONFBUFSIZE_def]
      by (simp add: read_line_chunk_def at(1) CONFBUFSIZE_def Let_def b3_def)
    have line: "holds_line lb' (if esc then butlast (cur @ sq) else cur @ sq)" "holds_line (lb'\<lparr>lb_bufnum := 0\<rparr>) []"
    proof -
      have "take (length (butlast l)) l = butlast l" "length (butlast l) \<le> length l" for l :: bytes by (simp_all add: butlast_conv_take)
      then have "line_ok b4 (butlast (cur @ sq))" using ok4 [of "butlast (cur @ sq)"] length_append [of cur sq] by metis
      moreover have "line_ok b4 (cur @ sq)" "line_ok b4 []" using ok4 [of "cur @ sq"] ok4 [of "[]"] by simp_all
      ultimately show "holds_line lb' (if esc then butlast (cur @ sq) else cur @ sq)" "holds_line (lb'\<lparr>lb_bufnum := 0\<rparr>) []"
        by (simp_all add: holds_line_def lb'_def)
    qed
    show ?thesis
    proof (cases "q = [] \<and> \<not> lb_again lb")
      case True
      then show ?thesis using run piece gets(2) by simp
    next
      case more: False
      define e where "e = (if lng then eline else eline + 1)"
      define ev where "ev = (if lng \<or> esc then Line_more else Line (cur @ sq))"
      define lb2 where "lb2 = (if lng \<or> esc then lb' else lb'\<lparr>lb_bufnum := 0\<rparr>)"
      have again: "lb_again lb2 = (lng \<or> esc)" by (simp add: lb'_def lb2_def)
      have "read_line_chunk methods cm h p lb eline = Some (ev, lb2, e, h')"
        using run piece unfolding if_not_P [OF more] by (simp add: e_def ev_def lb2_def split: if_splits)
      moreover have "ev \<noteq> Line_failed" by (simp add: ev_def)
      ultimately show ?thesis
        unfolding if_not_P [OF more] Let_def sq_def [symmetric] lng_def [symmetric] esc_def [symmetric]
        using gets(2) line again by (auto simp: ev_def lb2_def)
    qed
  qed
qed

end
