(* ===== verification/ConfTotal.thy ===== *)
theory ConfTotal
  imports ConfLines
begin

text \<open>
  When loading succeeds: with an allocator that refuses nothing, every text that is one is loaded.
\<close>

definition generous :: "conf_mem \<Rightarrow> bool" where
  "generous cm \<longleftrightarrow> (\<forall>n. cm_malloc cm n) \<and> (\<forall>n. cm_ptrs cm n \<noteq> None) \<and> (\<forall>n. cm_blocks cm n \<noteq> None) \<and>
     (\<forall>c. finite (dom (hsecs c)) \<longrightarrow> cm_section cm c \<noteq> None) \<and> (\<forall>c. finite (dom (hvals c)) \<longrightarrow> cm_value cm c \<noteq> None)"

definition finite_heap :: "conf_state \<Rightarrow> bool" where
  "finite_heap c \<longleftrightarrow> finite (dom (hsecs c)) \<and> finite (dom (hvals c))"

section \<open>Finite heaps stay finite\<close>

lemma finite_map_upd: "finite (dom f) \<Longrightarrow> finite (dom (f(x := y)))"
  by (cases y) simp_all

lemma finite_free: "finite_heap c \<Longrightarrow> finite_heap (value_free v c)" "finite_heap c \<Longrightarrow> finite_heap (section_free s c)"
  by (simp_all add: finite_heap_def value_free_def section_free_def finite_map_upd)

lemma finite_set_values: "finite_heap c \<Longrightarrow> finite_heap (set_values s vals c)"
  by (auto simp: finite_heap_def set_values_def split: option.split)

lemma finite_tables: "finite_heap (c\<lparr>conf_values := t\<rparr>) = finite_heap c" "finite_heap (c\<lparr>conf_sections := t\<rparr>) = finite_heap c"
  "finite_heap c \<Longrightarrow> finite_heap (c\<lparr>hvals := (hvals c)(v := y)\<rparr>)" "finite_heap c \<Longrightarrow> finite_heap (c\<lparr>hsecs := (hsecs c)(s := z)\<rparr>)"
  by (simp_all add: finite_heap_def finite_map_upd)

lemma finite_add_string: "finite_heap c \<Longrightarrow> finite_heap (snd (add_string cm c s v))"
  by (auto simp: add_string_def Let_def finite_tables finite_free finite_set_values split: prod.split bool.split)

lemma finite_new_section: "finite_heap c \<Longrightarrow> finite_heap (snd (NCONF_new_section cm c n))"
  by (auto simp: NCONF_new_section_def Let_def finite_tables finite_free split: prod.split bool.split option.split)

lemma finite_find_section: "finite_heap c \<Longrightarrow> finite_heap (snd (find_section cm c n))"
  by (simp add: find_section_def Let_def finite_new_section)

section \<open>Nothing is refused\<close>

lemma reserve_granted:
  assumes "\<forall>n. malloc n \<noteq> None" "want < 2 ^ 62"
  shows "fst (BUF_MEM_reserve malloc b want)"
proof -
  have "(want + 3) div 3 * 4 < size_max" "size_add want 3 = want + 3" using assms(2) by simp_all
  moreover have "\<exists>y. OPENSSL_realloc malloc (bm_data b) k = Some y" for k
  proof -
    obtain y where "malloc k = Some y" using assms(1) by blast
    then show ?thesis by (simp add: OPENSSL_realloc_def Let_def split: option.split)
  qed
  moreover obtain y where "OPENSSL_realloc malloc (bm_data b) ((want + 3) div 3 * 4) = Some y" using calculation(3) by blast
  ultimately show ?thesis by (simp add: BUF_MEM_reserve_def Let_def)
qed

lemma grow_total:
  assumes "\<forall>n. malloc n \<noteq> None" "0 < want" "want < 2 ^ 62"
  shows "fst (BUF_MEM_grow malloc b want) \<noteq> 0"
  using reserve_granted [OF assms(1,3), of b] assms(2) by (auto simp: BUF_MEM_grow_def Let_def split: prod.splits bool.splits)

lemma str_copy_total: "generous cm \<Longrightarrow> length s < 2 ^ 61 \<Longrightarrow> str_copy cm s = copy_text s"
proof -
  assume h: "generous cm" "length s < 2 ^ 61"
  let ?b = "\<lparr>bm_length = 0, bm_data = None, bm_pos = 0, bm_max = 0\<rparr>"
  obtain n b where b: "BUF_MEM_grow (cm_blocks cm) ?b (length s + 1) = (n, b)" by (cases "BUF_MEM_grow (cm_blocks cm) ?b (length s + 1)")
  have "\<forall>n. cm_blocks cm n \<noteq> None" using h(1) unfolding generous_def by blast
  from grow_total [OF this, of "length s + 1" ?b] have "n \<noteq> 0" using h(2) b by simp
  then show ?thesis using h(1) b by (simp add: str_copy_def generous_def)
qed

lemma new_stack_total: "generous cm \<Longrightarrow> OPENSSL_sk_new_null (cm_ptrs cm) (cm_malloc cm 40) \<noteq> None"
  by (auto simp: generous_def OPENSSL_sk_new_null_def OPENSSL_sk_new_def split: option.splits)

lemma insert_total:
  assumes "hashing hash_of cmp" "table_ok key h lh" "\<And>a. a \<in> members lh \<Longrightarrow> key' a = key a" "data \<noteq> 0"
    and "\<And>a. hash_of a = h (key' a)" "\<And>a b. cmp a b = 0 \<longleftrightarrow> key' a = key' b" "malloc_ok 24"
  shows "\<exists>old lh'. OPENSSL_lh_insert malloc_ok zalloc_ok lh hash_of cmp data = (True, old, lh')"
proof -
  have "table_ok key' h lh" using assms(2,3) table_ok_cong [of lh key' key h] by blast
  then have inv: "lh_inv hash_of cmp lh"
    unfolding table_ok_def using assms(5,6) lh_inv_cong [of lh "\<lambda>p. h (key' p)" hash_of "by_key key'" cmp] by auto
  obtain r old lh' where ins: "OPENSSL_lh_insert malloc_ok zalloc_ok lh hash_of cmp data = (r, old, lh')"
    by (cases "OPENSSL_lh_insert malloc_ok zalloc_ok lh hash_of cmp data") auto
  show ?thesis using hashing.insert_law [OF assms(1) inv assms(4) ins] ins assms(7) by (cases r) auto
qed

lemma new_section_total:
  assumes "conf_ok c" "conf_map c n = None" "fresh_objects cm" "generous cm" "finite_heap c"
  shows "fst (NCONF_new_section cm c n) \<noteq> 0"
proof -
  obtain p where p: "cm_section cm c = Some p" using assms(4,5) by (auto simp: generous_def finite_heap_def)
  obtain vals where vals: "OPENSSL_sk_new_null (cm_ptrs cm) (cm_malloc cm 40) = Some vals" using new_stack_total [OF assms(4)] by blast
  have fresh: "0 < p" "hsecs c p = None" using p assms(3) by (auto simp: fresh_objects_def)
  have pn: "p \<notin> members (conf_sections c)" using conf_ok_live [OF assms(1), of p] fresh(2) by blast
  define c1 where "c1 = c\<lparr>hsecs := (hsecs c)(p \<mapsto> \<lparr>s_name = n, s_values = vals\<rparr>)\<rparr>"
  have t: "table_ok (section_name c) OPENSSL_strhash (conf_sections c)" using assms(1) by (simp add: conf_ok_def)
  have key: "section_name c1 a = section_name c a" if "a \<in> members (conf_sections c)" for a
    using pn that by (auto simp: c1_def section_name_def)
  obtain old lh where "OPENSSL_lh_insert (cm_malloc cm) (cm_malloc cm) (conf_sections c) (conf_section_hash c1) (conf_section_cmp c1) p = (True, old, lh)"
    using insert_total [OF section_table.hashing_axioms [of c1] t key _ conf_section_hash_def section_cmp_zero,
        of p "cm_malloc cm" "cm_malloc cm"] fresh(1) assms(4) by (auto simp: generous_def)
  moreover have "conf_sections c1 = conf_sections c" by (simp add: c1_def)
  ultimately show ?thesis using p vals fresh(1) assms(4)
    by (simp add: NCONF_new_section_def c1_def [symmetric] Let_def generous_def)
qed

lemma find_section_total:
  assumes "conf_ok c" "fresh_objects cm" "generous cm" "finite_heap c"
  shows "fst (find_section cm c n) \<noteq> 0"
proof (cases "get_section c n = 0")
  case True
  then have "conf_map c n = None" by (simp add: conf_map_def)
  then show ?thesis using new_section_total [OF assms(1) _ assms(2,3,4), of n] True by (simp add: find_section_def)
next
  case False
  then show ?thesis by (simp add: find_section_def)
qed

lemma add_string_total:
  assumes "conf_ok c" "s \<in> members (conf_sections c)" "section_name c s = n" "0 < v" "v \<notin> members (conf_values c)"
    and "hvals c v = Some \<lparr>v_section = sx, v_name = Some k, v_value = Some t\<rparr>" "generous cm"
    and "length (section_entries c s) < int_max"
  shows "fst (add_string cm c s v)"
proof -
  obtain x where x: "hsecs c s = Some x" "stack_inv no_cmp (s_values x)" using assms(1,2) by (auto simp: conf_ok_def section_ok_def)
  have "length (entries (s_values x)) < int_max" using assms(8) x(1) by (simp add: section_entries_def)
  then have num: "st_num (s_values x) < int_max" using length_entries [OF x(2)] by simp
  obtain m sk where push: "OPENSSL_sk_push (cm_ptrs cm) (Some (s_values x)) v = (m, sk)" by (cases "OPENSSL_sk_push (cm_ptrs cm) (Some (s_values x)) v")
  have m: "m \<noteq> 0"
  proof
    assume "m = 0"
    then have "\<exists>n. cm_ptrs cm n = None"
      using insert_fails [OF x(2), of "cm_ptrs cm" v "st_num (s_values x)" sk] push num by (simp add: OPENSSL_sk_push_def OPENSSL_sk_num_def)
    then show False using assms(7) unfolding generous_def by blast
  qed
  define c1 where "c1 = c\<lparr>hvals := (hvals c)(v \<mapsto> \<lparr>v_section = Some n, v_name = Some k, v_value = Some t\<rparr>)\<rparr>"
  define c2 where "c2 = set_values s sk c1"
  have c2: "conf_values c2 = conf_values c" "hvals c2 = hvals c1" by (auto simp: c2_def c1_def set_values_def split: option.split)
  have t: "table_ok (value_key c) pair_hash (conf_values c)" using assms(1) by (simp add: conf_ok_def)
  have key: "value_key c2 a = value_key c a" if "a \<in> members (conf_values c)" for a
    using assms(5) that c2(2) by (auto simp: c1_def value_key_def)
  obtain old lh where "OPENSSL_lh_insert (cm_malloc cm) (cm_malloc cm) (conf_values c) (conf_value_hash c2) (conf_value_cmp c2) v = (True, old, lh)"
    using insert_total [OF value_table.hashing_axioms [of c2] t key _ conf_value_hash_pair value_cmp_zero,
        of v "cm_malloc cm" "cm_malloc cm"] assms(4,7) by (auto simp: generous_def)
  moreover have "values_of c1 s = Some (s_values x)" using x(1) by (simp add: values_of_def c1_def)
  ultimately show ?thesis
    using assms(3,6,7) push m c2(1)
    by (simp add: add_string_def Let_def generous_def c1_def [symmetric] c2_def [symmetric])
qed


section \<open>Lines\<close>

definition bounded :: "nat \<Rightarrow> sections \<Rightarrow> bool" where
  "bounded N m \<longleftrightarrow> (\<forall>n l. m n = Some l \<longrightarrow> length l \<le> N)"

lemma bounded_add:
  assumes "bounded N m"
  shows "bounded (N + 1) (conf_add m n k t)"
  unfolding bounded_def
proof (intro allI impI)
  fix n' l
  assume l: "conf_add m n k t n' = Some l"
  show "length l \<le> N + 1"
  proof (cases "n' = n")
    case True
    then obtain l0 where l0: "m n = Some l0" "l = filter (\<lambda>p. fst p \<noteq> k) l0 @ [(k, t)]" using l by (auto simp: conf_add_def)
    have "length (filter (\<lambda>p. fst p \<noteq> k) l0) \<le> length l0" by (rule length_filter_le)
    also have "\<dots> \<le> N" using assms l0(1) by (simp add: bounded_def)
    finally show ?thesis using l0(2) by simp
  next
    case False
    then have "length l \<le> N" using l assms by (simp add: conf_add_def bounded_def)
    then show ?thesis by simp
  qed
qed

lemma bounded_line:
  assumes "bounded N m" "spec_line (m, cur) line = Some (m', cur')"
  shows "bounded (N + 1) m'"
proof -
  have sec: "bounded N (with_section m n)" for n using assms(1) by (simp add: bounded_def with_section_def)
  have more: "bounded (N + 1) x" if "bounded N x" for x :: sections using that by (simp add: bounded_def le_SucI)
  have add: "bounded (N + 1) (conf_add (with_section m n) n k t)" for n k t by (rule bounded_add [OF sec])
  from assms(2) consider "m' = m" | n where "m' = with_section m n" | n k t where "m' = conf_add (with_section m n) n k t"
    by (auto simp: spec_line_def Let_def split: if_splits option.splits)
  then show ?thesis by cases (use more [OF assms(1)] more [OF sec] add in simp_all)
qed

lemma clear_loop_shorter: "length (clear_loop p) \<le> length p"
proof (induction p rule: clear_loop.induct)
  case (2 c p)
  then show ?case using pass_over_shorter [of c p] by auto
qed simp

lemma clear_comments_shorter: "length (eat_ws (clear_comments p)) \<le> length p"
proof -
  have "length (clear_comments p) \<le> length (takeWhile is_conf_ws p) + length (dropWhile is_conf_ws p)"
    using clear_loop_shorter by (simp add: clear_comments_def)
  also have "\<dots> = length p" by (metis length_append takeWhile_dropWhile_id)
  finally show ?thesis using eat_ws_shorter le_trans by blast
qed

lemma split_assignment_shorter: "split_assignment s = Some (sec, k, start) \<Longrightarrow> length start \<le> length s"
proof -
  assume h: "split_assignment s = Some (sec, k, start)"
  define a where "a = (if take 2 (eat_name s) = [0x3a, 0x3a] then eat_name (drop 2 (eat_name s)) else eat_name s)"
  have "length (eat_name (drop 2 (eat_name s))) \<le> length s"
    using eat_name_shorter [of "drop 2 (eat_name s)"] eat_name_shorter [of s] by simp
  then have "length (eat_ws a) \<le> length s" using eat_name_shorter [of s] eat_ws_shorter [of a] by (auto simp: a_def)
  moreover have "start = trim_end (eat_ws (tl (eat_ws a)))"
    using h by (auto simp: split_assignment_def Let_def a_def split: if_splits)
  moreover have "length (trim_end q) \<le> length q" for q by (simp add: trim_end_def length_dropWhile_le [THEN le_trans])
  ultimately show ?thesis using eat_ws_shorter [of "tl (eat_ws a)"]
    by (metis length_tl diff_le_self le_trans)
qed

lemma load_assignment_total:
  assumes "load_ok st" "fresh_objects cm" "generous cm" "finite_heap (ld_conf st)" "bounded N (conf_map (ld_conf st))" "N < int_max"
    and "length s < 2 ^ 61" "split_assignment s = Some (sec, k, start)" "copy_text start = Some t"
  shows "fst (load_assignment cm st s)"
proof -
  let ?c = "ld_conf st"
  obtain v where v: "cm_value cm ?c = Some v" using assms(3,4) by (auto simp: generous_def finite_heap_def)
  have pos: "v \<noteq> 0" using v assms(2) by (force simp: fresh_objects_def)
  have copy: "str_copy cm start = Some t" using str_copy_total [OF assms(3)] split_assignment_shorter [OF assms(8)] assms(7,9) by simp
  define n where "n = (case sec of None \<Rightarrow> ld_section st | Some n \<Rightarrow> n)"
  define c1 where "c1 = ?c\<lparr>hvals := (hvals ?c)(v \<mapsto> \<lparr>v_section = None, v_name = Some k, v_value = Some t\<rparr>)\<rparr>"
  obtain tv c2 where tv: "(if n \<noteq> ld_section st then find_section cm c1 n else (ld_sv st, c1)) = (tv, c2)" by fastforce
  have okc: "conf_ok ?c" using assms(1) by (simp add: load_ok_def)
  have "hvals ?c v = None" using v assms(2) by (simp add: fresh_objects_def)
  then have "v \<notin> members (conf_values ?c)" using okc by (auto simp: conf_ok_def value_ok_def)
  then have c1: "conf_ok c1" using value_unseen [OF okc, of v c1] by (simp add: c1_def)
  have fin: "finite_heap c1" using finite_tables(3) [OF assms(4)] by (simp add: c1_def)
  have tv0: "tv \<noteq> 0"
  proof (cases "n = ld_section st")
    case True
    have "table_ok (section_name ?c) OPENSSL_strhash (conf_sections ?c)" using okc by (simp add: conf_ok_def)
    from table_ok_nonzero [OF this] have "ld_sv st \<noteq> 0" using assms(1) by (metis load_ok_def)
    then show ?thesis using True tv by simp
  next
    case False
    then show ?thesis using find_section_total [OF c1 assms(2,3) fin, of n] tv by simp
  qed
  note c2 = load_target [OF assms(1,2) v c1_def tv tv0]
  have "bounded N (conf_map c2)" using assms(5) c2(5) by (auto simp: bounded_def with_section_def)
  moreover have "conf_map c2 n = Some (map (entry c2) (section_entries c2 tv))" by (rule conf_map_member [OF c2(1,2,3)])
  ultimately have "length (section_entries c2 tv) \<le> N" by (metis bounded_def length_map)
  then have "fst (add_string cm c2 tv v)"
    using add_string_total [OF c2(1,2,3,6,7,8) assms(3)] assms(6) by simp
  then obtain c3 where "add_string cm c2 tv v = (True, c3)" by (cases "add_string cm c2 tv v") simp
  then show ?thesis
    using v pos assms(3,8) copy tv tv0
    by (simp add: load_assignment_def CONF_VALUE_new_def n_def [symmetric] c1_def [symmetric] generous_def split: prod.split bool.split)
qed


lemma load_section_total:
  assumes "load_ok st" "fresh_objects cm" "generous cm" "finite_heap (ld_conf st)" "length s < 2 ^ 61"
    and "section_end (eat_ws s) = Some e" "copy_text (cut_at (eat_ws s) e) = Some n"
  shows "fst (load_section cm st s)"
proof -
  have "length (cut_at (eat_ws s) e) \<le> length s" using eat_ws_shorter [of s] by (simp add: cut_at_def)
  then have "str_copy cm (cut_at (eat_ws s) e) = Some n" using str_copy_total [OF assms(3)] assms(5,7) by simp
  moreover have "fst (find_section cm (ld_conf st) n) \<noteq> 0"
    using find_section_total [OF _ assms(2,3,4)] assms(1) by (simp add: load_ok_def)
  ultimately show ?thesis using assms(6) by (simp add: load_section_def case_prod_unfold)
qed

lemma load_line_total:
  assumes "load_ok st" "fresh_objects cm" "generous cm" "finite_heap (ld_conf st)" "bounded N (conf_map (ld_conf st))" "N < int_max"
    and "length line < 2 ^ 61" "spec_line (load_view st) line = Some cfg"
  shows "fst (load_line cm st line)"
proof -
  let ?s = "eat_ws (clear_comments line)"
  have len: "length ?s < 2 ^ 61" "length (tl ?s) < 2 ^ 61" using clear_comments_shorter [of line] assms(7) by simp_all
  consider "?s = []" | "?s \<noteq> []" "hd ?s = 0x5b" | "?s \<noteq> []" "hd ?s \<noteq> 0x5b" by blast
  then show ?thesis
  proof cases
    case 1
    then show ?thesis by (simp add: load_line_def)
  next
    case 2
    then obtain e n where "section_end (eat_ws (tl ?s)) = Some e" "copy_text (cut_at (eat_ws (tl ?s)) e) = Some n"
      using assms(8) by (auto simp: spec_line_def load_view_def Let_def split: option.splits)
    then show ?thesis using load_section_total [OF assms(1-4) len(2)] 2 by (simp add: load_line_def Let_def)
  next
    case 3
    then obtain sec k start t where "split_assignment ?s = Some (sec, k, start)" "copy_text start = Some t"
      using assms(8) by (auto simp: spec_line_def load_view_def Let_def split: option.splits)
    then show ?thesis using load_assignment_total [OF assms(1-6) len(1)] 3 by (simp add: load_line_def Let_def)
  qed
qed

lemma finite_load_section: "finite_heap (ld_conf st) \<Longrightarrow> finite_heap (ld_conf (snd (load_section cm st s)))"
  using finite_find_section [of "ld_conf st" cm]
  by (auto simp: load_section_def Let_def case_prod_unfold split: option.split)

lemma finite_value_new: "finite_heap c \<Longrightarrow> finite_heap (snd (CONF_VALUE_new cm c))"
  by (auto simp: CONF_VALUE_new_def finite_tables split: option.split)

lemma finite_load_assignment:
  assumes "finite_heap (ld_conf st)"
  shows "finite_heap (ld_conf (snd (load_assignment cm st s)))"
proof (cases "split_assignment s")
  case None
  then show ?thesis using assms by (simp add: load_assignment_def)
next
  case (Some a)
  obtain sec k start where a: "a = (sec, k, start)" by (cases a)
  obtain v c where v: "CONF_VALUE_new cm (ld_conf st) = (v, c)" by (cases "CONF_VALUE_new cm (ld_conf st)")
  have c: "finite_heap c" using finite_value_new [OF assms, of cm] v by simp
  have find: "finite_heap (snd (if b then find_section cm x n else (tv, x)))" if "finite_heap x" for b x n tv
    using finite_find_section [OF that] that by simp
  have tail: "finite_heap (ld_conf (snd (case add_string cm x tv v of
        (False, c) \<Rightarrow> (False, st\<lparr>ld_conf := value_free v c\<rparr>) | (True, c) \<Rightarrow> (True, st\<lparr>ld_conf := c\<rparr>))))" if "finite_heap x" for x tv
    using finite_add_string [OF that, of cm tv v] by (simp add: finite_free case_prod_unfold split: bool.split)
  show ?thesis
    unfolding load_assignment_def Some a option.case prod.case v
    using assms c find tail by (simp add: Let_def finite_free finite_tables case_prod_unfold split: option.split)
qed

lemma finite_load_line:
  assumes "finite_heap (ld_conf st)" "load_line cm st line = (ok, st')"
  shows "finite_heap (ld_conf st')"
proof -
  have "finite_heap (ld_conf (snd (load_line cm st line)))"
    using assms(1) finite_load_section finite_load_assignment by (simp add: load_line_def Let_def)
  then show ?thesis using assms(2) by simp
qed

section \<open>A line and a read, in either case\<close>

text \<open>There is room for one more line.\<close>

definition roomy :: "conf_mem \<Rightarrow> load_state \<Rightarrow> nat \<Rightarrow> bool" where
  "roomy cm st N \<longleftrightarrow> generous cm \<and> finite_heap (ld_conf st) \<and> bounded N (conf_map (ld_conf st)) \<and> N < int_max"

lemma load_line_law:
  assumes "load_ok st" "fresh_objects cm" "blocks_ok (cm_ptrs cm)" "load_line cm st line = (ok, st')"
  shows "if ok then load_ok st' \<and> spec_line (load_view st) line = Some (load_view st') \<and>
      (\<forall>N. roomy cm st N \<and> N + 1 < int_max \<longrightarrow> roomy cm st' (N + 1))
    else conf_ok (ld_conf st') \<and> (length line < 2 ^ 61 \<and> (\<exists>N. roomy cm st N) \<longrightarrow> spec_line (load_view st) line = None)"
proof (cases ok)
  case True
  note step = load_line_spec [OF assms]
  have "roomy cm st' (N + 1)" if "roomy cm st N" "N + 1 < int_max" for N
    using that step True bounded_line [of N "conf_map (ld_conf st)" "ld_section st" line "conf_map (ld_conf st')" "ld_section st'"]
      finite_load_line [OF _ assms(4)] by (simp add: roomy_def load_view_def)
  then show ?thesis using step True by simp
next
  case False
  have "spec_line (load_view st) line = None" if "length line < 2 ^ 61" "roomy cm st N" for N
  proof (rule ccontr)
    assume "spec_line (load_view st) line \<noteq> None"
    then obtain cfg where "spec_line (load_view st) line = Some cfg" by blast
    moreover have "generous cm" "finite_heap (ld_conf st)" "bounded N (conf_map (ld_conf st))" "N < int_max"
      using that(2) by (simp_all add: roomy_def)
    ultimately have "fst (load_line cm st line)" by (intro load_line_total [OF assms(1,2) _ _ _ _ that(1)])
    then show False using False assms(4) by simp
  qed
  then show ?thesis using load_line_spec [OF assms] False by auto
qed

lemma read_line_total:
  assumes "generous cm" "lb_bufnum lb < 2 ^ 61" "read_line_chunk methods cm h p lb eline = Some (event, lb', eline', h')"
  shows "event \<noteq> Line_failed"
proof -
  obtain n b where grow: "BUF_MEM_grow (cm_blocks cm) (lb_buff lb) (lb_bufnum lb + CONFBUFSIZE) = (n, b)"
    by (cases "BUF_MEM_grow (cm_blocks cm) (lb_buff lb) (lb_bufnum lb + CONFBUFSIZE)")
  have "\<forall>n. cm_blocks cm n \<noteq> None" using assms(1) unfolding generous_def by blast
  from grow_total [OF this, of "lb_bufnum lb + CONFBUFSIZE" "lb_buff lb"] have "n \<noteq> 0" using assms(2) grow by (simp add: CONFBUFSIZE_def)
  moreover have "fst (line_piece x e) \<noteq> Line_failed" for x e by (simp add: line_piece_def Let_def)
  ultimately show ?thesis
    using assms(3) grow by (auto simp: read_line_chunk_def Let_def split: option.splits prod.splits) (metis fst_conv)
qed

end
