(* ===== verification/ConfFile.thy ===== *)
theory ConfFile
  imports ConfTotal
begin

text \<open>
  A whole configuration: loading it is reading its lines, with continuations joined, one after another. And where it is not:
  a line that is longer than the buffer of the loader.
\<close>

section \<open>What the loader makes of a text\<close>

definition unended :: "bytes \<Rightarrow> bool" where
  "unended q \<longleftrightarrow> strip_newlines q = q"

text \<open>The text is read in pieces of at most 510 bytes, \<open>cur\<close> is the line so far, and \<open>again\<close> says that it goes on.\<close>

function spec_load :: "sections \<times> bytes \<Rightarrow> bytes \<Rightarrow> bool \<Rightarrow> bytes \<Rightarrow> (sections \<times> bytes) option" where
  "spec_load cfg cur again cs =
     (if cs = [] then (if again then spec_line cfg cur else Some cfg)
      else
        let q = line_of 510 cs; rest = drop (length q) cs; line = cur @ strip_newlines q
        in if ends_in_escape line then spec_load cfg (butlast line) True rest
           else if unended q then spec_load cfg line True rest
           else case spec_line cfg line of None \<Rightarrow> None | Some cfg \<Rightarrow> spec_load cfg [] False rest)"
  by pat_completeness simp_all
termination spec_load
proof (relation "measure (\<lambda>(_, _, _, cs). length cs)")
  have "length (drop (length (line_of 510 cs)) cs) < length cs" if "cs \<noteq> []" for cs
    using line_of_parts(1) [OF that, of 510] that by (simp add: diff_less)
  then show "cs \<noteq> [] \<Longrightarrow> q = line_of 510 cs \<Longrightarrow> rest = drop (length q) cs \<Longrightarrow> line = cur @ strip_newlines q \<Longrightarrow>
      ends_in_escape line \<Longrightarrow> ((cfg, butlast line, True, rest), cfg, cur, again, cs) \<in> measure (\<lambda>(_, _, _, cs). length cs)"
    "cs \<noteq> [] \<Longrightarrow> q = line_of 510 cs \<Longrightarrow> rest = drop (length q) cs \<Longrightarrow> line = cur @ strip_newlines q \<Longrightarrow>
      \<not> ends_in_escape line \<Longrightarrow> unended q \<Longrightarrow> ((cfg, line, True, rest), cfg, cur, again, cs) \<in> measure (\<lambda>(_, _, _, cs). length cs)"
    "cs \<noteq> [] \<Longrightarrow> q = line_of 510 cs \<Longrightarrow> rest = drop (length q) cs \<Longrightarrow> line = cur @ strip_newlines q \<Longrightarrow>
      \<not> ends_in_escape line \<Longrightarrow> \<not> unended q \<Longrightarrow> spec_line cfg line = Some cfg' \<Longrightarrow>
      ((cfg', [], False, rest), cfg, cur, again, cs) \<in> measure (\<lambda>(_, _, _, cs). length cs)"
    for cfg cur again and cs :: bytes and q rest line and cfg' :: "sections \<times> bytes" by auto
qed simp

declare spec_load.simps [simp del]

lemma line_of_nil: "line_of n [] = []"
  by (simp add: line_of_def OPENSSL_memchr_def)

lemma escape_stripped: "ends_in_escape line \<Longrightarrow> \<not> ends_in_escape (butlast line)"
proof (cases line rule: rev_cases)
  case (snoc xs x)
  assume esc: "ends_in_escape line"
  show ?thesis
  proof (cases xs rule: rev_cases)
    case Nil
    then show ?thesis using snoc by (simp add: ends_in_escape_def)
  next
    case (snoc ys y)
    then have "butlast line = ys @ [y]" "\<not> is_esc y" using esc \<open>line = xs @ [x]\<close>
      by (simp_all add: ends_in_escape_def nth_append butlast_append)
    then show ?thesis by (simp add: ends_in_escape_def)
  qed
qed (simp add: ends_in_escape_def)

lemma load_loop_unfold:
  "read_line_chunk methods cm h p lb (ld_eline st) = Some (event, lb', eline, h') \<Longrightarrow>
   load_loop methods cm h p lb st =
      (case event of
         Line_failed \<Rightarrow> Some (False, st\<lparr>ld_eline := eline\<rparr>, h')
       | Line_end \<Rightarrow> Some (True, st\<lparr>ld_eline := eline\<rparr>, h')
       | Line_more \<Rightarrow> load_loop methods cm h' p lb' (st\<lparr>ld_eline := eline\<rparr>)
       | Line line \<Rightarrow> (case load_line cm (st\<lparr>ld_eline := eline\<rparr>) line of
                       (ok, st) \<Rightarrow> if ok then load_loop methods cm h' p lb' st else Some (False, st, h')))"
  by (subst load_loop.simps) (simp add: Let_def)

lemma eline_unseen [simp]: "load_ok (st\<lparr>ld_eline := n\<rparr>) = load_ok st" "load_view (st\<lparr>ld_eline := n\<rparr>) = load_view st"
  "roomy cm (st\<lparr>ld_eline := n\<rparr>) N = roomy cm st N"
  by (simp_all add: load_ok_def load_view_def roomy_def)

lemma load_loop_end:
  assumes "mem_table methods m malloc" "alloc_ok (cm_blocks cm)" "load_ok st" "mem_holds m p ro eof h []" "holds_line lb []" "\<not> lb_again lb"
  shows "\<exists>ok st' h'. load_loop methods cm h p lb st = Some (ok, st', h') \<and> load_ok st' \<and> load_view st' = load_view st \<and>
    (generous cm \<longrightarrow> ok)"
proof -
  obtain event lb' eline h' where chunk: "read_line_chunk methods cm h p lb (ld_eline st) = Some (event, lb', eline, h')"
    "event = Line_failed \<or> event = Line_end"
    using read_line_law [OF assms(1,4,2) _ assms(5), of "ld_eline st"] assms(6) by (auto simp: line_of_nil)
  have "event \<noteq> Line_failed" if "generous cm"
    by (rule read_line_total [OF that _ chunk(1)]) (use assms(5) in \<open>simp add: holds_line_def\<close>)
  then have "event = Line_end" if "generous cm" using chunk(2) that by blast
  then show ?thesis using load_loop_unfold [OF chunk(1)] chunk(2) assms(3) by (cases "event = Line_end") auto
qed

text \<open>There is room for the lines of the text that is left; one is pending when the line goes on.\<close>

definition room_for :: "conf_mem \<Rightarrow> load_state \<Rightarrow> bytes \<Rightarrow> bool \<Rightarrow> bytes \<Rightarrow> bool" where
  "room_for cm st cur again cs \<longleftrightarrow>
     length cur + length cs < 2 ^ 61 \<and> (\<exists>N. roomy cm st N \<and> N + length cs + (if again then 1 else 0) < int_max)"

lemma room_less:
  assumes "room_for cm st cur again cs" "length cs' < length cs" "length cur' + length cs' \<le> length cur + length cs"
  shows "room_for cm st cur' again' cs'"
proof -
  obtain N where "roomy cm st N" "N + length cs + (if again then 1 else 0) < int_max" "length cur + length cs < 2 ^ 61"
    using assms(1) by (auto simp: room_for_def)
  then show ?thesis unfolding room_for_def using assms(2,3) by (intro conjI exI [of _ N]) auto
qed

lemma room_after_line:
  assumes "room_for cm st cur again cs" "length cs' < length cs \<or> again \<and> cs' = []"
    and "\<forall>N. roomy cm st N \<and> N + 1 < int_max \<longrightarrow> roomy cm st' (N + 1)"
  shows "room_for cm st' [] False cs'"
proof -
  obtain N where N: "roomy cm st N" "N + length cs + (if again then 1 else 0) < int_max" "length cur + length cs < 2 ^ 61"
    using assms(1) by (auto simp: room_for_def)
  have less: "N + 1 + length cs' < int_max" "length cs' \<le> length cs" using assms(2) N(2) by auto
  then have "roomy cm st' (N + 1)" using assms(3) N(1) by simp
  then show ?thesis unfolding room_for_def using less N(3) by (intro conjI exI [of _ "N + 1"]) auto
qed

text \<open>
  The loop ends. When it succeeds the object stands for what the text says, and when it fails, nothing having been refused, a
  line of the text is no line.
\<close>

definition loop_result :: "conf_mem \<Rightarrow> load_state \<Rightarrow> sections \<times> bytes \<Rightarrow> bytes \<Rightarrow> bool \<Rightarrow> bytes \<Rightarrow>
    (bool \<times> load_state \<times> bio_heap) option \<Rightarrow> bool" where
  "loop_result cm st cfg cur again cs res \<longleftrightarrow> (\<exists>ok st' h'. res = Some (ok, st', h') \<and>
     (if ok then load_ok st' \<and> spec_load cfg cur again cs = Some (load_view st')
      else conf_ok (ld_conf st') \<and> (room_for cm st cur again cs \<longrightarrow> spec_load cfg cur again cs = None)))"

lemma loop_result_step:
  assumes "loop_result cm st' cfg' cur' again' cs' res"
    and "spec_load cfg cur again cs = spec_load cfg' cur' again' cs'" "room_for cm st cur again cs \<longrightarrow> room_for cm st' cur' again' cs'"
  shows "loop_result cm st cfg cur again cs res"
  using assms unfolding loop_result_def by (elim exE conjE, intro exI conjI) (auto split: if_splits)

lemma load_last_line:
  assumes "mem_table methods m malloc" "alloc_ok (cm_blocks cm)" "fresh_objects cm" "blocks_ok (cm_ptrs cm)"
    and "load_ok st" "load_view st = cfg" "mem_holds m p ro eof h []" "holds_line lb []" "\<not> lb_again lb"
    and "res = (case load_line cm st cur of (ok, st) \<Rightarrow> if ok then load_loop methods cm h p lb st else Some (False, st, h))"
  shows "loop_result cm st cfg cur True [] res"
proof -
  obtain ok st2 where l: "load_line cm st cur = (ok, st2)" by (cases "load_line cm st cur")
  note line = load_line_law [OF assms(5,3,4) l]
  have spec: "spec_load cfg cur True [] = spec_line cfg cur" by (simp add: spec_load.simps)
  have room: "length cur < 2 ^ 61 \<and> generous cm \<and> (\<exists>N. roomy cm st N)" if "room_for cm st cur True []"
    using that by (auto simp: room_for_def roomy_def)
  show ?thesis
  proof (cases ok)
    case False
    then have "room_for cm st cur True [] \<longrightarrow> spec_line cfg cur = None" using line room assms(6) by auto
    then show ?thesis using l line False spec assms(10) unfolding loop_result_def
      by (intro exI [of _ False] exI [of _ st2] exI [of _ h]) simp
  next
    case True
    from load_loop_end [where st = st2, OF assms(1,2) _ assms(7-9)] obtain b st3 h3 where
      "load_loop methods cm h p lb st2 = Some (b, st3, h3)" "load_ok st3" "load_view st3 = load_view st2" "generous cm \<longrightarrow> b"
      using line True by auto
    then show ?thesis using l line True spec assms(6,10) room unfolding loop_result_def
      by (intro exI [of _ b] exI [of _ st3] exI [of _ h3]) (auto simp: load_ok_def)
  qed
qed

lemma load_loop_law:
  assumes "mem_table methods m malloc" "alloc_ok (cm_blocks cm)" "fresh_objects cm" "blocks_ok (cm_ptrs cm)"
  shows "load_ok st \<Longrightarrow> mem_holds m p ro eof h cs \<Longrightarrow> 0 \<notin> set cs \<Longrightarrow> holds_line lb cur \<Longrightarrow> lb_again lb = again \<Longrightarrow>
    (if again then \<not> ends_in_escape cur else cur = []) \<Longrightarrow> load_view st = cfg \<Longrightarrow>
    loop_result cm st cfg cur again cs (load_loop methods cm h p lb st)"
proof (induction cfg cur again cs arbitrary: st h lb rule: spec_load.induct)
  case (1 cfg cur again cs)
  let ?q = "line_of 510 cs"
  let ?line = "cur @ strip_newlines ?q"
  let ?rest = "drop (length ?q) cs"
  obtain event lb' eline h' where chunk: "read_line_chunk methods cm h p lb (ld_eline st) = Some (event, lb', eline, h')"
    "event = Line_failed \<or> mem_holds m p ro eof h' ?rest \<and>
      (if ?q = [] \<and> \<not> lb_again lb then event = Line_end
       else let line = ?line; long = (?q \<noteq> [] \<and> strip_newlines ?q = ?q); esc = ends_in_escape line
            in lb_again lb' = (long \<or> esc) \<and>
               (if long \<or> esc then event = Line_more \<and> holds_line lb' (if esc then butlast line else line)
                else event = Line line \<and> holds_line lb' []))"
    using read_line_law [OF assms(1) 1(5) assms(2) 1(6,7)] by blast
  define st1 where "st1 = st\<lparr>ld_eline := eline\<rparr>"
  have st1: "load_ok st1" "load_view st1 = cfg" "room_for cm st1 = room_for cm st"
    using 1(4,10) by (simp_all add: st1_def room_for_def fun_eq_iff)
  note loop = load_loop_unfold [OF chunk(1), folded st1_def]
  have room: "room_for cm st cur again cs \<Longrightarrow> length cur < 2 ^ 61 \<and> generous cm" by (auto simp: room_for_def roomy_def)
  show ?case
  proof (cases "event = Line_failed")
    case True
    have "\<not> room_for cm st cur again cs"
    proof
      assume "room_for cm st cur again cs"
      from read_line_total [OF conjunct2 [OF room [OF this]] _ chunk(1)] conjunct1 [OF room [OF this]] 1(7) True
      show False by (simp add: holds_line_def)
    qed
    then show ?thesis using loop st1(1) True unfolding loop_result_def
      by (intro exI [of _ False] exI [of _ st1] exI [of _ h']) (simp add: load_ok_def)
  next
    case False
    then have holds: "mem_holds m p ro eof h' ?rest" using chunk(2) by blast
    have zero: "0 \<notin> set ?rest" using 1(6) by (auto dest: in_set_dropD)
    show ?thesis
    proof (cases "cs = []")
      case True
      then have q: "?q = []" "strip_newlines ?q = []" by (simp_all add: line_of_nil strip_newlines_def)
      show ?thesis
      proof (cases again)
        case False
        then have "event = Line_end" using chunk(2) q 1(8) \<open>event \<noteq> Line_failed\<close> by simp
        then show ?thesis using loop st1 True False unfolding loop_result_def
          by (intro exI [of _ True] exI [of _ st1] exI [of _ h']) (simp add: spec_load.simps)
      next
        case again: True
        then have ev: "event = Line cur" "holds_line lb' []" "\<not> lb_again lb'"
          using chunk(2) q 1(8,9) \<open>event \<noteq> Line_failed\<close> by (simp_all add: Let_def)
        have "loop_result cm st1 cfg cur True [] (load_loop methods cm h p lb st)"
          by (rule load_last_line [OF assms st1(1,2) _ ev(2,3)]) (use holds True loop ev(1) in simp_all)
        then show ?thesis by (rule loop_result_step) (use True again st1(3) in simp_all)
      qed
    next
      case cs: False
      have q: "?q \<noteq> []" "?q @ ?rest = cs" using line_of_parts(1,2) [OF cs, of 510] by simp_all
      then have short: "length ?rest < length cs" by (cases ?q) (auto simp: cs)
      have len: "length cur + length ?q + length ?rest = length cur + length cs" using arg_cong [OF q(2), of length] by simp
      have line_len: "length ?line + length ?rest \<le> length cur + length cs" "length (butlast ?line) + length ?rest \<le> length cur + length cs"
        using len strip_newlines_length [of ?q] by simp_all
      have ev: "lb_again lb' = (unended ?q \<or> ends_in_escape ?line)"
          "if unended ?q \<or> ends_in_escape ?line
           then event = Line_more \<and> holds_line lb' (if ends_in_escape ?line then butlast ?line else ?line)
           else event = Line ?line \<and> holds_line lb' []"
        using chunk(2) False q(1) by (simp_all add: Let_def unended_def)
      have spec: "spec_load cfg cur again cs =
          (if ends_in_escape ?line then spec_load cfg (butlast ?line) True ?rest
           else if unended ?q then spec_load cfg ?line True ?rest
           else case spec_line cfg ?line of None \<Rightarrow> None | Some cfg \<Rightarrow> spec_load cfg [] False ?rest)"
        using cs by (subst spec_load.simps) (simp add: Let_def)
      show ?thesis
      proof (cases "ends_in_escape ?line")
        case True
        then have e: "event = Line_more" "holds_line lb' (butlast ?line)" "lb_again lb' = True" using ev by simp_all
        have step: "load_loop methods cm h p lb st = load_loop methods cm h' p lb' st1"
          "spec_load cfg cur again cs = spec_load cfg (butlast ?line) True ?rest" using loop e(1) spec True by simp_all
        have "loop_result cm st1 cfg (butlast ?line) True ?rest (load_loop methods cm h' p lb' st1)"
          by (rule 1(1) [OF cs refl refl refl True st1(1) holds zero e(2,3) _ st1(2)]) (simp add: escape_stripped [OF True])
        then show ?thesis unfolding step(1) by (rule loop_result_step [OF _ step(2)]) (use room_less short line_len st1(3) in auto)
      next
        case esc: False
        show ?thesis
        proof (cases "unended ?q")
          case True
          then have e: "event = Line_more" "holds_line lb' ?line" "lb_again lb' = True" using ev esc by simp_all
          have step: "load_loop methods cm h p lb st = load_loop methods cm h' p lb' st1"
            "spec_load cfg cur again cs = spec_load cfg ?line True ?rest" using loop e(1) spec esc True by simp_all
          have "loop_result cm st1 cfg ?line True ?rest (load_loop methods cm h' p lb' st1)"
            by (rule 1(2) [OF cs refl refl refl esc True st1(1) holds zero e(2,3) _ st1(2)]) (simp add: esc)
          then show ?thesis unfolding step(1) by (rule loop_result_step [OF _ step(2)]) (use room_less short line_len st1(3) in auto)
        next
          case nl: False
          then have e: "event = Line ?line" "holds_line lb' []" "lb_again lb' = False" using ev esc by simp_all
          obtain ok st2 where l: "load_line cm st1 ?line = (ok, st2)" by (cases "load_line cm st1 ?line")
          note line = load_line_law [OF st1(1) assms(3,4) l]
          show ?thesis
          proof (cases ok)
            case False
            have "room_for cm st cur again cs \<longrightarrow> spec_line cfg ?line = None"
              using line False st1(2,3) line_len(1) by (auto simp: room_for_def st1_def)
            then show ?thesis using loop e(1) l line False spec esc nl unfolding loop_result_def
              by (intro exI [of _ False] exI [of _ st2] exI [of _ h']) simp
          next
            case ok: True
            then have next_line: "load_ok st2" "spec_line cfg ?line = Some (load_view st2)" using line st1(2) by simp_all
            have step: "load_loop methods cm h p lb st = load_loop methods cm h' p lb' st2"
              "spec_load cfg cur again cs = spec_load (load_view st2) [] False ?rest"
              using loop e(1) l ok spec esc nl next_line(2) by simp_all
            have "loop_result cm st2 (load_view st2) [] False ?rest (load_loop methods cm h' p lb' st2)"
              by (rule 1(3) [OF cs refl refl refl esc nl next_line(2,1) holds zero e(2,3) _ refl]) simp
            then show ?thesis unfolding step(1)
              by (rule loop_result_step [OF _ step(2)]) (use room_after_line [of cm st1 cur again cs ?rest st2] short st1(3) line ok in auto)
          qed
        qed
      qed
    qed
  qed
qed


section \<open>The lines of a text\<close>

text \<open>
  A line ends at a newline or at the end of the text; one that ends in a single backslash goes on in the next. \<open>pend\<close> is a line
  that goes on.
\<close>

function join_lines :: "bytes option \<Rightarrow> bytes \<Rightarrow> bytes list" where
  "join_lines pend cs =
     (if cs = [] then (case pend of None \<Rightarrow> [] | Some cur \<Rightarrow> [cur])
      else
        let l = takeWhile (\<lambda>b. b \<noteq> 10) cs; rest = drop (Suc (length l)) cs;
            line = (case pend of None \<Rightarrow> [] | Some cur \<Rightarrow> cur) @ strip_newlines l
        in if ends_in_escape line then join_lines (Some (butlast line)) rest else line # join_lines None rest)"
  by pat_completeness simp_all
termination join_lines
  by (relation "measure (\<lambda>(_, cs). length cs)") auto

declare join_lines.simps [simp del]

fun run_lines :: "bytes list \<Rightarrow> sections \<times> bytes \<Rightarrow> (sections \<times> bytes) option" where
  "run_lines [] cfg = Some cfg"
| "run_lines (l # ls) cfg = (case spec_line cfg l of None \<Rightarrow> None | Some cfg \<Rightarrow> run_lines ls cfg)"

text \<open>No line is longer than 509 bytes; \<open>n\<close> bytes of the first one have been seen.\<close>

fun short_lines :: "nat \<Rightarrow> bytes \<Rightarrow> bool" where
  "short_lines n [] \<longleftrightarrow> n \<le> 509"
| "short_lines n (b # bs) \<longleftrightarrow> (if b = 10 then n \<le> 509 \<and> short_lines 0 bs else short_lines (n + 1) bs)"

lemma short_lines_first: "short_lines n cs \<Longrightarrow> n + length (takeWhile (\<lambda>b. b \<noteq> 10) cs) \<le> 509"
proof (induction cs arbitrary: n)
  case (Cons b bs)
  then show ?case using Cons.IH [of "n + 1"] by (auto split: if_splits)
qed simp

lemma short_lines_rest: "short_lines n cs \<Longrightarrow> short_lines 0 (drop (Suc (length (takeWhile (\<lambda>b. b \<noteq> 10) cs))) cs)"
  by (induction cs arbitrary: n) (auto split: if_splits)

lemma line_of_short:
  assumes "length (takeWhile (\<lambda>b. b \<noteq> 10) cs) \<le> 509" "cs \<noteq> []"
  shows "line_of 510 cs = (if 10 \<in> set cs then takeWhile (\<lambda>b. b \<noteq> 10) cs @ [10] else cs)"
proof -
  let ?l = "line_of 510 cs"
  note parts = line_of_parts [OF assms(2), of 510, simplified]
  have split: "butlast ?l @ last ?l # drop (length ?l) cs = cs"
    using parts(1,2) append_butlast_last_id [of ?l] by (metis append_Cons append_Nil append_assoc)
  have pre: "takeWhile (\<lambda>b. b \<noteq> 10) (butlast ?l @ xs) = butlast ?l @ takeWhile (\<lambda>b. b \<noteq> 10) xs" for xs
    using parts(4) by (intro takeWhile_append2) auto
  show ?thesis
  proof (cases "last ?l = 10")
    case True
    then have "takeWhile (\<lambda>b. b \<noteq> 10) cs = butlast ?l" using pre [of "10 # drop (length ?l) cs"] split by simp
    moreover have "10 \<in> set cs" using split True by (metis in_set_conv_decomp)
    moreover have "?l = butlast ?l @ [10]" using append_butlast_last_id [OF parts(1)] True by simp
    ultimately show ?thesis by simp
  next
    case False
    have "takeWhile (\<lambda>b. b \<noteq> 10) cs = butlast ?l @ last ?l # takeWhile (\<lambda>b. b \<noteq> 10) (drop (length ?l) cs)"
      using pre [of "last ?l # drop (length ?l) cs"] split False by simp
    then have "length ?l \<le> 509" using assms(1) parts(1) by (simp add: length_butlast)
    then have l: "?l = cs" using parts(5) False by simp
    then have "10 \<notin> set cs" using parts(4) False split by (metis append_butlast_last_id assms(2) in_set_conv_decomp_first l rotate1.simps(2) set_ConsD set_rotate1)
    then show ?thesis using l by simp
  qed
qed

lemma strip_newline_end [simp]: "strip_newlines (l @ [10]) = strip_newlines l"
  by (simp add: strip_newlines_def)

lemma load_lines:
  "short_lines 0 cs \<Longrightarrow> (case pend of None \<Rightarrow> cur = [] \<and> \<not> again | Some l \<Rightarrow> cur = l \<and> again) \<Longrightarrow>
    spec_load cfg cur again cs = run_lines (join_lines pend cs) cfg"
proof (induction pend cs arbitrary: cfg cur again rule: join_lines.induct)
  case (1 pend cs)
  show ?case
  proof (cases "cs = []")
    case True
    then show ?thesis using 1(4) by (cases pend) (simp_all add: spec_load.simps join_lines.simps split: option.split)
  next
    case False
    let ?l = "takeWhile (\<lambda>b. b \<noteq> 10) cs"
    let ?rest = "drop (Suc (length ?l)) cs"
    let ?line = "cur @ strip_newlines ?l"
    define q where "q = line_of 510 cs"
    have cur: "(case pend of None \<Rightarrow> [] | Some cur \<Rightarrow> cur) = cur" using 1(4) by (auto split: option.splits)
    have short: "short_lines 0 ?rest" using short_lines_rest [OF 1(3)] .
    have q: "q = (if 10 \<in> set cs then ?l @ [10] else cs)" using line_of_short [of cs] short_lines_first [OF 1(3)] False by (simp add: q_def)
    have l: "?l = cs" if "10 \<notin> set cs" using that by (auto simp: takeWhile_eq_all_conv)
    have sq: "strip_newlines q = strip_newlines ?l \<and> drop (length q) cs = ?rest"
    proof (cases "10 \<in> set cs")
      case True
      then have "q = ?l @ [10]" using q by simp
      then show ?thesis by (simp only: strip_newline_end length_append_singleton simp_thms)
    next
      case False
      from l [OF this] q False have "?l = cs" "q = cs" by simp_all
      then show ?thesis by (simp only: drop_all order_refl le_SucI simp_thms)
    qed
    note sq = conjunct1 [OF sq] conjunct2 [OF sq]
    have spec: "spec_load cfg cur again cs =
        (if ends_in_escape ?line then spec_load cfg (butlast ?line) True ?rest
         else if strip_newlines ?l = q then spec_load cfg ?line True ?rest
         else case spec_line cfg ?line of None \<Rightarrow> None | Some cfg \<Rightarrow> spec_load cfg [] False ?rest)"
      using False by (subst spec_load.simps) (simp only: Let_def q_def [symmetric] unended_def sq False if_False)
    have join: "join_lines pend cs =
        (if ends_in_escape ?line then join_lines (Some (butlast ?line)) ?rest else ?line # join_lines None ?rest)"
      using False cur by (subst join_lines.simps) (simp add: Let_def)
    show ?thesis
    proof (cases "ends_in_escape ?line")
      case True
      then show ?thesis using spec join 1(1) [OF False refl refl cur [symmetric, THEN arg_cong2 [where f = "(@)"], OF refl]] short by simp
    next
      case esc: False
      show ?thesis
      proof (cases "strip_newlines ?l = q")
        case True
        have "length (strip_newlines ?l) \<le> length ?l" by (rule strip_newlines_length)
        then have "10 \<notin> set cs" using True q by auto
        from l [OF this] have "?rest = []" by (simp only: drop_all order_refl le_SucI)
        then show ?thesis using spec join esc True by (simp add: spec_load.simps join_lines.simps split: option.split)
      next
        case nl: False
        have "spec_load c [] False ?rest = run_lines (join_lines None ?rest) c" for c
          using 1(2) [OF False refl refl, of ?line] cur esc short by simp
        then show ?thesis using spec join esc nl by (simp split: option.split)
      qed
    qed
  qed
qed


section \<open>Loading a configuration\<close>

text \<open>A new object has no sections.\<close>

lemma NCONF_new_ok:
  assumes "NCONF_new cm method c = Some c'"
  shows "conf_ok c' \<and> conf_map c' = (\<lambda>_. None)"
proof -
  obtain t where t: "OPENSSL_lh_new (cm_malloc cm 48) (cm_malloc cm) = Some t" "conf_sections c' = t" "conf_values c' = t"
    using assms by (auto simp: NCONF_new_def split: if_splits option.splits)
  note new = new_table [OF t(1)]
  have ok: "conf_ok c'" "members (conf_sections c') = {}"
    by (simp_all add: conf_ok_def t(2,3) conjunct1 [OF new] conjunct1 [OF conjunct2 [OF new]])
  then show ?thesis using conf_map_None [OF ok(1)] by (auto simp: fun_eq_iff)
qed

lemma load_bio_law:
  assumes "mem_table methods m malloc" "mem_holds m p ro eof h cs" "alloc_ok (cm_blocks cm)" "fresh_objects cm" "blocks_ok (cm_ptrs cm)"
    and "conf_ok c" "conf_map c kDefaultSectionName = None" "0 \<notin> set cs"
  defines "cfg \<equiv> ((conf_map c)(kDefaultSectionName \<mapsto> []), kDefaultSectionName)"
  shows "\<exists>ok eline c' h'. NCONF_load_bio methods cm h c p = Some ((ok, eline), c', h') \<and> conf_ok c' \<and>
    (if ok then \<exists>cur. spec_load cfg [] False cs = Some (conf_map c', cur)
     else generous cm \<and> finite_heap c \<and> bounded N (conf_map c) \<and> N + length cs < int_max \<longrightarrow> spec_load cfg [] False cs = None)"
proof (cases "cm_malloc cm 24 \<and> cm_malloc cm (length kDefaultSectionName + 1)")
  case False
  then have "\<not> generous cm" by (auto simp: generous_def)
  then show ?thesis using assms(6) False by (intro exI [of _ False] exI [of _ 0] exI [of _ c] exI [of _ h]) (auto simp: NCONF_load_bio_def)
next
  case True
  obtain sv c1 where new: "NCONF_new_section cm c kDefaultSectionName = (sv, c1)" by (cases "NCONF_new_section cm c kDefaultSectionName")
  note c1 = new_section_spec [OF assms(6,7,4) new]
  have total: "sv \<noteq> 0" if "generous cm" "finite_heap c" using new_section_total [OF assms(6,7,4) that] new by simp
  show ?thesis
  proof (cases "sv = 0")
    case sv: True
    then have "\<not> (generous cm \<and> finite_heap c)" using total by blast
    then show ?thesis using True new c1 sv
      by (intro exI [of _ False] exI [of _ 0] exI [of _ c1] exI [of _ h]) (auto simp: NCONF_load_bio_def)
  next
    case sv: False
    define st where "st = \<lparr>ld_conf = c1, ld_section = kDefaultSectionName, ld_sv = sv, ld_eline = 0\<rparr>"
    define lb where "lb = \<lparr>lb_buff = \<lparr>bm_length = 0, bm_data = None, bm_pos = 0, bm_max = 0\<rparr>, lb_bufnum = 0, lb_again = False\<rparr>"
    have st: "load_ok st" "load_view st = cfg"
      using c1 sv by (simp_all add: st_def load_ok_def load_view_def cfg_def)
    have lb: "holds_line lb []" "lb_again lb = False" by (simp_all add: lb_def holds_line_def line_ok_def)
    have room: "room_for cm st [] False cs"
      if "generous cm" "finite_heap c" "bounded N (conf_map c)" "N + length cs < int_max"
    proof -
      have "finite_heap c1" using finite_new_section [OF that(2), of cm kDefaultSectionName] new by simp
      moreover have "bounded N (conf_map c1)" using that(3) c1 sv by (simp add: bounded_def)
      ultimately show ?thesis using that(1,4) unfolding room_for_def
        by (intro conjI exI [of _ N]) (simp_all add: roomy_def st_def)
    qed
    have load: "NCONF_load_bio methods cm h c p =
        map_option (\<lambda>(ok, st, h). ((ok, ld_eline st), ld_conf st, h)) (load_loop methods cm h p lb st)"
      using True new sv by (simp add: NCONF_load_bio_def st_def lb_def)
    have "loop_result cm st (load_view st) [] False cs (load_loop methods cm h p lb st)"
      by (rule load_loop_law [OF assms(1,3,4,5) st(1) assms(2,8) lb]) simp_all
    then obtain ok st' h' where loop: "load_loop methods cm h p lb st = Some (ok, st', h')"
      "if ok then load_ok st' \<and> spec_load cfg [] False cs = Some (load_view st')
       else conf_ok (ld_conf st') \<and> (room_for cm st [] False cs \<longrightarrow> spec_load cfg [] False cs = None)"
      unfolding loop_result_def st(2) by (elim exE conjE) (rule that)
    show ?thesis
      by (intro exI [of _ ok] exI [of _ "ld_eline st'"] exI [of _ "ld_conf st'"] exI [of _ h'])
        (use load loop room in \<open>auto simp: load_view_def load_ok_def split: if_splits\<close>)
  qed
qed

text \<open>
  Loading a configuration from a memory BIO ends, whatever the allocator does, and keeps the tables and the sections in step.
  When it succeeds the object stands for what the lines of the text say: the values of a section are those of its assignments,
  in order, where a later one replaces an earlier one of the same name. When nothing is refused it fails for a line that is
  no line only.
\<close>

lemma conf_load_reads_lines:
  assumes "mem_table methods m malloc" "mem_holds m p ro eof h cs" "alloc_ok (cm_blocks cm)" "fresh_objects cm" "blocks_ok (cm_ptrs cm)"
    and "conf_ok c" "conf_map c kDefaultSectionName = None" "0 \<notin> set cs" "short_lines 0 cs"
  shows "\<exists>ok eline c' h'. NCONF_load_bio methods cm h c p = Some ((ok, eline), c', h') \<and> conf_ok c' \<and>
    (case run_lines (join_lines None cs) ((conf_map c)(kDefaultSectionName \<mapsto> []), kDefaultSectionName) of
       None \<Rightarrow> \<not> ok
     | Some (secs, cur) \<Rightarrow> (ok \<longrightarrow> conf_map c' = secs) \<and>
         (generous cm \<and> finite_heap c \<and> bounded N (conf_map c) \<and> N + length cs < int_max \<longrightarrow> ok))"
proof -
  let ?cfg = "((conf_map c)(kDefaultSectionName \<mapsto> []), kDefaultSectionName)"
  have lines: "spec_load ?cfg [] False cs = run_lines (join_lines None cs) ?cfg" by (rule load_lines [OF assms(9)]) simp
  obtain ok eline c' h' where load: "NCONF_load_bio methods cm h c p = Some ((ok, eline), c', h')" "conf_ok c'"
    "if ok then \<exists>cur. run_lines (join_lines None cs) ?cfg = Some (conf_map c', cur)
     else generous cm \<and> finite_heap c \<and> bounded N (conf_map c) \<and> N + length cs < int_max \<longrightarrow> run_lines (join_lines None cs) ?cfg = None"
    using load_bio_law [OF assms(1-8), of N] unfolding lines by (elim exE conjE) (rule that)
  then show ?thesis
    by (intro exI [of _ ok] exI [of _ eline] exI [of _ c'] exI [of _ h']) (auto split: option.split if_splits)
qed

end
