(* ===== verification/ConfText.thy ===== *)
theory ConfText
  imports ConfFile
begin

text \<open>
  Writing a configuration as a text: the sections in brackets, the values in double quotes with the quotes and the backslashes
  in them escaped. The loader reads such a text back, whatever the values are.
\<close>

section \<open>The text of a configuration\<close>











section \<open>Characters and names\<close>






section \<open>Quoted strings\<close>








section \<open>Reading a line\<close>



section \<open>Reading all lines\<close>













section \<open>Properties\<close>












end
