(* ===== verification/Spec2Isabelle.thy ===== *)
theory Spec2Isabelle
  imports CbbSteps Unicode PbEncodeLimits PbDecode Base64 Asn1Int Asn1Bits TimeConversion Oid SetOf BerString StackSteps LhashSteps
    BioPairTrace BioAsn1 ConfText
begin

text \<open>
  This library verifies the C code that the chat application links into its iOS build. The application itself is a
  Flutter program in Dart; the repository's C sources are the pods under \<^verbatim>\<open>src/ios/Pods\<close>: BoringSSL, nanopb, libwebp and
  generated message tables. The parts modelled are the ones that read and write untrusted bytes and the containers below
  them. File names here are relative to \<^verbatim>\<open>src/ios/Pods/BoringSSL-GRPC/src/crypto\<close> and \<^verbatim>\<open>src/ios/Pods/nanopb\<close>.

  \<^bold>\<open>The program and the theories.\<close>

  \<^item> Byte strings. \<^verbatim>\<open>bytestring/cbs.c\<close> reads numbers, length prefixes and ASN.1 elements from the front of a byte string, and
    \<^verbatim>\<open>bytestring/cbb.c\<close> writes them, with length prefixes that are filled in when a child is flushed. \<open>Mem\<close> has the helpers
    of \<^verbatim>\<open>mem.c\<close>, \<open>Cbs\<close> and \<open>Cbb\<close> the two files; a reader is the list of the bytes it still covers, and a builder is the
    buffer with the stack of its pending children, where the handle of a child is its depth. \<open>Codec\<close> states what a reader
    and a codec promise as locales, \<open>Der\<close> and \<open>DerInt\<close> the DER encodings that the parsers accept, exactly; \<open>CbbSpec\<close>,
    \<open>Writer\<close>, \<open>CbbValues\<close> and \<open>CbbInt\<close> the memory safety of the builder and that every writer appends its encoding;
    \<open>CbbBuild\<close> runs builders to their end, and \<open>CbbSteps\<close> closes their safety under every sequence of calls.
  \<^item> On top of them: \<open>Unicode\<close> (\<^verbatim>\<open>bytestring/unicode.c\<close>), \<open>Oid\<close> (object identifiers as text, with the decimals of
    \<open>Decimal\<close>), \<open>SetOf\<close> (\<open>CBB_flush_asn1_set_of\<close>), \<open>Ber\<close> and \<open>BerString\<close> (\<^verbatim>\<open>bytestring/ber.c\<close>, BER converted to DER), and
    \<open>Base64\<close> (\<^verbatim>\<open>base64/base64.c\<close>, blocks and streams) over the branch-free comparisons of \<open>ConstTime\<close> (\<^verbatim>\<open>internal.h\<close>).
  \<^item> ASN.1 objects. \<open>Asn1String\<close> (\<^verbatim>\<open>asn1/asn1_lib.c\<close>), \<open>Asn1Int\<close> (\<^verbatim>\<open>asn1/a_int.c\<close>) and \<open>Asn1Bits\<close> (\<^verbatim>\<open>asn1/a_bitstr.c\<close>);
    \<open>PosixTime\<close> (\<^verbatim>\<open>asn1/posix_time.c\<close>), \<open>Asn1Time\<close> and \<open>TimeConversion\<close> (\<^verbatim>\<open>asn1/a_time.c\<close>, \<^verbatim>\<open>a_utctm.c\<close>, \<^verbatim>\<open>a_gentm.c\<close>).
  \<^item> Containers. \<open>Stack\<close> (\<^verbatim>\<open>stack/stack.c\<close>) with \<open>StackSpec\<close> and \<open>StackSteps\<close>: a growing array of pointers refines a list,
    its heap sort sorts, its search finds the first match. \<open>Lhash\<close> (\<^verbatim>\<open>lhash/lhash.c\<close>) with \<open>LhashSpec\<close> and \<open>LhashSteps\<close>: a
    hash table refines a finite map and stays balanced. Both are state machines of their calls.
  \<^item> Configuration files (\<^verbatim>\<open>conf/conf.c\<close>). \<open>Conf\<close> and \<open>ConfLoad\<close> model the object, whose two hash tables and stacks share
    values on a heap, the reader of lines and the loader. \<open>KeyTable\<close> is the hash table of objects by their keys; \<open>ConfSpec\<close> and
    \<open>ConfSteps\<close> show that every change keeps tables and stacks in step and acts on lists of names with values, \<open>ConfLines\<close> what
    the loader reads from a memory BIO, \<open>ConfTotal\<close> when loading succeeds, \<open>ConfFile\<close> that loading a text is reading its lines,
    and \<open>ConfText\<close> that a configuration written as text is read back.
  \<^item> Streams of bytes. \<open>Bio\<close> (\<^verbatim>\<open>bio/bio.c\<close>) is the object with a table of methods and the checks around each call; \<open>BioPair\<close>
    (\<^verbatim>\<open>bio/pair.c\<close>) two connected ends with a ring buffer for each direction; \<open>BioMem\<close> growing buffers (\<^verbatim>\<open>buf/buf.c\<close>), memory
    BIOs (\<^verbatim>\<open>bio/bio_mem.c\<close>) and the readers of whole objects. \<open>BioPairSpec\<close> shows that the ring is a bounded queue,
    \<open>BioPairSteps\<close> and \<open>BioPairTrace\<close> that a pair is two of them under every sequence of calls, \<open>BioSource\<close> states what
    reading needs as a locale that pairs and memory BIOs provide, and \<open>BioAsn1\<close> reads ASN.1 through it.
  \<^item> nanopb. \<open>PbCommon\<close> (\<^verbatim>\<open>pb.h\<close>, \<^verbatim>\<open>pb_common.c\<close>: field descriptors and the iterator), \<open>PbStream\<close> and \<open>PbWire\<close> (input
    streams and the wire format), \<open>PbFields\<close> (field codecs), \<open>PbCodec\<close>, \<open>PbRoundtrip\<close>, \<open>PbValues\<close> and \<open>PbArray\<close> (what is
    encoded is decoded, through locales for values and their encodings), \<open>PbLimits\<close> (no stream is left),
    \<open>PbMemory\<close>, \<open>PbEncode\<close>, \<open>PbDefaults\<close> and \<open>PbDecode\<close> (whole messages in a byte-addressed memory), \<open>PbEncodeSpec\<close>,
    \<open>PbEncodeTotal\<close> and \<open>PbEncodeLimits\<close> (the two passes over a submessage agree, encoding returns, and it stays in its buffer).

  \<^bold>\<open>How the code is modelled.\<close> Words have their width (\<open>u8\<close> to \<open>u64\<close>) and wrap; \<open>size_t\<close> is a natural number where the code
  checks for overflow by adding, with \<open>size_add\<close> the addition modulo \<open>2 ^ 64\<close>; \<open>int\<close> and \<open>int64_t\<close> are integers with the
  bounds written out. A failing function returns \<open>None\<close> (or an error value) and the state it leaves behind; output
  parameters are set on success only and are part of the result. Memory is a list of bytes for a block and a map from
  addresses for a heap; the machine is little-endian with 64-bit pointers. The allocator is a parameter: which requests
  succeed, and with nanopb and the BIOs the addresses it returns. Callbacks, method tables and message descriptors that the
  program brings are parameters too. From the C library, \<open>memcmp\<close>, \<open>memchr\<close>, \<open>memmove\<close>, \<open>strcmp\<close>, \<open>qsort\<close>, \<open>struct tm\<close> and the
  decimal conversions of \<open>snprintf\<close> are modelled by what the standard says. Locks and atomics are sequential.

  \<^bold>\<open>Bounds and fuel.\<close> Loops that end are total functions: they recurse on the bytes that are left, on the remaining count or
  with a measure. Loops over chains, rings and sources that need not end are partial functions with the value \<open>None\<close> for no
  outcome, and the theorems about them state that there is one. The recursion of nanopb over submessages and extensions
  has a bound \<open>n\<close>, of which \<open>None\<close> says that it was too small; \<open>pb_encode_returns\<close> shows that the nesting of the message
  type is enough, whatever the memory holds, for message types without extension fields, whose chains are data of the program. The BER conversion has the code's own limit of 128 levels.

  \<^bold>\<open>What is shown.\<close> The strict parsers accept exactly the canonical encodings, and the builders write them without leaving
  their buffers; decoding inverts encoding for DER, base64, times, object identifiers and the values of nanopb; containers
  and streams refine lists, finite maps and queues under every sequence of calls; the properties on errors pin down where
  the code departs from its comments or from a standard, and the manifest lists those departures as findings.

  \<^bold>\<open>Not modelled.\<close> The Dart, Swift, Objective-C and C++ sources and the shells of the platforms are not C. The gRPC-Core tables
  and the protobuf descriptors are generated data. libwebp is a vendored image codec. Of BoringSSL, the ciphers, hashes,
  big numbers, certificates and the TLS state machine are left out: their core is arithmetic and assembly that needs a
  development of its own. File, socket and filter BIOs are calls of the operating system; \<open>ex_data\<close>, the error queue and
  locks carry no result of the functions modelled here. Freeing memory is modelled where it changes what a later call
  can see (the BIO heap, nanopb's release), and not for buffers that only go away.
\<close>

end
